(* ===== verification/Prelude.thy ===== *)
theory Prelude
  imports Main "HOL-Library.Word" "HOL-Library.Multiset"
begin

unbundle bit_operations_syntax

text \<open>
  The shared ground of the development: CNF semantics over DIMACS-style integer literals, the
  outcome type for code that may abort or run forever, and the list, word and integer lemmas
  that several components use.

  A literal is a non-zero C \<^verbatim>\<open>int\<close>: \<open>l\<close> is the variable \<open>\<bar>l\<bar>\<close> itself when positive and its
  negation when negative.  A clause is a list of literals, read as a disjunction.
\<close>

subsection \<open>Fact collections\<close>

named_theorems cnf_simps \<open>unfolding CNF semantics on concrete clauses\<close>
named_theorems frame_simps \<open>fields an operation leaves alone\<close>
named_theorems l2u_simps \<open>literal to index arithmetic\<close>

subsection \<open>CNF semantics\<close>

type_synonym literal = int
type_synonym clause = "int list"
type_synonym assignment = "int \<Rightarrow> bool"

definition lit_true :: "assignment \<Rightarrow> literal \<Rightarrow> bool" where
  "lit_true \<alpha> l \<longleftrightarrow> (if 0 < l then \<alpha> l else \<not> \<alpha> (- l))"

definition clause_true :: "assignment \<Rightarrow> clause \<Rightarrow> bool" where
  "clause_true \<alpha> C \<longleftrightarrow> (\<exists>l \<in> set C. lit_true \<alpha> l)"

definition models :: "assignment \<Rightarrow> clause set \<Rightarrow> bool" where
  "models \<alpha> F \<longleftrightarrow> (\<forall>C \<in> F. clause_true \<alpha> C)"

definition entails :: "clause set \<Rightarrow> clause \<Rightarrow> bool" where
  "entails F C \<longleftrightarrow> (\<forall>\<alpha>. models \<alpha> F \<longrightarrow> clause_true \<alpha> C)"

definition unsat :: "clause set \<Rightarrow> bool" where
  "unsat F \<longleftrightarrow> \<not> (\<exists>\<alpha>. models \<alpha> F)"

text \<open>The unit clauses that assert each literal of a list.\<close>

definition units :: "literal list \<Rightarrow> clause set" where
  "units ls = (\<lambda>l. [l]) ` set ls"

lemma lit_true_uminus [simp]: "l \<noteq> 0 \<Longrightarrow> lit_true \<alpha> (- l) \<longleftrightarrow> \<not> lit_true \<alpha> l"
  by (auto simp: lit_true_def)

lemma clause_true_simps [simp, cnf_simps]:
  "\<not> clause_true \<alpha> []"
  "clause_true \<alpha> (l # C) \<longleftrightarrow> lit_true \<alpha> l \<or> clause_true \<alpha> C"
  "clause_true \<alpha> (C @ D) \<longleftrightarrow> clause_true \<alpha> C \<or> clause_true \<alpha> D"
  by (auto simp: clause_true_def)

lemma clause_true_mono: "clause_true \<alpha> C \<Longrightarrow> set C \<subseteq> set D \<Longrightarrow> clause_true \<alpha> D"
  by (auto simp: clause_true_def)

lemma clause_true_cong_set: "set C = set D \<Longrightarrow> clause_true \<alpha> C = clause_true \<alpha> D"
  by (simp add: clause_true_def)

lemma models_simps [simp, cnf_simps]:
  "models \<alpha> {}"
  "models \<alpha> (insert C F) \<longleftrightarrow> clause_true \<alpha> C \<and> models \<alpha> F"
  "models \<alpha> (F \<union> G) \<longleftrightarrow> models \<alpha> F \<and> models \<alpha> G"
  by (auto simp: models_def)

lemma models_units [simp]: "models \<alpha> (units ls) \<longleftrightarrow> (\<forall>l \<in> set ls. lit_true \<alpha> l)"
  by (auto simp: models_def units_def clause_true_def)

lemma modelsD: "models \<alpha> F \<Longrightarrow> C \<in> F \<Longrightarrow> clause_true \<alpha> C"
  by (auto simp: models_def)

lemma models_antimono: "models \<alpha> G \<Longrightarrow> F \<subseteq> G \<Longrightarrow> models \<alpha> F"
  by (auto simp: models_def)

lemma entailsI [intro?]: "(\<And>\<alpha>. models \<alpha> F \<Longrightarrow> clause_true \<alpha> C) \<Longrightarrow> entails F C"
  by (auto simp: entails_def)

lemma entailsD: "entails F C \<Longrightarrow> models \<alpha> F \<Longrightarrow> clause_true \<alpha> C"
  by (auto simp: entails_def)

lemma entails_member: "C \<in> F \<Longrightarrow> entails F C"
  by (auto simp: entails_def models_def)

lemma entails_mono: "entails F C \<Longrightarrow> F \<subseteq> G \<Longrightarrow> entails G C"
  by (auto simp: entails_def dest: models_antimono)

lemma entails_subset: "entails F C \<Longrightarrow> set C \<subseteq> set D \<Longrightarrow> entails F D"
  by (auto simp: entails_def dest: clause_true_mono)

lemma entails_cong_set: "set C = set D \<Longrightarrow> entails F C = entails F D"
  by (auto simp: entails_def dest: clause_true_cong_set)

lemma entails_unitD: "entails F [l] \<Longrightarrow> models \<alpha> F \<Longrightarrow> lit_true \<alpha> l"
  by (auto simp: entails_def)

lemma unsat_mono: "unsat F \<Longrightarrow> F \<subseteq> G \<Longrightarrow> unsat G"
  by (auto simp: unsat_def dest: models_antimono)

lemma unsat_entails: "unsat F \<Longrightarrow> entails F C"
  by (auto simp: unsat_def entails_def)

lemma entails_empty_iff: "entails F [] \<longleftrightarrow> unsat F"
  by (auto simp: unsat_def entails_def)

text \<open>Refutation: a clause is implied when its negation is contradictory.\<close>

lemma entails_refute:
  assumes "unsat (F \<union> units (map uminus C))" and "0 \<notin> set C"
  shows "entails F C"
proof
  fix \<alpha> assume m: "models \<alpha> F"
  show "clause_true \<alpha> C"
  proof (rule ccontr)
    assume "\<not> clause_true \<alpha> C"
    then have "\<forall>l \<in> set C. lit_true \<alpha> (- l)"
      using assms(2) by (metis clause_true_def lit_true_uminus)
    then have "models \<alpha> (F \<union> units (map uminus C))"
      using m by simp
    then show False using assms(1) by (auto simp: unsat_def)
  qed
qed

text \<open>Unit resolution against implied literals: falsified literals may be dropped.\<close>

lemma entails_drop_false:
  assumes "entails F C" and "\<And>l. l \<in> set C \<Longrightarrow> l \<notin> set D \<Longrightarrow> entails F [- l]"
    and "0 \<notin> set C"
  shows "entails F D"
proof
  fix \<alpha> assume m: "models \<alpha> F"
  then obtain l where l: "l \<in> set C" "lit_true \<alpha> l"
    using entailsD [OF assms(1) m] by (auto simp: clause_true_def)
  have "l \<in> set D"
  proof (rule ccontr)
    assume "l \<notin> set D"
    then have "lit_true \<alpha> (- l)" using assms(2) l(1) m entails_unitD by blast
    then show False using l assms(3) by (metis lit_true_uminus)
  qed
  then show "clause_true \<alpha> D" using l(2) by (auto simp: clause_true_def)
qed

subsection \<open>Vectors\<close>

text \<open>\<^verbatim>\<open>std::swap (v[i], v[j])\<close>.\<close>

definition list_swap :: "'a list \<Rightarrow> nat \<Rightarrow> nat \<Rightarrow> 'a list" where
  "list_swap xs i j = xs[i := xs ! j, j := xs ! i]"

text \<open>\<^verbatim>\<open>v.resize (n, x)\<close>: cut to \<open>n\<close> elements or padded with \<open>x\<close>.\<close>

definition resize :: "nat \<Rightarrow> 'a \<Rightarrow> 'a list \<Rightarrow> 'a list" where
  "resize n x xs = take n xs @ replicate (n - length xs) x"

lemma length_list_swap [simp]: "length (list_swap xs i j) = length xs"
  by (simp add: list_swap_def)

lemma mset_list_swap [simp]:
  "i < length xs \<Longrightarrow> j < length xs \<Longrightarrow> mset (list_swap xs i j) = mset xs"
  by (simp add: list_swap_def mset_swap)

lemma set_list_swap [simp]:
  "i < length xs \<Longrightarrow> j < length xs \<Longrightarrow> set (list_swap xs i j) = set xs"
  by (metis mset_list_swap set_mset_mset)

lemma distinct_list_swap [simp]:
  "i < length xs \<Longrightarrow> j < length xs \<Longrightarrow> distinct (list_swap xs i j) = distinct xs"
  by (simp add: list_swap_def)

lemma nth_list_swap:
  "i < length xs \<Longrightarrow> j < length xs \<Longrightarrow> k < length xs \<Longrightarrow>
   list_swap xs i j ! k = (if k = i then xs ! j else if k = j then xs ! i else xs ! k)"
  by (auto simp: list_swap_def nth_list_update)

lemma length_resize [simp]: "length (resize n x xs) = n"
  by (simp add: resize_def)

lemma nth_resize:
  "i < n \<Longrightarrow> resize n x xs ! i = (if i < length xs then xs ! i else x)"
  by (auto simp: resize_def nth_append)

lemma set_resize: "set (resize n x xs) \<subseteq> insert x (set xs)"
  by (auto simp: resize_def dest: in_set_takeD)

text \<open>Searching an index range, the shape of a \<^verbatim>\<open>for\<close> loop with a \<^verbatim>\<open>break\<close>.\<close>

lemma find_range_Some:
  "List.find P [m..<n] = Some k \<Longrightarrow> m \<le> k \<and> k < n \<and> P k \<and> (\<forall>i. m \<le> i \<longrightarrow> i < k \<longrightarrow> \<not> P i)"
proof -
  assume "List.find P [m..<n] = Some k"
  then obtain i where i: "i < n - m" "P (m + i)" "k = m + i" "\<And>j. j < i \<Longrightarrow> \<not> P (m + j)"
    by (auto simp: find_Some_iff)
  have "\<not> P j" if "m \<le> j" "j < k" for j
    using i(4) [of "j - m"] i(3) that by simp
  then show ?thesis using i(1,2,3) by auto
qed

lemma find_range_None: "List.find P [m..<n] = None \<longleftrightarrow> (\<forall>i. m \<le> i \<longrightarrow> i < n \<longrightarrow> \<not> P i)"
  by (auto simp: find_None_iff)

subsection \<open>Trails and watched literals\<close>

text \<open>The value of a literal under the assignment a trail describes.\<close>

definition trail_val :: "int list \<Rightarrow> int \<Rightarrow> int" where
  "trail_val t l = (if l \<in> set t then 1 else if - l \<in> set t then - 1 else 0)"

lemma trail_val_simps:
  "0 < trail_val t l \<longleftrightarrow> l \<in> set t"
  "trail_val t l = 0 \<longleftrightarrow> l \<notin> set t \<and> - l \<notin> set t"
  "trail_val t l < 0 \<longleftrightarrow> l \<notin> set t \<and> - l \<in> set t"
  "0 \<le> trail_val t l \<longleftrightarrow> l \<in> set t \<or> - l \<notin> set t"
  by (auto simp: trail_val_def)

lemma distinct_abs_trail:
  "distinct (map abs t) \<Longrightarrow> l \<in> set t \<Longrightarrow> l \<noteq> 0 \<Longrightarrow> - l \<notin> set (t :: int list)"
proof
  assume d: "distinct (map abs t)" and l: "l \<in> set t" "l \<noteq> 0" "- l \<in> set t"
  then have "inj_on abs (set t)" by (simp add: distinct_map)
  then have "l = - l" using l by (metis abs_minus_cancel inj_onD)
  then show False using l by simp
qed

lemma trail_val_snoc:
  "l \<noteq> 0 \<Longrightarrow> l \<notin> set t \<Longrightarrow> - l \<notin> set t \<Longrightarrow>
   trail_val (t @ [l]) = (trail_val t)(l := 1, - l := - 1)"
  by (auto simp: trail_val_def fun_eq_iff)

text \<open>The exclusive or of the two watches with the falsified one is the other watch.\<close>

lemma xor_other: "k = a \<or> k = (b :: int) \<Longrightarrow> (a XOR b) XOR k = (if k = a then b else a)"
  by (auto simp: xor.assoc xor.commute [of a b])

lemma watched_pair:
  assumes "distinct ls" "2 \<le> length ls" "k = ls ! 0 \<or> k = (ls :: int list) ! 1"
  defines "x \<equiv> (ls ! 0 XOR ls ! 1) XOR k"
  shows "x \<noteq> k" "x \<in> set ls" "mset (ls[0 := x, 1 := k]) = mset ls"
    "{x, k} = {ls ! 0, ls ! 1}"
proof -
  have n: "ls ! 0 \<noteq> ls ! 1" using nth_eq_iff_index_eq [OF assms(1), of 0 1] assms(2) by linarith
  have ne: "ls \<noteq> []" using assms(2) by auto
  have x: "x = (if k = ls ! 0 then ls ! 1 else ls ! 0)"
    using xor_other [OF assms(3)] by (simp add: x_def)
  show "x \<noteq> k" "x \<in> set ls" "{x, k} = {ls ! 0, ls ! 1}"
    using assms(2,3) n ne by (auto simp: x)
  show "mset (ls[0 := x, 1 := k]) = mset ls"
  proof (cases "k = ls ! 0")
    case True
    then have "ls[0 := x, 1 := k] = list_swap ls 0 1" by (simp add: x list_swap_def)
    then show ?thesis using assms(2) ne by simp
  next
    case False
    then have "ls[0 := x, 1 := k] = ls" using assms(3) by (simp add: x)
    then show ?thesis by simp
  qed
qed

subsection \<open>Outcomes of fallible code\<close>

text \<open>
  \<open>Ok\<close> is a normal return, \<open>Fatal m\<close> stands for \<^verbatim>\<open>fatal_message_end\<close> (the process
  prints \<open>m\<close> and aborts), \<open>Diverge\<close> for a loop that never ends.
\<close>

datatype 'a outcome = Ok 'a | Fatal string | Diverge

fun bind_outcome :: "'a outcome \<Rightarrow> ('a \<Rightarrow> 'b outcome) \<Rightarrow> 'b outcome" where
  "bind_outcome (Ok x) f = f x"
| "bind_outcome (Fatal m) f = Fatal m"
| "bind_outcome Diverge f = Diverge"

definition of_loop :: "'a option \<Rightarrow> 'a outcome" where
  "of_loop r = (case r of None \<Rightarrow> Diverge | Some x \<Rightarrow> Ok x)"

lemma bind_outcome_Ok: "bind_outcome m f = Ok y \<longleftrightarrow> (\<exists>x. m = Ok x \<and> f x = Ok y)"
  by (cases m) auto

lemma of_loop_simps [simp]:
  "of_loop (Some x) = Ok x"
  "of_loop None = Diverge"
  "of_loop r = Ok y \<longleftrightarrow> r = Some y"
  by (auto simp: of_loop_def split: option.splits)

subsection \<open>Running definitions in the kernel\<close>

text \<open>
  Congruences that make the simplifier evaluate a program in call-by-value order, and the
  unfolding of \<open>replicate\<close> at a numeral.
\<close>

lemma bind_outcome_weak_cong: "m = m' \<Longrightarrow> bind_outcome m f = bind_outcome m' f"
  by simp

lemmas eval_congs =
  let_weak_cong bind_outcome_weak_cong prod.case_cong_weak option.case_cong_weak
  outcome.case_cong_weak

lemma replicate_num: "replicate (numeral k) x = x # replicate (pred_numeral k) x"
  by (simp add: numeral_eq_Suc)

lemmas eval_simps = Let_def upt_rec replicate_num

end
