(* ===== verification/Random_Gen.thy ===== *)
theory Random_Gen
  imports Prelude
begin

text \<open>
  The random number generator of \<^verbatim>\<open>random.hpp\<close>: a 64-bit linear congruential generator, and
  the shuffled variable order that \<^verbatim>\<open>queue.cpp\<close> and \<^verbatim>\<open>score.cpp\<close> draw from it.  A generator is
  its state word; every operation returns its result and the new state.  An \<^verbatim>\<open>int\<close> is an
  integer, cast to and from \<^verbatim>\<open>unsigned\<close> where the code does.
\<close>

subsection \<open>The generator\<close>

type_synonym random = "64 word"

definition random_next :: "random \<Rightarrow> 64 word \<times> random" where
  "random_next state =
     (let state = state * 6364136223846793005;
          state = state + 1442695040888963407
      in (state, state))"

definition random_add :: "64 word \<Rightarrow> random \<Rightarrow> random" where
  "random_add a state =
     (let state = state + a;
          state = (if state = 0 then 1 else state)
      in snd (random_next state))"

definition random_generate :: "random \<Rightarrow> 32 word \<times> random" where
  "random_generate state =
     (let (_, state) = random_next state in (ucast (drop_bit 32 state), state))"

definition generate_int :: "random \<Rightarrow> int \<times> random" where
  "generate_int state = (let (w, state) = random_generate state in (sint w, state))"

definition generate_bool :: "random \<Rightarrow> bool \<times> random" where
  "generate_bool state = (let (w, state) = random_generate state in (w < 2147483648, state))"

text \<open>
  The product of two unsigned 32-bit numbers as a double: rounded to 53 significant bits, to the
  nearest and to even on a tie.  Dividing by the power of two \<^verbatim>\<open>4294967296.0\<close> before the
  multiplication is exact, so \<^verbatim>\<open>delta * (tmp / 4294967296.0)\<close> is this product with its binary
  point moved by 32.
\<close>

fun mantissa_shift :: "nat \<Rightarrow> nat" where
  "mantissa_shift p = (if p < 2 ^ 53 then 0 else Suc (mantissa_shift (p div 2)))"

declare mantissa_shift.simps [simp del]

definition round_double :: "nat \<Rightarrow> nat" where
  "round_double p =
     (let e = mantissa_shift p; q = p div 2 ^ e; r = 2 * (p mod 2 ^ e)
      in (if r > 2 ^ e \<or> r = 2 ^ e \<and> odd q then q + 1 else q) * 2 ^ e)"

definition pick_int :: "int \<Rightarrow> int \<Rightarrow> random \<Rightarrow> int \<times> random" where
  "pick_int l r state =
     (let delta = 1 + word_of_int r - word_of_int l :: 32 word;
          (tmp, state) = random_generate state;
          scaled = (if delta \<noteq> 0 then of_nat (round_double (unat delta * unat tmp) div 2 ^ 32) else tmp)
      in (sint (scaled + word_of_int l), state))"

fun log_delta_loop :: "nat \<Rightarrow> 32 word \<Rightarrow> nat \<Rightarrow> nat" where
  "log_delta_loop 0 delta k = k"
| "log_delta_loop (Suc n) delta k =
     (if push_bit k 1 < delta then log_delta_loop n delta (k + 1) else k)"

text \<open>The loop of \<^verbatim>\<open>pick_log\<close> ends at 32, so 32 rounds are enough from 0 and none from 32.\<close>

definition pick_log :: "int \<Rightarrow> int \<Rightarrow> random \<Rightarrow> int \<times> random" where
  "pick_log l r state =
     (let delta = 1 + word_of_int r - word_of_int l :: 32 word;
          log_delta = (if delta \<noteq> 0 then log_delta_loop 32 delta 0 else 32);
          (log_res, state) = pick_int 0 (int log_delta) state;
          (tmp, state) = random_generate state;
          tmp = (if log_res < 32 then tmp AND (push_bit (nat log_res) 1 - 1) else tmp);
          tmp = (if delta \<noteq> 0 then tmp mod delta else tmp)
      in (sint (word_of_int l + tmp), state))"

text \<open>The options of shuffling.\<close>

record shuffle_opts =
  opts_shuffle :: bool
  opts_shufflequeue :: bool
  opts_shufflescores :: bool
  opts_shufflerandom :: bool
  opts_seed :: "64 word"

text \<open>
  The variables from \<open>max_var\<close> down to 1, the element at each position but the last swapped with
  a randomly picked one at or after it.
\<close>

fun shuffle_loop :: "nat \<Rightarrow> nat list \<Rightarrow> nat list \<Rightarrow> random \<Rightarrow> nat list" where
  "shuffle_loop max_var [] order state = order"
| "shuffle_loop max_var (i # is) order state =
     (let (j, state) = pick_int (int i) (int max_var - 1) state
      in shuffle_loop max_var is (list_swap order i (nat j)) state)"

definition random_order :: "64 word \<Rightarrow> 64 word \<Rightarrow> nat \<Rightarrow> nat list" where
  "random_order seed shuffled max_var =
     shuffle_loop max_var [0..<max_var - 1] (rev [1..<max_var + 1]) (random_add shuffled seed)"

subsection \<open>Rounding\<close>

lemma mantissa_shift_bound: "p < 2 ^ (53 + k) \<Longrightarrow> mantissa_shift p \<le> k"
proof (induction k arbitrary: p)
  case 0
  then show ?case by (simp add: mantissa_shift.simps)
next
  case (Suc k)
  have "p < 2 ^ (53 + k) * 2" using Suc.prems by (simp add: power_add)
  then have "p div 2 < 2 ^ (53 + k)" by (rule less_mult_imp_div_less)
  then show ?case using Suc.IH by (subst mantissa_shift.simps) simp
qed

lemma round_double_le: "2 * round_double p \<le> 2 * p + 2 ^ mantissa_shift p"
proof -
  define e q r where "e = mantissa_shift p" and "q = p div 2 ^ e" and "r = p mod 2 ^ e"
  have p: "p = q * 2 ^ e + r" unfolding q_def r_def by (rule div_mult_mod_eq [symmetric])
  have "round_double p = (if 2 * r > 2 ^ e \<or> 2 * r = 2 ^ e \<and> odd q then q + 1 else q) * 2 ^ e"
    by (simp add: round_double_def e_def q_def r_def Let_def)
  then show ?thesis unfolding e_def [symmetric] using p by (auto simp: algebra_simps)
qed

lemma round_double_exact: "p < 2 ^ 53 \<Longrightarrow> round_double p = p"
  by (simp add: round_double_def mantissa_shift.simps)

text \<open>A number below \<open>2\<^sup>3\<^sup>2\<close> times a fraction below one stays below that number, rounded or not.\<close>

lemma scaled_bound:
  assumes "0 < d" "d < 2 ^ 32" "t < 2 ^ 32"
  shows "round_double (d * t) div 2 ^ 32 < d"
proof -
  have le: "d * t + d \<le> d * 2 ^ 32" using mult_le_mono2 [of "t + 1" "2 ^ 32" d] assms(3) by simp
  have "round_double (d * t) < d * 2 ^ 32"
  proof (cases "d * t < 2 ^ 53")
    case True
    then show ?thesis using round_double_exact le assms(1) by simp
  next
    case False
    have "(2::nat) ^ 53 \<le> d * t" using False by simp
    also have "\<dots> < d * 2 ^ 32" using assms(1,3) by simp
    finally have d: "2 ^ 21 < d" by simp
    have "d * t < 2 ^ 32 * 2 ^ 32" using assms(2,3) by (intro mult_strict_mono) simp_all
    then have "mantissa_shift (d * t) \<le> 11" by (intro mantissa_shift_bound) simp
    then have "(2::nat) ^ mantissa_shift (d * t) \<le> 2 ^ 11" by (rule power_increasing) simp
    moreover have "(2::nat) ^ 11 \<le> 2 ^ 21" by simp
    ultimately show ?thesis using round_double_le [of "d * t"] le d by linarith
  qed
  then show ?thesis by (simp add: less_mult_imp_div_less)
qed

subsection \<open>Ranges\<close>

lemma sint_word_of_int:
  "- (2 ^ 31) \<le> k \<Longrightarrow> k < 2 ^ 31 \<Longrightarrow> sint (word_of_int k :: 32 word) = k"
  by (simp add: sint_sbintrunc' signed_take_bit_int_eq_self)

lemma sint_range32: "- (2 ^ 31) \<le> sint (w :: 32 word) \<and> sint w < 2 ^ 31"
  using sint_ge [of w] sint_lt [of w] by simp

lemma delta_nonzero:
  assumes "l \<le> r" "- (2 ^ 31) \<le> l" "r < 2 ^ 31" "(1 + word_of_int r - word_of_int l :: 32 word) \<noteq> 0"
  shows "int (unat (1 + word_of_int r - word_of_int l :: 32 word)) = r - l + 1"
proof -
  have w: "(1 + word_of_int r - word_of_int l :: 32 word) = word_of_int (r - l + 1)" by simp
  have "\<not> 2 ^ 32 dvd r - l + 1" using assms(4) unfolding w word_of_int_eq_0_iff by simp
  then have "r - l + 1 \<noteq> 2 ^ 32" by (metis dvd_refl)
  then have "r - l + 1 < 2 ^ 32" using assms(1-3) by simp
  then have "uint (word_of_int (r - l + 1) :: 32 word) = r - l + 1"
    using assms(1) by (simp only: uint_word_of_int, intro mod_pos_pos_trivial) simp_all
  then show ?thesis unfolding w by (metis uint_nat)
qed

lemma delta_zero:
  assumes "l \<le> r" "- (2 ^ 31) \<le> l" "r < 2 ^ 31" "(1 + word_of_int r - word_of_int l :: 32 word) = 0"
  shows "l = - (2 ^ 31)" "r = 2 ^ 31 - 1"
proof -
  have "(1 + word_of_int r - word_of_int l :: 32 word) = word_of_int (r - l + 1)" by simp
  then have "(word_of_int (r - l + 1) :: 32 word) = 0" using assms(4) by simp
  then have "2 ^ 32 dvd r - l + 1" unfolding word_of_int_eq_0_iff by simp
  then have "r - l + 1 \<ge> 2 ^ 32" using assms(1) zdvd_imp_le [of "2 ^ 32" "r - l + 1"] by simp
  then show "l = - (2 ^ 31)" "r = 2 ^ 31 - 1" using assms(2,3) by simp_all
qed

text \<open>An unsigned offset below the width of the range, added to its lower end.\<close>

lemma offset_in_range:
  assumes r: "l \<le> r" "- (2 ^ 31) \<le> l" "r < 2 ^ 31"
    and o: "(1 + word_of_int r - word_of_int l :: 32 word) \<noteq> 0 \<Longrightarrow>
      unat w < unat (1 + word_of_int r - word_of_int l :: 32 word)"
  shows "l \<le> sint (w + word_of_int l :: 32 word) \<and> sint (w + word_of_int l) \<le> r"
proof (cases "(1 + word_of_int r - word_of_int l :: 32 word) = 0")
  case True
  then show ?thesis using delta_zero [OF r True] sint_range32 [of "w + word_of_int l"] by simp
next
  case False
  have b: "int (unat w) < r - l + 1" using o [OF False] delta_nonzero [OF r False] by linarith
  have "w + word_of_int l = word_of_int (int (unat w) + l)" by (simp add: of_int_add)
  moreover have "sint (word_of_int (int (unat w) + l) :: 32 word) = int (unat w) + l"
    by (rule sint_word_of_int) (use b r in linarith)+
  ultimately show ?thesis using b by simp
qed

lemma pick_int_range:
  assumes r: "l \<le> r" "- (2 ^ 31) \<le> l" "r < 2 ^ 31"
  shows "l \<le> fst (pick_int l r state) \<and> fst (pick_int l r state) \<le> r"
proof -
  obtain tmp st where g: "random_generate state = (tmp, st)" by fastforce
  let ?d = "1 + word_of_int r - word_of_int l :: 32 word"
  let ?s = "if ?d \<noteq> 0 then of_nat (round_double (unat ?d * unat tmp) div 2 ^ 32) else tmp"
  have "unat ?s < unat ?d" if d: "?d \<noteq> 0"
  proof -
    have u: "unat ?d < 2 ^ 32" "unat tmp < 2 ^ 32"
      using unsigned_less [of ?d, where ?'a = nat] unsigned_less [of tmp, where ?'a = nat] by simp_all
    have b: "round_double (unat ?d * unat tmp) div 2 ^ 32 < unat ?d"
      by (rule scaled_bound) (use d u in \<open>simp_all add: unat_gt_0\<close>)
    have "unat ?s = round_double (unat ?d * unat tmp) div 2 ^ 32"
      using le_unat_uoi [OF less_imp_le [OF b]] d by simp
    then show ?thesis using b by simp
  qed
  from offset_in_range [OF r this] show ?thesis by (simp add: pick_int_def g Let_def)
qed

lemma pick_log_range:
  assumes r: "l \<le> r" "- (2 ^ 31) \<le> l" "r < 2 ^ 31"
  shows "l \<le> fst (pick_log l r state) \<and> fst (pick_log l r state) \<le> r"
proof -
  let ?d = "1 + word_of_int r - word_of_int l :: 32 word"
  have "unat (if ?d \<noteq> 0 then w mod ?d else w) < unat ?d" if "?d \<noteq> 0" for w
    using that by (simp add: unat_mod unat_gt_0)
  note off = offset_in_range [OF r this]
  obtain k st where k: "pick_int 0 (int (if ?d \<noteq> 0 then log_delta_loop 32 ?d 0 else 32)) state = (k, st)"
    by fastforce
  obtain tmp st' where g: "random_generate st = (tmp, st')" by fastforce
  show ?thesis using off k g unfolding pick_log_def Let_def by (simp add: add.commute)
qed

lemma shuffle_loop_mset:
  assumes "set is \<subseteq> {0..<max_var}" "length order = max_var" "max_var < 2 ^ 31"
  shows "mset (shuffle_loop max_var is order state) = mset order"
  using assms
proof (induction "is" arbitrary: order state)
  case (Cons i "is")
  obtain j st where j: "pick_int (int i) (int max_var - 1) state = (j, st)" by fastforce
  have "int i \<le> j \<and> j \<le> int max_var - 1"
    using pick_int_range [of "int i" "int max_var - 1" state] Cons.prems j by auto
  then have "nat j < length order" "i < length order" using Cons.prems by auto
  then show ?case using Cons.IH [of "list_swap order i (nat j)" st] Cons.prems j by simp
qed simp

lemma random_order_mset: "max_var < 2 ^ 31 \<Longrightarrow> mset (random_order seed k max_var) = mset [1..<max_var + 1]"
  unfolding random_order_def by (subst shuffle_loop_mset) auto

end
