(* ===== verification/Hash_Table.thy ===== *)
theory Hash_Table
  imports Random_Gen
begin

text \<open>
  What the two proof checkers share line by line: the index of a literal, growing a variable
  range, the nonces, the reduction of a hash value to a bucket, and rehashing a table of
  collision chains into a larger one.  A table is the list of its chains, a chain the list of
  its entries in link order.
\<close>

unbundle bit_operations_syntax

subsection \<open>Definitions\<close>

abbreviation int_min :: int where "int_min \<equiv> - 2147483648"

definition l2u :: "int \<Rightarrow> nat" where
  "l2u lit = (let res = 2 * (nat \<bar>lit\<bar> - 1) in if lit < 0 then res + 1 else res)"

function grow_size :: "int \<Rightarrow> int \<Rightarrow> int" where
  "grow_size idx n = (if 0 < n \<and> n \<le> idx then grow_size idx (2 * n) else n)"
  by pat_completeness auto
termination
  by (relation "measure (\<lambda>(idx, n). nat (idx + 1 - n))") auto

declare grow_size.simps [simp del]

text \<open>The first \<open>n\<close> odd nonces drawn from a generator.\<close>

fun draw_nonces :: "nat \<Rightarrow> random \<Rightarrow> 64 word list" where
  "draw_nonces 0 r = []"
| "draw_nonces (Suc n) r =
     (let (nonce, r) = random_next r;
          nonce = (if nonce AND 1 = 0 then nonce + 1 else nonce)
      in nonce # draw_nonces n r)"

definition num_nonces :: nat where
  "num_nonces = 4"

partial_function (option) reduce_hash_loop ::
    "64 word \<Rightarrow> nat \<Rightarrow> 64 word \<Rightarrow> (64 word) option" where
  "reduce_hash_loop n shift res =
     (if push_bit shift 1 > n
      then reduce_hash_loop n (shift div 2) (res XOR drop_bit shift res)
      else Some res)"

declare reduce_hash_loop.simps [code]

definition reduce_hash :: "64 word \<Rightarrow> 64 word \<Rightarrow> (64 word) option" where
  "reduce_hash hash n =
     map_option (\<lambda>res. res AND (n - 1)) (reduce_hash_loop n 32 hash)"

fun rehash_chain :: "('a \<Rightarrow> 64 word) \<Rightarrow> 64 word \<Rightarrow> 'a list \<Rightarrow> 'a list list
    \<Rightarrow> 'a list list outcome" where
  "rehash_chain hash n [] t = Ok t"
| "rehash_chain hash n (a # as) t =
     bind_outcome (of_loop (reduce_hash (hash a) n))
       (\<lambda>h. rehash_chain hash n as (t[unat h := a # t ! unat h]))"

fun rehash_table :: "('a \<Rightarrow> 64 word) \<Rightarrow> 64 word \<Rightarrow> 'a list list \<Rightarrow> 'a list list
    \<Rightarrow> 'a list list outcome" where
  "rehash_table hash n [] t = Ok t"
| "rehash_table hash n (b # bs) t =
     bind_outcome (rehash_chain hash n b t) (rehash_table hash n bs)"

text \<open>\<open>remove_nth n xs\<close> is the chain after \<^verbatim>\<open>*p = d->next\<close> for the link \<open>p\<close> at position \<open>n\<close>.\<close>

definition remove_nth :: "nat \<Rightarrow> 'a list \<Rightarrow> 'a list" where
  "remove_nth n xs = take n xs @ drop (Suc n) xs"

subsection \<open>Literal indices\<close>

lemma l2u_inj [l2u_simps]: "l \<noteq> 0 \<Longrightarrow> k \<noteq> 0 \<Longrightarrow> l2u l = l2u k \<longleftrightarrow> l = k"
  by (auto simp: l2u_def Let_def nat_eq_iff split: if_splits dest: arg_cong [of _ _ even])

lemma l2u_bound': "l \<noteq> 0 \<Longrightarrow> \<bar>l\<bar> < n \<Longrightarrow> l2u l < nat (2 * n - 2)"
  by (auto simp: l2u_def Let_def)

lemma l2u_bound: "l \<noteq> 0 \<Longrightarrow> \<bar>l\<bar> < n \<Longrightarrow> l2u l < nat (2 * n)"
  using l2u_bound' [of l n] by linarith

lemma l2u_surj: "i < nat (2 * n - 2) \<Longrightarrow> \<exists>l. l \<noteq> 0 \<and> \<bar>l\<bar> < n \<and> l2u l = i"
  by (rule exI [of _ "if even i then int (i div 2) + 1 else - (int (i div 2) + 1)"])
    (auto simp: l2u_def Let_def elim!: evenE oddE)

lemma grow_size: "0 < n \<Longrightarrow> idx < grow_size idx n \<and> n \<le> grow_size idx n"
proof (induction idx n rule: grow_size.induct)
  case (1 idx n)
  then show ?case by (subst (1 2) grow_size.simps) auto
qed

text \<open>Setting the bits of a list of literals.\<close>

lemma length_fold_marks [simp]: "length (fold (\<lambda>l m. m[l2u l := b]) ls m) = length m"
  by (induction ls arbitrary: m) simp_all

lemma nth_fold_marks:
  "i < length m \<Longrightarrow> fold (\<lambda>l m. m[l2u l := b]) ls m ! i = (if i \<in> l2u ` set ls then b else m ! i)"
  by (induction ls arbitrary: m) (auto simp: nth_list_update)

subsection \<open>Buckets\<close>

lemma reduce_hash_loop_total: "n \<noteq> 0 \<Longrightarrow> \<exists>r. reduce_hash_loop n shift res = Some r"
proof (induction shift arbitrary: res rule: less_induct)
  case (less shift)
  show ?case
  proof (cases "push_bit shift 1 > n \<and> 0 < shift")
    case True
    then show ?thesis
      using less.IH [of "shift div 2"] less.prems by (subst reduce_hash_loop.simps) simp
  next
    case False
    have "\<not> 1 > n" using less.prems by (simp add: word_gt_0 word_less_nat_alt unat_eq_zero not_less Suc_leI unat_gt_0)
    then have "\<not> push_bit shift 1 > n" using False by (cases shift) auto
    then show ?thesis by (subst reduce_hash_loop.simps) simp
  qed
qed

lemma reduce_hash_total: "n \<noteq> 0 \<Longrightarrow> \<exists>h. reduce_hash x n = Some h"
  using reduce_hash_loop_total [of n 32 x] by (auto simp: reduce_hash_def)

lemma reduce_hash_bound:
  assumes "reduce_hash x n = Some h" and "n \<noteq> 0"
  shows "unat h < unat n"
proof -
  obtain r where "h = r AND (n - 1)" using assms(1) by (auto simp: reduce_hash_def)
  then have "h \<le> n - 1" using word_and_le1 by simp
  also have "n - 1 < n" using assms(2) by (simp add: word_less_nat_alt unat_minus_one unat_gt_0)
  finally show ?thesis by (simp add: word_less_nat_alt)
qed

text \<open>With an empty table the loop of \<^verbatim>\<open>reduce_hash\<close> never ends.\<close>

lemma reduce_hash_zero: "reduce_hash x 0 = None"
proof -
  have nz: "n \<noteq> 0" if "reduce_hash_loop n shift res = Some y" "shift < 64" for n shift res y
  proof -
    have "shift < 64 \<longrightarrow> n \<noteq> 0"
    proof (rule reduce_hash_loop.raw_induct [where P = "\<lambda>n shift res y. shift < 64 \<longrightarrow> n \<noteq> 0", OF _ that(1)])
      fix f :: "64 word \<Rightarrow> nat \<Rightarrow> 64 word \<Rightarrow> (64 word) option" and n shift res y
      assume IH: "\<And>n shift res y. f n shift res = Some y \<Longrightarrow> shift < 64 \<longrightarrow> n \<noteq> 0"
        and eq: "(if n < push_bit shift 1 then f n (shift div 2) (res XOR drop_bit shift res)
                  else Some res) = Some y"
      show "shift < 64 \<longrightarrow> n \<noteq> 0"
      proof
        assume s: "shift < 64"
        show "n \<noteq> 0"
        proof
          assume n: "n = 0"
          have "(2 :: 64 word) ^ shift \<noteq> 0" using s by (simp add: exp_eq_zero_iff)
          then have "0 < (2 :: 64 word) ^ shift" by (rule word_neq_0_conv [THEN iffD1])
          then have "n < push_bit shift 1" by (simp only: n push_bit_of_1)
          then show False
            using eq IH [of n "shift div 2" "res XOR drop_bit shift res" y] s n by simp
        qed
      qed
    qed
    then show ?thesis using that(2) by simp
  qed
  then have "reduce_hash_loop 0 32 x = None"
    using nz [of 0 32 x] by (cases "reduce_hash_loop 0 32 x") auto
  then show ?thesis by (simp add: reduce_hash_def)
qed

lemma mset_concat_cons:
  "i < length t \<Longrightarrow> mset (concat (t[i := a # t ! i])) = add_mset a (mset (concat t))"
proof -
  assume i: "i < length t"
  have "mset (concat (t[i := a # t ! i])) = add_mset a (mset (concat (take i t @ t ! i # drop (Suc i) t)))"
    using i by (simp add: upd_conv_take_nth_drop)
  then show ?thesis using i by (simp add: id_take_nth_drop [symmetric])
qed

text \<open>A table in which every entry sits in the bucket of its hash.\<close>

definition placed :: "('a \<Rightarrow> 64 word) \<Rightarrow> 64 word \<Rightarrow> 'a list list \<Rightarrow> bool" where
  "placed hash n t \<longleftrightarrow> (\<forall>i < length t. \<forall>a \<in> set (t ! i). \<exists>h. reduce_hash (hash a) n = Some h \<and> unat h = i)"

lemma placed_cons:
  assumes "placed hash n t" "reduce_hash (hash a) n = Some h" "i = unat h"
  shows "placed hash n (t[i := a # t ! i])"
  using assms unfolding placed_def by (cases "i < length t") (auto simp: nth_list_update split: if_splits)

lemma rehash_chain_ok:
  assumes "n \<noteq> 0" "length t = unat n" "placed hash n t"
  shows "\<exists>t'. rehash_chain hash n as t = Ok t' \<and> length t' = unat n \<and> placed hash n t'
     \<and> mset (concat t') = mset (concat t) + mset as"
  using assms(2,3)
proof (induction as arbitrary: t)
  case (Cons a as)
  obtain h where h: "reduce_hash (hash a) n = Some h" using reduce_hash_total [OF assms(1)] by blast
  have i: "unat h < length t" using reduce_hash_bound [OF h assms(1)] Cons.prems by simp
  have "placed hash n (t[unat h := a # t ! unat h])" by (rule placed_cons [OF Cons.prems(2) h refl])
  from Cons.IH [OF _ this] Cons.prems(1) h mset_concat_cons [OF i, of a] show ?case by auto
qed simp

lemma rehash_table_ok:
  assumes "n \<noteq> 0" "length t = unat n" "placed hash n t"
  shows "\<exists>t'. rehash_table hash n bs t = Ok t' \<and> length t' = unat n \<and> placed hash n t'
     \<and> mset (concat t') = mset (concat t) + mset (concat bs)"
  using assms(2,3)
proof (induction bs arbitrary: t)
  case (Cons b bs)
  obtain u where u: "rehash_chain hash n b t = Ok u" "length u = unat n" "placed hash n u"
    "mset (concat u) = mset (concat t) + mset b"
    using rehash_chain_ok [OF assms(1) Cons.prems] by blast
  from Cons.IH [OF u(2,3)] u(1,4) show ?case by (auto simp: add.assoc)
qed simp

lemma mset_remove_nth: "n < length xs \<Longrightarrow> mset xs = add_mset (xs ! n) (mset (remove_nth n xs))"
  by (metis add_mset_add_single id_take_nth_drop mset.simps(2) mset_append remove_nth_def union_mset_add_mset_right)

lemma set_remove_nth: "set (remove_nth n xs) \<subseteq> set xs"
  by (auto simp: remove_nth_def dest: in_set_takeD in_set_dropD)

lemma mset_concat_update:
  assumes "h < length xss" and "mset (xss ! h) = add_mset a (mset ys)"
  shows "mset (concat xss) = add_mset a (mset (concat (xss[h := ys])))"
proof -
  have "xss = take h xss @ xss ! h # drop (Suc h) xss" using assms(1) by (rule id_take_nth_drop)
  then have "mset (concat xss) = mset (concat (take h xss)) + mset (xss ! h) + mset (concat (drop (Suc h) xss))"
    by (metis append_assoc concat.simps(2) concat_append mset_append)
  then show ?thesis using assms by (simp add: upd_conv_take_nth_drop)
qed

subsection \<open>The nonces of both checkers\<close>

lemma nonces_42:
  "draw_nonces 4 42 =
     [10481999410520546993, 4159066171780167021, 7615522811268512075, 11628791489956661375]"
  by code_simp

lemmas hash_eval = l2u_def grow_size.simps reduce_hash_def reduce_hash_loop.simps num_nonces_def nonces_42
  list_swap_def resize_def remove_nth_def

end
