(* ===== verification/Checker.thy ===== *)
theory Checker
  imports Hash_Table "HOL-Library.Product_Lexorder"
begin

text \<open>
  The online forward DRUP checker of \<^verbatim>\<open>checker.hpp\<close> and \<^verbatim>\<open>checker.cpp\<close>: a propagating
  solver with two watched literals and a hash table of clauses.

  Clauses live in an explicit store \<open>ck_mem\<close> from addresses to clause objects, since the hash
  table and two watch lists share them; \<open>new\<close> takes the next fresh address and \<open>delete[]\<close>
  removes the address from the store.  A collision chain through \<^verbatim>\<open>next\<close> is the list of the
  addresses on it.  \<^verbatim>\<open>vals\<close> is indexed by signed literals, as in the code; \<^verbatim>\<open>watchers\<close>
  and \<^verbatim>\<open>marks\<close> by \<open>l2u\<close>.  Assertions are compiled out of the code; those that matter are
  proved as invariants.  Logging and profiling have no effect on the state and are left out.
\<close>

unbundle bit_operations_syntax

subsection \<open>Data\<close>

record CheckerClause =
  cc_hash :: "64 word"
  cc_size :: nat
  cc_literals :: "int list"

record CheckerWatch =
  cw_blit :: int
  cw_size :: nat
  cw_clause :: nat

definition new_watch :: "int \<Rightarrow> nat \<Rightarrow> CheckerClause \<Rightarrow> CheckerWatch" where
  "new_watch b a c = \<lparr>cw_blit = b, cw_size = cc_size c, cw_clause = a\<rparr>"

record checker_stats =
  cs_added :: nat
  cs_original :: nat
  cs_derived :: nat
  cs_deleted :: nat
  cs_assumptions :: nat
  cs_propagations :: nat
  cs_insertions :: nat
  cs_collisions :: nat
  cs_searches :: nat
  cs_checks :: nat
  cs_collections :: nat
  cs_units :: nat

record Checker =
  ck_size_vars :: int
  ck_vals :: "int \<Rightarrow> int"
  ck_watchers :: "CheckerWatch list list"
  ck_marks :: "bool list"
  ck_inconsistent :: bool
  ck_num_clauses :: "64 word"
  ck_num_garbage :: "64 word"
  ck_size_clauses :: "64 word"
  ck_clauses :: "nat list list"
  ck_garbage :: "nat list"
  ck_unsimplified :: "int list"
  ck_simplified :: "int list"
  ck_trail :: "int list"
  ck_next_to_propagate :: nat
  ck_nonces :: "64 word list"
  ck_last_hash :: "64 word"
  ck_last_id :: "64 word"
  ck_stats :: checker_stats
  ck_mem :: "nat \<rightharpoonup> CheckerClause"
  ck_next_addr :: nat

subsection \<open>Access by literal\<close>

definition ck_val :: "Checker \<Rightarrow> int \<Rightarrow> int" where
  "ck_val s lit = ck_vals s lit"

definition ck_mark :: "Checker \<Rightarrow> int \<Rightarrow> bool" where
  "ck_mark s lit = ck_marks s ! l2u lit"

definition ck_set_mark :: "int \<Rightarrow> bool \<Rightarrow> Checker \<Rightarrow> Checker" where
  "ck_set_mark lit b s = s\<lparr>ck_marks := (ck_marks s)[l2u lit := b]\<rparr>"

definition ck_watcher :: "Checker \<Rightarrow> int \<Rightarrow> CheckerWatch list" where
  "ck_watcher s lit = ck_watchers s ! l2u lit"

definition ck_set_watcher :: "int \<Rightarrow> CheckerWatch list \<Rightarrow> Checker \<Rightarrow> Checker" where
  "ck_set_watcher lit ws s = s\<lparr>ck_watchers := (ck_watchers s)[l2u lit := ws]\<rparr>"

definition ck_push_watch :: "int \<Rightarrow> CheckerWatch \<Rightarrow> Checker \<Rightarrow> Checker" where
  "ck_push_watch lit w s = ck_set_watcher lit (ck_watcher s lit @ [w]) s"

definition ck_deref :: "Checker \<Rightarrow> nat \<Rightarrow> CheckerClause" where
  "ck_deref s a = the (ck_mem s a)"

definition ck_store :: "nat \<Rightarrow> CheckerClause \<Rightarrow> Checker \<Rightarrow> Checker" where
  "ck_store a c s = s\<lparr>ck_mem := (ck_mem s)(a \<mapsto> c)\<rparr>"

definition ck_count :: "(checker_stats \<Rightarrow> checker_stats) \<Rightarrow> Checker \<Rightarrow> Checker" where
  "ck_count f s = s\<lparr>ck_stats := f (ck_stats s)\<rparr>"

subsection \<open>Clauses\<close>

text \<open>One round of the loop that moves unassigned literals to the two watched positions.\<close>

definition watch_swap :: "(int \<Rightarrow> int) \<Rightarrow> nat \<Rightarrow> int list \<Rightarrow> int list" where
  "watch_swap v i literals =
     (if v (literals ! i) = 0 then literals
      else case List.find (\<lambda>j. v (literals ! j) = 0) [i + 1 ..< length literals] of
             None \<Rightarrow> literals
           | Some j \<Rightarrow> list_swap literals i j)"

definition ck_new_clause :: "Checker \<Rightarrow> nat \<times> Checker" where
  "ck_new_clause s =
     (let a = ck_next_addr s;
          literals = watch_swap (ck_val s) 1 (watch_swap (ck_val s) 0 (ck_simplified s));
          c = \<lparr>cc_hash = ck_last_hash s, cc_size = length (ck_simplified s),
               cc_literals = literals\<rparr>;
          s = ck_store a c (s\<lparr>ck_next_addr := a + 1, ck_num_clauses := ck_num_clauses s + 1\<rparr>);
          s = ck_push_watch (literals ! 0) (new_watch (literals ! 1) a c) s;
          s = ck_push_watch (literals ! 1) (new_watch (literals ! 0) a c) s
      in (a, s))"

text \<open>The private \<^verbatim>\<open>delete_clause (CheckerClause *)\<close> that frees a clause object.\<close>

definition ck_free_clause :: "nat \<Rightarrow> Checker \<Rightarrow> Checker" where
  "ck_free_clause a s =
     (let s = (if cc_size (ck_deref s a) \<noteq> 0
               then s\<lparr>ck_num_clauses := ck_num_clauses s - 1\<rparr>
               else s\<lparr>ck_num_garbage := ck_num_garbage s - 1\<rparr>)
      in s\<lparr>ck_mem := (ck_mem s)(a := None)\<rparr>)"

definition ck_enlarge_clauses :: "Checker \<Rightarrow> Checker outcome" where
  "ck_enlarge_clauses s =
     (let new_size = (if ck_size_clauses s \<noteq> 0 then 2 * ck_size_clauses s else 1)
      in bind_outcome
           (rehash_table (\<lambda>a. cc_hash (ck_deref s a)) new_size (ck_clauses s)
              (replicate (unat new_size) []))
           (\<lambda>t. Ok (s\<lparr>ck_clauses := t, ck_size_clauses := new_size\<rparr>)))"

definition ck_clause_satisfied :: "Checker \<Rightarrow> CheckerClause \<Rightarrow> bool" where
  "ck_clause_satisfied s c \<longleftrightarrow> (\<exists>i \<in> set [0..<cc_size c]. ck_val s (cc_literals c ! i) > 0)"

subsection \<open>Garbage collection\<close>

text \<open>Unlink the satisfied clauses of one collision chain and put them on the garbage list.\<close>

fun collect_chain :: "nat list \<Rightarrow> Checker \<Rightarrow> nat list \<times> Checker" where
  "collect_chain [] s = ([], s)"
| "collect_chain (a # as) s =
     (let c = ck_deref s a in
      if ck_clause_satisfied s c then
        collect_chain as
          (ck_store a (c\<lparr>cc_size := 0\<rparr>)
            (s\<lparr>ck_garbage := a # ck_garbage s, ck_num_garbage := ck_num_garbage s + 1,
               ck_num_clauses := ck_num_clauses s - 1\<rparr>))
      else
        (let (kept, s) = collect_chain as s in (a # kept, s)))"

fun collect_table :: "nat list list \<Rightarrow> Checker \<Rightarrow> nat list list \<times> Checker" where
  "collect_table [] s = ([], s)"
| "collect_table (b # bs) s =
     (let (kept, s) = collect_chain b s;
          (rest, s) = collect_table bs s
      in (kept # rest, s))"

text \<open>The literals \<open>-size_vars + 1, \<dots>, size_vars - 1\<close> without zero, in loop order.\<close>

definition ck_literals_upto :: "int \<Rightarrow> int list" where
  "ck_literals_upto n = filter (\<lambda>l. l \<noteq> 0) [- n + 1 .. n - 1]"

definition ck_flush_watcher :: "int \<Rightarrow> Checker \<Rightarrow> Checker" where
  "ck_flush_watcher lit s =
     ck_set_watcher lit
       (filter (\<lambda>w. cc_size (ck_deref s (cw_clause w)) \<noteq> 0) (ck_watcher s lit)) s"

definition ck_collect_garbage_clauses :: "Checker \<Rightarrow> Checker" where
  "ck_collect_garbage_clauses s =
     (let s = ck_count (\<lambda>t. t\<lparr>cs_collections := cs_collections t + 1\<rparr>) s;
          (table, s) = collect_table (ck_clauses s) s;
          s = s\<lparr>ck_clauses := table\<rparr>;
          s = fold ck_flush_watcher (ck_literals_upto (ck_size_vars s)) s;
          s = fold ck_free_clause (ck_garbage s) s
      in s\<lparr>ck_garbage := []\<rparr>)"

subsection \<open>Construction and destruction\<close>

definition ck_init :: Checker where
  "ck_init =
     \<lparr>ck_size_vars = 0, ck_vals = (\<lambda>_. 0), ck_watchers = [], ck_marks = [],
      ck_inconsistent = False, ck_num_clauses = 0, ck_num_garbage = 0, ck_size_clauses = 0,
      ck_clauses = [], ck_garbage = [], ck_unsimplified = [], ck_simplified = [],
      ck_trail = [], ck_next_to_propagate = 0, ck_nonces = draw_nonces num_nonces 42,
      ck_last_hash = 0, ck_last_id = 0,
      ck_stats = \<lparr>cs_added = 0, cs_original = 0, cs_derived = 0, cs_deleted = 0,
        cs_assumptions = 0, cs_propagations = 0, cs_insertions = 0, cs_collisions = 0,
        cs_searches = 0, cs_checks = 0, cs_collections = 0, cs_units = 0\<rparr>,
      ck_mem = Map.empty, ck_next_addr = 0\<rparr>"

definition ck_destroy :: "Checker \<Rightarrow> Checker" where
  "ck_destroy s = fold ck_free_clause (ck_garbage s) (fold ck_free_clause (concat (ck_clauses s)) s)"

subsection \<open>Importing clauses\<close>

definition ck_enlarge_vars :: "int \<Rightarrow> Checker \<Rightarrow> Checker" where
  "ck_enlarge_vars idx s =
     (let old = ck_size_vars s;
          n = grow_size idx (if old \<noteq> 0 then 2 * old else 2);
          v = ck_vals s
      in s\<lparr>ck_vals := (\<lambda>i. if - old \<le> i \<and> i < old then v i else 0),
           ck_watchers := resize (nat (2 * n)) [] (ck_watchers s),
           ck_marks := resize (nat (2 * n)) False (ck_marks s),
           ck_size_vars := n\<rparr>)"

definition ck_import_literal :: "int \<Rightarrow> Checker \<Rightarrow> Checker" where
  "ck_import_literal lit s =
     (let idx = \<bar>lit\<bar>;
          s = (if idx \<ge> ck_size_vars s then ck_enlarge_vars idx s else s)
      in s\<lparr>ck_simplified := ck_simplified s @ [lit],
           ck_unsimplified := ck_unsimplified s @ [lit]\<rparr>)"

definition ck_import_clause :: "int list \<Rightarrow> Checker \<Rightarrow> Checker" where
  "ck_import_clause c s = fold ck_import_literal c s"

text \<open>
  \<^verbatim>\<open>lit_smaller\<close> orders by variable first and by sign second; it is a strict total order, so
  \<^verbatim>\<open>std::sort\<close> has exactly one possible result.
\<close>

definition lit_smaller :: "int \<Rightarrow> int \<Rightarrow> bool" where
  "lit_smaller a b =
     (let c = \<bar>a\<bar>; d = \<bar>b\<bar> in if c < d then True else if c > d then False else a < b)"

definition sort_literals :: "int list \<Rightarrow> int list" where
  "sort_literals c = sort_key (\<lambda>l. (\<bar>l\<bar>, l)) c"

text \<open>
  The loop of \<^verbatim>\<open>tautological\<close>: \<open>kept\<close> is what \<open>j\<close> has written so far.  On an early
  return the vector keeps the written prefix over the sorted literals.
\<close>

fun taut_loop :: "(int \<Rightarrow> int) \<Rightarrow> int list \<Rightarrow> int \<Rightarrow> int list \<Rightarrow> int list \<Rightarrow> bool \<times> int list" where
  "taut_loop v all prev kept [] = (False, kept)"
| "taut_loop v all prev kept (lit # is) =
     (if lit = prev then taut_loop v all prev kept is
      else if lit = - prev then (True, kept @ drop (length kept) all)
      else if v lit > 0 then (True, kept @ drop (length kept) all)
      else taut_loop v all lit (kept @ [lit]) is)"

definition ck_tautological :: "Checker \<Rightarrow> bool \<times> Checker" where
  "ck_tautological s =
     (let sorted = sort_literals (ck_simplified s);
          (res, simplified) = taut_loop (ck_val s) sorted 0 [] sorted
      in (res, s\<lparr>ck_simplified := simplified\<rparr>))"

subsection \<open>Hash table\<close>

definition ck_compute_hash :: "Checker \<Rightarrow> 64 word \<times> Checker" where
  "ck_compute_hash s =
     (let j = unat (ck_last_id s) mod num_nonces;
          tmp = ck_nonces s ! j * ck_last_id s
      in (tmp, s\<lparr>ck_last_hash := tmp\<rparr>))"

text \<open>The walk along one collision chain: the position where it stops.\<close>

fun find_chain :: "64 word \<Rightarrow> nat \<Rightarrow> nat list \<Rightarrow> nat \<Rightarrow> Checker \<Rightarrow> nat \<times> Checker" where
  "find_chain hash n [] pos s = (pos, s)"
| "find_chain hash n (a # as) pos s =
     (let c = ck_deref s a in
      if cc_hash c = hash \<and> cc_size c = n
         \<and> (\<forall>i \<in> set [0..<n]. ck_mark s (cc_literals c ! i))
      then (pos, s)
      else find_chain hash n as (pos + 1)
             (ck_count (\<lambda>t. t\<lparr>cs_collisions := cs_collisions t + 1\<rparr>) s))"

text \<open>\<^verbatim>\<open>find\<close> returns the link it stopped at: a bucket and a position on its chain.\<close>

definition ck_find :: "Checker \<Rightarrow> ((nat \<times> nat) \<times> Checker) outcome" where
  "ck_find s =
     (let s = ck_count (\<lambda>t. t\<lparr>cs_searches := cs_searches t + 1\<rparr>) s;
          (hash, s) = ck_compute_hash s;
          size = length (ck_simplified s)
      in bind_outcome (of_loop (reduce_hash hash (ck_size_clauses s)))
           (\<lambda>h. let s = fold (\<lambda>lit. ck_set_mark lit True) (ck_simplified s) s;
                    (pos, s) = find_chain hash size (ck_clauses s ! unat h) 0 s;
                    s = fold (\<lambda>lit. ck_set_mark lit False) (ck_simplified s) s
                in Ok ((unat h, pos), s)))"

definition ck_insert :: "Checker \<Rightarrow> Checker outcome" where
  "ck_insert s =
     (let s = ck_count (\<lambda>t. t\<lparr>cs_insertions := cs_insertions t + 1\<rparr>) s
      in bind_outcome
           (if ck_num_clauses s = ck_size_clauses s then ck_enlarge_clauses s else Ok s)
           (\<lambda>s. let (hash, s) = ck_compute_hash s
                in bind_outcome (of_loop (reduce_hash hash (ck_size_clauses s)))
                     (\<lambda>h. let (a, s) = ck_new_clause s
                          in Ok (s\<lparr>ck_clauses :=
                                    (ck_clauses s)[unat h := a # ck_clauses s ! unat h]\<rparr>))))"

subsection \<open>Assignment and propagation\<close>

definition ck_assign :: "int \<Rightarrow> Checker \<Rightarrow> Checker" where
  "ck_assign lit s =
     s\<lparr>ck_vals := (ck_vals s)(lit := 1, - lit := - 1), ck_trail := ck_trail s @ [lit]\<rparr>"

definition ck_assume :: "int \<Rightarrow> Checker \<Rightarrow> Checker" where
  "ck_assume lit s =
     (if ck_val s lit > 0 then s
      else ck_assign lit (ck_count (\<lambda>t. t\<lparr>cs_assumptions := cs_assumptions t + 1\<rparr>) s))"

definition ck_unassign :: "int \<Rightarrow> (int \<Rightarrow> int) \<Rightarrow> int \<Rightarrow> int" where
  "ck_unassign lit v = v(lit := 0, - lit := 0)"

definition ck_backtrack :: "nat \<Rightarrow> Checker \<Rightarrow> Checker" where
  "ck_backtrack previously_propagated s =
     s\<lparr>ck_vals := fold ck_unassign (rev (drop previously_propagated (ck_trail s))) (ck_vals s),
       ck_trail := take previously_propagated (ck_trail s),
       ck_next_to_propagate := previously_propagated\<rparr>"

text \<open>
  The loop over the watches of \<open>- lit\<close>: \<open>js\<close> are the watches kept so far (up to \<open>j\<close>), the
  second argument those still to visit (from \<open>i\<close>).  Returns whether there was no conflict, the
  new watch list and the new state.
\<close>

fun propagate_watches ::
    "int \<Rightarrow> CheckerWatch list \<Rightarrow> CheckerWatch list \<Rightarrow> Checker \<Rightarrow> bool \<times> CheckerWatch list \<times> Checker" where
  "propagate_watches lit [] js s = (True, js, s)"
| "propagate_watches lit (w # is) js s =
     (let blit = cw_blit w; blit_val = ck_val s blit; size = cw_size w in
      if blit_val > 0 then propagate_watches lit is (js @ [w]) s
      else if size = 2 then
        (if blit_val < 0 then (False, js @ w # is, s)
         else propagate_watches lit is (js @ [w]) (ck_assign blit s))
      else
        (let a = cw_clause w; c = ck_deref s a in
         if cc_size c = 0 then propagate_watches lit is js s
         else
           (let lits = cc_literals c;
                other = (lits ! 0 XOR lits ! 1) XOR (- lit);
                other_val = ck_val s other
            in
            if other_val > 0 then propagate_watches lit is (js @ [w\<lparr>cw_blit := other\<rparr>]) s
            else
              (let lits = lits[0 := other, 1 := - lit] in
               case List.find (\<lambda>k. ck_val s (lits ! k) \<ge> 0) [2..<size] of
                 Some k \<Rightarrow>
                   propagate_watches lit is js
                     (ck_store a (c\<lparr>cc_literals := list_swap lits 1 k\<rparr>)
                       (ck_push_watch (lits ! k) (new_watch (- lit) a c) s))
               | None \<Rightarrow>
                   (let s = ck_store a (c\<lparr>cc_literals := lits\<rparr>) s in
                    if other_val = 0 then
                      propagate_watches lit is (js @ [w]) (ck_assign other s)
                    else (False, js @ w # is, s))))))"

partial_function (option) ck_propagate :: "Checker \<Rightarrow> (bool \<times> Checker) option" where
  "ck_propagate s =
     (if ck_next_to_propagate s < length (ck_trail s) then
        (let lit = ck_trail s ! ck_next_to_propagate s;
             s = s\<lparr>ck_next_to_propagate := ck_next_to_propagate s + 1\<rparr>;
             s = ck_count (\<lambda>t. t\<lparr>cs_propagations := cs_propagations t + 1\<rparr>) s;
             (res, ws, s) = propagate_watches lit (ck_watcher s (- lit)) [] s;
             s = ck_set_watcher (- lit) ws s
         in if res then ck_propagate s else Some (False, s))
      else Some (True, s))"

declare ck_propagate.simps [code]

definition ck_check :: "Checker \<Rightarrow> (bool \<times> Checker) outcome" where
  "ck_check s =
     (let s = ck_count (\<lambda>t. t\<lparr>cs_checks := cs_checks t + 1\<rparr>) s in
      if ck_inconsistent s then Ok (True, s)
      else
        (let previously_propagated = ck_next_to_propagate s;
             s = fold (\<lambda>lit. ck_assume (- lit)) (ck_simplified s) s
         in bind_outcome (of_loop (ck_propagate s))
              (\<lambda>(ok, s). Ok (\<not> ok, ck_backtrack previously_propagated s))))"

subsection \<open>Adding and deleting clauses\<close>

text \<open>The loop that looks for a unit: zero, the unit, or \<^verbatim>\<open>INT_MIN\<close> for two or more.\<close>

fun find_unit :: "(int \<Rightarrow> int) \<Rightarrow> int \<Rightarrow> int list \<Rightarrow> int" where
  "find_unit v unit [] = unit"
| "find_unit v unit (lit # ls) =
     (if v lit < 0 then find_unit v unit ls
      else if unit \<noteq> 0 then int_min
      else find_unit v lit ls)"

definition ck_add_clause :: "Checker \<Rightarrow> Checker outcome" where
  "ck_add_clause s =
     (let unit = find_unit (ck_val s) 0 (ck_simplified s);
          s = (if ck_simplified s = [] then s\<lparr>ck_inconsistent := True\<rparr> else s)
      in if unit = 0 then Ok (s\<lparr>ck_inconsistent := True\<rparr>)
         else if unit \<noteq> int_min then
           (let s = ck_assign unit s;
                s = ck_count (\<lambda>t. t\<lparr>cs_units := cs_units t + 1\<rparr>) s
            in bind_outcome (of_loop (ck_propagate s))
                 (\<lambda>(ok, s). Ok (if \<not> ok then s\<lparr>ck_inconsistent := True\<rparr> else s)))
         else ck_insert s)"

definition ck_clear :: "Checker \<Rightarrow> Checker" where
  "ck_clear s = s\<lparr>ck_simplified := [], ck_unsimplified := []\<rparr>"

definition ck_add_original_clause :: "64 word \<Rightarrow> int list \<Rightarrow> Checker \<Rightarrow> Checker outcome" where
  "ck_add_original_clause cid c s =
     (if ck_inconsistent s then Ok s
      else
        (let s = ck_count (\<lambda>t. t\<lparr>cs_added := cs_added t + 1, cs_original := cs_original t + 1\<rparr>) s;
             s = ck_import_clause c s;
             s = s\<lparr>ck_last_id := cid\<rparr>;
             (taut, s) = ck_tautological s
         in bind_outcome (if taut then Ok s else ck_add_clause s) (\<lambda>s. Ok (ck_clear s))))"

definition ck_add_derived_clause :: "64 word \<Rightarrow> int list \<Rightarrow> Checker \<Rightarrow> Checker outcome" where
  "ck_add_derived_clause cid c s =
     (if ck_inconsistent s then Ok s
      else
        (let s = ck_count (\<lambda>t. t\<lparr>cs_added := cs_added t + 1, cs_derived := cs_derived t + 1\<rparr>) s;
             s = ck_import_clause c s;
             s = s\<lparr>ck_last_id := cid\<rparr>;
             (taut, s) = ck_tautological s
         in bind_outcome
              (if taut then Ok s
               else bind_outcome (ck_check s)
                      (\<lambda>(ok, s). if \<not> ok then Fatal ''failed to check derived clause:''
                                 else ck_add_clause s))
              (\<lambda>s. Ok (ck_clear s))))"

definition ck_delete_clause :: "64 word \<Rightarrow> int list \<Rightarrow> Checker \<Rightarrow> Checker outcome" where
  "ck_delete_clause cid c s =
     (if ck_inconsistent s then Ok s
      else
        (let s = ck_count (\<lambda>t. t\<lparr>cs_deleted := cs_deleted t + 1\<rparr>) s;
             s = ck_import_clause c s;
             s = s\<lparr>ck_last_id := cid\<rparr>;
             (taut, s) = ck_tautological s
         in bind_outcome
              (if taut then Ok s
               else bind_outcome (ck_find s)
                 (\<lambda>((h, pos), s).
                    let chain = ck_clauses s ! h in
                    if pos < length chain then
                      (let d = chain ! pos;
                           s = s\<lparr>ck_num_garbage := ck_num_garbage s + 1,
                                 ck_num_clauses := ck_num_clauses s - 1,
                                 ck_clauses := (ck_clauses s)[h := remove_nth pos chain],
                                 ck_garbage := d # ck_garbage s\<rparr>;
                           s = ck_store d ((ck_deref s d)\<lparr>cc_size := 0\<rparr>) s
                       in Ok (if 2 * unat (ck_num_garbage s)
                                 > max (unat (ck_size_clauses s)) (nat (ck_size_vars s))
                              then ck_collect_garbage_clauses s else s))
                    else Fatal ''deleted clause not in proof:''))
              (\<lambda>s. Ok (ck_clear s))))"

definition ck_add_assumption_clause :: "64 word \<Rightarrow> int list \<Rightarrow> Checker \<Rightarrow> Checker outcome" where
  "ck_add_assumption_clause cid c s =
     bind_outcome (ck_add_derived_clause cid c s) (ck_delete_clause cid c)"

end
