(* ===== verification/Checker_Inv.thy ===== *)
theory Checker_Inv
  imports Checker
begin

unbundle bit_operations_syntax

text \<open>
  The structural invariant of the checker (assignment, clause objects, watches, hash table) and
  its preservation by the primitive operations, the propagation loops and the table operations.
\<close>

subsection \<open>Literal indices\<close>

definition ck_lit_ok :: "Checker \<Rightarrow> int \<Rightarrow> bool" where
  "ck_lit_ok s l \<longleftrightarrow> l \<noteq> 0 \<and> \<bar>l\<bar> < ck_size_vars s"

lemma ck_lit_ok_uminus [simp]: "ck_lit_ok s (- l) = ck_lit_ok s l"
  by (auto simp: ck_lit_ok_def)

subsection \<open>Watch lists\<close>

lemma ck_watcher_set [simp]:
  assumes "length (ck_watchers s) = nat (2 * ck_size_vars s)"
    and "ck_lit_ok s l" and "ck_lit_ok s k"
  shows "ck_watcher (ck_set_watcher k ws s) l = (if l = k then ws else ck_watcher s l)"
  using assms l2u_bound [of k "ck_size_vars s"]
  by (auto simp: ck_watcher_def ck_set_watcher_def ck_lit_ok_def nth_list_update l2u_inj)

lemma ck_set_watcher_frame [simp]:
  "ck_size_vars (ck_set_watcher k ws s) = ck_size_vars s"
  "ck_vals (ck_set_watcher k ws s) = ck_vals s"
  "length (ck_watchers (ck_set_watcher k ws s)) = length (ck_watchers s)"
  "ck_marks (ck_set_watcher k ws s) = ck_marks s"
  "ck_inconsistent (ck_set_watcher k ws s) = ck_inconsistent s"
  "ck_num_clauses (ck_set_watcher k ws s) = ck_num_clauses s"
  "ck_num_garbage (ck_set_watcher k ws s) = ck_num_garbage s"
  "ck_size_clauses (ck_set_watcher k ws s) = ck_size_clauses s"
  "ck_clauses (ck_set_watcher k ws s) = ck_clauses s"
  "ck_garbage (ck_set_watcher k ws s) = ck_garbage s"
  "ck_unsimplified (ck_set_watcher k ws s) = ck_unsimplified s"
  "ck_simplified (ck_set_watcher k ws s) = ck_simplified s"
  "ck_trail (ck_set_watcher k ws s) = ck_trail s"
  "ck_next_to_propagate (ck_set_watcher k ws s) = ck_next_to_propagate s"
  "ck_nonces (ck_set_watcher k ws s) = ck_nonces s"
  "ck_last_hash (ck_set_watcher k ws s) = ck_last_hash s"
  "ck_last_id (ck_set_watcher k ws s) = ck_last_id s"
  "ck_mem (ck_set_watcher k ws s) = ck_mem s"
  "ck_next_addr (ck_set_watcher k ws s) = ck_next_addr s"
  by (simp_all add: ck_set_watcher_def)

lemma ck_lit_ok_cong: "ck_size_vars s = ck_size_vars t \<Longrightarrow> ck_lit_ok s = ck_lit_ok t"
  by (auto simp: ck_lit_ok_def fun_eq_iff)

subsection \<open>The invariant\<close>

text \<open>The assignment is the one the trail describes, and no variable is on the trail twice.\<close>

definition ck_trail_inv :: "Checker \<Rightarrow> bool" where
  "ck_trail_inv s \<longleftrightarrow>
     ck_vals s = trail_val (ck_trail s)
     \<and> (\<forall>l \<in> set (ck_trail s). ck_lit_ok s l)
     \<and> distinct (map abs (ck_trail s))
     \<and> ck_next_to_propagate s \<le> length (ck_trail s)"

text \<open>Every allocated clause has at least two distinct literals in range; size 0 marks garbage.\<close>

definition ck_clause_ok :: "Checker \<Rightarrow> CheckerClause \<Rightarrow> bool" where
  "ck_clause_ok s c \<longleftrightarrow>
     distinct (cc_literals c) \<and> 2 \<le> length (cc_literals c)
     \<and> (\<forall>l \<in> set (cc_literals c). ck_lit_ok s l)
     \<and> (cc_size c = 0 \<or> cc_size c = length (cc_literals c))"

definition ck_mem_inv :: "Checker \<Rightarrow> bool" where
  "ck_mem_inv s \<longleftrightarrow> (\<forall>a c. ck_mem s a = Some c \<longrightarrow> a < ck_next_addr s \<and> ck_clause_ok s c)"

text \<open>
  A watch of \<open>l\<close> points to an allocated clause with \<open>l\<close> and a different blocking literal in it;
  unless the clause is binary or garbage, \<open>l\<close> is at one of its first two positions.
\<close>

definition ck_watch_ok :: "(nat \<rightharpoonup> CheckerClause) \<Rightarrow> int \<Rightarrow> CheckerWatch \<Rightarrow> bool" where
  "ck_watch_ok m l w \<longleftrightarrow>
     (\<exists>c. m (cw_clause w) = Some c \<and> cw_size w = length (cc_literals c)
        \<and> l \<in> set (cc_literals c) \<and> cw_blit w \<in> set (cc_literals c) \<and> cw_blit w \<noteq> l
        \<and> (cc_size c \<noteq> 0 \<longrightarrow> cw_size w > 2 \<longrightarrow> l = cc_literals c ! 0 \<or> l = cc_literals c ! 1))"

definition ck_watches_ok :: "(nat \<rightharpoonup> CheckerClause) \<Rightarrow> int \<Rightarrow> CheckerWatch list \<Rightarrow> bool" where
  "ck_watches_ok m l ws \<longleftrightarrow> (\<forall>w \<in> set ws. ck_watch_ok m l w) \<and> distinct (map cw_clause ws)"

text \<open>
  The last two watch lists belong to no literal below \<open>size_vars\<close> and stay empty; between two
  searches no literal is marked.
\<close>

definition ck_watch_inv :: "Checker \<Rightarrow> bool" where
  "ck_watch_inv s \<longleftrightarrow>
     0 \<le> ck_size_vars s
     \<and> length (ck_watchers s) = nat (2 * ck_size_vars s)
     \<and> ck_marks s = replicate (nat (2 * ck_size_vars s)) False
     \<and> (\<forall>i. nat (2 * ck_size_vars s - 2) \<le> i \<longrightarrow> i < length (ck_watchers s) \<longrightarrow>
          ck_watchers s ! i = [])
     \<and> (\<forall>l. ck_lit_ok s l \<longrightarrow> ck_watches_ok (ck_mem s) l (ck_watcher s l))"

text \<open>
  The allocated clauses are exactly those of the hash table and of the garbage list, each once;
  table clauses are live and sit in the bucket of their hash, garbage clauses have size 0.
\<close>

definition ck_table_inv :: "Checker \<Rightarrow> bool" where
  "ck_table_inv s \<longleftrightarrow>
     length (ck_clauses s) = unat (ck_size_clauses s)
     \<and> length (ck_nonces s) = num_nonces
     \<and> distinct (concat (ck_clauses s) @ ck_garbage s)
     \<and> dom (ck_mem s) = set (concat (ck_clauses s)) \<union> set (ck_garbage s)
     \<and> (\<forall>a \<in> set (concat (ck_clauses s)). cc_size (ck_deref s a) \<noteq> 0)
     \<and> (\<forall>a \<in> set (ck_garbage s). cc_size (ck_deref s a) = 0)
     \<and> (\<forall>i < length (ck_clauses s). \<forall>a \<in> set (ck_clauses s ! i).
          \<exists>h. reduce_hash (cc_hash (ck_deref s a)) (ck_size_clauses s) = Some h \<and> unat h = i)
     \<and> ck_num_clauses s = of_nat (length (concat (ck_clauses s)))
     \<and> ck_num_garbage s = of_nat (length (ck_garbage s))"

definition ck_wf :: "Checker \<Rightarrow> bool" where
  "ck_wf s \<longleftrightarrow> ck_trail_inv s \<and> ck_mem_inv s \<and> ck_watch_inv s \<and> ck_table_inv s"

lemmas ck_wf_defs = ck_wf_def ck_trail_inv_def ck_mem_inv_def ck_watch_inv_def ck_table_inv_def

text \<open>What the invariant is about: states that agree on these fields are well formed together.\<close>

lemma ck_wf_cong:
  assumes "ck_wf s"
    and "ck_size_vars t = ck_size_vars s" "ck_vals t = ck_vals s" "ck_watchers t = ck_watchers s"
      "ck_marks t = ck_marks s" "ck_num_clauses t = ck_num_clauses s"
      "ck_num_garbage t = ck_num_garbage s" "ck_size_clauses t = ck_size_clauses s"
      "ck_clauses t = ck_clauses s" "ck_garbage t = ck_garbage s" "ck_trail t = ck_trail s"
      "ck_next_to_propagate t \<le> length (ck_trail s)" "ck_nonces t = ck_nonces s"
      "ck_mem t = ck_mem s" "ck_next_addr t = ck_next_addr s"
  shows "ck_wf t"
proof -
  have l: "ck_lit_ok t = ck_lit_ok s" by (rule ck_lit_ok_cong) (simp add: assms)
  have w: "ck_watcher t = ck_watcher s" using assms by (simp add: ck_watcher_def fun_eq_iff)
  have d: "ck_deref t = ck_deref s" using assms by (simp add: ck_deref_def fun_eq_iff)
  have "ck_trail_inv t"
    using assms(1) by (simp add: ck_wf_def ck_trail_inv_def l assms(2-))
  moreover have "ck_mem_inv t"
    using assms(1) by (simp add: ck_wf_def ck_mem_inv_def ck_clause_ok_def l assms(2-))
  moreover have "ck_watch_inv t"
    using assms(1) by (simp add: ck_wf_def ck_watch_inv_def l w assms(2-))
  moreover have "ck_table_inv t"
    using assms(1) by (simp add: ck_wf_def ck_table_inv_def d assms(2-))
  ultimately show ?thesis by (simp add: ck_wf_def)
qed

lemma ck_watches_okD:
  "ck_watches_ok m l ws \<Longrightarrow> w \<in> set ws \<Longrightarrow> ck_watch_ok m l w"
  by (simp add: ck_watches_ok_def)

lemma ck_wf_watcher: "ck_wf s \<Longrightarrow> ck_lit_ok s l \<Longrightarrow> ck_watches_ok (ck_mem s) l (ck_watcher s l)"
  by (simp add: ck_wf_def ck_watch_inv_def)

lemma ck_wf_clause: "ck_wf s \<Longrightarrow> ck_mem s a = Some c \<Longrightarrow> ck_clause_ok s c"
  by (simp add: ck_wf_def ck_mem_inv_def)

lemma ck_wf_vals: "ck_wf s \<Longrightarrow> ck_val s l = trail_val (ck_trail s) l"
  by (simp add: ck_wf_def ck_trail_inv_def ck_val_def)

text \<open>The assertion \<^verbatim>\<open>vals[lit] == -vals[-lit]\<close> of \<^verbatim>\<open>val\<close>.\<close>

lemma ck_vals_antisym: "ck_wf s \<Longrightarrow> ck_vals s l = - ck_vals s (- l)"
  using distinct_abs_trail [of "ck_trail s" l] distinct_abs_trail [of "ck_trail s" "- l"]
  by (fastforce simp: ck_wf_def ck_trail_inv_def trail_val_def ck_lit_ok_def)


subsection \<open>Primitive operations keep the invariant\<close>

lemma ck_wf_assign:
  assumes wf: "ck_wf s" and l: "ck_lit_ok s l" and v: "ck_val s l = 0"
  shows "ck_wf (ck_assign l s)"
proof -
  have n: "l \<notin> set (ck_trail s)" "- l \<notin> set (ck_trail s)" "l \<noteq> 0"
    using v l by (simp_all add: ck_wf_vals [OF wf] trail_val_simps ck_lit_ok_def)
  have ok: "ck_lit_ok (ck_assign l s) = ck_lit_ok s"
    by (rule ck_lit_ok_cong) (simp add: ck_assign_def)
  have "\<bar>l\<bar> \<notin> abs ` set (ck_trail s)"
    using n by (auto simp: abs_eq_iff)
  then have "ck_trail_inv (ck_assign l s)"
    using wf l n unfolding ck_trail_inv_def ok
    by (simp add: ck_assign_def ck_wf_def ck_trail_inv_def trail_val_snoc)
  moreover have "ck_mem_inv (ck_assign l s)"
    using wf by (simp add: ck_wf_def ck_mem_inv_def ck_clause_ok_def ok) (simp add: ck_assign_def)
  moreover have "ck_watch_inv (ck_assign l s)"
    using wf by (simp add: ck_wf_def ck_watch_inv_def ok) (simp add: ck_assign_def ck_watcher_def)
  moreover have "ck_table_inv (ck_assign l s)"
    using wf by (simp add: ck_wf_def ck_table_inv_def ck_assign_def ck_deref_def)
  ultimately show ?thesis by (simp add: ck_wf_def)
qed

lemma ck_set_watcher_twice [simp]:
  "ck_set_watcher k ws' (ck_set_watcher k ws s) = ck_set_watcher k ws' s"
  by (simp add: ck_set_watcher_def)

lemma ck_lit_ok_set_watcher [simp]: "ck_lit_ok (ck_set_watcher k ws s) = ck_lit_ok s"
  by (rule ck_lit_ok_cong) simp

lemma ck_wf_length_watchers:
  "ck_wf s \<Longrightarrow> length (ck_watchers s) = nat (2 * ck_size_vars s)"
  by (simp add: ck_wf_def ck_watch_inv_def)

lemma ck_wf_set_watcher:
  assumes wf: "ck_wf s" and k: "ck_lit_ok s k" and ok: "ck_watches_ok (ck_mem s) k ws"
  shows "ck_wf (ck_set_watcher k ws s)"
proof -
  have "ck_watchers (ck_set_watcher k ws s) ! i = ck_watchers s ! i"
    if "nat (2 * ck_size_vars s - 2) \<le> i" for i
    using that k l2u_bound' [of k "ck_size_vars s"]
    by (auto simp: ck_set_watcher_def ck_lit_ok_def nth_list_update)
  then have "ck_watch_inv (ck_set_watcher k ws s)"
    using wf k ok by (simp add: ck_wf_def ck_watch_inv_def)
  moreover have "ck_trail_inv (ck_set_watcher k ws s)"
    using wf by (simp add: ck_wf_def ck_trail_inv_def)
  moreover have "ck_mem_inv (ck_set_watcher k ws s)"
    using wf by (simp add: ck_wf_def ck_mem_inv_def ck_clause_ok_def)
  moreover have "ck_table_inv (ck_set_watcher k ws s)"
    using wf by (simp add: ck_wf_def ck_table_inv_def ck_deref_def)
  ultimately show ?thesis by (simp add: ck_wf_def)
qed

lemma ck_wf_replace_watcher:
  assumes "ck_wf (ck_set_watcher k ws s)" "ck_lit_ok s k" "ck_watches_ok (ck_mem s) k ws'"
  shows "ck_wf (ck_set_watcher k ws' s)"
  using ck_wf_set_watcher [OF assms(1), of k ws'] assms(2,3) by simp

lemma ck_wf_push_watch:
  assumes wf: "ck_wf s" and r: "ck_lit_ok s r" and w: "ck_watch_ok (ck_mem s) r w"
    and new: "cw_clause w \<notin> cw_clause ` set (ck_watcher s r)"
  shows "ck_wf (ck_push_watch r w s)"
  unfolding ck_push_watch_def
  by (rule ck_wf_set_watcher [OF wf r])
    (use ck_wf_watcher [OF wf r] w new in \<open>auto simp: ck_watches_ok_def\<close>)

text \<open>Rewriting the literals of one clause by a permutation that keeps its watches in front.\<close>

lemma ck_store_frame [simp]:
  "ck_size_vars (ck_store a c s) = ck_size_vars s"
  "ck_vals (ck_store a c s) = ck_vals s"
  "ck_watchers (ck_store a c s) = ck_watchers s"
  "ck_marks (ck_store a c s) = ck_marks s"
  "ck_inconsistent (ck_store a c s) = ck_inconsistent s"
  "ck_num_clauses (ck_store a c s) = ck_num_clauses s"
  "ck_num_garbage (ck_store a c s) = ck_num_garbage s"
  "ck_size_clauses (ck_store a c s) = ck_size_clauses s"
  "ck_clauses (ck_store a c s) = ck_clauses s"
  "ck_garbage (ck_store a c s) = ck_garbage s"
  "ck_unsimplified (ck_store a c s) = ck_unsimplified s"
  "ck_simplified (ck_store a c s) = ck_simplified s"
  "ck_trail (ck_store a c s) = ck_trail s"
  "ck_next_to_propagate (ck_store a c s) = ck_next_to_propagate s"
  "ck_nonces (ck_store a c s) = ck_nonces s"
  "ck_last_hash (ck_store a c s) = ck_last_hash s"
  "ck_last_id (ck_store a c s) = ck_last_id s"
  "ck_mem (ck_store a c s) = (ck_mem s)(a \<mapsto> c)"
  "ck_next_addr (ck_store a c s) = ck_next_addr s"
  "ck_watcher (ck_store a c s) = ck_watcher s"
  by (simp_all add: ck_store_def ck_watcher_def fun_eq_iff)

lemma ck_lit_ok_store [simp]: "ck_lit_ok (ck_store a c s) = ck_lit_ok s"
  by (rule ck_lit_ok_cong) simp

lemma ck_watch_ok_reorder:
  assumes "ck_watch_ok m l w" and "m a = Some c" and "mset ls = mset (cc_literals c)"
    and "cw_clause w = a \<Longrightarrow> cc_size c \<noteq> 0 \<Longrightarrow> length ls > 2 \<Longrightarrow> l = ls ! 0 \<or> l = ls ! 1"
  shows "ck_watch_ok (m(a \<mapsto> c\<lparr>cc_literals := ls\<rparr>)) l w"
proof (cases "cw_clause w = a")
  case True
  with assms(1,2,4) mset_eq_setD [OF assms(3)] mset_eq_length [OF assms(3)]
  show ?thesis by (simp add: ck_watch_ok_def)
next
  case False
  with assms(1) show ?thesis by (simp add: ck_watch_ok_def)
qed

lemma ck_deref_reorder:
  "ck_mem s a = Some c \<Longrightarrow> cc_size (ck_deref (ck_store a (c\<lparr>cc_literals := ls\<rparr>) s) b) = cc_size (ck_deref s b)"
  "ck_mem s a = Some c \<Longrightarrow> cc_hash (ck_deref (ck_store a (c\<lparr>cc_literals := ls\<rparr>) s) b) = cc_hash (ck_deref s b)"
  by (auto simp: ck_deref_def)

lemma ck_wf_reorder:
  assumes wf: "ck_wf s" and a: "ck_mem s a = Some c" and p: "mset ls = mset (cc_literals c)"
    and front: "\<And>l w. ck_lit_ok s l \<Longrightarrow> w \<in> set (ck_watcher s l) \<Longrightarrow> cw_clause w = a \<Longrightarrow>
      cc_size c \<noteq> 0 \<Longrightarrow> length ls > 2 \<Longrightarrow> l = ls ! 0 \<or> l = ls ! 1"
  shows "ck_wf (ck_store a (c\<lparr>cc_literals := ls\<rparr>) s)" (is "ck_wf ?t")
proof -
  have "ck_clause_ok s (c\<lparr>cc_literals := ls\<rparr>)"
    using ck_wf_clause [OF wf a] mset_eq_setD [OF p] mset_eq_length [OF p]
      mset_eq_imp_distinct_iff [OF p]
    by (simp add: ck_clause_ok_def)
  moreover have "ck_clause_ok ?t = ck_clause_ok s"
    by (simp add: ck_clause_ok_def fun_eq_iff)
  ultimately have "ck_mem_inv ?t"
    using wf a by (auto simp: ck_wf_def ck_mem_inv_def)
  moreover have "ck_trail_inv ?t"
    using wf by (simp add: ck_wf_def ck_trail_inv_def)
  moreover have "ck_table_inv ?t"
    using wf a unfolding ck_table_inv_def ck_deref_reorder [OF a] ck_wf_def
    by auto
  moreover have "ck_watches_ok (ck_mem ?t) l (ck_watcher ?t l)" if l: "ck_lit_ok s l" for l
    using ck_wf_watcher [OF wf l] front [OF l]
    by (auto simp: ck_watches_ok_def intro!: ck_watch_ok_reorder a p)
  ultimately show ?thesis
    using wf by (simp add: ck_wf_def ck_watch_inv_def)
qed

subsection \<open>Propagation over one watch list\<close>

text \<open>What propagation may change: the trail grows, clause literals are permuted, watches move.\<close>

definition same_clause :: "CheckerClause \<Rightarrow> CheckerClause \<Rightarrow> bool" where
  "same_clause c d \<longleftrightarrow> cc_hash d = cc_hash c \<and> cc_size d = cc_size c
     \<and> mset (cc_literals d) = mset (cc_literals c)"

definition ck_prop_frame :: "Checker \<Rightarrow> Checker \<Rightarrow> bool" where
  "ck_prop_frame s t \<longleftrightarrow>
     ck_size_vars t = ck_size_vars s \<and> ck_inconsistent t = ck_inconsistent s
     \<and> ck_num_clauses t = ck_num_clauses s \<and> ck_num_garbage t = ck_num_garbage s
     \<and> ck_size_clauses t = ck_size_clauses s \<and> ck_clauses t = ck_clauses s
     \<and> ck_garbage t = ck_garbage s \<and> ck_simplified t = ck_simplified s
     \<and> ck_unsimplified t = ck_unsimplified s \<and> ck_nonces t = ck_nonces s
     \<and> ck_last_hash t = ck_last_hash s \<and> ck_last_id t = ck_last_id s
     \<and> ck_marks t = ck_marks s
     \<and> (\<exists>ls. ck_trail t = ck_trail s @ ls)
     \<and> (\<forall>a. rel_option same_clause (ck_mem s a) (ck_mem t a))"

lemma same_clause_refl [simp]: "same_clause c c"
  by (simp add: same_clause_def)

lemma same_clause_trans: "same_clause c d \<Longrightarrow> same_clause d e \<Longrightarrow> same_clause c e"
  by (simp add: same_clause_def)

lemma rel_option_same_refl [simp]: "rel_option same_clause m m"
  by (cases m) simp_all

lemma rel_option_same_trans:
  "rel_option same_clause m n \<Longrightarrow> rel_option same_clause n p \<Longrightarrow> rel_option same_clause m p"
  by (cases m; cases n; cases p) (auto intro: same_clause_trans)

lemma ck_prop_frame_refl [simp]: "ck_prop_frame s s"
  by (simp add: ck_prop_frame_def)

lemma ck_prop_frame_trans:
  assumes "ck_prop_frame s t" and "ck_prop_frame t u"
  shows "ck_prop_frame s u"
proof -
  have "\<exists>ls. ck_trail u = ck_trail s @ ls"
    using assms unfolding ck_prop_frame_def by (metis append.assoc)
  moreover have "rel_option same_clause (ck_mem s a) (ck_mem u a)" for a
    using assms rel_option_same_trans unfolding ck_prop_frame_def by blast
  ultimately show ?thesis
    using assms unfolding ck_prop_frame_def by simp
qed

text \<open>The semantic invariant: clauses and trail follow from a formula.\<close>

definition ck_sem :: "clause set \<Rightarrow> Checker \<Rightarrow> bool" where
  "ck_sem F s \<longleftrightarrow>
     (\<forall>a c. ck_mem s a = Some c \<longrightarrow> entails F (cc_literals c))
     \<and> (\<forall>l \<in> set (ck_trail s). entails F [l])"

lemma ck_sem_clause: "ck_sem F s \<Longrightarrow> ck_mem s a = Some c \<Longrightarrow> entails F (cc_literals c)"
  by (simp add: ck_sem_def)

lemma ck_sem_unit:
  assumes "ck_sem F s" and "entails F C" and "0 \<notin> set C"
    and "\<And>l. l \<in> set C \<Longrightarrow> l \<noteq> x \<Longrightarrow> - l \<in> set (ck_trail s)"
  shows "entails F [x]"
  by (rule entails_drop_false [OF assms(2)]) (use assms in \<open>auto simp: ck_sem_def\<close>)

lemma entails_contradiction: "entails F [x] \<Longrightarrow> entails F [- x] \<Longrightarrow> x \<noteq> 0 \<Longrightarrow> unsat F"
  unfolding unsat_def using entails_unitD lit_true_uminus by blast

lemma ck_sem_conflict:
  assumes "ck_sem F s" and "entails F [x]" and "- x \<in> set (ck_trail s)" and "x \<noteq> 0"
  shows "unsat F"
  using assms entails_contradiction [of F x] by (auto simp: ck_sem_def)

lemma ck_set_watcher_assign:
  "ck_set_watcher k ws (ck_assign x s) = ck_assign x (ck_set_watcher k ws s)"
  by (simp add: ck_set_watcher_def ck_assign_def)

lemma ck_assign_step:
  assumes wf: "ck_wf (ck_set_watcher k ws s)" and x: "ck_lit_ok s x" "ck_val s x = 0"
    and sem: "ck_sem F s" and e: "entails F [x]"
  shows "ck_wf (ck_set_watcher k ws (ck_assign x s))" "ck_sem F (ck_assign x s)"
    "ck_prop_frame s (ck_assign x s)"
proof -
  show "ck_wf (ck_set_watcher k ws (ck_assign x s))"
    unfolding ck_set_watcher_assign by (rule ck_wf_assign [OF wf]) (use x in \<open>simp_all add: ck_val_def\<close>)
  show "ck_sem F (ck_assign x s)"
    using sem e by (auto simp: ck_sem_def ck_assign_def)
  show "ck_prop_frame s (ck_assign x s)"
    by (simp add: ck_prop_frame_def ck_assign_def)
qed

lemma ck_sem_reorder:
  assumes "ck_sem F s" "ck_mem s a = Some c" "mset ls = mset (cc_literals c)"
  shows "ck_sem F (ck_store a (c\<lparr>cc_literals := ls\<rparr>) s)"
  using assms entails_cong_set [OF mset_eq_setD [OF assms(3)]] by (auto simp: ck_sem_def)

lemma ck_prop_frame_reorder:
  assumes "ck_mem s a = Some c" "mset ls = mset (cc_literals c)"
  shows "ck_prop_frame s (ck_store a (c\<lparr>cc_literals := ls\<rparr>) s)"
  using assms by (auto simp: ck_prop_frame_def same_clause_def)

lemma ck_set_watcher_store:
  "ck_set_watcher k ws (ck_store a c s) = ck_store a c (ck_set_watcher k ws s)"
  by (simp add: ck_set_watcher_def ck_store_def)

lemma ck_push_watch_frame [simp]:
  "ck_size_vars (ck_push_watch k w s) = ck_size_vars s"
  "ck_trail (ck_push_watch k w s) = ck_trail s"
  "ck_mem (ck_push_watch k w s) = ck_mem s"
  "ck_lit_ok (ck_push_watch k w s) = ck_lit_ok s"
  by (simp_all add: ck_push_watch_def)

lemma ck_prop_frame_push: "ck_prop_frame s (ck_push_watch k w s)"
  by (simp add: ck_prop_frame_def ck_push_watch_def)

lemma ck_sem_push [simp]: "ck_sem F (ck_push_watch k w s) = ck_sem F s"
  by (simp add: ck_sem_def)

lemma ck_push_watch_store:
  "ck_push_watch k w (ck_store a c s) = ck_store a c (ck_push_watch k w s)"
  by (simp add: ck_push_watch_def ck_set_watcher_store)

lemma ck_set_watcher_push:
  assumes "ck_lit_ok s k" "ck_lit_ok s r" "r \<noteq> k"
  shows "ck_set_watcher k ws (ck_push_watch r w s) = ck_push_watch r w (ck_set_watcher k ws s)"
proof -
  have "l2u r \<noteq> l2u k" using assms by (simp add: ck_lit_ok_def l2u_inj)
  then show ?thesis
    by (simp add: ck_push_watch_def ck_set_watcher_def ck_watcher_def list_update_swap)
qed

text \<open>Replacing the falsified watch: the old watch is dropped, the replacement is watched.\<close>

lemma ck_move_watch:
  assumes wf: "ck_wf u" and a: "ck_mem u a = Some c" and live: "cc_size c \<noteq> 0"
    and long: "length (cc_literals c) > 2" and k: "ck_lit_ok u k"
    and front: "k = cc_literals c ! 0 \<or> k = cc_literals c ! 1"
    and x: "x = (cc_literals c ! 0 XOR cc_literals c ! 1) XOR k"
    and ls: "ls = (cc_literals c)[0 := x, 1 := k]" and j: "2 \<le> j" "j < length ls"
    and gone: "a \<notin> cw_clause ` set (ck_watcher u k)"
  shows "ck_wf (ck_store a (c\<lparr>cc_literals := list_swap ls 1 j\<rparr>)
                 (ck_push_watch (ls ! j) (new_watch k a c) u))"
proof -
  have ok: "distinct (cc_literals c)" "2 \<le> length (cc_literals c)"
    "\<forall>l \<in> set (cc_literals c). ck_lit_ok u l" "cc_size c = length (cc_literals c)"
    using ck_wf_clause [OF wf a] live by (auto simp: ck_clause_ok_def)
  note pair = watched_pair [OF ok(1,2) front, folded x]
  have m: "mset ls = mset (cc_literals c)" using pair(3) ls by simp
  have len: "length ls = length (cc_literals c)" using ls by simp
  have d: "distinct ls" using m ok(1) by (metis mset_eq_imp_distinct_iff)
  have s: "set ls = set (cc_literals c)" using m by (rule mset_eq_setD)
  have ne: "cc_literals c \<noteq> []" using long by auto
  have nel: "ls \<noteq> []" using long len by auto
  have ls01: "ls ! 0 = x" "ls ! 1 = k" using long ne unfolding ls by simp_all
  have sw: "list_swap ls 1 j ! 0 = x" "list_swap ls 1 j ! 1 = ls ! j"
    using ls01 j len long ne nel by (simp_all add: nth_list_swap)
  have m': "mset (list_swap ls 1 j) = mset (cc_literals c)"
    using m j len long by simp
  have r: "ls ! j \<noteq> x" "ls ! j \<noteq> k" "ls ! j \<in> set ls"
  proof -
    show "ls ! j \<noteq> x"
      using nth_eq_iff_index_eq [OF d, of j 0] ls01 j len long ne by simp
    show "ls ! j \<noteq> k"
      using nth_eq_iff_index_eq [OF d, of j 1] ls01 j len long by simp
    show "ls ! j \<in> set ls" using j by simp
  qed
  have wat: "l = x" if "ck_lit_ok u l" "w \<in> set (ck_watcher u l)" "cw_clause w = a" for l w
  proof -
    have "ck_watch_ok (ck_mem u) l w" "l \<noteq> k"
      using ck_watches_okD [OF ck_wf_watcher [OF wf that(1)] that(2)] that gone by auto
    then have "l = cc_literals c ! 0 \<or> l = cc_literals c ! 1"
      using a live long that(3) by (auto simp: ck_watch_ok_def)
    then show ?thesis using pair(4) \<open>l \<noteq> k\<close> by blast
  qed
  let ?t = "ck_store a (c\<lparr>cc_literals := list_swap ls 1 j\<rparr>) u"
  have t: "ck_wf ?t"
    by (rule ck_wf_reorder [OF wf a m']) (use wat sw in blast)
  have kin: "k \<in> set (cc_literals c)" using front ok(2) long ne by auto
  have "ck_wf (ck_push_watch (ls ! j) (new_watch k a c) ?t)"
  proof (rule ck_wf_push_watch [OF t])
    show "ck_lit_ok ?t (ls ! j)" using r(3) s ok(3) by simp
    show "ck_watch_ok (ck_mem ?t) (ls ! j) (new_watch k a c)"
      using r kin s m' ok(4) sw mset_eq_setD [OF m'] mset_eq_length [OF m']
      by (simp add: ck_watch_ok_def new_watch_def)
    show "cw_clause (new_watch k a c) \<notin> cw_clause ` set (ck_watcher ?t (ls ! j))"
      using wat [of "ls ! j"] r s ok(3) by (auto simp: new_watch_def)
  qed
  then show ?thesis by (simp add: ck_push_watch_store)
qed

text \<open>The obligations of the loop over the watches of \<open>k\<close>, bundled.\<close>

definition pw_ok :: "clause set \<Rightarrow> int \<Rightarrow> CheckerWatch list \<Rightarrow> Checker \<Rightarrow> bool" where
  "pw_ok F k ws s \<longleftrightarrow>
     ck_wf (ck_set_watcher k ws s) \<and> ck_sem F s \<and> - k \<in> set (ck_trail s) \<and> ck_lit_ok s k"

lemma pw_okD:
  assumes "pw_ok F k ws s"
  shows "ck_wf (ck_set_watcher k ws s)" "ck_sem F s" "- k \<in> set (ck_trail s)" "ck_lit_ok s k"
    "ck_watches_ok (ck_mem s) k ws"
proof -
  show *: "ck_wf (ck_set_watcher k ws s)" "ck_sem F s" "- k \<in> set (ck_trail s)" "ck_lit_ok s k"
    using assms by (auto simp: pw_ok_def)
  show "ck_watches_ok (ck_mem s) k ws"
    using ck_wf_watcher [OF *(1), of k] *(4) ck_wf_length_watchers [OF *(1)] by simp
qed

lemma pw_ok_val:
  assumes "pw_ok F k ws s" shows "ck_val s l = trail_val (ck_trail s) l"
  using ck_wf_vals [OF pw_okD(1) [OF assms], of l] by (simp add: ck_val_def)

lemma pw_ok_clause:
  assumes "pw_ok F k ws s" "ck_mem s a = Some c"
  shows "distinct (cc_literals c)" "2 \<le> length (cc_literals c)"
    "\<And>l. l \<in> set (cc_literals c) \<Longrightarrow> ck_lit_ok s l" "0 \<notin> set (cc_literals c)"
    "cc_size c \<noteq> 0 \<Longrightarrow> cc_size c = length (cc_literals c)"
  using ck_wf_clause [OF pw_okD(1) [OF assms(1)], of a c] assms(2)
  by (auto simp: ck_clause_ok_def ck_lit_ok_def)

lemma pw_ok_sub:
  assumes "pw_ok F k ws s" "ck_watches_ok (ck_mem s) k ws'"
  shows "pw_ok F k ws' s"
  using assms ck_wf_replace_watcher pw_okD(4) unfolding pw_ok_def by blast

lemma pw_ok_assign:
  assumes "pw_ok F k ws s" "ck_lit_ok s x" "ck_val s x = 0" "entails F [x]"
  shows "pw_ok F k ws (ck_assign x s)" "ck_prop_frame s (ck_assign x s)"
  using ck_assign_step [OF pw_okD(1) [OF assms(1)] assms(2,3) pw_okD(2) [OF assms(1)] assms(4)]
    pw_okD(3,4) [OF assms(1)]
  by (auto simp: pw_ok_def ck_assign_def ck_lit_ok_def)

lemma pw_ok_reorder:
  assumes ok: "pw_ok F k ws s" and a: "ck_mem s a = Some c" and p: "mset ls = mset (cc_literals c)"
    and front: "{ls ! 0, ls ! 1} = {cc_literals c ! 0, cc_literals c ! 1}"
  shows "pw_ok F k ws (ck_store a (c\<lparr>cc_literals := ls\<rparr>) s)"
    "ck_prop_frame s (ck_store a (c\<lparr>cc_literals := ls\<rparr>) s)"
proof -
  let ?u = "ck_set_watcher k ws s"
  have "ck_wf (ck_store a (c\<lparr>cc_literals := ls\<rparr>) ?u)"
  proof (rule ck_wf_reorder [OF pw_okD(1) [OF ok] _ p])
    show "ck_mem ?u a = Some c" using a by simp
    fix l w
    assume "ck_lit_ok ?u l" "w \<in> set (ck_watcher ?u l)" "cw_clause w = a" "cc_size c \<noteq> 0"
      "length ls > 2"
    then have "l = cc_literals c ! 0 \<or> l = cc_literals c ! 1"
      using ck_watches_okD [OF ck_wf_watcher [OF pw_okD(1) [OF ok]], of l w] a mset_eq_length [OF p]
      by (auto simp: ck_watch_ok_def)
    then show "l = ls ! 0 \<or> l = ls ! 1" using front by blast
  qed
  then show "pw_ok F k ws (ck_store a (c\<lparr>cc_literals := ls\<rparr>) s)"
    using ck_sem_reorder [OF pw_okD(2) [OF ok] a p] pw_okD(3,4) [OF ok]
    by (simp add: pw_ok_def ck_set_watcher_store)
  show "ck_prop_frame s (ck_store a (c\<lparr>cc_literals := ls\<rparr>) s)"
    by (rule ck_prop_frame_reorder [OF a p])
qed

lemma pw_ok_move:
  assumes ok: "pw_ok F k (js @ w # is) s" and a: "ck_mem s (cw_clause w) = Some c"
    and live: "cc_size c \<noteq> 0" and long: "length (cc_literals c) > 2"
    and x: "x = (cc_literals c ! 0 XOR cc_literals c ! 1) XOR k"
    and ls: "ls = (cc_literals c)[0 := x, 1 := k]" and j: "2 \<le> j" "j < length ls"
  defines "t \<equiv> ck_store (cw_clause w) (c\<lparr>cc_literals := list_swap ls 1 j\<rparr>)
                 (ck_push_watch (ls ! j) (new_watch k (cw_clause w) c) s)"
  shows "pw_ok F k (js @ is) t" "ck_prop_frame s t"
proof -
  let ?a = "cw_clause w"
  have ws: "ck_watches_ok (ck_mem s) k (js @ w # is)" by (rule pw_okD(5) [OF ok])
  have sub: "pw_ok F k (js @ is) s"
    by (rule pw_ok_sub [OF ok]) (use ws in \<open>auto simp: ck_watches_ok_def\<close>)
  have gone: "?a \<notin> cw_clause ` set (js @ is)"
    using ws by (auto simp: ck_watches_ok_def)
  have front: "k = cc_literals c ! 0 \<or> k = cc_literals c ! 1"
    using ck_watches_okD [OF ws, of w] a live long by (auto simp: ck_watch_ok_def)
  note pair = watched_pair [OF pw_ok_clause(1,2) [OF ok a] front, folded x]
  have m: "mset ls = mset (cc_literals c)" using pair(3) ls by simp
  have len: "length ls = length (cc_literals c)" using ls by simp
  have ne: "ls \<noteq> []" "1 < length ls" using long len by auto
  have d: "distinct ls" using m pw_ok_clause(1) [OF ok a] by (metis mset_eq_imp_distinct_iff)
  have "ls ! 1 = k" using ls long by simp
  then have r: "ls ! j \<noteq> k" "ck_lit_ok s (ls ! j)"
    using nth_eq_iff_index_eq [OF d j(2) ne(2)] j
      pw_ok_clause(3) [OF ok a, of "ls ! j"] mset_eq_setD [OF m] nth_mem [OF j(2)] by auto
  have "ck_wf (ck_store ?a (c\<lparr>cc_literals := list_swap ls 1 j\<rparr>)
          (ck_push_watch (ls ! j) (new_watch k ?a c) (ck_set_watcher k (js @ is) s)))"
    by (rule ck_move_watch [OF pw_okD(1) [OF sub] _ live long _ front x ls j])
      (use a pw_okD(4) [OF ok] gone ck_wf_length_watchers [OF pw_okD(1) [OF sub]] in auto)
  then have "ck_wf (ck_set_watcher k (js @ is) t)"
    using ck_set_watcher_push [OF pw_okD(4) [OF ok] r(2,1)] by (simp add: t_def ck_set_watcher_store)
  moreover have m': "mset (list_swap ls 1 j) = mset (cc_literals c)" using m j(2) ne by simp
  have "ck_sem F t" "ck_prop_frame s t"
    unfolding t_def
    by (rule ck_sem_reorder, use pw_okD(2) [OF ok] a m' in simp_all)
      (rule ck_prop_frame_trans [OF ck_prop_frame_push ck_prop_frame_reorder],
        use a m' in simp_all)
  ultimately show "pw_ok F k (js @ is) t" "ck_prop_frame s t"
    using pw_okD(3,4) [OF ok] by (simp_all add: pw_ok_def t_def)
qed

text \<open>A watch that is neither satisfied nor replaceable yields an implied literal.\<close>

lemma pw_binary_unit:
  assumes ok: "pw_ok F k ws s" and w: "w \<in> set ws" "cw_size w = 2"
  shows "entails F [cw_blit w]" "ck_lit_ok s (cw_blit w)"
proof -
  obtain c where c: "ck_mem s (cw_clause w) = Some c" "length (cc_literals c) = 2"
    "k \<in> set (cc_literals c)" "cw_blit w \<in> set (cc_literals c)" "cw_blit w \<noteq> k"
    using ck_watches_okD [OF pw_okD(5) [OF ok] w(1)] w(2) by (auto simp: ck_watch_ok_def)
  obtain x y where xy: "cc_literals c = [x, y]"
    using c(2) by (auto simp: length_Suc_conv numeral_2_eq_2)
  have e: "entails F (cc_literals c)" by (rule ck_sem_clause [OF pw_okD(2) [OF ok] c(1)])
  show "entails F [cw_blit w]"
    by (rule ck_sem_unit [OF pw_okD(2) [OF ok] e pw_ok_clause(4) [OF ok c(1)]])
      (use c xy pw_okD(3) [OF ok] in auto)
  show "ck_lit_ok s (cw_blit w)" by (rule pw_ok_clause(3) [OF ok c(1) c(4)])
qed

lemma pw_long_unit:
  assumes ok: "pw_ok F k ws s" and c: "ck_mem s a = Some c" and long: "length (cc_literals c) > 2"
    and front: "k = cc_literals c ! 0 \<or> k = cc_literals c ! 1"
    and x: "x = (cc_literals c ! 0 XOR cc_literals c ! 1) XOR k"
    and none: "\<And>j. 2 \<le> j \<Longrightarrow> j < length (cc_literals c) \<Longrightarrow>
      ck_val s ((cc_literals c)[0 := x, 1 := k] ! j) < 0"
  shows "entails F [x]"
proof -
  let ?ls = "(cc_literals c)[0 := x, 1 := k]"
  note pair = watched_pair [OF pw_ok_clause(1,2) [OF ok c] front, folded x]
  have e: "entails F (cc_literals c)" by (rule ck_sem_clause [OF pw_okD(2) [OF ok] c])
  have ne: "cc_literals c \<noteq> []" using long by auto
  show ?thesis
  proof (rule ck_sem_unit [OF pw_okD(2) [OF ok] e pw_ok_clause(4) [OF ok c]])
    fix l assume "l \<in> set (cc_literals c)" "l \<noteq> x"
    then obtain j where j: "j < length (cc_literals c)" "l = ?ls ! j"
      using mset_eq_setD [OF pair(3)] by (metis in_set_conv_nth length_list_update)
    then have "j = 1 \<or> 2 \<le> j" using \<open>l \<noteq> x\<close> ne by (cases j) auto
    then show "- l \<in> set (ck_trail s)"
      using none [of j] j pw_okD(3) [OF ok] long by (auto simp: pw_ok_val [OF ok] trail_val_simps)
  qed
qed

lemma pw_conflict:
  assumes ok: "pw_ok F k ws s" and "entails F [x]" "ck_val s x < 0" "ck_lit_ok s x"
  shows "unsat F"
  using ck_sem_conflict [OF pw_okD(2) [OF ok] assms(2)] assms(3,4)
  by (simp add: pw_ok_val [OF ok] trail_val_simps ck_lit_ok_def)

lemma propagate_watches_ok:
  assumes "pw_ok F (- lit) (js @ is) s" and "propagate_watches lit is js s = (res, ws, t)"
  shows "pw_ok F (- lit) ws t \<and> ck_prop_frame s t \<and> (\<not> res \<longrightarrow> unsat F)"
  using assms
proof (induction "is" arbitrary: js s)
  case Nil
  then show ?case by simp
next
  case (Cons w "is")
  let ?k = "- lit" and ?a = "cw_clause w"
  note ok = Cons.prems(1) and eq = Cons.prems(2)
  have w: "w \<in> set (js @ w # is)" by simp
  have ok': "pw_ok F ?k ((js @ [w]) @ is) s" using ok by simp
  obtain c where c: "ck_mem s ?a = Some c" "cw_size w = length (cc_literals c)"
    "cc_size c \<noteq> 0 \<Longrightarrow> cw_size w > 2 \<Longrightarrow> ?k = cc_literals c ! 0 \<or> ?k = cc_literals c ! 1"
    using ck_watches_okD [OF pw_okD(5) [OF ok] w] by (auto simp: ck_watch_ok_def)
  have der: "ck_deref s ?a = c" using c(1) by (simp add: ck_deref_def)
  have size: "2 \<le> cw_size w" using pw_ok_clause(2) [OF ok c(1)] c(2) by simp
  consider (sat) "ck_val s (cw_blit w) > 0"
    | (bin_conf) "cw_size w = 2" "ck_val s (cw_blit w) < 0"
    | (bin_unit) "cw_size w = 2" "ck_val s (cw_blit w) = 0"
    | (garbage) "\<not> ck_val s (cw_blit w) > 0" "cw_size w > 2" "cc_size c = 0"
    | (long) "\<not> ck_val s (cw_blit w) > 0" "cw_size w > 2" "cc_size c \<noteq> 0"
    using size by linarith
  then show ?case
  proof cases
    case sat
    then show ?thesis using Cons.IH [OF ok'] eq by (simp add: Let_def)
  next
    case bin_conf
    then show ?thesis
      using ok eq pw_conflict [OF ok pw_binary_unit(1) [OF ok w] _ pw_binary_unit(2) [OF ok w]]
      by (simp add: Let_def)
  next
    case bin_unit
    note u = pw_ok_assign [OF ok' pw_binary_unit(2) [OF ok w bin_unit(1)] bin_unit(2)
        pw_binary_unit(1) [OF ok w bin_unit(1)]]
    from eq bin_unit
    have "propagate_watches lit is (js @ [w]) (ck_assign (cw_blit w) s) = (res, ws, t)"
      by (simp add: Let_def)
    then show ?thesis
      using Cons.IH [OF u(1)] ck_prop_frame_trans [OF u(2)] by simp
  next
    case garbage
    have sub: "pw_ok F ?k (js @ is) s"
      by (rule pw_ok_sub [OF ok]) (use pw_okD(5) [OF ok] in \<open>auto simp: ck_watches_ok_def\<close>)
    show ?thesis
      using Cons.IH [OF sub] eq garbage by (simp add: Let_def der)
  next
    case long
    let ?x = "(cc_literals c ! 0 XOR cc_literals c ! 1) XOR ?k"
    let ?ls = "(cc_literals c)[0 := ?x, 1 := ?k]"
    have front: "?k = cc_literals c ! 0 \<or> ?k = cc_literals c ! 1" using c(3) long by simp
    note pair = watched_pair [OF pw_ok_clause(1,2) [OF ok c(1)] front]
    have xok: "ck_lit_ok s ?x" by (rule pw_ok_clause(3) [OF ok c(1) pair(2)])
    have len: "length (cc_literals c) > 2" using long(2) c(2) by simp
    have ne: "cc_literals c \<noteq> []" using len by auto
    have fr: "{?ls ! 0, ?ls ! 1} = {cc_literals c ! 0, cc_literals c ! 1}"
      using len ne pair(4) by simp
    show ?thesis
    proof (cases "ck_val s ?x > 0")
      case True
      have "ck_watch_ok (ck_mem s) ?k (w\<lparr>cw_blit := ?x\<rparr>)"
        using ck_watches_okD [OF pw_okD(5) [OF ok] w] c(1) pair(1,2) by (auto simp: ck_watch_ok_def)
      then have sub: "pw_ok F ?k ((js @ [w\<lparr>cw_blit := ?x\<rparr>]) @ is) s"
        by (intro pw_ok_sub [OF ok]) (use pw_okD(5) [OF ok] in \<open>auto simp: ck_watches_ok_def\<close>)
      show ?thesis
        using Cons.IH [OF sub] eq long True by (simp add: Let_def der)
    next
      case False
      show ?thesis
      proof (cases "List.find (\<lambda>j. ck_val s (?ls ! j) \<ge> 0) [2..<cw_size w]")
        case (Some j)
        then have j: "2 \<le> j" "j < length ?ls" using find_range_Some [OF Some] c(2) by auto
        note u = pw_ok_move [OF ok c(1) long(3) len refl refl j]
        show ?thesis
          using Cons.IH [OF u(1)] eq long False Some ck_prop_frame_trans [OF u(2)]
          by (simp add: Let_def der)
      next
        case None
        then have none: "ck_val s (?ls ! j) < 0" if "2 \<le> j" "j < length (cc_literals c)" for j
          using that c(2) by (auto simp: find_range_None not_le)
        have e: "entails F [?x]"
          by (rule pw_long_unit [OF ok c(1) len front refl none])
        note u = pw_ok_reorder [OF ok c(1) pair(3) fr]
        let ?s = "ck_store ?a (c\<lparr>cc_literals := ?ls\<rparr>) s"
        show ?thesis
        proof (cases "ck_val s ?x = 0")
          case True
          have u': "pw_ok F ?k ((js @ [w]) @ is) ?s" using u(1) by simp
          have "ck_lit_ok ?s ?x" "ck_val ?s ?x = 0" using xok True by (simp_all add: ck_val_def)
          note v = pw_ok_assign [OF u' this e]
          show ?thesis
            using Cons.IH [OF v(1)] eq long False None True
              ck_prop_frame_trans [OF ck_prop_frame_trans [OF u(2) v(2)]]
            by (simp add: Let_def der)
        next
          case nz: False
          then have "unsat F"
            using pw_conflict [OF ok e _ xok] False by linarith
          moreover have "(res, ws, t) = (False, js @ w # is, ?s)"
            using eq long False None nz by (simp add: Let_def der)
          ultimately show ?thesis using u by simp
        qed
      qed
    qed
  qed
qed

subsection \<open>Propagation\<close>

lemma propagate_watches_next:
  "propagate_watches lit is js s = (res, ws, t) \<Longrightarrow> ck_next_to_propagate t = ck_next_to_propagate s"
proof (induction "is" arbitrary: js s)
  case (Cons w "is")
  from Cons.prems show ?case
    by (auto simp: Let_def ck_assign_def ck_push_watch_def dest!: Cons.IH
        split: if_splits option.splits)
qed simp

lemma ck_set_watcher_self [simp]: "ck_set_watcher k (ck_watcher s k) s = s"
  by (simp add: ck_set_watcher_def ck_watcher_def)

lemma ck_count_frame [simp]:
  "ck_size_vars (ck_count f s) = ck_size_vars s"
  "ck_vals (ck_count f s) = ck_vals s"
  "ck_watchers (ck_count f s) = ck_watchers s"
  "ck_watcher (ck_count f s) = ck_watcher s"
  "ck_marks (ck_count f s) = ck_marks s"
  "ck_inconsistent (ck_count f s) = ck_inconsistent s"
  "ck_num_clauses (ck_count f s) = ck_num_clauses s"
  "ck_num_garbage (ck_count f s) = ck_num_garbage s"
  "ck_size_clauses (ck_count f s) = ck_size_clauses s"
  "ck_clauses (ck_count f s) = ck_clauses s"
  "ck_garbage (ck_count f s) = ck_garbage s"
  "ck_unsimplified (ck_count f s) = ck_unsimplified s"
  "ck_simplified (ck_count f s) = ck_simplified s"
  "ck_trail (ck_count f s) = ck_trail s"
  "ck_next_to_propagate (ck_count f s) = ck_next_to_propagate s"
  "ck_nonces (ck_count f s) = ck_nonces s"
  "ck_last_hash (ck_count f s) = ck_last_hash s"
  "ck_last_id (ck_count f s) = ck_last_id s"
  "ck_mem (ck_count f s) = ck_mem s"
  "ck_next_addr (ck_count f s) = ck_next_addr s"
  "ck_deref (ck_count f s) = ck_deref s"
  "ck_lit_ok (ck_count f s) = ck_lit_ok s"
  "ck_val (ck_count f s) = ck_val s"
  "ck_sem F (ck_count f s) = ck_sem F s"
  by (simp_all add: ck_count_def ck_watcher_def ck_deref_def ck_lit_ok_def ck_val_def ck_sem_def
      fun_eq_iff)

lemma ck_wf_count [simp]: "ck_wf (ck_count f s) = ck_wf s"
proof
  assume w: "ck_wf s"
  have "ck_next_to_propagate s \<le> length (ck_trail s)" using w by (simp add: ck_wf_def ck_trail_inv_def)
  then show "ck_wf (ck_count f s)" by (intro ck_wf_cong [OF w]) simp_all
next
  assume w: "ck_wf (ck_count f s)"
  have "ck_next_to_propagate s \<le> length (ck_trail s)" using w by (simp add: ck_wf_def ck_trail_inv_def)
  then show "ck_wf s" by (intro ck_wf_cong [OF w]) simp_all
qed

lemma ck_prop_frame_count [simp]: "ck_prop_frame s (ck_count f s)"
  by (simp add: ck_prop_frame_def)

text \<open>There are at most as many literals on the trail as there are variables.\<close>

lemma ck_trail_bound:
  assumes "ck_wf s" shows "length (ck_trail s) \<le> nat (ck_size_vars s)"
proof -
  have "distinct (map abs (ck_trail s))" and "abs ` set (ck_trail s) \<subseteq> {0 ..< ck_size_vars s}"
    using assms by (auto simp: ck_wf_def ck_trail_inv_def ck_lit_ok_def)
  then have "length (map abs (ck_trail s)) \<le> card {0 ..< ck_size_vars s}"
    by (metis card_mono distinct_card finite_atLeastLessThan_int list.set_map)
  then show ?thesis by simp
qed

lemma ck_propagate_step:
  assumes wf: "ck_wf s" and sem: "ck_sem F s"
    and more: "ck_next_to_propagate s < length (ck_trail s)"
    and u: "u = ck_count f (s\<lparr>ck_next_to_propagate := ck_next_to_propagate s + 1\<rparr>)"
    and lit: "lit = ck_trail s ! ck_next_to_propagate s"
    and pw: "propagate_watches lit (ck_watcher u (- lit)) [] u = (res, ws, t)"
  defines "v \<equiv> ck_set_watcher (- lit) ws t"
  shows "ck_wf v" "ck_sem F v" "ck_prop_frame s v" "\<not> res \<Longrightarrow> unsat F"
    "ck_next_to_propagate v = ck_next_to_propagate s + 1"
proof -
  have lm: "lit \<in> set (ck_trail s)" using more lit by simp
  then have lok: "ck_lit_ok s lit" using wf by (simp add: ck_wf_def ck_trail_inv_def)
  have uwf: "ck_wf u" unfolding u by (simp, rule ck_wf_cong [OF wf]) (use more in simp_all)
  have "ck_sem F u" using sem by (simp add: u ck_sem_def)
  then have "pw_ok F (- lit) ([] @ ck_watcher u (- lit)) u"
    using uwf lm lok unfolding pw_ok_def by (simp add: u [THEN arg_cong [of _ _ ck_trail]])
      (simp add: ck_lit_ok_def u)
  from propagate_watches_ok [OF this pw]
  have p: "pw_ok F (- lit) ws t" "ck_prop_frame u t" "\<not> res \<Longrightarrow> unsat F" by auto
  show "ck_wf v" unfolding v_def by (rule pw_okD(1) [OF p(1)])
  show "ck_sem F v" using pw_okD(2) [OF p(1)] by (simp add: v_def ck_sem_def)
  show "\<not> res \<Longrightarrow> unsat F" by (rule p(3))
  have "ck_prop_frame t v" by (simp add: v_def ck_prop_frame_def)
  moreover have "ck_prop_frame s u" by (simp add: u ck_prop_frame_def)
  ultimately show "ck_prop_frame s v" using p(2) ck_prop_frame_trans by blast
  show "ck_next_to_propagate v = ck_next_to_propagate s + 1"
    using propagate_watches_next [OF pw] by (simp add: v_def u)
qed

lemma ck_propagate_ok:
  assumes "ck_wf s" "ck_sem F s"
  shows "\<exists>res t. ck_propagate s = Some (res, t) \<and> ck_wf t \<and> ck_sem F t \<and> ck_prop_frame s t
     \<and> (\<not> res \<longrightarrow> unsat F) \<and> (res \<longrightarrow> ck_next_to_propagate t = length (ck_trail t))"
  using assms
proof (induction "nat (ck_size_vars s) - ck_next_to_propagate s" arbitrary: s rule: less_induct)
  case less
  show ?case
  proof (cases "ck_next_to_propagate s < length (ck_trail s)")
    case False
    then have "ck_next_to_propagate s = length (ck_trail s)"
      using less.prems(1) by (simp add: ck_wf_def ck_trail_inv_def)
    then show ?thesis
      using less.prems by (intro exI [of _ True] exI [of _ s]) (simp add: ck_propagate.simps [of s])
  next
    case True
    define f where "f = (\<lambda>t :: checker_stats. t\<lparr>cs_propagations := cs_propagations t + 1\<rparr>)"
    define u where "u = ck_count f (s\<lparr>ck_next_to_propagate := ck_next_to_propagate s + 1\<rparr>)"
    define lit where "lit = ck_trail s ! ck_next_to_propagate s"
    obtain res ws t where pw: "propagate_watches lit (ck_watcher u (- lit)) [] u = (res, ws, t)"
      using prod_cases3 by blast
    note st = ck_propagate_step [OF less.prems True u_def lit_def pw]
    let ?v = "ck_set_watcher (- lit) ws t"
    have eq: "ck_propagate s = (if res then ck_propagate ?v else Some (False, ?v))"
      using True pw unfolding u_def f_def lit_def
      by (subst ck_propagate.simps) (simp add: Let_def)
    show ?thesis
    proof (cases res)
      case False
      then show ?thesis using eq st by auto
    next
      case True
      have "ck_size_vars ?v = ck_size_vars s" using st(3) by (simp add: ck_prop_frame_def)
      moreover have "ck_next_to_propagate s < nat (ck_size_vars s)"
        using ck_trail_bound [OF less.prems(1)] \<open>ck_next_to_propagate s < length (ck_trail s)\<close> by simp
      ultimately have "nat (ck_size_vars ?v) - ck_next_to_propagate ?v
          < nat (ck_size_vars s) - ck_next_to_propagate s"
        using st(5) by simp
      from less.hyps [OF this st(1,2)] show ?thesis
        using eq True ck_prop_frame_trans [OF st(3)] by auto
    qed
  qed
qed

end
