(* ===== verification/Proof_Check.thy ===== *)
theory Proof_Check
  imports Prelude
begin

text \<open>
  The interface every online proof checker offers to the solver: original clauses are added,
  derived clauses are added after a check, clauses are deleted.  \<open>proof_checker\<close> states what
  each call keeps; what a whole accepted proof shows is proved once from it.
\<close>

datatype 'i proof_step =
  Original 'i clause | Derived 'i clause | Delete 'i clause

fun step_clause :: "'i proof_step \<Rightarrow> clause" where
  "step_clause (Original i c) = c"
| "step_clause (Derived i c) = c"
| "step_clause (Delete i c) = c"

definition originals :: "'i proof_step list \<Rightarrow> clause set" where
  "originals steps = {c. \<exists>i. Original i c \<in> set steps}"

definition derived :: "'i proof_step list \<Rightarrow> clause set" where
  "derived steps = {c. \<exists>i. Derived i c \<in> set steps}"

text \<open>Literals are C integers other than 0 and \<^verbatim>\<open>INT_MIN\<close>.\<close>

definition valid_clause :: "int list \<Rightarrow> bool" where
  "valid_clause c \<longleftrightarrow> (\<forall>l \<in> set c. l \<noteq> 0 \<and> \<bar>l\<bar> \<le> 2147483647)"

definition valid_steps :: "'i proof_step list \<Rightarrow> bool" where
  "valid_steps steps \<longleftrightarrow> (\<forall>st \<in> set steps. valid_clause (step_clause st))"

text \<open>The calls of one proof, in order, the way the proof object forwards them to a tracer.\<close>

fun run_proof ::
    "('i \<Rightarrow> clause \<Rightarrow> 's \<Rightarrow> 's outcome) \<Rightarrow> ('i \<Rightarrow> clause \<Rightarrow> 's \<Rightarrow> 's outcome)
     \<Rightarrow> ('i \<Rightarrow> clause \<Rightarrow> 's \<Rightarrow> 's outcome) \<Rightarrow> 'i proof_step list \<Rightarrow> 's \<Rightarrow> 's outcome" where
  "run_proof add_original add_derived delete [] s = Ok s"
| "run_proof add_original add_derived delete (st # steps) s =
     bind_outcome
       (case st of Original i c \<Rightarrow> add_original i c s
                 | Derived i c \<Rightarrow> add_derived i c s
                 | Delete i c \<Rightarrow> delete i c s)
       (run_proof add_original add_derived delete steps)"

lemma originals_simps [simp]:
  "originals [] = {}"
  "originals (Original i c # steps) = insert c (originals steps)"
  "originals (Derived i c # steps) = originals steps"
  "originals (Delete i c # steps) = originals steps"
  by (auto simp: originals_def)

lemma derived_simps [simp]:
  "derived [] = {}"
  "derived (Original i c # steps) = derived steps"
  "derived (Derived i c # steps) = insert c (derived steps)"
  "derived (Delete i c # steps) = derived steps"
  by (auto simp: derived_def)

lemma valid_steps_simps [simp]:
  "valid_steps []"
  "valid_steps (st # steps) \<longleftrightarrow> valid_clause (step_clause st) \<and> valid_steps steps"
  by (auto simp: valid_steps_def)

locale proof_checker =
  fixes inv :: "clause set \<Rightarrow> 's \<Rightarrow> bool"
    and init :: 's
    and add_original add_derived delete :: "'i \<Rightarrow> clause \<Rightarrow> 's \<Rightarrow> 's outcome"
  assumes inv_start: "inv {} init"
    and inv_original: "inv F s \<Longrightarrow> valid_clause c \<Longrightarrow> add_original i c s = Ok t \<Longrightarrow> inv (insert c F) t"
    and inv_derived: "inv F s \<Longrightarrow> valid_clause c \<Longrightarrow> add_derived i c s = Ok t \<Longrightarrow> inv F t"
    and check_derived: "inv F s \<Longrightarrow> valid_clause c \<Longrightarrow> add_derived i c s = Ok t \<Longrightarrow> entails F c"
    and inv_delete: "inv F s \<Longrightarrow> valid_clause c \<Longrightarrow> delete i c s = Ok t \<Longrightarrow> inv F t"
begin

lemma run_invariant:
  assumes "inv F s" and "valid_steps steps"
    and "run_proof add_original add_derived delete steps s = Ok t"
  shows "inv (F \<union> originals steps) t \<and> (\<forall>c \<in> derived steps. entails (F \<union> originals steps) c)"
  using assms
proof (induction steps arbitrary: F s)
  case Nil
  then show ?case by simp
next
  case (Cons st steps)
  show ?case
  proof (cases st)
    case (Original i c)
    then obtain u where u: "add_original i c s = Ok u"
        "run_proof add_original add_derived delete steps u = Ok t"
      using Cons.prems(3) by (auto simp: bind_outcome_Ok)
    have "valid_clause c" using Cons.prems(2) Original by simp
    with Cons.IH [OF inv_original [OF Cons.prems(1) _ u(1)] _ u(2)] Cons.prems(2) Original
    show ?thesis by simp
  next
    case (Derived i c)
    then obtain u where u: "add_derived i c s = Ok u"
        "run_proof add_original add_derived delete steps u = Ok t"
      using Cons.prems(3) by (auto simp: bind_outcome_Ok)
    have c: "valid_clause c" using Cons.prems(2) Derived by simp
    have "entails (F \<union> originals steps) c"
      using check_derived [OF Cons.prems(1) c u(1)] by (rule entails_mono) simp
    with Cons.IH [OF inv_derived [OF Cons.prems(1) c u(1)] _ u(2)] Cons.prems(2) Derived
    show ?thesis by simp
  next
    case (Delete i c)
    then obtain u where u: "delete i c s = Ok u"
        "run_proof add_original add_derived delete steps u = Ok t"
      using Cons.prems(3) by (auto simp: bind_outcome_Ok)
    have "valid_clause c" using Cons.prems(2) Delete by simp
    with Cons.IH [OF inv_delete [OF Cons.prems(1) _ u(1)] _ u(2)] Cons.prems(2) Delete
    show ?thesis by simp
  qed
qed

lemma run_sound:
  assumes "valid_steps steps" and "run_proof add_original add_derived delete steps init = Ok t"
    and "c \<in> derived steps"
  shows "entails (originals steps) c"
  using run_invariant [OF inv_start assms(1,2)] assms(3) by simp

lemma run_refutation:
  assumes "valid_steps steps" and "run_proof add_original add_derived delete steps init = Ok t"
    and "[] \<in> derived steps"
  shows "unsat (originals steps)"
  using run_sound [OF assms] by (simp add: entails_empty_iff)

end

end
