(* ===== verification/Checker_Sound.thy ===== *)
theory Checker_Sound
  imports Checker_Inv Proof_Check
begin

text \<open>
  Soundness of the checker's operations: whatever it stores or accepts follows from the original
  clauses, and every operation keeps the structural invariant.
\<close>

subsection \<open>Importing a clause\<close>

lemma ck_enlarge_vars_bound:
  assumes "0 \<le> ck_size_vars s"
  shows "idx < ck_size_vars (ck_enlarge_vars idx s)" "ck_size_vars s \<le> ck_size_vars (ck_enlarge_vars idx s)"
  using grow_size [of "if ck_size_vars s \<noteq> 0 then 2 * ck_size_vars s else 2" idx] assms
  by (auto simp: ck_enlarge_vars_def Let_def split: if_splits)

lemma ck_enlarge_vars_frame [simp]:
  "ck_trail (ck_enlarge_vars idx s) = ck_trail s"
  "ck_mem (ck_enlarge_vars idx s) = ck_mem s"
  "ck_inconsistent (ck_enlarge_vars idx s) = ck_inconsistent s"
  "ck_num_clauses (ck_enlarge_vars idx s) = ck_num_clauses s"
  "ck_num_garbage (ck_enlarge_vars idx s) = ck_num_garbage s"
  "ck_size_clauses (ck_enlarge_vars idx s) = ck_size_clauses s"
  "ck_clauses (ck_enlarge_vars idx s) = ck_clauses s"
  "ck_garbage (ck_enlarge_vars idx s) = ck_garbage s"
  "ck_simplified (ck_enlarge_vars idx s) = ck_simplified s"
  "ck_unsimplified (ck_enlarge_vars idx s) = ck_unsimplified s"
  "ck_next_to_propagate (ck_enlarge_vars idx s) = ck_next_to_propagate s"
  "ck_nonces (ck_enlarge_vars idx s) = ck_nonces s"
  "ck_last_hash (ck_enlarge_vars idx s) = ck_last_hash s"
  "ck_last_id (ck_enlarge_vars idx s) = ck_last_id s"
  "ck_next_addr (ck_enlarge_vars idx s) = ck_next_addr s"
  "ck_deref (ck_enlarge_vars idx s) = ck_deref s"
  by (simp_all add: ck_enlarge_vars_def Let_def ck_deref_def fun_eq_iff)

lemma ck_wf_enlarge_vars:
  assumes wf: "ck_wf s"
  shows "ck_wf (ck_enlarge_vars idx s)" (is "ck_wf ?t")
proof -
  have n0: "0 \<le> ck_size_vars s" using wf by (simp add: ck_wf_def ck_watch_inv_def)
  note b = ck_enlarge_vars_bound [OF n0, of idx]
  have ok: "ck_lit_ok s l \<Longrightarrow> ck_lit_ok ?t l" for l using b(2) by (simp add: ck_lit_ok_def)
  have tr: "ck_trail_inv s" "ck_mem_inv s" "ck_watch_inv s" "ck_table_inv s"
    using wf by (auto simp: ck_wf_def)
  have "ck_vals ?t = ck_vals s"
  proof
    fix l
    have "\<not> (- ck_size_vars s \<le> l \<and> l < ck_size_vars s) \<Longrightarrow> ck_vals s l = 0"
      using tr(1) by (force simp: ck_trail_inv_def trail_val_def ck_lit_ok_def)
    then show "ck_vals ?t l = ck_vals s l" by (auto simp: ck_enlarge_vars_def Let_def)
  qed
  then have "ck_trail_inv ?t" using tr(1) ok by (simp add: ck_trail_inv_def)
  moreover have "ck_mem_inv ?t" using tr(2) ok by (auto simp: ck_mem_inv_def ck_clause_ok_def)
  moreover have "ck_table_inv ?t" using tr(4) by (simp add: ck_table_inv_def)
  moreover have "ck_watch_inv ?t"
  proof -
    have len: "length (ck_watchers ?t) = nat (2 * ck_size_vars ?t)"
      by (simp add: ck_enlarge_vars_def Let_def)
    have marks: "ck_marks ?t = replicate (nat (2 * ck_size_vars ?t)) False"
      using tr(3) by (intro nth_equalityI) (auto simp: ck_watch_inv_def ck_enlarge_vars_def Let_def nth_resize)
    have old: "length (ck_watchers s) = nat (2 * ck_size_vars s)"
      using tr(3) by (simp add: ck_watch_inv_def)
    have nth: "ck_watchers ?t ! i = (if i < length (ck_watchers s) then ck_watchers s ! i else [])"
      if "i < length (ck_watchers ?t)" for i
      using that by (simp add: ck_enlarge_vars_def Let_def nth_resize)
    have empty: "ck_watchers ?t ! i = []"
      if "nat (2 * ck_size_vars s - 2) \<le> i" "i < length (ck_watchers ?t)" for i
      using that tr(3) nth [OF that(2)] by (auto simp: ck_watch_inv_def)
    have w: "ck_watches_ok (ck_mem ?t) l (ck_watcher ?t l)" if l: "ck_lit_ok ?t l" for l
    proof (cases "ck_lit_ok s l")
      case True
      then have "ck_watcher ?t l = ck_watcher s l"
        using nth [of "l2u l"] l2u_bound [of l "ck_size_vars ?t"] l2u_bound [of l "ck_size_vars s"]
          l len old by (simp add: ck_watcher_def ck_lit_ok_def)
      then show ?thesis using tr(3) True by (simp add: ck_watch_inv_def)
    next
      case False
      then have "\<bar>l\<bar> \<ge> ck_size_vars s" "l \<noteq> 0" using l by (auto simp: ck_lit_ok_def)
      then have "nat (2 * ck_size_vars s - 2) \<le> l2u l"
        by (auto simp: l2u_def Let_def)
      then have "ck_watcher ?t l = []"
        using empty [of "l2u l"] l2u_bound [of l "ck_size_vars ?t"] l len
        by (simp add: ck_watcher_def ck_lit_ok_def)
      then show ?thesis by (simp add: ck_watches_ok_def)
    qed
    show ?thesis using len marks w empty b n0 by (simp add: ck_watch_inv_def)
  qed
  ultimately show ?thesis by (simp add: ck_wf_def)
qed

lemma ck_sem_enlarge_vars [simp]: "ck_sem F (ck_enlarge_vars idx s) = ck_sem F s"
  by (simp add: ck_sem_def)

text \<open>What importing leaves alone, beside the two literal vectors.\<close>

definition ck_import_frame :: "Checker \<Rightarrow> Checker \<Rightarrow> bool" where
  "ck_import_frame s t \<longleftrightarrow>
     ck_inconsistent t = ck_inconsistent s \<and> ck_trail t = ck_trail s \<and> ck_mem t = ck_mem s
     \<and> ck_next_to_propagate t = ck_next_to_propagate s \<and> ck_clauses t = ck_clauses s
     \<and> ck_garbage t = ck_garbage s \<and> ck_size_clauses t = ck_size_clauses s
     \<and> ck_nonces t = ck_nonces s \<and> ck_size_vars s \<le> ck_size_vars t"

lemma ck_wf_next: "ck_wf s \<Longrightarrow> ck_next_to_propagate s \<le> length (ck_trail s)"
  by (simp add: ck_wf_def ck_trail_inv_def)

lemma ck_import_literal:
  assumes wf: "ck_wf s" and l: "l \<noteq> 0"
  defines "t \<equiv> ck_import_literal l s"
  shows "ck_wf t" "ck_import_frame s t" "ck_lit_ok t l" "ck_simplified t = ck_simplified s @ [l]"
proof -
  define u where "u = (if \<bar>l\<bar> \<ge> ck_size_vars s then ck_enlarge_vars \<bar>l\<bar> s else s)"
  have t: "t = u\<lparr>ck_simplified := ck_simplified u @ [l], ck_unsimplified := ck_unsimplified u @ [l]\<rparr>"
    by (simp add: t_def ck_import_literal_def u_def Let_def)
  have n0: "0 \<le> ck_size_vars s" using wf by (simp add: ck_wf_def ck_watch_inv_def)
  have u: "ck_wf u" using wf ck_wf_enlarge_vars by (simp add: u_def)
  show "ck_wf t" unfolding t by (rule ck_wf_cong [OF u]) (use ck_wf_next [OF u] in simp_all)
  show "ck_import_frame s t" "ck_simplified t = ck_simplified s @ [l]"
    using ck_enlarge_vars_bound [OF n0] by (simp_all add: t u_def ck_import_frame_def)
  show "ck_lit_ok t l"
    using ck_enlarge_vars_bound(1) [OF n0, of "\<bar>l\<bar>"] l by (auto simp: t u_def ck_lit_ok_def)
qed

lemma ck_import_clause:
  assumes "ck_wf s" and "0 \<notin> set c"
  shows "ck_wf (ck_import_clause c s) \<and> ck_import_frame s (ck_import_clause c s)
     \<and> (\<forall>l \<in> set c. ck_lit_ok (ck_import_clause c s) l)
     \<and> ck_simplified (ck_import_clause c s) = ck_simplified s @ c"
  using assms unfolding ck_import_clause_def
proof (induction c arbitrary: s)
  case Nil
  then show ?case by (simp add: ck_import_frame_def)
next
  case (Cons l c)
  have l: "l \<noteq> 0" using Cons.prems(2) by auto
  note st = ck_import_literal [OF Cons.prems(1) l]
  from Cons.IH [OF st(1)] Cons.prems(2) st show ?case
    by (auto simp: ck_import_frame_def ck_lit_ok_def)
qed

subsection \<open>Tautology check\<close>

lemma sort_literals_sorted: "sorted (map (\<lambda>l. (\<bar>l\<bar>, l)) (sort_literals c))"
  by (simp add: sort_literals_def)

lemma set_sort_literals [simp]: "set (sort_literals c) = set c"
  by (simp add: sort_literals_def)

text \<open>\<open>sort_literals\<close> is the sorting that \<open>lit_smaller\<close> describes.\<close>

lemma lit_smaller_key: "lit_smaller a b \<longleftrightarrow> (\<bar>a\<bar>, a) < (\<bar>b\<bar>, b)"
  by (auto simp: lit_smaller_def Let_def)

lemma taut_loop_False:
  assumes "taut_loop v all prev kept is = (False, r)"
    and "sorted (map (\<lambda>l. (\<bar>l\<bar>, l)) (prev # is))" and "0 \<notin> set is"
    and "\<forall>l \<in> set kept. \<bar>l\<bar> \<le> \<bar>prev\<bar> \<and> v l \<le> 0" and "distinct (map abs kept)"
    and "kept = [] \<or> prev \<in> set kept" and "prev = 0 \<or> prev \<in> set kept"
  shows "set r = set kept \<union> set is \<and> distinct (map abs r) \<and> (\<forall>l \<in> set r. v l \<le> 0)"
  using assms
proof (induction "is" arbitrary: prev kept)
  case Nil
  then show ?case by auto
next
  case (Cons l "is")
  show ?case
  proof (cases "l = prev")
    case True
    with Cons.prems(3,7) have "prev \<in> set kept" by auto
    have "set r = set kept \<union> set is \<and> distinct (map abs r) \<and> (\<forall>l \<in> set r. v l \<le> 0)"
      by (rule Cons.IH [of prev]) (use Cons.prems True in simp_all)
    with True \<open>prev \<in> set kept\<close> show ?thesis by auto
  next
    case False
    with Cons.prems(1) have ne: "l \<noteq> - prev" "\<not> v l > 0"
      and rec: "taut_loop v all l (kept @ [l]) is = (False, r)"
      by (auto split: if_splits)
    have "(\<bar>prev\<bar>, prev) \<le> (\<bar>l\<bar>, l)" using Cons.prems(2) by simp
    then have "\<bar>prev\<bar> < \<bar>l\<bar>" using False ne(1) by auto
    then have "\<bar>l\<bar> \<notin> abs ` set kept" "\<forall>x \<in> set kept. \<bar>x\<bar> \<le> \<bar>l\<bar>" using Cons.prems(4) by fastforce+
    note new = this
    have "set r = set (kept @ [l]) \<union> set is \<and> distinct (map abs r) \<and> (\<forall>l \<in> set r. v l \<le> 0)"
    proof (rule Cons.IH [OF rec])
      show "sorted (map (\<lambda>l. (\<bar>l\<bar>, l)) (l # is))" using Cons.prems(2) by simp
      show "0 \<notin> set is" using Cons.prems(3) by simp
      show "\<forall>x \<in> set (kept @ [l]). \<bar>x\<bar> \<le> \<bar>l\<bar> \<and> v x \<le> 0" using Cons.prems(4) new(2) ne(2) by auto
      show "distinct (map abs (kept @ [l]))" using Cons.prems(5) new(1) by simp
    qed simp_all
    then show ?thesis by simp
  qed
qed

lemma taut_loop_True:
  assumes "taut_loop v all prev kept is = (True, r)"
  shows "(\<exists>l \<in> set is. v l > 0) \<or> (\<exists>l \<in> set is. - l \<in> set (prev # is))"
  using assms
proof (induction "is" arbitrary: prev kept)
  case (Cons l "is")
  then show ?case by (auto split: if_splits)
qed simp

lemma ck_tautological_frame:
  "ck_tautological s = (b, t) \<Longrightarrow> t = s\<lparr>ck_simplified := ck_simplified t\<rparr>"
  by (auto simp: ck_tautological_def Let_def split: prod.splits)

lemma ck_tautological_False:
  assumes "ck_tautological s = (False, t)" and "0 \<notin> set (ck_simplified s)"
  shows "set (ck_simplified t) = set (ck_simplified s)" "distinct (map abs (ck_simplified t))"
    "\<And>l. l \<in> set (ck_simplified t) \<Longrightarrow> ck_val s l \<le> 0"
proof -
  let ?x = "sort_literals (ck_simplified s)"
  have "taut_loop (ck_val s) ?x 0 [] ?x = (False, ck_simplified t)"
    using assms(1) by (auto simp: ck_tautological_def Let_def split: prod.splits)
  moreover have "sorted (map (\<lambda>l. (\<bar>l\<bar>, l)) (0 # ?x))"
    using sort_literals_sorted [of "ck_simplified s"] assms(2) by (auto simp: less_eq_prod_def)
  ultimately have "set (ck_simplified t) = set [] \<union> set ?x \<and> distinct (map abs (ck_simplified t))
      \<and> (\<forall>l \<in> set (ck_simplified t). ck_val s l \<le> 0)"
    by (rule taut_loop_False) (use assms(2) in auto)
  then show "set (ck_simplified t) = set (ck_simplified s)" "distinct (map abs (ck_simplified t))"
    "\<And>l. l \<in> set (ck_simplified t) \<Longrightarrow> ck_val s l \<le> 0" by auto
qed

lemma ck_tautological_True:
  assumes taut: "ck_tautological s = (True, t)" and nz: "0 \<notin> set (ck_simplified s)"
    and wf: "ck_wf s" and sem: "ck_sem F s"
  shows "entails F (ck_simplified s)"
proof -
  let ?x = "sort_literals (ck_simplified s)"
  have "taut_loop (ck_val s) ?x 0 [] ?x = (True, ck_simplified t)"
    using taut by (auto simp: ck_tautological_def Let_def split: prod.splits)
  from taut_loop_True [OF this] nz
  consider l where "l \<in> set (ck_simplified s)" "ck_val s l > 0"
    | l where "l \<in> set (ck_simplified s)" "- l \<in> set (ck_simplified s)" "l \<noteq> 0" by auto
  then show ?thesis
  proof cases
    case 1
    then have "entails F [l]"
      using sem by (simp add: ck_wf_vals [OF wf] trail_val_simps ck_sem_def)
    then show ?thesis by (rule entails_subset) (use 1 in simp)
  next
    case 2
    have "lit_true \<alpha> l \<or> lit_true \<alpha> (- l)" for \<alpha> using 2(3) by simp
    then show ?thesis using 2(1,2) by (auto simp: entails_def clause_true_def)
  qed
qed

subsection \<open>Checking a clause\<close>

lemma ck_assume_ok:
  assumes wf: "ck_wf s" and l: "ck_lit_ok s l" and v: "ck_val s l \<ge> 0"
  shows "ck_wf (ck_assume l s)" "ck_prop_frame s (ck_assume l s)"
    "ck_trail (ck_assume l s) = ck_trail s \<or> ck_trail (ck_assume l s) = ck_trail s @ [l]"
    "ck_next_to_propagate (ck_assume l s) = ck_next_to_propagate s"
    "ck_mem (ck_assume l s) = ck_mem s"
proof -
  show "ck_wf (ck_assume l s)"
    using ck_wf_assign [of "ck_count _ s" l] wf l v by (auto simp: ck_assume_def)
  show "ck_prop_frame s (ck_assume l s)"
    "ck_trail (ck_assume l s) = ck_trail s \<or> ck_trail (ck_assume l s) = ck_trail s @ [l]"
    "ck_next_to_propagate (ck_assume l s) = ck_next_to_propagate s"
    "ck_mem (ck_assume l s) = ck_mem s"
    by (auto simp: ck_assume_def ck_prop_frame_def ck_assign_def)
qed

text \<open>A clause the tautology check lets through: no variable twice, no literal satisfied.\<close>

definition ck_simple :: "Checker \<Rightarrow> int list \<Rightarrow> bool" where
  "ck_simple s ls \<longleftrightarrow>
     distinct (map abs ls) \<and> (\<forall>l \<in> set ls. ck_lit_ok s l \<and> ck_val s l \<le> 0)"

lemma ck_assume_clause:
  assumes "ck_wf s" "ck_simple s ls"
  defines "t \<equiv> fold (\<lambda>lit. ck_assume (- lit)) ls s"
  shows "ck_wf t \<and> ck_prop_frame s t \<and> ck_next_to_propagate t = ck_next_to_propagate s
    \<and> ck_mem t = ck_mem s \<and> set (ck_trail t) \<subseteq> set (ck_trail s) \<union> uminus ` set ls"
  using assms(1,2) unfolding t_def
proof (induction ls arbitrary: s)
  case Nil
  then show ?case by simp
next
  case (Cons l ls)
  let ?u = "ck_assume (- l) s"
  have l: "ck_lit_ok s l" "ck_val s l \<le> 0" using Cons.prems(2) by (auto simp: ck_simple_def)
  have "ck_val s (- l) \<ge> 0"
    using ck_vals_antisym [OF Cons.prems(1), of l] l(2) by (simp add: ck_val_def)
  note st = ck_assume_ok [OF Cons.prems(1) _ this]
  have st1: "ck_wf ?u" "ck_prop_frame s ?u" "ck_next_to_propagate ?u = ck_next_to_propagate s"
    "ck_mem ?u = ck_mem s" "set (ck_trail ?u) \<subseteq> set (ck_trail s) \<union> {- l}"
    using st l(1) by auto
  have "ck_simple ?u ls"
    unfolding ck_simple_def
  proof (intro conjI ballI)
    show "distinct (map abs ls)" using Cons.prems(2) by (simp add: ck_simple_def)
    fix k assume k: "k \<in> set ls"
    then have ok: "ck_lit_ok s k" "ck_val s k \<le> 0" "\<bar>k\<bar> \<noteq> \<bar>l\<bar>"
      using Cons.prems(2) by (simp_all add: ck_simple_def) (metis image_eqI)
    show "ck_lit_ok ?u k" using ok(1) st1(2) by (simp add: ck_lit_ok_def ck_prop_frame_def)
    have "k \<notin> set (ck_trail s)"
      using ok(2) by (simp add: ck_wf_vals [OF Cons.prems(1)] trail_val_def split: if_splits)
    then have "k \<notin> set (ck_trail ?u)" using st1(5) ok(3) by auto
    then show "ck_val ?u k \<le> 0" by (simp add: ck_wf_vals [OF st1(1)] trail_val_def)
  qed
  note ih = Cons.IH [OF st1(1) this]
  have "ck_prop_frame s (fold (\<lambda>lit. ck_assume (- lit)) ls ?u)"
    using ih ck_prop_frame_trans [OF st1(2)] by blast
  with ih st1(3,4,5) show ?case by auto
qed

lemma fold_unassign:
  assumes "distinct (map abs (xs @ ys))" and "0 \<notin> set (xs @ ys)"
  shows "fold ck_unassign (rev ys) (trail_val (xs @ ys)) = trail_val (xs :: int list)"
  using assms
proof (induction ys rule: rev_induct)
  case (snoc y ys)
  have "\<bar>y\<bar> \<notin> abs ` set (xs @ ys)" using snoc.prems(1) by auto
  then have n: "y \<notin> set (xs @ ys)" "- y \<notin> set (xs @ ys)" "y \<noteq> 0"
    using snoc.prems(2) by (metis image_eqI, metis abs_minus_cancel image_eqI, simp)
  then have "ck_unassign y (trail_val ((xs @ ys) @ [y])) = trail_val (xs @ ys)"
    by (subst trail_val_snoc) (auto simp: ck_unassign_def trail_val_def fun_eq_iff)
  then show ?case using snoc by simp
qed simp

lemma ck_backtrack_ok:
  assumes wf: "ck_wf s" and n: "n \<le> length (ck_trail s)"
  shows "ck_wf (ck_backtrack n s)"
proof -
  let ?t = "ck_backtrack n s"
  have tr: "ck_trail_inv s" using wf by (simp add: ck_wf_def)
  have nz: "0 \<notin> set (ck_trail s)" using tr by (auto simp: ck_trail_inv_def ck_lit_ok_def)
  have "ck_vals ?t = trail_val (take n (ck_trail s))"
    using fold_unassign [of "take n (ck_trail s)" "drop n (ck_trail s)"] tr nz
    by (simp add: ck_backtrack_def ck_trail_inv_def)
  moreover have ok: "ck_lit_ok ?t = ck_lit_ok s"
    by (rule ck_lit_ok_cong) (simp add: ck_backtrack_def)
  moreover have "distinct (map abs (take n (ck_trail s)))"
    using tr by (simp add: ck_trail_inv_def take_map [symmetric])
  ultimately have "ck_trail_inv ?t"
    using tr n by (auto simp: ck_trail_inv_def ok) (auto simp: ck_backtrack_def dest: in_set_takeD)
  moreover have "ck_mem_inv ?t"
    using wf by (simp add: ck_wf_def ck_mem_inv_def ck_clause_ok_def ok) (simp add: ck_backtrack_def)
  moreover have "ck_watch_inv ?t"
    using wf by (simp add: ck_wf_def ck_watch_inv_def ok) (simp add: ck_backtrack_def ck_watcher_def)
  moreover have "ck_table_inv ?t"
    using wf by (simp add: ck_wf_def ck_table_inv_def ck_backtrack_def ck_deref_def)
  ultimately show ?thesis by (simp add: ck_wf_def)
qed

lemma ck_sem_frame:
  assumes sem: "ck_sem F s" and fr: "ck_prop_frame s t" and tr: "ck_trail t = ck_trail s"
  shows "ck_sem F t"
  unfolding ck_sem_def
proof (intro conjI allI impI)
  fix a d assume d: "ck_mem t a = Some d"
  then have "rel_option same_clause (ck_mem s a) (Some d)" using fr by (metis ck_prop_frame_def)
  then obtain c where "ck_mem s a = Some c" "mset (cc_literals d) = mset (cc_literals c)"
    by (cases "ck_mem s a") (auto simp: same_clause_def)
  then show "entails F (cc_literals d)"
    using ck_sem_clause [OF sem] entails_cong_set mset_eq_setD by metis
qed (use sem tr in \<open>auto simp: ck_sem_def\<close>)

lemma ck_check_ok:
  assumes wf: "ck_wf s" and sem: "ck_sem F s" and ready: "ck_next_to_propagate s = length (ck_trail s)"
    and cons: "ck_inconsistent s \<Longrightarrow> unsat F" and simple: "ck_simple s (ck_simplified s)"
  shows "\<exists>res t. ck_check s = Ok (res, t) \<and> ck_wf t \<and> ck_sem F t \<and> ck_prop_frame s t
    \<and> ck_trail t = ck_trail s \<and> ck_next_to_propagate t = ck_next_to_propagate s
    \<and> (res \<longrightarrow> entails F (ck_simplified s))"
proof -
  define u where "u = ck_count (\<lambda>t. t\<lparr>cs_checks := cs_checks t + 1\<rparr>) s"
  have u: "ck_wf u" "ck_simple u (ck_simplified s)" "ck_simplified u = ck_simplified s"
    "ck_inconsistent u = ck_inconsistent s" "ck_sem F u" "ck_prop_frame s u"
    "ck_trail u = ck_trail s" "ck_next_to_propagate u = ck_next_to_propagate s" "ck_mem u = ck_mem s"
    using wf simple sem by (simp_all add: u_def ck_simple_def)
  show ?thesis
  proof (cases "ck_inconsistent s")
    case True
    then show ?thesis
      using u wf sem unsat_entails [OF cons]
      by (intro exI [of _ True] exI [of _ u]) (simp add: ck_check_def u_def)
  next
    case False
    define v where "v = fold (\<lambda>lit. ck_assume (- lit)) (ck_simplified s) u"
    let ?G = "F \<union> units (map uminus (ck_simplified s))"
    note v = ck_assume_clause [OF u(1,2), folded v_def]
    have "entails ?G [- l]" if "l \<in> set (ck_simplified s)" for l
      by (rule entails_member) (use that in \<open>auto simp: units_def\<close>)
    moreover have "entails ?G C" if "entails F C" for C
      using that by (rule entails_mono) simp
    ultimately have "ck_sem ?G v"
      using v u(5) by (auto simp: ck_sem_def u(7))
    then obtain ok t where t: "ck_propagate v = Some (ok, t)" "ck_wf t" "ck_prop_frame v t"
      "\<not> ok \<longrightarrow> unsat ?G"
      using ck_propagate_ok v by blast
    let ?n = "ck_next_to_propagate s" and ?b = "ck_backtrack (ck_next_to_propagate s) t"
    have ut: "ck_prop_frame u t" using v t(3) ck_prop_frame_trans by blast
    then obtain xs where xs: "ck_trail t = ck_trail s @ xs"
      using u(7) by (auto simp: ck_prop_frame_def)
    have b: "ck_wf ?b" by (rule ck_backtrack_ok [OF t(2)]) (simp add: xs ready)
    have trail: "ck_trail ?b = ck_trail s" using xs ready by (simp add: ck_backtrack_def)
    have "ck_prop_frame s t" using ut u(6) ck_prop_frame_trans by blast
    then have fr: "ck_prop_frame s ?b"
      using trail by (auto simp: ck_prop_frame_def) (simp_all add: ck_backtrack_def)
    have "ck_check s = Ok (\<not> ok, ?b)"
      using t(1) False unfolding v_def u_def by (simp add: ck_check_def)
    moreover have "entails F (ck_simplified s)" if "\<not> ok"
      by (rule entails_refute) (use that t(4) simple in \<open>auto simp: ck_simple_def ck_lit_ok_def\<close>)
    ultimately show ?thesis
      using b fr trail ck_sem_frame [OF sem fr trail] by (auto simp: ck_backtrack_def)
  qed
qed

subsection \<open>Hash table\<close>

lemma ck_table_placed:
  "ck_table_inv s \<longleftrightarrow>
     length (ck_clauses s) = unat (ck_size_clauses s) \<and> length (ck_nonces s) = num_nonces
     \<and> distinct (concat (ck_clauses s) @ ck_garbage s)
     \<and> dom (ck_mem s) = set (concat (ck_clauses s)) \<union> set (ck_garbage s)
     \<and> (\<forall>a \<in> set (concat (ck_clauses s)). cc_size (ck_deref s a) \<noteq> 0)
     \<and> (\<forall>a \<in> set (ck_garbage s). cc_size (ck_deref s a) = 0)
     \<and> placed (\<lambda>a. cc_hash (ck_deref s a)) (ck_size_clauses s) (ck_clauses s)
     \<and> ck_num_clauses s = of_nat (length (concat (ck_clauses s)))
     \<and> ck_num_garbage s = of_nat (length (ck_garbage s))"
  by (auto simp: ck_table_inv_def placed_def)

lemma ck_enlarge_clauses_ok:
  assumes wf: "ck_wf s" and n: "n = (if ck_size_clauses s \<noteq> 0 then 2 * ck_size_clauses s else 1)"
    and n0: "n \<noteq> 0"
  shows "\<exists>t. ck_enlarge_clauses s = Ok (s\<lparr>ck_clauses := t, ck_size_clauses := n\<rparr>)
    \<and> ck_wf (s\<lparr>ck_clauses := t, ck_size_clauses := n\<rparr>)"
proof -
  let ?h = "\<lambda>a. cc_hash (ck_deref s a)"
  have "placed ?h n (replicate (unat n) [])" by (simp add: placed_def)
  from rehash_table_ok [OF n0 _ this, of "ck_clauses s"]
  obtain t where t: "rehash_table ?h n (ck_clauses s) (replicate (unat n) []) = Ok t"
    "length t = unat n" "placed ?h n t" "mset (concat t) = mset (concat (ck_clauses s))"
    by auto
  let ?s = "s\<lparr>ck_clauses := t, ck_size_clauses := n\<rparr>"
  have eq: "ck_enlarge_clauses s = Ok ?s" using t(1) by (simp add: ck_enlarge_clauses_def n [symmetric])
  have d: "ck_deref ?s = ck_deref s" by (simp add: ck_deref_def fun_eq_iff)
  have ok: "ck_lit_ok ?s = ck_lit_ok s" by (rule ck_lit_ok_cong) simp
  have e: "set (concat t) = set (concat (ck_clauses s))" "length (concat t) = length (concat (ck_clauses s))"
    "distinct (concat t) = distinct (concat (ck_clauses s))"
    using mset_eq_setD [OF t(4)] mset_eq_length [OF t(4)] mset_eq_imp_distinct_iff [OF t(4)] by simp_all
  have "ck_table_inv ?s"
    using wf t(2,3) unfolding ck_table_placed ck_wf_def d by (simp add: e del: set_concat)
  moreover have "ck_trail_inv ?s" using wf by (simp add: ck_wf_def ck_trail_inv_def ok)
  moreover have "ck_mem_inv ?s" using wf by (simp add: ck_wf_def ck_mem_inv_def ck_clause_ok_def ok)
  moreover have "ck_watch_inv ?s"
    using wf by (simp add: ck_wf_def ck_watch_inv_def ok) (simp add: ck_watcher_def)
  ultimately show ?thesis using eq by (auto simp: ck_wf_def)
qed

subsection \<open>Adding a clause\<close>

lemma find_unit_nonzero:
  "u \<noteq> 0 \<Longrightarrow> find_unit v u ls = (if \<forall>l \<in> set ls. v l < 0 then u else int_min)"
  by (induction ls) auto

lemma find_unit_filter:
  "0 \<notin> set ls \<Longrightarrow> find_unit v 0 ls =
     (case filter (\<lambda>l. \<not> v l < 0) ls of [] \<Rightarrow> 0 | [l] \<Rightarrow> l | _ \<Rightarrow> int_min)"
proof (induction ls)
  case (Cons x ls)
  then show ?case
    by (auto simp: find_unit_nonzero filter_empty_conv split: list.splits)
qed simp

lemma find_unit_cases:
  assumes "0 \<notin> set ls" "int_min \<notin> set ls" "distinct ls"
  obtains (falsified) "find_unit v 0 ls = 0" "\<And>l. l \<in> set ls \<Longrightarrow> v l < 0"
    | (unit) l where "find_unit v 0 ls = l" "l \<in> set ls" "\<not> v l < 0" "l \<noteq> 0" "l \<noteq> int_min"
        "\<And>k. k \<in> set ls \<Longrightarrow> k \<noteq> l \<Longrightarrow> v k < 0"
    | (several) l k where "find_unit v 0 ls = int_min" "l \<in> set ls" "\<not> v l < 0"
        "k \<in> set ls" "\<not> v k < 0" "k \<noteq> l"
proof -
  let ?f = "filter (\<lambda>l. \<not> v l < 0) ls"
  have mem: "l \<in> set ls \<and> \<not> v l < 0 \<longleftrightarrow> l \<in> set ?f" for l by auto
  have d: "distinct ?f" using assms(3) by simp
  consider "?f = []" | l where "?f = [l]" | l k r where "?f = l # k # r"
    by (cases ?f rule: list.exhaust) (metis list.exhaust)+
  then show ?thesis
  proof cases
    case 1
    then show ?thesis
      using falsified find_unit_filter [OF assms(1), of v] mem by (auto simp: filter_empty_conv)
  next
    case (2 l)
    have l: "l \<in> set ls" "\<not> v l < 0" using mem [of l] 2 by auto
    moreover have "v k < 0" if "k \<in> set ls" "k \<noteq> l" for k using mem [of k] 2 that by auto
    moreover have "l \<noteq> 0" "l \<noteq> int_min" using l(1) assms(1,2) by auto
    moreover have "find_unit v 0 ls = l" using find_unit_filter [OF assms(1), of v] 2 by simp
    ultimately show ?thesis by (intro unit [of l])
  next
    case (3 l k r)
    have "l \<in> set ls" "\<not> v l < 0" "k \<in> set ls" "\<not> v k < 0" "k \<noteq> l"
      using mem [of l] mem [of k] 3 d by auto
    then show ?thesis using several [of l k] find_unit_filter [OF assms(1), of v] 3 by auto
  qed
qed

lemma watch_swap_mset [simp]: "i < length ls \<Longrightarrow> mset (watch_swap v i ls) = mset ls"
  by (auto simp: watch_swap_def dest!: find_range_Some split: option.splits)

lemma length_watch_swap [simp]: "length (watch_swap v i ls) = length ls"
  by (auto simp: watch_swap_def split: option.splits)

lemma watch_swap_nth:
  assumes "i < length ls" "i \<le> j" "j < length ls" "v (ls ! j) = 0"
  shows "v (watch_swap v i ls ! i) = 0"
proof (cases "List.find (\<lambda>j. v (ls ! j) = 0) [i + 1 ..< length ls]")
  case None
  then have "\<not> i < j" using assms(3,4) by (auto simp: find_range_None)
  then have "j = i" using assms(2) by simp
  then show ?thesis using assms None by (auto simp: watch_swap_def)
next
  case (Some k)
  then show ?thesis
    using assms find_range_Some [OF Some] by (auto simp: watch_swap_def nth_list_swap)
qed

lemma watch_swap_other:
  "i < length ls \<Longrightarrow> k < i \<Longrightarrow> watch_swap v i ls ! k = ls ! k"
  by (auto simp: watch_swap_def nth_list_swap dest!: find_range_Some split: option.splits)

lemma watch_swaps:
  assumes d: "distinct ls" and l: "l \<in> set ls" "v l = 0" and k: "k \<in> set ls" "v k = 0" "k \<noteq> l"
  defines "r \<equiv> watch_swap v 1 (watch_swap v 0 ls)"
  shows "mset r = mset ls" "v (r ! 0) = 0" "v (r ! 1) = 0" "2 \<le> length ls"
proof -
  have two: "2 \<le> length ls"
  proof -
    have "card {l, k} \<le> card (set ls)" using l k by (intro card_mono) auto
    then show ?thesis using k(3) d by (simp add: distinct_card)
  qed
  then show "2 \<le> length ls" .
  have ne: "ls \<noteq> []" using l by auto
  let ?m = "watch_swap v 0 ls"
  have m: "mset ?m = mset ls" using ne by simp
  show "mset r = mset ls" using m two by (simp add: r_def)
  obtain j where "j < length ls" "ls ! j = l" using l(1) by (auto simp: in_set_conv_nth)
  then have z0: "v (?m ! 0) = 0" using watch_swap_nth [of 0 ls j v] ne l(2) by simp
  show "v (r ! 0) = 0" using z0 watch_swap_other [of 1 ?m 0 v] two by (simp add: r_def)
  have "\<exists>x \<in> {l, k}. x \<noteq> ?m ! 0" using k(3) by auto
  then obtain x where x: "x \<in> set ?m" "v x = 0" "x \<noteq> ?m ! 0"
    using l k mset_eq_setD [OF m] by auto
  then obtain i where i: "i < length ?m" "?m ! i = x" by (auto simp: in_set_conv_nth)
  with x(3) have "1 \<le> i" by (cases i) auto
  then show "v (r ! 1) = 0" using watch_swap_nth [of 1 ?m i v] i x(2) two by (simp add: r_def)
qed

text \<open>Allocating a clause that is not yet in the table.\<close>

lemma ck_watch_ok_fresh:
  "ck_watch_ok m l w \<Longrightarrow> m a = None \<Longrightarrow> ck_watch_ok (m(a \<mapsto> c)) l w"
  by (auto simp: ck_watch_ok_def)

lemma ck_insert_clause_wf:
  assumes wf: "ck_wf s" and simple: "ck_simple s ls"
    and two: "l \<in> set ls" "ck_val s l = 0" "k \<in> set ls" "ck_val s k = 0" "k \<noteq> l"
    and h: "reduce_hash (ck_last_hash s) (ck_size_clauses s) = Some h" and n0: "ck_size_clauses s \<noteq> 0"
    and ls: "ls = ck_simplified s" and new: "ck_new_clause s = (a, t)"
  defines "u \<equiv> t\<lparr>ck_clauses := (ck_clauses t)[unat h := a # ck_clauses t ! unat h]\<rparr>"
  shows "ck_wf u" "ck_vals u = ck_vals s" "ck_trail u = ck_trail s"
    "ck_next_to_propagate u = ck_next_to_propagate s" "ck_inconsistent u = ck_inconsistent s"
    "\<exists>c. ck_mem u = (ck_mem s)(a \<mapsto> c) \<and> ck_mem s a = None \<and> set (cc_literals c) = set ls
       \<and> cc_size c = length ls \<and> cc_hash c = ck_last_hash s
       \<and> ck_val s (cc_literals c ! 0) = 0 \<and> ck_val s (cc_literals c ! 1) = 0"
proof -
  define r where "r = watch_swap (ck_val s) 1 (watch_swap (ck_val s) 0 ls)"
  define c where "c = \<lparr>cc_hash = ck_last_hash s, cc_size = length ls, cc_literals = r\<rparr>"
  have d: "distinct ls" using simple by (metis ck_simple_def distinct_map)
  note r = watch_swaps [OF d two, folded r_def]
  have len: "length r = length ls" using mset_eq_length [OF r(1)] .
  have dr: "distinct r" using mset_eq_imp_distinct_iff [OF r(1)] d by simp
  have rok: "\<forall>l \<in> set r. ck_lit_ok s l" using mset_eq_setD [OF r(1)] simple by (simp add: ck_simple_def)
  have ne: "r \<noteq> []" "1 < length r" using r(4) len by auto
  then have in01: "r ! 0 \<in> set r" "r ! 1 \<in> set r" by simp_all
  have ne01: "r ! 0 \<noteq> r ! 1" using nth_eq_iff_index_eq [OF dr, of 0 1] ne by simp
  define s1 where "s1 = ck_store a c (s\<lparr>ck_next_addr := a + 1, ck_num_clauses := ck_num_clauses s + 1,
    ck_clauses := (ck_clauses s)[unat h := a # ck_clauses s ! unat h]\<rparr>)"
  have a: "a = ck_next_addr s" using new by (simp add: ck_new_clause_def Let_def)
  have u: "u = ck_push_watch (r ! 1) (new_watch (r ! 0) a c)
                 (ck_push_watch (r ! 0) (new_watch (r ! 1) a c) s1)"
    using new a unfolding u_def s1_def ck_new_clause_def Let_def c_def r_def ls
    by (auto simp: ck_push_watch_def ck_set_watcher_def ck_watcher_def ck_store_def)
  have fresh: "ck_mem s a = None"
    using wf a by (cases "ck_mem s a") (auto simp: ck_wf_def ck_mem_inv_def)
  have fld: "ck_clauses s1 = (ck_clauses s)[unat h := a # ck_clauses s ! unat h]"
    "ck_size_clauses s1 = ck_size_clauses s" "ck_garbage s1 = ck_garbage s" "ck_nonces s1 = ck_nonces s"
    "ck_num_garbage s1 = ck_num_garbage s" "ck_num_clauses s1 = ck_num_clauses s + 1"
    by (simp_all add: s1_def)
  have ok1: "ck_lit_ok s1 = ck_lit_ok s" by (rule ck_lit_ok_cong) (simp add: s1_def)
  have mem1: "ck_mem s1 = (ck_mem s)(a \<mapsto> c)" by (simp add: s1_def)
  have watcher1: "ck_watcher s1 = ck_watcher s" by (simp add: s1_def ck_watcher_def fun_eq_iff)
  have deref1: "ck_deref s1 b = (if b = a then c else ck_deref s b)" for b
    by (simp add: ck_deref_def mem1)
  have nota: "a \<notin> set (concat (ck_clauses s)) \<union> set (ck_garbage s)"
    using wf fresh by (metis ck_table_inv_def ck_wf_def domIff)
  have hb: "unat h < length (ck_clauses s)"
    using reduce_hash_bound [OF h n0] wf by (simp add: ck_wf_def ck_table_inv_def)
  have mc: "mset (concat (ck_clauses s1)) = add_mset a (mset (concat (ck_clauses s)))"
    using mset_concat_cons [OF hb] by (simp add: s1_def)
  have setc: "set (concat (ck_clauses s1)) = insert a (set (concat (ck_clauses s)))"
    using mset_eq_setD [of "concat (ck_clauses s1)" "a # concat (ck_clauses s)"] mc by simp
  have disc: "distinct (concat (ck_clauses s1)) = (a \<notin> set (concat (ck_clauses s)) \<and> distinct (concat (ck_clauses s)))"
    using mset_eq_imp_distinct_iff [of "concat (ck_clauses s1)" "a # concat (ck_clauses s)"] mc by simp
  have lenc: "length (concat (ck_clauses s1)) = Suc (length (concat (ck_clauses s)))"
    using mset_eq_length [of "concat (ck_clauses s1)" "a # concat (ck_clauses s)"] mc by simp
  have "ck_wf s1"
  proof -
    have "ck_trail_inv s1" using wf by (simp add: ck_wf_def ck_trail_inv_def ok1) (simp add: s1_def)
    moreover have "ck_clause_ok s1 c"
      using dr r(4) len rok ok1 by (simp add: ck_clause_ok_def c_def)
    then have "ck_mem_inv s1"
      using wf a by (auto simp: ck_wf_def ck_mem_inv_def ck_clause_ok_def ok1 mem1)
        (auto simp: s1_def intro: less_SucI)
    moreover have "ck_watch_inv s1"
      using wf fresh unfolding ck_watch_inv_def ok1 mem1 watcher1 ck_wf_def ck_watches_ok_def
      by (simp add: ck_watch_ok_fresh) (simp add: s1_def)
    moreover have "ck_table_inv s1"
    proof -
      have p: "placed (\<lambda>a. cc_hash (ck_deref s1 a)) (ck_size_clauses s) (ck_clauses s)"
        using wf nota by (auto simp: ck_wf_def ck_table_placed placed_def deref1 dest: nth_mem)
      have p1: "placed (\<lambda>a. cc_hash (ck_deref s1 a)) (ck_size_clauses s1) (ck_clauses s1)"
        using placed_cons [OF p _ refl, of a h] h by (simp add: deref1 fld c_def)
      have t: "ck_table_inv s" using wf by (simp add: ck_wf_def)
      show ?thesis
        unfolding ck_table_placed
      proof (intro conjI)
        show "distinct (concat (ck_clauses s1) @ ck_garbage s1)"
          using t nota by (simp add: disc setc fld(3) ck_table_inv_def del: set_concat)
        show "dom (ck_mem s1) = set (concat (ck_clauses s1)) \<union> set (ck_garbage s1)"
          using t unfolding setc by (simp add: mem1 fld ck_table_inv_def del: set_concat)
        show "\<forall>a \<in> set (concat (ck_clauses s1)). cc_size (ck_deref s1 a) \<noteq> 0"
          using t r(4) unfolding setc deref1 by (auto simp: ck_table_inv_def c_def simp del: set_concat)
        show "\<forall>a \<in> set (ck_garbage s1). cc_size (ck_deref s1 a) = 0"
          using t nota unfolding deref1 by (auto simp: ck_table_inv_def fld simp del: set_concat)
        show "ck_num_clauses s1 = of_nat (length (concat (ck_clauses s1)))"
          using t unfolding lenc by (simp add: ck_table_inv_def fld)
      qed (use t p1 in \<open>simp_all add: ck_table_inv_def fld\<close>)
    qed
    ultimately show ?thesis by (simp add: ck_wf_def)
  qed
  moreover have wok: "ck_watch_ok (ck_mem s1) (r ! 0) (new_watch (r ! 1) a c)"
    "ck_watch_ok (ck_mem s1) (r ! 1) (new_watch (r ! 0) a c)"
    using in01 ne01 len by (auto simp: ck_watch_ok_def new_watch_def mem1 c_def)
  moreover have notw: "a \<notin> cw_clause ` set (ck_watcher s l)" if "ck_lit_ok s l" for l
    using ck_wf_watcher [OF wf that] fresh by (force simp: ck_watches_ok_def ck_watch_ok_def)
  ultimately have w1: "ck_wf (ck_push_watch (r ! 0) (new_watch (r ! 1) a c) s1)"
    using rok in01 by (intro ck_wf_push_watch) (auto simp: ok1 watcher1 new_watch_def)
  show "ck_wf u"
    unfolding u
  proof (rule ck_wf_push_watch [OF w1])
    have "ck_watcher (ck_push_watch (r ! 0) (new_watch (r ! 1) a c) s1) (r ! 1) = ck_watcher s (r ! 1)"
      using ne01 rok in01 ck_wf_length_watchers [OF \<open>ck_wf s1\<close>]
      by (simp add: ck_push_watch_def ok1 watcher1)
    then show "cw_clause (new_watch (r ! 0) a c)
        \<notin> cw_clause ` set (ck_watcher (ck_push_watch (r ! 0) (new_watch (r ! 1) a c) s1) (r ! 1))"
      using notw rok in01 by (simp add: new_watch_def)
  qed (use rok in01 wok ok1 in auto)
  show "ck_vals u = ck_vals s" "ck_trail u = ck_trail s"
    "ck_next_to_propagate u = ck_next_to_propagate s" "ck_inconsistent u = ck_inconsistent s"
    by (simp_all add: u s1_def ck_push_watch_def)
  show "\<exists>c. ck_mem u = (ck_mem s)(a \<mapsto> c) \<and> ck_mem s a = None \<and> set (cc_literals c) = set ls
       \<and> cc_size c = length ls \<and> cc_hash c = ck_last_hash s
       \<and> ck_val s (cc_literals c ! 0) = 0 \<and> ck_val s (cc_literals c ! 1) = 0"
    using fresh mset_eq_setD [OF r(1)] r(2,3)
    by (intro exI [of _ c]) (simp add: u mem1 ck_push_watch_def, simp add: c_def)
qed

lemma ck_compute_hash_fst: "ck_compute_hash s = (x, t) \<Longrightarrow> t = s\<lparr>ck_last_hash := x\<rparr>"
  by (auto simp: ck_compute_hash_def Let_def)

lemma ck_sem_cong:
  "ck_mem t = ck_mem s \<Longrightarrow> ck_trail t = ck_trail s \<Longrightarrow> ck_sem F t = ck_sem F s"
  by (simp add: ck_sem_def)

lemma ck_simple_cong:
  "ck_size_vars t = ck_size_vars s \<Longrightarrow> ck_vals t = ck_vals s \<Longrightarrow> ck_simple t ls = ck_simple s ls"
  by (simp add: ck_simple_def ck_lit_ok_def ck_val_def)

text \<open>Room in the address space: the table can still be doubled.\<close>

definition ck_room :: "Checker \<Rightarrow> bool" where
  "ck_room s \<longleftrightarrow> unat (ck_size_clauses s) < 2 ^ 63"

lemma double_nonzero: "n \<noteq> 0 \<Longrightarrow> unat (n :: 64 word) < 2 ^ 63 \<Longrightarrow> 2 * n \<noteq> 0"
proof
  assume n: "n \<noteq> 0" "unat n < 2 ^ 63" "2 * n = 0"
  have "unat (2 * n) = 2 * unat n" using n(2) by (simp add: unat_word_ariths)
  then show False using n by (simp add: unat_eq_zero)
qed

text \<open>The state that the clause insertion depends on, beside the table itself.\<close>

definition ck_same_core :: "Checker \<Rightarrow> Checker \<Rightarrow> bool" where
  "ck_same_core s u \<longleftrightarrow>
     ck_simplified u = ck_simplified s \<and> ck_vals u = ck_vals s \<and> ck_size_vars u = ck_size_vars s
     \<and> ck_mem u = ck_mem s \<and> ck_trail u = ck_trail s
     \<and> ck_next_to_propagate u = ck_next_to_propagate s \<and> ck_inconsistent u = ck_inconsistent s"

text \<open>Making room: double the table when it is full.\<close>

definition ck_make_room :: "Checker \<Rightarrow> Checker outcome" where
  "ck_make_room s = (if ck_num_clauses s = ck_size_clauses s then ck_enlarge_clauses s else Ok s)"

text \<open>Putting the new clause into its bucket.\<close>

definition ck_put_clause :: "Checker \<Rightarrow> Checker outcome" where
  "ck_put_clause s =
     (case ck_compute_hash s of (x, s) \<Rightarrow>
        bind_outcome (of_loop (reduce_hash x (ck_size_clauses s)))
          (\<lambda>h. case ck_new_clause s of (a, s) \<Rightarrow>
             Ok (s\<lparr>ck_clauses := (ck_clauses s)[unat h := a # ck_clauses s ! unat h]\<rparr>)))"

lemma ck_insert_split:
  "ck_insert s =
     bind_outcome (ck_make_room (ck_count (\<lambda>t. t\<lparr>cs_insertions := cs_insertions t + 1\<rparr>) s)) ck_put_clause"
  by (simp add: ck_insert_def ck_make_room_def ck_put_clause_def [abs_def] Let_def)

lemma ck_make_room_ok:
  assumes wf: "ck_wf s"
    and full: "ck_num_clauses s = ck_size_clauses s \<Longrightarrow> ck_size_clauses s \<noteq> 0 \<Longrightarrow> 2 * ck_size_clauses s \<noteq> 0"
  shows "\<exists>u. ck_make_room s = Ok u \<and> ck_wf u \<and> ck_size_clauses u \<noteq> 0 \<and> ck_same_core s u"
proof (cases "ck_num_clauses s = ck_size_clauses s")
  case True
  let ?n = "if ck_size_clauses s \<noteq> 0 then 2 * ck_size_clauses s else 1"
  have n: "?n \<noteq> 0" using full [OF True] by simp
  obtain t where t: "ck_enlarge_clauses s = Ok (s\<lparr>ck_clauses := t, ck_size_clauses := ?n\<rparr>)"
    "ck_wf (s\<lparr>ck_clauses := t, ck_size_clauses := ?n\<rparr>)"
    using ck_enlarge_clauses_ok [OF wf refl n] by blast
  show ?thesis
    by (rule exI [of _ "s\<lparr>ck_clauses := t, ck_size_clauses := ?n\<rparr>"])
      (use True t n in \<open>simp add: ck_make_room_def ck_same_core_def\<close>)
next
  case False
  then have "ck_size_clauses s \<noteq> 0" using wf by (auto simp: ck_wf_def ck_table_inv_def)
  then show ?thesis using False wf by (simp add: ck_make_room_def ck_same_core_def)
qed

lemma ck_make_room_stuck:
  assumes "ck_num_clauses s = ck_size_clauses s" "ck_size_clauses s \<noteq> 0" "2 * ck_size_clauses s = 0"
    and "ck_make_room s = Ok u"
  shows "ck_put_clause u = Diverge"
proof -
  have "ck_size_clauses u = 0"
    using assms by (auto simp: ck_make_room_def ck_enlarge_clauses_def bind_outcome_Ok)
  then show ?thesis
    by (simp add: ck_put_clause_def ck_compute_hash_def Let_def reduce_hash_zero)
qed

lemma ck_put_clause_ok:
  assumes wf: "ck_wf s" and sem: "ck_sem F s" and n0: "ck_size_clauses s \<noteq> 0"
    and simple: "ck_simple s (ck_simplified s)"
    and two: "l \<in> set (ck_simplified s)" "ck_val s l = 0" "k \<in> set (ck_simplified s)"
      "ck_val s k = 0" "k \<noteq> l"
    and e: "entails F (ck_simplified s)"
  shows "\<exists>t. ck_put_clause s = Ok t \<and> ck_wf t \<and> ck_sem F t \<and> ck_trail t = ck_trail s
    \<and> ck_next_to_propagate t = ck_next_to_propagate s \<and> ck_inconsistent t = ck_inconsistent s"
proof -
  obtain x v where v: "ck_compute_hash s = (x, v)" by fastforce
  then have v': "v = s\<lparr>ck_last_hash := x\<rparr>" by (rule ck_compute_hash_fst)
  have vwf: "ck_wf v" unfolding v' by (rule ck_wf_cong [OF wf]) (use ck_wf_next [OF wf] in simp_all)
  obtain h where h: "reduce_hash x (ck_size_clauses s) = Some h" using reduce_hash_total [OF n0] by blast
  obtain a w where w: "ck_new_clause v = (a, w)" by fastforce
  have vs: "ck_simple v (ck_simplified s)" using simple ck_simple_cong [of v s] by (simp add: v')
  have val: "ck_val v = ck_val s" by (simp add: v' ck_val_def fun_eq_iff)
  have side: "reduce_hash (ck_last_hash v) (ck_size_clauses v) = Some h" "ck_size_clauses v \<noteq> 0"
    "ck_simplified s = ck_simplified v" using h n0 by (simp_all add: v')
  note c = ck_insert_clause_wf [OF vwf vs two [folded val] side w]
  let ?t = "w\<lparr>ck_clauses := (ck_clauses w)[unat h := a # ck_clauses w ! unat h]\<rparr>"
  have "ck_put_clause s = Ok ?t" using v h w by (simp add: ck_put_clause_def v')
  moreover obtain d where d: "ck_mem ?t = (ck_mem v)(a \<mapsto> d)" "set (cc_literals d) = set (ck_simplified s)"
    using c(6) by blast
  have "entails F (cc_literals d)" using e entails_cong_set [OF d(2)] by simp
  then have "ck_sem F ?t"
    using sem c(3) unfolding ck_sem_def d(1) by (auto simp: v')
  ultimately show ?thesis using c(1,3,4,5) by (auto simp: v')
qed

lemma ck_same_core_put:
  assumes "ck_same_core s u" "ck_wf u" "ck_size_clauses u \<noteq> 0" "ck_sem F s"
    and "ck_simple s (ck_simplified s)" "l \<in> set (ck_simplified s)" "ck_val s l = 0"
      "k \<in> set (ck_simplified s)" "ck_val s k = 0" "k \<noteq> l" "entails F (ck_simplified s)"
  shows "\<exists>t. ck_put_clause u = Ok t \<and> ck_wf t \<and> ck_sem F t \<and> ck_trail t = ck_trail s
    \<and> ck_next_to_propagate t = ck_next_to_propagate s \<and> ck_inconsistent t = ck_inconsistent s"
proof -
  have u: "ck_sem F u" "ck_simple u (ck_simplified u)" "ck_val u = ck_val s"
    "ck_simplified u = ck_simplified s"
    using assms(1,4,5) ck_sem_cong [of u s] ck_simple_cong [of u s]
    by (auto simp: ck_same_core_def ck_val_def)
  have c: "ck_trail u = ck_trail s" "ck_next_to_propagate u = ck_next_to_propagate s"
    "ck_inconsistent u = ck_inconsistent s" using assms(1) by (auto simp: ck_same_core_def)
  show ?thesis
    unfolding c [symmetric]
    by (rule ck_put_clause_ok [OF assms(2) u(1) assms(3) u(2)]) (use assms(6-) u in auto)
qed

lemma ck_insert_ok:
  assumes wf: "ck_wf s" and sem: "ck_sem F s" and simple: "ck_simple s (ck_simplified s)"
    and two: "l \<in> set (ck_simplified s)" "ck_val s l = 0" "k \<in> set (ck_simplified s)"
      "ck_val s k = 0" "k \<noteq> l"
    and e: "entails F (ck_simplified s)"
  shows "ck_insert s = Ok t \<Longrightarrow> ck_wf t \<and> ck_sem F t \<and> ck_trail t = ck_trail s
      \<and> ck_next_to_propagate t = ck_next_to_propagate s \<and> ck_inconsistent t = ck_inconsistent s"
    and "ck_room s \<Longrightarrow> \<exists>t. ck_insert s = Ok t"
proof -
  define s1 where "s1 = ck_count (\<lambda>t. t\<lparr>cs_insertions := cs_insertions t + 1\<rparr>) s"
  have s1: "ck_wf s1" "ck_same_core s s1" "ck_size_clauses s1 = ck_size_clauses s"
    using wf by (simp_all add: s1_def ck_same_core_def)
  have ins: "ck_insert s = bind_outcome (ck_make_room s1) ck_put_clause"
    by (simp add: ck_insert_split s1_def)
  have good: "\<exists>u t. ck_make_room s1 = Ok u \<and> ck_put_clause u = Ok t \<and> ck_wf t \<and> ck_sem F t
      \<and> ck_trail t = ck_trail s \<and> ck_next_to_propagate t = ck_next_to_propagate s
      \<and> ck_inconsistent t = ck_inconsistent s"
    if full: "ck_num_clauses s1 = ck_size_clauses s1 \<Longrightarrow> ck_size_clauses s1 \<noteq> 0 \<Longrightarrow> 2 * ck_size_clauses s1 \<noteq> 0"
  proof -
    obtain u where u: "ck_make_room s1 = Ok u" "ck_wf u" "ck_size_clauses u \<noteq> 0" "ck_same_core s1 u"
      using ck_make_room_ok [OF s1(1) full] by blast
    have core: "ck_same_core s u" using u(4) s1(2) by (simp add: ck_same_core_def)
    show ?thesis using ck_same_core_put [OF core u(2,3) sem simple two e] u(1) by blast
  qed
  show "ck_insert s = Ok t \<Longrightarrow> ck_wf t \<and> ck_sem F t \<and> ck_trail t = ck_trail s
      \<and> ck_next_to_propagate t = ck_next_to_propagate s \<and> ck_inconsistent t = ck_inconsistent s"
    using good ck_make_room_stuck [of s1] unfolding ins by (fastforce simp: bind_outcome_Ok)
  assume "ck_room s"
  then have "ck_size_clauses s1 \<noteq> 0 \<Longrightarrow> 2 * ck_size_clauses s1 \<noteq> 0"
    using double_nonzero by (simp add: ck_room_def s1(3))
  then show "\<exists>t. ck_insert s = Ok t" unfolding ins using good by fastforce
qed

lemma ck_room_frame:
  "ck_size_clauses t = ck_size_clauses s \<Longrightarrow> ck_room t = ck_room s"
  by (simp add: ck_room_def)

lemma ck_add_clause_ok:
  assumes wf: "ck_wf s" and sem: "ck_sem F s" and ready: "ck_next_to_propagate s = length (ck_trail s)"
    and cons: "\<not> ck_inconsistent s"
    and simple: "ck_simple s (ck_simplified s)" and range: "int_min \<notin> set (ck_simplified s)"
    and e: "entails F (ck_simplified s)"
  shows "ck_add_clause s = Ok t \<Longrightarrow> ck_wf t \<and> ck_sem F t \<and> (ck_inconsistent t \<longrightarrow> unsat F)
      \<and> (\<not> ck_inconsistent t \<longrightarrow> ck_next_to_propagate t = length (ck_trail t))"
    and "ck_room s \<Longrightarrow> \<exists>t. ck_add_clause s = Ok t"
proof -
  have nz: "0 \<notin> set (ck_simplified s)" "distinct (ck_simplified s)"
    using simple by (auto simp: ck_simple_def ck_lit_ok_def distinct_map)
  have neg: "entails F [- l]" if "ck_val s l < 0" for l
    using that sem by (simp add: ck_wf_vals [OF wf] trail_val_simps ck_sem_def)
  have zero: "ck_val s l = 0" if "l \<in> set (ck_simplified s)" "\<not> ck_val s l < 0" for l
    using that simple by (force simp: ck_simple_def)
  have inc: "ck_wf (u\<lparr>ck_inconsistent := b\<rparr>)" "ck_sem F (u\<lparr>ck_inconsistent := b\<rparr>)"
    if "ck_wf u" "ck_sem F u" for u b
    using ck_wf_cong [OF that(1), of "u\<lparr>ck_inconsistent := b\<rparr>"] ck_wf_next [OF that(1)] that(2)
    by (simp_all add: ck_sem_def)
  have "(\<forall>t. ck_add_clause s = Ok t \<longrightarrow> ck_wf t \<and> ck_sem F t \<and> (ck_inconsistent t \<longrightarrow> unsat F)
      \<and> (\<not> ck_inconsistent t \<longrightarrow> ck_next_to_propagate t = length (ck_trail t)))
    \<and> (ck_room s \<longrightarrow> (\<exists>t. ck_add_clause s = Ok t))"
    using nz(1) range nz(2)
  proof (cases rule: find_unit_cases [where v = "ck_val s"])
    case falsified
    have "entails F []" by (rule entails_drop_false [OF e]) (use falsified(2) neg nz in auto)
    then have "unsat F" by (simp add: entails_empty_iff)
    then show ?thesis using falsified(1) inc [OF wf sem] by (auto simp: ck_add_clause_def Let_def)
  next
    case (unit l)
    have ne: "ck_simplified s \<noteq> []" using unit(2) by auto
    have "entails F [l]" by (rule entails_drop_false [OF e]) (use unit neg nz in auto)
    moreover have l: "ck_lit_ok s l" "ck_val s l = 0"
      using simple unit(2) zero [OF unit(2,3)] by (auto simp: ck_simple_def)
    ultimately have "ck_sem F (ck_assign l s)" using sem by (auto simp: ck_sem_def ck_assign_def)
    moreover define u where "u = ck_count (\<lambda>t. t\<lparr>cs_units := cs_units t + 1\<rparr>) (ck_assign l s)"
    ultimately have u: "ck_wf u" "ck_sem F u" using ck_wf_assign [OF wf l] by simp_all
    then obtain ok t where t: "ck_propagate u = Some (ok, t)" "ck_wf t" "ck_sem F t" "\<not> ok \<longrightarrow> unsat F"
      "ck_prop_frame u t" "ok \<longrightarrow> ck_next_to_propagate t = length (ck_trail t)"
      using ck_propagate_ok by blast
    have "ck_add_clause s = Ok (if \<not> ok then t\<lparr>ck_inconsistent := True\<rparr> else t)"
      using t(1) unit(1,4,5) ne unfolding u_def by (simp add: ck_add_clause_def)
    moreover have "\<not> ck_inconsistent t"
      using t(5) cons by (simp add: ck_prop_frame_def u_def ck_assign_def)
    ultimately show ?thesis using t(2,3,4,6) inc [OF t(2,3)] by auto
  next
    case (several l k)
    have ne: "ck_simplified s \<noteq> []" using several(2) by auto
    have "ck_add_clause s = ck_insert s" using several(1) ne by (simp add: ck_add_clause_def)
    moreover note ck_insert_ok [OF wf sem simple several(2) zero [OF several(2,3)] several(4)
        zero [OF several(4,5)] several(6) e]
    ultimately show ?thesis using ready cons by auto
  qed
  then show "ck_add_clause s = Ok t \<Longrightarrow> ck_wf t \<and> ck_sem F t \<and> (ck_inconsistent t \<longrightarrow> unsat F)
      \<and> (\<not> ck_inconsistent t \<longrightarrow> ck_next_to_propagate t = length (ck_trail t))"
    and "ck_room s \<Longrightarrow> \<exists>t. ck_add_clause s = Ok t" by blast+
qed

subsection \<open>The interface: adding original and derived clauses\<close>

text \<open>The invariant between two calls, relative to the original clauses added so far.\<close>

definition ck_inv :: "clause set \<Rightarrow> Checker \<Rightarrow> bool" where
  "ck_inv F s \<longleftrightarrow>
     ck_wf s \<and> ck_sem F s \<and> (ck_inconsistent s \<longrightarrow> unsat F)
     \<and> (\<not> ck_inconsistent s \<longrightarrow> ck_next_to_propagate s = length (ck_trail s))
     \<and> ck_simplified s = [] \<and> ck_unsimplified s = []"

lemma ck_sem_mono: "ck_sem F s \<Longrightarrow> F \<subseteq> G \<Longrightarrow> ck_sem G s"
  by (auto simp: ck_sem_def intro: entails_mono)

lemma ck_inv_mono: "ck_inv F s \<Longrightarrow> F \<subseteq> G \<Longrightarrow> ck_inv G s"
  by (auto simp: ck_inv_def intro: ck_sem_mono unsat_mono)

lemma ck_inv_init: "ck_inv {} ck_init"
proof -
  have "length (draw_nonces n r) = n" for n r
    by (induction n arbitrary: r) (auto simp: Let_def split: prod.splits)
  then show ?thesis
    by (simp add: ck_inv_def ck_wf_defs ck_init_def ck_sem_def trail_val_def fun_eq_iff ck_lit_ok_def)
qed

text \<open>
  The common prologue of the three entry points: count, import, set the identifier, simplify.
\<close>

lemma ck_prologue:
  assumes inv: "ck_inv F s" and ok: "\<not> ck_inconsistent s" and c: "valid_clause c"
    and t: "ck_tautological ((ck_import_clause c (ck_count f s))\<lparr>ck_last_id := i\<rparr>) = (taut, t)"
  shows "ck_wf t" "ck_sem F t" "\<not> ck_inconsistent t" "ck_next_to_propagate t = length (ck_trail t)"
    "ck_size_clauses t = ck_size_clauses s"
    "taut \<Longrightarrow> entails F c"
    "\<not> taut \<Longrightarrow> set (ck_simplified t) = set c \<and> ck_simple t (ck_simplified t)
       \<and> int_min \<notin> set (ck_simplified t)"
proof -
  let ?u = "ck_import_clause c (ck_count f s)"
  let ?v = "?u\<lparr>ck_last_id := i\<rparr>"
  have nz: "0 \<notin> set c" using c by (auto simp: valid_clause_def)
  have s: "ck_wf s" "ck_sem F s" "ck_next_to_propagate s = length (ck_trail s)" "ck_simplified s = []"
    using inv ok by (auto simp: ck_inv_def)
  have "ck_wf (ck_count f s)" using s(1) by simp
  from ck_import_clause [OF this nz] s(4)
  have u: "ck_wf ?u" "ck_import_frame (ck_count f s) ?u" "\<forall>l \<in> set c. ck_lit_ok ?u l" "ck_simplified ?u = c"
    by auto
  have v: "ck_wf ?v" by (rule ck_wf_cong [OF u(1)]) (use ck_wf_next [OF u(1)] in simp_all)
  have vsem: "ck_sem F ?v" using s(2) u(2) by (simp add: ck_sem_def ck_import_frame_def)
  have fr: "t = ?v\<lparr>ck_simplified := ck_simplified t\<rparr>" by (rule ck_tautological_frame [OF t])
  show twf: "ck_wf t" by (subst fr, rule ck_wf_cong [OF v]) (use ck_wf_next [OF v] in simp_all)
  have "ck_trail t = ck_trail ?v" "ck_mem t = ck_mem ?v" "ck_vals t = ck_vals ?v"
    "ck_size_vars t = ck_size_vars ?v" "ck_next_to_propagate t = ck_next_to_propagate ?v"
    "ck_inconsistent t = ck_inconsistent ?v" "ck_size_clauses t = ck_size_clauses ?v"
    by (subst fr, simp)+
  note fld = this
  show "ck_sem F t" using vsem fld by (simp add: ck_sem_def)
  show "\<not> ck_inconsistent t" "ck_next_to_propagate t = length (ck_trail t)"
    "ck_size_clauses t = ck_size_clauses s"
    using fld u(2) s(3) ok by (simp_all add: ck_import_frame_def)
  show "taut \<Longrightarrow> entails F c"
    using ck_tautological_True [OF _ _ v vsem] t u(4) nz by simp
  show "\<not> taut \<Longrightarrow> set (ck_simplified t) = set c \<and> ck_simple t (ck_simplified t)
       \<and> int_min \<notin> set (ck_simplified t)"
  proof -
    assume "\<not> taut"
    with t have f: "ck_tautological ?v = (False, t)" by simp
    have "0 \<notin> set (ck_simplified ?v)" using nz u(4) by simp
    note x = ck_tautological_False [OF f this]
    have "set (ck_simplified t) = set c" using x(1) u(4) by simp
    moreover have "ck_simple t (ck_simplified t)"
      using x(2,3) u(3) fld \<open>set (ck_simplified t) = set c\<close>
      by (simp add: ck_simple_def ck_lit_ok_def ck_val_def)
    moreover have "int_min \<notin> set c" using c by (force simp: valid_clause_def)
    ultimately show ?thesis by simp
  qed
qed

lemma ck_inv_clear:
  assumes "ck_wf s" "ck_sem F s" "ck_inconsistent s \<longrightarrow> unsat F"
    "\<not> ck_inconsistent s \<longrightarrow> ck_next_to_propagate s = length (ck_trail s)"
  shows "ck_inv F (ck_clear s)"
proof -
  have "ck_wf (ck_clear s)"
    by (rule ck_wf_cong [OF assms(1)]) (use ck_wf_next [OF assms(1)] in \<open>simp_all add: ck_clear_def\<close>)
  then show ?thesis using assms by (simp add: ck_inv_def ck_clear_def ck_sem_def)
qed

lemma ck_add_original_ok:
  assumes inv: "ck_inv F s" and c: "valid_clause c"
  shows "ck_add_original_clause i c s = Ok t \<Longrightarrow> ck_inv (insert c F) t"
    and "ck_room s \<Longrightarrow> \<exists>t. ck_add_original_clause i c s = Ok t"
proof -
  let ?f = "\<lambda>t. t\<lparr>cs_added := cs_added t + 1, cs_original := cs_original t + 1\<rparr>"
  have "(ck_add_original_clause i c s = Ok t \<longrightarrow> ck_inv (insert c F) t)
    \<and> (ck_room s \<longrightarrow> (\<exists>t. ck_add_original_clause i c s = Ok t))"
  proof (cases "ck_inconsistent s")
    case True
    then show ?thesis using ck_inv_mono [OF inv, of "insert c F"] by (auto simp: ck_add_original_clause_def)
  next
    case False
    obtain taut u where u: "ck_tautological ((ck_import_clause c (ck_count ?f s))\<lparr>ck_last_id := i\<rparr>) = (taut, u)"
      by fastforce
    note p = ck_prologue [OF inv False c u]
    have eq: "ck_add_original_clause i c s
        = bind_outcome (if taut then Ok u else ck_add_clause u) (\<lambda>s. Ok (ck_clear s))"
      using False u by (simp add: ck_add_original_clause_def)
    have sem: "ck_sem (insert c F) u" using p(2) by (rule ck_sem_mono) auto
    show ?thesis
    proof (cases taut)
      case True
      then show ?thesis using eq ck_inv_clear [OF p(1) sem] p(3,4) by auto
    next
      case False
      have "entails (insert c F) (ck_simplified u)"
        using p(7) [OF False] entails_cong_set [of "ck_simplified u" c] entails_member [of c] by auto
      moreover have "ck_simple u (ck_simplified u)" "int_min \<notin> set (ck_simplified u)"
        using p(7) [OF False] by auto
      ultimately have a: "\<And>w. ck_add_clause u = Ok w \<Longrightarrow> ck_inv (insert c F) (ck_clear w)"
        "ck_room u \<Longrightarrow> \<exists>w. ck_add_clause u = Ok w"
        using ck_add_clause_ok [OF p(1) sem p(4,3)] ck_inv_clear by blast+
      show ?thesis using False eq a ck_room_frame [OF p(5)] by (cases "ck_add_clause u") auto
    qed
  qed
  then show "ck_add_original_clause i c s = Ok t \<Longrightarrow> ck_inv (insert c F) t"
    "ck_room s \<Longrightarrow> \<exists>t. ck_add_original_clause i c s = Ok t" by blast+
qed

abbreviation derived_failed :: string where
  "derived_failed \<equiv> ''failed to check derived clause:''"

lemma ck_add_derived_ok:
  assumes inv: "ck_inv F s" and c: "valid_clause c"
  shows "ck_add_derived_clause i c s = Ok t \<Longrightarrow> entails F c \<and> ck_inv F t"
    and "ck_room s \<Longrightarrow> (\<exists>t. ck_add_derived_clause i c s = Ok t) \<or> ck_add_derived_clause i c s = Fatal derived_failed"
proof -
  let ?f = "\<lambda>t. t\<lparr>cs_added := cs_added t + 1, cs_derived := cs_derived t + 1\<rparr>"
  have "(ck_add_derived_clause i c s = Ok t \<longrightarrow> entails F c \<and> ck_inv F t)
    \<and> (ck_room s \<longrightarrow> (\<exists>t. ck_add_derived_clause i c s = Ok t) \<or> ck_add_derived_clause i c s = Fatal derived_failed)"
  proof (cases "ck_inconsistent s")
    case True
    then have "entails F c" using inv unsat_entails by (auto simp: ck_inv_def)
    then show ?thesis using True inv by (auto simp: ck_add_derived_clause_def)
  next
    case False
    obtain taut u where u: "ck_tautological ((ck_import_clause c (ck_count ?f s))\<lparr>ck_last_id := i\<rparr>) = (taut, u)"
      by fastforce
    note p = ck_prologue [OF inv False c u]
    let ?body = "\<lambda>(ok, s). if \<not> ok then Fatal ''failed to check derived clause:'' else ck_add_clause s"
    have eq: "ck_add_derived_clause i c s
        = bind_outcome (if taut then Ok u else bind_outcome (ck_check u) ?body) (\<lambda>s. Ok (ck_clear s))"
      using False u by (simp add: ck_add_derived_clause_def)
    show ?thesis
    proof (cases taut)
      case True
      then show ?thesis using eq ck_inv_clear [OF p(1,2)] p(3,4,6) by auto
    next
      case False
      have ck: "set (ck_simplified u) = set c" "ck_simple u (ck_simplified u)" "int_min \<notin> set (ck_simplified u)"
        using p(7) [OF False] by auto
      obtain res v where v: "ck_check u = Ok (res, v)" "ck_wf v" "ck_sem F v" "ck_prop_frame u v"
        "ck_trail v = ck_trail u" "ck_next_to_propagate v = ck_next_to_propagate u"
        "res \<longrightarrow> entails F (ck_simplified u)"
        using ck_check_ok [OF p(1,2,4) _ ck(2)] p(3) by blast
      have vf: "ck_simplified v = ck_simplified u" "\<not> ck_inconsistent v" "ck_size_clauses v = ck_size_clauses s"
        using v(4) p(3,5) by (simp_all add: ck_prop_frame_def)
      have "ck_val v = ck_val u" using v(5) by (simp add: ck_wf_vals [OF v(2)] ck_wf_vals [OF p(1)] fun_eq_iff)
      moreover have "ck_lit_ok v = ck_lit_ok u" using v(4) by (intro ck_lit_ok_cong) (simp add: ck_prop_frame_def)
      ultimately have simp: "ck_simple v (ck_simplified v)" using ck(2) vf(1) by (simp add: ck_simple_def)
      have rd: "ck_next_to_propagate v = length (ck_trail v)" using v(5,6) p(4) by simp
      show ?thesis
      proof (cases res)
        case True
        then have e: "entails F (ck_simplified v)" using v(7) vf(1) by simp
        then have "entails F c" using entails_cong_set [of "ck_simplified v" c] vf(1) ck(1) by simp
        moreover note a = ck_add_clause_ok [OF v(2,3) rd vf(2) simp _ e]
        have r: "int_min \<notin> set (ck_simplified v)" using ck(3) vf(1) by simp
        have "ck_inv F (ck_clear w)" if "ck_add_clause v = Ok w" for w
          using ck_inv_clear [of w F] a(1) [OF r that] by blast
        moreover have "\<exists>w. ck_add_clause v = Ok w" if "ck_room s"
          using a(2) [OF r] ck_room_frame [OF vf(3)] that by auto
        ultimately show ?thesis
          using True \<open>\<not> taut\<close> eq v(1) by (cases "ck_add_clause v") auto
      next
        case False
        then show ?thesis using \<open>\<not> taut\<close> eq v(1) by simp
      qed
    qed
  qed
  then show "ck_add_derived_clause i c s = Ok t \<Longrightarrow> entails F c \<and> ck_inv F t"
    "ck_room s \<Longrightarrow> (\<exists>t. ck_add_derived_clause i c s = Ok t) \<or> ck_add_derived_clause i c s = Fatal derived_failed" by blast+
qed

end
