(* ===== verification/Checker_Delete.thy ===== *)
theory Checker_Delete
  imports Checker_Sound
begin

text \<open>
  Deletion: finding a clause in the hash table, retiring it to the garbage list, garbage
  collection and the destructor.  Memory is exact at every step: no watch dangles, every
  allocated clause is freed once.
\<close>

subsection \<open>Retiring a clause\<close>

text \<open>Moving one address from the table to the garbage list and marking its clause.\<close>

definition ck_retire :: "nat \<Rightarrow> nat list list \<Rightarrow> Checker \<Rightarrow> Checker" where
  "ck_retire a table s =
     ck_store a ((ck_deref s a)\<lparr>cc_size := 0\<rparr>)
       (s\<lparr>ck_num_garbage := ck_num_garbage s + 1, ck_num_clauses := ck_num_clauses s - 1,
          ck_clauses := table, ck_garbage := a # ck_garbage s\<rparr>)"

lemma ck_watch_ok_retire:
  assumes "ck_watch_ok m l w" and "m a = Some c"
  shows "ck_watch_ok (m(a \<mapsto> c\<lparr>cc_size := 0\<rparr>)) l w"
  using assms by (cases "cw_clause w = a") (auto simp: ck_watch_ok_def)

lemma ck_retire_simps [simp]:
  "ck_size_vars (ck_retire a t s) = ck_size_vars s"
  "ck_vals (ck_retire a t s) = ck_vals s"
  "ck_watchers (ck_retire a t s) = ck_watchers s"
  "ck_watcher (ck_retire a t s) = ck_watcher s"
  "ck_marks (ck_retire a t s) = ck_marks s"
  "ck_inconsistent (ck_retire a t s) = ck_inconsistent s"
  "ck_size_clauses (ck_retire a t s) = ck_size_clauses s"
  "ck_clauses (ck_retire a t s) = t"
  "ck_garbage (ck_retire a t s) = a # ck_garbage s"
  "ck_trail (ck_retire a t s) = ck_trail s"
  "ck_next_to_propagate (ck_retire a t s) = ck_next_to_propagate s"
  "ck_nonces (ck_retire a t s) = ck_nonces s"
  "ck_mem (ck_retire a t s) = (ck_mem s)(a \<mapsto> (ck_deref s a)\<lparr>cc_size := 0\<rparr>)"
  "ck_next_addr (ck_retire a t s) = ck_next_addr s"
  "ck_num_garbage (ck_retire a t s) = ck_num_garbage s + 1"
  "ck_num_clauses (ck_retire a t s) = ck_num_clauses s - 1"
  "ck_lit_ok (ck_retire a t s) = ck_lit_ok s"
  by (simp_all add: ck_retire_def ck_watcher_def ck_lit_ok_def fun_eq_iff)

lemma ck_wf_retire:
  assumes wf: "ck_wf s" and len: "length table = length (ck_clauses s)"
    and p: "\<And>i x. i < length table \<Longrightarrow> x \<in> set (table ! i) \<Longrightarrow> x \<in> set (ck_clauses s ! i)"
    and m: "mset (concat (ck_clauses s)) = add_mset a (mset (concat table))"
  shows "ck_wf (ck_retire a table s)" (is "ck_wf ?t")
proof -
  have t: "ck_table_inv s" using wf by (simp add: ck_wf_def)
  have m': "mset (concat (ck_clauses s)) = mset (a # concat table)" using m by simp
  have sets: "set (concat (ck_clauses s)) = insert a (set (concat table))"
    using mset_eq_setD [OF m'] by simp
  have d: "distinct (concat (ck_clauses s)) = (a \<notin> set (concat table) \<and> distinct (concat table))"
    using mset_eq_imp_distinct_iff [OF m'] by simp
  have l: "length (concat (ck_clauses s)) = Suc (length (concat table))"
    using mset_eq_length [OF m'] by simp
  have a: "a \<notin> set (concat table)" "a \<notin> set (ck_garbage s)"
    using t d sets by (auto simp: ck_table_inv_def simp del: set_concat)
  obtain c where c: "ck_mem s a = Some c"
    using t sets by (metis ck_table_inv_def UnI1 domD insertI1)
  have der: "ck_deref s a = c" using c by (simp add: ck_deref_def)
  have dt: "ck_deref ?t x = (if x = a then c\<lparr>cc_size := 0\<rparr> else ck_deref s x)" for x
    using der by (simp add: ck_deref_def)
  have hash: "cc_hash (ck_deref ?t x) = cc_hash (ck_deref s x)" for x
    using der by (simp add: dt)
  have "ck_trail_inv ?t" using wf by (simp add: ck_wf_def ck_trail_inv_def)
  moreover have "ck_mem_inv ?t"
    using wf c der by (auto simp: ck_wf_def ck_mem_inv_def ck_clause_ok_def)
  moreover have "ck_watch_inv ?t"
    using wf c unfolding ck_watch_inv_def ck_wf_def ck_watches_ok_def
    by (simp add: der ck_watch_ok_retire)
  moreover have "ck_table_inv ?t"
    unfolding ck_table_inv_def
  proof (intro conjI)
    show "distinct (concat (ck_clauses ?t) @ ck_garbage ?t)"
      using t a d sets by (simp add: ck_table_inv_def del: set_concat)
    show "dom (ck_mem ?t) = set (concat (ck_clauses ?t)) \<union> set (ck_garbage ?t)"
      using t sets by (auto simp: ck_table_inv_def simp del: set_concat)
    show "\<forall>x \<in> set (concat (ck_clauses ?t)). cc_size (ck_deref ?t x) \<noteq> 0"
      using t sets a by (simp add: dt ck_table_inv_def del: set_concat) blast
    show "\<forall>x \<in> set (ck_garbage ?t). cc_size (ck_deref ?t x) = 0"
      using t a by (simp add: dt ck_table_inv_def)
    show "\<forall>i < length (ck_clauses ?t). \<forall>x \<in> set (ck_clauses ?t ! i).
        \<exists>h. reduce_hash (cc_hash (ck_deref ?t x)) (ck_size_clauses ?t) = Some h \<and> unat h = i"
      using t p len unfolding hash by (simp add: ck_table_inv_def)
    show "ck_num_clauses ?t = of_nat (length (concat (ck_clauses ?t)))"
      using t l by (simp add: ck_table_inv_def)
  qed (use t len in \<open>simp_all add: ck_table_inv_def\<close>)
  ultimately show ?thesis by (simp add: ck_wf_def)
qed

lemma ck_sem_retire: "ck_sem F s \<Longrightarrow> ck_mem s a \<noteq> None \<Longrightarrow> ck_sem F (ck_retire a t s)"
  by (auto simp: ck_sem_def ck_deref_def)

subsection \<open>Garbage collection\<close>

text \<open>What collection leaves alone.\<close>

definition ck_collect_frame :: "Checker \<Rightarrow> Checker \<Rightarrow> bool" where
  "ck_collect_frame s t \<longleftrightarrow>
     ck_trail t = ck_trail s \<and> ck_next_to_propagate t = ck_next_to_propagate s
     \<and> ck_inconsistent t = ck_inconsistent s \<and> ck_size_vars t = ck_size_vars s"

lemma ck_collect_frame_trans:
  "ck_collect_frame s t \<Longrightarrow> ck_collect_frame t u \<Longrightarrow> ck_collect_frame s u"
  by (simp add: ck_collect_frame_def)

lemma ck_wf_mem_table: "ck_wf s \<Longrightarrow> a \<in> set (concat (ck_clauses s)) \<Longrightarrow> ck_mem s a \<noteq> None"
  by (metis UnI1 ck_table_inv_def ck_wf_def domIff)

lemma collect_chain_ok:
  assumes "ck_wf (s\<lparr>ck_clauses := pre @ (kp @ as) # post\<rparr>)" and "ck_sem F s"
    and "collect_chain as s = (kept, t)"
  shows "ck_wf (t\<lparr>ck_clauses := pre @ (kp @ kept) # post\<rparr>) \<and> ck_sem F t \<and> ck_collect_frame s t"
  using assms
proof (induction as arbitrary: s kp kept)
  case Nil
  then show ?case by (simp add: ck_collect_frame_def)
next
  case (Cons a as)
  let ?s = "s\<lparr>ck_clauses := pre @ (kp @ a # as) # post\<rparr>"
  show ?case
  proof (cases "ck_clause_satisfied s (ck_deref s a)")
    case False
    then obtain kept' where k: "collect_chain as s = (kept', t)" "kept = a # kept'"
      using Cons.prems(3) by (auto split: prod.splits)
    have "ck_wf (s\<lparr>ck_clauses := pre @ ((kp @ [a]) @ as) # post\<rparr>)" using Cons.prems(1) by simp
    from Cons.IH [OF this Cons.prems(2) k(1)] show ?thesis by (simp add: k(2))
  next
    case True
    define u where "u = ck_store a ((ck_deref s a)\<lparr>cc_size := 0\<rparr>)
      (s\<lparr>ck_garbage := a # ck_garbage s, ck_num_garbage := ck_num_garbage s + 1,
         ck_num_clauses := ck_num_clauses s - 1\<rparr>)"
    have rec: "collect_chain as u = (kept, t)" using True Cons.prems(3) by (simp add: u_def Let_def)
    have ret: "u\<lparr>ck_clauses := pre @ (kp @ as) # post\<rparr> = ck_retire a (pre @ (kp @ as) # post) ?s"
      by (simp add: u_def ck_retire_def ck_store_def ck_deref_def)
    have "ck_wf (u\<lparr>ck_clauses := pre @ (kp @ as) # post\<rparr>)"
      unfolding ret by (rule ck_wf_retire [OF Cons.prems(1)]) (auto simp: nth_append nth_Cons split: nat.splits)
    moreover have "ck_mem s a \<noteq> None" using ck_wf_mem_table [OF Cons.prems(1), of a] by simp
    then have "ck_sem F u" using Cons.prems(2) by (auto simp: ck_sem_def u_def ck_deref_def)
    moreover have "ck_collect_frame s u" by (simp add: ck_collect_frame_def u_def)
    ultimately show ?thesis using Cons.IH [OF _ _ rec] ck_collect_frame_trans by blast
  qed
qed

lemma collect_table_ok:
  assumes "ck_wf (s\<lparr>ck_clauses := pre @ bs\<rparr>)" and "ck_sem F s" and "collect_table bs s = (kept, t)"
  shows "ck_wf (t\<lparr>ck_clauses := pre @ kept\<rparr>) \<and> ck_sem F t \<and> ck_collect_frame s t"
  using assms
proof (induction bs arbitrary: s pre kept)
  case Nil
  then show ?case by (simp add: ck_collect_frame_def)
next
  case (Cons b bs)
  obtain k u where u: "collect_chain b s = (k, u)" by fastforce
  with Cons.prems(3) obtain ks where ks: "collect_table bs u = (ks, t)" "kept = k # ks"
    by (auto split: prod.splits)
  have "ck_wf (s\<lparr>ck_clauses := pre @ ([] @ b) # bs\<rparr>)" using Cons.prems(1) by simp
  from collect_chain_ok [OF this Cons.prems(2) u]
  have c: "ck_wf (u\<lparr>ck_clauses := (pre @ [k]) @ bs\<rparr>)" "ck_sem F u" "ck_collect_frame s u" by simp_all
  from Cons.IH [OF c(1,2) ks(1)] ks(2) c(3) ck_collect_frame_trans show ?case by auto
qed

text \<open>Flushing removes the watches of garbage clauses from every watch list.\<close>

lemma ck_flush_watcher_ok:
  assumes wf: "ck_wf s" and l: "ck_lit_ok s l"
  shows "ck_wf (ck_flush_watcher l s)"
    "ck_lit_ok s k \<Longrightarrow> ck_watcher (ck_flush_watcher l s) k =
       (if k = l then filter (\<lambda>w. cc_size (ck_deref s (cw_clause w)) \<noteq> 0) (ck_watcher s l)
        else ck_watcher s k)"
proof -
  have "ck_watches_ok (ck_mem s) l
      (filter (\<lambda>w. cc_size (ck_deref s (cw_clause w)) \<noteq> 0) (ck_watcher s l))"
    using ck_wf_watcher [OF wf l] by (auto simp: ck_watches_ok_def distinct_map_filter)
  then show "ck_wf (ck_flush_watcher l s)"
    unfolding ck_flush_watcher_def by (rule ck_wf_set_watcher [OF wf l])
  show "ck_watcher (ck_flush_watcher l s) k =
       (if k = l then filter (\<lambda>w. cc_size (ck_deref s (cw_clause w)) \<noteq> 0) (ck_watcher s l)
        else ck_watcher s k)" if "ck_lit_ok s k"
    using that l ck_wf_length_watchers [OF wf] by (simp add: ck_flush_watcher_def)
qed

lemma ck_flush_all_ok:
  assumes "ck_wf s" and "\<forall>l \<in> set ls. ck_lit_ok s l"
  defines "t \<equiv> fold ck_flush_watcher ls s"
  shows "ck_wf t \<and> ck_collect_frame s t \<and> ck_mem t = ck_mem s \<and> ck_garbage t = ck_garbage s
    \<and> ck_clauses t = ck_clauses s
    \<and> (\<forall>k. ck_lit_ok s k \<longrightarrow> set (ck_watcher t k) \<subseteq> set (ck_watcher s k)
         \<and> (k \<in> set ls \<longrightarrow> (\<forall>w \<in> set (ck_watcher t k). cc_size (ck_deref s (cw_clause w)) \<noteq> 0)))"
  using assms(1,2) unfolding t_def
proof (induction ls arbitrary: s)
  case Nil
  then show ?case by (simp add: ck_collect_frame_def)
next
  case (Cons l ls)
  let ?u = "ck_flush_watcher l s"
  have l: "ck_lit_ok s l" using Cons.prems by simp
  have ok: "ck_lit_ok ?u = ck_lit_ok s" by (simp add: ck_flush_watcher_def)
  have same: "ck_mem ?u = ck_mem s" "ck_deref ?u = ck_deref s" "ck_garbage ?u = ck_garbage s"
    "ck_clauses ?u = ck_clauses s" "ck_collect_frame s ?u"
    by (simp_all add: ck_flush_watcher_def ck_collect_frame_def ck_deref_def fun_eq_iff)
  have "\<forall>l \<in> set ls. ck_lit_ok ?u l" using Cons.prems(2) by (simp add: ok)
  note ih = Cons.IH [OF ck_flush_watcher_ok(1) [OF Cons.prems(1) l] this]
  note w = ck_flush_watcher_ok(2) [OF Cons.prems(1) l]
  show ?case
    using ih w same ck_collect_frame_trans [OF same(5)] unfolding ok by (auto split: if_splits; blast)
qed

lemma set_ck_literals_upto: "l \<in> set (ck_literals_upto n) \<longleftrightarrow> l \<noteq> 0 \<and> \<bar>l\<bar> < n"
  by (auto simp: ck_literals_upto_def)

text \<open>Freeing a list of marked clauses.\<close>

lemma fold_free_garbage:
  assumes "distinct g" "\<forall>a \<in> set g. cc_size (ck_deref s a) = 0"
  shows "fold ck_free_clause g s =
    s\<lparr>ck_mem := ck_mem s |` (- set g), ck_num_garbage := ck_num_garbage s - of_nat (length g)\<rparr>"
  using assms
proof (induction g arbitrary: s)
  case Nil
  have "ck_mem s |` (- set []) = ck_mem s" by (simp add: restrict_map_def)
  then show ?case by simp
next
  case (Cons a g)
  let ?u = "ck_free_clause a s"
  have u: "?u = s\<lparr>ck_mem := (ck_mem s)(a := None), ck_num_garbage := ck_num_garbage s - 1\<rparr>"
    using Cons.prems(2) by (simp add: ck_free_clause_def)
  have "\<forall>b \<in> set g. cc_size (ck_deref ?u b) = 0"
    using Cons.prems by (auto simp: u ck_deref_def)
  from Cons.IH [OF _ this] Cons.prems(1) show ?case
    by (simp add: u restrict_map_def fun_eq_iff)
qed

lemma ck_free_garbage_ok:
  assumes wf: "ck_wf s"
    and clean: "\<And>l w. ck_lit_ok s l \<Longrightarrow> w \<in> set (ck_watcher s l) \<Longrightarrow> cc_size (ck_deref s (cw_clause w)) \<noteq> 0"
  defines "t \<equiv> (fold ck_free_clause (ck_garbage s) s)\<lparr>ck_garbage := []\<rparr>"
  shows "ck_wf t"
proof -
  have tab: "ck_table_inv s" using wf by (simp add: ck_wf_def)
  let ?m = "ck_mem s |` (- set (ck_garbage s))"
  have t: "t = s\<lparr>ck_mem := ?m, ck_num_garbage := 0, ck_garbage := []\<rparr>"
    using fold_free_garbage [of "ck_garbage s" s] tab by (simp add: t_def ck_table_inv_def)
  have ok: "ck_lit_ok t = ck_lit_ok s" by (rule ck_lit_ok_cong) (simp add: t)
  have live: "a \<notin> set (ck_garbage s)" if "cc_size (ck_deref s a) \<noteq> 0" for a
    using that tab by (auto simp: ck_table_inv_def)
  have "ck_trail_inv t" using wf by (simp add: ck_wf_def ck_trail_inv_def ok) (simp add: t)
  moreover have "ck_mem_inv t"
    using wf by (auto simp: ck_wf_def ck_mem_inv_def ck_clause_ok_def ok)
      (auto simp: t restrict_map_def split: if_splits)
  moreover have "ck_watch_ok ?m l w" if "ck_watch_ok (ck_mem s) l w" "cc_size (ck_deref s (cw_clause w)) \<noteq> 0" for l w
    using that live by (auto simp: ck_watch_ok_def)
  then have "ck_watch_inv t"
    using wf clean unfolding ck_watch_inv_def ok ck_wf_def ck_watches_ok_def
    by (auto simp: t ck_watcher_def)
  moreover have "ck_table_inv t"
  proof -
    have disj: "set (concat (ck_clauses s)) \<inter> set (ck_garbage s) = {}"
      using tab by (simp add: ck_table_inv_def)
    have "ck_deref t a = ck_deref s a" if "a \<in> set (concat (ck_clauses s))" for a
      using that disj by (auto simp: t ck_deref_def restrict_map_def)
    moreover have "dom ?m = set (concat (ck_clauses s))"
      using tab disj by (auto simp: ck_table_inv_def simp del: set_concat)
    moreover have "ck_clauses t = ck_clauses s" "ck_mem t = ?m" by (simp_all add: t)
    ultimately show ?thesis
      using tab unfolding ck_table_inv_def by (simp add: t) (metis UN_I nth_mem)
  qed
  ultimately show ?thesis by (simp add: ck_wf_def)
qed

lemma ck_collect_garbage_ok:
  assumes wf: "ck_wf s" and sem: "ck_sem F s"
  defines "t \<equiv> ck_collect_garbage_clauses s"
  shows "ck_wf t" "ck_sem F t" "ck_collect_frame s t"
proof -
  define s1 where "s1 = ck_count (\<lambda>t. t\<lparr>cs_collections := cs_collections t + 1\<rparr>) s"
  obtain table s2 where s2: "collect_table (ck_clauses s1) s1 = (table, s2)" by fastforce
  define s3 where "s3 = s2\<lparr>ck_clauses := table\<rparr>"
  define s4 where "s4 = fold ck_flush_watcher (ck_literals_upto (ck_size_vars s3)) s3"
  have t: "t = (fold ck_free_clause (ck_garbage s4) s4)\<lparr>ck_garbage := []\<rparr>"
    using s2 by (simp add: t_def ck_collect_garbage_clauses_def s1_def s3_def s4_def Let_def)
  have "s1\<lparr>ck_clauses := [] @ ck_clauses s1\<rparr> = s1" by simp
  moreover have "ck_wf s1" "ck_sem F s1" using wf sem by (simp_all add: s1_def ck_sem_def)
  ultimately have "ck_wf (s1\<lparr>ck_clauses := [] @ ck_clauses s1\<rparr>)" "ck_sem F s1" by simp_all
  from collect_table_ok [OF this s2]
  have s3: "ck_wf s3" "ck_sem F s3" "ck_collect_frame s s3"
    by (auto simp: s3_def ck_sem_def s1_def ck_collect_frame_def)
  have "\<forall>l \<in> set (ck_literals_upto (ck_size_vars s3)). ck_lit_ok s3 l"
    by (simp add: set_ck_literals_upto ck_lit_ok_def)
  note s4 = ck_flush_all_ok [OF s3(1) this, folded s4_def]
  have ok: "ck_lit_ok s4 = ck_lit_ok s3" using s4 by (intro ck_lit_ok_cong) (simp add: ck_collect_frame_def)
  have "ck_deref s4 = ck_deref s3" using s4 by (simp add: ck_deref_def fun_eq_iff)
  then show "ck_wf t"
    unfolding t using s4
    by (intro ck_free_garbage_ok) (auto simp: ok set_ck_literals_upto ck_lit_ok_def)
  have tab: "ck_table_inv s4" using s4 by (simp add: ck_wf_def)
  have t': "t = s4\<lparr>ck_mem := ck_mem s4 |` (- set (ck_garbage s4)),
      ck_num_garbage := 0, ck_garbage := []\<rparr>"
    using fold_free_garbage [of "ck_garbage s4" s4] tab by (simp add: t ck_table_inv_def)
  show "ck_sem F t"
    using s3(2) s4 unfolding t' by (auto simp: ck_sem_def ck_collect_frame_def restrict_map_def split: if_splits)
  show "ck_collect_frame s t"
    using s3(3) s4 unfolding t' by (auto simp: ck_collect_frame_def)
qed

subsection \<open>Finding a clause\<close>

lemma fold_set_mark:
  "fold (\<lambda>lit. ck_set_mark lit b) ls s = s\<lparr>ck_marks := fold (\<lambda>l m. m[l2u l := b]) ls (ck_marks s)\<rparr>"
  by (induction ls arbitrary: s) (simp_all add: ck_set_mark_def)

text \<open>The walk stops at the end of the chain or at a clause with all its literals marked.\<close>

lemma find_chain_ok:
  assumes "find_chain x n as pos s = (p, t)"
  shows "\<exists>st. t = s\<lparr>ck_stats := st\<rparr>" and "pos \<le> p" and "p \<le> pos + length as"
    and "p < pos + length as \<Longrightarrow>
      cc_hash (ck_deref s (as ! (p - pos))) = x \<and> cc_size (ck_deref s (as ! (p - pos))) = n
      \<and> (\<forall>i < n. ck_mark s (cc_literals (ck_deref s (as ! (p - pos))) ! i))"
proof -
  have "(\<exists>st. t = s\<lparr>ck_stats := st\<rparr>) \<and> pos \<le> p \<and> p \<le> pos + length as \<and>
     (p < pos + length as \<longrightarrow>
      cc_hash (ck_deref s (as ! (p - pos))) = x \<and> cc_size (ck_deref s (as ! (p - pos))) = n
      \<and> (\<forall>i < n. ck_mark s (cc_literals (ck_deref s (as ! (p - pos))) ! i)))"
    using assms
  proof (induction as arbitrary: s pos)
    case Nil
    then show ?case by (auto intro: exI [of _ "ck_stats s"])
  next
    case (Cons a as)
    let ?c = "ck_deref s a"
    show ?case
    proof (cases "cc_hash ?c = x \<and> cc_size ?c = n \<and> (\<forall>i \<in> set [0..<n]. ck_mark s (cc_literals ?c ! i))")
      case True
      then show ?thesis using Cons.prems by (auto intro: exI [of _ "ck_stats s"])
    next
      case False
      let ?u = "ck_count (\<lambda>t. t\<lparr>cs_collisions := cs_collisions t + 1\<rparr>) s"
      have same: "ck_deref ?u = ck_deref s" "ck_mark ?u = ck_mark s"
        by (simp_all add: ck_deref_def ck_mark_def fun_eq_iff)
      have "find_chain x n as (pos + 1) ?u = (p, t)"
        using Cons.prems False by (simp add: Let_def del: set_upt split: if_splits)
      from Cons.IH [OF this, unfolded same]
      have ih: "\<exists>st. t = ?u\<lparr>ck_stats := st\<rparr>" "pos + 1 \<le> p" "p \<le> pos + 1 + length as"
        "p < pos + 1 + length as \<longrightarrow>
          cc_hash (ck_deref s (as ! (p - (pos + 1)))) = x \<and> cc_size (ck_deref s (as ! (p - (pos + 1)))) = n
          \<and> (\<forall>i < n. ck_mark s (cc_literals (ck_deref s (as ! (p - (pos + 1)))) ! i))"
        by auto
      have "(a # as) ! (p - pos) = as ! (p - (pos + 1))" using ih(2) by (simp add: nth_Cons')
      then show ?thesis using ih by (auto simp: ck_count_def)
    qed
  qed
  then show "\<exists>st. t = s\<lparr>ck_stats := st\<rparr>" "pos \<le> p" "p \<le> pos + length as"
    "p < pos + length as \<Longrightarrow>
      cc_hash (ck_deref s (as ! (p - pos))) = x \<and> cc_size (ck_deref s (as ! (p - pos))) = n
      \<and> (\<forall>i < n. ck_mark s (cc_literals (ck_deref s (as ! (p - pos))) ! i))" by blast+
qed

text \<open>The clause a link of \<open>find\<close> points to is the one looked for, literal by literal.\<close>

definition ck_link_ok :: "Checker \<Rightarrow> nat \<Rightarrow> nat \<Rightarrow> bool" where
  "ck_link_ok s h pos \<longleftrightarrow>
     (pos < length (ck_clauses s ! h) \<longrightarrow>
       set (cc_literals (ck_deref s (ck_clauses s ! h ! pos))) = set (ck_simplified s))"

lemma ck_find_ok:
  assumes wf: "ck_wf s" and simp: "ck_simple s (ck_simplified s)"
    and f: "ck_find s = Ok ((h, pos), t)"
  shows "\<exists>st x. t = s\<lparr>ck_stats := st, ck_last_hash := x\<rparr>"
    and "h < length (ck_clauses s)"
    and "ck_link_ok s h pos"
proof -
  define s1 where "s1 = ck_count (\<lambda>t. t\<lparr>cs_searches := Suc (cs_searches t)\<rparr>) s"
  obtain x s2 where s2: "ck_compute_hash s1 = (x, s2)" by fastforce
  have s2': "s2 = s1\<lparr>ck_last_hash := x\<rparr>" by (rule ck_compute_hash_fst [OF s2])
  have flds: "ck_simplified s2 = ck_simplified s" "ck_clauses s2 = ck_clauses s"
    "ck_size_clauses s2 = ck_size_clauses s" "ck_marks s2 = ck_marks s" "ck_mem s2 = ck_mem s"
    by (simp_all add: s2' s1_def)
  define m1 where "m1 = fold (\<lambda>l m. m[l2u l := True]) (ck_simplified s) (ck_marks s)"
  define s3 where "s3 = s2\<lparr>ck_marks := m1\<rparr>"
  obtain r where r: "reduce_hash x (ck_size_clauses s) = Some r"
    using f s2 by (auto simp: ck_find_def s1_def Let_def bind_outcome_Ok flds)
  obtain p s4 where s4: "find_chain x (length (ck_simplified s)) (ck_clauses s ! unat r) 0 s3 = (p, s4)"
    by fastforce
  note ch = find_chain_ok [OF s4]
  obtain st where st: "s4 = s3\<lparr>ck_stats := st\<rparr>" using ch(1) by blast
  have f3: "ck_simplified s4 = ck_simplified s" "ck_marks s4 = m1" "ck_clauses s3 = ck_clauses s"
    by (simp_all add: st s3_def flds)
  define m2 where "m2 = fold (\<lambda>l m. m[l2u l := False]) (ck_simplified s) m1"
  have eq: "h = unat r" "pos = p" "t = s4\<lparr>ck_marks := m2\<rparr>"
    using f s2 r s4 flds
    by (auto simp: ck_find_def s1_def [symmetric] fold_set_mark m1_def [symmetric] s3_def [symmetric]
        f3 m2_def [symmetric] Let_def)
  have clr: "ck_marks s = replicate (nat (2 * ck_size_vars s)) False"
    using wf by (simp add: ck_wf_def ck_watch_inv_def)
  have "m2 = ck_marks s"
    by (rule nth_equalityI) (simp_all add: m2_def m1_def nth_fold_marks clr)
  moreover have "t = s\<lparr>ck_marks := m2, ck_stats := st, ck_last_hash := x\<rparr>"
    by (simp add: eq st s3_def s2' s1_def ck_count_def)
  ultimately show "\<exists>st x. t = s\<lparr>ck_stats := st, ck_last_hash := x\<rparr>" by auto
  have "length (ck_clauses s) = unat (ck_size_clauses s)" using wf by (simp add: ck_wf_def ck_table_inv_def)
  moreover have "ck_size_clauses s \<noteq> 0" using r reduce_hash_zero [of x] by auto
  ultimately show h: "h < length (ck_clauses s)" using reduce_hash_bound [OF r] eq(1) by (simp add: word_less_nat_alt)
  show "ck_link_ok s h pos"
    unfolding ck_link_ok_def
  proof
    assume "pos < length (ck_clauses s ! h)"
    then have pos: "p < length (ck_clauses s ! h)" by (simp add: eq)
    let ?a = "ck_clauses s ! h ! p"
    let ?c = "ck_deref s ?a"
    have der: "ck_deref s3 = ck_deref s"
      by (simp_all add: s3_def ck_deref_def flds fun_eq_iff)
    have c: "cc_size ?c = length (ck_simplified s)"
      "\<And>i. i < length (ck_simplified s) \<Longrightarrow> ck_mark s3 (cc_literals ?c ! i)"
      using ch(4) pos by (simp_all add: eq der)
    have in_t: "?a \<in> set (concat (ck_clauses s))" using pos h nth_mem by fastforce
    then obtain c' where c': "ck_mem s ?a = Some c'" using ck_wf_mem_table [OF wf] by blast
    then have cok: "ck_clause_ok s ?c" using ck_wf_clause [OF wf] by (simp add: ck_deref_def)
    have "cc_size ?c \<noteq> 0" using wf in_t by (simp add: ck_wf_def ck_table_inv_def del: set_concat)
    then have len: "length (cc_literals ?c) = length (ck_simplified s)"
      using cok c(1) by (simp add: ck_clause_ok_def)
    have lenm: "length (ck_marks s) = nat (2 * ck_size_vars s)"
      by (simp add: clr)
    have "l \<in> set (ck_simplified s)" if l: "l \<in> set (cc_literals ?c)" for l
    proof -
      have ok: "ck_lit_ok s l" using cok l by (simp add: ck_clause_ok_def)
      then have b: "l2u l < length (ck_marks s)"
        using l2u_bound [of l "ck_size_vars s"] lenm by (simp add: ck_lit_ok_def)
      have "ck_mark s3 l" using c(2) l len by (metis in_set_conv_nth)
      then have "l2u l \<in> l2u ` set (ck_simplified s)"
        using b lenm by (auto simp: ck_mark_def s3_def m1_def nth_fold_marks clr split: if_splits)
      then obtain k where k: "k \<in> set (ck_simplified s)" "l2u l = l2u k" by blast
      moreover have "k \<noteq> 0" "l \<noteq> 0" using simp k(1) ok by (auto simp: ck_simple_def ck_lit_ok_def)
      ultimately show ?thesis using l2u_inj by metis
    qed
    then have sub: "set (cc_literals ?c) \<subseteq> set (ck_simplified s)" by blast
    have "distinct (cc_literals ?c)" using cok by (simp add: ck_clause_ok_def)
    then have "card (set (cc_literals ?c)) = length (ck_simplified s)" by (simp add: distinct_card len)
    then have "set (cc_literals ?c) = set (ck_simplified s)"
      using sub card_length [of "ck_simplified s"] by (intro card_seteq) auto
    then show "set (cc_literals (ck_deref s (ck_clauses s ! h ! pos))) = set (ck_simplified s)"
      by (simp add: eq(2))
  qed
qed

subsection \<open>Deleting a clause\<close>

text \<open>The last part of \<open>delete_clause\<close>: unlink, mark, maybe collect.\<close>

definition ck_unlink :: "nat \<Rightarrow> nat \<Rightarrow> Checker \<Rightarrow> Checker outcome" where
  "ck_unlink h pos s =
     (let chain = ck_clauses s ! h in
      if pos < length chain then
        (let s = ck_retire (chain ! pos) ((ck_clauses s)[h := remove_nth pos chain]) s
         in Ok (if 2 * unat (ck_num_garbage s) > max (unat (ck_size_clauses s)) (nat (ck_size_vars s))
                then ck_collect_garbage_clauses s else s))
      else Fatal ''deleted clause not in proof:'')"

lemma ck_unlink_ok:
  assumes wf: "ck_wf s" and sem: "ck_sem F s" and h: "h < length (ck_clauses s)" and u: "ck_unlink h pos s = Ok t"
  shows "ck_wf t" "ck_sem F t" "ck_collect_frame s t"
proof -
  let ?chain = "ck_clauses s ! h"
  let ?a = "?chain ! pos"
  let ?r = "ck_retire ?a ((ck_clauses s)[h := remove_nth pos ?chain]) s"
  have pos: "pos < length ?chain" using u by (simp add: ck_unlink_def Let_def split: if_splits)
  have in_t: "?a \<in> set (concat (ck_clauses s))" using pos h nth_mem by fastforce
  have r: "ck_wf ?r"
  proof (rule ck_wf_retire [OF wf])
    show "mset (concat (ck_clauses s)) = add_mset ?a (mset (concat ((ck_clauses s)[h := remove_nth pos ?chain])))"
      by (rule mset_concat_update [OF h mset_remove_nth [OF pos]])
    show "\<And>i x. i < length ((ck_clauses s)[h := remove_nth pos ?chain]) \<Longrightarrow>
        x \<in> set ((ck_clauses s)[h := remove_nth pos ?chain] ! i) \<Longrightarrow> x \<in> set (ck_clauses s ! i)"
      using set_remove_nth [of pos ?chain] h by (auto simp: nth_list_update split: if_splits)
  qed simp
  have rs: "ck_sem F ?r" by (rule ck_sem_retire [OF sem ck_wf_mem_table [OF wf in_t]])
  have fr: "ck_collect_frame s ?r" by (simp add: ck_collect_frame_def)
  have "t = ?r \<or> t = ck_collect_garbage_clauses ?r"
    using u pos by (auto simp: ck_unlink_def Let_def split: if_splits)
  then show "ck_wf t" "ck_sem F t" "ck_collect_frame s t"
    using r rs fr ck_collect_garbage_ok [OF r rs] ck_collect_frame_trans [OF fr] by auto
qed

lemma ck_delete_split:
  assumes "\<not> ck_inconsistent s"
    and "ck_tautological ((ck_import_clause c (ck_count (\<lambda>t. t\<lparr>cs_deleted := cs_deleted t + 1\<rparr>) s))\<lparr>ck_last_id := i\<rparr>)
      = (taut, u)"
  shows "ck_delete_clause i c s = bind_outcome
    (if taut then Ok u else bind_outcome (ck_find u) (\<lambda>((h, pos), s). ck_unlink h pos s)) (\<lambda>s. Ok (ck_clear s))"
proof -
  have "ck_deref (s\<lparr>ck_num_garbage := n, ck_num_clauses := k, ck_clauses := table, ck_garbage := g\<rparr>) d
      = ck_deref s d" for s table g n k d
    by (simp add: ck_deref_def)
  then show ?thesis
    using assms by (simp add: ck_delete_clause_def ck_unlink_def ck_retire_def Let_def cong: if_cong)
qed

lemma ck_delete_ok:
  assumes inv: "ck_inv F s" and c: "valid_clause c" and d: "ck_delete_clause i c s = Ok t"
  shows "ck_inv F t"
proof (cases "ck_inconsistent s")
  case True
  then show ?thesis using inv d by (simp add: ck_delete_clause_def)
next
  case False
  let ?f = "\<lambda>t. t\<lparr>cs_deleted := cs_deleted t + 1\<rparr>"
  obtain taut u where u: "ck_tautological ((ck_import_clause c (ck_count ?f s))\<lparr>ck_last_id := i\<rparr>) = (taut, u)"
    by fastforce
  note p = ck_prologue [OF inv False c u]
  note eq = ck_delete_split [OF False u]
  show ?thesis
  proof (cases taut)
    case True
    then show ?thesis using eq d ck_inv_clear [OF p(1,2)] p(3,4) by auto
  next
    case nt: False
    have "bind_outcome (bind_outcome (ck_find u) (\<lambda>((h, pos), s). ck_unlink h pos s))
        (\<lambda>s. Ok (ck_clear s)) = Ok t"
      using eq d nt by simp
    then obtain h pos v w where v: "ck_find u = Ok ((h, pos), v)" "ck_unlink h pos v = Ok w" "t = ck_clear w"
      by (auto simp: bind_outcome_Ok)
    have simp: "ck_simple u (ck_simplified u)" using p(7) nt by simp
    note fo = ck_find_ok [OF p(1) simp v(1)]
    obtain st x where vx: "v = u\<lparr>ck_stats := st, ck_last_hash := x\<rparr>"
      using fo(1) by blast
    have vwf: "ck_wf v" by (rule ck_wf_cong [OF p(1)]) (use ck_wf_next [OF p(1)] vx in simp_all)
    have vsem: "ck_sem F v" using p(2) by (simp add: vx ck_sem_def)
    have "h < length (ck_clauses v)" using fo(2) by (simp add: vx)
    note w = ck_unlink_ok [OF vwf vsem this v(2)]
    show ?thesis unfolding v(3)
      by (rule ck_inv_clear [OF w(1,2)]) (use w(3) p(3,4) in \<open>simp_all add: ck_collect_frame_def vx\<close>)
  qed
qed

text \<open>A deletion that succeeds removes a clause with exactly the given literals from the table.\<close>

lemma ck_collect_table_subset:
  "collect_chain as s = (kept, t) \<Longrightarrow> set kept \<subseteq> set as"
  by (induction as arbitrary: s kept) (fastforce simp: Let_def split: if_splits prod.splits)+

lemma collect_table_subset:
  "collect_table bs s = (kept, t) \<Longrightarrow> set (concat kept) \<subseteq> set (concat bs)"
proof (induction bs arbitrary: s kept)
  case (Cons b bs)
  obtain k u where u: "collect_chain b s = (k, u)" by fastforce
  with Cons.prems obtain ks where "collect_table bs u = (ks, t)" "kept = k # ks"
    by (auto split: prod.splits)
  with Cons.IH [of u ks] ck_collect_table_subset [OF u] show ?case by auto
qed auto

lemma fold_flush_clauses [simp]: "ck_clauses (fold ck_flush_watcher ls s) = ck_clauses s"
  by (induction ls arbitrary: s) (simp_all add: ck_flush_watcher_def)

lemma fold_free_clauses [simp]: "ck_clauses (fold ck_free_clause g s) = ck_clauses s"
  by (induction g arbitrary: s) (simp_all add: ck_free_clause_def)

lemma ck_collect_garbage_subset:
  "set (concat (ck_clauses (ck_collect_garbage_clauses s))) \<subseteq> set (concat (ck_clauses s))"
proof -
  define s1 where "s1 = ck_count (\<lambda>t. t\<lparr>cs_collections := cs_collections t + 1\<rparr>) s"
  obtain table s2 where s2: "collect_table (ck_clauses s1) s1 = (table, s2)" by fastforce
  have "ck_clauses (ck_collect_garbage_clauses s) = table"
    using s2 by (simp add: ck_collect_garbage_clauses_def s1_def Let_def)
  then show ?thesis using collect_table_subset [OF s2] by (simp add: s1_def)
qed

text \<open>Which clauses \<open>tautological\<close> stops at, seen from the checker before the call.\<close>

lemma ck_trivial:
  assumes inv: "ck_inv F s" and c: "valid_clause c"
    and u: "ck_tautological ((ck_import_clause c (ck_count f s))\<lparr>ck_last_id := i\<rparr>) = (taut, u)" and ok: "\<not> ck_inconsistent s"
  shows "taut \<longleftrightarrow> (\<exists>l \<in> set c. - l \<in> set c \<or> 0 < ck_val s l)"
    and "ck_clauses u = ck_clauses s" "ck_mem u = ck_mem s"
proof -
  let ?u = "ck_import_clause c (ck_count f s)"
  let ?v = "?u\<lparr>ck_last_id := i\<rparr>"
  have nz: "0 \<notin> set c" using c by (auto simp: valid_clause_def)
  have s: "ck_wf s" "ck_simplified s = []" using inv ok by (auto simp: ck_inv_def)
  have "ck_wf (ck_count f s)" using s(1) by simp
  from ck_import_clause [OF this nz] s(2)
  have im: "ck_wf ?u" "ck_import_frame (ck_count f s) ?u" "ck_simplified ?v = c" by auto
  have fr: "u = ?v\<lparr>ck_simplified := ck_simplified u\<rparr>" by (rule ck_tautological_frame [OF u])
  have "ck_clauses u = ck_clauses ?v" "ck_mem u = ck_mem ?v" by (subst fr, simp)+
  then show "ck_clauses u = ck_clauses s" "ck_mem u = ck_mem s" using im(2) by (simp_all add: ck_import_frame_def)
  have v: "ck_val ?v l = ck_val s l" for l
  proof -
    have "ck_val ?v l = ck_val ?u l" by (simp add: ck_val_def)
    also have "\<dots> = ck_val s l"
      using im(2) by (simp add: ck_wf_vals [OF im(1)] ck_wf_vals [OF s(1)] ck_import_frame_def)
    finally show ?thesis .
  qed
  show "taut \<longleftrightarrow> (\<exists>l \<in> set c. - l \<in> set c \<or> 0 < ck_val s l)"
  proof (cases taut)
    case True
    let ?x = "sort_literals c"
    have "fst (taut_loop (ck_val ?v) ?x 0 [] ?x)"
      using u True im(3) by (simp add: ck_tautological_def Let_def split: prod.splits)
    then obtain r where "taut_loop (ck_val ?v) ?x 0 [] ?x = (True, r)" by (metis (full_types) prod.collapse)
    from taut_loop_True [OF this] nz show ?thesis using True by (auto simp: v)
  next
    case False
    then have "ck_tautological ?v = (False, u)" "0 \<notin> set (ck_simplified ?v)" using u im(3) nz by simp_all
    note x = ck_tautological_False [OF this, unfolded im(3) v]
    have "- l \<notin> set c" if l: "l \<in> set c" for l
    proof
      assume "- l \<in> set c"
      then have "- l = l" using x(1,2) l by (metis abs_minus_cancel distinct_map inj_onD)
      then show False using l nz by simp
    qed
    moreover have "ck_val s l \<le> 0" if "l \<in> set c" for l using x(1) x(3) [of l] that by simp
    ultimately show ?thesis using False by (meson not_less)
  qed
qed

lemma ck_delete_removes:
  assumes inv: "ck_inv F s" and ok: "\<not> ck_inconsistent s" and c: "valid_clause c"
    and d: "ck_delete_clause i c s = Ok t"
    and nt: "\<not> fst (ck_tautological ((ck_import_clause c (ck_count (\<lambda>t. t\<lparr>cs_deleted := cs_deleted t + 1\<rparr>) s))
      \<lparr>ck_last_id := i\<rparr>))"
  shows "\<exists>a \<in> set (concat (ck_clauses s)). set (cc_literals (ck_deref s a)) = set c
    \<and> set (concat (ck_clauses t)) \<subseteq> set (concat (ck_clauses s)) - {a}"
proof -
  let ?v = "(ck_import_clause c (ck_count (\<lambda>t. t\<lparr>cs_deleted := cs_deleted t + 1\<rparr>) s))\<lparr>ck_last_id := i\<rparr>"
  obtain u where u: "ck_tautological ?v = (False, u)" using nt by (cases "ck_tautological ?v") auto
  note p = ck_prologue [OF inv ok c u]
  have "bind_outcome (bind_outcome (ck_find u) (\<lambda>((h, pos), s). ck_unlink h pos s))
      (\<lambda>s. Ok (ck_clear s)) = Ok t"
    using ck_delete_split [OF ok u] d by simp
  then obtain h pos v w where v: "ck_find u = Ok ((h, pos), v)" "ck_unlink h pos v = Ok w" "t = ck_clear w"
    by (auto simp: bind_outcome_Ok)
  have "ck_simple u (ck_simplified u)" using p(7) by simp
  note fo = ck_find_ok [OF p(1) this v(1)]
  obtain st x where vx: "v = u\<lparr>ck_stats := st, ck_last_hash := x\<rparr>" using fo(1) by blast
  have "0 \<notin> set c" "ck_wf (ck_count (\<lambda>t. t\<lparr>cs_deleted := cs_deleted t + 1\<rparr>) s)"
    using c inv by (auto simp: valid_clause_def ck_inv_def)
  then have imp: "ck_clauses ?v = ck_clauses s" "ck_mem ?v = ck_mem s"
    using ck_import_clause by (auto simp: ck_import_frame_def)
  have "u = ?v\<lparr>ck_simplified := ck_simplified u\<rparr>" by (rule ck_tautological_frame [OF u])
  then have us: "ck_clauses u = ck_clauses s" "ck_deref u = ck_deref s"
    using imp by (metis (no_types, lifting) Checker.select_convs(9) Checker.surjective Checker.update_convs(12),
      metis (no_types, lifting) Checker.select_convs(19) Checker.surjective Checker.update_convs(12) ck_deref_def ext)
  let ?chain = "ck_clauses s ! h"
  let ?a = "?chain ! pos"
  have pos: "pos < length ?chain"
    using v(2) by (auto simp: ck_unlink_def Let_def vx us split: if_splits)
  have h: "h < length (ck_clauses s)" using fo(2) us by simp
  have in_t: "?a \<in> set (concat (ck_clauses s))" using pos h nth_mem by fastforce
  have lits: "set (cc_literals (ck_deref s ?a)) = set c"
    using fo(3) pos p(7) by (simp add: ck_link_ok_def us)
  let ?table = "(ck_clauses s)[h := remove_nth pos ?chain]"
  have m: "mset (concat (ck_clauses s)) = add_mset ?a (mset (concat ?table))"
    by (rule mset_concat_update [OF h mset_remove_nth [OF pos]])
  have "distinct (concat (ck_clauses s))" using inv by (simp add: ck_inv_def ck_wf_def ck_table_inv_def)
  moreover have m': "mset (concat (ck_clauses s)) = mset (?a # concat ?table)" using m by simp
  ultimately have "distinct (?a # concat ?table)" using mset_eq_imp_distinct_iff [OF m'] by blast
  then have "set (concat ?table) = set (concat (ck_clauses s)) - {?a}"
    using mset_eq_setD [OF m'] by (simp del: set_concat)
  moreover have "set (concat (ck_clauses w)) \<subseteq> set (concat ?table)"
    using v(2) pos ck_collect_garbage_subset [of "ck_retire ?a ?table v"]
    by (auto simp: ck_unlink_def Let_def vx us simp del: set_concat split: if_splits)
  ultimately show ?thesis
    using in_t lits v(3) by (intro bexI [of _ ?a]) (simp_all add: ck_clear_def del: set_concat)
qed

text \<open>The three ways a deletion can go.\<close>

lemma ck_delete_exact:
  assumes inv: "ck_inv F s" and c: "valid_clause c" and d: "ck_delete_clause i c s = Ok t"
  shows "if ck_inconsistent s then t = s
    else if \<exists>l \<in> set c. - l \<in> set c \<or> 0 < ck_val s l then ck_clauses t = ck_clauses s \<and> ck_mem t = ck_mem s
    else \<exists>a \<in> set (concat (ck_clauses s)). set (cc_literals (ck_deref s a)) = set c
       \<and> set (concat (ck_clauses t)) \<subseteq> set (concat (ck_clauses s)) - {a}"
proof (cases "ck_inconsistent s")
  case True
  then show ?thesis using d by (simp add: ck_delete_clause_def)
next
  case ok: False
  obtain taut u where u: "ck_tautological ((ck_import_clause c (ck_count (\<lambda>t. t\<lparr>cs_deleted := cs_deleted t + 1\<rparr>) s))
      \<lparr>ck_last_id := i\<rparr>) = (taut, u)" by fastforce
  note tr = ck_trivial [OF inv c u ok]
  show ?thesis
  proof (cases taut)
    case True
    then have "t = ck_clear u" using ck_delete_split [OF ok u] d by simp
    then show ?thesis using True tr ok by (simp add: ck_clear_def)
  next
    case False
    then show ?thesis using ck_delete_removes [OF inv ok c d] u tr(1) ok by simp
  qed
qed

text \<open>With no clause ever inserted the table is empty and \<open>find\<close> never returns.\<close>

lemma ck_delete_empty_diverges:
  assumes inv: "ck_inv F s" and ok: "\<not> ck_inconsistent s" and c: "valid_clause c"
    and empty: "ck_size_clauses s = 0"
    and nt: "\<not> fst (ck_tautological ((ck_import_clause c (ck_count (\<lambda>t. t\<lparr>cs_deleted := cs_deleted t + 1\<rparr>) s))
      \<lparr>ck_last_id := i\<rparr>))"
  shows "ck_delete_clause i c s = Diverge"
proof -
  let ?v = "(ck_import_clause c (ck_count (\<lambda>t. t\<lparr>cs_deleted := cs_deleted t + 1\<rparr>) s))\<lparr>ck_last_id := i\<rparr>"
  obtain u where u: "ck_tautological ?v = (False, u)" using nt by (cases "ck_tautological ?v") auto
  have "ck_size_clauses u = 0" using ck_prologue(5) [OF inv ok c u] empty by simp
  then have "ck_find u = Diverge"
    by (simp add: ck_find_def ck_compute_hash_def reduce_hash_zero Let_def)
  then show ?thesis using ck_delete_split [OF ok u] by simp
qed

subsection \<open>The destructor\<close>

text \<open>Freeing live clauses: the mirror image of \<open>fold_free_garbage\<close>.\<close>

lemma fold_free_live:
  assumes "distinct g" "\<forall>a \<in> set g. cc_size (ck_deref s a) \<noteq> 0"
  shows "fold ck_free_clause g s =
    s\<lparr>ck_mem := ck_mem s |` (- set g), ck_num_clauses := ck_num_clauses s - of_nat (length g)\<rparr>"
  using assms
proof (induction g arbitrary: s)
  case Nil
  have "ck_mem s |` (- set []) = ck_mem s" by (simp add: restrict_map_def)
  then show ?case by simp
next
  case (Cons a g)
  let ?u = "ck_free_clause a s"
  have u: "?u = s\<lparr>ck_mem := (ck_mem s)(a := None), ck_num_clauses := ck_num_clauses s - 1\<rparr>"
    using Cons.prems(2) by (simp add: ck_free_clause_def)
  have "\<forall>b \<in> set g. cc_size (ck_deref ?u b) \<noteq> 0"
    using Cons.prems by (auto simp: u ck_deref_def)
  from Cons.IH [OF _ this] Cons.prems(1) show ?case
    by (simp add: u restrict_map_def fun_eq_iff)
qed

lemma ck_destroy_frees:
  assumes wf: "ck_wf s"
  shows "ck_mem (ck_destroy s) = Map.empty" "ck_num_clauses (ck_destroy s) = 0"
    "ck_num_garbage (ck_destroy s) = 0"
proof -
  have tab: "ck_table_inv s" using wf by (simp add: ck_wf_def)
  let ?u = "fold ck_free_clause (concat (ck_clauses s)) s"
  have u: "?u = s\<lparr>ck_mem := ck_mem s |` (- set (concat (ck_clauses s))), ck_num_clauses := 0\<rparr>"
    using fold_free_live [of "concat (ck_clauses s)" s] tab by (simp add: ck_table_inv_def del: set_concat)
  have "\<forall>a \<in> set (ck_garbage s). cc_size (ck_deref ?u a) = 0"
    using tab by (auto simp: u ck_table_inv_def ck_deref_def restrict_map_def simp del: set_concat)
  then have d: "ck_destroy s = ?u\<lparr>ck_mem := ck_mem ?u |` (- set (ck_garbage s)),
      ck_num_garbage := ck_num_garbage ?u - of_nat (length (ck_garbage s))\<rparr>"
    using fold_free_garbage [of "ck_garbage s" ?u] tab by (simp add: ck_destroy_def ck_table_inv_def)
  have "ck_mem s a = None" if "a \<notin> set (concat (ck_clauses s))" "a \<notin> set (ck_garbage s)" for a
    using that tab by (auto simp: ck_table_inv_def domIff simp del: set_concat)
  then show "ck_mem (ck_destroy s) = Map.empty"
    by (auto simp: d u restrict_map_def fun_eq_iff simp del: set_concat)
  show "ck_num_clauses (ck_destroy s) = 0" "ck_num_garbage (ck_destroy s) = 0"
    using tab by (simp_all add: d u ck_table_inv_def)
qed

subsection \<open>The checker as a proof checker\<close>

interpretation ck: proof_checker ck_inv ck_init ck_add_original_clause ck_add_derived_clause ck_delete_clause
proof unfold_locales
  show "ck_inv {} ck_init" by (rule ck_inv_init)
qed (use ck_add_original_ok(1) ck_add_derived_ok(1) ck_delete_ok in blast)+

lemma ck_add_assumption_ok:
  assumes inv: "ck_inv F s" and c: "valid_clause c" and a: "ck_add_assumption_clause i c s = Ok t"
  shows "entails F c" "ck_inv F t"
proof -
  obtain u where "ck_add_derived_clause i c s = Ok u" "ck_delete_clause i c u = Ok t"
    using a by (auto simp: ck_add_assumption_clause_def bind_outcome_Ok)
  then show "entails F c" "ck_inv F t"
    using ck.check_derived [OF inv c] ck.inv_derived [OF inv c] ck.inv_delete c by blast+
qed

end
