(* ===== verification/Checker_Main.thy ===== *)
theory Checker_Main
  imports Checker_Delete
begin

text \<open>
  What the online DRUP checker guarantees: the soundness of whole accepted proofs, the total
  correctness of propagation and of every entry point, the exact effect of deletion, and the
  memory discipline.  A small accepted refutation, run in the kernel, serves as the running
  example.
\<close>

subsection \<open>A concrete proof\<close>

definition the_ok :: "'a \<Rightarrow> 'a outcome \<Rightarrow> 'a" where
  "the_ok d r = (case r of Ok x \<Rightarrow> x | _ \<Rightarrow> d)"

definition ck_run :: "64 word proof_step list \<Rightarrow> Checker \<Rightarrow> Checker outcome" where
  "ck_run = run_proof ck_add_original_clause ck_add_derived_clause ck_delete_clause"

definition demo_originals :: "64 word proof_step list" where
  "demo_originals = [Original 1 [1, 2], Original 2 [1, - 2]]"

definition demo_rest :: "64 word proof_step list" where
  "demo_rest = [Derived 3 [1], Original 4 [- 1, 3], Original 5 [- 1, - 3], Derived 6 []]"

definition ck_demo :: Checker where
  "ck_demo = the_ok ck_init (ck_run demo_originals ck_init)"

lemmas ck_eval_defs = ck_add_original_clause_def ck_add_derived_clause_def ck_delete_clause_def
  ck_clear_def ck_add_clause_def ck_check_def ck_propagate.simps ck_backtrack_def ck_unassign_def
  ck_assume_def ck_assign_def ck_insert_def ck_find_def ck_compute_hash_def ck_tautological_def
  sort_literals_def ck_import_clause_def ck_import_literal_def ck_enlarge_vars_def ck_init_def
  ck_collect_garbage_clauses_def ck_flush_watcher_def ck_literals_upto_def ck_clause_satisfied_def
  ck_enlarge_clauses_def ck_free_clause_def ck_new_clause_def watch_swap_def new_watch_def
  ck_count_def ck_store_def ck_deref_def ck_push_watch_def ck_set_watcher_def ck_watcher_def
  ck_set_mark_def ck_mark_def ck_val_def hash_eval eval_simps

lemma ck_demo_run:
  "ck_run demo_originals ck_init = Ok ck_demo"
  "\<not> ck_inconsistent ck_demo" "ck_size_vars ck_demo = 4" "ck_trail ck_demo = []"
  "ck_size_clauses ck_demo = 2"
  by (simp_all add: ck_demo_def the_ok_def ck_run_def demo_originals_def ck_eval_defs cong: eval_congs)

lemma ck_demo_refuted:
  "\<exists>t. ck_run (demo_originals @ demo_rest) ck_init = Ok t \<and> ck_inconsistent t"
  by (simp add: ck_run_def demo_originals_def demo_rest_def ck_eval_defs cong: eval_congs)

lemma ck_demo_inv: "ck_inv {[1, 2], [1, - 2]} ck_demo"
  using ck.run_invariant [OF ck_inv_init _ ck_demo_run(1) [unfolded ck_run_def]]
  by (simp add: demo_originals_def valid_clause_def)

subsection \<open>Accepted proofs\<close>

text \<open>
  C1: when the checker accepts a whole sequence of original, derived and deleted clauses, every
  derived clause follows from the original ones, and a checker that became inconsistent has seen
  an unsatisfiable formula; in particular an accepted derivation of the empty clause is a
  refutation.
\<close>

theorem checker_accepted_proof_sound:
  assumes "valid_steps steps" and "ck_run steps ck_init = Ok t"
  shows "(\<forall>c \<in> derived steps. entails (originals steps) c)
    \<and> (ck_inconsistent t \<or> [] \<in> derived steps \<longrightarrow> unsat (originals steps))"
  using ck.run_invariant [OF ck_inv_init assms(1) assms(2) [unfolded ck_run_def]]
    ck.run_refutation [OF assms(1) assms(2) [unfolded ck_run_def]]
  by (auto simp: ck_inv_def)

theorem checker_accepted_proof_sound_witness:
  "unsat {[1, 2], [1, - 2], [- 1, 3], [- 1, - 3 :: int]}"
proof -
  obtain t where t: "ck_run (demo_originals @ demo_rest) ck_init = Ok t"
    using ck_demo_refuted by blast
  show ?thesis
    using checker_accepted_proof_sound [OF _ t]
    by (simp add: demo_originals_def demo_rest_def valid_clause_def insert_commute)
qed

text \<open>
  C18: the watched-literal propagation always ends.  It keeps the data structure invariant and
  implied clauses implied, changes nothing but the trail, the order of literals and the watches,
  reports a conflict only when the formula is contradictory, and otherwise has propagated the
  whole trail.
\<close>

theorem checker_propagate_total:
  assumes "ck_wf s" and "ck_sem F s"
  shows "\<exists>res t. ck_propagate s = Some (res, t) \<and> ck_wf t \<and> ck_sem F t \<and> ck_prop_frame s t
     \<and> (\<not> res \<longrightarrow> unsat F) \<and> (res \<longrightarrow> ck_next_to_propagate t = length (ck_trail t))"
  using assms by (rule ck_propagate_ok)

lemma ck_demo_assumed:
  "ck_wf (ck_assign (- 1) ck_demo)" "ck_sem {[1, 2], [1, - 2], [- 1]} (ck_assign (- 1) ck_demo)"
proof -
  have inv: "ck_wf ck_demo" "ck_sem {[1, 2], [1, - 2]} ck_demo"
    using ck_demo_inv by (simp_all add: ck_inv_def)
  have "ck_val ck_demo (- 1) = 0"
    using ck_demo_run(4) by (simp add: ck_wf_vals [OF inv(1)] trail_val_def)
  then show "ck_wf (ck_assign (- 1) ck_demo)"
    by (intro ck_wf_assign inv(1)) (simp_all add: ck_lit_ok_def ck_demo_run)
  have "ck_sem {[1, 2], [1, - 2], [- 1]} ck_demo" by (rule ck_sem_mono [OF inv(2)]) auto
  moreover have "entails {[1, 2], [1, - 2], [- 1]} [- 1]" by (rule entails_member) simp
  ultimately show "ck_sem {[1, 2], [1, - 2], [- 1]} (ck_assign (- 1) ck_demo)"
    by (simp add: ck_sem_def ck_assign_def)
qed

theorem checker_propagate_total_witness:
  "\<exists>t. ck_propagate (ck_assign (- 1) ck_demo) = Some (False, t)
     \<and> unsat {[1, 2], [1, - 2], [- 1 :: int]}"
proof -
  have "\<exists>t. ck_propagate (ck_assign (- 1) ck_demo) = Some (False, t)"
    by (simp add: ck_demo_def the_ok_def ck_run_def demo_originals_def ck_eval_defs cong: eval_congs)
  then show ?thesis using checker_propagate_total [OF ck_demo_assumed] by auto
qed

text \<open>
  C29: adding an original clause or a derived clause ends, as long as the hash table can still be
  doubled within 64 bits: an original clause is always taken, a derived one is taken or reported
  as not implied.
\<close>

theorem checker_add_returns:
  assumes "ck_inv F s" and "valid_clause c" and "ck_room s"
  shows "(\<exists>t. ck_add_original_clause i c s = Ok t \<and> ck_inv (insert c F) t)
    \<and> ((\<exists>t. ck_add_derived_clause i c s = Ok t \<and> ck_inv F t \<and> entails F c)
       \<or> ck_add_derived_clause i c s = Fatal ''failed to check derived clause:'')"
  using ck_add_original_ok [OF assms(1,2)] ck_add_derived_ok [OF assms(1,2)] assms(3) by blast

theorem checker_add_returns_witness:
  "(\<exists>t. ck_add_derived_clause 3 [1] ck_demo = Ok t) \<and> entails {[1, 2], [1, - 2]} [1 :: int]
   \<and> ck_add_derived_clause 3 [2] ck_demo = Fatal ''failed to check derived clause:''"
proof -
  have room: "ck_room ck_demo" by (simp add: ck_room_def ck_demo_run)
  have d: "\<exists>t. ck_add_derived_clause 3 [1] ck_demo = Ok t"
    "\<nexists>t. ck_add_derived_clause 3 [2] ck_demo = Ok t"
    by (simp_all add: ck_demo_def the_ok_def ck_run_def demo_originals_def ck_eval_defs cong: eval_congs)
  have "valid_clause [1]" "valid_clause [2]" by (simp_all add: valid_clause_def)
  from checker_add_returns [OF ck_demo_inv this(1) room, of 3]
    checker_add_returns [OF ck_demo_inv this(2) room, of 3] d
  show ?thesis by fastforce
qed



text \<open>
  C5: deleting a clause before any clause was put into the hash table never returns: the bucket
  of a hash value is searched for in a table of size zero.
\<close>

theorem checker_delete_empty_diverges:
  assumes "ck_inv F s" and "\<not> ck_inconsistent s" and "valid_clause c"
    and "ck_size_clauses s = 0"
    and "\<not> fst (ck_tautological ((ck_import_clause c (ck_count (\<lambda>t. t\<lparr>cs_deleted := cs_deleted t + 1\<rparr>) s))
      \<lparr>ck_last_id := i\<rparr>))"
  shows "ck_delete_clause i c s = Diverge"
  using assms by (rule ck_delete_empty_diverges)

theorem checker_delete_empty_diverges_witness: "ck_delete_clause 1 [1, 2] ck_init = Diverge"
proof (rule checker_delete_empty_diverges [OF ck_inv_init])
  show "\<not> fst (ck_tautological ((ck_import_clause [1, 2]
      (ck_count (\<lambda>t. t\<lparr>cs_deleted := cs_deleted t + 1\<rparr>) ck_init))\<lparr>ck_last_id := 1\<rparr>))"
    by (simp add: ck_eval_defs cong: eval_congs)
qed (simp_all add: ck_init_def valid_clause_def)

text \<open>
  C6: memory discipline.  Garbage collection keeps the invariant, the trail and the consistency
  flag, and leaves no garbage behind; destroying the checker frees every clause it allocated
  exactly once, so both clause counters end at zero.
\<close>

theorem checker_memory:
  assumes "ck_wf s" and "ck_sem F s"
  shows "ck_wf (ck_collect_garbage_clauses s) \<and> ck_sem F (ck_collect_garbage_clauses s)
    \<and> ck_collect_frame s (ck_collect_garbage_clauses s)
    \<and> ck_garbage (ck_collect_garbage_clauses s) = []
    \<and> ck_num_garbage (ck_collect_garbage_clauses s) = 0
    \<and> ck_mem (ck_destroy s) = Map.empty \<and> ck_num_clauses (ck_destroy s) = 0
    \<and> ck_num_garbage (ck_destroy s) = 0"
proof -
  let ?t = "ck_collect_garbage_clauses s"
  have t: "ck_wf ?t" "ck_sem F ?t" "ck_collect_frame s ?t"
    using ck_collect_garbage_ok [OF assms] by blast+
  have "ck_garbage ?t = []" by (simp add: ck_collect_garbage_clauses_def Let_def split: prod.splits)
  moreover from this have "ck_num_garbage ?t = 0" using t(1) by (simp add: ck_wf_def ck_table_inv_def)
  ultimately show ?thesis using t ck_destroy_frees [OF assms(1)] by blast
qed

theorem checker_memory_witness: "ck_mem ck_demo \<noteq> Map.empty \<and> ck_mem (ck_destroy ck_demo) = Map.empty"
proof -
  have inv: "ck_wf ck_demo" "ck_sem {[1, 2], [1, - 2]} ck_demo"
    using ck_demo_inv by (simp_all add: ck_inv_def)
  have "ck_mem ck_demo 0 \<noteq> None"
    by (simp add: ck_demo_def the_ok_def ck_run_def demo_originals_def ck_eval_defs cong: eval_congs)
  then show ?thesis using checker_memory [OF inv] by auto
qed

end
