(* ===== verification/Lrat_Checker.thy ===== *)
theory Lrat_Checker
  imports Hash_Table
begin

text \<open>
  The online LRAT checker of \<^verbatim>\<open>lratchecker.hpp\<close> and \<^verbatim>\<open>lratchecker.cpp\<close>: every derived
  clause comes with the identifiers of the clauses that refute its negation by unit propagation,
  in order.

  Clause objects belong to exactly one collision chain or to the garbage list, so the table holds
  the objects themselves; a pointer to a link (\<^verbatim>\<open>LratCheckerClause **\<close>) is a bucket and a
  position on its chain, and dereferences to null at the end of the chain.  The one assertion
  whose failure would dereference null is a \<open>Fatal\<close> branch.  Logging and profiling are left out.
\<close>

subsection \<open>Data\<close>

record LratCheckerClause =
  lc_hash :: "64 word"
  lc_id :: "64 word"
  lc_garbage :: bool
  lc_size :: nat
  lc_used :: bool
  lc_tautological :: bool
  lc_literals :: "int list"

datatype ConclusionType = CONFLICT | ASSUMPTIONS | CONSTRAINT

record lrat_stats =
  ls_added :: nat
  ls_original :: nat
  ls_derived :: nat
  ls_deleted :: nat
  ls_finalized :: nat
  ls_insertions :: nat
  ls_collisions :: nat
  ls_searches :: nat
  ls_checks :: nat
  ls_collections :: nat

record LratChecker =
  lr_size_vars :: int
  lr_strict_lrat :: bool
  lr_checked_lits :: "bool list"
  lr_marks :: "bool list"
  lr_clauses_to_reconstruct :: "64 word \<rightharpoonup> int list"
  lr_assumptions :: "int list"
  lr_constraint :: "int list"
  lr_concluded :: bool
  lr_num_clauses :: "64 word"
  lr_num_finalized :: "64 word"
  lr_num_garbage :: "64 word"
  lr_size_clauses :: "64 word"
  lr_clauses :: "LratCheckerClause list list"
  lr_garbage :: "LratCheckerClause list"
  lr_imported_clause :: "int list"
  lr_assumption_clauses :: "64 word list"
  lr_nonces :: "64 word list"
  lr_last_hash :: "64 word"
  lr_last_id :: "64 word"
  lr_current_id :: "64 word"
  lr_stats :: lrat_stats

definition lr_count :: "(lrat_stats \<Rightarrow> lrat_stats) \<Rightarrow> LratChecker \<Rightarrow> LratChecker" where
  "lr_count f s = s\<lparr>lr_stats := f (lr_stats s)\<rparr>"

subsection \<open>Access by literal and by link\<close>

definition lr_mark :: "LratChecker \<Rightarrow> int \<Rightarrow> bool" where
  "lr_mark s lit = lr_marks s ! l2u lit"

definition lr_set_mark :: "int \<Rightarrow> bool \<Rightarrow> LratChecker \<Rightarrow> LratChecker" where
  "lr_set_mark lit b s = s\<lparr>lr_marks := (lr_marks s)[l2u lit := b]\<rparr>"

definition lr_checked_lit :: "LratChecker \<Rightarrow> int \<Rightarrow> bool" where
  "lr_checked_lit s lit = lr_checked_lits s ! l2u lit"

definition lr_set_checked :: "int \<Rightarrow> bool \<Rightarrow> LratChecker \<Rightarrow> LratChecker" where
  "lr_set_checked lit b s = s\<lparr>lr_checked_lits := (lr_checked_lits s)[l2u lit := b]\<rparr>"

definition lr_clear_checked :: "LratChecker \<Rightarrow> LratChecker" where
  "lr_clear_checked s = s\<lparr>lr_checked_lits := map (\<lambda>_. False) (lr_checked_lits s)\<rparr>"

type_synonym lr_link = "nat \<times> nat"

fun lr_at :: "LratChecker \<Rightarrow> lr_link \<Rightarrow> LratCheckerClause option" where
  "lr_at s (h, pos) =
     (if pos < length (lr_clauses s ! h) then Some (lr_clauses s ! h ! pos) else None)"

fun lr_set_used :: "lr_link \<Rightarrow> bool \<Rightarrow> LratChecker \<Rightarrow> LratChecker" where
  "lr_set_used (h, pos) b s =
     s\<lparr>lr_clauses := (lr_clauses s)[h := (lr_clauses s ! h)[pos := (lr_clauses s ! h ! pos)\<lparr>lc_used := b\<rparr>]]\<rparr>"

definition lc_lits :: "LratCheckerClause \<Rightarrow> int list" where
  "lc_lits c = take (lc_size c) (lc_literals c)"

subsection \<open>Clauses\<close>

text \<open>The loop over the imported literals in \<^verbatim>\<open>new_clause\<close>: is there a clashing pair?\<close>

fun lr_taut_loop :: "int list \<Rightarrow> bool \<Rightarrow> LratChecker \<Rightarrow> bool \<times> LratChecker" where
  "lr_taut_loop [] taut s = (taut, s)"
| "lr_taut_loop (lit # ls) taut s =
     (let s = lr_set_checked (- lit) True s
      in lr_taut_loop ls (taut \<or> lr_checked_lit s lit) s)"

definition lr_new_clause :: "LratChecker \<Rightarrow> LratCheckerClause \<times> LratChecker" where
  "lr_new_clause s =
     (let s = lr_clear_checked s;
          (taut, s) = lr_taut_loop (lr_imported_clause s) False s;
          res = \<lparr>lc_hash = lr_last_hash s, lc_id = lr_last_id s, lc_garbage = False,
                 lc_size = length (lr_imported_clause s), lc_used = False,
                 lc_tautological = taut, lc_literals = lr_imported_clause s\<rparr>;
          s = fold (\<lambda>lit. lr_set_checked (- lit) False) (lr_imported_clause s) s
      in (res, s\<lparr>lr_num_clauses := lr_num_clauses s + 1\<rparr>))"

text \<open>The private \<^verbatim>\<open>delete_clause (LratCheckerClause *)\<close>; the object is gone afterwards.\<close>

definition lr_free_clause :: "LratCheckerClause \<Rightarrow> LratChecker \<Rightarrow> LratChecker" where
  "lr_free_clause c s =
     (if \<not> lc_garbage c then s\<lparr>lr_num_clauses := lr_num_clauses s - 1\<rparr>
      else s\<lparr>lr_num_garbage := lr_num_garbage s - 1\<rparr>)"

definition lr_enlarge_clauses :: "LratChecker \<Rightarrow> LratChecker outcome" where
  "lr_enlarge_clauses s =
     (let new_size = (if lr_size_clauses s \<noteq> 0 then 2 * lr_size_clauses s else 1)
      in bind_outcome
           (rehash_table lc_hash new_size (lr_clauses s) (replicate (unat new_size) []))
           (\<lambda>t. Ok (s\<lparr>lr_clauses := t, lr_size_clauses := new_size\<rparr>)))"

definition lr_collect_garbage_clauses :: "LratChecker \<Rightarrow> LratChecker" where
  "lr_collect_garbage_clauses s =
     (let s = lr_count (\<lambda>t. t\<lparr>ls_collections := ls_collections t + 1\<rparr>) s;
          s = fold lr_free_clause (lr_garbage s) s
      in s\<lparr>lr_garbage := []\<rparr>)"

subsection \<open>Construction and destruction\<close>

text \<open>\<open>strict\<close> is \<^verbatim>\<open>internal->lrat\<close>, false without a solver.\<close>

definition lr_init :: "bool \<Rightarrow> LratChecker" where
  "lr_init strict =
     \<lparr>lr_size_vars = 0, lr_strict_lrat = strict, lr_checked_lits = [], lr_marks = [],
      lr_clauses_to_reconstruct = Map.empty, lr_assumptions = [], lr_constraint = [],
      lr_concluded = False, lr_num_clauses = 0, lr_num_finalized = 0, lr_num_garbage = 0,
      lr_size_clauses = 0, lr_clauses = [], lr_garbage = [], lr_imported_clause = [],
      lr_assumption_clauses = [], lr_nonces = draw_nonces num_nonces 42,
      lr_last_hash = 0, lr_last_id = 0, lr_current_id = 0,
      lr_stats = \<lparr>ls_added = 0, ls_original = 0, ls_derived = 0, ls_deleted = 0,
        ls_finalized = 0, ls_insertions = 0, ls_collisions = 0, ls_searches = 0,
        ls_checks = 0, ls_collections = 0\<rparr>\<rparr>"

definition lr_connect_internal :: "bool \<Rightarrow> LratChecker \<Rightarrow> LratChecker" where
  "lr_connect_internal internal_lrat s = s\<lparr>lr_strict_lrat := internal_lrat\<rparr>"

definition lr_begin_proof :: "64 word \<Rightarrow> LratChecker \<Rightarrow> LratChecker" where
  "lr_begin_proof cid s = s\<lparr>lr_current_id := cid\<rparr>"

definition lr_destroy :: "LratChecker \<Rightarrow> LratChecker" where
  "lr_destroy s =
     (let s = fold lr_free_clause (concat (lr_clauses s)) s;
          s = fold lr_free_clause (lr_garbage s) s
      in s\<lparr>lr_clauses := [], lr_garbage := []\<rparr>)"

subsection \<open>Importing clauses\<close>

definition lr_enlarge_vars :: "int \<Rightarrow> LratChecker \<Rightarrow> LratChecker" where
  "lr_enlarge_vars idx s =
     (let n = grow_size idx (if lr_size_vars s \<noteq> 0 then 2 * lr_size_vars s else 2)
      in s\<lparr>lr_marks := resize (nat (2 * n)) False (lr_marks s),
           lr_checked_lits := resize (nat (2 * n)) False (lr_checked_lits s),
           lr_size_vars := n\<rparr>)"

definition lr_import_literal :: "int \<Rightarrow> LratChecker \<Rightarrow> LratChecker" where
  "lr_import_literal lit s =
     (let idx = \<bar>lit\<bar>;
          s = (if idx \<ge> lr_size_vars s then lr_enlarge_vars idx s else s)
      in s\<lparr>lr_imported_clause := lr_imported_clause s @ [lit]\<rparr>)"

definition lr_import_clause :: "int list \<Rightarrow> LratChecker \<Rightarrow> LratChecker" where
  "lr_import_clause c s = fold lr_import_literal c s"

subsection \<open>Hash table\<close>

definition lr_compute_hash :: "64 word \<Rightarrow> LratChecker \<Rightarrow> 64 word \<times> LratChecker" where
  "lr_compute_hash cid s =
     (let j = unat cid mod num_nonces;
          tmp = lr_nonces s ! j * cid
      in (tmp, s\<lparr>lr_last_hash := tmp\<rparr>))"

fun lr_find_chain ::
    "64 word \<Rightarrow> 64 word \<Rightarrow> LratCheckerClause list \<Rightarrow> nat \<Rightarrow> LratChecker \<Rightarrow> nat \<times> LratChecker" where
  "lr_find_chain hash cid [] pos s = (pos, s)"
| "lr_find_chain hash cid (c # cs) pos s =
     (if lc_hash c = hash \<and> lc_id c = cid then (pos, s)
      else lr_find_chain hash cid cs (pos + 1)
             (lr_count (\<lambda>t. t\<lparr>ls_collisions := ls_collisions t + 1\<rparr>) s))"

definition lr_find :: "64 word \<Rightarrow> LratChecker \<Rightarrow> (lr_link \<times> LratChecker) outcome" where
  "lr_find cid s =
     (let s = lr_count (\<lambda>t. t\<lparr>ls_searches := ls_searches t + 1\<rparr>) s;
          (hash, s) = lr_compute_hash cid s
      in bind_outcome (of_loop (reduce_hash hash (lr_size_clauses s)))
           (\<lambda>h. let (pos, s) = lr_find_chain hash cid (lr_clauses s ! unat h) 0 s
                in Ok ((unat h, pos), s)))"

definition lr_insert :: "LratChecker \<Rightarrow> LratChecker outcome" where
  "lr_insert s =
     (let s = lr_count (\<lambda>t. t\<lparr>ls_insertions := ls_insertions t + 1\<rparr>) s
      in bind_outcome
           (if lr_num_clauses s = lr_size_clauses s then lr_enlarge_clauses s else Ok s)
           (\<lambda>s. let (hash, s) = lr_compute_hash (lr_last_id s) s
                in bind_outcome (of_loop (reduce_hash hash (lr_size_clauses s)))
                     (\<lambda>h. let (c, s) = lr_new_clause s
                          in Ok (s\<lparr>lr_clauses :=
                                    (lr_clauses s)[unat h := c # lr_clauses s ! unat h]\<rparr>))))"

subsection \<open>Checking a proof chain\<close>

definition lr_resolve_literal :: "int \<Rightarrow> LratChecker \<Rightarrow> LratChecker" where
  "lr_resolve_literal lit s =
     (if \<not> lr_checked_lit s (- lit) then lr_set_checked lit True s
      else lr_set_checked (- lit) False s)"

fun lr_resolve_chain :: "64 word list \<Rightarrow> LratChecker \<Rightarrow> LratChecker outcome" where
  "lr_resolve_chain [] s = Ok s"
| "lr_resolve_chain (cid # ids) s =
     bind_outcome (lr_find cid s)
       (\<lambda>(link, s). case lr_at s link of
            None \<Rightarrow> Fatal ''assert (c)''
          | Some c \<Rightarrow> lr_resolve_chain ids (fold lr_resolve_literal (lc_lits c) s))"

text \<open>The loop that compares the learned clause with the resolvent.\<close>

fun lr_match_clause :: "int list \<Rightarrow> LratChecker \<Rightarrow> bool \<times> LratChecker" where
  "lr_match_clause [] s = (True, s)"
| "lr_match_clause (lit # ls) s =
     (if lr_checked_lit s (- lit) then (False, s)
      else
        (let s = (if \<not> lr_checked_lit s lit then lr_set_checked lit True s else s)
         in lr_match_clause ls (lr_set_checked (- lit) True s)))"

definition lr_match_vars :: "LratChecker \<Rightarrow> bool" where
  "lr_match_vars s \<longleftrightarrow>
     (\<forall>lit \<in> set [1 .. lr_size_vars s - 1].
        lr_checked_lit s lit \<and> lr_checked_lit s (- lit)
        \<or> \<not> lr_checked_lit s lit \<and> \<not> lr_checked_lit s (- lit))"

definition lr_check_resolution :: "64 word list \<Rightarrow> LratChecker \<Rightarrow> (bool \<times> LratChecker) outcome" where
  "lr_check_resolution proof_chain s =
     (if proof_chain = [] then Ok (True, s)
      else if lr_strict_lrat s then Ok (True, s)
      else
        bind_outcome (lr_find (last proof_chain) (lr_clear_checked s))
          (\<lambda>(link, s). case lr_at s link of
               None \<Rightarrow> Fatal ''assert (c)''
             | Some c \<Rightarrow>
                 bind_outcome
                   (lr_resolve_chain (rev (butlast proof_chain))
                      (fold (\<lambda>lit. lr_set_checked lit True) (lc_lits c) s))
                   (\<lambda>s. let (ok, s) = lr_match_clause (lr_imported_clause s) s
                        in Ok (ok \<and> lr_match_vars s, s))))"

text \<open>The first loop of \<^verbatim>\<open>check\<close>: assume the negated clause; true when it is tautological.\<close>

fun lr_assume_negation :: "int list \<Rightarrow> LratChecker \<Rightarrow> bool \<times> LratChecker" where
  "lr_assume_negation [] s = (False, s)"
| "lr_assume_negation (lit # ls) s =
     (let s = lr_set_checked (- lit) True s in
      if lr_checked_lit s lit then (True, s) else lr_assume_negation ls s)"

text \<open>Zero when every literal is false, the unit, or \<^verbatim>\<open>INT_MIN\<close> for several literals.\<close>

fun lr_find_unit :: "(int \<Rightarrow> bool) \<Rightarrow> int \<Rightarrow> int list \<Rightarrow> int" where
  "lr_find_unit checked unit [] = unit"
| "lr_find_unit checked unit (lit # ls) =
     (if checked (- lit) then lr_find_unit checked unit ls
      else if unit \<noteq> 0 \<and> unit \<noteq> lit then int_min
      else lr_find_unit checked lit ls)"

text \<open>The loop over the chain; returns whether a clause was falsified and the clauses used.\<close>

fun lr_check_chain ::
    "64 word list \<Rightarrow> lr_link list \<Rightarrow> LratChecker \<Rightarrow> (bool \<times> lr_link list \<times> LratChecker) outcome" where
  "lr_check_chain [] used s = Ok (False, used, s)"
| "lr_check_chain (cid # ids) used s =
     bind_outcome (lr_find cid s)
       (\<lambda>(link, s). case lr_at s link of
            None \<Rightarrow> Ok (False, used, s)
          | Some c \<Rightarrow>
              if lc_tautological c then Ok (False, used, s)
              else if lc_used c then Ok (False, used @ [link], s)
              else
                (let used = used @ [link];
                     s = lr_set_used link True s;
                     unit = lr_find_unit (lr_checked_lit s) 0 (lc_lits c)
                 in if unit = int_min then Ok (False, used, s)
                    else if unit = 0 then Ok (True, used, s)
                    else lr_check_chain ids used (lr_set_checked unit True s)))"

definition lr_check :: "64 word list \<Rightarrow> LratChecker \<Rightarrow> (bool \<times> LratChecker) outcome" where
  "lr_check proof_chain s =
     (let s = lr_count (\<lambda>t. t\<lparr>ls_checks := ls_checks t + 1\<rparr>) s;
          s = lr_clear_checked s;
          (taut, s) = lr_assume_negation (lr_imported_clause s) s
      in if taut then Ok (True, s)
         else bind_outcome (lr_check_chain proof_chain [] s)
                (\<lambda>(checking, used, s). Ok (checking, fold (\<lambda>link. lr_set_used link False) used s)))"

subsection \<open>Adding clauses\<close>

text \<open>The test for a clause that already has the new identifier.\<close>

definition lr_check_fresh :: "64 word \<Rightarrow> LratChecker \<Rightarrow> LratChecker outcome" where
  "lr_check_fresh cid s =
     bind_outcome (lr_find cid s)
       (\<lambda>(link, s). if lr_at s link \<noteq> None then Fatal ''different clause with id already present''
                    else Ok s)"

definition lr_restore_clause :: "64 word \<Rightarrow> int list \<Rightarrow> LratChecker \<Rightarrow> LratChecker outcome" where
  "lr_restore_clause cid c s =
     (case lr_clauses_to_reconstruct s cid of
        None \<Rightarrow>
          if \<not> lr_strict_lrat s then Ok s
          else Fatal ''restoring clauses not deleted previously:''
      | Some d \<Rightarrow>
          (let e = sort c;
               eq = (length c = length d \<and> (\<forall>i \<in> set [0..<length e]. e ! i = d ! i))
           in if \<not> eq then Fatal ''restoring clause that is different than the one imported:''
              else Ok (s\<lparr>lr_clauses_to_reconstruct :=
                          (lr_clauses_to_reconstruct s)(cid := None)\<rparr>)))"

definition lr_add_original_clause ::
    "64 word \<Rightarrow> int list \<Rightarrow> bool \<Rightarrow> LratChecker \<Rightarrow> LratChecker outcome" where
  "lr_add_original_clause cid c restore s =
     bind_outcome (if restore then lr_restore_clause cid c s else Ok s)
       (\<lambda>s. let s = lr_count (\<lambda>t. t\<lparr>ls_added := ls_added t + 1, ls_original := ls_original t + 1\<rparr>) s;
                s = lr_import_clause c s;
                s = s\<lparr>lr_last_id := cid\<rparr>;
                s = (if \<not> restore \<and> cid = 1 + lr_current_id s then s\<lparr>lr_current_id := cid\<rparr> else s)
            in bind_outcome
                 (if lr_size_clauses s \<noteq> 0 \<and> \<not> restore then lr_check_fresh cid s else Ok s)
                 (\<lambda>s. bind_outcome (lr_insert s) (\<lambda>s. Ok (s\<lparr>lr_imported_clause := []\<rparr>))))"

definition lr_add_derived_clause ::
    "64 word \<Rightarrow> int list \<Rightarrow> 64 word list \<Rightarrow> LratChecker \<Rightarrow> LratChecker outcome" where
  "lr_add_derived_clause cid c proof_chain s =
     (let s = lr_count (\<lambda>t. t\<lparr>ls_added := ls_added t + 1, ls_derived := ls_derived t + 1\<rparr>) s;
          s = lr_import_clause c s;
          s = s\<lparr>lr_last_id := cid, lr_current_id := cid\<rparr>
      in bind_outcome (if lr_size_clauses s \<noteq> 0 then lr_check_fresh cid s else Ok s)
           (\<lambda>s. bind_outcome (lr_check proof_chain s)
             (\<lambda>(ok, s). bind_outcome (if ok then lr_check_resolution proof_chain s else Ok (False, s))
               (\<lambda>(ok, s). if \<not> ok then Fatal ''failed to check derived clause:''
                          else bind_outcome (lr_insert s) (\<lambda>s. Ok (s\<lparr>lr_imported_clause := []\<rparr>))))))"

subsection \<open>Deleting, weakening and finalizing\<close>

text \<open>
  What \<open>delete_clause\<close>, \<open>weaken_minus\<close> and \<open>finalize_clause\<close> do with the clause they found: mark
  the imported literals, require every literal of \<open>d\<close> to be marked, unmark.
\<close>

definition lr_check_marked :: "LratCheckerClause \<Rightarrow> LratChecker \<Rightarrow> LratChecker outcome" where
  "lr_check_marked d s =
     (let s = fold (\<lambda>lit. lr_set_mark lit True) (lr_imported_clause s) s
      in if \<forall>lit \<in> set (lc_lits d). lr_mark s lit
         then Ok (fold (\<lambda>lit. lr_set_mark lit False) (lr_imported_clause s) s)
         else Fatal ''deleted clause not in proof:'')"

definition lr_delete_clause :: "64 word \<Rightarrow> int list \<Rightarrow> LratChecker \<Rightarrow> LratChecker outcome" where
  "lr_delete_clause cid c s =
     (let s = lr_count (\<lambda>t. t\<lparr>ls_deleted := ls_deleted t + 1\<rparr>) s;
          s = lr_import_clause c s;
          s = s\<lparr>lr_last_id := cid\<rparr>
      in bind_outcome (lr_find cid s)
           (\<lambda>((h, pos), s). case lr_at s (h, pos) of
                None \<Rightarrow> Fatal ''deleted clause not in proof:''
              | Some d \<Rightarrow> bind_outcome (lr_check_marked d s)
                  (\<lambda>s. let s = s\<lparr>lr_num_garbage := lr_num_garbage s + 1,
                                 lr_num_clauses := lr_num_clauses s - 1,
                                 lr_clauses := (lr_clauses s)[h := remove_nth pos (lr_clauses s ! h)],
                                 lr_garbage := d\<lparr>lc_garbage := True\<rparr> # lr_garbage s\<rparr>;
                           s = (if 2 * unat (lr_num_garbage s)
                                   > max (unat (lr_size_clauses s)) (nat (lr_size_vars s))
                                then lr_collect_garbage_clauses s else s)
                       in Ok (s\<lparr>lr_imported_clause := []\<rparr>))))"

definition lr_weaken_minus :: "64 word \<Rightarrow> int list \<Rightarrow> LratChecker \<Rightarrow> LratChecker outcome" where
  "lr_weaken_minus cid c s =
     (let s = lr_import_clause c s;
          s = s\<lparr>lr_last_id := cid\<rparr>
      in bind_outcome (lr_find cid s)
           (\<lambda>(link, s). case lr_at s link of
                None \<Rightarrow> Fatal ''weakened clause not in proof:''
              | Some d \<Rightarrow> bind_outcome (lr_check_marked d s)
                  (\<lambda>s. Ok (s\<lparr>lr_imported_clause := [],
                             lr_clauses_to_reconstruct :=
                               (lr_clauses_to_reconstruct s)(cid \<mapsto> sort c)\<rparr>))))"

definition lr_finalize_clause :: "64 word \<Rightarrow> int list \<Rightarrow> LratChecker \<Rightarrow> LratChecker outcome" where
  "lr_finalize_clause cid c s =
     (let s = lr_count (\<lambda>t. t\<lparr>ls_finalized := ls_finalized t + 1\<rparr>) s;
          s = s\<lparr>lr_num_finalized := lr_num_finalized s + 1\<rparr>;
          s = lr_import_clause c s;
          s = s\<lparr>lr_last_id := cid\<rparr>
      in bind_outcome (lr_find cid s)
           (\<lambda>(link, s). case lr_at s link of
                None \<Rightarrow> Fatal ''deleted clause not in proof:''
              | Some d \<Rightarrow> bind_outcome (lr_check_marked d s)
                  (\<lambda>s. Ok (s\<lparr>lr_imported_clause := []\<rparr>))))"

definition lr_report_status :: "LratChecker \<Rightarrow> LratChecker outcome" where
  "lr_report_status s =
     (if lr_num_finalized s = lr_num_clauses s then Ok (s\<lparr>lr_num_finalized := 0\<rparr>)
      else Fatal ''finalize check failed'')"

subsection \<open>Assumptions and conclusions\<close>

definition lr_add_assumption_clause ::
    "64 word \<Rightarrow> int list \<Rightarrow> 64 word list \<Rightarrow> LratChecker \<Rightarrow> LratChecker outcome" where
  "lr_add_assumption_clause cid c chain s =
     (if \<forall>lit \<in> set c. - lit \<in> set (lr_assumptions s) \<or> - lit \<in> set (lr_constraint s) then
        bind_outcome (lr_add_derived_clause cid c chain s)
          (\<lambda>s. bind_outcome (lr_delete_clause cid c s)
             (\<lambda>s. Ok (s\<lparr>lr_assumption_clauses := lr_assumption_clauses s @ [cid]\<rparr>)))
      else Fatal ''clause contains non assumptions or constraint literals'')"

definition lr_add_assumption :: "int \<Rightarrow> LratChecker \<Rightarrow> LratChecker" where
  "lr_add_assumption a s = s\<lparr>lr_assumptions := lr_assumptions s @ [a]\<rparr>"

definition lr_add_constraint :: "int list \<Rightarrow> LratChecker \<Rightarrow> LratChecker" where
  "lr_add_constraint c s =
     s\<lparr>lr_constraint := fold (\<lambda>lit cs. if lit \<in> set cs then cs else cs @ [lit]) c []\<rparr>"

definition lr_reset_assumptions :: "LratChecker \<Rightarrow> LratChecker" where
  "lr_reset_assumptions s =
     s\<lparr>lr_assumption_clauses := [], lr_assumptions := [], lr_concluded := False\<rparr>"

definition lr_conclude_unsat ::
    "ConclusionType \<Rightarrow> 64 word list \<Rightarrow> LratChecker \<Rightarrow> LratChecker outcome" where
  "lr_conclude_unsat conclusion ids s =
     (if lr_concluded s then Fatal ''already concluded''
      else
        (let s = s\<lparr>lr_concluded := True\<rparr> in
         case conclusion of
           CONFLICT \<Rightarrow>
             if ids = [] then Fatal ''back of empty vector''
             else bind_outcome (lr_find (last ids) s)
               (\<lambda>(link, s). case lr_at s link of
                    None \<Rightarrow> Fatal ''empty clause not in proof''
                  | Some d \<Rightarrow> if lc_size d \<noteq> 0 then Fatal ''empty clause not in proof'' else Ok s)
         | ASSUMPTIONS \<Rightarrow>
             if length ids \<noteq> 1 \<or> length (lr_assumption_clauses s) \<noteq> 1
             then Fatal ''expected exactly one assumption clause''
             else if last ids \<noteq> last (lr_assumption_clauses s)
             then Fatal ''conclusion is not an assumption clause''
             else Ok s
         | CONSTRAINT \<Rightarrow>
             if length (lr_constraint s) \<noteq> length ids
             then Fatal ''not complete conclusion given for constraint''
             else if \<forall>i \<in> set ids. i \<in> set (lr_assumption_clauses s) then Ok s
             else Fatal ''assumption clause for constraint missing''))"

end
