(* ===== verification/Lrat_Sound.thy ===== *)
theory Lrat_Sound
  imports Lrat_Checker Proof_Check
begin

text \<open>
  The invariant of the LRAT checker, its preservation by every operation, and soundness: an
  accepted chain shows that the clause follows from the original clauses.
\<close>

subsection \<open>The invariant\<close>

definition lr_lit_ok :: "int \<Rightarrow> int \<Rightarrow> bool" where
  "lr_lit_ok n l \<longleftrightarrow> l \<noteq> 0 \<and> \<bar>l\<bar> < n \<and> \<bar>l\<bar> \<le> 2147483647"

definition lc_ok :: "int \<Rightarrow> LratCheckerClause \<Rightarrow> bool" where
  "lc_ok n c \<longleftrightarrow>
     lc_size c = length (lc_literals c) \<and> (\<forall>l \<in> set (lc_literals c). lr_lit_ok n l)
     \<and> \<not> lc_garbage c"

definition lr_wf :: "LratChecker \<Rightarrow> bool" where
  "lr_wf s \<longleftrightarrow>
     0 \<le> lr_size_vars s
     \<and> length (lr_checked_lits s) = nat (2 * lr_size_vars s)
     \<and> lr_marks s = replicate (nat (2 * lr_size_vars s)) False
     \<and> length (lr_clauses s) = unat (lr_size_clauses s)
     \<and> length (lr_nonces s) = num_nonces
     \<and> (\<forall>c \<in> set (concat (lr_clauses s)). lc_ok (lr_size_vars s) c)
     \<and> placed lc_hash (lr_size_clauses s) (lr_clauses s)
     \<and> lr_num_clauses s = of_nat (length (concat (lr_clauses s)))
     \<and> (\<forall>c \<in> set (lr_garbage s). lc_garbage c)
     \<and> lr_num_garbage s = of_nat (length (lr_garbage s))"

definition lr_unused :: "LratChecker \<Rightarrow> bool" where
  "lr_unused s \<longleftrightarrow> (\<forall>c \<in> set (concat (lr_clauses s)). \<not> lc_used c)"

definition lr_sem :: "clause set \<Rightarrow> LratChecker \<Rightarrow> bool" where
  "lr_sem F s \<longleftrightarrow>
     (\<forall>c \<in> set (concat (lr_clauses s)). entails F (lc_literals c))
     \<and> (\<forall>i e. lr_clauses_to_reconstruct s i = Some e \<longrightarrow> entails F e)"

definition lr_inv :: "clause set \<Rightarrow> LratChecker \<Rightarrow> bool" where
  "lr_inv F s \<longleftrightarrow> lr_wf s \<and> lr_unused s \<and> lr_sem F s \<and> lr_imported_clause s = []"

lemma lr_sem_mono: "lr_sem F s \<Longrightarrow> F \<subseteq> G \<Longrightarrow> lr_sem G s"
  by (meson entails_mono lr_sem_def)

lemma length_draw_nonces [simp]: "length (draw_nonces n r) = n"
  by (induction n arbitrary: r) (auto simp: Let_def split: prod.splits)

lemma lr_inv_init: "lr_inv {} (lr_init strict)"
  by (simp add: lr_inv_def lr_wf_def lr_unused_def lr_sem_def lr_init_def placed_def)

text \<open>What the checks leave alone.\<close>

definition lr_same :: "LratChecker \<Rightarrow> LratChecker \<Rightarrow> bool" where
  "lr_same s t \<longleftrightarrow>
     t = s\<lparr>lr_checked_lits := lr_checked_lits t, lr_stats := lr_stats t, lr_last_hash := lr_last_hash t\<rparr>
     \<and> length (lr_checked_lits t) = length (lr_checked_lits s)"

lemma lr_same_refl [simp]: "lr_same s s"
  by (simp add: lr_same_def)

lemma lr_same_trans: "lr_same s t \<Longrightarrow> lr_same t u \<Longrightarrow> lr_same s u"
  by (cases s; cases t; cases u) (simp add: lr_same_def)

lemma lr_same_count [simp]: "lr_same s (lr_count f s)"
  by (simp add: lr_same_def lr_count_def)

lemma lr_same_set_checked [simp]: "lr_same s (lr_set_checked l b s)"
  by (simp add: lr_same_def lr_set_checked_def)

lemma lr_same_clear [simp]: "lr_same s (lr_clear_checked s)"
  by (simp add: lr_same_def lr_clear_checked_def)

lemma lr_same_fold: "(\<And>l s. lr_same s (f l s)) \<Longrightarrow> lr_same s (fold f ls s)"
  by (induction ls arbitrary: s) (auto intro: lr_same_trans)

lemma lr_sameD:
  assumes "lr_same s t"
  shows "lr_clauses t = lr_clauses s" "lr_size_clauses t = lr_size_clauses s"
    "lr_size_vars t = lr_size_vars s" "lr_nonces t = lr_nonces s" "lr_marks t = lr_marks s"
    "length (lr_checked_lits t) = length (lr_checked_lits s)"
    "lr_imported_clause t = lr_imported_clause s" "lr_last_id t = lr_last_id s"
    "lr_wf t = lr_wf s" "lr_unused t = lr_unused s" "lr_sem F t = lr_sem F s" "lr_at t = lr_at s"
    "lr_concluded t = lr_concluded s" "lr_num_clauses t = lr_num_clauses s"
    "lr_strict_lrat t = lr_strict_lrat s"
    "lr_clauses_to_reconstruct t = lr_clauses_to_reconstruct s"
    "lr_assumptions t = lr_assumptions s" "lr_constraint t = lr_constraint s"
    "lr_assumption_clauses t = lr_assumption_clauses s" "lr_garbage t = lr_garbage s"
    "lr_num_garbage t = lr_num_garbage s"
  using assms by (cases s; cases t; simp add: lr_same_def lr_wf_def lr_unused_def lr_sem_def fun_eq_iff)+

subsection \<open>Finding a clause\<close>

lemma lr_find_chain_ok:
  assumes "lr_find_chain x cid cs pos s = (p, t)"
  shows "lr_same s t" and "pos \<le> p" and "p < pos + length cs \<Longrightarrow> lc_id (cs ! (p - pos)) = cid"
proof -
  have "lr_same s t \<and> pos \<le> p \<and> (p < pos + length cs \<longrightarrow> lc_id (cs ! (p - pos)) = cid)"
    using assms
  proof (induction cs arbitrary: pos s)
    case (Cons c cs)
    show ?case
    proof (cases "lc_hash c = x \<and> lc_id c = cid")
      case True
      then show ?thesis using Cons.prems by auto
    next
      case False
      let ?u = "lr_count (\<lambda>t. t\<lparr>ls_collisions := ls_collisions t + 1\<rparr>) s"
      have "lr_find_chain x cid cs (pos + 1) ?u = (p, t)" using Cons.prems False by (simp split: if_splits)
      from Cons.IH [OF this] show ?thesis
        using lr_same_trans [OF lr_same_count, of _ s t] by (auto simp: nth_Cons')
    qed
  qed auto
  then show "lr_same s t" "pos \<le> p" "p < pos + length cs \<Longrightarrow> lc_id (cs ! (p - pos)) = cid" by blast+
qed

lemma lr_find_ok:
  assumes f: "lr_find cid s = Ok (link, t)" and wf: "length (lr_clauses s) = unat (lr_size_clauses s)"
  shows "lr_same s t" "fst link < length (lr_clauses s)"
    "lr_at t link = Some c \<Longrightarrow> c \<in> set (concat (lr_clauses s)) \<and> lc_id c = cid"
proof -
  define s1 where "s1 = lr_count (\<lambda>t. t\<lparr>ls_searches := Suc (ls_searches t)\<rparr>) s"
  obtain x s2 where s2: "lr_compute_hash cid s1 = (x, s2)" by fastforce
  have "s2 = s1\<lparr>lr_last_hash := x\<rparr>" using s2 by (auto simp: lr_compute_hash_def Let_def)
  then have "lr_same s1 s2" by (simp add: lr_same_def)
  then have ss: "lr_same s s2" using lr_same_trans [OF lr_same_count] by (simp add: s1_def)
  obtain r where r: "reduce_hash x (lr_size_clauses s) = Some r"
    using f s2 lr_sameD(2) [OF ss] by (auto simp: lr_find_def s1_def [symmetric] Let_def bind_outcome_Ok)
  obtain p s3 where s3: "lr_find_chain x cid (lr_clauses s ! unat r) 0 s2 = (p, s3)" by fastforce
  have eq: "link = (unat r, p)" "t = s3"
    using f s2 r s3 lr_sameD(1,2) [OF ss] by (auto simp: lr_find_def s1_def [symmetric] Let_def)
  note ch = lr_find_chain_ok [OF s3]
  show st: "lr_same s t" using lr_same_trans [OF ss ch(1)] by (simp add: eq)
  have "lr_size_clauses s \<noteq> 0" using r reduce_hash_zero [of x] by auto
  then show b: "fst link < length (lr_clauses s)" using reduce_hash_bound [OF r] wf by (simp add: eq)
  assume "lr_at t link = Some c"
  then have c: "p < length (lr_clauses s ! unat r)" "c = lr_clauses s ! unat r ! p"
    using lr_sameD(1) [OF st] by (auto simp: eq split: if_splits)
  then have "c \<in> set (lr_clauses s ! unat r)" by simp
  then have "c \<in> set (concat (lr_clauses s))" using b nth_mem by (fastforce simp: eq)
  then show "c \<in> set (concat (lr_clauses s)) \<and> lc_id c = cid" using ch(3) c by simp
qed

lemma lr_find_total:
  assumes "lr_size_clauses s \<noteq> 0"
  shows "\<exists>link t. lr_find cid s = Ok (link, t)"
proof -
  obtain r where "reduce_hash (lr_nonces s ! (unat cid mod num_nonces) * cid) (lr_size_clauses s) = Some r"
    using reduce_hash_total [OF assms] by blast
  then show ?thesis
    by (simp add: lr_find_def lr_compute_hash_def Let_def lr_count_def split: prod.split)
qed

lemma lr_find_empty: "lr_size_clauses s = 0 \<Longrightarrow> lr_find cid s = Diverge"
  by (simp add: lr_find_def lr_compute_hash_def Let_def lr_count_def reduce_hash_zero)

subsection \<open>Checked literals\<close>

lemma lr_checked_set:
  assumes "length (lr_checked_lits s) = nat (2 * lr_size_vars s)"
    and "lr_lit_ok (lr_size_vars s) l" "lr_lit_ok (lr_size_vars s) k"
  shows "lr_checked_lit (lr_set_checked k b s) l = (if l = k then b else lr_checked_lit s l)"
  using assms l2u_bound [of k "lr_size_vars s"]
  by (auto simp: lr_checked_lit_def lr_set_checked_def lr_lit_ok_def nth_list_update l2u_inj)

text \<open>Every checked literal follows from \<open>G\<close>.\<close>

definition lr_implied :: "clause set \<Rightarrow> LratChecker \<Rightarrow> bool" where
  "lr_implied G s \<longleftrightarrow>
     length (lr_checked_lits s) = nat (2 * lr_size_vars s)
     \<and> (\<forall>l. lr_lit_ok (lr_size_vars s) l \<longrightarrow> lr_checked_lit s l \<longrightarrow> entails G [l])"

lemma lr_lit_ok_uminus [simp]: "lr_lit_ok n (- l) = lr_lit_ok n l"
  by (auto simp: lr_lit_ok_def)

lemma lr_implied_set:
  assumes "lr_implied G s" "lr_lit_ok (lr_size_vars s) k" "entails G [k]"
  shows "lr_implied G (lr_set_checked k True s)"
proof -
  have n: "lr_size_vars (lr_set_checked k True s) = lr_size_vars s"
    "length (lr_checked_lits (lr_set_checked k True s)) = length (lr_checked_lits s)"
    by (simp_all add: lr_set_checked_def)
  show ?thesis
    using assms unfolding lr_implied_def n by (auto simp: lr_checked_set split: if_splits)
qed

lemma lr_implied_clear:
  assumes "length (lr_checked_lits s) = nat (2 * lr_size_vars s)"
  shows "lr_implied G (lr_clear_checked s)"
proof -
  have "\<not> lr_checked_lit (lr_clear_checked s) l" if "lr_lit_ok (lr_size_vars s) l" for l
    using that assms l2u_bound [of l "lr_size_vars s"]
    by (simp add: lr_checked_lit_def lr_clear_checked_def lr_lit_ok_def)
  then show ?thesis using assms by (auto simp: lr_implied_def) (simp_all add: lr_clear_checked_def)
qed

lemma lr_assume_negation_ok:
  assumes "lr_implied G s" "\<forall>l \<in> set ls. lr_lit_ok (lr_size_vars s) l \<and> entails G [- l]"
    and "lr_assume_negation ls s = (taut, t)"
  shows "lr_same s t" "lr_implied G t" "taut \<Longrightarrow> unsat G"
proof -
  have "lr_same s t \<and> lr_implied G t \<and> (taut \<longrightarrow> unsat G)"
    using assms
  proof (induction ls arbitrary: s)
    case (Cons l ls)
    let ?u = "lr_set_checked (- l) True s"
    have l: "lr_lit_ok (lr_size_vars s) l" "entails G [- l]" using Cons.prems by auto
    have u: "lr_implied G ?u" by (rule lr_implied_set) (use Cons.prems(1) l in simp_all)
    have n: "lr_size_vars ?u = lr_size_vars s" by (simp add: lr_set_checked_def)
    show ?case
    proof (cases "lr_checked_lit ?u l")
      case True
      then have "entails G [l]" using u l(1) n by (simp add: lr_implied_def)
      with l have "unsat G" by (auto simp: entails_def unsat_def lr_lit_ok_def)
      then show ?thesis using True Cons.prems(3) u by (auto simp: Let_def)
    next
      case False
      then have "lr_assume_negation ls ?u = (taut, t)" using Cons.prems(3) by (simp add: Let_def)
      from Cons.IH [OF u _ this] Cons.prems(2) n show ?thesis
        using lr_same_trans [OF lr_same_set_checked] by auto
    qed
  qed auto
  then show "lr_same s t" "lr_implied G t" "taut \<Longrightarrow> unsat G" by blast+
qed

subsection \<open>Unit clauses\<close>

lemma lr_find_unit_gen:
  assumes "0 \<notin> set ls" "lr_find_unit v u ls = r" "r \<noteq> int_min"
  shows "(u \<noteq> 0 \<longrightarrow> r = u) \<and> (r \<noteq> 0 \<longrightarrow> r = u \<or> r \<in> set ls) \<and> (\<forall>l \<in> set ls. v (- l) \<or> r = l)"
  using assms
proof (induction ls arbitrary: u)
  case (Cons l ls)
  show ?case
  proof (cases "v (- l)")
    case True
    then show ?thesis using Cons.IH [of u] Cons.prems by auto
  next
    case False
    then show ?thesis using Cons.IH [of l] Cons.prems by (auto split: if_splits)
  qed
qed auto

lemma lr_find_unit_ok:
  assumes "0 \<notin> set ls" "lr_find_unit v 0 ls = r" "r \<noteq> int_min"
  shows "r = 0 \<Longrightarrow> \<forall>l \<in> set ls. v (- l)"
    and "r \<noteq> 0 \<Longrightarrow> r \<in> set ls \<and> (\<forall>l \<in> set ls. l \<noteq> r \<longrightarrow> v (- l))"
  using lr_find_unit_gen [OF assms] assms(1) by auto

subsection \<open>The used flags\<close>

definition lr_erase :: "LratCheckerClause list list \<Rightarrow> LratCheckerClause list list" where
  "lr_erase = map (map (\<lambda>c. c\<lparr>lc_used := False\<rparr>))"

text \<open>A state that differs from \<open>s\<close> in the checking bits, the statistics and used flags only.\<close>

definition lr_near :: "LratChecker \<Rightarrow> LratChecker \<Rightarrow> bool" where
  "lr_near s t \<longleftrightarrow> lr_same (s\<lparr>lr_clauses := lr_clauses t\<rparr>) t
     \<and> lr_erase (lr_clauses t) = lr_erase (lr_clauses s)"

lemma lr_near_same: "lr_near s t \<Longrightarrow> lr_same t u \<Longrightarrow> lr_near s u"
  using lr_sameD(1) [of t u] by (auto simp: lr_near_def intro: lr_same_trans)

lemma lr_nearD:
  assumes "lr_near s t"
  shows "lr_size_clauses t = lr_size_clauses s" "lr_size_vars t = lr_size_vars s"
    "length (lr_checked_lits t) = length (lr_checked_lits s)"
    "length (lr_clauses t) = length (lr_clauses s)"
    "lr_imported_clause t = lr_imported_clause s"
  using assms lr_sameD [of "s\<lparr>lr_clauses := lr_clauses t\<rparr>" t] map_eq_imp_length_eq
  by (auto simp: lr_near_def lr_erase_def)

lemma lr_near_clause:
  assumes "lr_near s t" "c \<in> set (concat (lr_clauses t))"
  shows "\<exists>d \<in> set (concat (lr_clauses s)). c\<lparr>lc_used := False\<rparr> = d\<lparr>lc_used := False\<rparr>"
proof -
  have "map (\<lambda>c. c\<lparr>lc_used := False\<rparr>) (concat (lr_clauses t)) = map (\<lambda>c. c\<lparr>lc_used := False\<rparr>) (concat (lr_clauses s))"
    using assms(1) by (simp add: lr_near_def lr_erase_def map_concat)
  then have "c\<lparr>lc_used := False\<rparr> \<in> set (map (\<lambda>c. c\<lparr>lc_used := False\<rparr>) (concat (lr_clauses s)))"
    using assms(2) by (metis imageI list.set_map)
  then show ?thesis by (auto simp del: set_concat)
qed

lemma lc_used_eq:
  assumes "c\<lparr>lc_used := False\<rparr> = d\<lparr>lc_used := False\<rparr>"
  shows "lc_size c = lc_size d" "lc_literals c = lc_literals d" "lc_tautological c = lc_tautological d"
  using assms by (cases c; cases d; simp)+

lemma nth_update_at: "j < length xs \<Longrightarrow> xs[i := x] ! j = (if i = j then x else xs ! j)"
  by (cases "i < length xs") auto

lemma lr_erase_set_used: "lr_erase (lr_clauses (lr_set_used link b s)) = lr_erase (lr_clauses s)"
proof (cases link)
  case (Pair h pos)
  let ?e = "map (\<lambda>c. c\<lparr>lc_used := False\<rparr>)"
  have e: "?e (xs[pos := (xs ! pos)\<lparr>lc_used := b\<rparr>]) = ?e xs" for xs
    by (rule nth_equalityI) (auto simp: nth_update_at)
  have "map ?e (yss[h := (yss ! h)[pos := (yss ! h ! pos)\<lparr>lc_used := b\<rparr>]]) = map ?e yss" for yss
    by (rule nth_equalityI) (auto simp: nth_update_at e simp del: map_update)
  then show ?thesis by (simp add: Pair lr_erase_def del: map_update)
qed

lemma lr_set_used_same:
  "lr_set_used link b s = s\<lparr>lr_clauses := lr_clauses (lr_set_used link b s)\<rparr>"
  by (cases link) simp

lemma lr_near_set_used: "lr_near s t \<Longrightarrow> lr_near s (lr_set_used link b t)"
  using lr_erase_set_used [of link b t]
  by (cases link; cases s; cases t) (simp add: lr_near_def lr_same_def)

text \<open>The used clauses of the table are among the given links.\<close>

definition lr_used_in :: "lr_link list \<Rightarrow> LratChecker \<Rightarrow> bool" where
  "lr_used_in used s \<longleftrightarrow>
     (\<forall>h pos. h < length (lr_clauses s) \<longrightarrow> pos < length (lr_clauses s ! h) \<longrightarrow>
        lc_used (lr_clauses s ! h ! pos) \<longrightarrow> (h, pos) \<in> set used)"

lemma lr_used_in_mono: "lr_used_in used s \<Longrightarrow> set used \<subseteq> set used' \<Longrightarrow> lr_used_in used' s"
  by (auto simp: lr_used_in_def)

lemma lr_used_in_same: "lr_same s t \<Longrightarrow> lr_used_in used t = lr_used_in used s"
  by (simp add: lr_used_in_def lr_sameD(1))

lemma lr_used_in_set: "lr_used_in used s \<Longrightarrow> lr_used_in (used @ [link]) (lr_set_used link True s)"
  by (cases link) (auto simp: lr_used_in_def nth_update_at split: if_splits)

lemma lr_used_in_unset: "lr_used_in (link # used) s \<Longrightarrow> lr_used_in used (lr_set_used link False s)"
  by (cases link) (auto simp: lr_used_in_def nth_update_at split: if_splits)

lemma lr_used_in_fold:
  "lr_used_in used s \<Longrightarrow> lr_used_in [] (fold (\<lambda>link. lr_set_used link False) used s)"
  by (induction used arbitrary: s) (auto dest: lr_used_in_unset)

lemma lr_near_fold: "lr_near s t \<Longrightarrow> lr_near s (fold (\<lambda>link. lr_set_used link False) used t)"
  by (induction used arbitrary: t) (auto intro: lr_near_set_used)

lemma lr_unused_used_in: "lr_unused s \<longleftrightarrow> lr_used_in [] s"
proof
  assume "lr_unused s"
  then show "lr_used_in [] s" using nth_mem by (fastforce simp: lr_unused_def lr_used_in_def)
next
  assume "lr_used_in [] s"
  then show "lr_unused s" by (auto simp: lr_unused_def lr_used_in_def in_set_conv_nth)
qed

lemma lr_erase_unused: "lr_unused s \<Longrightarrow> lr_erase (lr_clauses s) = lr_clauses s"
  unfolding lr_erase_def lr_unused_def
  by (intro map_idI) (fastforce intro!: LratCheckerClause.equality)

lemma lr_near_unused:
  assumes "lr_near s t" "lr_unused s" "lr_unused t"
  shows "lr_same s t"
proof -
  have "lr_clauses t = lr_clauses s"
    using assms lr_erase_unused by (metis lr_near_def)
  then show ?thesis using assms(1) by (simp add: lr_near_def)
qed

subsection \<open>Checking a chain\<close>

lemma lr_implied_same:
  assumes "lr_implied G s" "lr_same s t" "lr_checked_lits t = lr_checked_lits s"
  shows "lr_implied G t"
  using assms lr_sameD(3) [OF assms(2)] by (simp add: lr_implied_def lr_checked_lit_def)

lemma lr_find_checked:
  assumes "lr_find cid s = Ok (link, t)"
  shows "lr_checked_lits t = lr_checked_lits s"
proof -
  have "lr_checked_lits (snd (lr_find_chain x i cs p u)) = lr_checked_lits u" for x i cs p u
    by (induction cs arbitrary: p u) (auto simp: lr_count_def)
  then show ?thesis
    using assms by (auto simp: lr_find_def lr_compute_hash_def Let_def lr_count_def bind_outcome_Ok case_prod_beta)
qed

text \<open>One clause of the chain: falsified or unit under the checked literals.\<close>

lemma lr_chain_clause:
  assumes imp: "lr_implied G s" and c: "lc_ok (lr_size_vars s) c" "entails G (lc_literals c)"
    and u: "lr_find_unit (lr_checked_lit s) 0 (lc_lits c) = u" "u \<noteq> int_min"
  shows "u = 0 \<Longrightarrow> unsat G"
    and "u \<noteq> 0 \<Longrightarrow> lr_lit_ok (lr_size_vars s) u \<and> entails G [u]"
proof -
  have lits: "lc_lits c = lc_literals c" using c(1) by (simp add: lc_lits_def lc_ok_def)
  have ok: "\<And>l. l \<in> set (lc_literals c) \<Longrightarrow> lr_lit_ok (lr_size_vars s) l" using c(1) by (simp add: lc_ok_def)
  then have nz: "0 \<notin> set (lc_literals c)" by (force simp: lr_lit_ok_def)
  note f = lr_find_unit_ok [OF nz u [unfolded lits]]
  have neg: "entails G [- l]" if "l \<in> set (lc_literals c)" "lr_checked_lit s (- l)" for l
    using imp ok [OF that(1)] that(2) by (simp add: lr_implied_def)
  show "unsat G" if "u = 0"
    using entails_drop_false [OF c(2), of "[]"] f(1) [OF that] neg nz by (simp add: entails_empty_iff)
  show "lr_lit_ok (lr_size_vars s) u \<and> entails G [u]" if "u \<noteq> 0"
    using entails_drop_false [OF c(2), of "[u]"] f(2) [OF that] neg nz ok by auto
qed

lemma lr_check_chain_ok:
  assumes "lr_wf s0" "lr_sem G s0" "lr_near s0 s" "lr_implied G s" "lr_used_in used s"
    and "lr_check_chain ids used s = Ok (ok, used', t)"
  shows "lr_near s0 t \<and> lr_used_in used' t \<and> (ok \<longrightarrow> unsat G)"
  using assms(3-)
proof (induction ids arbitrary: used s)
  case Nil
  then show ?case by simp
next
  case (Cons cid ids)
  obtain link u where u: "lr_find cid s = Ok (link, u)"
    using Cons.prems(4) by (auto simp: bind_outcome_Ok)
  have len: "length (lr_clauses s) = unat (lr_size_clauses s)"
    using assms(1) lr_nearD [OF Cons.prems(1)] by (simp add: lr_wf_def)
  note fo = lr_find_ok [OF u len]
  have near: "lr_near s0 u" by (rule lr_near_same [OF Cons.prems(1) fo(1)])
  have imp: "lr_implied G u" by (rule lr_implied_same [OF Cons.prems(2) fo(1) lr_find_checked [OF u]])
  have uin: "lr_used_in used u" using Cons.prems(3) lr_used_in_same [OF fo(1)] by simp
  have uin': "lr_used_in (used @ [link]) u" by (rule lr_used_in_mono [OF uin]) auto
  show ?case
  proof (cases "lr_at u link")
    case None
    then show ?thesis using Cons.prems(4) u near uin by simp
  next
    case (Some c)
    show ?thesis
    proof (cases "lc_tautological c \<or> lc_used c")
      case True
      then show ?thesis using Cons.prems(4) u Some near uin uin' by (auto split: if_splits)
    next
      case False
      define v where "v = lr_set_used link True u"
      have v: "lr_near s0 v" "lr_used_in (used @ [link]) v"
        using lr_near_set_used [OF near] lr_used_in_set [OF uin] by (simp_all add: v_def)
      have vchk: "lr_checked_lits v = lr_checked_lits u" "lr_size_vars v = lr_size_vars u"
        by (cases link; simp add: v_def)+
      have vimp: "lr_implied G v" using imp vchk by (simp add: lr_implied_def lr_checked_lit_def)
      have "c \<in> set (concat (lr_clauses s))" using fo(3) Some by blast
      then obtain d where d: "d \<in> set (concat (lr_clauses s0))" "c\<lparr>lc_used := False\<rparr> = d\<lparr>lc_used := False\<rparr>"
        using lr_near_clause [OF Cons.prems(1)] by blast
      have "lc_garbage c = lc_garbage d" using d(2) by (cases c; cases d; simp)
      then have c: "lc_ok (lr_size_vars v) c" "entails G (lc_literals c)"
        using assms(1,2) d(1) lc_used_eq [OF d(2)] lr_nearD(2) [OF v(1)]
        by (simp_all add: lr_wf_def lr_sem_def lc_ok_def del: set_concat)
      define unit where "unit = lr_find_unit (lr_checked_lit v) 0 (lc_lits c)"
      have eq: "lr_check_chain (cid # ids) used s =
          (if unit = int_min then Ok (False, used @ [link], v)
           else if unit = 0 then Ok (True, used @ [link], v)
           else lr_check_chain ids (used @ [link]) (lr_set_checked unit True v))"
        using False u Some by (simp add: unit_def v_def Let_def)
      note cl = lr_chain_clause [OF vimp c unit_def [symmetric]]
      show ?thesis
      proof (cases "unit = int_min \<or> unit = 0")
        case True
        then show ?thesis using eq Cons.prems(4) v cl(1) by (auto split: if_splits)
      next
        case False
        then have unit: "lr_lit_ok (lr_size_vars v) unit" "entails G [unit]" using cl(2) by auto
        let ?w = "lr_set_checked unit True v"
        have "lr_near s0 ?w" using lr_near_same [OF v(1)] by simp
        moreover have "lr_implied G ?w" by (rule lr_implied_set [OF vimp unit])
        moreover have "lr_used_in (used @ [link]) ?w" using v(2) lr_used_in_same [of v ?w] by simp
        moreover have "lr_check_chain ids (used @ [link]) ?w = Ok (ok, used', t)"
          using eq False Cons.prems(4) by simp
        ultimately show ?thesis by (rule Cons.IH)
      qed
    qed
  qed
qed

lemma lr_near_refl: "lr_near s s"
  by (simp add: lr_near_def)

lemma lr_check_ok:
  assumes wf: "lr_wf s" and un: "lr_unused s" and sem: "lr_sem F s"
    and lits: "\<forall>l \<in> set (lr_imported_clause s). lr_lit_ok (lr_size_vars s) l"
    and ck: "lr_check chain s = Ok (ok, t)"
  shows "lr_same s t" "ok \<Longrightarrow> entails F (lr_imported_clause s)"
proof -
  define s1 where "s1 = lr_clear_checked (lr_count (\<lambda>t. t\<lparr>ls_checks := Suc (ls_checks t)\<rparr>) s)"
  have s1: "lr_same s s1" unfolding s1_def by (rule lr_same_trans [OF lr_same_count lr_same_clear])
  let ?G = "F \<union> units (map uminus (lr_imported_clause s))"
  obtain taut u where u: "lr_assume_negation (lr_imported_clause s1) s1 = (taut, u)" by fastforce
  have imp: "lr_implied ?G s1" unfolding s1_def
    by (rule lr_implied_clear) (use wf in \<open>simp add: lr_wf_def lr_count_def\<close>)
  have "\<forall>l \<in> set (lr_imported_clause s1). lr_lit_ok (lr_size_vars s1) l \<and> entails ?G [- l]"
    using lits lr_sameD(3,7) [OF s1] by (auto simp: units_def intro!: entails_member)
  note neg = lr_assume_negation_ok [OF imp this u]
  have su: "lr_same s u" by (rule lr_same_trans [OF s1 neg(1)])
  have refute: "entails F (lr_imported_clause s)" if "unsat ?G"
    by (rule entails_refute [OF that]) (use lits in \<open>auto simp: lr_lit_ok_def\<close>)
  have "lr_same s t \<and> (ok \<longrightarrow> unsat ?G)"
  proof (cases taut)
    case True
    then have "lr_check chain s = Ok (True, u)"
      using u by (simp add: lr_check_def s1_def [symmetric] Let_def)
    then show ?thesis using ck su neg(3) True by simp
  next
    case False
    then have "bind_outcome (lr_check_chain chain [] u)
        (\<lambda>(checking, used, s). Ok (checking, fold (\<lambda>link. lr_set_used link False) used s)) = Ok (ok, t)"
      using u ck by (simp add: lr_check_def s1_def [symmetric] Let_def)
    then obtain used v where v: "lr_check_chain chain [] u = Ok (ok, used, v)"
        "t = fold (\<lambda>link. lr_set_used link False) used v"
      by (auto simp: bind_outcome_Ok)
    have semG: "lr_sem ?G u" using lr_sem_mono [OF sem, of ?G] lr_sameD(11) [OF su] by simp
    have "lr_used_in [] u" using un lr_sameD(10) [OF su] lr_unused_used_in by blast
    from lr_check_chain_ok [OF _ semG lr_near_refl neg(2) this v(1)]
    have near: "lr_near u v" "lr_used_in used v" "ok \<longrightarrow> unsat ?G" using wf lr_sameD(9) [OF su] by auto
    have "lr_unused t" using lr_used_in_fold [OF near(2)] by (simp add: lr_unused_used_in v(2))
    moreover have "lr_near u t" using lr_near_fold [OF near(1)] by (simp add: v(2))
    ultimately have "lr_same u t" using lr_near_unused un lr_sameD(10) [OF su] by blast
    then show ?thesis using near(3) lr_same_trans [OF su] by blast
  qed
  then show "lr_same s t" "ok \<Longrightarrow> entails F (lr_imported_clause s)" using refute by blast+
qed

subsection \<open>The resolution check changes no clause\<close>

lemma lr_resolve_literal_same [simp]: "lr_same s (lr_resolve_literal l s)"
  by (simp add: lr_resolve_literal_def)

lemma lr_resolve_chain_same:
  assumes "length (lr_clauses s) = unat (lr_size_clauses s)" "lr_resolve_chain ids s = Ok t"
  shows "lr_same s t"
  using assms
proof (induction ids arbitrary: s)
  case (Cons cid ids)
  obtain link u where u: "lr_find cid s = Ok (link, u)" using Cons.prems(2) by (auto simp: bind_outcome_Ok)
  have su: "lr_same s u" by (rule lr_find_ok(1) [OF u Cons.prems(1)])
  obtain c where c: "lr_at u link = Some c" "lr_resolve_chain ids (fold lr_resolve_literal (lc_lits c) u) = Ok t"
    using Cons.prems(2) u by (auto split: option.splits)
  have fs: "lr_same s (fold lr_resolve_literal (lc_lits c) u)"
    by (rule lr_same_trans [OF su lr_same_fold]) simp
  show ?case
    using Cons.IH [OF _ c(2)] lr_sameD(1,2) [OF fs] Cons.prems(1) lr_same_trans [OF fs] by simp
qed simp

lemma lr_match_clause_same: "lr_match_clause ls s = (ok, t) \<Longrightarrow> lr_same s t"
proof (induction ls arbitrary: s)
  case (Cons l ls)
  let ?u = "if \<not> lr_checked_lit s l then lr_set_checked l True s else s"
  have "lr_same s (lr_set_checked (- l) True ?u)" by (rule lr_same_trans [OF _ lr_same_set_checked]) simp
  moreover have "lr_match_clause (l # ls) s =
      (if lr_checked_lit s (- l) then (False, s) else lr_match_clause ls (lr_set_checked (- l) True ?u))"
    by (simp add: Let_def)
  ultimately show ?case
    using Cons.prems Cons.IH [of "lr_set_checked (- l) True ?u"]
      lr_same_trans [of s "lr_set_checked (- l) True ?u" t]
    by (cases "lr_checked_lit s (- l)") simp_all
qed simp

lemma lr_check_resolution_same:
  assumes len: "length (lr_clauses s) = unat (lr_size_clauses s)" and r: "lr_check_resolution chain s = Ok (ok, t)"
  shows "lr_same s t"
proof (cases "chain = [] \<or> lr_strict_lrat s")
  case True
  then show ?thesis using r by (auto simp: lr_check_resolution_def split: if_splits)
next
  case False
  let ?u = "lr_clear_checked s"
  have len': "length (lr_clauses ?u) = unat (lr_size_clauses ?u)" using len by (simp add: lr_clear_checked_def)
  obtain link v where v: "lr_find (last chain) ?u = Ok (link, v)"
    using r False by (auto simp: lr_check_resolution_def bind_outcome_Ok)
  have sv: "lr_same s v" by (rule lr_same_trans [OF lr_same_clear lr_find_ok(1) [OF v len']])
  obtain c where c: "lr_at v link = Some c" using r False v by (auto simp: lr_check_resolution_def split: option.splits)
  let ?w = "fold (\<lambda>lit. lr_set_checked lit True) (lc_lits c) v"
  have sw: "lr_same s ?w" by (rule lr_same_trans [OF sv lr_same_fold]) simp
  obtain x where x: "lr_resolve_chain (rev (butlast chain)) ?w = Ok x"
    using r False v c by (auto simp: lr_check_resolution_def bind_outcome_Ok)
  have sx: "lr_same s x"
    using lr_resolve_chain_same [OF _ x] lr_sameD(1,2) [OF sw] len lr_same_trans [OF sw] by simp
  obtain ok' y where y: "lr_match_clause (lr_imported_clause x) x = (ok', y)" by fastforce
  have "t = y" using r False v c x y by (auto simp: lr_check_resolution_def)
  then show ?thesis using lr_same_trans [OF sx lr_match_clause_same [OF y]] by simp
qed

subsection \<open>Importing a clause\<close>

text \<open>Fields no operation below touches unless it says so.\<close>

definition lr_keeps :: "LratChecker \<Rightarrow> LratChecker \<Rightarrow> bool" where
  "lr_keeps s t \<longleftrightarrow>
     lr_strict_lrat t = lr_strict_lrat s
     \<and> lr_clauses_to_reconstruct t = lr_clauses_to_reconstruct s
     \<and> lr_assumptions t = lr_assumptions s \<and> lr_constraint t = lr_constraint s
     \<and> lr_concluded t = lr_concluded s \<and> lr_assumption_clauses t = lr_assumption_clauses s"

text \<open>The fields that conclusions depend on.\<close>

definition lr_scope :: "LratChecker \<Rightarrow> LratChecker \<Rightarrow> bool" where
  "lr_scope s t \<longleftrightarrow>
     lr_assumptions t = lr_assumptions s \<and> lr_constraint t = lr_constraint s
     \<and> lr_concluded t = lr_concluded s \<and> lr_assumption_clauses t = lr_assumption_clauses s"

lemma lr_scope_trans: "lr_scope s t \<Longrightarrow> lr_scope t u \<Longrightarrow> lr_scope s u"
  by (simp add: lr_scope_def)

lemma lr_keeps_scope: "lr_keeps s t \<Longrightarrow> lr_scope s t"
  by (simp add: lr_keeps_def lr_scope_def)

lemma lr_keeps_trans: "lr_keeps s t \<Longrightarrow> lr_keeps t u \<Longrightarrow> lr_keeps s u"
  by (simp add: lr_keeps_def)

lemma lr_same_keeps: "lr_same s t \<Longrightarrow> lr_keeps s t"
  using lr_sameD [of s t] by (simp add: lr_keeps_def)

lemma lc_ok_mono: "lc_ok n c \<Longrightarrow> n \<le> m \<Longrightarrow> lc_ok m c"
  by (force simp: lc_ok_def lr_lit_ok_def)

lemma lr_import_literal_ok:
  assumes wf: "lr_wf s" and l: "l \<noteq> 0" "\<bar>l\<bar> \<le> 2147483647"
  defines "t \<equiv> lr_import_literal l s"
  shows "lr_wf t" "lr_size_vars s \<le> lr_size_vars t" "lr_lit_ok (lr_size_vars t) l"
    "lr_imported_clause t = lr_imported_clause s @ [l]" "lr_clauses t = lr_clauses s"
    "lr_size_clauses t = lr_size_clauses s" "lr_keeps s t"
proof -
  have n0: "0 \<le> lr_size_vars s" using wf by (simp add: lr_wf_def)
  let ?n = "grow_size \<bar>l\<bar> (if lr_size_vars s \<noteq> 0 then 2 * lr_size_vars s else 2)"
  have g: "\<bar>l\<bar> < ?n" "lr_size_vars s \<le> ?n"
    using grow_size [of "if lr_size_vars s \<noteq> 0 then 2 * lr_size_vars s else 2" "\<bar>l\<bar>"] n0
    by (auto split: if_splits)
  show n: "lr_size_vars s \<le> lr_size_vars t" "lr_lit_ok (lr_size_vars t) l"
    using g l by (auto simp: t_def lr_import_literal_def lr_enlarge_vars_def Let_def lr_lit_ok_def)
  have m: "lr_marks t = replicate (nat (2 * lr_size_vars t)) False"
    using wf by (intro nth_equalityI)
      (auto simp: t_def lr_import_literal_def lr_enlarge_vars_def Let_def nth_resize lr_wf_def split: if_splits)
  have ok: "lc_ok (lr_size_vars t) c" if "lc_ok (lr_size_vars s) c" for c using lc_ok_mono [OF that n(1)] .
  have same: "lr_clauses t = lr_clauses s" "lr_size_clauses t = lr_size_clauses s" "lr_nonces t = lr_nonces s"
    "lr_num_clauses t = lr_num_clauses s" "lr_num_garbage t = lr_num_garbage s" "lr_garbage t = lr_garbage s"
    "length (lr_checked_lits t) = nat (2 * lr_size_vars t)"
    using wf by (simp_all add: t_def lr_import_literal_def lr_enlarge_vars_def Let_def lr_wf_def)
  show "lr_wf t"
    using wf n n0 m ok unfolding lr_wf_def same(1-6) by (simp add: same(7))
  show "lr_imported_clause t = lr_imported_clause s @ [l]" "lr_clauses t = lr_clauses s"
    "lr_size_clauses t = lr_size_clauses s" "lr_keeps s t"
    by (simp_all add: t_def lr_import_literal_def lr_enlarge_vars_def Let_def lr_keeps_def)
qed

lemma lr_import_clause_ok:
  assumes "lr_wf s" and "valid_clause c"
  shows "lr_wf (lr_import_clause c s) \<and> lr_size_vars s \<le> lr_size_vars (lr_import_clause c s)
    \<and> (\<forall>l \<in> set c. lr_lit_ok (lr_size_vars (lr_import_clause c s)) l)
    \<and> lr_imported_clause (lr_import_clause c s) = lr_imported_clause s @ c
    \<and> lr_clauses (lr_import_clause c s) = lr_clauses s
    \<and> lr_size_clauses (lr_import_clause c s) = lr_size_clauses s
    \<and> lr_keeps s (lr_import_clause c s)"
  using assms unfolding lr_import_clause_def
proof (induction c arbitrary: s)
  case Nil
  then show ?case by (simp add: lr_keeps_def)
next
  case (Cons l c)
  have l: "l \<noteq> 0" "\<bar>l\<bar> \<le> 2147483647" "valid_clause c" using Cons.prems(2) by (auto simp: valid_clause_def)
  note st = lr_import_literal_ok [OF Cons.prems(1) l(1,2)]
  note ih = Cons.IH [OF st(1) l(3)]
  have "lr_lit_ok (lr_size_vars (fold lr_import_literal c (lr_import_literal l s))) l"
    using st(3) ih by (auto simp: lr_lit_ok_def)
  then show ?case using st ih lr_keeps_trans by auto
qed

lemma lr_wf_updates [simp]:
  "lr_wf (s\<lparr>lr_last_id := i\<rparr>) = lr_wf s" "lr_wf (s\<lparr>lr_current_id := i\<rparr>) = lr_wf s"
  "lr_wf (s\<lparr>lr_imported_clause := c\<rparr>) = lr_wf s" "lr_wf (s\<lparr>lr_num_finalized := n\<rparr>) = lr_wf s"
  "lr_wf (s\<lparr>lr_clauses_to_reconstruct := m\<rparr>) = lr_wf s" "lr_wf (s\<lparr>lr_concluded := b\<rparr>) = lr_wf s"
  "lr_wf (s\<lparr>lr_assumption_clauses := cs\<rparr>) = lr_wf s" "lr_wf (s\<lparr>lr_assumptions := c\<rparr>) = lr_wf s"
  "lr_wf (s\<lparr>lr_constraint := c\<rparr>) = lr_wf s" "lr_wf (s\<lparr>lr_strict_lrat := b\<rparr>) = lr_wf s"
  by (simp_all add: lr_wf_def)

lemma lr_unused_updates [simp]:
  "lr_unused (s\<lparr>lr_last_id := i\<rparr>) = lr_unused s" "lr_unused (s\<lparr>lr_current_id := i\<rparr>) = lr_unused s"
  "lr_unused (s\<lparr>lr_imported_clause := c\<rparr>) = lr_unused s" "lr_unused (s\<lparr>lr_num_finalized := n\<rparr>) = lr_unused s"
  "lr_unused (s\<lparr>lr_clauses_to_reconstruct := m\<rparr>) = lr_unused s" "lr_unused (s\<lparr>lr_concluded := b\<rparr>) = lr_unused s"
  "lr_unused (s\<lparr>lr_assumption_clauses := cs\<rparr>) = lr_unused s" "lr_unused (s\<lparr>lr_assumptions := c\<rparr>) = lr_unused s"
  "lr_unused (s\<lparr>lr_constraint := c\<rparr>) = lr_unused s" "lr_unused (s\<lparr>lr_strict_lrat := b\<rparr>) = lr_unused s"
  by (simp_all add: lr_unused_def)

lemma lr_sem_updates [simp]:
  "lr_sem F (s\<lparr>lr_last_id := i\<rparr>) = lr_sem F s" "lr_sem F (s\<lparr>lr_current_id := i\<rparr>) = lr_sem F s"
  "lr_sem F (s\<lparr>lr_imported_clause := c\<rparr>) = lr_sem F s" "lr_sem F (s\<lparr>lr_num_finalized := n\<rparr>) = lr_sem F s"
  "lr_sem F (s\<lparr>lr_concluded := b\<rparr>) = lr_sem F s"
  "lr_sem F (s\<lparr>lr_assumption_clauses := cs\<rparr>) = lr_sem F s" "lr_sem F (s\<lparr>lr_assumptions := c\<rparr>) = lr_sem F s"
  "lr_sem F (s\<lparr>lr_constraint := c\<rparr>) = lr_sem F s" "lr_sem F (s\<lparr>lr_strict_lrat := b\<rparr>) = lr_sem F s"
  by (simp_all add: lr_sem_def)

text \<open>The prologue of every entry point that takes a clause.\<close>

lemma lr_prologue:
  assumes c: "valid_clause c"
    and s': "lr_wf s'" "lr_unused s'" "lr_sem F s'" "lr_imported_clause s' = []"
    and t: "t = (lr_import_clause c s')\<lparr>lr_last_id := i\<rparr>"
  shows "lr_wf t" "lr_unused t" "lr_sem F t" "lr_imported_clause t = c"
    "\<forall>l \<in> set (lr_imported_clause t). lr_lit_ok (lr_size_vars t) l" "lr_keeps s' t"
    "lr_size_clauses t = lr_size_clauses s'"
proof -
  note im = lr_import_clause_ok [OF s'(1) c]
  show "lr_wf t" using im by (simp add: t)
  show "lr_unused t" using im s'(2) by (simp add: t lr_unused_def)
  show "lr_sem F t" using im s'(3) by (simp add: t lr_sem_def lr_keeps_def)
  show "lr_imported_clause t = c" "\<forall>l \<in> set (lr_imported_clause t). lr_lit_ok (lr_size_vars t) l"
    "lr_keeps s' t" "lr_size_clauses t = lr_size_clauses s'"
    using im s'(4) by (simp_all add: t lr_keeps_def)
qed

subsection \<open>Inserting a clause\<close>

lemma lr_taut_loop_same: "lr_taut_loop ls b s = (b', t) \<Longrightarrow> lr_same s t"
proof (induction ls arbitrary: b s)
  case (Cons l ls)
  let ?u = "lr_set_checked (- l) True s"
  have "lr_taut_loop ls (b \<or> lr_checked_lit ?u l) ?u = (b', t)" using Cons.prems by (simp add: Let_def)
  from Cons.IH [OF this] show ?case using lr_same_trans [OF lr_same_set_checked] by blast
qed simp

lemma lr_new_clause_ok:
  assumes "lr_new_clause s = (c, t)"
  shows "\<exists>u. lr_same s u \<and> t = u\<lparr>lr_num_clauses := lr_num_clauses u + 1\<rparr>"
    "lc_hash c = lr_last_hash s" "lc_literals c = lr_imported_clause s" "\<not> lc_used c" "\<not> lc_garbage c"
    "lc_size c = length (lr_imported_clause s)" "lc_id c = lr_last_id s"
proof -
  obtain b v where v: "lr_taut_loop (lr_imported_clause s) False (lr_clear_checked s) = (b, v)" by fastforce
  have sv: "lr_same s v" using lr_same_trans [OF lr_same_clear lr_taut_loop_same [OF v]] .
  have imp: "lr_imported_clause (lr_clear_checked s) = lr_imported_clause s" by (simp add: lr_clear_checked_def)
  have hash: "lr_last_hash (snd (lr_taut_loop ls b u)) = lr_last_hash u" for ls b u
    by (induction ls arbitrary: b u) (simp_all add: Let_def lr_set_checked_def)
  have h: "lr_last_hash v = lr_last_hash s"
    using hash [of "lr_imported_clause s" False "lr_clear_checked s"] v by (simp add: lr_clear_checked_def)
  let ?w = "fold (\<lambda>lit. lr_set_checked (- lit) False) (lr_imported_clause v) v"
  have sw: "lr_same s ?w" by (rule lr_same_trans [OF sv lr_same_fold]) simp
  have "t = ?w\<lparr>lr_num_clauses := lr_num_clauses ?w + 1\<rparr>"
    using assms v by (auto simp: lr_new_clause_def Let_def imp)
  then show "\<exists>u. lr_same s u \<and> t = u\<lparr>lr_num_clauses := lr_num_clauses u + 1\<rparr>" using sw by blast
  show "lc_hash c = lr_last_hash s" "lc_literals c = lr_imported_clause s" "\<not> lc_used c" "\<not> lc_garbage c"
    "lc_size c = length (lr_imported_clause s)" "lc_id c = lr_last_id s"
    using assms v lr_sameD(7,8) [OF sv] h by (auto simp: lr_new_clause_def Let_def imp)
qed

text \<open>Making room and putting the clause into its bucket, as in the other checker.\<close>

definition lr_room :: "LratChecker \<Rightarrow> bool" where
  "lr_room s \<longleftrightarrow> unat (lr_size_clauses s) < 2 ^ 63"

definition lr_make_room :: "LratChecker \<Rightarrow> LratChecker outcome" where
  "lr_make_room s = (if lr_num_clauses s = lr_size_clauses s then lr_enlarge_clauses s else Ok s)"

definition lr_put_clause :: "LratChecker \<Rightarrow> LratChecker outcome" where
  "lr_put_clause s =
     (case lr_compute_hash (lr_last_id s) s of (x, s) \<Rightarrow>
        bind_outcome (of_loop (reduce_hash x (lr_size_clauses s)))
          (\<lambda>h. case lr_new_clause s of (c, s) \<Rightarrow>
             Ok (s\<lparr>lr_clauses := (lr_clauses s)[unat h := c # lr_clauses s ! unat h]\<rparr>)))"

lemma lr_insert_split:
  "lr_insert s =
     bind_outcome (lr_make_room (lr_count (\<lambda>t. t\<lparr>ls_insertions := ls_insertions t + 1\<rparr>) s)) lr_put_clause"
  by (simp add: lr_insert_def lr_make_room_def lr_put_clause_def [abs_def] Let_def)

definition lr_ready :: "clause set \<Rightarrow> LratChecker \<Rightarrow> bool" where
  "lr_ready F s \<longleftrightarrow> lr_wf s \<and> lr_unused s \<and> lr_sem F s
     \<and> (\<forall>l \<in> set (lr_imported_clause s). lr_lit_ok (lr_size_vars s) l)"

lemma lr_ready_same: "lr_same s t \<Longrightarrow> lr_ready F t = lr_ready F s"
  by (simp add: lr_ready_def lr_sameD)

lemma lr_make_room_ok:
  assumes rd: "lr_ready F s"
    and full: "lr_num_clauses s = lr_size_clauses s \<Longrightarrow> lr_size_clauses s \<noteq> 0 \<Longrightarrow> 2 * lr_size_clauses s \<noteq> 0"
  shows "\<exists>u. lr_make_room s = Ok u \<and> lr_ready F u \<and> lr_size_clauses u \<noteq> 0 \<and> lr_keeps s u
    \<and> lr_imported_clause u = lr_imported_clause s
    \<and> mset (concat (lr_clauses u)) = mset (concat (lr_clauses s))"
proof (cases "lr_num_clauses s = lr_size_clauses s")
  case True
  let ?n = "if lr_size_clauses s \<noteq> 0 then 2 * lr_size_clauses s else 1"
  have n: "?n \<noteq> 0" using full [OF True] by simp
  have "placed lc_hash ?n (replicate (unat ?n) [])" by (simp add: placed_def)
  from rehash_table_ok [OF n _ this, of "lr_clauses s"]
  obtain t where t: "rehash_table lc_hash ?n (lr_clauses s) (replicate (unat ?n) []) = Ok t"
    "length t = unat ?n" "placed lc_hash ?n t" "mset (concat t) = mset (concat (lr_clauses s))"
    by auto
  let ?u = "s\<lparr>lr_clauses := t, lr_size_clauses := ?n\<rparr>"
  have e: "set (concat t) = set (concat (lr_clauses s))" "length (concat t) = length (concat (lr_clauses s))"
    using mset_eq_setD [OF t(4)] mset_eq_length [OF t(4)] by simp_all
  have "lr_ready F ?u"
    using rd t(2,3) unfolding lr_ready_def lr_wf_def lr_unused_def lr_sem_def
    by (simp add: e del: set_concat)
  moreover have "lr_make_room s = Ok ?u" using True t(1) by (simp add: lr_make_room_def lr_enlarge_clauses_def Let_def)
  ultimately show ?thesis using n t(4) by (intro exI [of _ ?u]) (simp add: lr_keeps_def)
next
  case False
  then have "lr_size_clauses s \<noteq> 0" using rd by (auto simp: lr_ready_def lr_wf_def)
  then show ?thesis using False rd by (simp add: lr_make_room_def lr_keeps_def)
qed

lemma lr_put_clause_ok:
  assumes rd: "lr_ready F s" and n0: "lr_size_clauses s \<noteq> 0" and e: "entails F (lr_imported_clause s)"
  shows "\<exists>t c. lr_put_clause s = Ok t \<and> lr_ready F t \<and> lr_keeps s t \<and> lc_literals c = lr_imported_clause s
    \<and> lc_id c = lr_last_id s \<and> mset (concat (lr_clauses t)) = add_mset c (mset (concat (lr_clauses s)))"
proof -
  obtain x v where v: "lr_compute_hash (lr_last_id s) s = (x, v)" by fastforce
  then have v': "v = s\<lparr>lr_last_hash := x\<rparr>" by (auto simp: lr_compute_hash_def Let_def)
  have sv: "lr_same s v" by (simp add: v' lr_same_def)
  obtain h where h: "reduce_hash x (lr_size_clauses s) = Some h" using reduce_hash_total [OF n0] by blast
  obtain c w where w: "lr_new_clause v = (c, w)" by fastforce
  note nc = lr_new_clause_ok [OF w]
  obtain u where u: "lr_same v u" "w = u\<lparr>lr_num_clauses := lr_num_clauses u + 1\<rparr>" using nc(1) by blast
  have su: "lr_same s u" by (rule lr_same_trans [OF sv u(1)])
  have cl: "lr_clauses w = lr_clauses s" "lr_size_clauses v = lr_size_clauses s"
    using lr_sameD(1) [OF su] u(2) by (simp_all add: v')
  let ?t = "w\<lparr>lr_clauses := (lr_clauses w)[unat h := c # lr_clauses w ! unat h]\<rparr>"
  have put: "lr_put_clause s = Ok ?t" using v h w cl(2) by (simp add: lr_put_clause_def)
  have len: "length (lr_clauses s) = unat (lr_size_clauses s)" using rd by (simp add: lr_ready_def lr_wf_def)
  have i: "unat h < length (lr_clauses s)" using reduce_hash_bound [OF h n0] len by simp
  have m: "mset (concat (lr_clauses ?t)) = add_mset c (mset (concat (lr_clauses s)))"
    using mset_concat_cons [OF i] by (simp add: cl)
  then have m': "mset (concat (lr_clauses ?t)) = mset (c # concat (lr_clauses s))" by simp
  have st: "set (concat (lr_clauses ?t)) = insert c (set (concat (lr_clauses s)))"
    "length (concat (lr_clauses ?t)) = Suc (length (concat (lr_clauses s)))"
    using mset_eq_setD [OF m'] mset_eq_length [OF m'] by simp_all
  have cp: "lc_hash c = x" "lc_literals c = lr_imported_clause s" "lc_id c = lr_last_id s"
    using nc by (simp_all add: v')
  have "placed lc_hash (lr_size_clauses s) (lr_clauses ?t)"
    unfolding LratChecker.simps cl(1)
    by (simp add: cl, rule placed_cons [OF _ _ refl])
      (use rd h cp in \<open>simp_all add: lr_ready_def lr_wf_def\<close>)
  moreover have "lc_ok (lr_size_vars s) c" using rd cp nc by (simp add: lr_ready_def lc_ok_def v')
  ultimately have "lr_ready F ?t"
    using rd cp nc(4) e u(2) lr_sameD [OF su] len
    unfolding lr_ready_def lr_wf_def lr_unused_def lr_sem_def st
    by (simp add: cl del: set_concat)
  moreover have "lr_keeps s ?t" using lr_same_keeps [OF su] u(2) by (simp add: lr_keeps_def)
  ultimately show ?thesis using put m cp by blast
qed

lemma lr_make_room_stuck:
  assumes "lr_num_clauses s = lr_size_clauses s" "lr_size_clauses s \<noteq> 0" "2 * lr_size_clauses s = 0"
    and "lr_make_room s = Ok u"
  shows "lr_put_clause u = Diverge"
proof -
  have "lr_size_clauses u = 0"
    using assms by (auto simp: lr_make_room_def lr_enlarge_clauses_def bind_outcome_Ok)
  then show ?thesis
    by (simp add: lr_put_clause_def lr_compute_hash_def Let_def reduce_hash_zero)
qed

lemma lr_insert_ok:
  assumes rd: "lr_ready F s" and e: "entails F (lr_imported_clause s)"
  shows "lr_insert s = Ok t \<Longrightarrow> lr_ready F t \<and> lr_keeps s t
      \<and> (\<exists>c. lc_literals c = lr_imported_clause s
             \<and> mset (concat (lr_clauses t)) = add_mset c (mset (concat (lr_clauses s))))"
    and "lr_room s \<Longrightarrow> \<exists>t. lr_insert s = Ok t"
proof -
  define s1 where "s1 = lr_count (\<lambda>t. t\<lparr>ls_insertions := ls_insertions t + 1\<rparr>) s"
  have s1: "lr_same s s1" by (simp add: s1_def)
  have rd1: "lr_ready F s1" using rd lr_ready_same [OF s1] by simp
  have ins: "lr_insert s = bind_outcome (lr_make_room s1) lr_put_clause"
    by (simp add: lr_insert_split s1_def)
  have good: "\<exists>u t c. lr_make_room s1 = Ok u \<and> lr_put_clause u = Ok t \<and> lr_ready F t \<and> lr_keeps s t
      \<and> lc_literals c = lr_imported_clause s
      \<and> mset (concat (lr_clauses t)) = add_mset c (mset (concat (lr_clauses s)))"
    if full: "lr_num_clauses s1 = lr_size_clauses s1 \<Longrightarrow> lr_size_clauses s1 \<noteq> 0 \<Longrightarrow> 2 * lr_size_clauses s1 \<noteq> 0"
  proof -
    obtain u where u: "lr_make_room s1 = Ok u" "lr_ready F u" "lr_size_clauses u \<noteq> 0" "lr_keeps s1 u"
      "lr_imported_clause u = lr_imported_clause s1"
      "mset (concat (lr_clauses u)) = mset (concat (lr_clauses s1))"
      using lr_make_room_ok [OF rd1 full] by blast
    have "entails F (lr_imported_clause u)" using e u(5) lr_sameD(7) [OF s1] by simp
    from lr_put_clause_ok [OF u(2,3) this] obtain t c where
      "lr_put_clause u = Ok t" "lr_ready F t" "lr_keeps u t" "lc_literals c = lr_imported_clause u"
      "mset (concat (lr_clauses t)) = add_mset c (mset (concat (lr_clauses u)))" by blast
    then show ?thesis
      using u lr_sameD(1,7) [OF s1] lr_same_keeps [OF s1] lr_keeps_trans by metis
  qed
  show "lr_insert s = Ok t \<Longrightarrow> lr_ready F t \<and> lr_keeps s t
      \<and> (\<exists>c. lc_literals c = lr_imported_clause s
             \<and> mset (concat (lr_clauses t)) = add_mset c (mset (concat (lr_clauses s))))"
    using good lr_make_room_stuck [of s1] unfolding ins by (fastforce simp: bind_outcome_Ok)
  assume room: "lr_room s"
  have "2 * lr_size_clauses s1 \<noteq> 0" if n: "lr_size_clauses s1 \<noteq> 0"
  proof
    assume z: "2 * lr_size_clauses s1 = 0"
    have "unat (2 * lr_size_clauses s1) = 2 * unat (lr_size_clauses s1)"
      using room lr_sameD(2) [OF s1] by (simp add: lr_room_def unat_word_ariths)
    then show False using n z by (simp add: unat_eq_zero)
  qed
  then show "\<exists>t. lr_insert s = Ok t" unfolding ins using good by fastforce
qed

subsection \<open>The entry points\<close>

lemma lr_check_fresh_ok:
  assumes "lr_check_fresh cid s = Ok t" "length (lr_clauses s) = unat (lr_size_clauses s)"
  shows "lr_same s t"
  using assms lr_find_ok(1) [of cid s _ t] by (auto simp: lr_check_fresh_def bind_outcome_Ok split: if_splits)

text \<open>Inserting the imported clause and clearing the buffer ends in the invariant.\<close>

lemma lr_finish:
  assumes "lr_ready G s" "entails G (lr_imported_clause s)"
    and "bind_outcome (lr_insert s) (\<lambda>s. Ok (s\<lparr>lr_imported_clause := []\<rparr>)) = Ok t"
  shows "lr_inv G t" "lr_keeps s t"
  using assms lr_insert_ok(1) [OF assms(1,2)]
  by (auto simp: bind_outcome_Ok lr_inv_def lr_ready_def lr_keeps_def)

lemma lr_restore_ok:
  assumes r: "lr_restore_clause cid c s = Ok t" and inv: "lr_inv F s"
  shows "lr_inv F t"
    and "lr_strict_lrat s \<or> lr_clauses_to_reconstruct s cid \<noteq> None \<Longrightarrow> entails F c"
proof -
  show "lr_inv F t"
    using r inv by (auto simp: lr_restore_clause_def lr_inv_def lr_sem_def Let_def split: option.splits if_splits)
  assume "lr_strict_lrat s \<or> lr_clauses_to_reconstruct s cid \<noteq> None"
  then obtain d where d: "lr_clauses_to_reconstruct s cid = Some d" "length c = length d"
    "\<forall>i < length c. sort c ! i = d ! i"
    using r by (auto simp: lr_restore_clause_def Let_def split: option.splits if_splits)
  then have "d = sort c" by (intro nth_equalityI) auto
  moreover have "entails F d" using inv d(1) by (auto simp: lr_inv_def lr_sem_def)
  ultimately show "entails F c" using entails_cong_set [of c "sort c"] by simp
qed

lemma lr_add_original_gen:
  assumes inv: "lr_inv F s" and c: "valid_clause c" and t: "lr_add_original_clause cid c restore s = Ok t"
  shows "restore \<Longrightarrow> lr_strict_lrat s \<or> lr_clauses_to_reconstruct s cid \<noteq> None \<Longrightarrow> lr_inv F t"
    and "lr_inv (insert c F) t" and "lr_scope s t"
proof -
  obtain s1 where s1: "(if restore then lr_restore_clause cid c s else Ok s) = Ok s1"
    using t by (auto simp: lr_add_original_clause_def bind_outcome_Ok)
  have inv1: "lr_inv F s1" using s1 inv lr_restore_ok(1) by (auto split: if_splits)
  define s2 where "s2 = lr_count (\<lambda>t. t\<lparr>ls_added := ls_added t + 1, ls_original := ls_original t + 1\<rparr>) s1"
  have s2: "lr_same s1 s2" by (simp add: s2_def)
  define s3 where "s3 = (lr_import_clause c s2)\<lparr>lr_last_id := cid\<rparr>"
  define s4 where "s4 = (if \<not> restore \<and> cid = 1 + lr_current_id s3 then s3\<lparr>lr_current_id := cid\<rparr> else s3)"
  have fin: "bind_outcome (if lr_size_clauses s4 \<noteq> 0 \<and> \<not> restore then lr_check_fresh cid s4 else Ok s4)
      (\<lambda>s. bind_outcome (lr_insert s) (\<lambda>s. Ok (s\<lparr>lr_imported_clause := []\<rparr>))) = Ok t"
    using t unfolding lr_add_original_clause_def s1 bind_outcome.simps Let_def s2_def s3_def s4_def .
  then obtain s5 where s5: "(if lr_size_clauses s4 \<noteq> 0 \<and> \<not> restore then lr_check_fresh cid s4 else Ok s4) = Ok s5"
    "bind_outcome (lr_insert s5) (\<lambda>s. Ok (s\<lparr>lr_imported_clause := []\<rparr>)) = Ok t"
    by (auto simp: bind_outcome_Ok)
  have sc1: "lr_scope s s1"
    using s1 by (auto simp: lr_scope_def lr_restore_clause_def Let_def split: if_splits option.splits)
  have all: "lr_inv G t \<and> lr_scope s t" if G: "F \<subseteq> G" "entails G c" for G
  proof -
    have "lr_wf s2" "lr_unused s2" "lr_sem G s2" "lr_imported_clause s2 = []"
      using inv1 lr_sameD [OF s2] lr_sem_mono [OF _ G(1)] by (auto simp: lr_inv_def)
    note p = lr_prologue [OF c this s3_def]
    have "lr_ready G s3" using p by (simp add: lr_ready_def)
    then have r4: "lr_ready G s4" "lr_imported_clause s4 = c" using p(4) by (simp_all add: s4_def lr_ready_def)
    then have s45: "lr_same s4 s5"
      using s5(1) lr_check_fresh_ok by (auto simp: lr_ready_def lr_wf_def split: if_splits)
    then have rd: "lr_ready G s5" "entails G (lr_imported_clause s5)"
      using r4 lr_ready_same lr_sameD(7) G(2) by auto
    have "lr_scope s3 s4" by (simp add: s4_def lr_scope_def)
    then have "lr_scope s1 t"
      using lr_keeps_scope [OF lr_same_keeps [OF s2]] lr_keeps_scope [OF p(6)]
        lr_keeps_scope [OF lr_same_keeps [OF s45]] lr_keeps_scope [OF lr_finish(2) [OF rd s5(2)]]
      by (meson lr_scope_trans)
    then show ?thesis using lr_finish(1) [OF rd s5(2)] lr_scope_trans [OF sc1] by blast
  qed
  have "lr_inv (insert c F) t \<and> lr_scope s t" by (rule all) (auto intro: entails_member)
  then show "lr_inv (insert c F) t" "lr_scope s t" by blast+
  assume "restore" "lr_strict_lrat s \<or> lr_clauses_to_reconstruct s cid \<noteq> None"
  then have "entails F c" using lr_restore_ok(2) [OF _ inv] s1 by simp
  then show "lr_inv F t" using all by simp
qed

lemma lr_add_derived_ok:
  assumes inv: "lr_inv F s" and c: "valid_clause c" and t: "lr_add_derived_clause cid c chain s = Ok t"
  shows "entails F c" "lr_inv F t" "lr_keeps s t"
proof -
  define s1 where "s1 = lr_count (\<lambda>t. t\<lparr>ls_added := ls_added t + 1, ls_derived := ls_derived t + 1\<rparr>) s"
  have s1: "lr_same s s1" by (simp add: s1_def)
  define s2 where "s2 = (lr_import_clause c s1)\<lparr>lr_last_id := cid\<rparr>"
  define s3 where "s3 = s2\<lparr>lr_current_id := cid\<rparr>"
  have "lr_wf s1" "lr_unused s1" "lr_sem F s1" "lr_imported_clause s1 = []"
    using inv lr_sameD [OF s1] by (auto simp: lr_inv_def)
  note p = lr_prologue [OF c this s2_def]
  have r3: "lr_ready F s3" "lr_imported_clause s3 = c" "lr_keeps s s3"
    using p lr_keeps_trans [OF lr_same_keeps [OF s1] p(6)] by (simp_all add: s3_def lr_ready_def lr_keeps_def)
  have fin: "bind_outcome (if lr_size_clauses s3 \<noteq> 0 then lr_check_fresh cid s3 else Ok s3)
      (\<lambda>s. bind_outcome (lr_check chain s)
        (\<lambda>(ok, s). bind_outcome (if ok then lr_check_resolution chain s else Ok (False, s))
          (\<lambda>(ok, s). if \<not> ok then Fatal ''failed to check derived clause:''
                     else bind_outcome (lr_insert s) (\<lambda>s. Ok (s\<lparr>lr_imported_clause := []\<rparr>))))) = Ok t"
    using t unfolding lr_add_derived_clause_def Let_def s1_def s2_def s3_def .
  obtain s4 where s4: "(if lr_size_clauses s3 \<noteq> 0 then lr_check_fresh cid s3 else Ok s3) = Ok s4"
    using fin by (auto simp: bind_outcome_Ok)
  have sm4: "lr_same s3 s4"
    using s4 lr_check_fresh_ok r3 by (auto simp: lr_ready_def lr_wf_def split: if_splits)
  have r4: "lr_ready F s4" "lr_imported_clause s4 = c" using r3 lr_ready_same [OF sm4] lr_sameD(7) [OF sm4] by simp_all
  obtain ok s5 where s5: "lr_check chain s4 = Ok (ok, s5)" using fin s4 by (auto simp: bind_outcome_Ok)
  have ck: "lr_same s4 s5" "ok \<Longrightarrow> entails F c"
    using lr_check_ok [OF _ _ _ _ s5] r4 by (auto simp: lr_ready_def)
  obtain s6 where ok: "ok" "lr_check_resolution chain s5 = Ok (True, s6)"
    "bind_outcome (lr_insert s6) (\<lambda>s. Ok (s\<lparr>lr_imported_clause := []\<rparr>)) = Ok t"
    using fin s4 s5 by (cases ok) (auto simp: bind_outcome_Ok split: if_splits)
  have "length (lr_clauses s5) = unat (lr_size_clauses s5)"
    using r4 lr_sameD(1,2) [OF ck(1)] by (simp add: lr_ready_def lr_wf_def)
  from lr_check_resolution_same [OF this ok(2)]
  have s46: "lr_same s4 s6" using lr_same_trans [OF ck(1)] by blast
  have r6: "lr_ready F s6" "lr_imported_clause s6 = c" using r4 lr_ready_same [OF s46] lr_sameD(7) [OF s46] by simp_all
  show e: "entails F c" using ck(2) ok(1) by blast
  have "entails F (lr_imported_clause s6)" using e r6(2) by simp
  note f = lr_finish [OF r6(1) this ok(3)]
  show "lr_inv F t" by (rule f(1))
  show "lr_keeps s t"
    using lr_keeps_trans [OF r3(3)] lr_keeps_trans [OF lr_same_keeps [OF sm4]]
      lr_keeps_trans [OF lr_same_keeps [OF s46] f(2)] by blast
qed

text \<open>The mark loop: on success the literals of \<open>d\<close> are among the imported ones, no mark stays.\<close>

lemma lr_fold_set_mark:
  "fold (\<lambda>lit. lr_set_mark lit b) ls s = s\<lparr>lr_marks := fold (\<lambda>l m. m[l2u l := b]) ls (lr_marks s)\<rparr>"
  by (induction ls arbitrary: s) (simp_all add: lr_set_mark_def)

lemma lr_check_marked_ok:
  assumes m: "lr_check_marked d s = Ok t" and rd: "lr_ready F s" and d: "lc_ok (lr_size_vars s) d"
  shows "t = s" "set (lc_literals d) \<subseteq> set (lr_imported_clause s)"
proof -
  let ?m1 = "fold (\<lambda>l m. m[l2u l := True]) (lr_imported_clause s) (lr_marks s)"
  let ?m2 = "fold (\<lambda>l m. m[l2u l := False]) (lr_imported_clause s) ?m1"
  have clr: "lr_marks s = replicate (nat (2 * lr_size_vars s)) False"
    using rd by (simp add: lr_ready_def lr_wf_def)
  have "?m2 = lr_marks s" by (rule nth_equalityI) (simp_all add: nth_fold_marks clr)
  moreover have "t = s\<lparr>lr_marks := ?m2\<rparr>" and mk: "\<forall>l \<in> set (lc_lits d). ?m1 ! l2u l"
    using m by (auto simp: lr_check_marked_def Let_def lr_fold_set_mark lr_mark_def split: if_splits)
  ultimately show "t = s" by simp
  have lits: "lc_lits d = lc_literals d" using d by (simp add: lc_lits_def lc_ok_def)
  show "set (lc_literals d) \<subseteq> set (lr_imported_clause s)"
  proof
    fix l assume l: "l \<in> set (lc_literals d)"
    then have ok: "lr_lit_ok (lr_size_vars s) l" using d by (simp add: lc_ok_def)
    then have "l2u l < length (lr_marks s)"
      using l2u_bound [of l "lr_size_vars s"] by (simp add: clr lr_lit_ok_def)
    then have "l2u l \<in> l2u ` set (lr_imported_clause s)"
      using mk l lits by (auto simp: nth_fold_marks clr split: if_splits)
    then obtain k where k: "k \<in> set (lr_imported_clause s)" "l2u l = l2u k" by blast
    moreover have "k \<noteq> 0" "l \<noteq> 0" using rd k(1) ok by (auto simp: lr_ready_def lr_lit_ok_def)
    ultimately show "l \<in> set (lr_imported_clause s)" using l2u_inj by metis
  qed
qed

end
