(* ===== verification/Lrat_Proof.thy ===== *)
theory Lrat_Proof
  imports Lrat_Sound
begin

text \<open>
  Deletion, weakening, finalization, assumption clauses and conclusions of the LRAT checker, its
  destructor, and the checker as an instance of \<open>proof_checker\<close>.
\<close>

subsection \<open>Deletion\<close>

lemma fold_lr_free:
  "\<forall>c \<in> set g. lc_garbage c \<Longrightarrow>
     fold lr_free_clause g s = s\<lparr>lr_num_garbage := lr_num_garbage s - of_nat (length g)\<rparr>"
  "\<forall>c \<in> set g. \<not> lc_garbage c \<Longrightarrow>
     fold lr_free_clause g s = s\<lparr>lr_num_clauses := lr_num_clauses s - of_nat (length g)\<rparr>"
  by (induction g arbitrary: s) (simp_all add: lr_free_clause_def)

lemma lr_collect_ok:
  assumes "lr_wf s"
  shows "lr_collect_garbage_clauses s =
    (lr_count (\<lambda>t. t\<lparr>ls_collections := ls_collections t + 1\<rparr>) s)\<lparr>lr_num_garbage := 0, lr_garbage := []\<rparr>"
  using assms fold_lr_free(1) [of "lr_garbage s"]
  by (simp add: lr_collect_garbage_clauses_def lr_wf_def lr_count_def)

text \<open>Retiring the clause at a link.\<close>

definition lr_retire :: "nat \<Rightarrow> nat \<Rightarrow> LratCheckerClause \<Rightarrow> LratChecker \<Rightarrow> LratChecker" where
  "lr_retire h pos d s =
     s\<lparr>lr_num_garbage := lr_num_garbage s + 1, lr_num_clauses := lr_num_clauses s - 1,
       lr_clauses := (lr_clauses s)[h := remove_nth pos (lr_clauses s ! h)],
       lr_garbage := d\<lparr>lc_garbage := True\<rparr> # lr_garbage s\<rparr>"

lemma lr_retire_ok:
  assumes rd: "lr_ready F s" and h: "h < length (lr_clauses s)" and at: "lr_at s (h, pos) = Some d"
  shows "lr_ready F (lr_retire h pos d s)" "lr_keeps s (lr_retire h pos d s)"
    "mset (concat (lr_clauses s)) = add_mset d (mset (concat (lr_clauses (lr_retire h pos d s))))"
proof -
  let ?t = "lr_retire h pos d s"
  have pos: "pos < length (lr_clauses s ! h)" "d = lr_clauses s ! h ! pos"
    using at by (auto split: if_splits)
  have m: "mset (concat (lr_clauses s)) = add_mset d (mset (concat (lr_clauses ?t)))"
    using mset_concat_update [OF h mset_remove_nth [OF pos(1)]] pos(2) by (simp add: lr_retire_def)
  then have m': "mset (concat (lr_clauses s)) = mset (d # concat (lr_clauses ?t))" by simp
  have sub: "set (concat (lr_clauses ?t)) \<subseteq> set (concat (lr_clauses s))"
    and len: "length (concat (lr_clauses s)) = Suc (length (concat (lr_clauses ?t)))"
    using mset_eq_setD [OF m'] mset_eq_length [OF m'] by (auto simp del: set_concat)
  have place: "placed lc_hash (lr_size_clauses s) (lr_clauses ?t)"
    using rd set_remove_nth [of pos "lr_clauses s ! h"] h
    by (auto simp: lr_ready_def lr_wf_def placed_def lr_retire_def nth_list_update split: if_splits)
  have flds: "lr_size_vars ?t = lr_size_vars s" "lr_checked_lits ?t = lr_checked_lits s"
    "lr_marks ?t = lr_marks s" "lr_size_clauses ?t = lr_size_clauses s" "lr_nonces ?t = lr_nonces s"
    "length (lr_clauses ?t) = length (lr_clauses s)" "lr_num_clauses ?t = lr_num_clauses s - 1"
    "lr_garbage ?t = d\<lparr>lc_garbage := True\<rparr> # lr_garbage s" "lr_num_garbage ?t = lr_num_garbage s + 1"
    "lr_imported_clause ?t = lr_imported_clause s"
    "lr_clauses_to_reconstruct ?t = lr_clauses_to_reconstruct s"
    by (simp_all add: lr_retire_def)
  have ball: "\<forall>c \<in> set (concat (lr_clauses ?t)). P c" if "\<forall>c \<in> set (concat (lr_clauses s)). P c" for P
    using that sub by blast
  have wf: "lr_wf s" "lr_unused s" "lr_sem F s" using rd by (simp_all add: lr_ready_def)
  have "\<forall>c \<in> set (concat (lr_clauses ?t)). lc_ok (lr_size_vars s) c"
    by (rule ball) (use wf(1) in \<open>simp add: lr_wf_def\<close>)
  then have "lr_wf ?t"
    using wf(1) len place unfolding lr_wf_def flds by (simp del: set_concat)
  moreover have "lr_unused ?t" using ball wf(2) unfolding lr_unused_def by blast
  moreover have "lr_sem F ?t" using ball [of "\<lambda>c. entails F (lc_literals c)"] wf(3) unfolding lr_sem_def flds by blast
  ultimately show "lr_ready F ?t" using rd by (simp add: lr_ready_def flds)
  show "lr_keeps s ?t" by (simp add: lr_retire_def lr_keeps_def)
  show "mset (concat (lr_clauses s)) = add_mset d (mset (concat (lr_clauses ?t)))" by (rule m)
qed

text \<open>Finding and checking the clause, the shape shared by the three operations.\<close>

lemma lr_find_marked:
  assumes c: "valid_clause c" and s: "lr_wf s" "lr_unused s" "lr_sem F s" "lr_imported_clause s = []"
    and f: "lr_find cid ((lr_import_clause c s)\<lparr>lr_last_id := cid\<rparr>) = Ok ((h, pos), u)"
    and at: "lr_at u (h, pos) = Some d" and m: "lr_check_marked d u = Ok v"
  shows "v = u" "lr_ready F u" "lr_imported_clause u = c" "lr_keeps s u" "h < length (lr_clauses u)"
    "d \<in> set (concat (lr_clauses u))" "lc_id d = cid" "set (lc_literals d) \<subseteq> set c"
    "entails F (lc_literals d)" "lr_clauses u = lr_clauses s" "lc_ok (lr_size_vars u) d"
proof -
  note p = lr_prologue [OF c s refl, of cid]
  have len: "length (lr_clauses ((lr_import_clause c s)\<lparr>lr_last_id := cid\<rparr>))
      = unat (lr_size_clauses ((lr_import_clause c s)\<lparr>lr_last_id := cid\<rparr>))"
    using p(1) by (simp only: lr_wf_def)
  note fo = lr_find_ok [OF f len]
  show rd: "lr_ready F u" using p lr_ready_same [OF fo(1)] by (simp only: lr_ready_def)
  show ic: "lr_imported_clause u = c" using p(4) lr_sameD(7) [OF fo(1)] by simp
  show "lr_keeps s u" by (rule lr_keeps_trans [OF p(6) lr_same_keeps [OF fo(1)]])
  show "h < length (lr_clauses u)" using fo(2) lr_sameD(1) [OF fo(1)] by simp
  show "lc_id d = cid" and dt: "d \<in> set (concat (lr_clauses u))"
    using fo(3) [OF at] lr_sameD(1) [OF fo(1)] by simp_all
  then show ok: "lc_ok (lr_size_vars u) d" and "entails F (lc_literals d)"
    using rd by (auto simp: lr_ready_def lr_wf_def lr_sem_def simp del: set_concat)
  show "v = u" "set (lc_literals d) \<subseteq> set c" using lr_check_marked_ok [OF m rd ok] ic by simp_all
  show "lr_clauses u = lr_clauses s"
    using lr_import_clause_ok [OF s(1) c] lr_sameD(1) [OF fo(1)] by simp
qed

lemma lr_delete_ok:
  assumes inv: "lr_inv F s" and c: "valid_clause c" and t: "lr_delete_clause cid c s = Ok t"
  shows "lr_inv F t" "lr_keeps s t"
    "\<exists>d. lc_id d = cid \<and> set (lc_literals d) \<subseteq> set c
       \<and> mset (concat (lr_clauses s)) = add_mset d (mset (concat (lr_clauses t)))"
proof -
  define s1 where "s1 = lr_count (\<lambda>t. t\<lparr>ls_deleted := ls_deleted t + 1\<rparr>) s"
  have s1: "lr_same s s1" by (simp add: s1_def)
  have i1: "lr_wf s1" "lr_unused s1" "lr_sem F s1" "lr_imported_clause s1 = []"
    using inv lr_sameD [OF s1] by (auto simp: lr_inv_def)
  obtain h pos u d v where u: "lr_find cid ((lr_import_clause c s1)\<lparr>lr_last_id := cid\<rparr>) = Ok ((h, pos), u)"
    "lr_at u (h, pos) = Some d" "lr_check_marked d u = Ok v"
    "t = (let s = lr_retire h pos d v;
              s = (if 2 * unat (lr_num_garbage s) > max (unat (lr_size_clauses s)) (nat (lr_size_vars s))
                   then lr_collect_garbage_clauses s else s)
          in s\<lparr>lr_imported_clause := []\<rparr>)"
    using t unfolding lr_delete_clause_def Let_def s1_def [symmetric] lr_retire_def
    by (auto simp del: lr_at.simps simp: bind_outcome_Ok split: option.splits)
  note f = lr_find_marked [OF c i1 u(1-3)]
  let ?r = "lr_retire h pos d u"
  note r = lr_retire_ok [OF f(2,5) u(2)]
  have wf: "lr_wf ?r" "lr_unused ?r" "lr_sem F ?r" using r(1) by (simp_all add: lr_ready_def)
  have col: "lr_wf (lr_collect_garbage_clauses ?r)" "lr_unused (lr_collect_garbage_clauses ?r)"
    "lr_sem F (lr_collect_garbage_clauses ?r)" "lr_keeps ?r (lr_collect_garbage_clauses ?r)"
    "lr_clauses (lr_collect_garbage_clauses ?r) = lr_clauses ?r"
    using wf unfolding lr_collect_ok [OF wf(1)]
    by (simp_all add: lr_wf_def lr_unused_def lr_sem_def lr_keeps_def lr_count_def)
  let ?x = "if 2 * unat (lr_num_garbage ?r) > max (unat (lr_size_clauses ?r)) (nat (lr_size_vars ?r))
      then lr_collect_garbage_clauses ?r else ?r"
  have x: "lr_wf ?x" "lr_unused ?x" "lr_sem F ?x" "lr_keeps ?r ?x" "lr_clauses ?x = lr_clauses ?r"
    using wf col by (simp_all add: lr_keeps_def)
  have tx: "t = ?x\<lparr>lr_imported_clause := []\<rparr>" using u(4) f(1) by (simp add: Let_def)
  show "lr_inv F t" unfolding tx lr_inv_def using x by simp
  have "lr_keeps s ?x"
    using lr_keeps_trans [OF lr_same_keeps [OF s1] lr_keeps_trans [OF f(4) lr_keeps_trans [OF r(2) x(4)]]] .
  then show "lr_keeps s t" unfolding tx by (simp add: lr_keeps_def)
  have "lr_clauses u = lr_clauses s" using f(10) lr_sameD(1) [OF s1] by simp
  then show "\<exists>d. lc_id d = cid \<and> set (lc_literals d) \<subseteq> set c
       \<and> mset (concat (lr_clauses s)) = add_mset d (mset (concat (lr_clauses t)))"
    using f(7,8) r(3) x(5) unfolding tx by auto
qed

lemma lr_weaken_ok:
  assumes inv: "lr_inv F s" and c: "valid_clause c" and t: "lr_weaken_minus cid c s = Ok t"
  shows "lr_inv F t" "entails F c" "lr_clauses_to_reconstruct t cid = Some (sort c)" "lr_scope s t"
proof -
  have i1: "lr_wf s" "lr_unused s" "lr_sem F s" "lr_imported_clause s = []"
    using inv by (auto simp: lr_inv_def)
  obtain h pos u d v where u: "lr_find cid ((lr_import_clause c s)\<lparr>lr_last_id := cid\<rparr>) = Ok ((h, pos), u)"
    "lr_at u (h, pos) = Some d" "lr_check_marked d u = Ok v"
    "t = v\<lparr>lr_imported_clause := [],
           lr_clauses_to_reconstruct := (lr_clauses_to_reconstruct v)(cid \<mapsto> sort c)\<rparr>"
    using t unfolding lr_weaken_minus_def Let_def
    by (auto simp del: lr_at.simps simp: bind_outcome_Ok split: option.splits)
  note f = lr_find_marked [OF c i1 u(1-3)]
  show e: "entails F c" by (rule entails_subset [OF f(9,8)])
  then have "entails F (sort c)" using entails_cong_set [of c "sort c"] by simp
  then show "lr_inv F t" using f(1,2) by (auto simp: lr_inv_def u(4) lr_ready_def lr_sem_def)
  show "lr_clauses_to_reconstruct t cid = Some (sort c)" by (simp add: u(4))
  show "lr_scope s t" using lr_keeps_scope [OF f(4)] f(1) by (simp add: u(4) lr_scope_def)
qed

lemma lr_finalize_ok:
  assumes inv: "lr_inv F s" and c: "valid_clause c" and t: "lr_finalize_clause cid c s = Ok t"
  shows "lr_inv F t" "\<exists>d \<in> set (concat (lr_clauses s)). lc_id d = cid \<and> set (lc_literals d) \<subseteq> set c"
    "lr_scope s t"
proof -
  define s1 where "s1 = (lr_count (\<lambda>t. t\<lparr>ls_finalized := ls_finalized t + 1\<rparr>) s)"
  define s2 where "s2 = s1\<lparr>lr_num_finalized := lr_num_finalized s1 + 1\<rparr>"
  have s1: "lr_same s s1" by (simp add: s1_def)
  have i1: "lr_wf s2" "lr_unused s2" "lr_sem F s2" "lr_imported_clause s2 = []"
    using inv lr_sameD [OF s1] by (auto simp: lr_inv_def s2_def)
  obtain h pos u d v where u: "lr_find cid ((lr_import_clause c s2)\<lparr>lr_last_id := cid\<rparr>) = Ok ((h, pos), u)"
    "lr_at u (h, pos) = Some d" "lr_check_marked d u = Ok v" "t = v\<lparr>lr_imported_clause := []\<rparr>"
    using t unfolding lr_finalize_clause_def Let_def s1_def [symmetric] s2_def [symmetric]
    by (auto simp del: lr_at.simps simp: bind_outcome_Ok split: option.splits)
  note f = lr_find_marked [OF c i1 u(1-3)]
  show "lr_inv F t" using f(1,2) by (simp add: lr_inv_def u(4) lr_ready_def)
  show "lr_scope s t"
    using lr_keeps_scope [OF f(4)] lr_keeps_scope [OF lr_same_keeps [OF s1]] f(1)
    by (simp add: u(4) lr_scope_def s2_def)
  have "lr_clauses u = lr_clauses s" using f(10) lr_sameD(1) [OF s1] by (simp add: s2_def)
  then show "\<exists>d \<in> set (concat (lr_clauses s)). lc_id d = cid \<and> set (lc_literals d) \<subseteq> set c"
    using f(6,7,8) by auto
qed

subsection \<open>Assumptions and conclusions\<close>

lemma lr_add_assumption_clause_ok:
  assumes inv: "lr_inv F s" and c: "valid_clause c" and t: "lr_add_assumption_clause cid c chain s = Ok t"
  shows "lr_inv F t" "entails F c"
    "\<forall>l \<in> set c. - l \<in> set (lr_assumptions s) \<or> - l \<in> set (lr_constraint s)"
    "lr_assumption_clauses t = lr_assumption_clauses s @ [cid]"
    "lr_assumptions t = lr_assumptions s" "lr_constraint t = lr_constraint s"
proof -
  obtain u v where u: "lr_add_derived_clause cid c chain s = Ok u" "lr_delete_clause cid c u = Ok v"
    "t = v\<lparr>lr_assumption_clauses := lr_assumption_clauses v @ [cid]\<rparr>"
    using t by (auto simp: lr_add_assumption_clause_def bind_outcome_Ok split: if_splits)
  note a = lr_add_derived_ok [OF inv c u(1)]
  note d = lr_delete_ok [OF a(2) c u(2)]
  show "entails F c" by (rule a(1))
  show "lr_inv F t" using d(1) by (simp add: u(3) lr_inv_def)
  show "\<forall>l \<in> set c. - l \<in> set (lr_assumptions s) \<or> - l \<in> set (lr_constraint s)"
    using t by (auto simp: lr_add_assumption_clause_def split: if_splits)
  show "lr_assumption_clauses t = lr_assumption_clauses s @ [cid]"
    "lr_assumptions t = lr_assumptions s" "lr_constraint t = lr_constraint s"
    using a(3) d(2) by (simp_all add: u(3) lr_keeps_def)
qed

lemma lr_conclude_conflict_ok:
  assumes inv: "lr_inv F s" and t: "lr_conclude_unsat CONFLICT ids s = Ok t"
  shows "unsat F" "lr_inv F t" "lr_concluded t"
proof -
  let ?u = "s\<lparr>lr_concluded := True\<rparr>"
  obtain link d where f: "lr_find (last ids) ?u = Ok (link, t)" "lr_at t link = Some d" "lc_size d = 0"
    using t by (auto simp: lr_conclude_unsat_def Let_def bind_outcome_Ok split: if_splits option.splits)
  have wf: "length (lr_clauses ?u) = unat (lr_size_clauses ?u)" using inv by (simp add: lr_inv_def lr_wf_def)
  note fo = lr_find_ok [OF f(1) wf]
  have d: "d \<in> set (concat (lr_clauses s))" using fo(3) [OF f(2)] by simp
  then have "lc_literals d = []"
    using inv f(3) by (auto simp: lr_inv_def lr_wf_def lc_ok_def simp del: set_concat)
  moreover have "entails F (lc_literals d)" using inv d by (auto simp: lr_inv_def lr_sem_def simp del: set_concat)
  ultimately show "unsat F" by (simp add: entails_empty_iff)
  show "lr_inv F t" using inv lr_sameD [OF fo(1)] by (simp add: lr_inv_def)
  show "lr_concluded t" using lr_sameD(13) [OF fo(1)] by simp
qed

lemma lr_destroy_frees:
  assumes wf: "lr_wf s"
  shows "lr_num_clauses (lr_destroy s) = 0" "lr_num_garbage (lr_destroy s) = 0"
proof -
  have "\<forall>c \<in> set (concat (lr_clauses s)). \<not> lc_garbage c" using wf by (auto simp: lr_wf_def lc_ok_def)
  then have "fold lr_free_clause (concat (lr_clauses s)) s = s\<lparr>lr_num_clauses := 0\<rparr>"
    using wf fold_lr_free(2) by (simp add: lr_wf_def del: set_concat)
  then show "lr_num_clauses (lr_destroy s) = 0" "lr_num_garbage (lr_destroy s) = 0"
    using wf fold_lr_free(1) [of "lr_garbage s"] by (simp_all add: lr_destroy_def Let_def lr_wf_def)
qed

subsection \<open>The checker as a proof checker\<close>

text \<open>A step carries the identifier and, for derived clauses, the chain.\<close>

definition lr_step_original :: "64 word \<times> 64 word list \<Rightarrow> clause \<Rightarrow> LratChecker \<Rightarrow> LratChecker outcome" where
  "lr_step_original i c = lr_add_original_clause (fst i) c False"

definition lr_step_derived :: "64 word \<times> 64 word list \<Rightarrow> clause \<Rightarrow> LratChecker \<Rightarrow> LratChecker outcome" where
  "lr_step_derived i c = lr_add_derived_clause (fst i) c (snd i)"

definition lr_step_delete :: "64 word \<times> 64 word list \<Rightarrow> clause \<Rightarrow> LratChecker \<Rightarrow> LratChecker outcome" where
  "lr_step_delete i c = lr_delete_clause (fst i) c"

lemmas lr_step_defs = lr_step_original_def lr_step_derived_def lr_step_delete_def

lemma lr_proof_checker:
  "proof_checker lr_inv (lr_init strict) lr_step_original lr_step_derived lr_step_delete"
  by unfold_locales
    (auto simp: lr_step_defs lr_inv_init intro: lr_add_original_gen(2) lr_add_derived_ok(1,2) lr_delete_ok(1))

interpretation lr: proof_checker lr_inv "lr_init strict" lr_step_original lr_step_derived lr_step_delete
  for strict by (rule lr_proof_checker)

end
