(* ===== verification/Lrat_Main.thy ===== *)
theory Lrat_Main
  imports Lrat_Proof
begin

text \<open>
  What the online LRAT checker guarantees.  A session is any sequence of its public calls that
  the checker accepted, tracked together with the formula of original clauses; the invariant of
  sessions gives the meaning of the three kinds of conclusions.
\<close>

subsection \<open>Sessions\<close>

text \<open>
  \<open>lr_session strict F s\<close>: the checker, constructed with \<open>internal->lrat = strict\<close>, is in
  state \<open>s\<close> after accepted calls whose original clauses are \<open>F\<close>.  A restored clause that the
  checker could not compare with a weakened one counts as original.  Constraints are set before
  the assumption clauses of a query are derived.
\<close>

inductive lr_session :: "bool \<Rightarrow> clause set \<Rightarrow> LratChecker \<Rightarrow> bool" for strict where
  start: "lr_session strict {} (lr_init strict)"
| begin_proof: "lr_session strict F s \<Longrightarrow> lr_session strict F (lr_begin_proof i s)"
| original: "lr_session strict F s \<Longrightarrow> valid_clause c \<Longrightarrow>
    lr_add_original_clause i c False s = Ok t \<Longrightarrow> lr_session strict (insert c F) t"
| restore: "lr_session strict F s \<Longrightarrow> valid_clause c \<Longrightarrow>
    lr_add_original_clause i c True s = Ok t \<Longrightarrow>
    lr_session strict
      (if lr_strict_lrat s \<or> lr_clauses_to_reconstruct s i \<noteq> None then F else insert c F) t"
| derive: "lr_session strict F s \<Longrightarrow> valid_clause c \<Longrightarrow>
    lr_add_derived_clause i c chain s = Ok t \<Longrightarrow> lr_session strict F t"
| delete: "lr_session strict F s \<Longrightarrow> valid_clause c \<Longrightarrow>
    lr_delete_clause i c s = Ok t \<Longrightarrow> lr_session strict F t"
| weaken: "lr_session strict F s \<Longrightarrow> valid_clause c \<Longrightarrow>
    lr_weaken_minus i c s = Ok t \<Longrightarrow> lr_session strict F t"
| finalize: "lr_session strict F s \<Longrightarrow> valid_clause c \<Longrightarrow>
    lr_finalize_clause i c s = Ok t \<Longrightarrow> lr_session strict F t"
| report: "lr_session strict F s \<Longrightarrow> lr_report_status s = Ok t \<Longrightarrow> lr_session strict F t"
| assumption: "lr_session strict F s \<Longrightarrow> lr_session strict F (lr_add_assumption a s)"
| constraint: "lr_session strict F s \<Longrightarrow> lr_assumption_clauses s = [] \<Longrightarrow>
    lr_session strict F (lr_add_constraint c s)"
| assumption_clause: "lr_session strict F s \<Longrightarrow> valid_clause c \<Longrightarrow>
    lr_add_assumption_clause i c chain s = Ok t \<Longrightarrow> lr_session strict F t"
| reset: "lr_session strict F s \<Longrightarrow> lr_session strict F (lr_reset_assumptions s)"
| conclude: "lr_session strict F s \<Longrightarrow> lr_conclude_unsat k ids s = Ok t \<Longrightarrow> lr_session strict F t"

text \<open>Every recorded assumption clause was derived over negated assumptions and constraints.\<close>

definition lr_failed :: "clause set \<Rightarrow> LratChecker \<Rightarrow> bool" where
  "lr_failed F s \<longleftrightarrow>
     (\<forall>i \<in> set (lr_assumption_clauses s). \<exists>c. valid_clause c \<and> entails F c
        \<and> (\<forall>l \<in> set c. - l \<in> set (lr_assumptions s) \<or> - l \<in> set (lr_constraint s)))"

lemma lr_failed_scope: "lr_failed F s \<Longrightarrow> lr_scope s t \<Longrightarrow> lr_failed F t"
  by (simp add: lr_failed_def lr_scope_def)

lemma lr_failed_mono: "lr_failed F s \<Longrightarrow> F \<subseteq> G \<Longrightarrow> lr_failed G s"
  unfolding lr_failed_def by (meson entails_mono)

lemma lr_conclude_frame:
  assumes inv: "lr_inv F s" and t: "lr_conclude_unsat k ids s = Ok t"
  shows "lr_inv F t \<and> lr_assumptions t = lr_assumptions s \<and> lr_constraint t = lr_constraint s
    \<and> lr_assumption_clauses t = lr_assumption_clauses s"
proof (cases k)
  case CONFLICT
  let ?u = "s\<lparr>lr_concluded := True\<rparr>"
  obtain link where f: "lr_find (last ids) ?u = Ok (link, t)"
    using t CONFLICT by (auto simp: lr_conclude_unsat_def Let_def bind_outcome_Ok split: if_splits option.splits)
  have wf: "length (lr_clauses ?u) = unat (lr_size_clauses ?u)" using inv by (simp add: lr_inv_def lr_wf_def)
  have "lr_keeps ?u t" by (rule lr_same_keeps [OF lr_find_ok(1) [OF f wf]])
  then show ?thesis
    using lr_conclude_conflict_ok(2) [OF inv t [unfolded CONFLICT]] by (simp add: lr_keeps_def)
next
  case ASSUMPTIONS
  then have "t = s\<lparr>lr_concluded := True\<rparr>"
    using t by (simp add: lr_conclude_unsat_def Let_def split: if_splits)
  then show ?thesis using inv by (simp add: lr_inv_def)
next
  case CONSTRAINT
  then have "t = s\<lparr>lr_concluded := True\<rparr>"
    using t by (simp add: lr_conclude_unsat_def Let_def split: if_splits)
  then show ?thesis using inv by (simp add: lr_inv_def)
qed

lemma lr_session_inv: "lr_session strict F s \<Longrightarrow> lr_inv F s \<and> lr_failed F s"
proof (induction rule: lr_session.induct)
  case start
  then show ?case using lr_inv_init [of strict] by (simp add: lr_failed_def) (simp add: lr_init_def)
next
  case (begin_proof F s i)
  then show ?case by (simp add: lr_begin_proof_def lr_inv_def lr_failed_def)
next
  case (original F s c i t)
  then show ?case
    using lr_add_original_gen(2,3) lr_failed_scope lr_failed_mono subset_insertI by meson
next
  case (restore F s c i t)
  then have r: "lr_inv (insert c F) t" "lr_scope s t"
    "lr_strict_lrat s \<or> lr_clauses_to_reconstruct s i \<noteq> None \<Longrightarrow> lr_inv F t"
    using lr_add_original_gen by blast+
  have "lr_failed F t" "lr_failed (insert c F) t"
    using restore.IH lr_failed_scope [OF _ r(2)] lr_failed_mono [OF _ subset_insertI] by blast+
  then show ?case using r(1,3) by simp
next
  case (derive F s c i chain t)
  then show ?case using lr_add_derived_ok lr_keeps_scope lr_failed_scope by metis
next
  case (delete F s c i t)
  then show ?case using lr_delete_ok(1,2) lr_keeps_scope lr_failed_scope by metis
next
  case (weaken F s c i t)
  then show ?case using lr_weaken_ok(1,4) lr_failed_scope by metis
next
  case (finalize F s c i t)
  then show ?case using lr_finalize_ok(1,3) lr_failed_scope by metis
next
  case (report F s t)
  then show ?case by (auto simp: lr_report_status_def lr_inv_def lr_failed_def split: if_splits)
next
  case (assumption F s a)
  then show ?case by (fastforce simp: lr_add_assumption_def lr_inv_def lr_failed_def)
next
  case (constraint F s c)
  then show ?case by (simp add: lr_add_constraint_def lr_inv_def lr_failed_def)
next
  case (assumption_clause F s c i chain t)
  note a = lr_add_assumption_clause_ok [OF _ assumption_clause.hyps(2,3), of F]
  then show ?case using assumption_clause.IH assumption_clause.hyps(2) by (auto simp: lr_failed_def)
next
  case (reset F s)
  then show ?case by (simp add: lr_reset_assumptions_def lr_inv_def lr_failed_def)
next
  case (conclude F s k ids t)
  then show ?case using lr_conclude_frame by (simp add: lr_failed_def) metis
qed

subsection \<open>A concrete session\<close>

definition lr_run :: "(64 word \<times> 64 word list) proof_step list \<Rightarrow> LratChecker \<Rightarrow> LratChecker outcome" where
  "lr_run = run_proof lr_step_original lr_step_derived lr_step_delete"

definition lr_demo_steps :: "(64 word \<times> 64 word list) proof_step list" where
  "lr_demo_steps =
     [Original (1, []) [1, 2], Original (2, []) [1, - 2], Derived (3, [1, 2]) [1]]"


definition lr_demo :: LratChecker where
  "lr_demo = (case lr_run lr_demo_steps (lr_init False) of Ok t \<Rightarrow> t | _ \<Rightarrow> lr_init False)"

lemma lr_match_vars_list:
  "lr_match_vars s =
     list_all (\<lambda>lit. lr_checked_lit s lit \<longleftrightarrow> lr_checked_lit s (- lit)) [1 .. lr_size_vars s - 1]"
  by (auto simp: lr_match_vars_def list_all_iff)

lemmas lr_eval_defs = lr_step_defs lr_add_original_clause_def lr_add_derived_clause_def
  lr_delete_clause_def lr_weaken_minus_def lr_restore_clause_def lr_check_fresh_def
  lr_check_marked_def lr_check_def lr_check_resolution_def lr_match_vars_list upto.simps lr_resolve_literal_def
  lr_insert_def lr_find_def lr_compute_hash_def lr_import_clause_def lr_import_literal_def
  lr_enlarge_vars_def lr_init_def lr_collect_garbage_clauses_def lr_enlarge_clauses_def
  lr_free_clause_def lr_new_clause_def lr_clear_checked_def lc_lits_def lr_count_def
  lr_set_checked_def lr_checked_lit_def lr_set_mark_def lr_mark_def lr_conclude_unsat_def
  lr_add_assumption_clause_def lr_add_assumption_def hash_eval eval_simps

lemma lr_demo_run:
  "lr_run lr_demo_steps (lr_init False) = Ok lr_demo"
  by (simp add: lr_demo_def lr_run_def lr_demo_steps_def lr_eval_defs cong: eval_congs)


lemma lr_session_run:
  assumes "lr_session strict F s" and "valid_steps steps" and "lr_run steps s = Ok t"
  shows "lr_session strict (F \<union> originals steps) t"
  using assms
proof (induction steps arbitrary: F s)
  case Nil
  then show ?case by (simp add: lr_run_def)
next
  case (Cons st steps)
  show ?case
  proof (cases st)
    case (Original i c)
    then show ?thesis
      using Cons.prems Cons.IH [OF lr_session.original]
      by (force simp: lr_run_def bind_outcome_Ok lr_step_defs)
  next
    case (Derived i c)
    then show ?thesis
      using Cons.prems Cons.IH [OF lr_session.derive]
      by (force simp: lr_run_def bind_outcome_Ok lr_step_defs)
  next
    case (Delete i c)
    then show ?thesis
      using Cons.prems Cons.IH [OF lr_session.delete]
      by (force simp: lr_run_def bind_outcome_Ok lr_step_defs)
  qed
qed

lemma lr_demo_session: "lr_session False {[1, 2], [1, - 2]} lr_demo"
  using lr_session_run [OF lr_session.start _ lr_demo_run]
  by (simp add: lr_demo_steps_def valid_clause_def)

subsection \<open>Properties of the LRAT checker\<close>

text \<open>
  C7: in every session, a derived clause that the LRAT checker accepts follows from the original
  clauses, and so does every clause it still stores.
\<close>

theorem lrat_accepted_clause_implied:
  assumes "lr_session strict F s" and "valid_clause c"
    and "lr_add_derived_clause i c chain s = Ok t"
  shows "entails F c \<and> (\<forall>d \<in> set (concat (lr_clauses t)). entails F (lc_literals d))"
proof -
  have "lr_inv F s" using lr_session_inv [OF assms(1)] by blast
  note d = lr_add_derived_ok [OF this assms(2,3)]
  have "lr_sem F t" using d(2) by (simp add: lr_inv_def)
  then show ?thesis using d(1) unfolding lr_sem_def by blast
qed

theorem lrat_accepted_clause_implied_witness:
  "\<exists>t. lr_add_derived_clause 4 [1] [3] lr_demo = Ok t \<and> entails {[1, 2], [1, - 2]} [1 :: int]"
proof -
  have "\<exists>t. lr_add_derived_clause 4 [1] [3] lr_demo = Ok t"
    by (simp add: lr_demo_def lr_run_def lr_demo_steps_def lr_eval_defs cong: eval_congs)
  then obtain t where t: "lr_add_derived_clause 4 [1] [3] lr_demo = Ok t" ..
  show ?thesis
    using lrat_accepted_clause_implied [OF lr_demo_session _ t] t by (simp add: valid_clause_def)
qed



text \<open>
  C9: a successful deletion removes exactly one clause, one with the given identifier whose
  literals are among the given ones, and keeps everything else.
\<close>

theorem lrat_delete_by_id:
  assumes "lr_session strict F s" and "valid_clause c" and "lr_delete_clause i c s = Ok t"
  shows "\<exists>d. lc_id d = i \<and> set (lc_literals d) \<subseteq> set c
    \<and> mset (concat (lr_clauses s)) = add_mset d (mset (concat (lr_clauses t)))"
  using lr_delete_ok(3) [OF _ assms(2,3)] lr_session_inv [OF assms(1)] by blast

theorem lrat_delete_by_id_witness:
  "\<exists>t. lr_delete_clause 1 [2, 1] lr_demo = Ok t
     \<and> (\<exists>d. lc_id d = 1 \<and> d \<in> set (concat (lr_clauses lr_demo)))"
proof -
  obtain t where t: "lr_delete_clause 1 [2, 1] lr_demo = Ok t"
    by (simp add: lr_demo_def lr_run_def lr_demo_steps_def lr_eval_defs cong: eval_congs)
  have "valid_clause [2, 1]" by (simp add: valid_clause_def)
  from lrat_delete_by_id [OF lr_demo_session this t] obtain d where
    "lc_id d = 1" "mset (concat (lr_clauses lr_demo)) = add_mset d (mset (concat (lr_clauses t)))"
    by blast
  then have "lc_id d = 1 \<and> d \<in> set (concat (lr_clauses lr_demo))"
    by (metis set_mset_mset union_single_eq_member)
  then show ?thesis using t by blast
qed

text \<open>
  C10: weakening and restoring fit together.  A weakened clause is implied, and restoring under
  its identifier is accepted exactly for the clauses with the same literals, after which the
  identifier has been forgotten.
\<close>

theorem lrat_weaken_restore:
  assumes "lr_session strict F s" and "valid_clause c" and "lr_weaken_minus i c s = Ok t"
  shows "entails F c
    \<and> ((\<exists>u. lr_restore_clause i e t = Ok u) \<longleftrightarrow> mset e = mset c)
    \<and> (\<forall>u. lr_restore_clause i e t = Ok u \<longrightarrow> lr_clauses_to_reconstruct u i = None)"
proof -
  have w: "entails F c" "lr_clauses_to_reconstruct t i = Some (sort c)"
    using lr_weaken_ok(2,3) [OF _ assms(2,3)] lr_session_inv [OF assms(1)] by blast+
  have "length e = length (sort c) \<and> (\<forall>j \<in> set [0..<length (sort e)]. sort e ! j = sort c ! j)
      \<longleftrightarrow> sort e = sort c"
    unfolding list_eq_iff_nth_eq [of "sort e"] by auto
  also have "\<dots> \<longleftrightarrow> mset e = mset c"
    by (metis mset_sort properties_for_sort sorted_sort)
  finally have eq: "(length e = length (sort c) \<and> (\<forall>j \<in> set [0..<length (sort e)]. sort e ! j = sort c ! j))
      = (mset e = mset c)" .
  show ?thesis
    using w(1) unfolding lr_restore_clause_def w(2) option.case Let_def eq by simp
qed

theorem lrat_weaken_restore_witness:
  "\<exists>t u. lr_weaken_minus 1 [1, 2] lr_demo = Ok t \<and> lr_restore_clause 1 [2, 1] t = Ok u
     \<and> (\<nexists>v. lr_restore_clause 1 [1, 3] t = Ok v)"
proof -
  obtain t where t: "lr_weaken_minus 1 [1, 2] lr_demo = Ok t"
    by (simp add: lr_demo_def lr_run_def lr_demo_steps_def lr_eval_defs cong: eval_congs)
  have "valid_clause [1, 2]" by (simp add: valid_clause_def)
  note r = lrat_weaken_restore [OF lr_demo_session this t]
  have "mset [2, 1] = mset [1, 2 :: int]" "mset [1, 3] \<noteq> mset [1, 2 :: int]"
    by (simp_all add: add_mset_commute)
  then show ?thesis using t r [of "[2, 1]"] r [of "[1, 3]"] by metis
qed

text \<open>
  C11: a lookup by identifier returns exactly when the hash table has been allocated; the bucket
  of a hash value is then inside the table.
\<close>

theorem lrat_lookup_terminates:
  "(lr_find i s = Diverge \<longleftrightarrow> lr_size_clauses s = 0)
   \<and> (\<forall>x n h. reduce_hash x n = Some h \<longrightarrow> unat h < unat n)"
proof -
  have "unat h < unat n" if "reduce_hash x n = Some h" for x n h
    using reduce_hash_bound [OF that] reduce_hash_zero [of x] that by (cases "n = 0") auto
  moreover have "lr_find i s = Diverge \<longleftrightarrow> lr_size_clauses s = 0"
    using lr_find_empty [of s i] lr_find_total [of s i] by fastforce
  ultimately show ?thesis by blast
qed

theorem lrat_lookup_terminates_witness:
  "lr_find 7 (lr_init False) = Diverge \<and> lr_find 7 lr_demo \<noteq> Diverge \<and> reduce_hash 77 4 = Some 1"
proof -
  have "lr_size_clauses (lr_init False) = 0" "lr_size_clauses lr_demo \<noteq> 0"
    by (simp_all add: lr_demo_def lr_run_def lr_demo_steps_def lr_eval_defs cong: eval_congs)
  then show ?thesis
    using lrat_lookup_terminates [of 7 "lr_init False"] lrat_lookup_terminates [of 7 lr_demo]
    by (simp add: reduce_hash_def reduce_hash_loop.simps)
qed

end
