(* ===== verification/Heap.thy ===== *)
theory Heap
  imports Prelude
begin

text \<open>
  The binary heap with position map of \<^verbatim>\<open>heap.hpp\<close>, instantiated in the solver with the
  orders of \<^verbatim>\<open>score.hpp\<close> and \<^verbatim>\<open>elim.cpp\<close>.  \<open>heap_pos\<close> maps an element to its position in
  \<open>heap_array\<close>, or to \<open>invalid_heap_position\<close>.  The loops \<open>up\<close> and \<open>down\<close> run until the position
  map says otherwise, so they may run forever on a broken map; under the invariant they end.
\<close>

subsection \<open>The code\<close>

record heap =
  heap_array :: "nat list"
  heap_pos :: "nat list"

definition invalid_heap_position :: nat where
  "invalid_heap_position = 4294967295"

text \<open>The resize that every \<^verbatim>\<open>index (e)\<close> may do; \<open>heap_pos h ! e\<close> is then the entry it returns.\<close>

definition heap_index :: "nat \<Rightarrow> heap \<Rightarrow> heap" where
  "heap_index e h =
     (if e \<ge> length (heap_pos h)
      then h\<lparr>heap_pos := resize (1 + e) invalid_heap_position (heap_pos h)\<rparr> else h)"

definition heap_exchange :: "nat \<Rightarrow> nat \<Rightarrow> heap \<Rightarrow> heap" where
  "heap_exchange a b h =
     (let h = heap_index b (heap_index a h);
          i = heap_pos h ! a;
          j = heap_pos h ! b
      in h\<lparr>heap_array := list_swap (heap_array h) i j, heap_pos := (heap_pos h)[a := j, b := i]\<rparr>)"

definition heap_parent :: "nat \<Rightarrow> nat" where
  "heap_parent i = (i - 1) div 2"

partial_function (option) heap_up :: "(nat \<Rightarrow> nat \<Rightarrow> bool) \<Rightarrow> nat \<Rightarrow> heap \<Rightarrow> heap option" where
  "heap_up lt e h =
     (let h = heap_index e h; i = heap_pos h ! e in
      if 0 < i \<and> lt (heap_array h ! heap_parent i) e
      then heap_up lt e (heap_exchange (heap_array h ! heap_parent i) e h)
      else Some h)"

partial_function (option) heap_down :: "(nat \<Rightarrow> nat \<Rightarrow> bool) \<Rightarrow> nat \<Rightarrow> heap \<Rightarrow> heap option" where
  "heap_down lt e h =
     (let h = heap_index e h; i = heap_pos h ! e; n = length (heap_array h) in
      if 2 * i + 1 < n then
        (let c = heap_array h ! (2 * i + 1);
             c = (if 2 * i + 2 < n \<and> lt c (heap_array h ! (2 * i + 2))
                  then heap_array h ! (2 * i + 2) else c)
         in if \<not> lt e c then Some h
            else heap_down lt e (heap_exchange e c h))
      else Some h)"

declare heap_up.simps [code] heap_down.simps [code]

definition heap_empty :: heap where
  "heap_empty = \<lparr>heap_array = [], heap_pos = []\<rparr>"

definition heap_contains :: "heap \<Rightarrow> nat \<Rightarrow> bool" where
  "heap_contains h e \<longleftrightarrow> e < length (heap_pos h) \<and> heap_pos h ! e \<noteq> invalid_heap_position"

definition heap_push_back :: "(nat \<Rightarrow> nat \<Rightarrow> bool) \<Rightarrow> nat \<Rightarrow> heap \<Rightarrow> heap option" where
  "heap_push_back lt e h =
     (let i = length (heap_array h);
          h = h\<lparr>heap_array := heap_array h @ [e]\<rparr>;
          h = heap_index e h;
          h = h\<lparr>heap_pos := (heap_pos h)[e := i]\<rparr>
      in Option.bind (heap_up lt e h) (heap_down lt e))"

definition heap_front :: "heap \<Rightarrow> nat" where
  "heap_front h = heap_array h ! 0"

definition heap_pop_front :: "(nat \<Rightarrow> nat \<Rightarrow> bool) \<Rightarrow> heap \<Rightarrow> (nat \<times> heap) option" where
  "heap_pop_front lt h =
     (let res = heap_array h ! 0;
          lst = last (heap_array h);
          h = (if length (heap_array h) > 1 then heap_exchange res lst h else h);
          h = heap_index res h;
          h = h\<lparr>heap_pos := (heap_pos h)[res := invalid_heap_position]\<rparr>;
          h = h\<lparr>heap_array := butlast (heap_array h)\<rparr>
      in Option.bind (if length (heap_array h) > 1 then heap_down lt lst h else Some h)
           (\<lambda>h. Some (res, h)))"

definition heap_update :: "(nat \<Rightarrow> nat \<Rightarrow> bool) \<Rightarrow> nat \<Rightarrow> heap \<Rightarrow> heap option" where
  "heap_update lt e h = Option.bind (heap_up lt e h) (heap_down lt e)"

definition heap_clear :: "heap \<Rightarrow> heap" where
  "heap_clear h = h\<lparr>heap_array := [], heap_pos := []\<rparr>"

text \<open>
  The order of the EVSIDS scores (\<open>stab\<close> holds a score per variable, NaN-free doubles) and the
  order of the elimination schedule.
\<close>

definition score_smaller :: "(nat \<Rightarrow> 'v :: linorder) \<Rightarrow> nat \<Rightarrow> nat \<Rightarrow> bool" where
  "score_smaller stab a b =
     (let s = stab a; t = stab b in
      if s < t then True else if s > t then False else a > b)"

definition elim_more :: "(nat \<Rightarrow> 'v :: linorder) \<Rightarrow> nat \<Rightarrow> nat \<Rightarrow> bool" where
  "elim_more score a b =
     (let s = score a; t = score b in
      if s > t then True else if s < t then False else a > b)"

definition u2i :: "nat \<Rightarrow> int" where
  "u2i u = (let res = int (u div 2) in if odd u then - res else res)"

definition block_more_occs_size :: "(int \<Rightarrow> nat) \<Rightarrow> nat \<Rightarrow> nat \<Rightarrow> bool" where
  "block_more_occs_size noccs a b =
     (let s = noccs (- u2i a); t = noccs (- u2i b) in
      if s > t then True
      else if s < t then False
      else
        (let s = noccs (u2i a); t = noccs (u2i b) in
         if s > t then True else if s < t then False else a > b))"

fun push_all :: "(nat \<Rightarrow> nat \<Rightarrow> bool) \<Rightarrow> nat list \<Rightarrow> heap \<Rightarrow> heap option" where
  "push_all lt [] h = Some h"
| "push_all lt (i # is) h = Option.bind (heap_push_back lt i h) (push_all lt is)"

definition init_scores :: "(nat \<Rightarrow> nat \<Rightarrow> bool) \<Rightarrow> nat \<Rightarrow> nat \<Rightarrow> heap \<Rightarrow> heap option" where
  "init_scores lt old_max_var new_max_var h = push_all lt (map Suc [old_max_var ..< new_max_var]) h"

subsection \<open>The position map\<close>

definition heap_struct :: "heap \<Rightarrow> bool" where
  "heap_struct h \<longleftrightarrow>
     length (heap_array h) \<le> invalid_heap_position
     \<and> (\<forall>i < length (heap_array h).
          heap_array h ! i < length (heap_pos h) \<and> heap_pos h ! (heap_array h ! i) = i)
     \<and> (\<forall>e < length (heap_pos h). heap_pos h ! e \<noteq> invalid_heap_position \<longrightarrow>
          heap_pos h ! e < length (heap_array h) \<and> heap_array h ! (heap_pos h ! e) = e)"

lemma heap_structD:
  assumes "heap_struct h" "i < length (heap_array h)"
  shows "heap_array h ! i < length (heap_pos h)" "heap_pos h ! (heap_array h ! i) = i"
  using assms by (auto simp: heap_struct_def)

lemma heap_struct_distinct: "heap_struct h \<Longrightarrow> distinct (heap_array h)"
  unfolding heap_struct_def distinct_conv_nth by metis

lemma heap_contains_iff: "heap_struct h \<Longrightarrow> heap_contains h e \<longleftrightarrow> e \<in> set (heap_array h)"
proof
  assume "heap_struct h" "heap_contains h e"
  then show "e \<in> set (heap_array h)" unfolding heap_struct_def heap_contains_def by (metis nth_mem)
next
  assume s: "heap_struct h" and "e \<in> set (heap_array h)"
  then obtain i where "i < length (heap_array h)" "heap_array h ! i = e" by (auto simp: in_set_conv_nth)
  then show "heap_contains h e" using s by (auto simp: heap_contains_def heap_struct_def)
qed

lemma heap_index_in [simp]:
  "heap_struct h \<Longrightarrow> i < length (heap_array h) \<Longrightarrow> heap_index (heap_array h ! i) h = h"
  by (auto simp: heap_struct_def heap_index_def)

lemma heap_exchange_ok:
  assumes s: "heap_struct h" and i: "i < length (heap_array h)" and j: "j < length (heap_array h)"
  defines "t \<equiv> heap_exchange (heap_array h ! i) (heap_array h ! j) h"
  shows "heap_array t = list_swap (heap_array h) i j" "heap_struct t"
proof -
  let ?a = "heap_array h" and ?p = "heap_pos h"
  have ij: "?p ! (?a ! i) = i" "?p ! (?a ! j) = j" "?a ! i < length ?p" "?a ! j < length ?p"
    using heap_structD [OF s] i j by auto
  have t: "heap_array t = list_swap ?a i j" "heap_pos t = ?p[?a ! i := j, ?a ! j := i]"
    using s i j ij by (simp_all add: t_def heap_exchange_def Let_def)
  then show "heap_array t = list_swap ?a i j" by simp
  have inj: "?a ! k = ?a ! m \<longleftrightarrow> k = m" if "k < length ?a" "m < length ?a" for k m
    using heap_struct_distinct [OF s] that nth_eq_iff_index_eq by blast
  show "heap_struct t"
    unfolding heap_struct_def t
  proof (intro conjI allI impI)
    fix k assume k: "k < length (list_swap ?a i j)"
    show "list_swap ?a i j ! k < length (?p[?a ! i := j, ?a ! j := i])"
      using k i j ij heap_structD(1) [OF s] by (simp add: nth_list_swap)
    show "?p[?a ! i := j, ?a ! j := i] ! (list_swap ?a i j ! k) = k"
      using k i j ij heap_structD [OF s] inj by (auto simp: nth_list_swap nth_list_update)
  next
    fix e assume e: "e < length (?p[?a ! i := j, ?a ! j := i])"
      and v: "?p[?a ! i := j, ?a ! j := i] ! e \<noteq> invalid_heap_position"
    have old: "?p ! e < length ?a \<and> ?a ! (?p ! e) = e" if "e \<noteq> ?a ! i" "e \<noteq> ?a ! j"
      using s e v that by (simp add: heap_struct_def nth_list_update)
    show "?p[?a ! i := j, ?a ! j := i] ! e < length (list_swap ?a i j)"
      using old e i j ij by (auto simp: nth_list_update)
    show "list_swap ?a i j ! (?p[?a ! i := j, ?a ! j := i] ! e) = e"
      using old e i j ij by (auto simp: nth_list_update nth_list_swap)
  qed (use s in \<open>simp add: heap_struct_def\<close>)
qed

subsection \<open>The heap order\<close>

definition heap_ordered :: "(nat \<Rightarrow> nat \<Rightarrow> bool) \<Rightarrow> nat list \<Rightarrow> bool" where
  "heap_ordered lt a \<longleftrightarrow> (\<forall>j. 0 < j \<longrightarrow> j < length a \<longrightarrow> \<not> lt (a ! heap_parent j) (a ! j))"

text \<open>Ordered but for the element at \<open>i\<close>, in both directions.\<close>

definition heap_except :: "(nat \<Rightarrow> nat \<Rightarrow> bool) \<Rightarrow> nat list \<Rightarrow> nat \<Rightarrow> bool" where
  "heap_except lt a i \<longleftrightarrow>
     (\<forall>j. 0 < j \<longrightarrow> j < length a \<longrightarrow> j \<noteq> i \<longrightarrow> heap_parent j \<noteq> i \<longrightarrow> \<not> lt (a ! heap_parent j) (a ! j))
     \<and> (\<forall>j. 0 < i \<longrightarrow> 0 < j \<longrightarrow> j < length a \<longrightarrow> heap_parent j = i \<longrightarrow> \<not> lt (a ! heap_parent i) (a ! j))"

lemma heap_parent_less: "0 < j \<Longrightarrow> heap_parent j < j"
  by (simp add: heap_parent_def)

lemma heap_children: "0 < j \<Longrightarrow> heap_parent j = i \<longleftrightarrow> j = 2 * i + 1 \<or> j = 2 * i + 2"
  by (auto simp: heap_parent_def)

lemma heap_ordered_except: "heap_except lt a i \<Longrightarrow> (0 < i \<Longrightarrow> i < length a \<Longrightarrow> \<not> lt (a ! heap_parent i) (a ! i)) \<Longrightarrow>
   (\<And>j. 0 < j \<Longrightarrow> j < length a \<Longrightarrow> heap_parent j = i \<Longrightarrow> \<not> lt (a ! i) (a ! j)) \<Longrightarrow> heap_ordered lt a"
  unfolding heap_except_def heap_ordered_def by metis

text \<open>What the heap needs of the order: the comparison is a strict weak order.\<close>

locale heap_order =
  fixes lt :: "nat \<Rightarrow> nat \<Rightarrow> bool"
  assumes lt_asym: "lt a b \<Longrightarrow> \<not> lt b a"
    and lt_neg_trans: "\<not> lt a b \<Longrightarrow> \<not> lt b c \<Longrightarrow> \<not> lt a c"
begin

lemma except_of_ordered:
  assumes "heap_ordered lt a" "i < length a"
  shows "heap_except lt a i"
  unfolding heap_except_def
proof (intro conjI allI impI)
  fix j assume "0 < i" "0 < j" "j < length a" "heap_parent j = i"
  then have "\<not> lt (a ! heap_parent i) (a ! i)" "\<not> lt (a ! i) (a ! j)"
    using assms by (auto simp: heap_ordered_def)
  then show "\<not> lt (a ! heap_parent i) (a ! j)" by (rule lt_neg_trans)
qed (use assms in \<open>simp add: heap_ordered_def\<close>)

lemma except_up:
  assumes e: "heap_except lt a i" and i: "0 < i" "i < length a" and l: "lt (a ! heap_parent i) (a ! i)"
  shows "heap_except lt (list_swap a (heap_parent i) i) (heap_parent i)"
proof -
  let ?p = "heap_parent i" and ?b = "list_swap a (heap_parent i) i"
  have p: "?p < i" "?p < length a" using i heap_parent_less [OF i(1)] by auto
  have b: "?b ! k = (if k = ?p then a ! i else if k = i then a ! ?p else a ! k)" if "k < length a" for k
    using that p i by (simp add: nth_list_swap)
  have pr: "\<not> lt (a ! heap_parent j) (a ! j)" if "0 < j" "j < length a" "j \<noteq> i" "heap_parent j \<noteq> i" for j
    using e that by (simp add: heap_except_def)
  have gp: "\<not> lt (a ! ?p) (a ! j)" if "0 < j" "j < length a" "heap_parent j = i" for j
    using e i(1) that by (simp add: heap_except_def)
  show ?thesis
    unfolding heap_except_def
  proof (intro conjI allI impI)
    fix j assume j: "0 < j" "j < length ?b" "j \<noteq> ?p" "heap_parent j \<noteq> ?p"
    have "heap_parent j < length a" using heap_parent_less [OF j(1)] j(2) by simp
    then show "\<not> lt (?b ! heap_parent j) (?b ! j)"
      using b [of j] b [of "heap_parent j"] j pr [of j] gp [of j] by (cases "heap_parent j = i") auto
  next
    fix j assume j: "0 < ?p" "0 < j" "j < length ?b" "heap_parent j = ?p"
    have q: "heap_parent ?p < ?p" using heap_parent_less [OF j(1)] .
    have up: "\<not> lt (a ! heap_parent ?p) (a ! ?p)" using pr [of ?p] j(1) p q by auto
    have "j = i \<or> \<not> lt (a ! ?p) (a ! j)" using pr [of j] j p by auto
    moreover have "j \<noteq> ?p" using heap_parent_less [OF j(2)] j(4) by auto
    moreover have "heap_parent ?p \<noteq> i" "heap_parent ?p < length a" using q p by auto
    ultimately show "\<not> lt (?b ! heap_parent ?p) (?b ! j)"
      using b [of j] b [of "heap_parent ?p"] q j(3) up lt_neg_trans [OF up, of "a ! j"] by (cases "j = i") simp_all
  qed
qed

lemma except_down:
  assumes e: "heap_except lt a i" and i: "i < length a" and up: "0 < i \<Longrightarrow> \<not> lt (a ! heap_parent i) (a ! i)"
    and k: "0 < k" "k < length a" "heap_parent k = i" and l: "lt (a ! i) (a ! k)"
    and best: "\<And>j. 0 < j \<Longrightarrow> j < length a \<Longrightarrow> heap_parent j = i \<Longrightarrow> \<not> lt (a ! k) (a ! j)"
  shows "heap_except lt (list_swap a i k) k" "\<not> lt (list_swap a i k ! heap_parent k) (list_swap a i k ! k)"
proof -
  let ?b = "list_swap a i k"
  have ik: "i < k" using heap_parent_less [OF k(1)] k(3) by simp
  have b: "?b ! m = (if m = i then a ! k else if m = k then a ! i else a ! m)" if "m < length a" for m
    using that i k by (simp add: nth_list_swap)
  have pr: "\<not> lt (a ! heap_parent j) (a ! j)" if "0 < j" "j < length a" "j \<noteq> i" "heap_parent j \<noteq> i" for j
    using e that by (simp add: heap_except_def)
  have gp: "\<not> lt (a ! heap_parent i) (a ! j)" if "0 < i" "0 < j" "j < length a" "heap_parent j = i" for j
    using e that by (simp add: heap_except_def)
  show "\<not> lt (?b ! heap_parent k) (?b ! k)" using b k i ik lt_asym [OF l] by simp
  show "heap_except lt ?b k"
    unfolding heap_except_def
  proof (intro conjI allI impI)
    fix j assume j: "0 < j" "j < length ?b" "j \<noteq> k" "heap_parent j \<noteq> k"
    have q: "heap_parent j < j" "heap_parent j < length a" using heap_parent_less [OF j(1)] j(2) by simp_all
    consider (top) "j = i" | (sib) "heap_parent j = i" | (other) "j \<noteq> i" "heap_parent j \<noteq> i" by blast
    then show "\<not> lt (?b ! heap_parent j) (?b ! j)"
    proof cases
      case top
      then show ?thesis using b q j gp [of k] k ik by simp
    next
      case sib
      then show ?thesis using b q j best [of j] k ik by simp
    next
      case other
      then show ?thesis using b q j pr [of j] by simp
    qed
  next
    fix j assume j: "0 < k" "0 < j" "j < length ?b" "heap_parent j = k"
    have "j \<noteq> i" "j \<noteq> k" using heap_parent_less [OF j(2)] j(4) ik by auto
    moreover have "\<not> lt (a ! k) (a ! j)" using pr [of j] j ik \<open>j \<noteq> i\<close> by auto
    ultimately show "\<not> lt (?b ! heap_parent k) (?b ! j)" using b j k i by simp
  qed
qed

subsubsection \<open>The loops\<close>

lemma up_ok:
  assumes "heap_struct h" "i < length (heap_array h)" "heap_array h ! i = e" "heap_except lt (heap_array h) i"
  shows "\<exists>t k. heap_up lt e h = Some t \<and> heap_struct t \<and> mset (heap_array t) = mset (heap_array h)
    \<and> k < length (heap_array t) \<and> heap_array t ! k = e \<and> heap_except lt (heap_array t) k
    \<and> (0 < k \<longrightarrow> \<not> lt (heap_array t ! heap_parent k) e)"
  using assms
proof (induction i arbitrary: h rule: less_induct)
  case (less i)
  let ?p = "heap_parent i"
  have x: "heap_index e h = h" "heap_pos h ! e = i"
    using less.prems heap_index_in heap_structD(2) by metis+
  show ?case
  proof (cases "0 < i \<and> lt (heap_array h ! ?p) e")
    case False
    then have "heap_up lt e h = Some h" by (subst heap_up.simps) (auto simp: x Let_def)
    then show ?thesis using less.prems False by (intro exI [of _ h] exI [of _ i]) auto
  next
    case True
    let ?t = "heap_exchange (heap_array h ! ?p) e h"
    have p: "?p < i" "?p < length (heap_array h)" using heap_parent_less [of i] True less.prems(2) by auto
    have ex: "heap_array ?t = list_swap (heap_array h) ?p i" "heap_struct ?t"
      using heap_exchange_ok [OF less.prems(1) p(2) less.prems(2)] less.prems(3) by simp_all
    have eq: "heap_up lt e h = heap_up lt e ?t" using True by (subst heap_up.simps) (simp add: x)
    have "heap_except lt (heap_array ?t) ?p"
      unfolding ex(1) by (rule except_up) (use less.prems True in auto)
    moreover have "heap_array ?t ! ?p = e" using ex(1) p less.prems(2,3) by (simp add: nth_list_swap)
    moreover have m: "mset (heap_array ?t) = mset (heap_array h)" "?p < length (heap_array ?t)"
      using p less.prems(2) unfolding ex(1) by simp_all
    ultimately show ?thesis
      using less.IH [OF p(1) ex(2) m(2)] unfolding eq m(1) by blast
  qed
qed

lemma down_ok:
  assumes "heap_struct h" "i < length (heap_array h)" "heap_array h ! i = e" "heap_except lt (heap_array h) i"
    and "0 < i \<longrightarrow> \<not> lt (heap_array h ! heap_parent i) e"
  shows "\<exists>t. heap_down lt e h = Some t \<and> heap_struct t \<and> mset (heap_array t) = mset (heap_array h)
    \<and> heap_ordered lt (heap_array t)"
  using assms
proof (induction "length (heap_array h) - i" arbitrary: h i rule: less_induct)
  case less
  let ?a = "heap_array h"
  have x: "heap_index e h = h" "heap_pos h ! e = i"
    using less.prems heap_index_in heap_structD(2) by metis+
  show ?case
  proof (cases "2 * i + 1 < length ?a")
    case False
    then have "heap_down lt e h = Some h" by (subst heap_down.simps) (simp add: x)
    moreover have "heap_ordered lt ?a"
      by (rule heap_ordered_except [OF less.prems(4)]) (use less.prems(3,5) False in \<open>auto simp: heap_children\<close>)
    ultimately show ?thesis using less.prems(1) by blast
  next
    case True
    define k where "k = (if 2 * i + 2 < length ?a \<and> lt (?a ! (2 * i + 1)) (?a ! (2 * i + 2)) then 2 * i + 2 else 2 * i + 1)"
    have k: "0 < k" "k < length ?a" "heap_parent k = i" using True by (auto simp: k_def heap_parent_def)
    have best: "\<not> lt (?a ! k) (?a ! j)" if "0 < j" "j < length ?a" "heap_parent j = i" for j
      using that lt_asym lt_asym [of "?a ! k" "?a ! k"] heap_children [of j i] by (auto simp: k_def)
    have eq: "heap_down lt e h = (if \<not> lt e (?a ! k) then Some h else heap_down lt e (heap_exchange e (?a ! k) h))"
      using True by (subst heap_down.simps) (auto simp: x Let_def k_def)
    show ?thesis
    proof (cases "lt e (?a ! k)")
      case False
      have "heap_ordered lt ?a"
      proof (rule heap_ordered_except [OF less.prems(4)])
        fix j assume "0 < j" "j < length ?a" "heap_parent j = i"
        from lt_neg_trans [OF False best [OF this]] show "\<not> lt (?a ! i) (?a ! j)"
          by (simp add: less.prems(3))
      qed (use less.prems(3,5) in simp)
      then show ?thesis using eq False less.prems(1) by auto
    next
      case True
      let ?t = "heap_exchange e (?a ! k) h"
      have ex: "heap_array ?t = list_swap ?a i k" "heap_struct ?t"
        using heap_exchange_ok [OF less.prems(1,2) k(2)] less.prems(3) by simp_all
      have ik: "i < k" using heap_parent_less [OF k(1)] k(3) by simp
      have nx: "heap_array ?t ! k = e" using ex(1) k ik less.prems(2,3) by (simp add: nth_list_swap)
      have up: "0 < i \<Longrightarrow> \<not> lt (?a ! heap_parent i) (?a ! i)" using less.prems(3,5) by simp
      have l: "lt (?a ! i) (?a ! k)" using True less.prems(3) by simp
      note d = except_down [OF less.prems(4,2) up k l best, folded ex(1)]
      have sm: "length (heap_array ?t) - k < length ?a - i" using ex(1) ik k(2) by simp
      have m: "mset (heap_array ?t) = mset ?a" "k < length (heap_array ?t)"
        using k(2) less.prems(2) unfolding ex(1) by simp_all
      have "0 < k \<longrightarrow> \<not> lt (heap_array ?t ! heap_parent k) e" using d(2) [unfolded nx] by (rule impI)
      note ih = less.hyps [OF sm ex(2) m(2) nx d(1) this, unfolded m(1)]
      have "heap_down lt e h = heap_down lt e ?t" using True by (simp only: eq not_True_eq_False if_False)
      then show ?thesis using ih by (simp only:)
    qed
  qed
qed

end

subsection \<open>Operations\<close>

definition heap_inv :: "(nat \<Rightarrow> nat \<Rightarrow> bool) \<Rightarrow> heap \<Rightarrow> bool" where
  "heap_inv lt h \<longleftrightarrow> heap_struct h \<and> heap_ordered lt (heap_array h)"

lemma heap_inv_empty: "heap_inv lt heap_empty"
  by (simp add: heap_inv_def heap_struct_def heap_ordered_def heap_empty_def)

lemma heap_index_frame [simp]: "heap_array (heap_index e h) = heap_array h"
  by (simp add: heap_index_def)

lemma heap_index_pos:
  "e < length (heap_pos (heap_index e h))" "length (heap_pos h) \<le> length (heap_pos (heap_index e h))"
  "k < length (heap_pos (heap_index e h)) \<Longrightarrow> heap_pos (heap_index e h) ! k =
     (if k < length (heap_pos h) then heap_pos h ! k else invalid_heap_position)"
  by (auto simp: heap_index_def nth_resize)

text \<open>Appending a new element keeps the position map exact.\<close>

lemma heap_struct_append:
  assumes s: "heap_struct h" and e: "\<not> heap_contains h e" and room: "length (heap_array h) < invalid_heap_position"
  defines "g \<equiv> heap_index e (h\<lparr>heap_array := heap_array h @ [e]\<rparr>)"
  defines "t \<equiv> g\<lparr>heap_pos := (heap_pos g)[e := length (heap_array h)]\<rparr>"
  shows "heap_struct t" "heap_array t = heap_array h @ [e]"
proof -
  let ?n = "length (heap_array h)"
  have arr: "heap_array g = heap_array h @ [e]" by (simp add: g_def)
  then show at: "heap_array t = heap_array h @ [e]" by (simp add: t_def)
  have new: "e \<notin> set (heap_array h)" using e heap_contains_iff [OF s] by simp
  have elen: "e < length (heap_pos g)" "length (heap_pos h) \<le> length (heap_pos g)"
    using heap_index_pos(1,2) [where e = e and h = "h\<lparr>heap_array := heap_array h @ [e]\<rparr>"] by (simp_all add: g_def)
  have gp: "heap_pos g ! k = (if k < length (heap_pos h) then heap_pos h ! k else invalid_heap_position)"
    if "k < length (heap_pos g)" for k
    using that heap_index_pos(3) [where k = k and e = e and h = "h\<lparr>heap_array := heap_array h @ [e]\<rparr>"] by (simp add: g_def)
  show "heap_struct t"
    unfolding heap_struct_def at
  proof (intro conjI allI impI)
    fix i assume i: "i < length (heap_array h @ [e])"
    show "(heap_array h @ [e]) ! i < length (heap_pos t)"
      using i elen heap_structD(1) [OF s, of i] by (auto simp: t_def nth_append)
    have "heap_array h ! i \<noteq> e" if "i < ?n" using new that nth_mem by metis
    then show "heap_pos t ! ((heap_array h @ [e]) ! i) = i"
      using i elen heap_structD [OF s, of i] gp [of "heap_array h ! i"]
      by (auto simp: t_def nth_append nth_list_update)
  next
    fix k assume k: "k < length (heap_pos t)" "heap_pos t ! k \<noteq> invalid_heap_position"
    have old: "heap_pos h ! k < ?n \<and> heap_array h ! (heap_pos h ! k) = k \<and> heap_pos t ! k = heap_pos h ! k"
      if "k \<noteq> e"
      using that k gp [of k] s by (auto simp: t_def heap_struct_def split: if_splits)
    show "heap_pos t ! k < length (heap_array h @ [e])"
      using old elen by (cases "k = e") (auto simp: t_def)
    show "(heap_array h @ [e]) ! (heap_pos t ! k) = k"
      using old elen by (cases "k = e") (auto simp: t_def nth_append)
  qed (use room in simp)
qed

text \<open>Dropping the last element does so, too.\<close>

lemma heap_struct_drop:
  assumes s: "heap_struct h" and ne: "heap_array h \<noteq> []" and e: "e = last (heap_array h)"
  shows "heap_struct (h\<lparr>heap_pos := (heap_pos h)[e := invalid_heap_position], heap_array := butlast (heap_array h)\<rparr>)"
    (is "heap_struct ?t")
proof -
  let ?a = "heap_array h" and ?n = "length (heap_array h) - 1"
  have n: "?n < length ?a" "?a ! ?n = e" using ne e by (simp_all add: last_conv_nth)
  have b: "butlast ?a ! i = ?a ! i" if "i < ?n" for i using that by (simp add: nth_butlast)
  have inj: "?a ! i \<noteq> e" if "i < ?n" for i
    using that n heap_struct_distinct [OF s] nth_eq_iff_index_eq by fastforce
  show ?thesis
    unfolding heap_struct_def
  proof (intro conjI allI impI)
    fix i assume i: "i < length (heap_array ?t)"
    show "heap_array ?t ! i < length (heap_pos ?t)" "heap_pos ?t ! (heap_array ?t ! i) = i"
      using i b inj [of i] not_sym [OF inj [of i]] heap_structD [OF s, of i] by simp_all
  next
    fix k assume k: "k < length (heap_pos ?t)" "heap_pos ?t ! k \<noteq> invalid_heap_position"
    then have ke: "k \<noteq> e" by auto
    with k have old: "heap_pos h ! k < length ?a" "?a ! (heap_pos h ! k) = k"
      using s by (auto simp: heap_struct_def)
    have "heap_pos h ! k \<noteq> ?n" using old(2) n(2) ke by auto
    with old(1) have lt: "heap_pos h ! k < ?n" by simp
    then show "heap_pos ?t ! k < length (heap_array ?t)" using ke by simp
    show "heap_array ?t ! (heap_pos ?t ! k) = k" using ke lt b old by simp
  qed (use s in \<open>auto simp: heap_struct_def\<close>)
qed

context heap_order
begin

lemma push_back_ok:
  assumes h: "heap_inv lt h" and e: "\<not> heap_contains h e" and room: "length (heap_array h) < invalid_heap_position"
  shows "\<exists>t. heap_push_back lt e h = Some t \<and> heap_inv lt t
    \<and> mset (heap_array t) = add_mset e (mset (heap_array h))"
proof -
  define g where "g = heap_index e (h\<lparr>heap_array := heap_array h @ [e]\<rparr>)"
  define u where "u = g\<lparr>heap_pos := (heap_pos g)[e := length (heap_array h)]\<rparr>"
  have s: "heap_struct h" and o: "heap_ordered lt (heap_array h)" using h by (auto simp: heap_inv_def)
  have u: "heap_struct u" "heap_array u = heap_array h @ [e]"
    using heap_struct_append [OF s e room] by (simp_all add: u_def g_def)
  have ex: "heap_except lt (heap_array u) (length (heap_array h))"
    unfolding heap_except_def u(2)
  proof (intro conjI allI impI)
    fix j assume j: "0 < j" "j < length (heap_array h @ [e])" "j \<noteq> length (heap_array h)"
    have "heap_parent j < j" by (rule heap_parent_less [OF j(1)])
    then show "\<not> lt ((heap_array h @ [e]) ! heap_parent j) ((heap_array h @ [e]) ! j)"
      using o j by (simp add: heap_ordered_def nth_append)
  next
    fix j assume j: "0 < j" "j < length (heap_array h @ [e])" "heap_parent j = length (heap_array h)"
    then show "\<not> lt ((heap_array h @ [e]) ! heap_parent (length (heap_array h))) ((heap_array h @ [e]) ! j)"
      using heap_parent_less [OF j(1)] by simp
  qed
  obtain v k where v: "heap_up lt e u = Some v" "heap_struct v" "mset (heap_array v) = mset (heap_array u)"
    "k < length (heap_array v)" "heap_array v ! k = e" "heap_except lt (heap_array v) k"
    "0 < k \<longrightarrow> \<not> lt (heap_array v ! heap_parent k) e"
    using up_ok [OF u(1) _ _ ex] u(2) by auto
  obtain t where t: "heap_down lt e v = Some t" "heap_struct t" "mset (heap_array t) = mset (heap_array v)"
    "heap_ordered lt (heap_array t)"
    using down_ok [OF v(2,4,5,6,7)] by blast
  have "heap_push_back lt e h = Some t"
    using v(1) t(1) by (simp add: heap_push_back_def Let_def u_def g_def)
  then show ?thesis using t v(3) u(2) by (auto simp: heap_inv_def)
qed

lemma pop_front_ok:
  assumes h: "heap_inv lt h" and ne: "heap_array h \<noteq> []"
  shows "\<exists>t. heap_pop_front lt h = Some (heap_front h, t) \<and> heap_inv lt t
    \<and> mset (heap_array h) = add_mset (heap_front h) (mset (heap_array t))"
proof -
  let ?a = "heap_array h" and ?n = "length (heap_array h) - 1"
  have s: "heap_struct h" and o: "heap_ordered lt ?a" using h by (auto simp: heap_inv_def)
  have n: "0 < length ?a" "?n < length ?a" using ne by auto
  define g where "g = (if length ?a > 1 then heap_exchange (?a ! 0) (last ?a) h else h)"
  have g: "heap_struct g" "heap_array g = (if length ?a > 1 then list_swap ?a 0 ?n else ?a)"
    using heap_exchange_ok [OF s n] s ne by (auto simp: g_def last_conv_nth)
  have lg: "length (heap_array g) = length ?a" using g(2) by simp
  then have gl: "heap_array g \<noteq> []" using ne by (metis length_0_conv)
  then have gz: "last (heap_array g) = ?a ! 0"
    using n g(2) lg by (auto simp: last_conv_nth nth_list_swap)
  have gi: "heap_index (?a ! 0) g = g"
    using heap_index_in [OF g(1), of "length (heap_array g) - 1"] gl gz by (simp add: last_conv_nth)
  define u where "u = g\<lparr>heap_pos := (heap_pos g)[?a ! 0 := invalid_heap_position], heap_array := butlast (heap_array g)\<rparr>"
  have u: "heap_struct u" using heap_struct_drop [OF g(1) gl] gz by (simp add: u_def)
  have len: "length (heap_array u) = ?n" using lg by (simp add: u_def)
  have "mset (heap_array g) = mset ?a" using g(2) n by simp
  moreover have "mset (heap_array g) = add_mset (?a ! 0) (mset (butlast (heap_array g)))"
    using gl gz by (metis append_butlast_last_id mset_append add_mset_add_single mset.simps)
  ultimately have m: "mset ?a = add_mset (?a ! 0) (mset (heap_array u))" by (simp add: u_def)
  have pop: "heap_pop_front lt h = Option.bind (if length (heap_array u) > 1 then heap_down lt (last ?a) u else Some u)
      (\<lambda>h. Some (?a ! 0, h))"
    unfolding heap_pop_front_def Let_def g_def [symmetric] gi u_def by simp
  have "\<exists>t. (if length (heap_array u) > 1 then heap_down lt (last ?a) u else Some u) = Some t \<and> heap_inv lt t
      \<and> mset (heap_array t) = mset (heap_array u)"
  proof (cases "length (heap_array u) > 1")
    case False
    then have "heap_ordered lt (heap_array u)" by (auto simp: heap_ordered_def)
    then show ?thesis using False u by (auto simp: heap_inv_def)
  next
    case True
    then have big: "length ?a > 1" "0 < ?n" using len by auto
    have nth: "heap_array u ! k = (if k = 0 then last ?a else ?a ! k)" if "k < ?n" for k
      using that big n g(2) by (auto simp: u_def nth_butlast nth_list_swap last_conv_nth)
    have "heap_except lt (heap_array u) 0"
      unfolding heap_except_def len
    proof (intro conjI allI impI)
      fix j assume j: "0 < j" "j < ?n" "heap_parent j \<noteq> 0"
      have "heap_parent j < j" by (rule heap_parent_less [OF j(1)])
      then show "\<not> lt (heap_array u ! heap_parent j) (heap_array u ! j)"
        using o j nth [of j] nth [of "heap_parent j"] by (simp add: heap_ordered_def)
    qed simp
    then show ?thesis
      using down_ok [OF u, of 0 "last ?a"] nth [of 0] big len True by (auto simp: heap_inv_def)
  qed
  then show ?thesis using pop m by (auto simp: heap_front_def)
qed

text \<open>The root is a maximum.\<close>

lemma front_max:
  assumes h: "heap_inv lt h" and e: "e \<in> set (heap_array h)"
  shows "\<not> lt (heap_front h) e"
proof -
  obtain i where i: "i < length (heap_array h)" "heap_array h ! i = e" using e by (auto simp: in_set_conv_nth)
  have "\<not> lt (heap_array h ! 0) (heap_array h ! i)" using i(1)
  proof (induction i rule: less_induct)
    case (less i)
    show ?case
    proof (cases "i = 0")
      case True
      then show ?thesis using lt_asym by blast
    next
      case False
      then have p: "heap_parent i < i" using heap_parent_less by simp
      have "\<not> lt (heap_array h ! 0) (heap_array h ! heap_parent i)" using less p by simp
      moreover have "\<not> lt (heap_array h ! heap_parent i) (heap_array h ! i)"
        using h less.prems False by (simp add: heap_inv_def heap_ordered_def)
      ultimately show ?thesis by (rule lt_neg_trans)
    qed
  qed
  then show ?thesis using i(2) by (simp add: heap_front_def)
qed

text \<open>After the priority of one element changed, \<open>update\<close> restores the order.\<close>

lemma update_ok:
  assumes s: "heap_struct h" and i: "i < length (heap_array h)" and ex: "heap_except lt (heap_array h) i"
  shows "\<exists>t. heap_update lt (heap_array h ! i) h = Some t \<and> heap_inv lt t \<and> mset (heap_array t) = mset (heap_array h)"
proof -
  let ?e = "heap_array h ! i"
  obtain v k where v: "heap_up lt ?e h = Some v" "heap_struct v" "mset (heap_array v) = mset (heap_array h)"
    "k < length (heap_array v)" "heap_array v ! k = ?e" "heap_except lt (heap_array v) k"
    "0 < k \<longrightarrow> \<not> lt (heap_array v ! heap_parent k) ?e"
    using up_ok [OF s i refl ex] by blast
  obtain t where "heap_down lt ?e v = Some t" "heap_struct t" "mset (heap_array t) = mset (heap_array v)"
    "heap_ordered lt (heap_array t)"
    using down_ok [OF v(2,4,5,6,7)] by blast
  then show ?thesis using v by (auto simp: heap_update_def heap_inv_def)
qed

end

subsection \<open>The heap as a priority queue\<close>

text \<open>Popping \<open>n\<close> times, the loop of \<^verbatim>\<open>shuffle_scores\<close> that empties the schedule.\<close>

fun drain :: "('q \<Rightarrow> (nat \<times> 'q) option) \<Rightarrow> nat \<Rightarrow> 'q \<Rightarrow> nat list option" where
  "drain pop 0 q = Some []"
| "drain pop (Suc n) q =
     Option.bind (pop q) (\<lambda>(e, q). Option.bind (drain pop n q) (\<lambda>es. Some (e # es)))"

locale priority_queue =
  fixes inv :: "'q \<Rightarrow> bool" and elems :: "'q \<Rightarrow> nat multiset"
    and before :: "nat \<Rightarrow> nat \<Rightarrow> bool" and top :: "'q \<Rightarrow> nat" and pop :: "'q \<Rightarrow> (nat \<times> 'q) option"
  assumes top_max: "inv q \<Longrightarrow> e \<in># elems q \<Longrightarrow> \<not> before (top q) e"
    and pop_top: "inv q \<Longrightarrow> elems q \<noteq> {#} \<Longrightarrow>
      \<exists>t. pop q = Some (top q, t) \<and> inv t \<and> elems q = add_mset (top q) (elems t)"
begin

lemma drain_sorted:
  assumes "inv q"
  shows "\<exists>es. drain pop (size (elems q)) q = Some es \<and> mset es = elems q
    \<and> sorted_wrt (\<lambda>a b. \<not> before a b) es"
  using assms
proof (induction "size (elems q)" arbitrary: q)
  case 0
  then show ?case by simp
next
  case (Suc n)
  have "elems q \<noteq> {#}" using Suc.hyps(2) by auto
  then obtain t where t: "pop q = Some (top q, t)" "inv t" "elems q = add_mset (top q) (elems t)"
    using pop_top [OF Suc.prems] by blast
  have n: "n = size (elems t)" using Suc.hyps(2) t(3) by simp
  obtain es where es: "drain pop n t = Some es" "mset es = elems t" "sorted_wrt (\<lambda>a b. \<not> before a b) es"
    using Suc.hyps(1) [OF n t(2)] n by auto
  have "\<forall>e \<in> set es. \<not> before (top q) e"
    using top_max [OF Suc.prems] t(3) es(2) by (metis insertCI set_mset_add_mset_insert set_mset_mset)
  then show ?case
    using t(1,3) es Suc.hyps(2) [symmetric] by (intro exI [of _ "top q # es"]) (simp add: t(3))
qed

end

sublocale heap_order \<subseteq> pq: priority_queue "heap_inv lt" "\<lambda>h. mset (heap_array h)" lt heap_front "heap_pop_front lt"
proof unfold_locales
  fix q e assume "heap_inv lt q" "e \<in># mset (heap_array q)"
  then show "\<not> lt (heap_front q) e" by (simp add: front_max)
next
  fix q assume "heap_inv lt q" "mset (heap_array q) \<noteq> {#}"
  then show "\<exists>t. heap_pop_front lt q = Some (heap_front q, t) \<and> heap_inv lt t
      \<and> mset (heap_array q) = add_mset (heap_front q) (mset (heap_array t))"
    by (intro pop_front_ok) auto
qed

context heap_order
begin

lemma push_all_ok:
  assumes "heap_inv lt h" "distinct es" "set es \<inter> set (heap_array h) = {}"
    "length (heap_array h) + length es \<le> invalid_heap_position"
  shows "\<exists>t. push_all lt es h = Some t \<and> heap_inv lt t
    \<and> mset (heap_array t) = mset (heap_array h) + mset es"
  using assms
proof (induction es arbitrary: h)
  case (Cons e es)
  have "\<not> heap_contains h e" using Cons.prems heap_contains_iff by (auto simp: heap_inv_def)
  then obtain u where u: "heap_push_back lt e h = Some u" "heap_inv lt u"
    "mset (heap_array u) = add_mset e (mset (heap_array h))"
    using push_back_ok [OF Cons.prems(1)] Cons.prems(4) by fastforce
  have m: "mset (heap_array u) = mset (e # heap_array h)" using u(3) by simp
  have "set (heap_array u) = insert e (set (heap_array h))" "length (heap_array u) = Suc (length (heap_array h))"
    using mset_eq_setD [OF m] mset_eq_length [OF m] by simp_all
  then have "\<exists>t. push_all lt es u = Some t \<and> heap_inv lt t
      \<and> mset (heap_array t) = mset (heap_array u) + mset es"
    using Cons.prems(2-4) by (intro Cons.IH [OF u(2)]) auto
  then show ?case using u by auto
qed auto

end

subsection \<open>The orders of the solver\<close>

interpretation score: heap_order "score_smaller stab" for stab :: "nat \<Rightarrow> 'v :: linorder"
  by unfold_locales (auto simp: score_smaller_def Let_def split: if_splits)

interpretation elim: heap_order "elim_more score" for score :: "nat \<Rightarrow> 'v :: linorder"
  by unfold_locales (auto simp: elim_more_def Let_def split: if_splits)

interpretation block: heap_order "block_more_occs_size noccs" for noccs
  by unfold_locales (auto simp: block_more_occs_size_def Let_def split: if_splits)

end
