(* ===== verification/Scores.thy ===== *)
theory Scores
  imports Heap Random_Gen
begin

text \<open>
  Shuffling the EVSIDS heap (\<^verbatim>\<open>score.cpp\<close>): the variables are taken off the heap in order, or put
  into a random order, and pushed again with the scores 0, 1, 2 and so on.  Scores are doubles in
  the code; the ones written here are small integers, which doubles represent exactly, and are
  values of any linearly ordered number type here.
\<close>

subsection \<open>The code\<close>

record 'v Scores =
  sc_heap :: heap
  sc_stab :: "nat \<Rightarrow> 'v"
  sc_score_inc :: 'v
  sc_stats_shuffled :: int

text \<open>The loop \<^verbatim>\<open>while (!scores.empty ())\<close>: the elements popped and the heap left.\<close>

partial_function (option) pop_all :: "(nat \<Rightarrow> nat \<Rightarrow> bool) \<Rightarrow> heap \<Rightarrow> (nat list \<times> heap) option" where
  "pop_all lt h =
     (if heap_array h = [] then Some ([], h)
      else Option.bind (heap_pop_front lt h)
             (\<lambda>(_, t). Option.bind (pop_all lt t) (\<lambda>(is, t). Some (heap_front h # is, t))))"

declare pop_all.simps [code]

fun rescore :: "nat list \<Rightarrow> 'v :: linordered_semidom \<Rightarrow> (nat \<Rightarrow> 'v) \<Rightarrow> heap \<Rightarrow> ((nat \<Rightarrow> 'v) \<times> 'v \<times> heap) option" where
  "rescore [] inc stab h = Some (stab, inc, h)"
| "rescore (idx # is) inc stab h =
     (let stab = stab(idx := inc); inc = inc + 1
      in Option.bind (heap_push_back (score_smaller stab) idx h) (rescore is inc stab))"

definition shuffle_scores :: "shuffle_opts \<Rightarrow> nat \<Rightarrow> ('v :: linordered_semidom) Scores \<Rightarrow> 'v Scores option" where
  "shuffle_scores opts max_var s =
     (if \<not> opts_shuffle opts then Some s
      else if \<not> opts_shufflescores opts then Some s
      else
        (let s = s\<lparr>sc_stats_shuffled := sc_stats_shuffled s + 1\<rparr>
         in Option.bind
              (if opts_shufflerandom opts
               then Some (random_order (opts_seed opts) (word_of_int (sc_stats_shuffled s)) max_var,
                          heap_clear (sc_heap s))
               else pop_all (score_smaller (sc_stab s)) (sc_heap s))
              (\<lambda>(shuffle, h).
                 Option.bind (rescore shuffle 0 (sc_stab s) h)
                   (\<lambda>(stab, inc, h).
                      Some (s\<lparr>sc_heap := h, sc_stab := stab, sc_score_inc := inc\<rparr>)))))"

subsection \<open>Emptying and refilling the heap\<close>

lemma pop_all_ok:
  assumes "heap_inv (score_smaller stab) h"
  shows "\<exists>es t. pop_all (score_smaller stab) h = Some (es, t) \<and> mset es = mset (heap_array h)
    \<and> heap_inv (score_smaller stab) t \<and> heap_array t = []"
  using assms
proof (induction "length (heap_array h)" arbitrary: h)
  case 0
  then show ?case by (subst pop_all.simps) simp
next
  case (Suc n)
  have ne: "heap_array h \<noteq> []" using Suc.hyps(2) by auto
  then obtain u where u: "heap_pop_front (score_smaller stab) h = Some (heap_front h, u)"
    "heap_inv (score_smaller stab) u" "mset (heap_array h) = add_mset (heap_front h) (mset (heap_array u))"
    using score.pop_front_ok [OF Suc.prems] by blast
  have "n = length (heap_array u)" using u(3) Suc.hyps(2) by (metis Suc_inject size_add_mset size_mset)
  from Suc.hyps(1) [OF this u(2)] obtain es t where t: "pop_all (score_smaller stab) u = Some (es, t)"
    "mset es = mset (heap_array u)" "heap_inv (score_smaller stab) t" "heap_array t = []" by blast
  then show ?case using ne u by (subst pop_all.simps) auto
qed

lemma heap_inv_score_cong:
  assumes "heap_inv (score_smaller f) h" and "\<And>e. e \<in> set (heap_array h) \<Longrightarrow> g e = f e"
  shows "heap_inv (score_smaller g) h"
proof -
  have "score_smaller g (heap_array h ! heap_parent j) (heap_array h ! j)
      = score_smaller f (heap_array h ! heap_parent j) (heap_array h ! j)"
    if "0 < j" "j < length (heap_array h)" for j
    using that assms(2) heap_parent_less [of j] by (simp add: score_smaller_def nth_mem less_trans)
  then show ?thesis using assms(1) by (simp add: heap_inv_def heap_ordered_def)
qed

lemma rescore_ok:
  assumes "heap_inv (score_smaller stab) h" "\<forall>e \<in> set (heap_array h). stab e < inc"
    and "distinct es" "set es \<inter> set (heap_array h) = {}"
    and "length (heap_array h) + length es \<le> invalid_heap_position"
  shows "\<exists>stab' t. rescore es inc stab h = Some (stab', inc + of_nat (length es), t)
    \<and> heap_inv (score_smaller stab') t \<and> mset (heap_array t) = mset (heap_array h) + mset es
    \<and> (\<forall>i < length es. stab' (es ! i) = inc + of_nat i) \<and> (\<forall>e. e \<notin> set es \<longrightarrow> stab' e = stab e)"
  using assms
proof (induction es arbitrary: inc stab h)
  case (Cons e es)
  define s where "s = stab(e := inc)"
  have "heap_inv (score_smaller s) h"
    by (rule heap_inv_score_cong [OF Cons.prems(1)]) (use Cons.prems(4) in \<open>auto simp: s_def\<close>)
  moreover have "\<not> heap_contains h e" using Cons.prems heap_contains_iff by (auto simp: heap_inv_def)
  ultimately obtain u where u: "heap_push_back (score_smaller s) e h = Some u" "heap_inv (score_smaller s) u"
    "mset (heap_array u) = add_mset e (mset (heap_array h))"
    using score.push_back_ok [of s h e] Cons.prems(5) by fastforce
  have m: "mset (heap_array u) = mset (e # heap_array h)" using u(3) by simp
  have el: "set (heap_array u) = insert e (set (heap_array h))" "length (heap_array u) = Suc (length (heap_array h))"
    using mset_eq_setD [OF m] mset_eq_length [OF m] by simp_all
  have lt: "\<forall>x \<in> set (heap_array u). s x < inc + 1"
    using el(1) Cons.prems(2,4) by (auto simp: s_def intro: less_trans less_add_one)
  obtain stab' t where t: "rescore es (inc + 1) s u = Some (stab', inc + 1 + of_nat (length es), t)"
    "heap_inv (score_smaller stab') t" "mset (heap_array t) = mset (heap_array u) + mset es"
    "\<forall>i < length es. stab' (es ! i) = inc + 1 + of_nat i" "\<forall>x. x \<notin> set es \<longrightarrow> stab' x = s x"
    using Cons.IH [OF u(2) lt] Cons.prems(3-5) el by fastforce
  have "stab' ((e # es) ! i) = inc + of_nat i" if "i < length (e # es)" for i
    using that t(4,5) Cons.prems(3) by (cases i) (auto simp: s_def algebra_simps)
  moreover have "rescore (e # es) inc stab h = Some (stab', inc + of_nat (length (e # es)), t)"
    using u(1) t(1) by (simp add: Let_def s_def algebra_simps)
  ultimately show ?case using t(2,3,5) u(3) by (auto simp: s_def)
qed simp

lemma distinct_of_inverse: "(\<And>i. i < length xs \<Longrightarrow> f (xs ! i) = i) \<Longrightarrow> distinct xs"
  by (metis distinct_conv_nth)

lemma shuffle_scores_ok:
  assumes inv: "heap_inv (score_smaller (sc_stab s)) (sc_heap s)" and m: "max_var < 2 ^ 31"
    and on: "opts_shuffle opts" "opts_shufflescores opts"
    and vars: "opts_shufflerandom opts \<Longrightarrow> set (heap_array (sc_heap s)) = {1..max_var}"
  shows "\<exists>t order. shuffle_scores opts max_var s = Some t
    \<and> mset order = mset (heap_array (sc_heap s)) \<and> mset (heap_array (sc_heap t)) = mset order
    \<and> heap_inv (score_smaller (sc_stab t)) (sc_heap t)
    \<and> (\<forall>i < length order. sc_stab t (order ! i) = of_nat i) \<and> sc_score_inc t = of_nat (length order)"
proof -
  let ?s = "s\<lparr>sc_stats_shuffled := sc_stats_shuffled s + 1\<rparr>"
  let ?start = "if opts_shufflerandom opts
    then Some (random_order (opts_seed opts) (word_of_int (sc_stats_shuffled ?s)) max_var, heap_clear (sc_heap s))
    else pop_all (score_smaller (sc_stab s)) (sc_heap s)"
  have st: "heap_struct (sc_heap s)" using inv unfolding heap_inv_def by blast
  have d: "distinct (heap_array (sc_heap s))"
    by (rule distinct_of_inverse [where f = "\<lambda>e. heap_pos (sc_heap s) ! e"]) (rule heap_structD(2) [OF st])
  have n: "length (heap_array (sc_heap s)) \<le> invalid_heap_position"
    using st unfolding heap_struct_def by blast
  have "\<exists>order h. ?start = Some (order, h) \<and> mset order = mset (heap_array (sc_heap s))
      \<and> heap_inv (score_smaller (sc_stab s)) h \<and> heap_array h = []"
  proof (cases "opts_shufflerandom opts")
    case True
    have "set [1..<max_var + 1] = {1..max_var}" by auto
    then have "set [1..<max_var + 1] = set (heap_array (sc_heap s))" unfolding vars [OF True] .
    then have "mset [1..<max_var + 1] = mset (heap_array (sc_heap s))"
      using d set_eq_iff_mset_eq_distinct [of "[1..<max_var + 1]"] by (metis distinct_upt)
    then show ?thesis
      using True random_order_mset [OF m] heap_inv_empty [of "score_smaller (sc_stab s)"]
      by (auto simp: heap_clear_def heap_inv_def heap_struct_def heap_ordered_def)
  next
    case False
    then show ?thesis using pop_all_ok [OF inv] by simp
  qed
  then obtain order h where h: "?start = Some (order, h)" "mset order = mset (heap_array (sc_heap s))"
    "heap_inv (score_smaller (sc_stab s)) h" "heap_array h = []" by blast
  have "distinct order" "length order \<le> invalid_heap_position"
    using d n h(2) mset_eq_imp_distinct_iff [OF h(2)] mset_eq_length [OF h(2)] by simp_all
  then obtain stab' t where t: "rescore order 0 (sc_stab s) h = Some (stab', of_nat (length order), t)"
    "heap_inv (score_smaller stab') t" "mset (heap_array t) = mset order"
    "\<forall>i < length order. stab' (order ! i) = of_nat i"
    using rescore_ok [OF h(3), of 0 order] h(4) by auto
  have "shuffle_scores opts max_var s
      = Some (?s\<lparr>sc_heap := t, sc_stab := stab', sc_score_inc := of_nat (length order)\<rparr>)"
    using on t(1) h(1) by (simp add: shuffle_scores_def Let_def split: if_splits)
  then show ?thesis using t h(2) by (intro exI [of _ order] exI) auto
qed

end
