(* ===== verification/Vmtf.thy ===== *)
theory Vmtf
  imports Random_Gen
begin

text \<open>
  The variable-move-to-front decision queue: the doubly linked list of \<^verbatim>\<open>queue.hpp\<close>, its
  initialization and shuffling in \<^verbatim>\<open>queue.cpp\<close>, bumping in \<^verbatim>\<open>analyze.cpp\<close>, the pointer update of
  \<^verbatim>\<open>internal.hpp\<close>, its use in \<^verbatim>\<open>backtrack.cpp\<close> and the search of \<^verbatim>\<open>decide.cpp\<close>.

  Variables are positive numbers and 0 is the null link; \<open>vq_vals\<close> is the value of a variable.
\<close>

subsection \<open>The code\<close>

record Link =
  link_prev :: nat
  link_next :: nat

record Queue =
  vq_links :: "nat \<Rightarrow> Link"
  vq_first :: nat
  vq_last :: nat
  vq_unassigned :: nat
  vq_bumped :: int
  vq_btab :: "nat \<Rightarrow> int"
  vq_stats_bumped :: int
  vq_stats_searched :: int
  vq_stats_shuffled :: int
  vq_vals :: "nat \<Rightarrow> int"

definition vq_set_next :: "nat \<Rightarrow> nat \<Rightarrow> Queue \<Rightarrow> Queue" where
  "vq_set_next i n q = q\<lparr>vq_links := (vq_links q)(i := (vq_links q i)\<lparr>link_next := n\<rparr>)\<rparr>"

definition vq_set_prev :: "nat \<Rightarrow> nat \<Rightarrow> Queue \<Rightarrow> Queue" where
  "vq_set_prev i p q = q\<lparr>vq_links := (vq_links q)(i := (vq_links q i)\<lparr>link_prev := p\<rparr>)\<rparr>"

definition dequeue :: "nat \<Rightarrow> Queue \<Rightarrow> Queue" where
  "dequeue idx q =
     (let q = (if link_prev (vq_links q idx) \<noteq> 0
               then vq_set_next (link_prev (vq_links q idx)) (link_next (vq_links q idx)) q
               else q\<lparr>vq_first := link_next (vq_links q idx)\<rparr>)
      in if link_next (vq_links q idx) \<noteq> 0
         then vq_set_prev (link_next (vq_links q idx)) (link_prev (vq_links q idx)) q
         else q\<lparr>vq_last := link_prev (vq_links q idx)\<rparr>)"

definition enqueue :: "nat \<Rightarrow> Queue \<Rightarrow> Queue" where
  "enqueue idx q =
     (let q = vq_set_prev idx (vq_last q) q;
          q = (if vq_last q \<noteq> 0 then vq_set_next (vq_last q) idx q else q\<lparr>vq_first := idx\<rparr>);
          q = q\<lparr>vq_last := idx\<rparr>
      in vq_set_next idx 0 q)"

definition update_queue_unassigned :: "nat \<Rightarrow> Queue \<Rightarrow> Queue" where
  "update_queue_unassigned idx q = q\<lparr>vq_unassigned := idx, vq_bumped := vq_btab q idx\<rparr>"

definition init_enqueue :: "bool \<Rightarrow> nat \<Rightarrow> Queue \<Rightarrow> Queue" where
  "init_enqueue opts_reverse idx q =
     (if opts_reverse then
        (let q = vq_set_prev idx 0 q;
             q = (if vq_first q \<noteq> 0
                  then (let q = vq_set_prev (vq_first q) idx q
                        in q\<lparr>vq_btab := (vq_btab q)(idx := vq_btab q (vq_first q) - 1)\<rparr>)
                  else q\<lparr>vq_last := idx, vq_btab := (vq_btab q)(idx := 0)\<rparr>);
             q = vq_set_next idx (vq_first q) q;
             q = q\<lparr>vq_first := idx\<rparr>
         in if vq_unassigned q = 0 then update_queue_unassigned (vq_last q) q else q)
      else
        (let q = vq_set_next idx 0 q;
             q = (if vq_last q \<noteq> 0 then vq_set_next (vq_last q) idx q else q\<lparr>vq_first := idx\<rparr>);
             q = q\<lparr>vq_stats_bumped := vq_stats_bumped q + 1\<rparr>;
             q = q\<lparr>vq_btab := (vq_btab q)(idx := vq_stats_bumped q)\<rparr>;
             q = vq_set_prev idx (vq_last q) q;
             q = q\<lparr>vq_last := idx\<rparr>
         in update_queue_unassigned (vq_last q) q))"

definition init_queue :: "bool \<Rightarrow> nat \<Rightarrow> nat \<Rightarrow> Queue \<Rightarrow> Queue" where
  "init_queue opts_reverse old_max_var new_max_var q =
     fold (init_enqueue opts_reverse) (map Suc [old_max_var ..< new_max_var]) q"

definition bump_queue :: "nat \<Rightarrow> Queue \<Rightarrow> Queue" where
  "bump_queue idx q =
     (if link_next (vq_links q idx) = 0 then q
      else
        (let q = dequeue idx q;
             q = enqueue idx q;
             q = q\<lparr>vq_stats_bumped := vq_stats_bumped q + 1\<rparr>;
             q = q\<lparr>vq_btab := (vq_btab q)(idx := vq_stats_bumped q)\<rparr>
         in if vq_vals q idx = 0 then update_queue_unassigned idx q else q))"

text \<open>The part of \<^verbatim>\<open>unassign\<close> that concerns the queue, and its counterpart in \<^verbatim>\<open>search_assign\<close>.\<close>

definition unassign_var :: "nat \<Rightarrow> Queue \<Rightarrow> Queue" where
  "unassign_var idx q =
     (let q = q\<lparr>vq_vals := (vq_vals q)(idx := 0)\<rparr>
      in if vq_bumped q < vq_btab q idx then update_queue_unassigned idx q else q)"

definition assign_var :: "nat \<Rightarrow> int \<Rightarrow> Queue \<Rightarrow> Queue" where
  "assign_var idx v q = q\<lparr>vq_vals := (vq_vals q)(idx := v)\<rparr>"

partial_function (option) search_unassigned :: "Queue \<Rightarrow> nat \<Rightarrow> int \<Rightarrow> (nat \<times> int) option" where
  "search_unassigned q res searched =
     (if vq_vals q res \<noteq> 0 then search_unassigned q (link_prev (vq_links q res)) (searched + 1)
      else Some (res, searched))"

declare search_unassigned.simps [code]

definition next_decision_variable_on_queue :: "Queue \<Rightarrow> (nat \<times> Queue) option" where
  "next_decision_variable_on_queue q =
     Option.bind (search_unassigned q (vq_unassigned q) 0)
       (\<lambda>(res, searched).
          Some (res, if searched \<noteq> 0
                     then update_queue_unassigned res (q\<lparr>vq_stats_searched := vq_stats_searched q + searched\<rparr>)
                     else q))"

text \<open>The loop \<^verbatim>\<open>for (idx = queue.last; idx; idx = links[idx].prev)\<close>: the variables it visits.\<close>

partial_function (option) walk_back :: "(nat \<Rightarrow> Link) \<Rightarrow> nat \<Rightarrow> nat list option" where
  "walk_back links idx =
     (if idx = 0 then Some []
      else Option.bind (walk_back links (link_prev (links idx))) (\<lambda>is. Some (idx # is)))"

declare walk_back.simps [code]

text \<open>The loop that renews the time stamps from the end.\<close>

fun restamp :: "nat list \<Rightarrow> int \<Rightarrow> (nat \<Rightarrow> int) \<Rightarrow> (nat \<Rightarrow> int)" where
  "restamp [] bumped btab = btab"
| "restamp (idx # is) bumped btab = restamp is (bumped - 1) (btab(idx := bumped))"

definition shuffle_queue :: "shuffle_opts \<Rightarrow> nat \<Rightarrow> Queue \<Rightarrow> Queue option" where
  "shuffle_queue opts max_var q =
     (if \<not> opts_shuffle opts then Some q
      else if \<not> opts_shufflequeue opts then Some q
      else
        (let q = q\<lparr>vq_stats_shuffled := vq_stats_shuffled q + 1\<rparr>
         in Option.bind
              (if opts_shufflerandom opts
               then Some (random_order (opts_seed opts) (word_of_int (vq_stats_shuffled q)) max_var)
               else walk_back (vq_links q) (vq_last q))
              (\<lambda>shuffle.
                 let q = q\<lparr>vq_first := 0, vq_last := 0\<rparr>;
                     q = fold enqueue shuffle q
                 in Option.bind (walk_back (vq_links q) (vq_last q))
                      (\<lambda>back.
                         let q = q\<lparr>vq_btab := restamp back (vq_bumped q) (vq_btab q)\<rparr>
                         in Some (q\<lparr>vq_unassigned := vq_last q\<rparr>)))))"

subsection \<open>Doubly linked lists\<close>

definition hd0 :: "nat list \<Rightarrow> nat" where
  "hd0 xs = (if xs = [] then 0 else hd xs)"

definition last0 :: "nat list \<Rightarrow> nat" where
  "last0 xs = (if xs = [] then 0 else last xs)"

lemma hd0_zero: "0 \<notin> set xs \<Longrightarrow> hd0 xs = 0 \<longleftrightarrow> xs = []"
  by (cases xs) (auto simp: hd0_def)

lemma last0_zero: "0 \<notin> set xs \<Longrightarrow> last0 xs = 0 \<longleftrightarrow> xs = []"
  by (cases xs rule: rev_cases) (auto simp: last0_def)

text \<open>\<open>dll L p xs n\<close>: the links of \<open>xs\<close> chain its elements, with \<open>p\<close> before and \<open>n\<close> after.\<close>

fun dll :: "(nat \<Rightarrow> Link) \<Rightarrow> nat \<Rightarrow> nat list \<Rightarrow> nat \<Rightarrow> bool" where
  "dll L p [] n \<longleftrightarrow> True"
| "dll L p (x # xs) n \<longleftrightarrow>
     link_prev (L x) = p \<and> link_next (L x) = (if xs = [] then n else hd xs) \<and> dll L x xs n"

lemma dll_append:
  "dll L p (xs @ ys) n \<longleftrightarrow>
     dll L p xs (if ys = [] then n else hd ys) \<and> dll L (if xs = [] then p else last xs) ys n"
  by (induction xs arbitrary: p) auto

lemma dll_cong: "(\<And>x. x \<in> set xs \<Longrightarrow> L x = L' x) \<Longrightarrow> dll L p xs n = dll L' p xs n"
  by (induction xs arbitrary: p) auto

lemma dll_other [simp]: "x \<notin> set xs \<Longrightarrow> dll (L(x := l)) p xs n = dll L p xs n"
  by (rule dll_cong) auto

lemma dll_set_next:
  "dll L p (xs @ [a]) n \<Longrightarrow> a \<notin> set xs \<Longrightarrow> dll (L(a := (L a)\<lparr>link_next := m\<rparr>)) p (xs @ [a]) m"
  by (simp add: dll_append)

lemma dll_set_prev:
  "dll L p (b # xs) n \<Longrightarrow> b \<notin> set xs \<Longrightarrow> dll (L(b := (L b)\<lparr>link_prev := m\<rparr>)) m (b # xs) n"
  by simp

definition vq_struct :: "Queue \<Rightarrow> nat list \<Rightarrow> bool" where
  "vq_struct q xs \<longleftrightarrow> distinct xs \<and> 0 \<notin> set xs \<and> vq_first q = hd0 xs \<and> vq_last q = last0 xs
     \<and> dll (vq_links q) 0 xs 0"

lemma enqueue_struct:
  assumes s: "vq_struct q xs" and i: "idx \<noteq> 0" "idx \<notin> set xs"
  shows "vq_struct (enqueue idx q) (xs @ [idx])"
proof (cases xs rule: rev_cases)
  case Nil
  then show ?thesis using s i
    by (simp add: vq_struct_def enqueue_def vq_set_prev_def vq_set_next_def hd0_def last0_def Let_def)
next
  case (snoc ys a)
  have a: "a \<noteq> 0" "a \<noteq> idx" "a \<notin> set ys" "vq_last q = a" "vq_first q = hd0 xs"
    using s i snoc by (auto simp: vq_struct_def last0_def)
  have d: "dll (vq_links q) 0 (ys @ [a]) 0" "idx \<notin> set ys" using s i snoc by (auto simp: vq_struct_def)
  have "dll ((vq_links q)(a := (vq_links q a)\<lparr>link_next := idx\<rparr>)) 0 (ys @ [a]) idx"
    by (rule dll_set_next [OF d(1) a(3)])
  then have "dll (vq_links (enqueue idx q)) 0 (ys @ [a]) idx"
    using a d(2) i by (subst dll_cong [where L' = "(vq_links q)(a := (vq_links q a)\<lparr>link_next := idx\<rparr>)"])
      (auto simp: enqueue_def vq_set_prev_def vq_set_next_def Let_def)
  moreover have "link_prev (vq_links (enqueue idx q) idx) = a" "link_next (vq_links (enqueue idx q) idx) = 0"
    "vq_first (enqueue idx q) = hd0 xs" "vq_last (enqueue idx q) = idx"
    using a by (simp_all add: enqueue_def vq_set_prev_def vq_set_next_def Let_def)
  ultimately show ?thesis
    using s i snoc by (auto simp: vq_struct_def dll_append hd0_def last0_def hd_append)
qed

lemma dequeue_struct:
  assumes s: "vq_struct q (as @ idx # bs)"
  shows "vq_struct (dequeue idx q) (as @ bs)"
proof -
  have st: "distinct as" "distinct bs" "idx \<notin> set as" "idx \<notin> set bs" "set as \<inter> set bs = {}" "0 \<notin> set as"
    "0 \<notin> set bs" "idx \<noteq> 0" using s by (auto simp: vq_struct_def)
  have d: "dll (vq_links q) 0 as idx" "dll (vq_links q) idx bs 0"
    "link_prev (vq_links q idx) = last0 as" "link_next (vq_links q idx) = hd0 bs"
    using s by (auto simp: vq_struct_def dll_append last0_def hd0_def split: if_splits)
  define q1 where "q1 = (if last0 as \<noteq> 0 then vq_set_next (last0 as) (hd0 bs) q else q\<lparr>vq_first := hd0 bs\<rparr>)"
  have l1: "vq_links q1 idx = vq_links q idx"
    using st(3) by (auto simp: q1_def vq_set_next_def last0_def)
  have eq: "dequeue idx q = (if hd0 bs \<noteq> 0 then vq_set_prev (hd0 bs) (last0 as) q1 else q1\<lparr>vq_last := last0 as\<rparr>)"
    unfolding dequeue_def Let_def d(3,4) q1_def [symmetric] l1 ..
  have a1: "dll (vq_links q1) 0 as (hd0 bs)"
  proof (cases as rule: rev_cases)
    case (snoc as' a)
    then have "dll ((vq_links q)(a := (vq_links q a)\<lparr>link_next := hd0 bs\<rparr>)) 0 as (hd0 bs)"
      using dll_set_next [of "vq_links q" 0 as' a idx] d(1) st(1) by auto
    then show ?thesis using snoc st(6) by (auto simp: q1_def vq_set_next_def last0_def)
  qed simp
  have b1: "dll (vq_links q1) idx bs 0"
    using d(2) st(5) by (auto simp: q1_def vq_set_next_def last0_def disjoint_iff)
  have a2: "dll (vq_links (dequeue idx q)) 0 as (hd0 bs)"
    using a1 st(5,7) unfolding eq by (cases bs) (auto simp: vq_set_prev_def hd0_def)
  have b2: "dll (vq_links (dequeue idx q)) (last0 as) bs 0"
  proof (cases bs)
    case (Cons b bs')
    then show ?thesis
      using dll_set_prev [of "vq_links q1" idx b bs' 0 "last0 as"] b1 st(2,7) unfolding eq
      by (auto simp: vq_set_prev_def hd0_def)
  qed simp
  have dll: "dll (vq_links (dequeue idx q)) 0 (as @ bs) 0"
    using a2 b2 by (auto simp: dll_append hd0_def last0_def)
  have "vq_first q = hd0 (as @ [idx])" "vq_last q = last0 (idx # bs)"
    using s by (auto simp: vq_struct_def hd0_def last0_def hd_append)
  moreover have "vq_first (dequeue idx q) = (if as \<noteq> [] then vq_first q else hd0 bs)"
    "vq_last (dequeue idx q) = (if bs \<noteq> [] then vq_last q else last0 as)"
    unfolding eq q1_def hd0_zero [OF st(7)] last0_zero [OF st(6)]
    by (simp_all add: vq_set_prev_def vq_set_next_def)
  ultimately have "vq_first (dequeue idx q) = hd0 (as @ bs)" "vq_last (dequeue idx q) = last0 (as @ bs)"
    by (auto simp: hd0_def last0_def hd_append)
  then show ?thesis using dll s by (auto simp: vq_struct_def)
qed

subsection \<open>The invariant\<close>

text \<open>
  Time stamps increase along the list and no stamp is larger than the counter; every variable
  stamped later than \<open>bumped\<close> is assigned, and the search pointer is not before that point.
\<close>

definition vq_inv :: "Queue \<Rightarrow> nat list \<Rightarrow> bool" where
  "vq_inv q xs \<longleftrightarrow> vq_struct q xs
     \<and> sorted_wrt (\<lambda>x y. vq_btab q x < vq_btab q y) xs
     \<and> (\<forall>x \<in> set xs. vq_btab q x \<le> vq_stats_bumped q)
     \<and> (if xs = [] then vq_unassigned q = 0
        else vq_unassigned q \<in> set xs \<and> vq_bumped q \<le> vq_btab q (vq_unassigned q)
          \<and> (\<forall>x \<in> set xs. vq_bumped q < vq_btab q x \<longrightarrow> vq_vals q x \<noteq> 0))"

lemma vq_frame [simp]:
  "vq_btab (enqueue i q) = vq_btab q" "vq_btab (dequeue i q) = vq_btab q"
  "vq_vals (enqueue i q) = vq_vals q" "vq_vals (dequeue i q) = vq_vals q"
  "vq_unassigned (enqueue i q) = vq_unassigned q" "vq_unassigned (dequeue i q) = vq_unassigned q"
  "vq_bumped (enqueue i q) = vq_bumped q" "vq_bumped (dequeue i q) = vq_bumped q"
  "vq_stats_bumped (enqueue i q) = vq_stats_bumped q" "vq_stats_bumped (dequeue i q) = vq_stats_bumped q"
  by (simp_all add: enqueue_def dequeue_def vq_set_next_def vq_set_prev_def Let_def)

lemma vq_struct_cong:
  "vq_struct q xs \<Longrightarrow> vq_links t = vq_links q \<Longrightarrow> vq_first t = vq_first q \<Longrightarrow> vq_last t = vq_last q \<Longrightarrow> vq_struct t xs"
  by (simp add: vq_struct_def)

lemma bump_queue_ok:
  assumes inv: "vq_inv q xs" and i: "idx \<in> set xs"
  shows "vq_inv (bump_queue idx q) (remove1 idx xs @ [idx])"
proof -
  obtain as bs where xs: "xs = as @ idx # bs" using i by (auto simp: in_set_conv_decomp)
  have st: "vq_struct q (as @ idx # bs)" using inv xs by (simp add: vq_inv_def)
  then have nin: "idx \<notin> set as" "idx \<notin> set bs" "idx \<noteq> 0" by (auto simp: vq_struct_def)
  have rm: "remove1 idx xs = as @ bs" using nin by (simp add: xs remove1_append)
  have nx: "link_next (vq_links q idx) = hd0 bs"
    using st by (auto simp: vq_struct_def dll_append hd0_def)
  have s: "sorted_wrt (\<lambda>x y. vq_btab q x < vq_btab q y) (as @ idx # bs)" "\<forall>x \<in> set xs. vq_btab q x \<le> vq_stats_bumped q"
    using inv xs by (auto simp: vq_inv_def)
  show ?thesis
  proof (cases "bs = []")
    case True
    then have "bump_queue idx q = q" using nx by (simp add: bump_queue_def hd0_def)
    then show ?thesis using inv xs True rm by simp
  next
    case False
    then have "hd0 bs \<noteq> 0" using st by (cases bs) (auto simp: hd0_def vq_struct_def)
    define u where "u = enqueue idx (dequeue idx q)"
    have u: "vq_struct u (as @ bs @ [idx])"
      using enqueue_struct [OF dequeue_struct [OF st] nin(3)] nin by (simp add: u_def)
    let ?v = "u\<lparr>vq_stats_bumped := vq_stats_bumped u + 1, vq_btab := (vq_btab u)(idx := vq_stats_bumped u + 1)\<rparr>"
    have b: "bump_queue idx q = (if vq_vals q idx = 0 then update_queue_unassigned idx ?v else ?v)"
      using \<open>hd0 bs \<noteq> 0\<close> nx by (simp add: bump_queue_def Let_def u_def)
    have vs: "vq_struct (bump_queue idx q) (as @ bs @ [idx])"
      by (rule vq_struct_cong [OF u]) (simp_all add: b update_queue_unassigned_def)
    have bt: "vq_btab (bump_queue idx q) = (vq_btab q)(idx := vq_stats_bumped q + 1)"
      "vq_stats_bumped (bump_queue idx q) = vq_stats_bumped q + 1" "vq_vals (bump_queue idx q) = vq_vals q"
      by (simp_all add: b update_queue_unassigned_def u_def)
    have un: "vq_unassigned (bump_queue idx q) = (if vq_vals q idx = 0 then idx else vq_unassigned q)"
      "vq_bumped (bump_queue idx q) = (if vq_vals q idx = 0 then vq_stats_bumped q + 1 else vq_bumped q)"
      by (simp_all add: b update_queue_unassigned_def u_def)
    let ?b = "(vq_btab q)(idx := vq_stats_bumped q + 1)"
    have "sorted_wrt (\<lambda>x y. vq_btab q x < vq_btab q y) (as @ bs)" using s(1) by (auto simp: sorted_wrt_append)
    then have "sorted_wrt (\<lambda>x y. ?b x < ?b y) (as @ bs)"
      by (rule sorted_wrt_mono_rel [rotated]) (use nin in auto)
    moreover have "\<forall>x \<in> set (as @ bs). ?b x < ?b idx" using s(2) xs nin by force
    ultimately have so: "sorted_wrt (\<lambda>x y. ?b x < ?b y) ((as @ bs) @ [idx])"
      by (simp add: sorted_wrt_append)
    have le: "\<forall>x \<in> set ((as @ bs) @ [idx]). ?b x \<le> vq_stats_bumped q + 1"
      using s(2) xs by force
    have old: "vq_unassigned q \<in> set xs" "vq_bumped q \<le> vq_btab q (vq_unassigned q)"
      "\<forall>x \<in> set xs. vq_bumped q < vq_btab q x \<longrightarrow> vq_vals q x \<noteq> 0"
      using inv i by (auto simp: vq_inv_def split: if_splits)
    have "vq_unassigned (bump_queue idx q) \<in> set ((as @ bs) @ [idx])
        \<and> vq_bumped (bump_queue idx q) \<le> ?b (vq_unassigned (bump_queue idx q))
        \<and> (\<forall>x \<in> set ((as @ bs) @ [idx]). vq_bumped (bump_queue idx q) < ?b x \<longrightarrow> vq_vals q x \<noteq> 0)"
    proof (cases "vq_vals q idx = 0")
      case True
      have "\<forall>x \<in> set ((as @ bs) @ [idx]). \<not> vq_stats_bumped q + 1 < ?b x"
        using le unfolding not_less .
      then show ?thesis using True unfolding un by simp
    next
      case False
      have "vq_btab q idx \<le> vq_stats_bumped q" using s(2) i by simp
      then show ?thesis using False old xs by (auto simp: un)
    qed
    then show ?thesis
      using vs so le unfolding rm vq_inv_def bt by simp
  qed
qed

lemma unassign_var_ok:
  assumes "vq_inv q xs" "idx \<in> set xs"
  shows "vq_inv (unassign_var idx q) xs"
proof -
  have "vq_struct (unassign_var idx q) xs"
    using assms(1) by (auto simp: vq_inv_def vq_struct_def unassign_var_def update_queue_unassigned_def Let_def)
  then show ?thesis
    using assms by (auto simp: vq_inv_def unassign_var_def update_queue_unassigned_def Let_def split: if_splits)
qed

lemma assign_var_ok:
  assumes "vq_inv q xs" "v \<noteq> 0"
  shows "vq_inv (assign_var idx v q) xs"
  using assms by (auto simp: vq_inv_def vq_struct_def assign_var_def)

subsection \<open>The search for a decision variable\<close>

lemma search_ok:
  assumes "vq_struct q (as @ x # bs)" "\<forall>y \<in> set bs. vq_vals q y \<noteq> 0"
    and "\<exists>y \<in> set (as @ x # bs). vq_vals q y = 0"
  shows "\<exists>cs y ds k. search_unassigned q x n = Some (y, n + int k) \<and> as @ x # bs = cs @ y # ds
    \<and> vq_vals q y = 0 \<and> (\<forall>z \<in> set ds. vq_vals q z \<noteq> 0) \<and> (k = 0 \<longrightarrow> y = x)"
  using assms
proof (induction as arbitrary: x bs n rule: rev_induct)
  case Nil
  then have "vq_vals q x = 0" by auto
  then have "search_unassigned q x n = Some (x, n + int 0)" by (subst search_unassigned.simps) simp
  then show ?case using Nil.prems(2) \<open>vq_vals q x = 0\<close>
    by (intro exI [of _ "[]"] exI [of _ x] exI [of _ bs] exI [of _ 0]) simp
next
  case (snoc a as)
  show ?case
  proof (cases "vq_vals q x = 0")
    case True
    then have "search_unassigned q x n = Some (x, n + int 0)" by (subst search_unassigned.simps) simp
    then show ?thesis using snoc.prems(2) True
      by (intro exI [of _ "as @ [a]"] exI [of _ x] exI [of _ bs] exI [of _ 0]) simp
  next
    case False
    have "link_prev (vq_links q x) = a" using snoc.prems(1) by (auto simp: vq_struct_def dll_append)
    then have eq: "search_unassigned q x n = search_unassigned q a (n + 1)"
      using False by (subst search_unassigned.simps) simp
    have "\<exists>cs y ds k. search_unassigned q a (n + 1) = Some (y, n + 1 + int k) \<and> as @ a # x # bs = cs @ y # ds
        \<and> vq_vals q y = 0 \<and> (\<forall>z \<in> set ds. vq_vals q z \<noteq> 0) \<and> (k = 0 \<longrightarrow> y = a)"
      using snoc.prems False by (intro snoc.IH) auto
    then obtain cs y ds k where "search_unassigned q a (n + 1) = Some (y, n + 1 + int k)" "as @ a # x # bs = cs @ y # ds"
      "vq_vals q y = 0" "\<forall>z \<in> set ds. vq_vals q z \<noteq> 0" by blast
    then show ?thesis unfolding eq
      by (intro exI [of _ cs] exI [of _ y] exI [of _ ds] exI [of _ "Suc k"]) auto
  qed
qed

lemma next_decision_ok:
  assumes inv: "vq_inv q xs" and ex: "\<exists>y \<in> set xs. vq_vals q y = 0"
  shows "\<exists>y t. next_decision_variable_on_queue q = Some (y, t) \<and> vq_inv t xs \<and> y \<in> set xs \<and> vq_vals q y = 0
    \<and> (\<forall>z \<in> set xs. vq_vals q z = 0 \<longrightarrow> vq_btab q z \<le> vq_btab q y) \<and> vq_vals t = vq_vals q \<and> vq_btab t = vq_btab q"
proof -
  have ne: "xs \<noteq> []" using ex by auto
  then have u: "vq_unassigned q \<in> set xs" "vq_bumped q \<le> vq_btab q (vq_unassigned q)"
    "\<forall>x \<in> set xs. vq_bumped q < vq_btab q x \<longrightarrow> vq_vals q x \<noteq> 0"
    "sorted_wrt (\<lambda>x y. vq_btab q x < vq_btab q y) xs" "vq_struct q xs"
    using inv by (auto simp: vq_inv_def)
  obtain as bs where xs: "xs = as @ vq_unassigned q # bs" using u(1) by (auto simp: in_set_conv_decomp)
  have after: "\<forall>y \<in> set bs. vq_vals q y \<noteq> 0"
    using u(2,3,4) xs by (auto simp: sorted_wrt_append)
  obtain cs y ds k where y: "search_unassigned q (vq_unassigned q) 0 = Some (y, int k)" "xs = cs @ y # ds"
    "vq_vals q y = 0" "\<forall>z \<in> set ds. vq_vals q z \<noteq> 0" "k = 0 \<longrightarrow> y = vq_unassigned q"
    using search_ok [of q as "vq_unassigned q" bs 0] u(5) after ex xs by auto
  define t where "t = (if int k \<noteq> 0
      then update_queue_unassigned y (q\<lparr>vq_stats_searched := vq_stats_searched q + int k\<rparr>) else q)"
  have "next_decision_variable_on_queue q = Some (y, t)"
    using y(1) by (simp add: next_decision_variable_on_queue_def t_def)
  moreover have max: "\<forall>z \<in> set xs. vq_vals q z = 0 \<longrightarrow> vq_btab q z \<le> vq_btab q y"
    using y(2,4) u(4) by (auto simp: sorted_wrt_append)
  moreover have "vq_struct t xs" by (rule vq_struct_cong [OF u(5)]) (simp_all add: t_def update_queue_unassigned_def)
  then have "vq_inv t xs"
    using inv ne y(2,3) max unfolding vq_inv_def by (force simp: t_def update_queue_unassigned_def)
  ultimately show ?thesis using y(2,3)
    by (intro exI [of _ y] exI [of _ t]) (auto simp: t_def update_queue_unassigned_def)
qed

subsection \<open>Initialization and shuffling\<close>

text \<open>
  A new variable goes to the end, or with \<^verbatim>\<open>opts.reverse\<close> to the front; \<open>vq_synced\<close> says that
  \<open>bumped\<close> is the stamp of the search pointer, which bumping an assigned variable may undo.
\<close>

definition vq_synced :: "Queue \<Rightarrow> nat list \<Rightarrow> bool" where
  "vq_synced q xs \<longleftrightarrow> (xs \<noteq> [] \<longrightarrow> vq_bumped q = vq_btab q (vq_unassigned q)) \<and> 0 \<le> vq_stats_bumped q"

lemma init_enqueue_ok:
  assumes inv: "vq_inv q xs" and i: "idx \<noteq> 0" "idx \<notin> set xs" and sync: "vq_synced q xs"
  shows "vq_inv (init_enqueue r idx q) (if r then idx # xs else xs @ [idx])
    \<and> vq_synced (init_enqueue r idx q) (if r then idx # xs else xs @ [idx])"
proof (cases r)
  case False
  define u where "u = enqueue idx q"
  have u: "vq_struct u (xs @ [idx])" using enqueue_struct [OF _ i] inv by (simp add: u_def vq_inv_def)
  let ?t = "init_enqueue r idx q"
  have ne: "vq_last q \<noteq> idx" using inv i by (auto simp: vq_inv_def vq_struct_def last0_def)
  have "vq_links ?t = vq_links u" "vq_first ?t = vq_first u" "vq_last ?t = vq_last u"
    using False ne
    by (auto simp: init_enqueue_def u_def enqueue_def vq_set_next_def vq_set_prev_def update_queue_unassigned_def
        Let_def fun_eq_iff)
  then have st: "vq_struct ?t (xs @ [idx])" by (rule vq_struct_cong [OF u])
  have f: "vq_btab ?t = (vq_btab q)(idx := vq_stats_bumped q + 1)" "vq_stats_bumped ?t = vq_stats_bumped q + 1"
    "vq_unassigned ?t = idx" "vq_bumped ?t = vq_stats_bumped q + 1"
    using False by (simp_all add: init_enqueue_def vq_set_next_def vq_set_prev_def update_queue_unassigned_def Let_def)
  have le: "vq_btab q x \<le> vq_stats_bumped q" if "x \<in> set xs" for x using inv that by (simp add: vq_inv_def)
  have "sorted_wrt (\<lambda>x y. vq_btab q x < vq_btab q y) xs" using inv by (simp add: vq_inv_def)
  then have "sorted_wrt (\<lambda>x y. vq_btab ?t x < vq_btab ?t y) xs"
    unfolding f by (rule sorted_wrt_mono_rel [rotated]) (use i in auto)
  moreover have "\<forall>x \<in> set xs. vq_btab ?t x < vq_btab ?t idx" using le i by (force simp: f)
  moreover have "\<forall>x \<in> set (xs @ [idx]). vq_btab ?t x \<le> vq_stats_bumped q + 1" using le by (force simp: f)
  ultimately show ?thesis using st False f sync
    by (auto simp: vq_inv_def vq_synced_def sorted_wrt_append not_less [symmetric])
next
  case True
  define t where "t = init_enqueue r idx q"
  have s: "distinct xs" "0 \<notin> set xs" "vq_first q = hd0 xs" "vq_last q = last0 xs" "dll (vq_links q) 0 xs 0"
    using inv by (simp_all add: vq_inv_def vq_struct_def)
  have un: "vq_unassigned q = 0 \<longleftrightarrow> xs = []" using inv s(2) by (cases "xs = []") (simp_all add: vq_inv_def, metis neq0_conv)
  show ?thesis
  proof (cases xs)
    case Nil
    then show ?thesis using True s i sync un
      by (simp add: vq_inv_def vq_synced_def vq_struct_def init_enqueue_def vq_set_next_def vq_set_prev_def
          update_queue_unassigned_def hd0_def last0_def Let_def)
  next
    case (Cons x ys)
    have x: "x \<noteq> 0" "x \<noteq> idx" "vq_first q = x" using s Cons i by (auto simp: hd0_def)
    have f: "vq_btab t = (vq_btab q)(idx := vq_btab q x - 1)" "vq_stats_bumped t = vq_stats_bumped q"
      "vq_unassigned t = vq_unassigned q" "vq_bumped t = vq_bumped q" "vq_vals t = vq_vals q"
      "vq_first t = idx" "vq_last t = vq_last q"
      "link_prev (vq_links t idx) = 0" "link_next (vq_links t idx) = x"
      "\<And>z. z \<noteq> idx \<Longrightarrow> vq_links t z = ((vq_links q)(x := (vq_links q x)\<lparr>link_prev := idx\<rparr>)) z"
      using True x un Cons
      by (auto simp: t_def init_enqueue_def vq_set_next_def vq_set_prev_def update_queue_unassigned_def Let_def)
    have "dll ((vq_links q)(x := (vq_links q x)\<lparr>link_prev := idx\<rparr>)) idx xs 0"
      using dll_set_prev [of "vq_links q" 0 x ys 0 idx] s Cons by simp
    moreover have "vq_links t z = ((vq_links q)(x := (vq_links q x)\<lparr>link_prev := idx\<rparr>)) z" if "z \<in> set xs" for z
      using f(10) [of z] i(2) that by blast
    ultimately have "dll (vq_links t) idx xs 0" using dll_cong by blast
    then have st: "vq_struct t (idx # xs)"
      using f s i Cons by (simp add: vq_struct_def hd0_def last0_def)
    have so: "sorted_wrt (\<lambda>x y. vq_btab q x < vq_btab q y) xs" "\<forall>x \<in> set xs. vq_btab q x \<le> vq_stats_bumped q"
      using inv by (simp_all add: vq_inv_def)
    then have "sorted_wrt (\<lambda>x y. vq_btab t x < vq_btab t y) xs"
      unfolding f by (intro sorted_wrt_mono_rel [OF _ so(1)]) (use i in auto)
    moreover have hd: "\<forall>y \<in> set xs. vq_btab q x \<le> vq_btab q y" using so(1) Cons by auto
    then have "\<forall>y \<in> set xs. vq_btab t idx < vq_btab t y" using i by (force simp: f)
    moreover have "vq_btab q x - 1 \<le> vq_stats_bumped q" using so(2) Cons by force
    moreover have u: "vq_unassigned q \<in> set xs" "vq_bumped q \<le> vq_btab q (vq_unassigned q)"
      "\<forall>x \<in> set xs. vq_bumped q < vq_btab q x \<longrightarrow> vq_vals q x \<noteq> 0"
      using inv Cons by (auto simp: vq_inv_def)
    moreover have "vq_btab q x \<le> vq_bumped q" using sync u(1) hd Cons by (auto simp: vq_synced_def)
    moreover have "vq_unassigned q \<noteq> idx" using u(1) i by auto
    ultimately have "vq_inv t (idx # xs) \<and> vq_synced t (idx # xs)"
      using st so Cons i sync by (auto simp: vq_inv_def vq_synced_def f)
    then show ?thesis using True by (simp add: t_def)
  qed
qed

lemma init_queue_ok:
  assumes "vq_inv q xs" "vq_synced q xs" "\<forall>x \<in> set xs. x \<le> old" "old \<le> new"
  shows "vq_inv (init_queue r old new q) (if r then rev [Suc old..<Suc new] @ xs else xs @ [Suc old..<Suc new])
    \<and> vq_synced (init_queue r old new q) (if r then rev [Suc old..<Suc new] @ xs else xs @ [Suc old..<Suc new])"
  using assms(4)
proof (induction new rule: dec_induct)
  case base
  then show ?case using assms(1,2) by (simp add: init_queue_def)
next
  case (step n)
  have "init_queue r old (Suc n) q = init_enqueue r (Suc n) (init_queue r old n q)"
    using step.hyps by (simp add: init_queue_def)
  moreover have "Suc n \<notin> set (if r then rev [Suc old..<Suc n] @ xs else xs @ [Suc old..<Suc n])"
    using assms(3) step.hyps by auto
  ultimately show ?case
    using init_enqueue_ok [of _ _ "Suc n" r] step by (cases r) (fastforce simp del: upt_Suc simp: upt_Suc_append)+
qed

text \<open>Shuffling: any order of the variables becomes the order of the queue.\<close>

lemma fold_enqueue_struct:
  "vq_struct q xs \<Longrightarrow> distinct (xs @ ys) \<Longrightarrow> 0 \<notin> set ys \<Longrightarrow> vq_struct (fold enqueue ys q) (xs @ ys)"
proof (induction ys arbitrary: q xs)
  case (Cons y ys)
  have "vq_struct (enqueue y q) (xs @ [y])" by (rule enqueue_struct) (use Cons.prems in auto)
  from Cons.IH [OF this] Cons.prems show ?case by simp
qed simp

lemma fold_enqueue_frame [simp]:
  "vq_btab (fold enqueue ys q) = vq_btab q" "vq_vals (fold enqueue ys q) = vq_vals q"
  "vq_bumped (fold enqueue ys q) = vq_bumped q" "vq_stats_bumped (fold enqueue ys q) = vq_stats_bumped q"
  by (induction ys arbitrary: q) simp_all

lemma restamp_other: "x \<notin> set ys \<Longrightarrow> restamp ys b t x = t x"
  by (induction ys arbitrary: b t) auto

lemma restamp_sorted:
  "distinct ys \<Longrightarrow> sorted_wrt (\<lambda>x y. restamp ys b t y < restamp ys b t x) ys
     \<and> (\<forall>y \<in> set ys. restamp ys b t y \<le> b) \<and> (ys \<noteq> [] \<longrightarrow> restamp ys b t (hd ys) = b)"
proof (induction ys arbitrary: b t)
  case (Cons y ys)
  let ?t = "t(y := b)"
  have ih: "sorted_wrt (\<lambda>x y. restamp ys (b - 1) ?t y < restamp ys (b - 1) ?t x) ys"
    "\<forall>z \<in> set ys. restamp ys (b - 1) ?t z \<le> b - 1"
    using Cons.IH [of "b - 1" ?t] Cons.prems by (blast intro: distinct.simps(2) [THEN iffD1, THEN conjunct2])+
  have "restamp ys (b - 1) ?t y = b" using Cons.prems by (simp add: restamp_other)
  then show ?case using ih by force
qed simp

lemma walk_back_ok:
  assumes "dll L 0 xs n" "0 \<notin> set xs"
  shows "walk_back L (last0 xs) = Some (rev xs)"
  using assms
proof (induction xs arbitrary: n rule: rev_induct)
  case Nil
  then show ?case by (subst walk_back.simps) (simp add: last0_def)
next
  case (snoc x xs)
  have "link_prev (L x) = last0 xs" using snoc.prems(1) by (auto simp: dll_append last0_def)
  moreover have "walk_back L (last0 xs) = Some (rev xs)"
    using snoc.prems by (intro snoc.IH [of x]) (auto simp: dll_append)
  ultimately show ?case using snoc.prems(2) by (subst walk_back.simps) (simp add: last0_def)
qed

lemma walk_back_struct: "vq_struct q xs \<Longrightarrow> walk_back (vq_links q) (vq_last q) = Some (rev xs)"
  using walk_back_ok by (auto simp: vq_struct_def)

text \<open>Linking the variables in a new order and stamping them anew.\<close>

lemma relink_ok:
  assumes inv: "vq_inv q xs" and p: "mset order = mset xs" and ne: "xs \<noteq> []"
    and b: "vq_bumped q \<le> vq_stats_bumped q"
  defines "u \<equiv> fold enqueue order (q\<lparr>vq_first := 0, vq_last := 0\<rparr>)"
  shows "walk_back (vq_links u) (vq_last u) = Some (rev order)"
    "vq_inv (u\<lparr>vq_btab := restamp (rev order) (vq_bumped u) (vq_btab u), vq_unassigned := vq_last u\<rparr>) order"
proof -
  have s: "distinct order" "0 \<notin> set order" "order \<noteq> []"
    using inv p ne mset_eq_imp_distinct_iff [OF p] mset_eq_setD [OF p] by (auto simp: vq_inv_def vq_struct_def)
  have "vq_struct (q\<lparr>vq_first := 0, vq_last := 0\<rparr>) []" by (simp add: vq_struct_def hd0_def last0_def)
  then have u: "vq_struct u ([] @ order)" unfolding u_def by (rule fold_enqueue_struct) (use s in auto)
  then show "walk_back (vq_links u) (vq_last u) = Some (rev order)" using walk_back_struct by auto
  let ?t = "u\<lparr>vq_btab := restamp (rev order) (vq_bumped u) (vq_btab u), vq_unassigned := vq_last u\<rparr>"
  have "vq_struct ?t order" by (rule vq_struct_cong [OF u, simplified]) simp_all
  moreover have "vq_btab ?t = restamp (rev order) (vq_bumped q) (vq_btab q)"
    "vq_stats_bumped ?t = vq_stats_bumped q" "vq_bumped ?t = vq_bumped q"
    "vq_unassigned ?t = last order" "vq_vals ?t = vq_vals q"
    using u s(3) by (simp_all add: u_def vq_struct_def last0_def)
  moreover note restamp_sorted [of "rev order" "vq_bumped q" "vq_btab q"]
  ultimately show "vq_inv ?t order"
    using s b by (fastforce simp: vq_inv_def sorted_wrt_rev hd_rev)
qed

lemma shuffle_queue_ok:
  assumes inv: "vq_inv q xs" and vars: "set xs = {1..max_var}" and m: "0 < max_var" "max_var < 2 ^ 31"
    and b: "vq_bumped q \<le> vq_stats_bumped q"
  shows "\<exists>t order. shuffle_queue opts max_var q = Some t \<and> vq_inv t order \<and> mset order = mset xs
    \<and> (opts_shuffle opts \<and> opts_shufflequeue opts \<and> \<not> opts_shufflerandom opts \<longrightarrow> order = rev xs)"
proof (cases "opts_shuffle opts \<and> opts_shufflequeue opts")
  case False
  then show ?thesis using inv by (auto simp: shuffle_queue_def)
next
  case True
  let ?q = "q\<lparr>vq_stats_shuffled := vq_stats_shuffled q + 1\<rparr>"
  have q: "vq_inv ?q xs" using inv by (simp add: vq_inv_def vq_struct_def)
  have ne: "xs \<noteq> []" using vars m by auto
  define order where "order = (if opts_shufflerandom opts
    then random_order (opts_seed opts) (word_of_int (vq_stats_shuffled ?q)) max_var else rev xs)"
  have "distinct xs" using inv by (simp add: vq_inv_def vq_struct_def)
  moreover have "set [1..<max_var + 1] = {1..max_var}" by auto
  ultimately have "mset [1..<max_var + 1] = mset xs" 
    using vars set_eq_iff_mset_eq_distinct [of "[1..<max_var + 1]" xs] by (metis distinct_upt)
  then have p: "mset order = mset xs" using random_order_mset [OF m(2)] by (simp add: order_def)
  define u where "u = fold enqueue order (?q\<lparr>vq_first := 0, vq_last := 0\<rparr>)"
  note r = relink_ok [OF q p ne, folded u_def]
  have w: "walk_back (vq_links ?q) (vq_last ?q) = Some (rev xs)"
    using q unfolding vq_inv_def by (blast intro: walk_back_struct)
  have "(if opts_shufflerandom opts
      then Some (random_order (opts_seed opts) (word_of_int (vq_stats_shuffled ?q)) max_var)
      else walk_back (vq_links ?q) (vq_last ?q)) = Some order"
    using w by (simp add: order_def)
  then have "shuffle_queue opts max_var q = Option.bind (walk_back (vq_links u) (vq_last u))
      (\<lambda>back. Some (u\<lparr>vq_btab := restamp back (vq_bumped u) (vq_btab u), vq_unassigned := vq_last u\<rparr>))"
    using True unfolding shuffle_queue_def Let_def u_def by simp
  then show ?thesis using r b p by (auto simp: order_def)
qed

end
