(* ===== verification/Decide.thy ===== *)
theory Decide
  imports Scores Vmtf
begin

text \<open>
  Picking the next decision variable (\<^verbatim>\<open>decide.cpp\<close>) and unassigning a literal
  (\<^verbatim>\<open>backtrack.cpp\<close>): the solver keeps the VMTF queue and the EVSIDS heap side by side and uses
  one of them, so both have to be right after every change of the assignment.
\<close>

subsection \<open>The code\<close>

record 'v Decide =
  dc_queue :: Queue
  dc_scores :: heap
  dc_stab :: "nat \<Rightarrow> 'v"
  dc_num_assigned :: nat

definition unassign :: "int \<Rightarrow> ('v :: linorder) Decide \<Rightarrow> 'v Decide option" where
  "unassign lit d =
     (let idx = nat \<bar>lit\<bar>;
          q = (dc_queue d)\<lparr>vq_vals := (vq_vals (dc_queue d))(idx := 0)\<rparr>;
          d = d\<lparr>dc_queue := q, dc_num_assigned := dc_num_assigned d - 1\<rparr>
      in Option.bind
           (if \<not> heap_contains (dc_scores d) idx
            then heap_push_back (score_smaller (dc_stab d)) idx (dc_scores d) else Some (dc_scores d))
           (\<lambda>h. let d = d\<lparr>dc_scores := h\<rparr>
                in Some (if vq_bumped (dc_queue d) < vq_btab (dc_queue d) idx
                         then d\<lparr>dc_queue := update_queue_unassigned idx (dc_queue d)\<rparr> else d)))"

text \<open>The front of an empty heap is undefined in the code; the search has no value then.\<close>

partial_function (option) best_score_loop ::
    "(nat \<Rightarrow> nat \<Rightarrow> bool) \<Rightarrow> (nat \<Rightarrow> int) \<Rightarrow> heap \<Rightarrow> (nat \<times> heap) option" where
  "best_score_loop lt vals h =
     (if heap_array h = [] then None
      else if vals (heap_front h) = 0 then Some (heap_front h, h)
      else Option.bind (heap_pop_front lt h) (\<lambda>(_, h). best_score_loop lt vals h))"

declare best_score_loop.simps [code]

definition next_decision_variable_with_best_score :: "('v :: linorder) Decide \<Rightarrow> (nat \<times> 'v Decide) option" where
  "next_decision_variable_with_best_score d =
     Option.bind (best_score_loop (score_smaller (dc_stab d)) (vq_vals (dc_queue d)) (dc_scores d))
       (\<lambda>(res, h). Some (res, d\<lparr>dc_scores := h\<rparr>))"

definition next_decision_variable :: "bool \<Rightarrow> ('v :: linorder) Decide \<Rightarrow> (nat \<times> 'v Decide) option" where
  "next_decision_variable use_scores d =
     (if use_scores then next_decision_variable_with_best_score d
      else Option.bind (next_decision_variable_on_queue (dc_queue d))
             (\<lambda>(res, q). Some (res, d\<lparr>dc_queue := q\<rparr>)))"

subsection \<open>The invariant of both heuristics\<close>

definition dc_inv :: "('v :: linorder) Decide \<Rightarrow> nat list \<Rightarrow> bool" where
  "dc_inv d xs \<longleftrightarrow>
     vq_inv (dc_queue d) xs \<and> heap_inv (score_smaller (dc_stab d)) (dc_scores d)
     \<and> length xs < invalid_heap_position \<and> set (heap_array (dc_scores d)) \<subseteq> set xs
     \<and> (\<forall>x \<in> set xs. vq_vals (dc_queue d) x = 0 \<longrightarrow> x \<in> set (heap_array (dc_scores d)))"

lemma heap_inv_distinct: "heap_inv lt h \<Longrightarrow> distinct (heap_array h)"
  by (rule distinct_of_inverse [where f = "\<lambda>e. heap_pos h ! e"])
    (auto simp: heap_inv_def intro: heap_structD(2))

lemma heap_in_vars_room:
  assumes "heap_inv lt h" "set (heap_array h) \<subseteq> set xs" "length xs < invalid_heap_position"
  shows "length (heap_array h) < invalid_heap_position"
proof -
  have "length (heap_array h) = card (set (heap_array h))"
    using heap_inv_distinct [OF assms(1)] by (simp add: distinct_card)
  also have "\<dots> \<le> card (set xs)" using assms(2) by (simp add: card_mono)
  also have "\<dots> \<le> length xs" by (rule card_length)
  finally show ?thesis using assms(3) by simp
qed

lemma unassign_ok:
  assumes inv: "dc_inv d xs" and l: "nat \<bar>lit\<bar> \<in> set xs"
  shows "\<exists>t. unassign lit d = Some t \<and> dc_inv t xs \<and> dc_num_assigned t = dc_num_assigned d - 1
    \<and> vq_vals (dc_queue t) = (vq_vals (dc_queue d))(nat \<bar>lit\<bar> := 0)"
proof -
  define idx where "idx = nat \<bar>lit\<bar>"
  have i: "idx \<in> set xs" using l by (simp add: idx_def)
  let ?lt = "score_smaller (dc_stab d)"
  have h: "heap_inv ?lt (dc_scores d)" "set (heap_array (dc_scores d)) \<subseteq> set xs" "length xs < invalid_heap_position"
    using inv by (auto simp: dc_inv_def)
  have "\<exists>h'. (if \<not> heap_contains (dc_scores d) idx then heap_push_back ?lt idx (dc_scores d) else Some (dc_scores d)) = Some h'
      \<and> heap_inv ?lt h' \<and> set (heap_array h') = insert idx (set (heap_array (dc_scores d)))"
  proof (cases "heap_contains (dc_scores d) idx")
    case True
    then have "idx \<in> set (heap_array (dc_scores d))" using h(1) heap_contains_iff by (auto simp: heap_inv_def)
    then show ?thesis using True h(1) by auto
  next
    case False
    then obtain t where t: "heap_push_back ?lt idx (dc_scores d) = Some t" "heap_inv ?lt t"
      "mset (heap_array t) = mset (idx # heap_array (dc_scores d))"
      using score.push_back_ok [OF h(1) False heap_in_vars_room [OF h]] by auto
    then show ?thesis using False mset_eq_setD [OF t(3)] by auto
  qed
  then obtain h' where h': "(if \<not> heap_contains (dc_scores d) idx then heap_push_back ?lt idx (dc_scores d) else Some (dc_scores d)) = Some h'"
    "heap_inv ?lt h'" "set (heap_array h') = insert idx (set (heap_array (dc_scores d)))" by blast
  let ?t = "d\<lparr>dc_queue := unassign_var idx (dc_queue d), dc_num_assigned := dc_num_assigned d - 1, dc_scores := h'\<rparr>"
  have "unassign lit d = Some ?t"
    using h'(1) unfolding unassign_def idx_def [symmetric]
    by (cases d; cases "heap_contains (dc_scores d) idx") (simp_all add: unassign_var_def Let_def)
  moreover have v: "vq_vals (unassign_var idx (dc_queue d)) = (vq_vals (dc_queue d))(idx := 0)"
    by (simp add: unassign_var_def update_queue_unassigned_def Let_def)
  moreover have "dc_inv ?t xs"
    using inv h' i unassign_var_ok [of "dc_queue d" xs idx] by (auto simp: dc_inv_def v)
  ultimately show ?thesis by (simp add: idx_def)
qed

lemma best_score_ok:
  assumes "heap_inv (score_smaller stab) h" "\<exists>x \<in> set (heap_array h). vals x = 0"
  shows "\<exists>y t. best_score_loop (score_smaller stab) vals h = Some (y, t) \<and> heap_inv (score_smaller stab) t
    \<and> y \<in> set (heap_array t) \<and> vals y = (0 :: int)
    \<and> (\<forall>z \<in> set (heap_array h). vals z = 0 \<longrightarrow> z \<in> set (heap_array t) \<and> \<not> score_smaller stab y z)
    \<and> set (heap_array t) \<subseteq> set (heap_array h)"
  using assms
proof (induction "length (heap_array h)" arbitrary: h)
  case (Suc n)
  have ne: "heap_array h \<noteq> []" using Suc.hyps(2) by auto
  then have fr: "heap_front h \<in> set (heap_array h)" by (simp add: heap_front_def)
  show ?case
  proof (cases "vals (heap_front h) = 0")
    case True
    then have "best_score_loop (score_smaller stab) vals h = Some (heap_front h, h)"
      using ne by (subst best_score_loop.simps) simp
    then show ?thesis using True fr Suc.prems(1) score.front_max by auto
  next
    case False
    obtain u where u: "heap_pop_front (score_smaller stab) h = Some (heap_front h, u)"
      "heap_inv (score_smaller stab) u" "mset (heap_array h) = add_mset (heap_front h) (mset (heap_array u))"
      using score.pop_front_ok [OF Suc.prems(1) ne] by blast
    have s: "set (heap_array h) = insert (heap_front h) (set (heap_array u))" "n = length (heap_array u)"
      using mset_eq_setD [of "heap_array h" "heap_front h # heap_array u"]
        mset_eq_length [of "heap_array h" "heap_front h # heap_array u"] u(3) Suc.hyps(2) by simp_all
    have "\<exists>x \<in> set (heap_array u). vals x = 0" using Suc.prems(2) False s(1) by auto
    from Suc.hyps(1) [OF s(2) u(2) this] obtain y t where t:
      "best_score_loop (score_smaller stab) vals u = Some (y, t)" "heap_inv (score_smaller stab) t"
      "y \<in> set (heap_array t)" "vals y = 0" "set (heap_array t) \<subseteq> set (heap_array u)"
      "\<forall>z \<in> set (heap_array u). vals z = 0 \<longrightarrow> z \<in> set (heap_array t) \<and> \<not> score_smaller stab y z"
      by blast
    have "best_score_loop (score_smaller stab) vals h = Some (y, t)"
      using ne False u(1) t(1) by (subst best_score_loop.simps) simp
    then show ?thesis using t False s(1) by auto
  qed
qed simp

lemma next_decision_variable_ok:
  assumes inv: "dc_inv d xs" and ex: "\<exists>y \<in> set xs. vq_vals (dc_queue d) y = 0"
  shows "\<exists>y t. next_decision_variable use_scores d = Some (y, t) \<and> dc_inv t xs
    \<and> y \<in> set xs \<and> vq_vals (dc_queue d) y = 0
    \<and> (\<forall>z \<in> set xs. vq_vals (dc_queue d) z = 0 \<longrightarrow>
         (if use_scores then \<not> score_smaller (dc_stab d) y z
          else vq_btab (dc_queue d) z \<le> vq_btab (dc_queue d) y))"
proof (cases use_scores)
  case True
  have "\<exists>y \<in> set (heap_array (dc_scores d)). vq_vals (dc_queue d) y = 0"
    using inv ex by (auto simp: dc_inv_def)
  then obtain y h where h: "best_score_loop (score_smaller (dc_stab d)) (vq_vals (dc_queue d)) (dc_scores d) = Some (y, h)"
    "heap_inv (score_smaller (dc_stab d)) h" "y \<in> set (heap_array h)" "vq_vals (dc_queue d) y = 0"
    "\<forall>z \<in> set (heap_array (dc_scores d)). vq_vals (dc_queue d) z = 0 \<longrightarrow>
       z \<in> set (heap_array h) \<and> \<not> score_smaller (dc_stab d) y z"
    "set (heap_array h) \<subseteq> set (heap_array (dc_scores d))"
    using best_score_ok [of "dc_stab d" "dc_scores d" "vq_vals (dc_queue d)"] inv by (auto simp: dc_inv_def)
  have "next_decision_variable use_scores d = Some (y, d\<lparr>dc_scores := h\<rparr>)"
    using True h(1) by (simp add: next_decision_variable_def next_decision_variable_with_best_score_def)
  then show ?thesis using True h(2-6) inv by (auto simp: dc_inv_def)
next
  case False
  have q: "vq_inv (dc_queue d) xs" using inv by (simp add: dc_inv_def)
  from next_decision_ok [OF this ex] obtain y t where t: "next_decision_variable_on_queue (dc_queue d) = Some (y, t)"
    "vq_inv t xs" "y \<in> set xs" "vq_vals (dc_queue d) y = 0" "vq_vals t = vq_vals (dc_queue d)"
    "\<forall>z \<in> set xs. vq_vals (dc_queue d) z = 0 \<longrightarrow> vq_btab (dc_queue d) z \<le> vq_btab (dc_queue d) y" by blast
  have "next_decision_variable use_scores d = Some (y, d\<lparr>dc_queue := t\<rparr>)"
    using False t(1) by (simp add: next_decision_variable_def)
  then show ?thesis using False t inv by (auto simp: dc_inv_def)
qed

subsection \<open>A changed score\<close>

text \<open>Only elements other than the one at \<open>i\<close> occur in \<open>heap_except\<close>.\<close>

lemma heap_except_score_cong:
  assumes ex: "heap_except (score_smaller f) a i" and i: "i < length a"
    and d: "distinct a" and fg: "\<And>x. x \<noteq> a ! i \<Longrightarrow> g x = f x"
  shows "heap_except (score_smaller g) a i"
proof -
  have ne: "g (a ! j) = f (a ! j)" if "j < length a" "j \<noteq> i" for j
    using that fg d i nth_eq_iff_index_eq by blast
  have lt: "score_smaller g (a ! j) (a ! k) = score_smaller f (a ! j) (a ! k)"
    if "j < length a" "j \<noteq> i" "k < length a" "k \<noteq> i" for j k
    using ne that by (simp add: score_smaller_def)
  show ?thesis unfolding heap_except_def
  proof (intro conjI allI impI)
    fix j assume j: "0 < j" "j < length a" "j \<noteq> i" "heap_parent j \<noteq> i"
    then show "\<not> score_smaller g (a ! heap_parent j) (a ! j)"
      using lt [of "heap_parent j" j] ex heap_parent_less [of j] by (simp add: heap_except_def)
  next
    fix j assume j: "0 < i" "0 < j" "j < length a" "heap_parent j = i"
    then have "heap_parent i < length a" "heap_parent i \<noteq> i" "j \<noteq> i"
      using heap_parent_less [of i] heap_parent_less [of j] i by auto
    then show "\<not> score_smaller g (a ! heap_parent i) (a ! j)"
      using lt [of "heap_parent i" j] ex j by (simp add: heap_except_def)
  qed
qed

lemma heap_score_changed:
  fixes f g :: "nat \<Rightarrow> 'v :: linorder"
  assumes "heap_inv (score_smaller f) h" and "e \<in> set (heap_array h)" and "\<And>x. x \<noteq> e \<Longrightarrow> g x = f x"
  shows "\<exists>t. heap_update (score_smaller g) e h = Some t \<and> heap_inv (score_smaller g) t
    \<and> mset (heap_array t) = mset (heap_array h)"
proof -
  obtain i where i: "i < length (heap_array h)" "heap_array h ! i = e"
    using assms(2) by (auto simp: in_set_conv_nth)
  have st: "heap_struct h" and o: "heap_ordered (score_smaller f) (heap_array h)"
    using assms(1) unfolding heap_inv_def by blast+
  have "distinct (heap_array h)"
    by (rule distinct_of_inverse [where f = "\<lambda>e. heap_pos h ! e"]) (rule heap_structD(2) [OF st])
  then have "heap_except (score_smaller g) (heap_array h) i"
    using heap_except_score_cong [OF score.except_of_ordered [OF o i(1)] i(1)] assms(3) i(2) by blast
  from score.update_ok [OF st i(1) this] show ?thesis by (simp add: i(2))
qed

end
