(* ===== verification/Radix.thy ===== *)
theory Radix
  imports Prelude "HOL-Library.Product_Lexorder"
begin

text \<open>
  The stable radix sort \<^verbatim>\<open>rsort\<close> of \<^verbatim>\<open>radix.hpp\<close>: byte-wise passes from the least significant
  byte, two buffers used in turn, passes skipped when all bytes agree or are already in order,
  and a count array of which each pass clears only what the last one dirtied.
\<close>

unbundle bit_operations_syntax

subsection \<open>The code\<close>

text \<open>
  \<open>rs_a\<close> and \<open>rs_b\<close> are the two buffers, \<open>rs_in_b\<close> says which of them \<^verbatim>\<open>c\<close> points to.
  Ranks have 64 bits (\<^verbatim>\<open>size_t\<close>, \<^verbatim>\<open>uint64_t\<close>).  \<^verbatim>\<open>count\<close> starts with whatever is on the stack, and \<^verbatim>\<open>v\<close> is resized with default elements.
\<close>

record 'a rsort_state =
  rs_a :: "'a list"
  rs_b :: "'a list"
  rs_in_b :: bool
  rs_initialized :: bool
  rs_count :: "nat list"
  rs_lower :: "64 word"
  rs_upper :: "64 word"
  rs_bounded :: bool
  rs_masked_lower :: nat
  rs_masked_upper :: nat

definition rs_cur :: "'a rsort_state \<Rightarrow> 'a list" where
  "rs_cur s = (if rs_in_b s then rs_b s else rs_a s)"

definition radix_digit :: "nat \<Rightarrow> 64 word \<Rightarrow> nat" where
  "radix_digit i r = unat (drop_bit i r AND 255)"

text \<open>The counting loop: \<open>sorted\<close>, \<open>last\<close>, the counts, and the bounds while not \<open>bounded\<close>.\<close>

fun rsort_count ::
    "('a \<Rightarrow> 64 word) \<Rightarrow> nat \<Rightarrow> bool \<Rightarrow> 'a list \<Rightarrow>
     bool \<times> nat \<times> nat list \<times> 64 word \<times> 64 word \<Rightarrow> bool \<times> nat \<times> nat list \<times> 64 word \<times> 64 word" where
  "rsort_count rank i bounded [] st = st"
| "rsort_count rank i bounded (p # ps) (in_order, lst, cnt, lower, upper) =
     (let r = rank p;
          (lower, upper) = (if \<not> bounded then (lower AND r, upper OR r) else (lower, upper));
          m = radix_digit i r;
          (in_order, lst) = (if in_order \<and> lst > m then (False, lst) else (in_order, m));
          cnt = cnt[m := cnt ! m + 1]
      in rsort_count rank i bounded ps (in_order, lst, cnt, lower, upper))"

definition rsort_prefix :: "nat \<Rightarrow> nat \<Rightarrow> nat list \<Rightarrow> nat list" where
  "rsort_prefix ml mu cnt =
     snd (fold (\<lambda>j (pos, cnt). (pos + cnt ! j, cnt[j := pos])) [ml ..< mu + 1] (0, cnt))"

fun rsort_scatter ::
    "('a \<Rightarrow> 64 word) \<Rightarrow> nat \<Rightarrow> 'a list \<Rightarrow> 'a list \<Rightarrow> nat list \<Rightarrow> 'a list \<times> nat list" where
  "rsort_scatter rank i [] d cnt = (d, cnt)"
| "rsort_scatter rank i (p # ps) d cnt =
     (let m = radix_digit i (rank p)
      in rsort_scatter rank i ps (d[cnt ! m := p]) (cnt[m := cnt ! m + 1]))"

definition rsort_clear :: "nat \<Rightarrow> nat \<Rightarrow> nat list \<Rightarrow> nat list" where
  "rsort_clear ml mu cnt = fold (\<lambda>j cnt. cnt[j := 0]) [ml ..< mu + 1] cnt"

text \<open>One round of the loop for shift \<open>i\<close>.\<close>

definition rsort_pass ::
    "('a \<Rightarrow> 64 word) \<Rightarrow> 'a \<Rightarrow> nat \<Rightarrow> 'a rsort_state \<Rightarrow> 'a rsort_state" where
  "rsort_pass rank dflt i s =
     (let shifted = push_bit i 255 in
      if rs_bounded s \<and> (rs_lower s AND shifted) = (rs_upper s AND shifted) then s
      else
        (let cnt = rsort_clear (rs_masked_lower s) (rs_masked_upper s) (rs_count s);
             (in_order, lst, cnt, lower, upper) =
               rsort_count rank i (rs_bounded s) (rs_cur s) (True, 0, cnt, rs_lower s, rs_upper s);
             ml = radix_digit i lower;
             mu = radix_digit i upper;
             was_bounded = rs_bounded s;
             s = s\<lparr>rs_count := cnt, rs_lower := lower, rs_upper := upper,
                   rs_masked_lower := ml, rs_masked_upper := mu, rs_bounded := True\<rparr>
         in if \<not> was_bounded \<and> (lower AND shifted) = (upper AND shifted) then s
            else if in_order then s
            else
              (let cnt = rsort_prefix ml mu cnt;
                   s = (if \<not> rs_initialized s
                        then s\<lparr>rs_b := replicate (length (rs_a s)) dflt, rs_initialized := True\<rparr> else s);
                   (d, cnt) = rsort_scatter rank i (rs_cur s) (if rs_in_b s then rs_a s else rs_b s) cnt
               in if rs_in_b s then s\<lparr>rs_a := d, rs_in_b := False, rs_count := cnt\<rparr>
                  else s\<lparr>rs_b := d, rs_in_b := True, rs_count := cnt\<rparr>)))"

definition rsort_shifts :: "nat \<Rightarrow> nat list" where
  "rsort_shifts bits = map (\<lambda>k. 8 * k) [0 ..< (bits + 7) div 8]"

definition rsort :: "('a \<Rightarrow> 64 word) \<Rightarrow> 'a \<Rightarrow> nat list \<Rightarrow> 'a list \<Rightarrow> 'a list" where
  "rsort rank dflt stack xs =
     (if length xs \<le> 1 then xs
      else rs_cur (fold (rsort_pass rank dflt) (rsort_shifts (64))
             \<lparr>rs_a = xs, rs_b = [], rs_in_b = False, rs_initialized = False, rs_count = stack,
              rs_lower = - 1, rs_upper = 0, rs_bounded = False,
              rs_masked_lower = 0, rs_masked_upper = 255\<rparr>))"

text \<open>\<^verbatim>\<open>MSORT\<close>: the standard sort, here any function, up to a limit, radix sort above.\<close>

definition msort :: "nat \<Rightarrow> ('a list \<Rightarrow> 'a list) \<Rightarrow> ('a \<Rightarrow> 64 word) \<Rightarrow> 'a \<Rightarrow> nat list \<Rightarrow> 'a list \<Rightarrow> 'a list" where
  "msort limit std_sort rank dflt stack xs =
     (if length xs \<le> limit then std_sort xs else rsort rank dflt stack xs)"

subsection \<open>Stable sorting\<close>

lemma insort_key_cong:
  "\<forall>z \<in> set zs. g y \<le> g z \<longleftrightarrow> h y \<le> h z \<Longrightarrow> insort_key g y zs = insort_key h y zs"
  by (induction zs) auto

lemma sort_key_iso: "(\<And>x y. f x \<le> f y \<longleftrightarrow> g x \<le> g y) \<Longrightarrow> sort_key f xs = sort_key g xs"
  by (induction xs) (auto intro!: insort_key_cong)

lemma sort_key_of_sorted:
  "sorted (map f ys) \<Longrightarrow> sort_key g ys = sort_key (\<lambda>x. (g x, f x)) ys"
  by (induction ys) (auto intro!: insort_key_cong)

lemma sort_key_lex: "sort_key g (sort_key f xs) = sort_key (\<lambda>x. (g x, f x)) xs"
proof -
  let ?h = "\<lambda>x. (g x, f x)"
  have "filter (\<lambda>x. ?h k = ?h x) (sort_key f xs) = filter (\<lambda>x. ?h k = ?h x) xs" for k
  proof -
    have "filter (\<lambda>x. ?h k = ?h x) ys = filter (\<lambda>x. g k = g x) (filter (\<lambda>x. f k = f x) ys)" for ys
      by (simp add: conj_commute)
    note split = this
    have "filter (\<lambda>x. f k = f x) (sort_key f xs) = filter (\<lambda>x. f k = f x) xs"
      using sort_key_stable [of f "f k" xs] by (simp add: eq_commute)
    then show ?thesis by (simp only: split)
  qed
  note st = this
  have "sort_key ?h xs = sort_key ?h (sort_key f xs)"
  proof (rule properties_for_sort_key)
    fix k
    have "filter (\<lambda>x. ?h k = ?h x) (sort_key ?h ys) = filter (\<lambda>x. ?h k = ?h x) ys" for ys
      using sort_key_stable [of ?h "?h k" ys] by (simp only: eq_commute [of "?h k"])
    then show "filter (\<lambda>x. ?h k = ?h x) (sort_key ?h (sort_key f xs)) = filter (\<lambda>x. ?h k = ?h x) xs"
      using st by (simp only:)
  qed simp_all
  then show ?thesis using sort_key_of_sorted [of f "sort_key f xs" g] by simp
qed

text \<open>Distribution into buckets in order is a stable sort.\<close>

lemma buckets_sort_key:
  assumes "\<forall>x \<in> set xs. f x < k"
  shows "concat (map (\<lambda>m. filter (\<lambda>x. f x = m) xs) [0..<k]) = sort_key f xs" (is "?ys = _")
proof (rule properties_for_sort_key [symmetric])
  have "filter P (concat (map (\<lambda>m. filter (\<lambda>x. f x = m) xs) [0..<j]))
      = concat (map (\<lambda>m. filter P (filter (\<lambda>x. f x = m) xs)) [0..<j])" for P j
    by (induction j) simp_all
  note fc = this
  have bucket: "concat (map (\<lambda>m. filter (\<lambda>x. v = f x) (filter (\<lambda>x. f x = m) xs)) [0..<j])
      = (if v < j then filter (\<lambda>x. v = f x) xs else [])" for v j
    by (induction j) (auto intro!: filter_cong)
  show "filter (\<lambda>x. f v = f x) ?ys = filter (\<lambda>x. f v = f x) xs" if "v \<in> set ?ys" for v
    using that assms unfolding fc bucket by auto
  show "mset ?ys = mset xs"
  proof (rule multiset_eqI)
    fix x
    have c: "count (mset ys) x = count (mset (filter (\<lambda>y. f x = f y) ys)) x" for ys
      by (simp add: count_filter_mset)
    show "count (mset ?ys) x = count (mset xs) x"
    proof (cases "f x < k")
      case True
      have "filter (\<lambda>y. f x = f y) ?ys = filter (\<lambda>y. f x = f y) xs" unfolding fc bucket using True by simp
      then show ?thesis by (simp only: c [of ?ys] c [of xs])
    next
      case False
      then have "x \<notin> set xs" using assms by auto
      then have "x \<notin> set ?ys" by auto
      then show ?thesis using \<open>x \<notin> set xs\<close> by (metis count_mset_0_iff)
    qed
  qed
  have "sorted (map f (filter (\<lambda>x. f x = j) ys))" for j ys
    by (induction ys) auto
  then have "sorted (map f (concat (map (\<lambda>m. filter (\<lambda>x. f x = m) xs) [0..<j])))" for j
    by (induction j) (auto simp: sorted_append)
  then show "sorted (map f ?ys)" .
qed

subsection \<open>Counting\<close>

lemma radix_digit_less: "radix_digit i r < 256"
proof -
  have "drop_bit i r AND 255 \<le> (255 :: 64 word)" by (rule word_and_le1)
  then have "unat (drop_bit i r AND 255) \<le> unat (255 :: 64 word)" by (simp add: word_le_nat_alt)
  then show ?thesis by (simp add: radix_digit_def)
qed

lemma rsort_count_ok:
  assumes "rsort_count rank i b ps (so, la, cnt, lo, up) = (so', la', cnt', lo', up')" and "length cnt = 256"
  shows "length cnt' = 256"
    "m < 256 \<Longrightarrow> cnt' ! m = cnt ! m + length (filter (\<lambda>p. radix_digit i (rank p) = m) ps)"
    "so' \<Longrightarrow> sorted (map (\<lambda>p. radix_digit i (rank p)) ps) \<and> (\<forall>p \<in> set ps. la \<le> radix_digit i (rank p))"
    "so' \<Longrightarrow> so"
    "lo' = (if b then lo else fold (\<lambda>p w. w AND rank p) ps lo)"
    "up' = (if b then up else fold (\<lambda>p w. w OR rank p) ps up)"
proof -
  have "length cnt' = 256 \<and> (\<forall>m < 256. cnt' ! m = cnt ! m + length (filter (\<lambda>p. radix_digit i (rank p) = m) ps))
    \<and> (so' \<longrightarrow> so \<and> sorted (map (\<lambda>p. radix_digit i (rank p)) ps) \<and> (\<forall>p \<in> set ps. la \<le> radix_digit i (rank p)))
    \<and> lo' = (if b then lo else fold (\<lambda>p w. w AND rank p) ps lo)
    \<and> up' = (if b then up else fold (\<lambda>p w. w OR rank p) ps up)"
    using assms
  proof (induction ps arbitrary: so la cnt lo up)
    case Nil
    then show ?case by simp
  next
    case (Cons p ps)
    let ?m = "radix_digit i (rank p)"
    have m: "?m < length cnt" using radix_digit_less Cons.prems(2) by simp
    let ?so = "so \<and> \<not> la > ?m" and ?la = "if so \<and> la > ?m then la else ?m"
    have "rsort_count rank i b ps (?so, ?la, cnt[?m := cnt ! ?m + 1], if b then lo else lo AND rank p,
        if b then up else up OR rank p) = (so', la', cnt', lo', up')"
      using Cons.prems(1) by (auto simp: Let_def split: if_splits)
    from Cons.IH [OF this] Cons.prems(2) m show ?case
      by (auto simp: nth_list_update not_less intro: order_trans)
  qed
  then show "length cnt' = 256"
    "m < 256 \<Longrightarrow> cnt' ! m = cnt ! m + length (filter (\<lambda>p. radix_digit i (rank p) = m) ps)"
    "so' \<Longrightarrow> sorted (map (\<lambda>p. radix_digit i (rank p)) ps) \<and> (\<forall>p \<in> set ps. la \<le> radix_digit i (rank p))"
    "so' \<Longrightarrow> so"
    "lo' = (if b then lo else fold (\<lambda>p w. w AND rank p) ps lo)"
    "up' = (if b then up else fold (\<lambda>p w. w OR rank p) ps up)" by blast+
qed

lemma rsort_clear_nth:
  "j < length cnt \<Longrightarrow> rsort_clear ml mu cnt ! j = (if ml \<le> j \<and> j \<le> mu then 0 else cnt ! j)"
  "length (rsort_clear ml mu cnt) = length cnt"
proof -
  have len: "length (fold (\<lambda>j cnt. cnt[j := 0]) [ml..<n] cnt) = length cnt" for n
    by (induction n) auto
  have "j < length cnt \<Longrightarrow> fold (\<lambda>j cnt. cnt[j := 0]) [ml..<n] cnt ! j = (if ml \<le> j \<and> j < n then 0 else cnt ! j)" for n
    by (induction n) (auto simp: nth_list_update len less_Suc_eq)
  from this [of "mu + 1"] show "j < length cnt \<Longrightarrow> rsort_clear ml mu cnt ! j = (if ml \<le> j \<and> j \<le> mu then 0 else cnt ! j)"
    by (simp add: rsort_clear_def)
  show "length (rsort_clear ml mu cnt) = length cnt" using len [of "mu + 1"] by (simp add: rsort_clear_def)
qed

lemma rsort_prefix_nth:
  assumes "mu < length cnt" "\<And>j. j < length cnt \<Longrightarrow> \<not> (ml \<le> j \<and> j \<le> mu) \<Longrightarrow> cnt ! j = 0"
    and j: "ml \<le> j" "j \<le> mu"
  shows "rsort_prefix ml mu cnt ! j = (\<Sum>k<j. cnt ! k)"
    and "length (rsort_prefix ml mu cnt) = length cnt"
proof -
  let ?f = "\<lambda>j (pos, cnt). (pos + cnt ! j, cnt[j := pos])"
  have "ml \<le> n \<Longrightarrow> n \<le> mu + 1 \<Longrightarrow> fst (fold ?f [ml..<n] (0, cnt)) = (\<Sum>k\<in>{ml..<n}. cnt ! k)
      \<and> length (snd (fold ?f [ml..<n] (0, cnt))) = length cnt
      \<and> (\<forall>j < length cnt. snd (fold ?f [ml..<n] (0, cnt)) ! j = (if ml \<le> j \<and> j < n then \<Sum>k\<in>{ml..<j}. cnt ! k else cnt ! j))" for n
  proof (induction n)
    case 0
    then show ?case by simp
  next
    case (Suc n)
    show ?case
    proof (cases "ml \<le> n")
      case False
      then have "ml = Suc n" using Suc.prems by simp
      then show ?thesis by auto
    next
      case True
      with Suc show ?thesis using assms(1) by (auto simp: case_prod_beta nth_list_update less_Suc_eq)
    qed
  qed
  from this [of "mu + 1"] j have p: "length (rsort_prefix ml mu cnt) = length cnt"
    "rsort_prefix ml mu cnt ! j = (\<Sum>k\<in>{ml..<j}. cnt ! k)" using assms(1) by (auto simp: rsort_prefix_def)
  have "(\<Sum>k<j. cnt ! k) = (\<Sum>k\<in>{ml..<j}. cnt ! k)"
    by (rule sum.mono_neutral_right) (use assms j in auto)
  then show "rsort_prefix ml mu cnt ! j = (\<Sum>k<j. cnt ! k)" using p by simp
  show "length (rsort_prefix ml mu cnt) = length cnt" by (rule p(1))
qed

subsection \<open>Scattering\<close>

text \<open>Where bucket \<open>m\<close> starts.\<close>

definition bucket_start :: "('a \<Rightarrow> nat) \<Rightarrow> 'a list \<Rightarrow> nat \<Rightarrow> nat" where
  "bucket_start f xs m = (\<Sum>k<m. length (filter (\<lambda>x. f x = k) xs))"

lemma bucket_start_mono: "m < m' \<Longrightarrow> bucket_start f xs m + length (filter (\<lambda>x. f x = m) xs) \<le> bucket_start f xs m'"
proof -
  assume "m < m'"
  then have "(\<Sum>k<Suc m. length (filter (\<lambda>x. f x = k) xs)) \<le> bucket_start f xs m'"
    unfolding bucket_start_def by (intro sum_mono2) auto
  then show ?thesis by (simp add: bucket_start_def)
qed

lemma bucket_start_inj:
  assumes "t < length (filter (\<lambda>x. f x = m) xs)" "t' < length (filter (\<lambda>x. f x = m') xs)"
    and "bucket_start f xs m + t = bucket_start f xs m' + t'"
  shows "m = m' \<and> t = t'"
proof (cases m m' rule: linorder_cases)
  case less
  then show ?thesis using bucket_start_mono [OF less, of f xs] assms by simp
next
  case greater
  then show ?thesis using bucket_start_mono [OF greater, of f xs] assms by simp
qed (use assms in simp)

lemma concat_buckets_nth:
  "p < length (concat (map (\<lambda>m. filter (\<lambda>x. f x = m) xs) [0..<k])) \<Longrightarrow>
   \<exists>m < k. \<exists>t < length (filter (\<lambda>x. f x = m) xs). p = bucket_start f xs m + t
     \<and> concat (map (\<lambda>m. filter (\<lambda>x. f x = m) xs) [0..<k]) ! p = filter (\<lambda>x. f x = m) xs ! t"
proof (induction k)
  case (Suc k)
  let ?c = "concat (map (\<lambda>m. filter (\<lambda>x. f x = m) xs) [0..<k])"
  have len: "length ?c = bucket_start f xs k"
    by (simp add: bucket_start_def length_concat comp_def interv_sum_list_conv_sum_set_nat atLeast0LessThan)
  show ?case
  proof (cases "p < length ?c")
    case True
    from Suc.IH [OF this] True show ?thesis by (auto simp: nth_append less_Suc_eq)
  next
    case False
    then have "p - length ?c < length (filter (\<lambda>x. f x = k) xs)" using Suc.prems by auto
    then show ?thesis
      using False len by (intro exI [of _ k] conjI exI [of _ "p - length ?c"]) (auto simp: nth_append)
  qed
qed simp

lemma rsort_scatter_ok:
  fixes rank :: "'a \<Rightarrow> 64 word"
  defines "f \<equiv> \<lambda>i p. radix_digit i (rank p)"
  assumes xs: "xs = pre @ ps" and d: "length d = length xs" and cnt: "length cnt = 256"
    and c: "\<And>m. m \<in> f i ` set xs \<Longrightarrow> cnt ! m = bucket_start (f i) xs m + length (filter (\<lambda>x. f i x = m) pre)"
    and w: "\<And>m t. m < 256 \<Longrightarrow> t < length (filter (\<lambda>x. f i x = m) pre) \<Longrightarrow>
        d ! (bucket_start (f i) xs m + t) = filter (\<lambda>x. f i x = m) pre ! t"
    and s: "rsort_scatter rank i ps d cnt = (d', cnt')"
  shows "length d' = length xs" "length cnt' = 256"
    "\<And>m. m < 256 \<Longrightarrow> m \<notin> f i ` set xs \<Longrightarrow> cnt' ! m = cnt ! m"
    "\<And>m t. m < 256 \<Longrightarrow> t < length (filter (\<lambda>x. f i x = m) xs) \<Longrightarrow>
        d' ! (bucket_start (f i) xs m + t) = filter (\<lambda>x. f i x = m) xs ! t"
proof -
  let ?B = "\<lambda>m ys. filter (\<lambda>x. f i x = m) ys"
  have "length d' = length xs \<and> length cnt' = 256 \<and> (\<forall>m < 256. m \<notin> f i ` set xs \<longrightarrow> cnt' ! m = cnt ! m)
    \<and> (\<forall>m t. m < 256 \<longrightarrow> t < length (?B m xs) \<longrightarrow> d' ! (bucket_start (f i) xs m + t) = ?B m xs ! t)"
    using xs d cnt c w s
  proof (induction ps arbitrary: pre d cnt)
    case Nil
    then show ?case by simp
  next
    case (Cons p ps)
    let ?m = "f i p"
    let ?pos = "bucket_start (f i) xs ?m + length (?B ?m pre)"
    have m: "?m < 256" "?m \<in> f i ` set xs" using Cons.prems(1) radix_digit_less by (auto simp: f_def)
    have cm: "cnt ! ?m = ?pos" by (rule Cons.prems(4) [OF m(2)])
    have room: "length (?B ?m pre) < length (?B ?m xs)" using Cons.prems(1) by simp
    have tot: "bucket_start (f i) xs 256 = length xs"
    proof -
      have "\<forall>x \<in> set xs. f i x < 256" by (simp add: f_def radix_digit_less)
      from buckets_sort_key [OF this] have "length (concat (map (\<lambda>m. ?B m xs) [0..<256])) = length xs"
        by (metis length_sort)
      then show ?thesis
        by (simp add: bucket_start_def length_concat comp_def interv_sum_list_conv_sum_set_nat atLeast0LessThan)
    qed
    have pos: "?pos < length d"
      using bucket_start_mono [OF m(1), of "f i" xs] room tot Cons.prems(2) by simp
    have rec: "rsort_scatter rank i ps (d[?pos := p]) (cnt[?m := cnt ! ?m + 1]) = (d', cnt')"
      using Cons.prems(6) cm by (simp add: f_def Let_def)
    have c': "(cnt[?m := cnt ! ?m + 1]) ! k = bucket_start (f i) xs k + length (?B k (pre @ [p]))"
      if "k \<in> f i ` set xs" for k
      using that Cons.prems(3,4) m by (auto simp: nth_list_update)
    have w': "d[?pos := p] ! (bucket_start (f i) xs k + t) = ?B k (pre @ [p]) ! t"
      if k: "k < 256" "t < length (?B k (pre @ [p]))" for k t
    proof (cases "k = ?m \<and> t = length (?B ?m pre)")
      case True
      then show ?thesis using pos by (simp add: nth_append)
    next
      case False
      have t: "t < length (?B k pre)" using k(2) False by (auto split: if_splits simp: less_Suc_eq)
      then have "t < length (?B k xs)" using Cons.prems(1) by simp
      then have "bucket_start (f i) xs k + t \<noteq> ?pos"
        using bucket_start_inj [OF _ room] False by blast
      then show ?thesis using Cons.prems(5) [OF k(1) t] t by (simp add: nth_append)
    qed
    have "xs = (pre @ [p]) @ ps" using Cons.prems(1) by simp
    from Cons.IH [OF this _ _ c' w' rec] Cons.prems(2,3) show ?case
      using m by (auto simp: nth_list_update)
  qed
  then show "length d' = length xs" "length cnt' = 256"
    "\<And>m. m < 256 \<Longrightarrow> m \<notin> f i ` set xs \<Longrightarrow> cnt' ! m = cnt ! m"
    "\<And>m t. m < 256 \<Longrightarrow> t < length (filter (\<lambda>x. f i x = m) xs) \<Longrightarrow>
        d' ! (bucket_start (f i) xs m + t) = filter (\<lambda>x. f i x = m) xs ! t" by blast+
qed

subsection \<open>Digits and bounds\<close>

definition radix_low :: "('a \<Rightarrow> 64 word) \<Rightarrow> nat \<Rightarrow> 'a \<Rightarrow> nat" where
  "radix_low rank i x = unat (rank x) mod 2 ^ i"

lemma radix_digit_nat: "radix_digit i r = unat r div 2 ^ i mod 256"
proof -
  have "drop_bit i r AND 255 = take_bit 8 (drop_bit i r)"
    by (simp add: take_bit_eq_mask mask_eq_exp_minus_1)
  then have "radix_digit i r = take_bit 8 (drop_bit i (take_bit 64 (unat r)))"
    by (simp only: radix_digit_def unsigned_take_bit_eq unsigned_drop_bit_eq len_num0 len_num1 len_bit0) simp
  moreover have "take_bit 64 (unat r) = unat r"
    by (rule take_bit_nat_eq_self) (use unsigned_less [of r] in simp)
  ultimately have "radix_digit i r = take_bit 8 (drop_bit i (unat r))" by (simp only:)
  then show ?thesis by (simp add: take_bit_eq_mod drop_bit_eq_div)
qed

lemma radix_low_step: "radix_low rank (i + 8) x = 2 ^ i * radix_digit i (rank x) + radix_low rank i x"
  using mod_mult2_eq [of "unat (rank x)" "2 ^ i" 256] by (simp add: radix_low_def radix_digit_nat power_add)

lemma lex_nat: "(b :: nat) < k \<Longrightarrow> b' < k \<Longrightarrow> k * a + b \<le> k * a' + b' \<longleftrightarrow> a < a' \<or> a = a' \<and> b \<le> b'"
proof -
  assume b: "b < k" "b' < k"
  have "k * a + b < k * Suc a" "k * a' + b' < k * Suc a'" using b by simp_all
  moreover have "k * Suc a \<le> k * a'" if "a < a'" using that by (intro mult_le_mono) auto
  moreover have "k * Suc a' \<le> k * a" if "a' < a" using that by (intro mult_le_mono) auto
  ultimately show ?thesis by (cases a a' rule: linorder_cases) auto
qed

lemma sort_low_step:
  "sort_key (radix_low rank (i + 8)) xs
     = sort_key (\<lambda>x. radix_digit i (rank x)) (sort_key (radix_low rank i) xs)"
proof -
  have "radix_low rank i x < 2 ^ i" for x by (simp add: radix_low_def)
  then show ?thesis
    unfolding sort_key_lex by (intro sort_key_iso) (auto simp: radix_low_step lex_nat)
qed

text \<open>\<open>lower\<close> and \<open>upper\<close> bound every rank bitwise.\<close>

definition radix_bounds :: "('a \<Rightarrow> 64 word) \<Rightarrow> 'a list \<Rightarrow> 64 word \<Rightarrow> 64 word \<Rightarrow> bool" where
  "radix_bounds rank xs lower upper \<longleftrightarrow>
     (\<forall>x \<in> set xs. \<forall>n. (bit lower n \<longrightarrow> bit (rank x) n) \<and> (bit (rank x) n \<longrightarrow> bit upper n))"

lemma bit_fold_and:
  "bit (fold (\<lambda>p w. w AND rank p) ps lo) n \<longleftrightarrow> bit (lo :: 64 word) n \<and> (\<forall>p \<in> set ps. bit (rank p) n)"
  by (induction ps arbitrary: lo) (auto simp: bit_and_iff)

lemma bit_fold_or:
  "bit (fold (\<lambda>p w. w OR rank p) ps lo) n \<longleftrightarrow> bit (lo :: 64 word) n \<or> (\<exists>p \<in> set ps. bit (rank p) n)"
  by (induction ps arbitrary: lo) (auto simp: bit_or_iff)

lemma unat_and_le: "a AND b = a \<Longrightarrow> unat a \<le> unat (b :: 64 word)"
  by (metis word_and_le1 word_le_nat_alt)

lemma radix_digit_bounds:
  assumes "radix_bounds rank xs lower upper" "x \<in> set xs"
  shows "radix_digit i lower \<le> radix_digit i (rank x)" "radix_digit i (rank x) \<le> radix_digit i upper"
proof -
  have le: "radix_digit i a \<le> radix_digit i b" if "\<And>n. bit a n \<Longrightarrow> bit b n" for a b
  proof -
    have "a AND b = a" using that by (intro bit_word_eqI) (auto simp: bit_and_iff)
    moreover have "(drop_bit i a AND 255) AND (drop_bit i b AND 255) = drop_bit i (a AND b) AND 255"
      by (simp add: drop_bit_and and.assoc and.left_commute)
    ultimately show ?thesis unfolding radix_digit_def by (intro unat_and_le) simp
  qed
  show "radix_digit i lower \<le> radix_digit i (rank x)" "radix_digit i (rank x) \<le> radix_digit i upper"
    using assms by (auto simp: radix_bounds_def intro!: le)
qed

lemma radix_digit_shifted:
  assumes "a AND push_bit i 255 = b AND push_bit i (255 :: 64 word)"
  shows "radix_digit i a = radix_digit i b"
proof -
  have "drop_bit i a AND 255 = drop_bit i b AND (255 :: 64 word)"
  proof (rule bit_word_eqI)
    fix n assume n: "n < LENGTH(64)"
    have "bit (a AND push_bit i 255) (i + n) = bit (b AND push_bit i (255 :: 64 word)) (i + n)"
      using assms by simp
    then show "bit (drop_bit i a AND 255) n = bit (drop_bit i b AND (255 :: 64 word)) n"
      by (auto simp: bit_and_iff bit_push_bit_iff bit_drop_bit_eq dest: bit_imp_le_length)
  qed
  then show ?thesis by (simp add: radix_digit_def)
qed

text \<open>Bounds that agree on a byte mean that all ranks do.\<close>

lemma radix_digit_const:
  assumes "radix_bounds rank xs lower upper" "lower AND push_bit i 255 = upper AND push_bit i 255"
  shows "sort_key (\<lambda>x. radix_digit i (rank x)) xs = xs"
proof -
  have "radix_digit i (rank x) = radix_digit i lower" if "x \<in> set xs" for x
    using radix_digit_bounds [OF assms(1) that, of i] radix_digit_shifted [OF assms(2)] by simp
  then have "map (\<lambda>x. radix_digit i (rank x)) xs = map (\<lambda>_. radix_digit i lower) xs" by simp
  then have "sorted (map (\<lambda>x. radix_digit i (rank x)) xs)" by (simp add: sorted_wrt_map sorted_wrt_iff_nth_less map_replicate_const)
  then show ?thesis by (simp add: sorted_sort_id sort_key_id_if_sorted)
qed

subsection \<open>The passes\<close>

definition rsort_inv :: "('a \<Rightarrow> 64 word) \<Rightarrow> 'a list \<Rightarrow> nat \<Rightarrow> 'a rsort_state \<Rightarrow> bool" where
  "rsort_inv rank xs i s \<longleftrightarrow>
     rs_cur s = sort_key (radix_low rank i) xs
     \<and> length (rs_a s) = length xs
     \<and> (rs_initialized s \<longrightarrow> length (rs_b s) = length xs) \<and> (rs_in_b s \<longrightarrow> rs_initialized s)
     \<and> length (rs_count s) = 256
     \<and> (\<forall>j < 256. \<not> (rs_masked_lower s \<le> j \<and> j \<le> rs_masked_upper s) \<longrightarrow> rs_count s ! j = 0)
     \<and> (if rs_bounded s then radix_bounds rank xs (rs_lower s) (rs_upper s)
        else rs_lower s = - 1 \<and> rs_upper s = 0)"

text \<open>Counting over a cleared array yields the bucket sizes.\<close>

lemma rsort_count_pass:
  assumes inv: "rsort_inv rank xs i s"
    and c: "rsort_count rank i (rs_bounded s) (rs_cur s)
      (True, 0, rsort_clear (rs_masked_lower s) (rs_masked_upper s) (rs_count s), rs_lower s, rs_upper s)
      = (so, la, cnt, lo, up)"
  shows "length cnt = 256" "radix_bounds rank xs lo up"
    "\<And>m. m < 256 \<Longrightarrow> cnt ! m = length (filter (\<lambda>x. radix_digit i (rank x) = m) (rs_cur s))"
    "so \<Longrightarrow> sort_key (\<lambda>x. radix_digit i (rank x)) (rs_cur s) = rs_cur s"
proof -
  let ?cl = "rsort_clear (rs_masked_lower s) (rs_masked_upper s) (rs_count s)"
  have len: "length ?cl = 256" using inv by (simp add: rsort_clear_nth rsort_inv_def)
  have zero: "?cl ! m = 0" if "m < 256" for m using that inv by (auto simp: rsort_clear_nth rsort_inv_def)
  note r = rsort_count_ok [OF c len]
  show "length cnt = 256" by (rule r(1))
  show "\<And>m. m < 256 \<Longrightarrow> cnt ! m = length (filter (\<lambda>x. radix_digit i (rank x) = m) (rs_cur s))"
    using r(2) zero by simp
  show "so \<Longrightarrow> sort_key (\<lambda>x. radix_digit i (rank x)) (rs_cur s) = rs_cur s"
    using r(3) by (intro sort_key_id_if_sorted) simp
  have set: "set (rs_cur s) = set xs" using inv by (simp add: rsort_inv_def)
  show "radix_bounds rank xs lo up"
    using r(5,6) inv set unfolding rsort_inv_def radix_bounds_def
    by (auto simp: bit_fold_and bit_fold_or split: if_splits)
qed

text \<open>Positions, scatter: the other buffer becomes the stable sort by the current byte.\<close>

lemma rsort_distribute:
  fixes rank :: "'a \<Rightarrow> 64 word" and xs :: "'a list" and i :: nat
  defines "f \<equiv> \<lambda>x. radix_digit i (rank x)"
  assumes len: "length cnt = 256" "length d = length xs"
    and cnt: "\<And>m. m < 256 \<Longrightarrow> cnt ! m = length (filter (\<lambda>x. f x = m) xs)"
    and b: "\<And>x. x \<in> set xs \<Longrightarrow> ml \<le> f x \<and> f x \<le> mu" "mu < 256" "ml \<le> mu"
    and s: "rsort_scatter rank i xs d (rsort_prefix ml mu cnt) = (d', cnt')"
  shows "d' = sort_key f xs" "length cnt' = 256"
    "\<And>j. j < 256 \<Longrightarrow> \<not> (ml \<le> j \<and> j \<le> mu) \<Longrightarrow> cnt' ! j = 0"
proof -
  have out: "cnt ! j = 0" if "j < length cnt" "\<not> (ml \<le> j \<and> j \<le> mu)" for j
    using that cnt [of j] len(1) b(1) by (auto simp: filter_empty_conv)
  have pre: "rsort_prefix ml mu cnt ! m = bucket_start f xs m" if "ml \<le> m" "m \<le> mu" for m
    using rsort_prefix_nth(1) [OF _ out that] len b(2) cnt that by (simp add: bucket_start_def)
  have plen: "length (rsort_prefix ml mu cnt) = 256"
    using rsort_prefix_nth(2) [OF _ out, of mu ml ml] len b(2,3) by simp
  have pout: "rsort_prefix ml mu cnt ! j = cnt ! j" if "j < 256" "\<not> (ml \<le> j \<and> j \<le> mu)" for j
  proof -
    let ?f = "\<lambda>j (pos, cnt). (pos + cnt ! j, cnt[j := pos])"
    have "j \<notin> set ks \<Longrightarrow> snd (fold ?f ks (pos, c)) ! j = c ! j" for ks pos c
      by (induction ks arbitrary: pos c) auto
    then show ?thesis unfolding rsort_prefix_def by this (use that in auto)
  qed
  have m: "rsort_prefix ml mu cnt ! m = bucket_start f xs m + length (filter (\<lambda>x. f x = m) [])"
    if "m \<in> f ` set xs" for m
    using that pre b(1) by auto
  note sc = rsort_scatter_ok [where pre = "[]" and ps = xs and xs = xs and rank = rank and i = i,
      OF _ len(2) plen m [unfolded f_def] _ s]
  have sc': "length d' = length xs" "length cnt' = 256"
    "\<And>m. m < 256 \<Longrightarrow> m \<notin> f ` set xs \<Longrightarrow> cnt' ! m = rsort_prefix ml mu cnt ! m"
    "\<And>m t. m < 256 \<Longrightarrow> t < length (filter (\<lambda>x. f x = m) xs) \<Longrightarrow>
        d' ! (bucket_start f xs m + t) = filter (\<lambda>x. f x = m) xs ! t"
    using sc by (simp_all add: f_def)
  show "length cnt' = 256" by (rule sc'(2))
  show "cnt' ! j = 0" if j: "j < 256" "\<not> (ml \<le> j \<and> j \<le> mu)" for j
  proof -
    have "j \<notin> f ` set xs" using b(1) j(2) by auto
    then show ?thesis using sc'(3) pout out j len by simp
  qed
  have lt: "\<forall>x \<in> set xs. f x < 256" by (simp add: f_def radix_digit_less)
  note bk = buckets_sort_key [OF lt]
  have "d' = concat (map (\<lambda>m. filter (\<lambda>x. f x = m) xs) [0..<256])"
  proof (rule nth_equalityI)
    show l: "length d' = length (concat (map (\<lambda>m. filter (\<lambda>x. f x = m) xs) [0..<256]))"
      unfolding bk by (simp add: sc'(1))
    fix p assume "p < length d'"
    then obtain m t where "m < 256" "t < length (filter (\<lambda>x. f x = m) xs)" "p = bucket_start f xs m + t"
      "concat (map (\<lambda>m. filter (\<lambda>x. f x = m) xs) [0..<256]) ! p = filter (\<lambda>x. f x = m) xs ! t"
      using concat_buckets_nth [of p f xs 256] l by auto
    then show "d' ! p = concat (map (\<lambda>m. filter (\<lambda>x. f x = m) xs) [0..<256]) ! p" using sc'(4) by simp
  qed
  then show "d' = sort_key f xs" using bk by simp
qed

lemma rsort_pass_ok:
  assumes inv: "rsort_inv rank xs i s"
  shows "rsort_inv rank xs (i + 8) (rsort_pass rank dflt i s) \<and> rs_bounded (rsort_pass rank dflt i s)"
proof -
  let ?sh = "push_bit i 255 :: 64 word"
  have step: "sort_key (radix_low rank (i + 8)) xs = sort_key (\<lambda>x. radix_digit i (rank x)) (rs_cur s)"
    using inv by (simp add: sort_low_step rsort_inv_def)
  have set: "set (rs_cur s) = set xs" "length (rs_cur s) = length xs" using inv by (simp_all add: rsort_inv_def)
  have const: "sort_key (\<lambda>x. radix_digit i (rank x)) (rs_cur s) = rs_cur s"
    if "radix_bounds rank xs lo up" "lo AND ?sh = up AND ?sh" for lo up
    using radix_digit_const [of rank "rs_cur s" lo up i] that set by (simp add: radix_bounds_def)
  show ?thesis
  proof (cases "rs_bounded s \<and> rs_lower s AND ?sh = rs_upper s AND ?sh")
    case True
    then have "rsort_pass rank dflt i s = s" by (simp add: rsort_pass_def)
    moreover have "sort_key (\<lambda>x. radix_digit i (rank x)) (rs_cur s) = rs_cur s"
      using inv True by (intro const [of "rs_lower s" "rs_upper s"]) (auto simp: rsort_inv_def)
    ultimately show ?thesis using inv True step by (simp add: rsort_inv_def)
  next
    case False
    obtain so la cnt lo up where c: "rsort_count rank i (rs_bounded s) (rs_cur s)
      (True, 0, rsort_clear (rs_masked_lower s) (rs_masked_upper s) (rs_count s), rs_lower s, rs_upper s)
      = (so, la, cnt, lo, up)" by (metis prod_cases5)
    note cp = rsort_count_pass [OF inv c]
    let ?ml = "radix_digit i lo" and ?mu = "radix_digit i up"
    have b: "?ml \<le> radix_digit i (rank x) \<and> radix_digit i (rank x) \<le> ?mu" if "x \<in> set (rs_cur s)" for x
      using radix_digit_bounds [OF cp(2)] that set by simp
    have out: "cnt ! j = 0" if "j < 256" "\<not> (?ml \<le> j \<and> j \<le> ?mu)" for j
      using that cp(3) [of j] b by (auto simp: filter_empty_conv)
    define s1 where "s1 = s\<lparr>rs_count := cnt, rs_lower := lo, rs_upper := up,
        rs_masked_lower := ?ml, rs_masked_upper := ?mu, rs_bounded := True\<rparr>"
    have cur1: "rs_cur s1 = rs_cur s" by (simp add: s1_def rs_cur_def)
    show ?thesis
    proof (cases "\<not> rs_bounded s \<and> lo AND ?sh = up AND ?sh \<or> so")
      case True
      then have "rsort_pass rank dflt i s = s1"
        using False c unfolding rsort_pass_def Let_def by (auto simp: s1_def)
      moreover have "sort_key (\<lambda>x. radix_digit i (rank x)) (rs_cur s) = rs_cur s"
        using True const [OF cp(2)] cp(4) by auto
      moreover have "rsort_inv rank xs (i + 8) s1"
        using inv cp(1,2) out step calculation(2) unfolding rsort_inv_def cur1 by (simp add: s1_def)
      ultimately show ?thesis by (simp add: s1_def)
    next
      case dist: False
      define s2 where "s2 = (if \<not> rs_initialized s1
          then s1\<lparr>rs_b := replicate (length (rs_a s1)) dflt, rs_initialized := True\<rparr> else s1)"
      have in_b: "rs_in_b s2 = rs_in_b s" "rs_in_b s \<Longrightarrow> rs_initialized s"
        using inv by (simp_all add: s2_def s1_def rsort_inv_def)
      have s2: "rs_cur s2 = rs_cur s" "length (rs_a s2) = length xs" "length (rs_b s2) = length xs" "rs_initialized s2"
        using inv by (auto simp: s2_def s1_def rs_cur_def rsort_inv_def)
      let ?d = "if rs_in_b s2 then rs_a s2 else rs_b s2"
      obtain d' cnt' where sc: "rsort_scatter rank i (rs_cur s2) ?d (rsort_prefix ?ml ?mu cnt) = (d', cnt')" by fastforce
      have ne: "rs_cur s \<noteq> []"
      proof
        assume "rs_cur s = []"
        then have "so" using c by simp
        then show False using dist by simp
      qed
      then have le: "?ml \<le> ?mu" using b [of "hd (rs_cur s)"] by auto
      have "length ?d = length (rs_cur s)" using s2 set(2) by simp
      note di = rsort_distribute [OF cp(1) this cp(3) b radix_digit_less le sc [unfolded s2(1)]]
      have pass: "rsort_pass rank dflt i s = (if rs_in_b s2 then s2\<lparr>rs_a := d', rs_in_b := False, rs_count := cnt'\<rparr>
          else s2\<lparr>rs_b := d', rs_in_b := True, rs_count := cnt'\<rparr>)"
      proof -
        have "rsort_pass rank dflt i s = (case rsort_scatter rank i (rs_cur s2) ?d (rsort_prefix ?ml ?mu cnt) of
          (d, cnt) \<Rightarrow> (if rs_in_b s2 then s2\<lparr>rs_a := d, rs_in_b := False, rs_count := cnt\<rparr>
            else s2\<lparr>rs_b := d, rs_in_b := True, rs_count := cnt\<rparr>))"
          using False dist c unfolding rsort_pass_def Let_def s2_def s1_def by auto
        then show ?thesis by (simp add: sc)
      qed
      have keep: "rs_masked_lower s2 = ?ml" "rs_masked_upper s2 = ?mu" "rs_bounded s2" "rs_lower s2 = lo" "rs_upper s2 = up"
        by (simp_all add: s2_def s1_def)
      have dl: "length d' = length xs" using di(1) set(2) by simp
      show ?thesis
        unfolding pass rsort_inv_def step
        using di dl s2 keep cp(2) by (simp add: rs_cur_def)
    qed
  qed
qed

lemma rsort_passes:
  assumes "rsort_inv rank xs 0 s" "0 < k"
  shows "rsort_inv rank xs (8 * k) (fold (rsort_pass rank dflt) (map (\<lambda>k. 8 * k) [0..<k]) s)"
  using assms(2)
proof (induction k)
  case (Suc k)
  show ?case
  proof (cases "k = 0")
    case True
    then show ?thesis using rsort_pass_ok [OF assms(1), of dflt] by simp
  next
    case False
    then show ?thesis using rsort_pass_ok [OF Suc.IH, of dflt] by (simp add: add.commute)
  qed
qed simp

lemma rsort_ok:
  assumes "length stack = 256"
  shows "rsort rank dflt stack xs = sort_key rank xs"
proof (cases "length xs \<le> 1")
  case True
  then have "sorted (map rank xs)" by (cases xs) auto
  then show ?thesis using True by (simp add: rsort_def sort_key_id_if_sorted)
next
  case False
  let ?s = "\<lparr>rs_a = xs, rs_b = [], rs_in_b = False, rs_initialized = False, rs_count = stack,
      rs_lower = - 1, rs_upper = 0, rs_bounded = False, rs_masked_lower = 0, rs_masked_upper = 255\<rparr>"
  have "sorted (map (radix_low rank 0) xs)"
    by (simp add: radix_low_def sorted_wrt_iff_nth_less)
  then have "rsort_inv rank xs 0 ?s"
    using assms by (simp add: rsort_inv_def rs_cur_def sort_key_id_if_sorted)
  from rsort_passes [OF this, of 8 dflt]
  have "rs_cur (fold (rsort_pass rank dflt) (rsort_shifts 64) ?s) = sort_key (radix_low rank 64) xs"
    by (simp add: rsort_inv_def rsort_shifts_def)
  moreover have "radix_low rank 64 x = unat (rank x)" for x
    using unsigned_less [of "rank x", where ?'a = nat] by (simp add: radix_low_def)
  then have "sort_key (radix_low rank 64) xs = sort_key rank xs"
    by (intro sort_key_iso) (simp add: word_le_nat_alt)
  ultimately show ?thesis using False by (simp add: rsort_def)
qed

end
