(* ===== verification/Decide_Main.thy ===== *)
theory Decide_Main
  imports Complex_Main Decide Radix
begin

text \<open>
  What the data structures behind decisions and bumping guarantee: the binary heap, the VMTF
  queue, radix sort, and the random choices used to shuffle.
\<close>

subsection \<open>The heap\<close>

definition demo_heap :: heap where
  "demo_heap = the (push_all (score_smaller (\<lambda>v. v mod 3)) [1, 2, 3, 4] heap_empty)"

lemmas heap_eval = heap_push_back_def heap_pop_front_def heap_update_def heap_index_def heap_exchange_def
  heap_up.simps heap_down.simps heap_empty_def heap_parent_def score_smaller_def heap_front_def
  invalid_heap_position_def list_swap_def resize_def Let_def

lemma demo_heap_array: "heap_array demo_heap = [2, 1, 3, 4]"
  by (simp add: demo_heap_def heap_eval)

lemma demo_heap_inv: "heap_inv (score_smaller (\<lambda>v. v mod 3)) demo_heap"
proof -
  have "\<exists>t. push_all (score_smaller (\<lambda>v. v mod 3)) [1, 2, 3, 4] heap_empty = Some t
      \<and> heap_inv (score_smaller (\<lambda>v. v mod 3)) t \<and> mset (heap_array t) = mset (heap_array heap_empty) + mset [1, 2, 3, 4]"
    by (rule score.push_all_ok [OF heap_inv_empty]) (simp_all add: heap_empty_def invalid_heap_position_def)
  then show ?thesis by (auto simp: demo_heap_def)
qed

text \<open>
  C12: pushing a new element onto the score heap and popping from a non-empty one both end and
  keep the heap; the popped element is the front and no element is better than it.
\<close>

theorem heap_push_pop:
  fixes stab :: "nat \<Rightarrow> 'v :: linorder"
  assumes "heap_inv (score_smaller stab) h"
  shows "(\<not> heap_contains h e \<and> length (heap_array h) < invalid_heap_position \<longrightarrow>
      (\<exists>t. heap_push_back (score_smaller stab) e h = Some t \<and> heap_inv (score_smaller stab) t
         \<and> mset (heap_array t) = add_mset e (mset (heap_array h))))
    \<and> (heap_array h \<noteq> [] \<longrightarrow>
      (\<exists>t. heap_pop_front (score_smaller stab) h = Some (heap_front h, t)
         \<and> heap_inv (score_smaller stab) t
         \<and> mset (heap_array h) = add_mset (heap_front h) (mset (heap_array t))
         \<and> (\<forall>x \<in> set (heap_array h). \<not> score_smaller stab (heap_front h) x)))"
  using score.push_back_ok [OF assms, of e] score.pop_front_ok [OF assms] score.front_max [OF assms] by blast

theorem heap_push_pop_witness:
  "\<exists>t. heap_push_back (score_smaller (\<lambda>v. v mod 3)) 5 demo_heap = Some t
     \<and> mset (heap_array t) = {#1, 2, 3, 4, 5#}"
proof -
  have "\<not> heap_contains demo_heap 5"
    by (simp add: demo_heap_def heap_eval heap_contains_def)
  then show ?thesis
    using heap_push_pop [OF demo_heap_inv, of 5]
    by (force simp: demo_heap_array invalid_heap_position_def add_mset_commute)
qed

text \<open>
  C13: popping everything off the elimination schedule yields all its elements, best first.
\<close>

theorem heap_drain_sorted:
  fixes score :: "nat \<Rightarrow> 'v :: linorder"
  assumes "heap_inv (elim_more score) h"
  shows "\<exists>es. drain (heap_pop_front (elim_more score)) (size (mset (heap_array h))) h = Some es
    \<and> mset es = mset (heap_array h) \<and> sorted_wrt (\<lambda>a b. \<not> elim_more score a b) es"
  using assms by (rule elim.pq.drain_sorted)

theorem heap_drain_sorted_witness:
  "\<exists>h es. push_all (elim_more (\<lambda>v. v mod 3)) [1, 2, 3, 4] heap_empty = Some h
     \<and> drain (heap_pop_front (elim_more (\<lambda>v. v mod 3))) (size (mset (heap_array h))) h = Some es
     \<and> mset es = {#1, 2, 3, 4#}"
proof -
  have "\<exists>h. push_all (elim_more (\<lambda>v. v mod 3)) [1, 2, 3, 4] heap_empty = Some h
      \<and> heap_inv (elim_more (\<lambda>v. v mod 3)) h \<and> mset (heap_array h) = mset (heap_array heap_empty) + mset [1, 2, 3, 4]"
    by (rule elim.push_all_ok [OF heap_inv_empty]) (simp_all add: heap_empty_def invalid_heap_position_def)
  then obtain h where h: "push_all (elim_more (\<lambda>v. v mod 3)) [1, 2, 3, 4] heap_empty = Some h"
    "heap_inv (elim_more (\<lambda>v. v mod 3)) h" "mset (heap_array h) = {#1, 2, 3, 4#}"
    by (auto simp: heap_empty_def)
  obtain es where es: "drain (heap_pop_front (elim_more (\<lambda>v. v mod 3))) (size (mset (heap_array h))) h = Some es"
    "mset es = mset (heap_array h)"
    using heap_drain_sorted [OF h(2)] by blast
  show ?thesis using h(1) es(1) es(2) [unfolded h(3)] by blast
qed

text \<open>
  C14: after the score of one element of the heap has changed in either direction, \<open>update\<close>
  for that element ends and restores the heap.
\<close>

theorem heap_update_restores:
  fixes f g :: "nat \<Rightarrow> 'v :: linorder"
  assumes "heap_inv (score_smaller f) h" and "e \<in> set (heap_array h)" and "\<And>x. x \<noteq> e \<Longrightarrow> g x = f x"
  shows "\<exists>t. heap_update (score_smaller g) e h = Some t \<and> heap_inv (score_smaller g) t
    \<and> mset (heap_array t) = mset (heap_array h)"
  by (rule heap_score_changed [OF assms])

theorem heap_update_restores_witness:
  "\<exists>t. heap_update (score_smaller ((\<lambda>v. v mod 3)(4 := 9))) 4 demo_heap = Some t
     \<and> heap_inv (score_smaller ((\<lambda>v. v mod 3)(4 := 9))) t"
  using heap_update_restores [OF demo_heap_inv, of 4 "(\<lambda>v. v mod 3)(4 := 9)"]
  by (auto simp: demo_heap_array)

subsection \<open>The VMTF queue\<close>

definition empty_queue :: Queue where
  "empty_queue = \<lparr>vq_links = (\<lambda>_. \<lparr>link_prev = 0, link_next = 0\<rparr>), vq_first = 0, vq_last = 0,
     vq_unassigned = 0, vq_bumped = 0, vq_btab = (\<lambda>_. 0), vq_stats_bumped = 0,
     vq_stats_searched = 0, vq_stats_shuffled = 0, vq_vals = (\<lambda>_. 0)\<rparr>"

definition demo_queue :: Queue where
  "demo_queue = init_queue False 0 3 empty_queue"

lemma demo_queue_inv: "vq_inv demo_queue [1, 2, 3]" "vq_synced demo_queue [1, 2, 3]"
proof -
  have "vq_inv empty_queue []" "vq_synced empty_queue []"
    by (simp_all add: empty_queue_def vq_inv_def vq_struct_def hd0_def last0_def vq_synced_def)
  then have "vq_inv demo_queue ([] @ [Suc 0..<Suc 3]) \<and> vq_synced demo_queue ([] @ [Suc 0..<Suc 3])"
    using init_queue_ok [of empty_queue "[]" 0 3 False] unfolding demo_queue_def by simp
  moreover have "[Suc 0..<Suc 3] = [1, 2, 3]" by (simp add: upt_rec)
  ultimately show "vq_inv demo_queue [1, 2, 3]" "vq_synced demo_queue [1, 2, 3]" by simp_all
qed

definition demo_scores :: "nat \<Rightarrow> rat" where
  "demo_scores v = of_nat (v mod 3)"

definition demo_decide :: "rat Decide" where
  "demo_decide = \<lparr>dc_queue = assign_var 3 1 demo_queue,
     dc_scores = the (push_all (score_smaller demo_scores) [1, 2, 3] heap_empty),
     dc_stab = demo_scores, dc_num_assigned = 1\<rparr>"

lemma demo_decide_inv: "dc_inv demo_decide [1, 2, 3]" "vq_vals (dc_queue demo_decide) = (\<lambda>_. 0)(3 := 1)"
proof -
  have "\<exists>t. push_all (score_smaller demo_scores) [1, 2, 3] heap_empty = Some t
      \<and> heap_inv (score_smaller demo_scores) t \<and> mset (heap_array t) = mset (heap_array heap_empty) + mset [1, 2, 3]"
    by (rule score.push_all_ok [OF heap_inv_empty]) (simp_all add: heap_empty_def invalid_heap_position_def)
  then obtain h where h: "push_all (score_smaller demo_scores) [1, 2, 3] heap_empty = Some h"
    "heap_inv (score_smaller demo_scores) h" "mset (heap_array h) = mset [1, 2, 3]"
    by (auto simp: heap_empty_def)
  have "vq_inv (assign_var 3 1 demo_queue) [1, 2, 3]"
    by (rule assign_var_ok [OF demo_queue_inv(1)]) simp
  then show "dc_inv demo_decide [1, 2, 3]"
    using h mset_eq_setD [OF h(3)] by (simp add: dc_inv_def demo_decide_def invalid_heap_position_def)
  have "vq_vals demo_queue = (\<lambda>_. 0)"
    by (simp add: demo_queue_def init_queue_def init_enqueue_def upt_rec empty_queue_def Let_def
        vq_set_next_def vq_set_prev_def update_queue_unassigned_def)
  then show "vq_vals (dc_queue demo_decide) = (\<lambda>_. 0)(3 := 1)"
    by (simp add: demo_decide_def assign_var_def)
qed

text \<open>
  C15: with an unassigned variable left, the search for the next decision ends with an unassigned
  variable: under scores none has a better score, under the queue none has a later time stamp.
  The queue and the heap stay in order for the next search.
\<close>

theorem decision_is_best:
  fixes d :: "('v :: linorder) Decide"
  assumes "dc_inv d xs" and "\<exists>y \<in> set xs. vq_vals (dc_queue d) y = 0"
  shows "\<exists>y t. next_decision_variable use_scores d = Some (y, t) \<and> dc_inv t xs
    \<and> y \<in> set xs \<and> vq_vals (dc_queue d) y = 0
    \<and> (\<forall>z \<in> set xs. vq_vals (dc_queue d) z = 0 \<longrightarrow>
         (if use_scores then \<not> score_smaller (dc_stab d) y z
          else vq_btab (dc_queue d) z \<le> vq_btab (dc_queue d) y))"
  using assms by (rule next_decision_variable_ok)

theorem decision_is_best_witness:
  "\<exists>y t. next_decision_variable True demo_decide = Some (y, t) \<and> y \<in> {1, 2}"
proof -
  have "\<exists>y \<in> set [1, 2, 3]. vq_vals (dc_queue demo_decide) y = 0" by (simp add: demo_decide_inv(2))
  from decision_is_best [OF demo_decide_inv(1) this, of True] show ?thesis
    by (auto simp: demo_decide_inv(2) split: if_splits)
qed

text \<open>
  C16: unassigning a literal ends; afterwards its variable has no value and is on the heap, and
  both the queue and the heap are in order, so that the next search can find it.
\<close>

theorem unassign_keeps_decisions:
  fixes d :: "('v :: linorder) Decide"
  assumes "dc_inv d xs" and "nat \<bar>lit\<bar> \<in> set xs"
  shows "\<exists>t. unassign lit d = Some t \<and> dc_inv t xs \<and> dc_num_assigned t = dc_num_assigned d - 1
    \<and> vq_vals (dc_queue t) = (vq_vals (dc_queue d))(nat \<bar>lit\<bar> := 0)"
  using assms by (rule unassign_ok)

theorem unassign_keeps_decisions_witness:
  "\<exists>t. unassign (- 3) demo_decide = Some t \<and> dc_inv t [1, 2, 3] \<and> vq_vals (dc_queue t) 3 = 0"
  using unassign_keeps_decisions [OF demo_decide_inv(1), of "- 3"] by auto

text \<open>
  C21: bumping a variable moves it to the end of the queue, and new variables are put at the end,
  or at the front in reverse mode; both keep the list linked, the time stamps increasing and the
  rule that every variable stamped after the search position is assigned.
\<close>

theorem vmtf_bump_and_grow:
  assumes "vq_inv q xs"
  shows "(idx \<in> set xs \<longrightarrow> vq_inv (bump_queue idx q) (remove1 idx xs @ [idx]))
    \<and> (vq_synced q xs \<and> (\<forall>x \<in> set xs. x \<le> old) \<and> old \<le> new \<longrightarrow>
         vq_inv (init_queue r old new q) (if r then rev [Suc old..<Suc new] @ xs else xs @ [Suc old..<Suc new]))"
  using bump_queue_ok [OF assms] init_queue_ok [OF assms] by blast

theorem vmtf_bump_and_grow_witness:
  "vq_inv (bump_queue 2 demo_queue) [1, 3, 2] \<and> vq_inv (init_queue True 3 4 demo_queue) [4, 1, 2, 3]"
proof -
  have "rev [Suc 3..<Suc 4] @ [1, 2, 3] = [4, 1, 2, 3 :: nat]" by (simp add: upt_rec)
  then show ?thesis
    using vmtf_bump_and_grow [OF demo_queue_inv(1), of 2 3 4 True] demo_queue_inv(2)
    by (simp del: upt_Suc)
qed

text \<open>
  C17: shuffling the queue ends and yields a queue of the same variables with fresh, increasing
  time stamps; without the random option their order is exactly reversed.
\<close>

theorem vmtf_shuffle:
  assumes "vq_inv q xs" and "set xs = {1..max_var}" and "0 < max_var" and "max_var < 2 ^ 31"
    and "vq_bumped q \<le> vq_stats_bumped q"
  shows "\<exists>t order. shuffle_queue opts max_var q = Some t \<and> vq_inv t order \<and> mset order = mset xs
    \<and> (opts_shuffle opts \<and> opts_shufflequeue opts \<and> \<not> opts_shufflerandom opts \<longrightarrow> order = rev xs)"
  using assms by (rule shuffle_queue_ok)

theorem vmtf_shuffle_witness:
  "\<exists>t order. shuffle_queue \<lparr>opts_shuffle = True, opts_shufflequeue = True, opts_shufflescores = False,
       opts_shufflerandom = True, opts_seed = 42\<rparr> 3 demo_queue = Some t \<and> vq_inv t order
     \<and> mset order = {#1, 2, 3#}"
proof -
  have "vq_bumped demo_queue \<le> vq_stats_bumped demo_queue"
    using demo_queue_inv by (auto simp: vq_inv_def vq_synced_def)
  moreover have "set [1, 2, 3] = {1..3 :: nat}" by auto
  ultimately show ?thesis
    using vmtf_shuffle [OF demo_queue_inv(1), of 3 "\<lparr>opts_shuffle = True, opts_shufflequeue = True,
      opts_shufflescores = False, opts_shufflerandom = True, opts_seed = 42\<rparr>"] by auto
qed

subsection \<open>Shuffled scores\<close>

text \<open>
  Shuffling the scores ends with a heap of the same variables whose scores are their
  positions in the shuffled order, so that the last one is picked first.
\<close>

theorem scores_shuffle:
  fixes s :: "('v :: linordered_semidom) Scores"
  assumes "heap_inv (score_smaller (sc_stab s)) (sc_heap s)" and "max_var < 2 ^ 31"
    and "opts_shuffle opts" and "opts_shufflescores opts"
    and "opts_shufflerandom opts \<Longrightarrow> set (heap_array (sc_heap s)) = {1..max_var}"
  shows "\<exists>t order. shuffle_scores opts max_var s = Some t
    \<and> mset order = mset (heap_array (sc_heap s)) \<and> mset (heap_array (sc_heap t)) = mset order
    \<and> heap_inv (score_smaller (sc_stab t)) (sc_heap t)
    \<and> (\<forall>i < length order. sc_stab t (order ! i) = of_nat i) \<and> sc_score_inc t = of_nat (length order)"
  using assms by (rule shuffle_scores_ok)

theorem scores_shuffle_witness:
  "\<exists>t. shuffle_scores \<lparr>opts_shuffle = True, opts_shufflequeue = False, opts_shufflescores = True,
       opts_shufflerandom = False, opts_seed = 0\<rparr> 4
     \<lparr>sc_heap = demo_heap, sc_stab = \<lambda>v. v mod 3, sc_score_inc = 7, sc_stats_shuffled = 0\<rparr> = Some t
   \<and> sc_score_inc t = (4 :: nat)"
proof -
  let ?o = "\<lparr>opts_shuffle = True, opts_shufflequeue = False, opts_shufflescores = True,
    opts_shufflerandom = False, opts_seed = 0\<rparr>"
  let ?s = "\<lparr>sc_heap = demo_heap, sc_stab = \<lambda>v. v mod 3, sc_score_inc = 7 :: nat, sc_stats_shuffled = 0\<rparr>"
  have "\<exists>t order. shuffle_scores ?o 4 ?s = Some t
      \<and> mset order = mset (heap_array (sc_heap ?s)) \<and> mset (heap_array (sc_heap t)) = mset order
      \<and> heap_inv (score_smaller (sc_stab t)) (sc_heap t)
      \<and> (\<forall>i < length order. sc_stab t (order ! i) = of_nat i) \<and> sc_score_inc t = of_nat (length order)"
    by (rule scores_shuffle) (simp_all add: demo_heap_inv)
  then obtain t order where t: "shuffle_scores ?o 4 ?s = Some t" "sc_score_inc t = length order"
    "mset order = mset (heap_array demo_heap)" by auto
  have "length order = 4" using mset_eq_length [OF t(3)] by (simp add: demo_heap_array)
  then show ?thesis using t(1,2) by auto
qed

subsection \<open>Radix sort and random choices\<close>

text \<open>
  C19: radix sort computes the stable sort by rank, whatever the uninitialised bucket array on
  the stack held before.
\<close>

theorem radix_sort_stable:
  assumes "length stack = 256"
  shows "rsort rank dflt stack xs = sort_key rank xs"
  using assms by (rule rsort_ok)

theorem radix_sort_stable_witness:
  "rsort (\<lambda>x. x) 0 (replicate 256 7) [300, 5, 70000, 5, 2] = [2, 5, 5, 300, 70000 :: 64 word]"
  by (subst radix_sort_stable) simp_all

text \<open>
  C20: \<open>pick_int\<close> and \<open>pick_log\<close> return a number of the requested range of C integers, rounding
  of the double product included.
\<close>

theorem random_pick_in_range:
  assumes "l \<le> r" and "- (2 ^ 31) \<le> l" and "r < 2 ^ 31"
  shows "l \<le> fst (pick_int l r state) \<and> fst (pick_int l r state) \<le> r
    \<and> l \<le> fst (pick_log l r state) \<and> fst (pick_log l r state) \<le> r"
  using pick_int_range [OF assms] pick_log_range [OF assms] by blast

theorem random_pick_in_range_witness:
  "fst (pick_int (- 5) 5 42) \<in> {- 5..5} \<and> fst (pick_log 1 1000 42) \<in> {1..1000}"
  using random_pick_in_range [of "- 5" 5 42] random_pick_in_range [of 1 1000 42] by simp

end
