(* ===== verification/Proof_File.thy ===== *)
theory Proof_File
  imports Prelude
begin

text \<open>
  The output side of \<^verbatim>\<open>file.hpp\<close>, as far as proof tracers use it: single characters, strings,
  decimal numbers, and the variable-length binary code of literals and identifiers that the
  tracers share.  A file is its open flag, its byte counter, what was written and how much of it
  has left the stream's buffer for certain; writing to the underlying stream is taken to succeed.  The second half is the reader: decoders for decimal and
  binary numbers and for zero-terminated sequences of them, which recover what was written.
\<close>

subsection \<open>The code\<close>

record File =
  fl_open :: bool
  fl_bytes :: "64 word"
  fl_out :: string
  fl_flushed :: nat
  fl_close_file :: nat

definition file_closed :: "File \<Rightarrow> bool" where
  "file_closed f \<longleftrightarrow> \<not> fl_open f"

text \<open>A file that was only connected (\<^verbatim>\<open>close_file == 0\<close>, such as \<^verbatim>\<open>stdout\<close>) is not closed by \<^verbatim>\<open>fclose\<close>.\<close>

definition file_close :: "File \<Rightarrow> File" where
  "file_close f =
     f\<lparr>fl_open := False, fl_flushed := (if fl_close_file f = 0 then fl_flushed f else length (fl_out f))\<rparr>"

definition file_flush :: "File \<Rightarrow> File" where
  "file_flush f = f\<lparr>fl_flushed := length (fl_out f)\<rparr>"

definition put_char :: "char \<Rightarrow> File \<Rightarrow> File" where
  "put_char ch f = f\<lparr>fl_out := fl_out f @ [ch], fl_bytes := fl_bytes f + 1\<rparr>"

definition put_string :: "string \<Rightarrow> File \<Rightarrow> File" where
  "put_string s f = fold put_char s f"

text \<open>The loop that fills the buffer from the end; \<open>buffer\<close> is its used suffix.\<close>

fun fill_digits :: "nat \<Rightarrow> string \<Rightarrow> string" where
  "fill_digits idx buffer =
     (if idx = 0 then buffer else fill_digits (idx div 10) (char_of (48 + idx mod 10) # buffer))"

declare fill_digits.simps [simp del]

definition put_int :: "int \<Rightarrow> File \<Rightarrow> File" where
  "put_int lit f =
     (if lit = 0 then put_char (CHR ''0'') f
      else if lit = - 2147483648 then put_string ''-2147483648'' f
      else
        (let buffer = fill_digits (nat \<bar>lit\<bar>) [];
             f = (if lit < 0 then put_char (CHR ''-'') f else f)
         in put_string buffer f))"

definition put_int64 :: "int \<Rightarrow> File \<Rightarrow> File" where
  "put_int64 l f =
     (if l = 0 then put_char (CHR ''0'') f
      else if l = - 9223372036854775808 then put_string ''-9223372036854775808'' f
      else
        (let buffer = fill_digits (nat \<bar>l\<bar>) [];
             f = (if l < 0 then put_char (CHR ''-'') f else f)
         in put_string buffer f))"

definition put_uint64 :: "64 word \<Rightarrow> File \<Rightarrow> File" where
  "put_uint64 l f =
     (if l = 0 then put_char (CHR ''0'') f else put_string (fill_digits (unat l) []) f)"

text \<open>The loop \<^verbatim>\<open>while (x & ~0x7f)\<close> of every \<^verbatim>\<open>put_binary_lit\<close> and \<^verbatim>\<open>put_binary_id\<close>.\<close>

lemma unat_drop_bit7: "unat (drop_bit 7 (x :: 64 word)) = unat x div 128"
  by (simp only: unsigned_drop_bit_eq take_bit_nat_eq_self [OF unsigned_less]) (simp add: drop_bit_eq_div)

lemma high_bits_zero: "(x :: 64 word) AND NOT 127 = 0 \<longleftrightarrow> unat x < 128"
proof -
  have m: "(127 :: 64 word) = mask 7" by (simp add: mask_eq_exp_minus_1)
  have len: "bit x n \<Longrightarrow> n < 64" for n using bit_imp_le_length [of x n] by simp
  have "x AND NOT (mask 7) = 0 \<longleftrightarrow> (\<forall>n. \<not> (bit x n \<and> 7 \<le> n))"
    unfolding bit_eq_iff [of _ 0] bit_and_iff bit_not_iff bit_mask_iff bit_0_eq
    by auto (metis len leD)
  also have "\<dots> \<longleftrightarrow> (\<forall>n. \<not> bit x (7 + n))" by (metis le_Suc_ex le_add1)
  also have "\<dots> \<longleftrightarrow> drop_bit 7 x = 0" 
    by (simp add: bit_eq_iff [of _ 0] bit_drop_bit_eq) (metis len add_lessD1 add.commute)
  also have "\<dots> \<longleftrightarrow> unat x div 128 = 0" by (metis unat_drop_bit7 unat_eq_zero)
  finally show ?thesis unfolding m by (simp add: div_eq_0_iff)
qed

lemma drop_bit7_less: "(x :: 64 word) AND NOT 127 \<noteq> 0 \<Longrightarrow> unat (drop_bit 7 x) < unat x"
  unfolding high_bits_zero unat_drop_bit7 by simp

function put_leb128 :: "64 word \<Rightarrow> File \<Rightarrow> File" where
  "put_leb128 x f =
     (if x AND NOT 127 \<noteq> 0
      then put_leb128 (drop_bit 7 x) (put_char (char_of (unat ((x AND 127) OR 128))) f)
      else put_char (char_of (unat x)) f)"
  by pat_completeness auto
termination
  by (relation "measure (\<lambda>(x, f). unat x)") (use drop_bit7_less in auto)

declare put_leb128.simps [simp del]

definition put_binary_zero :: "File \<Rightarrow> File" where
  "put_binary_zero f = put_char (char_of (0 :: nat)) f"

definition put_binary_lit :: "int \<Rightarrow> File \<Rightarrow> File" where
  "put_binary_lit lit f =
     (let idx = word_of_int \<bar>lit\<bar> :: 32 word;
          x = 2 * idx + (if lit < 0 then 1 else 0)
      in put_leb128 (ucast x) f)"

subsection \<open>What is written\<close>

named_theorems put_simps \<open>every output operation as one appended string\<close>

text \<open>Decimal numbers and the binary code, as strings.\<close>

definition show_nat :: "nat \<Rightarrow> string" where
  "show_nat n = (if n = 0 then ''0'' else fill_digits n [])"

definition show_int :: "int \<Rightarrow> string" where
  "show_int l = (if l < 0 then ''-'' else []) @ show_nat (nat \<bar>l\<bar>)"

fun leb128 :: "nat \<Rightarrow> string" where
  "leb128 n = (if n \<ge> 128 then char_of (n mod 128 + 128) # leb128 (n div 128) else [char_of n])"

declare leb128.simps [simp del]

lemma put_string_Nil [simp]: "put_string [] f = f"
  by (simp add: put_string_def)

lemma put_string_append [put_simps]: "put_string t (put_string s f) = put_string (s @ t) f"
  by (simp add: put_string_def)

lemma put_char_string [put_simps]: "put_char c f = put_string [c] f"
  by (simp add: put_string_def)

lemma put_string_out [simp]:
  "fl_out (put_string s f) = fl_out f @ s" "fl_open (put_string s f) = fl_open f"
  "fl_bytes (put_string s f) = fl_bytes f + of_nat (length s)"
  "fl_flushed (put_string s f) = fl_flushed f" "fl_close_file (put_string s f) = fl_close_file f"
  by (induction s arbitrary: f) (simp_all add: put_string_def put_char_def)

lemma file_flush_simps [simp]:
  "fl_open (file_flush f) = fl_open f" "fl_out (file_flush f) = fl_out f" "fl_bytes (file_flush f) = fl_bytes f"
  by (simp_all add: file_flush_def)

lemma put_string_eq: "put_string s f = f\<lparr>fl_out := fl_out f @ s, fl_bytes := fl_bytes f + of_nat (length s)\<rparr>"
  by (cases f) (simp add: File.equality)

lemma fold_put_string:
  assumes "\<And>x f. g x f = put_string (h x) f"
  shows "fold g xs f = put_string (concat (map h xs)) f"
  by (induction xs arbitrary: f) (simp_all add: assms put_string_append)

lemma int_min_shown: "show_int (- 2147483648) = ''-2147483648''" "show_int (- 9223372036854775808) = ''-9223372036854775808''"
  by (simp_all add: show_int_def show_nat_def fill_digits.simps char_of_def bit_Suc_0_iff)

lemma put_int_string [put_simps]: "put_int l f = put_string (show_int l) f"
  using int_min_shown(1) by (simp add: put_int_def show_int_def show_nat_def put_simps Let_def)

lemma put_int64_string [put_simps]: "put_int64 l f = put_string (show_int l) f"
  using int_min_shown(2) by (simp add: put_int64_def show_int_def show_nat_def put_simps Let_def)

lemma put_uint64_string [put_simps]: "put_uint64 l f = put_string (show_nat (unat l)) f"
  by (simp add: put_uint64_def show_nat_def put_simps unat_eq_zero)

lemma and_or_byte: "(n AND 127) OR 128 = n mod 128 + (128 :: nat)"
proof -
  have "n AND 127 = take_bit 7 n" by (simp add: take_bit_eq_mask mask_eq_exp_minus_1)
  then have m: "n AND 127 = n mod 128" by (simp add: take_bit_eq_mod)
  have "\<not> bit (n mod 128) 7" by (simp add: bit_iff_odd)
  then have "set_bit 7 (n mod 128) = n mod 128 + 128" by (simp add: set_bit_eq)
  then show ?thesis unfolding m set_bit_eq_or by (simp add: push_bit_eq_mult)
qed

lemma unat_leb_byte: "unat ((x AND 127) OR 128 :: 64 word) = unat x mod 128 + 128"
  unfolding unsigned_or_eq unsigned_and_eq using and_or_byte [of "unat x"] by simp

lemma put_leb128_string [put_simps]: "put_leb128 x f = put_string (leb128 (unat x)) f"
proof (induction x f rule: put_leb128.induct)
  case (1 x f)
  show ?case
  proof (cases "unat x < 128")
    case True
    then show ?thesis
      by (subst put_leb128.simps, subst leb128.simps) (simp only: high_bits_zero put_char_string, simp)
  next
    case False
    then have "x AND NOT 127 \<noteq> 0" unfolding high_bits_zero .
    with 1 [OF this] False show ?thesis
      by (subst put_leb128.simps, subst leb128.simps)
        (simp only: unat_leb_byte unat_drop_bit7 put_char_string put_string_append, simp)
  qed
qed

lemma put_binary_zero_string [put_simps]: "put_binary_zero f = put_string [char_of (0 :: nat)] f"
  by (simp add: put_binary_zero_def put_char_string)

definition lit_code :: "int \<Rightarrow> nat" where
  "lit_code lit = 2 * nat \<bar>lit\<bar> + (if lit < 0 then 1 else 0)"

lemma put_binary_lit_string:
  assumes "\<bar>lit\<bar> \<le> 2147483647"
  shows "put_binary_lit lit f = put_string (leb128 (lit_code lit)) f"
proof -
  let ?x = "2 * word_of_int \<bar>lit\<bar> + (if lit < 0 then 1 else 0) :: 32 word"
  have x: "?x = word_of_nat (lit_code lit)" by (simp add: lit_code_def)
  have "nat \<bar>lit\<bar> \<le> 2147483647" using assms by simp
  then have b: "lit_code lit < 2 ^ 32" unfolding lit_code_def by (cases "lit < 0") (simp_all only: if_True if_False, simp_all)
  then have u: "unat (word_of_nat (lit_code lit) :: 32 word) = lit_code lit" unfolding unat_of_nat by simp
  have "unat (ucast ?x :: 64 word) = lit_code lit"
    unfolding x unsigned_ucast_eq u by (rule take_bit_nat_eq_self) (use b in simp)
  then show ?thesis by (simp add: put_binary_lit_def put_leb128_string Let_def)
qed

subsection \<open>Reading numbers back\<close>

definition is_digit :: "char \<Rightarrow> bool" where
  "is_digit c \<longleftrightarrow> 48 \<le> (of_char c :: nat) \<and> (of_char c :: nat) \<le> 57"

fun read_digits :: "nat \<Rightarrow> string \<Rightarrow> nat \<times> string" where
  "read_digits n [] = (n, [])"
| "read_digits n (c # cs) =
     (if is_digit c then read_digits (10 * n + (of_char c - 48)) cs else (n, c # cs))"

text \<open>A decimal number ends with one separating character.\<close>

definition read_nat :: "string \<Rightarrow> (nat \<times> string) option" where
  "read_nat s =
     (case s of
        [] \<Rightarrow> None
      | c # _ \<Rightarrow>
          if is_digit c
          then (case read_digits 0 s of (n, []) \<Rightarrow> None | (n, _ # rest) \<Rightarrow> Some (n, rest))
          else None)"

definition read_int :: "string \<Rightarrow> (int \<times> string) option" where
  "read_int s =
     (case s of
        [] \<Rightarrow> None
      | c # cs \<Rightarrow>
          if c = CHR ''-'' then map_option (\<lambda>(n, rest). (- int n, rest)) (read_nat cs)
          else map_option (\<lambda>(n, rest). (int n, rest)) (read_nat s))"

fun read_leb128 :: "string \<Rightarrow> (nat \<times> string) option" where
  "read_leb128 [] = None"
| "read_leb128 (c # cs) =
     (if (of_char c :: nat) < 128 then Some (of_char c, cs)
      else map_option (\<lambda>(n, rest). (of_char c - 128 + 128 * n, rest)) (read_leb128 cs))"

definition decode_lit :: "nat \<Rightarrow> int" where
  "decode_lit x = (if odd x then - int (x div 2) else int (x div 2))"

lemma decode_lit_code: "lit \<noteq> 0 \<Longrightarrow> decode_lit (lit_code lit) = lit"
  by (auto simp: decode_lit_def lit_code_def)

lemma read_leb128_code: "read_leb128 (leb128 n @ rest) = Some (n, rest)"
proof (induction n rule: leb128.induct)
  case (1 n)
  show ?case
  proof (cases "n \<ge> 128")
    case True
    have "(of_char (char_of (n mod 128 + 128) :: char) :: nat) = n mod 128 + 128"
      using mod_less_divisor [of 128 n] by (simp add: of_char_of)
    then show ?thesis using True 1 [OF True] by (subst leb128.simps) simp
  next
    case False
    then show ?thesis by (subst leb128.simps) (simp add: of_char_of)
  qed
qed

text \<open>The digits written for \<open>n > 0\<close>, most significant first, and what they stand for.\<close>

lemma fill_digits_append: "fill_digits n (s @ t) = fill_digits n s @ t"
proof (induction n s rule: fill_digits.induct)
  case (1 n s)
  then show ?case by (subst (1 2) fill_digits.simps) auto
qed

lemma read_digits_append:
  "\<forall>c \<in> set s. is_digit c \<Longrightarrow> read_digits k (s @ t) = read_digits (fst (read_digits k s)) t"
  by (induction s arbitrary: k) auto

lemma read_fill_digits:
  "(\<forall>c \<in> set (fill_digits n []). is_digit c) \<and> read_digits 0 (fill_digits n []) = (n, [])
    \<and> (0 < n \<longrightarrow> fill_digits n [] \<noteq> [])"
proof (induction n rule: less_induct)
  case (less n)
  show ?case
  proof (cases "n = 0")
    case True
    then show ?thesis by (simp add: fill_digits.simps)
  next
    case False
    let ?d = "char_of (48 + n mod 10) :: char"
    have eq: "fill_digits n [] = fill_digits (n div 10) [] @ [?d]"
      using False fill_digits_append [of "n div 10" "[]" "[?d]"] by (subst fill_digits.simps) simp
    have "n mod 10 < 10" by simp
    then have d: "(of_char ?d :: nat) = 48 + n mod 10" "is_digit ?d"
      by (simp_all add: of_char_of is_digit_def)
    have "n div 10 < n" using False by simp
    note IH = less.IH [OF this]
    have "read_digits 0 (fill_digits n []) = (10 * (n div 10) + n mod 10, [])"
      using IH d by (simp add: eq read_digits_append)
    then show ?thesis using IH d(2) by (simp add: eq)
  qed
qed

lemma show_nat_digits:
  "\<forall>c \<in> set (show_nat n). is_digit c" "read_digits 0 (show_nat n) = (n, [])" "show_nat n \<noteq> []"
  using read_fill_digits [of n] by (auto simp: show_nat_def is_digit_def)

lemma read_show_nat: "\<not> is_digit c \<Longrightarrow> read_nat (show_nat n @ c # rest) = Some (n, rest)"
  using show_nat_digits [of n] read_digits_append [of "show_nat n" 0 "c # rest"]
  by (cases "show_nat n") (auto simp: read_nat_def)

lemma read_show_int: "\<not> is_digit c \<Longrightarrow> read_int (show_int l @ c # rest) = Some (l, rest)"
proof -
  assume c: "\<not> is_digit c"
  obtain d ds where d: "show_nat (nat \<bar>l\<bar>) = d # ds" "is_digit d"
    using show_nat_digits [of "nat \<bar>l\<bar>"] by (cases "show_nat (nat \<bar>l\<bar>)") auto
  have "d \<noteq> CHR ''-''" using d(2) by (auto simp: is_digit_def)
  then show ?thesis
    using read_show_nat [OF c, of "nat \<bar>l\<bar>" rest] d(1) by (simp add: read_int_def show_int_def)
qed

end
