(* ===== verification/Clause_Tracers.thy ===== *)
theory Clause_Tracers
  imports Proof_File
begin

text \<open>
  The tracers that write a proof as one step per clause: DRAT (\<^verbatim>\<open>drattracer.cpp\<close>), LRAT
  (\<^verbatim>\<open>lrattracer.cpp\<close>) and FRAT (\<^verbatim>\<open>frattracer.cpp\<close>), each in a text and a binary format.  The
  formats are given by decoders; what a tracer wrote decodes to the steps it was told.
\<close>

subsection \<open>The DRAT tracer\<close>

abbreviation newline :: char where "newline \<equiv> CHR 0x0A"

record DratTracer =
  dt_file :: File
  dt_binary :: bool
  dt_added :: int
  dt_deleted :: int

definition drat_init :: "File \<Rightarrow> bool \<Rightarrow> DratTracer" where
  "drat_init f b = \<lparr>dt_file = f, dt_binary = b, dt_added = 0, dt_deleted = 0\<rparr>"

definition put_lits :: "bool \<Rightarrow> int list \<Rightarrow> File \<Rightarrow> File" where
  "put_lits binary clause f =
     fold (\<lambda>lit f. if binary then put_binary_lit lit f else put_char (CHR '' '') (put_int lit f)) clause f"

definition put_end :: "bool \<Rightarrow> File \<Rightarrow> File" where
  "put_end binary f = (if binary then put_binary_zero f else put_string (''0'' @ [newline]) f)"

definition drat_add_clause :: "int list \<Rightarrow> DratTracer \<Rightarrow> DratTracer" where
  "drat_add_clause clause t =
     (let f = dt_file t;
          f = (if dt_binary t then put_char (CHR ''a'') f else f);
          f = put_lits (dt_binary t) clause f;
          f = put_end (dt_binary t) f
      in t\<lparr>dt_file := f\<rparr>)"

definition drat_delete_clause :: "int list \<Rightarrow> DratTracer \<Rightarrow> DratTracer" where
  "drat_delete_clause clause t =
     (let f = dt_file t;
          f = (if dt_binary t then put_char (CHR ''d'') f else put_string ''d '' f);
          f = put_lits (dt_binary t) clause f;
          f = put_end (dt_binary t) f
      in t\<lparr>dt_file := f\<rparr>)"

definition drat_add_derived_clause :: "int list \<Rightarrow> DratTracer \<Rightarrow> DratTracer" where
  "drat_add_derived_clause clause t =
     (if file_closed (dt_file t) then t
      else (let t = drat_add_clause clause t in t\<lparr>dt_added := dt_added t + 1\<rparr>))"

definition drat_trace_delete_clause :: "int list \<Rightarrow> DratTracer \<Rightarrow> DratTracer" where
  "drat_trace_delete_clause clause t =
     (if file_closed (dt_file t) then t
      else (let t = drat_delete_clause clause t in t\<lparr>dt_deleted := dt_deleted t + 1\<rparr>))"

definition drat_close :: "DratTracer \<Rightarrow> DratTracer" where
  "drat_close t = t\<lparr>dt_file := file_close (dt_file t)\<rparr>"

definition drat_flush :: "DratTracer \<Rightarrow> DratTracer" where
  "drat_flush t = t\<lparr>dt_file := file_flush (dt_file t)\<rparr>"

subsection \<open>The LRAT tracer\<close>

record LratTracer =
  lt_file :: File
  lt_binary :: bool
  lt_added :: int
  lt_deleted :: int
  lt_latest_id :: "64 word"
  lt_delete_ids :: "64 word list"

definition lrat_init :: "File \<Rightarrow> bool \<Rightarrow> LratTracer" where
  "lrat_init f b =
     \<lparr>lt_file = f, lt_binary = b, lt_added = 0, lt_deleted = 0, lt_latest_id = 0, lt_delete_ids = []\<rparr>"

text \<open>\<^verbatim>\<open>put_binary_id (int64_t id)\<close>: the argument is the identifier read as a signed number.\<close>

definition lrat_put_binary_id :: "64 word \<Rightarrow> File \<Rightarrow> File" where
  "lrat_put_binary_id i f =
     (let u = (if sint i < 0 then - i else i);
          x = 2 * u + (if sint i < 0 then 1 else 0)
      in put_leb128 x f)"

definition lrat_put_ids :: "bool \<Rightarrow> 64 word list \<Rightarrow> File \<Rightarrow> File" where
  "lrat_put_ids binary ids f =
     fold (\<lambda>i f. if binary then lrat_put_binary_id i f else put_char (CHR '' '') (put_uint64 i f)) ids f"

definition lrat_flush_deletes :: "LratTracer \<Rightarrow> LratTracer" where
  "lrat_flush_deletes t =
     (if lt_delete_ids t \<noteq> [] then
        (let f = lt_file t;
             f = (if \<not> lt_binary t then put_string '' '' (put_uint64 (lt_latest_id t) f) else f);
             f = (if lt_binary t then put_char (CHR ''d'') f else put_string ''d '' f);
             f = lrat_put_ids (lt_binary t) (lt_delete_ids t) f;
             f = put_end (lt_binary t) f
         in t\<lparr>lt_file := f, lt_delete_ids := []\<rparr>)
      else t)"

definition lrat_add_clause :: "64 word \<Rightarrow> int list \<Rightarrow> 64 word list \<Rightarrow> LratTracer \<Rightarrow> LratTracer" where
  "lrat_add_clause i clause chain t =
     (let t = lrat_flush_deletes t;
          t = t\<lparr>lt_latest_id := i\<rparr>;
          f = lt_file t;
          f = (if lt_binary t then lrat_put_binary_id i (put_char (CHR ''a'') f)
               else put_string '' '' (put_uint64 i f));
          f = put_lits (lt_binary t) clause f;
          f = (if lt_binary t then put_binary_zero f else put_string ''0 '' f);
          f = lrat_put_ids (lt_binary t) chain f;
          f = put_end (lt_binary t) f
      in t\<lparr>lt_file := f\<rparr>)"

definition lrat_delete_clause :: "64 word \<Rightarrow> LratTracer \<Rightarrow> LratTracer" where
  "lrat_delete_clause i t = t\<lparr>lt_delete_ids := lt_delete_ids t @ [i]\<rparr>"

definition lrat_add_derived_clause :: "64 word \<Rightarrow> int list \<Rightarrow> 64 word list \<Rightarrow> LratTracer \<Rightarrow> LratTracer" where
  "lrat_add_derived_clause i clause chain t =
     (if file_closed (lt_file t) then t
      else (let t = lrat_add_clause i clause chain t in t\<lparr>lt_added := lt_added t + 1\<rparr>))"

definition lrat_trace_delete_clause :: "64 word \<Rightarrow> LratTracer \<Rightarrow> LratTracer" where
  "lrat_trace_delete_clause i t =
     (if file_closed (lt_file t) then t
      else (let t = lrat_delete_clause i t in t\<lparr>lt_deleted := lt_deleted t + 1\<rparr>))"

definition lrat_begin_proof :: "64 word \<Rightarrow> LratTracer \<Rightarrow> LratTracer" where
  "lrat_begin_proof i t = (if file_closed (lt_file t) then t else t\<lparr>lt_latest_id := i\<rparr>)"

definition lrat_close :: "LratTracer \<Rightarrow> LratTracer" where
  "lrat_close t = t\<lparr>lt_file := file_close (lt_file t)\<rparr>"

definition lrat_flush :: "LratTracer \<Rightarrow> LratTracer" where
  "lrat_flush t = t\<lparr>lt_file := file_flush (lt_file t)\<rparr>"

subsection \<open>The FRAT tracer\<close>

record FratTracer =
  ft_file :: File
  ft_binary :: bool
  ft_with_antecedents :: bool
  ft_added :: int
  ft_deleted :: int
  ft_finalized :: int
  ft_original :: int

definition frat_init :: "File \<Rightarrow> bool \<Rightarrow> bool \<Rightarrow> FratTracer" where
  "frat_init f b a =
     \<lparr>ft_file = f, ft_binary = b, ft_with_antecedents = a, ft_added = 0, ft_deleted = 0,
      ft_finalized = 0, ft_original = 0\<rparr>"

definition frat_put_binary_id :: "64 word \<Rightarrow> File \<Rightarrow> File" where
  "frat_put_binary_id i f = put_leb128 i f"

text \<open>The common beginning of every step: the letter, the identifier and the literals.\<close>

definition frat_put_head :: "char \<Rightarrow> 64 word \<Rightarrow> int list \<Rightarrow> FratTracer \<Rightarrow> File" where
  "frat_put_head ch i clause t =
     (let f = ft_file t;
          f = (if ft_binary t then put_char ch f else put_string [ch, CHR '' ''] f);
          f = (if ft_binary t then frat_put_binary_id i f else put_string ''  '' (put_uint64 i f))
      in put_lits (ft_binary t) clause f)"

definition frat_add_original :: "64 word \<Rightarrow> int list \<Rightarrow> FratTracer \<Rightarrow> FratTracer" where
  "frat_add_original i clause t =
     t\<lparr>ft_file := put_end (ft_binary t) (frat_put_head (CHR ''o'') i clause t)\<rparr>"

definition frat_add_derived :: "64 word \<Rightarrow> int list \<Rightarrow> FratTracer \<Rightarrow> FratTracer" where
  "frat_add_derived i clause t =
     t\<lparr>ft_file := put_end (ft_binary t) (frat_put_head (CHR ''a'') i clause t)\<rparr>"

definition frat_add_derived_chain :: "64 word \<Rightarrow> int list \<Rightarrow> 64 word list \<Rightarrow> FratTracer \<Rightarrow> FratTracer" where
  "frat_add_derived_chain i clause chain t =
     (let f = frat_put_head (CHR ''a'') i clause t;
          f = (if ft_binary t then put_char (CHR ''l'') (put_binary_zero f) else put_string ''0  l '' f);
          f = fold (\<lambda>c f. if ft_binary t then frat_put_binary_id (2 * c) f
                          else put_char (CHR '' '') (put_uint64 c f)) chain f
      in t\<lparr>ft_file := put_end (ft_binary t) f\<rparr>)"

definition frat_delete :: "64 word \<Rightarrow> int list \<Rightarrow> FratTracer \<Rightarrow> FratTracer" where
  "frat_delete i clause t =
     t\<lparr>ft_file := put_end (ft_binary t) (frat_put_head (CHR ''d'') i clause t)\<rparr>"

definition frat_finalize :: "64 word \<Rightarrow> int list \<Rightarrow> FratTracer \<Rightarrow> FratTracer" where
  "frat_finalize i clause t =
     t\<lparr>ft_file := put_end (ft_binary t) (frat_put_head (CHR ''f'') i clause t)\<rparr>"

definition frat_add_original_clause :: "64 word \<Rightarrow> int list \<Rightarrow> FratTracer \<Rightarrow> FratTracer" where
  "frat_add_original_clause i clause t =
     (if file_closed (ft_file t) then t else frat_add_original i clause t)"

definition frat_add_derived_clause :: "64 word \<Rightarrow> int list \<Rightarrow> 64 word list \<Rightarrow> FratTracer \<Rightarrow> FratTracer" where
  "frat_add_derived_clause i clause chain t =
     (if file_closed (ft_file t) then t
      else
        (let t = (if ft_with_antecedents t then frat_add_derived_chain i clause chain t
                  else frat_add_derived i clause t)
         in t\<lparr>ft_added := ft_added t + 1\<rparr>))"

definition frat_delete_clause :: "64 word \<Rightarrow> int list \<Rightarrow> FratTracer \<Rightarrow> FratTracer" where
  "frat_delete_clause i clause t =
     (if file_closed (ft_file t) then t
      else (let t = frat_delete i clause t in t\<lparr>ft_deleted := ft_deleted t + 1\<rparr>))"

definition frat_finalize_clause :: "64 word \<Rightarrow> int list \<Rightarrow> FratTracer \<Rightarrow> FratTracer" where
  "frat_finalize_clause i clause t =
     (if file_closed (ft_file t) then t else frat_finalize i clause t)"

definition frat_close :: "FratTracer \<Rightarrow> FratTracer" where
  "frat_close t = t\<lparr>ft_file := file_close (ft_file t)\<rparr>"

definition frat_flush :: "FratTracer \<Rightarrow> FratTracer" where
  "frat_flush t = t\<lparr>ft_file := file_flush (ft_file t)\<rparr>"

end
