(* ===== verification/Tracer_Codes.thy ===== *)
theory Tracer_Codes
  imports Clause_Tracers Proof_Check
begin

text \<open>
  Decoders for the DRAT, LRAT and FRAT formats and the proof that they read back what the tracers
  write.  \<open>number_code\<close> is the interface of a code for zero-terminated sequences of numbers,
  interpreted for the decimal and the binary codes; \<open>step_code\<close> that of a code for single proof
  steps, interpreted for every format.
\<close>

subsection \<open>Sequences of numbers\<close>

text \<open>Numbers up to a zero; the first argument bounds their count.\<close>

fun read_seq :: "(string \<Rightarrow> (int \<times> string) option) \<Rightarrow> nat \<Rightarrow> string \<Rightarrow> (int list \<times> string) option" where
  "read_seq rd 0 s = None"
| "read_seq rd (Suc n) s =
     (case rd s of
        None \<Rightarrow> None
      | Some (x, r) \<Rightarrow>
          if x = 0 then Some ([], r)
          else map_option (\<lambda>(xs, r). (x # xs, r)) (read_seq rd n r))"

definition read_numbers :: "(string \<Rightarrow> (int \<times> string) option) \<Rightarrow> string \<Rightarrow> (int list \<times> string) option" where
  "read_numbers rd s = read_seq rd (length s) s"

locale number_code =
  fixes ok :: "int \<Rightarrow> bool" and enc :: "int \<Rightarrow> string" and stop :: string
    and rd :: "string \<Rightarrow> (int \<times> string) option"
  assumes read_enc: "ok x \<Longrightarrow> rd (enc x @ r) = Some (x, r)"
    and read_stop: "rd (stop @ r) = Some (0, r)"
    and ok_nonzero: "ok x \<Longrightarrow> x \<noteq> 0"
    and enc_nonempty: "ok x \<Longrightarrow> enc x \<noteq> []"
    and stop_nonempty: "stop \<noteq> []"
begin

lemma read_seq_code:
  "\<forall>x \<in> set xs. ok x \<Longrightarrow> length xs < n \<Longrightarrow> read_seq rd n (concat (map enc xs) @ stop @ r) = Some (xs, r)"
proof (induction xs arbitrary: n)
  case Nil
  then show ?case using read_stop by (cases n) simp_all
next
  case (Cons x xs)
  then obtain m where m: "n = Suc m" "length xs < m" by (cases n) auto
  then show ?case using Cons.IH [of m] Cons.prems(1) read_enc ok_nonzero by (simp add: m(1))
qed

lemma length_code: "\<forall>x \<in> set xs. ok x \<Longrightarrow> length xs \<le> length (concat (map enc xs))"
proof (induction xs)
  case (Cons x xs)
  then have "1 \<le> length (enc x)" using enc_nonempty [of x] by (cases "enc x") auto
  then show ?case using Cons by simp
qed simp

lemma read_numbers_code:
  assumes "\<forall>x \<in> set xs. ok x"
  shows "read_numbers rd (concat (map enc xs) @ stop @ r) = Some (xs, r)"
proof -
  have "0 < length stop" using stop_nonempty by (cases stop) simp_all
  then have "length xs < length (concat (map enc xs) @ stop @ r)"
    using length_code [OF assms] by (simp only: length_append)
  then show ?thesis using read_seq_code [OF assms] by (simp add: read_numbers_def)
qed

end

definition enc_text :: "int \<Rightarrow> string" where
  "enc_text l = show_int l @ '' ''"

definition enc_binary :: "int \<Rightarrow> string" where
  "enc_binary l = leb128 (lit_code l)"

definition read_binary :: "string \<Rightarrow> (int \<times> string) option" where
  "read_binary s = map_option (\<lambda>(x, r). (decode_lit x, r)) (read_leb128 s)"

lemma leb128_nonempty [simp]: "leb128 n \<noteq> []"
  by (subst leb128.simps) simp

lemma leb128_zero: "leb128 0 = [char_of (0 :: nat)]"
  by (subst leb128.simps) simp

lemma read_binary_zero: "read_binary (char_of (0 :: nat) # r) = Some (0, r)"
  using read_leb128_code [of 0 r] by (simp add: read_binary_def leb128_zero decode_lit_def)

lemma text_number_code:
  assumes "\<not> is_digit c"
  shows "number_code (\<lambda>x. x \<noteq> 0) enc_text (''0'' @ [c]) read_int"
proof
  fix x r
  show "read_int (enc_text x @ r) = Some (x, r)"
    using read_show_int [of "CHR '' ''" x r] by (simp add: enc_text_def is_digit_def)
  show "read_int ((''0'' @ [c]) @ r) = Some (0, r)"
    using read_show_int [OF assms, of 0 r] by (simp add: show_int_def show_nat_def)
qed (simp_all add: enc_text_def)

interpretation text_line: number_code "\<lambda>x. x \<noteq> 0" enc_text "''0'' @ [newline]" read_int
  by (rule text_number_code) (simp add: is_digit_def)

interpretation binary_number: number_code "\<lambda>x. x \<noteq> 0" enc_binary "[char_of (0 :: nat)]" read_binary
proof
  fix x :: int and r assume "x \<noteq> 0"
  then show "read_binary (enc_binary x @ r) = Some (x, r)"
    by (simp add: enc_binary_def read_binary_def read_leb128_code decode_lit_code)
qed (simp_all add: read_binary_zero enc_binary_def)

subsection \<open>Sequences of steps\<close>

fun read_steps :: "(string \<Rightarrow> ('s \<times> string) option) \<Rightarrow> nat \<Rightarrow> string \<Rightarrow> 's list option" where
  "read_steps rd 0 s = (if s = [] then Some [] else None)"
| "read_steps rd (Suc n) s =
     (if s = [] then Some []
      else case rd s of None \<Rightarrow> None | Some (x, r) \<Rightarrow> map_option ((#) x) (read_steps rd n r))"

definition read_proof :: "(string \<Rightarrow> ('s \<times> string) option) \<Rightarrow> string \<Rightarrow> 's list option" where
  "read_proof rd s = read_steps rd (length s) s"

locale step_code =
  fixes ok :: "'s \<Rightarrow> bool" and enc :: "'s \<Rightarrow> string" and rd :: "string \<Rightarrow> ('s \<times> string) option"
    and follow :: "string \<Rightarrow> bool"
  assumes read_step: "ok x \<Longrightarrow> follow r \<Longrightarrow> rd (enc x @ r) = Some (x, r)"
    and step_nonempty: "ok x \<Longrightarrow> enc x \<noteq> []"
    and follow_end: "follow []"
    and follow_step: "ok x \<Longrightarrow> follow (enc x @ r)"
begin

lemma follow_steps: "\<forall>x \<in> set xs. ok x \<Longrightarrow> follow (concat (map enc xs))"
  by (cases xs) (auto simp: follow_end follow_step)

lemma read_steps_code:
  "\<forall>x \<in> set xs. ok x \<Longrightarrow> length xs \<le> n \<Longrightarrow> read_steps rd n (concat (map enc xs)) = Some xs"
proof (induction xs arbitrary: n)
  case Nil
  then show ?case by (cases n) simp_all
next
  case (Cons x xs)
  then obtain m where m: "n = Suc m" "length xs \<le> m" by (cases n) auto
  have "rd (enc x @ concat (map enc xs)) = Some (x, concat (map enc xs))"
    using Cons.prems(1) follow_steps [of xs] by (intro read_step) simp_all
  then show ?case using Cons.IH [OF _ m(2)] Cons.prems(1) step_nonempty [of x] by (simp add: m(1))
qed

lemma read_proof_code: "\<forall>x \<in> set xs. ok x \<Longrightarrow> read_proof rd (concat (map enc xs)) = Some xs"
proof -
  assume ok: "\<forall>x \<in> set xs. ok x"
  then have "length xs \<le> length (concat (map enc xs))"
  proof (induction xs)
    case (Cons x xs)
    then have "1 \<le> length (enc x)" using step_nonempty [of x] by (cases "enc x") auto
    then show ?case using Cons by simp
  qed simp
  then show ?thesis using read_steps_code [OF ok] by (simp add: read_proof_def)
qed

end

subsection \<open>DRAT\<close>

datatype drat_step = DAdd clause | DDel clause

fun drat_clause :: "drat_step \<Rightarrow> clause" where
  "drat_clause (DAdd c) = c" | "drat_clause (DDel c) = c"

fun drat_trace :: "drat_step \<Rightarrow> DratTracer \<Rightarrow> DratTracer" where
  "drat_trace (DAdd c) = drat_add_derived_clause c"
| "drat_trace (DDel c) = drat_trace_delete_clause c"

fun read_drat_text :: "string \<Rightarrow> (drat_step \<times> string) option" where
  "read_drat_text (CHR ''d'' # CHR '' '' # s) = map_option (\<lambda>(c, r). (DDel c, r)) (read_numbers read_int s)"
| "read_drat_text s = map_option (\<lambda>(c, r). (DAdd c, r)) (read_numbers read_int s)"

definition read_drat_binary :: "string \<Rightarrow> (drat_step \<times> string) option" where
  "read_drat_binary s =
     (case s of
        [] \<Rightarrow> None
      | ch # s \<Rightarrow>
          if ch = CHR ''a'' then map_option (\<lambda>(c, r). (DAdd c, r)) (read_numbers read_binary s)
          else if ch = CHR ''d'' then map_option (\<lambda>(c, r). (DDel c, r)) (read_numbers read_binary s)
          else None)"

definition enc_lits :: "bool \<Rightarrow> int list \<Rightarrow> string" where
  "enc_lits binary c = concat (map (if binary then enc_binary else enc_text) c)"

definition enc_end :: "bool \<Rightarrow> string" where
  "enc_end binary = (if binary then [char_of (0 :: nat)] else ''0'' @ [newline])"

fun enc_drat :: "bool \<Rightarrow> drat_step \<Rightarrow> string" where
  "enc_drat binary (DAdd c) = (if binary then ''a'' else []) @ enc_lits binary c @ enc_end binary"
| "enc_drat binary (DDel c) = (if binary then ''d'' else ''d '') @ enc_lits binary c @ enc_end binary"

lemma put_lits_string:
  "valid_clause c \<Longrightarrow> put_lits binary c f = put_string (enc_lits binary c) f"
proof (induction c arbitrary: f)
  case (Cons l c)
  have "(if binary then put_binary_lit l f else put_char (CHR '' '') (put_int l f))
      = put_string ((if binary then enc_binary else enc_text) l) f"
    using Cons.prems by (simp add: put_simps put_binary_lit_string valid_clause_def enc_binary_def enc_text_def)
  then show ?case using Cons by (simp add: put_lits_def enc_lits_def put_string_append valid_clause_def)
qed (simp add: put_lits_def enc_lits_def)

lemma put_end_string: "put_end binary f = put_string (enc_end binary) f"
  by (simp add: put_end_def enc_end_def put_simps)

lemma drat_trace_out:
  assumes "fl_open (dt_file t)" "valid_clause (drat_clause st)"
  shows "dt_file (drat_trace st t) = put_string (enc_drat (dt_binary t) st) (dt_file t)"
    "dt_binary (drat_trace st t) = dt_binary t"
  using assms
  by (cases st; simp add: drat_add_derived_clause_def drat_trace_delete_clause_def drat_add_clause_def
      drat_delete_clause_def file_closed_def Let_def put_lits_string put_end_string put_simps)+

lemma drat_fold_out:
  assumes "fl_open (dt_file t)" "\<forall>st \<in> set steps. valid_clause (drat_clause st)"
  shows "dt_file (fold drat_trace steps t) = put_string (concat (map (enc_drat (dt_binary t)) steps)) (dt_file t)"
  using assms
proof (induction steps arbitrary: t)
  case (Cons st steps)
  have "fl_open (dt_file (drat_trace st t))" using Cons.prems drat_trace_out(1) [of t st] by simp
  with Cons.IH [of "drat_trace st t"] Cons.prems drat_trace_out [of t st] show ?case
    by (simp add: put_string_append)
qed simp

lemma valid_nonzero: "valid_clause c \<Longrightarrow> \<forall>l \<in> set c. l \<noteq> 0"
  by (simp add: valid_clause_def)

lemma newline_no_digit: "\<not> is_digit newline" "\<not> is_digit (CHR '' '')"
  by (simp_all add: is_digit_def)

lemma read_lits_text:
  "valid_clause c \<Longrightarrow> \<not> is_digit ch \<Longrightarrow> read_numbers read_int (enc_lits False c @ CHR ''0'' # ch # r) = Some (c, r)"
  using number_code.read_numbers_code [OF text_number_code valid_nonzero, of ch c r] by (simp add: enc_lits_def)

lemma read_lits_binary:
  "valid_clause c \<Longrightarrow> read_numbers read_binary (enc_lits True c @ char_of (0 :: nat) # r) = Some (c, r)"
  using binary_number.read_numbers_code [OF valid_nonzero, of c r] by (simp add: enc_lits_def)

text \<open>A text literal starts with a digit or a minus sign, so an added clause never looks like a deletion.\<close>

lemma show_int_hd: "\<exists>c cs. show_int l = c # cs \<and> (is_digit c \<or> c = CHR ''-'')"
proof -
  obtain d ds where "show_nat (nat \<bar>l\<bar>) = d # ds" "is_digit d"
    using show_nat_digits [of "nat \<bar>l\<bar>"] by (cases "show_nat (nat \<bar>l\<bar>)") auto
  then show ?thesis by (auto simp: show_int_def)
qed

lemma enc_text_hd: "\<exists>ch cs. enc_lits False c @ CHR ''0'' # s = ch # cs \<and> ch \<noteq> CHR ''d''"
proof (cases c)
  case Nil
  then show ?thesis by (simp add: enc_lits_def)
next
  case (Cons l c)
  obtain ch cs where "show_int l = ch # cs" "is_digit ch \<or> ch = CHR ''-''" using show_int_hd by blast
  then show ?thesis using Cons by (auto simp: enc_lits_def enc_text_def is_digit_def)
qed

lemma read_drat_text_add: "ch \<noteq> CHR ''d'' \<Longrightarrow>
  read_drat_text (ch # cs) = map_option (\<lambda>(c, r). (DAdd c, r)) (read_numbers read_int (ch # cs))"
  by (cases "(ch # cs)" rule: read_drat_text.cases) auto

lemma read_drat_step:
  assumes "valid_clause (drat_clause st)"
  shows "(if binary then read_drat_binary else read_drat_text) (enc_drat binary st @ r) = Some (st, r)"
proof (cases binary)
  case True
  then show ?thesis using assms
    by (cases st) (simp_all add: read_drat_binary_def enc_end_def read_lits_binary)
next
  case False
  show ?thesis
  proof (cases st)
    case (DAdd c)
    obtain ch cs where h: "enc_lits False c @ enc_end False @ r = ch # cs" "ch \<noteq> CHR ''d''"
      using enc_text_hd [of c "newline # r"] by (auto simp: enc_end_def)
    have "read_numbers read_int (ch # cs) = Some (c, r)"
      using read_lits_text [OF _ newline_no_digit(1), of c r] assms DAdd h(1) [symmetric] by (simp add: enc_end_def)
    then show ?thesis using False DAdd h read_drat_text_add [OF h(2), of cs] by simp
  next
    case (DDel c)
    then show ?thesis using False assms read_lits_text [OF _ newline_no_digit(1), of c r]
      by (simp add: enc_end_def)
  qed
qed

interpretation drat: step_code "\<lambda>st. valid_clause (drat_clause st)" "enc_drat binary"
    "if binary then read_drat_binary else read_drat_text" "\<lambda>_. True" for binary
proof
  fix x r assume "valid_clause (drat_clause x)"
  then show "(if binary then read_drat_binary else read_drat_text) (enc_drat binary x @ r) = Some (x, r)"
    by (rule read_drat_step)
  show "enc_drat binary x \<noteq> []" by (cases x) (simp_all add: enc_end_def)
qed simp_all

subsection \<open>Clause identifiers\<close>

text \<open>Identifiers are positive and below \<open>2 ^ 63\<close>, so that the binary format can double them.\<close>

definition valid_id :: "64 word \<Rightarrow> bool" where
  "valid_id i \<longleftrightarrow> 0 < uint i \<and> uint i < 2 ^ 63"

lemma show_uint: "show_nat (unat i) = show_int (uint i)"
  by (simp add: show_int_def)

lemma uint_double:
  assumes "valid_id i"
  shows "uint (2 * i) = 2 * uint i"
proof -
  have "2 * uint i < 2 ^ 64" using assms by (simp add: valid_id_def)
  then show ?thesis by (simp add: uint_word_ariths(3))
qed

lemma unat_double: "valid_id i \<Longrightarrow> unat (2 * i) = lit_code (uint i)"
  using uint_double [of i] by (simp add: valid_id_def lit_code_def unat_eq_nat_uint nat_mult_distrib del: nat_uint_eq)

lemma valid_id_sint: "valid_id i \<Longrightarrow> \<not> sint i < 0"
  using signed_take_bit_int_eq_self [of 63 "uint i"] by (simp add: valid_id_def sint_uint)

lemma put_binary_id_string: "valid_id i \<Longrightarrow> lrat_put_binary_id i f = put_string (enc_binary (uint i)) f"
  by (simp add: lrat_put_binary_id_def valid_id_sint put_leb128_string unat_double enc_binary_def Let_def)

lemma put_id_string: "put_char (CHR '' '') (put_uint64 i f) = put_string (enc_text (uint i)) f"
  by (simp add: put_simps enc_text_def show_uint)

definition valid_ids :: "64 word list \<Rightarrow> bool" where
  "valid_ids ids \<longleftrightarrow> (\<forall>i \<in> set ids. valid_id i)"

lemma valid_ids_nonzero: "valid_ids ids \<Longrightarrow> \<forall>x \<in> set (map uint ids). x \<noteq> 0"
  by (auto simp: valid_ids_def valid_id_def)

lemma put_ids_string:
  "valid_ids ids \<Longrightarrow> lrat_put_ids binary ids f = put_string (enc_lits binary (map uint ids)) f"
proof (induction ids arbitrary: f)
  case (Cons i ids)
  then show ?case
    using put_binary_id_string [of i f]
    by (simp add: lrat_put_ids_def enc_lits_def put_string_append valid_ids_def put_id_string)
qed (simp add: lrat_put_ids_def enc_lits_def)

lemma read_nums_text:
  "\<forall>x \<in> set xs. x \<noteq> 0 \<Longrightarrow> \<not> is_digit ch \<Longrightarrow>
   read_numbers read_int (enc_lits False xs @ CHR ''0'' # ch # r) = Some (xs, r)"
  using number_code.read_numbers_code [OF text_number_code, of ch xs r] by (simp add: enc_lits_def)

lemma read_nums_binary:
  "\<forall>x \<in> set xs. x \<noteq> 0 \<Longrightarrow> read_numbers read_binary (enc_lits True xs @ char_of (0 :: nat) # r) = Some (xs, r)"
  using binary_number.read_numbers_code [of xs r] by (simp add: enc_lits_def)

subsection \<open>LRAT\<close>

text \<open>A call of the tracer, and a line of the file; a text deletion names the latest identifier.\<close>

datatype lrat_call = LAdd "64 word" clause "64 word list" | LDel "64 word"

datatype lrat_line = LineAdd int clause "int list" | LineDel "int option" "int list"

fun lrat_trace :: "lrat_call \<Rightarrow> LratTracer \<Rightarrow> LratTracer" where
  "lrat_trace (LAdd i c chain) = lrat_add_derived_clause i c chain"
| "lrat_trace (LDel i) = lrat_trace_delete_clause i"

fun valid_call :: "lrat_call \<Rightarrow> bool" where
  "valid_call (LAdd i c chain) \<longleftrightarrow> valid_id i \<and> valid_clause c \<and> valid_ids chain"
| "valid_call (LDel i) \<longleftrightarrow> valid_id i"

text \<open>The lines due for a sequence of calls: deletions wait for the next added clause.\<close>

definition lrat_del_line :: "bool \<Rightarrow> int \<Rightarrow> int list \<Rightarrow> lrat_line list" where
  "lrat_del_line binary latest ids =
     (if ids = [] then [] else [LineDel (if binary then None else Some latest) ids])"

fun lrat_lines :: "bool \<Rightarrow> int \<Rightarrow> int list \<Rightarrow> lrat_call list \<Rightarrow> lrat_line list" where
  "lrat_lines binary latest ids [] = []"
| "lrat_lines binary latest ids (LDel i # calls) = lrat_lines binary latest (ids @ [uint i]) calls"
| "lrat_lines binary latest ids (LAdd i c chain # calls) =
     lrat_del_line binary latest ids @ LineAdd (uint i) c (map uint chain)
       # lrat_lines binary (uint i) [] calls"

text \<open>The deletions after the last addition.\<close>

fun lrat_pending :: "int list \<Rightarrow> lrat_call list \<Rightarrow> int list" where
  "lrat_pending ids [] = ids"
| "lrat_pending ids (LDel i # calls) = lrat_pending (ids @ [uint i]) calls"
| "lrat_pending ids (LAdd i c chain # calls) = lrat_pending [] calls"

fun valid_line :: "bool \<Rightarrow> lrat_line \<Rightarrow> bool" where
  "valid_line binary (LineAdd i c chain) \<longleftrightarrow> 0 < i \<and> 0 \<notin> set c \<and> 0 \<notin> set chain"
| "valid_line binary (LineDel k ids) \<longleftrightarrow> (k = None \<longleftrightarrow> binary) \<and> 0 \<notin> set ids"

fun enc_lrat :: "bool \<Rightarrow> lrat_line \<Rightarrow> string" where
  "enc_lrat binary (LineAdd i c chain) =
     (if binary then CHR ''a'' # enc_binary i @ enc_lits True c @ char_of (0 :: nat) # enc_lits True chain
      else enc_text i @ enc_lits False c @ ''0 '' @ enc_lits False chain) @ enc_end binary"
| "enc_lrat binary (LineDel k ids) =
     (case k of None \<Rightarrow> ''d'' | Some i \<Rightarrow> enc_text i @ ''d '') @ enc_lits binary ids @ enc_end binary"

definition read_lrat_add ::
    "(string \<Rightarrow> (int \<times> string) option) \<Rightarrow> int \<Rightarrow> string \<Rightarrow> (lrat_line \<times> string) option" where
  "read_lrat_add rd i s =
     (case read_numbers rd s of
        None \<Rightarrow> None
      | Some (c, s) \<Rightarrow> map_option (\<lambda>(chain, r). (LineAdd i c chain, r)) (read_numbers rd s))"

definition read_lrat_text :: "string \<Rightarrow> (lrat_line \<times> string) option" where
  "read_lrat_text s =
     (case read_int s of
        None \<Rightarrow> None
      | Some (i, s) \<Rightarrow>
          if take 2 s = ''d '' then map_option (\<lambda>(ids, r). (LineDel (Some i) ids, r)) (read_numbers read_int (drop 2 s))
          else read_lrat_add read_int i s)"

definition read_lrat_binary :: "string \<Rightarrow> (lrat_line \<times> string) option" where
  "read_lrat_binary s =
     (case s of
        [] \<Rightarrow> None
      | ch # s \<Rightarrow>
          if ch = CHR ''d'' then map_option (\<lambda>(ids, r). (LineDel None ids, r)) (read_numbers read_binary s)
          else if ch = CHR ''a'' then
            (case read_binary s of None \<Rightarrow> None | Some (i, s) \<Rightarrow> read_lrat_add read_binary i s)
          else None)"

lemma read_enc_text: "read_int (enc_text i @ r) = Some (i, r)"
  using read_show_int [of "CHR '' ''" i r] by (simp add: enc_text_def is_digit_def)

lemma read_enc_binary: "i \<noteq> 0 \<Longrightarrow> read_binary (enc_binary i @ r) = Some (i, r)"
  by (rule binary_number.read_enc)

lemma nonzero_set: "0 \<notin> set xs \<Longrightarrow> \<forall>x \<in> set xs. x \<noteq> (0 :: int)"
  by metis

lemma read_lrat_line:
  assumes "valid_line binary l"
  shows "(if binary then read_lrat_binary else read_lrat_text) (enc_lrat binary l @ r) = Some (l, r)"
proof (cases l)
  case (LineAdd i c chain)
  then have nz: "i \<noteq> 0" "\<forall>x \<in> set c. x \<noteq> 0" "\<forall>x \<in> set chain. x \<noteq> 0" using assms by auto
  obtain ch cs where hd: "enc_lits False c @ ''0 '' @ enc_lits False chain @ enc_end False @ r = ch # cs" "ch \<noteq> CHR ''d''"
    using enc_text_hd [of c "CHR '' '' # enc_lits False chain @ enc_end False @ r"] by auto
  have "take 2 (enc_lits False c @ ''0 '' @ enc_lits False chain @ enc_end False @ r) \<noteq> ''d ''"
    unfolding hd(1) using hd(2) by simp
  then show ?thesis
    using nz LineAdd
    by (simp add: read_lrat_binary_def read_lrat_text_def read_enc_text read_enc_binary read_lrat_add_def
        enc_end_def read_nums_binary read_nums_text newline_no_digit)
next
  case (LineDel k ids)
  then have "(k = None) = binary" "\<forall>x \<in> set ids. x \<noteq> 0" using assms by auto
  then show ?thesis
    using LineDel
    by (auto simp: read_lrat_binary_def read_lrat_text_def read_enc_text read_enc_binary
        enc_end_def read_nums_binary read_nums_text newline_no_digit)
qed

interpretation lrat: step_code "valid_line binary" "enc_lrat binary"
    "if binary then read_lrat_binary else read_lrat_text" "\<lambda>_. True" for binary
proof
  fix x r assume "valid_line binary x"
  then show "(if binary then read_lrat_binary else read_lrat_text) (enc_lrat binary x @ r) = Some (x, r)"
    by (rule read_lrat_line)
  show "enc_lrat binary x \<noteq> []" by (cases x) (simp_all add: enc_end_def)
qed simp_all


lemma valid_clause_zero: "valid_clause c \<Longrightarrow> 0 \<notin> set c"
  by (auto simp: valid_clause_def)

lemma valid_ids_zero: "valid_ids ids \<Longrightarrow> 0 \<notin> set (map uint ids)"
  by (auto simp: valid_ids_def valid_id_def)

lemma flush_deletes_out:
  assumes "valid_ids (lt_delete_ids t)"
  shows "lrat_flush_deletes t = t\<lparr>lt_delete_ids := [], lt_file := put_string (concat (map (enc_lrat (lt_binary t))
      (lrat_del_line (lt_binary t) (uint (lt_latest_id t)) (map uint (lt_delete_ids t))))) (lt_file t)\<rparr>"
proof (cases "lt_delete_ids t = []")
  case True
  then show ?thesis by (cases t) (simp add: lrat_flush_deletes_def lrat_del_line_def)
next
  case False
  then show ?thesis
    by (simp add: lrat_flush_deletes_def lrat_del_line_def Let_def put_ids_string [OF assms] put_simps
        enc_text_def show_uint put_end_string)
qed

lemma lrat_add_clause_out:
  assumes "valid_ids (lt_delete_ids t)" "valid_call (LAdd i c chain)"
  shows "lrat_add_clause i c chain t = t\<lparr>lt_delete_ids := [], lt_latest_id := i, lt_file :=
      put_string (concat (map (enc_lrat (lt_binary t))
        (lrat_del_line (lt_binary t) (uint (lt_latest_id t)) (map uint (lt_delete_ids t))
          @ [LineAdd (uint i) c (map uint chain)]))) (lt_file t)\<rparr>"
  using assms
  by (simp add: lrat_add_clause_def flush_deletes_out Let_def put_ids_string put_lits_string
      put_binary_id_string put_simps enc_text_def show_uint put_end_string)

lemma lrat_fold_out:
  assumes "fl_open (lt_file t)" "valid_ids (lt_delete_ids t)" "\<forall>call \<in> set calls. valid_call call"
  shows "lt_file (fold lrat_trace calls t) =
      put_string (concat (map (enc_lrat (lt_binary t))
        (lrat_lines (lt_binary t) (uint (lt_latest_id t)) (map uint (lt_delete_ids t)) calls))) (lt_file t)
    \<and> map uint (lt_delete_ids (fold lrat_trace calls t)) = lrat_pending (map uint (lt_delete_ids t)) calls"
  using assms
proof (induction calls arbitrary: t)
  case (Cons call calls)
  show ?case
  proof (cases call)
    case (LAdd i c chain)
    then have t: "lrat_trace (LAdd i c chain) t = (lrat_add_clause i c chain t)\<lparr>lt_added := lt_added t + 1\<rparr>"
      using Cons.prems
      by (simp add: lrat_add_derived_clause_def file_closed_def Let_def lrat_add_clause_def lrat_flush_deletes_def)
    note t = t [unfolded lrat_add_clause_out [OF Cons.prems(2) Cons.prems(3) [simplified LAdd, THEN bspec, OF list.set_intros(1)]]]
    show ?thesis
      using Cons.IH [of "lrat_trace call t"] Cons.prems
      by (simp add: t LAdd put_string_append valid_ids_def del: lrat_trace.simps enc_lrat.simps)
  next
    case (LDel i)
    then have t: "lrat_trace (LDel i) t = t\<lparr>lt_delete_ids := lt_delete_ids t @ [i], lt_deleted := lt_deleted t + 1\<rparr>"
      using Cons.prems by (simp add: lrat_trace_delete_clause_def lrat_delete_clause_def file_closed_def Let_def)
    show ?thesis
      using Cons.IH [of "lrat_trace call t"] Cons.prems
      by (simp add: t LDel valid_ids_def del: lrat_trace.simps)
  qed
qed simp

lemma valid_del_line: "0 \<notin> set ids \<Longrightarrow> \<forall>l \<in> set (lrat_del_line binary latest ids). valid_line binary l"
  by (simp add: lrat_del_line_def)

lemma valid_lrat_lines:
  "\<forall>call \<in> set calls. valid_call call \<Longrightarrow> 0 \<notin> set ids \<Longrightarrow>
   \<forall>l \<in> set (lrat_lines binary latest ids calls). valid_line binary l"
proof (induction binary latest ids calls rule: lrat_lines.induct)
  case (2 binary latest ids i calls)
  then show ?case by (simp add: valid_id_def)
next
  case (3 binary latest ids i c chain calls)
  then show ?case
    using valid_del_line [of ids binary latest] valid_clause_zero [of c] valid_ids_zero [of chain]
    by (simp add: valid_id_def ball_Un)
qed simp

subsection \<open>FRAT\<close>

datatype frat_call =
  FOriginal "64 word" clause | FDerived "64 word" clause "64 word list"
  | FDelete "64 word" clause | FFinal "64 word" clause

datatype frat_line =
  FrOriginal nat clause | FrDerived nat clause "int list option"
  | FrDelete nat clause | FrFinal nat clause

fun frat_trace :: "frat_call \<Rightarrow> FratTracer \<Rightarrow> FratTracer" where
  "frat_trace (FOriginal i c) = frat_add_original_clause i c"
| "frat_trace (FDerived i c chain) = frat_add_derived_clause i c chain"
| "frat_trace (FDelete i c) = frat_delete_clause i c"
| "frat_trace (FFinal i c) = frat_finalize_clause i c"

fun valid_frat :: "frat_call \<Rightarrow> bool" where
  "valid_frat (FOriginal i c) \<longleftrightarrow> valid_clause c"
| "valid_frat (FDerived i c chain) \<longleftrightarrow> valid_clause c \<and> valid_ids chain"
| "valid_frat (FDelete i c) \<longleftrightarrow> valid_clause c"
| "valid_frat (FFinal i c) \<longleftrightarrow> valid_clause c"

text \<open>The line due for a call; the antecedents are written only when asked for.\<close>

fun frat_line_of :: "bool \<Rightarrow> frat_call \<Rightarrow> frat_line" where
  "frat_line_of ante (FOriginal i c) = FrOriginal (unat i) c"
| "frat_line_of ante (FDerived i c chain) = FrDerived (unat i) c (if ante then Some (map uint chain) else None)"
| "frat_line_of ante (FDelete i c) = FrDelete (unat i) c"
| "frat_line_of ante (FFinal i c) = FrFinal (unat i) c"

fun valid_frat_line :: "frat_line \<Rightarrow> bool" where
  "valid_frat_line (FrOriginal i c) \<longleftrightarrow> 0 \<notin> set c"
| "valid_frat_line (FrDerived i c chain) \<longleftrightarrow> 0 \<notin> set c \<and> (case chain of None \<Rightarrow> True | Some ch \<Rightarrow> 0 \<notin> set ch)"
| "valid_frat_line (FrDelete i c) \<longleftrightarrow> 0 \<notin> set c"
| "valid_frat_line (FrFinal i c) \<longleftrightarrow> 0 \<notin> set c"

definition enc_frat_head :: "bool \<Rightarrow> char \<Rightarrow> nat \<Rightarrow> clause \<Rightarrow> string" where
  "enc_frat_head binary ch i c =
     (if binary then ch # leb128 i else ch # CHR '' '' # show_nat i @ ''  '') @ enc_lits binary c"

fun enc_frat :: "bool \<Rightarrow> frat_line \<Rightarrow> string" where
  "enc_frat binary (FrOriginal i c) = enc_frat_head binary (CHR ''o'') i c @ enc_end binary"
| "enc_frat binary (FrDerived i c chain) = enc_frat_head binary (CHR ''a'') i c @
     (case chain of
        None \<Rightarrow> []
      | Some ids \<Rightarrow> (if binary then [char_of (0 :: nat), CHR ''l''] else ''0  l '') @ enc_lits binary ids)
     @ enc_end binary"
| "enc_frat binary (FrDelete i c) = enc_frat_head binary (CHR ''d'') i c @ enc_end binary"
| "enc_frat binary (FrFinal i c) = enc_frat_head binary (CHR ''f'') i c @ enc_end binary"

text \<open>The reader: letter, identifier, literals, and the antecedents if an \<^verbatim>\<open>l\<close> follows.\<close>

definition read_frat_head :: "bool \<Rightarrow> string \<Rightarrow> (nat \<times> clause \<times> string) option" where
  "read_frat_head binary s =
     (if binary then
        (case read_leb128 s of
           None \<Rightarrow> None
         | Some (i, s) \<Rightarrow> map_option (\<lambda>(c, r). (i, c, r)) (read_numbers read_binary s))
      else
        (case read_nat (drop 1 s) of
           None \<Rightarrow> None
         | Some (i, s) \<Rightarrow> map_option (\<lambda>(c, r). (i, c, r)) (read_numbers read_int (drop 1 s))))"

definition read_frat_chain :: "bool \<Rightarrow> string \<Rightarrow> (int list option \<times> string) option" where
  "read_frat_chain binary s =
     (if binary then
        (if take 1 s = ''l'' then map_option (\<lambda>(ids, r). (Some ids, r)) (read_numbers read_binary (drop 1 s))
         else Some (None, s))
      else
        (if take 1 s = '' '' then map_option (\<lambda>(ids, r). (Some ids, r)) (read_numbers read_int (drop 3 s))
         else Some (None, s)))"

definition read_frat :: "bool \<Rightarrow> string \<Rightarrow> (frat_line \<times> string) option" where
  "read_frat binary s =
     (case s of
        [] \<Rightarrow> None
      | ch # s \<Rightarrow>
          (case read_frat_head binary s of
             None \<Rightarrow> None
           | Some (i, c, r) \<Rightarrow>
               if ch = CHR ''o'' then Some (FrOriginal i c, r)
               else if ch = CHR ''d'' then Some (FrDelete i c, r)
               else if ch = CHR ''f'' then Some (FrFinal i c, r)
               else if ch = CHR ''a'' then
                 map_option (\<lambda>(chain, r). (FrDerived i c chain, r)) (read_frat_chain binary r)
               else None))"

text \<open>What may follow a line: not something that reads as antecedents.\<close>

definition frat_follow :: "string \<Rightarrow> bool" where
  "frat_follow s \<longleftrightarrow> take 1 s \<noteq> ''l'' \<and> take 1 s \<noteq> '' ''"

lemma read_frat_head_code:
  assumes "0 \<notin> set c"
  shows "read_frat_head True (leb128 i @ enc_lits True c @ char_of (0 :: nat) # r) = Some (i, c, r)"
    "\<not> is_digit ch \<Longrightarrow>
     read_frat_head False (CHR '' '' # show_nat i @ CHR '' '' # CHR '' '' # enc_lits False c @ CHR ''0'' # ch # r)
       = Some (i, c, r)"
  using nonzero_set [OF assms] read_show_nat [of "CHR '' ''" i]
  by (simp_all add: read_frat_head_def read_leb128_code read_nums_binary read_nums_text newline_no_digit)

lemma read_frat_line:
  assumes "valid_frat_line l" "frat_follow r"
  shows "read_frat binary (enc_frat binary l @ r) = Some (l, r)"
proof (cases l)
  case (FrDerived i c chain)
  show ?thesis
  proof (cases chain)
    case None
    then show ?thesis using FrDerived assms
      by (simp add: read_frat_def enc_frat_head_def enc_end_def read_frat_head_code newline_no_digit
          read_frat_chain_def frat_follow_def)
  next
    case (Some ids)
    then show ?thesis using FrDerived assms nonzero_set [of ids]
      by (simp add: read_frat_def enc_frat_head_def enc_end_def read_frat_head_code newline_no_digit
          read_frat_chain_def read_nums_binary read_nums_text)
  qed
qed (use assms in \<open>simp_all add: read_frat_def enc_frat_head_def enc_end_def read_frat_head_code newline_no_digit\<close>)

interpretation frat: step_code valid_frat_line "enc_frat binary" "read_frat binary" frat_follow for binary
proof
  fix x r
  show "valid_frat_line x \<Longrightarrow> frat_follow r \<Longrightarrow> read_frat binary (enc_frat binary x @ r) = Some (x, r)"
    by (rule read_frat_line)
  show "enc_frat binary x \<noteq> []" by (cases x) (simp_all add: enc_frat_head_def)
  show "frat_follow []" by (simp add: frat_follow_def)
  show "frat_follow (enc_frat binary x @ r)" by (cases x) (simp_all add: enc_frat_head_def frat_follow_def)
qed

lemma frat_put_head_string:
  "valid_clause c \<Longrightarrow> frat_put_head ch i c t = put_string (enc_frat_head (ft_binary t) ch (unat i) c) (ft_file t)"
  by (simp add: frat_put_head_def frat_put_binary_id_def put_lits_string put_simps enc_frat_head_def Let_def)

lemma frat_chain_string:
  "valid_ids chain \<Longrightarrow>
   fold (\<lambda>c f. if binary then frat_put_binary_id (2 * c) f else put_char (CHR '' '') (put_uint64 c f)) chain f
     = put_string (enc_lits binary (map uint chain)) f"
proof (induction chain arbitrary: f)
  case (Cons c chain)
  then show ?case
    using unat_double [of c]
    by (simp add: frat_put_binary_id_def enc_lits_def put_string_append valid_ids_def put_id_string
        put_leb128_string enc_binary_def)
qed (simp add: enc_lits_def)

lemmas frat_defs = frat_add_original_clause_def frat_add_original_def frat_add_derived_clause_def
  frat_add_derived_def frat_add_derived_chain_def frat_delete_clause_def frat_delete_def
  frat_finalize_clause_def frat_finalize_def file_closed_def Let_def

lemma frat_trace_out:
  assumes "fl_open (ft_file t)" "valid_frat call"
  shows "ft_file (frat_trace call t) = put_string (enc_frat (ft_binary t) (frat_line_of (ft_with_antecedents t) call)) (ft_file t)"
    "ft_binary (frat_trace call t) = ft_binary t"
    "ft_with_antecedents (frat_trace call t) = ft_with_antecedents t"
  using assms
  by (cases call; simp add: frat_defs frat_put_head_string put_end_string frat_chain_string put_simps)+

lemma frat_fold_out:
  assumes "fl_open (ft_file t)" "\<forall>call \<in> set calls. valid_frat call"
  shows "ft_file (fold frat_trace calls t) =
    put_string (concat (map (enc_frat (ft_binary t) \<circ> frat_line_of (ft_with_antecedents t)) calls)) (ft_file t)"
  using assms
proof (induction calls arbitrary: t)
  case (Cons call calls)
  have "fl_open (ft_file (frat_trace call t))" using Cons.prems frat_trace_out(1) [of t call] by simp
  with Cons.IH [of "frat_trace call t"] Cons.prems frat_trace_out [of t call] show ?case
    by (simp add: put_string_append)
qed simp

lemma valid_frat_lines: "valid_frat call \<Longrightarrow> valid_frat_line (frat_line_of ante call)"
  using valid_clause_zero valid_ids_zero by (cases call) auto

end
