(* ===== verification/Id_Table.thy ===== *)
theory Id_Table
  imports Hash_Table
begin

text \<open>
  The hash table keyed by clause identifiers that the VeriPB, IDRUP and LIDRUP tracers each carry
  a copy of; the copies differ only in what an entry stores besides its identifier (nothing, the
  literals, the literals and the antecedents), which is the type parameter here.  \<open>id_store\<close> is the
  contract the tracers rely on: a multiset of entries with insertion and removal by identifier.
\<close>

subsection \<open>The code\<close>

record 'p id_entry =
  ie_hash :: "64 word"
  ie_id :: "64 word"
  ie_data :: 'p

record 'p IdTable =
  it_num_clauses :: "64 word"
  it_size_clauses :: "64 word"
  it_clauses :: "'p id_entry list list"
  it_nonces :: "64 word list"
  it_last_hash :: "64 word"
  it_last_id :: "64 word"

definition it_init :: "'p IdTable" where
  "it_init = \<lparr>it_num_clauses = 0, it_size_clauses = 0, it_clauses = [],
     it_nonces = draw_nonces num_nonces 42, it_last_hash = 0, it_last_id = 0\<rparr>"

definition it_enlarge_clauses :: "'p IdTable \<Rightarrow> 'p IdTable outcome" where
  "it_enlarge_clauses t =
     (let new_size = (if it_size_clauses t \<noteq> 0 then 2 * it_size_clauses t else 1)
      in bind_outcome
           (rehash_table ie_hash new_size (it_clauses t) (replicate (unat new_size) []))
           (\<lambda>cs. Ok (t\<lparr>it_clauses := cs, it_size_clauses := new_size\<rparr>)))"

definition it_new_clause :: "'p \<Rightarrow> 'p IdTable \<Rightarrow> 'p id_entry \<times> 'p IdTable" where
  "it_new_clause p t =
     (\<lparr>ie_hash = it_last_hash t, ie_id = it_last_id t, ie_data = p\<rparr>,
      t\<lparr>it_num_clauses := it_num_clauses t + 1\<rparr>)"

text \<open>The private \<^verbatim>\<open>delete_clause (HashId *)\<close>.\<close>

definition it_delete_clause :: "'p IdTable \<Rightarrow> 'p IdTable" where
  "it_delete_clause t = t\<lparr>it_num_clauses := it_num_clauses t - 1\<rparr>"

definition it_compute_hash :: "64 word \<Rightarrow> 'p IdTable \<Rightarrow> 64 word \<times> 'p IdTable" where
  "it_compute_hash i t =
     (let j = unat i mod num_nonces;
          tmp = it_nonces t ! j * i
      in (tmp, t\<lparr>it_last_hash := tmp\<rparr>))"

definition it_find_and_delete :: "64 word \<Rightarrow> 'p IdTable \<Rightarrow> ('p option \<times> 'p IdTable) outcome" where
  "it_find_and_delete i t =
     (if it_num_clauses t = 0 then Ok (None, t)
      else
        (let (hash, t) = it_compute_hash i t
         in bind_outcome (of_loop (reduce_hash hash (it_size_clauses t)))
              (\<lambda>h. let chain = it_clauses t ! unat h
                   in case List.find (\<lambda>k. ie_hash (chain ! k) = hash \<and> ie_id (chain ! k) = i) [0..<length chain] of
                        None \<Rightarrow> Ok (None, t)
                      | Some k \<Rightarrow>
                          Ok (Some (ie_data (chain ! k)),
                              it_delete_clause (t\<lparr>it_clauses := (it_clauses t)[unat h := remove_nth k chain]\<rparr>)))))"

text \<open>\<^verbatim>\<open>last_id\<close> is set by the caller.\<close>

definition it_insert :: "'p \<Rightarrow> 'p IdTable \<Rightarrow> 'p IdTable outcome" where
  "it_insert p t =
     bind_outcome (if it_num_clauses t = it_size_clauses t then it_enlarge_clauses t else Ok t)
       (\<lambda>t. let (hash, t) = it_compute_hash (it_last_id t) t
            in bind_outcome (of_loop (reduce_hash hash (it_size_clauses t)))
                 (\<lambda>h. let (c, t) = it_new_clause p t
                      in Ok (t\<lparr>it_clauses := (it_clauses t)[unat h := c # it_clauses t ! unat h]\<rparr>)))"

definition it_insert_id :: "64 word \<Rightarrow> 'p \<Rightarrow> 'p IdTable \<Rightarrow> 'p IdTable outcome" where
  "it_insert_id i p t = it_insert p (t\<lparr>it_last_id := i\<rparr>)"

text \<open>A sequence of calls of a tracer.\<close>

fun fold_outcome :: "('c \<Rightarrow> 's \<Rightarrow> 's outcome) \<Rightarrow> 'c list \<Rightarrow> 's \<Rightarrow> 's outcome" where
  "fold_outcome f [] s = Ok s"
| "fold_outcome f (c # cs) s = bind_outcome (f c s) (fold_outcome f cs)"

subsection \<open>The contract\<close>

locale id_store =
  fixes inv :: "'s \<Rightarrow> bool" and load :: "'s \<Rightarrow> nat" and limit :: nat and entries :: "'s \<Rightarrow> (64 word \<times> 'p) multiset"
    and ins :: "64 word \<Rightarrow> 'p \<Rightarrow> 's \<Rightarrow> 's outcome"
    and take :: "64 word \<Rightarrow> 's \<Rightarrow> ('p option \<times> 's) outcome"
  assumes ins_ok: "inv t \<Longrightarrow> load t < limit \<Longrightarrow>
      \<exists>u. ins i p t = Ok u \<and> inv u \<and> load u \<le> Suc (load t) \<and> entries u = add_mset (i, p) (entries t)"
    and take_ok: "inv t \<Longrightarrow>
      \<exists>r u. take i t = Ok (r, u) \<and> inv u \<and> load u \<le> load t
        \<and> (case r of None \<Rightarrow> i \<notin> fst ` set_mset (entries t) \<and> entries u = entries t
                   | Some p \<Rightarrow> entries t = add_mset (i, p) (entries u))"
begin

text \<open>The identifiers alone form a multiset that needs no look at the stored data.\<close>

definition ids :: "'s \<Rightarrow> (64 word) multiset" where
  "ids t = image_mset fst (entries t)"

lemma take_ids:
  assumes "inv t"
  shows "\<exists>r u. take i t = Ok (r, u) \<and> inv u \<and> load u \<le> load t \<and> (r \<noteq> None \<longleftrightarrow> i \<in># ids t) \<and> ids u = ids t - {#i#}"
proof -
  obtain r u where r: "take i t = Ok (r, u)" "inv u" "load u \<le> load t"
    "case r of None \<Rightarrow> i \<notin> fst ` set_mset (entries t) \<and> entries u = entries t
             | Some p \<Rightarrow> entries t = add_mset (i, p) (entries u)"
    using take_ok [OF assms] by blast
  then show ?thesis by (cases r) (auto simp: ids_def diff_single_trivial)
qed

text \<open>With distinct identifiers the store is a finite map.\<close>

definition lookup :: "'s \<Rightarrow> 64 word \<Rightarrow> 'p option" where
  "lookup t i = (if i \<in># ids t then Some (THE p. (i, p) \<in># entries t) else None)"

definition distinct_ids :: "'s \<Rightarrow> bool" where
  "distinct_ids t \<longleftrightarrow> (\<forall>i. count (ids t) i \<le> 1)"

lemma distinct_data:
  assumes "distinct_ids t" "(i, p) \<in># entries t" "(i, q) \<in># entries t"
  shows "p = q"
proof (rule ccontr)
  assume "p \<noteq> q"
  obtain M where M: "entries t = add_mset (i, p) M" using assms(2) by (metis insert_DiffM)
  then have "(i, q) \<in># M" using assms(3) \<open>p \<noteq> q\<close> by simp
  then obtain N where "M = add_mset (i, q) N" by (metis insert_DiffM)
  then have "count (ids t) i \<ge> 2" by (simp add: ids_def M)
  then show False using assms(1) by (metis distinct_ids_def not_less_eq_eq numeral_2_eq_2 One_nat_def)
qed

lemma lookup_entry:
  assumes "distinct_ids t" "(i, p) \<in># entries t"
  shows "lookup t i = Some p"
proof -
  have "(THE p. (i, p) \<in># entries t) = p" using assms distinct_data by blast
  then show ?thesis using assms(2) by (force simp: lookup_def ids_def)
qed

lemma lookup_eq: "distinct_ids t \<Longrightarrow> lookup t i = Some p \<longleftrightarrow> (i, p) \<in># entries t"
proof
  assume d: "distinct_ids t" and l: "lookup t i = Some p"
  then obtain q where q: "(i, q) \<in># entries t" by (auto simp: lookup_def ids_def split: if_splits)
  then show "(i, p) \<in># entries t" using lookup_entry [OF d q] l by simp
qed (rule lookup_entry)

lemma lookup_None: "lookup t i = None \<longleftrightarrow> i \<notin># ids t"
  by (simp add: lookup_def)

lemma ins_lookup:
  assumes "inv t" "load t < limit" "distinct_ids t" "lookup t i = None"
  shows "\<exists>u. ins i p t = Ok u \<and> inv u \<and> load u \<le> Suc (load t) \<and> distinct_ids u \<and> lookup u = (lookup t)(i \<mapsto> p)"
proof -
  obtain u where u: "ins i p t = Ok u" "inv u" "load u \<le> Suc (load t)" "entries u = add_mset (i, p) (entries t)"
    using ins_ok [OF assms(1,2)] by blast
  have ids: "ids u = add_mset i (ids t)" using u(4) by (simp add: ids_def)
  have i: "i \<notin># ids t" using assms(4) lookup_None by simp
  then have d: "distinct_ids u" using assms(3) by (auto simp: distinct_ids_def ids count_eq_zero_iff)
  have "lookup u k = ((lookup t)(i \<mapsto> p)) k" for k
  proof (cases "k = i")
    case True
    then show ?thesis using lookup_entry [OF d, of i p] u(4) by simp
  next
    case False
    have "lookup u k = Some q \<longleftrightarrow> lookup t k = Some q" for q
      using False u(4) by (simp add: lookup_eq [OF d] lookup_eq [OF assms(3)])
    then show ?thesis using False by (metis fun_upd_other not_Some_eq)
  qed
  then show ?thesis using u d by blast
qed

lemma take_lookup:
  assumes "inv t" "distinct_ids t"
  shows "\<exists>u. take i t = Ok (lookup t i, u) \<and> inv u \<and> load u \<le> load t \<and> distinct_ids u \<and> lookup u = (lookup t)(i := None)"
proof -
  obtain r u where r: "take i t = Ok (r, u)" "inv u" "load u \<le> load t"
    "case r of None \<Rightarrow> i \<notin> fst ` set_mset (entries t) \<and> entries u = entries t
             | Some p \<Rightarrow> entries t = add_mset (i, p) (entries u)"
    using take_ok [OF assms(1)] by blast
  show ?thesis
  proof (cases r)
    case None
    then have "lookup t i = None" "lookup u = lookup t" "distinct_ids u"
      using r(4) assms(2) by (auto simp: lookup_def ids_def fun_eq_iff distinct_ids_def)
    then show ?thesis using r None by (auto simp: fun_eq_iff)
  next
    case (Some p)
    then have e: "entries t = add_mset (i, p) (entries u)" using r(4) by simp
    have d: "distinct_ids u"
      unfolding distinct_ids_def
    proof
      fix k
      have "count (ids u) k \<le> count (ids t) k" by (simp add: ids_def e)
      then show "count (ids u) k \<le> 1" using assms(2) le_trans unfolding distinct_ids_def by blast
    qed
    have p: "lookup t i = Some p" using e lookup_entry [OF assms(2)] by simp
    have "count (ids t) i = Suc (count (ids u) i)" by (simp add: ids_def e)
    then have "count (ids u) i = 0" using assms(2) unfolding distinct_ids_def by (metis Suc_le_mono One_nat_def le_zero_eq)
    then have i: "lookup u i = None" by (simp add: lookup_None count_eq_zero_iff)
    have "lookup u k = ((lookup t)(i := None)) k" for k
    proof (cases "k = i")
      case False
      have "lookup u k = Some q \<longleftrightarrow> lookup t k = Some q" for q
        using False by (simp add: lookup_eq [OF d] lookup_eq [OF assms(2)] e)
      then show ?thesis using False by (metis fun_upd_other not_Some_eq)
    qed (simp add: i)
    then have "lookup u = (lookup t)(i := None)" by blast
    then show ?thesis using r Some d p by simp
  qed
qed

end

subsection \<open>The table keeps it\<close>

definition it_entries :: "'p IdTable \<Rightarrow> (64 word \<times> 'p) multiset" where
  "it_entries t = image_mset (\<lambda>e. (ie_id e, ie_data e)) (mset (concat (it_clauses t)))"

definition id_hash :: "64 word list \<Rightarrow> 64 word \<Rightarrow> 64 word" where
  "id_hash nonces i = nonces ! (unat i mod num_nonces) * i"

definition it_inv :: "'p IdTable \<Rightarrow> bool" where
  "it_inv t \<longleftrightarrow>
     length (it_clauses t) = unat (it_size_clauses t)
     \<and> placed ie_hash (it_size_clauses t) (it_clauses t)
     \<and> it_num_clauses t = of_nat (length (concat (it_clauses t)))
     \<and> length (concat (it_clauses t)) \<le> unat (it_size_clauses t)
     \<and> (\<forall>e \<in> set (concat (it_clauses t)). ie_hash e = id_hash (it_nonces t) (ie_id e))"

text \<open>A measure that grows by at most one with each insertion; below \<open>2 ^ 62\<close> doubling cannot wrap.\<close>

definition it_load :: "'p IdTable \<Rightarrow> nat" where
  "it_load t = max (length (concat (it_clauses t))) ((unat (it_size_clauses t) + 1) div 2)"

lemma it_init_ok: "it_inv it_init" "it_entries it_init = {#}" "it_load it_init = 0"
  by (simp_all add: it_inv_def it_init_def placed_def it_entries_def it_load_def)

lemma it_num_unat: "it_inv t \<Longrightarrow> unat (it_num_clauses t) = length (concat (it_clauses t))"
  using le_less_trans [OF _ unsigned_less, of "length (concat (it_clauses t))" "it_size_clauses t"]
  by (simp add: it_inv_def unat_of_nat)

lemma it_enlarge_ok:
  assumes "it_inv t" "it_load t < 2 ^ 62" "it_num_clauses t = it_size_clauses t"
  shows "\<exists>u. it_enlarge_clauses t = Ok u \<and> it_inv u \<and> it_entries u = it_entries t
    \<and> it_last_id u = it_last_id t \<and> it_num_clauses u \<noteq> it_size_clauses u
    \<and> unat (it_size_clauses u) \<le> 2 * Suc (length (concat (it_clauses u))) - 1 \<and> length (concat (it_clauses u)) = length (concat (it_clauses t))"
proof -
  let ?n = "if it_size_clauses t \<noteq> 0 then 2 * it_size_clauses t else 1 :: 64 word"
  have "unat (it_size_clauses t) < 2 ^ 63"
    using assms(2) by (simp add: it_load_def div_less_iff_less_mult)
  then have un: "unat ?n = (if it_size_clauses t \<noteq> 0 then 2 * unat (it_size_clauses t) else 1)"
    by (simp add: unat_word_ariths(2))
  have "unat ?n \<noteq> 0" unfolding un by (simp add: unat_eq_zero unat_gt_0)
  then have n: "?n \<noteq> 0" unfolding unat_eq_zero .
  obtain cs where cs: "rehash_table ie_hash ?n (it_clauses t) (replicate (unat ?n) []) = Ok cs"
    "length cs = unat ?n" "placed ie_hash ?n cs" "mset (concat cs) = mset (concat (it_clauses t))"
    using rehash_table_ok [OF n, of "replicate (unat ?n) []" ie_hash "it_clauses t"]
    by (auto simp: placed_def)
  have len: "length (concat cs) = length (concat (it_clauses t))" using cs(4) by (metis size_mset)
  have st: "set (concat cs) = set (concat (it_clauses t))" using cs(4) by (metis set_mset_mset)
  let ?u = "t\<lparr>it_clauses := cs, it_size_clauses := ?n\<rparr>"
  have lt: "length (concat (it_clauses t)) < unat ?n"
    unfolding un it_num_unat [OF assms(1), symmetric] assms(3) by (simp add: unat_gt_0)
  have "it_inv ?u"
    using assms(1) cs(2,3) len st lt unfolding it_inv_def by simp
  moreover have "it_num_clauses ?u \<noteq> it_size_clauses ?u"
    using it_num_unat [OF assms(1)] lt by auto
  moreover have "unat (it_size_clauses ?u) \<le> 2 * Suc (length (concat (it_clauses ?u))) - 1"
    using it_num_unat [OF assms(1)] len un assms(3) by simp
  ultimately show ?thesis
    using cs(1,4) len by (auto simp: it_enlarge_clauses_def Let_def it_entries_def)
qed

lemma it_insert_ok:
  assumes "it_inv t" "it_load t < 2 ^ 62"
  shows "\<exists>u. it_insert p t = Ok u \<and> it_inv u \<and> it_load u \<le> Suc (it_load t)
    \<and> it_entries u = add_mset (it_last_id t, p) (it_entries t)"
proof -
  obtain u where u: "(if it_num_clauses t = it_size_clauses t then it_enlarge_clauses t else Ok t) = Ok u"
    "it_inv u" "it_entries u = it_entries t" "it_last_id u = it_last_id t" "it_num_clauses u \<noteq> it_size_clauses u"
    "length (concat (it_clauses u)) = length (concat (it_clauses t))"
    "(unat (it_size_clauses u) + 1) div 2 \<le> Suc (it_load t)"
  proof (cases "it_num_clauses t = it_size_clauses t")
    case True
    then obtain u where "it_enlarge_clauses t = Ok u" "it_inv u" "it_entries u = it_entries t"
      "it_last_id u = it_last_id t" "it_num_clauses u \<noteq> it_size_clauses u"
      "length (concat (it_clauses u)) = length (concat (it_clauses t))"
      "unat (it_size_clauses u) \<le> 2 * Suc (length (concat (it_clauses u))) - 1"
      using it_enlarge_ok [OF assms] by blast
    then show ?thesis using that [of u] True by (simp add: it_load_def)
  next
    case False
    then show ?thesis using that [of t] assms(1) by (simp add: it_load_def)
  qed
  let ?hash = "id_hash (it_nonces u) (it_last_id t)"
  let ?e = "\<lparr>ie_hash = ?hash, ie_id = it_last_id t, ie_data = p\<rparr>"
  have nz: "it_size_clauses u \<noteq> 0" using u(2,5) by (auto simp: it_inv_def)
  obtain h where h: "reduce_hash ?hash (it_size_clauses u) = Some h" using reduce_hash_total [OF nz] by blast
  have hb: "unat h < length (it_clauses u)" using reduce_hash_bound [OF h nz] u(2) by (simp add: it_inv_def)
  let ?cs = "(it_clauses u)[unat h := ?e # it_clauses u ! unat h]"
  let ?v = "u\<lparr>it_last_hash := ?hash, it_num_clauses := it_num_clauses u + 1, it_clauses := ?cs\<rparr>"
  have "it_insert p t = Ok ?v"
    using u(1,4) h by (simp add: it_insert_def it_compute_hash_def id_hash_def it_new_clause_def Let_def)
  moreover have ms: "mset (concat ?cs) = add_mset ?e (mset (concat (it_clauses u)))"
    using mset_concat_cons [OF hb] .
  have len: "length (concat ?cs) = Suc (length (concat (it_clauses u)))"
    using arg_cong [OF ms, of size] by simp
  have st: "set (concat ?cs) = insert ?e (set (concat (it_clauses u)))"
    using arg_cong [OF ms, of set_mset] by simp
  have "length (concat (it_clauses u)) < unat (it_size_clauses u)"
    using u(2,5) it_num_unat [OF u(2)] by (metis it_inv_def le_neq_implies_less word_unat_eq_iff)
  then have "it_inv ?v"
    using u(2) len st placed_cons [of ie_hash "it_size_clauses u" "it_clauses u" ?e h "unat h"] h
    unfolding it_inv_def by simp
  moreover have "it_entries ?v = add_mset (it_last_id t, p) (it_entries t)"
    using ms u(3) by (simp add: it_entries_def)
  moreover have "it_load ?v \<le> Suc (it_load t)" using u(6,7) len by (simp add: it_load_def)
  ultimately show ?thesis by blast
qed

lemma placed_remove:
  assumes "placed hash n t"
  shows "placed hash n (t[h := remove_nth k (t ! h)])"
  unfolding placed_def
proof (intro allI impI ballI)
  fix i a assume i: "i < length (t[h := remove_nth k (t ! h)])" and a: "a \<in> set (t[h := remove_nth k (t ! h)] ! i)"
  then have "a \<in> set (t ! i)" using set_remove_nth [of k "t ! h"] by (cases "i = h") auto
  then show "\<exists>h. reduce_hash (hash a) n = Some h \<and> unat h = i" using assms i by (simp add: placed_def)
qed

lemma it_take_ok:
  assumes "it_inv t"
  shows "\<exists>r u. it_find_and_delete i t = Ok (r, u) \<and> it_inv u \<and> it_load u \<le> it_load t
        \<and> (case r of None \<Rightarrow> i \<notin> fst ` set_mset (it_entries t) \<and> it_entries u = it_entries t
                   | Some p \<Rightarrow> it_entries t = add_mset (i, p) (it_entries u))"
proof (cases "it_num_clauses t = 0")
  case True
  then have "concat (it_clauses t) = []" using it_num_unat [OF assms] by (metis length_0_conv unat_0)
  then show ?thesis using assms True by (simp add: it_find_and_delete_def it_entries_def del: concat_eq_Nil_conv set_concat)
next
  case False
  let ?hash = "id_hash (it_nonces t) i"
  let ?t = "t\<lparr>it_last_hash := ?hash\<rparr>"
  have nz: "it_size_clauses t \<noteq> 0" using False assms by (auto simp: it_inv_def)
  obtain h where h: "reduce_hash ?hash (it_size_clauses t) = Some h" using reduce_hash_total [OF nz] by blast
  have hb: "unat h < length (it_clauses t)" using reduce_hash_bound [OF h nz] assms by (simp add: it_inv_def)
  let ?chain = "it_clauses t ! unat h"
  let ?find = "List.find (\<lambda>k. ie_hash (?chain ! k) = ?hash \<and> ie_id (?chain ! k) = i) [0..<length ?chain]"
  have run: "it_find_and_delete i t = (case ?find of None \<Rightarrow> Ok (None, ?t)
      | Some k \<Rightarrow> Ok (Some (ie_data (?chain ! k)), it_delete_clause (?t\<lparr>it_clauses := (it_clauses t)[unat h := remove_nth k ?chain]\<rparr>)))"
    using False h by (simp add: it_find_and_delete_def it_compute_hash_def Let_def id_hash_def split: option.split)
  show ?thesis
  proof (cases ?find)
    case None
    have "ie_id e \<noteq> i" if e: "e \<in> set (concat (it_clauses t))" for e
    proof
      assume ei: "ie_id e = i"
      then have he: "ie_hash e = ?hash" using e assms by (auto simp: it_inv_def)
      obtain b where b: "b < length (it_clauses t)" "e \<in> set (it_clauses t ! b)"
        using e by (metis UN_E in_set_conv_nth set_concat)
      then have "b = unat h" using assms h he by (fastforce simp: it_inv_def placed_def)
      then obtain k where "k < length ?chain" "?chain ! k = e" using b(2) by (auto simp: in_set_conv_nth)
      then show False using None ei he by (auto simp: find_range_None)
    qed
    then have "i \<notin> fst ` set_mset (it_entries t)" by (force simp: it_entries_def)
    moreover have "it_inv ?t" "it_entries ?t = it_entries t" using assms by (simp_all add: it_inv_def it_entries_def)
    moreover have "it_load ?t = it_load t" by (simp add: it_load_def)
    ultimately show ?thesis using run None by simp
  next
    case (Some k)
    then have k: "k < length ?chain" "ie_id (?chain ! k) = i" using find_range_Some [OF Some] by auto
    let ?cs = "(it_clauses t)[unat h := remove_nth k ?chain]"
    let ?u = "it_delete_clause (?t\<lparr>it_clauses := ?cs\<rparr>)"
    have ms: "mset (concat (it_clauses t)) = add_mset (?chain ! k) (mset (concat ?cs))"
      using mset_concat_update [OF hb mset_remove_nth [OF k(1)]] .
    have len: "length (concat (it_clauses t)) = Suc (length (concat ?cs))"
      using arg_cong [OF ms, of size] by simp
    have st: "set (concat ?cs) \<subseteq> set (concat (it_clauses t))"
      using arg_cong [OF ms, of set_mset] by auto
    have "it_num_clauses t = of_nat (Suc (length (concat ?cs)))" using assms len by (simp add: it_inv_def)
    then have "it_num_clauses t - 1 = of_nat (length (concat ?cs))" by simp
    then have "it_inv ?u"
      using assms len st placed_remove [of ie_hash "it_size_clauses t" "it_clauses t" "unat h" k]
      unfolding it_inv_def it_delete_clause_def by auto
    moreover have "it_entries t = add_mset (i, ie_data (?chain ! k)) (it_entries ?u)"
      using ms k(2) by (simp add: it_entries_def it_delete_clause_def)
    moreover have "it_load ?u \<le> it_load t" using len by (simp add: it_load_def it_delete_clause_def)
    ultimately show ?thesis using run Some by simp
  qed
qed

interpretation it: id_store it_inv it_load "2 ^ 62" it_entries it_insert_id it_find_and_delete
proof
  fix t :: "'a IdTable" and i p
  assume inv: "it_inv t"
  show "\<exists>r u. it_find_and_delete i t = Ok (r, u) \<and> it_inv u \<and> it_load u \<le> it_load t
        \<and> (case r of None \<Rightarrow> i \<notin> fst ` set_mset (it_entries t) \<and> it_entries u = it_entries t
                   | Some p \<Rightarrow> it_entries t = add_mset (i, p) (it_entries u))"
    by (rule it_take_ok [OF inv])
  assume room: "it_load t < 2 ^ 62"
  have "it_inv (t\<lparr>it_last_id := i\<rparr>)" "it_load (t\<lparr>it_last_id := i\<rparr>) = it_load t"
    "it_entries (t\<lparr>it_last_id := i\<rparr>) = it_entries t"
    using inv room by (simp_all add: it_inv_def it_load_def it_entries_def)
  then show "\<exists>u. it_insert_id i p t = Ok u \<and> it_inv u \<and> it_load u \<le> Suc (it_load t) \<and> it_entries u = add_mset (i, p) (it_entries t)"
    using it_insert_ok [of "t\<lparr>it_last_id := i\<rparr>" p] room by (simp add: it_insert_id_def)
qed

end
