(* ===== verification/Veripb_Tracer.thy ===== *)
theory Veripb_Tracer
  imports Clause_Tracers Id_Table Proof_Check
begin

text \<open>
  The VeriPB tracer (\<^verbatim>\<open>veripbtracer.cpp\<close>): clauses as pseudo-Boolean constraints, derived by
  reverse unit propagation or by a cutting-planes derivation read off the antecedents.  With
  checked deletions the tracer remembers the weakened clauses in a hash table, so that their
  deletion is not reported.  The specification is the list of proof lines a run is due to write,
  given by a multiset of identifiers instead of the table.
\<close>

subsection \<open>The code\<close>

record VeripbTracer =
  vp_file :: File
  vp_with_antecedents :: bool
  vp_checked_deletions :: bool
  vp_table :: "unit IdTable"
  vp_added :: int
  vp_deleted :: int

definition veripb_init :: "File \<Rightarrow> bool \<Rightarrow> bool \<Rightarrow> VeripbTracer" where
  "veripb_init f a c = \<lparr>vp_file = f, vp_with_antecedents = a, vp_checked_deletions = c,
     vp_table = it_init, vp_added = 0, vp_deleted = 0\<rparr>"

definition veripb_find_and_delete :: "64 word \<Rightarrow> VeripbTracer \<Rightarrow> (bool \<times> VeripbTracer) outcome" where
  "veripb_find_and_delete i t =
     bind_outcome (it_find_and_delete i (vp_table t))
       (\<lambda>(r, tab). Ok (r \<noteq> None, t\<lparr>vp_table := tab\<rparr>))"

text \<open>One literal \<^verbatim>\<open>1 [~]x<var> \<close> of a constraint.\<close>

definition veripb_put_lit :: "int \<Rightarrow> File \<Rightarrow> File" where
  "veripb_put_lit l f =
     (let f = put_string ''1 '' f;
          f = (if l < 0 then put_char (CHR ''~'') f else f);
          f = put_char (CHR ''x'') f;
          f = put_int \<bar>l\<bar> f
      in put_char (CHR '' '') f)"

definition veripb_put_core :: "64 word \<Rightarrow> bool \<Rightarrow> VeripbTracer \<Rightarrow> File \<Rightarrow> File" where
  "veripb_put_core i redundant t f =
     (if \<not> redundant \<and> vp_checked_deletions t
      then put_string [newline] (put_uint64 i (put_string ''core id '' f)) else f)"

text \<open>The reversed loop over the antecedents, with its flag \<open>first\<close>.\<close>

fun veripb_put_chain :: "64 word list \<Rightarrow> bool \<Rightarrow> File \<Rightarrow> File" where
  "veripb_put_chain [] first f = f"
| "veripb_put_chain (cid # ids) first f =
     veripb_put_chain ids False
       (if first then put_uint64 cid f
        else put_string '' + s'' (put_uint64 cid (put_char (CHR '' '') f)))"

definition veripb_derive_chain ::
    "64 word \<Rightarrow> bool \<Rightarrow> int list \<Rightarrow> 64 word list \<Rightarrow> VeripbTracer \<Rightarrow> VeripbTracer" where
  "veripb_derive_chain i redundant clause chain t =
     (let f = put_string ''pol '' (vp_file t);
          f = veripb_put_chain (rev chain) True f;
          f = put_string [newline] f;
          f = put_string ''e '' f;
          f = put_uint64 i f;
          f = put_string '' : '' f;
          f = fold veripb_put_lit clause f;
          f = put_string (''>= 1 ;'' @ [newline]) f
      in t\<lparr>vp_file := veripb_put_core i redundant t f\<rparr>)"

definition veripb_derive_rup :: "64 word \<Rightarrow> bool \<Rightarrow> int list \<Rightarrow> VeripbTracer \<Rightarrow> VeripbTracer" where
  "veripb_derive_rup i redundant clause t =
     (let f = put_string ''rup '' (vp_file t);
          f = fold veripb_put_lit clause f;
          f = put_string (''>= 1 ;'' @ [newline]) f
      in t\<lparr>vp_file := veripb_put_core i redundant t f\<rparr>)"

definition veripb_put_begin :: "64 word \<Rightarrow> VeripbTracer \<Rightarrow> VeripbTracer" where
  "veripb_put_begin reserved_ids t =
     (let f = put_string (''pseudo-Boolean proof version 2.0'' @ [newline]) (vp_file t);
          f = put_string ''f '' f;
          f = put_uint64 reserved_ids f
      in t\<lparr>vp_file := put_string [newline] f\<rparr>)"

definition veripb_put_delete :: "64 word \<Rightarrow> bool \<Rightarrow> VeripbTracer \<Rightarrow> VeripbTracer outcome" where
  "veripb_put_delete i redundant t =
     bind_outcome
       (if \<not> redundant \<and> vp_checked_deletions t then veripb_find_and_delete i t else Ok (False, t))
       (\<lambda>(found, t).
          if found then Ok t
          else
            (let f = (if redundant \<or> \<not> vp_checked_deletions t then put_string ''del id '' (vp_file t)
                      else put_string ''delc '' (vp_file t));
                 f = put_uint64 i f
             in Ok (t\<lparr>vp_file := put_string [newline] f\<rparr>)))"

definition veripb_put_status :: "bool \<Rightarrow> 64 word \<Rightarrow> VeripbTracer \<Rightarrow> VeripbTracer" where
  "veripb_put_status is_unsat conflict_id t =
     (let f = put_string (''output NONE'' @ [newline]) (vp_file t);
          f = (if is_unsat then put_string ('' '' @ [newline]) (put_uint64 conflict_id (put_string ''conclusion UNSAT : '' f))
               else put_string (''conclusion NONE'' @ [newline]) f)
      in t\<lparr>vp_file := put_string (''end pseudo-Boolean proof'' @ [newline]) f\<rparr>)"

definition veripb_put_strengthen :: "64 word \<Rightarrow> VeripbTracer \<Rightarrow> VeripbTracer" where
  "veripb_put_strengthen i t =
     (if \<not> vp_checked_deletions t then t
      else t\<lparr>vp_file := put_string [newline] (put_uint64 i (put_string ''core id '' (vp_file t)))\<rparr>)"

definition veripb_begin_proof :: "64 word \<Rightarrow> VeripbTracer \<Rightarrow> VeripbTracer" where
  "veripb_begin_proof i t = (if file_closed (vp_file t) then t else veripb_put_begin i t)"

definition veripb_add_derived_clause ::
    "64 word \<Rightarrow> bool \<Rightarrow> int list \<Rightarrow> 64 word list \<Rightarrow> VeripbTracer \<Rightarrow> VeripbTracer" where
  "veripb_add_derived_clause i redundant clause chain t =
     (if file_closed (vp_file t) then t
      else
        (let t = (if vp_with_antecedents t then veripb_derive_chain i redundant clause chain t
                  else veripb_derive_rup i redundant clause t)
         in t\<lparr>vp_added := vp_added t + 1\<rparr>))"

definition veripb_delete_clause :: "64 word \<Rightarrow> bool \<Rightarrow> VeripbTracer \<Rightarrow> VeripbTracer outcome" where
  "veripb_delete_clause i redundant t =
     (if file_closed (vp_file t) then Ok t
      else bind_outcome (veripb_put_delete i redundant t) (\<lambda>t. Ok (t\<lparr>vp_deleted := vp_deleted t + 1\<rparr>)))"

definition veripb_report_status :: "int \<Rightarrow> 64 word \<Rightarrow> VeripbTracer \<Rightarrow> VeripbTracer" where
  "veripb_report_status status conflict_id t =
     (if file_closed (vp_file t) then t else veripb_put_status (status = 20) conflict_id t)"

definition veripb_weaken_minus :: "64 word \<Rightarrow> VeripbTracer \<Rightarrow> VeripbTracer outcome" where
  "veripb_weaken_minus i t =
     (if \<not> vp_checked_deletions t then Ok t
      else if file_closed (vp_file t) then Ok t
      else bind_outcome (it_insert_id i () (vp_table t)) (\<lambda>tab. Ok (t\<lparr>vp_table := tab\<rparr>)))"

definition veripb_strengthen :: "64 word \<Rightarrow> VeripbTracer \<Rightarrow> VeripbTracer" where
  "veripb_strengthen i t = (if file_closed (vp_file t) then t else veripb_put_strengthen i t)"

definition veripb_close :: "VeripbTracer \<Rightarrow> VeripbTracer" where
  "veripb_close t = t\<lparr>vp_file := file_close (vp_file t)\<rparr>"

definition veripb_flush :: "VeripbTracer \<Rightarrow> VeripbTracer" where
  "veripb_flush t = t\<lparr>vp_file := file_flush (vp_file t)\<rparr>"

subsection \<open>What a run is due to write\<close>

datatype veripb_call =
  VBegin "64 word" | VDerive "64 word" bool clause "64 word list" | VDelete "64 word" bool
  | VStatus int "64 word" | VWeaken "64 word" | VStrengthen "64 word"

fun veripb_trace :: "veripb_call \<Rightarrow> VeripbTracer \<Rightarrow> VeripbTracer outcome" where
  "veripb_trace (VBegin i) t = Ok (veripb_begin_proof i t)"
| "veripb_trace (VDerive i r c chain) t = Ok (veripb_add_derived_clause i r c chain t)"
| "veripb_trace (VDelete i r) t = veripb_delete_clause i r t"
| "veripb_trace (VStatus st i) t = Ok (veripb_report_status st i t)"
| "veripb_trace (VWeaken i) t = veripb_weaken_minus i t"
| "veripb_trace (VStrengthen i) t = Ok (veripb_strengthen i t)"

datatype veripb_line =
  VpVersion | VpFormula nat | VpPol "nat list" | VpExpect nat clause | VpRup clause | VpCore nat
  | VpDel nat | VpDelCore nat | VpOutputNone | VpUnsat nat | VpNone | VpEnd

definition show_pb :: "clause \<Rightarrow> string" where
  "show_pb c = concat (map (\<lambda>l. ''1 '' @ (if l < 0 then ''~'' else []) @ ''x'' @ show_int \<bar>l\<bar> @ '' '') c) @ ''>= 1 ;''"

text \<open>A cutting-planes derivation in reverse Polish notation: add the next constraint, saturate.\<close>

fun show_pol :: "nat list \<Rightarrow> string" where
  "show_pol [] = []"
| "show_pol (i # is) = show_nat i @ concat (map (\<lambda>j. '' '' @ show_nat j @ '' + s'') is)"

fun show_veripb :: "veripb_line \<Rightarrow> string" where
  "show_veripb VpVersion = ''pseudo-Boolean proof version 2.0''"
| "show_veripb (VpFormula n) = ''f '' @ show_nat n"
| "show_veripb (VpPol ids) = ''pol '' @ show_pol ids"
| "show_veripb (VpExpect i c) = ''e '' @ show_nat i @ '' : '' @ show_pb c"
| "show_veripb (VpRup c) = ''rup '' @ show_pb c"
| "show_veripb (VpCore i) = ''core id '' @ show_nat i"
| "show_veripb (VpDel i) = ''del id '' @ show_nat i"
| "show_veripb (VpDelCore i) = ''delc '' @ show_nat i"
| "show_veripb VpOutputNone = ''output NONE''"
| "show_veripb (VpUnsat i) = ''conclusion UNSAT : '' @ show_nat i @ '' ''"
| "show_veripb VpNone = ''conclusion NONE''"
| "show_veripb VpEnd = ''end pseudo-Boolean proof''"

definition show_lines :: "veripb_line list \<Rightarrow> string" where
  "show_lines ls = concat (map (\<lambda>l. show_veripb l @ [newline]) ls)"

text \<open>
  The lines of one call and the multiset of weakened identifiers after it: a core clause that was
  weakened is not deleted in the proof, its identifier is only forgotten.
\<close>

fun veripb_spec :: "bool \<Rightarrow> bool \<Rightarrow> veripb_call \<Rightarrow> (64 word) multiset \<Rightarrow> veripb_line list \<times> (64 word) multiset" where
  "veripb_spec ante checked (VBegin i) w = ([VpVersion, VpFormula (unat i)], w)"
| "veripb_spec ante checked (VDerive i r c chain) w =
     ((if ante then [VpPol (map unat (rev chain)), VpExpect (unat i) c] else [VpRup c])
        @ (if \<not> r \<and> checked then [VpCore (unat i)] else []), w)"
| "veripb_spec ante checked (VDelete i r) w =
     (if r \<or> \<not> checked then ([VpDel (unat i)], w)
      else if i \<in># w then ([], w - {#i#})
      else ([VpDelCore (unat i)], w))"
| "veripb_spec ante checked (VStatus st i) w =
     ([VpOutputNone, if st = 20 then VpUnsat (unat i) else VpNone, VpEnd], w)"
| "veripb_spec ante checked (VWeaken i) w = ([], if checked then add_mset i w else w)"
| "veripb_spec ante checked (VStrengthen i) w = (if checked then [VpCore (unat i)] else [], w)"

fun veripb_spec_run :: "bool \<Rightarrow> bool \<Rightarrow> veripb_call list \<Rightarrow> (64 word) multiset \<Rightarrow> veripb_line list \<times> (64 word) multiset" where
  "veripb_spec_run ante checked [] w = ([], w)"
| "veripb_spec_run ante checked (c # cs) w =
     (let (ls, w) = veripb_spec ante checked c w; (ls', w) = veripb_spec_run ante checked cs w in (ls @ ls', w))"

subsection \<open>The tracer writes it\<close>

lemma show_lines_simps [simp]:
  "show_lines [] = []" "show_lines (l # ls) = show_veripb l @ newline # show_lines ls"
  "show_lines (ls @ ls') = show_lines ls @ show_lines ls'"
  by (simp_all add: show_lines_def)

lemma put_lit_string:
  "veripb_put_lit l f = put_string (''1 '' @ (if l < 0 then ''~'' else []) @ ''x'' @ show_int \<bar>l\<bar> @ '' '') f"
  by (simp add: veripb_put_lit_def put_simps Let_def)

lemma put_lits_pb_string:
  "fold veripb_put_lit c f =
   put_string (concat (map (\<lambda>l. ''1 '' @ (if l < 0 then ''~'' else []) @ ''x'' @ show_int \<bar>l\<bar> @ '' '') c)) f"
  by (rule fold_put_string [OF put_lit_string])

lemma put_chain_rest:
  "veripb_put_chain is False f = put_string (concat (map (\<lambda>j. '' '' @ show_nat (unat j) @ '' + s'') is)) f"
  by (induction "is" arbitrary: f) (simp_all add: put_simps)

lemma put_chain_string: "veripb_put_chain is True f = put_string (show_pol (map unat is)) f"
  by (cases "is") (simp_all add: put_simps put_chain_rest comp_def)

lemma put_core_string:
  "veripb_put_core i r t f = put_string (show_lines (if \<not> r \<and> vp_checked_deletions t then [VpCore (unat i)] else [])) f"
  by (simp add: veripb_put_core_def put_simps)

lemma derive_string:
  "veripb_derive_chain i r c chain t = t\<lparr>vp_file :=
     put_string (show_lines (fst (veripb_spec True (vp_checked_deletions t) (VDerive i r c chain) w))) (vp_file t)\<rparr>"
  "veripb_derive_rup i r c t = t\<lparr>vp_file :=
     put_string (show_lines (fst (veripb_spec False (vp_checked_deletions t) (VDerive i r c chain) w))) (vp_file t)\<rparr>"
  by (simp_all add: veripb_derive_chain_def veripb_derive_rup_def Let_def put_core_string put_chain_string
      put_simps put_lits_pb_string show_pb_def)

text \<open>The state of a run: the table is sound and the file holds the lines written so far.\<close>

definition vp_state :: "VeripbTracer \<Rightarrow> (64 word) multiset \<Rightarrow> bool" where
  "vp_state t w \<longleftrightarrow> fl_open (vp_file t) \<and> it_inv (vp_table t) \<and> it.ids (vp_table t) = w"

definition vp_same :: "VeripbTracer \<Rightarrow> VeripbTracer \<Rightarrow> bool" where
  "vp_same t u \<longleftrightarrow> vp_with_antecedents u = vp_with_antecedents t \<and> vp_checked_deletions u = vp_checked_deletions t"

lemma veripb_trace_spec:
  assumes "vp_state t w" "it_load (vp_table t) < 2 ^ 62"
    and "veripb_spec (vp_with_antecedents t) (vp_checked_deletions t) call w = (ls, w')"
  shows "\<exists>u. veripb_trace call t = Ok u \<and> vp_state u w' \<and> vp_same t u
    \<and> it_load (vp_table u) \<le> Suc (it_load (vp_table t))
    \<and> vp_file u = put_string (show_lines ls) (vp_file t)"
proof -
  note st = assms(1) [unfolded vp_state_def]
  note [simp] = vp_state_def vp_same_def file_closed_def
  show ?thesis
  proof (cases call)
    case (VBegin i)
    then show ?thesis using st assms(3)
      by (auto simp: veripb_begin_proof_def veripb_put_begin_def put_simps Let_def)
  next
    case (VDerive i r c chain)
    moreover from VDerive have "w' = w" using assms(3) by auto
    ultimately show ?thesis using st assms(3) derive_string(1) [of i r c chain t w] derive_string(2) [of i r c t chain w]
      by (auto simp: veripb_add_derived_clause_def Let_def simp del: veripb_spec.simps)
  next
    case (VDelete i r)
    show ?thesis
    proof (cases "r \<or> \<not> vp_checked_deletions t")
      case True
      then show ?thesis using st assms(3) VDelete
        by (auto simp: veripb_delete_clause_def veripb_put_delete_def put_simps Let_def)
    next
      case False
      obtain res tab where tab: "it_find_and_delete i (vp_table t) = Ok (res, tab)" "it_inv tab"
        "it_load tab \<le> it_load (vp_table t)" "(res \<noteq> None) = (i \<in># w)" "it.ids tab = w - {#i#}"
        using it.take_ids [of "vp_table t" i] st by blast
      then show ?thesis using st assms(3) VDelete False
        by (auto simp: veripb_delete_clause_def veripb_put_delete_def veripb_find_and_delete_def put_simps Let_def
            diff_single_trivial split: if_splits)
    qed
  next
    case (VStatus s i)
    then show ?thesis using st assms(3)
      by (auto simp: veripb_report_status_def veripb_put_status_def put_simps Let_def)
  next
    case (VWeaken i)
    obtain tab where "it_insert_id i () (vp_table t) = Ok tab" "it_inv tab" "it_load tab \<le> Suc (it_load (vp_table t))"
        "it_entries tab = add_mset (i, ()) (it_entries (vp_table t))"
      using it.ins_ok [of "vp_table t" i "()"] st assms(2) by blast
    then show ?thesis using st assms(3) VWeaken by (auto simp: veripb_weaken_minus_def it.ids_def)
  next
    case (VStrengthen i)
    then show ?thesis using st assms(3)
      by (auto simp: veripb_strengthen_def veripb_put_strengthen_def put_simps split: if_splits)
  qed
qed

lemma veripb_run_spec:
  assumes "vp_state t w" "it_load (vp_table t) + length calls \<le> 2 ^ 62"
    and "veripb_spec_run (vp_with_antecedents t) (vp_checked_deletions t) calls w = (ls, w')"
  shows "\<exists>u. fold_outcome veripb_trace calls t = Ok u \<and> vp_state u w'
    \<and> vp_file u = put_string (show_lines ls) (vp_file t)"
  using assms
proof (induction calls arbitrary: t w ls)
  case (Cons call calls)
  let ?a = "vp_with_antecedents t" and ?c = "vp_checked_deletions t"
  obtain l1 w1 where s1: "veripb_spec ?a ?c call w = (l1, w1)" by fastforce
  obtain l2 w2 where s2: "veripb_spec_run ?a ?c calls w1 = (l2, w2)" by fastforce
  have ls: "ls = l1 @ l2" "w' = w2" using Cons.prems(3) s1 s2 by auto
  have "it_load (vp_table t) < 2 ^ 62" using Cons.prems(2) by simp
  from veripb_trace_spec [OF Cons.prems(1) this s1] obtain u where
    u: "veripb_trace call t = Ok u" "vp_state u w1" "vp_same t u"
      "it_load (vp_table u) \<le> Suc (it_load (vp_table t))" "vp_file u = put_string (show_lines l1) (vp_file t)"
    by blast
  have "it_load (vp_table u) + length calls \<le> 2 ^ 62" using u(4) Cons.prems(2) by simp
  moreover have "veripb_spec_run (vp_with_antecedents u) (vp_checked_deletions u) calls w1 = (l2, w')"
    using s2 u(3) ls(2) by (simp add: vp_same_def)
  ultimately obtain v where
    "fold_outcome veripb_trace calls u = Ok v" "vp_state v w'" "vp_file v = put_string (show_lines l2) (vp_file u)"
    using Cons.IH [OF u(2)] by blast
  then show ?case using u(1,5) ls by (simp add: put_string_append)
qed simp

end
