(* ===== verification/Idrup_Tracer.thy ===== *)
theory Idrup_Tracer
  imports Tracer_Codes Id_Table
begin

text \<open>
  The IDRUP tracer for incremental solving (\<^verbatim>\<open>idruptracer.cpp\<close>): besides clauses it logs
  queries with their assumptions, models and failed-assumption cores, and remembers weakened
  clauses and assumption clauses in a hash table until they are deleted or concluded.  The
  specification replaces the table by a finite map and the bytes by proof lines.
\<close>

subsection \<open>The code\<close>

record IdrupTracer =
  iu_file :: File
  iu_binary :: bool
  iu_piping :: bool
  iu_table :: "int list IdTable"
  iu_imported_clause :: "int list"
  iu_assumptions :: "int list"
  iu_added :: int
  iu_deleted :: int
  iu_weakened :: int
  iu_restore :: int
  iu_original :: int
  iu_solved :: int

text \<open>The constructor leaves the last four counters as it finds them: \<open>(w, r, q, s)\<close>.\<close>

definition idrup_init :: "File \<Rightarrow> bool \<Rightarrow> bool \<Rightarrow> int \<times> int \<times> int \<times> int \<Rightarrow> IdrupTracer" where
  "idrup_init f b piping junk =
     (let (w, r, q, s) = junk
      in \<lparr>iu_file = f, iu_binary = b, iu_piping = piping, iu_table = it_init, iu_imported_clause = [],
          iu_assumptions = [], iu_added = 0, iu_deleted = 0, iu_weakened = w, iu_restore = r,
          iu_original = q, iu_solved = s\<rparr>)"

definition idrup_find_and_delete :: "64 word \<Rightarrow> IdrupTracer \<Rightarrow> (bool \<times> IdrupTracer) outcome" where
  "idrup_find_and_delete i t =
     bind_outcome (it_find_and_delete i (iu_table t))
       (\<lambda>(r, tab).
          let t = t\<lparr>iu_table := tab\<rparr>
          in case r of
               None \<Rightarrow> Ok (False, t)
             | Some literals \<Rightarrow> Ok (True, t\<lparr>iu_imported_clause := iu_imported_clause t @ literals\<rparr>))"

text \<open>\<^verbatim>\<open>last_id = id; insert ()\<close>.\<close>

definition idrup_insert :: "64 word \<Rightarrow> IdrupTracer \<Rightarrow> IdrupTracer outcome" where
  "idrup_insert i t =
     bind_outcome (it_insert_id i (iu_imported_clause t) (iu_table t)) (\<lambda>tab. Ok (t\<lparr>iu_table := tab\<rparr>))"

definition idrup_flush_if_piping :: "IdrupTracer \<Rightarrow> IdrupTracer" where
  "idrup_flush_if_piping t = (if iu_piping t then t\<lparr>iu_file := file_flush (iu_file t)\<rparr> else t)"

definition put_letter :: "bool \<Rightarrow> char \<Rightarrow> File \<Rightarrow> File" where
  "put_letter binary ch f = (if binary then put_char ch f else put_string [ch, CHR '' ''] f)"

definition idrup_put_restored :: "int list \<Rightarrow> IdrupTracer \<Rightarrow> IdrupTracer" where
  "idrup_put_restored clause t =
     (let f = put_letter (iu_binary t) (CHR ''r'') (iu_file t);
          f = put_lits (iu_binary t) clause f
      in t\<lparr>iu_file := put_end (iu_binary t) f\<rparr>)"

definition idrup_put_derived :: "int list \<Rightarrow> IdrupTracer \<Rightarrow> IdrupTracer" where
  "idrup_put_derived clause t =
     (let f = put_letter (iu_binary t) (CHR ''l'') (iu_file t);
          f = put_lits (iu_binary t) clause f
      in t\<lparr>iu_file := put_end (iu_binary t) f\<rparr>)"

definition idrup_put_original :: "int list \<Rightarrow> IdrupTracer \<Rightarrow> IdrupTracer" where
  "idrup_put_original clause t =
     (let f = put_letter (iu_binary t) (CHR ''i'') (iu_file t);
          f = put_lits (iu_binary t) clause f
      in t\<lparr>iu_file := put_end (iu_binary t) f\<rparr>)"

definition idrup_put_delete :: "64 word \<Rightarrow> int list \<Rightarrow> IdrupTracer \<Rightarrow> IdrupTracer outcome" where
  "idrup_put_delete i clause t =
     bind_outcome (idrup_find_and_delete i t)
       (\<lambda>(found, t).
          let t = (if found
                   then t\<lparr>iu_file := put_letter (iu_binary t) (CHR ''w'') (iu_file t),
                          iu_weakened := iu_weakened t + 1\<rparr>
                   else t\<lparr>iu_file := put_letter (iu_binary t) (CHR ''d'') (iu_file t),
                          iu_deleted := iu_deleted t + 1\<rparr>);
              f = put_lits (iu_binary t) clause (iu_file t)
          in Ok (t\<lparr>iu_file := put_end (iu_binary t) f\<rparr>))"

fun idrup_conclude_loop :: "64 word list \<Rightarrow> IdrupTracer \<Rightarrow> IdrupTracer outcome" where
  "idrup_conclude_loop [] t = Ok t"
| "idrup_conclude_loop (i # ids) t =
     (let t = t\<lparr>iu_file := put_letter (iu_binary t) (CHR ''u'') (iu_file t)\<rparr>
      in bind_outcome (idrup_find_and_delete i t)
           (\<lambda>(_, t).
              let f = put_lits (iu_binary t) (map uminus (iu_imported_clause t)) (iu_file t);
                  f = put_end (iu_binary t) f
              in idrup_conclude_loop ids (t\<lparr>iu_file := f, iu_imported_clause := []\<rparr>)))"

definition idrup_conclude_and_delete :: "64 word list \<Rightarrow> IdrupTracer \<Rightarrow> IdrupTracer outcome" where
  "idrup_conclude_and_delete conclusion t =
     (let size = word_of_nat (length conclusion) :: 64 word;
          t = (if size > 1
               then t\<lparr>iu_file :=
                 (if iu_binary t then put_leb128 size (put_char (CHR ''U'') (iu_file t))
                  else put_string [newline] (put_uint64 size (put_string ''U '' (iu_file t))))\<rparr>
               else t)
      in bind_outcome (idrup_conclude_loop conclusion t) (\<lambda>t. Ok (idrup_flush_if_piping t)))"

definition idrup_put_status :: "int \<Rightarrow> IdrupTracer \<Rightarrow> IdrupTracer" where
  "idrup_put_status status t =
     (let f = put_letter (iu_binary t) (CHR ''s'') (iu_file t);
          f = (if status = 10 then put_string ''SATISFIABLE'' f
               else if status = 20 then put_string ''UNSATISFIABLE'' f
               else put_string ''UNKNOWN'' f);
          f = (if \<not> iu_binary t then put_string [newline] f else f)
      in idrup_flush_if_piping (t\<lparr>iu_file := f\<rparr>))"

definition idrup_put_model :: "int list \<Rightarrow> IdrupTracer \<Rightarrow> IdrupTracer" where
  "idrup_put_model model t =
     (let f = put_letter (iu_binary t) (CHR ''m'') (iu_file t);
          f = put_lits (iu_binary t) model f
      in idrup_flush_if_piping (t\<lparr>iu_file := put_end (iu_binary t) f\<rparr>))"

definition idrup_put_query :: "IdrupTracer \<Rightarrow> IdrupTracer" where
  "idrup_put_query t =
     (let f = put_letter (iu_binary t) (CHR ''q'') (iu_file t);
          f = put_lits (iu_binary t) (iu_assumptions t) f
      in idrup_flush_if_piping (t\<lparr>iu_file := put_end (iu_binary t) f\<rparr>))"

subsection \<open>The calls\<close>

definition idrup_add_derived_clause :: "int list \<Rightarrow> IdrupTracer \<Rightarrow> IdrupTracer" where
  "idrup_add_derived_clause clause t =
     (if file_closed (iu_file t) then t
      else (let t = idrup_put_derived clause t in t\<lparr>iu_added := iu_added t + 1\<rparr>))"

definition idrup_add_assumption_clause :: "64 word \<Rightarrow> int list \<Rightarrow> IdrupTracer \<Rightarrow> IdrupTracer outcome" where
  "idrup_add_assumption_clause i clause t =
     (if file_closed (iu_file t) then Ok t
      else
        bind_outcome (idrup_insert i (t\<lparr>iu_imported_clause := iu_imported_clause t @ clause\<rparr>))
          (\<lambda>t. Ok (t\<lparr>iu_imported_clause := []\<rparr>)))"

definition idrup_delete_clause :: "64 word \<Rightarrow> int list \<Rightarrow> IdrupTracer \<Rightarrow> IdrupTracer outcome" where
  "idrup_delete_clause i clause t =
     (if file_closed (iu_file t) then Ok t else idrup_put_delete i clause t)"

definition idrup_weaken_minus :: "64 word \<Rightarrow> IdrupTracer \<Rightarrow> IdrupTracer outcome" where
  "idrup_weaken_minus i t =
     (if file_closed (iu_file t) then Ok t
      else bind_outcome (idrup_insert i t) (\<lambda>t. Ok (t\<lparr>iu_weakened := iu_weakened t + 1\<rparr>)))"

definition idrup_conclude_unsat :: "64 word list \<Rightarrow> IdrupTracer \<Rightarrow> IdrupTracer outcome" where
  "idrup_conclude_unsat conclusion t =
     (if file_closed (iu_file t) then Ok t else idrup_conclude_and_delete conclusion t)"

definition idrup_add_original_clause :: "64 word \<Rightarrow> int list \<Rightarrow> bool \<Rightarrow> IdrupTracer \<Rightarrow> IdrupTracer outcome" where
  "idrup_add_original_clause i clause restored t =
     (if file_closed (iu_file t) then Ok t
      else if \<not> restored then Ok (idrup_put_original clause (t\<lparr>iu_original := iu_original t + 1\<rparr>))
      else
        bind_outcome (idrup_find_and_delete i t)
          (\<lambda>(found, t).
             if found then Ok t
             else (let t = idrup_put_restored clause t in Ok (t\<lparr>iu_restore := iu_restore t + 1\<rparr>))))"

definition idrup_report_status :: "int \<Rightarrow> IdrupTracer \<Rightarrow> IdrupTracer" where
  "idrup_report_status status t = (if file_closed (iu_file t) then t else idrup_put_status status t)"

definition idrup_conclude_sat :: "int list \<Rightarrow> IdrupTracer \<Rightarrow> IdrupTracer" where
  "idrup_conclude_sat model t = (if file_closed (iu_file t) then t else idrup_put_model model t)"

definition idrup_solve_query :: "IdrupTracer \<Rightarrow> IdrupTracer" where
  "idrup_solve_query t =
     (if file_closed (iu_file t) then t
      else (let t = idrup_put_query t in t\<lparr>iu_solved := iu_solved t + 1\<rparr>))"

definition idrup_add_assumption :: "int \<Rightarrow> IdrupTracer \<Rightarrow> IdrupTracer" where
  "idrup_add_assumption lit t = t\<lparr>iu_assumptions := iu_assumptions t @ [lit]\<rparr>"

definition idrup_reset_assumptions :: "IdrupTracer \<Rightarrow> IdrupTracer" where
  "idrup_reset_assumptions t = t\<lparr>iu_assumptions := []\<rparr>"

definition idrup_close :: "IdrupTracer \<Rightarrow> IdrupTracer" where
  "idrup_close t = t\<lparr>iu_file := file_close (iu_file t)\<rparr>"

definition idrup_flush :: "IdrupTracer \<Rightarrow> IdrupTracer" where
  "idrup_flush t = t\<lparr>iu_file := file_flush (iu_file t)\<rparr>"

subsection \<open>The format\<close>

datatype idrup_kind = KInput | KLemma | KRestore | KDelete | KWeaken | KQuery | KModel | KCore

datatype idrup_line = ILits idrup_kind "int list" | IStatus int | ICount nat

fun kind_letter :: "idrup_kind \<Rightarrow> char" where
  "kind_letter KInput = CHR ''i''" | "kind_letter KLemma = CHR ''l''" | "kind_letter KRestore = CHR ''r''"
| "kind_letter KDelete = CHR ''d''" | "kind_letter KWeaken = CHR ''w''" | "kind_letter KQuery = CHR ''q''"
| "kind_letter KModel = CHR ''m''" | "kind_letter KCore = CHR ''u''"

definition letter_kind :: "char \<Rightarrow> idrup_kind option" where
  "letter_kind ch = List.find (\<lambda>k. kind_letter k = ch)
     [KInput, KLemma, KRestore, KDelete, KWeaken, KQuery, KModel, KCore]"

lemma letter_kind_letter [simp]: "letter_kind (kind_letter k) = Some k"
  by (cases k) (simp_all add: letter_kind_def)

definition enc_letter :: "bool \<Rightarrow> char \<Rightarrow> string" where
  "enc_letter binary ch = (if binary then [ch] else [ch, CHR '' ''])"

definition skip_letter :: "bool \<Rightarrow> string \<Rightarrow> string" where
  "skip_letter binary s = (if binary then drop 1 s else drop 2 s)"

definition norm_status :: "int \<Rightarrow> int" where
  "norm_status st = (if st = 10 \<or> st = 20 then st else 0)"

definition show_status :: "int \<Rightarrow> string" where
  "show_status st = (if st = 10 then ''SATISFIABLE'' else if st = 20 then ''UNSATISFIABLE'' else ''UNKNOWN'')"

text \<open>The binary format has no terminator after a status; the three words are prefix-free.\<close>

definition read_status :: "bool \<Rightarrow> string \<Rightarrow> (int \<times> string) option" where
  "read_status binary s =
     (case List.find (\<lambda>st. take (length (show_status st)) s = show_status st) [10, 20, 0] of
        None \<Rightarrow> None
      | Some st \<Rightarrow> Some (st, drop (length (show_status st) + (if binary then 0 else 1)) s))"

definition enc_status :: "bool \<Rightarrow> int \<Rightarrow> string" where
  "enc_status binary st = show_status st @ (if binary then [] else [newline])"

definition enc_count :: "bool \<Rightarrow> nat \<Rightarrow> string" where
  "enc_count binary n = (if binary then leb128 n else show_nat n @ [newline])"

definition read_count :: "bool \<Rightarrow> string \<Rightarrow> (nat \<times> string) option" where
  "read_count binary s = (if binary then read_leb128 s else read_nat s)"

definition read_lits :: "bool \<Rightarrow> string \<Rightarrow> (int list \<times> string) option" where
  "read_lits binary s = read_numbers (if binary then read_binary else read_int) s"

lemma read_status_code: "norm_status st = st \<Longrightarrow> read_status binary (enc_status binary st @ r) = Some (st, r)"
  by (auto simp: read_status_def enc_status_def show_status_def norm_status_def split: if_splits)

lemma read_count_code: "read_count binary (enc_count binary n @ r) = Some (n, r)"
  by (simp add: read_count_def enc_count_def read_leb128_code read_show_nat newline_no_digit)

lemma read_lits_code: "0 \<notin> set c \<Longrightarrow> read_lits binary (enc_lits binary c @ enc_end binary @ r) = Some (c, r)"
  using nonzero_set [of c] by (simp add: read_lits_def enc_end_def read_nums_binary read_nums_text newline_no_digit)

lemma skip_letter_code [simp]:
  "skip_letter binary (enc_letter binary ch @ r) = r" "hd (enc_letter binary ch @ r) = ch" "enc_letter binary ch \<noteq> []"
  by (simp_all add: skip_letter_def enc_letter_def)

fun enc_idrup :: "bool \<Rightarrow> idrup_line \<Rightarrow> string" where
  "enc_idrup binary (ILits k c) = enc_letter binary (kind_letter k) @ enc_lits binary c @ enc_end binary"
| "enc_idrup binary (IStatus st) = enc_letter binary (CHR ''s'') @ enc_status binary st"
| "enc_idrup binary (ICount n) = enc_letter binary (CHR ''U'') @ enc_count binary n"

definition read_idrup :: "bool \<Rightarrow> string \<Rightarrow> (idrup_line \<times> string) option" where
  "read_idrup binary s =
     (if s = [] then None
      else
        (let ch = hd s; s = skip_letter binary s
         in case letter_kind ch of
              Some k \<Rightarrow> map_option (\<lambda>(c, r). (ILits k c, r)) (read_lits binary s)
            | None \<Rightarrow>
                if ch = CHR ''s'' then map_option (\<lambda>(st, r). (IStatus st, r)) (read_status binary s)
                else if ch = CHR ''U'' then map_option (\<lambda>(n, r). (ICount n, r)) (read_count binary s)
                else None))"

fun valid_idrup_line :: "idrup_line \<Rightarrow> bool" where
  "valid_idrup_line (ILits k c) \<longleftrightarrow> 0 \<notin> set c"
| "valid_idrup_line (IStatus st) \<longleftrightarrow> norm_status st = st"
| "valid_idrup_line (ICount n) \<longleftrightarrow> True"

lemma letter_kind_other [simp]: "letter_kind (CHR ''s'') = None" "letter_kind (CHR ''U'') = None"
  by (simp_all add: letter_kind_def)

interpretation idrup: step_code valid_idrup_line "enc_idrup binary" "read_idrup binary" "\<lambda>_. True" for binary
proof
  fix x r
  show "valid_idrup_line x \<Longrightarrow> read_idrup binary (enc_idrup binary x @ r) = Some (x, r)"
    by (cases x) (simp_all add: read_idrup_def Let_def read_lits_code read_status_code read_count_code)
  show "enc_idrup binary x \<noteq> []" by (cases x) simp_all
qed simp_all

subsection \<open>What a run is due to write\<close>

datatype idrup_call =
  ICDerive clause | ICAssumptionClause "64 word" clause | ICDelete "64 word" clause | ICWeaken "64 word"
  | ICConcludeUnsat "64 word list" | ICOriginal "64 word" clause bool | ICStatus int | ICModel "int list"
  | ICQuery | ICAssume int | ICReset

fun idrup_trace :: "idrup_call \<Rightarrow> IdrupTracer \<Rightarrow> IdrupTracer outcome" where
  "idrup_trace (ICDerive c) t = Ok (idrup_add_derived_clause c t)"
| "idrup_trace (ICAssumptionClause i c) t = idrup_add_assumption_clause i c t"
| "idrup_trace (ICDelete i c) t = idrup_delete_clause i c t"
| "idrup_trace (ICWeaken i) t = idrup_weaken_minus i t"
| "idrup_trace (ICConcludeUnsat ids) t = idrup_conclude_unsat ids t"
| "idrup_trace (ICOriginal i c restored) t = idrup_add_original_clause i c restored t"
| "idrup_trace (ICStatus st) t = Ok (idrup_report_status st t)"
| "idrup_trace (ICModel m) t = Ok (idrup_conclude_sat m t)"
| "idrup_trace ICQuery t = Ok (idrup_solve_query t)"
| "idrup_trace (ICAssume l) t = Ok (idrup_add_assumption l t)"
| "idrup_trace ICReset t = Ok (idrup_reset_assumptions t)"

text \<open>The abstract state: the remembered clauses, the imported literals, the assumptions.\<close>

type_synonym idrup_state = "(64 word \<rightharpoonup> clause) \<times> int list \<times> int list"

definition lits_of :: "'a list option \<Rightarrow> 'a list" where
  "lits_of r = (case r of None \<Rightarrow> [] | Some c \<Rightarrow> c)"

text \<open>One core per concluded identifier: the negation of the clause remembered for it.\<close>

fun idrup_cores :: "64 word list \<Rightarrow> (64 word \<rightharpoonup> clause) \<Rightarrow> int list \<Rightarrow> idrup_line list" where
  "idrup_cores [] m imp = []"
| "idrup_cores (i # ids) m imp =
     ILits KCore (map uminus (imp @ lits_of (m i))) # idrup_cores ids (m(i := None)) []"

fun forget_all :: "64 word list \<Rightarrow> (64 word \<rightharpoonup> 'a) \<Rightarrow> (64 word \<rightharpoonup> 'a)" where
  "forget_all [] m = m"
| "forget_all (i # ids) m = forget_all ids (m(i := None))"

fun idrup_spec :: "idrup_call \<Rightarrow> idrup_state \<Rightarrow> idrup_line list \<times> idrup_state" where
  "idrup_spec (ICDerive c) (m, imp, as) = ([ILits KLemma c], m, imp, as)"
| "idrup_spec (ICAssumptionClause i c) (m, imp, as) = ([], m(i \<mapsto> imp @ c), [], as)"
| "idrup_spec (ICDelete i c) (m, imp, as) =
     ([ILits (if m i = None then KDelete else KWeaken) c], m(i := None), imp @ lits_of (m i), as)"
| "idrup_spec (ICWeaken i) (m, imp, as) = ([], m(i \<mapsto> imp), imp, as)"
| "idrup_spec (ICConcludeUnsat ids) (m, imp, as) =
     ((if length ids > 1 then [ICount (length ids)] else []) @ idrup_cores ids m imp,
      forget_all ids m, if ids = [] then imp else [], as)"
| "idrup_spec (ICOriginal i c restored) (m, imp, as) =
     (if \<not> restored then ([ILits KInput c], m, imp, as)
      else (if m i = None then [ILits KRestore c] else [], m(i := None), imp @ lits_of (m i), as))"
| "idrup_spec (ICStatus st) s = ([IStatus (norm_status st)], s)"
| "idrup_spec (ICModel c) s = ([ILits KModel c], s)"
| "idrup_spec ICQuery (m, imp, as) = ([ILits KQuery as], m, imp, as)"
| "idrup_spec (ICAssume l) (m, imp, as) = ([], m, imp, as @ [l])"
| "idrup_spec ICReset (m, imp, as) = ([], m, imp, [])"

text \<open>Calls with C literals; an identifier is not remembered twice at the same time.\<close>

fun valid_idrup_call :: "idrup_call \<Rightarrow> idrup_state \<Rightarrow> bool" where
  "valid_idrup_call (ICDerive c) s \<longleftrightarrow> valid_clause c"
| "valid_idrup_call (ICAssumptionClause i c) s \<longleftrightarrow> valid_clause c \<and> fst s i = None"
| "valid_idrup_call (ICDelete i c) s \<longleftrightarrow> valid_clause c"
| "valid_idrup_call (ICWeaken i) s \<longleftrightarrow> fst s i = None"
| "valid_idrup_call (ICConcludeUnsat ids) s \<longleftrightarrow> length ids < 2 ^ 64"
| "valid_idrup_call (ICOriginal i c restored) s \<longleftrightarrow> valid_clause c"
| "valid_idrup_call (ICStatus st) s \<longleftrightarrow> True"
| "valid_idrup_call (ICModel c) s \<longleftrightarrow> valid_clause c"
| "valid_idrup_call ICQuery s \<longleftrightarrow> True"
| "valid_idrup_call (ICAssume l) s \<longleftrightarrow> valid_clause [l]"
| "valid_idrup_call ICReset s \<longleftrightarrow> True"

fun idrup_spec_run :: "idrup_call list \<Rightarrow> idrup_state \<Rightarrow> idrup_line list \<times> idrup_state" where
  "idrup_spec_run [] s = ([], s)"
| "idrup_spec_run (c # cs) s =
     (let (ls, s) = idrup_spec c s; (ls', s) = idrup_spec_run cs s in (ls @ ls', s))"

fun valid_idrup_calls :: "idrup_call list \<Rightarrow> idrup_state \<Rightarrow> bool" where
  "valid_idrup_calls [] s \<longleftrightarrow> True"
| "valid_idrup_calls (c # cs) s \<longleftrightarrow> valid_idrup_call c s \<and> valid_idrup_calls cs (snd (idrup_spec c s))"

subsection \<open>The tracer writes it\<close>

definition idrup_text :: "bool \<Rightarrow> idrup_line list \<Rightarrow> string" where
  "idrup_text binary ls = concat (map (enc_idrup binary) ls)"

lemma idrup_text_simps [simp]:
  "idrup_text b [] = []" "idrup_text b (l # ls) = enc_idrup b l @ idrup_text b ls"
  "idrup_text b (ls @ ls') = idrup_text b ls @ idrup_text b ls'"
  by (simp_all add: idrup_text_def)

fun idrup_rep :: "IdrupTracer \<Rightarrow> idrup_state \<Rightarrow> bool" where
  "idrup_rep t (m, imp, as) \<longleftrightarrow>
     fl_open (iu_file t) \<and> it_inv (iu_table t) \<and> it.distinct_ids (iu_table t) \<and> it.lookup (iu_table t) = m
     \<and> iu_imported_clause t = imp \<and> iu_assumptions t = as
     \<and> valid_clause imp \<and> valid_clause as \<and> (\<forall>c \<in> ran m. valid_clause c)"

text \<open>One call of the tracer against the specification: \<open>ls\<close> is written, the state follows.\<close>

definition idrup_step :: "IdrupTracer \<Rightarrow> idrup_line list \<Rightarrow> idrup_state \<Rightarrow> IdrupTracer \<Rightarrow> bool" where
  "idrup_step t ls s' u \<longleftrightarrow>
     idrup_rep u s' \<and> iu_binary u = iu_binary t \<and> iu_piping u = iu_piping t
     \<and> it_load (iu_table u) \<le> Suc (it_load (iu_table t))
     \<and> fl_out (iu_file u) = fl_out (iu_file t) @ idrup_text (iu_binary t) ls"

lemma put_letter_string [put_simps]: "put_letter binary ch f = put_string (enc_letter binary ch) f"
  by (simp add: put_letter_def enc_letter_def put_simps)

lemmas line_simps = put_letter_string put_lits_string put_end_string put_string_append

lemma valid_clause_append [simp]: "valid_clause (c @ d) \<longleftrightarrow> valid_clause c \<and> valid_clause d"
  by (auto simp: valid_clause_def)

lemma valid_clause_uminus [simp]: "valid_clause (map uminus c) \<longleftrightarrow> valid_clause c"
  by (auto simp: valid_clause_def)

lemma valid_clause_Nil [simp]: "valid_clause []"
  by (simp add: valid_clause_def)

lemma ran_forget: "\<forall>c \<in> ran m. P c \<Longrightarrow> \<forall>c \<in> ran (m(i := None)). P c"
  by (auto simp: ran_def split: if_splits)

lemma ran_forget_all: "\<forall>c \<in> ran m. P c \<Longrightarrow> \<forall>c \<in> ran (forget_all ids m). P c"
proof (induction ids m rule: forget_all.induct)
  case (2 i ids m)
  show ?case unfolding forget_all.simps by (rule "2.IH" [OF ran_forget [OF "2.prems"]])
qed simp

lemma valid_lits_of: "\<forall>c \<in> ran m. valid_clause c \<Longrightarrow> valid_clause (lits_of (m i))"
  by (cases "m i") (auto simp: lits_of_def intro: ranI)

lemma idrup_find_ok:
  assumes "idrup_rep t (m, imp, as)"
  shows "\<exists>u. idrup_find_and_delete i t = Ok (m i \<noteq> None, u)
    \<and> idrup_rep u (m(i := None), imp @ lits_of (m i), as) \<and> it_load (iu_table u) \<le> it_load (iu_table t)
    \<and> iu_binary u = iu_binary t \<and> iu_piping u = iu_piping t \<and> iu_file u = iu_file t"
proof -
  note r = assms [unfolded idrup_rep.simps]
  obtain tab where "it_find_and_delete i (iu_table t) = Ok (m i, tab)" "it_inv tab"
    "it_load tab \<le> it_load (iu_table t)" "it.distinct_ids tab" "it.lookup tab = m(i := None)"
    using it.take_lookup [of "iu_table t" i] r by blast
  then show ?thesis using r ran_forget [of m valid_clause i] valid_lits_of [of m i]
    by (cases "m i") (simp_all add: idrup_find_and_delete_def Let_def lits_of_def)
qed

lemma idrup_insert_ok:
  assumes "idrup_rep t (m, imp, as)" "it_load (iu_table t) < 2 ^ 62" "m i = None"
  shows "\<exists>u. idrup_insert i t = Ok u \<and> idrup_rep u (m(i \<mapsto> imp), imp, as)
    \<and> it_load (iu_table u) \<le> Suc (it_load (iu_table t))
    \<and> iu_binary u = iu_binary t \<and> iu_piping u = iu_piping t \<and> iu_file u = iu_file t"
proof -
  note r = assms(1) [unfolded idrup_rep.simps]
  have "it.lookup (iu_table t) i = None" using r assms(3) by simp
  then obtain tab where "it_insert_id i imp (iu_table t) = Ok tab" "it_inv tab"
    "it_load tab \<le> Suc (it_load (iu_table t))" "it.distinct_ids tab" "it.lookup tab = m(i \<mapsto> imp)"
    using it.ins_lookup [of "iu_table t" i imp] r assms(2) by blast
  then show ?thesis using r by (auto simp: idrup_insert_def ran_def)
qed

lemma idrup_conclude_loop_ok:
  assumes "idrup_rep t (m, imp, as)"
  shows "\<exists>u. idrup_conclude_loop ids t = Ok u
    \<and> idrup_step t (idrup_cores ids m imp) (forget_all ids m, if ids = [] then imp else [], as) u"
  using assms
proof (induction ids arbitrary: t m imp)
  case Nil
  then show ?case by (simp add: idrup_step_def)
next
  case (Cons i ids)
  let ?t = "t\<lparr>iu_file := put_letter (iu_binary t) (CHR ''u'') (iu_file t)\<rparr>"
  have "idrup_rep ?t (m, imp, as)" using Cons.prems by (simp add: put_simps)
  from idrup_find_ok [OF this, of i] obtain u where u:
    "idrup_find_and_delete i ?t = Ok (m i \<noteq> None, u)" "idrup_rep u (m(i := None), imp @ lits_of (m i), as)"
    "it_load (iu_table u) \<le> it_load (iu_table t)"
    "iu_binary u = iu_binary t" "iu_piping u = iu_piping t" "iu_file u = iu_file ?t"
    by auto
  let ?f = "put_end (iu_binary u) (put_lits (iu_binary u) (map uminus (iu_imported_clause u)) (iu_file u))"
  let ?v = "u\<lparr>iu_file := ?f, iu_imported_clause := []\<rparr>"
  have f: "?f = put_string (enc_idrup (iu_binary t) (ILits KCore (map uminus (imp @ lits_of (m i))))) (iu_file t)"
    using u(2,4,6) by (simp add: line_simps)
  have v: "idrup_rep ?v (m(i := None), [], as)" using u(2) f Cons.prems by simp
  obtain w where w: "idrup_conclude_loop ids ?v = Ok w"
    "idrup_step ?v (idrup_cores ids (m(i := None)) []) (forget_all ids (m(i := None)), [], as) w"
    using Cons.IH [OF v] by (simp only: if_cancel) blast
  show ?case
    using w u f by (simp add: Let_def idrup_step_def)
qed
lemma idrup_flush_rep [simp]:
  "idrup_rep (idrup_flush_if_piping t) s \<longleftrightarrow> idrup_rep t s"
  "iu_binary (idrup_flush_if_piping t) = iu_binary t" "iu_piping (idrup_flush_if_piping t) = iu_piping t"
  "iu_table (idrup_flush_if_piping t) = iu_table t" "iu_assumptions (idrup_flush_if_piping t) = iu_assumptions t"
  "iu_imported_clause (idrup_flush_if_piping t) = iu_imported_clause t"
  "fl_open (iu_file (idrup_flush_if_piping t)) = fl_open (iu_file t)"
  "fl_out (iu_file (idrup_flush_if_piping t)) = fl_out (iu_file t)"
  by (cases s; simp add: idrup_flush_if_piping_def)+

lemma idrup_step_flush: "idrup_step t ls s u \<Longrightarrow> idrup_step t ls s (idrup_flush_if_piping u)"
  by (simp add: idrup_step_def)

lemma idrup_delete_ok:
  assumes r: "idrup_rep t (m, imp, as)" and v: "valid_clause c"
  shows "\<exists>u. idrup_put_delete i c t = Ok u
    \<and> idrup_step t [ILits (if m i = None then KDelete else KWeaken) c] (m(i := None), imp @ lits_of (m i), as) u"
proof -
  obtain u where u: "idrup_find_and_delete i t = Ok (m i \<noteq> None, u)"
    "idrup_rep u (m(i := None), imp @ lits_of (m i), as)" "it_load (iu_table u) \<le> it_load (iu_table t)"
    "iu_binary u = iu_binary t" "iu_piping u = iu_piping t" "iu_file u = iu_file t"
    using idrup_find_ok [OF r] by blast
  then show ?thesis using v
    by (cases "m i") (simp_all add: idrup_put_delete_def Let_def idrup_step_def line_simps del: fun_upd_apply)
qed

lemma idrup_restore_ok:
  assumes r: "idrup_rep t (m, imp, as)" and v: "valid_clause c"
  shows "\<exists>u. idrup_add_original_clause i c True t = Ok u
    \<and> idrup_step t (if m i = None then [ILits KRestore c] else []) (m(i := None), imp @ lits_of (m i), as) u"
proof -
  obtain u where u: "idrup_find_and_delete i t = Ok (m i \<noteq> None, u)"
    "idrup_rep u (m(i := None), imp @ lits_of (m i), as)" "it_load (iu_table u) \<le> it_load (iu_table t)"
    "iu_binary u = iu_binary t" "iu_piping u = iu_piping t" "iu_file u = iu_file t"
    using idrup_find_ok [OF r] by blast
  moreover have "\<not> file_closed (iu_file t)" using r by (simp add: file_closed_def)
  ultimately show ?thesis using v
    by (cases "m i") (simp_all add: idrup_add_original_clause_def idrup_put_restored_def Let_def idrup_step_def line_simps
      del: fun_upd_apply)
qed

lemma word_length_gt_1: "length ids < 2 ^ 64 \<Longrightarrow> (1 :: 64 word) < word_of_nat (length ids) \<longleftrightarrow> 1 < length ids"
  by (simp add: word_less_nat_alt unat_of_nat)

lemma idrup_conclude_ok:
  assumes r: "idrup_rep t (m, imp, as)" and v: "length ids < 2 ^ 64"
  shows "\<exists>u. idrup_conclude_and_delete ids t = Ok u
    \<and> idrup_step t ((if length ids > 1 then [ICount (length ids)] else []) @ idrup_cores ids m imp)
        (forget_all ids m, if ids = [] then imp else [], as) u"
proof -
  let ?ls = "if length ids > 1 then [ICount (length ids)] else []"
  let ?w = "word_of_nat (length ids) :: 64 word"
  let ?t = "t\<lparr>iu_file := put_string (idrup_text (iu_binary t) ?ls) (iu_file t)\<rparr>"
  have w: "unat ?w = length ids" using v by (simp add: unat_of_nat)
  have t: "(if ?w > 1
      then t\<lparr>iu_file := (if iu_binary t then put_leb128 ?w (put_char (CHR ''U'') (iu_file t))
                  else put_string [newline] (put_uint64 ?w (put_string ''U '' (iu_file t))))\<rparr>
      else t) = ?t"
    using word_length_gt_1 [OF v] w by (simp add: put_simps enc_letter_def enc_count_def)
  have "idrup_rep ?t (m, imp, as)" using r by simp
  from idrup_conclude_loop_ok [OF this, of ids] obtain u where
    u: "idrup_conclude_loop ids ?t = Ok u"
      "idrup_step ?t (idrup_cores ids m imp) (forget_all ids m, if ids = [] then imp else [], as) u"
    by blast
  have "idrup_step t (?ls @ idrup_cores ids m imp) (forget_all ids m, if ids = [] then imp else [], as) u"
    using u(2) by (simp add: idrup_step_def)
  then show ?thesis
    using u(1) t by (simp add: idrup_conclude_and_delete_def Let_def idrup_step_flush)
qed

lemma idrup_trace_spec:
  assumes "idrup_rep t s" "it_load (iu_table t) < 2 ^ 62" "valid_idrup_call call s" "idrup_spec call s = (ls, s')"
  shows "\<exists>u. idrup_trace call t = Ok u \<and> idrup_step t ls s' u"
proof -
  obtain m imp as where s: "s = (m, imp, as)" by (cases s)
  note r = assms(1) [unfolded s] and v = assms(3) [unfolded s] and sp = assms(4) [unfolded s]
  have op: "\<not> file_closed (iu_file t)" "fl_open (iu_file t)" using r by (simp_all add: file_closed_def)
  note [simp] = line_simps idrup_step_def Let_def op
  show ?thesis
  proof (cases call)
    case (ICDerive c)
    then show ?thesis using r v sp by (auto simp: idrup_add_derived_clause_def idrup_put_derived_def)
  next
    case (ICAssumptionClause i c)
    have "idrup_rep (t\<lparr>iu_imported_clause := iu_imported_clause t @ c\<rparr>) (m, imp @ c, as)"
      using r v ICAssumptionClause by simp
    from idrup_insert_ok [OF this, of i] r v sp ICAssumptionClause assms(2) show ?thesis
      by (auto simp: idrup_add_assumption_clause_def)
  next
    case (ICDelete i c)
    then show ?thesis using idrup_delete_ok [OF r, of c i] v sp by (auto simp: idrup_delete_clause_def simp del: fun_upd_apply)
  next
    case (ICWeaken i)
    from idrup_insert_ok [OF r assms(2), of i] sp v ICWeaken show ?thesis by (auto simp: idrup_weaken_minus_def)
  next
    case (ICConcludeUnsat ids)
    then show ?thesis using idrup_conclude_ok [OF r, of ids] v sp by (auto simp: idrup_conclude_unsat_def simp del: fun_upd_apply)
  next
    case (ICOriginal i c restored)
    show ?thesis
    proof (cases restored)
      case True
      then show ?thesis using idrup_restore_ok [OF r, of c i] v sp ICOriginal by (auto simp del: fun_upd_apply)
    next
      case False
      then show ?thesis using r v sp ICOriginal
        by (auto simp: idrup_add_original_clause_def idrup_put_original_def)
    qed
  next
    case (ICStatus st)
    then show ?thesis using r sp
      by (auto simp: idrup_report_status_def idrup_put_status_def norm_status_def enc_status_def show_status_def s)
  next
    case (ICModel c)
    then show ?thesis using r v sp by (auto simp: idrup_conclude_sat_def idrup_put_model_def)
  next
    case ICQuery
    then show ?thesis using r sp by (auto simp: idrup_solve_query_def idrup_put_query_def)
  next
    case (ICAssume l)
    then show ?thesis using r v sp by (auto simp: idrup_add_assumption_def)
  next
    case ICReset
    then show ?thesis using r sp by (auto simp: idrup_reset_assumptions_def)
  qed
qed

lemma idrup_run_spec:
  assumes "idrup_rep t s" "it_load (iu_table t) + length calls \<le> 2 ^ 62" "valid_idrup_calls calls s"
    and "idrup_spec_run calls s = (ls, s')"
  shows "\<exists>u. fold_outcome idrup_trace calls t = Ok u \<and> idrup_rep u s'
    \<and> fl_out (iu_file u) = fl_out (iu_file t) @ idrup_text (iu_binary t) ls"
  using assms
proof (induction calls arbitrary: t s ls)
  case (Cons call calls)
  obtain l1 s1 where s1: "idrup_spec call s = (l1, s1)" by (cases "idrup_spec call s")
  obtain l2 s2 where s2: "idrup_spec_run calls s1 = (l2, s2)" by (cases "idrup_spec_run calls s1")
  have ls: "ls = l1 @ l2" "s' = s2" using Cons.prems(4) s1 s2 by auto
  have "it_load (iu_table t) < 2 ^ 62" "valid_idrup_call call s" using Cons.prems(2,3) by simp_all
  from idrup_trace_spec [OF Cons.prems(1) this s1] obtain u where
    u: "idrup_trace call t = Ok u" "idrup_step t l1 s1 u" by blast
  have "it_load (iu_table u) + length calls \<le> 2 ^ 62" "valid_idrup_calls calls s1" "idrup_rep u s1"
    using u(2) Cons.prems(2,3) s1 by (simp_all add: idrup_step_def)
  from Cons.IH [OF this(3,1,2)] s2 ls obtain v where "fold_outcome idrup_trace calls u = Ok v" "idrup_rep v s'"
    "fl_out (iu_file v) = fl_out (iu_file u) @ idrup_text (iu_binary u) l2" by blast
  then show ?case using u ls by (simp add: idrup_step_def)
qed simp

text \<open>Only readable lines are due.\<close>

lemma valid_idrup_lines:
  assumes "valid_idrup_call call (m, imp, as)" "valid_clause imp" "valid_clause as" "\<forall>c \<in> ran m. valid_clause c"
    and "idrup_spec call (m, imp, as) = (ls, s')"
  shows "\<forall>l \<in> set ls. valid_idrup_line l"
proof -
  have cores: "\<forall>l \<in> set (idrup_cores ids m imp). valid_idrup_line l"
    if "\<forall>c \<in> ran m. valid_clause c" "valid_clause imp" for ids m imp
    using that
  proof (induction ids m imp rule: idrup_cores.induct)
    case (2 i ids m imp)
    have "valid_clause (map uminus (imp @ lits_of (m i)))" using 2 valid_lits_of [OF "2.prems"(1), of i] by simp
    from valid_clause_zero [OF this] show ?case
      using "2.IH" [OF ran_forget [OF "2.prems"(1)] valid_clause_Nil] by (simp del: map_append fun_upd_apply)
  qed simp
  show ?thesis
    using assms cores [of m imp] valid_clause_zero
    by (cases call) (auto simp: norm_status_def split: if_splits)
qed

lemma valid_idrup_run:
  assumes "idrup_rep t s" "it_load (iu_table t) + length calls \<le> 2 ^ 62" "valid_idrup_calls calls s"
    and "idrup_spec_run calls s = (ls, s')"
  shows "\<forall>l \<in> set ls. valid_idrup_line l"
  using assms
proof (induction calls arbitrary: t s ls)
  case (Cons call calls)
  obtain l1 s1 where s1: "idrup_spec call s = (l1, s1)" by (cases "idrup_spec call s")
  obtain l2 s2 where s2: "idrup_spec_run calls s1 = (l2, s2)" by (cases "idrup_spec_run calls s1")
  have ls: "ls = l1 @ l2" "s' = s2" using Cons.prems(4) s1 s2 by auto
  have p: "it_load (iu_table t) < 2 ^ 62" "valid_idrup_call call s" using Cons.prems(2,3) by simp_all
  from idrup_trace_spec [OF Cons.prems(1) this s1] obtain u where u: "idrup_step t l1 s1 u" by blast
  then have "it_load (iu_table u) + length calls \<le> 2 ^ 62" "valid_idrup_calls calls s1" "idrup_rep u s1"
    using Cons.prems(2,3) s1 by (simp_all add: idrup_step_def)
  from Cons.IH [OF this(3,1,2)] s2 ls have "\<forall>l \<in> set l2. valid_idrup_line l" by blast
  moreover obtain m imp as where s: "s = (m, imp, as)" by (cases s)
  have "\<forall>l \<in> set l1. valid_idrup_line l"
    using valid_idrup_lines [of call m imp as l1 s1] p(2) Cons.prems(1) s1 by (simp add: s)
  ultimately show ?case by (simp add: ls ball_Un)
qed simp

end
