(* ===== verification/Lidrup_Tracer.thy ===== *)
theory Lidrup_Tracer
  imports Idrup_Tracer
begin

text \<open>
  The LIDRUP tracer (\<^verbatim>\<open>lidruptracer.cpp\<close>): IDRUP with identifiers and antecedents.  Weakened,
  deleted and restored identifiers are collected in batches, one line per batch; at most one
  batch is open at any time, so that batching does not reorder the proof.
\<close>

subsection \<open>The code\<close>

record LidrupTracer =
  lu_file :: File
  lu_binary :: bool
  lu_piping :: bool
  lu_table :: "(int list \<times> 64 word list) IdTable"
  lu_imported_clause :: "int list"
  lu_assumptions :: "int list"
  lu_imported_chain :: "64 word list"
  lu_batch_weaken :: "64 word list"
  lu_batch_delete :: "64 word list"
  lu_batch_restore :: "64 word list"
  lu_added :: int
  lu_deleted :: int
  lu_weakened :: int
  lu_restore :: int
  lu_original :: int
  lu_solved :: int
  lu_batched :: int

text \<open>The last five counters are not initialised: \<open>(w, r, q, s, b)\<close>.\<close>

definition lidrup_init :: "File \<Rightarrow> bool \<Rightarrow> bool \<Rightarrow> int \<times> int \<times> int \<times> int \<times> int \<Rightarrow> LidrupTracer" where
  "lidrup_init f b piping junk =
     (let (w, r, q, s, n) = junk
      in \<lparr>lu_file = f, lu_binary = b, lu_piping = piping, lu_table = it_init, lu_imported_clause = [],
          lu_assumptions = [], lu_imported_chain = [], lu_batch_weaken = [], lu_batch_delete = [],
          lu_batch_restore = [], lu_added = 0, lu_deleted = 0, lu_weakened = w, lu_restore = r,
          lu_original = q, lu_solved = s, lu_batched = n\<rparr>)"

definition lidrup_find_and_delete :: "64 word \<Rightarrow> LidrupTracer \<Rightarrow> (bool \<times> LidrupTracer) outcome" where
  "lidrup_find_and_delete i t =
     bind_outcome (it_find_and_delete i (lu_table t))
       (\<lambda>(r, tab).
          let t = t\<lparr>lu_table := tab\<rparr>
          in case r of
               None \<Rightarrow> Ok (False, t)
             | Some (literals, chain) \<Rightarrow>
                 Ok (True, t\<lparr>lu_imported_clause := lu_imported_clause t @ literals,
                             lu_imported_chain := lu_imported_chain t @ chain\<rparr>))"

definition lidrup_insert :: "64 word \<Rightarrow> LidrupTracer \<Rightarrow> LidrupTracer outcome" where
  "lidrup_insert i t =
     bind_outcome (it_insert_id i (lu_imported_clause t, lu_imported_chain t) (lu_table t))
       (\<lambda>tab. Ok (t\<lparr>lu_table := tab\<rparr>))"

definition lidrup_flush_if_piping :: "LidrupTracer \<Rightarrow> LidrupTracer" where
  "lidrup_flush_if_piping t = (if lu_piping t then t\<lparr>lu_file := file_flush (lu_file t)\<rparr> else t)"

definition put_ids :: "bool \<Rightarrow> 64 word list \<Rightarrow> File \<Rightarrow> File" where
  "put_ids binary ids f =
     fold (\<lambda>i f. if binary then put_leb128 i f else put_char (CHR '' '') (put_uint64 i f)) ids f"

text \<open>One batch: its letter, its identifiers and a zero, if it is not empty.\<close>

definition lidrup_put_batch :: "bool \<Rightarrow> char \<Rightarrow> 64 word list \<Rightarrow> File \<Rightarrow> File" where
  "lidrup_put_batch binary ch ids f = put_end binary (put_ids binary ids (put_letter binary ch f))"

definition lidrup_batch_weaken_restore_and_delete :: "LidrupTracer \<Rightarrow> LidrupTracer" where
  "lidrup_batch_weaken_restore_and_delete t =
     (let t = (if lu_batch_weaken t \<noteq> []
               then t\<lparr>lu_file := lidrup_put_batch (lu_binary t) (CHR ''w'') (lu_batch_weaken t) (lu_file t),
                      lu_batch_weaken := [], lu_batched := lu_batched t + 1\<rparr> else t);
          t = (if lu_batch_delete t \<noteq> []
               then t\<lparr>lu_file := lidrup_put_batch (lu_binary t) (CHR ''d'') (lu_batch_delete t) (lu_file t),
                      lu_batch_delete := [], lu_batched := lu_batched t + 1\<rparr> else t);
          t = (if lu_batch_restore t \<noteq> []
               then t\<lparr>lu_file := lidrup_put_batch (lu_binary t) (CHR ''r'') (lu_batch_restore t) (lu_file t),
                      lu_batch_restore := [], lu_batched := lu_batched t + 1\<rparr> else t)
      in t)"

definition lidrup_put_restored :: "64 word \<Rightarrow> LidrupTracer \<Rightarrow> LidrupTracer" where
  "lidrup_put_restored i t =
     (let t = (if lu_batch_weaken t \<noteq> [] \<or> lu_batch_delete t \<noteq> []
               then lidrup_batch_weaken_restore_and_delete t else t)
      in t\<lparr>lu_batch_restore := lu_batch_restore t @ [i]\<rparr>)"

definition put_id :: "bool \<Rightarrow> char \<Rightarrow> 64 word \<Rightarrow> File \<Rightarrow> File" where
  "put_id binary ch i f =
     (if binary then put_leb128 i (put_char ch f)
      else put_char (CHR '' '') (put_uint64 i (put_string [ch, CHR '' ''] f)))"

definition put_mid :: "bool \<Rightarrow> File \<Rightarrow> File" where
  "put_mid binary f = (if binary then put_binary_zero f else put_string ''0 '' f)"

definition lidrup_put_derived :: "64 word \<Rightarrow> int list \<Rightarrow> 64 word list \<Rightarrow> LidrupTracer \<Rightarrow> LidrupTracer" where
  "lidrup_put_derived i clause chain t =
     (let t = lidrup_batch_weaken_restore_and_delete t;
          f = put_id (lu_binary t) (CHR ''l'') i (lu_file t);
          f = put_lits (lu_binary t) clause f;
          f = put_mid (lu_binary t) f;
          f = put_ids (lu_binary t) chain f
      in t\<lparr>lu_file := put_end (lu_binary t) f\<rparr>)"

definition lidrup_put_original :: "64 word \<Rightarrow> int list \<Rightarrow> LidrupTracer \<Rightarrow> LidrupTracer" where
  "lidrup_put_original i clause t =
     (let t = lidrup_batch_weaken_restore_and_delete t;
          f = put_id (lu_binary t) (CHR ''i'') i (lu_file t);
          f = put_lits (lu_binary t) clause f
      in t\<lparr>lu_file := put_end (lu_binary t) f\<rparr>)"

fun lidrup_conclude_loop :: "64 word list \<Rightarrow> LidrupTracer \<Rightarrow> LidrupTracer outcome" where
  "lidrup_conclude_loop [] t = Ok t"
| "lidrup_conclude_loop (i # ids) t =
     (let b = lu_binary t;
          t = t\<lparr>lu_file := put_letter b (CHR ''u'') (lu_file t)\<rparr>
      in bind_outcome (lidrup_find_and_delete i t)
           (\<lambda>(found, t).
              if \<not> found then
                (let f = (if b then put_binary_zero (put_leb128 i (put_binary_zero (lu_file t)))
                          else put_string ('' 0'' @ [newline]) (put_uint64 i (put_string ''0 '' (lu_file t))))
                 in lidrup_conclude_loop ids (t\<lparr>lu_file := f\<rparr>))
              else
                (let f = put_lits b (map uminus (lu_imported_clause t)) (lu_file t);
                     f = put_mid b f;
                     f = put_ids b (lu_imported_chain t) f;
                     f = put_end b f
                 in lidrup_conclude_loop ids
                      (t\<lparr>lu_file := f, lu_imported_clause := [], lu_imported_chain := []\<rparr>))))"

definition lidrup_conclude_and_delete :: "64 word list \<Rightarrow> LidrupTracer \<Rightarrow> LidrupTracer outcome" where
  "lidrup_conclude_and_delete conclusion t =
     (let t = lidrup_batch_weaken_restore_and_delete t;
          size = word_of_nat (length conclusion) :: 64 word;
          t = (if size > 1
               then t\<lparr>lu_file :=
                 (if lu_binary t then put_leb128 size (put_char (CHR ''U'') (lu_file t))
                  else put_string [newline] (put_uint64 size (put_string ''U '' (lu_file t))))\<rparr>
               else t)
      in bind_outcome (lidrup_conclude_loop conclusion t) (\<lambda>t. Ok (lidrup_flush_if_piping t)))"

definition lidrup_put_status :: "int \<Rightarrow> LidrupTracer \<Rightarrow> LidrupTracer" where
  "lidrup_put_status status t =
     (let t = lidrup_batch_weaken_restore_and_delete t;
          f = put_letter (lu_binary t) (CHR ''s'') (lu_file t);
          f = (if status = 10 then put_string ''SATISFIABLE'' f
               else if status = 20 then put_string ''UNSATISFIABLE'' f
               else put_string ''UNKNOWN'' f);
          f = (if \<not> lu_binary t then put_string [newline] f else f)
      in lidrup_flush_if_piping (t\<lparr>lu_file := f\<rparr>))"

definition lidrup_put_model :: "int list \<Rightarrow> LidrupTracer \<Rightarrow> LidrupTracer" where
  "lidrup_put_model model t =
     (let t = lidrup_batch_weaken_restore_and_delete t;
          f = put_letter (lu_binary t) (CHR ''m'') (lu_file t);
          f = put_lits (lu_binary t) model f
      in lidrup_flush_if_piping (t\<lparr>lu_file := put_end (lu_binary t) f\<rparr>))"

definition lidrup_put_query :: "LidrupTracer \<Rightarrow> LidrupTracer" where
  "lidrup_put_query t =
     (let t = lidrup_batch_weaken_restore_and_delete t;
          f = put_letter (lu_binary t) (CHR ''q'') (lu_file t);
          f = put_lits (lu_binary t) (lu_assumptions t) f
      in lidrup_flush_if_piping (t\<lparr>lu_file := put_end (lu_binary t) f\<rparr>))"

subsection \<open>The calls\<close>

definition lidrup_add_derived_clause :: "64 word \<Rightarrow> int list \<Rightarrow> 64 word list \<Rightarrow> LidrupTracer \<Rightarrow> LidrupTracer" where
  "lidrup_add_derived_clause i clause chain t =
     (if file_closed (lu_file t) then t
      else (let t = lidrup_put_derived i clause chain t in t\<lparr>lu_added := lu_added t + 1\<rparr>))"

definition lidrup_add_assumption_clause ::
    "64 word \<Rightarrow> int list \<Rightarrow> 64 word list \<Rightarrow> LidrupTracer \<Rightarrow> LidrupTracer outcome" where
  "lidrup_add_assumption_clause i clause chain t =
     (if file_closed (lu_file t) then Ok t
      else
        bind_outcome
          (lidrup_insert i (t\<lparr>lu_imported_clause := lu_imported_clause t @ clause,
                              lu_imported_chain := lu_imported_chain t @ chain\<rparr>))
          (\<lambda>t. Ok (t\<lparr>lu_imported_clause := [], lu_imported_chain := []\<rparr>)))"

definition lidrup_delete_clause :: "64 word \<Rightarrow> LidrupTracer \<Rightarrow> LidrupTracer outcome" where
  "lidrup_delete_clause i t =
     (if file_closed (lu_file t) then Ok t
      else
        bind_outcome (lidrup_find_and_delete i t)
          (\<lambda>(found, t).
             if found then
               (let t = (if lu_batch_delete t \<noteq> [] \<or> lu_batch_restore t \<noteq> []
                         then lidrup_batch_weaken_restore_and_delete t else t)
                in Ok (t\<lparr>lu_batch_weaken := lu_batch_weaken t @ [i], lu_weakened := lu_weakened t + 1\<rparr>))
             else
               (let t = (if lu_batch_weaken t \<noteq> [] \<or> lu_batch_restore t \<noteq> []
                         then lidrup_batch_weaken_restore_and_delete t else t)
                in Ok (t\<lparr>lu_batch_delete := lu_batch_delete t @ [i], lu_deleted := lu_deleted t + 1\<rparr>))))"

definition lidrup_weaken_minus :: "64 word \<Rightarrow> LidrupTracer \<Rightarrow> LidrupTracer outcome" where
  "lidrup_weaken_minus i t = (if file_closed (lu_file t) then Ok t else lidrup_insert i t)"

definition lidrup_conclude_unsat :: "64 word list \<Rightarrow> LidrupTracer \<Rightarrow> LidrupTracer outcome" where
  "lidrup_conclude_unsat conclusion t =
     (if file_closed (lu_file t) then Ok t else lidrup_conclude_and_delete conclusion t)"

definition lidrup_add_original_clause :: "64 word \<Rightarrow> int list \<Rightarrow> bool \<Rightarrow> LidrupTracer \<Rightarrow> LidrupTracer outcome" where
  "lidrup_add_original_clause i clause restored t =
     (if file_closed (lu_file t) then Ok t
      else if \<not> restored then Ok (lidrup_put_original i clause (t\<lparr>lu_original := lu_original t + 1\<rparr>))
      else
        bind_outcome (lidrup_find_and_delete i t)
          (\<lambda>(found, t).
             if found then Ok t
             else (let t = lidrup_put_restored i t in Ok (t\<lparr>lu_restore := lu_restore t + 1\<rparr>))))"

definition lidrup_report_status :: "int \<Rightarrow> LidrupTracer \<Rightarrow> LidrupTracer" where
  "lidrup_report_status status t = (if file_closed (lu_file t) then t else lidrup_put_status status t)"

definition lidrup_conclude_sat :: "int list \<Rightarrow> LidrupTracer \<Rightarrow> LidrupTracer" where
  "lidrup_conclude_sat model t = (if file_closed (lu_file t) then t else lidrup_put_model model t)"

definition lidrup_solve_query :: "LidrupTracer \<Rightarrow> LidrupTracer" where
  "lidrup_solve_query t =
     (if file_closed (lu_file t) then t
      else (let t = lidrup_put_query t in t\<lparr>lu_solved := lu_solved t + 1\<rparr>))"

definition lidrup_add_assumption :: "int \<Rightarrow> LidrupTracer \<Rightarrow> LidrupTracer" where
  "lidrup_add_assumption lit t = t\<lparr>lu_assumptions := lu_assumptions t @ [lit]\<rparr>"

definition lidrup_reset_assumptions :: "LidrupTracer \<Rightarrow> LidrupTracer" where
  "lidrup_reset_assumptions t = t\<lparr>lu_assumptions := []\<rparr>"

definition lidrup_close :: "LidrupTracer \<Rightarrow> LidrupTracer" where
  "lidrup_close t = t\<lparr>lu_file := file_close (lu_file t)\<rparr>"

definition lidrup_flush :: "LidrupTracer \<Rightarrow> LidrupTracer" where
  "lidrup_flush t =
     (let t = lidrup_batch_weaken_restore_and_delete t in t\<lparr>lu_file := file_flush (lu_file t)\<rparr>)"

subsection \<open>The format\<close>

text \<open>Identifiers are written undoubled in the binary format.\<close>

definition enc_id :: "bool \<Rightarrow> int \<Rightarrow> string" where
  "enc_id binary i = (if binary then leb128 (nat i) else enc_text i)"

definition read_id :: "bool \<Rightarrow> string \<Rightarrow> (int \<times> string) option" where
  "read_id binary s = (if binary then map_option (\<lambda>(n, r). (int n, r)) (read_leb128 s) else read_int s)"

definition enc_mid :: "bool \<Rightarrow> string" where
  "enc_mid binary = (if binary then [char_of (0 :: nat)] else ''0 '')"

lemma read_id_zero:
  "read_id True (char_of (0 :: nat) # r) = Some (0, r)"
  "\<not> is_digit ch \<Longrightarrow> read_id False (CHR ''0'' # ch # r) = Some (0, r)"
  using read_leb128_code [of 0 r] read_show_int [of ch 0 r]
  by (simp_all add: read_id_def leb128_zero show_int_def show_nat_def)

interpretation id_field: number_code "\<lambda>x. 0 < x" "enc_id binary" "enc_mid binary" "read_id binary" for binary
proof
  show "read_id binary (enc_id binary x @ r) = Some (x, r)" if "0 < x" for x r
    using that by (simp add: enc_id_def read_id_def read_leb128_code read_enc_text)
  show "read_id binary (enc_mid binary @ r) = Some (0, r)" for r
    using read_id_zero by (cases binary) (simp_all add: enc_mid_def newline_no_digit)
qed (simp_all add: enc_id_def enc_text_def enc_mid_def)

interpretation id_line: number_code "\<lambda>x. 0 < x" "enc_id binary" "enc_end binary" "read_id binary" for binary
proof
  show "read_id binary (enc_id binary x @ r) = Some (x, r)" if "0 < x" for x r
    by (rule id_field.read_enc [OF that])
  show "read_id binary (enc_end binary @ r) = Some (0, r)" for r
    using read_id_zero by (cases binary) (simp_all add: enc_end_def newline_no_digit)
qed (simp_all add: enc_id_def enc_text_def enc_end_def)

definition enc_ids :: "bool \<Rightarrow> int list \<Rightarrow> string" where
  "enc_ids binary ids = concat (map (enc_id binary) ids)"

lemma read_ids_code:
  "\<forall>i \<in> set ids. 0 < i \<Longrightarrow> read_numbers (read_id binary) (enc_ids binary ids @ enc_end binary @ r) = Some (ids, r)"
  using id_line.read_numbers_code [of ids binary r] by (simp add: enc_ids_def)

lemma read_lits_mid: "0 \<notin> set c \<Longrightarrow> read_lits binary (enc_lits binary c @ enc_mid binary @ r) = Some (c, r)"
  using nonzero_set [of c] by (simp add: read_lits_def enc_mid_def read_nums_binary read_nums_text newline_no_digit)

datatype lidrup_line =
  LInput int clause | LLemma int clause "int list" | LBatch idrup_kind "int list" | LLits idrup_kind "int list"
  | LCore "int list" "int list" | LStatus int | LCount nat

fun enc_lidrup :: "bool \<Rightarrow> lidrup_line \<Rightarrow> string" where
  "enc_lidrup b (LInput i c) = enc_letter b (CHR ''i'') @ enc_id b i @ enc_lits b c @ enc_end b"
| "enc_lidrup b (LLemma i c chain) =
     enc_letter b (CHR ''l'') @ enc_id b i @ enc_lits b c @ enc_mid b @ enc_ids b chain @ enc_end b"
| "enc_lidrup b (LBatch k ids) = enc_letter b (kind_letter k) @ enc_ids b ids @ enc_end b"
| "enc_lidrup b (LLits k ls) = enc_letter b (kind_letter k) @ enc_lits b ls @ enc_end b"
| "enc_lidrup b (LCore ls chain) = enc_letter b (CHR ''u'') @ enc_lits b ls @ enc_mid b @ enc_ids b chain @ enc_end b"
| "enc_lidrup b (LStatus st) = enc_letter b (CHR ''s'') @ enc_status b st"
| "enc_lidrup b (LCount n) = enc_letter b (CHR ''U'') @ enc_count b n"

fun valid_lidrup_line :: "lidrup_line \<Rightarrow> bool" where
  "valid_lidrup_line (LInput i c) \<longleftrightarrow> 0 < i \<and> 0 \<notin> set c"
| "valid_lidrup_line (LLemma i c chain) \<longleftrightarrow> 0 < i \<and> 0 \<notin> set c \<and> (\<forall>j \<in> set chain. 0 < j)"
| "valid_lidrup_line (LBatch k ids) \<longleftrightarrow> k \<in> {KWeaken, KDelete, KRestore} \<and> (\<forall>j \<in> set ids. 0 < j)"
| "valid_lidrup_line (LLits k ls) \<longleftrightarrow> k \<in> {KQuery, KModel} \<and> 0 \<notin> set ls"
| "valid_lidrup_line (LCore ls chain) \<longleftrightarrow> 0 \<notin> set ls \<and> (\<forall>j \<in> set chain. 0 < j)"
| "valid_lidrup_line (LStatus st) \<longleftrightarrow> norm_status st = st"
| "valid_lidrup_line (LCount n) \<longleftrightarrow> True"

definition read_two :: "bool \<Rightarrow> (int list \<Rightarrow> int list \<Rightarrow> lidrup_line) \<Rightarrow> string \<Rightarrow> (lidrup_line \<times> string) option" where
  "read_two b mk s =
     (case read_lits b s of
        None \<Rightarrow> None
      | Some (c, s) \<Rightarrow> map_option (\<lambda>(chain, r). (mk c chain, r)) (read_numbers (read_id b) s))"

definition read_lidrup :: "bool \<Rightarrow> string \<Rightarrow> (lidrup_line \<times> string) option" where
  "read_lidrup b s =
     (if s = [] then None
      else
        (let ch = hd s; s = skip_letter b s
         in case letter_kind ch of
              Some KInput \<Rightarrow>
                (case read_id b s of
                   None \<Rightarrow> None
                 | Some (i, s) \<Rightarrow> map_option (\<lambda>(c, r). (LInput i c, r)) (read_lits b s))
            | Some KLemma \<Rightarrow> (case read_id b s of None \<Rightarrow> None | Some (i, s) \<Rightarrow> read_two b (LLemma i) s)
            | Some KCore \<Rightarrow> read_two b LCore s
            | Some KQuery \<Rightarrow> map_option (\<lambda>(c, r). (LLits KQuery c, r)) (read_lits b s)
            | Some KModel \<Rightarrow> map_option (\<lambda>(c, r). (LLits KModel c, r)) (read_lits b s)
            | Some k \<Rightarrow> map_option (\<lambda>(ids, r). (LBatch k ids, r)) (read_numbers (read_id b) s)
            | None \<Rightarrow>
                if ch = CHR ''s'' then map_option (\<lambda>(st, r). (LStatus st, r)) (read_status b s)
                else if ch = CHR ''U'' then map_option (\<lambda>(n, r). (LCount n, r)) (read_count b s)
                else None))"

lemma read_two_code:
  "0 \<notin> set c \<Longrightarrow> \<forall>j \<in> set chain. 0 < j \<Longrightarrow>
   read_two b mk (enc_lits b c @ enc_mid b @ enc_ids b chain @ enc_end b @ r) = Some (mk c chain, r)"
  by (simp add: read_two_def read_lits_mid read_ids_code)

lemma letter_kinds:
  "letter_kind (CHR ''i'') = Some KInput" "letter_kind (CHR ''l'') = Some KLemma" "letter_kind (CHR ''u'') = Some KCore"
  by (simp_all add: letter_kind_def)

interpretation lidrup: step_code valid_lidrup_line "enc_lidrup b" "read_lidrup b" "\<lambda>_. True" for b
proof
  fix x r
  show "valid_lidrup_line x \<Longrightarrow> read_lidrup b (enc_lidrup b x @ r) = Some (x, r)"
    by (cases x)
      (auto simp add: read_lidrup_def Let_def letter_kinds read_lits_code read_status_code read_count_code
        id_field.read_enc read_two_code read_ids_code)
  show "enc_lidrup b x \<noteq> []" by (cases x) simp_all
qed simp_all

subsection \<open>What a run is due to write\<close>

datatype lidrup_call =
  LCDerive "64 word" clause "64 word list" | LCAssumptionClause "64 word" clause "64 word list"
  | LCDelete "64 word" | LCWeaken "64 word" | LCConcludeUnsat "64 word list"
  | LCOriginal "64 word" clause bool | LCStatus int | LCModel "int list"
  | LCQuery | LCAssume int | LCReset | LCFlush

fun lidrup_trace :: "lidrup_call \<Rightarrow> LidrupTracer \<Rightarrow> LidrupTracer outcome" where
  "lidrup_trace (LCDerive i c chain) t = Ok (lidrup_add_derived_clause i c chain t)"
| "lidrup_trace (LCAssumptionClause i c chain) t = lidrup_add_assumption_clause i c chain t"
| "lidrup_trace (LCDelete i) t = lidrup_delete_clause i t"
| "lidrup_trace (LCWeaken i) t = lidrup_weaken_minus i t"
| "lidrup_trace (LCConcludeUnsat ids) t = lidrup_conclude_unsat ids t"
| "lidrup_trace (LCOriginal i c restored) t = lidrup_add_original_clause i c restored t"
| "lidrup_trace (LCStatus st) t = Ok (lidrup_report_status st t)"
| "lidrup_trace (LCModel m) t = Ok (lidrup_conclude_sat m t)"
| "lidrup_trace LCQuery t = Ok (lidrup_solve_query t)"
| "lidrup_trace (LCAssume l) t = Ok (lidrup_add_assumption l t)"
| "lidrup_trace LCReset t = Ok (lidrup_reset_assumptions t)"
| "lidrup_trace LCFlush t = Ok (lidrup_flush t)"

text \<open>Events are lines of one identifier each: the proof before batching.\<close>

datatype lidrup_event = EId idrup_kind int | ELine lidrup_line

fun expand :: "lidrup_line \<Rightarrow> lidrup_event list" where
  "expand (LBatch k ids) = map (EId k) ids"
| "expand l = [ELine l]"

type_synonym lidrup_state = "(64 word \<rightharpoonup> clause \<times> 64 word list) \<times> int list \<times> 64 word list \<times> int list"

definition lits_found :: "(clause \<times> 64 word list) option \<Rightarrow> clause" where
  "lits_found r = (case r of None \<Rightarrow> [] | Some (c, _) \<Rightarrow> c)"

definition chain_found :: "(clause \<times> 64 word list) option \<Rightarrow> 64 word list" where
  "chain_found r = (case r of None \<Rightarrow> [] | Some (_, chain) \<Rightarrow> chain)"

text \<open>
  One core per concluded identifier: the negated literals and the antecedents remembered for it,
  or no literals and the identifier itself.
\<close>

fun lidrup_cores :: "64 word list \<Rightarrow> lidrup_state \<Rightarrow> lidrup_line list \<times> lidrup_state" where
  "lidrup_cores [] s = ([], s)"
| "lidrup_cores (i # ids) (m, imp, ich, as) =
     (case m i of
        None \<Rightarrow> (let (ls, s) = lidrup_cores ids (m, imp, ich, as) in (LCore [] [uint i] # ls, s))
      | Some (c, chain) \<Rightarrow>
          (let (ls, s) = lidrup_cores ids (m(i := None), [], [], as)
           in (LCore (map uminus (imp @ c)) (map uint (ich @ chain)) # ls, s)))"

fun lidrup_spec :: "lidrup_call \<Rightarrow> lidrup_state \<Rightarrow> lidrup_event list \<times> lidrup_state" where
  "lidrup_spec (LCDerive i c chain) s = ([ELine (LLemma (uint i) c (map uint chain))], s)"
| "lidrup_spec (LCAssumptionClause i c chain) (m, imp, ich, as) = ([], m(i \<mapsto> (imp @ c, ich @ chain)), [], [], as)"
| "lidrup_spec (LCDelete i) (m, imp, ich, as) =
     ([EId (if m i = None then KDelete else KWeaken) (uint i)],
      m(i := None), imp @ lits_found (m i), ich @ chain_found (m i), as)"
| "lidrup_spec (LCWeaken i) (m, imp, ich, as) = ([], m(i \<mapsto> (imp, ich)), imp, ich, as)"
| "lidrup_spec (LCConcludeUnsat ids) s =
     (let (ls, s) = lidrup_cores ids s
      in (map ELine ((if length ids > 1 then [LCount (length ids)] else []) @ ls), s))"
| "lidrup_spec (LCOriginal i c restored) (m, imp, ich, as) =
     (if \<not> restored then ([ELine (LInput (uint i) c)], m, imp, ich, as)
      else (if m i = None then [EId KRestore (uint i)] else [],
            m(i := None), imp @ lits_found (m i), ich @ chain_found (m i), as))"
| "lidrup_spec (LCStatus st) s = ([ELine (LStatus (norm_status st))], s)"
| "lidrup_spec (LCModel c) s = ([ELine (LLits KModel c)], s)"
| "lidrup_spec LCQuery (m, imp, ich, as) = ([ELine (LLits KQuery as)], m, imp, ich, as)"
| "lidrup_spec (LCAssume l) (m, imp, ich, as) = ([], m, imp, ich, as @ [l])"
| "lidrup_spec LCReset (m, imp, ich, as) = ([], m, imp, ich, [])"
| "lidrup_spec LCFlush s = ([], s)"

fun valid_lidrup_call :: "lidrup_call \<Rightarrow> lidrup_state \<Rightarrow> bool" where
  "valid_lidrup_call (LCDerive i c chain) s \<longleftrightarrow> i \<noteq> 0 \<and> valid_clause c \<and> 0 \<notin> set chain"
| "valid_lidrup_call (LCAssumptionClause i c chain) s \<longleftrightarrow> valid_clause c \<and> 0 \<notin> set chain \<and> fst s i = None"
| "valid_lidrup_call (LCDelete i) s \<longleftrightarrow> i \<noteq> 0"
| "valid_lidrup_call (LCWeaken i) s \<longleftrightarrow> fst s i = None"
| "valid_lidrup_call (LCConcludeUnsat ids) s \<longleftrightarrow> length ids < 2 ^ 64 \<and> 0 \<notin> set ids"
| "valid_lidrup_call (LCOriginal i c restored) s \<longleftrightarrow> i \<noteq> 0 \<and> valid_clause c"
| "valid_lidrup_call (LCStatus st) s \<longleftrightarrow> True"
| "valid_lidrup_call (LCModel c) s \<longleftrightarrow> valid_clause c"
| "valid_lidrup_call LCQuery s \<longleftrightarrow> True"
| "valid_lidrup_call (LCAssume l) s \<longleftrightarrow> valid_clause [l]"
| "valid_lidrup_call LCReset s \<longleftrightarrow> True"
| "valid_lidrup_call LCFlush s \<longleftrightarrow> True"

fun lidrup_spec_run :: "lidrup_call list \<Rightarrow> lidrup_state \<Rightarrow> lidrup_event list \<times> lidrup_state" where
  "lidrup_spec_run [] s = ([], s)"
| "lidrup_spec_run (c # cs) s =
     (let (es, s) = lidrup_spec c s; (es', s) = lidrup_spec_run cs s in (es @ es', s))"

fun valid_lidrup_calls :: "lidrup_call list \<Rightarrow> lidrup_state \<Rightarrow> bool" where
  "valid_lidrup_calls [] s \<longleftrightarrow> True"
| "valid_lidrup_calls (c # cs) s \<longleftrightarrow> valid_lidrup_call c s \<and> valid_lidrup_calls cs (snd (lidrup_spec c s))"

text \<open>The events of the open batch.\<close>

definition lidrup_pending :: "LidrupTracer \<Rightarrow> lidrup_event list" where
  "lidrup_pending t =
     map (EId KWeaken \<circ> uint) (lu_batch_weaken t) @ map (EId KDelete \<circ> uint) (lu_batch_delete t)
     @ map (EId KRestore \<circ> uint) (lu_batch_restore t)"

subsection \<open>The tracer writes it\<close>

definition lidrup_text :: "bool \<Rightarrow> lidrup_line list \<Rightarrow> string" where
  "lidrup_text binary ls = concat (map (enc_lidrup binary) ls)"

lemma lidrup_text_simps [simp]:
  "lidrup_text b [] = []" "lidrup_text b (l # ls) = enc_lidrup b l @ lidrup_text b ls"
  "lidrup_text b (ls @ ls') = lidrup_text b ls @ lidrup_text b ls'"
  by (simp_all add: lidrup_text_def)

text \<open>At most one batch is open.\<close>

definition one_batch :: "LidrupTracer \<Rightarrow> bool" where
  "one_batch t \<longleftrightarrow>
     (lu_batch_weaken t = [] \<or> lu_batch_delete t = []) \<and> (lu_batch_weaken t = [] \<or> lu_batch_restore t = [])
     \<and> (lu_batch_delete t = [] \<or> lu_batch_restore t = [])"

definition nonzero_batches :: "LidrupTracer \<Rightarrow> bool" where
  "nonzero_batches t \<longleftrightarrow> 0 \<notin> set (lu_batch_weaken t) \<union> set (lu_batch_delete t) \<union> set (lu_batch_restore t)"

fun lidrup_rep :: "LidrupTracer \<Rightarrow> lidrup_state \<Rightarrow> bool" where
  "lidrup_rep t (m, imp, ich, as) \<longleftrightarrow>
     fl_open (lu_file t) \<and> it_inv (lu_table t) \<and> it.distinct_ids (lu_table t) \<and> it.lookup (lu_table t) = m
     \<and> lu_imported_clause t = imp \<and> lu_imported_chain t = ich \<and> lu_assumptions t = as
     \<and> valid_clause imp \<and> 0 \<notin> set ich \<and> valid_clause as
     \<and> (\<forall>p \<in> ran m. valid_clause (fst p) \<and> 0 \<notin> set (snd p))
     \<and> one_batch t \<and> nonzero_batches t"

definition lidrup_step :: "LidrupTracer \<Rightarrow> lidrup_event list \<Rightarrow> lidrup_state \<Rightarrow> LidrupTracer \<Rightarrow> bool" where
  "lidrup_step t es s' u \<longleftrightarrow>
     lidrup_rep u s' \<and> lu_binary u = lu_binary t \<and> lu_piping u = lu_piping t
     \<and> it_load (lu_table u) \<le> Suc (it_load (lu_table t))
     \<and> (\<exists>ls. fl_out (lu_file u) = fl_out (lu_file t) @ lidrup_text (lu_binary t) ls
          \<and> (\<forall>l \<in> set ls. valid_lidrup_line l)
          \<and> concat (map expand ls) @ lidrup_pending u = lidrup_pending t @ es)"

lemma put_id_digits: "(if binary then put_leb128 i f else put_char (CHR '' '') (put_uint64 i f)) = put_string (enc_id binary (uint i)) f"
  by (simp add: put_simps enc_id_def enc_text_def show_uint)

lemma put_ids_codes [put_simps]: "put_ids binary ids f = put_string (enc_ids binary (map uint ids)) f"
  unfolding put_ids_def enc_ids_def using fold_put_string [OF put_id_digits] by (simp add: comp_def)

lemma put_id_code [put_simps]: "put_id binary ch i f = put_string (enc_letter binary ch @ enc_id binary (uint i)) f"
  by (simp add: put_id_def put_simps enc_id_def enc_text_def show_uint enc_letter_def)

lemma put_mid_string [put_simps]: "put_mid binary f = put_string (enc_mid binary) f"
  by (simp add: put_mid_def enc_mid_def put_simps)

lemmas lidrup_line_simps = line_simps put_ids_codes put_id_code put_mid_string

lemma uint_pos: "i \<noteq> 0 \<Longrightarrow> 0 < uint (i :: 64 word)"
  by (metis order_le_less uint_0_iff uint_ge_0)

lemma uints_pos: "0 \<notin> set ids \<Longrightarrow> \<forall>j \<in> set (map uint (ids :: 64 word list)). 0 < j"
  using uint_pos by auto metis

lemma batch_code:
  "lidrup_put_batch b (kind_letter k) ids f = put_string (enc_lidrup b (LBatch k (map uint ids))) f"
  by (simp add: lidrup_put_batch_def lidrup_line_simps)

text \<open>The lines of the open batches, and what is left after writing them.\<close>

definition batch_line :: "idrup_kind \<Rightarrow> 64 word list \<Rightarrow> lidrup_line list" where
  "batch_line k ids = (if ids = [] then [] else [LBatch k (map uint ids)])"

definition batch_lines :: "LidrupTracer \<Rightarrow> lidrup_line list" where
  "batch_lines t = batch_line KWeaken (lu_batch_weaken t) @ batch_line KDelete (lu_batch_delete t)
     @ batch_line KRestore (lu_batch_restore t)"

abbreviation "flush_batch \<equiv> lidrup_batch_weaken_restore_and_delete"

lemma flush_batch_file:
  "lu_file (flush_batch t) = put_string (lidrup_text (lu_binary t) (batch_lines t)) (lu_file t)"
  using batch_code [of _ KWeaken] batch_code [of _ KDelete] batch_code [of _ KRestore]
  by (simp add: lidrup_batch_weaken_restore_and_delete_def Let_def batch_lines_def batch_line_def put_string_append)

lemma flush_batch_fields [simp]:
  "lu_binary (flush_batch t) = lu_binary t" "lu_piping (flush_batch t) = lu_piping t"
  "lu_table (flush_batch t) = lu_table t" "lu_imported_clause (flush_batch t) = lu_imported_clause t"
  "lu_imported_chain (flush_batch t) = lu_imported_chain t" "lu_assumptions (flush_batch t) = lu_assumptions t"
  "lu_batch_weaken (flush_batch t) = []" "lu_batch_delete (flush_batch t) = []" "lu_batch_restore (flush_batch t) = []"
  by (simp_all add: lidrup_batch_weaken_restore_and_delete_def Let_def)

lemma flush_batch_rep: "lidrup_rep t s \<Longrightarrow> lidrup_rep (flush_batch t) s"
  by (cases s) (simp add: flush_batch_file one_batch_def nonzero_batches_def)

lemma batch_lines_expand: "concat (map expand (batch_lines t)) = lidrup_pending t"
  by (simp add: batch_lines_def batch_line_def lidrup_pending_def)

lemma batch_lines_valid: "nonzero_batches t \<Longrightarrow> \<forall>l \<in> set (batch_lines t). valid_lidrup_line l"
  using uints_pos by (auto simp: batch_lines_def batch_line_def nonzero_batches_def)

lemma rep_batches: "lidrup_rep t s \<Longrightarrow> nonzero_batches t \<and> one_batch t"
  by (cases s) simp

lemma pending_flushed [simp]: "lidrup_pending (flush_batch t) = []"
  by (simp add: lidrup_pending_def)

lemma lidrup_lines_step:
  assumes "lidrup_rep t s" "\<forall>l \<in> set ls. valid_lidrup_line l" "\<forall>l \<in> set ls. expand l = [ELine l]"
    and "lidrup_rep u s'" "lu_binary u = lu_binary t" "lu_piping u = lu_piping t"
    and "it_load (lu_table u) \<le> Suc (it_load (lu_table t))" "lidrup_pending u = []"
    and "fl_out (lu_file u) = fl_out (lu_file (flush_batch t)) @ lidrup_text (lu_binary t) ls"
  shows "lidrup_step t (map ELine ls) s' u"
proof -
  have "concat (map expand ls) = map ELine ls" using assms(3) by (induction ls) auto
  then have "concat (map expand (batch_lines t @ ls)) @ lidrup_pending u = lidrup_pending t @ map ELine ls"
    using assms(8) by (simp add: batch_lines_expand)
  moreover have "\<forall>l \<in> set (batch_lines t @ ls). valid_lidrup_line l"
    using assms(2) batch_lines_valid [of t] rep_batches [OF assms(1)] by auto
  ultimately show ?thesis
    using assms unfolding lidrup_step_def
    by (intro conjI exI [of _ "batch_lines t @ ls"]) (simp_all add: flush_batch_file)
qed

lemma lidrup_line_step:
  assumes "lidrup_rep t s" "valid_lidrup_line l" "expand l = [ELine l]"
    and "lidrup_rep u s" "lu_binary u = lu_binary t" "lu_piping u = lu_piping t"
    and "lu_table u = lu_table t" "lidrup_pending u = []"
    and "fl_out (lu_file u) = fl_out (lu_file (flush_batch t)) @ enc_lidrup (lu_binary t) l"
  shows "lidrup_step t [ELine l] s u"
  using lidrup_lines_step [of t s "[l]" u s] assms by simp

lemma lidrup_flush_rep [simp]:
  "lidrup_rep (lidrup_flush_if_piping t) s \<longleftrightarrow> lidrup_rep t s"
  "lu_binary (lidrup_flush_if_piping t) = lu_binary t" "lu_piping (lidrup_flush_if_piping t) = lu_piping t"
  "lu_table (lidrup_flush_if_piping t) = lu_table t"
  "lidrup_pending (lidrup_flush_if_piping t) = lidrup_pending t"
  "fl_out (lu_file (lidrup_flush_if_piping t)) = fl_out (lu_file t)"
  by (cases s; simp add: lidrup_flush_if_piping_def one_batch_def nonzero_batches_def lidrup_pending_def)+

lemma lidrup_rep_file: "lidrup_rep t s \<Longrightarrow> fl_open f \<Longrightarrow> lidrup_rep (t\<lparr>lu_file := f\<rparr>) s"
  by (cases s) (simp add: one_batch_def nonzero_batches_def)

lemma rep_open: "lidrup_rep t s \<Longrightarrow> fl_open (lu_file t)"
  by (cases s) simp

lemma pending_file [simp]: "lidrup_pending (t\<lparr>lu_file := f\<rparr>) = lidrup_pending t"
  by (simp add: lidrup_pending_def)

lemma put_flushed_rep:
  "lidrup_rep t s \<Longrightarrow> lidrup_rep ((flush_batch t)\<lparr>lu_file := put_string x (lu_file (flush_batch t))\<rparr>) s"
  using flush_batch_rep [of t s] rep_open [of "flush_batch t" s] by (intro lidrup_rep_file) simp_all

definition same_batches :: "LidrupTracer \<Rightarrow> LidrupTracer \<Rightarrow> bool" where
  "same_batches t u \<longleftrightarrow> lu_batch_weaken u = lu_batch_weaken t \<and> lu_batch_delete u = lu_batch_delete t
     \<and> lu_batch_restore u = lu_batch_restore t \<and> lu_binary u = lu_binary t \<and> lu_piping u = lu_piping t"

lemma same_batches_simps:
  "same_batches t u \<Longrightarrow> one_batch u = one_batch t" "same_batches t u \<Longrightarrow> nonzero_batches u = nonzero_batches t"
  "same_batches t u \<Longrightarrow> lidrup_pending u = lidrup_pending t"
  by (simp_all add: same_batches_def one_batch_def nonzero_batches_def lidrup_pending_def)

lemma lidrup_find_ok:
  assumes "lidrup_rep t (m, imp, ich, as)"
  shows "\<exists>u. lidrup_find_and_delete i t = Ok (m i \<noteq> None, u)
    \<and> lidrup_rep u (m(i := None), imp @ lits_found (m i), ich @ chain_found (m i), as)
    \<and> it_load (lu_table u) \<le> it_load (lu_table t) \<and> same_batches t u \<and> lu_file u = lu_file t"
proof -
  note r = assms [unfolded lidrup_rep.simps]
  obtain tab where tab: "it_find_and_delete i (lu_table t) = Ok (m i, tab)" "it_inv tab"
    "it_load tab \<le> it_load (lu_table t)" "it.distinct_ids tab" "it.lookup tab = m(i := None)"
    using it.take_lookup [of "lu_table t" i] r by blast
  have ran: "\<forall>p \<in> ran (m(i := None)). valid_clause (fst p) \<and> 0 \<notin> set (snd p)" 
    by (rule ran_forget) (use r in blast)
  have found: "valid_clause (lits_found (m i)) \<and> 0 \<notin> set (chain_found (m i))"
  proof (cases "m i")
    case (Some p)
    then have "p \<in> ran m" by (rule ranI)
    then show ?thesis using r Some by (cases p) (auto simp: lits_found_def chain_found_def)
  qed (simp add: lits_found_def chain_found_def)
  show ?thesis using r tab ran found
    by (cases "m i")
      (auto simp: lidrup_find_and_delete_def Let_def lits_found_def chain_found_def same_batches_def one_batch_def
        nonzero_batches_def)
qed

lemma lidrup_insert_ok:
  assumes "lidrup_rep t (m, imp, ich, as)" "it_load (lu_table t) < 2 ^ 62" "m i = None"
  shows "\<exists>u. lidrup_insert i t = Ok u \<and> lidrup_rep u (m(i \<mapsto> (imp, ich)), imp, ich, as)
    \<and> it_load (lu_table u) \<le> Suc (it_load (lu_table t)) \<and> same_batches t u \<and> lu_file u = lu_file t"
proof -
  note r = assms(1) [unfolded lidrup_rep.simps]
  have "it.lookup (lu_table t) i = None" using r assms(3) by simp
  then obtain tab where "it_insert_id i (imp, ich) (lu_table t) = Ok tab" "it_inv tab"
    "it_load tab \<le> Suc (it_load (lu_table t))" "it.distinct_ids tab" "it.lookup tab = m(i \<mapsto> (imp, ich))"
    using it.ins_lookup [of "lu_table t" i "(imp, ich)"] r assms(2) by blast
  then show ?thesis using r
    by (auto simp: lidrup_insert_def ran_def same_batches_def one_batch_def nonzero_batches_def)
qed

text \<open>Adding an identifier to one batch, after writing the others.\<close>

lemma push_weaken:
  assumes "lidrup_rep w s" "i \<noteq> 0" "lu_batch_delete w = []" "lu_batch_restore w = []"
  shows "lidrup_rep (w\<lparr>lu_batch_weaken := lu_batch_weaken w @ [i], lu_weakened := n\<rparr>) s"
    "lidrup_pending (w\<lparr>lu_batch_weaken := lu_batch_weaken w @ [i], lu_weakened := n\<rparr>) = lidrup_pending w @ [EId KWeaken (uint i)]"
  using assms by (cases s; simp add: one_batch_def nonzero_batches_def lidrup_pending_def)+

lemma push_delete:
  assumes "lidrup_rep w s" "i \<noteq> 0" "lu_batch_weaken w = []" "lu_batch_restore w = []"
  shows "lidrup_rep (w\<lparr>lu_batch_delete := lu_batch_delete w @ [i], lu_deleted := n\<rparr>) s"
    "lidrup_pending (w\<lparr>lu_batch_delete := lu_batch_delete w @ [i], lu_deleted := n\<rparr>) = lidrup_pending w @ [EId KDelete (uint i)]"
  using assms by (cases s; simp add: one_batch_def nonzero_batches_def lidrup_pending_def)+

lemma push_restore:
  assumes "lidrup_rep w s" "i \<noteq> 0" "lu_batch_weaken w = []" "lu_batch_delete w = []"
  shows "lidrup_rep (w\<lparr>lu_batch_restore := lu_batch_restore w @ [i], lu_restore := n\<rparr>) s"
    "lidrup_pending (w\<lparr>lu_batch_restore := lu_batch_restore w @ [i], lu_restore := n\<rparr>) = lidrup_pending w @ [EId KRestore (uint i)]"
  using assms by (cases s; simp add: one_batch_def nonzero_batches_def lidrup_pending_def)+

lemma step_after_find:
  assumes "lidrup_step u es s v" "it_load (lu_table v) \<le> it_load (lu_table u)"
    and "it_load (lu_table u) \<le> it_load (lu_table t)" "same_batches t u" "lu_file u = lu_file t"
  shows "lidrup_step t es s v"
  using assms same_batches_simps(3) [OF assms(4)] by (simp add: lidrup_step_def same_batches_def del: lidrup_rep.simps)

lemma lidrup_push_step:
  assumes r: "lidrup_rep t s" and i: "i \<noteq> 0"
    and u: "u = (if closed then flush_batch t else t)"
    and v: "lidrup_pending v = lidrup_pending u @ [EId k (uint i)]" "lidrup_rep v s" "lu_file v = lu_file u"
      "lu_binary v = lu_binary t" "lu_piping v = lu_piping t" "lu_table v = lu_table t"
  shows "lidrup_step t [EId k (uint i)] s v"
proof (cases closed)
  case True
  then show ?thesis
    using u v batch_lines_expand [of t] batch_lines_valid [of t] rep_batches [OF r] unfolding lidrup_step_def
    by (intro conjI exI [of _ "batch_lines t"]) (simp_all add: flush_batch_file)
next
  case False
  then show ?thesis using u v unfolding lidrup_step_def by (intro conjI exI [of _ "[]"]) simp_all
qed

lemma lidrup_delete_ok:
  assumes r: "lidrup_rep t (m, imp, ich, as)" and i: "i \<noteq> 0"
  shows "\<exists>u. lidrup_delete_clause i t = Ok u
    \<and> lidrup_step t [EId (if m i = None then KDelete else KWeaken) (uint i)]
        (m(i := None), imp @ lits_found (m i), ich @ chain_found (m i), as) u"
proof -
  let ?s = "(m(i := None), imp @ lits_found (m i), ich @ chain_found (m i), as)"
  obtain u where u: "lidrup_find_and_delete i t = Ok (m i \<noteq> None, u)" "lidrup_rep u ?s"
    "it_load (lu_table u) \<le> it_load (lu_table t)" "same_batches t u" "lu_file u = lu_file t"
    using lidrup_find_ok [OF r] by blast
  have op: "\<not> file_closed (lu_file t)" using rep_open [OF r] by (simp add: file_closed_def)
  note rep' = u(2) flush_batch_rep [OF u(2)]
  show ?thesis
  proof (cases "m i")
    case None
    let ?c = "lu_batch_weaken u \<noteq> [] \<or> lu_batch_restore u \<noteq> []"
    let ?w = "if ?c then flush_batch u else u"
    let ?v = "?w\<lparr>lu_batch_delete := lu_batch_delete ?w @ [i], lu_deleted := lu_deleted ?w + 1\<rparr>"
    have w: "lidrup_rep ?w ?s" "lu_batch_weaken ?w = []" "lu_batch_restore ?w = []"
      using rep' by (simp_all del: lidrup_rep.simps fun_upd_apply)
    have "lidrup_step u [EId KDelete (uint i)] ?s ?v"
      using push_delete [OF w(1) i w(2,3)] by (intro lidrup_push_step [OF u(2) i refl]) simp_all
    from step_after_find [OF this _ u(3,4,5)] show ?thesis
      using u(1) op None by (simp add: lidrup_delete_clause_def Let_def del: lidrup_rep.simps fun_upd_apply)
  next
    case (Some p)
    let ?c = "lu_batch_delete u \<noteq> [] \<or> lu_batch_restore u \<noteq> []"
    let ?w = "if ?c then flush_batch u else u"
    let ?v = "?w\<lparr>lu_batch_weaken := lu_batch_weaken ?w @ [i], lu_weakened := lu_weakened ?w + 1\<rparr>"
    have w: "lidrup_rep ?w ?s" "lu_batch_delete ?w = []" "lu_batch_restore ?w = []"
      using rep' by (simp_all del: lidrup_rep.simps fun_upd_apply)
    have "lidrup_step u [EId KWeaken (uint i)] ?s ?v"
      using push_weaken [OF w(1) i w(2,3)] by (intro lidrup_push_step [OF u(2) i refl]) simp_all
    from step_after_find [OF this _ u(3,4,5)] show ?thesis
      using u(1) op Some by (simp add: lidrup_delete_clause_def Let_def del: lidrup_rep.simps fun_upd_apply)
  qed
qed

lemma lidrup_restore_ok:
  assumes r: "lidrup_rep t (m, imp, ich, as)" and i: "i \<noteq> 0"
  shows "\<exists>u. lidrup_add_original_clause i c True t = Ok u
    \<and> lidrup_step t (if m i = None then [EId KRestore (uint i)] else [])
        (m(i := None), imp @ lits_found (m i), ich @ chain_found (m i), as) u"
proof -
  let ?s = "(m(i := None), imp @ lits_found (m i), ich @ chain_found (m i), as)"
  obtain u where u: "lidrup_find_and_delete i t = Ok (m i \<noteq> None, u)" "lidrup_rep u ?s"
    "it_load (lu_table u) \<le> it_load (lu_table t)" "same_batches t u" "lu_file u = lu_file t"
    using lidrup_find_ok [OF r] by blast
  have op: "\<not> file_closed (lu_file t)" using rep_open [OF r] by (simp add: file_closed_def)
  note rep' = u(2) flush_batch_rep [OF u(2)]
  show ?thesis
  proof (cases "m i")
    case None
    let ?c = "lu_batch_weaken u \<noteq> [] \<or> lu_batch_delete u \<noteq> []"
    let ?w = "if ?c then flush_batch u else u"
    let ?v = "?w\<lparr>lu_batch_restore := lu_batch_restore ?w @ [i], lu_restore := lu_restore ?w + 1\<rparr>"
    have w: "lidrup_rep ?w ?s" "lu_batch_weaken ?w = []" "lu_batch_delete ?w = []"
      using rep' by (simp_all del: lidrup_rep.simps fun_upd_apply)
    have "lidrup_step u [EId KRestore (uint i)] ?s ?v"
      using push_restore [OF w(1) i w(2,3)] by (intro lidrup_push_step [OF u(2) i refl]) simp_all
    from step_after_find [OF this _ u(3,4,5)] show ?thesis
      using u(1) op None
      by (simp add: lidrup_add_original_clause_def lidrup_put_restored_def Let_def del: lidrup_rep.simps fun_upd_apply)
  next
    case (Some p)
    have "lidrup_step t [] ?s u"
      unfolding lidrup_step_def using u same_batches_simps(3) [OF u(4)]
      by (intro conjI exI [of _ "[]"]) (simp_all add: same_batches_def del: lidrup_rep.simps fun_upd_apply)
    then show ?thesis using u(1) op Some by (simp add: lidrup_add_original_clause_def del: fun_upd_apply)
  qed
qed

lemma lidrup_conclude_loop_ok:
  assumes "lidrup_rep t s" "0 \<notin> set ids" "lidrup_cores ids s = (ls, s')"
  shows "\<exists>u. lidrup_conclude_loop ids t = Ok u \<and> lidrup_rep u s' \<and> same_batches t u
    \<and> it_load (lu_table u) \<le> it_load (lu_table t)
    \<and> fl_out (lu_file u) = fl_out (lu_file t) @ lidrup_text (lu_binary t) ls
    \<and> (\<forall>l \<in> set ls. valid_lidrup_line l \<and> expand l = [ELine l])"
  using assms
proof (induction ids arbitrary: t s ls)
  case Nil
  then show ?case by (simp add: same_batches_def)
next
  case (Cons i ids)
  obtain m imp ich as where s: "s = (m, imp, ich, as)" by (cases s)
  note r = Cons.prems(1) [unfolded s] and cores = Cons.prems(3) [unfolded s]
  let ?b = "lu_binary t"
  let ?t = "t\<lparr>lu_file := put_letter ?b (CHR ''u'') (lu_file t)\<rparr>"
  have "lidrup_rep ?t (m, imp, ich, as)"
    using lidrup_rep_file [OF r, of "put_letter ?b (CHR ''u'') (lu_file t)"] rep_open [OF r] by (simp add: put_simps)
  from lidrup_find_ok [OF this, of i] obtain u where u:
    "lidrup_find_and_delete i ?t = Ok (m i \<noteq> None, u)"
    "lidrup_rep u (m(i := None), imp @ lits_found (m i), ich @ chain_found (m i), as)"
    "it_load (lu_table u) \<le> it_load (lu_table t)" "same_batches t u" "lu_file u = lu_file ?t"
    by (auto simp: same_batches_def)
  have b: "lu_binary u = ?b" using u(4) by (simp add: same_batches_def)
  show ?case
  proof (cases "m i")
    case None
    obtain l2 where l2: "lidrup_cores ids (m, imp, ich, as) = (l2, s')" "ls = LCore [] [uint i] # l2"
      using cores None by (auto split: prod.splits)
    let ?f = "if ?b then put_binary_zero (put_leb128 i (put_binary_zero (lu_file u)))
      else put_string ('' 0'' @ [newline]) (put_uint64 i (put_string ''0 '' (lu_file u)))"
    have f: "?f = put_string (enc_lidrup ?b (LCore [] [uint i])) (lu_file t)"
      using u(5) by (simp add: put_simps enc_ids_def enc_id_def enc_text_def enc_mid_def enc_end_def show_uint enc_lits_def)
    have "m(i := None) = m" using None by auto
    then have "lidrup_rep (u\<lparr>lu_file := ?f\<rparr>) (m, imp, ich, as)"
      using lidrup_rep_file [OF u(2), of ?f] None f rep_open [OF r] by (simp add: lits_found_def chain_found_def del: lidrup_rep.simps)
    from Cons.IH [OF this _ l2(1)] Cons.prems(2) obtain v where v:
      "lidrup_conclude_loop ids (u\<lparr>lu_file := ?f\<rparr>) = Ok v" "lidrup_rep v s'" "same_batches (u\<lparr>lu_file := ?f\<rparr>) v"
      "it_load (lu_table v) \<le> it_load (lu_table u)"
      "fl_out (lu_file v) = fl_out ?f @ lidrup_text ?b l2"
      "\<forall>l \<in> set l2. valid_lidrup_line l \<and> expand l = [ELine l]"
      using b by (auto simp del: lidrup_rep.simps)
    show ?thesis
      using v u f None l2(2) b Cons.prems(2) uint_pos [of i] by (auto simp: Let_def same_batches_def)
  next
    case (Some p)
    obtain c chain where p: "p = (c, chain)" by (cases p)
    obtain l2 where l2: "lidrup_cores ids (m(i := None), [], [], as) = (l2, s')"
      "ls = LCore (map uminus (imp @ c)) (map uint (ich @ chain)) # l2"
      using cores Some p by (auto split: prod.splits)
    have imp: "lu_imported_clause u = imp @ c" "lu_imported_chain u = ich @ chain"
      "valid_clause (imp @ c)" "0 \<notin> set (ich @ chain)"
      using u(2) Some p by (simp_all add: lits_found_def chain_found_def)
    let ?f = "put_end ?b (put_ids ?b (lu_imported_chain u) (put_mid ?b (put_lits ?b (map uminus (lu_imported_clause u)) (lu_file u))))"
    have f: "?f = put_string (enc_lidrup ?b (LCore (map uminus (imp @ c)) (map uint (ich @ chain)))) (lu_file t)"
      using u(5) imp by (simp add: lidrup_line_simps del: map_append)
    let ?u = "u\<lparr>lu_file := ?f, lu_imported_clause := [], lu_imported_chain := []\<rparr>"
    have "fl_open ?f" using f rep_open [OF r] by simp
    then have "lidrup_rep ?u (m(i := None), [], [], as)"
      using u(2) by (simp add: one_batch_def nonzero_batches_def)
    from Cons.IH [OF this _ l2(1)] Cons.prems(2) obtain v where v:
      "lidrup_conclude_loop ids ?u = Ok v" "lidrup_rep v s'" "same_batches ?u v"
      "it_load (lu_table v) \<le> it_load (lu_table u)"
      "fl_out (lu_file v) = fl_out ?f @ lidrup_text ?b l2"
      "\<forall>l \<in> set l2. valid_lidrup_line l \<and> expand l = [ELine l]"
      using b by (auto simp del: lidrup_rep.simps fun_upd_apply)
    have "valid_lidrup_line (LCore (map uminus (imp @ c)) (map uint (ich @ chain)))"
      using imp valid_clause_zero [of "map uminus (imp @ c)"] uints_pos [of "ich @ chain"] by (simp del: map_append)
    then show ?thesis
      using v u f Some l2(2) b by (auto simp: Let_def same_batches_def)
  qed
qed

lemma lidrup_conclude_ok:
  assumes r: "lidrup_rep t s" and v: "length ids < 2 ^ 64" "0 \<notin> set ids" and c: "lidrup_cores ids s = (ls, s')"
  shows "\<exists>u. lidrup_conclude_and_delete ids t = Ok u
    \<and> lidrup_step t (map ELine ((if length ids > 1 then [LCount (length ids)] else []) @ ls)) s' u"
proof -
  let ?ls = "if length ids > 1 then [LCount (length ids)] else []"
  let ?w = "word_of_nat (length ids) :: 64 word"
  let ?b = "flush_batch t"
  let ?t = "?b\<lparr>lu_file := put_string (lidrup_text (lu_binary t) ?ls) (lu_file ?b)\<rparr>"
  have w: "unat ?w = length ids" using v(1) by (simp add: unat_of_nat)
  have t: "(if ?w > 1
      then ?b\<lparr>lu_file := (if lu_binary t then put_leb128 ?w (put_char (CHR ''U'') (lu_file ?b))
                  else put_string [newline] (put_uint64 ?w (put_string ''U '' (lu_file ?b))))\<rparr>
      else ?b) = ?t"
    using word_length_gt_1 [OF v(1)] w by (simp add: put_simps enc_letter_def enc_count_def)
  have "lidrup_rep ?t s" by (rule put_flushed_rep [OF r])
  from lidrup_conclude_loop_ok [OF this v(2) c] obtain u where u: "lidrup_conclude_loop ids ?t = Ok u"
    "lidrup_rep u s'" "same_batches ?t u" "it_load (lu_table u) \<le> it_load (lu_table t)"
    "fl_out (lu_file u) = fl_out (lu_file ?t) @ lidrup_text (lu_binary t) ls"
    "\<forall>l \<in> set ls. valid_lidrup_line l \<and> expand l = [ELine l]" by auto
  have "lidrup_pending u = []" using same_batches_simps(3) [OF u(3)] by simp
  then have "lidrup_step t (map ELine (?ls @ ls)) s' (lidrup_flush_if_piping u)"
    using u by (intro lidrup_lines_step [OF r]) (auto simp: same_batches_def)
  moreover have "lidrup_conclude_and_delete ids t = Ok (lidrup_flush_if_piping u)"
    unfolding lidrup_conclude_and_delete_def Let_def flush_batch_fields t u(1) by simp
  ultimately show ?thesis by blast
qed

lemma lidrup_quiet_step:
  assumes "lidrup_rep u s'" "same_batches t u" "lu_file u = lu_file t" "it_load (lu_table u) \<le> Suc (it_load (lu_table t))"
  shows "lidrup_step t [] s' u"
  using assms same_batches_simps(3) [OF assms(2)] unfolding lidrup_step_def
  by (intro conjI exI [of _ "[]"]) (simp_all add: same_batches_def)

text \<open>The counters play no part.\<close>

lemma lidrup_step_counters:
  "lidrup_step t es s u \<Longrightarrow> lidrup_step t es s (u\<lparr>lu_added := n\<rparr>)"
  "lidrup_step t es s u \<Longrightarrow> lidrup_step t es s (u\<lparr>lu_solved := n\<rparr>)"
  "lidrup_step (t\<lparr>lu_original := n\<rparr>) es s u \<Longrightarrow> lidrup_step t es s u"
  by (cases s; auto simp: lidrup_step_def lidrup_pending_def one_batch_def nonzero_batches_def)+

lemma lidrup_put_lines:
  assumes r: "lidrup_rep t s"
  shows "i \<noteq> 0 \<Longrightarrow> valid_clause c \<Longrightarrow> 0 \<notin> set chain \<Longrightarrow>
      lidrup_step t [ELine (LLemma (uint i) c (map uint chain))] s (lidrup_put_derived i c chain t)"
    and "i \<noteq> 0 \<Longrightarrow> valid_clause c \<Longrightarrow> lidrup_step t [ELine (LInput (uint i) c)] s (lidrup_put_original i c t)"
    and "lidrup_step t [ELine (LStatus (norm_status st))] s (lidrup_put_status st t)"
    and "valid_clause c \<Longrightarrow> lidrup_step t [ELine (LLits KModel c)] s (lidrup_put_model c t)"
    and "lidrup_step t [ELine (LLits KQuery (lu_assumptions t))] s (lidrup_put_query t)"
proof -
  note [simp] = lidrup_line_simps Let_def and [simp del] = lidrup_rep.simps
  show "lidrup_step t [ELine (LLemma (uint i) c (map uint chain))] s (lidrup_put_derived i c chain t)"
    if v: "i \<noteq> 0" "valid_clause c" "0 \<notin> set chain"
    using v uint_pos [of i] uints_pos [of chain] valid_clause_zero [of c] put_flushed_rep [OF r]
    by (intro lidrup_line_step [OF r]) (simp_all add: lidrup_put_derived_def)
  show "lidrup_step t [ELine (LInput (uint i) c)] s (lidrup_put_original i c t)" if v: "i \<noteq> 0" "valid_clause c"
    using v uint_pos [of i] valid_clause_zero [of c] put_flushed_rep [OF r]
    by (intro lidrup_line_step [OF r]) (simp_all add: lidrup_put_original_def)
  show "lidrup_step t [ELine (LStatus (norm_status st))] s (lidrup_put_status st t)"
    using put_flushed_rep [OF r]
    by (intro lidrup_line_step [OF r])
      (simp_all add: lidrup_put_status_def norm_status_def enc_status_def show_status_def)
  show "lidrup_step t [ELine (LLits KModel c)] s (lidrup_put_model c t)" if "valid_clause c"
    using that valid_clause_zero [of c] put_flushed_rep [OF r]
    by (intro lidrup_line_step [OF r]) (simp_all add: lidrup_put_model_def)
  have "valid_clause (lu_assumptions t)" using r by (cases s) (simp add: lidrup_rep.simps)
  then show "lidrup_step t [ELine (LLits KQuery (lu_assumptions t))] s (lidrup_put_query t)"
    using valid_clause_zero [of "lu_assumptions t"] put_flushed_rep [OF r]
    by (intro lidrup_line_step [OF r]) (simp_all add: lidrup_put_query_def)
qed

lemma lidrup_flush_step: "lidrup_rep t s \<Longrightarrow> lidrup_step t [] s (lidrup_flush t)"
proof -
  assume r: "lidrup_rep t s"
  have "lidrup_rep ((flush_batch t)\<lparr>lu_file := file_flush (lu_file (flush_batch t))\<rparr>) s"
    using flush_batch_rep [OF r] rep_open [OF flush_batch_rep [OF r]] by (intro lidrup_rep_file) simp_all
  then show ?thesis
    using lidrup_lines_step [OF r, of "[]" "lidrup_flush t" s] by (simp add: lidrup_flush_def Let_def)
qed

lemma lidrup_trace_spec:
  assumes "lidrup_rep t s" "it_load (lu_table t) < 2 ^ 62" "valid_lidrup_call call s" "lidrup_spec call s = (es, s')"
  shows "\<exists>u. lidrup_trace call t = Ok u \<and> lidrup_step t es s' u"
proof -
  obtain m imp ich as where s: "s = (m, imp, ich, as)" by (cases s)
  note r = assms(1) [unfolded s] and v = assms(3) [unfolded s] and sp = assms(4) [unfolded s]
  have op: "\<not> file_closed (lu_file t)" using rep_open [OF r] by (simp add: file_closed_def)
  note [simp] = op Let_def and [simp del] = lidrup_rep.simps fun_upd_apply
  show ?thesis
  proof (cases call)
    case (LCDerive i c chain)
    then show ?thesis using lidrup_put_lines(1) [OF r, of i c chain] v sp
      by (auto simp: lidrup_add_derived_clause_def intro: lidrup_step_counters)
  next
    case (LCAssumptionClause i c chain)
    let ?t = "t\<lparr>lu_imported_clause := lu_imported_clause t @ c, lu_imported_chain := lu_imported_chain t @ chain\<rparr>"
    have "lidrup_rep ?t (m, imp @ c, ich @ chain, as)"
      using r v LCAssumptionClause by (simp add: lidrup_rep.simps one_batch_def nonzero_batches_def)
    moreover have "it_load (lu_table ?t) < 2 ^ 62" "m i = None" using assms(2) v LCAssumptionClause by simp_all
    ultimately obtain u where u: "lidrup_insert i ?t = Ok u"
      "lidrup_rep u (m(i \<mapsto> (imp @ c, ich @ chain)), imp @ c, ich @ chain, as)"
      "it_load (lu_table u) \<le> Suc (it_load (lu_table t))" "same_batches ?t u" "lu_file u = lu_file ?t"
      using lidrup_insert_ok [of ?t m "imp @ c" "ich @ chain" as i] by auto
    let ?u = "u\<lparr>lu_imported_clause := [], lu_imported_chain := []\<rparr>"
    have "lidrup_step t [] (m(i \<mapsto> (imp @ c, ich @ chain)), [], [], as) ?u"
      using u by (intro lidrup_quiet_step)
        (auto simp: lidrup_rep.simps one_batch_def nonzero_batches_def same_batches_def)
    then show ?thesis using u(1) sp LCAssumptionClause by (auto simp: lidrup_add_assumption_clause_def)
  next
    case (LCDelete i)
    then show ?thesis using lidrup_delete_ok [OF r, of i] v sp by auto
  next
    case (LCWeaken i)
    then obtain u where "lidrup_insert i t = Ok u" "lidrup_rep u (m(i \<mapsto> (imp, ich)), imp, ich, as)"
      "it_load (lu_table u) \<le> Suc (it_load (lu_table t))" "same_batches t u" "lu_file u = lu_file t"
      using lidrup_insert_ok [OF r assms(2), of i] v by auto
    then show ?thesis using sp LCWeaken lidrup_quiet_step by (auto simp: lidrup_weaken_minus_def)
  next
    case (LCConcludeUnsat ids)
    then show ?thesis using lidrup_conclude_ok [OF r, of ids] v sp
      by (auto simp: lidrup_conclude_unsat_def split: prod.splits)
  next
    case (LCOriginal i c restored)
    have r': "lidrup_rep (t\<lparr>lu_original := n\<rparr>) (m, imp, ich, as)" for n
      using r by (simp add: lidrup_rep.simps one_batch_def nonzero_batches_def)
    show ?thesis
      using lidrup_restore_ok [OF r, of i c] lidrup_put_lines(2) [OF r', of i c] v sp LCOriginal
      by (cases restored) (auto simp: lidrup_add_original_clause_def intro: lidrup_step_counters)
  next
    case (LCStatus st)
    then show ?thesis using lidrup_put_lines(3) [OF r, of st] sp s by (auto simp: lidrup_report_status_def)
  next
    case (LCModel c)
    then show ?thesis using lidrup_put_lines(4) [OF r, of c] v sp by (auto simp: lidrup_conclude_sat_def)
  next
    case LCQuery
    moreover have "lu_assumptions t = as" using r by (simp add: lidrup_rep.simps)
    ultimately show ?thesis using lidrup_put_lines(5) [OF r] sp
      by (auto simp: lidrup_solve_query_def intro: lidrup_step_counters)
  next
    case (LCAssume l)
    have "lidrup_step t [] (m, imp, ich, as @ [l]) (lidrup_add_assumption l t)"
      using r v LCAssume by (intro lidrup_quiet_step)
        (auto simp: lidrup_rep.simps lidrup_add_assumption_def one_batch_def nonzero_batches_def same_batches_def)
    then show ?thesis using sp LCAssume by auto
  next
    case LCReset
    have "lidrup_step t [] (m, imp, ich, []) (lidrup_reset_assumptions t)"
      using r by (intro lidrup_quiet_step)
        (auto simp: lidrup_rep.simps lidrup_reset_assumptions_def one_batch_def nonzero_batches_def same_batches_def)
    then show ?thesis using sp LCReset by auto
  next
    case LCFlush
    then show ?thesis using lidrup_flush_step [OF r] sp by auto
  qed
qed

lemma lidrup_run_spec:
  assumes "lidrup_rep t s" "it_load (lu_table t) + length calls \<le> 2 ^ 62" "valid_lidrup_calls calls s"
    and "lidrup_spec_run calls s = (es, s')"
  shows "\<exists>u ls. fold_outcome lidrup_trace calls t = Ok u \<and> lidrup_rep u s'
    \<and> fl_out (lu_file u) = fl_out (lu_file t) @ lidrup_text (lu_binary t) ls
    \<and> (\<forall>l \<in> set ls. valid_lidrup_line l)
    \<and> concat (map expand ls) @ lidrup_pending u = lidrup_pending t @ es"
  using assms
proof (induction calls arbitrary: t s es)
  case Nil
  then show ?case by (intro exI [of _ t] exI [of _ "[]"]) simp
next
  case (Cons call calls)
  obtain e1 s1 where s1: "lidrup_spec call s = (e1, s1)" by (cases "lidrup_spec call s")
  obtain e2 s2 where s2: "lidrup_spec_run calls s1 = (e2, s2)" by (cases "lidrup_spec_run calls s1")
  have es: "es = e1 @ e2" "s' = s2" using Cons.prems(4) s1 s2 by auto
  have "it_load (lu_table t) < 2 ^ 62" "valid_lidrup_call call s" using Cons.prems(2,3) by simp_all
  from lidrup_trace_spec [OF Cons.prems(1) this s1] obtain u l1 where
    u: "lidrup_trace call t = Ok u" "lidrup_rep u s1" "lu_binary u = lu_binary t"
      "it_load (lu_table u) \<le> Suc (it_load (lu_table t))"
      "fl_out (lu_file u) = fl_out (lu_file t) @ lidrup_text (lu_binary t) l1"
      "\<forall>l \<in> set l1. valid_lidrup_line l" "concat (map expand l1) @ lidrup_pending u = lidrup_pending t @ e1"
    by (auto simp: lidrup_step_def)
  have "it_load (lu_table u) + length calls \<le> 2 ^ 62" "valid_lidrup_calls calls s1"
    using u(4) Cons.prems(2,3) s1 by simp_all
  from Cons.IH [OF u(2) this] s2 es obtain v l2 where v: "fold_outcome lidrup_trace calls u = Ok v" "lidrup_rep v s'"
    "fl_out (lu_file v) = fl_out (lu_file u) @ lidrup_text (lu_binary u) l2"
    "\<forall>l \<in> set l2. valid_lidrup_line l" "concat (map expand l2) @ lidrup_pending v = lidrup_pending u @ e2"
    by blast
  have "concat (map expand (l1 @ l2)) @ lidrup_pending v = lidrup_pending t @ es"
    using v(5) u(7) es(1) by (metis append.assoc concat_append map_append)
  then show ?case
    using u v by (intro exI [of _ v] exI [of _ "l1 @ l2"]) (auto simp del: lidrup_rep.simps)
qed

end
