(* ===== verification/Tracer_Main.thy ===== *)
theory Tracer_Main
  imports Tracer_Codes Veripb_Tracer Lidrup_Tracer
begin

text \<open>
  The properties of the proof tracers: what they write reads back as the proof they were told,
  in both formats of every kind; a closed file stays as it is; what a query waits for is flushed.
\<close>

subsection \<open>Shared\<close>

definition fresh_file :: File where
  "fresh_file = \<lparr>fl_open = True, fl_bytes = 0, fl_out = [], fl_flushed = 0, fl_close_file = 1\<rparr>"

lemma drat_fold_counts:
  assumes "fl_open (dt_file t)" "\<forall>st \<in> set steps. valid_clause (drat_clause st)"
  shows "dt_added (fold drat_trace steps t) + dt_deleted (fold drat_trace steps t)
    = dt_added t + dt_deleted t + int (length steps)"
  using assms
proof (induction steps arbitrary: t)
  case (Cons st steps)
  have "fl_open (dt_file (drat_trace st t))" using Cons.prems drat_trace_out(1) [of t st] by simp
  with Cons.IH [of "drat_trace st t"] Cons.prems show ?case
    by (cases st)
      (simp_all add: drat_add_derived_clause_def drat_trace_delete_clause_def file_closed_def Let_def
        drat_add_clause_def drat_delete_clause_def)
qed simp

subsection \<open>Clause proofs\<close>

text \<open>
  C22. A DRAT proof, text or binary, written to a fresh file reads back as exactly the additions
  and deletions the tracer was told, in order, and the tracer counted each of them.
\<close>

theorem drat_roundtrip:
  assumes "\<forall>st \<in> set steps. valid_clause (drat_clause st)"
  shows "read_proof (if b then read_drat_binary else read_drat_text)
        (fl_out (dt_file (fold drat_trace steps (drat_init fresh_file b)))) = Some steps
    \<and> dt_added (fold drat_trace steps (drat_init fresh_file b))
        + dt_deleted (fold drat_trace steps (drat_init fresh_file b)) = int (length steps)"
  using drat_fold_out [of "drat_init fresh_file b" steps] drat_fold_counts [of "drat_init fresh_file b" steps]
    drat.read_proof_code [of steps b] assms
  by (simp add: drat_init_def fresh_file_def)

theorem drat_roundtrip_witness:
  "read_proof read_drat_binary
      (fl_out (dt_file (fold drat_trace [DAdd [1, - 300], DDel [2]] (drat_init fresh_file True))))
      = Some [DAdd [1, - 300], DDel [2]]"
  using drat_roundtrip [of "[DAdd [1, - 300], DDel [2]]" True] by (simp add: valid_clause_def)

text \<open>
  C23. An LRAT proof reads back as the added clauses with their antecedents, in order; deletions
  appear as one line before the next addition, naming the identifier added last in the text format.
  Deletions after the last addition stay in the tracer and are not in the file.
\<close>

theorem lrat_roundtrip:
  assumes "\<forall>call \<in> set calls. valid_call call"
  shows "read_proof (if b then read_lrat_binary else read_lrat_text)
        (fl_out (lt_file (fold lrat_trace calls (lrat_begin_proof n (lrat_init fresh_file b)))))
      = Some (lrat_lines b (uint n) [] calls)
    \<and> map uint (lt_delete_ids (fold lrat_trace calls (lrat_begin_proof n (lrat_init fresh_file b))))
      = lrat_pending [] calls"
  using lrat_fold_out [of "lrat_begin_proof n (lrat_init fresh_file b)" calls] assms
    lrat.read_proof_code [OF valid_lrat_lines [OF assms, of "[]" b "uint n"]]
  by (simp add: lrat_init_def fresh_file_def lrat_begin_proof_def file_closed_def valid_ids_def)

theorem lrat_roundtrip_witness:
  "read_proof read_lrat_text
      (fl_out (lt_file (fold lrat_trace [LDel 1, LAdd 4 [- 3] [2, 3], LDel 4] (lrat_begin_proof 3 (lrat_init fresh_file False)))))
      = Some [LineDel (Some 3) [1], LineAdd 4 [- 3] [2, 3]]"
  using lrat_roundtrip [of "[LDel 1, LAdd 4 [- 3] [2, 3], LDel 4]" False 3]
  by (simp add: valid_id_def valid_ids_def valid_clause_def lrat_del_line_def)

text \<open>
  C24. A FRAT proof reads back as one line per call, with the antecedents exactly if the tracer
  was asked for them.
\<close>

theorem frat_roundtrip:
  assumes "\<forall>call \<in> set calls. valid_frat call"
  shows "read_proof (read_frat b) (fl_out (ft_file (fold frat_trace calls (frat_init fresh_file b ante))))
    = Some (map (frat_line_of ante) calls)"
proof -
  have "\<forall>l \<in> set (map (frat_line_of ante) calls). valid_frat_line l" using assms valid_frat_lines by auto
  from frat.read_proof_code [OF this, of b] show ?thesis
    using frat_fold_out [of "frat_init fresh_file b ante" calls] assms
    by (simp add: frat_init_def fresh_file_def)
qed

theorem frat_roundtrip_witness:
  "read_proof (read_frat True)
      (fl_out (ft_file (fold frat_trace [FOriginal 1 [5], FDerived 2 [- 7] [1], FFinal 2 [- 7]] (frat_init fresh_file True True))))
    = Some [FrOriginal 1 [5], FrDerived 2 [- 7] (Some [1]), FrFinal 2 [- 7]]"
  using frat_roundtrip [of "[FOriginal 1 [5], FDerived 2 [- 7] [1], FFinal 2 [- 7]]" True True]
  by (simp add: valid_clause_def valid_ids_def valid_id_def)

subsection \<open>Proofs with a table of identifiers\<close>

text \<open>
  C25. The VeriPB tracer's hash table is a multiset of identifiers: every run of fewer than
  \<open>2 ^ 62\<close> calls returns, the file holds exactly the lines due, and a core clause that was weakened
  is never reported as deleted (once per weakening).
\<close>

theorem veripb_refines:
  assumes "length calls \<le> 2 ^ 62" and "veripb_spec_run ante checked calls {#} = (ls, w)"
  shows "\<exists>t. fold_outcome veripb_trace calls (veripb_init fresh_file ante checked) = Ok t
    \<and> fl_out (vp_file t) = show_lines ls \<and> it.ids (vp_table t) = w"
proof -
  have "vp_state (veripb_init fresh_file ante checked) {#}"
    by (simp add: vp_state_def veripb_init_def fresh_file_def it_init_ok it.ids_def)
  from veripb_run_spec [OF this, of calls ls w] assms show ?thesis
    by (auto simp: veripb_init_def it_init_ok vp_state_def fresh_file_def)
qed

theorem veripb_refines_witness:
  "\<exists>t. fold_outcome veripb_trace [VWeaken 1, VDelete 1 False, VDelete 2 False] (veripb_init fresh_file False True) = Ok t
    \<and> fl_out (vp_file t) = show_lines [VpDelCore 2] \<and> it.ids (vp_table t) = {#}"
  using veripb_refines [of "[VWeaken 1, VDelete 1 False, VDelete 2 False]" False True "[VpDelCore 2]" "{#}"]
  by simp

text \<open>
  C26. An IDRUP session, text or binary, returns and reads back as the lines due for its calls,
  where the table is a map from identifiers to remembered clauses: a deletion is a weakening
  exactly for a remembered clause, a concluded identifier yields its negated clause as a core.
\<close>

theorem idrup_roundtrip:
  assumes "length calls \<le> 2 ^ 62" "valid_idrup_calls calls (Map.empty, [], [])"
    and "idrup_spec_run calls (Map.empty, [], []) = (ls, s)"
  shows "\<exists>t. fold_outcome idrup_trace calls (idrup_init fresh_file b piping junk) = Ok t
    \<and> read_proof (read_idrup b) (fl_out (iu_file t)) = Some ls"
proof -
  let ?t = "idrup_init fresh_file b piping junk"
  obtain w r q n where junk: "junk = (w, r, q, n)" by (cases junk)
  have rep: "idrup_rep ?t (Map.empty, [], [])"
    by (simp add: junk idrup_init_def fresh_file_def it_init_ok it.distinct_ids_def it.ids_def it.lookup_def fun_eq_iff)
  have load: "it_load (iu_table ?t) + length calls \<le> 2 ^ 62"
    using assms(1) by (simp add: junk idrup_init_def it_init_ok)
  obtain t where t: "fold_outcome idrup_trace calls ?t = Ok t"
    "fl_out (iu_file t) = fl_out (iu_file ?t) @ idrup_text (iu_binary ?t) ls"
    using idrup_run_spec [OF rep load assms(2,3)] by blast
  have "read_proof (read_idrup b) (idrup_text b ls) = Some ls"
    unfolding idrup_text_def by (rule idrup.read_proof_code [OF valid_idrup_run [OF rep load assms(2,3)]])
  then show ?thesis using t by (simp add: junk idrup_init_def fresh_file_def)
qed

theorem idrup_roundtrip_witness:
  "\<exists>t. fold_outcome idrup_trace [ICOriginal 1 [1, 2] False, ICAssume (- 1), ICQuery, ICAssumptionClause 2 [1], ICStatus 20,
          ICConcludeUnsat [2]] (idrup_init fresh_file True False (0, 0, 0, 0)) = Ok t
    \<and> read_proof (read_idrup True) (fl_out (iu_file t)) =
        Some [ILits KInput [1, 2], ILits KQuery [- 1], IStatus 20, ILits KCore [- 1]]"
  using idrup_roundtrip [of "[ICOriginal 1 [1, 2] False, ICAssume (- 1), ICQuery, ICAssumptionClause 2 [1], ICStatus 20,
          ICConcludeUnsat [2]]" _ _ True False "(0, 0, 0, 0)"]
  by (simp add: valid_clause_def norm_status_def lits_of_def)

text \<open>
  C27. LIDRUP's batches do not reorder a session: the lines in the file, with every batch expanded,
  followed by the open batch, are the events of the session in the order they happened; and at
  most one batch is open.  As in the code without its assertions, the literals and antecedents of a
  remembered clause that is deleted are left for the next one, and several unknown identifiers of a
  conclusion get a line each.
\<close>

theorem lidrup_batches_in_order:
  assumes "length calls \<le> 2 ^ 62" "valid_lidrup_calls calls (Map.empty, [], [], [])"
    and "lidrup_spec_run calls (Map.empty, [], [], []) = (es, s)"
  shows "\<exists>t ls. fold_outcome lidrup_trace calls (lidrup_init fresh_file b piping junk) = Ok t
    \<and> read_proof (read_lidrup b) (fl_out (lu_file t)) = Some ls
    \<and> concat (map expand ls) @ lidrup_pending t = es \<and> one_batch t"
proof -
  let ?t = "lidrup_init fresh_file b piping junk"
  obtain w r q n k where junk: "junk = (w, r, q, n, k)" by (cases junk)
  have rep: "lidrup_rep ?t (Map.empty, [], [], [])"
    by (simp add: junk lidrup_init_def fresh_file_def it_init_ok it.distinct_ids_def it.ids_def it.lookup_def fun_eq_iff
        one_batch_def nonzero_batches_def)
  have load: "it_load (lu_table ?t) + length calls \<le> 2 ^ 62"
    using assms(1) by (simp add: junk lidrup_init_def it_init_ok)
  obtain t ls where t: "fold_outcome lidrup_trace calls ?t = Ok t" "lidrup_rep t s"
    "fl_out (lu_file t) = fl_out (lu_file ?t) @ lidrup_text (lu_binary ?t) ls" "\<forall>l \<in> set ls. valid_lidrup_line l"
    "concat (map expand ls) @ lidrup_pending t = lidrup_pending ?t @ es"
    using lidrup_run_spec [OF rep load assms(2,3)] by blast
  have "read_proof (read_lidrup b) (lidrup_text b ls) = Some ls"
    unfolding lidrup_text_def by (rule lidrup.read_proof_code [OF t(4)])
  then show ?thesis using t rep_batches [OF t(2)]
    by (intro exI [of _ t] exI [of _ ls]) (simp add: junk lidrup_init_def fresh_file_def lidrup_pending_def)
qed

theorem lidrup_batches_in_order_witness:
  "\<exists>t ls. fold_outcome lidrup_trace [LCWeaken 1, LCDelete 1, LCDelete 2, LCDelete 3, LCOriginal 1 [4] True, LCQuery]
        (lidrup_init fresh_file True False (0, 0, 0, 0, 0)) = Ok t
    \<and> read_proof (read_lidrup True) (fl_out (lu_file t)) = Some ls
    \<and> concat (map expand ls) @ lidrup_pending t =
        [EId KWeaken 1, EId KDelete 2, EId KDelete 3, EId KRestore 1, ELine (LLits KQuery [])] \<and> one_batch t"
  using lidrup_batches_in_order [of "[LCWeaken 1, LCDelete 1, LCDelete 2, LCDelete 3, LCOriginal 1 [4] True, LCQuery]"
      _ _ True False "(0, 0, 0, 0, 0)"]
  by (simp add: valid_clause_def lits_found_def)

subsection \<open>Files\<close>

lemma leb128_length: "n < 128 ^ k \<Longrightarrow> 0 < k \<Longrightarrow> length (leb128 n) \<le> k"
proof (induction k arbitrary: n)
  case (Suc k)
  show ?case
  proof (cases "n < 128")
    case True
    then show ?thesis by (subst leb128.simps) simp
  next
    case False
    then have "0 < k" using Suc.prems by (cases k) auto
    moreover have "n div 128 < 128 ^ k" using Suc.prems(1) by (simp add: div_less_iff_less_mult mult.commute)
    ultimately show ?thesis using Suc.IH [of "n div 128"] False by (subst leb128.simps) simp
  qed
qed simp

lemma leb128_at_most_10: "length (leb128 (unat (x :: 64 word))) \<le> 10"
proof (rule leb128_length)
  have "unat x < 2 ^ 64" using unsigned_less [of x] by simp
  also have "(2 :: nat) ^ 64 < 128 ^ 10" by simp
  finally show "unat x < 128 ^ 10" .
qed simp

text \<open>
  C28. Every number takes at least one and at most ten bytes in the binary formats, reads back
  alone, and the file's byte counter follows.
\<close>

theorem binary_number_bounds:
  "\<exists>code. put_leb128 x f = f\<lparr>fl_out := fl_out f @ code, fl_bytes := fl_bytes f + of_nat (length code)\<rparr>
     \<and> 1 \<le> length code \<and> length code \<le> 10 \<and> read_leb128 (code @ rest) = Some (unat x, rest)"
proof -
  have "1 \<le> length (leb128 (unat x))" by (subst leb128.simps) simp
  then show ?thesis
    using leb128_at_most_10 [of x] read_leb128_code [of "unat x" rest]
    by (intro exI [of _ "leb128 (unat x)"]) (simp add: put_leb128_string put_string_eq)
qed

lemma fill_digits_length: "n < 10 ^ k \<Longrightarrow> length (fill_digits n []) \<le> k"
proof (induction k arbitrary: n)
  case 0
  then show ?case by (simp add: fill_digits.simps)
next
  case (Suc k)
  show ?case
  proof (cases "n = 0")
    case True
    then show ?thesis by (simp add: fill_digits.simps)
  next
    case False
    have "n div 10 < 10 ^ k" using Suc.prems by (simp add: div_less_iff_less_mult mult.commute)
    then show ?thesis
      using Suc.IH [of "n div 10"] False fill_digits_append [of "n div 10" "[]" "[char_of (48 + n mod 10)]"]
      by (subst fill_digits.simps) simp
  qed
qed

text \<open>
  The local buffers of the decimal output are long enough: a 32-bit literal has at most 10
  digits (buffer of 11 with the final zero), a signed 64-bit number at most 19 (of 21) and an
  unsigned one at most 20 (of 22), so the digit loops never run below the buffer.
\<close>

theorem decimal_buffers_suffice:
  assumes "- 2147483648 < lit" "lit \<le> 2147483647" "- 9223372036854775808 < l" "l \<le> 9223372036854775807"
  shows "length (fill_digits (nat \<bar>lit\<bar>) []) \<le> 10 \<and> length (fill_digits (nat \<bar>l\<bar>) []) \<le> 19
    \<and> length (fill_digits (unat (u :: 64 word)) []) \<le> 20"
proof (intro conjI)
  show "length (fill_digits (nat \<bar>lit\<bar>) []) \<le> 10" using assms(1,2) by (intro fill_digits_length) simp
  show "length (fill_digits (nat \<bar>l\<bar>) []) \<le> 19" using assms(3,4) by (intro fill_digits_length) simp
  have "unat u < 2 ^ 64" using unsigned_less [of u] by simp
  also have "(2 :: nat) ^ 64 < 10 ^ 20" by simp
  finally show "length (fill_digits (unat u) []) \<le> 20" by (rule fill_digits_length)
qed

theorem decimal_buffers_suffice_witness:
  "length (fill_digits (nat \<bar>- 2147483647\<bar>) []) \<le> 10 \<and> length (fill_digits (nat \<bar>9223372036854775807\<bar>) []) \<le> 19
    \<and> length (fill_digits (unat (- 1 :: 64 word)) []) \<le> 20"
  by (rule decimal_buffers_suffice) simp_all

definition all_flushed :: "File \<Rightarrow> bool" where
  "all_flushed f \<longleftrightarrow> fl_flushed f = length (fl_out f)"

lemma flush_if_piping_flushed:
  "iu_piping t \<Longrightarrow> all_flushed (iu_file (idrup_flush_if_piping t))"
  "lu_piping v \<Longrightarrow> all_flushed (lu_file (lidrup_flush_if_piping v))"
  by (simp_all add: idrup_flush_if_piping_def lidrup_flush_if_piping_def file_flush_def all_flushed_def)

lemma find_piping:
  "idrup_find_and_delete i t = Ok (r, u) \<Longrightarrow> iu_piping u = iu_piping t"
  "lidrup_find_and_delete i v = Ok (r, w) \<Longrightarrow> lu_piping w = lu_piping v"
  by (auto simp: idrup_find_and_delete_def lidrup_find_and_delete_def bind_outcome_Ok Let_def split: option.splits)

lemma idrup_conclude_piping: "idrup_conclude_loop ids t = Ok u \<Longrightarrow> iu_piping u = iu_piping t"
proof (induction ids arbitrary: t)
  case (Cons i ids)
  then show ?case by (fastforce simp: Let_def bind_outcome_Ok dest: find_piping)
qed simp

lemma lidrup_conclude_piping: "lidrup_conclude_loop ids t = Ok u \<Longrightarrow> lu_piping u = lu_piping t"
proof (induction ids arbitrary: t)
  case (Cons i ids)
  then show ?case by (fastforce simp: Let_def bind_outcome_Ok split: if_splits dest: find_piping)
qed simp

lemma idrup_conclude_flushed:
  "iu_piping t \<Longrightarrow> idrup_conclude_and_delete ids t = Ok u \<Longrightarrow> all_flushed (iu_file u)"
  using idrup_conclude_piping flush_if_piping_flushed(1)
  by (auto simp: idrup_conclude_and_delete_def Let_def bind_outcome_Ok split: if_splits)

lemma lidrup_conclude_flushed:
  "lu_piping t \<Longrightarrow> lidrup_conclude_and_delete ids t = Ok u \<Longrightarrow> all_flushed (lu_file u)"
  using lidrup_conclude_piping flush_if_piping_flushed(2)
  by (auto simp: lidrup_conclude_and_delete_def Let_def bind_outcome_Ok split: if_splits)

text \<open>
  C30. On a pipe, nothing an interactive checker waits for stays in a buffer: after a query, a
  model, a status and a conclusion of the IDRUP or LIDRUP tracer, all output has been flushed.
\<close>

theorem interactive_output_flushed:
  assumes "iu_piping t" "fl_open (iu_file t)" "lu_piping v" "fl_open (lu_file v)"
    and "idrup_conclude_unsat ids t = Ok t'" "lidrup_conclude_unsat ids v = Ok v'"
  shows "(\<forall>u \<in> {idrup_solve_query t, idrup_conclude_sat model t, idrup_report_status st t, t'}. all_flushed (iu_file u))
    \<and> (\<forall>u \<in> {lidrup_solve_query v, lidrup_conclude_sat model v, lidrup_report_status st v, v'}. all_flushed (lu_file u))"
proof -
  have "all_flushed (iu_file u)" if "u \<in> {idrup_solve_query t, idrup_conclude_sat model t, idrup_report_status st t, t'}" for u
    using that assms idrup_conclude_flushed [of t ids t'] flush_if_piping_flushed(1)
    by (auto simp: file_closed_def Let_def idrup_solve_query_def idrup_put_query_def idrup_conclude_sat_def
        idrup_put_model_def idrup_report_status_def idrup_put_status_def idrup_conclude_unsat_def)
  moreover have "all_flushed (lu_file u)"
    if "u \<in> {lidrup_solve_query v, lidrup_conclude_sat model v, lidrup_report_status st v, v'}" for u
    using that assms lidrup_conclude_flushed [of v ids v'] flush_if_piping_flushed(2)
    by (auto simp: file_closed_def Let_def lidrup_solve_query_def lidrup_put_query_def lidrup_conclude_sat_def
        lidrup_put_model_def lidrup_report_status_def lidrup_put_status_def lidrup_conclude_unsat_def)
  ultimately show ?thesis by blast
qed

theorem interactive_output_flushed_witness:
  "all_flushed (iu_file (idrup_solve_query (idrup_init fresh_file False True (0, 0, 0, 0))))
   \<and> all_flushed (lu_file (lidrup_solve_query (lidrup_init fresh_file False True (0, 0, 0, 0, 0))))"
proof -
  let ?t = "idrup_init fresh_file False True (0, 0, 0, 0)" and ?v = "lidrup_init fresh_file False True (0, 0, 0, 0, 0)"
  have "idrup_conclude_unsat [] ?t = Ok ?t" "lidrup_conclude_unsat [] ?v = Ok ?v"
    by (simp_all add: idrup_init_def lidrup_init_def fresh_file_def idrup_conclude_unsat_def idrup_conclude_and_delete_def
      lidrup_conclude_unsat_def lidrup_conclude_and_delete_def Let_def file_closed_def
      idrup_flush_if_piping_def lidrup_flush_if_piping_def file_flush_def lidrup_batch_weaken_restore_and_delete_def)
  from interactive_output_flushed [OF _ _ _ _ this, where model = "[1]" and st = 10] show ?thesis
    by (simp add: idrup_init_def lidrup_init_def fresh_file_def)
qed

text \<open>
  After closing, no call of a tracer writes: the file and its byte counter stay as they are.
\<close>

theorem closed_tracers_are_silent:
  "dt_file (drat_trace ds (drat_close d)) = dt_file (drat_close d)
   \<and> lt_file (lrat_trace ls (lrat_close l)) = lt_file (lrat_close l)
   \<and> ft_file (frat_trace fs (frat_close f)) = ft_file (frat_close f)
   \<and> (\<exists>u. veripb_trace vs (veripb_close v) = Ok u \<and> vp_file u = vp_file (veripb_close v))
   \<and> (\<exists>u. idrup_trace is (idrup_close i) = Ok u \<and> iu_file u = iu_file (idrup_close i))"
proof -
  have "dt_file (drat_trace ds (drat_close d)) = dt_file (drat_close d)"
    by (cases ds) (simp_all add: drat_close_def file_close_def file_closed_def drat_add_derived_clause_def drat_trace_delete_clause_def)
  moreover have "lt_file (lrat_trace ls (lrat_close l)) = lt_file (lrat_close l)"
    by (cases ls) (simp_all add: lrat_close_def file_close_def file_closed_def lrat_add_derived_clause_def lrat_trace_delete_clause_def)
  moreover have "ft_file (frat_trace fs (frat_close f)) = ft_file (frat_close f)"
    by (cases fs) (simp_all add: frat_close_def file_close_def frat_defs)
  moreover have "\<exists>u. veripb_trace vs (veripb_close v) = Ok u \<and> vp_file u = vp_file (veripb_close v)"
    by (cases vs) (simp_all add: veripb_close_def file_close_def file_closed_def veripb_begin_proof_def
      veripb_add_derived_clause_def veripb_delete_clause_def veripb_report_status_def veripb_weaken_minus_def veripb_strengthen_def)
  moreover have "\<exists>u. idrup_trace is (idrup_close i) = Ok u \<and> iu_file u = iu_file (idrup_close i)"
    by (cases "is") (simp_all add: idrup_close_def file_close_def file_closed_def idrup_add_derived_clause_def
      idrup_add_assumption_clause_def idrup_delete_clause_def idrup_weaken_minus_def idrup_conclude_unsat_def
      idrup_add_original_clause_def idrup_report_status_def idrup_conclude_sat_def idrup_solve_query_def
      idrup_add_assumption_def idrup_reset_assumptions_def)
  ultimately show ?thesis by blast
qed

end
