(* ===== verification/Extension.thy ===== *)
theory Extension
  imports Hash_Table
begin

text \<open>
  The external solver's extension stack (\<^verbatim>\<open>extend.cpp\<close>, \<^verbatim>\<open>restore.cpp\<close> and the parts of
  \<^verbatim>\<open>external.hpp\<close> and \<^verbatim>\<open>external.cpp\<close> they use).  Removed clauses are kept on a stack of integers
  with the witness literals that repair a model for them; \<^verbatim>\<open>extend\<close> walks it backward to complete
  an assignment, \<^verbatim>\<open>restore_clauses\<close> takes clauses back that new clauses have made necessary.

  The record holds the external solver's own fields, the internal map \<^verbatim>\<open>i2e\<close>, and the clauses handed
  to the internal solver.  What the internal solver answers (the value of an internal literal, the
  literals fixed at root level after some clauses were added) are arguments.  A walk that leaves the
  stack is \<open>None\<close>.
\<close>

unbundle bit_operations_syntax

subsection \<open>State\<close>

text \<open>A restored clause: identifier, external and internal literals, identifiers of external units.\<close>

type_synonym restored = "64 word \<times> int list \<times> int list \<times> 64 word list"

record External =
  xt_max_var :: int
  xt_vsize :: nat
  xt_vals :: "bool list"
  xt_e2i :: "int list"
  xt_ext_units :: "64 word list"
  xt_ext_flags :: "bool list"
  xt_eclause :: "int list"
  xt_extended :: bool
  xt_concluded :: bool
  xt_extension :: "int list"
  xt_witness :: "bool list"
  xt_tainted :: "bool list"
  xt_i2e :: "int list"
  xt_added :: "restored list"
  xt_stats_weakened :: int
  xt_stats_weakenedlen :: int
  xt_stats_extensions :: int
  xt_stats_extended :: int
  xt_stats_restorations :: int
  xt_stats_restored :: int
  xt_stats_restoredlits :: int

definition xt_new :: External where
  "xt_new = \<lparr>xt_max_var = 0, xt_vsize = 0, xt_vals = [], xt_e2i = [], xt_ext_units = [], xt_ext_flags = [],
     xt_eclause = [], xt_extended = False, xt_concluded = False, xt_extension = [], xt_witness = [],
     xt_tainted = [], xt_i2e = [], xt_added = [], xt_stats_weakened = 0, xt_stats_weakenedlen = 0,
     xt_stats_extensions = 0, xt_stats_extended = 0, xt_stats_restorations = 0, xt_stats_restored = 0,
     xt_stats_restoredlits = 0\<rparr>"

subsection \<open>Marks and values\<close>

definition elit2ulit :: "int \<Rightarrow> nat" where
  "elit2ulit elit = nat (2 * (\<bar>elit\<bar> - 1) + (if elit < 0 then 1 else 0))"

definition xt_marked :: "bool list \<Rightarrow> int \<Rightarrow> bool" where
  "xt_marked m elit = (let ulit = elit2ulit elit in if ulit < length m then m ! ulit else False)"

definition xt_mark :: "int \<Rightarrow> bool list \<Rightarrow> bool list" where
  "xt_mark elit m =
     (let ulit = elit2ulit elit;
          m = (if ulit \<ge> length m then resize (ulit + 1) False m else m)
      in m[ulit := True])"

definition xt_unmark :: "int \<Rightarrow> bool list \<Rightarrow> bool list" where
  "xt_unmark elit m = (let ulit = elit2ulit elit in if ulit < length m then m[ulit := False] else m)"

definition xt_ival :: "External \<Rightarrow> int \<Rightarrow> int" where
  "xt_ival s elit =
     (let eidx = \<bar>elit\<bar>;
          v = (if eidx \<le> xt_max_var s \<and> nat eidx < length (xt_vals s) then xt_vals s ! nat eidx else False);
          v = (if elit < 0 then \<not> v else v)
      in if v then elit else - elit)"

definition xt_externalize :: "External \<Rightarrow> int \<Rightarrow> int" where
  "xt_externalize s lit =
     (let idx = \<bar>lit\<bar>; res = xt_i2e s ! nat idx in if lit < 0 then - res else res)"

definition xt_fixed :: "(int \<Rightarrow> int) \<Rightarrow> External \<Rightarrow> int \<Rightarrow> int" where
  "xt_fixed ifixed s elit =
     (let eidx = \<bar>elit\<bar> in
      if eidx > xt_max_var s then 0
      else
        (let ilit = xt_e2i s ! nat eidx in
         if ilit = 0 then 0 else ifixed (if elit < 0 then - ilit else ilit)))"

subsection \<open>Variables\<close>

function xt_grow :: "nat \<Rightarrow> nat \<Rightarrow> nat" where
  "xt_grow n v = (if 0 < v \<and> v \<le> n then xt_grow n (2 * v) else v)"
  by pat_completeness auto
termination
  by (relation "measure (\<lambda>(n, v). n + 1 - v)") auto

declare xt_grow.simps [simp del]

definition xt_enlarge :: "int \<Rightarrow> External \<Rightarrow> External" where
  "xt_enlarge n s =
     (let v = (if xt_vsize s \<noteq> 0 then 2 * xt_vsize s else 1 + nat n)
      in s\<lparr>xt_vsize := xt_grow (nat n) v\<rparr>)"

definition xt_init :: "int \<Rightarrow> External \<Rightarrow> External" where
  "xt_init n s =
     (if n \<le> xt_max_var s then s
      else
        (let s = (if nat n \<ge> xt_vsize s then xt_enlarge n s else s);
             s = (if xt_max_var s = 0
                  then s\<lparr>xt_e2i := xt_e2i s @ [0], xt_ext_units := xt_ext_units s @ [0, 0],
                         xt_ext_flags := xt_ext_flags s @ [False], xt_i2e := xt_i2e s @ [0]\<rparr>
                  else s);
             k = nat (n - xt_max_var s);
             iidx = int (length (xt_i2e s))
         in s\<lparr>xt_e2i := xt_e2i s @ map (\<lambda>j. iidx + int j) [0..<k],
              xt_ext_units := xt_ext_units s @ replicate (2 * k) 0,
              xt_ext_flags := xt_ext_flags s @ replicate k False,
              xt_i2e := xt_i2e s @ map (\<lambda>j. xt_max_var s + 1 + int j) [0..<k],
              xt_max_var := n\<rparr>))"

text \<open>
  \<^verbatim>\<open>internalize\<close>: the map to internal literals and the taint; activating the internal variable and
  the check for molten literals are the internal solver's.
\<close>

definition xt_internalize :: "int \<Rightarrow> External \<Rightarrow> int \<times> External" where
  "xt_internalize elit s =
     (if elit = 0 then (0, s)
      else
        (let eidx = \<bar>elit\<bar>;
             s = (if eidx > xt_max_var s then xt_init eidx s else s);
             ilit = xt_e2i s ! nat eidx;
             ilit = (if elit < 0 then - ilit else ilit);
             (ilit, s) =
               (if ilit = 0 then
                  (let ilit = int (length (xt_i2e s));
                       s = s\<lparr>xt_e2i := (xt_e2i s)[nat eidx := ilit], xt_i2e := xt_i2e s @ [eidx]\<rparr>
                   in (if elit < 0 then - ilit else ilit, s))
                else (ilit, s));
             s = (if \<not> xt_marked (xt_tainted s) elit \<and> xt_marked (xt_witness s) (- elit)
                  then s\<lparr>xt_tainted := xt_mark elit (xt_tainted s)\<rparr> else s)
         in (ilit, s)))"

subsection \<open>Pushing clauses\<close>

definition push_zero_on_extension_stack :: "External \<Rightarrow> External" where
  "push_zero_on_extension_stack s = s\<lparr>xt_extension := xt_extension s @ [0]\<rparr>"

text \<open>The stack is a \<^verbatim>\<open>vector<int>\<close>, so that the two unsigned halves are stored as signed numbers.\<close>

definition id_higher_bits :: "64 word \<Rightarrow> 32 word" where
  "id_higher_bits i = ucast (push_bit 32 i)"

definition id_lower_bits :: "64 word \<Rightarrow> 32 word" where
  "id_lower_bits i = ucast (i AND (push_bit 32 1 - 1))"

definition push_id_on_extension_stack :: "64 word \<Rightarrow> External \<Rightarrow> External" where
  "push_id_on_extension_stack i s =
     s\<lparr>xt_extension := xt_extension s @ [sint (id_higher_bits i), sint (id_lower_bits i)]\<rparr>"

definition push_clause_literal_on_extension_stack :: "int \<Rightarrow> External \<Rightarrow> External" where
  "push_clause_literal_on_extension_stack ilit s =
     s\<lparr>xt_extension := xt_extension s @ [xt_externalize s ilit]\<rparr>"

definition push_witness_literal_on_extension_stack :: "int \<Rightarrow> External \<Rightarrow> External" where
  "push_witness_literal_on_extension_stack ilit s =
     (let elit = xt_externalize s ilit;
          s = s\<lparr>xt_extension := xt_extension s @ [elit]\<rparr>
      in if xt_marked (xt_witness s) elit then s
         else s\<lparr>xt_witness := xt_mark elit (xt_witness s)\<rparr>)"

definition push_clause_on_extension_stack :: "64 word \<Rightarrow> int list \<Rightarrow> External \<Rightarrow> External" where
  "push_clause_on_extension_stack cid c s =
     (let s = s\<lparr>xt_stats_weakened := xt_stats_weakened s + 1,
                xt_stats_weakenedlen := xt_stats_weakenedlen s + int (length c)\<rparr>;
          s = push_zero_on_extension_stack s;
          s = push_id_on_extension_stack cid s;
          s = push_zero_on_extension_stack s
      in fold push_clause_literal_on_extension_stack c s)"

definition push_clause_pivot_on_extension_stack :: "64 word \<Rightarrow> int list \<Rightarrow> int \<Rightarrow> External \<Rightarrow> External" where
  "push_clause_pivot_on_extension_stack cid c pivot s =
     (let s = push_zero_on_extension_stack s;
          s = push_witness_literal_on_extension_stack pivot s
      in push_clause_on_extension_stack cid c s)"

definition push_binary_clause_on_extension_stack :: "64 word \<Rightarrow> int \<Rightarrow> int \<Rightarrow> External \<Rightarrow> External" where
  "push_binary_clause_on_extension_stack cid pivot other s =
     (let s = s\<lparr>xt_stats_weakened := xt_stats_weakened s + 1, xt_stats_weakenedlen := xt_stats_weakenedlen s + 2\<rparr>;
          s = push_zero_on_extension_stack s;
          s = push_witness_literal_on_extension_stack pivot s;
          s = push_zero_on_extension_stack s;
          s = push_id_on_extension_stack cid s;
          s = push_zero_on_extension_stack s;
          s = push_clause_literal_on_extension_stack pivot s
      in push_clause_literal_on_extension_stack other s)"

definition push_external_clause_and_witness_on_extension_stack ::
    "int list \<Rightarrow> int list \<Rightarrow> 64 word \<Rightarrow> External \<Rightarrow> External" where
  "push_external_clause_and_witness_on_extension_stack c w cid s =
     (let s = s\<lparr>xt_extension := xt_extension s @ [0]\<rparr>;
          s = fold (\<lambda>elit s.
                let s = xt_init \<bar>elit\<bar> s
                in s\<lparr>xt_extension := xt_extension s @ [elit], xt_witness := xt_mark elit (xt_witness s)\<rparr>) w s;
          s = s\<lparr>xt_extension := xt_extension s @ [0]\<rparr>;
          s = s\<lparr>xt_extension := xt_extension s @ [sint (id_higher_bits cid), sint (id_lower_bits cid)]\<rparr>;
          s = s\<lparr>xt_extension := xt_extension s @ [0]\<rparr>
      in fold (\<lambda>elit s. let s = xt_init \<bar>elit\<bar> s in s\<lparr>xt_extension := xt_extension s @ [elit]\<rparr>) c s)"

subsection \<open>Extending an assignment\<close>

text \<open>\<^verbatim>\<open>while ((lit = *--i))\<close> on a reversed stack: the literals read and what is below the zero.\<close>

fun split_zero :: "int list \<Rightarrow> (int list \<times> int list) option" where
  "split_zero [] = None"
| "split_zero (x # xs) = (if x = 0 then Some ([], xs) else map_option (\<lambda>(ls, r). (x # ls, r)) (split_zero xs))"

lemma split_zero_length: "split_zero xs = Some (ls, r) \<Longrightarrow> length r < length xs"
  by (induction xs arbitrary: ls r) (auto split: if_splits)

definition copy_values :: "(int \<Rightarrow> int) \<Rightarrow> External \<Rightarrow> External" where
  "copy_values val s =
     fold (\<lambda>i s.
       let ilit = xt_e2i s ! i in
       if ilit = 0 then s
       else
         (let v = (if i \<ge> length (xt_vals s) then resize (i + 1) False (xt_vals s) else xt_vals s)
          in s\<lparr>xt_vals := v[i := val ilit > 0]\<rparr>)) [1..<nat (xt_max_var s) + 1] s"

definition flip_literal :: "int \<Rightarrow> External \<Rightarrow> External" where
  "flip_literal lit s =
     (if xt_ival s lit \<noteq> lit then
        (let idx = nat \<bar>lit\<bar>;
             v = (if idx \<ge> length (xt_vals s) then resize (idx + 1) False (xt_vals s) else xt_vals s)
         in s\<lparr>xt_vals := v[idx := \<not> v ! idx], xt_stats_extended := xt_stats_extended s + 1\<rparr>)
      else s)"

text \<open>The loop over the stack; the argument is the reversed part below the iterator.\<close>

function extend_loop :: "int list \<Rightarrow> External \<Rightarrow> External option" where
  "extend_loop r s =
     (if r = [] then Some s
      else
        (case split_zero r of
           None \<Rightarrow> None
         | Some (clause, r1) \<Rightarrow>
             if length r1 < 3 then None
             else
               (case split_zero (drop 3 r1) of
                  None \<Rightarrow> None
                | Some (witness, r2) \<Rightarrow>
                    extend_loop r2
                      (if \<exists>lit \<in> set clause. xt_ival s lit = lit then s else fold flip_literal witness s))))"
  by pat_completeness auto
termination
proof (relation "measure (\<lambda>(r, s). length r)", goal_cases)
  case (2 r s p clause r1 q witness r2)
  then show ?case using split_zero_length [of r clause r1] split_zero_length [of "drop 3 r1" witness r2] by simp
qed simp

declare extend_loop.simps [simp del]

definition xt_extend :: "(int \<Rightarrow> int) \<Rightarrow> External \<Rightarrow> External option" where
  "xt_extend val s =
     (let s = s\<lparr>xt_stats_extensions := xt_stats_extensions s + 1\<rparr>;
          s = copy_values val s
      in map_option (\<lambda>s. s\<lparr>xt_extended := True\<rparr>) (extend_loop (rev (xt_extension s)) s))"

text \<open>The model is passed on to the proof, if there is one.\<close>

definition xt_conclude_sat :: "bool \<Rightarrow> (int \<Rightarrow> int) \<Rightarrow> External \<Rightarrow> (int list option \<times> External) option" where
  "xt_conclude_sat proof val s =
     (if \<not> proof \<or> xt_concluded s then Some (None, s)
      else
        (let s = s\<lparr>xt_concluded := True\<rparr>
         in Option.bind (if \<not> xt_extended s then xt_extend val s else Some s)
              (\<lambda>s. Some (Some (map (xt_ival s) [1..xt_max_var s]), s))))"

subsection \<open>Traversing the stack\<close>

text \<open>\<^verbatim>\<open>((uint64_t) hi << 32) + static_cast<uint64_t> (lo)\<close> on signed halves: both are sign-extended.\<close>

definition join_id :: "int \<Rightarrow> int \<Rightarrow> 64 word" where
  "join_id hi lo = push_bit 32 (word_of_int hi) + word_of_int lo"

text \<open>The callback \<^verbatim>\<open>it.witness (clause, witness, id)\<close> on a state of its own; false stops.\<close>

type_synonym 'c visit = "int list \<Rightarrow> int list \<Rightarrow> 64 word \<Rightarrow> 'c \<Rightarrow> bool \<times> 'c"

function backward_loop :: "'c visit \<Rightarrow> int list \<Rightarrow> 'c \<Rightarrow> (bool \<times> 'c) option" where
  "backward_loop visit r a =
     (if r = [] then Some (True, a)
      else
        (case split_zero r of
           None \<Rightarrow> None
         | Some (clause, r1) \<Rightarrow>
             if length r1 < 3 then None
             else
               (case split_zero (drop 3 r1) of
                  None \<Rightarrow> None
                | Some (witness, r2) \<Rightarrow>
                    (case visit (rev clause) (rev witness) (join_id (r1 ! 1) (r1 ! 0)) a of
                       (False, a) \<Rightarrow> Some (False, a)
                     | (True, a) \<Rightarrow> backward_loop visit r2 a))))"
  by pat_completeness auto
termination
proof (relation "measure (\<lambda>(visit, r, a). length r)", goal_cases)
  case (2 visit r a p clause r1 q witness r2)
  then show ?case using split_zero_length [of r clause r1] split_zero_length [of "drop 3 r1" witness r2] by simp
qed simp

declare backward_loop.simps [simp del]

definition traverse_witnesses_backward :: "bool \<Rightarrow> 'c visit \<Rightarrow> External \<Rightarrow> 'c \<Rightarrow> (bool \<times> 'c) option" where
  "traverse_witnesses_backward internal_unsat visit s a =
     (if internal_unsat then Some (True, a) else backward_loop visit (rev (xt_extension s)) a)"

text \<open>\<^verbatim>\<open>while (i != end && (lit = *i++))\<close>: the clause and what follows its zero.\<close>

fun split_clause :: "int list \<Rightarrow> int list \<times> int list" where
  "split_clause [] = ([], [])"
| "split_clause (x # xs) = (if x = 0 then ([], xs) else (let (ls, r) = split_clause xs in (x # ls, r)))"

lemma split_clause_length: "length (snd (split_clause xs)) \<le> length xs"
  by (induction xs) (auto split: prod.splits)

text \<open>The body of the \<^verbatim>\<open>do\<close> loop; its zero has been read.\<close>

function forward_loop :: "'c visit \<Rightarrow> int list \<Rightarrow> 'c \<Rightarrow> (bool \<times> 'c) option" where
  "forward_loop visit r a =
     (case split_zero r of
        None \<Rightarrow> None
      | Some (witness, r1) \<Rightarrow>
          if length r1 < 3 then None
          else
            (let (clause, r2) = split_clause (drop 3 r1)
             in case visit clause witness (join_id (r1 ! 0) (r1 ! 1)) a of
                  (False, a) \<Rightarrow> Some (False, a)
                | (True, a) \<Rightarrow> if r2 = [] then Some (True, a) else forward_loop visit r2 a))"
  by pat_completeness auto
termination
proof (relation "measure (\<lambda>(visit, r, a). length r)", goal_cases)
  case (2 visit r a p witness r1 q clause r2)
  have "length r2 \<le> length (drop 3 r1)" using 2(4,5) split_clause_length [of "drop 3 r1"] by (metis snd_conv)
  moreover have "length r1 < length r" using 2(1,2) split_zero_length [of r witness r1] by simp
  ultimately show ?case by simp
qed simp

declare forward_loop.simps [simp del]

definition traverse_witnesses_forward :: "bool \<Rightarrow> 'c visit \<Rightarrow> External \<Rightarrow> 'c \<Rightarrow> (bool \<times> 'c) option" where
  "traverse_witnesses_forward internal_unsat visit s a =
     (if internal_unsat then Some (True, a)
      else case xt_extension s of [] \<Rightarrow> Some (True, a) | _ # r \<Rightarrow> forward_loop visit r a)"

subsection \<open>Restoring clauses\<close>

text \<open>\<open>lrat\<close> is \<^verbatim>\<open>internal->proof && internal->lrat\<close>; the chain goes to the internal solver.\<close>

fun restore_lits :: "bool \<Rightarrow> int list \<Rightarrow> External \<Rightarrow> int list \<times> 64 word list \<times> External" where
  "restore_lits lrat [] s = ([], [], s)"
| "restore_lits lrat (elit # ls) s =
     (let s = s\<lparr>xt_eclause := xt_eclause s @ [elit]\<rparr>;
          cid = xt_ext_units s ! nat ((if elit > 0 then 1 else 0) + 2 * \<bar>elit\<bar>);
          new = (lrat \<and> cid \<noteq> 0 \<and> \<not> xt_ext_flags s ! nat \<bar>elit\<bar>);
          s = (if new then s\<lparr>xt_ext_flags := (xt_ext_flags s)[nat \<bar>elit\<bar> := True]\<rparr> else s);
          (ilit, s) = xt_internalize elit s;
          s = s\<lparr>xt_stats_restoredlits := xt_stats_restoredlits s + 1\<rparr>;
          (ilits, chain, s) = restore_lits lrat ls s
      in (ilit # ilits, (if new then cid # chain else chain), s))"

definition restore_clause :: "bool \<Rightarrow> int list \<Rightarrow> 64 word \<Rightarrow> External \<Rightarrow> External" where
  "restore_clause lrat lits cid s =
     (let (ilits, chain, s) = restore_lits lrat lits s;
          s = (if lrat then s\<lparr>xt_ext_flags := fold (\<lambda>elit fl. fl[nat \<bar>elit\<bar> := False]) (xt_eclause s) (xt_ext_flags s)\<rparr>
               else s);
          s = s\<lparr>xt_added := xt_added s @ [(cid, xt_eclause s, ilits, chain)]\<rparr>
      in s\<lparr>xt_eclause := [], xt_stats_restored := xt_stats_restored s + 1\<rparr>)"

record restore_opts =
  ro_restoreall :: int
  ro_restoreflush :: bool
  ro_lrat :: bool

text \<open>The last witness literal whose negation is tainted, or zero.\<close>

definition tainted_witness :: "External \<Rightarrow> int list \<Rightarrow> int" where
  "tainted_witness s w = fold (\<lambda>elit tlit. if xt_marked (xt_tainted s) (- elit) then elit else tlit) w 0"

definition satisfied_literal :: "(int \<Rightarrow> int) \<Rightarrow> External \<Rightarrow> int list \<Rightarrow> int" where
  "satisfied_literal ifixed s c =
     fold (\<lambda>elit sat. if sat = 0 \<and> xt_fixed ifixed s elit > 0 then elit else sat) c 0"

text \<open>
  The loop of \<^verbatim>\<open>restore_clauses\<close>: \<open>r\<close> is the stack from \<open>p\<close>, \<open>out\<close> the part below \<open>q\<close> already
  rewritten (\<open>q\<close> never passes \<open>p\<close>).  \<open>ifixed added\<close> is \<^verbatim>\<open>internal->fixed\<close> after the clauses \<open>added\<close>.
\<close>

function restore_loop ::
    "restore_opts \<Rightarrow> (restored list \<Rightarrow> int \<Rightarrow> int) \<Rightarrow> int list \<Rightarrow> int list \<Rightarrow> External \<Rightarrow> (int list \<times> External) option" where
  "restore_loop opts ifixed r out s =
     (case r of
        [] \<Rightarrow> Some (out, s)
      | zero # r0 \<Rightarrow>
          (case split_zero r0 of
             None \<Rightarrow> None
           | Some (w, r1) \<Rightarrow>
               if length r1 < 3 then None
               else
                 (let tlit = tainted_witness s w;
                      cid = join_id (r1 ! 0) (r1 ! 1);
                      clause = takeWhile (\<lambda>x. x \<noteq> 0) (drop 3 r1);
                      rest = dropWhile (\<lambda>x. x \<noteq> 0) (drop 3 r1);
                      satisfied = satisfied_literal (ifixed (xt_added s)) s clause;
                      satisfied = (if satisfied \<noteq> 0 \<and> \<not> ro_restoreflush opts then 0 else satisfied)
                  in if satisfied \<noteq> 0 then restore_loop opts ifixed rest out s
                     else if tlit \<noteq> 0 \<or> ro_restoreall opts \<noteq> 0
                     then restore_loop opts ifixed rest out (restore_clause (ro_lrat opts) clause cid s)
                     else restore_loop opts ifixed rest
                            (out @ zero # w @ 0 # take 3 r1 @ clause) s)))"
  by pat_completeness auto
termination
proof -
  have less: "length (dropWhile P (drop 3 r1)) < Suc (length r0)" if "Some (w, r1) = split_zero r0"
    for P w r1 and r0 :: "int list"
  proof -
    have "length (dropWhile P (drop 3 r1)) \<le> length r1" using length_dropWhile_le [of P "drop 3 r1"] by simp
    then show ?thesis using split_zero_length [OF that [symmetric]] by simp
  qed
  show ?thesis by (relation "measure (\<lambda>(opts, ifixed, r, out, s). length r)") (auto intro: less)
qed

declare restore_loop.simps [simp del]

text \<open>The last loop recomputes the witness bits.\<close>

function witness_loop :: "int list \<Rightarrow> bool list \<Rightarrow> bool list option" where
  "witness_loop r w =
     (if r = [] then Some w
      else
        (case split_zero r of
           None \<Rightarrow> None
         | Some (_, r1) \<Rightarrow>
             if length r1 < 3 then None
             else
               (case split_zero (drop 3 r1) of
                  None \<Rightarrow> None
                | Some (ls, r2) \<Rightarrow> witness_loop r2 (fold xt_mark ls w))))"
  by pat_completeness auto
termination
proof (relation "measure (\<lambda>(r, w). length r)", goal_cases)
  case (2 r w p clause r1 q ls r2)
  then show ?case using split_zero_length [of r clause r1] split_zero_length [of "drop 3 r1" ls r2] by simp
qed simp

declare witness_loop.simps [simp del]

definition restore_clauses :: "restore_opts \<Rightarrow> (restored list \<Rightarrow> int \<Rightarrow> int) \<Rightarrow> External \<Rightarrow> External option" where
  "restore_clauses opts ifixed s =
     (let s = s\<lparr>xt_stats_restorations := xt_stats_restorations s + 1\<rparr>
      in Option.bind (restore_loop opts ifixed (xt_extension s) [] s)
           (\<lambda>(out, s).
              let s = s\<lparr>xt_extension := out, xt_tainted := [], xt_witness := []\<rparr>
              in map_option (\<lambda>w. s\<lparr>xt_witness := w\<rparr>) (witness_loop (rev (xt_extension s)) (xt_witness s))))"

end
