(* ===== verification/Extension_Sound.thy ===== *)
theory Extension_Sound
  imports Extension
begin

text \<open>
  Reconstruction of models.  The stack is the layout of a list of entries, oldest first; the loops
  over the stack are loops over the entries.  An entry is redundant when making its witness literals
  true repairs every model of the remaining clauses that falsifies its clause; reconstruction along
  redundant entries yields a model of all clauses, and restoring keeps that.
\<close>

subsection \<open>Entries and their layout\<close>

type_synonym entry = "int list \<times> 64 word \<times> int list"

fun lay :: "entry \<Rightarrow> int list" where
  "lay (w, i, c) = 0 # w @ [0, sint (id_higher_bits i), sint (id_lower_bits i), 0] @ c"

definition stack :: "entry list \<Rightarrow> int list" where
  "stack es = concat (map lay es)"

lemma stack_simps [simp]: "stack [] = []" "stack (e # es) = lay e @ stack es" "stack (es @ fs) = stack es @ stack fs"
  by (simp_all add: stack_def)

fun entry_ok :: "int \<Rightarrow> entry \<Rightarrow> bool" where
  "entry_ok n (w, i, c) \<longleftrightarrow>
     (\<forall>l \<in> set w \<union> set c. l \<noteq> 0 \<and> \<bar>l\<bar> \<le> n) \<and> (\<forall>l \<in> set w. - l \<notin> set w)"

lemma split_zero_app: "0 \<notin> set ls \<Longrightarrow> split_zero (ls @ 0 # r) = Some (ls, r)"
  by (induction ls) auto

text \<open>One entry read backward.\<close>

lemma read_entry_back:
  assumes "entry_ok n (w, i, c)"
  shows "\<exists>r1. split_zero (rev (lay (w, i, c)) @ r) = Some (rev c, r1) \<and> \<not> length r1 < 3
    \<and> split_zero (drop 3 r1) = Some (rev w, r) \<and> r1 ! 0 = sint (id_lower_bits i) \<and> r1 ! 1 = sint (id_higher_bits i)"
proof -
  have "0 \<notin> set (rev c)" "0 \<notin> set (rev w)" using assms by auto
  then show ?thesis
    using split_zero_app [of "rev c" "sint (id_lower_bits i) # sint (id_higher_bits i) # 0 # rev w @ 0 # r"]
      split_zero_app [of "rev w" r]
    by simp
qed

lemma lay_nonempty: "lay e \<noteq> []"
  by (cases e) simp

subsection \<open>Assignments\<close>

definition xt_assignment :: "External \<Rightarrow> assignment" where
  "xt_assignment s v \<longleftrightarrow> v \<le> xt_max_var s \<and> nat v < length (xt_vals s) \<and> xt_vals s ! nat v"

lemma ival_true: "l \<noteq> 0 \<Longrightarrow> xt_ival s l = l \<longleftrightarrow> lit_true (xt_assignment s) l"
  by (auto simp: xt_ival_def lit_true_def xt_assignment_def Let_def)

text \<open>Making all literals of a consistent list true.\<close>

definition set_lits :: "int list \<Rightarrow> assignment \<Rightarrow> assignment" where
  "set_lits w \<alpha> v \<longleftrightarrow> (if v \<in> set w then True else if - v \<in> set w then False else \<alpha> v)"

lemma lit_true_set_lits:
  assumes "\<forall>l \<in> set w. - l \<notin> set w" "l \<noteq> 0"
  shows "lit_true (set_lits w \<alpha>) l \<longleftrightarrow> l \<in> set w \<or> - l \<notin> set w \<and> lit_true \<alpha> l"
  using assms by (auto simp: lit_true_def set_lits_def)

lemma flip_literal_assignment:
  assumes "l \<noteq> 0" "\<bar>l\<bar> \<le> xt_max_var s"
  shows "xt_assignment (flip_literal l s) = (xt_assignment s)(\<bar>l\<bar> := 0 < l)"
    "xt_max_var (flip_literal l s) = xt_max_var s"
proof -
  show mv: "xt_max_var (flip_literal l s) = xt_max_var s" by (simp add: flip_literal_def Let_def)
  show "xt_assignment (flip_literal l s) = (xt_assignment s)(\<bar>l\<bar> := 0 < l)"
  proof
    fix v
    show "xt_assignment (flip_literal l s) v = ((xt_assignment s)(\<bar>l\<bar> := 0 < l)) v"
    proof (cases "xt_ival s l = l")
      case True
      then show ?thesis
        using assms ival_true [OF assms(1), of s] by (auto simp: flip_literal_def lit_true_def split: if_splits)
    next
      case False
      then have f: "\<not> lit_true (xt_assignment s) l" using ival_true [OF assms(1)] by simp
      let ?v = "if nat \<bar>l\<bar> \<ge> length (xt_vals s) then resize (nat \<bar>l\<bar> + 1) False (xt_vals s) else xt_vals s"
      have vals: "xt_vals (flip_literal l s) = ?v[nat \<bar>l\<bar> := \<not> ?v ! nat \<bar>l\<bar>]"
        using False by (simp add: flip_literal_def Let_def)
      have len: "nat \<bar>l\<bar> < length ?v" by simp
      have same: "(nat v < length ?v \<and> ?v ! nat v) = (nat v < length (xt_vals s) \<and> xt_vals s ! nat v)" for v
        by (auto simp: nth_resize split: if_splits)
      show ?thesis
      proof (cases "v = \<bar>l\<bar>")
        case True
        have "xt_assignment (flip_literal l s) v = (\<not> ?v ! nat \<bar>l\<bar>)"
          using True assms(2) len by (simp add: xt_assignment_def vals mv)
        moreover have "?v ! nat \<bar>l\<bar> = xt_assignment s \<bar>l\<bar>"
          using same [of "\<bar>l\<bar>"] len assms(2) by (simp add: xt_assignment_def)
        ultimately show ?thesis using f True assms(1) by (auto simp: lit_true_def split: if_splits)
      next
        case neq: False
        show ?thesis
        proof (cases "nat v = nat \<bar>l\<bar>")
          case True
          then have "v \<le> 0 \<and> \<bar>l\<bar> \<le> 0" using neq by auto
          then show ?thesis using assms(1) by simp
        next
          case False
          then show ?thesis using neq same [of v]
            by (simp add: xt_assignment_def vals mv)
        qed
      qed
    qed
  qed
qed

lemma fold_flip_assignment:
  assumes "\<forall>l \<in> set w. l \<noteq> 0 \<and> \<bar>l\<bar> \<le> xt_max_var s"
  shows "xt_assignment (fold flip_literal w s) = fold (\<lambda>l \<alpha>. \<alpha>(\<bar>l\<bar> := 0 < l)) w (xt_assignment s)
    \<and> xt_max_var (fold flip_literal w s) = xt_max_var s"
  using assms
proof (induction w arbitrary: s)
  case (Cons l w)
  then show ?case using flip_literal_assignment [of l s] Cons.IH [of "flip_literal l s"] by simp
qed simp

lemma fold_set_lits:
  assumes "\<forall>l \<in> set w. - l \<notin> set w" "0 < v"
  shows "fold (\<lambda>l \<alpha>. \<alpha>(\<bar>l\<bar> := 0 < l)) w \<alpha> v = set_lits w \<alpha> v"
  using assms(1)
proof (induction w arbitrary: \<alpha>)
  case (Cons l w)
  have "fold (\<lambda>l \<alpha>. \<alpha>(\<bar>l\<bar> := 0 < l)) w (\<alpha>(\<bar>l\<bar> := 0 < l)) v = set_lits w (\<alpha>(\<bar>l\<bar> := 0 < l)) v"
    using Cons.IH Cons.prems by (simp del: fun_upd_apply)
  also have "\<dots> = set_lits (l # w) \<alpha> v" using Cons.prems assms(2) by (auto simp: set_lits_def)
  finally show ?case by (simp only: fold_simps comp_def)
qed (simp add: set_lits_def)

lemma assignment_eq_lits: "(\<And>v. 0 < v \<Longrightarrow> \<alpha> v = \<beta> v) \<Longrightarrow> l \<noteq> 0 \<Longrightarrow> lit_true \<alpha> l = lit_true \<beta> l"
  by (simp add: lit_true_def)

subsection \<open>Reconstruction\<close>

definition entry_clauses :: "entry list \<Rightarrow> clause set" where
  "entry_clauses es = (\<lambda>(w, i, c). c) ` set es"

lemma entry_clauses_simps [simp]:
  "entry_clauses [] = {}" "entry_clauses ((w, i, c) # es) = insert c (entry_clauses es)"
  by (simp_all add: entry_clauses_def)

definition redundant :: "clause set \<Rightarrow> int list \<Rightarrow> clause \<Rightarrow> bool" where
  "redundant F w c \<longleftrightarrow> (\<forall>\<alpha>. models \<alpha> F \<longrightarrow> \<not> clause_true \<alpha> c \<longrightarrow> models (set_lits w \<alpha>) (insert c F))"

text \<open>Every clause was redundant for the clauses that were left when it was removed.\<close>

fun reconstructible :: "clause set \<Rightarrow> entry list \<Rightarrow> bool" where
  "reconstructible F [] \<longleftrightarrow> True"
| "reconstructible F ((w, i, c) # es) \<longleftrightarrow> redundant (F \<union> entry_clauses es) w c \<and> reconstructible F es"

fun reconstruct :: "entry list \<Rightarrow> assignment \<Rightarrow> assignment" where
  "reconstruct [] \<alpha> = \<alpha>"
| "reconstruct ((w, i, c) # es) \<alpha> =
     (let \<alpha> = reconstruct es \<alpha> in if clause_true \<alpha> c then \<alpha> else set_lits w \<alpha>)"

lemma reconstruct_models:
  "reconstructible F es \<Longrightarrow> models \<alpha> F \<Longrightarrow> models (reconstruct es \<alpha>) (F \<union> entry_clauses es)"
proof (induction F es rule: reconstructible.induct)
  case (2 F w i c es)
  let ?\<beta> = "reconstruct es \<alpha>"
  have m: "models ?\<beta> (F \<union> entry_clauses es)" using 2 by simp
  show ?case
  proof (cases "clause_true ?\<beta> c")
    case False
    then have "models (set_lits w ?\<beta>) (insert c (F \<union> entry_clauses es))"
      using m "2.prems"(1) unfolding reconstructible.simps redundant_def by blast
    then show ?thesis using False by (simp add: Let_def)
  qed (use m in \<open>simp add: Let_def\<close>)
qed simp

definition extend_entry :: "entry \<Rightarrow> External \<Rightarrow> External" where
  "extend_entry e s =
     (case e of (w, i, c) \<Rightarrow>
        if \<exists>lit \<in> set (rev c). xt_ival s lit = lit then s else fold flip_literal (rev w) s)"

lemma extend_loop_entries:
  "\<forall>e \<in> set es. entry_ok n e \<Longrightarrow> extend_loop (rev (stack es)) s = Some (fold extend_entry (rev es) s)"
proof (induction es arbitrary: s rule: rev_induct)
  case Nil
  then show ?case by (simp add: extend_loop.simps)
next
  case (snoc e es)
  obtain w i c where e: "e = (w, i, c)" by (cases e)
  have "entry_ok n (w, i, c)" using snoc.prems e by simp
  from read_entry_back [OF this, of "rev (stack es)"] obtain r1 where r1:
    "split_zero (rev (lay (w, i, c)) @ rev (stack es)) = Some (rev c, r1)" "\<not> length r1 < 3"
    "split_zero (drop 3 r1) = Some (rev w, rev (stack es))"
    by blast
  have "extend_loop (rev (stack (es @ [e]))) s = extend_loop (rev (stack es)) (extend_entry e s)"
    using r1 lay_nonempty [of "(w, i, c)"]
    by (subst extend_loop.simps) (simp add: e extend_entry_def del: lay.simps)
  then show ?case using snoc.IH [of "extend_entry e s"] snoc.prems by simp
qed

text \<open>Two assignments that agree on variables.\<close>

definition same_vars :: "assignment \<Rightarrow> assignment \<Rightarrow> bool" where
  "same_vars \<alpha> \<beta> \<longleftrightarrow> (\<forall>v > 0. \<alpha> v = \<beta> v)"

lemma same_vars_clause: "same_vars \<alpha> \<beta> \<Longrightarrow> 0 \<notin> set c \<Longrightarrow> clause_true \<alpha> c = clause_true \<beta> c"
  unfolding clause_true_def same_vars_def using assignment_eq_lits [of \<alpha> \<beta>] by metis

lemma same_vars_models: "same_vars \<alpha> \<beta> \<Longrightarrow> \<forall>c \<in> F. 0 \<notin> set c \<Longrightarrow> models \<alpha> F = models \<beta> F"
  unfolding models_def using same_vars_clause [of \<alpha> \<beta>] by metis

lemma set_lits_same: "same_vars \<alpha> \<beta> \<Longrightarrow> same_vars (set_lits w \<alpha>) (set_lits w \<beta>)"
  by (simp add: same_vars_def set_lits_def)

lemma set_lits_rev: "set_lits (rev w) \<alpha> = set_lits w \<alpha>"
  by (simp add: set_lits_def fun_eq_iff)

lemma extend_entry_assignment:
  assumes "entry_ok (xt_max_var s) (w, i, c)"
  shows "same_vars (xt_assignment (extend_entry (w, i, c) s))
      (if clause_true (xt_assignment s) c then xt_assignment s else set_lits w (xt_assignment s))
    \<and> xt_max_var (extend_entry (w, i, c) s) = xt_max_var s"
proof -
  have sat: "(\<exists>lit \<in> set (rev c). xt_ival s lit = lit) = clause_true (xt_assignment s) c"
    using assms ival_true [of _ s] unfolding clause_true_def set_rev by (metis UnI2 entry_ok.simps)
  have w: "\<forall>l \<in> set (rev w). l \<noteq> 0 \<and> \<bar>l\<bar> \<le> xt_max_var s" "\<forall>l \<in> set (rev w). - l \<notin> set (rev w)"
    using assms by auto
  show ?thesis
    using fold_flip_assignment [OF w(1)] fold_set_lits [OF w(2)] sat
    by (simp add: extend_entry_def same_vars_def set_lits_rev)
qed

lemma extend_entries_assignment:
  assumes "\<forall>e \<in> set es. entry_ok (xt_max_var s) e"
  shows "same_vars (xt_assignment (fold extend_entry (rev es) s)) (reconstruct es (xt_assignment s))
    \<and> xt_max_var (fold extend_entry (rev es) s) = xt_max_var s"
  using assms
proof (induction es)
  case Nil
  then show ?case by (simp add: same_vars_def)
next
  case (Cons e es)
  obtain w i c where e: "e = (w, i, c)" by (cases e)
  let ?t = "fold extend_entry (rev es) s"
  have IH: "same_vars (xt_assignment ?t) (reconstruct es (xt_assignment s))" "xt_max_var ?t = xt_max_var s"
    using Cons by auto
  have ok: "entry_ok (xt_max_var ?t) (w, i, c)" using Cons.prems e IH(2) by simp
  then have c: "clause_true (xt_assignment ?t) c = clause_true (reconstruct es (xt_assignment s)) c"
    by (intro same_vars_clause [OF IH(1)]) auto
  show ?case
    using extend_entry_assignment [OF ok] set_lits_same [OF IH(1), of w] IH c
    by (simp add: e Let_def same_vars_def)
qed

subsection \<open>Copying the internal assignment\<close>

definition copy_value :: "(int \<Rightarrow> int) \<Rightarrow> nat \<Rightarrow> External \<Rightarrow> External" where
  "copy_value val i s =
     (let ilit = xt_e2i s ! i in
      if ilit = 0 then s
      else
        (let v = (if i \<ge> length (xt_vals s) then resize (i + 1) False (xt_vals s) else xt_vals s)
         in s\<lparr>xt_vals := v[i := val ilit > 0]\<rparr>))"

lemma copy_value_frame [simp]:
  "xt_e2i (copy_value val i s) = xt_e2i s" "xt_max_var (copy_value val i s) = xt_max_var s"
  "xt_extension (copy_value val i s) = xt_extension s" "xt_extended (copy_value val i s) = xt_extended s"
  by (simp_all add: copy_value_def Let_def)

lemma fold_copy_frame [simp]:
  "xt_e2i (fold (copy_value val) is s) = xt_e2i s" "xt_max_var (fold (copy_value val) is s) = xt_max_var s"
  "xt_extension (fold (copy_value val) is s) = xt_extension s"
  by (induction "is" arbitrary: s) simp_all

lemma copy_value_vals:
  "nat v < length (xt_vals (copy_value val i s)) \<and> xt_vals (copy_value val i s) ! nat v \<longleftrightarrow>
   (if nat v = i \<and> xt_e2i s ! i \<noteq> 0 then val (xt_e2i s ! i) > 0 else nat v < length (xt_vals s) \<and> xt_vals s ! nat v)"
  by (auto simp: copy_value_def Let_def nth_list_update nth_resize split: if_splits)

lemma fold_copy_vals:
  "nat v < length (xt_vals (fold (copy_value val) is s)) \<and> xt_vals (fold (copy_value val) is s) ! nat v \<longleftrightarrow>
   (if nat v \<in> set is \<and> xt_e2i s ! nat v \<noteq> 0 then val (xt_e2i s ! nat v) > 0
    else nat v < length (xt_vals s) \<and> xt_vals s ! nat v)"
proof (induction "is" arbitrary: s)
  case (Cons i "is")
  show ?case unfolding fold_simps comp_def Cons.IH copy_value_vals copy_value_frame by auto
qed simp

lemma copy_values_fold: "copy_values val s = fold (copy_value val) [1..<nat (xt_max_var s) + 1] s"
  unfolding copy_values_def copy_value_def by (rule arg_cong) simp

lemma copy_values_assignment:
  assumes "0 < v" "v \<le> xt_max_var s" "xt_e2i s ! nat v \<noteq> 0"
  shows "xt_assignment (copy_values val s) v = (val (xt_e2i s ! nat v) > 0)"
proof -
  have "nat v \<in> set [1..<nat (xt_max_var s) + 1]" using assms by auto
  then show ?thesis
    using fold_copy_vals [of v val "[1..<nat (xt_max_var s) + 1]" s] assms by (simp add: xt_assignment_def copy_values_fold)
qed

subsection \<open>Traversal\<close>

definition stored_id :: "64 word \<Rightarrow> 64 word" where
  "stored_id i = join_id (sint (id_higher_bits i)) (sint (id_lower_bits i))"

lemma id_higher_zero: "id_higher_bits i = 0"
  unfolding id_higher_bits_def by (rule bit_word_eqI) (simp add: bit_ucast_iff bit_push_bit_iff)

lemma id_lower_ucast: "id_lower_bits i = ucast i"
proof -
  have m: "(push_bit 32 1 - 1 :: 64 word) = mask 32" by (simp add: mask_eq_exp_minus_1)
  show ?thesis unfolding id_lower_bits_def m
    by (rule bit_word_eqI) (auto simp: bit_ucast_iff bit_and_iff bit_mask_iff)
qed

text \<open>An identifier comes back from the stack sign-extended from its lower 32 bits.\<close>

lemma stored_id_scast: "stored_id i = scast (ucast i :: 32 word)"
  unfolding stored_id_def join_id_def id_higher_zero id_lower_ucast scast_eq by simp

lemma sint_stored_id: "sint (stored_id i) = signed_take_bit 31 (sint i)"
proof -
  have "sint (ucast i :: 32 word) = signed_take_bit 31 (sint i)"
    unfolding sint_uint unsigned_ucast_eq by (simp add: signed_take_bit_take_bit signed_take_bit_signed_take_bit)
  then show ?thesis unfolding stored_id_scast signed_scast_eq by (simp add: signed_take_bit_signed_take_bit)
qed

lemma stored_id_iff: "stored_id i = i \<longleftrightarrow> - (2 ^ 31) \<le> sint i \<and> sint i < 2 ^ 31"
proof -
  have "stored_id i = i \<longleftrightarrow> sint (stored_id i) = sint i" by (rule word_eq_iff_signed)
  then show ?thesis unfolding sint_stored_id signed_take_bit_int_eq_self_iff .
qed

fun visit_all :: "'c visit \<Rightarrow> entry list \<Rightarrow> 'c \<Rightarrow> bool \<times> 'c" where
  "visit_all visit [] a = (True, a)"
| "visit_all visit ((w, i, c) # es) a =
     (case visit c w (stored_id i) a of (False, a) \<Rightarrow> (False, a) | (True, a) \<Rightarrow> visit_all visit es a)"

lemma backward_loop_entries:
  "\<forall>e \<in> set es. entry_ok n e \<Longrightarrow> backward_loop visit (rev (stack es)) a = Some (visit_all visit (rev es) a)"
proof (induction es arbitrary: a rule: rev_induct)
  case Nil
  then show ?case by (simp add: backward_loop.simps)
next
  case (snoc e es)
  obtain w i c where e: "e = (w, i, c)" by (cases e)
  have "entry_ok n (w, i, c)" using snoc.prems e by simp
  from read_entry_back [OF this, of "rev (stack es)"] obtain r1 where r1:
    "split_zero (rev (lay (w, i, c)) @ rev (stack es)) = Some (rev c, r1)" "\<not> length r1 < 3"
    "split_zero (drop 3 r1) = Some (rev w, rev (stack es))"
    "r1 ! 0 = sint (id_lower_bits i)" "r1 ! 1 = sint (id_higher_bits i)"
    by blast
  have IH: "backward_loop visit (rev (stack es)) b = Some (visit_all visit (rev es) b)" for b
    using snoc by simp
  show ?case
    using r1 lay_nonempty [of "(w, i, c)"]
    by (subst backward_loop.simps)
      (simp add: e IH stored_id_def [symmetric] del: lay.simps split: prod.split bool.split)
qed

lemma split_clause_stack:
  "0 \<notin> set c \<Longrightarrow> split_clause (c @ stack es) = (c, tl (stack es))"
proof (induction c)
  case Nil
  then show ?case by (cases es) (auto simp: stack_def)
qed simp

lemma tl_stack: "es \<noteq> [] \<Longrightarrow> tl (stack es) \<noteq> []"
  by (cases es) auto

lemma forward_loop_entries:
  "\<forall>e \<in> set es. entry_ok n e \<Longrightarrow> es \<noteq> [] \<Longrightarrow> forward_loop visit (tl (stack es)) a = Some (visit_all visit es a)"
proof (induction es arbitrary: a)
  case (Cons e es)
  obtain w i c where e: "e = (w, i, c)" by (cases e)
  have nz: "0 \<notin> set w" "0 \<notin> set c" using Cons.prems(1) e by auto
  let ?r1 = "sint (id_higher_bits i) # sint (id_lower_bits i) # 0 # c @ stack es"
  have "split_zero (tl (stack (e # es))) = Some (w, ?r1)" using split_zero_app [OF nz(1)] by (simp add: e)
  moreover have "split_clause (drop 3 ?r1) = (c, tl (stack es))" using split_clause_stack [OF nz(2)] by simp
  moreover have "tl (stack es) = [] \<longleftrightarrow> es = []" using tl_stack by auto
  moreover have "forward_loop visit (tl (stack es)) b = Some (visit_all visit es b)" if "es \<noteq> []" for b
    using Cons that by simp
  ultimately show ?case
    by (subst forward_loop.simps)
      (simp add: e stored_id_def [symmetric] split: prod.split bool.split)
qed simp

subsection \<open>Pushing\<close>

lemma xt_init_frame [simp]:
  "xt_extension (xt_init n s) = xt_extension s" "xt_witness (xt_init n s) = xt_witness s"
  "xt_tainted (xt_init n s) = xt_tainted s" "xt_added (xt_init n s) = xt_added s"
  "xt_eclause (xt_init n s) = xt_eclause s"
  by (simp_all add: xt_init_def xt_enlarge_def Let_def)

lemma push_external_layout:
  "xt_extension (push_external_clause_and_witness_on_extension_stack c w i s) = xt_extension s @ lay (w, i, c)"
proof -
  have "xt_extension (fold (\<lambda>elit s. let s = xt_init \<bar>elit\<bar> s
      in s\<lparr>xt_extension := xt_extension s @ [elit], xt_witness := xt_mark elit (xt_witness s)\<rparr>) w s) = xt_extension s @ w" for s
    by (induction w arbitrary: s) (simp_all add: Let_def)
  moreover have "xt_extension (fold (\<lambda>elit s. let s = xt_init \<bar>elit\<bar> s in s\<lparr>xt_extension := xt_extension s @ [elit]\<rparr>) c s)
      = xt_extension s @ c" for s
    by (induction c arbitrary: s) (simp_all add: Let_def)
  ultimately show ?thesis by (simp add: push_external_clause_and_witness_on_extension_stack_def Let_def)
qed

text \<open>Pushing in terms of internal literals.\<close>

lemma push_zero_frame [simp]:
  "xt_i2e (push_zero_on_extension_stack s) = xt_i2e s" "xt_i2e (push_id_on_extension_stack i s) = xt_i2e s"
  "xt_i2e (push_clause_literal_on_extension_stack l s) = xt_i2e s"
  "xt_i2e (push_witness_literal_on_extension_stack l s) = xt_i2e s"
  by (simp_all add: push_zero_on_extension_stack_def push_id_on_extension_stack_def
      push_clause_literal_on_extension_stack_def push_witness_literal_on_extension_stack_def Let_def)

lemma externalize_cong: "xt_i2e s = xt_i2e t \<Longrightarrow> xt_externalize s = xt_externalize t"
  by (simp add: xt_externalize_def fun_eq_iff)

lemma push_literals_layout:
  "xt_extension (fold push_clause_literal_on_extension_stack c s) = xt_extension s @ map (xt_externalize s) c"
proof (induction c arbitrary: s)
  case (Cons l c)
  have "xt_externalize (push_clause_literal_on_extension_stack l s) = xt_externalize s" by (rule externalize_cong) simp
  then show ?case using Cons by (simp add: push_clause_literal_on_extension_stack_def)
qed simp

lemma push_clause_layout:
  "xt_extension (push_clause_pivot_on_extension_stack i c p s)
    = xt_extension s @ lay ([xt_externalize s p], i, map (xt_externalize s) c)"
proof -
  let ?t = "push_witness_literal_on_extension_stack p (push_zero_on_extension_stack s)"
  have e: "xt_externalize (push_zero_on_extension_stack s) = xt_externalize s" by (rule externalize_cong) simp
  have t: "xt_extension ?t = xt_extension s @ [0, xt_externalize s p]"
    by (simp add: push_witness_literal_on_extension_stack_def Let_def e) (simp add: push_zero_on_extension_stack_def)
  let ?u = "push_zero_on_extension_stack (push_id_on_extension_stack i (push_zero_on_extension_stack
      (?t\<lparr>xt_stats_weakened := xt_stats_weakened ?t + 1, xt_stats_weakenedlen := xt_stats_weakenedlen ?t + int (length c)\<rparr>)))"
  have eu: "xt_externalize ?u = xt_externalize s" by (rule externalize_cong) simp
  have "xt_extension ?u = xt_extension ?t @ [0, sint (id_higher_bits i), sint (id_lower_bits i), 0]"
    by (simp add: push_zero_on_extension_stack_def push_id_on_extension_stack_def)
  then show ?thesis
    unfolding push_clause_pivot_on_extension_stack_def push_clause_on_extension_stack_def Let_def push_literals_layout eu
    by (simp add: t)
qed

end
