(* ===== verification/Restore.thy ===== *)
theory Restore
  imports Extension_Sound "HOL-Library.Sublist"
begin

text \<open>
  Restoring clauses (\<^verbatim>\<open>restore.cpp\<close>) keeps models reconstructible: one forward pass over the stack
  removes exactly the entries whose witness could falsify a new or a restored clause, because
  restoring a clause taints its literals for the entries above it.
\<close>

subsection \<open>Marks\<close>

lemma elit2ulit_inj: "l \<noteq> 0 \<Longrightarrow> k \<noteq> 0 \<Longrightarrow> elit2ulit l = elit2ulit k \<longleftrightarrow> l = k"
  unfolding elit2ulit_def by (cases "l < 0"; cases "k < 0") (auto simp: nat_eq_iff, presburger+)

lemma marked_mark: "l \<noteq> 0 \<Longrightarrow> k \<noteq> 0 \<Longrightarrow> xt_marked (xt_mark l m) k \<longleftrightarrow> k = l \<or> xt_marked m k"
  using elit2ulit_inj [of l k]
  by (auto simp: xt_marked_def xt_mark_def Let_def nth_list_update nth_resize split: if_splits)

lemma marked_Nil [simp]: "\<not> xt_marked [] k"
  by (simp add: xt_marked_def Let_def)

lemma marked_fold_mark:
  "\<forall>l \<in> set ls. l \<noteq> 0 \<Longrightarrow> k \<noteq> 0 \<Longrightarrow> xt_marked (fold xt_mark ls m) k \<longleftrightarrow> k \<in> set ls \<or> xt_marked m k"
  by (induction ls arbitrary: m) (auto simp: marked_mark)

subsection \<open>What restoring a clause changes\<close>

lemma internalize_frame [simp]:
  "xt_extension (snd (xt_internalize l s)) = xt_extension s" "xt_witness (snd (xt_internalize l s)) = xt_witness s"
  "xt_added (snd (xt_internalize l s)) = xt_added s" "xt_eclause (snd (xt_internalize l s)) = xt_eclause s"
  by (simp_all add: xt_internalize_def Let_def split: prod.split if_splits)

lemma internalize_tainted:
  assumes "l \<noteq> 0" "k \<noteq> 0"
  shows "xt_marked (xt_tainted (snd (xt_internalize l s))) k \<longleftrightarrow>
    xt_marked (xt_tainted s) k \<or> k = l \<and> xt_marked (xt_witness s) (- l)"
  using assms by (auto simp: xt_internalize_def Let_def marked_mark split: prod.split if_splits)

lemma restore_lits_step:
  assumes "restore_lits lrat (l # ls) s = (ilits, chain, t)"
  shows "\<exists>s2 f u il ch. s2 = s\<lparr>xt_eclause := xt_eclause s @ [l], xt_ext_flags := f\<rparr> \<and> u = snd (xt_internalize l s2)
    \<and> restore_lits lrat ls (u\<lparr>xt_stats_restoredlits := xt_stats_restoredlits u + 1\<rparr>) = (il, ch, t)"
proof -
  define new where "new = (lrat \<and> xt_ext_units s ! nat ((if l > 0 then 1 else 0) + 2 * \<bar>l\<bar>) \<noteq> 0 \<and> \<not> xt_ext_flags s ! nat \<bar>l\<bar>)"
  define f where "f = (if new then (xt_ext_flags s)[nat \<bar>l\<bar> := True] else xt_ext_flags s)"
  define s2 where "s2 = s\<lparr>xt_eclause := xt_eclause s @ [l], xt_ext_flags := f\<rparr>"
  have s2: "(if new then (s\<lparr>xt_eclause := xt_eclause s @ [l]\<rparr>)\<lparr>xt_ext_flags := (xt_ext_flags (s\<lparr>xt_eclause := xt_eclause s @ [l]\<rparr>))[nat \<bar>l\<bar> := True]\<rparr>
      else s\<lparr>xt_eclause := xt_eclause s @ [l]\<rparr>) = s2"
    by (simp add: s2_def f_def)
  obtain il u where u: "xt_internalize l s2 = (il, u)" by fastforce
  obtain ils ch v where v: "restore_lits lrat ls (u\<lparr>xt_stats_restoredlits := xt_stats_restoredlits u + 1\<rparr>) = (ils, ch, v)"
    by (rule prod_cases3)
  have "v = t" using assms unfolding restore_lits.simps Let_def new_def [symmetric]
    by (simp add: s2 [unfolded new_def] u v new_def)
  then show ?thesis using s2_def u v by (metis snd_conv)
qed

lemma restore_lits_effect:
  assumes "restore_lits lrat ls s = (ilits, chain, t)" "0 \<notin> set ls"
  shows "xt_extension t = xt_extension s \<and> xt_witness t = xt_witness s \<and> xt_added t = xt_added s
    \<and> xt_eclause t = xt_eclause s @ ls
    \<and> (\<forall>k. k \<noteq> 0 \<longrightarrow> xt_marked (xt_tainted t) k \<longleftrightarrow> xt_marked (xt_tainted s) k \<or> k \<in> set ls \<and> xt_marked (xt_witness s) (- k))"
  using assms
proof (induction ls arbitrary: s ilits chain)
  case (Cons l ls)
  obtain s2 f s3 il ch where st: "s2 = s\<lparr>xt_eclause := xt_eclause s @ [l], xt_ext_flags := f\<rparr>"
    "s3 = snd (xt_internalize l s2)"
    "restore_lits lrat ls (s3\<lparr>xt_stats_restoredlits := xt_stats_restoredlits s3 + 1\<rparr>) = (il, ch, t)"
    using restore_lits_step [OF Cons.prems(1)] by blast
  define s4 where "s4 = s3\<lparr>xt_stats_restoredlits := xt_stats_restoredlits s3 + 1\<rparr>"
  note st4 = st(3) [folded s4_def]
  from Cons.IH [OF st4] Cons.prems(2) have
    IH: "xt_extension t = xt_extension s4 \<and> xt_witness t = xt_witness s4 \<and> xt_added t = xt_added s4
      \<and> xt_eclause t = xt_eclause s4 @ ls
      \<and> (\<forall>k. k \<noteq> 0 \<longrightarrow> xt_marked (xt_tainted t) k \<longleftrightarrow> xt_marked (xt_tainted s4) k \<or> k \<in> set ls \<and> xt_marked (xt_witness s4) (- k))"
    by simp
  have f: "xt_extension s4 = xt_extension s" "xt_witness s4 = xt_witness s" "xt_added s4 = xt_added s"
    "xt_eclause s4 = xt_eclause s @ [l]" "xt_tainted s2 = xt_tainted s" "xt_witness s2 = xt_witness s"
    by (simp_all add: s4_def st(1,2))
  have t: "xt_marked (xt_tainted s4) k \<longleftrightarrow> xt_marked (xt_tainted s) k \<or> k = l \<and> xt_marked (xt_witness s) (- l)"
    if "k \<noteq> 0" for k
    using internalize_tainted [of l k s2] Cons.prems(2) that f by (simp add: s4_def st(2))
  show ?case using IH f t by auto
qed simp

lemma restore_clause_effect:
  assumes "0 \<notin> set c" "xt_eclause s = []"
  shows "xt_extension (restore_clause lrat c i s) = xt_extension s" "xt_witness (restore_clause lrat c i s) = xt_witness s"
    "xt_eclause (restore_clause lrat c i s) = []"
    "\<exists>il ch. xt_added (restore_clause lrat c i s) = xt_added s @ [(i, c, il, ch)]"
    "k \<noteq> 0 \<Longrightarrow> xt_marked (xt_tainted (restore_clause lrat c i s)) k \<longleftrightarrow>
       xt_marked (xt_tainted s) k \<or> k \<in> set c \<and> xt_marked (xt_witness s) (- k)"
proof -
  obtain il ch t where r: "restore_lits lrat c s = (il, ch, t)" by (cases "restore_lits lrat c s")
  note e = restore_lits_effect [OF r assms(1)]
  show "xt_extension (restore_clause lrat c i s) = xt_extension s" "xt_witness (restore_clause lrat c i s) = xt_witness s"
    "xt_eclause (restore_clause lrat c i s) = []"
    "\<exists>il ch. xt_added (restore_clause lrat c i s) = xt_added s @ [(i, c, il, ch)]"
    "k \<noteq> 0 \<Longrightarrow> xt_marked (xt_tainted (restore_clause lrat c i s)) k \<longleftrightarrow>
       xt_marked (xt_tainted s) k \<or> k \<in> set c \<and> xt_marked (xt_witness s) (- k)"
    using e assms(2) by (simp_all add: restore_clause_def r Let_def)
qed

subsection \<open>The pass over the entries\<close>

definition restore_satisfied :: "restore_opts \<Rightarrow> (restored list \<Rightarrow> int \<Rightarrow> int) \<Rightarrow> External \<Rightarrow> clause \<Rightarrow> bool" where
  "restore_satisfied opts ifixed s c \<longleftrightarrow>
     ro_restoreflush opts \<and> (\<exists>l \<in> set c. xt_fixed (ifixed (xt_added s)) s l > 0)"

definition restore_tainted :: "restore_opts \<Rightarrow> External \<Rightarrow> int list \<Rightarrow> bool" where
  "restore_tainted opts s w \<longleftrightarrow> (\<exists>l \<in> set w. xt_marked (xt_tainted s) (- l)) \<or> ro_restoreall opts \<noteq> 0"

text \<open>The entries that stay, and the state after the pass.\<close>

fun restore_pass :: "restore_opts \<Rightarrow> (restored list \<Rightarrow> int \<Rightarrow> int) \<Rightarrow> entry list \<Rightarrow> External \<Rightarrow> entry list \<times> External" where
  "restore_pass opts ifixed [] s = ([], s)"
| "restore_pass opts ifixed ((w, i, c) # es) s =
     (if restore_satisfied opts ifixed s c then restore_pass opts ifixed es s
      else if restore_tainted opts s w
      then restore_pass opts ifixed es (restore_clause (ro_lrat opts) c (stored_id i) s)
      else (let (kept, t) = restore_pass opts ifixed es s in ((w, i, c) # kept, t)))"

lemma tainted_witness_iff:
  "0 \<notin> set w \<Longrightarrow> tainted_witness s w \<noteq> 0 \<longleftrightarrow> (\<exists>l \<in> set w. xt_marked (xt_tainted s) (- l))"
proof -
  have "0 \<notin> set w \<Longrightarrow> fold (\<lambda>elit tlit. if xt_marked (xt_tainted s) (- elit) then elit else tlit) w a \<noteq> 0 \<longleftrightarrow>
      a \<noteq> 0 \<or> (\<exists>l \<in> set w. xt_marked (xt_tainted s) (- l))" for a
    by (induction w arbitrary: a) auto
  then show "0 \<notin> set w \<Longrightarrow> ?thesis" by (simp add: tainted_witness_def)
qed

lemma satisfied_literal_iff:
  "0 \<notin> set c \<Longrightarrow> satisfied_literal f s c \<noteq> 0 \<longleftrightarrow> (\<exists>l \<in> set c. xt_fixed f s l > 0)"
proof -
  have "0 \<notin> set c \<Longrightarrow> fold (\<lambda>elit sat. if sat = 0 \<and> xt_fixed f s elit > 0 then elit else sat) c a \<noteq> 0 \<longleftrightarrow>
      a \<noteq> 0 \<or> (\<exists>l \<in> set c. xt_fixed f s l > 0)" for a
    by (induction c arbitrary: a) auto
  then show "0 \<notin> set c \<Longrightarrow> ?thesis" by (simp add: satisfied_literal_def)
qed

lemma take_clause_stack:
  assumes "0 \<notin> set c"
  shows "takeWhile (\<lambda>x. x \<noteq> 0) (c @ stack es) = c" "dropWhile (\<lambda>x. x \<noteq> 0) (c @ stack es) = stack es"
proof -
  have z: "takeWhile (\<lambda>x. x \<noteq> 0) (stack es) = []" "dropWhile (\<lambda>x. x \<noteq> 0) (stack es) = stack es"
    by (cases es; auto)+
  have "\<forall>x \<in> set c. x \<noteq> 0" using assms by auto
  then show "takeWhile (\<lambda>x. x \<noteq> 0) (c @ stack es) = c" "dropWhile (\<lambda>x. x \<noteq> 0) (c @ stack es) = stack es"
    using z by (simp_all add: takeWhile_append2 dropWhile_append2)
qed

lemma restore_loop_entries:
  assumes "\<forall>e \<in> set es. entry_ok n e"
  shows "restore_loop opts ifixed (stack es) out s =
    (case restore_pass opts ifixed es s of (kept, t) \<Rightarrow> Some (out @ stack kept, t))"
  using assms
proof (induction es arbitrary: out s)
  case Nil
  then show ?case by (simp add: restore_loop.simps)
next
  case (Cons e es)
  obtain w i c where e: "e = (w, i, c)" by (cases e)
  have nz: "0 \<notin> set w" "0 \<notin> set c" using Cons.prems e by auto
  have IH: "restore_loop opts ifixed (stack es) out s =
      (case restore_pass opts ifixed es s of (kept, t) \<Rightarrow> Some (out @ stack kept, t))" for out s
    using Cons by simp
  let ?r1 = "sint (id_higher_bits i) # sint (id_lower_bits i) # 0 # c @ stack es"
  have st: "stack (e # es) = 0 # w @ 0 # ?r1" by (simp add: e)
  show ?case
    unfolding st
    by (subst restore_loop.simps)
      (auto simp: split_zero_app [OF nz(1)] take_clause_stack [OF nz(2)] e IH stored_id_def [symmetric] Let_def
        restore_satisfied_def restore_tainted_def tainted_witness_iff [OF nz(1), symmetric]
        satisfied_literal_iff [OF nz(2), symmetric] split: prod.split)
qed

lemma witness_loop_entries:
  "\<forall>e \<in> set es. entry_ok n e \<Longrightarrow>
   \<exists>m. witness_loop (rev (stack es)) m0 = Some m
     \<and> (\<forall>k. k \<noteq> 0 \<longrightarrow> xt_marked m k \<longleftrightarrow> xt_marked m0 k \<or> (\<exists>(w, i, c) \<in> set es. k \<in> set w))"
proof (induction es arbitrary: m0 rule: rev_induct)
  case Nil
  then show ?case by (simp add: witness_loop.simps)
next
  case (snoc e es)
  obtain w i c where e: "e = (w, i, c)" by (cases e)
  have ok: "entry_ok n (w, i, c)" using snoc.prems e by simp
  then have nz: "\<forall>l \<in> set (rev w). l \<noteq> 0" by auto
  have oks: "\<forall>e \<in> set es. entry_ok n e" using snoc.prems by simp
  from read_entry_back [OF ok, of "rev (stack es)"] obtain r1 where r1:
    "split_zero (rev (lay (w, i, c)) @ rev (stack es)) = Some (rev c, r1)" "\<not> length r1 < 3"
    "split_zero (drop 3 r1) = Some (rev w, rev (stack es))"
    by blast
  have run: "witness_loop (rev (stack (es @ [e]))) m0 = witness_loop (rev (stack es)) (fold xt_mark (rev w) m0)"
    using r1 lay_nonempty [of "(w, i, c)"] by (subst witness_loop.simps) (simp add: e del: lay.simps)
  obtain m where m: "witness_loop (rev (stack es)) (fold xt_mark (rev w) m0) = Some m"
    "\<forall>k. k \<noteq> 0 \<longrightarrow> xt_marked m k \<longleftrightarrow> xt_marked (fold xt_mark (rev w) m0) k \<or> (\<exists>(w, i, c) \<in> set es. k \<in> set w)"
    using snoc.IH [OF oks, of "fold xt_mark (rev w) m0"] by blast
  then show ?case using run marked_fold_mark [OF nz] by (auto simp: e)
qed

subsection \<open>Soundness\<close>

text \<open>The clauses handed back to the internal solver.\<close>

definition added_clauses :: "External \<Rightarrow> clause set" where
  "added_clauses s = (\<lambda>(i, c, il, ch). c) ` set (xt_added s)"

lemma added_restore_clause:
  "0 \<notin> set c \<Longrightarrow> xt_eclause s = [] \<Longrightarrow> added_clauses (restore_clause lrat c i s) = insert c (added_clauses s)"
  by (drule (1) restore_clause_effect(4) [of c s lrat i]) (elim exE, simp add: added_clauses_def)

text \<open>
  Each literal of a new clause whose negation is a witness is tainted, and each witness literal has
  its witness bit.
\<close>

definition taint_covers :: "clause set \<Rightarrow> entry list \<Rightarrow> External \<Rightarrow> bool" where
  "taint_covers D es s \<longleftrightarrow>
     (\<forall>d \<in> D. \<forall>l \<in> set d. \<forall>(w, i, c) \<in> set es. - l \<in> set w \<longrightarrow> xt_marked (xt_tainted s) l)"

definition witness_covers :: "entry list \<Rightarrow> External \<Rightarrow> bool" where
  "witness_covers es s \<longleftrightarrow> (\<forall>(w, i, c) \<in> set es. \<forall>l \<in> set w. xt_marked (xt_witness s) l)"

text \<open>The states in which the pass looks at an entry.\<close>

fun restore_states :: "restore_opts \<Rightarrow> (restored list \<Rightarrow> int \<Rightarrow> int) \<Rightarrow> entry list \<Rightarrow> External \<Rightarrow> External list" where
  "restore_states opts ifixed [] s = []"
| "restore_states opts ifixed ((w, i, c) # es) s =
     s # restore_states opts ifixed es
       (if \<not> restore_satisfied opts ifixed s c \<and> restore_tainted opts s w
        then restore_clause (ro_lrat opts) c (stored_id i) s else s)"

definition fixed_sound :: "clause set \<Rightarrow> (restored list \<Rightarrow> int \<Rightarrow> int) \<Rightarrow> External \<Rightarrow> bool" where
  "fixed_sound F ifixed u \<longleftrightarrow>
     (\<forall>l. l \<noteq> 0 \<longrightarrow> xt_fixed (ifixed (xt_added u)) u l > 0 \<longrightarrow> entails (F \<union> added_clauses u) [l])"

lemma set_lits_keeps:
  assumes "clause_true \<alpha> d" "\<forall>l \<in> set w. - l \<notin> set w" "\<forall>l \<in> set d. l \<noteq> 0 \<and> - l \<notin> set w"
  shows "clause_true (set_lits w \<alpha>) d"
  using assms lit_true_set_lits [OF assms(2)] unfolding clause_true_def by blast

lemma added_mono:
  assumes "restore_pass opts ifixed es s = (kept, t)" "\<forall>e \<in> set es. entry_ok n e" "xt_eclause s = []"
  shows "added_clauses s \<subseteq> added_clauses t \<and> added_clauses t \<subseteq> added_clauses s \<union> entry_clauses es
    \<and> set kept \<subseteq> set es \<and> xt_eclause t = [] \<and> xt_witness t = xt_witness s"
  using assms
proof (induction es arbitrary: s kept)
  case (Cons e es)
  obtain w i c where e: "e = (w, i, c)" by (cases e)
  have nz: "0 \<notin> set c" using Cons.prems(2) e by auto
  let ?r = "restore_clause (ro_lrat opts) c (stored_id i) s"
  note r = added_restore_clause [OF nz Cons.prems(3), where lrat = "ro_lrat opts" and i = "stored_id i"]
    restore_clause_effect(2,3) [OF nz Cons.prems(3), where lrat = "ro_lrat opts" and i = "stored_id i"]
  have oks: "\<forall>e \<in> set es. entry_ok n e" using Cons.prems(2) by simp
  consider "restore_pass opts ifixed es s = (kept, t)" | "restore_pass opts ifixed es ?r = (kept, t)"
    | k where "restore_pass opts ifixed es s = (k, t)" "kept = (w, i, c) # k"
    using Cons.prems(1) by (auto simp: e split: if_splits prod.splits)
  then show ?case
  proof cases
    case 1
    from Cons.IH [OF this oks Cons.prems(3)] show ?thesis by (auto simp: e)
  next
    case 2
    from Cons.IH [OF this oks r(3)] r(1,2) show ?thesis by (auto simp: e)
  next
    case 3
    from Cons.IH [OF 3(1) oks Cons.prems(3)] 3(2) show ?thesis by (auto simp: e)
  qed
qed (auto simp: added_clauses_def)

text \<open>One entry of the pass: it is flushed, restored or kept.\<close>

lemma restore_pass_cases:
  assumes "restore_pass opts ifixed ((w, i, c) # es) s = (kept, t)"
  obtains (sat) "restore_satisfied opts ifixed s c" "restore_pass opts ifixed es s = (kept, t)"
  | (res) "\<not> restore_satisfied opts ifixed s c" "restore_tainted opts s w"
      "restore_pass opts ifixed es (restore_clause (ro_lrat opts) c (stored_id i) s) = (kept, t)"
  | (kept) k where "\<not> restore_satisfied opts ifixed s c" "\<not> restore_tainted opts s w"
      "restore_pass opts ifixed es s = (k, t)" "kept = (w, i, c) # k"
  using assms by (auto split: if_splits prod.splits)

text \<open>What is kept and what is restored implies what was flushed.\<close>

lemma restore_pass_implied:
  assumes "restore_pass opts ifixed es s = (kept, t)" "\<forall>e \<in> set es. entry_ok n e" "xt_eclause s = []"
    "\<forall>u \<in> set (restore_states opts ifixed es s). fixed_sound F ifixed u"
    "models \<beta> (F \<union> added_clauses t \<union> entry_clauses kept)"
  shows "models \<beta> (entry_clauses es)"
  using assms
proof (induction es arbitrary: s kept)
  case (Cons e es)
  obtain w i c where e: "e = (w, i, c)" by (cases e)
  have oks: "\<forall>e \<in> set es. entry_ok n e" and nz: "0 \<notin> set c" using Cons.prems(2) e by auto
  let ?r = "restore_clause (ro_lrat opts) c (stored_id i) s"
  note r = added_restore_clause [OF nz Cons.prems(3), where lrat = "ro_lrat opts" and i = "stored_id i"]
    restore_clause_effect(3) [OF nz Cons.prems(3), where lrat = "ro_lrat opts" and i = "stored_id i"]
  note fixed = Cons.prems(4)
  from Cons.prems(1) [unfolded e] show ?case
  proof (cases rule: restore_pass_cases)
    case sat
    obtain l where l: "l \<in> set c" "xt_fixed (ifixed (xt_added s)) s l > 0"
      using sat(1) by (auto simp: restore_satisfied_def)
    have "fixed_sound F ifixed s" using fixed by (simp add: e)
    then have "entails (F \<union> added_clauses s) [l]" using l nz unfolding fixed_sound_def by metis
    moreover have "models \<beta> (F \<union> added_clauses s)"
      using Cons.prems(5) added_mono [OF sat(2) oks Cons.prems(3)] by (auto intro: models_antimono)
    ultimately have "clause_true \<beta> c" using l(1) by (auto simp: clause_true_def dest: entails_unitD)
    then show ?thesis using Cons.IH [OF sat(2) oks Cons.prems(3)] fixed sat(1) Cons.prems(5) by (simp add: e)
  next
    case res
    have "c \<in> added_clauses t" using added_mono [OF res(3) oks r(2)] r(1) by blast
    then show ?thesis using Cons.IH [OF res(3) oks r(2)] fixed res(1,2) Cons.prems(5)
      by (auto simp: e dest: modelsD)
  next
    case (kept k)
    then show ?thesis using Cons.IH [OF kept(3) oks Cons.prems(3)] fixed Cons.prems(5) by (simp add: e)
  qed
qed simp

lemma taint_covers_restore:
  assumes "taint_covers D es s" "witness_covers es s" "0 \<notin> set c" "xt_eclause s = []" "\<forall>d \<in> D. 0 \<notin> set d"
  shows "taint_covers (insert c D) es (restore_clause lrat c i s)"
  unfolding taint_covers_def
proof (intro ballI, clarify)
  fix d l w' i' c'
  assume d: "d \<in> insert c D" "l \<in> set d" "(w', i', c') \<in> set es" "- l \<in> set w'"
  have l: "l \<noteq> 0" using d assms(3,5) by auto
  have "xt_marked (xt_tainted s) l \<or> l \<in> set c \<and> xt_marked (xt_witness s) (- l)"
    using d assms(1,2) unfolding taint_covers_def witness_covers_def by blast
  then show "xt_marked (xt_tainted (restore_clause lrat c i s)) l"
    using restore_clause_effect(5) [OF assms(3,4) l] by blast
qed

lemma taint_keeps:
  assumes "taint_covers D ((w, i, c) # es) s" "\<not> restore_tainted opts s w" "\<forall>l \<in> set w. - l \<notin> set w"
    "\<forall>d \<in> D. 0 \<notin> set d" "models \<alpha> D"
  shows "models (set_lits w \<alpha>) D"
  unfolding models_def
proof
  fix d assume d: "d \<in> D"
  show "clause_true (set_lits w \<alpha>) d"
  proof (rule set_lits_keeps [OF _ assms(3)])
    show "\<forall>l \<in> set d. l \<noteq> 0 \<and> - l \<notin> set w"
    proof (intro ballI conjI notI)
      fix l assume l: "l \<in> set d"
      { assume "l = 0" then show False using l d assms(4) by blast }
      assume w: "- l \<in> set w"
      then have "xt_marked (xt_tainted s) (- (- l))" using assms(1) d l unfolding taint_covers_def by force
      then show False using assms(2) w unfolding restore_tainted_def by blast
    qed
  qed (use assms(5) d in \<open>auto dest: modelsD\<close>)
qed

text \<open>The entries that stay are reconstructible for the clauses the solver has now.\<close>

lemma restore_pass_reconstructible:
  assumes "restore_pass opts ifixed es s = (kept, t)" "reconstructible F es" "\<forall>e \<in> set es. entry_ok n e"
    "xt_eclause s = []" "witness_covers es s" "taint_covers (D \<union> added_clauses s) es s"
    "\<forall>d \<in> D \<union> added_clauses s. 0 \<notin> set d"
    "\<forall>u \<in> set (restore_states opts ifixed es s). fixed_sound (F \<union> D) ifixed u"
  shows "reconstructible (F \<union> D \<union> added_clauses t) kept"
  using assms
proof (induction es arbitrary: s kept)
  case (Cons e es)
  obtain w i c where e: "e = (w, i, c)" by (cases e)
  have red: "redundant (F \<union> entry_clauses es) w c" and rec: "reconstructible F es"
    using Cons.prems(2) e by simp_all
  have oks: "\<forall>e \<in> set es. entry_ok n e" and ok: "entry_ok n (w, i, c)" using Cons.prems(3) e by simp_all
  have nz: "0 \<notin> set c" using ok by auto
  have wc: "witness_covers es s" and tc: "taint_covers (D \<union> added_clauses s) es s"
    using Cons.prems(5,6) by (auto simp: witness_covers_def taint_covers_def e)
  let ?r = "restore_clause (ro_lrat opts) c (stored_id i) s"
  note r = added_restore_clause [OF nz Cons.prems(4), where lrat = "ro_lrat opts" and i = "stored_id i"]
    restore_clause_effect(2,3) [OF nz Cons.prems(4), where lrat = "ro_lrat opts" and i = "stored_id i"]
  note fixed = Cons.prems(8)
  from Cons.prems(1) [unfolded e] show ?case
  proof (cases rule: restore_pass_cases)
    case sat
    then show ?thesis using Cons.IH [OF sat(2) rec oks Cons.prems(4) wc tc Cons.prems(7)] fixed by (simp add: e)
  next
    case res
    have "taint_covers (D \<union> added_clauses ?r) es ?r"
      using taint_covers_restore [OF tc wc nz Cons.prems(4,7)] by (simp add: r(1))
    moreover have "witness_covers es ?r" using wc by (simp add: witness_covers_def r(2))
    ultimately show ?thesis using Cons.IH [OF res(3) rec oks r(3)] Cons.prems(7) nz fixed res(1,2) by (simp add: e r(1))
  next
    case (kept k)
    have fixed': "\<forall>u \<in> set (restore_states opts ifixed es s). fixed_sound (F \<union> D) ifixed u"
      using fixed kept(1,2) by (simp add: e)
    note mono = added_mono [OF kept(3) oks Cons.prems(4)]
    have "redundant (F \<union> D \<union> added_clauses t \<union> entry_clauses k) w c"
      unfolding redundant_def
    proof (intro allI impI)
      fix \<alpha> assume m: "models \<alpha> (F \<union> D \<union> added_clauses t \<union> entry_clauses k)" and f: "\<not> clause_true \<alpha> c"
      have es: "models \<alpha> (entry_clauses es)"
        using restore_pass_implied [OF kept(3) oks Cons.prems(4) fixed'] m by simp
      have 1: "models (set_lits w \<alpha>) (insert c (F \<union> entry_clauses es))"
        using red f es m unfolding redundant_def by simp
      have "models \<alpha> (D \<union> added_clauses s)" using m mono by (auto intro: models_antimono)
      then have 2: "models (set_lits w \<alpha>) (D \<union> added_clauses s)"
        using taint_keeps [OF Cons.prems(6) [unfolded e] kept(2) _ Cons.prems(7)] ok by simp
      have "entry_clauses k \<subseteq> entry_clauses es" using mono by (simp add: entry_clauses_def image_mono)
      then show "models (set_lits w \<alpha>) (insert c (F \<union> D \<union> added_clauses t \<union> entry_clauses k))"
        using 1 2 mono by (auto simp: models_def)
    qed
    then show ?thesis
      using Cons.IH [OF kept(3) rec oks Cons.prems(4) wc tc Cons.prems(7) fixed'] by (simp add: kept(4))
  qed
qed simp

text \<open>The entries that stay are in their order.\<close>

lemma restore_pass_subseq: "restore_pass opts ifixed es s = (kept, t) \<Longrightarrow> subseq kept es"
proof (induction es arbitrary: s kept)
  case (Cons e es)
  obtain w i c where e: "e = (w, i, c)" by (cases e)
  from Cons.prems [unfolded e] show ?case
    by (cases rule: restore_pass_cases) (auto simp: e dest: Cons.IH)
qed simp

subsection \<open>Restoring and extending\<close>

lemma internalize_max_var:
  "l \<noteq> 0 \<Longrightarrow> \<bar>l\<bar> \<le> xt_max_var s \<Longrightarrow> xt_max_var (snd (xt_internalize l s)) = xt_max_var s"
  by (simp add: xt_internalize_def Let_def split: prod.split if_splits)

lemma restore_lits_max_var:
  assumes "restore_lits lrat ls s = (ilits, chain, t)" "\<forall>l \<in> set ls. l \<noteq> 0 \<and> \<bar>l\<bar> \<le> xt_max_var s"
  shows "xt_max_var t = xt_max_var s"
  using assms
proof (induction ls arbitrary: s ilits chain)
  case (Cons l ls)
  obtain s2 f u il ch where st: "s2 = s\<lparr>xt_eclause := xt_eclause s @ [l], xt_ext_flags := f\<rparr>"
    "u = snd (xt_internalize l s2)"
    "restore_lits lrat ls (u\<lparr>xt_stats_restoredlits := xt_stats_restoredlits u + 1\<rparr>) = (il, ch, t)"
    using restore_lits_step [OF Cons.prems(1)] by blast
  have "xt_max_var u = xt_max_var s" using internalize_max_var [of l s2] st(1,2) Cons.prems(2) by simp
  then show ?case using Cons.IH [OF st(3)] Cons.prems(2) by simp
qed simp

lemma restore_clause_max_var:
  "\<forall>l \<in> set c. l \<noteq> 0 \<and> \<bar>l\<bar> \<le> xt_max_var s \<Longrightarrow> xt_max_var (restore_clause lrat c i s) = xt_max_var s"
  using restore_lits_max_var [of lrat c s]
  by (cases "restore_lits lrat c s") (simp add: restore_clause_def Let_def)

lemma restore_pass_max_var:
  assumes "restore_pass opts ifixed es s = (kept, t)" "\<forall>e \<in> set es. entry_ok (xt_max_var s) e"
  shows "xt_max_var t = xt_max_var s"
  using assms
proof (induction es arbitrary: s kept)
  case (Cons e es)
  obtain w i c where e: "e = (w, i, c)" by (cases e)
  have "xt_max_var (restore_clause (ro_lrat opts) c (stored_id i) s) = xt_max_var s"
    using Cons.prems(2) e by (intro restore_clause_max_var) auto
  then show ?case using Cons.prems Cons.IH [of s] Cons.IH [of "restore_clause (ro_lrat opts) c (stored_id i) s"]
    by (auto simp: e split: if_splits prod.splits)
qed simp

lemma restore_clauses_pass:
  assumes "xt_extension s = stack es" "\<forall>e \<in> set es. entry_ok (xt_max_var s) e" "xt_eclause s = []"
  shows "\<exists>t kept u. restore_clauses opts ifixed s = Some t
    \<and> restore_pass opts ifixed es (s\<lparr>xt_stats_restorations := xt_stats_restorations s + 1\<rparr>) = (kept, u)
    \<and> xt_extension t = stack kept \<and> xt_max_var t = xt_max_var s \<and> added_clauses t = added_clauses u
    \<and> xt_tainted t = [] \<and> xt_eclause t = [] \<and> set kept \<subseteq> set es
    \<and> (\<forall>k. k \<noteq> 0 \<longrightarrow> xt_marked (xt_witness t) k \<longleftrightarrow> (\<exists>(w, i, c) \<in> set kept. k \<in> set w))"
proof -
  let ?s = "s\<lparr>xt_stats_restorations := xt_stats_restorations s + 1\<rparr>"
  obtain kept u where p: "restore_pass opts ifixed es ?s = (kept, u)" by fastforce
  have ok: "\<forall>e \<in> set es. entry_ok (xt_max_var ?s) e" using assms(2) by simp
  have k: "set kept \<subseteq> set es" "xt_eclause u = []" using added_mono [OF p ok] assms(3) by simp_all
  have "\<forall>e \<in> set kept. entry_ok (xt_max_var s) e" using assms(2) k(1) by blast
  from witness_loop_entries [OF this, of "[]"] obtain m where m: "witness_loop (rev (stack kept)) [] = Some m"
    "\<forall>k. k \<noteq> 0 \<longrightarrow> xt_marked m k \<longleftrightarrow> (\<exists>(w, i, c) \<in> set kept. k \<in> set w)"
    by auto
  have "restore_clauses opts ifixed s = Some (u\<lparr>xt_extension := stack kept, xt_tainted := [], xt_witness := m\<rparr>)"
    using restore_loop_entries [OF ok, of opts ifixed "[]" ?s] m(1) p assms(1)
    by (simp add: restore_clauses_def Let_def)
  then show ?thesis using p k m(2) restore_pass_max_var [OF p ok] by (simp add: added_clauses_def)
qed

lemma extend_models:
  assumes "xt_extension s = stack es" "\<forall>e \<in> set es. entry_ok (xt_max_var s) e" "\<forall>c \<in> G. 0 \<notin> set c"
    "models (reconstruct es (xt_assignment (copy_values val s))) G"
  shows "\<exists>u. xt_extend val s = Some u \<and> models (xt_assignment u) G"
proof -
  let ?s = "copy_values val (s\<lparr>xt_stats_extensions := xt_stats_extensions s + 1\<rparr>)"
  let ?t = "fold extend_entry (rev es) ?s"
  have frame: "xt_max_var ?s = xt_max_var s" "xt_extension ?s = xt_extension s" by (simp_all add: copy_values_fold)
  have vals: "xt_vals (copy_values val (s\<lparr>xt_stats_extensions := k\<rparr>)) = xt_vals (copy_values val s)" for k
  proof -
    have "xt_vals (fold (copy_value val) is (s\<lparr>xt_stats_extensions := k\<rparr>)) = xt_vals (fold (copy_value val) is s)
      \<and> xt_e2i (fold (copy_value val) is (s\<lparr>xt_stats_extensions := k\<rparr>)) = xt_e2i (fold (copy_value val) is s)" for "is"
      by (induction "is" rule: rev_induct) (simp_all add: copy_value_def Let_def)
    then show ?thesis by (simp add: copy_values_fold)
  qed
  have same: "xt_assignment ?s = xt_assignment (copy_values val s)"
    using vals by (simp add: xt_assignment_def fun_eq_iff copy_values_fold)
  have ok: "\<forall>e \<in> set es. entry_ok (xt_max_var ?s) e" using assms(2) frame by simp
  have "xt_extend val s = Some (?t\<lparr>xt_extended := True\<rparr>)"
    using extend_loop_entries [OF ok] assms(1) frame by (simp add: xt_extend_def Let_def)
  moreover have "xt_assignment (?t\<lparr>xt_extended := True\<rparr>) = xt_assignment ?t" by (simp add: xt_assignment_def fun_eq_iff)
  moreover have "models (xt_assignment ?t) G"
    using extend_entries_assignment [OF ok] same_vars_models [OF _ assms(3)] assms(4) same by metis
  ultimately show ?thesis by simp
qed

subsection \<open>A round of adding and restoring\<close>

text \<open>Adding a clause turns its literals into internal ones, which taints them where needed.\<close>

definition internalize_clauses :: "clause list \<Rightarrow> External \<Rightarrow> External" where
  "internalize_clauses ds = fold (\<lambda>l s. snd (xt_internalize l s)) (concat ds)"

lemma init_max_var: "xt_max_var s \<le> xt_max_var (xt_init n s)"
  by (auto simp: xt_init_def xt_enlarge_def Let_def)

lemma internalize_max_var_mono: "xt_max_var s \<le> xt_max_var (snd (xt_internalize l s))"
  using init_max_var [of s "\<bar>l\<bar>"] by (auto simp: xt_internalize_def Let_def split: prod.split if_splits)

lemma fold_internalize:
  assumes "\<forall>l \<in> set ls. l \<noteq> 0" "u = fold (\<lambda>l s. snd (xt_internalize l s)) ls s"
  shows "xt_extension u = xt_extension s \<and> xt_witness u = xt_witness s \<and> xt_added u = xt_added s
    \<and> xt_eclause u = xt_eclause s \<and> xt_max_var s \<le> xt_max_var u
    \<and> (\<forall>k. k \<noteq> 0 \<longrightarrow> xt_marked (xt_tainted u) k \<longleftrightarrow> xt_marked (xt_tainted s) k \<or> k \<in> set ls \<and> xt_marked (xt_witness s) (- k))"
  using assms
proof (induction ls arbitrary: s)
  case (Cons l ls)
  let ?s = "snd (xt_internalize l s)"
  have "u = fold (\<lambda>l s. snd (xt_internalize l s)) ls ?s" using Cons.prems(2) by simp
  from Cons.IH [OF _ this] Cons.prems(1) show ?case
    using internalize_max_var_mono [of s l] internalize_tainted [of l _ s] by auto
qed simp

lemma internalize_covers:
  assumes "\<forall>d \<in> set ds. 0 \<notin> set d" "witness_covers es s"
  shows "taint_covers (set ds) es (internalize_clauses ds s)"
proof -
  have "\<forall>l \<in> set (concat ds). l \<noteq> 0" using assms(1) by auto
  note f = fold_internalize [OF this refl, of s]
  show ?thesis
    unfolding taint_covers_def internalize_clauses_def
  proof (intro ballI, clarify)
    fix d l w i c
    assume d: "d \<in> set ds" "l \<in> set d" "(w, i, c) \<in> set es" "- l \<in> set w"
    have "xt_marked (xt_witness s) (- l)" using assms(2) d(3,4) unfolding witness_covers_def by blast
    moreover have "l \<noteq> 0" "l \<in> set (concat ds)" using d(1,2) assms(1) by auto
    ultimately show "xt_marked (xt_tainted (fold (\<lambda>l s. snd (xt_internalize l s)) (concat ds) s)) l" using f by blast
  qed
qed

lemma entry_ok_mono: "entry_ok n e \<Longrightarrow> n \<le> m \<Longrightarrow> entry_ok m e"
  by (cases e) (simp, meson order_trans)

text \<open>One round: clauses are added, then clauses are restored.\<close>

lemma restore_round:
  assumes "s = internalize_clauses ds s0" "xt_extension s0 = stack es" "\<forall>e \<in> set es. entry_ok (xt_max_var s0) e"
    "xt_eclause s0 = []" "xt_added s0 = []" "witness_covers es s0" "reconstructible F es" "\<forall>d \<in> F \<union> set ds. 0 \<notin> set d"
    "\<forall>u \<in> set (restore_states opts ifixed es (s\<lparr>xt_stats_restorations := xt_stats_restorations s + 1\<rparr>)).
       fixed_sound (F \<union> set ds) ifixed u"
  obtains t kept where "restore_clauses opts ifixed s = Some t" "xt_extension t = stack kept" "subseq kept es"
    "\<forall>e \<in> set kept. entry_ok (xt_max_var t) e" "reconstructible (F \<union> set ds \<union> added_clauses t) kept"
    "\<And>\<beta>. models \<beta> (F \<union> set ds \<union> added_clauses t \<union> entry_clauses kept) \<Longrightarrow> models \<beta> (entry_clauses es)"
    "added_clauses t \<subseteq> entry_clauses es" "xt_tainted t = []" "xt_eclause t = []"
    "\<forall>k. k \<noteq> 0 \<longrightarrow> xt_marked (xt_witness t) k \<longleftrightarrow> (\<exists>(w, i, c) \<in> set kept. k \<in> set w)"
proof -
  let ?s = "s\<lparr>xt_stats_restorations := xt_stats_restorations s + 1\<rparr>"
  have "\<forall>l \<in> set (concat ds). l \<noteq> 0" using assms(8) by auto
  note f = fold_internalize [OF this assms(1) [unfolded internalize_clauses_def]]
  have x: "xt_extension s = stack es" "\<forall>e \<in> set es. entry_ok (xt_max_var s) e" "xt_eclause s = []"
    using f assms(2-4) entry_ok_mono by auto
  from restore_clauses_pass [OF x, of opts ifixed] obtain t kept u where
    p: "restore_clauses opts ifixed s = Some t" "restore_pass opts ifixed es ?s = (kept, u)" "xt_extension t = stack kept"
      "xt_max_var t = xt_max_var s" "added_clauses t = added_clauses u" "xt_tainted t = []" "xt_eclause t = []" "set kept \<subseteq> set es"
      "\<forall>k. k \<noteq> 0 \<longrightarrow> xt_marked (xt_witness t) k \<longleftrightarrow> (\<exists>(w, i, c) \<in> set kept. k \<in> set w)"
    by auto
  have e: "added_clauses ?s = {}" using assms(5) f by (simp add: added_clauses_def)
  have wc: "witness_covers es ?s" using assms(6) f by (simp add: witness_covers_def)
  have tc: "taint_covers (set ds \<union> added_clauses ?s) es ?s"
    using internalize_covers [OF _ assms(6), of ds] assms(1,8) unfolding e by (simp add: taint_covers_def)
  have ok: "\<forall>e \<in> set es. entry_ok (xt_max_var ?s) e" and ecl: "xt_eclause ?s = []" using x(2,3) by simp_all
  show thesis
  proof (rule that [OF p(1,3) restore_pass_subseq [OF p(2)]])
    show "\<forall>e \<in> set kept. entry_ok (xt_max_var t) e" using p(4,8) x(2) by auto
    show "reconstructible (F \<union> set ds \<union> added_clauses t) kept"
      using restore_pass_reconstructible [OF p(2) assms(7) ok ecl wc tc _ assms(9)] assms(8) e p(5) by simp
    show "models \<beta> (entry_clauses es)" if "models \<beta> (F \<union> set ds \<union> added_clauses t \<union> entry_clauses kept)" for \<beta>
      using restore_pass_implied [OF p(2) ok ecl assms(9)] that p(5) by simp
    show "added_clauses t \<subseteq> entry_clauses es" using added_mono [OF p(2) ok ecl] e p(5) by simp
  qed (use p in auto)
qed

end
