(* ===== verification/Extension_Main.thy ===== *)
theory Extension_Main
  imports Restore
begin

text \<open>
  The properties of the extension stack: extending completes an assignment of the simplified
  formula to a model of all clauses, walking the stack gives the pushed clauses back, restoring
  keeps models reconstructible and recomputes the witness bits, and the maps between external and
  internal variables stay inverse to each other.
\<close>

subsection \<open>Extending\<close>

text \<open>
  C32. When every clause on the stack was redundant at its removal for what was left, and the
  internal assignment satisfies the remaining clauses, \<open>extend\<close> returns and the external assignment
  satisfies the remaining and all removed clauses.
\<close>

theorem extend_satisfies:
  assumes "xt_extension s = stack es" "\<forall>e \<in> set es. entry_ok (xt_max_var s) e" "\<forall>c \<in> F. 0 \<notin> set c"
    "reconstructible F es" "models (xt_assignment (copy_values val s)) F"
  shows "\<exists>t. xt_extend val s = Some t \<and> models (xt_assignment t) (F \<union> entry_clauses es)"
proof -
  have "models (reconstruct es (xt_assignment (copy_values val s))) (F \<union> entry_clauses es)"
    using reconstruct_models [OF assms(4,5)] .
  moreover have "\<forall>c \<in> F \<union> entry_clauses es. 0 \<notin> set c"
    using assms(2,3) by (force simp: entry_clauses_def)
  ultimately show ?thesis using extend_models [OF assms(1,2)] by blast
qed

text \<open>Variable 3 was eliminated from the clauses 3 1 and -3 2.\<close>

definition extend_example :: External where
  "extend_example = (xt_init 3 xt_new)\<lparr>xt_extension := stack [([3], 7, [3, 1]), ([- 3], 8, [- 3, 2])]\<rparr>"

lemma redundant_example: "redundant {[1, 2]} [- 3] [- 3, 2]" "redundant ({[1, 2]} \<union> {[- 3, 2]}) [3] [3, 1]"
  by (auto simp: redundant_def set_lits_def lit_true_def)

lemma extend_example_simps:
  "xt_extension extend_example = stack [([3], 7, [3, 1]), ([- 3], 8, [- 3, 2])]" "xt_max_var extend_example = 3"
  "xt_e2i extend_example = [0, 1, 2, 3]" "xt_vals extend_example = []"
  by (simp_all add: extend_example_def xt_init_def xt_enlarge_def xt_new_def xt_grow.simps eval_simps)

theorem extend_satisfies_witness:
  "\<exists>t. xt_extend (\<lambda>i. if i = 1 then - 1 else 1) extend_example = Some t
    \<and> models (xt_assignment t) {[1, 2], [3, 1], [- 3, 2]}"
proof -
  let ?val = "\<lambda>i :: int. if i = 1 then - 1 else 1 :: int"
  have "xt_assignment (copy_values ?val extend_example) 2"
    using copy_values_assignment [of 2 extend_example ?val] by (simp add: extend_example_simps)
  then have "models (xt_assignment (copy_values ?val extend_example)) {[1, 2]}" by (simp add: lit_true_def)
  then show ?thesis
    using extend_satisfies [of extend_example "[([3], 7, [3, 1]), ([- 3], 8, [- 3, 2])]" "{[1, 2]}" ?val]
      redundant_example
    by (simp add: extend_example_simps insert_commute)
qed

subsection \<open>Traversing\<close>

text \<open>Pushing entries, and a visitor that collects what it is shown.\<close>

definition push_entries :: "entry list \<Rightarrow> External \<Rightarrow> External" where
  "push_entries = fold (\<lambda>(w, i, c). push_external_clause_and_witness_on_extension_stack c w i)"

definition collect :: "entry list visit" where
  "collect c w i es = (True, es @ [(w, i, c)])"

lemma push_entries_stack: "xt_extension (push_entries es s) = xt_extension s @ stack es"
proof (induction es arbitrary: s)
  case (Cons e es)
  obtain w i c where e: "e = (w, i, c)" by (cases e)
  show ?case using Cons [of "push_external_clause_and_witness_on_extension_stack c w i s"] push_external_layout [of c w i s]
    by (simp add: push_entries_def e)
qed (simp add: push_entries_def)

lemma visit_all_collect: "visit_all collect es a = (True, a @ map (\<lambda>(w, i, c). (w, stored_id i, c)) es)"
  by (induction es arbitrary: a) (auto simp: collect_def)

text \<open>
  C33. Traversing the stack forward shows the pushed clauses, witnesses and identifiers in the order
  they were pushed exactly when every identifier fits a signed 32-bit integer.
\<close>

theorem traversal_roundtrip:
  assumes "\<forall>e \<in> set es. entry_ok n e"
  shows "traverse_witnesses_forward False collect (push_entries es xt_new) [] = Some (True, es) \<longleftrightarrow>
    list_all (\<lambda>(w, i, c). - (2 ^ 31) \<le> sint i \<and> sint i < 2 ^ 31) es"
proof -
  have x: "xt_extension (push_entries es xt_new) = stack es" by (simp add: push_entries_stack) (simp add: xt_new_def)
  have "traverse_witnesses_forward False collect (push_entries es xt_new) [] =
      Some (True, map (\<lambda>(w, i, c). (w, stored_id i, c)) es)"
  proof (cases es)
    case Nil
    then show ?thesis using x by (simp add: traverse_witnesses_forward_def)
  next
    case (Cons e es')
    then obtain z r where "stack es = z # r" using lay_nonempty [of e] by (cases "stack es") auto
    then show ?thesis
      using forward_loop_entries [OF assms, of collect "[]"] Cons x
      by (simp add: traverse_witnesses_forward_def visit_all_collect)
  qed
  also have "\<dots> = Some (True, es) \<longleftrightarrow> (\<forall>e \<in> set es. (case e of (w, i, c) \<Rightarrow> (w, stored_id i, c)) = e)"
    by (simp add: map_idI list_eq_iff_nth_eq all_set_conv_all_nth)
  also have "\<dots> \<longleftrightarrow> list_all (\<lambda>(w, i, c). - (2 ^ 31) \<le> sint i \<and> sint i < 2 ^ 31) es"
    unfolding list_all_iff by (intro ball_cong refl) (auto simp: stored_id_iff split: prod.splits)
  finally show ?thesis .
qed

theorem traversal_roundtrip_witness:
  "traverse_witnesses_forward False collect (push_entries [([1], 2 ^ 40, [1, - 2])] xt_new) []
    \<noteq> Some (True, [([1], 2 ^ 40, [1, - 2])])"
  using traversal_roundtrip [of "[([1], 2 ^ 40, [1, - 2])]" 2] by simp

subsection \<open>Restoring\<close>

text \<open>
  C34. Restoring is sound.  Clauses are on the stack, new clauses are added, clauses are restored;
  literals the solver reports as fixed while restoring are implied by its clauses.  Then every
  assignment of the solver that satisfies the remaining, the new and the restored clauses is extended
  to a model that also satisfies every clause that was on the stack.
\<close>

theorem restore_sound:
  assumes "s = internalize_clauses ds s0" "xt_extension s0 = stack es" "\<forall>e \<in> set es. entry_ok (xt_max_var s0) e"
    "xt_eclause s0 = []" "xt_added s0 = []" "witness_covers es s0" "reconstructible F es" "\<forall>d \<in> F \<union> set ds. 0 \<notin> set d"
    "\<forall>u \<in> set (restore_states opts ifixed es (s\<lparr>xt_stats_restorations := xt_stats_restorations s + 1\<rparr>)).
       fixed_sound (F \<union> set ds) ifixed u"
    "restore_clauses opts ifixed s = Some t"
    "models (xt_assignment (copy_values val t)) (F \<union> set ds \<union> added_clauses t)"
  shows "\<exists>u. xt_extend val t = Some u \<and> models (xt_assignment u) (F \<union> set ds \<union> entry_clauses es)"
proof -
  from restore_round [OF assms(1-9)] assms(10) obtain kept where
    k: "xt_extension t = stack kept" "\<forall>e \<in> set kept. entry_ok (xt_max_var t) e"
      "reconstructible (F \<union> set ds \<union> added_clauses t) kept" "added_clauses t \<subseteq> entry_clauses es"
      "\<And>\<beta>. models \<beta> (F \<union> set ds \<union> added_clauses t \<union> entry_clauses kept) \<Longrightarrow> models \<beta> (entry_clauses es)"
    by (metis option.inject)
  have "models (reconstruct kept (xt_assignment (copy_values val t))) (F \<union> set ds \<union> entry_clauses es)"
    using reconstruct_models [OF k(3) assms(11)] k(5) by simp
  moreover have "\<forall>c \<in> F \<union> set ds \<union> entry_clauses es. 0 \<notin> set c"
    using assms(3,8) by (force simp: entry_clauses_def)
  ultimately show ?thesis using extend_models [OF k(1,2)] by blast
qed

text \<open>The new clause -3 needs the first clause of the example back and satisfies the second, which is flushed.\<close>

definition restore_example :: External where
  "restore_example = push_entries [([3], 7, [3, 1]), ([- 3], 8, [- 3, 2])] (xt_init 3 xt_new)"

lemma restore_example_simps:
  "xt_extension restore_example = [0, 3, 0, 0, 7, 0, 3, 1, 0, - 3, 0, 0, 8, 0, - 3, 2]" "xt_max_var restore_example = 3"
  "xt_e2i restore_example = [0, 1, 2, 3]" "xt_vals restore_example = []" "xt_added restore_example = []"
  "xt_eclause restore_example = []" "xt_witness restore_example = [False, False, False, False, True, True]"
  "xt_tainted restore_example = []" "xt_i2e restore_example = [0, 1, 2, 3]"
  "xt_ext_units restore_example = replicate 8 0" "xt_ext_flags restore_example = replicate 4 False"
  by (simp_all add: restore_example_def push_entries_def push_external_clause_and_witness_on_extension_stack_def
      id_higher_zero id_lower_ucast xt_mark_def elit2ulit_def resize_def
      xt_init_def xt_enlarge_def xt_new_def xt_grow.simps eval_simps)

definition restore_example_opts :: restore_opts where
  "restore_example_opts = \<lparr>ro_restoreall = 0, ro_restoreflush = True, ro_lrat = False\<rparr>"

definition restore_example_fixed :: "restored list \<Rightarrow> int \<Rightarrow> int" where
  "restore_example_fixed added i = (if i = - 3 then 1 else if i = 3 then - 1 else 0)"

lemmas restore_eval =
  restore_clauses_def restore_loop.simps restore_clause_def restore_example_opts_def tainted_witness_def satisfied_literal_def
  xt_fixed_def restore_example_fixed_def xt_internalize_def elit2ulit_def xt_marked_def xt_mark_def resize_def
  witness_loop.simps internalize_clauses_def join_id_def

lemma restore_example_run:
  "\<exists>t. restore_clauses restore_example_opts restore_example_fixed (internalize_clauses [[- 3]] restore_example) = Some t
    \<and> xt_added t = [(7, [3, 1], [3, 1], [])] \<and> xt_e2i t = [0, 1, 2, 3] \<and> xt_vals t = [] \<and> xt_max_var t = 3"
  by (simp add: restore_eval restore_example_simps eval_simps cong: eval_congs)

definition restore_example_entries :: "entry list" where
  "restore_example_entries = [([3], 7, [3, 1]), ([- 3], 8, [- 3, 2])]"

lemma restore_example_stack: "xt_extension restore_example = stack restore_example_entries"
  by (simp add: restore_example_simps restore_example_entries_def id_higher_zero id_lower_ucast)

lemma restore_example_states:
  "\<forall>u \<in> set (restore_states restore_example_opts restore_example_fixed restore_example_entries
      (internalize_clauses [[- 3]] restore_example\<lparr>xt_stats_restorations :=
        xt_stats_restorations (internalize_clauses [[- 3]] restore_example) + 1\<rparr>)).
     fixed_sound ({[1, 2]} \<union> set [[- 3]]) restore_example_fixed u"
proof -
  let ?s = "internalize_clauses [[- 3]] restore_example"
  have "fixed_sound ({[1, 2]} \<union> set [[- 3]]) restore_example_fixed u" if "xt_e2i u = [0, 1, 2, 3]" "xt_max_var u = 3" for u
    unfolding fixed_sound_def
  proof (intro allI impI)
    fix l assume l: "l \<noteq> 0" "xt_fixed (restore_example_fixed (xt_added u)) u l > 0"
    then have "\<bar>l\<bar> = 1 \<or> \<bar>l\<bar> = 2 \<or> \<bar>l\<bar> = 3" using that by (auto simp: xt_fixed_def Let_def split: if_splits)
    then have "l = - 3" using l that by (auto simp: xt_fixed_def Let_def restore_example_fixed_def abs_if split: if_splits)
    then show "entails ({[1, 2]} \<union> set [[- 3]] \<union> added_clauses u) [l]"
      by (auto simp: entails_def)
  qed
  moreover have "list_all (\<lambda>u. xt_e2i u = [0, 1, 2, 3] \<and> xt_max_var u = 3)
      (restore_states restore_example_opts restore_example_fixed restore_example_entries (?s\<lparr>xt_stats_restorations := xt_stats_restorations ?s + 1\<rparr>))"
    by (simp add: restore_eval restore_example_entries_def restore_satisfied_def restore_tainted_def restore_example_simps eval_simps cong: eval_congs)
  ultimately show ?thesis by (simp add: list_all_iff)
qed

theorem restore_sound_witness:
  "\<exists>t u. restore_clauses restore_example_opts restore_example_fixed (internalize_clauses [[- 3]] restore_example) = Some t
    \<and> xt_extend (\<lambda>i. if i = 1 then 1 else - 1) t = Some u
    \<and> models (xt_assignment u) {[1, 2], [- 3], [3, 1], [- 3, 2]}"
proof -
  let ?s = "internalize_clauses [[- 3]] restore_example"
  let ?val = "\<lambda>i :: int. if i = 1 then 1 else - 1 :: int"
  obtain t where t: "restore_clauses restore_example_opts restore_example_fixed ?s = Some t"
    "xt_added t = [(7, [3, 1], [3, 1], [])]" "xt_e2i t = [0, 1, 2, 3]" "xt_vals t = []" "xt_max_var t = 3"
    using restore_example_run by blast
  have v: "xt_assignment (copy_values ?val t) 1" "\<not> xt_assignment (copy_values ?val t) 3"
    using copy_values_assignment [of 1 t ?val] copy_values_assignment [of 3 t ?val] t by simp_all
  have "\<exists>u. xt_extend ?val t = Some u \<and> models (xt_assignment u) ({[1, 2]} \<union> set [[- 3]] \<union> entry_clauses restore_example_entries)"
    using v t redundant_example
    by (intro restore_sound [OF refl _ _ _ _ _ _ _ restore_example_states t(1)])
      (auto simp: restore_example_stack restore_example_entries_def restore_example_simps witness_covers_def xt_marked_def elit2ulit_def eval_simps added_clauses_def lit_true_def)
  then show ?thesis using t(1) by (auto simp: restore_example_entries_def)
qed

text \<open>
  C35. Restoring returns and leaves a stack for the next round: a subsequence of the old one whose
  entries are reconstructible for all clauses the solver has now, with a witness bit exactly for the
  literals that are still witnesses and no literal tainted.
\<close>

theorem restore_keeps_stack:
  assumes "s = internalize_clauses ds s0" "xt_extension s0 = stack es" "\<forall>e \<in> set es. entry_ok (xt_max_var s0) e"
    "xt_eclause s0 = []" "xt_added s0 = []" "witness_covers es s0" "reconstructible F es" "\<forall>d \<in> F \<union> set ds. 0 \<notin> set d"
    "\<forall>u \<in> set (restore_states opts ifixed es (s\<lparr>xt_stats_restorations := xt_stats_restorations s + 1\<rparr>)).
       fixed_sound (F \<union> set ds) ifixed u"
  shows "\<exists>t kept. restore_clauses opts ifixed s = Some t \<and> xt_extension t = stack kept \<and> subseq kept es
    \<and> reconstructible (F \<union> set ds \<union> added_clauses t) kept \<and> xt_tainted t = [] \<and> xt_eclause t = []
    \<and> (\<forall>k. k \<noteq> 0 \<longrightarrow> xt_marked (xt_witness t) k \<longleftrightarrow> (\<exists>(w, i, c) \<in> set kept. k \<in> set w))"
  using restore_round [OF assms] by metis

theorem restore_keeps_stack_witness:
  "\<exists>t kept. restore_clauses restore_example_opts restore_example_fixed (internalize_clauses [[- 3]] restore_example) = Some t
    \<and> xt_extension t = stack kept \<and> subseq kept restore_example_entries
    \<and> reconstructible ({[1, 2]} \<union> set [[- 3]] \<union> added_clauses t) kept \<and> xt_tainted t = []"
proof -
  have "\<exists>t kept. restore_clauses restore_example_opts restore_example_fixed (internalize_clauses [[- 3]] restore_example) = Some t
      \<and> xt_extension t = stack kept \<and> subseq kept restore_example_entries
      \<and> reconstructible ({[1, 2]} \<union> set [[- 3]] \<union> added_clauses t) kept \<and> xt_tainted t = [] \<and> xt_eclause t = []
      \<and> (\<forall>k. k \<noteq> 0 \<longrightarrow> xt_marked (xt_witness t) k \<longleftrightarrow> (\<exists>(w, i, c) \<in> set kept. k \<in> set w))"
    using redundant_example
    by (intro restore_keeps_stack [OF refl restore_example_stack _ _ _ _ _ _ restore_example_states])
      (auto simp: restore_example_entries_def restore_example_simps witness_covers_def xt_marked_def elit2ulit_def eval_simps)
  then show ?thesis by blast
qed

subsection \<open>External and internal variables\<close>

text \<open>Two maps between variables, inverse to each other where a variable is mapped.\<close>

definition inverse_maps :: "int list \<Rightarrow> int list \<Rightarrow> bool" where
  "inverse_maps e i \<longleftrightarrow> e \<noteq> [] \<and> i \<noteq> []
     \<and> (\<forall>v. 0 < v \<longrightarrow> v < length e \<longrightarrow> e ! v \<noteq> 0 \<longrightarrow>
          0 < e ! v \<and> nat (e ! v) < length i \<and> i ! nat (e ! v) = int v)
     \<and> (\<forall>j. 0 < j \<longrightarrow> j < length i \<longrightarrow> 0 < i ! j \<and> nat (i ! j) < length e \<and> e ! nat (i ! j) = int j)"

definition xt_wf :: "External \<Rightarrow> bool" where
  "xt_wf s \<longleftrightarrow>
     (if xt_max_var s = 0 then xt_e2i s = [] \<and> xt_ext_units s = [] \<and> xt_ext_flags s = [] \<and> xt_i2e s = []
      else 0 < xt_max_var s \<and> xt_max_var s < int (xt_vsize s) \<and> int (length (xt_e2i s)) = xt_max_var s + 1
        \<and> int (length (xt_ext_units s)) = 2 * xt_max_var s + 2 \<and> int (length (xt_ext_flags s)) = xt_max_var s + 1
        \<and> inverse_maps (xt_e2i s) (xt_i2e s))"

lemma inverse_maps_single: "inverse_maps [0] [0]"
  by (simp add: inverse_maps_def)

lemma inverse_maps_append:
  assumes "inverse_maps e i"
  shows "inverse_maps (e @ map (\<lambda>j. int (length i) + int j) [0..<k]) (i @ map (\<lambda>j. int (length e) + int j) [0..<k])"
proof -
  have "0 < length e" "0 < length i" using assms by (simp_all add: inverse_maps_def)
  moreover have n: "nat (int x + int y) = x + y" for x y by simp
  ultimately show ?thesis
    using assms unfolding inverse_maps_def
    by (auto simp: nth_append n split: if_splits intro: trans_less_add1)
qed

lemma inverse_maps_new:
  assumes "inverse_maps e i" "0 < v" "v < length e" "e ! v = 0"
  shows "inverse_maps (e[v := int (length i)]) (i @ [int v])"
proof -
  have "nat (i ! j) \<noteq> v" if "0 < j" "j < length i" for j
    using assms that unfolding inverse_maps_def by (metis of_nat_0_eq_iff not_gr_zero)
  moreover have "0 < length i" using assms by (simp add: inverse_maps_def)
  ultimately show ?thesis
    using assms unfolding inverse_maps_def by (auto simp: nth_append nth_list_update intro: less_SucI)
qed

lemma xt_grow_greater: "0 < v \<Longrightarrow> n < xt_grow n v"
  by (induction n v rule: xt_grow.induct) (subst xt_grow.simps, auto)

lemma enlarge_vsize: "0 \<le> n \<Longrightarrow> n < int (xt_vsize (xt_enlarge n s))"
proof -
  assume "0 \<le> n"
  moreover have "nat n < xt_vsize (xt_enlarge n s)"
    unfolding xt_enlarge_def Let_def by simp (intro conjI impI xt_grow_greater; simp)
  ultimately show ?thesis by linarith
qed

lemma init_wf:
  assumes "xt_wf s" "xt_max_var s < n"
  shows "xt_wf (xt_init n s)" "xt_max_var (xt_init n s) = n"
proof -
  show mv: "xt_max_var (xt_init n s) = n" using assms(2) by (simp add: xt_init_def xt_enlarge_def Let_def)
  define e where "e = (if xt_max_var s = 0 then [0] else xt_e2i s)"
  define i where "i = (if xt_max_var s = 0 then [0] else xt_i2e s)"
  define k where "k = nat (n - xt_max_var s)"
  have pos: "0 \<le> xt_max_var s" "0 < n" using assms by (auto simp: xt_wf_def split: if_splits)
  have inv: "inverse_maps e i" using assms(1) inverse_maps_single by (simp add: xt_wf_def e_def i_def)
  have le: "int (length e) = xt_max_var s + 1" using assms(1) by (simp add: xt_wf_def e_def)
  have "xt_e2i (xt_init n s) = e @ map (\<lambda>j. int (length i) + int j) [0..<k]"
    "xt_i2e (xt_init n s) = i @ map (\<lambda>j. int (length e) + int j) [0..<k]"
    using assms le by (auto simp: xt_init_def xt_enlarge_def Let_def e_def i_def k_def xt_wf_def split: if_splits)
  then have "inverse_maps (xt_e2i (xt_init n s)) (xt_i2e (xt_init n s))" "int (length (xt_e2i (xt_init n s))) = n + 1"
    using inverse_maps_append [OF inv, of k] le assms(2) by (simp_all add: k_def)
  moreover have "int (length (xt_ext_units (xt_init n s))) = 2 * n + 2" "int (length (xt_ext_flags (xt_init n s))) = n + 1"
    using assms by (auto simp: xt_init_def xt_enlarge_def Let_def xt_wf_def split: if_splits)
  moreover have "n < int (xt_vsize (xt_init n s))"
    using enlarge_vsize [of n s] assms(2) pos by (auto simp: xt_init_def Let_def)
  ultimately show "xt_wf (xt_init n s)" using mv pos by (simp add: xt_wf_def)
qed

text \<open>
  C36. From a well-formed state, \<open>internalize\<close> grows the maps so that the literal has an internal
  one that externalizes back to it, keeps the maps well-formed, and keeps the meaning of all internal
  literals there were.
\<close>

theorem internalize_wf:
  assumes "xt_wf s" "elit \<noteq> 0" "xt_internalize elit s = (ilit, t)"
  shows "xt_wf t \<and> \<bar>elit\<bar> \<le> xt_max_var t \<and> ilit \<noteq> 0 \<and> xt_externalize t ilit = elit
    \<and> take (length (xt_i2e s)) (xt_i2e t) = xt_i2e s"
proof -
  define u where "u = (if \<bar>elit\<bar> > xt_max_var s then xt_init \<bar>elit\<bar> s else s)"
  define v where "v = nat \<bar>elit\<bar>"
  have u: "xt_wf u" "\<bar>elit\<bar> \<le> xt_max_var u" using init_wf [OF assms(1), of "\<bar>elit\<bar>"] assms(1) by (auto simp: u_def)
  have pre: "take (length (xt_i2e s)) (xt_i2e u) = xt_i2e s"
    by (simp add: u_def xt_init_def xt_enlarge_def Let_def)
  have inv: "inverse_maps (xt_e2i u) (xt_i2e u)" "0 < v" "v < length (xt_e2i u)"
    using u assms(2) by (auto simp: xt_wf_def v_def split: if_splits)
  define w where "w = (if xt_e2i u ! v = 0
    then u\<lparr>xt_e2i := (xt_e2i u)[v := int (length (xt_i2e u))], xt_i2e := xt_i2e u @ [\<bar>elit\<bar>]\<rparr> else u)"
  have w: "xt_wf w" "xt_max_var w = xt_max_var u" "take (length (xt_i2e u)) (xt_i2e w) = xt_i2e u"
    using u inverse_maps_new [OF inv] assms(2) by (auto simp: w_def xt_wf_def v_def)
  have inv': "inverse_maps (xt_e2i w) (xt_i2e w)" using w(1,2) u(2) assms(2) by (auto simp: xt_wf_def)
  have nz: "xt_e2i w ! v \<noteq> 0" "v < length (xt_e2i w)" using inv by (auto simp: w_def inverse_maps_def)
  then have pos: "0 < xt_e2i w ! v" "xt_i2e w ! nat (xt_e2i w ! v) = \<bar>elit\<bar>"
    using inv' inv(2) by (auto simp: inverse_maps_def v_def)
  have r: "ilit = (if elit < 0 then - xt_e2i w ! v else xt_e2i w ! v)" "xt_max_var t = xt_max_var w"
    "xt_e2i t = xt_e2i w" "xt_i2e t = xt_i2e w" "xt_vsize t = xt_vsize w" "xt_ext_units t = xt_ext_units w"
    "xt_ext_flags t = xt_ext_flags w"
    using assms(2,3) inv(3) unfolding xt_internalize_def Let_def u_def [symmetric] v_def [symmetric]
    by (auto simp: w_def split: if_splits)
  have "xt_wf t" using w(1) r by (simp add: xt_wf_def)
  moreover have "xt_externalize t ilit = elit" using pos by (auto simp: xt_externalize_def Let_def r)
  moreover have "take (length (xt_i2e s)) (xt_i2e t) = xt_i2e s"
  proof -
    have "length (xt_i2e s) \<le> length (xt_i2e u)" using pre by (metis nat_le_linear take_all length_take min.cobounded1)
    then show ?thesis using pre w(3) by (metis r(4) take_take min.absorb1)
  qed
  ultimately show ?thesis using u(2) w(2) r pos by simp
qed

theorem internalize_wf_witness:
  "xt_externalize (snd (xt_internalize (- 5) xt_new)) (fst (xt_internalize (- 5) xt_new)) = - 5"
  using internalize_wf [of xt_new "- 5" "fst (xt_internalize (- 5) xt_new)" "snd (xt_internalize (- 5) xt_new)"]
  by (simp add: xt_wf_def xt_new_def)

end
