(* ===== verification/Cdcl.thy ===== *)
theory Cdcl
  imports Decide
begin

text \<open>
  The search state of the solver (\<^verbatim>\<open>internal.hpp\<close>, \<^verbatim>\<open>var.hpp\<close>, \<^verbatim>\<open>level.hpp\<close>, \<^verbatim>\<open>watch.hpp\<close>,
  \<^verbatim>\<open>clause.hpp\<close>), assigning literals and propagating them over watches (\<^verbatim>\<open>propagate.cpp\<close>), also out of
  the order of their levels, as chronological backtracking needs it.

  Clauses live in a memory \<open>nt_mem\<close> from addresses to clauses; tables indexed by variables or
  literals are functions.  The values of variables are those of the decision heuristics' state, so
  that assigning and unassigning here act on the queue and the heap of \<open>Decide\<close>.  No external
  propagator is connected (\<^verbatim>\<open>external_prop\<close> is false, the notifications return at once), and no
  trail is kept for incremental solving (\<^verbatim>\<open>tainted_literal\<close> is 0).
\<close>

subsection \<open>State\<close>

text \<open>The pointer \<^verbatim>\<open>reason\<close>: null, one of the two pseudo reasons, or a clause.\<close>

datatype reason = No_reason | Decision_reason | External_reason | Clause_reason nat

record Var =
  va_level :: nat
  va_trail :: nat
  va_reason :: reason

definition int_max :: nat where
  "int_max = 2147483647"

record Level =
  lv_decision :: int
  lv_trail :: nat
  lv_seen_count :: nat
  lv_seen_trail :: nat

definition level_reset :: "Level \<Rightarrow> Level" where
  "level_reset l = l\<lparr>lv_seen_count := 0, lv_seen_trail := int_max\<rparr>"

definition new_level :: "int \<Rightarrow> nat \<Rightarrow> Level" where
  "new_level d t = \<lparr>lv_decision = d, lv_trail = t, lv_seen_count = 0, lv_seen_trail = int_max\<rparr>"

record Watch =
  wa_clause :: nat
  wa_blit :: int
  wa_size :: nat

record SClause =
  so_id :: "64 word"
  so_garbage :: bool
  so_hyper :: bool
  so_keep :: bool
  so_redundant :: bool
  so_used :: nat
  so_glue :: int
  so_pos :: nat
  so_literals :: "int list"

datatype var_status = UNUSED | ACTIVE | FIXED | ELIMINATED | SUBSTITUTED | PURE

record Flags =
  fg_seen :: bool
  fg_keep :: bool
  fg_poison :: bool
  fg_removable :: bool
  fg_shrinkable :: bool
  fg_added :: bool
  fg_status :: var_status

record Phases =
  ph_saved :: "nat \<Rightarrow> int"
  ph_forced :: "nat \<Rightarrow> int"
  ph_target :: "nat \<Rightarrow> int"
  ph_best :: "nat \<Rightarrow> int"

text \<open>What goes to the proof: identifier, literals and chain of each derived clause.\<close>

type_synonym derived = "64 word \<times> int list \<times> 64 word list"

record Proof_state =
  pf_lrat :: bool
  pf_clause_id :: "64 word"
  pf_conflict_id :: "64 word"
  pf_conclusion :: "64 word list"
  pf_unit_clauses :: "int \<Rightarrow> 64 word"
  pf_lrat_chain :: "64 word list"
  pf_unit_chain :: "64 word list"
  pf_derived :: "derived list"

record Analysis =
  an_clause :: "int list"
  an_analyzed :: "int list"
  an_unit_analyzed :: "int list"
  an_levels :: "nat list"
  an_minimized :: "int list"
  an_gtab :: "nat \<Rightarrow> int"

record cdcl_opts =
  co_chrono :: int
  co_chronoalways :: bool
  co_chronolevelim :: int
  co_chronoreusetrail :: bool
  co_score :: bool
  co_phase :: bool
  co_forcephase :: bool
  co_target :: int
  co_reducetier1glue :: int
  co_reducetier2glue :: int
  co_minimizedepth :: nat
  co_radixsortlim :: nat
  co_otfs :: bool
  co_shrink :: bool
  co_minimize :: bool
  co_bump :: bool
  co_bumpreason :: bool
  co_bumpreasondepth :: nat
  co_scorefactor :: int
  co_eagersubsume :: bool
  co_eagersubsumelim :: int
  co_restartreusetrail :: bool

record cdcl_stats =
  cn_conflicts :: int
  cn_stabconflicts :: int
  cn_propagations :: int
  cn_backtracks :: int
  cn_chrono :: int
  cn_decisions :: int
  cn_fixed :: int
  cn_recomputed :: int
  cn_promoted1 :: int
  cn_promoted2 :: int
  cn_improvedglue :: int
  cn_minimized :: int
  cn_eagertried :: int
  cn_eagersub :: int
  cn_subsumed :: int
  cn_rescored :: int
  cn_restarts :: int

record Assume =
  as_assumptions :: "int list"
  as_constraint :: "int list"
  as_unsat_constraint :: bool
  as_marked_failed :: bool

record 'v Internal =
  nt_max_var :: nat
  nt_level :: nat
  nt_unsat :: bool
  nt_stable :: bool
  nt_searching_lucky_phases :: bool
  nt_force_saved_phase :: bool
  nt_iterating :: bool
  nt_rephased :: "char option"
  nt_rephase_conflicts :: int
  nt_decide :: "'v Decide"
  nt_score_inc :: 'v
  nt_phases :: Phases
  nt_vtab :: "nat \<Rightarrow> Var"
  nt_ftab :: "nat \<Rightarrow> Flags"
  nt_wtab :: "int \<Rightarrow> Watch list"
  nt_mem :: "nat \<rightharpoonup> SClause"
  nt_next_addr :: nat
  nt_clauses :: "nat list"
  nt_conflict :: "nat option"
  nt_propagated :: nat
  nt_propagated2 :: nat
  nt_propergated :: nat
  nt_best_assigned :: nat
  nt_target_assigned :: nat
  nt_no_conflict_until :: nat
  nt_trail :: "int list"
  nt_control :: "Level list"
  nt_proof :: Proof_state
  nt_an :: Analysis
  nt_as :: Assume
  nt_opts :: cdcl_opts
  nt_stats :: cdcl_stats

subsection \<open>Access\<close>

definition vidx :: "int \<Rightarrow> nat" where
  "vidx lit = nat \<bar>lit\<bar>"

definition nt_vals :: "'v Internal \<Rightarrow> nat \<Rightarrow> int" where
  "nt_vals s = vq_vals (dc_queue (nt_decide s))"

definition nt_val :: "'v Internal \<Rightarrow> int \<Rightarrow> int" where
  "nt_val s lit = (if lit < 0 then - nt_vals s (vidx lit) else nt_vals s (vidx lit))"

definition nt_set_val :: "nat \<Rightarrow> int \<Rightarrow> 'v Internal \<Rightarrow> 'v Internal" where
  "nt_set_val idx v s =
     s\<lparr>nt_decide := (nt_decide s)\<lparr>dc_queue := assign_var idx v (dc_queue (nt_decide s))\<rparr>\<rparr>"

definition nt_var :: "'v Internal \<Rightarrow> int \<Rightarrow> Var" where
  "nt_var s lit = nt_vtab s (vidx lit)"

definition nt_flags :: "'v Internal \<Rightarrow> int \<Rightarrow> Flags" where
  "nt_flags s lit = nt_ftab s (vidx lit)"

definition nt_set_flags :: "int \<Rightarrow> (Flags \<Rightarrow> Flags) \<Rightarrow> 'v Internal \<Rightarrow> 'v Internal" where
  "nt_set_flags lit f s = s\<lparr>nt_ftab := (nt_ftab s)(vidx lit := f (nt_ftab s (vidx lit)))\<rparr>"

definition nt_fixed :: "'v Internal \<Rightarrow> int \<Rightarrow> int" where
  "nt_fixed s lit =
     (let idx = vidx lit; res = nt_vals s idx;
          res = (if res \<noteq> 0 \<and> va_level (nt_vtab s idx) \<noteq> 0 then 0 else res)
      in if lit < 0 then - res else res)"

definition nt_deref :: "'v Internal \<Rightarrow> nat \<Rightarrow> SClause" where
  "nt_deref s a = the (nt_mem s a)"

definition nt_store :: "nat \<Rightarrow> SClause \<Rightarrow> 'v Internal \<Rightarrow> 'v Internal" where
  "nt_store a c s = s\<lparr>nt_mem := (nt_mem s)(a \<mapsto> c)\<rparr>"

definition nt_literals :: "'v Internal \<Rightarrow> nat \<Rightarrow> int list" where
  "nt_literals s a = so_literals (nt_deref s a)"

definition watch_literal :: "int \<Rightarrow> int \<Rightarrow> nat \<Rightarrow> 'v Internal \<Rightarrow> 'v Internal" where
  "watch_literal lit blit a s =
     s\<lparr>nt_wtab := (nt_wtab s)(lit := nt_wtab s lit @
         [\<lparr>wa_clause = a, wa_blit = blit, wa_size = length (nt_literals s a)\<rparr>])\<rparr>"

definition watch_clause :: "nat \<Rightarrow> 'v Internal \<Rightarrow> 'v Internal" where
  "watch_clause a s =
     (let l0 = nt_literals s a ! 0; l1 = nt_literals s a ! 1
      in watch_literal l1 l0 a (watch_literal l0 l1 a s))"

definition nt_count :: "(cdcl_stats \<Rightarrow> cdcl_stats) \<Rightarrow> 'v Internal \<Rightarrow> 'v Internal" where
  "nt_count f s = s\<lparr>nt_stats := f (nt_stats s)\<rparr>"

definition nt_log :: "(Proof_state \<Rightarrow> Proof_state) \<Rightarrow> 'v Internal \<Rightarrow> 'v Internal" where
  "nt_log f s = s\<lparr>nt_proof := f (nt_proof s)\<rparr>"

subsection \<open>Assigning\<close>

definition assignment_level :: "int \<Rightarrow> reason \<Rightarrow> 'v Internal \<Rightarrow> nat" where
  "assignment_level lit reason s =
     (case reason of
        Clause_reason a \<Rightarrow>
          fold (\<lambda>other res. if other = lit then res else max res (va_level (nt_var s other))) (nt_literals s a) 0
      | _ \<Rightarrow> nt_level s)"

definition unit_id :: "'v Internal \<Rightarrow> int \<Rightarrow> 64 word" where
  "unit_id s lit = pf_unit_clauses (nt_proof s) lit"

definition build_chain_for_units :: "int \<Rightarrow> nat \<Rightarrow> bool \<Rightarrow> 'v Internal \<Rightarrow> 'v Internal" where
  "build_chain_for_units lit a forced s =
     (if \<not> pf_lrat (nt_proof s) then s
      else if co_chrono (nt_opts s) \<noteq> 0 \<and> assignment_level lit (Clause_reason a) s \<noteq> 0 \<and> \<not> forced then s
      else if co_chrono (nt_opts s) = 0 \<and> nt_level s \<noteq> 0 \<and> \<not> forced then s
      else nt_log (\<lambda>p. p\<lparr>pf_lrat_chain := pf_lrat_chain p @
             map (\<lambda>l. unit_id s (nt_val s l * l)) (filter (\<lambda>l. l \<noteq> lit \<and> nt_val s l \<noteq> 0) (nt_literals s a))
             @ [so_id (nt_deref s a)]\<rparr>) s)"

definition build_chain_for_empty :: "'v Internal \<Rightarrow> 'v Internal" where
  "build_chain_for_empty s =
     (if \<not> pf_lrat (nt_proof s) \<or> pf_lrat_chain (nt_proof s) \<noteq> [] then s
      else (let a = the (nt_conflict s)
            in nt_log (\<lambda>p. p\<lparr>pf_lrat_chain := map (\<lambda>l. unit_id s (- l)) (nt_literals s a) @ [so_id (nt_deref s a)]\<rparr>) s))"

definition mark_fixed :: "int \<Rightarrow> 'v Internal \<Rightarrow> 'v Internal" where
  "mark_fixed lit s =
     nt_count (\<lambda>n. n\<lparr>cn_fixed := cn_fixed n + 1\<rparr>) (nt_set_flags lit (\<lambda>f. f\<lparr>fg_status := FIXED\<rparr>) s)"

definition learn_unit_clause :: "int \<Rightarrow> 'v Internal \<Rightarrow> 'v Internal" where
  "learn_unit_clause lit s =
     (let i = pf_clause_id (nt_proof s) + 1;
          s = nt_log (\<lambda>p. p\<lparr>pf_clause_id := i, pf_unit_clauses := (pf_unit_clauses p)(lit := i),
                 pf_derived := pf_derived p @ [(i, [lit], pf_lrat_chain p)]\<rparr>) s
      in mark_fixed lit s)"

definition learn_empty_clause :: "'v Internal \<Rightarrow> 'v Internal" where
  "learn_empty_clause s =
     (let s = build_chain_for_empty s;
          i = pf_clause_id (nt_proof s) + 1;
          s = nt_log (\<lambda>p. p\<lparr>pf_clause_id := i, pf_derived := pf_derived p @ [(i, [], pf_lrat_chain p)],
                 pf_conflict_id := i, pf_conclusion := pf_conclusion p @ [i], pf_lrat_chain := []\<rparr>) s
      in s\<lparr>nt_unsat := True, nt_as := (nt_as s)\<lparr>as_marked_failed := True\<rparr>\<rparr>)"

definition sign :: "int \<Rightarrow> int" where
  "sign lit = (if lit > 0 then 1 else if lit < 0 then - 1 else 0)"

definition search_assign :: "int \<Rightarrow> reason \<Rightarrow> 'v Internal \<Rightarrow> 'v Internal" where
  "search_assign lit reason s =
     (let idx = vidx lit;
          from_external = (reason = External_reason);
          lit_level = (case reason of
              No_reason \<Rightarrow> 0
            | Decision_reason \<Rightarrow> nt_level s
            | _ \<Rightarrow> if co_chrono (nt_opts s) \<noteq> 0 then assignment_level lit reason s else nt_level s);
          reason = (if reason = Decision_reason \<or> lit_level = 0 then No_reason else reason);
          s = s\<lparr>nt_vtab := (nt_vtab s)(idx := \<lparr>va_level = lit_level, va_trail = length (nt_trail s), va_reason = reason\<rparr>),
                nt_decide := (nt_decide s)\<lparr>dc_num_assigned := dc_num_assigned (nt_decide s) + 1\<rparr>\<rparr>;
          s = (if lit_level = 0 \<and> \<not> from_external then learn_unit_clause lit s else s);
          s = nt_set_val idx (sign lit) s;
          s = (if nt_searching_lucky_phases s then s
               else s\<lparr>nt_phases := (nt_phases s)\<lparr>ph_saved := (ph_saved (nt_phases s))(idx := sign lit)\<rparr>\<rparr>);
          s = s\<lparr>nt_trail := nt_trail s @ [lit]\<rparr>
      in nt_log (\<lambda>p. p\<lparr>pf_lrat_chain := []\<rparr>) s)"

definition assign_unit :: "int \<Rightarrow> 'v Internal \<Rightarrow> 'v Internal" where
  "assign_unit lit s = search_assign lit No_reason s"

definition new_trail_level :: "int \<Rightarrow> 'v Internal \<Rightarrow> 'v Internal" where
  "new_trail_level lit s =
     s\<lparr>nt_level := nt_level s + 1, nt_control := nt_control s @ [new_level lit (length (nt_trail s))]\<rparr>"

definition search_assume_decision :: "int \<Rightarrow> 'v Internal \<Rightarrow> 'v Internal" where
  "search_assume_decision lit s = search_assign lit Decision_reason (new_trail_level lit s)"

text \<open>A driving clause that is null makes a unit.\<close>

definition search_assign_driving :: "int \<Rightarrow> nat option \<Rightarrow> 'v Internal \<Rightarrow> 'v Internal" where
  "search_assign_driving lit c s =
     search_assign lit (case c of None \<Rightarrow> No_reason | Some a \<Rightarrow> Clause_reason a) s"

subsection \<open>Propagating\<close>

text \<open>
  The search for a replacement of a falsified watch, from the saved position to the end and then
  from the third literal up to the saved position: the index where it stops and the value there,
  negative when there is none.
\<close>

definition find_replacement :: "(int \<Rightarrow> int) \<Rightarrow> int list \<Rightarrow> nat \<Rightarrow> nat \<times> int" where
  "find_replacement val lits pos =
     (case List.find (\<lambda>k. val (lits ! k) \<ge> 0) [pos..<length lits] of
        Some k \<Rightarrow> (k, val (lits ! k))
      | None \<Rightarrow>
          (case List.find (\<lambda>k. val (lits ! k) \<ge> 0) [2..<pos] of
             Some k \<Rightarrow> (k, val (lits ! k))
           | None \<Rightarrow> (pos, - 1)))"

text \<open>
  The loop over the watches of \<open>lit\<close>, the negation of the propagated literal: the watches kept so
  far and the state.
\<close>

fun propagate_lit :: "int \<Rightarrow> Watch list \<Rightarrow> Watch list \<Rightarrow> 'v Internal \<Rightarrow> Watch list \<times> 'v Internal" where
  "propagate_lit lit [] js s = (js, s)"
| "propagate_lit lit (w # is) js s =
     (let b = nt_val s (wa_blit w); a = wa_clause w in
      if b > 0 then propagate_lit lit is (js @ [w]) s
      else if wa_size w = 2 then
        (if b < 0 then propagate_lit lit is (js @ [w]) (s\<lparr>nt_conflict := Some a\<rparr>)
         else propagate_lit lit is (js @ [w])
                (search_assign (wa_blit w) (Clause_reason a) (build_chain_for_units (wa_blit w) a False s)))
      else if nt_conflict s \<noteq> None then (js @ w # is, s)
      else if so_garbage (nt_deref s a) then propagate_lit lit is js s
      else
        (let lits = nt_literals s a;
             other = (lits ! 0 XOR lits ! 1) XOR lit;
             u = nt_val s other in
         if u > 0 then propagate_lit lit is (js @ [w\<lparr>wa_blit := other\<rparr>]) s
         else
           (let size = length lits;
                (k, v) = find_replacement (nt_val s) lits (so_pos (nt_deref s a));
                s = nt_store a ((nt_deref s a)\<lparr>so_pos := k\<rparr>) s in
            if v > 0 then propagate_lit lit is (js @ [w\<lparr>wa_blit := lits ! k\<rparr>]) s
            else if v = 0 then
              (let r = lits ! k;
                   s = nt_store a ((nt_deref s a)\<lparr>so_literals := lits[0 := other, 1 := r, k := lit]\<rparr>) s
               in propagate_lit lit is js (watch_literal r lit a s))
            else if u = 0 then
              (let s = search_assign other (Clause_reason a) (build_chain_for_units other a False s);
                   other_level = va_level (nt_var s other) in
               if co_chrono (nt_opts s) > 1 \<and> other_level > va_level (nt_var s lit) then
                 (let p = (case List.find (\<lambda>p. va_level (nt_var s (lits ! p)) = other_level) [2..<size] of
                             Some p \<Rightarrow> p | None \<Rightarrow> size);
                      t = lits ! (min p (size - 1));
                      s = nt_store a ((nt_deref s a)\<lparr>so_literals := lits[p := lit, 0 := other, 1 := t]\<rparr>) s
                  in propagate_lit lit is js (watch_literal t other a s))
               else propagate_lit lit is (js @ [w]) s)
            else (js @ w # is, s\<lparr>nt_conflict := Some a\<rparr>))))"

text \<open>The loop over the trail.\<close>

partial_function (option) propagate_loop :: "'v Internal \<Rightarrow> 'v Internal option" where
  "propagate_loop s =
     (if nt_conflict s = None \<and> nt_propagated s \<noteq> length (nt_trail s) then
        (let lit = - (nt_trail s ! nt_propagated s);
             s = s\<lparr>nt_propagated := nt_propagated s + 1\<rparr>;
             (ws, s) = propagate_lit lit (nt_wtab s lit) [] s
         in propagate_loop (s\<lparr>nt_wtab := (nt_wtab s)(lit := ws)\<rparr>))
      else Some s)"

declare propagate_loop.simps [code]

definition propagate :: "'v Internal \<Rightarrow> (bool \<times> 'v Internal) option" where
  "propagate s =
     (let before = nt_propagated s in
      map_option (\<lambda>s.
        let s = (if nt_searching_lucky_phases s then s
                 else
                   (let s = nt_count (\<lambda>n. n\<lparr>cn_propagations := cn_propagations n + int (nt_propagated s - before)\<rparr>) s in
                    if nt_conflict s = None then s\<lparr>nt_no_conflict_until := nt_propagated s\<rparr>
                    else
                      (let s = (if nt_stable s then nt_count (\<lambda>n. n\<lparr>cn_stabconflicts := cn_stabconflicts n + 1\<rparr>) s else s);
                           s = nt_count (\<lambda>n. n\<lparr>cn_conflicts := cn_conflicts n + 1\<rparr>) s
                       in s\<lparr>nt_no_conflict_until := lv_trail (nt_control s ! nt_level s)\<rparr>)))
        in (nt_conflict s = None, s)) (propagate_loop s))"

end
