(* ===== verification/Cdcl_Inv.thy ===== *)
theory Cdcl_Inv
  imports Cdcl
begin

text \<open>
  The invariant of the search state.  The trail describes the assignment; the level of a literal is
  one of the decision levels open at its place on the trail, or a lower one, as chronological
  backtracking makes possible; a reason has only literals falsified before.  Clauses are implied
  by the formula \<open>F\<close> and watched at their first two literals.  What propagation has done is
  \<open>nt_done\<close>: a watch falsified at a place already propagated sits in a clause satisfied by a literal
  that stays assigned as long as that place does.
\<close>

subsection \<open>The invariant\<close>

definition lit_ok :: "nat \<Rightarrow> int \<Rightarrow> bool" where
  "lit_ok n l \<longleftrightarrow> l \<noteq> 0 \<and> vidx l \<le> n"

lemma lit_ok_uminus [simp]: "lit_ok n (- l) = lit_ok n l"
  by (simp add: lit_ok_def vidx_def)

lemma vidx_uminus [simp]: "vidx (- l) = vidx l"
  by (simp add: vidx_def)

lemma vidx_eq_iff: "vidx k = vidx l \<longleftrightarrow> k = l \<or> k = - l"
  by (auto simp: vidx_def abs_if split: if_splits)

definition nt_trail_inv :: "'v Internal \<Rightarrow> bool" where
  "nt_trail_inv s \<longleftrightarrow>
     (\<forall>v. nt_vals s v = trail_val (nt_trail s) (int v))
     \<and> (\<forall>l \<in> set (nt_trail s). lit_ok (nt_max_var s) l)
     \<and> distinct (map abs (nt_trail s))
     \<and> nt_propagated s \<le> length (nt_trail s)"

definition nt_level_inv :: "'v Internal \<Rightarrow> bool" where
  "nt_level_inv s \<longleftrightarrow>
     length (nt_control s) = nt_level s + 1 \<and> lv_trail (nt_control s ! 0) = 0
     \<and> sorted (map lv_trail (nt_control s)) \<and> (\<forall>f \<in> set (nt_control s). lv_trail f \<le> length (nt_trail s))"

text \<open>Level \<open>n\<close> stays assigned at least as long as place \<open>p\<close> of the trail.\<close>

definition level_at :: "'v Internal \<Rightarrow> nat \<Rightarrow> nat \<Rightarrow> bool" where
  "level_at s p n \<longleftrightarrow> (\<forall>k. 1 \<le> k \<longrightarrow> k \<le> nt_level s \<longrightarrow> p < lv_trail (nt_control s ! k) \<longrightarrow> n < k)"

definition lit_level :: "'v Internal \<Rightarrow> int \<Rightarrow> nat" where
  "lit_level s l = va_level (nt_var s l)"

definition reason_ok :: "clause set \<Rightarrow> 'v Internal \<Rightarrow> nat \<Rightarrow> bool" where
  "reason_ok F s p \<longleftrightarrow>
     (let l = nt_trail s ! p in
      va_trail (nt_var s l) = p \<and> lit_level s l \<le> nt_level s \<and> level_at s p (lit_level s l)
      \<and> (if lit_level s l = 0 then va_reason (nt_var s l) = No_reason \<and> entails F [l]
         else case va_reason (nt_var s l) of
             No_reason \<Rightarrow> lv_trail (nt_control s ! lit_level s l) = p \<and> lv_decision (nt_control s ! lit_level s l) = l
           | Clause_reason a \<Rightarrow>
               (\<exists>c. nt_mem s a = Some c \<and> l \<in> set (so_literals c)
                 \<and> (\<forall>k \<in> set (so_literals c). k \<noteq> l \<longrightarrow>
                      - k \<in> set (take p (nt_trail s)) \<and> lit_level s k \<le> lit_level s l))
           | _ \<Rightarrow> False))"

definition nt_reasons_inv :: "clause set \<Rightarrow> 'v Internal \<Rightarrow> bool" where
  "nt_reasons_inv F s \<longleftrightarrow> (\<forall>p < length (nt_trail s). reason_ok F s p)"

definition sclause_ok :: "nat \<Rightarrow> SClause \<Rightarrow> bool" where
  "sclause_ok n c \<longleftrightarrow>
     distinct (so_literals c) \<and> 2 \<le> length (so_literals c) \<and> (\<forall>l \<in> set (so_literals c). lit_ok n l)
     \<and> 2 \<le> so_pos c \<and> so_pos c \<le> length (so_literals c)"

definition mem_inv :: "clause set \<Rightarrow> nat \<Rightarrow> (nat \<rightharpoonup> SClause) \<Rightarrow> bool" where
  "mem_inv F n m \<longleftrightarrow> (\<forall>a c. m a = Some c \<longrightarrow> sclause_ok n c \<and> entails F (so_literals c))"

definition watch_ok :: "(nat \<rightharpoonup> SClause) \<Rightarrow> int \<Rightarrow> Watch \<Rightarrow> bool" where
  "watch_ok m l w \<longleftrightarrow>
     (\<exists>c. m (wa_clause w) = Some c \<and> wa_size w = length (so_literals c)
        \<and> l \<in> set (so_literals c) \<and> wa_blit w \<in> set (so_literals c) \<and> wa_blit w \<noteq> l
        \<and> (l = so_literals c ! 0 \<or> l = so_literals c ! 1))"

definition watches_ok :: "(nat \<rightharpoonup> SClause) \<Rightarrow> int \<Rightarrow> Watch list \<Rightarrow> bool" where
  "watches_ok m l ws \<longleftrightarrow> (\<forall>w \<in> set ws. watch_ok m l w) \<and> distinct (map wa_clause ws)"

definition watched :: "(int \<Rightarrow> Watch list) \<Rightarrow> int \<Rightarrow> nat \<Rightarrow> bool" where
  "watched wt l a \<longleftrightarrow> a \<in> wa_clause ` set (wt l)"

definition watch_inv :: "nat \<Rightarrow> (nat \<rightharpoonup> SClause) \<Rightarrow> (int \<Rightarrow> Watch list) \<Rightarrow> bool" where
  "watch_inv n m wt \<longleftrightarrow>
     (\<forall>l. lit_ok n l \<longrightarrow> watches_ok m l (wt l))
     \<and> (\<forall>a c. m a = Some c \<longrightarrow> \<not> so_garbage c \<longrightarrow>
          watched wt (so_literals c ! 0) a \<and> watched wt (so_literals c ! 1) a)"

definition nt_wf :: "clause set \<Rightarrow> 'v Internal \<Rightarrow> bool" where
  "nt_wf F s \<longleftrightarrow>
     nt_trail_inv s \<and> nt_level_inv s \<and> nt_reasons_inv F s \<and> mem_inv F (nt_max_var s) (nt_mem s)
     \<and> watch_inv (nt_max_var s) (nt_mem s) (nt_wtab s)"

lemmas nt_wf_defs = nt_wf_def nt_trail_inv_def nt_level_inv_def nt_reasons_inv_def

definition sat_at :: "'v Internal \<Rightarrow> nat \<Rightarrow> nat \<Rightarrow> bool" where
  "sat_at s p a \<longleftrightarrow> so_garbage (nt_deref s a)
     \<or> (\<exists>b \<in> set (nt_literals s a). b \<in> set (nt_trail s) \<and> level_at s p (lit_level s b))"

definition nt_done :: "'v Internal \<Rightarrow> nat \<Rightarrow> bool" where
  "nt_done s n \<longleftrightarrow>
     (\<forall>l w p. lit_ok (nt_max_var s) l \<longrightarrow> w \<in> set (nt_wtab s l) \<longrightarrow> p < n \<longrightarrow> p < length (nt_trail s) \<longrightarrow>
        nt_trail s ! p = - l \<longrightarrow> sat_at s p (wa_clause w))"

text \<open>The decision heuristics' state is about the same variables.\<close>

definition nt_dc_inv :: "('v :: linorder) Internal \<Rightarrow> bool" where
  "nt_dc_inv s \<longleftrightarrow> (\<exists>xs. dc_inv (nt_decide s) xs \<and> set xs = {1..nt_max_var s})
     \<and> dc_num_assigned (nt_decide s) = length (nt_trail s)"

subsection \<open>Frames\<close>

text \<open>Counters, the proof, flags and phases do not matter to the invariant.\<close>

definition nt_same :: "'v Internal \<Rightarrow> 'v Internal \<Rightarrow> bool" where
  "nt_same s t \<longleftrightarrow>
     nt_max_var s = nt_max_var t \<and> nt_level s = nt_level t \<and> nt_decide s = nt_decide t
     \<and> nt_vtab s = nt_vtab t \<and> nt_wtab s = nt_wtab t \<and> nt_mem s = nt_mem t
     \<and> nt_propagated s = nt_propagated t \<and> nt_trail s = nt_trail t \<and> nt_control s = nt_control t
     \<and> nt_conflict s = nt_conflict t \<and> nt_opts s = nt_opts t"

lemma nt_same_refl [simp]: "nt_same s s"
  by (simp add: nt_same_def)

lemma nt_same_simps [simp]:
  "nt_same s (nt_count f s)" "nt_same s (nt_log g s)" "nt_same s (nt_set_flags l h s)"
  "nt_same s (s\<lparr>nt_phases := ph\<rparr>)" "nt_same s (s\<lparr>nt_no_conflict_until := n\<rparr>)"
  by (simp_all add: nt_same_def nt_count_def nt_log_def nt_set_flags_def)

lemma nt_same_trans: "nt_same s t \<Longrightarrow> nt_same t u \<Longrightarrow> nt_same s u"
  by (simp add: nt_same_def)

lemma nt_same_cong:
  assumes "nt_same s t"
  shows "nt_vals t = nt_vals s" "nt_val t = nt_val s" "nt_var t = nt_var s" "nt_deref t = nt_deref s"
    "nt_literals t = nt_literals s" "lit_level t = lit_level s" "level_at t = level_at s"
    "reason_ok F t = reason_ok F s" "nt_wf F t = nt_wf F s" "sat_at t = sat_at s" "nt_done t = nt_done s"
proof -
  show a: "nt_vals t = nt_vals s" "nt_var t = nt_var s" "nt_deref t = nt_deref s"
    using assms by (auto simp: nt_same_def nt_vals_def nt_var_def nt_deref_def fun_eq_iff)
  show b: "nt_val t = nt_val s" "nt_literals t = nt_literals s" "lit_level t = lit_level s" "level_at t = level_at s"
    using assms a by (auto simp: nt_same_def nt_val_def nt_literals_def lit_level_def level_at_def fun_eq_iff)
  have f: "nt_max_var t = nt_max_var s" "nt_level t = nt_level s" "nt_wtab t = nt_wtab s" "nt_mem t = nt_mem s"
    "nt_propagated t = nt_propagated s" "nt_trail t = nt_trail s" "nt_control t = nt_control s"
    using assms by (simp_all add: nt_same_def)
  show c: "reason_ok F t = reason_ok F s" "sat_at t = sat_at s"
    unfolding reason_ok_def sat_at_def fun_eq_iff a b f by simp_all
  show "nt_wf F t = nt_wf F s" "nt_done t = nt_done s"
    unfolding nt_wf_defs nt_done_def fun_eq_iff a b c f by simp_all
qed

lemma build_chain_same [simp]: "nt_same s (build_chain_for_units lit a forced s)"
  by (simp add: build_chain_for_units_def)

lemma learn_unit_same [simp]: "nt_same s (learn_unit_clause lit s)"
  unfolding learn_unit_clause_def mark_fixed_def Let_def
  by (rule nt_same_trans [OF nt_same_simps(2) nt_same_trans [OF nt_same_simps(3) nt_same_simps(1)]])

subsection \<open>Assigning a literal\<close>

lemma fold_max_ge:
  fixes f :: "'b \<Rightarrow> nat"
  shows "m \<le> fold (\<lambda>x r. if x = y then r else max r (f x)) ls m
    \<and> (\<forall>k \<in> set ls. k \<noteq> y \<longrightarrow> f k \<le> fold (\<lambda>x r. if x = y then r else max r (f x)) ls m)"
proof (induction ls arbitrary: m)
  case (Cons k ls)
  show ?case using Cons [of m] Cons [of "max m (f k)"] by auto
qed simp

lemma fold_max_le:
  fixes f :: "'b \<Rightarrow> nat"
  shows "m \<le> n \<Longrightarrow> \<forall>k \<in> set ls. k \<noteq> y \<longrightarrow> f k \<le> n \<Longrightarrow> fold (\<lambda>x r. if x = y then r else max r (f x)) ls m \<le> n"
  by (induction ls arbitrary: m) auto

lemma assignment_level_ge:
  "k \<in> set (nt_literals s a) \<Longrightarrow> k \<noteq> lit \<Longrightarrow> lit_level s k \<le> assignment_level lit (Clause_reason a) s"
  using fold_max_ge [of 0 lit "\<lambda>k. va_level (nt_var s k)" "nt_literals s a"] by (simp add: assignment_level_def lit_level_def [abs_def])

lemma assignment_level_le:
  "\<forall>k \<in> set (nt_literals s a). k \<noteq> lit \<longrightarrow> lit_level s k \<le> n \<Longrightarrow> assignment_level lit (Clause_reason a) s \<le> n"
  using fold_max_le [of 0 n "nt_literals s a" lit "\<lambda>k. va_level (nt_var s k)"] by (simp add: assignment_level_def lit_level_def [abs_def])

text \<open>The level at which a literal is assigned, and the reason stored for it.\<close>

definition assigned_level :: "int \<Rightarrow> reason \<Rightarrow> 'v Internal \<Rightarrow> nat" where
  "assigned_level lit reason s =
     (case reason of
        No_reason \<Rightarrow> 0
      | Decision_reason \<Rightarrow> nt_level s
      | _ \<Rightarrow> if co_chrono (nt_opts s) \<noteq> 0 then assignment_level lit reason s else nt_level s)"

lemma search_assign_fields:
  fixes s :: "'v Internal" and l :: int and r :: reason
  defines "t \<equiv> search_assign l r s"
  shows "nt_trail t = nt_trail s @ [l]" "nt_vals t = (nt_vals s)(vidx l := sign l)"
    "nt_vtab t = (nt_vtab s)(vidx l := \<lparr>va_level = assigned_level l r s, va_trail = length (nt_trail s),
       va_reason = (if r = Decision_reason \<or> assigned_level l r s = 0 then No_reason else r)\<rparr>)"
    "nt_max_var t = nt_max_var s" "nt_level t = nt_level s" "nt_wtab t = nt_wtab s" "nt_mem t = nt_mem s"
    "nt_propagated t = nt_propagated s" "nt_control t = nt_control s" "nt_conflict t = nt_conflict s"
    "nt_opts t = nt_opts s" "nt_deref t = nt_deref s" "nt_literals t = nt_literals s"
    "nt_decide t = (nt_decide s)\<lparr>dc_num_assigned := dc_num_assigned (nt_decide s) + 1,
       dc_queue := assign_var (vidx l) (sign l) (dc_queue (nt_decide s))\<rparr>"
proof -
  have l: "nt_trail (learn_unit_clause k u) = nt_trail u" "nt_decide (learn_unit_clause k u) = nt_decide u"
    "nt_vtab (learn_unit_clause k u) = nt_vtab u" "nt_max_var (learn_unit_clause k u) = nt_max_var u"
    "nt_level (learn_unit_clause k u) = nt_level u" "nt_wtab (learn_unit_clause k u) = nt_wtab u"
    "nt_mem (learn_unit_clause k u) = nt_mem u" "nt_propagated (learn_unit_clause k u) = nt_propagated u"
    "nt_control (learn_unit_clause k u) = nt_control u" "nt_conflict (learn_unit_clause k u) = nt_conflict u"
    "nt_opts (learn_unit_clause k u) = nt_opts u"
    for k and u :: "'v Internal"
    using learn_unit_same [of u k] by (simp_all add: nt_same_def)
  show 1: "nt_trail t = nt_trail s @ [l]" "nt_max_var t = nt_max_var s" "nt_level t = nt_level s" "nt_wtab t = nt_wtab s"
    "nt_mem t = nt_mem s" "nt_propagated t = nt_propagated s" "nt_control t = nt_control s" "nt_conflict t = nt_conflict s"
    "nt_opts t = nt_opts s"
    "nt_vtab t = (nt_vtab s)(vidx l := \<lparr>va_level = assigned_level l r s, va_trail = length (nt_trail s),
       va_reason = (if r = Decision_reason \<or> assigned_level l r s = 0 then No_reason else r)\<rparr>)"
    "nt_decide t = (nt_decide s)\<lparr>dc_num_assigned := dc_num_assigned (nt_decide s) + 1,
       dc_queue := assign_var (vidx l) (sign l) (dc_queue (nt_decide s))\<rparr>"
    by (simp_all add: t_def search_assign_def Let_def l nt_set_val_def nt_log_def assigned_level_def [symmetric]
        cong: if_cong)
  show "nt_vals t = (nt_vals s)(vidx l := sign l)" by (simp add: nt_vals_def 1 assign_var_def)
  show "nt_deref t = nt_deref s" "nt_literals t = nt_literals s"
    by (simp_all add: nt_deref_def nt_literals_def fun_eq_iff 1)
qed

lemma trail_fresh:
  assumes "nt_trail_inv s" "nt_val s l = 0" "lit_ok (nt_max_var s) l"
  shows "l \<notin> set (nt_trail s)" "- l \<notin> set (nt_trail s)"
    "\<And>k. k \<in> set (nt_trail s) \<Longrightarrow> vidx k \<noteq> vidx l"
proof -
  have "nt_vals s (vidx l) = 0" using assms(2) by (simp add: nt_val_def split: if_splits)
  then have "trail_val (nt_trail s) \<bar>l\<bar> = 0" using assms(1) by (simp add: nt_trail_inv_def vidx_def)
  then have "l \<notin> set (nt_trail s) \<and> - l \<notin> set (nt_trail s)" by (auto simp: trail_val_simps abs_if split: if_splits)
  then show "l \<notin> set (nt_trail s)" "- l \<notin> set (nt_trail s)" "\<And>k. k \<in> set (nt_trail s) \<Longrightarrow> vidx k \<noteq> vidx l"
    by (auto simp: vidx_eq_iff)
qed

lemma nt_val_trail:
  assumes "nt_trail_inv s" shows "nt_val s l = (if l = 0 then 0 else trail_val (nt_trail s) l)"
proof -
  have z: "(0 :: int) \<notin> set (nt_trail s)" using assms by (auto simp: nt_trail_inv_def lit_ok_def)
  have d: "l \<noteq> 0 \<Longrightarrow> l \<in> set (nt_trail s) \<Longrightarrow> - l \<notin> set (nt_trail s)"
    using distinct_abs_trail [of "nt_trail s" l] assms by (simp add: nt_trail_inv_def)
  have v: "nt_vals s (vidx l) = trail_val (nt_trail s) \<bar>l\<bar>" using assms by (simp add: nt_trail_inv_def vidx_def)
  show ?thesis
    using z d v by (auto simp: nt_val_def trail_val_def)
qed

text \<open>What a reason must satisfy when a literal is assigned with it.\<close>

definition assignable :: "clause set \<Rightarrow> int \<Rightarrow> reason \<Rightarrow> 'v Internal \<Rightarrow> bool" where
  "assignable F l r s \<longleftrightarrow> lit_ok (nt_max_var s) l \<and> nt_val s l = 0 \<and>
     (case r of
        No_reason \<Rightarrow> entails F [l]
      | Decision_reason \<Rightarrow> 0 < nt_level s \<and> lv_trail (nt_control s ! nt_level s) = length (nt_trail s)
          \<and> lv_decision (nt_control s ! nt_level s) = l
      | External_reason \<Rightarrow> False
      | Clause_reason a \<Rightarrow> \<exists>c. nt_mem s a = Some c \<and> l \<in> set (so_literals c)
          \<and> (\<forall>k \<in> set (so_literals c). k \<noteq> l \<longrightarrow> - k \<in> set (nt_trail s)))"

lemma level_le:
  assumes "nt_reasons_inv F s" "k \<in> set (nt_trail s)"
  shows "lit_level s k \<le> nt_level s"
proof -
  obtain p where "p < length (nt_trail s)" "nt_trail s ! p = k" using assms(2) by (auto simp: in_set_conv_nth)
  then show ?thesis using assms(1) by (auto simp: nt_reasons_inv_def reason_ok_def Let_def)
qed

lemma level_zero_entailed:
  assumes "nt_reasons_inv F s" "k \<in> set (nt_trail s)" "lit_level s k = 0"
  shows "entails F [k]"
proof -
  obtain p where "p < length (nt_trail s)" "nt_trail s ! p = k" using assms(2) by (auto simp: in_set_conv_nth)
  then show ?thesis using assms(1,3) by (auto simp: nt_reasons_inv_def reason_ok_def Let_def)
qed

lemma lit_level_uminus [simp]: "lit_level s (- k) = lit_level s k"
  by (simp add: lit_level_def nt_var_def)

lemma entails_last:
  assumes "entails F C" "\<And>k. k \<in> set C \<Longrightarrow> k \<noteq> l \<Longrightarrow> entails F [- k]" "0 \<notin> set C"
  shows "entails F [l]"
  by (rule entails_drop_false [OF assms(1) _ assms(3)]) (use assms(2) in auto)

lemma assigned_level_ok:
  assumes wf: "nt_wf F s" and a: "assignable F l r s"
  shows "assigned_level l r s \<le> nt_level s"
    "r = Clause_reason a \<Longrightarrow> k \<in> set (nt_literals s a) \<Longrightarrow> k \<noteq> l \<Longrightarrow> lit_level s k \<le> assigned_level l r s"
    "assigned_level l r s = 0 \<Longrightarrow> entails F [l]"
    "0 < assigned_level l r s \<Longrightarrow> r \<noteq> No_reason"
proof -
  have inv: "nt_reasons_inv F s" "mem_inv F (nt_max_var s) (nt_mem s)" using wf by (simp_all add: nt_wf_def)
  have le: "lit_level s k \<le> nt_level s" if "r = Clause_reason a" "k \<in> set (nt_literals s a)" "k \<noteq> l" for a k
    using level_le [OF inv(1), of "- k"] a that by (auto simp: assignable_def nt_literals_def nt_deref_def)
  show 1: "assigned_level l r s \<le> nt_level s"
    using assignment_level_le [of s _ l "nt_level s"] le
    by (auto simp: assigned_level_def assignment_level_def split: reason.splits)
  show 2: "lit_level s k \<le> assigned_level l r s" if "r = Clause_reason a" "k \<in> set (nt_literals s a)" "k \<noteq> l" for a k
    using that le assignment_level_ge [of k s a l] by (auto simp: assigned_level_def)
  show "entails F [l]" if z: "assigned_level l r s = 0"
  proof (cases r)
    case (Clause_reason b)
    then obtain c where c: "nt_mem s b = Some c" "\<forall>k \<in> set (so_literals c). k \<noteq> l \<longrightarrow> - k \<in> set (nt_trail s)"
      using a by (auto simp: assignable_def)
    then have lits: "nt_literals s b = so_literals c" by (simp add: nt_literals_def nt_deref_def)
    have "entails F (so_literals c)" "0 \<notin> set (so_literals c)"
      using inv(2) c(1) by (auto simp: mem_inv_def sclause_ok_def lit_ok_def)
    moreover have "entails F [- k]" if "k \<in> set (so_literals c)" "k \<noteq> l" for k
      using level_zero_entailed [OF inv(1), of "- k"] 2 [OF Clause_reason, of k] c(2) that z lits by simp
    ultimately show ?thesis by (metis entails_last)
  qed (use a z in \<open>auto simp: assignable_def assigned_level_def\<close>)
  show "r \<noteq> No_reason" if "0 < assigned_level l r s" using that by (auto simp: assigned_level_def)
qed

text \<open>Extending the trail by a fresh literal keeps what is there.\<close>

lemma assign_frame:
  fixes s :: "'v Internal" and l :: int and r :: reason
  assumes "nt_trail_inv s" "nt_val s l = 0" "lit_ok (nt_max_var s) l"
  defines "t \<equiv> search_assign l r s"
  shows "- k \<in> set (nt_trail s) \<or> k \<in> set (nt_trail s) \<Longrightarrow> nt_var t k = nt_var s k \<and> lit_level t k = lit_level s k"
    "level_at t = level_at s" "lit_level t l = assigned_level l r s"
proof -
  note f = search_assign_fields [of l r s, folded t_def]
  show "nt_var t k = nt_var s k \<and> lit_level t k = lit_level s k"
    if k: "- k \<in> set (nt_trail s) \<or> k \<in> set (nt_trail s)"
    using trail_fresh(3) [OF assms(1-3), of k] trail_fresh(3) [OF assms(1-3), of "- k"] k
    by (auto simp: nt_var_def lit_level_def f)
  show "level_at t = level_at s" by (simp add: level_at_def fun_eq_iff f)
  show "lit_level t l = assigned_level l r s" by (simp add: lit_level_def nt_var_def f)
qed

lemma reason_ok_assign:
  assumes "nt_trail_inv s" "nt_val s l = 0" "lit_ok (nt_max_var s) l" "p < length (nt_trail s)" "reason_ok F s p"
  shows "reason_ok F (search_assign l r s) p"
proof -
  let ?t = "search_assign l r s"
  note f = search_assign_fields [of l r s]
  note a = assign_frame [OF assms(1-3), where r = r]
  have x: "nt_trail ?t ! p = nt_trail s ! p" "take p (nt_trail ?t) = take p (nt_trail s)"
    using assms(4) by (simp_all add: f nth_append)
  have v: "nt_var ?t (nt_trail s ! p) = nt_var s (nt_trail s ! p)"
    "lit_level ?t (nt_trail s ! p) = lit_level s (nt_trail s ! p)"
    using a(1) [of "nt_trail s ! p"] assms(4) by simp_all
  have k: "lit_level ?t k = lit_level s k" if "- k \<in> set (take p (nt_trail s))" for k
    using a(1) [of k] in_set_takeD [OF that] by simp
  show ?thesis
    using assms(5) k unfolding reason_ok_def Let_def x v a(2) f(5,7,9)
    by (auto split: reason.splits if_splits)
qed

lemma reason_ok_new:
  assumes wf: "nt_wf F s" and a: "assignable F l r s"
  shows "reason_ok F (search_assign l r s) (length (nt_trail s))"
proof -
  let ?t = "search_assign l r s" and ?n = "assigned_level l r s"
  have inv: "nt_trail_inv s" "nt_level_inv s" and l: "nt_val s l = 0" "lit_ok (nt_max_var s) l"
    using wf a by (simp_all add: nt_wf_def assignable_def)
  note f = search_assign_fields [of l r s]
  note fr = assign_frame [OF inv(1) l, where r = r]
  note ok = assigned_level_ok [OF wf a]
  have x: "nt_trail ?t ! length (nt_trail s) = l" "take (length (nt_trail s)) (nt_trail ?t) = nt_trail s" by (simp_all add: f)
  have v: "nt_var ?t l = \<lparr>va_level = ?n, va_trail = length (nt_trail s),
      va_reason = (if r = Decision_reason \<or> ?n = 0 then No_reason else r)\<rparr>"
    by (simp add: nt_var_def f)
  have at: "level_at s (length (nt_trail s)) ?n"
    unfolding level_at_def
  proof (intro allI impI)
    fix k assume "1 \<le> k" "k \<le> nt_level s" "length (nt_trail s) < lv_trail (nt_control s ! k)"
    moreover from this have "nt_control s ! k \<in> set (nt_control s)" using inv(2) by (simp add: nt_level_inv_def)
    ultimately show "?n < k" using inv(2) unfolding nt_level_inv_def by (metis not_less)
  qed
  have "?n = nt_level s" if "r = Decision_reason" using that by (simp add: assigned_level_def)
  moreover have "lit_level ?t k \<le> ?n" if "r = Clause_reason b" "nt_mem s b = Some c" "k \<in> set (so_literals c)" "k \<noteq> l"
      "- k \<in> set (nt_trail s)" for b c k
    using ok(2) [OF that(1), of k] fr(1) [of k] that by (simp add: nt_literals_def nt_deref_def)
  ultimately show ?thesis
    using ok(1,3,4) at a
    unfolding reason_ok_def Let_def x v fr(2,3) f(5,7,9) assignable_def
    by (cases r) auto
qed

lemma search_assign_wf:
  assumes wf: "nt_wf F s" and a: "assignable F l r s"
  shows "nt_wf F (search_assign l r s)"
proof -
  let ?t = "search_assign l r s"
  have inv: "nt_trail_inv s" "nt_level_inv s" "nt_reasons_inv F s" and l: "nt_val s l = 0" "lit_ok (nt_max_var s) l"
    using wf a by (simp_all add: nt_wf_def assignable_def)
  note f = search_assign_fields [of l r s]
  note fresh = trail_fresh [OF inv(1) l]
  have "nt_trail_inv ?t"
  proof -
    have "nt_vals ?t v = trail_val (nt_trail ?t) (int v)" for v
    proof (cases "v = vidx l")
      case True
      then show ?thesis using fresh l(2) by (auto simp: f trail_val_def sign_def vidx_def lit_ok_def)
    next
      case False
      then have "int v \<noteq> l" "- int v \<noteq> l" by (auto simp: vidx_def)
      then show ?thesis using inv(1) False by (auto simp: f trail_val_def nt_trail_inv_def)
    qed
    moreover have "distinct (map abs (nt_trail ?t))"
      using inv(1) fresh(1,2) by (auto simp: nt_trail_inv_def f abs_eq_iff)
    ultimately show ?thesis using inv(1) l(2) by (simp add: nt_trail_inv_def f)
  qed
  moreover have "nt_level_inv ?t" using inv(2) by (auto simp: nt_level_inv_def f)
  moreover have "nt_reasons_inv F ?t"
    using reason_ok_assign [OF inv(1) l] reason_ok_new [OF wf a] inv(3)
    by (auto simp: nt_reasons_inv_def f less_Suc_eq)
  ultimately show ?thesis using wf by (simp add: nt_wf_def f)
qed

lemma sat_at_assign:
  assumes "nt_trail_inv s" "nt_val s l = 0" "lit_ok (nt_max_var s) l" "sat_at s p a"
  shows "sat_at (search_assign l r s) p a"
  using assms(4) assign_frame(1,2) [OF assms(1-3), where r = r] by (auto simp: sat_at_def search_assign_fields)

lemma nt_done_assign:
  assumes "nt_trail_inv s" "nt_val s l = 0" "lit_ok (nt_max_var s) l" "nt_done s n" "n \<le> length (nt_trail s)"
  shows "nt_done (search_assign l r s) n"
  unfolding nt_done_def
proof (intro allI impI)
  fix k w p
  assume x: "lit_ok (nt_max_var (search_assign l r s)) k" "w \<in> set (nt_wtab (search_assign l r s) k)" "p < n"
    "p < length (nt_trail (search_assign l r s))" "nt_trail (search_assign l r s) ! p = - k"
  then have "sat_at s p (wa_clause w)"
    using assms(4,5) by (simp add: nt_done_def search_assign_fields nth_append)
  then show "sat_at (search_assign l r s) p (wa_clause w)" by (rule sat_at_assign [OF assms(1-3)])
qed

lemma nt_dc_inv_assign:
  assumes "nt_dc_inv s" "l \<noteq> 0"
  shows "nt_dc_inv (search_assign l r s)"
proof -
  obtain xs where xs: "dc_inv (nt_decide s) xs" "set xs = {1..nt_max_var s}" using assms(1) by (auto simp: nt_dc_inv_def)
  have "sign l \<noteq> 0" using assms(2) by (simp add: sign_def)
  then have "dc_inv (nt_decide (search_assign l r s)) xs"
    using xs(1) assign_var_ok [of "dc_queue (nt_decide s)" xs "sign l" "vidx l"]
    by (auto simp: dc_inv_def search_assign_fields) (simp add: assign_var_def split: if_splits)
  then show ?thesis using xs(2) assms(1) by (auto simp: nt_dc_inv_def search_assign_fields)
qed

end
