(* ===== verification/Cdcl_Propagate.thy ===== *)
theory Cdcl_Propagate
  imports Cdcl_Inv
begin

text \<open>
  Propagation (\<^verbatim>\<open>propagate.cpp\<close>) returns, keeps the invariant, and ends either with a falsified
  clause or with no clause left that is falsified or unit.
\<close>

subsection \<open>Changing clauses and watches\<close>

lemma watch_okD:
  assumes "watch_inv n m wt" "lit_ok n l" "w \<in> set (wt l)"
  obtains c where "m (wa_clause w) = Some c" "wa_size w = length (so_literals c)" "l \<in> set (so_literals c)"
    "wa_blit w \<in> set (so_literals c)" "wa_blit w \<noteq> l" "l = so_literals c ! 0 \<or> l = so_literals c ! 1"
  using assms unfolding watch_inv_def watches_ok_def watch_ok_def by blast

lemma watch_mem: "watch_inv n m wt \<Longrightarrow> lit_ok n l \<Longrightarrow> w \<in> set (wt l) \<Longrightarrow> m (wa_clause w) \<noteq> None"
  by (erule (2) watch_okD) simp

lemma set_moved:
  assumes "distinct ls" "2 \<le> length ls" "l = ls ! 0 \<or> l = (ls :: int list) ! 1" "2 \<le> k" "k < length ls"
    and "x = (ls ! 0 XOR ls ! 1) XOR l"
  shows "mset (ls[0 := x, 1 := ls ! k, k := l]) = mset ls"
    "ls[0 := x, 1 := ls ! k, k := l] ! 0 = x" "ls[0 := x, 1 := ls ! k, k := l] ! 1 = ls ! k"
proof -
  note pair = watched_pair [OF assms(1-3), folded assms(6)]
  have n: "ls \<noteq> []" using assms(2) by auto
  have "ls[0 := x, 1 := ls ! k, k := l] = list_swap (ls[0 := x, 1 := l]) 1 k"
    using assms(2,4,5) n by (simp add: list_swap_def)
  then show "mset (ls[0 := x, 1 := ls ! k, k := l]) = mset ls" using pair(3) assms(2,5) by simp
  show "ls[0 := x, 1 := ls ! k, k := l] ! 0 = x" "ls[0 := x, 1 := ls ! k, k := l] ! 1 = ls ! k"
    using assms(2,4,5) n by simp_all
qed

lemma move_watch:
  assumes inv: "watch_inv n m (wt(l := js @ w # is))" and c: "m (wa_clause w) = Some c" "sclause_ok n c" "\<not> so_garbage c"
    and l: "lit_ok n l" "l = so_literals c ! 0 \<or> l = so_literals c ! 1"
    and x: "x = (so_literals c ! 0 XOR so_literals c ! 1) XOR l"
    and k: "2 \<le> k" "k < length (so_literals c)"
    and c': "so_literals c' = (so_literals c)[0 := x, 1 := so_literals c ! k, k := l]" "so_garbage c' = so_garbage c"
    and w': "wa_clause w' = wa_clause w" "wa_blit w' \<in> set (so_literals c)" "wa_blit w' \<noteq> so_literals c ! k"
      "wa_size w' = length (so_literals c)"
  defines "wt' \<equiv> wt(l := js @ is, so_literals c ! k := wt (so_literals c ! k) @ [w'])"
  shows "watch_inv n (m(wa_clause w \<mapsto> c')) wt'"
proof -
  let ?a = "wa_clause w" and ?r = "so_literals c ! k" and ?ls = "so_literals c"
  have ok: "distinct ?ls" "2 \<le> length ?ls" using c(2) by (simp_all add: sclause_ok_def)
  have n: "?ls \<noteq> []" using ok(2) by auto
  note pair = watched_pair [OF ok l(2), folded x]
  note mv = set_moved [OF ok l(2) k x, folded c'(1)]
  have s: "set (so_literals c') = set ?ls" "length (so_literals c') = length ?ls"
    using mset_eq_setD [OF mv(1)] mset_eq_length [OF mv(1)] by simp_all
  have r: "?r \<noteq> l" "?r \<noteq> x" "?r \<in> set ?ls"
    using nth_eq_iff_index_eq [OF ok(1), of k 0] nth_eq_iff_index_eq [OF ok(1), of k 1] k pair(4) n by auto
  have old: "watches_ok m y (wt y)" if "lit_ok n y" "y \<noteq> l" for y using inv that by (auto simp: watch_inv_def dest!: spec [of _ y])
  have oldl: "watches_ok m l (js @ w # is)" using inv l(1) by (auto simp: watch_inv_def dest!: spec [of _ l])
  have isx: "y = x" if "lit_ok n y" "y \<noteq> l" "v \<in> set (wt y)" "wa_clause v = ?a" for y v
  proof -
    have "watch_ok m y v" using old [OF that(1,2)] that(3) by (simp add: watches_ok_def)
    then have "y = ?ls ! 0 \<or> y = ?ls ! 1" using c(1) that(4) by (auto simp: watch_ok_def)
    then show ?thesis using pair(4) that(2) by blast
  qed
  have keep: "watch_ok (m(?a \<mapsto> c')) y v"
    if "watch_ok m y v" "wa_clause v = ?a \<Longrightarrow> y = x" for y v
  proof (cases "wa_clause v = ?a")
    case True
    then show ?thesis using that c(1) s mv(2) unfolding watch_ok_def by simp
  next
    case False
    then show ?thesis using that(1) by (simp add: watch_ok_def)
  qed
  have xl: "watched wt' x ?a"
  proof -
    have "watched (wt(l := js @ w # is)) x ?a"
      using inv c(1,3) pair(4) unfolding watch_inv_def by (metis doubleton_eq_iff)
    then show ?thesis using pair(1) by (auto simp: watched_def wt'_def)
  qed
  have "watches_ok (m(?a \<mapsto> c')) y (wt' y)" if y: "lit_ok n y" for y
  proof (cases "y = ?r")
    case True
    have "watch_ok (m(?a \<mapsto> c')) ?r w'" using w' s mv(3) r(3) by (simp add: watch_ok_def)
    moreover have "?a \<notin> wa_clause ` set (wt ?r)" using isx [of ?r] y True r(1,2) by (metis imageE)
    ultimately show ?thesis
      using old [of ?r] y True r(1) w'(1) isx [of ?r] keep [of ?r]
      by (auto simp: wt'_def watches_ok_def)
  next
    case False
    show ?thesis
    proof (cases "y = l")
      case True
      have wl: "wt' l = js @ is" using False True by (simp add: wt'_def)
      have ni: "?a \<notin> wa_clause ` set (js @ is)" using oldl by (simp add: watches_ok_def image_Un)
      have "watch_ok (m(?a \<mapsto> c')) l v" if v: "v \<in> set (js @ is)" for v
      proof (rule keep)
        show "watch_ok m l v" using v oldl by (auto simp: watches_ok_def)
        show "l = x" if "wa_clause v = ?a" using that v ni by (metis imageI)
      qed
      moreover have "distinct (map wa_clause (js @ is))" using oldl by (simp add: watches_ok_def)
      ultimately show ?thesis unfolding True wl watches_ok_def by blast
    next
      case neq: False
      have wy: "wt' y = wt y" using False neq by (simp add: wt'_def)
      show ?thesis unfolding wy watches_ok_def
        using old [OF y neq] keep [of y] isx [OF y neq] unfolding watches_ok_def by blast
    qed
  qed
  moreover have "watched wt' (so_literals d ! 0) b \<and> watched wt' (so_literals d ! 1) b"
    if d: "(m(?a \<mapsto> c')) b = Some d" "\<not> so_garbage d" for b d
  proof (cases "b = ?a")
    case True
    then have "d = c'" using d(1) by simp
    then show ?thesis using xl mv(2,3) w'(1) True by (simp add: watched_def wt'_def)
  next
    case False
    have "watched wt' y b" if "watched (wt(l := js @ w # is)) y b" for y
      using that False r(1) by (auto simp: watched_def wt'_def)
    then show ?thesis using inv d False unfolding watch_inv_def by auto
  qed
  ultimately show ?thesis by (simp add: watch_inv_def)
qed

lemma pos_watch:
  assumes "watch_inv n m wt" "m a = Some c" "so_literals c' = so_literals c" "so_garbage c' = so_garbage c"
  shows "watch_inv n (m(a \<mapsto> c')) wt"
proof -
  have "watch_ok (m(a \<mapsto> c')) l w" if "watch_ok m l w" for l w using that assms(2,3) by (auto simp: watch_ok_def)
  then show ?thesis using assms unfolding watch_inv_def watches_ok_def by (auto split: if_splits)
qed

lemma sub_watch:
  assumes "watch_inv n m (wt(l := ws))" "watches_ok m l vs"
    "\<And>a c. m a = Some c \<Longrightarrow> \<not> so_garbage c \<Longrightarrow> a \<in> wa_clause ` set ws \<Longrightarrow> a \<in> wa_clause ` set vs"
  shows "watch_inv n m (wt(l := vs))"
proof -
  have "watched (wt(l := vs)) y a" if "watched (wt(l := ws)) y a" "m a = Some c" "\<not> so_garbage c" for y a c
    using that assms(3) by (auto simp: watched_def split: if_splits)
  then show ?thesis using assms(1,2) unfolding watch_inv_def by (auto split: if_splits)
qed

subsection \<open>States that differ in clauses and watches\<close>

definition same_core :: "'v Internal \<Rightarrow> 'v Internal \<Rightarrow> bool" where
  "same_core s t \<longleftrightarrow> nt_max_var s = nt_max_var t \<and> nt_level s = nt_level t \<and> nt_decide s = nt_decide t
     \<and> nt_vtab s = nt_vtab t \<and> nt_propagated s = nt_propagated t \<and> nt_trail s = nt_trail t
     \<and> nt_control s = nt_control t"

lemma same_core_cong:
  assumes "same_core s t"
  shows "nt_val t = nt_val s" "nt_var t = nt_var s" "lit_level t = lit_level s" "level_at t = level_at s"
    "nt_trail_inv t = nt_trail_inv s" "nt_level_inv t = nt_level_inv s" "nt_max_var t = nt_max_var s" "nt_trail t = nt_trail s"
  using assms
  by (auto simp: same_core_def nt_val_def nt_vals_def nt_var_def lit_level_def level_at_def nt_trail_inv_def
      nt_level_inv_def fun_eq_iff)

text \<open>The clauses of one memory are those of another with the same literals.\<close>

definition same_sclause :: "SClause \<Rightarrow> SClause \<Rightarrow> bool" where
  "same_sclause c d \<longleftrightarrow> mset (so_literals c) = mset (so_literals d) \<and> so_garbage c = so_garbage d
     \<and> so_id c = so_id d \<and> so_redundant c = so_redundant d"

definition same_lits :: "(nat \<rightharpoonup> SClause) \<Rightarrow> (nat \<rightharpoonup> SClause) \<Rightarrow> bool" where
  "same_lits m m' \<longleftrightarrow> (\<forall>a. rel_option same_sclause (m a) (m' a))"

lemma same_sclause_refl [simp]: "same_sclause c c"
  by (simp add: same_sclause_def)

lemma same_lits_refl [simp]: "same_lits m m"
  by (simp add: same_lits_def option.rel_refl)

lemma same_lits_trans: "same_lits m m' \<Longrightarrow> same_lits m' m'' \<Longrightarrow> same_lits m m''"
  unfolding same_lits_def
proof
  fix a assume "\<forall>a. rel_option same_sclause (m a) (m' a)" "\<forall>a. rel_option same_sclause (m' a) (m'' a)"
  then have "rel_option same_sclause (m a) (m' a)" "rel_option same_sclause (m' a) (m'' a)" by blast+
  then show "rel_option same_sclause (m a) (m'' a)"
    by (cases "m a"; cases "m' a"; cases "m'' a") (simp_all add: same_sclause_def)
qed

lemma same_lits_upd:
  "m a = Some c \<Longrightarrow> mset (so_literals c') = mset (so_literals c) \<Longrightarrow> so_garbage c' = so_garbage c \<Longrightarrow>
   so_id c' = so_id c \<Longrightarrow> so_redundant c' = so_redundant c \<Longrightarrow> same_lits m (m(a \<mapsto> c'))"
  by (simp add: same_lits_def option.rel_refl same_sclause_def)

lemma same_litsD:
  assumes "same_lits m m'" "m a = Some c"
  obtains d where "m' a = Some d" "mset (so_literals d) = mset (so_literals c)" "set (so_literals d) = set (so_literals c)"
    "so_garbage d = so_garbage c"
proof -
  have "rel_option same_sclause (Some c) (m' a)" using assms by (metis same_lits_def)
  then obtain d where d: "m' a = Some d" "mset (so_literals c) = mset (so_literals d)" "so_garbage c = so_garbage d"
    by (auto simp: option_rel_Some1 same_sclause_def)
  then show thesis using that mset_eq_setD [OF d(2)] by metis
qed

lemma reason_ok_mem:
  assumes "same_core s t" "same_lits (nt_mem s) (nt_mem t)" "reason_ok F s p"
  shows "reason_ok F t p"
proof -
  have c: "nt_level t = nt_level s" "nt_control t = nt_control s" using assms(1) by (simp_all add: same_core_def)
  have m: "(\<exists>d. nt_mem t a = Some d \<and> l \<in> set (so_literals d) \<and> (\<forall>k \<in> set (so_literals d). P k))"
    if x: "\<exists>c. nt_mem s a = Some c \<and> l \<in> set (so_literals c) \<and> (\<forall>k \<in> set (so_literals c). P k)" for a l P
  proof -
    obtain c where c: "nt_mem s a = Some c" "l \<in> set (so_literals c)" "\<forall>k \<in> set (so_literals c). P k" using x by blast
    show ?thesis using same_litsD [OF assms(2) c(1)] c(2,3) by metis
  qed
  show ?thesis
    using assms(3) unfolding reason_ok_def same_core_cong [OF assms(1)] c
    by (cases "va_reason (nt_var s (nt_trail s ! p))"; cases "lit_level s (nt_trail s ! p) = 0")
      (simp_all add: Let_def, blast intro: m)
qed

lemma sat_at_mem:
  assumes "same_core s t" "same_lits (nt_mem s) (nt_mem t)" "nt_mem s a \<noteq> None"
  shows "sat_at t p a = sat_at s p a"
proof -
  obtain c where c: "nt_mem s a = Some c" using assms(3) by auto
  obtain d where d: "nt_mem t a = Some d" "set (so_literals d) = set (so_literals c)" "so_garbage d = so_garbage c"
    using same_litsD [OF assms(2) c] by metis
  show ?thesis using c d by (simp add: sat_at_def nt_deref_def nt_literals_def same_core_cong [OF assms(1)])
qed

lemma nt_wf_mem:
  assumes "nt_wf F s" "same_core s t" "same_lits (nt_mem s) (nt_mem t)" "mem_inv F (nt_max_var s) (nt_mem t)"
    "watch_inv (nt_max_var s) (nt_mem t) (nt_wtab t)"
  shows "nt_wf F t"
  using assms(1) reason_ok_mem [OF assms(2,3)] assms(4,5)
  unfolding nt_wf_def nt_reasons_inv_def same_core_cong [OF assms(2)] by blast

lemma mem_inv_upd:
  assumes "mem_inv F n m" "m a = Some c" "mset (so_literals c') = mset (so_literals c)"
    "2 \<le> so_pos c'" "so_pos c' \<le> length (so_literals c')"
  shows "mem_inv F n (m(a \<mapsto> c'))"
proof -
  have s: "set (so_literals c') = set (so_literals c)" "length (so_literals c') = length (so_literals c)"
    "distinct (so_literals c') = distinct (so_literals c)"
    using mset_eq_setD [OF assms(3)] mset_eq_length [OF assms(3)] mset_eq_imp_distinct_iff [OF assms(3)] by simp_all
  have c: "sclause_ok n c" "entails F (so_literals c)" using assms(1,2) by (auto simp: mem_inv_def)
  then have "sclause_ok n c'" using s assms(4,5) by (simp add: sclause_ok_def)
  moreover have "entails F (so_literals c')" using c(2) entails_cong_set [OF s(1)] by simp
  ultimately show ?thesis using assms(1) by (auto simp: mem_inv_def)
qed

text \<open>At a place of the current decision level everything assigned counts.\<close>

lemma level_at_current:
  assumes "nt_level_inv s" "lv_trail (nt_control s ! nt_level s) \<le> p"
  shows "level_at s p n"
  unfolding level_at_def
proof (intro allI impI)
  fix k assume k: "1 \<le> k" "k \<le> nt_level s" "p < lv_trail (nt_control s ! k)"
  have "sorted (map lv_trail (nt_control s))" "nt_level s < length (nt_control s)" using assms(1) by (simp_all add: nt_level_inv_def)
  then have "map lv_trail (nt_control s) ! k \<le> map lv_trail (nt_control s) ! nt_level s"
    using k by (intro sorted_nth_mono) auto
  then show "n < k" using k assms by (simp add: nt_level_inv_def)
qed

subsection \<open>The loop over the watches of a literal\<close>

abbreviation put_watches :: "int \<Rightarrow> Watch list \<Rightarrow> 'v Internal \<Rightarrow> 'v Internal" where
  "put_watches l ws s \<equiv> s\<lparr>nt_wtab := (nt_wtab s)(l := ws)\<rparr>"

definition falsified :: "'v Internal \<Rightarrow> nat \<Rightarrow> bool" where
  "falsified s a \<longleftrightarrow> (\<exists>c. nt_mem s a = Some c \<and> (\<forall>l \<in> set (so_literals c). - l \<in> set (nt_trail s)))"

text \<open>What one state has from another by assigning and by reordering clauses.\<close>

definition nt_ext :: "'v Internal \<Rightarrow> 'v Internal \<Rightarrow> bool" where
  "nt_ext s t \<longleftrightarrow> (\<exists>e. nt_trail t = nt_trail s @ e) \<and> nt_level t = nt_level s \<and> nt_control t = nt_control s
     \<and> nt_max_var t = nt_max_var s \<and> nt_opts t = nt_opts s \<and> nt_propagated t = nt_propagated s
     \<and> (\<forall>k \<in> set (nt_trail s). nt_var t k = nt_var s k) \<and> same_lits (nt_mem s) (nt_mem t)"

lemma nt_ext_refl [simp]: "nt_ext s s"
  by (simp add: nt_ext_def)

lemma nt_ext_trans: "nt_ext s t \<Longrightarrow> nt_ext t u \<Longrightarrow> nt_ext s u"
  unfolding nt_ext_def using same_lits_trans by (auto 0 3 simp: append_assoc)

lemma nt_ext_same: "nt_same s t \<Longrightarrow> nt_ext s t"
  by (auto simp: nt_ext_def nt_same_def nt_var_def)

lemma nt_ext_assign: "nt_trail_inv s \<Longrightarrow> nt_val s l = 0 \<Longrightarrow> lit_ok (nt_max_var s) l \<Longrightarrow> nt_ext s (search_assign l r s)"
  using assign_frame(1) [of s l _ r] by (simp add: nt_ext_def search_assign_fields)

lemma sat_at_ext:
  assumes "nt_ext s t" "nt_mem s a \<noteq> None" "sat_at s p a"
  shows "sat_at t p a"
proof -
  obtain c where c: "nt_mem s a = Some c" using assms(2) by auto
  obtain d where d: "nt_mem t a = Some d" "set (so_literals d) = set (so_literals c)" "so_garbage d = so_garbage c"
    using same_litsD [of "nt_mem s" "nt_mem t" a c] assms(1) c by (metis nt_ext_def)
  have "level_at t = level_at s" using assms(1) by (simp add: nt_ext_def level_at_def fun_eq_iff)
  then show ?thesis using assms(1,3) c d by (auto simp: sat_at_def nt_ext_def nt_deref_def nt_literals_def lit_level_def)
qed

lemma falsified_ext: "nt_ext s t \<Longrightarrow> falsified s a \<Longrightarrow> falsified t a"
  unfolding falsified_def nt_ext_def by (auto elim!: same_litsD)

definition pl_inv :: "clause set \<Rightarrow> int \<Rightarrow> nat \<Rightarrow> Watch list \<Rightarrow> ('v :: linorder) Internal \<Rightarrow> bool" where
  "pl_inv F l p ws s \<longleftrightarrow> nt_wf F (put_watches l ws s) \<and> nt_dc_inv s \<and> lit_ok (nt_max_var s) l
     \<and> p < length (nt_trail s) \<and> nt_trail s ! p = - l \<and> nt_done (put_watches l ws s) p
     \<and> lv_trail (nt_control s ! nt_level s) \<le> p \<and> (\<forall>a. nt_conflict s = Some a \<longrightarrow> falsified s a)"

lemma put_frame [simp]:
  "nt_val (put_watches l ws s) = nt_val s" "nt_var (put_watches l ws s) = nt_var s"
  "lit_level (put_watches l ws s) = lit_level s" "level_at (put_watches l ws s) = level_at s"
  "nt_trail_inv (put_watches l ws s) = nt_trail_inv s" "nt_level_inv (put_watches l ws s) = nt_level_inv s"
  "nt_reasons_inv F (put_watches l ws s) = nt_reasons_inv F s" "sat_at (put_watches l ws s) = sat_at s"
  "nt_deref (put_watches l ws s) = nt_deref s" "nt_literals (put_watches l ws s) = nt_literals s"
  "assignable F k r (put_watches l ws s) = assignable F k r s"
proof -
  have c: "same_core s (put_watches l ws s)" "same_core (put_watches l ws s) s" by (simp_all add: same_core_def)
  show f: "nt_val (put_watches l ws s) = nt_val s" "nt_var (put_watches l ws s) = nt_var s"
    "lit_level (put_watches l ws s) = lit_level s" "level_at (put_watches l ws s) = level_at s"
    "nt_trail_inv (put_watches l ws s) = nt_trail_inv s" "nt_level_inv (put_watches l ws s) = nt_level_inv s"
    using same_core_cong [OF c(1)] by simp_all
  show "nt_reasons_inv F (put_watches l ws s) = nt_reasons_inv F s"
    using reason_ok_mem [OF c(1)] reason_ok_mem [OF c(2)] by (auto simp: nt_reasons_inv_def)
  show "nt_deref (put_watches l ws s) = nt_deref s" "nt_literals (put_watches l ws s) = nt_literals s"
    by (simp_all add: nt_deref_def nt_literals_def fun_eq_iff)
  then show "sat_at (put_watches l ws s) = sat_at s" using f by (simp add: sat_at_def fun_eq_iff)
  show "assignable F k r (put_watches l ws s) = assignable F k r s" using f by (simp add: assignable_def split: reason.split)
qed

lemma pl_invD:
  assumes "pl_inv F l p ws s"
  shows "nt_trail_inv s" "nt_level_inv s" "nt_reasons_inv F s" "mem_inv F (nt_max_var s) (nt_mem s)"
    "watch_inv (nt_max_var s) (nt_mem s) ((nt_wtab s)(l := ws))" "nt_dc_inv s" "lit_ok (nt_max_var s) l"
    "p < length (nt_trail s)" "nt_trail s ! p = - l" "- l \<in> set (nt_trail s)"
    "lv_trail (nt_control s ! nt_level s) \<le> p" "nt_conflict s = Some a \<Longrightarrow> falsified s a"
    "nt_done (put_watches l ws s) p"
proof -
  show x: "nt_trail_inv s" "nt_level_inv s" "nt_reasons_inv F s" "mem_inv F (nt_max_var s) (nt_mem s)"
    "watch_inv (nt_max_var s) (nt_mem s) ((nt_wtab s)(l := ws))" "nt_dc_inv s" "lit_ok (nt_max_var s) l"
    "p < length (nt_trail s)" "nt_trail s ! p = - l" 
    "lv_trail (nt_control s ! nt_level s) \<le> p" "nt_conflict s = Some a \<Longrightarrow> falsified s a" "nt_done (put_watches l ws s) p"
    using assms by (simp_all add: pl_inv_def nt_wf_def)
  show "- l \<in> set (nt_trail s)" using x(8,9) by (metis nth_mem)
qed

text \<open>The propagated literal is at no other place of the trail, so that its watches do not matter before it.\<close>

lemma nt_done_put:
  assumes "nt_trail_inv s" "p < length (nt_trail s)" "nt_trail s ! p = - l"
  shows "nt_done (put_watches l ws s) p \<longleftrightarrow>
    (\<forall>k w q. lit_ok (nt_max_var s) k \<longrightarrow> k \<noteq> l \<longrightarrow> w \<in> set (nt_wtab s k) \<longrightarrow> q < p \<longrightarrow> nt_trail s ! q = - k \<longrightarrow> sat_at s q (wa_clause w))"
proof -
  have d: "distinct (nt_trail s)" using assms(1) by (simp add: nt_trail_inv_def distinct_map)
  have "nt_trail s ! q \<noteq> - l" if "q < p" for q
    using nth_eq_iff_index_eq [OF d, of q p] that assms(2,3) by auto
  then show ?thesis using assms(2) by (auto simp: nt_done_def)
qed

lemma search_assign_put:
  "same_core (search_assign x r (put_watches l ws s)) (put_watches l ws (search_assign x r s))"
proof -
  have "assigned_level x r (put_watches l ws s) = assigned_level x r s"
    by (simp add: assigned_level_def assignment_level_def split: reason.split cong: if_cong)
  then show ?thesis by (simp add: same_core_def search_assign_fields)
qed

text \<open>The steps of the loop.\<close>

lemma pl_sub:
  assumes "pl_inv F l p ws s" "watches_ok (nt_mem s) l vs"
    "\<And>a c. nt_mem s a = Some c \<Longrightarrow> \<not> so_garbage c \<Longrightarrow> a \<in> wa_clause ` set ws \<Longrightarrow> a \<in> wa_clause ` set vs"
  shows "pl_inv F l p vs s"
proof -
  note d = pl_invD [OF assms(1)]
  have "nt_done (put_watches l vs s) p" using d(13) unfolding nt_done_put [OF d(1,8,9)] .
  then show ?thesis using assms(1) sub_watch [OF d(5) assms(2,3)] by (simp add: pl_inv_def nt_wf_def)
qed

lemma nt_done_core:
  assumes "same_core s t" "nt_mem t = nt_mem s" "nt_wtab t = nt_wtab s"
  shows "nt_done t = nt_done s"
proof -
  have "sat_at t = sat_at s"
    by (simp add: sat_at_def fun_eq_iff nt_deref_def nt_literals_def assms(2) same_core_cong [OF assms(1)])
  then show ?thesis by (simp add: nt_done_def fun_eq_iff assms(3) same_core_cong [OF assms(1)])
qed

lemma pl_conflict: "pl_inv F l p ws s \<Longrightarrow> falsified s a \<Longrightarrow> pl_inv F l p ws (s\<lparr>nt_conflict := Some a\<rparr>)"
proof -
  assume pl: "pl_inv F l p ws s" and a: "falsified s a"
  have c: "same_core (put_watches l ws s) (put_watches l ws (s\<lparr>nt_conflict := Some a\<rparr>))" by (simp add: same_core_def)
  have w: "nt_wf F (put_watches l ws (s\<lparr>nt_conflict := Some a\<rparr>))"
    by (rule nt_wf_mem [OF _ c]) (use pl in \<open>simp_all add: pl_inv_def nt_wf_def\<close>)
  have "nt_done (put_watches l ws (s\<lparr>nt_conflict := Some a\<rparr>)) p"
    using nt_done_core [OF c] pl by (simp add: pl_inv_def)
  then show "pl_inv F l p ws (s\<lparr>nt_conflict := Some a\<rparr>)"
    using pl w a by (simp add: pl_inv_def falsified_def nt_dc_inv_def)
qed

lemma pl_same: "pl_inv F l p ws s \<Longrightarrow> nt_same s t \<Longrightarrow> pl_inv F l p ws t"
proof -
  assume pl: "pl_inv F l p ws s" and st: "nt_same s t"
  have p: "nt_same (put_watches l ws s) (put_watches l ws t)" using st by (simp add: nt_same_def)
  have "falsified t a = falsified s a" for a using st by (simp add: falsified_def nt_same_def)
  then show "pl_inv F l p ws t"
    using pl st nt_same_cong(9,11) [OF p] by (simp add: pl_inv_def nt_same_def nt_dc_inv_def)
qed

lemma pl_assign:
  assumes pl: "pl_inv F l p ws s" and a: "assignable F x (Clause_reason b) s"
  shows "pl_inv F l p ws (search_assign x (Clause_reason b) s)" "nt_ext s (search_assign x (Clause_reason b) s)"
proof -
  note d = pl_invD [OF pl]
  let ?t = "search_assign x (Clause_reason b) s"
  have x: "nt_val s x = 0" "lit_ok (nt_max_var s) x" using a by (simp_all add: assignable_def)
  show e: "nt_ext s ?t" using nt_ext_assign [OF d(1) x] .
  have "nt_wf F (put_watches l ws s)" using pl by (simp add: pl_inv_def)
  then have u: "nt_wf F (search_assign x (Clause_reason b) (put_watches l ws s))"
    by (rule search_assign_wf) (simp add: a)
  note core = search_assign_put [where x = x and r = "Clause_reason b" and l = l and ws = ws and s = s]
  have "nt_wf F (put_watches l ws ?t)"
    by (rule nt_wf_mem [OF u core]) (use u in \<open>simp_all add: nt_wf_def search_assign_fields\<close>)
  moreover have "nt_done (search_assign x (Clause_reason b) (put_watches l ws s)) p"
    by (rule nt_done_assign) (use d x in simp_all)
  then have "nt_done (put_watches l ws ?t) p"
    using nt_done_core [OF core] by (simp add: search_assign_fields)
  moreover have "nt_dc_inv ?t" using nt_dc_inv_assign [OF d(6)] x(2) by (simp add: lit_ok_def)
  moreover have "falsified ?t c" if "nt_conflict ?t = Some c" for c
    using falsified_ext [OF e] d(12) that by (simp add: search_assign_fields)
  ultimately show "pl_inv F l p ws ?t"
    using d by (simp add: pl_inv_def search_assign_fields nth_append)
qed

lemma pl_pos:
  assumes pl: "pl_inv F l p ws s" and c: "nt_mem s a = Some c" and k: "2 \<le> k" "k \<le> length (so_literals c)"
  defines "t \<equiv> nt_store a (c\<lparr>so_pos := k\<rparr>) s"
  shows "pl_inv F l p ws t" "nt_ext s t"
proof -
  note d = pl_invD [OF pl]
  have core: "same_core (put_watches l ws s) (put_watches l ws t)" "same_core s t"
    by (simp_all add: same_core_def t_def nt_store_def)
  have sl: "same_lits (nt_mem s) (nt_mem t)" unfolding t_def nt_store_def using same_lits_upd [where m = "nt_mem s", OF c, of "c\<lparr>so_pos := k\<rparr>"] by simp
  show e: "nt_ext s t" using sl by (simp add: nt_ext_def t_def nt_store_def nt_var_def)
  have "nt_wf F (put_watches l ws t)"
  proof (rule nt_wf_mem [OF _ core(1)])
    show "nt_wf F (put_watches l ws s)" using pl by (simp add: pl_inv_def)
    show "mem_inv F (nt_max_var (put_watches l ws s)) (nt_mem (put_watches l ws t))"
      using mem_inv_upd [OF d(4) c, of "c\<lparr>so_pos := k\<rparr>"] k by (simp add: t_def nt_store_def)
    show "watch_inv (nt_max_var (put_watches l ws s)) (nt_mem (put_watches l ws t)) (nt_wtab (put_watches l ws t))"
      using pos_watch [OF d(5) c, of "c\<lparr>so_pos := k\<rparr>"] by (simp add: t_def nt_store_def)
  qed (use sl in simp)
  moreover have "nt_done (put_watches l ws t) p"
  proof -
    have st: "sat_at t q (wa_clause w)" if "lit_ok (nt_max_var s) y" "y \<noteq> l" "w \<in> set (nt_wtab s y)" "sat_at s q (wa_clause w)" for y w q
    proof (rule sat_at_ext [OF e _ that(4)])
      show "nt_mem s (wa_clause w) \<noteq> None" using watch_mem [OF d(5) that(1), of w] that(2,3) by simp
    qed
    have t: "nt_trail_inv t" "p < length (nt_trail t)" "nt_trail t ! p = - l"
      "nt_trail t = nt_trail s" "nt_max_var t = nt_max_var s" "nt_wtab t = nt_wtab s"
      using d(1,8,9) same_core_cong [OF core(2)] by (simp_all add: t_def nt_store_def)
    show ?thesis
      unfolding nt_done_put [OF t(1-3)] unfolding t(4-6)
    proof (intro allI impI)
      fix y w q assume y: "lit_ok (nt_max_var s) y" "y \<noteq> l" "w \<in> set (nt_wtab s y)" "q < p" "nt_trail s ! q = - y"
      then have "sat_at s q (wa_clause w)" using d(13) [unfolded nt_done_put [OF d(1,8,9)]] by blast
      then show "sat_at t q (wa_clause w)" by (rule st [OF y(1-3)])
    qed
  qed
  ultimately show "pl_inv F l p ws t"
    using d falsified_ext [OF e] by (simp add: pl_inv_def t_def nt_store_def nt_dc_inv_def)
qed

lemma pl_move:
  assumes pl: "pl_inv F l p (js @ w # is) s" and c: "nt_mem s (wa_clause w) = Some c" "\<not> so_garbage c"
    and front: "l = so_literals c ! 0 \<or> l = so_literals c ! 1"
    and x: "x = (so_literals c ! 0 XOR so_literals c ! 1) XOR l"
    and k: "2 \<le> k" "k < length (so_literals c)"
    and blit: "blit \<in> set (so_literals c)" "blit \<noteq> so_literals c ! k"
    and new: "\<And>q. q < p \<Longrightarrow> nt_trail s ! q = - (so_literals c ! k) \<Longrightarrow> x \<in> set (nt_trail s) \<and> level_at s q (lit_level s x)"
  defines "c' \<equiv> c\<lparr>so_literals := (so_literals c)[0 := x, 1 := so_literals c ! k, k := l]\<rparr>"
  defines "t \<equiv> watch_literal (so_literals c ! k) blit (wa_clause w) (nt_store (wa_clause w) c' s)"
  shows "pl_inv F l p (js @ is) t" "nt_ext s t"
proof -
  let ?a = "wa_clause w" and ?r = "so_literals c ! k"
  note d = pl_invD [OF pl]
  have ok: "sclause_ok (nt_max_var s) c" using d(4) c(1) by (auto simp: mem_inv_def)
  have dl: "distinct (so_literals c)" "2 \<le> length (so_literals c)" using ok by (simp_all add: sclause_ok_def)
  have ne: "so_literals c \<noteq> []" using dl(2) by auto
  note mv = set_moved [OF dl front k x]
  have ms: "mset (so_literals c') = mset (so_literals c)" using mv(1) by (simp add: c'_def)
  note len = mset_eq_length [OF ms] and st = mset_eq_setD [OF ms]
  have r: "?r \<noteq> l"
    using nth_eq_iff_index_eq [OF dl(1), of k 0] nth_eq_iff_index_eq [OF dl(1), of k 1] k front ne by auto
  define w' where "w' = \<lparr>wa_clause = ?a, wa_blit = blit, wa_size = length (so_literals c)\<rparr>"
  have mem: "nt_mem t = (nt_mem s)(?a \<mapsto> c')" by (simp add: t_def watch_literal_def nt_store_def)
  have wt: "(nt_wtab t)(l := js @ is) = (nt_wtab s)(l := js @ is, ?r := nt_wtab s ?r @ [w'])"
    using r len by (simp add: t_def watch_literal_def nt_store_def nt_literals_def nt_deref_def w'_def fun_upd_twist)
  have core: "same_core s t" "same_core (put_watches l (js @ w # is) s) (put_watches l (js @ is) t)"
    by (simp_all add: same_core_def t_def watch_literal_def nt_store_def)
  have sl: "same_lits (nt_mem s) (nt_mem t)"
    unfolding mem by (rule same_lits_upd [where m = "nt_mem s", OF c(1) ms]) (simp_all add: c'_def)
  show e: "nt_ext s t" using sl core(1) by (simp add: nt_ext_def same_core_def nt_var_def) (simp add: t_def watch_literal_def nt_store_def)
  have "nt_wf F (put_watches l (js @ is) t)"
  proof (rule nt_wf_mem [OF _ core(2)])
    show "nt_wf F (put_watches l (js @ w # is) s)" using pl by (simp add: pl_inv_def)
    show "mem_inv F (nt_max_var (put_watches l (js @ w # is) s)) (nt_mem (put_watches l (js @ is) t))"
      using mem_inv_upd [OF d(4) c(1) ms] ok len by (simp add: mem c'_def sclause_ok_def)
    have "watch_inv (nt_max_var s) ((nt_mem s)(?a \<mapsto> c')) ((nt_wtab s)(l := js @ is, ?r := nt_wtab s ?r @ [w']))"
      by (rule move_watch [OF d(5) c(1) ok c(2) d(7) front x k]) (use blit in \<open>simp_all add: c'_def w'_def\<close>)
    then show "watch_inv (nt_max_var (put_watches l (js @ w # is) s)) (nt_mem (put_watches l (js @ is) t))
        (nt_wtab (put_watches l (js @ is) t))"
      by (simp add: mem wt)
  qed (use sl in simp)
  moreover have "nt_done (put_watches l (js @ is) t) p"
  proof -
    have tt: "nt_trail_inv t" "p < length (nt_trail t)" "nt_trail t ! p = - l" "nt_trail t = nt_trail s"
      "nt_max_var t = nt_max_var s"
      using d(1,8,9) same_core_cong [OF core(1)] by simp_all
    show ?thesis
      unfolding nt_done_put [OF tt(1-3)] unfolding tt(4,5)
    proof (intro allI impI)
      fix y v q assume y: "lit_ok (nt_max_var s) y" "y \<noteq> l" "v \<in> set (nt_wtab t y)" "q < p" "nt_trail s ! q = - y"
      have "nt_wtab t y = (if y = ?r then nt_wtab s y @ [w'] else nt_wtab s y)"
        using fun_cong [OF wt, of y] y(2) by (auto split: if_splits)
      then consider "v \<in> set (nt_wtab s y)" | "y = ?r" "v = w'" using y(3) by (auto split: if_splits)
      then show "sat_at t q (wa_clause v)"
      proof cases
        case 1
        have "sat_at s q (wa_clause v)" using d(13) [unfolded nt_done_put [OF d(1,8,9)]] y(1,2,4,5) 1 by blast
        moreover have "nt_mem s (wa_clause v) \<noteq> None" using watch_mem [OF d(5) y(1), of v] y(2) 1 by simp
        ultimately show ?thesis using sat_at_ext [OF e] by blast
      next
        case 2
        have "x \<in> set (so_literals c)" using watched_pair(2) [OF dl front] x by simp
        moreover have "x \<in> set (nt_trail s)" "level_at s q (lit_level s x)" using new y(4,5) 2 by blast+
        ultimately have "sat_at s q ?a" using c(1) by (auto simp: sat_at_def nt_literals_def nt_deref_def)
        then show ?thesis using sat_at_ext [OF e, of ?a] c(1) 2 by (simp add: w'_def)
      qed
    qed
  qed
  moreover have f: "nt_decide t = nt_decide s" "nt_max_var t = nt_max_var s" "nt_trail t = nt_trail s" "nt_control t = nt_control s"
    "nt_level t = nt_level s" "nt_conflict t = nt_conflict s"
    by (simp_all add: t_def watch_literal_def nt_store_def)
  moreover have "falsified t b" if "nt_conflict s = Some b" for b using falsified_ext [OF e d(12) [OF that]] .
  ultimately show "pl_inv F l p (js @ is) t"
    using d(6-9,11) unfolding pl_inv_def nt_dc_inv_def f by blast
qed

end
