(* ===== verification/Cdcl_Bcp.thy ===== *)
theory Cdcl_Bcp
  imports Cdcl_Propagate
begin

text \<open>The loops of propagation: over the watches of a literal and over the trail.\<close>

subsection \<open>The branches for a long clause\<close>

lemma find_replacement_spec:
  assumes "find_replacement val lits pos = (k, v)" "2 \<le> pos" "pos \<le> length lits"
  shows "2 \<le> k" "k \<le> length lits" "v \<ge> 0 \<Longrightarrow> k < length lits \<and> v = val (lits ! k)"
    "v < 0 \<Longrightarrow> 2 \<le> j \<Longrightarrow> j < length lits \<Longrightarrow> val (lits ! j) < 0"
proof -
  let ?P = "\<lambda>k. val (lits ! k) \<ge> 0"
  consider (first) i where "List.find ?P [pos..<length lits] = Some i" "k = i" "v = val (lits ! i)"
    | (second) i where "List.find ?P [2..<pos] = Some i" "k = i" "v = val (lits ! i)"
    | (none) "List.find ?P [pos..<length lits] = None" "List.find ?P [2..<pos] = None" "k = pos" "v = - 1"
    using assms(1) unfolding find_replacement_def by (auto split: option.splits)
  then have "2 \<le> k \<and> k \<le> length lits \<and> (v \<ge> 0 \<longrightarrow> k < length lits \<and> v = val (lits ! k))
    \<and> (v < 0 \<longrightarrow> 2 \<le> j \<longrightarrow> j < length lits \<longrightarrow> val (lits ! j) < 0)"
  proof cases
    case first
    then show ?thesis using find_range_Some [OF first(1)] assms(2) by auto
  next
    case second
    then show ?thesis using find_range_Some [OF second(1)] assms(3) by auto
  next
    case none
    then show ?thesis using assms(2,3) find_range_None [of ?P pos "length lits"] find_range_None [of ?P 2 pos]
      by (auto simp: not_le)
  qed
  then show "2 \<le> k" "k \<le> length lits" "v \<ge> 0 \<Longrightarrow> k < length lits \<and> v = val (lits ! k)"
    "v < 0 \<Longrightarrow> 2 \<le> j \<Longrightarrow> j < length lits \<Longrightarrow> val (lits ! j) < 0" by auto
qed

lemma assignment_level_attained:
  assumes "0 < assignment_level lit (Clause_reason a) s"
  shows "\<exists>k \<in> set (nt_literals s a). k \<noteq> lit \<and> lit_level s k = assignment_level lit (Clause_reason a) s"
proof -
  have "fold (\<lambda>x r. if x = lit then r else max r (f x)) ls m = m
      \<or> (\<exists>k \<in> set ls. k \<noteq> lit \<and> f k = fold (\<lambda>x r. if x = lit then r else max r (f x)) ls m)" for f :: "int \<Rightarrow> nat" and ls m
  proof (induction ls arbitrary: m)
    case (Cons k ls)
    show ?case using Cons [of m] Cons [of "max m (f k)"] by (auto simp: max_def)
  qed simp
  from this [of "\<lambda>k. va_level (nt_var s k)" "nt_literals s a" 0] show ?thesis
    using assms by (auto simp: assignment_level_def lit_level_def)
qed

text \<open>The other literals of a clause when the watch and everything behind the watches is false.\<close>

lemma others_false:
  assumes t: "nt_trail_inv s" "- l \<in> set (nt_trail s)" and c: "sclause_ok n c"
    and front: "l = so_literals c ! 0 \<or> l = so_literals c ! 1"
    and x: "x = (so_literals c ! 0 XOR so_literals c ! 1) XOR l"
    and f: "\<And>j. 2 \<le> j \<Longrightarrow> j < length (so_literals c) \<Longrightarrow> nt_val s (so_literals c ! j) < 0"
    and k: "k \<in> set (so_literals c)" "k \<noteq> x"
  shows "- k \<in> set (nt_trail s)"
proof -
  have dl: "distinct (so_literals c)" "2 \<le> length (so_literals c)" "0 \<notin> set (so_literals c)"
    using c by (auto simp: sclause_ok_def lit_ok_def)
  note pair = watched_pair [OF dl(1,2) front, folded x]
  obtain j where j: "j < length (so_literals c)" "k = so_literals c ! j" using k(1) by (auto simp: in_set_conv_nth)
  show ?thesis
  proof (cases "2 \<le> j")
    case True
    have "nt_val s k < 0" using f [OF True j(1)] j(2) by simp
    moreover have "k \<noteq> 0" using k(1) dl(3) by metis
    ultimately show ?thesis by (simp add: nt_val_trail [OF t(1)] trail_val_simps)
  next
    case False
    then have "j = 0 \<or> j = 1" by auto
    then have "k = l" using j(2) k(2) pair(4) by auto
    then show ?thesis using t(2) by simp
  qed
qed

lemma assignable_same: "nt_same s t \<Longrightarrow> assignable F x r t = assignable F x r s"
  using nt_same_cong [of s t] by (auto simp: assignable_def nt_same_def split: reason.split)

lemma pl_unit:
  assumes pl: "pl_inv F l p ws s" and a: "assignable F x (Clause_reason b) s"
  defines "t \<equiv> search_assign x (Clause_reason b) (build_chain_for_units x b False s)"
  shows "pl_inv F l p ws t" "nt_ext s t" "nt_mem t = nt_mem s" "x \<in> set (nt_trail t)"
proof -
  let ?u = "build_chain_for_units x b False s"
  have u: "nt_same s ?u" by simp
  note q = pl_assign [OF pl_same [OF pl u], of x b]
  have a': "assignable F x (Clause_reason b) ?u" using a assignable_same [OF u] by simp
  show "pl_inv F l p ws t" unfolding t_def by (rule q(1) [OF a'])
  show "nt_ext s t" unfolding t_def by (rule nt_ext_trans [OF nt_ext_same [OF u] q(2) [OF a']])
  show "nt_mem t = nt_mem s" "x \<in> set (nt_trail t)" using u by (simp_all add: t_def search_assign_fields nt_same_def)
qed

lemma lit_level_unit:
  assumes "nt_trail_inv s" "nt_val s x = 0" "lit_ok (nt_max_var s) x"
  shows "lit_level (search_assign x (Clause_reason b) (build_chain_for_units x b False s)) x = assigned_level x (Clause_reason b) s"
proof -
  let ?u = "build_chain_for_units x b False s"
  have u: "nt_same s ?u" by simp
  have "assignment_level x (Clause_reason b) ?u = assignment_level x (Clause_reason b) s"
    using nt_same_cong [OF u] by (simp add: assignment_level_def cong: if_cong)
  then have "assigned_level x (Clause_reason b) ?u = assigned_level x (Clause_reason b) s"
    using u by (simp add: assigned_level_def nt_same_def)
  moreover have "nt_trail_inv ?u" "nt_val ?u x = 0" "lit_ok (nt_max_var ?u) x"
    using u assms nt_same_cong [OF u] by (simp_all add: nt_same_def nt_trail_inv_def)
  ultimately show ?thesis using assign_frame(3) by metis
qed

text \<open>With strong chronological backtracking the watch moves to a literal of the level of the unit.\<close>

lemma pl_chrono:
  assumes pl: "pl_inv F l p (js @ w # is) s" and c: "nt_mem s (wa_clause w) = Some c" "\<not> so_garbage c"
    and front: "l = so_literals c ! 0 \<or> l = so_literals c ! 1"
    and x: "x = (so_literals c ! 0 XOR so_literals c ! 1) XOR l"
    and a: "assignable F x (Clause_reason (wa_clause w)) s"
    and ch: "co_chrono (nt_opts s) > 1"
  defines "t \<equiv> search_assign x (Clause_reason (wa_clause w)) (build_chain_for_units x (wa_clause w) False s)"
  assumes lev: "lit_level t l < lit_level t x"
  obtains j where "List.find (\<lambda>j. lit_level t (so_literals c ! j) = lit_level t x) [2..<length (so_literals c)] = Some j"
    "2 \<le> j" "j < length (so_literals c)"
    "pl_inv F l p (js @ is) (watch_literal (so_literals c ! j) x (wa_clause w)
       (nt_store (wa_clause w) (c\<lparr>so_literals := (so_literals c)[j := l, 0 := x, 1 := so_literals c ! j]\<rparr>) t))"
    "nt_ext t (watch_literal (so_literals c ! j) x (wa_clause w)
       (nt_store (wa_clause w) (c\<lparr>so_literals := (so_literals c)[j := l, 0 := x, 1 := so_literals c ! j]\<rparr>) t))"
proof -
  let ?b = "wa_clause w" and ?ls = "so_literals c"
  note d = pl_invD [OF pl]
  note u = pl_unit [OF pl a, folded t_def]
  note d' = pl_invD [OF u(1)]
  have ok: "sclause_ok (nt_max_var s) c" using d(4) c(1) by (auto simp: mem_inv_def)
  have dl: "distinct ?ls" "2 \<le> length ?ls" using ok by (simp_all add: sclause_ok_def)
  have ne: "?ls \<noteq> []" using dl(2) by auto
  note pair = watched_pair [OF dl front, folded x]
  have xs: "nt_val s x = 0" "lit_ok (nt_max_var s) x" using a by (simp_all add: assignable_def)
  have lits: "nt_literals s ?b = ?ls" using c(1) by (simp add: nt_literals_def nt_deref_def)
  have lx: "lit_level t x = assignment_level x (Clause_reason ?b) s"
    using lit_level_unit [OF d(1) xs, of ?b] ch by (simp add: t_def assigned_level_def)
  have same: "lit_level t k = lit_level s k" if "k \<in> set ?ls" "k \<noteq> x" for k
  proof -
    have "- k \<in> set (nt_trail s)" using a c(1) that by (auto simp: assignable_def)
    then have "nt_var t (- k) = nt_var s (- k)" using u(2) by (simp add: nt_ext_def)
    then show ?thesis by (simp add: lit_level_def nt_var_def)
  qed
  obtain k where k: "k \<in> set ?ls" "k \<noteq> x" "lit_level t k = lit_level t x"
    using assignment_level_attained [of x ?b s] lev lx same by (auto simp: lits)
  then obtain i where i: "i < length ?ls" "k = ?ls ! i" by (auto simp: in_set_conv_nth)
  have "2 \<le> i"
  proof (rule ccontr)
    assume "\<not> 2 \<le> i"
    then have "i = 0 \<or> i = 1" by auto
    then have "k = l" using i(2) k(2) pair(4) by auto
    then show False using k(3) lev by simp
  qed
  then obtain j where j: "List.find (\<lambda>j. lit_level t (?ls ! j) = lit_level t x) [2..<length ?ls] = Some j"
    using find_range_None [of "\<lambda>j. lit_level t (?ls ! j) = lit_level t x" 2 "length ?ls"] i k(3)
    by (cases "List.find (\<lambda>j. lit_level t (?ls ! j) = lit_level t x) [2..<length ?ls]") auto
  note jr = find_range_Some [OF j]
  have eq: "?ls[j := l, 0 := x, 1 := ?ls ! j] = ?ls[0 := x, 1 := ?ls ! j, j := l]"
    using jr by (simp add: list_update_swap)
  have "x \<noteq> ?ls ! j"
    using nth_eq_iff_index_eq [OF dl(1), of j 0] nth_eq_iff_index_eq [OF dl(1), of j 1] jr pair(4) ne by auto
  moreover have "x \<in> set (nt_trail t) \<and> level_at t q (lit_level t x)" if "q < p" "nt_trail t ! q = - (?ls ! j)" for q
  proof -
    have "reason_ok F t q" using d'(3,8) that(1) by (simp add: nt_reasons_inv_def)
    then have "level_at t q (lit_level t (?ls ! j))" using that(2) by (simp add: reason_ok_def Let_def)
    then show ?thesis using jr u(4) by simp
  qed
  ultimately have "pl_inv F l p (js @ is) (watch_literal (?ls ! j) x ?b (nt_store ?b (c\<lparr>so_literals := ?ls[0 := x, 1 := ?ls ! j, j := l]\<rparr>) t))"
    "nt_ext t (watch_literal (?ls ! j) x ?b (nt_store ?b (c\<lparr>so_literals := ?ls[0 := x, 1 := ?ls ! j, j := l]\<rparr>) t))"
    using pl_move [OF u(1), where k = j and c = c and x = x and blit = x] c front x jr pair(2) u(3) by simp_all
  then show thesis using that [OF j] jr eq by simp
qed

subsection \<open>The loop over the watches\<close>

lemma pl_watch:
  assumes "pl_inv F l p ws s" "w \<in> set ws"
  obtains c where "nt_mem s (wa_clause w) = Some c" "wa_size w = length (so_literals c)" "l \<in> set (so_literals c)"
    "wa_blit w \<in> set (so_literals c)" "wa_blit w \<noteq> l" "l = so_literals c ! 0 \<or> l = so_literals c ! 1"
    "sclause_ok (nt_max_var s) c" "entails F (so_literals c)"
proof -
  note d = pl_invD [OF assms(1)]
  have "w \<in> set (((nt_wtab s)(l := ws)) l)" using assms(2) by simp
  from watch_okD [OF d(5,7) this] obtain c where c: "nt_mem s (wa_clause w) = Some c" "wa_size w = length (so_literals c)"
    "l \<in> set (so_literals c)" "wa_blit w \<in> set (so_literals c)" "wa_blit w \<noteq> l" "l = so_literals c ! 0 \<or> l = so_literals c ! 1" .
  moreover have "sclause_ok (nt_max_var s) c" "entails F (so_literals c)" using d(4) c(1) by (auto simp: mem_inv_def)
  ultimately show thesis by (rule that)
qed

lemma pl_sat:
  assumes "pl_inv F l p ws s" "nt_mem s a = Some c" "b \<in> set (so_literals c)" "nt_val s b > 0"
  shows "sat_at s p a"
proof -
  note d = pl_invD [OF assms(1)]
  have "b \<in> set (nt_trail s)" using assms(4) by (simp add: nt_val_trail [OF d(1)] trail_val_simps split: if_splits)
  then show ?thesis using assms(2,3) level_at_current [OF d(2,11)] by (auto simp: sat_at_def nt_literals_def nt_deref_def)
qed

text \<open>Replacing a blocking literal.\<close>

lemma pl_blit:
  assumes pl: "pl_inv F l p (js @ w # is) s" and c: "nt_mem s (wa_clause w) = Some c" and b: "b \<in> set (so_literals c)" "b \<noteq> l"
  shows "pl_inv F l p ((js @ [w\<lparr>wa_blit := b\<rparr>]) @ is) s"
proof (rule pl_sub [OF pl])
  have "watches_ok (nt_mem s) l (js @ w # is)" using pl_invD(5,7) [OF pl] by (auto simp: watch_inv_def dest: spec [of _ l])
  then show "watches_ok (nt_mem s) l ((js @ [w\<lparr>wa_blit := b\<rparr>]) @ is)"
    using c b by (auto simp: watches_ok_def watch_ok_def)
qed auto

lemma pl_garbage:
  assumes pl: "pl_inv F l p (js @ w # is) s" and c: "nt_mem s (wa_clause w) = Some c" "so_garbage c"
  shows "pl_inv F l p (js @ is) s"
proof (rule pl_sub [OF pl])
  have "watches_ok (nt_mem s) l (js @ w # is)" using pl_invD(5,7) [OF pl] by (auto simp: watch_inv_def dest: spec [of _ l])
  then show "watches_ok (nt_mem s) l (js @ is)" by (auto simp: watches_ok_def)
qed (use c in auto)

definition pl_kept :: "nat \<Rightarrow> Watch list \<Rightarrow> 'v Internal \<Rightarrow> bool" where
  "pl_kept p js s \<longleftrightarrow> nt_conflict s = None \<longrightarrow> (\<forall>w \<in> set js. nt_mem s (wa_clause w) \<noteq> None \<and> sat_at s p (wa_clause w))"

lemma pl_kept_ext: "pl_kept p js s \<Longrightarrow> nt_ext s t \<Longrightarrow> nt_conflict t = nt_conflict s \<Longrightarrow> pl_kept p js t"
  unfolding pl_kept_def using sat_at_ext [of s t]
  by (auto simp: nt_ext_def) (metis not_Some_eq same_litsD)

lemma pl_kept_snoc: "pl_kept p (js @ [w]) s \<longleftrightarrow>
    pl_kept p js s \<and> (nt_conflict s = None \<longrightarrow> nt_mem s (wa_clause w) \<noteq> None \<and> sat_at s p (wa_clause w))"
  by (auto simp: pl_kept_def)

lemma conflict_unit:
  "nt_conflict (search_assign x r (build_chain_for_units y b f s)) = nt_conflict s"
  using build_chain_same [of s y b f] by (simp add: search_assign_fields nt_same_def)

text \<open>The body of the loop for a long clause, with the rest of the loop as continuation.\<close>

definition propagate_long ::
    "int \<Rightarrow> Watch \<Rightarrow> Watch list \<Rightarrow> Watch list \<Rightarrow> 'v Internal \<Rightarrow>
     (Watch list \<Rightarrow> 'v Internal \<Rightarrow> Watch list \<times> 'v Internal) \<Rightarrow> Watch list \<times> 'v Internal" where
  "propagate_long lit w is js s cont =
     (let a = wa_clause w; lits = nt_literals s a;
          other = (lits ! 0 XOR lits ! 1) XOR lit;
          u = nt_val s other in
      if u > 0 then cont (js @ [w\<lparr>wa_blit := other\<rparr>]) s
      else
        (let size = length lits;
             (k, v) = find_replacement (nt_val s) lits (so_pos (nt_deref s a));
             s = nt_store a ((nt_deref s a)\<lparr>so_pos := k\<rparr>) s in
         if v > 0 then cont (js @ [w\<lparr>wa_blit := lits ! k\<rparr>]) s
         else if v = 0 then
           (let r = lits ! k;
                s = nt_store a ((nt_deref s a)\<lparr>so_literals := lits[0 := other, 1 := r, k := lit]\<rparr>) s
            in cont js (watch_literal r lit a s))
         else if u = 0 then
           (let s = search_assign other (Clause_reason a) (build_chain_for_units other a False s);
                other_level = va_level (nt_var s other) in
            if co_chrono (nt_opts s) > 1 \<and> other_level > va_level (nt_var s lit) then
              (let p = (case List.find (\<lambda>p. va_level (nt_var s (lits ! p)) = other_level) [2..<size] of
                          Some p \<Rightarrow> p | None \<Rightarrow> size);
                   t = lits ! (min p (size - 1));
                   s = nt_store a ((nt_deref s a)\<lparr>so_literals := lits[p := lit, 0 := other, 1 := t]\<rparr>) s
               in cont js (watch_literal t other a s))
            else cont (js @ [w]) s)
         else (js @ w # is, s\<lparr>nt_conflict := Some a\<rparr>)))"

lemma propagate_lit_Cons:
  "propagate_lit lit (w # is) js s =
     (let b = nt_val s (wa_blit w); a = wa_clause w in
      if b > 0 then propagate_lit lit is (js @ [w]) s
      else if wa_size w = 2 then
        (if b < 0 then propagate_lit lit is (js @ [w]) (s\<lparr>nt_conflict := Some a\<rparr>)
         else propagate_lit lit is (js @ [w])
                (search_assign (wa_blit w) (Clause_reason a) (build_chain_for_units (wa_blit w) a False s)))
      else if nt_conflict s \<noteq> None then (js @ w # is, s)
      else if so_garbage (nt_deref s a) then propagate_lit lit is js s
      else propagate_long lit w is js s (propagate_lit lit is))"
  by (simp add: propagate_long_def Let_def)

lemma propagate_long_ok:
  assumes pl: "pl_inv F l p (js @ w # is) s" and kept: "pl_kept p js s"
    and c: "nt_mem s (wa_clause w) = Some c" and nc: "nt_conflict s = None" and ng: "\<not> so_garbage c"
    and len: "2 < length (so_literals c)" and front: "l = so_literals c ! 0 \<or> l = so_literals c ! 1"
    and cont: "\<And>js' s'. pl_inv F l p (js' @ is) s' \<Longrightarrow> pl_kept p js' s' \<Longrightarrow> nt_ext s s' \<Longrightarrow>
      pl_inv F l p (fst (f js' s')) (snd (f js' s')) \<and> nt_ext s (snd (f js' s')) \<and> pl_kept p (fst (f js' s')) (snd (f js' s'))"
  defines "r \<equiv> propagate_long l w is js s f"
  shows "pl_inv F l p (fst r) (snd r) \<and> nt_ext s (snd r) \<and> pl_kept p (fst r) (snd r)"
proof -
  let ?a = "wa_clause w" and ?ls = "so_literals c"
  let ?x = "(?ls ! 0 XOR ?ls ! 1) XOR l"
  note d = pl_invD [OF pl]
  have der: "nt_deref s ?a = c" "nt_literals s ?a = ?ls" using c by (simp_all add: nt_deref_def nt_literals_def)
  have ok: "sclause_ok (nt_max_var s) c" using d(4) c by (auto simp: mem_inv_def)
  have dl: "distinct ?ls" "2 \<le> length ?ls" "\<forall>k \<in> set ?ls. lit_ok (nt_max_var s) k" "2 \<le> so_pos c" "so_pos c \<le> length ?ls"
    using ok by (simp_all add: sclause_ok_def)
  have ne: "?ls \<noteq> []" using len by auto
  note pair = watched_pair [OF dl(1,2) front]
  have lin: "l \<in> set ?ls" using front len ne by auto
  show ?thesis
  proof (cases "nt_val s ?x > 0")
    case True
    have "pl_kept p (js @ [w\<lparr>wa_blit := ?x\<rparr>]) s" using kept pl_sat [OF pl c pair(2) True] c by (simp add: pl_kept_snoc)
    then show ?thesis
      using cont [OF pl_blit [OF pl c pair(2,1)]] True by (simp add: r_def propagate_long_def Let_def der)
  next
    case nu: False
    obtain k v where kv: "find_replacement (nt_val s) ?ls (so_pos c) = (k, v)" by fastforce
    note fr = find_replacement_spec [OF kv dl(4,5)]
    let ?c = "c\<lparr>so_pos := k\<rparr>"
    define s1 where "s1 = nt_store ?a ?c s"
    note q1 = pl_pos [OF pl c fr(1,2), folded s1_def]
    have c1: "nt_mem s1 ?a = Some ?c" and der1: "nt_deref s1 ?a = ?c" "nt_literals s1 ?a = ?ls"
      by (simp_all add: s1_def nt_store_def nt_deref_def nt_literals_def)
    have core: "same_core s s1" by (simp add: same_core_def s1_def nt_store_def)
    note v1 = same_core_cong(1) [OF core] 
    have nc1: "nt_conflict s1 = None" using nc by (simp add: s1_def nt_store_def)
    have kept1: "pl_kept p js s1" using pl_kept_ext [OF kept q1(2)] nc nc1 by simp
    note d1 = pl_invD [OF q1(1)]
    have ok1: "sclause_ok (nt_max_var s1) ?c" using d1(4) c1 by (auto simp: mem_inv_def)
    show ?thesis
    proof (cases "v > 0")
      case True
      then have k: "k < length ?ls" "v = nt_val s (?ls ! k)" using fr(3) by auto
      have rl: "?ls ! k \<noteq> l"
        using nth_eq_iff_index_eq [OF dl(1), of k 0] nth_eq_iff_index_eq [OF dl(1), of k 1] k fr(1) front ne len by auto
      have "sat_at s1 p ?a" using pl_sat [OF q1(1) c1, of "?ls ! k"] k True v1 by simp
      then have "pl_kept p (js @ [w\<lparr>wa_blit := ?ls ! k\<rparr>]) s1" using kept1 c1 by (simp add: pl_kept_snoc)
      moreover have "pl_inv F l p ((js @ [w\<lparr>wa_blit := ?ls ! k\<rparr>]) @ is) s1"
        by (rule pl_blit [OF q1(1) c1]) (use k rl in simp_all)
      ultimately show ?thesis
        using cont [OF _ _ q1(2)] nu kv True by (simp add: r_def propagate_long_def Let_def der s1_def)
    next
      case nv: False
      show ?thesis
      proof (cases "v = 0")
        case True
        then have k: "k < length ?ls" "nt_val s1 (?ls ! k) = 0" using fr(3) v1 by auto
        have rl: "?ls ! k \<noteq> l"
          using nth_eq_iff_index_eq [OF dl(1), of k 0] nth_eq_iff_index_eq [OF dl(1), of k 1] k fr(1) front ne len by auto
        have "lit_ok (nt_max_var s1) (?ls ! k)" using ok1 k(1) by (simp add: sclause_ok_def)
        then have "- (?ls ! k) \<notin> set (nt_trail s1)" using trail_fresh [OF d1(1) k(2)] by simp
        then have new: "?x \<in> set (nt_trail s1) \<and> level_at s1 q (lit_level s1 ?x)"
          if "q < p" "nt_trail s1 ! q = - (?ls ! k)" for q
          using that d1(8) by (metis less_trans nth_mem)
        have mv: "pl_inv F l p (js @ is) (watch_literal (?ls ! k) l ?a (nt_store ?a (?c\<lparr>so_literals := ?ls[0 := ?x, 1 := ?ls ! k, k := l]\<rparr>) s1))"
          "nt_ext s1 (watch_literal (?ls ! k) l ?a (nt_store ?a (?c\<lparr>so_literals := ?ls[0 := ?x, 1 := ?ls ! k, k := l]\<rparr>) s1))"
          using pl_move [OF q1(1), where k = k and c = ?c and x = ?x and blit = l] c1 ng front fr(1) k(1) lin rl new by simp_all
        have "pl_kept p js (watch_literal (?ls ! k) l ?a (nt_store ?a (?c\<lparr>so_literals := ?ls[0 := ?x, 1 := ?ls ! k, k := l]\<rparr>) s1))"
          by (rule pl_kept_ext [OF kept1 mv(2)]) (simp_all add: watch_literal_def nt_store_def)
        then show ?thesis
          using cont [OF mv(1) _ nt_ext_trans [OF q1(2) mv(2)]] nu kv True
          by (simp add: r_def propagate_long_def Let_def der s1_def [symmetric] der1)
      next
        case False
        then have neg: "v < 0" using nv by simp
        have others: "- j \<in> set (nt_trail s1)" if "j \<in> set ?ls" "j \<noteq> ?x" for j
          using others_false [OF d1(1,10) ok1, of ?x j] front fr(4) [OF neg] v1 that by simp
        show ?thesis
        proof (cases "nt_val s ?x = 0")
          case True
          have a: "assignable F ?x (Clause_reason ?a) s1"
            using True v1 others pair(2) ok1 c1 by (simp add: assignable_def sclause_ok_def)
          define s2 where "s2 = search_assign ?x (Clause_reason ?a) (build_chain_for_units ?x ?a False s1)"
          have "pl_inv F l p ((js @ [w]) @ is) s1" using q1(1) by simp
          note q2 = pl_unit [OF this a, folded s2_def]
          have nc2: "nt_conflict s2 = nt_conflict s1" by (simp add: s2_def conflict_unit)
          have kept2: "pl_kept p js s2" by (rule pl_kept_ext [OF kept1 q2(2) nc2])
          show ?thesis
          proof (cases "co_chrono (nt_opts s2) > 1 \<and> lit_level s2 l < lit_level s2 ?x")
            case ch: True
            have "nt_opts s2 = nt_opts s1" using q2(2) by (simp add: nt_ext_def)
            with ch have ch': "co_chrono (nt_opts s1) > 1" "lit_level s2 l < lit_level s2 ?x" by simp_all
            obtain j where j: "List.find (\<lambda>j. lit_level s2 (?ls ! j) = lit_level s2 ?x) [2..<length ?ls] = Some j"
              "2 \<le> j" "j < length ?ls"
              "pl_inv F l p (js @ is) (watch_literal (?ls ! j) ?x ?a (nt_store ?a (?c\<lparr>so_literals := ?ls[j := l, 0 := ?x, 1 := ?ls ! j]\<rparr>) s2))"
              "nt_ext s2 (watch_literal (?ls ! j) ?x ?a (nt_store ?a (?c\<lparr>so_literals := ?ls[j := l, 0 := ?x, 1 := ?ls ! j]\<rparr>) s2))"
              using pl_chrono [OF q1(1) c1, of ?x, folded s2_def] ng front a ch' by auto
            have "pl_kept p js (watch_literal (?ls ! j) ?x ?a (nt_store ?a (?c\<lparr>so_literals := ?ls[j := l, 0 := ?x, 1 := ?ls ! j]\<rparr>) s2))"
              by (rule pl_kept_ext [OF kept2 j(5)]) (simp add: watch_literal_def nt_store_def)
            moreover have "nt_deref s2 ?a = ?c" using q2(3) c1 by (simp add: nt_deref_def)
            moreover have "min j (length ?ls - 1) = j" using j(3) by simp
            ultimately show ?thesis
              using cont [OF j(4) _ nt_ext_trans [OF q1(2) nt_ext_trans [OF q2(2) j(5)]]] nu kv False nv True ch j(1)
              by (simp add: r_def propagate_long_def Let_def der s1_def [symmetric] s2_def [symmetric] lit_level_def del: One_nat_def)
          next
            case nch: False
            have "0 < nt_val s2 ?x"
              using q2(4) a by (auto simp: nt_val_trail [OF pl_invD(1) [OF q2(1)]] trail_val_simps assignable_def lit_ok_def)
            then have "sat_at s2 p ?a" using pl_sat [OF q2(1), of ?a ?c ?x] q2(3) c1 pair(2) by simp
            then have "pl_kept p (js @ [w]) s2" using kept2 q2(3) c1 by (simp add: pl_kept_snoc)
            moreover have "r = f (js @ [w]) s2"
              using nu kv False nv True nch
              by (simp add: r_def propagate_long_def Let_def der s1_def [symmetric] s2_def [symmetric] lit_level_def del: One_nat_def) blast
            ultimately show ?thesis using cont [OF q2(1) _ nt_ext_trans [OF q1(2) q2(2)]] by simp
          qed
        next
          case nz: False
          then have "nt_val s1 ?x < 0" using nu v1 by simp
          then have "- ?x \<in> set (nt_trail s1)" by (simp add: nt_val_trail [OF d1(1)] trail_val_simps split: if_splits)
          then have "falsified s1 ?a" using others c1 by (auto simp: falsified_def)
          then have "pl_inv F l p (js @ w # is) (s1\<lparr>nt_conflict := Some ?a\<rparr>)" by (rule pl_conflict [OF q1(1)])
          moreover have "nt_ext s (s1\<lparr>nt_conflict := Some ?a\<rparr>)"
            by (rule nt_ext_trans [OF q1(2)]) (simp add: nt_ext_def nt_var_def)
          moreover have "r = (js @ w # is, s1\<lparr>nt_conflict := Some ?a\<rparr>)"
            using nu kv False nv nz by (simp add: r_def propagate_long_def Let_def der s1_def)
          ultimately show ?thesis by (simp add: pl_kept_def)
        qed
      qed
    qed
  qed
qed

lemma propagate_lit_ok:
  assumes "pl_inv F l p (js @ is) s" "pl_kept p js s" "propagate_lit l is js s = (ws, t)"
  shows "pl_inv F l p ws t \<and> nt_ext s t \<and> pl_kept p ws t"
  using assms
proof (induction "is" arbitrary: js s ws t)
  case Nil
  then show ?case by simp
next
  case (Cons w "is")
  note pl = Cons.prems(1) and kept = Cons.prems(2) and run = Cons.prems(3)
  have pl': "pl_inv F l p ((js @ [w]) @ is) s" using pl by simp
  note d = pl_invD [OF pl]
  have "w \<in> set (js @ w # is)" by simp
  from pl_watch [OF pl this] obtain c where c: "nt_mem s (wa_clause w) = Some c" "wa_size w = length (so_literals c)"
    "l \<in> set (so_literals c)" "wa_blit w \<in> set (so_literals c)" "wa_blit w \<noteq> l" "l = so_literals c ! 0 \<or> l = so_literals c ! 1"
    "sclause_ok (nt_max_var s) c" "entails F (so_literals c)" .
  let ?a = "wa_clause w"
  have der: "nt_deref s ?a = c" "nt_literals s ?a = so_literals c" using c(1) by (simp_all add: nt_deref_def nt_literals_def)
  have ok: "distinct (so_literals c)" "2 \<le> length (so_literals c)" "\<forall>k \<in> set (so_literals c). lit_ok (nt_max_var s) k"
    using c(7) by (simp_all add: sclause_ok_def)
  show ?case
  proof (cases "nt_val s (wa_blit w) > 0")
    case True
    have "pl_kept p (js @ [w]) s" using kept pl_sat [OF pl c(1,4) True] c(1) by (simp add: pl_kept_snoc)
    then show ?thesis using Cons.IH [OF pl'] run True by (simp add: Let_def)
  next
    case nb: False
    show ?thesis
    proof (cases "wa_size w = 2")
      case bin: True
      then have set: "k \<in> set (so_literals c) \<Longrightarrow> k = l \<or> k = wa_blit w" for k
        using c(2-5) by (auto simp: length_Suc_conv numeral_2_eq_2)
      show ?thesis
      proof (cases "nt_val s (wa_blit w) < 0")
        case True
        then have "- wa_blit w \<in> set (nt_trail s)" by (simp add: nt_val_trail [OF d(1)] trail_val_simps split: if_splits)
        then have f: "falsified s ?a" using set c(1) d(10) by (auto simp: falsified_def)
        note q = pl_conflict [OF pl' f]
        have "nt_ext s (s\<lparr>nt_conflict := Some ?a\<rparr>)" by (simp add: nt_ext_def nt_var_def)
        moreover have "pl_kept p (js @ [w]) (s\<lparr>nt_conflict := Some ?a\<rparr>)" by (simp add: pl_kept_def)
        ultimately show ?thesis using Cons.IH [OF q] run bin nb True nt_ext_trans by (simp add: Let_def) blast
      next
        case False
        then have z: "nt_val s (wa_blit w) = 0" using nb by simp
        have a: "assignable F (wa_blit w) (Clause_reason ?a) s"
          using z set c(1,4) d(10) ok(3) by (auto simp: assignable_def)
        note q = pl_unit [OF pl' a]
        let ?t = "search_assign (wa_blit w) (Clause_reason ?a) (build_chain_for_units (wa_blit w) ?a False s)"
        have "0 < nt_val ?t (wa_blit w)"
          using q(4) ok(3) c(4) by (auto simp: nt_val_trail [OF pl_invD(1) [OF q(1)]] trail_val_simps lit_ok_def)
        then have "sat_at ?t p ?a" using pl_sat [OF q(1), of ?a c] q(3) c(1,4) by simp
        then have "pl_kept p (js @ [w]) ?t"
          using pl_kept_ext [OF kept q(2) conflict_unit] q(3) c(1) by (simp add: pl_kept_snoc)
        then show ?thesis using Cons.IH [OF q(1)] run bin nb False nt_ext_trans [OF q(2)] by (simp add: Let_def)
      qed
    next
      case long: False
      show ?thesis
      proof (cases "nt_conflict s = None")
        case False
        then have "(ws, t) = (js @ w # is, s)" using run nb long by (simp add: Let_def)
        then show ?thesis using pl False by (auto simp: pl_kept_def)
      next
        case nc: True
        show ?thesis
        proof (cases "so_garbage c")
          case True
          then show ?thesis using Cons.IH [OF pl_garbage [OF pl c(1)] kept] run nb long nc by (simp add: Let_def der)
        next
          case ng: False
          have len: "2 < length (so_literals c)" using long ok(2) c(2) by simp
          have "pl_inv F l p (fst (propagate_long l w is js s (propagate_lit l is))) (snd (propagate_long l w is js s (propagate_lit l is)))
            \<and> nt_ext s (snd (propagate_long l w is js s (propagate_lit l is)))
            \<and> pl_kept p (fst (propagate_long l w is js s (propagate_lit l is))) (snd (propagate_long l w is js s (propagate_lit l is)))"
          proof (rule propagate_long_ok [OF pl kept c(1) nc ng len c(6)])
            fix js' s' assume "pl_inv F l p (js' @ is) s'" "pl_kept p js' s'" "nt_ext s s'"
            then show "pl_inv F l p (fst (propagate_lit l is js' s')) (snd (propagate_lit l is js' s'))
              \<and> nt_ext s (snd (propagate_lit l is js' s')) \<and> pl_kept p (fst (propagate_lit l is js' s')) (snd (propagate_lit l is js' s'))"
              using Cons.IH [of js' s' "fst (propagate_lit l is js' s')" "snd (propagate_lit l is js' s')"] nt_ext_trans by auto
          qed
          moreover have "propagate_long l w is js s (propagate_lit l is) = (ws, t)"
            using run nb long nc ng unfolding propagate_lit_Cons by (simp add: Let_def der)
          ultimately show ?thesis by simp
        qed
      qed
    qed
  qed
qed

subsection \<open>The loop over the trail\<close>

lemma nt_done_mono: "nt_done s n \<Longrightarrow> m \<le> n \<Longrightarrow> nt_done s m"
  unfolding nt_done_def by (meson less_le_trans)

definition nt_ready :: "clause set \<Rightarrow> ('v :: linorder) Internal \<Rightarrow> bool" where
  "nt_ready F s \<longleftrightarrow> nt_wf F s \<and> nt_dc_inv s \<and> lv_trail (nt_control s ! nt_level s) \<le> nt_propagated s
     \<and> (case nt_conflict s of
          None \<Rightarrow> nt_done s (nt_propagated s)
        | Some a \<Rightarrow> falsified s a \<and> nt_done s (lv_trail (nt_control s ! nt_level s)))"

lemma trail_bound:
  assumes "nt_trail_inv s" shows "length (nt_trail s) \<le> nt_max_var s"
proof -
  have d: "distinct (map abs (nt_trail s))" and k: "\<forall>l \<in> set (nt_trail s). l \<noteq> 0 \<and> \<bar>l\<bar> \<le> int (nt_max_var s)"
    using assms by (auto simp: nt_trail_inv_def lit_ok_def vidx_def)
  have "length (nt_trail s) = card (abs ` set (nt_trail s))" using distinct_card [OF d] by simp
  also have "\<dots> \<le> card {1..int (nt_max_var s)}" by (rule card_mono) (use k in auto)
  finally show ?thesis by simp
qed

text \<open>What a run of propagation keeps, and what it adds.\<close>

definition nt_grown :: "'v Internal \<Rightarrow> 'v Internal \<Rightarrow> bool" where
  "nt_grown s t \<longleftrightarrow> (\<exists>e. nt_trail t = nt_trail s @ e) \<and> nt_level t = nt_level s \<and> nt_control t = nt_control s
     \<and> nt_max_var t = nt_max_var s \<and> nt_opts t = nt_opts s \<and> same_lits (nt_mem s) (nt_mem t)
     \<and> (\<forall>k \<in> set (nt_trail s). nt_var t k = nt_var s k)"

lemma nt_grown_refl [simp]: "nt_grown s s"
  by (simp add: nt_grown_def)

lemma nt_grown_trans: "nt_grown s t \<Longrightarrow> nt_grown t u \<Longrightarrow> nt_grown s u"
  unfolding nt_grown_def using same_lits_trans by auto

lemma propagated_frame [simp]:
  "nt_val (s\<lparr>nt_propagated := n\<rparr>) = nt_val s" "nt_var (s\<lparr>nt_propagated := n\<rparr>) = nt_var s"
  "nt_vals (s\<lparr>nt_propagated := n\<rparr>) = nt_vals s" "nt_deref (s\<lparr>nt_propagated := n\<rparr>) = nt_deref s"
  "nt_literals (s\<lparr>nt_propagated := n\<rparr>) = nt_literals s" "lit_level (s\<lparr>nt_propagated := n\<rparr>) = lit_level s"
  "level_at (s\<lparr>nt_propagated := n\<rparr>) = level_at s" "sat_at (s\<lparr>nt_propagated := n\<rparr>) = sat_at s"
  "reason_ok F (s\<lparr>nt_propagated := n\<rparr>) = reason_ok F s"
proof -
  show a: "nt_vals (s\<lparr>nt_propagated := n\<rparr>) = nt_vals s" "nt_var (s\<lparr>nt_propagated := n\<rparr>) = nt_var s"
    "nt_deref (s\<lparr>nt_propagated := n\<rparr>) = nt_deref s"
    by (simp_all add: nt_vals_def nt_var_def nt_deref_def fun_eq_iff)
  show b: "nt_val (s\<lparr>nt_propagated := n\<rparr>) = nt_val s" "nt_literals (s\<lparr>nt_propagated := n\<rparr>) = nt_literals s"
    "lit_level (s\<lparr>nt_propagated := n\<rparr>) = lit_level s" "level_at (s\<lparr>nt_propagated := n\<rparr>) = level_at s"
    by (simp_all add: nt_val_def nt_literals_def lit_level_def level_at_def a fun_eq_iff)
  show "sat_at (s\<lparr>nt_propagated := n\<rparr>) = sat_at s" "reason_ok F (s\<lparr>nt_propagated := n\<rparr>) = reason_ok F s"
    unfolding sat_at_def reason_ok_def fun_eq_iff a b by (simp_all cong: reason.case_cong)
qed

lemma propagate_step:
  assumes rd: "nt_ready F s" and nc: "nt_conflict s = None" and more: "nt_propagated s < length (nt_trail s)"
  defines "l \<equiv> - (nt_trail s ! nt_propagated s)"
  assumes run: "propagate_lit l (nt_wtab s l) [] (s\<lparr>nt_propagated := nt_propagated s + 1\<rparr>) = (ws, t)"
  shows "nt_ready F (put_watches l ws t) \<and> nt_grown s (put_watches l ws t)
    \<and> nt_propagated (put_watches l ws t) = nt_propagated s + 1"
proof -
  let ?p = "nt_propagated s" and ?s = "s\<lparr>nt_propagated := nt_propagated s + 1\<rparr>"
  have d: "nt_wf F s" "nt_dc_inv s" "nt_done s ?p" "lv_trail (nt_control s ! nt_level s) \<le> ?p"
    using rd nc by (simp_all add: nt_ready_def)
  then have ti: "nt_trail_inv s" by (simp add: nt_wf_def)
  have put: "put_watches l (nt_wtab s l) ?s = ?s" by simp
  have wf: "nt_wf F ?s" using d(1) more by (simp add: nt_wf_defs)
  have "lit_ok (nt_max_var s) l" using ti more by (simp add: nt_trail_inv_def l_def)
  then have pl: "pl_inv F l ?p (nt_wtab s l) ?s"
    unfolding pl_inv_def put using wf d more nc by (simp add: nt_dc_inv_def nt_done_def l_def)
  have "pl_kept ?p [] ?s" by (simp add: pl_kept_def)
  from propagate_lit_ok [OF _ this run] pl
  have q: "pl_inv F l ?p ws t" "nt_ext ?s t" "pl_kept ?p ws t" by simp_all
  note qd = pl_invD [OF q(1)]
  have dc: "nt_dc_inv (put_watches l ws t)" using qd(6) by (simp add: nt_dc_inv_def)
  have pr: "nt_propagated t = ?p + 1" using q(2) by (simp add: nt_ext_def)
  have gr: "nt_grown s (put_watches l ws t)" using q(2) by (auto simp: nt_ext_def nt_grown_def)
  have wf': "nt_wf F (put_watches l ws t)" using q(1) by (simp add: pl_inv_def)
  have "case nt_conflict t of None \<Rightarrow> nt_done (put_watches l ws t) (?p + 1)
    | Some a \<Rightarrow> falsified t a \<and> nt_done (put_watches l ws t) (lv_trail (nt_control t ! nt_level t))"
  proof (cases "nt_conflict t")
    case None
    have "distinct (nt_trail t)" using qd(1) by (simp add: nt_trail_inv_def distinct_map)
    then have only: "q = ?p" if "q < length (nt_trail t)" "nt_trail t ! q = - l" for q
      using nth_eq_iff_index_eq [of "nt_trail t" q ?p] that qd(8,9) by simp
    have "nt_done (put_watches l ws t) (?p + 1)"
      unfolding nt_done_def
    proof (intro allI impI)
      fix k w q
      assume x: "lit_ok (nt_max_var (put_watches l ws t)) k" "w \<in> set (nt_wtab (put_watches l ws t) k)" "q < ?p + 1"
        "q < length (nt_trail (put_watches l ws t))" "nt_trail (put_watches l ws t) ! q = - k"
      show "sat_at (put_watches l ws t) q (wa_clause w)"
      proof (cases "q = ?p")
        case True
        then have "k = l" using x(5) qd(9) by simp
        then show ?thesis using x(2) q(3) None True by (simp add: pl_kept_def)
      next
        case False
        then show ?thesis using qd(13) x unfolding nt_done_def by simp
      qed
    qed
    then show ?thesis using None by simp
  next
    case (Some a)
    then show ?thesis using qd(12) nt_done_mono [OF qd(13) qd(11)] by simp
  qed
  then show ?thesis using wf' dc gr pr qd(11) by (auto simp: nt_ready_def falsified_def split: option.splits)
qed

lemma propagate_loop_ok:
  assumes "nt_ready F s"
  shows "\<exists>t. propagate_loop s = Some t \<and> nt_ready F t \<and> nt_grown s t
    \<and> (nt_conflict t = None \<longrightarrow> nt_propagated t = length (nt_trail t))"
  using assms
proof (induction "nt_max_var s - nt_propagated s" arbitrary: s rule: less_induct)
  case less
  have ti: "nt_trail_inv s" and ple: "nt_propagated s \<le> length (nt_trail s)"
    using less.prems by (simp_all add: nt_ready_def nt_wf_def nt_trail_inv_def)
  show ?case
  proof (cases "nt_conflict s = None \<and> nt_propagated s \<noteq> length (nt_trail s)")
    case False
    then have "propagate_loop s = Some s" by (subst propagate_loop.simps) (simp only: if_False)
    then show ?thesis using less.prems False by (intro exI [of _ s]) auto
  next
    case True
    then have more: "nt_propagated s < length (nt_trail s)" using ple by simp
    define l where "l = - (nt_trail s ! nt_propagated s)"
    obtain ws t where run: "propagate_lit l (nt_wtab s l) [] (s\<lparr>nt_propagated := nt_propagated s + 1\<rparr>) = (ws, t)" by fastforce
    have st: "nt_ready F (put_watches l ws t)" "nt_grown s (put_watches l ws t)"
      "nt_propagated (put_watches l ws t) = nt_propagated s + 1"
      using propagate_step [OF less.prems _ more, of ws t] run True by (simp_all add: l_def)
    have "nt_max_var (put_watches l ws t) - nt_propagated (put_watches l ws t) < nt_max_var s - nt_propagated s"
      using st more trail_bound [OF ti] by (simp add: nt_grown_def)
    from less.hyps [OF this st(1)] obtain u where u: "propagate_loop (put_watches l ws t) = Some u" "nt_ready F u"
      "nt_grown (put_watches l ws t) u" "nt_conflict u = None \<longrightarrow> nt_propagated u = length (nt_trail u)"
    by (elim exE conjE) (rule that)
    have "propagate_loop s = propagate_loop (put_watches l ws t)"
      using True run [unfolded l_def] by (subst propagate_loop.simps) (simp add: Let_def l_def)
    then show ?thesis using u nt_grown_trans [OF st(2) u(3)] by auto
  qed
qed

lemma nt_ready_same: "nt_same s t \<Longrightarrow> nt_ready F t = nt_ready F s"
  using nt_same_cong [of s t]
  by (simp add: nt_ready_def nt_same_def nt_dc_inv_def falsified_def split: option.split)

lemma nt_grown_same: "nt_same t u \<Longrightarrow> nt_grown s t \<Longrightarrow> nt_grown s u"
  by (auto simp: nt_grown_def nt_same_def nt_var_def)

lemma propagate_ok:
  assumes "nt_ready F s"
  obtains t where "propagate s = Some (nt_conflict t = None, t)" "nt_ready F t" "nt_grown s t"
    "nt_conflict t = None \<longrightarrow> nt_propagated t = length (nt_trail t)"
proof -
  from propagate_loop_ok [OF assms] obtain u where u: "propagate_loop s = Some u" "nt_ready F u" "nt_grown s u"
    "nt_conflict u = None \<longrightarrow> nt_propagated u = length (nt_trail u)"
    by (elim exE conjE) (rule that)
  obtain t where t: "propagate s = Some (nt_conflict t = None, t)" "nt_same u t"
    using u(1) by (auto simp: propagate_def Let_def nt_same_def nt_count_def)
  show ?thesis
    by (rule that [OF t(1)]) (use u t nt_ready_same [OF t(2)] nt_grown_same [OF t(2)] in \<open>simp_all add: nt_same_def\<close>)
qed

text \<open>What the watches are for: nothing is missed.\<close>

lemma nt_done_complete:
  assumes "nt_wf F s" "nt_done s (length (nt_trail s))" "nt_mem s a = Some c" "\<not> so_garbage c"
  shows "(\<exists>k \<in> set (so_literals c). nt_val s k > 0) \<or> (nt_val s (so_literals c ! 0) \<ge> 0 \<and> nt_val s (so_literals c ! 1) \<ge> 0)"
proof (rule ccontr)
  assume neg: "\<not> ?thesis"
  have inv: "nt_trail_inv s" "sclause_ok (nt_max_var s) c" "watch_inv (nt_max_var s) (nt_mem s) (nt_wtab s)"
    using assms by (auto simp: nt_wf_def mem_inv_def)
  from neg have "nt_val s (so_literals c ! 0) < 0 \<or> nt_val s (so_literals c ! 1) < 0" by (meson not_le)
  then obtain i :: nat where i: "i < 2" "nt_val s (so_literals c ! i) < 0"
    using that [of 0] that [of 1] by auto
  let ?l = "so_literals c ! i"
  have "watched (nt_wtab s) ?l a" using inv(3) assms(3,4) i(1) by (auto simp: watch_inv_def less_2_cases_iff)
  then obtain w where w: "w \<in> set (nt_wtab s ?l)" "wa_clause w = a" by (auto simp: watched_def)
  have lin: "?l \<in> set (so_literals c)" and ok: "lit_ok (nt_max_var s) ?l" using inv(2) i(1) by (auto simp: sclause_ok_def)
  have "- ?l \<in> set (nt_trail s)" using i(2) by (simp add: nt_val_trail [OF inv(1)] trail_val_simps split: if_splits)
  then obtain p where p: "p < length (nt_trail s)" "nt_trail s ! p = - ?l" by (auto simp: in_set_conv_nth)
  from assms(2) have "sat_at s p a" unfolding nt_done_def using ok w p by blast
  then obtain b where b: "b \<in> set (so_literals c)" "b \<in> set (nt_trail s)"
    using assms(3,4) by (auto simp: sat_at_def nt_deref_def nt_literals_def)
  then have "nt_val s b > 0" using inv(2) by (auto simp: nt_val_trail [OF inv(1)] trail_val_simps sclause_ok_def lit_ok_def)
  then show False using neg b(1) by blast
qed

end
