(* ===== verification/Cdcl_Back.thy ===== *)
theory Cdcl_Back
  imports Cdcl_Bcp
begin

text \<open>
  Backtracking (\<^verbatim>\<open>backtrack.cpp\<close>) and deciding (\<^verbatim>\<open>decide.cpp\<close>).  Backtracking filters the trail by
  level, since literals of lower levels may lie anywhere on it; the literals kept beyond the
  height of the removed level are propagated again.
\<close>

subsection \<open>Backtracking\<close>

definition copy_phases :: "'v Internal \<Rightarrow> (nat \<Rightarrow> int) \<Rightarrow> nat \<Rightarrow> int" where
  "copy_phases s dst = (\<lambda>i. if 1 \<le> i \<and> i \<le> nt_max_var s then ph_saved (nt_phases s) i else dst i)"

definition update_target_and_best :: "'v Internal \<Rightarrow> 'v Internal" where
  "update_target_and_best s =
     (let reset = (nt_rephased s \<noteq> None \<and> cn_conflicts (nt_stats s) > nt_rephase_conflicts s);
          s = (if reset then
                 (let s = s\<lparr>nt_target_assigned := 0\<rparr>
                  in if nt_rephased s = Some CHR ''B'' then s\<lparr>nt_best_assigned := 0\<rparr> else s)
               else s);
          s = (if nt_no_conflict_until s > nt_target_assigned s then
                 s\<lparr>nt_phases := (nt_phases s)\<lparr>ph_target := copy_phases s (ph_target (nt_phases s))\<rparr>,
                   nt_target_assigned := nt_no_conflict_until s\<rparr>
               else s);
          s = (if nt_no_conflict_until s > nt_best_assigned s then
                 s\<lparr>nt_phases := (nt_phases s)\<lparr>ph_best := copy_phases s (ph_best (nt_phases s))\<rparr>,
                   nt_best_assigned := nt_no_conflict_until s\<rparr>
               else s)
      in if reset then s\<lparr>nt_rephased := None\<rparr> else s)"

text \<open>The loop over the trail above the kept part: the literals to look at and those kept.\<close>

fun backtrack_loop :: "nat \<Rightarrow> int list \<Rightarrow> int list \<Rightarrow> ('v :: linorder) Internal \<Rightarrow> (int list \<times> 'v Internal) option" where
  "backtrack_loop down_to [] js s = Some (js, s)"
| "backtrack_loop down_to (lit # is) js s =
     (if va_level (nt_var s lit) > down_to then
        Option.bind (unassign lit (nt_decide s)) (\<lambda>d. backtrack_loop down_to is js (s\<lparr>nt_decide := d\<rparr>))
      else
        backtrack_loop down_to is (js @ [lit])
          (s\<lparr>nt_vtab := (nt_vtab s)(vidx lit := (nt_var s lit)\<lparr>va_trail := length js\<rparr>)\<rparr>))"

definition backtrack :: "nat \<Rightarrow> ('v :: linorder) Internal \<Rightarrow> 'v Internal option" where
  "backtrack down_to s =
     (if down_to = nt_level s then Some s
      else
        (let s = nt_count (\<lambda>n. n\<lparr>cn_backtracks := cn_backtracks n + 1\<rparr>) s;
             s = update_target_and_best s;
             assigned = lv_trail (nt_control s ! (down_to + 1))
         in Option.bind (backtrack_loop down_to (drop assigned (nt_trail s)) (take assigned (nt_trail s)) s)
              (\<lambda>(js, s). Some (s\<lparr>nt_trail := js,
                 nt_propagated := min (nt_propagated s) assigned,
                 nt_propagated2 := min (nt_propagated2 s) assigned,
                 nt_no_conflict_until := min (nt_no_conflict_until s) assigned,
                 nt_propergated := 0,
                 nt_control := take (down_to + 1) (nt_control s),
                 nt_level := down_to\<rparr>))))"

subsection \<open>Deciding\<close>

definition decide_phase :: "nat \<Rightarrow> bool \<Rightarrow> 'v Internal \<Rightarrow> int" where
  "decide_phase idx target s =
     (let initial_phase = (if co_phase (nt_opts s) then 1 else - 1);
          phase = (if nt_force_saved_phase s then ph_saved (nt_phases s) idx else 0);
          phase = (if phase = 0 then ph_forced (nt_phases s) idx else phase);
          phase = (if phase = 0 \<and> co_forcephase (nt_opts s) then initial_phase else phase);
          phase = (if phase = 0 \<and> target then ph_target (nt_phases s) idx else phase);
          phase = (if phase = 0 then ph_saved (nt_phases s) idx else phase);
          phase = (if phase = 0 then initial_phase else phase)
      in phase * int idx)"

definition satisfied :: "'v Internal \<Rightarrow> bool" where
  "satisfied s =
     (if nt_level s < length (as_assumptions (nt_as s)) + (if as_constraint (nt_as s) \<noteq> [] then 1 else 0) then False
      else if dc_num_assigned (nt_decide s) < nt_max_var s then False
      else if nt_propagated s < length (nt_trail s) then False
      else dc_num_assigned (nt_decide s) = nt_max_var s)"

definition better_decision :: "int \<Rightarrow> int \<Rightarrow> ('v :: linorder) Internal \<Rightarrow> bool" where
  "better_decision lit other s =
     (if nt_stable s then dc_stab (nt_decide s) (vidx lit) > dc_stab (nt_decide s) (vidx other)
      else vq_btab (dc_queue (nt_decide s)) (vidx lit) > vq_btab (dc_queue (nt_decide s)) (vidx other))"

definition use_scores :: "'v Internal \<Rightarrow> bool" where
  "use_scores s = (co_score (nt_opts s) \<and> nt_stable s)"

text \<open>
  The loop over the constraint, which moves every literal one place up: the position and the literals
  so far, the literal moved and the best unassigned one.  It returns the satisfied literal, if any.
\<close>

fun constraint_loop :: "('v :: linorder) Internal \<Rightarrow> nat \<Rightarrow> nat \<Rightarrow> int list \<Rightarrow> int \<Rightarrow> int \<Rightarrow> int list \<times> int \<times> int \<times> int" where
  "constraint_loop s 0 i ls previous unassigned = (ls, previous, unassigned, 0)"
| "constraint_loop s (Suc n) i ls previous unassigned =
     (let lit = ls ! i; ls = ls[i := previous]; tmp = nt_val s lit in
      if tmp < 0 then constraint_loop s n (i + 1) ls lit unassigned
      else if tmp > 0 then (ls, lit, unassigned, lit)
      else constraint_loop s n (i + 1) ls lit
             (if unassigned = 0 \<or> better_decision lit unassigned s then lit else unassigned))"

definition decide :: "('v :: linorder) Internal \<Rightarrow> (nat \<times> 'v Internal) option" where
  "decide s =
     map_option (\<lambda>(res, s).
         (res, if res \<noteq> 0 then s\<lparr>nt_as := (nt_as s)\<lparr>as_marked_failed := False\<rparr>\<rparr> else s))
       (if nt_level s < length (as_assumptions (nt_as s)) then
          (let lit = as_assumptions (nt_as s) ! nt_level s; tmp = nt_val s lit in
           if tmp < 0 then Some (20, s)
           else if tmp > 0 then Some (0, new_trail_level 0 s)
           else Some (0, search_assume_decision lit s))
        else if nt_level s = length (as_assumptions (nt_as s)) \<and> as_constraint (nt_as s) \<noteq> [] then
          (let ls = as_constraint (nt_as s); size = length ls;
               (ls, previous, unassigned, satisfied) = constraint_loop s size 0 ls 0 0 in
           if satisfied \<noteq> 0 then
             Some (0, new_trail_level 0 (s\<lparr>nt_as := (nt_as s)\<lparr>as_constraint := ls[0 := satisfied]\<rparr>\<rparr>))
           else
             (let ls = map (\<lambda>i. ls ! (i + 1)) [0..<size - 1] @ [previous];
                  s = s\<lparr>nt_as := (nt_as s)\<lparr>as_constraint := ls\<rparr>\<rparr> in
              if unassigned \<noteq> 0 then Some (0, search_assume_decision unassigned s)
              else Some (20, s\<lparr>nt_as := (nt_as s)\<lparr>as_unsat_constraint := True\<rparr>\<rparr>)))
        else
          (let s = nt_count (\<lambda>n. n\<lparr>cn_decisions := cn_decisions n + 1\<rparr>) s in
           Option.bind (next_decision_variable (use_scores s) (nt_decide s)) (\<lambda>(idx, d).
             let s = s\<lparr>nt_decide := d\<rparr>;
                 target = (co_target (nt_opts s) > 1 \<or> nt_stable s \<and> co_target (nt_opts s) \<noteq> 0)
             in Some (0, search_assume_decision (decide_phase idx target s) s))))"

subsection \<open>Backtracking keeps the invariant\<close>

lemma update_target_same [simp]: "nt_same s (update_target_and_best s)"
  by (simp add: update_target_and_best_def Let_def nt_same_def)


definition kept_at :: "nat \<Rightarrow> 'v Internal \<Rightarrow> int list \<Rightarrow> int list" where
  "kept_at n s ls = filter (\<lambda>l. lit_level s l \<le> n) ls"

lemma backtrack_loop_ok:
  assumes "dc_inv (nt_decide s) xs" "vidx ` set is \<subseteq> set xs" "distinct (map abs is)"
  shows "\<exists>t. backtrack_loop n is js s = Some (js @ kept_at n s is, t) \<and> dc_inv (nt_decide t) xs
    \<and> dc_num_assigned (nt_decide t) = dc_num_assigned (nt_decide s) - (length is - length (kept_at n s is))
    \<and> nt_vals t = (\<lambda>v. if \<exists>l \<in> set is. n < lit_level s l \<and> v = vidx l then 0 else nt_vals s v)
    \<and> t = s\<lparr>nt_decide := nt_decide t, nt_vtab := nt_vtab t\<rparr>
    \<and> (\<forall>v. va_level (nt_vtab t v) = va_level (nt_vtab s v) \<and> va_reason (nt_vtab t v) = va_reason (nt_vtab s v))
    \<and> (\<forall>v. v \<notin> vidx ` set is \<longrightarrow> nt_vtab t v = nt_vtab s v)
    \<and> (\<forall>i < length (kept_at n s is). va_trail (nt_var t (kept_at n s is ! i)) = length js + i)"
  using assms
proof (induction n "is" js s rule: backtrack_loop.induct)
  case (1 n js s)
  then show ?case by (simp add: kept_at_def)
next
  case (2 n lit ks js s)
  have d: "vidx lit \<in> set xs" "vidx ` set ks \<subseteq> set xs" "distinct (map abs ks)" "\<bar>lit\<bar> \<notin> abs ` set ks"
    using "2.prems" by auto
  have fresh: "vidx lit \<notin> vidx ` set ks" using d(4) by (fastforce simp: vidx_eq_iff)
  show ?case
  proof (cases "va_level (nt_var s lit) > n")
    case True
    obtain e where e: "unassign lit (nt_decide s) = Some e" "dc_inv e xs" "dc_num_assigned e = dc_num_assigned (nt_decide s) - 1"
      "vq_vals (dc_queue e) = (vq_vals (dc_queue (nt_decide s)))(vidx lit := 0)"
      using unassign_ok [OF "2.prems"(1), of lit] d(1) by (auto simp: vidx_def)
    let ?s = "s\<lparr>nt_decide := e\<rparr>"
    have k: "kept_at n ?s ks = kept_at n s ks" "kept_at n s (lit # ks) = kept_at n s ks"
      using True by (simp_all add: kept_at_def lit_level_def nt_var_def)
    have le: "length (kept_at n s ks) \<le> length ks" by (simp add: kept_at_def)
    have v: "nt_vals ?s = (nt_vals s)(vidx lit := 0)" by (simp add: nt_vals_def e(4))
    from 2(1) [OF True e(1)] e(2) d obtain t where t:
      "backtrack_loop n ks js ?s = Some (js @ kept_at n ?s ks, t)" "dc_inv (nt_decide t) xs"
      "dc_num_assigned (nt_decide t) = dc_num_assigned (nt_decide ?s) - (length ks - length (kept_at n ?s ks))"
      "nt_vals t = (\<lambda>v. if \<exists>l \<in> set ks. n < lit_level ?s l \<and> v = vidx l then 0 else nt_vals ?s v)"
      "t = ?s\<lparr>nt_decide := nt_decide t, nt_vtab := nt_vtab t\<rparr>"
      "\<forall>v. va_level (nt_vtab t v) = va_level (nt_vtab ?s v) \<and> va_reason (nt_vtab t v) = va_reason (nt_vtab ?s v)"
      "\<forall>v. v \<notin> vidx ` set ks \<longrightarrow> nt_vtab t v = nt_vtab ?s v"
      "\<forall>i < length (kept_at n ?s ks). va_trail (nt_var t (kept_at n ?s ks ! i)) = length js + i" by auto
    have "nt_vals t = (\<lambda>v. if \<exists>l \<in> set (lit # ks). n < lit_level s l \<and> v = vidx l then 0 else nt_vals s v)"
      using True unfolding t(4) v by (auto simp: lit_level_def nt_var_def fun_eq_iff)
    moreover have "t = s\<lparr>nt_decide := nt_decide t, nt_vtab := nt_vtab t\<rparr>" by (subst t(5)) simp
    ultimately show ?thesis
      using t(1-3,6-8) True e(1,3) k le by (intro exI [of _ t]) auto
  next
    case False
    let ?s = "s\<lparr>nt_vtab := (nt_vtab s)(vidx lit := (nt_var s lit)\<lparr>va_trail := length js\<rparr>)\<rparr>"
    have lev: "lit_level ?s = lit_level s" by (auto simp: lit_level_def nt_var_def fun_eq_iff)
    have k: "kept_at n ?s ks = kept_at n s ks" "kept_at n s (lit # ks) = lit # kept_at n s ks"
      using False lev by (simp_all add: kept_at_def lit_level_def)
    from 2(2) [OF False] "2.prems"(1) d obtain t where t:
      "backtrack_loop n ks (js @ [lit]) ?s = Some ((js @ [lit]) @ kept_at n s ks, t)" "dc_inv (nt_decide t) xs"
      "dc_num_assigned (nt_decide t) = dc_num_assigned (nt_decide ?s) - (length ks - length (kept_at n s ks))"
      "nt_vals t = (\<lambda>v. if \<exists>l \<in> set ks. n < lit_level s l \<and> v = vidx l then 0 else nt_vals ?s v)"
      "t = ?s\<lparr>nt_decide := nt_decide t, nt_vtab := nt_vtab t\<rparr>"
      "\<forall>v. va_level (nt_vtab t v) = va_level (nt_vtab ?s v) \<and> va_reason (nt_vtab t v) = va_reason (nt_vtab ?s v)"
      "\<forall>v. v \<notin> vidx ` set ks \<longrightarrow> nt_vtab t v = nt_vtab ?s v"
      "\<forall>i < length (kept_at n s ks). va_trail (nt_var t (kept_at n s ks ! i)) = length (js @ [lit]) + i" by (auto simp: k lev)
    have v: "nt_vals ?s = nt_vals s" by (simp add: nt_vals_def fun_eq_iff)
    have "va_trail (nt_var t lit) = length js" using t(7) fresh by (simp add: nt_var_def)
    then have "\<forall>i < length (kept_at n s (lit # ks)). va_trail (nt_var t (kept_at n s (lit # ks) ! i)) = length js + i"
      using t(8) by (auto simp: k nth_Cons split: nat.split)
    moreover have "t = s\<lparr>nt_decide := nt_decide t, nt_vtab := nt_vtab t\<rparr>" by (subst t(5)) simp
    moreover have "\<forall>w. va_level (nt_vtab t w) = va_level (nt_vtab s w) \<and> va_reason (nt_vtab t w) = va_reason (nt_vtab s w)"
      using t(6) by (auto simp: nt_var_def)
    moreover have "nt_vals t = (\<lambda>v. if \<exists>l \<in> set (lit # ks). n < lit_level s l \<and> v = vidx l then 0 else nt_vals s v)"
      using False by (auto simp: t(4) v lit_level_def fun_eq_iff)
    moreover have "\<forall>w. w \<notin> vidx ` set (lit # ks) \<longrightarrow> nt_vtab t w = nt_vtab s w" using t(7) by auto
    moreover have "backtrack_loop n (lit # ks) js s = Some (js @ kept_at n s (lit # ks), t)" using t(1) False by (simp add: k)
    moreover have "dc_num_assigned (nt_decide t) = dc_num_assigned (nt_decide s) - (length (lit # ks) - length (kept_at n s (lit # ks)))"
      using t(3) by (simp add: k)
    ultimately show ?thesis using t(2) by blast
  qed
qed


subsection \<open>The trail after backtracking\<close>

text \<open>All literals below the height of the removed level stay, so backtracking filters the whole trail.\<close>

lemma kept_prefix:
  assumes "nt_reasons_inv F s" "n < nt_level s" "a = lv_trail (nt_control s ! (n + 1))"
  shows "kept_at n s (take a (nt_trail s)) = take a (nt_trail s)"
    "kept_at n s (nt_trail s) = take a (nt_trail s) @ kept_at n s (drop a (nt_trail s))"
proof -
  have "lit_level s l \<le> n" if l: "l \<in> set (take a (nt_trail s))" for l
  proof -
    from l obtain p where p: "p < a" "p < length (nt_trail s)" "nt_trail s ! p = l" by (auto simp: in_set_conv_nth)
    then have "level_at s p (lit_level s l)" using assms(1) by (auto simp: nt_reasons_inv_def reason_ok_def Let_def)
    then have "lit_level s l < n + 1" using assms(2,3) p(1) by (simp add: level_at_def)
    then show ?thesis by simp
  qed
  then show 1: "kept_at n s (take a (nt_trail s)) = take a (nt_trail s)" by (simp add: kept_at_def filter_id_conv)
  show "kept_at n s (nt_trail s) = take a (nt_trail s) @ kept_at n s (drop a (nt_trail s))"
    using 1 by (metis append_take_drop_id filter_append kept_at_def)
qed

lemma backtrack_spec:
  assumes wf: "nt_wf F s" and dc: "nt_dc_inv s" and n: "n < nt_level s"
  defines "a \<equiv> lv_trail (nt_control s ! (n + 1))"
  obtains t where "backtrack n s = Some t" "nt_trail t = kept_at n s (nt_trail s)" "nt_dc_inv t"
    "nt_vals t = (\<lambda>v. trail_val (nt_trail t) (int v))" "nt_propagated t = min (nt_propagated s) a"
    "nt_control t = take (n + 1) (nt_control s)" "nt_level t = n"
    "nt_max_var t = nt_max_var s" "nt_mem t = nt_mem s" "nt_wtab t = nt_wtab s" "nt_conflict t = nt_conflict s" "nt_opts t = nt_opts s"
    "\<forall>v. va_level (nt_vtab t v) = va_level (nt_vtab s v) \<and> va_reason (nt_vtab t v) = va_reason (nt_vtab s v)"
    "\<forall>i < length (nt_trail t). va_trail (nt_var t (nt_trail t ! i)) = i"
proof -
  let ?u = "update_target_and_best (nt_count (\<lambda>n. n\<lparr>cn_backtracks := cn_backtracks n + 1\<rparr>) s)"
  let ?pre = "take a (nt_trail s)" and ?suf = "drop a (nt_trail s)"
  have same: "nt_same s ?u" using nt_same_trans [OF nt_same_simps(1) update_target_same] by blast
  note c = nt_same_cong [OF same] and f = same [unfolded nt_same_def]
  have inv: "nt_trail_inv s" "nt_level_inv s" "nt_reasons_inv F s" using wf by (simp_all add: nt_wf_def)
  have da: "distinct (map abs (nt_trail s))" using inv(1) by (simp add: nt_trail_inv_def)
  obtain xs where xs: "dc_inv (nt_decide s) xs" "set xs = {1..nt_max_var s}" and num: "dc_num_assigned (nt_decide s) = length (nt_trail s)"
    using dc by (auto simp: nt_dc_inv_def)
  have "vidx ` set ?suf \<subseteq> set xs"
    using inv(1) by (auto simp: nt_trail_inv_def xs(2) lit_ok_def vidx_def dest!: in_set_dropD)
  moreover have "distinct (map abs ?suf)" using da by (simp add: drop_map [symmetric])
  ultimately obtain t where t: "backtrack_loop n ?suf ?pre ?u = Some (?pre @ kept_at n ?u ?suf, t)" "dc_inv (nt_decide t) xs"
    "dc_num_assigned (nt_decide t) = dc_num_assigned (nt_decide ?u) - (length ?suf - length (kept_at n ?u ?suf))"
    "nt_vals t = (\<lambda>v. if \<exists>l \<in> set ?suf. n < lit_level ?u l \<and> v = vidx l then 0 else nt_vals ?u v)"
    "t = ?u\<lparr>nt_decide := nt_decide t, nt_vtab := nt_vtab t\<rparr>"
    "\<forall>v. va_level (nt_vtab t v) = va_level (nt_vtab ?u v) \<and> va_reason (nt_vtab t v) = va_reason (nt_vtab ?u v)"
    "\<forall>v. v \<notin> vidx ` set ?suf \<longrightarrow> nt_vtab t v = nt_vtab ?u v"
    "\<forall>i < length (kept_at n ?u ?suf). va_trail (nt_var t (kept_at n ?u ?suf ! i)) = length ?pre + i"
    using backtrack_loop_ok [of ?u xs ?suf n ?pre] xs(1) f by auto
  have ku: "kept_at n ?u ls = kept_at n s ls" for ls by (simp add: kept_at_def c)
  note k = kept_prefix [OF inv(3) n, of a, unfolded a_def, OF refl, folded a_def]
  let ?T = "kept_at n s (nt_trail s)"
  have T: "?pre @ kept_at n ?u ?suf = ?T" by (simp add: ku k(2))
  define r where "r = t\<lparr>nt_trail := ?T, nt_propagated := min (nt_propagated t) a, nt_propagated2 := min (nt_propagated2 t) a,
     nt_no_conflict_until := min (nt_no_conflict_until t) a, nt_propergated := 0,
     nt_control := take (n + 1) (nt_control t), nt_level := n\<rparr>"
  have tf: "nt_propagated t = nt_propagated s" "nt_control t = nt_control s" "nt_max_var t = nt_max_var s" "nt_mem t = nt_mem s"
    "nt_wtab t = nt_wtab s" "nt_conflict t = nt_conflict s" "nt_opts t = nt_opts s"
    using f by (subst t(5); simp)+
  have run: "backtrack n s = Some r"
    using n t(1) f unfolding backtrack_def Let_def r_def T by (simp add: a_def nt_count_def)
  have vals: "nt_vals r v = trail_val ?T (int v)" for v
  proof -
    have "nt_vals r v = nt_vals t v" by (simp add: r_def nt_vals_def)
    also have "\<dots> = (if \<exists>l \<in> set ?suf. n < lit_level s l \<and> v = vidx l then 0 else trail_val (nt_trail s) (int v))"
      using inv(1) by (auto simp: t(4) c nt_trail_inv_def)
    also have "\<dots> = trail_val ?T (int v)"
    proof -
      have mem: "x \<in> set ?T \<longleftrightarrow> x \<in> set (nt_trail s) \<and> lit_level s x \<le> n" for x by (auto simp: kept_at_def)
      have low: "\<forall>x \<in> set ?pre. lit_level s x \<le> n" using k(1) by (simp add: kept_at_def filter_id_conv)
      have out: "x \<in> set ?suf" if "x \<in> set (nt_trail s)" "n < lit_level s x" for x
        using that low append_take_drop_id [of a "nt_trail s"] by (metis Un_iff not_less set_append)
      show ?thesis
      proof (cases "\<exists>l \<in> set ?suf. n < lit_level s l \<and> v = vidx l")
        case True
        then obtain l where l: "n < lit_level s l" "v = vidx l" by auto
        then have "l = int v \<or> l = - int v" by (auto simp: vidx_def)
        then have "int v \<notin> set ?T" "- int v \<notin> set ?T" using l(1) mem lit_level_uminus [of s "int v"] by auto
        then show ?thesis using True by (simp add: trail_val_def)
      next
        case False
        have "x \<in> set ?T \<longleftrightarrow> x \<in> set (nt_trail s)" if "v = vidx x" for x
          using out [of x] False that mem [of x] by (auto simp: not_le)
        then have "int v \<in> set ?T \<longleftrightarrow> int v \<in> set (nt_trail s)" "- int v \<in> set ?T \<longleftrightarrow> - int v \<in> set (nt_trail s)"
          by (simp_all add: vidx_def)
        then show ?thesis using False by (auto simp: trail_val_def)
      qed
    qed
    finally show ?thesis .
  qed
  have "length (kept_at n s ?suf) \<le> length ?suf" unfolding kept_at_def by (rule length_filter_le)
  moreover have "a \<le> length (nt_trail s)" using inv(2) n by (simp add: nt_level_inv_def a_def)
  moreover have "nt_decide ?u = nt_decide s" using f by simp
  ultimately have "dc_num_assigned (nt_decide r) = length ?T"
    using t(3) num by (simp add: r_def ku k(2))
  then have dcr: "nt_dc_inv r" using t(2) xs(2) by (auto simp: nt_dc_inv_def r_def tf)
  have pos: "va_trail (nt_var r (?T ! i)) = i" if i: "i < length ?T" for i
  proof (cases "i < length ?pre")
    case True
    then have x: "?T ! i = nt_trail s ! i" "i < length (nt_trail s)" by (simp_all add: k(2) nth_append)
    have "nt_trail s ! i \<in> set ?pre" using True by (metis in_set_conv_nth nth_take length_take min_less_iff_conj)
    moreover have "distinct (map abs ?pre @ map abs ?suf)" using da by (simp only: map_append [symmetric] append_take_drop_id)
    ultimately have "vidx (nt_trail s ! i) \<notin> vidx ` set ?suf" by (fastforce simp: vidx_eq_iff)
    then have "nt_var t (nt_trail s ! i) = nt_var s (nt_trail s ! i)" using t(7) f by (simp add: nt_var_def)
    moreover have "va_trail (nt_var s (nt_trail s ! i)) = i"
      using inv(3) x(2) by (simp add: nt_reasons_inv_def reason_ok_def Let_def)
    ultimately show ?thesis by (simp add: x(1) r_def nt_var_def)
  next
    case False
    have x: "i - length ?pre < length (kept_at n s ?suf)" using i False unfolding k(2) length_append by linarith
    have x2: "?T ! i = kept_at n s ?suf ! (i - length ?pre)" using False unfolding k(2) nth_append by (simp only: if_False)
    have "va_trail (nt_var t (?T ! i)) = length ?pre + (i - length ?pre)" using t(8) x unfolding ku x2 by blast
    moreover have "length ?pre + (i - length ?pre) = i" using False by linarith
    ultimately have "va_trail (nt_var t (?T ! i)) = i" by (simp only:)
    then show ?thesis by (simp add: r_def nt_var_def)
  qed
  show ?thesis
    by (rule that [OF run]) (use dcr vals pos t(6) f in \<open>auto simp: r_def tf\<close>)
qed


text \<open>A literal kept at place \<open>q\<close> was at place \<open>p\<close>; below the height of the removed level both are the same.\<close>

lemma filter_place:
  assumes "q < length (filter P xs)"
  shows "\<exists>p < length xs. xs ! p = filter P xs ! q \<and> filter P (take p xs) = take q (filter P xs) \<and> q \<le> p"
  using assms
proof (induction xs arbitrary: q)
  case (Cons x xs)
  show ?case
  proof (cases "P x")
    case True
    show ?thesis
    proof (cases q)
      case 0
      then show ?thesis using True by (intro exI [of _ 0]) simp
    next
      case (Suc r)
      then obtain p where "p < length xs" "xs ! p = filter P xs ! r" "filter P (take p xs) = take r (filter P xs)" "r \<le> p"
        using Cons True by auto
      then show ?thesis using True Suc by (intro exI [of _ "Suc p"]) simp
    qed
  next
    case False
    then obtain p where "p < length xs" "xs ! p = filter P xs ! q" "filter P (take p xs) = take q (filter P xs)" "q \<le> p"
      using Cons by auto
    then show ?thesis using False by (intro exI [of _ "Suc p"]) simp
  qed
qed simp

text \<open>
  \<open>nt_done\<close> for the clauses in a set only: during conflict analysis the watches of the conflict itself
  may have been moved.
\<close>

definition nt_done_for :: "(nat \<Rightarrow> bool) \<Rightarrow> 'v Internal \<Rightarrow> nat \<Rightarrow> bool" where
  "nt_done_for P s n \<longleftrightarrow>
     (\<forall>l w p. lit_ok (nt_max_var s) l \<longrightarrow> w \<in> set (nt_wtab s l) \<longrightarrow> P (wa_clause w) \<longrightarrow> p < n \<longrightarrow> p < length (nt_trail s) \<longrightarrow>
        nt_trail s ! p = - l \<longrightarrow> sat_at s p (wa_clause w))"

lemma nt_done_for_all: "nt_done_for (\<lambda>_. True) s n = nt_done s n"
  by (simp add: nt_done_for_def nt_done_def)

lemma nt_done_for_mono: "nt_done_for P s n \<Longrightarrow> m \<le> n \<Longrightarrow> nt_done_for P s m"
  unfolding nt_done_for_def by (meson less_le_trans)

lemma backtrack_for_ok:
  assumes wf: "nt_wf F s" and dc: "nt_dc_inv s" and n: "n < nt_level s"
    and done_n: "nt_done_for P s (min (nt_propagated s) (lv_trail (nt_control s ! (n + 1))))"
    and high: "lv_trail (nt_control s ! nt_level s) \<le> nt_propagated s"
  obtains t where "backtrack n s = Some t" "nt_wf F t" "nt_dc_inv t" "nt_done_for P t (nt_propagated t)"
    "lv_trail (nt_control t ! nt_level t) \<le> nt_propagated t"
    "nt_trail t = kept_at n s (nt_trail s)" "nt_level t = n" "nt_control t = take (n + 1) (nt_control s)"
    "nt_max_var t = nt_max_var s" "nt_mem t = nt_mem s" "nt_wtab t = nt_wtab s" "nt_conflict t = nt_conflict s" "nt_opts t = nt_opts s"
    "\<And>l. lit_level t l = lit_level s l" "\<And>l. va_reason (nt_var t l) = va_reason (nt_var s l)"
proof -
  define a where "a = lv_trail (nt_control s ! (n + 1))"
  from backtrack_spec [OF wf dc n, folded a_def] obtain t where run: "backtrack n s = Some t" and T: "nt_trail t = kept_at n s (nt_trail s)"
    and dct: "nt_dc_inv t" and vals: "nt_vals t = (\<lambda>v. trail_val (nt_trail t) (int v))"
    and f: "nt_propagated t = min (nt_propagated s) a" "nt_control t = take (n + 1) (nt_control s)" "nt_level t = n"
      "nt_max_var t = nt_max_var s" "nt_mem t = nt_mem s" "nt_wtab t = nt_wtab s" "nt_conflict t = nt_conflict s" "nt_opts t = nt_opts s"
    and lr: "\<forall>v. va_level (nt_vtab t v) = va_level (nt_vtab s v) \<and> va_reason (nt_vtab t v) = va_reason (nt_vtab s v)"
    and pos: "\<forall>i < length (nt_trail t). va_trail (nt_var t (nt_trail t ! i)) = i" .
  have inv: "nt_trail_inv s" "nt_level_inv s" "nt_reasons_inv F s" "mem_inv F (nt_max_var s) (nt_mem s)"
    "watch_inv (nt_max_var s) (nt_mem s) (nt_wtab s)" using wf by (simp_all add: nt_wf_def)
  have lev: "lit_level t l = lit_level s l" and rea: "va_reason (nt_var t l) = va_reason (nt_var s l)" for l
    using lr by (simp_all add: lit_level_def nt_var_def)
  have len: "length (nt_control s) = nt_level s + 1" and srt: "sorted (map lv_trail (nt_control s))"
    and hgt: "\<forall>f \<in> set (nt_control s). lv_trail f \<le> length (nt_trail s)" using inv(2) by (simp_all add: nt_level_inv_def)
  have ctl: "nt_control t ! k = nt_control s ! k" if "k \<le> n" for k using that by (simp add: f(2))
  have mono: "lv_trail (nt_control s ! k) \<le> lv_trail (nt_control s ! m)" if "k \<le> m" "m \<le> nt_level s" for k m
    using sorted_nth_mono [OF srt that(1)] that len by simp
  have al: "a \<le> length (nt_trail s)" unfolding a_def using hgt len n by simp
  note k = kept_prefix [OF inv(3) n a_def]
  have pre: "take a (nt_trail t) = take a (nt_trail s)" "a \<le> length (nt_trail t)" using al by (simp_all add: T k(2))
  have at: "level_at t p m" if "level_at s p m" for p m
    using that ctl n by (auto simp: level_at_def f(3))
  have "nt_trail_inv t"
  proof -
    have "distinct (map abs (nt_trail t))"
      using inv(1) by (simp add: T kept_at_def nt_trail_inv_def distinct_map_filter)
    then show ?thesis using inv(1) vals pre(2) by (auto simp: nt_trail_inv_def f T kept_at_def)
  qed
  moreover have "nt_level_inv t"
  proof -
    have "lv_trail g \<le> length (nt_trail t)" if g: "g \<in> set (nt_control t)" for g
    proof -
      obtain i where i: "i < n + 1" "g = nt_control s ! i" using g len n by (auto simp: f(2) in_set_conv_nth)
      have "lv_trail g \<le> a" using mono [of i "n + 1"] i n by (simp add: a_def)
      then show ?thesis using pre(2) by simp
    qed
    moreover have "sorted (map lv_trail (nt_control t))" using srt by (simp add: f(2) take_map [symmetric] sorted_wrt_take)
    ultimately show ?thesis using inv(2) n by (simp add: nt_level_inv_def f)
  qed
  moreover have "nt_reasons_inv F t"
    unfolding nt_reasons_inv_def
  proof (intro allI impI)
    fix q assume q: "q < length (nt_trail t)"
    define l where "l = nt_trail t ! q"
    from filter_place [of q "\<lambda>l. lit_level s l \<le> n" "nt_trail s"] q
    obtain p where p: "p < length (nt_trail s)" "nt_trail s ! p = l" "kept_at n s (take p (nt_trail s)) = take q (nt_trail t)" "q \<le> p"
      by (auto simp: T kept_at_def l_def)
    have ln: "lit_level s l \<le> n" using nth_mem [OF q] by (simp add: T kept_at_def l_def)
    have same: "q = p" if "q < a \<or> p \<le> a"
    proof -
      have "kept_at n s (take p (nt_trail s)) = take p (nt_trail s)" if "p \<le> a"
        using k(1) that by (auto simp: kept_at_def filter_id_conv dest: set_take_subset_set_take [OF that, THEN subsetD])
      moreover have "p \<le> a" if "q < a"
      proof (rule ccontr)
        assume "\<not> p \<le> a"
        then have "a \<le> length (kept_at n s (take p (nt_trail s)))"
          using k(1) al p(1) by (metis (no_types) append_take_drop_id filter_append kept_at_def le_add1 length_append length_take min.absorb2 min.absorb4 not_le take_take min_def)
        then show False using p(3) q that by simp
      qed
      ultimately have "take p (nt_trail s) = take q (nt_trail t)" using p(3) that by auto
      then show ?thesis using p(1) q by (metis length_take min.absorb4)
    qed
    have ro: "reason_ok F s p" using inv(3) p(1) by (simp add: nt_reasons_inv_def)
    then have ats: "level_at s p (lit_level s l)" by (simp add: reason_ok_def Let_def p(2))
    have "level_at t q (lit_level t l)"
      unfolding level_at_def
    proof (intro allI impI)
      fix i assume i: "1 \<le> i" "i \<le> nt_level t" "q < lv_trail (nt_control t ! i)"
      then have "lv_trail (nt_control t ! i) \<le> a" using mono [of i "n + 1"] n ctl by (simp add: a_def f(3))
      then have "q = p" using same i(3) by simp
      then show "lit_level t l < i" using ats i ctl n by (simp add: level_at_def lev f(3))
    qed
    moreover have "va_reason (nt_var s l) = No_reason \<and> entails F [l]" if "lit_level s l = 0"
      using ro that by (simp add: reason_ok_def Let_def p(2))
    moreover have "case va_reason (nt_var s l) of
             No_reason \<Rightarrow> lv_trail (nt_control t ! lit_level s l) = q \<and> lv_decision (nt_control t ! lit_level s l) = l
           | Clause_reason b \<Rightarrow> (\<exists>c. nt_mem s b = Some c \<and> l \<in> set (so_literals c)
                 \<and> (\<forall>k \<in> set (so_literals c). k \<noteq> l \<longrightarrow> - k \<in> set (take q (nt_trail t)) \<and> lit_level s k \<le> lit_level s l))
           | _ \<Rightarrow> False" if pos_level: "0 < lit_level s l"
    proof (cases "va_reason (nt_var s l)")
      case No_reason
      then have d: "lv_trail (nt_control s ! lit_level s l) = p" "lv_decision (nt_control s ! lit_level s l) = l"
        using ro pos_level by (simp_all add: reason_ok_def Let_def p(2))
      have "p \<le> a" using mono [of "lit_level s l" "n + 1"] ln n d(1) by (simp add: a_def)
      then show ?thesis using No_reason d same ctl [OF ln] by simp
    next
      case (Clause_reason b)
      then obtain c where c: "nt_mem s b = Some c" "l \<in> set (so_literals c)"
        "\<forall>k \<in> set (so_literals c). k \<noteq> l \<longrightarrow> - k \<in> set (take p (nt_trail s)) \<and> lit_level s k \<le> lit_level s l"
        using ro pos_level by (auto simp: reason_ok_def Let_def p(2))
      have "- k \<in> set (take q (nt_trail t))" if "k \<in> set (so_literals c)" "k \<noteq> l" for k
        using c(3) that ln unfolding p(3) [symmetric] by (auto simp: kept_at_def)
      then show ?thesis using Clause_reason c by auto
    qed (use ro pos_level in \<open>simp_all add: reason_ok_def Let_def p(2)\<close>)
    moreover have "va_trail (nt_var t l) = q" using pos q by (simp add: l_def)
    ultimately show "reason_ok F t q"
      using ln unfolding reason_ok_def Let_def l_def [symmetric] lev rea f(3,5) by (auto split: if_splits)
  qed
  ultimately have wft: "nt_wf F t" using inv(4,5) by (simp add: nt_wf_def f)
  have deref: "nt_deref t = nt_deref s" "nt_literals t = nt_literals s" by (simp_all add: nt_deref_def nt_literals_def f fun_eq_iff)
  have "nt_done_for P t (nt_propagated t)"
    unfolding nt_done_for_def
  proof (intro allI impI)
    fix l w p
    assume x: "lit_ok (nt_max_var t) l" "w \<in> set (nt_wtab t l)" "P (wa_clause w)" "p < nt_propagated t" "p < length (nt_trail t)" "nt_trail t ! p = - l"
    have p: "p < a" "p < length (nt_trail s)" using x(4) al by (simp_all add: f(1))
    have "nt_trail s ! p = - l" using pre(1) x(6) p(1) by (metis nth_take)
    then have "sat_at s p (wa_clause w)" using done_n x(1-4) p(2) unfolding nt_done_for_def f(1,4,6) a_def by blast
    moreover have "b \<in> set (nt_trail t)" if "b \<in> set (nt_trail s)" "level_at s p (lit_level s b)" for b
    proof -
      have "lit_level s b < n + 1" using that(2) p(1) n by (simp add: level_at_def a_def)
      then show ?thesis using that(1) by (simp add: T kept_at_def)
    qed
    ultimately show "sat_at t p (wa_clause w)" using at by (auto simp: sat_at_def deref lev)
  qed
  moreover have "lv_trail (nt_control t ! nt_level t) \<le> nt_propagated t"
    using mono [of n "n + 1"] mono [of n "nt_level s"] n high ctl [of n] by (simp add: f(1,3) a_def)
  ultimately show ?thesis using that [OF run wft dct] T f lev rea by blast
qed

lemmas backtrack_ok = backtrack_for_ok [where P = "\<lambda>_. True", unfolded nt_done_for_all]


subsection \<open>Deciding keeps the invariant\<close>

definition ph_inv :: "'v Internal \<Rightarrow> bool" where
  "ph_inv s \<longleftrightarrow> (\<forall>v. \<forall>f \<in> {ph_saved, ph_forced, ph_target, ph_best}. f (nt_phases s) v \<in> {-1, 0, 1})"

lemma decide_phase_lit:
  assumes "ph_inv s"
  shows "decide_phase idx target s = int idx \<or> decide_phase idx target s = - int idx"
proof -
  let ?p = "nt_phases s"
  have "ph_saved ?p idx \<in> {-1, 0, 1}" "ph_forced ?p idx \<in> {-1, 0, 1}" "ph_target ?p idx \<in> {-1, 0, 1}"
    using assms by (simp_all add: ph_inv_def)
  then show ?thesis
    unfolding decide_phase_def Let_def by (elim insertE emptyE; simp)
qed

lemma new_trail_level_ok:
  fixes s :: "('v :: linorder) Internal" and lit :: int
  assumes "nt_ready F s" "nt_conflict s = None" "nt_propagated s = length (nt_trail s)"
  defines "t \<equiv> new_trail_level lit s"
  shows "nt_ready F t" "lit_level t = lit_level s" "lv_trail (nt_control t ! nt_level t) = length (nt_trail t)"
    "lv_decision (nt_control t ! nt_level t) = lit" "nt_val t = nt_val s"
proof -
  have inv: "nt_wf F s" "nt_level_inv s" "nt_dc_inv s" "nt_done s (nt_propagated s)"
    using assms(1,2) by (simp_all add: nt_ready_def nt_wf_def)
  have len: "length (nt_control s) = nt_level s + 1" using inv(2) by (simp add: nt_level_inv_def)
  show lev: "lit_level t = lit_level s" by (simp add: t_def new_trail_level_def lit_level_def nt_var_def fun_eq_iff)
  have c: "nt_vals t = nt_vals s" "nt_var t = nt_var s" "nt_deref t = nt_deref s" "nt_literals t = nt_literals s"
    by (simp_all add: t_def new_trail_level_def nt_vals_def nt_var_def nt_deref_def nt_literals_def fun_eq_iff)
  show "nt_val t = nt_val s" by (simp add: nt_val_def c fun_eq_iff)
  have ctl: "k \<le> nt_level s \<Longrightarrow> nt_control t ! k = nt_control s ! k" for k
    using len by (simp add: t_def new_trail_level_def nth_append)
  show top: "lv_trail (nt_control t ! nt_level t) = length (nt_trail t)" "lv_decision (nt_control t ! nt_level t) = lit"
    using len by (simp_all add: t_def new_trail_level_def nth_append new_level_def)
  have tr: "nt_trail t = nt_trail s" "nt_level t = nt_level s + 1" "nt_mem t = nt_mem s" "nt_wtab t = nt_wtab s"
    "nt_max_var t = nt_max_var s" "nt_propagated t = nt_propagated s" "nt_decide t = nt_decide s" "nt_conflict t = nt_conflict s"
    by (simp_all add: t_def new_trail_level_def)
  have lle: "lit_level s (nt_trail s ! p) \<le> nt_level s" if "p < length (nt_trail s)" for p
    using inv(1) that by (simp add: nt_wf_def nt_reasons_inv_def reason_ok_def Let_def)
  have at: "level_at t p n" if "level_at s p n" "n \<le> nt_level s" for p n
    unfolding level_at_def
  proof (intro allI impI)
    fix k assume "1 \<le> k" "k \<le> nt_level t" "p < lv_trail (nt_control t ! k)"
    then show "n < k" using that ctl by (cases "k = nt_level t") (auto simp: tr level_at_def)
  qed
  have "reason_ok F t p" if p: "p < length (nt_trail s)" for p
  proof -
    have "reason_ok F s p" using inv(1) p by (simp add: nt_wf_def nt_reasons_inv_def)
    then show ?thesis using at lle [OF p] ctl [OF lle [OF p]]
      unfolding reason_ok_def Let_def c lev tr by (auto split: if_splits reason.splits)
  qed
  moreover have "nt_level_inv t"
  proof -
    have s: "sorted (map lv_trail (nt_control s))" "\<forall>f \<in> set (nt_control s). lv_trail f \<le> length (nt_trail s)"
      using inv(2) by (simp_all add: nt_level_inv_def)
    have "nt_control t = nt_control s @ [new_level lit (length (nt_trail s))]" by (simp add: t_def new_trail_level_def)
    moreover have "lv_trail (nt_control t ! 0) = 0" using inv(2) ctl [of 0] by (simp add: nt_level_inv_def)
    ultimately show ?thesis using s len by (auto simp: nt_level_inv_def tr sorted_append new_level_def)
  qed
  ultimately have wf: "nt_wf F t" using inv(1) by (simp add: nt_wf_defs c tr)
  have "nt_done t (nt_propagated t)"
    unfolding nt_done_def
  proof (intro allI impI)
    fix l w p assume x: "lit_ok (nt_max_var t) l" "w \<in> set (nt_wtab t l)" "p < nt_propagated t" "p < length (nt_trail t)" "nt_trail t ! p = - l"
    then have "sat_at s p (wa_clause w)" using inv(4) unfolding nt_done_def tr by blast
    moreover have "lit_level s b \<le> nt_level s" if "b \<in> set (nt_trail s)" for b
      using lle that by (auto simp: in_set_conv_nth)
    ultimately show "sat_at t p (wa_clause w)" using at by (auto simp: sat_at_def c tr lev)
  qed
  then show "nt_ready F t" using wf top(1) inv(3) assms(2,3) by (simp add: nt_ready_def tr nt_dc_inv_def)
qed

lemma assign_ready:
  assumes rd: "nt_ready F s" and a: "assignable F l r s" and nc: "nt_conflict s = None"
  shows "nt_ready F (search_assign l r s)"
proof -
  have d: "nt_wf F s" "nt_dc_inv s" "nt_trail_inv s" "nt_done s (nt_propagated s)"
    using rd nc by (simp_all add: nt_ready_def nt_wf_def)
  have x: "nt_val s l = 0" "lit_ok (nt_max_var s) l" using a by (simp_all add: assignable_def)
  then have "nt_done (search_assign l r s) (nt_propagated s)"
    using nt_done_assign [OF d(3) x d(4)] d(3) by (simp add: nt_trail_inv_def)
  then show ?thesis using search_assign_wf [OF d(1) a] nt_dc_inv_assign [OF d(2)] x(2) rd nc
    by (simp add: nt_ready_def search_assign_fields lit_ok_def)
qed

lemma assume_decision_ok:
  fixes s :: "('v :: linorder) Internal"
  assumes "nt_ready F s" "nt_conflict s = None" "nt_propagated s = length (nt_trail s)"
    and l: "nt_val s l = 0" "lit_ok (nt_max_var s) l"
  defines "t \<equiv> search_assume_decision l s"
  shows "nt_ready F t" "nt_level t = nt_level s + 1" "nt_trail t = nt_trail s @ [l]" "nt_conflict t = None"
proof -
  let ?u = "new_trail_level l s"
  note u = new_trail_level_ok [OF assms(1-3), of l]
  have f: "nt_conflict ?u = None" "nt_level ?u = nt_level s + 1" "nt_max_var ?u = nt_max_var s" "nt_trail ?u = nt_trail s"
    using assms(2) by (simp_all add: new_trail_level_def)
  have "assignable F l Decision_reason ?u" using u l f by (simp add: assignable_def)
  from assign_ready [OF u(1) this f(1)] show "nt_ready F t" by (simp add: t_def search_assume_decision_def)
  show "nt_level t = nt_level s + 1" "nt_trail t = nt_trail s @ [l]" "nt_conflict t = None"
    by (simp_all add: t_def search_assume_decision_def search_assign_fields f)
qed

lemma next_decision_frame:
  "next_decision_variable u d = Some (y, e) \<Longrightarrow>
     vq_vals (dc_queue e) = vq_vals (dc_queue d) \<and> dc_num_assigned e = dc_num_assigned d"
  by (auto simp: next_decision_variable_def next_decision_variable_with_best_score_def
      next_decision_variable_on_queue_def update_queue_unassigned_def Let_def Option.bind_eq_Some_conv split: if_splits)

lemma constraint_loop_spec:
  assumes "constraint_loop s n i ls prev un = (ms, p, u, sat)" "i + n = length ls" "length ls = length ks" "drop i ls = drop i ks"
    "0 \<notin> set ks" "u0 = un"
  shows "length ms = length ls" "sat \<noteq> 0 \<Longrightarrow> sat \<in> set ks \<and> nt_val s sat > 0"
    "sat = 0 \<Longrightarrow> un \<noteq> 0 \<Longrightarrow> u \<noteq> 0" "u \<noteq> 0 \<Longrightarrow> u = un \<or> u \<in> set ks \<and> nt_val s u = 0"
    "sat = 0 \<Longrightarrow> u = 0 \<Longrightarrow> k \<in> set (drop i ks) \<Longrightarrow> nt_val s k < 0"
proof -
  have "length ms = length ls \<and> (sat \<noteq> 0 \<longrightarrow> sat \<in> set ks \<and> nt_val s sat > 0) \<and> (sat = 0 \<longrightarrow> un \<noteq> 0 \<longrightarrow> u \<noteq> 0)
    \<and> (u \<noteq> 0 \<longrightarrow> u = un \<or> u \<in> set ks \<and> nt_val s u = 0) \<and> (sat = 0 \<longrightarrow> u = 0 \<longrightarrow> (\<forall>k \<in> set (drop i ks). nt_val s k < 0))"
    using assms(1-5)
  proof (induction s n i ls prev un arbitrary: ms p u sat rule: constraint_loop.induct)
    case (1 s i ls prev un)
    then show ?case by auto
  next
    case (2 s n i ls prev un)
    let ?k = "ks ! i"
    have i: "i < length ks" "i < length ls" using "2.prems" by auto
    have k: "ls ! i = ?k" using "2.prems"(3,4) i by (metis nth_via_drop Cons_nth_drop_Suc)
    have dr: "drop i ks = ?k # drop (i + 1) ks" using i by (simp add: Cons_nth_drop_Suc)
    have in_ks: "?k \<in> set ks" "?k \<noteq> 0" using i "2.prems"(5) by (auto simp: in_set_conv_nth)
    have nx: "i + 1 + n = length (ls[i := prev])" "length (ls[i := prev]) = length ks" "drop (i + 1) (ls[i := prev]) = drop (i + 1) ks"
      using "2.prems" i by (auto simp: drop_update_swap) (metis drop_drop add.commute plus_1_eq_Suc)+
    show ?case
    proof (cases "nt_val s ?k < 0")
      case True
      from "2.IH"(1) [OF refl refl refl _ _ nx "2.prems"(5)] True "2.prems"(1) show ?thesis by (simp add: k dr)
    next
      case False
      show ?thesis
      proof (cases "nt_val s ?k > 0")
        case True
        then show ?thesis using False "2.prems"(1) in_ks by (auto simp: k Let_def)
      next
        case nz: False
        have run: "constraint_loop s n (i + 1) (ls[i := prev]) ?k (if un = 0 \<or> better_decision ?k un s then ?k else un) = (ms, p, u, sat)"
          using "2.prems"(1) False nz by (simp add: k Let_def)
        have "length ms = length (ls[i := prev]) \<and> (sat \<noteq> 0 \<longrightarrow> sat \<in> set ks \<and> nt_val s sat > 0)
          \<and> (sat = 0 \<longrightarrow> (if un = 0 \<or> better_decision ?k un s then ?k else un) \<noteq> 0 \<longrightarrow> u \<noteq> 0)
          \<and> (u \<noteq> 0 \<longrightarrow> u = (if un = 0 \<or> better_decision ?k un s then ?k else un) \<or> u \<in> set ks \<and> nt_val s u = 0)
          \<and> (sat = 0 \<longrightarrow> u = 0 \<longrightarrow> (\<forall>k \<in> set (drop (i + 1) ks). nt_val s k < 0))"
          using "2.IH"(2) [of ?k "ls[i := prev]" "nt_val s ?k" ms p u sat] run nx "2.prems"(5) False nz k by simp
        then show ?thesis using in_ks False nz by (auto split: if_splits)
      qed
    qed
  qed
  then show "length ms = length ls" "sat \<noteq> 0 \<Longrightarrow> sat \<in> set ks \<and> nt_val s sat > 0"
    "sat = 0 \<Longrightarrow> un \<noteq> 0 \<Longrightarrow> u \<noteq> 0" "u \<noteq> 0 \<Longrightarrow> u = un \<or> u \<in> set ks \<and> nt_val s u = 0"
    "sat = 0 \<Longrightarrow> u = 0 \<Longrightarrow> k \<in> set (drop i ks) \<Longrightarrow> nt_val s k < 0" by blast+
qed


text \<open>The assumptions and the constraint are literals of known variables.\<close>

definition as_inv :: "'v Internal \<Rightarrow> bool" where
  "as_inv s \<longleftrightarrow> (\<forall>l \<in> set (as_assumptions (nt_as s)) \<union> set (as_constraint (nt_as s)). lit_ok (nt_max_var s) l)"

lemma unassigned_exists:
  assumes "nt_trail_inv s" "length (nt_trail s) < nt_max_var s"
  shows "\<exists>y \<in> {1..nt_max_var s}. nt_vals s y = 0"
proof (rule ccontr)
  assume neg: "\<not> ?thesis"
  have "{1..nt_max_var s} \<subseteq> vidx ` set (nt_trail s)"
  proof
    fix y assume "y \<in> {1..nt_max_var s}"
    then have "trail_val (nt_trail s) (int y) \<noteq> 0" using neg assms(1) by (auto simp: nt_trail_inv_def)
    then have "int y \<in> set (nt_trail s) \<or> - int y \<in> set (nt_trail s)" by (auto simp: trail_val_def split: if_splits)
    then show "y \<in> vidx ` set (nt_trail s)" by (force simp: vidx_def image_iff)
  qed
  then have "card {1..nt_max_var s} \<le> card (vidx ` set (nt_trail s))" by (rule card_mono [rotated]) simp
  also have "\<dots> \<le> length (nt_trail s)" using card_image_le [of "set (nt_trail s)" vidx] card_length [of "nt_trail s"] by simp
  finally show False using assms(2) by simp
qed

lemma nt_ready_frame:
  "nt_ready F (s\<lparr>nt_as := x\<rparr>) = nt_ready F s" "nt_ready F (nt_count f s) = nt_ready F s"
  by (rule nt_ready_same, simp add: nt_same_def nt_count_def)+

lemma decide_ok:
  assumes rd: "nt_ready F s" and nc: "nt_conflict s = None" and full: "nt_propagated s = length (nt_trail s)"
    and as: "as_inv s" and ph: "ph_inv s" and ns: "\<not> satisfied s"
  obtains t where "decide s = Some (0, t)" "nt_ready F t" "nt_conflict t = None" "nt_level t = nt_level s + 1"
      "nt_trail t = nt_trail s \<or> (\<exists>l. lit_ok (nt_max_var s) l \<and> nt_val s l = 0 \<and> nt_trail t = nt_trail s @ [l])"
  | t where "decide s = Some (20, t)" "nt_ready F t" "nt_trail t = nt_trail s"
      "(\<exists>l \<in> set (as_assumptions (nt_as s)). nt_val s l < 0)
       \<or> (as_constraint (nt_as s) \<noteq> [] \<and> (\<forall>l \<in> set (as_constraint (nt_as s)). nt_val s l < 0))"
proof -
  let ?a = "as_assumptions (nt_as s)" and ?c = "as_constraint (nt_as s)"
  have pseudo: "nt_ready F (new_trail_level 0 u)" "nt_conflict (new_trail_level 0 u) = None"
    "nt_level (new_trail_level 0 u) = nt_level u + 1" "nt_trail (new_trail_level 0 u) = nt_trail u"
    if "nt_ready F u" "nt_conflict u = None" "nt_propagated u = length (nt_trail u)" for u :: "'a Internal"
    using new_trail_level_ok(1) [OF that, of 0] that by (simp_all add: new_trail_level_def)
  show ?thesis
  proof (cases "nt_level s < length ?a")
    case True
    define l where "l = ?a ! nt_level s"
    have l: "l \<in> set ?a" "lit_ok (nt_max_var s) l" using True as by (auto simp: l_def as_inv_def)
    consider "nt_val s l < 0" | "nt_val s l > 0" | "nt_val s l = 0" by linarith
    then show ?thesis
    proof cases
      case 1
      then have "decide s = Some (20, s\<lparr>nt_as := (nt_as s)\<lparr>as_marked_failed := False\<rparr>\<rparr>)"
        using True by (simp add: decide_def Let_def l_def)
      then show ?thesis by (rule that(2)) (use rd l 1 in \<open>auto simp: nt_ready_frame\<close>)
    next
      case 2
      then have "decide s = Some (0, new_trail_level 0 s)" using True by (simp add: decide_def Let_def l_def)
      then show ?thesis by (rule that(1)) (use pseudo [OF rd nc full] in simp_all)
    next
      case 3
      then have "decide s = Some (0, search_assume_decision l s)" using True by (simp add: decide_def Let_def l_def)
      then show ?thesis
        by (rule that(1)) (use assume_decision_ok [OF rd nc full 3 l(2)] l(2) 3 in auto)
    qed
  next
    case na: False
    show ?thesis
    proof (cases "nt_level s = length ?a \<and> ?c \<noteq> []")
      case True
      obtain ms p u sat where run: "constraint_loop s (length ?c) 0 ?c 0 0 = (ms, p, u, sat)" by (metis prod_cases4)
      have nz: "0 \<notin> set ?c" using as by (auto simp: as_inv_def lit_ok_def)
      note sp = constraint_loop_spec [OF run _ refl refl nz refl, simplified]
      show ?thesis
      proof (cases "sat = 0")
        case False
        let ?u = "s\<lparr>nt_as := (nt_as s)\<lparr>as_constraint := ms[0 := sat]\<rparr>\<rparr>"
        have "decide s = Some (0, new_trail_level 0 ?u)" using na True run False by (simp add: decide_def Let_def)
        then show ?thesis by (rule that(1)) (use pseudo [of ?u] rd nc full in \<open>simp_all add: nt_ready_frame\<close>)
      next
        case ns: True
        define v where "v = s\<lparr>nt_as := (nt_as s)\<lparr>as_constraint := map (\<lambda>i. ms ! (i + 1)) [0..<length ?c - 1] @ [p]\<rparr>\<rparr>"
        have vr: "nt_ready F v" "nt_conflict v = None" "nt_propagated v = length (nt_trail v)" "nt_level v = nt_level s"
          "nt_max_var v = nt_max_var s" "nt_trail v = nt_trail s"
          using rd nc full by (simp_all add: v_def nt_ready_frame)
        have vv: "nt_val v = nt_val s" by (simp add: v_def nt_val_def nt_vals_def fun_eq_iff)
        show ?thesis
        proof (cases "u = 0")
          case False
          then have u: "u \<in> set ?c" "nt_val s u = 0" using sp(4) by simp_all
          then have ok: "lit_ok (nt_max_var s) u" using as by (simp add: as_inv_def)
          have "decide s = Some (0, search_assume_decision u v)"
            using na True run ns False by (simp add: decide_def Let_def v_def)
          then show ?thesis
            by (rule that(1)) (use assume_decision_ok [OF vr(1-3), of u] u ok vr vv in auto)
        next
          case True
          have "decide s = Some (20, v\<lparr>nt_as := (nt_as v)\<lparr>as_unsat_constraint := True, as_marked_failed := False\<rparr>\<rparr>)"
            using na \<open>nt_level s = length ?a \<and> ?c \<noteq> []\<close> run ns True by (simp add: decide_def Let_def v_def)
          then show ?thesis
            by (rule that(2)) (use sp(5) [OF ns True] vr \<open>nt_level s = length ?a \<and> ?c \<noteq> []\<close> in \<open>auto simp: nt_ready_frame\<close>)
        qed
      qed
    next
      case False
      have wf: "nt_trail_inv s" "nt_dc_inv s" using rd by (simp_all add: nt_ready_def nt_wf_def)
      have num: "dc_num_assigned (nt_decide s) = length (nt_trail s)" using wf(2) by (simp add: nt_dc_inv_def)
      have "length (nt_trail s) < nt_max_var s"
        using ns na False num full trail_bound [OF wf(1)] by (auto simp: satisfied_def split: if_splits)
      from unassigned_exists [OF wf(1) this] obtain xs where xs: "dc_inv (nt_decide s) xs" "set xs = {1..nt_max_var s}"
        "\<exists>y \<in> set xs. vq_vals (dc_queue (nt_decide s)) y = 0"
        using wf(2) by (auto simp: nt_dc_inv_def nt_vals_def)
      let ?k = "nt_count (\<lambda>n. n\<lparr>cn_decisions := cn_decisions n + 1\<rparr>) s"
      obtain y d where d: "next_decision_variable (use_scores ?k) (nt_decide s) = Some (y, d)" "dc_inv d xs" "y \<in> set xs"
        "vq_vals (dc_queue (nt_decide s)) y = 0"
        using next_decision_variable_ok [OF xs(1,3)] by blast
      note fr = next_decision_frame [OF d(1)]
      define v where "v = ?k\<lparr>nt_decide := d\<rparr>"
      define l where "l = decide_phase y (co_target (nt_opts v) > 1 \<or> nt_stable v \<and> co_target (nt_opts v) \<noteq> 0) v"
      have ly: "l = int y \<or> l = - int y"
        unfolding l_def by (rule decide_phase_lit) (use ph in \<open>simp add: ph_inv_def v_def nt_count_def\<close>)
      then have ok: "lit_ok (nt_max_var s) l" using d(3) xs(2) by (auto simp: lit_ok_def vidx_def)
      have vals: "nt_vals v = nt_vals s" using fr by (simp add: v_def nt_vals_def)
      have vv: "nt_val v = nt_val s" by (simp add: nt_val_def vals fun_eq_iff)
      have c: "nt_var v = nt_var s" "nt_deref v = nt_deref s" "nt_literals v = nt_literals s" "lit_level v = lit_level s" "level_at v = level_at s"
        "sat_at v = sat_at s"
        by (simp_all add: v_def nt_count_def nt_var_def nt_deref_def nt_literals_def lit_level_def level_at_def sat_at_def fun_eq_iff)
      have f: "nt_trail v = nt_trail s" "nt_level v = nt_level s" "nt_mem v = nt_mem s" "nt_wtab v = nt_wtab s" "nt_max_var v = nt_max_var s"
        "nt_propagated v = nt_propagated s" "nt_conflict v = nt_conflict s" "nt_control v = nt_control s"
        by (simp_all add: v_def nt_count_def)
      have "reason_ok F v = reason_ok F s" unfolding reason_ok_def fun_eq_iff c f by simp
      moreover have "nt_done v = nt_done s" by (simp add: nt_done_def c f fun_eq_iff)
      moreover have "nt_dc_inv v" using d(2) xs(2) num fr by (auto simp: nt_dc_inv_def v_def nt_count_def)
      ultimately have vr: "nt_ready F v" using rd nc by (simp add: nt_ready_def nt_wf_defs vals c f)
      have run: "decide s = Some (0, search_assume_decision l v)"
        using na False d(1) by (auto simp: decide_def Let_def l_def v_def nt_count_def)
      have l0: "nt_val v l = 0" using ly d(4) by (auto simp: vv nt_val_def nt_vals_def vidx_def)
      from assume_decision_ok [OF vr _ _ l0] nc full ok vv l0 show ?thesis
        by (intro that(1) [OF run]) (auto simp: f)
    qed
  qed
qed

end
