(* ===== verification/Cdcl_Analyze.thy ===== *)
theory Cdcl_Analyze
  imports Cdcl_Back Radix
begin

text \<open>
  Conflict analysis (\<^verbatim>\<open>analyze.cpp\<close>) up to the first unique implication point, and the promotion of
  the clauses met on the way (\<^verbatim>\<open>clause.cpp\<close>).  A candidate for on-the-fly strengthening ends the
  loop.
\<close>

subsection \<open>Bumping clauses\<close>

definition nt_analysis :: "(Analysis \<Rightarrow> Analysis) \<Rightarrow> 'v Internal \<Rightarrow> 'v Internal" where
  "nt_analysis f s = s\<lparr>nt_an := f (nt_an s)\<rparr>"

definition recompute_glue :: "nat \<Rightarrow> 'v Internal \<Rightarrow> int \<times> 'v Internal" where
  "recompute_glue a s =
     (let stamp = cn_recomputed (nt_stats s) + 1;
          s = nt_count (\<lambda>n. n\<lparr>cn_recomputed := stamp\<rparr>) s;
          (g, res) = fold (\<lambda>lit (g, res).
              let level = va_level (nt_var s lit)
              in if g level = stamp then (g, res) else (g(level := stamp), res + 1))
            (nt_literals s a) (an_gtab (nt_an s), 0)
      in (res, nt_analysis (\<lambda>n. n\<lparr>an_gtab := g\<rparr>) s))"

definition promote_clause :: "nat \<Rightarrow> int \<Rightarrow> 'v Internal \<Rightarrow> 'v Internal" where
  "promote_clause a new_glue s =
     (let c = nt_deref s a; old_glue = so_glue c in
      if so_keep c then s
      else if so_hyper c then s
      else if new_glue \<ge> old_glue then s
      else
        (let s = (if \<not> so_keep c \<and> new_glue \<le> co_reducetier1glue (nt_opts s) then
                    nt_store a (c\<lparr>so_keep := True\<rparr>) (nt_count (\<lambda>n. n\<lparr>cn_promoted1 := cn_promoted1 n + 1\<rparr>) s)
                  else if old_glue > co_reducetier2glue (nt_opts s) \<and> new_glue \<le> co_reducetier2glue (nt_opts s) then
                    nt_store a (c\<lparr>so_used := 2\<rparr>) (nt_count (\<lambda>n. n\<lparr>cn_promoted2 := cn_promoted2 n + 1\<rparr>) s)
                  else s);
             s = nt_count (\<lambda>n. n\<lparr>cn_improvedglue := cn_improvedglue n + 1\<rparr>) s
         in nt_store a ((nt_deref s a)\<lparr>so_glue := new_glue\<rparr>) s))"

definition bump_clause :: "nat \<Rightarrow> 'v Internal \<Rightarrow> 'v Internal" where
  "bump_clause a s =
     (let used = so_used (nt_deref s a);
          s = nt_store a ((nt_deref s a)\<lparr>so_used := 1\<rparr>) s;
          c = nt_deref s a in
      if so_keep c then s
      else if so_hyper c then s
      else if \<not> so_redundant c then s
      else
        (let (new_glue, s) = recompute_glue a s in
         if new_glue < so_glue c then promote_clause a new_glue s
         else if used \<noteq> 0 \<and> so_glue c \<le> co_reducetier2glue (nt_opts s)
           then nt_store a ((nt_deref s a)\<lparr>so_used := 2\<rparr>) s
         else s))"

subsection \<open>The first unique implication point\<close>

text \<open>The counters \<^verbatim>\<open>open\<close>, \<^verbatim>\<open>resolvent_size\<close> and \<^verbatim>\<open>antecedent_size\<close>.\<close>

record Sizes =
  sz_open :: int
  sz_resolvent :: int
  sz_antecedent :: int

definition analyze_literal :: "int \<Rightarrow> Sizes \<times> 'v Internal \<Rightarrow> Sizes \<times> 'v Internal" where
  "analyze_literal lit = (\<lambda>(z, s).
     let v = nt_var s lit; f = nt_flags s lit in
     if va_level v = 0 then
       (if fg_seen f \<or> \<not> pf_lrat (nt_proof s) then (z, s)
        else
          (let s = nt_set_flags lit (\<lambda>f. f\<lparr>fg_seen := True\<rparr>) s;
               s = nt_analysis (\<lambda>n. n\<lparr>an_unit_analyzed := an_unit_analyzed n @ [lit]\<rparr>) s
           in (z, nt_log (\<lambda>p. p\<lparr>pf_unit_chain := pf_unit_chain p @ [pf_unit_clauses p (- lit)]\<rparr>) s)))
     else
       (let z = z\<lparr>sz_antecedent := sz_antecedent z + 1\<rparr> in
        if fg_seen f then (z, s)
        else
          (let s = nt_set_flags lit (\<lambda>f. f\<lparr>fg_seen := True\<rparr>) s;
               s = nt_analysis (\<lambda>n. n\<lparr>an_analyzed := an_analyzed n @ [lit]\<rparr>) s;
               s = (if va_level v < nt_level s then nt_analysis (\<lambda>n. n\<lparr>an_clause := an_clause n @ [lit]\<rparr>) s else s);
               l = nt_control s ! va_level v;
               s = (if lv_seen_count l = 0 then nt_analysis (\<lambda>n. n\<lparr>an_levels := an_levels n @ [va_level v]\<rparr>) s else s);
               l = l\<lparr>lv_seen_count := lv_seen_count l + 1\<rparr>;
               l = (if va_trail v < lv_seen_trail l then l\<lparr>lv_seen_trail := va_trail v\<rparr> else l);
               s = s\<lparr>nt_control := (nt_control s)[va_level v := l]\<rparr>;
               z = z\<lparr>sz_resolvent := sz_resolvent z + 1\<rparr>
           in (if va_level v = nt_level s then z\<lparr>sz_open := sz_open z + 1\<rparr> else z, s))))"

definition analyze_reason :: "int \<Rightarrow> nat \<Rightarrow> Sizes \<times> 'v Internal \<Rightarrow> Sizes \<times> 'v Internal" where
  "analyze_reason lit reason = (\<lambda>(z, s).
     let s = bump_clause reason s;
         s = (if pf_lrat (nt_proof s)
              then nt_log (\<lambda>p. p\<lparr>pf_lrat_chain := pf_lrat_chain p @ [so_id (nt_deref s reason)]\<rparr>) s else s)
     in fold (\<lambda>other x. if other \<noteq> lit then analyze_literal other x else x) (nt_literals s reason) (z, s))"

text \<open>The next seen literal of the current level below position \<open>i\<close>; there has to be one.\<close>

fun find_uip :: "'v Internal \<Rightarrow> nat \<Rightarrow> (int \<times> nat) option" where
  "find_uip s 0 = None"
| "find_uip s (Suc i) =
     (let lit = nt_trail s ! i in
      if \<not> fg_seen (nt_flags s lit) then find_uip s i
      else if va_level (nt_var s lit) = nt_level s then Some (lit, i) else find_uip s i)"

text \<open>
  How the loop ends: with the first unique implication point, or with an antecedent that the
  resolvent subsumes, which the code strengthens by removing the pivot.  A null reason is never
  dereferenced; it would be the outcome \<open>None\<close>.
\<close>

datatype uip_outcome = First_uip int | Otfs_candidate nat int

partial_function (option) analyze_loop ::
    "int \<Rightarrow> nat \<Rightarrow> nat \<Rightarrow> nat \<Rightarrow> Sizes \<Rightarrow> 'v Internal \<Rightarrow> (uip_outcome \<times> Sizes \<times> 'v Internal) option" where
  "analyze_loop uip reason i resolved z s =
     (let (z, s) = analyze_reason uip reason (z\<lparr>sz_antecedent := 1\<rparr>, s) in
      if co_otfs (nt_opts s) \<and> resolved > 0 \<and> sz_antecedent z > 2 \<and> sz_resolvent z < sz_antecedent z
      then Some (Otfs_candidate reason uip, z, s)
      else
        Option.bind (find_uip s i) (\<lambda>(uip, i).
          let z = z\<lparr>sz_open := sz_open z - 1\<rparr> in
          if sz_open z = 0 then Some (First_uip uip, z, s)
          else
            (case va_reason (nt_var s uip) of
               Clause_reason a \<Rightarrow> analyze_loop uip a i (resolved + 1) (z\<lparr>sz_resolvent := sz_resolvent z - 1\<rparr>) s
             | _ \<Rightarrow> None)))"

declare analyze_loop.simps [code]

text \<open>The part of \<^verbatim>\<open>analyze\<close> that derives the first UIP clause from the conflict.\<close>

definition analyze_conflict :: "'v Internal \<Rightarrow> (uip_outcome \<times> Sizes \<times> 'v Internal) option" where
  "analyze_conflict s =
     Option.bind (nt_conflict s) (\<lambda>a.
       Option.bind (analyze_loop 0 a (length (nt_trail s)) 0 \<lparr>sz_open = 0, sz_resolvent = 0, sz_antecedent = 1\<rparr> s)
         (\<lambda>(r, z, s). Some (case r of
            First_uip uip \<Rightarrow> (r, z, nt_analysis (\<lambda>n. n\<lparr>an_clause := an_clause n @ [- uip]\<rparr>) s)
          | Otfs_candidate _ _ \<Rightarrow> (r, z, s))))"

subsection \<open>Clearing marks\<close>

definition clear_unit_analyzed_literals :: "'v Internal \<Rightarrow> 'v Internal" where
  "clear_unit_analyzed_literals s =
     nt_analysis (\<lambda>n. n\<lparr>an_unit_analyzed := []\<rparr>)
       (fold (\<lambda>lit. nt_set_flags lit (\<lambda>f. f\<lparr>fg_seen := False\<rparr>)) (an_unit_analyzed (nt_an s)) s)"

definition clear_analyzed_literals :: "'v Internal \<Rightarrow> 'v Internal" where
  "clear_analyzed_literals s =
     nt_analysis (\<lambda>n. n\<lparr>an_analyzed := []\<rparr>)
       (fold (\<lambda>lit. nt_set_flags lit (\<lambda>f. f\<lparr>fg_seen := False\<rparr>)) (an_analyzed (nt_an s)) s)"

definition clear_analyzed_levels :: "'v Internal \<Rightarrow> 'v Internal" where
  "clear_analyzed_levels s =
     nt_analysis (\<lambda>n. n\<lparr>an_levels := []\<rparr>)
       (fold (\<lambda>l s. if l < length (nt_control s) then s\<lparr>nt_control := (nt_control s)[l := level_reset (nt_control s ! l)]\<rparr> else s)
          (an_levels (nt_an s)) s)"

end
