(* ===== verification/Cdcl_Uip.thy ===== *)
theory Cdcl_Uip
  imports Cdcl_Analyze
begin

text \<open>
  The first UIP clause is implied by the formula.  The literals analyzed so far split into those of
  lower levels, which form the clause, and those of the current level; of the latter the ones below
  the position the loop has reached are open.  The clause and the open literals together are
  implied after every step.
\<close>

subsection \<open>What analysis leaves alone\<close>

definition an_frame :: "'v Internal \<Rightarrow> 'v Internal \<Rightarrow> bool" where
  "an_frame s t \<longleftrightarrow>
     nt_trail t = nt_trail s \<and> nt_level t = nt_level s \<and> nt_vtab t = nt_vtab s \<and> nt_decide t = nt_decide s
     \<and> nt_wtab t = nt_wtab s \<and> nt_max_var t = nt_max_var s \<and> nt_propagated t = nt_propagated s
     \<and> nt_conflict t = nt_conflict s \<and> nt_opts t = nt_opts s \<and> pf_lrat (nt_proof t) = pf_lrat (nt_proof s)
     \<and> nt_as t = nt_as s \<and> nt_phases t = nt_phases s \<and> nt_next_addr t = nt_next_addr s \<and> nt_clauses t = nt_clauses s
     \<and> nt_unsat t = nt_unsat s \<and> nt_stable t = nt_stable s \<and> nt_score_inc t = nt_score_inc s
     \<and> map lv_trail (nt_control t) = map lv_trail (nt_control s)
     \<and> map lv_decision (nt_control t) = map lv_decision (nt_control s)
     \<and> (\<forall>a. map_option (\<lambda>c. (so_literals c, so_garbage c, so_pos c, so_redundant c)) (nt_mem t a)
           = map_option (\<lambda>c. (so_literals c, so_garbage c, so_pos c, so_redundant c)) (nt_mem s a))"

lemma an_frame_refl [simp]: "an_frame s s"
  by (simp add: an_frame_def)

lemma an_frame_trans: "an_frame s t \<Longrightarrow> an_frame t u \<Longrightarrow> an_frame s u"
  by (simp add: an_frame_def)

lemma an_frame_simps [simp]:
  "an_frame s (nt_count f s)" "an_frame s (nt_analysis g s)" "an_frame s (nt_set_flags l h s)"
  "(\<And>p. pf_lrat (k p) = pf_lrat p) \<Longrightarrow> an_frame s (nt_log k s)"
  by (simp_all add: an_frame_def nt_count_def nt_analysis_def nt_set_flags_def nt_log_def)

lemma an_frame_up: "an_frame s t \<Longrightarrow> an_frame s (nt_analysis g t)"
  by (rule an_frame_trans [OF _ an_frame_simps(2)])

lemma an_frame_store:
  "nt_mem s a = Some c \<Longrightarrow> so_literals d = so_literals c \<Longrightarrow> so_garbage d = so_garbage c \<Longrightarrow> so_pos d = so_pos c \<Longrightarrow>
     so_redundant d = so_redundant c \<Longrightarrow> an_frame s (nt_store a d s)"
  by (simp add: an_frame_def nt_store_def)

lemma an_frame_map:
  "an_frame s t \<Longrightarrow> map_option (\<lambda>c. (so_literals c, so_garbage c, so_pos c, so_redundant c)) (nt_mem t a)
     = map_option (\<lambda>c. (so_literals c, so_garbage c, so_pos c, so_redundant c)) (nt_mem s a)"
  unfolding an_frame_def by blast

lemma an_frame_mem: "an_frame s t \<Longrightarrow> nt_mem s a = Some c \<Longrightarrow>
    \<exists>d. nt_mem t a = Some d \<and> so_literals d = so_literals c \<and> so_garbage d = so_garbage c \<and> so_pos d = so_pos c
      \<and> so_redundant d = so_redundant c"
  using an_frame_map [of s t a] by (cases "nt_mem t a") simp_all

lemma an_frame_None: "an_frame s t \<Longrightarrow> nt_mem t a = None \<longleftrightarrow> nt_mem s a = None"
  using an_frame_map [of s t a] by (cases "nt_mem t a"; cases "nt_mem s a") simp_all

lemma an_frame_cong:
  assumes "an_frame s t"
  shows "nt_var t = nt_var s" "lit_level t = lit_level s" "nt_literals t a = nt_literals s a" "nt_vals t = nt_vals s"
    "nt_val t = nt_val s" "lv_trail (nt_control t ! k) = lv_trail (nt_control s ! k) \<or> length (nt_control s) \<le> k"
    "length (nt_control t) = length (nt_control s)"
proof -
  have f: "nt_vtab t = nt_vtab s" "nt_decide t = nt_decide s" "map lv_trail (nt_control t) = map lv_trail (nt_control s)"
    by (insert assms, unfold an_frame_def, (elim conjE, assumption)+)
  show v: "nt_var t = nt_var s" "nt_vals t = nt_vals s" by (rule ext, simp add: nt_var_def nt_vals_def f)+
  show "lit_level t = lit_level s" "nt_val t = nt_val s" by (rule ext, simp add: lit_level_def nt_val_def v)+
  show "nt_literals t a = nt_literals s a"
    using an_frame_map [OF assms, of a]
    by (cases "nt_mem s a"; cases "nt_mem t a") (simp_all add: nt_literals_def nt_deref_def)
  show l: "length (nt_control t) = length (nt_control s)" using f(3) by (metis length_map)
  show "lv_trail (nt_control t ! k) = lv_trail (nt_control s ! k) \<or> length (nt_control s) \<le> k"
    using f(3) l nth_map [of k "nt_control s" lv_trail] nth_map [of k "nt_control t" lv_trail] by (metis not_le)
qed

lemma bump_clause_frame:
  assumes "nt_mem s a = Some c"
  shows "an_frame s (bump_clause a s)"
proof -
  define s1 where "s1 = nt_store a (c\<lparr>so_used := 1\<rparr>) s"
  have f1: "an_frame s s1" using assms by (simp add: s1_def an_frame_store)
  have m1: "nt_mem s1 a = Some (c\<lparr>so_used := 1\<rparr>)" by (simp add: s1_def nt_store_def)
  obtain g u where u: "recompute_glue a s1 = (g, u)" by fastforce
  then have fu: "an_frame s1 u" "nt_mem u a = nt_mem s1 a"
    by (auto simp: recompute_glue_def Let_def nt_analysis_def nt_count_def an_frame_def split: prod.splits)
  have mu: "nt_mem u a = Some (c\<lparr>so_used := 1\<rparr>)" using fu(2) m1 by simp
  have st: "an_frame u (nt_store a d u)"
    if "so_literals d = so_literals c" "so_garbage d = so_garbage c" "so_pos d = so_pos c" "so_redundant d = so_redundant c" for d
    by (rule an_frame_store [OF mu]) (use that in simp_all)
  have pc: "an_frame u (promote_clause a g u)"
    using mu by (simp add: promote_clause_def Let_def nt_store_def nt_count_def nt_deref_def an_frame_def)
  have u2: "an_frame u (nt_store a ((nt_deref u a)\<lparr>so_used := 2\<rparr>) u)" by (rule st) (simp_all add: nt_deref_def mu)
  have "bump_clause a s = s1 \<or> bump_clause a s = promote_clause a g u
    \<or> bump_clause a s = nt_store a ((nt_deref u a)\<lparr>so_used := 2\<rparr>) u \<or> bump_clause a s = u"
    using assms u unfolding bump_clause_def Let_def nt_deref_def s1_def by simp
  then show ?thesis using f1 an_frame_trans [OF f1 fu(1)] an_frame_trans [OF _ pc] an_frame_trans [OF _ u2] by auto
qed

lemma nt_set_flags_simps [simp]: "nt_flags (nt_set_flags l f s) k = (if vidx k = vidx l then f (nt_flags s k) else nt_flags s k)"
  by (auto simp: nt_flags_def nt_set_flags_def)

lemma map_update_same: "f l = f (xs ! n) \<Longrightarrow> map f (xs[n := l]) = map f xs"
  by (cases "n < length xs") (simp_all add: map_update list_update_same_conv list_update_beyond)

lemma an_frame_control:
  "lv_trail l = lv_trail (nt_control s ! n) \<Longrightarrow> lv_decision l = lv_decision (nt_control s ! n) \<Longrightarrow>
     an_frame s (s\<lparr>nt_control := (nt_control s)[n := l]\<rparr>)"
  by (simp add: an_frame_def map_update_same)


subsection \<open>Analyzing a literal\<close>

lemma analyze_literal_zero:
  assumes "lit_level s l = 0"
  obtains t where "analyze_literal l (z, s) = (z, t)" "an_frame s t" "an_analyzed (nt_an t) = an_analyzed (nt_an s)"
    "an_clause (nt_an t) = an_clause (nt_an s)"
    "\<And>v. 0 < va_level (nt_vtab s v) \<Longrightarrow> fg_seen (nt_ftab t v) = fg_seen (nt_ftab s v)"
proof (cases "fg_seen (nt_flags s l) \<or> \<not> pf_lrat (nt_proof s)")
  case True
  then show ?thesis using assms by (intro that [of s]) (simp_all add: analyze_literal_def Let_def lit_level_def)
next
  case False
  let ?t1 = "nt_analysis (\<lambda>n. n\<lparr>an_unit_analyzed := an_unit_analyzed n @ [l]\<rparr>) (nt_set_flags l (\<lambda>f. f\<lparr>fg_seen := True\<rparr>) s)"
  let ?t = "nt_log (\<lambda>p. p\<lparr>pf_unit_chain := pf_unit_chain p @ [pf_unit_clauses p (- l)]\<rparr>) ?t1"
  have "an_frame s ?t" by (rule an_frame_trans [OF an_frame_trans [OF an_frame_simps(3,2)] an_frame_simps(4)]) simp
  moreover have "analyze_literal l (z, s) = (z, ?t)" using False assms by (simp add: analyze_literal_def Let_def lit_level_def)
  ultimately show ?thesis using assms
    by (intro that [of ?t]) (auto simp: nt_log_def nt_analysis_def nt_set_flags_def lit_level_def nt_var_def)
qed

lemma analyze_literal_seen:
  "0 < lit_level s l \<Longrightarrow> fg_seen (nt_flags s l) \<Longrightarrow>
     analyze_literal l (z, s) = (z\<lparr>sz_antecedent := sz_antecedent z + 1\<rparr>, s)"
  by (simp add: analyze_literal_def Let_def lit_level_def)

lemma analyze_literal_new:
  assumes "0 < lit_level s l" "\<not> fg_seen (nt_flags s l)"
  obtains t where
    "analyze_literal l (z, s) = (z\<lparr>sz_antecedent := sz_antecedent z + 1, sz_resolvent := sz_resolvent z + 1,
        sz_open := (if lit_level s l = nt_level s then sz_open z + 1 else sz_open z)\<rparr>, t)"
    "an_frame s t" "an_analyzed (nt_an t) = an_analyzed (nt_an s) @ [l]"
    "an_clause (nt_an t) = an_clause (nt_an s) @ (if lit_level s l < nt_level s then [l] else [])"
    "\<And>v. fg_seen (nt_ftab t v) \<longleftrightarrow> v = vidx l \<or> fg_seen (nt_ftab s v)"
proof -
  let ?n = "va_level (nt_var s l)"
  let ?c = "nt_control s ! ?n"
  let ?c1 = "?c\<lparr>lv_seen_count := lv_seen_count ?c + 1\<rparr>"
  let ?c2 = "if va_trail (nt_var s l) < lv_seen_trail ?c1 then ?c1\<lparr>lv_seen_trail := va_trail (nt_var s l)\<rparr> else ?c1"
  let ?s1 = "nt_analysis (\<lambda>n. n\<lparr>an_analyzed := an_analyzed n @ [l]\<rparr>) (nt_set_flags l (\<lambda>f. f\<lparr>fg_seen := True\<rparr>) s)"
  let ?s2 = "if ?n < nt_level s then nt_analysis (\<lambda>n. n\<lparr>an_clause := an_clause n @ [l]\<rparr>) ?s1 else ?s1"
  let ?s3 = "if lv_seen_count ?c = 0 then nt_analysis (\<lambda>n. n\<lparr>an_levels := an_levels n @ [?n]\<rparr>) ?s2 else ?s2"
  let ?t = "?s3\<lparr>nt_control := (nt_control ?s3)[?n := ?c2]\<rparr>"
  have ctl: "nt_control ?s3 = nt_control s" "nt_level ?s1 = nt_level s" by (simp_all add: nt_analysis_def nt_set_flags_def)
  have run: "analyze_literal l (z, s) = (z\<lparr>sz_antecedent := sz_antecedent z + 1, sz_resolvent := sz_resolvent z + 1,
        sz_open := (if lit_level s l = nt_level s then sz_open z + 1 else sz_open z)\<rparr>, ?t)"
    using assms unfolding analyze_literal_def Let_def lit_level_def
    by (simp add: nt_analysis_def nt_set_flags_def split del: if_split cong: if_cong) (simp split: if_split)
  have "an_frame s ?s1" by (rule an_frame_trans [OF an_frame_simps(3,2)])
  then have "an_frame s ?s3" by (auto intro: an_frame_up)
  moreover have "an_frame ?s3 ?t" by (rule an_frame_control) (simp_all add: ctl)
  ultimately have "an_frame s ?t" by (rule an_frame_trans)
  then show ?thesis
    by (rule that [OF run]) (auto simp: nt_analysis_def nt_set_flags_def lit_level_def)
qed

subsection \<open>The invariant of the loop\<close>

definition open_lits :: "'v Internal \<Rightarrow> nat \<Rightarrow> int list" where
  "open_lits s i = filter (\<lambda>l. lit_level s l = nt_level s \<and> va_trail (nt_var s l) < i) (an_analyzed (nt_an s))"

definition an_inv :: "nat \<Rightarrow> Sizes \<Rightarrow> 'v Internal \<Rightarrow> bool" where
  "an_inv i z s \<longleftrightarrow>
     distinct (map vidx (an_analyzed (nt_an s)))
     \<and> (\<forall>l \<in> set (an_analyzed (nt_an s)). - l \<in> set (nt_trail s) \<and> 0 < lit_level s l \<and> lit_level s l \<le> nt_level s)
     \<and> (\<forall>v. 0 < va_level (nt_vtab s v) \<longrightarrow> fg_seen (nt_ftab s v) = (v \<in> vidx ` set (an_analyzed (nt_an s))))
     \<and> an_clause (nt_an s) = filter (\<lambda>l. lit_level s l < nt_level s) (an_analyzed (nt_an s))
     \<and> sz_open z = int (length (open_lits s i)) \<and> sz_resolvent z = sz_open z + int (length (an_clause (nt_an s)))"

text \<open>A literal falsified before position \<open>i\<close>.\<close>

definition false_before :: "'v Internal \<Rightarrow> nat \<Rightarrow> int \<Rightarrow> bool" where
  "false_before s i l \<longleftrightarrow> - l \<in> set (nt_trail s) \<and> va_trail (nt_var s l) < i \<and> lit_level s l \<le> nt_level s"

lemma false_before_frame: "an_frame s t \<Longrightarrow> false_before t i l = false_before s i l"
  using an_frame_cong(1,2) [of s t] by (simp add: false_before_def an_frame_def)

lemma analyze_literal_inv:
  assumes inv: "an_inv i z s" and l: "false_before s i l" and tr: "nt_trail_inv s"
  obtains y t where "analyze_literal l (z, s) = (y, t)" "an_inv i y t" "an_frame s t"
    "set (an_analyzed (nt_an s)) \<subseteq> set (an_analyzed (nt_an t))" "set (an_analyzed (nt_an t)) \<subseteq> insert l (set (an_analyzed (nt_an s)))"
    "0 < lit_level s l \<Longrightarrow> l \<in> set (an_analyzed (nt_an t))"
    "sz_antecedent y = sz_antecedent z + (if 0 < lit_level s l then 1 else 0)"
proof (cases "lit_level s l = 0")
  case True
  from analyze_literal_zero [OF this, of z] obtain t where t: "analyze_literal l (z, s) = (z, t)" "an_frame s t"
    "an_analyzed (nt_an t) = an_analyzed (nt_an s)" "an_clause (nt_an t) = an_clause (nt_an s)"
    "\<And>v. 0 < va_level (nt_vtab s v) \<Longrightarrow> fg_seen (nt_ftab t v) = fg_seen (nt_ftab s v)" by blast
  have f: "nt_var t = nt_var s" "lit_level t = lit_level s" "nt_trail t = nt_trail s" "nt_level t = nt_level s" "nt_vtab t = nt_vtab s"
    using an_frame_cong [OF t(2)] t(2) by (simp_all add: an_frame_def)
  have "an_inv i z t" using inv t(5) by (simp add: an_inv_def open_lits_def f t(3,4))
  then show ?thesis using True t(3) by (intro that [OF t(1)] t(2)) auto
next
  case False
  show ?thesis
  proof (cases "fg_seen (nt_flags s l)")
    case True
    have "l \<in> set (an_analyzed (nt_an s))"
    proof -
      have "vidx l \<in> vidx ` set (an_analyzed (nt_an s))"
        using inv True False by (simp add: an_inv_def nt_flags_def lit_level_def nt_var_def)
      then obtain k where k: "k \<in> set (an_analyzed (nt_an s))" "k = l \<or> k = - l" by (auto simp: vidx_eq_iff)
      have "k \<noteq> - l"
      proof
        assume "k = - l"
        then have "l \<in> set (nt_trail s)" using k(1) inv by (auto simp: an_inv_def)
        then have "- l \<notin> set (nt_trail s)"
          using tr distinct_abs_trail [of "nt_trail s" l] by (auto simp: nt_trail_inv_def lit_ok_def)
        then show False using l by (simp add: false_before_def)
      qed
      then show ?thesis using k by simp
    qed
    moreover have "an_inv i (z\<lparr>sz_antecedent := sz_antecedent z + 1\<rparr>) s" using inv by (simp add: an_inv_def)
    ultimately show ?thesis
      using False by (intro that [OF analyze_literal_seen [OF _ True]]) auto
  next
    case new: False
    from False have pos: "0 < lit_level s l" by simp
    from analyze_literal_new [OF pos new] obtain t where
      t: "analyze_literal l (z, s) = (z\<lparr>sz_antecedent := sz_antecedent z + 1, sz_resolvent := sz_resolvent z + 1,
        sz_open := (if lit_level s l = nt_level s then sz_open z + 1 else sz_open z)\<rparr>, t)"
      "an_frame s t" "an_analyzed (nt_an t) = an_analyzed (nt_an s) @ [l]"
      "an_clause (nt_an t) = an_clause (nt_an s) @ (if lit_level s l < nt_level s then [l] else [])"
      "\<And>v. fg_seen (nt_ftab t v) \<longleftrightarrow> v = vidx l \<or> fg_seen (nt_ftab s v)" by blast
    have f: "nt_var t = nt_var s" "lit_level t = lit_level s" "nt_trail t = nt_trail s" "nt_level t = nt_level s" "nt_vtab t = nt_vtab s"
      using an_frame_cong [OF t(2)] t(2) by (simp_all add: an_frame_def)
    have "vidx l \<notin> vidx ` set (an_analyzed (nt_an s))"
      using inv new pos by (simp add: an_inv_def nt_flags_def lit_level_def nt_var_def)
    then have "an_inv i (z\<lparr>sz_antecedent := sz_antecedent z + 1, sz_resolvent := sz_resolvent z + 1,
        sz_open := (if lit_level s l = nt_level s then sz_open z + 1 else sz_open z)\<rparr>) t"
      using inv l pos by (auto simp: an_inv_def open_lits_def f t(3-5) false_before_def)
    then show ?thesis using t(3) pos by (intro that [OF t(1)] t(2)) auto
  qed
qed

lemma analyze_fold_inv:
  assumes "an_inv i z s" "\<And>k. k \<in> set ls \<Longrightarrow> k \<noteq> u \<Longrightarrow> false_before s i k" "nt_trail_inv s"
  shows "\<exists>y t. fold (\<lambda>k x. if k \<noteq> u then analyze_literal k x else x) ls (z, s) = (y, t) \<and> an_inv i y t \<and> an_frame s t
    \<and> set (an_analyzed (nt_an s)) \<subseteq> set (an_analyzed (nt_an t)) \<and> set (an_analyzed (nt_an t)) \<subseteq> set (an_analyzed (nt_an s)) \<union> set ls
    \<and> (\<forall>k \<in> set ls. k \<noteq> u \<longrightarrow> 0 < lit_level s k \<longrightarrow> k \<in> set (an_analyzed (nt_an t)))
    \<and> sz_antecedent y = sz_antecedent z + int (length (filter (\<lambda>k. k \<noteq> u \<and> 0 < lit_level s k) ls))"
  using assms
proof (induction ls arbitrary: z s)
  case Nil
  then show ?case by simp
next
  case (Cons k ls)
  show ?case
  proof (cases "k = u")
    case True
    then show ?thesis using Cons.IH [OF Cons.prems(1) _ Cons.prems(3)] Cons.prems(2) by (auto 0 3)
  next
    case False
    from analyze_literal_inv [OF Cons.prems(1) _ Cons.prems(3), of k] False Cons.prems(2)
    obtain y t where t: "analyze_literal k (z, s) = (y, t)" "an_inv i y t" "an_frame s t"
      "set (an_analyzed (nt_an s)) \<subseteq> set (an_analyzed (nt_an t))" "set (an_analyzed (nt_an t)) \<subseteq> insert k (set (an_analyzed (nt_an s)))"
      "0 < lit_level s k \<Longrightarrow> k \<in> set (an_analyzed (nt_an t))"
      "sz_antecedent y = sz_antecedent z + (if 0 < lit_level s k then 1 else 0)" by (metis list.set_intros(1))
    have fb: "j \<in> set ls \<Longrightarrow> j \<noteq> u \<Longrightarrow> false_before t i j" for j
      using Cons.prems(2) [of j] by (simp add: false_before_frame [OF t(3)])
    have tr: "nt_trail_inv t"
      using Cons.prems(3) t(3) an_frame_cong(4) [OF t(3)] by (simp add: nt_trail_inv_def an_frame_def)
    note lev = an_frame_cong(2) [OF t(3)]
    from Cons.IH [OF t(2) fb tr] obtain y' t' where u: "fold (\<lambda>k x. if k \<noteq> u then analyze_literal k x else x) ls (y, t) = (y', t')"
      "an_inv i y' t'" "an_frame t t'" "set (an_analyzed (nt_an t)) \<subseteq> set (an_analyzed (nt_an t'))"
      "set (an_analyzed (nt_an t')) \<subseteq> set (an_analyzed (nt_an t)) \<union> set ls"
      "\<forall>k \<in> set ls. k \<noteq> u \<longrightarrow> 0 < lit_level s k \<longrightarrow> k \<in> set (an_analyzed (nt_an t'))"
      "sz_antecedent y' = sz_antecedent y + int (length (filter (\<lambda>k. k \<noteq> u \<and> 0 < lit_level s k) ls))"
      unfolding lev by blast
    show ?thesis
      by (intro exI [of _ y'] exI [of _ t']) (use False t u an_frame_trans [OF t(3) u(3)] in auto)
  qed
qed


subsection \<open>A round of the loop\<close>

lemma an_inv_frame:
  assumes "an_frame s t" "nt_ftab t = nt_ftab s" "nt_an t = (nt_an s)\<lparr>an_gtab := g\<rparr>" "an_inv i z s"
  shows "an_inv i z t"
proof -
  have f: "nt_var t = nt_var s" "lit_level t = lit_level s" "nt_trail t = nt_trail s" "nt_level t = nt_level s" "nt_vtab t = nt_vtab s"
    using an_frame_cong [OF assms(1)] assms(1) by (simp_all add: an_frame_def)
  show ?thesis using assms(4) by (simp add: an_inv_def open_lits_def f assms(2,3))
qed

lemma bump_clause_marks:
  "nt_ftab (bump_clause a s) = nt_ftab s \<and> (\<exists>g. nt_an (bump_clause a s) = (nt_an s)\<lparr>an_gtab := g\<rparr>)"
proof -
  have id: "\<exists>g. (nt_an s) = (nt_an s)\<lparr>an_gtab := g\<rparr>" by (rule exI [of _ "an_gtab (nt_an s)"]) simp
  have g: "nt_ftab (snd (recompute_glue a u)) = nt_ftab u \<and> (\<exists>g. nt_an (snd (recompute_glue a u)) = (nt_an u)\<lparr>an_gtab := g\<rparr>)"
    for u :: "'a Internal"
    by (auto simp: recompute_glue_def Let_def nt_analysis_def nt_count_def split: prod.split)
  have p: "nt_ftab (promote_clause a b u) = nt_ftab u" "nt_an (promote_clause a b u) = nt_an u" for b and u :: "'a Internal"
    by (simp_all add: promote_clause_def Let_def nt_store_def nt_count_def)
  show ?thesis
    using g [of "nt_store a ((nt_deref s a)\<lparr>so_used := 1\<rparr>) s"] id
    by (auto simp: bump_clause_def Let_def p nt_store_def split: prod.split)
qed

lemma analyze_reason_inv:
  assumes inv: "an_inv i z s" and c: "nt_mem s a = Some c"
    and ls: "\<And>k. k \<in> set (so_literals c) \<Longrightarrow> k \<noteq> u \<Longrightarrow> false_before s i k" and tr: "nt_trail_inv s"
  shows "\<exists>y t. analyze_reason u a (z, s) = (y, t) \<and> an_inv i y t \<and> an_frame s t
    \<and> set (an_analyzed (nt_an s)) \<subseteq> set (an_analyzed (nt_an t))
    \<and> (\<forall>k \<in> set (so_literals c). k \<noteq> u \<longrightarrow> 0 < lit_level s k \<longrightarrow> k \<in> set (an_analyzed (nt_an t)))
    \<and> sz_antecedent y = sz_antecedent z + int (length (filter (\<lambda>k. k \<noteq> u \<and> 0 < lit_level s k) (so_literals c)))"
proof -
  let ?b = "bump_clause a s"
  let ?l = "if pf_lrat (nt_proof ?b) then nt_log (\<lambda>p. p\<lparr>pf_lrat_chain := pf_lrat_chain p @ [so_id (nt_deref ?b a)]\<rparr>) ?b else ?b"
  have fb: "an_frame s ?b" by (rule bump_clause_frame [OF c])
  then have fl: "an_frame s ?l" by (auto intro: an_frame_trans)
  obtain g where "nt_ftab ?l = nt_ftab s" "nt_an ?l = (nt_an s)\<lparr>an_gtab := g\<rparr>"
    using bump_clause_marks [of a s] by (auto simp: nt_log_def)
  then have inv': "an_inv i z ?l" and an: "an_analyzed (nt_an ?l) = an_analyzed (nt_an s)" using an_inv_frame [OF fl] inv by simp_all
  have lits: "nt_literals ?l a = so_literals c" using an_frame_cong(3) [OF fl, of a] c by (simp add: nt_literals_def nt_deref_def)
  have tr': "nt_trail_inv ?l" using tr fl an_frame_cong(4) [OF fl] by (simp add: nt_trail_inv_def an_frame_def)
  have ls': "false_before ?l i k" if "k \<in> set (so_literals c)" "k \<noteq> u" for k
    using ls [OF that] by (simp only: false_before_frame [OF fl])
  note lev = an_frame_cong(2) [OF fl]
  have run: "analyze_reason u a (z, s) = fold (\<lambda>k x. if k \<noteq> u then analyze_literal k x else x) (so_literals c) (z, ?l)"
    by (simp add: analyze_reason_def Let_def lits [symmetric])
  from analyze_fold_inv [OF inv' ls' tr', unfolded lev an] obtain y t where
    "fold (\<lambda>k x. if k \<noteq> u then analyze_literal k x else x) (so_literals c) (z, ?l) = (y, t)" "an_inv i y t" "an_frame ?l t"
    "set (an_analyzed (nt_an s)) \<subseteq> set (an_analyzed (nt_an t))"
    "\<forall>k \<in> set (so_literals c). k \<noteq> u \<longrightarrow> 0 < lit_level s k \<longrightarrow> k \<in> set (an_analyzed (nt_an t))"
    "sz_antecedent y = sz_antecedent z + int (length (filter (\<lambda>k. k \<noteq> u \<and> 0 < lit_level s k) (so_literals c)))"
    by blast
  then show ?thesis using run an_frame_trans [OF fl] by auto
qed

text \<open>The resolvent after a round: the clause and the open literals.\<close>

definition resolvent :: "'v Internal \<Rightarrow> nat \<Rightarrow> int list" where
  "resolvent s i = an_clause (nt_an s) @ open_lits s i"

lemma set_resolvent:
  "an_inv i z s \<Longrightarrow> l \<in> set (resolvent s i) \<longleftrightarrow>
     l \<in> set (an_analyzed (nt_an s)) \<and> (lit_level s l < nt_level s \<or> lit_level s l = nt_level s \<and> va_trail (nt_var s l) < i)"
  by (auto simp: resolvent_def open_lits_def an_inv_def)

lemma resolve_false:
  assumes "entails F (- u # K)" "entails F C" "0 \<notin> set C" "u \<noteq> 0"
    and "\<And>k. k \<in> set C \<Longrightarrow> k \<noteq> u \<Longrightarrow> k \<notin> set K \<Longrightarrow> entails F [- k]"
  shows "entails F K"
proof
  fix \<alpha> assume m: "models \<alpha> F"
  show "clause_true \<alpha> K"
  proof (cases "lit_true \<alpha> u")
    case True
    then show ?thesis using entailsD [OF assms(1) m] assms(4) by simp
  next
    case False
    obtain k where k: "k \<in> set C" "lit_true \<alpha> k" using entailsD [OF assms(2) m] by (auto simp: clause_true_def)
    then have "k \<noteq> u" using False by auto
    show ?thesis
    proof (cases "k \<in> set K")
      case True
      then show ?thesis using k(2) by (auto simp: clause_true_def)
    next
      case nk: False
      then have "lit_true \<alpha> (- k)" using assms(5) [OF k(1) \<open>k \<noteq> u\<close>] m entails_unitD by blast
      then show ?thesis using k assms(3) by (metis lit_true_uminus)
    qed
  qed
qed

lemma find_uip_spec:
  assumes "j < i" "fg_seen (nt_flags s (nt_trail s ! j))" "lit_level s (nt_trail s ! j) = nt_level s"
  shows "\<exists>m. find_uip s i = Some (nt_trail s ! m, m) \<and> j \<le> m \<and> m < i \<and> fg_seen (nt_flags s (nt_trail s ! m))
    \<and> lit_level s (nt_trail s ! m) = nt_level s
    \<and> (\<forall>n. m < n \<longrightarrow> n < i \<longrightarrow> fg_seen (nt_flags s (nt_trail s ! n)) \<longrightarrow> lit_level s (nt_trail s ! n) \<noteq> nt_level s)"
  using assms
proof (induction i)
  case (Suc i)
  show ?case
  proof (cases "fg_seen (nt_flags s (nt_trail s ! i)) \<and> lit_level s (nt_trail s ! i) = nt_level s")
    case True
    then show ?thesis using Suc.prems(1) by (intro exI [of _ i]) (auto simp: Let_def lit_level_def)
  next
    case False
    then have "j < i" using Suc.prems by (cases "j = i") auto
    moreover have "find_uip s (Suc i) = find_uip s i" using False by (auto simp: Let_def lit_level_def)
    ultimately show ?thesis using Suc.IH Suc.prems(2,3) False less_Suc_eq by auto
  qed
qed simp


subsection \<open>Analysis keeps the invariant\<close>

lemma an_frame_control_nth:
  assumes "an_frame s t" "k < length (nt_control s)"
  shows "lv_trail (nt_control t ! k) = lv_trail (nt_control s ! k)" "lv_decision (nt_control t ! k) = lv_decision (nt_control s ! k)"
proof -
  have f: "map lv_trail (nt_control t) = map lv_trail (nt_control s)" "map lv_decision (nt_control t) = map lv_decision (nt_control s)"
    by (insert assms(1), unfold an_frame_def, (elim conjE, assumption)+)
  have k: "k < length (nt_control t)" using assms(2) an_frame_cong(7) [OF assms(1)] by simp
  show "lv_trail (nt_control t ! k) = lv_trail (nt_control s ! k)" "lv_decision (nt_control t ! k) = lv_decision (nt_control s ! k)"
    using arg_cong [OF f(1), of "\<lambda>l. l ! k"] arg_cong [OF f(2), of "\<lambda>l. l ! k"] k assms(2) by simp_all
qed

lemma an_frame_fields:
  assumes "an_frame s t"
  shows "nt_trail t = nt_trail s" "nt_level t = nt_level s" "nt_vtab t = nt_vtab s" "nt_decide t = nt_decide s"
    "nt_wtab t = nt_wtab s" "nt_max_var t = nt_max_var s" "nt_propagated t = nt_propagated s" "nt_conflict t = nt_conflict s"
    "nt_opts t = nt_opts s" "map lv_trail (nt_control t) = map lv_trail (nt_control s)"
  by (insert assms, unfold an_frame_def, (elim conjE, assumption)+)

lemma an_frame_extra:
  assumes "an_frame s t"
  shows "nt_as t = nt_as s" "nt_phases t = nt_phases s" "nt_next_addr t = nt_next_addr s" "nt_clauses t = nt_clauses s"
    "nt_unsat t = nt_unsat s" "nt_stable t = nt_stable s" "nt_score_inc t = nt_score_inc s"
    "map lv_decision (nt_control t) = map lv_decision (nt_control s)"
  by (insert assms, unfold an_frame_def, (elim conjE, assumption)+)

lemma an_frame_mem_back: "an_frame s t \<Longrightarrow> nt_mem t a = Some d \<Longrightarrow>
    \<exists>c. nt_mem s a = Some c \<and> so_literals d = so_literals c \<and> so_garbage d = so_garbage c \<and> so_pos d = so_pos c
      \<and> so_redundant d = so_redundant c"
  using an_frame_map [of s t a] by (cases "nt_mem s a") simp_all

lemma an_frame_level_at:
  assumes "an_frame s t" "nt_level_inv s"
  shows "level_at t = level_at s"
proof -
  have "length (nt_control s) = nt_level s + 1" using assms(2) by (simp add: nt_level_inv_def)
  then have "lv_trail (nt_control t ! k) = lv_trail (nt_control s ! k)" if "k \<le> nt_level s" for k
    using that an_frame_control_nth(1) [OF assms(1), of k] by simp
  then show ?thesis by (auto simp: level_at_def fun_eq_iff an_frame_fields(2) [OF assms(1)])
qed

lemma an_frame_wf:
  assumes fr: "an_frame s t" and wf: "nt_wf F s"
  shows "nt_wf F t"
proof -
  note f = an_frame_fields [OF fr] and c = an_frame_cong [OF fr]
  have inv: "nt_trail_inv s" "nt_level_inv s" "nt_reasons_inv F s" "mem_inv F (nt_max_var s) (nt_mem s)"
    "watch_inv (nt_max_var s) (nt_mem s) (nt_wtab s)" using wf by (simp_all add: nt_wf_def)
  have "nt_trail_inv t" using inv(1) by (simp add: nt_trail_inv_def f(1,6,7) c(4))
  moreover have "nt_level_inv t"
  proof -
    have "lv_trail ` set (nt_control t) = lv_trail ` set (nt_control s)" using f(10) by (metis list.set_map)
    moreover have "\<forall>x \<in> lv_trail ` set (nt_control s). x \<le> length (nt_trail s)" using inv(2) by (simp add: nt_level_inv_def)
    ultimately have "\<forall>x \<in> lv_trail ` set (nt_control t). x \<le> length (nt_trail s)" by (simp only:)
    then have "\<forall>h \<in> set (nt_control t). lv_trail h \<le> length (nt_trail s)" by simp
    moreover have "0 < length (nt_control s)" "lv_trail (nt_control s ! 0) = 0" using inv(2) by (simp_all add: nt_level_inv_def)
    moreover from this have "lv_trail (nt_control t ! 0) = 0" using an_frame_control_nth(1) [OF fr, of 0] by simp
    ultimately show ?thesis using inv(2) c(7) unfolding nt_level_inv_def f(1,2,10) by simp
  qed
  moreover have "nt_reasons_inv F t"
    unfolding nt_reasons_inv_def
  proof (intro allI impI)
    fix p assume p: "p < length (nt_trail t)"
    then have ro: "reason_ok F s p" using inv(3) by (simp add: nt_reasons_inv_def f(1))
    have ctl: "k \<le> nt_level s \<Longrightarrow> lv_trail (nt_control t ! k) = lv_trail (nt_control s ! k) \<and> lv_decision (nt_control t ! k) = lv_decision (nt_control s ! k)" for k
      using an_frame_control_nth [OF fr, of k] inv(2) by (simp add: nt_level_inv_def)
    have mem: "\<exists>d. nt_mem t a = Some d \<and> so_literals d = so_literals e" if "nt_mem s a = Some e" for a e
      using an_frame_mem [OF fr that] by blast
    show "reason_ok F t p"
      using ro ctl mem unfolding reason_ok_def Let_def c(1,2) f(1,2) an_frame_level_at [OF fr inv(2)]
      by (auto split: if_splits reason.splits) (metis+)
  qed
  moreover have "mem_inv F (nt_max_var t) (nt_mem t)"
    unfolding mem_inv_def
  proof (intro allI impI)
    fix a d assume "nt_mem t a = Some d"
    from an_frame_mem_back [OF fr this] obtain e where e: "nt_mem s a = Some e" "so_literals d = so_literals e" "so_pos d = so_pos e" by blast
    then show "sclause_ok (nt_max_var t) d \<and> entails F (so_literals d)"
      using inv(4) by (auto simp: mem_inv_def sclause_ok_def f(6))
  qed
  moreover have "watch_inv (nt_max_var t) (nt_mem t) (nt_wtab t)"
  proof -
    have wo: "watch_ok (nt_mem t) l w" if "watch_ok (nt_mem s) l w" for l w
      using that an_frame_mem [OF fr] unfolding watch_ok_def by metis
    have "watches_ok (nt_mem t) l (nt_wtab t l)" if "lit_ok (nt_max_var s) l" for l
      using inv(5) that wo by (auto simp: watch_inv_def watches_ok_def f(5))
    moreover have "watched (nt_wtab t) (so_literals d ! 0) a \<and> watched (nt_wtab t) (so_literals d ! 1) a"
      if "nt_mem t a = Some d" "\<not> so_garbage d" for a d
      using an_frame_mem_back [OF fr that(1)] that(2) inv(5) unfolding watch_inv_def f(5) by metis
    ultimately show ?thesis by (simp add: watch_inv_def f(6))
  qed
  ultimately show ?thesis by (simp add: nt_wf_def)
qed

subsection \<open>The loop\<close>

definition uip_ok :: "clause set \<Rightarrow> uip_outcome \<Rightarrow> 'v Internal \<Rightarrow> bool" where
  "uip_ok F r t \<longleftrightarrow> (case r of
     First_uip u \<Rightarrow> entails F (an_clause (nt_an t) @ [- u]) \<and> u \<in> set (nt_trail t) \<and> lit_level t u = nt_level t
       \<and> distinct (map vidx (an_clause (nt_an t)))
       \<and> (\<forall>k \<in> set (an_clause (nt_an t)). - k \<in> set (nt_trail t) \<and> 0 < lit_level t k \<and> lit_level t k < nt_level t)
       \<and> (\<forall>k \<in> set (an_analyzed (nt_an t)). - k \<in> set (nt_trail t))
   | Otfs_candidate a u \<Rightarrow> co_otfs (nt_opts t) \<and> (\<exists>c. nt_mem t a = Some c \<and> u \<in> set (so_literals c)
       \<and> entails F (filter (\<lambda>k. k \<noteq> u \<and> 0 < lit_level t k) (so_literals c))))"

lemma trail_place:
  assumes "nt_reasons_inv F s" "k \<in> set (nt_trail s)"
  obtains p where "p < length (nt_trail s)" "nt_trail s ! p = k" "va_trail (nt_var s k) = p"
    "level_at s p (lit_level s k)" "lit_level s k \<le> nt_level s"
proof -
  obtain p where "p < length (nt_trail s)" "nt_trail s ! p = k" using assms(2) by (auto simp: in_set_conv_nth)
  then show ?thesis using assms(1) by (intro that [of p]) (auto simp: nt_reasons_inv_def reason_ok_def Let_def)
qed

definition round_ok :: "clause set \<Rightarrow> int \<Rightarrow> nat \<Rightarrow> nat \<Rightarrow> nat \<Rightarrow> 'v Internal \<Rightarrow> bool" where
  "round_ok F u a i resolved s \<longleftrightarrow> (\<exists>c. nt_mem s a = Some c \<and>
     (if resolved = 0
      then u = 0 \<and> an_analyzed (nt_an s) = [] \<and> (\<forall>k \<in> set (so_literals c). false_before s i k)
        \<and> (\<exists>k \<in> set (so_literals c). lit_level s k = nt_level s)
      else u \<noteq> 0 \<and> u \<in> set (so_literals c) \<and> entails F (- u # resolvent s i) \<and> open_lits s i \<noteq> []
        \<and> (\<forall>k \<in> set (so_literals c). k \<noteq> u \<longrightarrow> false_before s i k)))"

text \<open>After the literals of a reason are analyzed, the resolvent is implied and has an open literal.\<close>

lemma round_resolvent:
  assumes wf: "nt_wf F s" and inv: "an_inv i z s" and L: "0 < nt_level s" and rd: "round_ok F u a i resolved s"
  obtains y t where "analyze_reason u a (z, s) = (y, t)" "an_inv i y t" "an_frame s t" "nt_wf F t"
    "entails F (resolvent t i)" "open_lits t i \<noteq> []"
    "resolved \<noteq> 0 \<Longrightarrow> \<exists>c. nt_mem t a = Some c \<and> u \<in> set (so_literals c)
       \<and> sz_antecedent y = sz_antecedent z + int (length (filter (\<lambda>k. k \<noteq> u \<and> 0 < lit_level t k) (so_literals c)))
       \<and> set (filter (\<lambda>k. k \<noteq> u \<and> 0 < lit_level t k) (so_literals c)) \<subseteq> set (resolvent t i) \<and> distinct (so_literals c)"
proof -
  have tr: "nt_trail_inv s" "nt_reasons_inv F s" using wf by (simp_all add: nt_wf_def)
  from rd obtain c where c: "nt_mem s a = Some c" and fb: "\<And>k. k \<in> set (so_literals c) \<Longrightarrow> k \<noteq> u \<Longrightarrow> false_before s i k"
    and first: "resolved = 0 \<Longrightarrow> u = 0 \<and> an_analyzed (nt_an s) = [] \<and> (\<exists>k \<in> set (so_literals c). lit_level s k = nt_level s)"
    and later: "resolved \<noteq> 0 \<Longrightarrow> u \<noteq> 0 \<and> u \<in> set (so_literals c) \<and> entails F (- u # resolvent s i) \<and> open_lits s i \<noteq> []"
    by (auto simp: round_ok_def split: if_splits)
  have cl: "sclause_ok (nt_max_var s) c" "entails F (so_literals c)" using wf c by (auto simp: nt_wf_def mem_inv_def)
  then have nz: "0 \<notin> set (so_literals c)" "distinct (so_literals c)" by (auto simp: sclause_ok_def lit_ok_def)
  from analyze_reason_inv [OF inv c fb tr(1), where u = u] obtain y t where t:
    "analyze_reason u a (z, s) = (y, t)" "an_inv i y t" "an_frame s t"
    "set (an_analyzed (nt_an s)) \<subseteq> set (an_analyzed (nt_an t))"
    "\<forall>k \<in> set (so_literals c). k \<noteq> u \<longrightarrow> 0 < lit_level s k \<longrightarrow> k \<in> set (an_analyzed (nt_an t))"
    "sz_antecedent y = sz_antecedent z + int (length (filter (\<lambda>k. k \<noteq> u \<and> 0 < lit_level s k) (so_literals c)))" by blast
  note f = an_frame_fields [OF t(3)] and g = an_frame_cong [OF t(3)]
  have res: "k \<in> set (resolvent t i)" if "k \<in> set (so_literals c)" "k \<noteq> u" "0 < lit_level s k" for k
    using t(5) that fb [OF that(1,2)] by (simp add: set_resolvent [OF t(2)] g(1,2) f(2) false_before_def) linarith
  have unit: "entails F [- k]" if "k \<in> set (so_literals c)" "k \<noteq> u" "k \<notin> set (resolvent t i)" for k
    using res [OF that(1,2)] that(3) fb [OF that(1,2)] level_zero_entailed [OF tr(2), of "- k"] by (auto simp: false_before_def)
  have sub: "set (resolvent s i) \<subseteq> set (resolvent t i)"
    using t(4) by (auto simp: set_resolvent [OF t(2)] set_resolvent [OF inv] g(1,2) f(2))
  have ent: "entails F (resolvent t i)"
  proof (cases "resolved = 0")
    case True
    then have u: "u \<notin> set (so_literals c)" using first nz by auto
    show ?thesis
    proof (rule entails_drop_false [OF cl(2) _ nz(1)])
      fix k assume "k \<in> set (so_literals c)" "k \<notin> set (resolvent t i)"
      then show "entails F [- k]" using unit [of k] u by blast
    qed
  next
    case False
    have "entails F (- u # resolvent t i)"
    proof (rule entails_subset)
      show "entails F (- u # resolvent s i)" using later [OF False] by blast
      show "set (- u # resolvent s i) \<subseteq> set (- u # resolvent t i)" using sub by auto
    qed
    then show ?thesis
    proof (rule resolve_false [OF _ cl(2) nz(1)])
      show "u \<noteq> 0" using later [OF False] by blast
      fix k assume "k \<in> set (so_literals c)" "k \<noteq> u" "k \<notin> set (resolvent t i)"
      then show "entails F [- k]" by (rule unit)
    qed
  qed
  have open_ne: "open_lits t i \<noteq> []"
  proof (cases "resolved = 0")
    case True
    then obtain k where k: "k \<in> set (so_literals c)" "lit_level s k = nt_level s" using first by auto
    then have "k \<noteq> u" using first True nz by auto
    then have "k \<in> set (resolvent t i)" using res k L by simp
    then have "k \<in> set (open_lits t i)" using k(2) by (auto simp: set_resolvent [OF t(2)] open_lits_def g(2) f(2))
    then show ?thesis by auto
  next
    case False
    then have "open_lits s i \<noteq> []" using later by simp
    then obtain k where "k \<in> set (open_lits s i)" by (cases "open_lits s i") auto
    then have "k \<in> set (open_lits t i)" using t(4) by (auto simp: open_lits_def g(1,2) f(2))
    then show ?thesis by auto
  qed
  show ?thesis
  proof (rule that [OF t(1-3) an_frame_wf [OF t(3) wf] ent open_ne])
    assume r: "resolved \<noteq> 0"
    obtain d where d: "nt_mem t a = Some d" "so_literals d = so_literals c" using an_frame_mem [OF t(3) c] by blast
    show "\<exists>c. nt_mem t a = Some c \<and> u \<in> set (so_literals c)
       \<and> sz_antecedent y = sz_antecedent z + int (length (filter (\<lambda>k. k \<noteq> u \<and> 0 < lit_level t k) (so_literals c)))
       \<and> set (filter (\<lambda>k. k \<noteq> u \<and> 0 < lit_level t k) (so_literals c)) \<subseteq> set (resolvent t i) \<and> distinct (so_literals c)"
      by (rule exI [of _ d]) (use d later [OF r] t(6) res nz in \<open>auto simp: g(2)\<close>)
  qed
qed


lemma otfs_candidate_ok:
  assumes "an_inv i y t" "entails F (resolvent t i)" "sz_resolvent y < 1 + int (length (filter P cs))"
    "set (filter P cs) \<subseteq> set (resolvent t i)" "distinct cs"
  shows "entails F (filter P cs)"
proof -
  have "sz_resolvent y = int (length (resolvent t i))" using assms(1) by (simp add: an_inv_def resolvent_def)
  then have "length (resolvent t i) \<le> length (filter P cs)" using assms(3) by simp
  also have "\<dots> = card (set (filter P cs))" by (rule distinct_card [symmetric]) (simp add: assms(5))
  finally have "card (set (resolvent t i)) \<le> card (set (filter P cs))" using card_length le_trans by blast
  then have "set (filter P cs) = set (resolvent t i)" by (intro card_seteq assms(4)) simp_all
  then show ?thesis using assms(2) entails_cong_set by blast
qed

lemma next_pivot:
  assumes wf: "nt_wf F t" and inv: "an_inv i y t" and ne: "open_lits t i \<noteq> []" and i: "i \<le> length (nt_trail t)"
  obtains m where "find_uip t i = Some (nt_trail t ! m, m)" "m < i" "m < length (nt_trail t)"
    "lit_level t (nt_trail t ! m) = nt_level t" "set (open_lits t i) = insert (- (nt_trail t ! m)) (set (open_lits t m))"
    "length (open_lits t i) = Suc (length (open_lits t m))"
proof -
  have tr: "nt_trail_inv t" "nt_reasons_inv F t" using wf by (simp_all add: nt_wf_def)
  have A: "distinct (map vidx (an_analyzed (nt_an t)))"
    "\<And>l. l \<in> set (an_analyzed (nt_an t)) \<Longrightarrow> - l \<in> set (nt_trail t) \<and> 0 < lit_level t l"
    "\<And>v. 0 < va_level (nt_vtab t v) \<Longrightarrow> fg_seen (nt_ftab t v) = (v \<in> vidx ` set (an_analyzed (nt_an t)))"
    using inv by (auto simp: an_inv_def)
  have seen: "fg_seen (nt_flags t k) = (vidx k \<in> vidx ` set (an_analyzed (nt_an t)))" if "0 < lit_level t k" for k
    using A(3) [of "vidx k"] that by (simp add: nt_flags_def lit_level_def nt_var_def)
  have place: "\<exists>p < length (nt_trail t). nt_trail t ! p = - k \<and> va_trail (nt_var t k) = p" if "k \<in> set (an_analyzed (nt_an t))" for k
    using trail_place [OF tr(2), of "- k"] A(2) [OF that] by (metis nt_var_def vidx_uminus)
  obtain k where k: "k \<in> set (open_lits t i)" using ne by (cases "open_lits t i") auto
  then have k': "k \<in> set (an_analyzed (nt_an t))" "lit_level t k = nt_level t" "va_trail (nt_var t k) < i" "0 < lit_level t k"
    using A(2) [of k] by (auto simp: open_lits_def)
  then obtain p where p: "p < length (nt_trail t)" "nt_trail t ! p = - k" "p < i" using place by metis
  have "fg_seen (nt_flags t (nt_trail t ! p))" "lit_level t (nt_trail t ! p) = nt_level t"
    using seen [of "- k"] k' p(2) by simp_all
  from find_uip_spec [OF p(3) this] obtain m where m: "find_uip t i = Some (nt_trail t ! m, m)" "p \<le> m" "m < i"
    "fg_seen (nt_flags t (nt_trail t ! m))" "lit_level t (nt_trail t ! m) = nt_level t"
    "\<forall>n. m < n \<longrightarrow> n < i \<longrightarrow> fg_seen (nt_flags t (nt_trail t ! n)) \<longrightarrow> lit_level t (nt_trail t ! n) \<noteq> nt_level t" by blast
  have ml: "m < length (nt_trail t)" using m(3) i by simp
  define w where "w = nt_trail t ! m"
  have wt: "w \<in> set (nt_trail t)" using ml by (simp add: w_def)
  have pos: "0 < lit_level t w" using m(5) k'(2,4) by (simp add: w_def)
  have nw: "- w \<notin> set (nt_trail t)"
    using distinct_abs_trail [of "nt_trail t" w] wt tr(1) by (auto simp: nt_trail_inv_def lit_ok_def)
  have wA: "- w \<in> set (an_analyzed (nt_an t))"
  proof -
    obtain j where j: "j \<in> set (an_analyzed (nt_an t))" "vidx w = vidx j" using seen [OF pos] m(4) by (auto simp: w_def)
    moreover have "j \<noteq> w" using A(2) [OF j(1)] nw by auto
    ultimately show ?thesis by (auto simp: vidx_eq_iff)
  qed
  have dt: "distinct (nt_trail t)" using tr(1) by (simp add: nt_trail_inv_def distinct_map)
  have wm: "va_trail (nt_var t (- w)) = m"
    using place [OF wA] nth_eq_iff_index_eq [OF dt _ ml] by (auto simp: w_def)
  have set_o: "set (open_lits t i) = insert (- w) (set (open_lits t m))"
  proof (intro set_eqI iffI)
    fix x assume x: "x \<in> set (open_lits t i)"
    then have x': "x \<in> set (an_analyzed (nt_an t))" "lit_level t x = nt_level t" "va_trail (nt_var t x) < i" by (auto simp: open_lits_def)
    obtain q where q: "q < length (nt_trail t)" "nt_trail t ! q = - x" "va_trail (nt_var t x) = q" using place [OF x'(1)] by auto
    have "fg_seen (nt_flags t (nt_trail t ! q))" "lit_level t (nt_trail t ! q) = nt_level t"
      using x'(1,2) A(2) [OF x'(1)] seen [of "- x"] by (simp_all add: q(2))
    then have "\<not> m < q" using m(6) x'(3) q(3) by blast
    then show "x \<in> insert (- w) (set (open_lits t m))"
      using x' q by (cases "q = m") (auto simp: open_lits_def w_def)
  next
    fix x assume "x \<in> insert (- w) (set (open_lits t m))"
    then show "x \<in> set (open_lits t i)" using wA m(3,5) wm by (auto simp: open_lits_def w_def)
  qed
  have dA: "distinct (an_analyzed (nt_an t))" using A(1) by (simp add: distinct_map)
  have "length (open_lits t j) = card (set (open_lits t j))" for j
    by (rule distinct_card [symmetric]) (simp add: open_lits_def dA)
  moreover have "- w \<notin> set (open_lits t m)" using wm by (simp add: open_lits_def)
  ultimately have "length (open_lits t i) = Suc (length (open_lits t m))" by (simp add: set_o)
  then show ?thesis using that [OF m(1,3) ml m(5)] set_o by (simp add: w_def)
qed

text \<open>A literal of the current level that is not its lowest has a clause as reason.\<close>

lemma pivot_reason:
  assumes wf: "nt_wf F t" and m: "m < length (nt_trail t)" "lit_level t (nt_trail t ! m) = nt_level t" and L: "0 < nt_level t"
    and inv: "an_inv i y t" and ne: "open_lits t m \<noteq> []"
  obtains b c where "va_reason (nt_var t (nt_trail t ! m)) = Clause_reason b" "nt_mem t b = Some c"
    "nt_trail t ! m \<in> set (so_literals c)" "\<And>k. k \<in> set (so_literals c) \<Longrightarrow> k \<noteq> nt_trail t ! m \<Longrightarrow> false_before t m k"
proof -
  have ri: "nt_reasons_inv F t" using wf by (simp add: nt_wf_def)
  then have ro: "reason_ok F t m" using m(1) by (simp add: nt_reasons_inv_def)
  obtain k where k: "k \<in> set (open_lits t m)" using ne by (cases "open_lits t m") auto
  then have k': "- k \<in> set (nt_trail t)" "lit_level t k = nt_level t" "va_trail (nt_var t k) < m"
    using inv by (auto simp: open_lits_def an_inv_def)
  obtain p where p: "level_at t p (lit_level t k)" "va_trail (nt_var t k) = p"
    using trail_place [OF ri k'(1)] by (metis lit_level_uminus nt_var_def vidx_uminus)
  have low: "lv_trail (nt_control t ! nt_level t) \<noteq> m"
  proof
    assume "lv_trail (nt_control t ! nt_level t) = m"
    then have "lit_level t k < nt_level t" using p k'(3) L by (simp add: level_at_def)
    then show False using k'(2) by simp
  qed
  show ?thesis
  proof (cases "va_reason (nt_var t (nt_trail t ! m))")
    case (Clause_reason b)
    then obtain c where c: "nt_mem t b = Some c" "nt_trail t ! m \<in> set (so_literals c)"
      "\<forall>k \<in> set (so_literals c). k \<noteq> nt_trail t ! m \<longrightarrow> - k \<in> set (take m (nt_trail t)) \<and> lit_level t k \<le> nt_level t"
      using ro m(2) L by (auto simp: reason_ok_def Let_def)
    have "false_before t m k" if "k \<in> set (so_literals c)" "k \<noteq> nt_trail t ! m" for k
    proof -
      have "- k \<in> set (take m (nt_trail t))" using c(3) that by blast
      then obtain q where q: "q < m" "q < length (nt_trail t)" "nt_trail t ! q = - k" by (auto simp: in_set_conv_nth)
      then have "va_trail (nt_var t (- k)) = q" using ri by (auto simp: nt_reasons_inv_def reason_ok_def Let_def)
      then show ?thesis using q c(3) that in_set_takeD by (fastforce simp: false_before_def nt_var_def)
    qed
    then show ?thesis using Clause_reason c(1,2) by (intro that) auto
  qed (use ro m(2) L low in \<open>auto simp: reason_ok_def Let_def\<close>)
qed

lemma analyze_loop_ok:
  assumes "nt_wf F s" "an_inv i z s" "0 < nt_level s" "round_ok F u a i resolved s" "i \<le> length (nt_trail s)"
  shows "\<exists>r y t. analyze_loop u a i resolved z s = Some (r, y, t) \<and> an_frame s t \<and> uip_ok F r t \<and> (\<exists>j x. an_inv j x t)"
  using assms
proof (induction i arbitrary: s z u a resolved rule: less_induct)
  case (less i)
  note wf = less.prems(1) and L = less.prems(3)
  have inv1: "an_inv i (z\<lparr>sz_antecedent := 1\<rparr>) s" using less.prems(2) by (simp add: an_inv_def)
  from round_resolvent [OF wf inv1 L less.prems(4)] obtain y t where t: "analyze_reason u a (z\<lparr>sz_antecedent := 1\<rparr>, s) = (y, t)"
    "an_inv i y t" "an_frame s t" "nt_wf F t" "entails F (resolvent t i)" "open_lits t i \<noteq> []"
    and cand: "resolved \<noteq> 0 \<Longrightarrow> \<exists>c. nt_mem t a = Some c \<and> u \<in> set (so_literals c)
       \<and> sz_antecedent y = sz_antecedent (z\<lparr>sz_antecedent := 1\<rparr>) + int (length (filter (\<lambda>k. k \<noteq> u \<and> 0 < lit_level t k) (so_literals c)))
       \<and> set (filter (\<lambda>k. k \<noteq> u \<and> 0 < lit_level t k) (so_literals c)) \<subseteq> set (resolvent t i) \<and> distinct (so_literals c)"
    by blast
  note f = an_frame_fields [OF t(3)]
  have L': "0 < nt_level t" and i: "i \<le> length (nt_trail t)" using L less.prems(5) f by simp_all
  show ?case
  proof (cases "co_otfs (nt_opts t) \<and> resolved > 0 \<and> sz_antecedent y > 2 \<and> sz_resolvent y < sz_antecedent y")
    case True
    then have "analyze_loop u a i resolved z s = Some (Otfs_candidate a u, y, t)"
      by (subst analyze_loop.simps) (simp add: t(1))
    moreover have "uip_ok F (Otfs_candidate a u) t"
      using cand True otfs_candidate_ok [OF t(2,5)] unfolding uip_ok_def by fastforce
    ultimately show ?thesis using t(2,3) by blast
  next
    case False
    from next_pivot [OF t(4,2,6) i] obtain m where m: "find_uip t i = Some (nt_trail t ! m, m)" "m < i" "m < length (nt_trail t)"
      "lit_level t (nt_trail t ! m) = nt_level t" "set (open_lits t i) = insert (- (nt_trail t ! m)) (set (open_lits t m))"
      "length (open_lits t i) = Suc (length (open_lits t m))" by blast
    let ?w = "nt_trail t ! m"
    have so: "sz_open y - 1 = int (length (open_lits t m))" "sz_resolvent y = sz_open y + int (length (an_clause (nt_an t)))"
      using t(2) m(6) by (simp_all add: an_inv_def)
    have res: "set (resolvent t i) = set (- ?w # resolvent t m)" using m(5) by (auto simp: resolvent_def)
    then have ent: "entails F (- ?w # resolvent t m)" using t(5) entails_cong_set by blast
    show ?thesis
    proof (cases "sz_open y - 1 = 0")
      case True
      then have "open_lits t m = []" using so by simp
      then have "set (- ?w # resolvent t m) = set (an_clause (nt_an t) @ [- ?w])" by (auto simp: resolvent_def)
      then have e: "entails F (an_clause (nt_an t) @ [- ?w])" using ent entails_cong_set by blast
      have "analyze_loop u a i resolved z s = Some (First_uip ?w, y\<lparr>sz_open := sz_open y - 1\<rparr>, t)"
        using False True by (subst analyze_loop.simps) (auto simp: t(1) m(1))
      moreover have "uip_ok F (First_uip ?w) t"
        using e m(3,4) t(2) by (auto simp: uip_ok_def an_inv_def distinct_map_filter)
      ultimately show ?thesis using t(2,3) by blast
    next
      case more: False
      then have ne: "open_lits t m \<noteq> []" using so by auto
      from pivot_reason [OF t(4) m(3,4) L' t(2) ne] obtain b c where b: "va_reason (nt_var t ?w) = Clause_reason b" "nt_mem t b = Some c"
        "?w \<in> set (so_literals c)" "\<And>k. k \<in> set (so_literals c) \<Longrightarrow> k \<noteq> ?w \<Longrightarrow> false_before t m k" by blast
      let ?z = "y\<lparr>sz_open := sz_open y - 1, sz_resolvent := sz_resolvent y - 1\<rparr>"
      have iz: "an_inv m ?z t" using t(2) so by (simp add: an_inv_def)
      have "?w \<noteq> 0" using t(4) m(3) by (auto simp: nt_wf_def nt_trail_inv_def lit_ok_def)
      then have rd: "round_ok F ?w b m (resolved + 1) t" using b(2-4) ent ne by (auto simp: round_ok_def)
      from less.IH [OF m(2) t(4) iz L' rd] m(3) obtain r y' t' where
        u: "analyze_loop ?w b m (resolved + 1) ?z t = Some (r, y', t')" "an_frame t t'" "uip_ok F r t'" "\<exists>j x. an_inv j x t'" by fastforce
      have "analyze_loop u a i resolved z s = analyze_loop ?w b m (resolved + 1) ?z t"
        using False more by (subst analyze_loop.simps) (auto simp: t(1) m(1) b(1))
      then show ?thesis using u an_frame_trans [OF t(3) u(2)] by auto
    qed
  qed
qed

lemma analyze_conflict_ok:
  assumes wf: "nt_wf F s" and L: "0 < nt_level s" and cf: "nt_conflict s = Some a" "falsified s a"
    and top: "\<exists>k \<in> set (nt_literals s a). lit_level s k = nt_level s"
    and clean: "an_analyzed (nt_an s) = []" "an_clause (nt_an s) = []" "\<forall>v. \<not> fg_seen (nt_ftab s v)"
  obtains r y t where "analyze_conflict s = Some (r, y, t)" "an_frame s t"
    "case r of
       First_uip u \<Rightarrow> entails F (an_clause (nt_an t)) \<and> distinct (map vidx (an_clause (nt_an t)))
         \<and> (\<forall>k \<in> set (an_clause (nt_an t)). - k \<in> set (nt_trail t) \<and> 0 < lit_level t k)
         \<and> last (an_clause (nt_an t)) = - u \<and> lit_level t u = nt_level t
         \<and> (\<forall>k \<in> set (butlast (an_clause (nt_an t))). lit_level t k < nt_level t)
         \<and> (\<forall>k \<in> set (an_analyzed (nt_an t)). - k \<in> set (nt_trail t)) \<and> an_clause (nt_an t) \<noteq> []
     | Otfs_candidate b u \<Rightarrow> co_otfs (nt_opts t) \<and> (\<exists>c. nt_mem t b = Some c \<and> u \<in> set (so_literals c)
         \<and> entails F (filter (\<lambda>k. k \<noteq> u \<and> 0 < lit_level t k) (so_literals c)))"
proof -
  let ?z = "\<lparr>sz_open = 0, sz_resolvent = 0, sz_antecedent = 1\<rparr>"
  have ri: "nt_reasons_inv F s" using wf by (simp add: nt_wf_def)
  obtain c where c: "nt_mem s a = Some c" "\<forall>k \<in> set (so_literals c). - k \<in> set (nt_trail s)"
    using cf(2) by (auto simp: falsified_def)
  have inv: "an_inv (length (nt_trail s)) ?z s" using clean by (simp add: an_inv_def open_lits_def)
  have fb: "false_before s (length (nt_trail s)) k" if "k \<in> set (so_literals c)" for k
  proof -
    have "- k \<in> set (nt_trail s)" using c(2) that by blast
    from trail_place [OF ri this] show ?thesis
      using \<open>- k \<in> set (nt_trail s)\<close> by (metis false_before_def lit_level_uminus nt_var_def vidx_uminus)
  qed
  have rd: "round_ok F 0 a (length (nt_trail s)) 0 s"
    using c fb top clean by (auto simp: round_ok_def nt_literals_def nt_deref_def)
  from analyze_loop_ok [OF wf inv L rd] obtain r y t where t: "analyze_loop 0 a (length (nt_trail s)) 0 ?z s = Some (r, y, t)"
    "an_frame s t" "uip_ok F r t" by auto
  show ?thesis
  proof (cases r)
    case (First_uip u)
    let ?t = "nt_analysis (\<lambda>n. n\<lparr>an_clause := an_clause n @ [- u]\<rparr>) t"
    have run: "analyze_conflict s = Some (r, y, ?t)" using t(1) cf(1) First_uip by (simp add: analyze_conflict_def)
    have fr: "an_frame s ?t" by (rule an_frame_up [OF t(2)])
    have g: "nt_trail ?t = nt_trail t" "lit_level ?t = lit_level t" "nt_level ?t = nt_level t" "an_clause (nt_an ?t) = an_clause (nt_an t) @ [- u]"
        "an_analyzed (nt_an ?t) = an_analyzed (nt_an t)"
      by (simp_all add: nt_analysis_def lit_level_def nt_var_def fun_eq_iff)
    note ok = t(3) [unfolded uip_ok_def First_uip uip_outcome.case]
    have "vidx u \<notin> vidx ` set (an_clause (nt_an t))"
    proof
      assume "vidx u \<in> vidx ` set (an_clause (nt_an t))"
      then obtain k where "k \<in> set (an_clause (nt_an t))" "vidx k = vidx u" by auto
      then show False using ok by (auto simp: lit_level_def nt_var_def)
    qed
    then show ?thesis
      using ok L an_frame_fields(2) [OF t(2)] by (intro that [OF run fr]) (auto simp: First_uip g)
  next
    case (Otfs_candidate b u)
    have run: "analyze_conflict s = Some (r, y, t)" using t(1) cf(1) Otfs_candidate by (simp add: analyze_conflict_def)
    show ?thesis using t(3) by (intro that [OF run t(2)]) (simp add: Otfs_candidate uip_ok_def)
  qed
qed

end
