(* ===== verification/Cdcl_Demo.thy ===== *)
theory Cdcl_Demo
  imports Cdcl_Uip Decide_Main
begin

text \<open>
  A small search state for the witnesses: three variables and three clauses that make the first
  variable false, before and after deciding it true, and with the conflict that follows.
\<close>

definition demo_formula :: "clause set" where
  "demo_formula = {[-1, -2], [-1, 2, 3], [-1, 2, -3]}"

definition demo_clause :: "int list \<Rightarrow> SClause" where
  "demo_clause ls = \<lparr>so_id = 0, so_garbage = False, so_hyper = False, so_keep = False, so_redundant = False,
     so_used = 0, so_glue = 0, so_pos = 2, so_literals = ls\<rparr>"

definition demo_watch :: "nat \<Rightarrow> int \<Rightarrow> nat \<Rightarrow> Watch" where
  "demo_watch a b n = \<lparr>wa_clause = a, wa_blit = b, wa_size = n\<rparr>"

definition demo_flags :: Flags where
  "demo_flags = \<lparr>fg_seen = False, fg_keep = False, fg_poison = False, fg_removable = False, fg_shrinkable = False,
     fg_added = False, fg_status = ACTIVE\<rparr>"

definition demo_start :: "rat Internal" where
  "demo_start = \<lparr>nt_max_var = 3, nt_level = 0, nt_unsat = False, nt_stable = False, nt_searching_lucky_phases = False,
     nt_force_saved_phase = False, nt_iterating = False, nt_rephased = None, nt_rephase_conflicts = 0,
     nt_decide = demo_decide\<lparr>dc_queue := demo_queue, dc_num_assigned := 0\<rparr>,
     nt_score_inc = 1, nt_phases = \<lparr>ph_saved = (\<lambda>_. 0), ph_forced = (\<lambda>_. 0), ph_target = (\<lambda>_. 0), ph_best = (\<lambda>_. 0)\<rparr>,
     nt_vtab = (\<lambda>_. \<lparr>va_level = 0, va_trail = 0, va_reason = No_reason\<rparr>), nt_ftab = (\<lambda>_. demo_flags),
     nt_wtab = (\<lambda>_. [])(-1 := [demo_watch 0 (-2) 2, demo_watch 1 2 3, demo_watch 2 2 3], -2 := [demo_watch 0 (-1) 2],
       2 := [demo_watch 1 (-1) 3, demo_watch 2 (-1) 3]),
     nt_mem = [0 \<mapsto> demo_clause [-1, -2], 1 \<mapsto> demo_clause [-1, 2, 3], 2 \<mapsto> demo_clause [-1, 2, -3]],
     nt_next_addr = 3, nt_clauses = [0, 1, 2], nt_conflict = None, nt_propagated = 0, nt_propagated2 = 0, nt_propergated = 0,
     nt_best_assigned = 0, nt_target_assigned = 0, nt_no_conflict_until = 0, nt_trail = [], nt_control = [new_level 0 0],
     nt_proof = \<lparr>pf_lrat = False, pf_clause_id = 3, pf_conflict_id = 0, pf_conclusion = [], pf_unit_clauses = (\<lambda>_. 0),
       pf_lrat_chain = [], pf_unit_chain = [], pf_derived = []\<rparr>,
     nt_an = \<lparr>an_clause = [], an_analyzed = [], an_unit_analyzed = [], an_levels = [], an_minimized = [], an_gtab = (\<lambda>_. 0)\<rparr>,
     nt_as = \<lparr>as_assumptions = [], as_constraint = [], as_unsat_constraint = False, as_marked_failed = True\<rparr>,
     nt_opts = \<lparr>co_chrono = 1, co_chronoalways = False, co_chronolevelim = 100, co_chronoreusetrail = False, co_score = True,
       co_phase = True, co_forcephase = False, co_target = 1, co_reducetier1glue = 2, co_reducetier2glue = 6,
       co_minimizedepth = 1000, co_radixsortlim = 32, co_otfs = False,
       co_shrink = False, co_minimize = True, co_bump = True, co_bumpreason = True, co_bumpreasondepth = 1, co_scorefactor = 950,
       co_eagersubsume = True, co_eagersubsumelim = 20, co_restartreusetrail = True\<rparr>,
     nt_stats = \<lparr>cn_conflicts = 0, cn_stabconflicts = 0, cn_propagations = 0, cn_backtracks = 0, cn_chrono = 0,
       cn_decisions = 0, cn_fixed = 0, cn_recomputed = 0, cn_promoted1 = 0, cn_promoted2 = 0, cn_improvedglue = 0, cn_minimized = 0,
       cn_eagertried = 0, cn_eagersub = 0, cn_subsumed = 0, cn_rescored = 0, cn_restarts = 0\<rparr>\<rparr>"

lemma demo_fields:
  "nt_max_var demo_start = 3" "nt_level demo_start = 0" "nt_trail demo_start = []" "nt_control demo_start = [new_level 0 0]"
  "nt_propagated demo_start = 0" "nt_conflict demo_start = None" "nt_as demo_start = \<lparr>as_assumptions = [], as_constraint = [],
     as_unsat_constraint = False, as_marked_failed = True\<rparr>" "nt_an demo_start = \<lparr>an_clause = [], an_analyzed = [],
     an_unit_analyzed = [], an_levels = [], an_minimized = [], an_gtab = (\<lambda>_. 0)\<rparr>" "nt_ftab demo_start = (\<lambda>_. demo_flags)"
  "nt_mem demo_start = [0 \<mapsto> demo_clause [-1, -2], 1 \<mapsto> demo_clause [-1, 2, 3], 2 \<mapsto> demo_clause [-1, 2, -3]]"
  "nt_vals demo_start = (\<lambda>_. 0)"
proof -
  have "vq_vals demo_queue = (\<lambda>_. 0)"
    by (simp add: demo_queue_def init_queue_def init_enqueue_def upt_rec empty_queue_def Let_def
        vq_set_next_def vq_set_prev_def update_queue_unassigned_def)
  then show "nt_vals demo_start = (\<lambda>_. 0)" by (simp add: demo_start_def nt_vals_def)
qed (simp_all add: demo_start_def)

lemma demo_dc: "nt_dc_inv demo_start"
proof -
  have v: "vq_vals demo_queue = (\<lambda>_. 0)" using demo_fields(11) by (simp add: demo_start_def nt_vals_def)
  have d: "dc_inv demo_decide [1, 2, 3]" by (rule demo_decide_inv(1))
  have "\<exists>h. push_all (score_smaller demo_scores) [1, 2, 3] heap_empty = Some h
      \<and> heap_inv (score_smaller demo_scores) h \<and> mset (heap_array h) = mset (heap_array heap_empty) + mset [1, 2, 3]"
    by (rule score.push_all_ok [OF heap_inv_empty]) (simp_all add: heap_empty_def invalid_heap_position_def)
  then obtain h where h: "push_all (score_smaller demo_scores) [1, 2, 3] heap_empty = Some h" "mset (heap_array h) = mset [1, 2, 3]"
    by (auto simp: heap_empty_def)
  have "dc_inv (nt_decide demo_start) [1, 2, 3]"
    using d demo_queue_inv(1) h mset_eq_setD [OF h(2)] by (auto simp: dc_inv_def demo_start_def demo_decide_def)
  then show ?thesis by (auto simp: nt_dc_inv_def demo_start_def intro!: exI [of _ "[1, 2, 3]"])
qed

lemma demo_ready: "nt_ready demo_formula demo_start"
proof -
  have "mem_inv demo_formula 3 (nt_mem demo_start)"
    by (auto simp: mem_inv_def demo_fields(10) demo_clause_def sclause_ok_def lit_ok_def vidx_def demo_formula_def
        intro: entails_member split: if_splits)
  moreover have "watch_inv 3 (nt_mem demo_start) (nt_wtab demo_start)"
    by (auto simp: watch_inv_def watches_ok_def watch_ok_def watched_def demo_start_def demo_watch_def demo_clause_def split: if_splits)
  ultimately have "nt_wf demo_formula demo_start"
    by (simp add: nt_wf_defs demo_fields new_level_def trail_val_def)
  moreover have "nt_done demo_start 0" by (simp add: nt_done_def)
  ultimately show ?thesis by (simp add: nt_ready_def demo_dc demo_fields(1-6) new_level_def)
qed

end
