(* ===== verification/Cdcl_Minimize.thy ===== *)
theory Cdcl_Minimize
  imports Cdcl_Uip
begin

text \<open>
  Minimizing the first UIP clause (\<^verbatim>\<open>minimize.cpp\<close>): a literal goes when the literals of its reason
  do, recursively up to a depth, or are in the clause.  Only flags and a few vectors change; they
  are the record \<open>Marks\<close>, beside a search state that is only read.
\<close>

subsection \<open>The code\<close>

record Marks =
  mk_flags :: "nat \<Rightarrow> Flags"
  mk_minimized :: "int list"
  mk_analyzed :: "int list"
  mk_unit_chain :: "64 word list"
  mk_mini_chain :: "64 word list"

definition mk_set :: "int \<Rightarrow> (Flags \<Rightarrow> Flags) \<Rightarrow> Marks \<Rightarrow> Marks" where
  "mk_set lit f k = k\<lparr>mk_flags := (mk_flags k)(vidx lit := f (mk_flags k (vidx lit)))\<rparr>"

text \<open>The recursion over a literal, and its loop over the other literals of the reason.\<close>

function (sequential) minimize_literal :: "'v Internal \<Rightarrow> int \<Rightarrow> nat \<Rightarrow> Marks \<Rightarrow> bool \<times> Marks"
  and minimize_reason :: "'v Internal \<Rightarrow> int \<Rightarrow> nat \<Rightarrow> int list \<Rightarrow> Marks \<Rightarrow> bool \<times> Marks" where
  "minimize_literal s lit depth k =
     (let f = mk_flags k (vidx lit); v = nt_var s lit in
      if va_level v = 0 \<or> fg_removable f \<or> fg_keep f then (True, k)
      else
        (case va_reason v of
           Clause_reason a \<Rightarrow>
             if fg_poison f \<or> va_level v = nt_level s then (False, k)
             else
               (let l = nt_control s ! va_level v in
                if depth = 0 \<and> lv_seen_count l < 2 then (False, k)
                else if va_trail v \<le> lv_seen_trail l then (False, k)
                else if depth > co_minimizedepth (nt_opts s) then (False, k)
                else
                  (let (res, k) = minimize_reason s lit depth (nt_literals s a) k;
                       k = mk_set lit (if res then fg_removable_update (\<lambda>_. True) else fg_poison_update (\<lambda>_. True)) k
                   in (res, k\<lparr>mk_minimized := mk_minimized k @ [lit]\<rparr>)))
         | _ \<Rightarrow> (False, k)))"
| "minimize_reason s lit depth [] k = (True, k)"
| "minimize_reason s lit depth (other # is) k =
     (if other = lit then minimize_reason s lit depth is k
      else
        (let (res, k) = minimize_literal s (- other) (depth + 1) k
         in if res then minimize_reason s lit depth is k else (False, k)))"
  by pat_completeness auto
termination
  by (relation "measures
       [\<lambda>x. case x of
           Inl (s, lit, depth, k) \<Rightarrow> 2 * (co_minimizedepth (nt_opts s) + 1 - depth)
         | Inr (s, lit, depth, is, k) \<Rightarrow> max 1 (2 * (co_minimizedepth (nt_opts s) + 1 - depth) - 1),
        \<lambda>x. case x of Inl _ \<Rightarrow> 0 | Inr (s, lit, depth, is, k) \<Rightarrow> length is]") auto

text \<open>The antecedents of a removed literal for an LRAT proof, on a stack with its top first.\<close>

partial_function (option) minimize_chain_loop :: "'v Internal \<Rightarrow> int list \<Rightarrow> Marks \<Rightarrow> Marks option" where
  "minimize_chain_loop s stack k =
     (case stack of
        [] \<Rightarrow> Some k
      | idx # rest \<Rightarrow>
          if idx < 0 then
            (case va_reason (nt_var s idx) of
               Clause_reason a \<Rightarrow>
                 minimize_chain_loop s rest (k\<lparr>mk_mini_chain := mk_mini_chain k @ [so_id (nt_deref s a)]\<rparr>)
             | _ \<Rightarrow> None)
          else
            (let f = mk_flags k (vidx idx) in
             if fg_keep f \<or> fg_added f \<or> fg_poison f then minimize_chain_loop s rest k
             else if va_level (nt_var s idx) = 0 then
               (if fg_seen f then minimize_chain_loop s rest k
                else
                  (let k = mk_set idx (fg_seen_update (\<lambda>_. True)) k;
                       lit = (if nt_val s idx > 0 then idx else - idx)
                   in minimize_chain_loop s rest
                        (k\<lparr>mk_analyzed := mk_analyzed k @ [idx], mk_unit_chain := mk_unit_chain k @ [unit_id s lit]\<rparr>)))
             else
               (case va_reason (nt_var s idx) of
                  Clause_reason a \<Rightarrow>
                    minimize_chain_loop s
                      (rev (map (int \<circ> vidx) (filter (\<lambda>other. other \<noteq> idx) (nt_literals s a))) @ - idx # rest)
                      (mk_set idx (fg_added_update (\<lambda>_. True)) k)
                | _ \<Rightarrow> None)))"

declare minimize_chain_loop.simps [code]

definition calculate_minimize_chain :: "'v Internal \<Rightarrow> int \<Rightarrow> Marks \<Rightarrow> Marks option" where
  "calculate_minimize_chain s lit k = minimize_chain_loop s [int (vidx lit)] k"

text \<open>The loop over the clause: the literals kept, the chain and the number of literals removed.\<close>

fun minimize_loop ::
    "'v Internal \<Rightarrow> int list \<Rightarrow> int list \<Rightarrow> 64 word list \<Rightarrow> Marks \<Rightarrow> (int list \<times> 64 word list \<times> Marks) option" where
  "minimize_loop s [] js chain k = Some (js, chain, k)"
| "minimize_loop s (lit # is) js chain k =
     (let (res, k) = minimize_literal s (- lit) 0 k in
      if res then
        (if pf_lrat (nt_proof s) then
           Option.bind (calculate_minimize_chain s (- lit) k) (\<lambda>k.
             minimize_loop s is js (chain @ mk_mini_chain k) (k\<lparr>mk_mini_chain := []\<rparr>))
         else minimize_loop s is js chain k)
      else minimize_loop s is (js @ [lit]) chain (mk_set lit (fg_keep_update (\<lambda>_. True)) k))"

definition clear_minimized_literals :: "int list \<Rightarrow> Marks \<Rightarrow> Marks" where
  "clear_minimized_literals clause k =
     (let k = fold (\<lambda>lit. mk_set lit (\<lambda>f. f\<lparr>fg_poison := False, fg_removable := False, fg_shrinkable := False, fg_added := False\<rparr>))
                (mk_minimized k) k;
          k = fold (\<lambda>lit. mk_set lit (\<lambda>f. f\<lparr>fg_keep := False, fg_shrinkable := False, fg_added := False\<rparr>)) clause k
      in k\<lparr>mk_minimized := []\<rparr>)"

definition minimize_sort_clause :: "(int list \<Rightarrow> int list) \<Rightarrow> nat list \<Rightarrow> 'v Internal \<Rightarrow> int list \<Rightarrow> int list" where
  "minimize_sort_clause std_sort stack s clause =
     msort (co_radixsortlim (nt_opts s)) std_sort (\<lambda>lit. word_of_nat (va_trail (nt_var s lit))) 0 stack clause"

definition minimize_clause :: "(int list \<Rightarrow> int list) \<Rightarrow> nat list \<Rightarrow> 'v Internal \<Rightarrow> 'v Internal option" where
  "minimize_clause std_sort stack s =
     (let clause = minimize_sort_clause std_sort stack s (an_clause (nt_an s));
          k = \<lparr>mk_flags = nt_ftab s, mk_minimized = an_minimized (nt_an s), mk_analyzed = an_analyzed (nt_an s),
               mk_unit_chain = pf_unit_chain (nt_proof s), mk_mini_chain = []\<rparr> in
      Option.bind (minimize_loop s clause [] [] k) (\<lambda>(js, chain, k).
        let k = clear_minimized_literals js k;
            s = nt_count (\<lambda>n. n\<lparr>cn_minimized := cn_minimized n + int (length clause - length js)\<rparr>) s;
            s = nt_analysis (\<lambda>n. n\<lparr>an_clause := js, an_analyzed := mk_analyzed k, an_minimized := mk_minimized k\<rparr>) s;
            s = nt_log (\<lambda>p. p\<lparr>pf_lrat_chain := pf_lrat_chain p @ rev chain, pf_unit_chain := mk_unit_chain k\<rparr>) s
        in Some (s\<lparr>nt_ftab := mk_flags k\<rparr>)))"


subsection \<open>Removable literals are implied\<close>

text \<open>
  Relative to a clause \<open>K\<close>: a literal flagged to keep is one of \<open>K\<close>, and a removable one follows
  from the negation of \<open>K\<close>, by the reason whose other literals do.
\<close>

definition gone :: "'v Internal \<Rightarrow> (nat \<Rightarrow> Flags) \<Rightarrow> int \<Rightarrow> bool" where
  "gone s ft l \<longleftrightarrow> lit_level s l = 0 \<or> fg_removable (ft (vidx l)) \<or> fg_keep (ft (vidx l))"

definition marks_ok :: "clause set \<Rightarrow> 'v Internal \<Rightarrow> clause \<Rightarrow> (nat \<Rightarrow> Flags) \<Rightarrow> bool" where
  "marks_ok F s K ft \<longleftrightarrow> (\<forall>l \<in> set (nt_trail s).
     (fg_keep (ft (vidx l)) \<longrightarrow> - l \<in> set K)
     \<and> (fg_removable (ft (vidx l)) \<longrightarrow> 0 < lit_level s l \<and> lit_level s l \<noteq> nt_level s \<and> entails F (l # K)
         \<and> (\<exists>a c. va_reason (nt_var s l) = Clause_reason a \<and> nt_mem s a = Some c
              \<and> (\<forall>o' \<in> set (so_literals c). o' \<noteq> l \<longrightarrow> - o' \<in> set (nt_trail s) \<and> gone s ft o'))))"

definition marks_grow :: "Marks \<Rightarrow> Marks \<Rightarrow> bool" where
  "marks_grow k m \<longleftrightarrow>
     (\<forall>v. \<exists>r p. mk_flags m v = (mk_flags k v)\<lparr>fg_removable := r, fg_poison := p\<rparr> \<and> (fg_removable (mk_flags k v) \<longrightarrow> r))
     \<and> (\<exists>new. mk_minimized m = mk_minimized k @ new \<and> (\<forall>v. v \<notin> vidx ` set new \<longrightarrow> mk_flags m v = mk_flags k v))
     \<and> mk_analyzed m = mk_analyzed k \<and> mk_unit_chain m = mk_unit_chain k \<and> mk_mini_chain m = mk_mini_chain k"

lemma marks_growD:
  assumes "marks_grow k m"
  obtains r p where "mk_flags m v = (mk_flags k v)\<lparr>fg_removable := r, fg_poison := p\<rparr>" "fg_removable (mk_flags k v) \<longrightarrow> r"
  using assms unfolding marks_grow_def by blast

lemma marks_grow_refl [simp]: "marks_grow k k"
proof -
  have "\<exists>r p. f = f\<lparr>fg_removable := r, fg_poison := p\<rparr> \<and> (fg_removable f \<longrightarrow> r)" for f :: Flags
    by (rule exI [of _ "fg_removable f"], rule exI [of _ "fg_poison f"]) simp
  then show ?thesis by (auto simp: marks_grow_def)
qed

lemma marks_grow_trans:
  assumes "marks_grow k m" "marks_grow m n"
  shows "marks_grow k n"
proof -
  have "\<exists>r p. mk_flags n v = (mk_flags k v)\<lparr>fg_removable := r, fg_poison := p\<rparr> \<and> (fg_removable (mk_flags k v) \<longrightarrow> r)" for v
  proof -
    obtain r p where 1: "mk_flags m v = (mk_flags k v)\<lparr>fg_removable := r, fg_poison := p\<rparr>" "fg_removable (mk_flags k v) \<longrightarrow> r"
      using marks_growD [OF assms(1)] .
    obtain r' p' where 2: "mk_flags n v = (mk_flags m v)\<lparr>fg_removable := r', fg_poison := p'\<rparr>" "fg_removable (mk_flags m v) \<longrightarrow> r'"
      using marks_growD [OF assms(2)] .
    show ?thesis by (rule exI [of _ r'], rule exI [of _ p']) (use 1 2 in simp)
  qed
  moreover obtain new where 3: "mk_minimized m = mk_minimized k @ new" "\<forall>v. v \<notin> vidx ` set new \<longrightarrow> mk_flags m v = mk_flags k v"
    using assms(1) by (auto simp: marks_grow_def)
  moreover obtain new' where 4: "mk_minimized n = mk_minimized m @ new'" "\<forall>v. v \<notin> vidx ` set new' \<longrightarrow> mk_flags n v = mk_flags m v"
    using assms(2) by (auto simp: marks_grow_def)
  moreover have "\<exists>x. mk_minimized n = mk_minimized k @ x \<and> (\<forall>v. v \<notin> vidx ` set x \<longrightarrow> mk_flags n v = mk_flags k v)"
    by (rule exI [of _ "new @ new'"]) (use 3 4 in \<open>auto simp: image_Un\<close>)
  ultimately show ?thesis using assms by (simp add: marks_grow_def)
qed

lemma gone_grow: "marks_grow k m \<Longrightarrow> gone s (mk_flags k) l \<Longrightarrow> gone s (mk_flags m) l"
proof -
  assume mg: "marks_grow k m" and g: "gone s (mk_flags k) l"
  from mg obtain r p where "mk_flags m (vidx l) = (mk_flags k (vidx l))\<lparr>fg_removable := r, fg_poison := p\<rparr>" "fg_removable (mk_flags k (vidx l)) \<longrightarrow> r"
    by (rule marks_growD)
  then show ?thesis using g by (auto simp: gone_def)
qed

lemma entails_tauto: "l \<noteq> 0 \<Longrightarrow> - l \<in> set K \<Longrightarrow> entails F (l # K)"
  by (auto simp: entails_def clause_true_def) (metis lit_true_uminus)

lemma entails_Cons: "entails F [l] \<Longrightarrow> entails F (l # K)"
  by (rule entails_subset) auto

lemma gone_entails:
  assumes "nt_wf F s" "marks_ok F s K ft" "l \<in> set (nt_trail s)" "gone s ft l"
  shows "entails F (l # K)"
proof -
  have "l \<noteq> 0" using assms(1,3) by (auto simp: nt_wf_def nt_trail_inv_def lit_ok_def)
  moreover have "lit_level s l = 0 \<Longrightarrow> entails F [l]" using level_zero_entailed assms(1,3) by (auto simp: nt_wf_def)
  ultimately show ?thesis using assms(2-4) entails_tauto entails_Cons by (auto simp: marks_ok_def gone_def)
qed

text \<open>A literal with all the others of its reason gone may be flagged.\<close>

lemma marks_ok_removable:
  assumes wf: "nt_wf F s" and ok: "marks_ok F s K ft" and l: "l \<in> set (nt_trail s)" "0 < lit_level s l" "lit_level s l \<noteq> nt_level s"
    and a: "va_reason (nt_var s l) = Clause_reason a" "nt_mem s a = Some c"
    and others: "\<And>j. j \<in> set (so_literals c) \<Longrightarrow> j \<noteq> l \<Longrightarrow> - j \<in> set (nt_trail s) \<and> gone s ft j"
  shows "marks_ok F s K (ft(vidx l := (ft (vidx l))\<lparr>fg_removable := True\<rparr>))"
proof -
  let ?f = "ft(vidx l := (ft (vidx l))\<lparr>fg_removable := True\<rparr>)"
  have tr: "nt_trail_inv s" using wf by (simp add: nt_wf_def)
  have cl: "entails F (so_literals c)" "0 \<notin> set (so_literals c)" using wf a(2) by (auto simp: nt_wf_def mem_inv_def sclause_ok_def lit_ok_def)
  have go: "gone s ft j \<Longrightarrow> gone s ?f j" for j by (simp add: gone_def)
  have ent: "entails F (l # K)"
  proof
    fix \<alpha> assume m: "models \<alpha> F"
    obtain j where j: "j \<in> set (so_literals c)" "lit_true \<alpha> j" using entailsD [OF cl(1) m] by (auto simp: clause_true_def)
    show "clause_true \<alpha> (l # K)"
    proof (cases "j = l")
      case False
      have "entails F (- j # K)" using gone_entails [OF wf ok, of "- j"] others [OF j(1) False] by (simp add: gone_def)
      then have "lit_true \<alpha> (- j) \<or> clause_true \<alpha> K" using entailsD [OF _ m] by fastforce
      moreover have "j \<noteq> 0" using j(1) cl(2) by auto
      ultimately show ?thesis using j(2) by auto
    qed (use j in auto)
  qed
  have only: "j = l" if "j \<in> set (nt_trail s)" "vidx j = vidx l" for j
    using that l(1) distinct_abs_trail [of "nt_trail s" l] tr by (auto simp: vidx_eq_iff nt_trail_inv_def lit_ok_def)
  show ?thesis
    unfolding marks_ok_def
  proof (intro ballI)
    fix j assume j: "j \<in> set (nt_trail s)"
    show "(fg_keep (?f (vidx j)) \<longrightarrow> - j \<in> set K)
     \<and> (fg_removable (?f (vidx j)) \<longrightarrow> 0 < lit_level s j \<and> lit_level s j \<noteq> nt_level s \<and> entails F (j # K)
         \<and> (\<exists>a c. va_reason (nt_var s j) = Clause_reason a \<and> nt_mem s a = Some c
              \<and> (\<forall>o' \<in> set (so_literals c). o' \<noteq> j \<longrightarrow> - o' \<in> set (nt_trail s) \<and> gone s ?f o')))"
    proof (cases "j = l")
      case True
      then show ?thesis using ent l a others go ok j by (auto simp: marks_ok_def)
    next
      case False
      then have "?f (vidx j) = ft (vidx j)" using only j by auto
      then show ?thesis using ok j go unfolding marks_ok_def by metis
    qed
  qed
qed

lemma marks_ok_poison:
  "marks_ok F s K ft \<Longrightarrow> marks_ok F s K (ft(v := (ft v)\<lparr>fg_poison := True\<rparr>))"
proof -
  have "gone s (ft(v := (ft v)\<lparr>fg_poison := True\<rparr>)) = gone s ft" by (auto simp: gone_def fun_eq_iff)
  then show "marks_ok F s K ft \<Longrightarrow> ?thesis" by (simp add: marks_ok_def)
qed

lemma reason_others:
  assumes "nt_wf F s" "l \<in> set (nt_trail s)" "0 < lit_level s l" "va_reason (nt_var s l) = Clause_reason a"
  obtains c where "nt_mem s a = Some c" "nt_literals s a = so_literals c"
    "\<And>j. j \<in> set (so_literals c) \<Longrightarrow> j \<noteq> l \<Longrightarrow> - j \<in> set (nt_trail s)"
proof -
  obtain p where "p < length (nt_trail s)" "nt_trail s ! p = l" using assms(2) by (auto simp: in_set_conv_nth)
  then obtain c where "nt_mem s a = Some c"
    "\<forall>j \<in> set (so_literals c). j \<noteq> l \<longrightarrow> - j \<in> set (take p (nt_trail s))"
    using assms(1,3,4) by (fastforce simp: nt_wf_def nt_reasons_inv_def reason_ok_def Let_def)
  then show ?thesis using that [of c] in_set_takeD by (fastforce simp: nt_literals_def nt_deref_def)
qed

definition sound_step :: "clause set \<Rightarrow> 'v Internal \<Rightarrow> clause \<Rightarrow> Marks \<Rightarrow> Marks \<Rightarrow> bool" where
  "sound_step F s K k m \<longleftrightarrow> (marks_ok F s K (mk_flags k) \<longrightarrow> marks_ok F s K (mk_flags m)) \<and> marks_grow k m"

lemma sound_step_refl [simp]: "sound_step F s K k k"
  by (simp add: sound_step_def)

lemma sound_step_trans: "sound_step F s K k m \<Longrightarrow> sound_step F s K m n \<Longrightarrow> sound_step F s K k n"
  using marks_grow_trans by (auto simp: sound_step_def)

lemma marks_grow_flag:
  "marks_grow k ((mk_set l (fg_removable_update (\<lambda>_. True)) k)\<lparr>mk_minimized := mk_minimized k @ [l]\<rparr>)"
  "marks_grow k ((mk_set l (fg_poison_update (\<lambda>_. True)) k)\<lparr>mk_minimized := mk_minimized k @ [l]\<rparr>)"
proof -
  have id: "\<exists>r p. f = f\<lparr>fg_removable := r, fg_poison := p\<rparr> \<and> (fg_removable f \<longrightarrow> r)" for f :: Flags
    by (rule exI [of _ "fg_removable f"], rule exI [of _ "fg_poison f"]) simp
  have 1: "\<exists>r p. f\<lparr>fg_removable := True\<rparr> = f\<lparr>fg_removable := r, fg_poison := p\<rparr> \<and> (fg_removable f \<longrightarrow> r)" for f :: Flags
    by (rule exI [of _ True], rule exI [of _ "fg_poison f"]) simp
  have 2: "\<exists>r p. f\<lparr>fg_poison := True\<rparr> = f\<lparr>fg_removable := r, fg_poison := p\<rparr> \<and> (fg_removable f \<longrightarrow> r)" for f :: Flags
    by (rule exI [of _ "fg_removable f"], rule exI [of _ True]) simp
  show "marks_grow k ((mk_set l (fg_removable_update (\<lambda>_. True)) k)\<lparr>mk_minimized := mk_minimized k @ [l]\<rparr>)"
    "marks_grow k ((mk_set l (fg_poison_update (\<lambda>_. True)) k)\<lparr>mk_minimized := mk_minimized k @ [l]\<rparr>)"
    using id 1 2 by (auto simp: marks_grow_def mk_set_def)
qed

lemma minimize_sound:
  shows "nt_wf F s \<Longrightarrow> lit \<in> set (nt_trail s) \<Longrightarrow> marks_ok F s K (mk_flags k) \<Longrightarrow> minimize_literal s lit depth k = (r, m) \<Longrightarrow>
      sound_step F s K k m \<and> (r \<longrightarrow> gone s (mk_flags m) lit)"
    "nt_wf F s \<Longrightarrow> \<forall>j \<in> set is. j \<noteq> lit \<longrightarrow> - j \<in> set (nt_trail s) \<Longrightarrow> marks_ok F s K (mk_flags k) \<Longrightarrow>
      minimize_reason s lit depth is k = (r, m) \<Longrightarrow>
      sound_step F s K k m \<and> (r \<longrightarrow> (\<forall>j \<in> set is. j \<noteq> lit \<longrightarrow> gone s (mk_flags m) j))"
proof (induction s lit depth k and s lit depth "is" k arbitrary: r m and r m rule: minimize_literal_minimize_reason.induct)
  case (1 s lit depth k)
  let ?f = "mk_flags k (vidx lit)" and ?v = "nt_var s lit"
  note wf = "1.prems"(1) and lt = "1.prems"(2) and ok = "1.prems"(3) and run = "1.prems"(4)
  show ?case
  proof (cases "va_level ?v = 0 \<or> fg_removable ?f \<or> fg_keep ?f")
    case True
    then have "r = True \<and> m = k" using run by (auto simp: Let_def)
    then show ?thesis using True by (auto simp: gone_def lit_level_def)
  next
    case nt: False
    show ?thesis
    proof (cases "(r, m) = (False, k)")
      case True
      then show ?thesis by simp
    next
      case go: False
      then obtain a where a: "va_reason ?v = Clause_reason a" using run nt by (auto simp: Let_def split: reason.splits)
      obtain b k' where rec: "minimize_reason s lit depth (nt_literals s a) k = (b, k')" by fastforce
      have cond: "\<not> (fg_poison ?f \<or> va_level ?v = nt_level s)" "\<not> (depth = 0 \<and> lv_seen_count (nt_control s ! va_level ?v) < 2)"
        "\<not> va_trail ?v \<le> lv_seen_trail (nt_control s ! va_level ?v)" "\<not> depth > co_minimizedepth (nt_opts s)"
        using run nt go a by (auto simp: Let_def split: if_splits)
      have res: "r = b" "m = (mk_set lit (if b then fg_removable_update (\<lambda>_. True) else fg_poison_update (\<lambda>_. True)) k')
          \<lparr>mk_minimized := mk_minimized k' @ [lit]\<rparr>"
        using run nt a cond rec by (auto simp: Let_def mk_set_def split: if_splits)
      have pos: "0 < lit_level s lit" using nt by (simp add: lit_level_def)
      have low: "lit_level s lit \<noteq> nt_level s" using cond(1) by (simp add: lit_level_def)
      from reason_others [OF wf lt pos a] obtain c where c: "nt_mem s a = Some c" "nt_literals s a = so_literals c"
        "\<And>j. j \<in> set (so_literals c) \<Longrightarrow> j \<noteq> lit \<Longrightarrow> - j \<in> set (nt_trail s)" by blast
      have others: "\<forall>j \<in> set (nt_literals s a). j \<noteq> lit \<longrightarrow> - j \<in> set (nt_trail s)" using c by simp
      have ih: "sound_step F s K k k'" "b \<longrightarrow> (\<forall>j \<in> set (so_literals c). j \<noteq> lit \<longrightarrow> gone s (mk_flags k') j)"
        using "1.IH" [OF refl refl nt a cond(1) refl cond(2-4) wf others ok rec] c(2) by simp_all
      have ok': "marks_ok F s K (mk_flags k')" using ih(1) ok by (simp add: sound_step_def)
      show ?thesis
      proof (cases b)
        case True
        have "marks_ok F s K (mk_flags m)"
          using marks_ok_removable [OF wf ok' lt pos low a c(1)] ih(2) c(3) True by (simp add: res mk_set_def)
        moreover have "marks_grow k m" using marks_grow_trans [OF _ marks_grow_flag(1) [of k' lit]] ih(1) True
          by (simp add: res sound_step_def)
        ultimately show ?thesis by (simp add: sound_step_def gone_def res True mk_set_def)
      next
        case False
        have "marks_ok F s K (mk_flags m)" using marks_ok_poison [OF ok'] False by (simp add: res mk_set_def)
        moreover have "marks_grow k m" using marks_grow_trans [OF _ marks_grow_flag(2) [of k' lit]] ih(1) False
          by (simp add: res sound_step_def)
        ultimately show ?thesis by (simp add: sound_step_def res False)
      qed
    qed
  qed
next
  case (2 s lit depth k)
  then show ?case by simp
next
  case (3 s lit depth other "is" k)
  note wf = "3.prems"(1) and others = "3.prems"(2) and ok = "3.prems"(3) and run = "3.prems"(4)
  show ?case
  proof (cases "other = lit")
    case True
    have "\<forall>j \<in> set is. j \<noteq> lit \<longrightarrow> - j \<in> set (nt_trail s)" using others by simp
    moreover have "minimize_reason s lit depth is k = (r, m)" using run True by simp
    ultimately show ?thesis using "3.IH"(1) [OF True wf _ ok] True by simp
  next
    case False
    obtain b k' where rec: "minimize_literal s (- other) (depth + 1) k = (b, k')" by fastforce
    have ih: "sound_step F s K k k'" "b \<longrightarrow> gone s (mk_flags k') other"
      using "3.IH"(2) [OF False wf _ ok rec] others False by (simp_all add: gone_def)
    show ?thesis
    proof (cases b)
      case bf: False
      then have "r = False \<and> m = k'" using run False rec by simp
      then show ?thesis using ih by simp
    next
      case True
      have run': "minimize_reason s lit depth is k' = (r, m)" using run False rec True by simp
      have ok': "marks_ok F s K (mk_flags k')" using ih(1) ok by (simp add: sound_step_def)
      have "sound_step F s K k' m \<and> (r \<longrightarrow> (\<forall>j \<in> set is. j \<noteq> lit \<longrightarrow> gone s (mk_flags m) j))"
        using "3.IH"(3) [OF False rec [symmetric] refl True wf _ ok' run'] others by simp
      moreover from this have "gone s (mk_flags m) other" using ih(2) True gone_grow by (auto simp: sound_step_def)
      ultimately show ?thesis using sound_step_trans [OF ih(1)] by auto
    qed
  qed
qed


subsection \<open>The chain for the proof\<close>

text \<open>
  Walking the reasons of a removable literal ends: an index is expanded once, when it is flagged
  as added.  Every index on the stack is to be skipped or has a clause as reason.
\<close>

definition chain_ok :: "'v Internal \<Rightarrow> (nat \<Rightarrow> Flags) \<Rightarrow> int \<Rightarrow> bool" where
  "chain_ok s ft idx \<longleftrightarrow> idx \<noteq> 0 \<and>
     (if idx < 0 then \<exists>a. va_reason (nt_var s idx) = Clause_reason a
      else vidx idx \<in> vidx ` set (nt_trail s) \<and> (lit_level s idx = 0 \<or> fg_removable (ft (vidx idx)) \<or> fg_keep (ft (vidx idx))))"

text \<open>Marks that differ by such a walk; \<open>V\<close> are the assigned variables.\<close>

definition more_seen :: "nat set \<Rightarrow> (nat \<Rightarrow> Flags) \<Rightarrow> int list \<Rightarrow> Marks \<Rightarrow> bool" where
  "more_seen V ft ls m \<longleftrightarrow> (\<exists>new. mk_analyzed m = ls @ new \<and> vidx ` set new \<subseteq> V
     \<and> (\<forall>v. fg_seen (mk_flags m v) \<longrightarrow> fg_seen (ft v) \<or> v \<in> vidx ` set new))"

lemma more_seen_refl [simp]: "more_seen V (mk_flags k) (mk_analyzed k) k"
  unfolding more_seen_def by (rule exI [of _ "[]"]) simp

lemma more_seen_trans:
  assumes "more_seen V ft ls k" "more_seen V (mk_flags k) (mk_analyzed k) m"
  shows "more_seen V ft ls m"
proof -
  obtain a b where a: "mk_analyzed k = ls @ a" "vidx ` set a \<subseteq> V" "\<forall>v. fg_seen (mk_flags k v) \<longrightarrow> fg_seen (ft v) \<or> v \<in> vidx ` set a"
    and b: "mk_analyzed m = mk_analyzed k @ b" "vidx ` set b \<subseteq> V" "\<forall>v. fg_seen (mk_flags m v) \<longrightarrow> fg_seen (mk_flags k v) \<or> v \<in> vidx ` set b"
    using assms unfolding more_seen_def by blast
  then show ?thesis unfolding more_seen_def by (intro exI [of _ "a @ b"]) (auto simp: image_Un)
qed

definition chain_same :: "nat set \<Rightarrow> Marks \<Rightarrow> Marks \<Rightarrow> bool" where
  "chain_same V k m \<longleftrightarrow> more_seen V (mk_flags k) (mk_analyzed k) m \<and> mk_minimized m = mk_minimized k
     \<and> (\<forall>v. \<exists>a b. mk_flags m v = (mk_flags k v)\<lparr>fg_added := a, fg_seen := b\<rparr> \<and> (fg_seen (mk_flags k v) \<longrightarrow> b)
          \<and> (a \<longrightarrow> fg_added (mk_flags k v) \<or> fg_removable (mk_flags k v)))"

lemma chain_same_refl [simp]: "chain_same V k k"
proof -
  have "\<exists>a b. f = f\<lparr>fg_added := a, fg_seen := b\<rparr> \<and> (fg_seen f \<longrightarrow> b) \<and> (a \<longrightarrow> fg_added f \<or> fg_removable f)" for f :: Flags
    by (rule exI [of _ "fg_added f"], rule exI [of _ "fg_seen f"]) simp
  then show ?thesis by (simp add: chain_same_def)
qed

lemma chain_same_mini [simp]: "chain_same V k (k\<lparr>mk_mini_chain := x\<rparr>)"
  using chain_same_refl [of V k] unfolding chain_same_def by (simp add: more_seen_def del: chain_same_refl)

lemma chain_sameD:
  assumes "chain_same V k m"
  obtains a b where "mk_flags m v = (mk_flags k v)\<lparr>fg_added := a, fg_seen := b\<rparr>" "fg_seen (mk_flags k v) \<longrightarrow> b"
    "a \<longrightarrow> fg_added (mk_flags k v) \<or> fg_removable (mk_flags k v)"
  using assms unfolding chain_same_def by blast

lemma chain_same_trans:
  assumes "chain_same V k m" "chain_same V m n"
  shows "chain_same V k n"
proof -
  have "\<exists>a b. mk_flags n v = (mk_flags k v)\<lparr>fg_added := a, fg_seen := b\<rparr> \<and> (fg_seen (mk_flags k v) \<longrightarrow> b)
          \<and> (a \<longrightarrow> fg_added (mk_flags k v) \<or> fg_removable (mk_flags k v))" for v
  proof -
    obtain a b where 1: "mk_flags m v = (mk_flags k v)\<lparr>fg_added := a, fg_seen := b\<rparr>" "fg_seen (mk_flags k v) \<longrightarrow> b"
      "a \<longrightarrow> fg_added (mk_flags k v) \<or> fg_removable (mk_flags k v)" using chain_sameD [OF assms(1)] .
    obtain a' b' where 2: "mk_flags n v = (mk_flags m v)\<lparr>fg_added := a', fg_seen := b'\<rparr>" "fg_seen (mk_flags m v) \<longrightarrow> b'"
      "a' \<longrightarrow> fg_added (mk_flags m v) \<or> fg_removable (mk_flags m v)" using chain_sameD [OF assms(2)] .
    show ?thesis by (rule exI [of _ a'], rule exI [of _ b']) (use 1 2 in auto)
  qed
  moreover have "more_seen V (mk_flags k) (mk_analyzed k) n"
    using assms more_seen_trans unfolding chain_same_def by blast
  ultimately show ?thesis using assms by (simp add: chain_same_def)
qed

lemma chain_same_gone: "chain_same V k m \<Longrightarrow> gone s (mk_flags m) l = gone s (mk_flags k) l"
  by (elim chain_sameD [where v = "vidx l"]) (simp add: gone_def)

lemma chain_same_marks:
  assumes "chain_same V k m" "marks_ok F s K (mk_flags k)"
  shows "marks_ok F s K (mk_flags m)"
proof -
  have "fg_keep (mk_flags m v) = fg_keep (mk_flags k v)" "fg_removable (mk_flags m v) = fg_removable (mk_flags k v)" for v
    by (rule chain_sameD [OF assms(1), of v]; simp)+
  then show ?thesis using assms(2) by (simp add: marks_ok_def chain_same_gone [OF assms(1)])
qed

definition not_added :: "'v Internal \<Rightarrow> Marks \<Rightarrow> nat" where
  "not_added s k = card {v \<in> vidx ` set (nt_trail s). \<not> fg_added (mk_flags k v)}"

lemma chain_ok_same: "chain_same V k m \<Longrightarrow> chain_ok s (mk_flags k) idx \<Longrightarrow> chain_ok s (mk_flags m) idx"
  using chain_same_gone [of V k m s idx] by (auto simp: chain_ok_def gone_def)

lemma chain_same_added: "fg_removable (mk_flags k (vidx l)) \<Longrightarrow> chain_same V k (mk_set l (fg_added_update (\<lambda>_. True)) k)"
proof -
  assume r: "fg_removable (mk_flags k (vidx l))"
  have "\<exists>a b. mk_flags (mk_set l (fg_added_update (\<lambda>_. True)) k) v = (mk_flags k v)\<lparr>fg_added := a, fg_seen := b\<rparr>
      \<and> (fg_seen (mk_flags k v) \<longrightarrow> b) \<and> (a \<longrightarrow> fg_added (mk_flags k v) \<or> fg_removable (mk_flags k v))" for v
    by (rule exI [of _ "v = vidx l \<or> fg_added (mk_flags k v)"], rule exI [of _ "fg_seen (mk_flags k v)"])
      (use r in \<open>auto simp: mk_set_def\<close>)
  moreover have "more_seen V (mk_flags k) (mk_analyzed k) (mk_set l (fg_added_update (\<lambda>_. True)) k)"
    unfolding more_seen_def by (rule exI [of _ "[]"]) (auto simp: mk_set_def)
  ultimately show ?thesis by (simp add: chain_same_def) (simp add: mk_set_def)
qed

lemma chain_same_seen:
  assumes "vidx l \<in> V"
  shows "chain_same V k ((mk_set l (fg_seen_update (\<lambda>_. True)) k)\<lparr>mk_analyzed := mk_analyzed k @ [l], mk_unit_chain := y\<rparr>)"
proof -
  have "\<exists>a b. mk_flags (mk_set l (fg_seen_update (\<lambda>_. True)) k) v = (mk_flags k v)\<lparr>fg_added := a, fg_seen := b\<rparr>
      \<and> (fg_seen (mk_flags k v) \<longrightarrow> b) \<and> (a \<longrightarrow> fg_added (mk_flags k v) \<or> fg_removable (mk_flags k v))" for v
    by (rule exI [of _ "fg_added (mk_flags k v)"], rule exI [of _ "v = vidx l \<or> fg_seen (mk_flags k v)"]) (auto simp: mk_set_def)
  moreover have "more_seen V (mk_flags k) (mk_analyzed k)
      ((mk_set l (fg_seen_update (\<lambda>_. True)) k)\<lparr>mk_analyzed := mk_analyzed k @ [l], mk_unit_chain := y\<rparr>)"
    unfolding more_seen_def by (rule exI [of _ "[l]"]) (use assms in \<open>auto simp: mk_set_def\<close>)
  ultimately show ?thesis by (simp add: chain_same_def) (simp add: mk_set_def)
qed

lemma chain_push:
  assumes wf: "nt_wf F s" and ok: "marks_ok F s K (mk_flags k)" and c: "chain_ok s (mk_flags k) idx" "0 < idx"
    and go: "\<not> fg_keep (mk_flags k (vidx idx))" "lit_level s idx \<noteq> 0"
  obtains a where "va_reason (nt_var s idx) = Clause_reason a" "fg_removable (mk_flags k (vidx idx))" "vidx idx \<in> vidx ` set (nt_trail s)"
    "\<And>j. j \<in> set (nt_literals s a) \<Longrightarrow> chain_ok s (mk_flags k) (int (vidx j))"
proof -
  have r: "fg_removable (mk_flags k (vidx idx))" "vidx idx \<in> vidx ` set (nt_trail s)" using c go by (auto simp: chain_ok_def)
  then obtain l where l: "l \<in> set (nt_trail s)" "vidx l = vidx idx" by auto
  have v: "nt_var s l = nt_var s idx" "lit_level s l = lit_level s idx" using l(2) by (simp_all add: nt_var_def lit_level_def)
  obtain a d where a: "va_reason (nt_var s l) = Clause_reason a" "nt_mem s a = Some d"
    "\<forall>j \<in> set (so_literals d). j \<noteq> l \<longrightarrow> - j \<in> set (nt_trail s) \<and> gone s (mk_flags k) j"
    using ok l r(1) unfolding marks_ok_def by (metis (no_types, lifting))
  have nz: "0 \<notin> set (so_literals d)" using wf a(2) by (auto simp: nt_wf_def mem_inv_def sclause_ok_def lit_ok_def)
  have "chain_ok s (mk_flags k) (int (vidx j))" if j: "j \<in> set (so_literals d)" for j
  proof -
    have "j \<noteq> 0" using nz j by auto
    moreover have "vidx j \<in> vidx ` set (nt_trail s) \<and> gone s (mk_flags k) j"
    proof (cases "j = l")
      case True
      then show ?thesis using l r by (simp add: gone_def)
    next
      case False
      then have "- j \<in> set (nt_trail s)" "gone s (mk_flags k) j" using a(3) j by auto
      then show ?thesis by (metis image_eqI vidx_uminus)
    qed
    moreover have "vidx (int (vidx j)) = vidx j" "lit_level s (int (vidx j)) = lit_level s j"
      by (simp_all add: vidx_def lit_level_def nt_var_def)
    ultimately show ?thesis by (simp add: chain_ok_def gone_def) (simp add: vidx_def)
  qed
  then show ?thesis using that [of a] a(1,2) r v by (simp add: nt_literals_def nt_deref_def)
qed

lemma chain_loop_ok:
  assumes wf: "nt_wf F s" and "marks_ok F s K (mk_flags k)" "\<forall>idx \<in> set stack. chain_ok s (mk_flags k) idx"
  shows "\<exists>m. minimize_chain_loop s stack k = Some m \<and> chain_same (vidx ` set (nt_trail s)) k m"
  using assms(2,3)
proof (induction "not_added s k" arbitrary: k stack rule: less_induct)
  case less
  have "\<exists>m. minimize_chain_loop s stack k' = Some m \<and> chain_same (vidx ` set (nt_trail s)) k' m"
    if "not_added s k' = not_added s k" "marks_ok F s K (mk_flags k')" "\<forall>idx \<in> set stack. chain_ok s (mk_flags k') idx" for k' stack
    using that
  proof (induction stack arbitrary: k')
    case Nil
    then show ?case by (subst minimize_chain_loop.simps) simp
  next
    case (Cons idx rest)
    have c: "chain_ok s (mk_flags k') idx" and rest: "\<forall>j \<in> set rest. chain_ok s (mk_flags k') j" using Cons.prems by simp_all
    have next_same: "\<exists>m. minimize_chain_loop s rest k'' = Some m \<and> chain_same (vidx ` set (nt_trail s)) k' m"
      if "chain_same (vidx ` set (nt_trail s)) k' k''" "not_added s k'' = not_added s k'" for k''
    proof -
      have "\<exists>m. minimize_chain_loop s rest k'' = Some m \<and> chain_same (vidx ` set (nt_trail s)) k'' m"
      proof (rule Cons.IH)
        show "not_added s k'' = not_added s k" using that(2) Cons.prems(1) by simp
        show "marks_ok F s K (mk_flags k'')" by (rule chain_same_marks [OF that(1) Cons.prems(2)])
        show "\<forall>j \<in> set rest. chain_ok s (mk_flags k'') j" using rest chain_ok_same [OF that(1)] by blast
      qed
      then show ?thesis using chain_same_trans [OF that(1)] by blast
    qed
    show ?case
    proof (cases "idx < 0")
      case True
      then obtain a where a: "va_reason (nt_var s idx) = Clause_reason a" using c by (auto simp: chain_ok_def)
      let ?k = "k'\<lparr>mk_mini_chain := mk_mini_chain k' @ [so_id (nt_deref s a)]\<rparr>"
      have "chain_same (vidx ` set (nt_trail s)) k' ?k" by simp
      then obtain m where "minimize_chain_loop s rest ?k = Some m" "chain_same (vidx ` set (nt_trail s)) k' m" using next_same [of ?k] by (auto simp: not_added_def)
      then show ?thesis using True a by (subst minimize_chain_loop.simps) simp
    next
      case False
      then have pos: "0 < idx" using c by (auto simp: chain_ok_def)
      let ?f = "mk_flags k' (vidx idx)"
      consider (skip) "fg_keep ?f \<or> fg_added ?f \<or> fg_poison ?f"
        | (unit) "\<not> (fg_keep ?f \<or> fg_added ?f \<or> fg_poison ?f)" "lit_level s idx = 0"
        | (push) "\<not> (fg_keep ?f \<or> fg_added ?f \<or> fg_poison ?f)" "lit_level s idx \<noteq> 0" by blast
      then show ?thesis
      proof cases
        case skip
        then have "minimize_chain_loop s (idx # rest) k' = minimize_chain_loop s rest k'"
          using pos by (subst minimize_chain_loop.simps) (simp add: Let_def)
        then show ?thesis using next_same [of k'] by simp
      next
        case unit
        let ?k = "(mk_set idx (fg_seen_update (\<lambda>_. True)) k')\<lparr>mk_analyzed := mk_analyzed k' @ [idx],
          mk_unit_chain := mk_unit_chain k' @ [unit_id s (if nt_val s idx > 0 then idx else - idx)]\<rparr>"
        have run: "minimize_chain_loop s (idx # rest) k' = minimize_chain_loop s rest (if fg_seen ?f then k' else ?k)"
          using pos unit by (subst minimize_chain_loop.simps) (simp add: Let_def lit_level_def mk_set_def)
        have "fg_added (mk_flags ?k v) = fg_added (mk_flags k' v)" for v by (simp add: mk_set_def)
        then have "not_added s ?k = not_added s k'" by (simp only: not_added_def)
        moreover have "vidx idx \<in> vidx ` set (nt_trail s)" using c pos by (simp add: chain_ok_def)
        ultimately show ?thesis using next_same [of k'] next_same [OF chain_same_seen] unfolding run by (cases "fg_seen ?f") simp_all
      next
        case push
        from chain_push [OF wf Cons.prems(2) c pos _ push(2)] push(1) obtain a where a: "va_reason (nt_var s idx) = Clause_reason a"
          "fg_removable ?f" "vidx idx \<in> vidx ` set (nt_trail s)"
          "\<And>j. j \<in> set (nt_literals s a) \<Longrightarrow> chain_ok s (mk_flags k') (int (vidx j))" by blast
        let ?st = "rev (map (int \<circ> vidx) (filter (\<lambda>other. other \<noteq> idx) (nt_literals s a))) @ - idx # rest"
        let ?k = "mk_set idx (fg_added_update (\<lambda>_. True)) k'"
        have run: "minimize_chain_loop s (idx # rest) k' = minimize_chain_loop s ?st ?k"
          using pos push a(1) by (subst minimize_chain_loop.simps) (simp add: Let_def lit_level_def)
        have same: "chain_same (vidx ` set (nt_trail s)) k' ?k" by (rule chain_same_added [OF a(2)])
        have "vidx idx \<in> {v \<in> vidx ` set (nt_trail s). \<not> fg_added (mk_flags k' v)} - {v \<in> vidx ` set (nt_trail s). \<not> fg_added (mk_flags ?k v)}"
          by (intro DiffI CollectI conjI a(3)) (use push(1) in \<open>simp_all add: mk_set_def\<close>)
        moreover have "{v \<in> vidx ` set (nt_trail s). \<not> fg_added (mk_flags ?k v)} \<subseteq> {v \<in> vidx ` set (nt_trail s). \<not> fg_added (mk_flags k' v)}"
          by (auto simp: mk_set_def)
        ultimately have "not_added s ?k < not_added s k'" unfolding not_added_def by (intro psubset_card_mono) auto
        then have lt: "not_added s ?k < not_added s k" using Cons.prems(1) by simp
        have "chain_ok s (mk_flags k') (- idx)" using pos a(1) by (simp add: chain_ok_def nt_var_def)
        then have "\<forall>j \<in> set ?st. chain_ok s (mk_flags k') j" using rest a(4) by auto
        then have "\<forall>j \<in> set ?st. chain_ok s (mk_flags ?k) j" using chain_ok_same [OF same] by blast
        from less.hyps [OF lt chain_same_marks [OF same Cons.prems(2)] this] show ?thesis
          unfolding run using chain_same_trans [OF same] by blast
      qed
    qed
  qed
  then show ?case using less.prems by blast
qed


subsection \<open>The loop over the clause\<close>

lemma marks_ok_keep:
  assumes wf: "nt_wf F s" and ok: "marks_ok F s K ft" and l: "- l \<in> set (nt_trail s)"
  shows "marks_ok F s (K @ [l]) (ft(vidx l := (ft (vidx l))\<lparr>fg_keep := True\<rparr>))"
proof -
  let ?f = "ft(vidx l := (ft (vidx l))\<lparr>fg_keep := True\<rparr>)"
  have tr: "nt_trail_inv s" using wf by (simp add: nt_wf_def)
  have only: "j = - l" if "j \<in> set (nt_trail s)" "vidx j = vidx l" for j
    using that l distinct_abs_trail [of "nt_trail s" "- l"] tr by (auto simp: vidx_eq_iff nt_trail_inv_def lit_ok_def)
  have go: "gone s ft j \<Longrightarrow> gone s ?f j" for j by (simp add: gone_def)
  have ent: "entails F (j # K) \<Longrightarrow> entails F (j # K @ [l])" for j by (erule entails_subset) auto
  show ?thesis
    unfolding marks_ok_def
  proof (intro ballI conjI impI)
    fix j assume j: "j \<in> set (nt_trail s)"
    show "- j \<in> set (K @ [l])" if "fg_keep (?f (vidx j))"
      using that ok j only [OF j] by (auto simp: marks_ok_def split: if_splits)
    assume "fg_removable (?f (vidx j))"
    then have "fg_removable (ft (vidx j))" by (simp split: if_splits)
    then show "0 < lit_level s j" "lit_level s j \<noteq> nt_level s" "entails F (j # K @ [l])"
      "\<exists>a c. va_reason (nt_var s j) = Clause_reason a \<and> nt_mem s a = Some c
         \<and> (\<forall>o' \<in> set (so_literals c). o' \<noteq> j \<longrightarrow> - o' \<in> set (nt_trail s) \<and> gone s ?f o')"
      using ok j ent go unfolding marks_ok_def by metis+
  qed
qed

text \<open>The flags that differ from \<open>ft\<close>, and the literals through which they will be cleared.\<close>

definition marks_near :: "(nat \<Rightarrow> Flags) \<Rightarrow> int list \<Rightarrow> Marks \<Rightarrow> bool" where
  "marks_near ft K k \<longleftrightarrow> (\<forall>v. let f = mk_flags k v in
     fg_status f = fg_status (ft v) \<and> fg_shrinkable f = fg_shrinkable (ft v) \<and> (fg_seen (ft v) \<longrightarrow> fg_seen f)
     \<and> (fg_keep f \<longrightarrow> v \<in> vidx ` set K)
     \<and> (fg_removable f \<or> fg_poison f \<or> fg_added f \<longrightarrow> v \<in> vidx ` set (mk_minimized k)))"

lemma marks_near_grow:
  assumes "marks_grow k m" "marks_near ft K k"
  shows "marks_near ft K m"
proof -
  obtain new where new: "mk_minimized m = mk_minimized k @ new" "\<forall>v. v \<notin> vidx ` set new \<longrightarrow> mk_flags m v = mk_flags k v"
    using assms(1) by (auto simp: marks_grow_def)
  show ?thesis
    unfolding marks_near_def Let_def
  proof
    fix v
    obtain r p where f: "mk_flags m v = (mk_flags k v)\<lparr>fg_removable := r, fg_poison := p\<rparr>" using marks_growD [OF assms(1)] .
    note old = assms(2) [unfolded marks_near_def Let_def, rule_format, of v]
    show "fg_status (mk_flags m v) = fg_status (ft v) \<and> fg_shrinkable (mk_flags m v) = fg_shrinkable (ft v)
      \<and> (fg_seen (ft v) \<longrightarrow> fg_seen (mk_flags m v)) \<and> (fg_keep (mk_flags m v) \<longrightarrow> v \<in> vidx ` set K)
      \<and> (fg_removable (mk_flags m v) \<or> fg_poison (mk_flags m v) \<or> fg_added (mk_flags m v) \<longrightarrow> v \<in> vidx ` set (mk_minimized m))"
    proof (cases "v \<in> vidx ` set new")
      case True
      then show ?thesis using old f new(1) by (simp add: image_Un)
    next
      case False
      then have "mk_flags m v = mk_flags k v" using new(2) by blast
      then show ?thesis using old new(1) by auto
    qed
  qed
qed

lemma marks_grow_seen:
  assumes "marks_grow k m"
  shows "more_seen V (mk_flags k) (mk_analyzed k) m"
proof -
  have "fg_seen (mk_flags m v) = fg_seen (mk_flags k v)" for v by (rule marks_growD [OF assms, of v]) simp
  then show ?thesis using assms unfolding more_seen_def by (intro exI [of _ "[]"]) (simp add: marks_grow_def)
qed

lemma marks_near_chain:
  assumes "chain_same V k m" "marks_near ft K k"
  shows "marks_near ft K m"
  unfolding marks_near_def Let_def
proof
  fix v
  have n: "mk_minimized m = mk_minimized k" using assms(1) by (simp add: chain_same_def)
  obtain a b where f: "mk_flags m v = (mk_flags k v)\<lparr>fg_added := a, fg_seen := b\<rparr>" "fg_seen (mk_flags k v) \<longrightarrow> b"
    "a \<longrightarrow> fg_added (mk_flags k v) \<or> fg_removable (mk_flags k v)" using chain_sameD [OF assms(1)] .
  show "fg_status (mk_flags m v) = fg_status (ft v) \<and> fg_shrinkable (mk_flags m v) = fg_shrinkable (ft v)
      \<and> (fg_seen (ft v) \<longrightarrow> fg_seen (mk_flags m v)) \<and> (fg_keep (mk_flags m v) \<longrightarrow> v \<in> vidx ` set K)
      \<and> (fg_removable (mk_flags m v) \<or> fg_poison (mk_flags m v) \<or> fg_added (mk_flags m v) \<longrightarrow> v \<in> vidx ` set (mk_minimized m))"
    using assms(2) [unfolded marks_near_def Let_def, rule_format, of v] f n by auto
qed

lemma marks_near_keep:
  "marks_near ft K k \<Longrightarrow> marks_near ft (K @ [l]) (mk_set l (fg_keep_update (\<lambda>_. True)) k)"
  by (auto simp: marks_near_def Let_def mk_set_def)

lemma chain_total:
  assumes "nt_wf F s" "marks_ok F s K (mk_flags k)" "l \<in> set (nt_trail s)" "gone s (mk_flags k) l"
  shows "\<exists>m. calculate_minimize_chain s l k = Some m \<and> chain_same (vidx ` set (nt_trail s)) k m"
proof -
  have "l \<noteq> 0" using assms(1,3) by (auto simp: nt_wf_def nt_trail_inv_def lit_ok_def)
  then have "chain_ok s (mk_flags k) (int (vidx l))"
    using assms(3,4) by (auto simp: chain_ok_def gone_def vidx_def lit_level_def nt_var_def)
  then show ?thesis using chain_loop_ok [OF assms(1,2), of "[int (vidx l)]"] by (simp add: calculate_minimize_chain_def)
qed

lemma entails_drop:
  assumes "entails F (js @ l # is)" "entails F (- l # js)" "l \<noteq> 0"
  shows "entails F (js @ is)"
proof
  fix \<alpha> assume "models \<alpha> F"
  then show "clause_true \<alpha> (js @ is)" using entailsD [OF assms(1)] entailsD [OF assms(2)] assms(3) by fastforce
qed

text \<open>One literal: removed when it is implied by what is kept, else kept with its flag.\<close>

lemma minimize_loop_ok:
  assumes "nt_wf F s" and "\<forall>l \<in> set is. - l \<in> set (nt_trail s)" "distinct (map vidx (js @ is))"
    "marks_ok F s js (mk_flags k)" "marks_near ft js k" "entails F (js @ is)"
  shows "\<exists>ys ch m. minimize_loop s is js chain k = Some (js @ ys, ch, m) \<and> set ys \<subseteq> set is \<and> distinct (map vidx (js @ ys))
    \<and> more_seen (vidx ` set (nt_trail s)) (mk_flags k) (mk_analyzed k) m \<and> marks_near ft (js @ ys) m \<and> entails F (js @ ys) \<and> (\<forall>l \<in> set is. 0 < nt_level s \<longrightarrow> lit_level s l = nt_level s \<longrightarrow> l \<in> set ys)"
  using assms(2-)
proof (induction "is" arbitrary: js chain k)
  case Nil
  then show ?case by simp
next
  case (Cons lit "is")
  obtain r m where run: "minimize_literal s (- lit) 0 k = (r, m)" by fastforce
  have lt: "- lit \<in> set (nt_trail s)" using Cons.prems(1) by simp
  have st: "marks_ok F s js (mk_flags m)" "marks_grow k m" "r \<longrightarrow> gone s (mk_flags m) (- lit)"
    using minimize_sound(1) [OF assms(1) lt Cons.prems(3) run] Cons.prems(3) by (simp_all add: sound_step_def)
  have near: "marks_near ft js m" by (rule marks_near_grow [OF st(2) Cons.prems(4)])
  let ?V = "vidx ` set (nt_trail s)"
  have grow: "more_seen ?V (mk_flags k) (mk_analyzed k) m" by (rule marks_grow_seen [OF st(2)])
  have nz: "lit \<noteq> 0" using assms(1) lt by (auto simp: nt_wf_def nt_trail_inv_def lit_ok_def)
  show ?case
  proof (cases r)
    case True
    have ent: "entails F (js @ is)" using entails_drop [OF Cons.prems(5) gone_entails [OF assms(1) st(1) lt] nz] st(3) True by simp
    have low: "\<not> (0 < nt_level s \<and> lit_level s lit = nt_level s)"
    proof
      assume top: "0 < nt_level s \<and> lit_level s lit = nt_level s"
      have up: "lit_level s (- lit) = lit_level s lit" by (simp add: lit_level_def nt_var_def)
      from st(1,3) True lt top up have "fg_keep (mk_flags m (vidx lit))" by (auto simp: gone_def marks_ok_def)
      then have "lit \<in> set js" using st(1) lt by (auto simp: marks_ok_def)
      then show False using Cons.prems(2) by auto
    qed
    define m' where "m' = (if pf_lrat (nt_proof s) then the (calculate_minimize_chain s (- lit) m) else m)"
    have m': "pf_lrat (nt_proof s) \<Longrightarrow> calculate_minimize_chain s (- lit) m = Some m'" "chain_same (vidx ` set (nt_trail s)) m m'"
      using chain_total [OF assms(1) st(1) lt] st(3) True by (auto simp: m'_def)
    let ?k = "if pf_lrat (nt_proof s) then m'\<lparr>mk_mini_chain := []\<rparr> else m"
    let ?ch = "if pf_lrat (nt_proof s) then chain @ mk_mini_chain m' else chain"
    have run': "minimize_loop s (lit # is) js chain k = minimize_loop s is js ?ch ?k" using run True m'(1) by simp
    have same: "chain_same ?V m ?k" using chain_same_trans [OF m'(2) chain_same_mini] by simp
    from Cons.IH [OF _ _ chain_same_marks [OF same st(1)] marks_near_chain [OF same near] ent, of ?ch] Cons.prems(1,2)
    obtain ys ch n where "minimize_loop s is js ?ch ?k = Some (js @ ys, ch, n)" "set ys \<subseteq> set is" "distinct (map vidx (js @ ys))"
      "marks_near ft (js @ ys) n" "entails F (js @ ys)" "\<forall>l \<in> set is. 0 < nt_level s \<longrightarrow> lit_level s l = nt_level s \<longrightarrow> l \<in> set ys"
      "more_seen ?V (mk_flags ?k) (mk_analyzed ?k) n"
      by auto
    note u = this
    have "more_seen ?V (mk_flags k) (mk_analyzed k) ?k"
      using more_seen_trans [OF grow] same by (simp only: chain_same_def)
    from u more_seen_trans [OF this u(7)] show ?thesis unfolding run' using low by (intro exI [of _ ys] exI [of _ ch] exI [of _ n]) auto
  next
    case False
    let ?k = "mk_set lit (fg_keep_update (\<lambda>_. True)) m"
    have run': "minimize_loop s (lit # is) js chain k = minimize_loop s is (js @ [lit]) chain ?k" using run False by simp
    have ok: "marks_ok F s (js @ [lit]) (mk_flags ?k)" using marks_ok_keep [OF assms(1) st(1) lt] by (simp add: mk_set_def)
    from Cons.IH [OF _ _ ok marks_near_keep [OF near], of chain] Cons.prems(1,2,5)
    obtain ys ch n where "minimize_loop s is (js @ [lit]) chain ?k = Some ((js @ [lit]) @ ys, ch, n)" "set ys \<subseteq> set is"
      "distinct (map vidx ((js @ [lit]) @ ys))" "marks_near ft ((js @ [lit]) @ ys) n" "entails F ((js @ [lit]) @ ys)"
      "\<forall>l \<in> set is. 0 < nt_level s \<longrightarrow> lit_level s l = nt_level s \<longrightarrow> l \<in> set ys"
      "more_seen ?V (mk_flags ?k) (mk_analyzed ?k) n"
      by auto
    note u = this
    have "more_seen ?V (mk_flags k) (mk_analyzed k) ?k"
      by (rule more_seen_trans [OF grow]) (unfold more_seen_def, rule exI [of _ "[]"], auto simp: mk_set_def)
    from u more_seen_trans [OF this u(7)] show ?thesis unfolding run' by (intro exI [of _ "lit # ys"] exI [of _ ch] exI [of _ n]) auto
  qed
qed


subsection \<open>Minimizing a clause\<close>

lemma mk_set_fold:
  assumes "\<And>f. g (g f) = g f"
  shows "mk_flags (fold (\<lambda>lit. mk_set lit g) ls k) v = (if v \<in> vidx ` set ls then g (mk_flags k v) else mk_flags k v)"
    "mk_minimized (fold (\<lambda>lit. mk_set lit g) ls k) = mk_minimized k"
    "mk_analyzed (fold (\<lambda>lit. mk_set lit g) ls k) = mk_analyzed k"
    "mk_unit_chain (fold (\<lambda>lit. mk_set lit g) ls k) = mk_unit_chain k"
  by (induction ls arbitrary: k) (auto simp: mk_set_def assms)

definition clean :: "Flags \<Rightarrow> bool" where
  "clean f \<longleftrightarrow> \<not> fg_keep f \<and> \<not> fg_poison f \<and> \<not> fg_removable f \<and> \<not> fg_shrinkable f \<and> \<not> fg_added f"

lemma clear_minimized_clean:
  assumes "marks_near ft js k" "\<And>v. clean (ft v)"
  shows "clean (mk_flags (clear_minimized_literals js k) v)"
    "fg_status (mk_flags (clear_minimized_literals js k) v) = fg_status (ft v)"
    "fg_seen (ft v) \<Longrightarrow> fg_seen (mk_flags (clear_minimized_literals js k) v)"
    "mk_minimized (clear_minimized_literals js k) = []"
  using assms(1) [unfolded marks_near_def Let_def, rule_format, of v] assms(2) [of v]
  by (auto simp: clear_minimized_literals_def Let_def mk_set_fold clean_def)

lemma clear_minimized_seen:
  "fg_seen (mk_flags (clear_minimized_literals js k) v) = fg_seen (mk_flags k v)"
  "mk_analyzed (clear_minimized_literals js k) = mk_analyzed k"
  by (simp_all add: clear_minimized_literals_def Let_def mk_set_fold)

lemma minimize_sort_mset:
  assumes "\<forall>xs. mset (std_sort xs) = mset xs" "length stack = 256"
  shows "mset (minimize_sort_clause std_sort stack s ls) = mset ls"
  using assms by (simp add: minimize_sort_clause_def msort_def rsort_ok)

lemma minimize_clause_ok:
  assumes "nt_wf F s" "\<forall>xs. mset (std_sort xs) = mset xs" "length stack = 256"
    and "\<forall>l \<in> set (an_clause (nt_an s)). - l \<in> set (nt_trail s)" "distinct (map vidx (an_clause (nt_an s)))"
    and "entails F (an_clause (nt_an s))" "\<And>v. clean (nt_ftab s v)" "an_minimized (nt_an s) = []"
  obtains t where "minimize_clause std_sort stack s = Some t" "an_frame s t"
    "set (an_clause (nt_an t)) \<subseteq> set (an_clause (nt_an s))" "distinct (map vidx (an_clause (nt_an t)))" "entails F (an_clause (nt_an t))"
    "\<And>l. l \<in> set (an_clause (nt_an s)) \<Longrightarrow> 0 < nt_level s \<Longrightarrow> lit_level s l = nt_level s \<Longrightarrow> l \<in> set (an_clause (nt_an t))"
    "\<And>v. clean (nt_ftab t v)" "\<And>v. fg_status (nt_ftab t v) = fg_status (nt_ftab s v)" "an_minimized (nt_an t) = []"
    "\<exists>new. an_analyzed (nt_an t) = an_analyzed (nt_an s) @ new \<and> vidx ` set new \<subseteq> vidx ` set (nt_trail s)
       \<and> (\<forall>v. fg_seen (nt_ftab t v) \<longrightarrow> fg_seen (nt_ftab s v) \<or> v \<in> vidx ` set new)"
    "an_unit_analyzed (nt_an t) = an_unit_analyzed (nt_an s)"
proof -
  let ?c = "minimize_sort_clause std_sort stack s (an_clause (nt_an s))"
  let ?k = "\<lparr>mk_flags = nt_ftab s, mk_minimized = an_minimized (nt_an s), mk_analyzed = an_analyzed (nt_an s),
     mk_unit_chain = pf_unit_chain (nt_proof s), mk_mini_chain = []\<rparr>"
  have ms: "mset ?c = mset (an_clause (nt_an s))" by (rule minimize_sort_mset [OF assms(2,3)])
  have st: "set ?c = set (an_clause (nt_an s))" by (rule mset_eq_setD [OF ms])
  have "mset (map vidx ?c) = mset (map vidx (an_clause (nt_an s)))" by (simp add: ms)
  then have di: "distinct (map vidx ?c)" using assms(5) mset_eq_imp_distinct_iff by blast
  have ok: "marks_ok F s [] (mk_flags ?k)" using assms(7) by (simp add: marks_ok_def clean_def)
  have near: "marks_near (nt_ftab s) [] ?k" using assms(7) by (simp add: marks_near_def clean_def Let_def)
  have "\<exists>ys ch m. minimize_loop s ?c [] [] ?k = Some ([] @ ys, ch, m) \<and> set ys \<subseteq> set ?c \<and> distinct (map vidx ([] @ ys))
    \<and> more_seen (vidx ` set (nt_trail s)) (mk_flags ?k) (mk_analyzed ?k) m
    \<and> marks_near (nt_ftab s) ([] @ ys) m \<and> entails F ([] @ ys)
    \<and> (\<forall>l \<in> set ?c. 0 < nt_level s \<longrightarrow> lit_level s l = nt_level s \<longrightarrow> l \<in> set ys)"
    by (rule minimize_loop_ok [OF assms(1) _ _ ok near]) (use assms(4,6) di st entails_cong_set [OF st] in simp_all)
  then obtain ys ch m where run: "minimize_loop s ?c [] [] ?k = Some (ys, ch, m)" and ys: "set ys \<subseteq> set ?c" "distinct (map vidx ys)"
    "marks_near (nt_ftab s) ys m" "entails F ys" "\<forall>l \<in> set ?c. 0 < nt_level s \<longrightarrow> lit_level s l = nt_level s \<longrightarrow> l \<in> set ys"
    "more_seen (vidx ` set (nt_trail s)) (nt_ftab s) (an_analyzed (nt_an s)) m"
    by auto
  note cl = clear_minimized_clean [OF ys(3) assms(7)]
  let ?m = "clear_minimized_literals ys m"
  let ?u = "nt_log (\<lambda>p. p\<lparr>pf_lrat_chain := pf_lrat_chain p @ rev ch, pf_unit_chain := mk_unit_chain ?m\<rparr>)
    (nt_analysis (\<lambda>n. n\<lparr>an_clause := ys, an_analyzed := mk_analyzed ?m, an_minimized := mk_minimized ?m\<rparr>)
      (nt_count (\<lambda>n. n\<lparr>cn_minimized := cn_minimized n + int (length ?c - length ys)\<rparr>) s))"
  let ?t = "?u\<lparr>nt_ftab := mk_flags ?m\<rparr>"
  have res: "minimize_clause std_sort stack s = Some ?t" using run by (simp add: minimize_clause_def Let_def)
  have "an_frame s ?u" by (intro an_frame_trans [OF an_frame_trans [OF an_frame_simps(1) an_frame_simps(2)] an_frame_simps(4)]) simp
  moreover have "an_frame ?u ?t" by (simp add: an_frame_def)
  ultimately have fr: "an_frame s ?t" by (rule an_frame_trans)
  have an: "an_clause (nt_an ?t) = ys" "an_minimized (nt_an ?t) = []" "an_unit_analyzed (nt_an ?t) = an_unit_analyzed (nt_an s)"
    by (simp_all add: nt_log_def nt_analysis_def nt_count_def cl(4))
  have "more_seen (vidx ` set (nt_trail s)) (nt_ftab s) (an_analyzed (nt_an s)) ?m"
    using ys(6) unfolding more_seen_def clear_minimized_seen .
  then have new: "\<exists>new. an_analyzed (nt_an ?t) = an_analyzed (nt_an s) @ new \<and> vidx ` set new \<subseteq> vidx ` set (nt_trail s)
       \<and> (\<forall>v. fg_seen (nt_ftab ?t v) \<longrightarrow> fg_seen (nt_ftab s v) \<or> v \<in> vidx ` set new)"
    by (simp add: more_seen_def nt_log_def nt_analysis_def nt_count_def)
  show thesis
    by (rule that [OF res fr _ _ _ _ _ _ _ new an(3)]) (use ys st cl(1,2) an in auto)
qed

end
