(* ===== verification/Cdcl_Learn.thy ===== *)
theory Cdcl_Learn
  imports Cdcl_Minimize
begin

text \<open>
  What surrounds the first UIP clause in \<^verbatim>\<open>analyze.cpp\<close>: finding the level of the conflict, which
  moves the two literals of highest level to the watched places of the conflict; choosing the level
  to backtrack to; adding the driving clause (\<^verbatim>\<open>clause.cpp\<close>) and discarding recent clauses that it
  subsumes.
\<close>

subsection \<open>The level of the conflict\<close>

text \<open>The first loop of \<^verbatim>\<open>find_conflict_level\<close>: the level, its last literal and how many there are.\<close>

fun conflict_count :: "'v Internal \<Rightarrow> int list \<Rightarrow> nat \<Rightarrow> int \<Rightarrow> nat \<Rightarrow> nat \<times> int \<times> nat" where
  "conflict_count s [] res forced n = (res, forced, n)"
| "conflict_count s (lit # is) res forced n =
     (let tmp = va_level (nt_var s lit) in
      if tmp > res then conflict_count s is tmp lit 1
      else if tmp = res then
        (if res = nt_level s \<and> n + 1 > 1 then (res, forced, n + 1)
         else conflict_count s is res forced (n + 1))
      else conflict_count s is res forced n)"

text \<open>The inner loop of the second one, over the positions after \<open>i\<close>.\<close>

fun highest_position :: "'v Internal \<Rightarrow> nat \<Rightarrow> int list \<Rightarrow> nat list \<Rightarrow> nat \<Rightarrow> nat \<Rightarrow> nat" where
  "highest_position s res lits [] position level = position"
| "highest_position s res lits (j # js) position level =
     (let tmp = va_level (nt_var s (lits ! j)) in
      if level \<ge> tmp then highest_position s res lits js position level
      else if tmp = res then j
      else highest_position s res lits js j tmp)"

definition remove_watch :: "int \<Rightarrow> nat \<Rightarrow> 'v Internal \<Rightarrow> 'v Internal" where
  "remove_watch lit a s = s\<lparr>nt_wtab := (nt_wtab s)(lit := filter (\<lambda>w. wa_clause w \<noteq> a) (nt_wtab s lit))\<rparr>"

definition move_to_watch :: "nat \<Rightarrow> nat \<Rightarrow> nat \<Rightarrow> 'v Internal \<Rightarrow> 'v Internal" where
  "move_to_watch a res i s =
     (let lits = nt_literals s a; lit = lits ! i;
          p = highest_position s res lits [i + 1..<length lits] i (va_level (nt_var s lit)) in
      if p = i then s
      else
        (let s = (if p > 1 then remove_watch lit a s else s);
             highest = lits ! p;
             lits = lits[p := lit, i := highest];
             s = nt_store a ((nt_deref s a)\<lparr>so_literals := lits\<rparr>) s
         in if p > 1 then watch_literal highest (lits ! (1 - i)) a s else s))"

definition find_conflict_level :: "nat \<Rightarrow> 'v Internal \<Rightarrow> nat \<times> int \<times> 'v Internal" where
  "find_conflict_level conflict s =
     (let (res, forced, n) = conflict_count s (nt_literals s conflict) 0 0 0;
          s = move_to_watch conflict res 1 (move_to_watch conflict res 0 s)
      in (res, if n \<noteq> 1 then 0 else forced, s))"

subsection \<open>The level to backtrack to\<close>

definition best_on_trail :: "(nat \<Rightarrow> nat \<Rightarrow> bool) \<Rightarrow> int list \<Rightarrow> nat \<Rightarrow> nat \<times> nat" where
  "best_on_trail replaces trail start =
     fold (\<lambda>i (best, pos).
         let idx = vidx (trail ! i) in if best \<noteq> 0 \<and> \<not> replaces best idx then (best, pos) else (idx, i))
       [start..<length trail] (0, 0)"

text \<open>The loop that moves up while the next level's decision is not after the best variable.\<close>

fun reuse_levels :: "Level list \<Rightarrow> nat \<Rightarrow> nat \<Rightarrow> nat \<Rightarrow> nat" where
  "reuse_levels control pos 0 res = res"
| "reuse_levels control pos (Suc n) res =
     (if lv_trail (control ! (res + 1)) \<le> pos then reuse_levels control pos n (res + 1) else res)"

definition reuse_best_level :: "nat \<Rightarrow> ('v :: linorder) Internal \<Rightarrow> nat" where
  "reuse_best_level jump s =
     (let start = lv_trail (nt_control s ! (jump + 1));
          (best, pos) =
            (if use_scores s then best_on_trail (score_smaller (dc_stab (nt_decide s))) (nt_trail s) start
             else best_on_trail (\<lambda>best idx. vq_btab (dc_queue (nt_decide s)) best < vq_btab (dc_queue (nt_decide s)) idx)
                    (nt_trail s) start)
      in reuse_levels (nt_control s) pos (nt_level s - 1 - jump) jump)"

definition determine_actual_backtrack_level :: "nat \<Rightarrow> ('v :: linorder) Internal \<Rightarrow> nat \<times> 'v Internal" where
  "determine_actual_backtrack_level jump s =
     (let chrono = nt_count (\<lambda>n. n\<lparr>cn_chrono := cn_chrono n + 1\<rparr>) s in
      if co_chrono (nt_opts s) = 0 then (jump, s)
      else if co_chronoalways (nt_opts s) then (nt_level s - 1, chrono)
      else if jump \<ge> nt_level s - 1 then (jump, s)
      else if jump < length (as_assumptions (nt_as s)) then (jump, s)
      else if int (nt_level s - jump) > co_chronolevelim (nt_opts s) then (nt_level s - 1, chrono)
      else if co_chronoreusetrail (nt_opts s) then
        (let res = reuse_best_level jump s
         in if res = jump then (res, s) else (res, chrono))
      else (jump, s))"

subsection \<open>The driving clause\<close>

definition new_clause :: "bool \<Rightarrow> int \<Rightarrow> 'v Internal \<Rightarrow> nat \<times> 'v Internal" where
  "new_clause red glue s =
     (let clause = an_clause (nt_an s); size = length clause;
          glue = (if glue > int size then int size else glue);
          keep = (\<not> red \<or> glue \<le> co_reducetier1glue (nt_opts s));
          s = nt_log (\<lambda>p. p\<lparr>pf_clause_id := pf_clause_id p + 1\<rparr>) s;
          c = \<lparr>so_id = pf_clause_id (nt_proof s), so_garbage = False, so_hyper = False, so_keep = keep, so_redundant = red,
               so_used = 0, so_glue = glue, so_pos = 2, so_literals = clause\<rparr>;
          a = nt_next_addr s
      in (a, nt_store a c (s\<lparr>nt_next_addr := a + 1, nt_clauses := nt_clauses s @ [a]\<rparr>)))"

definition new_learned_redundant_clause :: "int \<Rightarrow> 'v Internal \<Rightarrow> nat \<times> 'v Internal" where
  "new_learned_redundant_clause glue s =
     (let (a, s) = new_clause True glue s;
          s = nt_log (\<lambda>p. p\<lparr>pf_derived := pf_derived p @ [(so_id (nt_deref s a), nt_literals s a, pf_lrat_chain p)]\<rparr>) s
      in (a, watch_clause a s))"

text \<open>Smaller for a literal of a higher level and, on the same level, later on the trail.\<close>

definition analyze_trail_negative_rank :: "'v Internal \<Rightarrow> int \<Rightarrow> 64 word" where
  "analyze_trail_negative_rank s lit =
     (let v = nt_var s lit; res = push_bit 32 (word_of_nat (va_level v)); res = or res (word_of_nat (va_trail v))
      in not res)"

definition new_driving_clause ::
    "((int \<Rightarrow> 64 word) \<Rightarrow> int list \<Rightarrow> int list) \<Rightarrow> nat list \<Rightarrow> int \<Rightarrow> 'v Internal \<Rightarrow> nat option \<times> nat \<times> 'v Internal" where
  "new_driving_clause std_sort stack glue s =
     (let clause = an_clause (nt_an s); size = length clause in
      if size = 0 then (None, 0, s)
      else if size = 1 then (None, 0, s\<lparr>nt_iterating := True\<rparr>)
      else
        (let rank = analyze_trail_negative_rank s;
             clause = msort (co_radixsortlim (nt_opts s)) (std_sort rank) rank 0 stack clause;
             s = nt_analysis (\<lambda>n. n\<lparr>an_clause := clause\<rparr>) s;
             jump = va_level (nt_var s (clause ! 1));
             (a, s) = new_learned_redundant_clause glue s;
             s = nt_store a ((nt_deref s a)\<lparr>so_used := 1 + (if glue \<le> co_reducetier2glue (nt_opts s) then 1 else 0)\<rparr>) s
         in (Some a, jump, s)))"

subsection \<open>Eager subsumption\<close>

text \<open>Only the two assignments to the clause: the line in the proof, the statistics and \<^verbatim>\<open>mark_removed\<close> are left out.\<close>

definition mark_garbage :: "nat \<Rightarrow> 'v Internal \<Rightarrow> 'v Internal" where
  "mark_garbage a s = nt_store a ((nt_deref s a)\<lparr>so_garbage := True, so_used := 0\<rparr>) s"

text \<open>The literals of \<open>d\<close> that are marked, counted down from the size of the new clause.\<close>

fun needed_loop :: "int set \<Rightarrow> int list \<Rightarrow> nat \<Rightarrow> nat" where
  "needed_loop marked [] needed = needed"
| "needed_loop marked (lit # is) needed =
     (if lit \<notin> marked then needed_loop marked is needed
      else if needed - 1 = 0 then 0
      else needed_loop marked is (needed - 1))"

fun eager_loop :: "nat \<Rightarrow> int \<Rightarrow> nat list \<Rightarrow> 'v Internal \<Rightarrow> 'v Internal" where
  "eager_loop c lim [] s = s"
| "eager_loop c lim (d # ds) s =
     (let tried = cn_eagertried (nt_stats s); s = nt_count (\<lambda>n. n\<lparr>cn_eagertried := tried + 1\<rparr>) s in
      if \<not> tried \<le> lim then s
      else if c = d then eager_loop c lim ds s
      else if so_garbage (nt_deref s d) then eager_loop c lim ds s
      else if \<not> so_redundant (nt_deref s d) then eager_loop c lim ds s
      else if needed_loop (set (nt_literals s c)) (nt_literals s d) (length (nt_literals s c)) \<noteq> 0 then eager_loop c lim ds s
      else eager_loop c lim ds
             (mark_garbage d (nt_count (\<lambda>n. n\<lparr>cn_eagersub := cn_eagersub n + 1, cn_subsumed := cn_subsumed n + 1\<rparr>) s)))"

definition eagerly_subsume_recently_learned_clauses :: "nat \<Rightarrow> 'v Internal \<Rightarrow> 'v Internal" where
  "eagerly_subsume_recently_learned_clauses c s =
     eager_loop c (cn_eagertried (nt_stats s) + co_eagersubsumelim (nt_opts s)) (rev (nt_clauses s)) s"


subsection \<open>The two highest literals of the conflict\<close>

lemma conflict_count_spec:
  assumes "conflict_count s ls res f n = (r, g, m)" "\<forall>l \<in> set ls. lit_level s l \<le> nt_level s" "0 < res \<longrightarrow> 1 \<le> n"
  shows "res \<le> r \<and> (\<forall>l \<in> set ls. lit_level s l \<le> r) \<and> (r = res \<or> (\<exists>l \<in> set ls. lit_level s l = r)) \<and> (r = res \<longrightarrow> g = f)
    \<and> (res < r \<longrightarrow> g \<in> set ls \<and> lit_level s g = r)
    \<and> (0 < r \<longrightarrow> (let k = (if r = res then n else 0) + length (filter (\<lambda>l. lit_level s l = r) ls) in (m = 1 \<longrightarrow> k = 1) \<and> (m \<noteq> 1 \<longrightarrow> 2 \<le> k)))"
  using assms
proof (induction s ls res f n rule: conflict_count.induct)
  case (1 s res f n)
  then show ?case by (auto simp: Let_def)
next
  case (2 s lit "is" res f n)
  let ?t = "va_level (nt_var s lit)"
  have lv: "lit_level s lit = ?t" "?t \<le> nt_level s" "\<forall>l \<in> set is. lit_level s l \<le> nt_level s"
    using "2.prems"(2) by (auto simp: lit_level_def)
  consider (up) "res < ?t" | (stop) "?t = res" "res = nt_level s \<and> n + 1 > 1" | (same) "?t = res" "\<not> (res = nt_level s \<and> n + 1 > 1)" | (low) "?t < res"
    by linarith
  then show ?case
  proof cases
    case up
    then have run: "conflict_count s is ?t lit 1 = (r, g, m)" using "2.prems"(1) by (simp add: Let_def)
    from "2.IH"(1) [OF refl up run lv(3)] show ?thesis using up lv(1) by (auto simp: Let_def split: if_splits)
  next
    case stop
    then have "(r, g, m) = (res, f, n + 1)" using "2.prems"(1) by (simp add: Let_def)
    then show ?thesis using stop lv by (auto simp: Let_def)
  next
    case same
    have nl: "\<not> res < ?t" using same by simp
    have run: "conflict_count s is res f (n + 1) = (r, g, m)" using "2.prems"(1) same by (auto simp: Let_def)
    from "2.IH"(2) [OF refl nl same run lv(3)] show ?thesis using same lv(1) by (auto simp: Let_def split: if_splits)
  next
    case low
    have nl: "\<not> res < ?t" "?t \<noteq> res" using low by simp_all
    have run: "conflict_count s is res f n = (r, g, m)" using "2.prems"(1) low by (simp add: Let_def)
    from "2.IH"(3) [OF refl nl run lv(3) "2.prems"(3)] show ?thesis using low lv(1) by (auto simp: Let_def split: if_splits)
  qed
qed

lemma highest_position_spec:
  assumes "highest_position s res lits js p lev = q" "lev = lit_level s (lits ! p)" "\<forall>j \<in> set js. lit_level s (lits ! j) \<le> res"
  shows "(q = p \<or> q \<in> set js) \<and> lit_level s (lits ! p) \<le> lit_level s (lits ! q) \<and> (\<forall>j \<in> set js. lit_level s (lits ! j) \<le> lit_level s (lits ! q))"
  using assms
proof (induction s res lits js p lev rule: highest_position.induct)
  case (2 s res lits j js p lev)
  let ?t = "va_level (nt_var s (lits ! j))"
  have lv: "lit_level s (lits ! j) = ?t" by (simp add: lit_level_def)
  consider "?t \<le> lev" | "lev < ?t" "?t = res" | "lev < ?t" "?t \<noteq> res" by linarith
  then show ?case
  proof cases
    case 1
    then show ?thesis using 2 lv by (auto simp: Let_def)
  next
    case 2
    then show ?thesis using "2.prems" lv by (auto simp: Let_def)
  next
    case 3
    then have run: "highest_position s res lits js j ?t = q" using "2.prems"(1) by (simp add: Let_def)
    have "\<not> lev \<ge> ?t" using 3 by simp
    from "2.IH"(2) [OF refl this 3(2) run] "2.prems"(2,3) 3 show ?thesis by (auto simp: lv)
  qed
qed auto

lemma list_swap_mset:
  assumes "i < length ls" "p < length ls"
  shows "mset (ls[p := ls ! i, i := ls ! p]) = mset ls"
  using assms by (rule mset_swap)

lemma list_swap_nth:
  assumes "i < length ls" "p < length ls"
  shows "ls[p := ls ! i, i := ls ! p] ! i = ls ! p" "ls[p := ls ! i, i := ls ! p] ! p = ls ! i"
    "j \<noteq> i \<Longrightarrow> j \<noteq> p \<Longrightarrow> ls[p := ls ! i, i := ls ! p] ! j = ls ! j"
  using assms by (cases "i = p"; simp)+

lemma watch_inv_front:
  assumes inv: "watch_inv n m wt" and c: "m a = Some c" "set (so_literals c') = set (so_literals c)"
    "length (so_literals c') = length (so_literals c)" "so_garbage c' = so_garbage c"
    "{so_literals c' ! 0, so_literals c' ! 1} = {so_literals c ! 0, so_literals c ! 1}"
  shows "watch_inv n (m(a \<mapsto> c')) wt"
proof -
  have "watch_ok (m(a \<mapsto> c')) l w" if "watch_ok m l w" for l w
    using that c by (cases "wa_clause w = a") (auto simp: watch_ok_def doubleton_eq_iff)
  then have "watches_ok (m(a \<mapsto> c')) l (wt l)" if "lit_ok n l" for l
    using inv that by (auto simp: watch_inv_def watches_ok_def)
  moreover have "watched wt (so_literals d ! 0) b \<and> watched wt (so_literals d ! 1) b" if "(m(a \<mapsto> c')) b = Some d" "\<not> so_garbage d" for b d
    using inv that c by (cases "b = a") (auto simp: watch_inv_def doubleton_eq_iff)
  ultimately show ?thesis by (simp add: watch_inv_def)
qed

lemma rewatch:
  assumes inv: "watch_inv n m wt" and c: "m a = Some c" "sclause_ok n c" and i: "i < 2" and p: "2 \<le> p" "p < length (so_literals c)"
    and c': "so_literals c' = (so_literals c)[p := so_literals c ! i, i := so_literals c ! p]" "so_garbage c' = so_garbage c"
    and w: "wa_clause w = a" "wa_blit w = so_literals c ! (1 - i)" "wa_size w = length (so_literals c)"
  defines "x \<equiv> so_literals c ! i" and "h \<equiv> so_literals c ! p"
  defines "wt' \<equiv> (wt(x := filter (\<lambda>w. wa_clause w \<noteq> a) (wt x)))(h := wt h @ [w])"
  shows "watch_inv n (m(a \<mapsto> c')) wt'"
proof -
  let ?ls = "so_literals c" and ?ls' = "so_literals c'" and ?y = "so_literals c ! (1 - i)"
  have ok: "distinct ?ls" "2 \<le> length ?ls" using c(2) by (simp_all add: sclause_ok_def)
  have "mset ?ls' = mset ?ls" unfolding c'(1) by (rule list_swap_mset) (use i p in auto)
  then have len: "length ?ls' = length ?ls" and st: "set ?ls' = set ?ls" by (rule mset_eq_length, rule mset_eq_setD)
  have "i < length ?ls" "1 - i \<noteq> i" "1 - i \<noteq> p" using i p by (auto simp: less_2_cases_iff)
  note ix = this
  then have nth: "?ls' ! i = h" "?ls' ! (1 - i) = ?y" using list_swap_nth [of i ?ls p] p(2) by (simp_all add: c'(1) h_def)
  have ne: "x \<noteq> h" "?y \<noteq> h" "x \<noteq> ?y"
    using nth_eq_iff_index_eq [OF ok(1), of i p] nth_eq_iff_index_eq [OF ok(1), of "1 - i" p]
      nth_eq_iff_index_eq [OF ok(1), of i "1 - i"] i p ok(2) ix by (simp_all add: x_def h_def)
  have mem: "h \<in> set ?ls" "?y \<in> set ?ls" using i p by (auto simp: h_def less_2_cases_iff)
  have two: "z = ?ls ! 0 \<or> z = ?ls ! 1 \<longleftrightarrow> z = x \<or> z = ?y" for z using i by (auto simp: x_def less_2_cases_iff)
  have two': "z = ?ls' ! 0 \<or> z = ?ls' ! 1 \<longleftrightarrow> z = h \<or> z = ?y" for z using i nth by (auto simp: less_2_cases_iff)
  have old: "watch_ok m z v" "distinct (map wa_clause (wt z))" if "lit_ok n z" "v \<in> set (wt z)" for z v
    using inv that by (auto simp: watch_inv_def watches_ok_def)
  have keep: "watch_ok (m(a \<mapsto> c')) z v" if "watch_ok m z v" "wa_clause v = a \<Longrightarrow> z = ?y" for z v
  proof (cases "wa_clause v = a")
    case True
    then show ?thesis using that c(1) st len two' by (auto simp: watch_ok_def)
  qed (use that(1) in \<open>simp add: watch_ok_def\<close>)
  have new: "watch_ok (m(a \<mapsto> c')) h w" using w st len mem ne two' by (auto simp: watch_ok_def)
  have dist: "distinct (map wa_clause (wt z))" if "lit_ok n z" for z using inv that by (auto simp: watch_inv_def watches_ok_def)
  have dF: "distinct (map wa_clause (filter P (wt z)))" if "lit_ok n z" for P z using dist [OF that] by (rule distinct_map_filter)
  have "watches_ok (m(a \<mapsto> c')) z (wt' z)" if z: "lit_ok n z" for z
  proof -
    consider "z = h" | "z = x" "z \<noteq> h" | "z \<noteq> x" "z \<noteq> h" by blast
    then show ?thesis
    proof cases
      case 1
      have "wa_clause v \<noteq> a" if "v \<in> set (wt h)" for v
      proof
        assume "wa_clause v = a"
        then have "h = ?ls ! 0 \<or> h = ?ls ! 1" using old(1) [OF z, of v] that 1 c(1) by (auto simp: watch_ok_def)
        then show False using two [of h] ne by metis
      qed
      then have na: "a \<notin> wa_clause ` set (wt h)" by (metis imageE)
      have "watch_ok (m(a \<mapsto> c')) h v" if "v \<in> set (wt h)" for v
        by (rule keep) (use old(1) [OF z] that 1 na in auto)
      then show ?thesis using 1 new na dist [OF z] w(1) by (auto simp: wt'_def watches_ok_def)
    next
      case 2
      then show ?thesis using keep old(1) [OF z] dF [OF z] by (auto simp: wt'_def watches_ok_def)
    next
      case 3
      have "z = ?y" if "v \<in> set (wt z)" "wa_clause v = a" for v
        using old(1) [OF z that(1)] that(2) c(1) two 3(1) by (auto simp: watch_ok_def)
      then show ?thesis using 3 keep old(1) [OF z] dist [OF z] by (auto simp: wt'_def watches_ok_def)
    qed
  qed
  moreover have "watched wt' (so_literals d ! 0) b \<and> watched wt' (so_literals d ! 1) b"
    if d: "(m(a \<mapsto> c')) b = Some d" "\<not> so_garbage d" for b d
  proof (cases "b = a")
    case True
    then have d': "d = c'" using d(1) by simp
    have "watched wt (?ls ! 0) a" "watched wt (?ls ! 1) a" using inv c(1) c'(2) d(2) d' by (auto simp: watch_inv_def)
    then have "watched wt z a" if "z = x \<or> z = ?y" for z using that two [of z] by metis
    then have "watched wt' ?y a" using ne by (auto simp: watched_def wt'_def)
    moreover have "watched wt' h a" using w(1) by (auto simp: watched_def wt'_def)
    ultimately show ?thesis using two' True d' by metis
  next
    case False
    have "watched wt' z b" if "watched wt z b" for z using that False by (auto simp: watched_def wt'_def image_iff)
    then show ?thesis using inv d False by (auto simp: watch_inv_def)
  qed
  ultimately show ?thesis by (simp add: watch_inv_def)
qed


lemma falsified_sound_levels:
  assumes "nt_wf F s" "falsified s a" "l \<in> set (nt_literals s a)"
  shows "lit_level s l \<le> nt_level s" "- l \<in> set (nt_trail s)"
proof -
  show t: "- l \<in> set (nt_trail s)" using assms(2,3) by (auto simp: falsified_def nt_literals_def nt_deref_def)
  show "lit_level s l \<le> nt_level s" using level_le [OF _ t, where F = F] assms(1) by (simp add: nt_wf_def)
qed

text \<open>What moving a literal to a watched place changes: the order of one clause, and its watches.\<close>

definition reordered :: "nat \<Rightarrow> 'v Internal \<Rightarrow> 'v Internal \<Rightarrow> bool" where
  "reordered a s t \<longleftrightarrow> t = s\<lparr>nt_mem := nt_mem t, nt_wtab := nt_wtab t\<rparr>
     \<and> (\<exists>c d. nt_mem s a = Some c \<and> d = c\<lparr>so_literals := so_literals d\<rparr> \<and> mset (so_literals d) = mset (so_literals c)
          \<and> nt_mem t = (nt_mem s)(a \<mapsto> d))
     \<and> (\<forall>l w. wa_clause w \<noteq> a \<longrightarrow> (w \<in> set (nt_wtab t l) \<longleftrightarrow> w \<in> set (nt_wtab s l)))"

lemma reordered_refl: "nt_mem s a = Some c \<Longrightarrow> reordered a s s"
  unfolding reordered_def by (intro conjI exI [of _ c]) (auto simp: fun_upd_idem)

lemma reordered_trans:
  assumes "reordered a s t" "reordered a t u"
  shows "reordered a s u"
proof -
  obtain c d where 1: "nt_mem s a = Some c" "d = c\<lparr>so_literals := so_literals d\<rparr>" "mset (so_literals d) = mset (so_literals c)"
    "nt_mem t = (nt_mem s)(a \<mapsto> d)" using assms(1) by (auto simp: reordered_def)
  obtain e f where 2: "nt_mem t a = Some e" "f = e\<lparr>so_literals := so_literals f\<rparr>" "mset (so_literals f) = mset (so_literals e)"
    "nt_mem u = (nt_mem t)(a \<mapsto> f)" using assms(2) by (auto simp: reordered_def)
  have e: "e = d" using 1(4) 2(1) by simp
  have f: "f = c\<lparr>so_literals := so_literals f\<rparr>" using 1(2) 2(2) unfolding e by (metis SClause.surjective SClause.update_convs(9))
  have T: "t = s\<lparr>nt_mem := nt_mem t, nt_wtab := nt_wtab t\<rparr>" using assms by (simp add: reordered_def)
  have "u = t\<lparr>nt_mem := nt_mem u, nt_wtab := nt_wtab u\<rparr>" using assms by (simp add: reordered_def)
  also have "\<dots> = s\<lparr>nt_mem := nt_mem u, nt_wtab := nt_wtab u\<rparr>" by (subst T) simp
  finally have U: "u = s\<lparr>nt_mem := nt_mem u, nt_wtab := nt_wtab u\<rparr>" .
  have mem: "nt_mem u = (nt_mem s)(a \<mapsto> f)" "mset (so_literals f) = mset (so_literals c)" using 1 2 e by simp_all
  show ?thesis unfolding reordered_def using U f mem 1(1) assms by (auto simp: reordered_def)
qed

lemma reorderedD:
  assumes "reordered a s t"
  shows "same_core s t" "same_lits (nt_mem s) (nt_mem t)" "nt_conflict t = nt_conflict s" "nt_opts t = nt_opts s"
    "b \<noteq> a \<Longrightarrow> nt_mem t b = nt_mem s b" "wa_clause w \<noteq> a \<Longrightarrow> w \<in> set (nt_wtab t l) \<longleftrightarrow> w \<in> set (nt_wtab s l)"
    "nt_an t = nt_an s" "nt_ftab t = nt_ftab s" "nt_proof t = nt_proof s" "nt_as t = nt_as s" "nt_phases t = nt_phases s"
proof -
  have t: "t = s\<lparr>nt_mem := nt_mem t, nt_wtab := nt_wtab t\<rparr>" using assms by (simp add: reordered_def)
  show "same_core s t" "nt_conflict t = nt_conflict s" "nt_opts t = nt_opts s" "nt_an t = nt_an s" "nt_ftab t = nt_ftab s"
    "nt_proof t = nt_proof s" "nt_as t = nt_as s" "nt_phases t = nt_phases s"
    unfolding same_core_def by (subst t, simp)+
  obtain c d where 1: "nt_mem s a = Some c" "d = c\<lparr>so_literals := so_literals d\<rparr>" "mset (so_literals d) = mset (so_literals c)"
    "nt_mem t = (nt_mem s)(a \<mapsto> d)" using assms by (auto simp: reordered_def)
  have "so_garbage d = so_garbage c" "so_id d = so_id c" "so_redundant d = so_redundant c" by (subst 1(2), simp)+
  then show "same_lits (nt_mem s) (nt_mem t)" unfolding 1(4) using same_lits_upd [of "nt_mem s" a c d] 1(1,3) by metis
  show "b \<noteq> a \<Longrightarrow> nt_mem t b = nt_mem s b" by (simp add: 1(4))
  show "wa_clause w \<noteq> a \<Longrightarrow> w \<in> set (nt_wtab t l) \<longleftrightarrow> w \<in> set (nt_wtab s l)" using assms by (simp add: reordered_def)
qed

lemma move_to_watch_ok:
  assumes wf: "nt_wf F s" and c: "nt_mem s a = Some c" and i: "i < 2" and res: "\<forall>l \<in> set (so_literals c). lit_level s l \<le> res"
  defines "t \<equiv> move_to_watch a res i s"
  shows "nt_wf F t" "reordered a s t"
    "\<exists>d. nt_mem t a = Some d \<and> (\<forall>j < length (so_literals d). i \<le> j \<longrightarrow> lit_level s (so_literals d ! j) \<le> lit_level s (so_literals d ! i))
       \<and> (\<forall>j < i. so_literals d ! j = so_literals c ! j)"
proof -
  let ?ls = "so_literals c"
  define p where "p = highest_position s res ?ls [i + 1..<length ?ls] i (va_level (nt_var s (?ls ! i)))"
  have ok: "sclause_ok (nt_max_var s) c" "entails F ?ls" using wf c by (auto simp: nt_wf_def mem_inv_def)
  then have len: "2 \<le> length ?ls" "distinct ?ls" by (simp_all add: sclause_ok_def)
  have "(p = i \<or> p \<in> set [i + 1..<length ?ls]) \<and> lit_level s (?ls ! i) \<le> lit_level s (?ls ! p)
      \<and> (\<forall>j \<in> set [i + 1..<length ?ls]. lit_level s (?ls ! j) \<le> lit_level s (?ls ! p))"
    by (rule highest_position_spec [OF p_def [symmetric]]) (use res in \<open>auto simp: lit_level_def\<close>)
  then have p: "p = i \<or> i < p \<and> p < length ?ls" and top: "\<forall>j < length ?ls. i \<le> j \<longrightarrow> lit_level s (?ls ! j) \<le> lit_level s (?ls ! p)"
    by (auto simp: le_eq_less_or_eq)
  have lits: "nt_literals s a = ?ls" "nt_deref s a = c" using c by (simp_all add: nt_literals_def nt_deref_def)
  have mt: "move_to_watch a res i s = (if p = i then s else
      (let u = (if p > 1 then remove_watch (?ls ! i) a s else s); ms = ?ls[p := ?ls ! i, i := ?ls ! p];
           u = nt_store a ((nt_deref u a)\<lparr>so_literals := ms\<rparr>) u
       in if p > 1 then watch_literal (?ls ! p) (ms ! (1 - i)) a u else u))"
    by (simp only: move_to_watch_def lits Let_def p_def)
  have "nt_wf F t \<and> reordered a s t
    \<and> (\<exists>d. nt_mem t a = Some d \<and> (\<forall>j < length (so_literals d). i \<le> j \<longrightarrow> lit_level s (so_literals d ! j) \<le> lit_level s (so_literals d ! i))
       \<and> (\<forall>j < i. so_literals d ! j = so_literals c ! j))"
  proof (cases "p = i")
    case True
    then have "t = s" by (simp add: t_def mt)
    then show ?thesis using wf c top reordered_refl [OF c] True by auto
  next
    case False
    then have ip: "i < p" "p < length ?ls" using p by auto
    let ?ms = "?ls[p := ?ls ! i, i := ?ls ! p]"
    let ?d = "c\<lparr>so_literals := ?ms\<rparr>"
    define w where "w = \<lparr>wa_clause = a, wa_blit = ?ms ! (1 - i), wa_size = length ?ms\<rparr>"
    define wt where "wt = (if 1 < p then ((nt_wtab s)(?ls ! i := filter (\<lambda>w. wa_clause w \<noteq> a) (nt_wtab s (?ls ! i))))(?ls ! p := nt_wtab s (?ls ! p) @ [w])
        else nt_wtab s)"
    have il: "i < length ?ls" using ip by simp
    have ms: "mset ?ms = mset ?ls" by (rule list_swap_mset [OF il ip(2)])
    have ne: "?ls ! p \<noteq> ?ls ! i" using ip nth_eq_iff_index_eq [OF len(2) ip(2) il] by simp
    have t: "t = s\<lparr>nt_mem := (nt_mem s)(a \<mapsto> ?d), nt_wtab := wt\<rparr>"
      using False ne unfolding t_def mt Let_def
      by (simp add: nt_store_def remove_watch_def watch_literal_def nt_literals_def nt_deref_def c w_def wt_def)
    have core: "same_core s t" by (simp add: t same_core_def)
    have sl: "same_lits (nt_mem s) (nt_mem t)" unfolding t by (simp add: same_lits_upd [where c = c] c ms)
    have "mem_inv F (nt_max_var s) (nt_mem t)"
      using mem_inv_upd [of F "nt_max_var s" "nt_mem s" a c ?d] wf c ms ok(1) unfolding t by (simp add: nt_wf_def sclause_ok_def)
    moreover have "watch_inv (nt_max_var s) (nt_mem t) (nt_wtab t)"
    proof (cases "1 < p")
      case True
      have "1 - i \<noteq> i" "1 - i \<noteq> p" using i True by (auto simp: less_2_cases_iff)
      then have "?ms ! (1 - i) = ?ls ! (1 - i)" by (rule list_swap_nth(3) [OF il ip(2)])
      then have w: "wa_clause w = a" "wa_blit w = ?ls ! (1 - i)" "wa_size w = length ?ls" by (simp_all only: w_def Watch.select_convs length_list_update)
      have wi: "watch_inv (nt_max_var s) (nt_mem s) (nt_wtab s)" using wf by (simp add: nt_wf_def)
      have "2 \<le> p" using True by simp
      from rewatch [OF wi c ok(1) i this ip(2) _ _ w, of ?d] show ?thesis using True unfolding t by (simp add: wt_def)
    next
      case False
      then have "p = 1" "i = 0" using ip by auto
      then have "{?ms ! 0, ?ms ! 1} = {?ls ! 0, ?ls ! 1}" using list_swap_nth(1,2) [OF il ip(2)] by auto
      then show ?thesis
        using watch_inv_front [of "nt_max_var s" "nt_mem s" "nt_wtab s" a c ?d] wf c False ms mset_eq_setD [OF ms]
        unfolding t by (simp add: wt_def nt_wf_def)
    qed
    ultimately have "nt_wf F t" by (rule nt_wf_mem [OF wf core sl])
    moreover have "v \<in> set (nt_wtab t l) \<longleftrightarrow> v \<in> set (nt_wtab s l)" if "wa_clause v \<noteq> a" for l v
      using that by (auto simp: t wt_def w_def)
    then have "reordered a s t"
      unfolding reordered_def by (intro conjI allI impI) (simp add: t, rule exI [of _ c], rule exI [of _ ?d], use c ms in \<open>simp add: t\<close>, blast)
    moreover have "\<forall>j < length ?ms. i \<le> j \<longrightarrow> lit_level s (?ms ! j) \<le> lit_level s (?ms ! i)" "\<forall>j < i. ?ms ! j = ?ls ! j"
      using top ip il by (auto simp: nth_list_update)
    ultimately show ?thesis by (auto simp: t)
  qed
  then show "nt_wf F t" "reordered a s t"
    "\<exists>d. nt_mem t a = Some d \<and> (\<forall>j < length (so_literals d). i \<le> j \<longrightarrow> lit_level s (so_literals d ! j) \<le> lit_level s (so_literals d ! i))
       \<and> (\<forall>j < i. so_literals d ! j = so_literals c ! j)" by simp_all
qed


text \<open>The conflict level is the highest level in the conflict; a forced literal is alone on it.\<close>

lemma find_conflict_level_ok:
  assumes wf: "nt_wf F s" and fa: "falsified s a"
  obtains r f t c where "find_conflict_level a s = (r, f, t)" "nt_wf F t" "reordered a s t" "falsified t a" "nt_mem t a = Some c"
    "r \<le> nt_level s" "lit_level s (so_literals c ! 0) = r"
    "\<And>j. 1 \<le> j \<Longrightarrow> j < length (so_literals c) \<Longrightarrow> lit_level s (so_literals c ! j) \<le> lit_level s (so_literals c ! 1)"
    "f \<noteq> 0 \<Longrightarrow> f = so_literals c ! 0 \<and> 0 < r \<and> lit_level s (so_literals c ! 1) < r"
    "f = 0 \<Longrightarrow> lit_level s (so_literals c ! 1) = r"
proof -
  obtain c0 where c0: "nt_mem s a = Some c0" using fa by (auto simp: falsified_def)
  have lits: "nt_literals s a = so_literals c0" using c0 by (simp add: nt_literals_def nt_deref_def)
  have ok: "sclause_ok (nt_max_var s) c0" using wf c0 by (auto simp: nt_wf_def mem_inv_def)
  then have len: "2 \<le> length (so_literals c0)" "distinct (so_literals c0)" "0 \<notin> set (so_literals c0)"
    by (auto simp: sclause_ok_def lit_ok_def)
  have low: "\<forall>l \<in> set (so_literals c0). lit_level s l \<le> nt_level s" using falsified_sound_levels(1) [OF wf fa] lits by simp
  obtain r g m where cnt: "conflict_count s (so_literals c0) 0 0 0 = (r, g, m)" by (metis prod_cases3)
  note sp = conflict_count_spec [OF cnt low, simplified]
  define s1 where "s1 = move_to_watch a r 0 s"
  define t where "t = move_to_watch a r 1 s1"
  have lev0: "\<forall>l \<in> set (so_literals c0). lit_level s l \<le> r" using sp by blast
  from move_to_watch_ok [OF wf c0 _ lev0, of 0] obtain c1 where 1: "nt_wf F s1" "reordered a s s1" "nt_mem s1 a = Some c1"
    "\<forall>j < length (so_literals c1). lit_level s (so_literals c1 ! j) \<le> lit_level s (so_literals c1 ! 0)" by (auto simp: s1_def)
  have ms1: "mset (so_literals c1) = mset (so_literals c0)" using 1(2,3) c0 by (auto simp: reordered_def)
  have lv1: "lit_level s1 = lit_level s" by (rule same_core_cong(3) [OF reorderedD(1) [OF 1(2)]])
  have lev1: "\<forall>l \<in> set (so_literals c1). lit_level s1 l \<le> r" using lev0 mset_eq_setD [OF ms1] by (simp add: lv1)
  from move_to_watch_ok [OF 1(1,3) _ lev1, of 1] obtain c where 2: "nt_wf F t" "reordered a s1 t" "nt_mem t a = Some c"
    "\<forall>j < length (so_literals c). 1 \<le> j \<longrightarrow> lit_level s (so_literals c ! j) \<le> lit_level s (so_literals c ! 1)"
    "so_literals c ! 0 = so_literals c1 ! 0" by (auto simp: t_def lv1)
  have re: "reordered a s t" by (rule reordered_trans [OF 1(2) 2(2)])
  have ms: "mset (so_literals c) = mset (so_literals c0)" using re 2(3) c0 by (auto simp: reordered_def)
  have st: "set (so_literals c) = set (so_literals c0)" and ln: "length (so_literals c) = length (so_literals c0)"
    using mset_eq_setD [OF ms] mset_eq_length [OF ms] .
  let ?f = "if m \<noteq> 1 then 0 else g"
  have run: "find_conflict_level a s = (r, ?f, t)" by (simp add: find_conflict_level_def lits cnt s1_def t_def)
  have "nt_trail t = nt_trail s" by (rule same_core_cong(8) [OF reorderedD(1) [OF re]])
  then have "falsified t a" using fa 2(3) c0 st by (auto simp: falsified_def)
  have r: "r \<le> nt_level s" "\<exists>l \<in> set (so_literals c0). lit_level s l = r"
  proof -
    have "so_literals c0 ! 0 \<in> set (so_literals c0)" using len(1) by (intro nth_mem) linarith
    then show "\<exists>l \<in> set (so_literals c0). lit_level s l = r" using sp by (metis le_zero_eq)
    then show "r \<le> nt_level s" using low by blast
  qed
  have z: "so_literals c ! 0 \<in> set (so_literals c0)" "so_literals c ! 1 \<in> set (so_literals c0)"
  proof -
    have "0 < length (so_literals c)" "1 < length (so_literals c)" using len(1) ln by linarith+
    then show "so_literals c ! 0 \<in> set (so_literals c0)" "so_literals c ! 1 \<in> set (so_literals c0)" using st nth_mem by blast+
  qed
  have top: "lit_level s l \<le> lit_level s (so_literals c ! 0)" if "l \<in> set (so_literals c0)" for l
    using that 1(4) 2(5) mset_eq_setD [OF ms1] by (metis in_set_conv_nth)
  then have l0: "lit_level s (so_literals c ! 0) = r" using r(2) lev0 z(1) by (metis le_antisym)
  have ne: "so_literals c ! 0 \<noteq> so_literals c ! 1"
  proof -
    have "0 < length (so_literals c)" "1 < length (so_literals c)" "distinct (so_literals c)"
      using len(1,2) ln mset_eq_imp_distinct_iff [OF ms] by auto
    then show ?thesis using nth_eq_iff_index_eq [of "so_literals c" 0 1] by linarith
  qed
  have filt: "length (filter (\<lambda>l. lit_level s l = r) (so_literals c0)) = card {l \<in> set (so_literals c0). lit_level s l = r}"
    using len(2) by (metis distinct_card distinct_filter set_filter)
  have one: "?f = so_literals c ! 0 \<and> 0 < r \<and> lit_level s (so_literals c ! 1) < r" if "?f \<noteq> 0"
  proof -
    have m: "m = 1" "g \<noteq> 0" using that by (auto split: if_splits)
    then have rp: "0 < r" "g \<in> set (so_literals c0)" "lit_level s g = r" using sp by auto
    then have "card {l \<in> set (so_literals c0). lit_level s l = r} = 1" using sp m(1) filt by (auto simp: Let_def split: if_splits)
    then obtain x where x: "{l \<in> set (so_literals c0). lit_level s l = r} = {x}" by (auto simp: card_1_singleton_iff)
    then have "g = x" "so_literals c ! 0 = x" using rp z l0 by blast+
    moreover have "lit_level s (so_literals c ! 1) \<noteq> r"
    proof
      assume "lit_level s (so_literals c ! 1) = r"
      then have "so_literals c ! 1 \<in> {l \<in> set (so_literals c0). lit_level s l = r}" using z(2) by simp
      then have "so_literals c ! 1 = x" unfolding x by simp
      then show False using ne \<open>so_literals c ! 0 = x\<close> by simp
    qed
    ultimately show ?thesis using m rp lev0 z(2) by (simp add: le_neq_implies_less)
  qed
  have two: "lit_level s (so_literals c ! 1) = r" if f0: "?f = 0"
  proof (cases "r = 0")
    case True
    then show ?thesis using lev0 z(2) by auto
  next
    case False
    have "m \<noteq> 1"
    proof
      assume "m = 1"
      then have "g \<in> set (so_literals c0)" "g = 0" using f0 sp False by (auto split: if_splits)
      then show False using len(3) by simp
    qed
    then have "2 \<le> card {l \<in> set (so_literals c0). lit_level s l = r}" using sp False filt by (auto simp: Let_def split: if_splits)
    then have "\<not> {l \<in> set (so_literals c0). lit_level s l = r} \<subseteq> {so_literals c ! 0}"
      using card_mono [of "{so_literals c ! 0}" "{l \<in> set (so_literals c0). lit_level s l = r}"] by auto
    then obtain x where x: "x \<in> set (so_literals c0)" "lit_level s x = r" "x \<noteq> so_literals c ! 0" by blast
    then obtain j where j: "j < length (so_literals c)" "so_literals c ! j = x" using st by (metis in_set_conv_nth)
    then have "1 \<le> j" using x(3) by (cases j) auto
    then have "r \<le> lit_level s (so_literals c ! 1)" using 2(4) j x(2) by auto
    then show ?thesis using lev0 z(2) by (metis le_antisym)
  qed
  have sec: "lit_level s (so_literals c ! j) \<le> lit_level s (so_literals c ! 1)" if "1 \<le> j" "j < length (so_literals c)" for j
    using 2(4) that by metis
  show thesis by (rule that [OF run 2(1) re \<open>falsified t a\<close> 2(3) r(1) l0 sec one two])
qed

end
