(* ===== verification/Cdcl_Drive.thy ===== *)
theory Cdcl_Drive
  imports Cdcl_Learn
begin

text \<open>
  Backtracking and assigning with a driving clause: the level chosen lies between the jump level and
  the current one, the learned clause has its two literals of highest level watched, and assigning
  the only literal that is not false makes the state ready for propagation again.
\<close>

subsection \<open>The level\<close>

lemma reuse_levels_range: "res \<le> reuse_levels c p n res \<and> reuse_levels c p n res \<le> res + n"
proof (induction c p n res rule: reuse_levels.induct)
  case (2 c p n res)
  then show ?case by (cases "lv_trail (c ! (res + 1)) \<le> p") auto
qed simp

lemma nt_count_id: "nt_count (\<lambda>x. x) s = s"
  by (simp add: nt_count_def)

lemma reuse_best_level_range:
  assumes "jump < nt_level s"
  shows "jump \<le> reuse_best_level jump s \<and> reuse_best_level jump s < nt_level s"
proof -
  have "jump \<le> reuse_levels (nt_control s) p (nt_level s - 1 - jump) jump \<and> reuse_levels (nt_control s) p (nt_level s - 1 - jump) jump < nt_level s" for p
    using reuse_levels_range [of jump "nt_control s" p "nt_level s - 1 - jump"] assms by linarith
  then show ?thesis by (simp add: reuse_best_level_def Let_def split: prod.split)
qed

lemma determine_level_ok:
  assumes "jump < nt_level s"
  obtains n f where "determine_actual_backtrack_level jump s = (n, nt_count f s)" "jump \<le> n" "n < nt_level s"
    "co_chrono (nt_opts s) = 0 \<Longrightarrow> n = jump"
proof -
  have id: "nt_count (\<lambda>x. x) s = s" by (simp add: nt_count_def)
  have "\<exists>n f. determine_actual_backtrack_level jump s = (n, nt_count f s)
    \<and> (n = jump \<or> co_chrono (nt_opts s) \<noteq> 0 \<and> (n = nt_level s - 1 \<or> n = reuse_best_level jump s))"
    using id by (cases "reuse_best_level jump s = jump") (simp_all add: determine_actual_backtrack_level_def Let_def, metis+)
  then obtain n f where "determine_actual_backtrack_level jump s = (n, nt_count f s)"
    "n = jump \<or> co_chrono (nt_opts s) \<noteq> 0 \<and> (n = nt_level s - 1 \<or> n = reuse_best_level jump s)" by blast
  then show thesis using that reuse_best_level_range [OF assms] assms by fastforce
qed

subsection \<open>Sorting by level\<close>

lemma negative_rank:
  assumes "l < 2 ^ 32" "t < 2 ^ 32"
  shows "unat (not (or (push_bit 32 (word_of_nat l)) (word_of_nat t)) :: 64 word) = 2 ^ 64 - 1 - (l * 2 ^ 32 + t)"
proof -
  let ?a = "push_bit 32 (word_of_nat l) :: 64 word" and ?b = "word_of_nat t :: 64 word"
  have "\<not> bit ?a n \<or> \<not> bit ?b n" for n
  proof (cases "n < 32")
    case False
    then have "(2 :: nat) ^ 32 \<le> 2 ^ n" by (intro power_increasing) auto
    then have "t div 2 ^ n = 0" using assms(2) by simp
    then have "\<not> bit t n" by (simp add: bit_iff_odd)
    then show ?thesis by (simp add: bit_of_nat_iff_bit bit_simps)
  qed (simp add: bit_push_bit_iff)
  then have "or ?a ?b = ?a + ?b" by (simp add: disjunctive_add)
  also have "\<dots> = word_of_nat (l * 2 ^ 32 + t)" by (simp add: push_bit_eq_mult)
  finally have o: "or ?a ?b = word_of_nat (l * 2 ^ 32 + t)" .
  have "l * 2 ^ 32 + t < 2 ^ 64" using assms by simp
  then have u: "unat (or ?a ?b) = l * 2 ^ 32 + t" unfolding o unat_of_nat by simp
  have "not (or ?a ?b) = - 1 - or ?a ?b" by (simp add: not_eq_complement)
  also have "unat \<dots> = unat (- 1 :: 64 word) - unat (or ?a ?b)" by (rule unat_sub) simp
  finally show ?thesis using u by (simp add: unsigned_minus_1_eq_mask mask_eq_exp_minus_1)
qed

definition int_range :: "'v Internal \<Rightarrow> bool" where
  "int_range s \<longleftrightarrow> nt_level s < 2 ^ 31 \<and> nt_max_var s < 2 ^ 31"

lemma negative_rank_level:
  assumes wf: "nt_wf F s" and r: "int_range s" and k: "- k \<in> set (nt_trail s)" "- j \<in> set (nt_trail s)"
    and le: "analyze_trail_negative_rank s k \<le> analyze_trail_negative_rank s j"
  shows "lit_level s j \<le> lit_level s k"
proof -
  have b: "va_level (nt_var s x) < 2 ^ 32 \<and> va_trail (nt_var s x) < 2 ^ 32" if x: "- x \<in> set (nt_trail s)" for x
  proof -
    obtain p where p: "p < length (nt_trail s)" "nt_trail s ! p = - x" using x by (auto simp: in_set_conv_nth)
    then have "va_trail (nt_var s (- x)) = p" "lit_level s (- x) \<le> nt_level s"
      using wf by (auto simp: nt_wf_def nt_reasons_inv_def reason_ok_def Let_def)
    moreover have "length (nt_trail s) \<le> nt_max_var s" using trail_bound wf by (auto simp: nt_wf_def)
    ultimately show ?thesis using p(1) r by (simp add: int_range_def lit_level_def nt_var_def)
  qed
  have u: "unat (analyze_trail_negative_rank s x) = 2 ^ 64 - 1 - (va_level (nt_var s x) * 2 ^ 32 + va_trail (nt_var s x))"
    if "- x \<in> set (nt_trail s)" for x
    using negative_rank b [OF that] unfolding analyze_trail_negative_rank_def Let_def by blast
  have "va_level (nt_var s j) * 2 ^ 32 + va_trail (nt_var s j) \<le> va_level (nt_var s k) * 2 ^ 32 + va_trail (nt_var s k)"
  proof -
    have p: "(2 :: nat) ^ 32 = 4294967296" "(2 :: nat) ^ 64 = 18446744073709551616" by simp_all
    show ?thesis using le b [OF k(1)] b [OF k(2)] unfolding word_le_nat_alt u [OF k(1)] u [OF k(2)] p by linarith
  qed
  then have "va_level (nt_var s j) * 2 ^ 32 < (va_level (nt_var s k) + 1) * 2 ^ 32" using b [OF k(1)] by simp
  then show ?thesis by (simp add: lit_level_def)
qed


subsection \<open>Assigning the driving literal\<close>

lemma conflict_wf [simp]: "nt_wf F (s\<lparr>nt_conflict := c\<rparr>) = nt_wf F s"
proof -
  let ?t = "s\<lparr>nt_conflict := c\<rparr>"
  have a: "nt_vals ?t = nt_vals s" "nt_var ?t = nt_var s" by (simp_all add: nt_vals_def nt_var_def fun_eq_iff)
  have b: "lit_level ?t = lit_level s" "level_at ?t = level_at s" by (simp_all add: lit_level_def level_at_def a fun_eq_iff)
  have "reason_ok F ?t = reason_ok F s" unfolding reason_ok_def fun_eq_iff a b by (simp cong: reason.case_cong)
  then show ?thesis by (simp add: nt_wf_defs a)
qed

lemma conflict_done [simp]: "nt_done (s\<lparr>nt_conflict := c\<rparr>) = nt_done s" "sat_at (s\<lparr>nt_conflict := c\<rparr>) = sat_at s"
proof -
  show "sat_at (s\<lparr>nt_conflict := c\<rparr>) = sat_at s"
    by (simp add: sat_at_def nt_deref_def nt_literals_def lit_level_def level_at_def nt_var_def fun_eq_iff)
  then show "nt_done (s\<lparr>nt_conflict := c\<rparr>) = nt_done s" by (simp add: nt_done_def fun_eq_iff)
qed

lemma ready_no_conflict: "nt_ready F (s\<lparr>nt_conflict := None\<rparr>) \<longleftrightarrow>
    nt_wf F s \<and> nt_dc_inv s \<and> lv_trail (nt_control s ! nt_level s) \<le> nt_propagated s \<and> nt_done s (nt_propagated s)"
  by (simp add: nt_ready_def nt_dc_inv_def)

lemma level_at_mono: "level_at s p n \<Longrightarrow> m \<le> n \<Longrightarrow> level_at s p m"
  by (force simp: level_at_def)

lemma drive_ok:
  assumes wf: "nt_wf F s" and dc: "nt_dc_inv s" and high: "lv_trail (nt_control s ! nt_level s) \<le> nt_propagated s"
    and don: "nt_done_for (\<lambda>b. b \<noteq> a) s (nt_propagated s)" and asg: "assignable F l (Clause_reason a) s"
    and c: "nt_mem s a = Some c" "so_literals c ! 0 = l"
    and lev: "assigned_level l (Clause_reason a) s \<le> lit_level s (so_literals c ! 1)"
  shows "nt_ready F ((search_assign l (Clause_reason a) s)\<lparr>nt_conflict := None\<rparr>)"
proof -
  let ?t = "search_assign l (Clause_reason a) s"
  have inv: "nt_trail_inv s" "nt_reasons_inv F s" "watch_inv (nt_max_var s) (nt_mem s) (nt_wtab s)" using wf by (simp_all add: nt_wf_def)
  have l: "nt_val s l = 0" "lit_ok (nt_max_var s) l" using asg by (simp_all add: assignable_def)
  note f = search_assign_fields [of l "Clause_reason a" s]
  note fr = assign_frame [OF inv(1) l, where r = "Clause_reason a"]
  have "nt_done ?t (nt_propagated ?t)"
    unfolding nt_done_def
  proof (intro allI impI)
    fix k w p
    assume x: "lit_ok (nt_max_var ?t) k" "w \<in> set (nt_wtab ?t k)" "p < nt_propagated ?t" "p < length (nt_trail ?t)" "nt_trail ?t ! p = - k"
    have p: "p < length (nt_trail s)" using x(3) inv(1) by (simp add: f nt_trail_inv_def)
    then have tp: "nt_trail s ! p = - k" using x(5) by (simp add: f nth_append)
    show "sat_at ?t p (wa_clause w)"
    proof (cases "wa_clause w = a")
      case False
      then have "sat_at s p (wa_clause w)" using don x(1-3) p tp unfolding nt_done_for_def f by blast
      then show ?thesis by (rule sat_at_assign [OF inv(1) l])
    next
      case True
      have "watch_ok (nt_mem s) k w" using inv(3) x(1,2) by (auto simp: watch_inv_def watches_ok_def f)
      then have k: "k = l \<or> k = so_literals c ! 1" "l \<in> set (so_literals c)"
        using True c asg by (auto simp: watch_ok_def assignable_def)
      have "- k \<in> set (nt_trail s)" using p tp by (metis nth_mem)
      then have "k \<noteq> l" using trail_fresh(2) [OF inv(1) l] by auto
      then have k1: "k = so_literals c ! 1" using k(1) by simp
      have "reason_ok F s p" using inv(2) p by (simp add: nt_reasons_inv_def)
      then have "level_at s p (lit_level s k)" by (simp add: reason_ok_def Let_def tp)
      from level_at_mono [OF this] have "level_at ?t p (lit_level ?t l)" unfolding fr(2,3) using lev k1 by simp
      moreover have "l \<in> set (nt_literals ?t a)" using c(1) k(2) by (simp add: f nt_literals_def nt_deref_def)
      ultimately show ?thesis using True by (auto simp: sat_at_def f)
    qed
  qed
  moreover have "nt_wf F ?t" by (rule search_assign_wf [OF wf asg])
  moreover have "nt_dc_inv ?t" by (rule nt_dc_inv_assign [OF dc]) (use l(2) in \<open>simp add: lit_ok_def\<close>)
  ultimately show ?thesis using high unfolding ready_no_conflict f(5,8,9) by simp
qed

text \<open>Under chronological backtracking the level is the highest of the other literals.\<close>

lemma drive_level:
  assumes "nt_mem s a = Some c" "so_literals c ! 0 = l" "co_chrono (nt_opts s) \<noteq> 0 \<or> nt_level s = lit_level s (so_literals c ! 1)"
    "\<And>j. 1 \<le> j \<Longrightarrow> j < length (so_literals c) \<Longrightarrow> lit_level s (so_literals c ! j) \<le> lit_level s (so_literals c ! 1)"
  shows "assigned_level l (Clause_reason a) s \<le> lit_level s (so_literals c ! 1)"
proof (cases "co_chrono (nt_opts s) = 0")
  case True
  then show ?thesis using assms(3) by (simp add: assigned_level_def)
next
  case False
  have "lit_level s k \<le> lit_level s (so_literals c ! 1)" if k: "k \<in> set (so_literals c)" "k \<noteq> l" for k
  proof -
    obtain j where j: "j < length (so_literals c)" "so_literals c ! j = k" using k(1) unfolding in_set_conv_nth by blast
    then have "1 \<le> j" using k(2) assms(2) by (cases j) auto
    then show ?thesis using assms(4) j by blast
  qed
  then show ?thesis using False assms(1) assignment_level_le [of s a l] by (simp add: assigned_level_def nt_literals_def nt_deref_def)
qed


subsection \<open>Adding the driving clause\<close>

text \<open>The sort of the standard library: a sorted permutation.\<close>

definition sort_ok :: "((int \<Rightarrow> 64 word) \<Rightarrow> int list \<Rightarrow> int list) \<Rightarrow> bool" where
  "sort_ok std_sort \<longleftrightarrow> (\<forall>f xs. mset (std_sort f xs) = mset xs \<and> sorted (map f (std_sort f xs)))"

lemma msort_ok:
  assumes "sort_ok std_sort" "length stack = 256"
  shows "mset (msort lim (std_sort rank) rank 0 stack xs) = mset xs" "sorted (map rank (msort lim (std_sort rank) rank 0 stack xs))"
  using assms by (simp_all add: sort_ok_def msort_def rsort_ok)

definition addr_inv :: "'v Internal \<Rightarrow> bool" where
  "addr_inv s \<longleftrightarrow> (\<forall>a. nt_mem s a \<noteq> None \<longrightarrow> a < nt_next_addr s) \<and> set (nt_clauses s) \<subseteq> dom (nt_mem s)"

lemma watch_inv_new:
  assumes inv: "watch_inv n m wt" and a: "m a = None" and c: "sclause_ok n c"
    and w: "wa_clause w0 = a" "wa_blit w0 = so_literals c ! 1" "wa_size w0 = length (so_literals c)"
      "wa_clause w1 = a" "wa_blit w1 = so_literals c ! 0" "wa_size w1 = length (so_literals c)"
  defines "l0 \<equiv> so_literals c ! 0" and "l1 \<equiv> so_literals c ! 1"
  shows "watch_inv n (m(a \<mapsto> c)) (wt(l0 := wt l0 @ [w0], l1 := wt l1 @ [w1]))"
proof -
  let ?wt = "wt(l0 := wt l0 @ [w0], l1 := wt l1 @ [w1])"
  have ok: "distinct (so_literals c)" "2 \<le> length (so_literals c)" using c by (simp_all add: sclause_ok_def)
  then have ln: "0 < length (so_literals c)" "1 < length (so_literals c)" by linarith+
  have ne: "l0 \<noteq> l1" using nth_eq_iff_index_eq [OF ok(1) ln] by (simp add: l0_def l1_def)
  have mem: "l0 \<in> set (so_literals c)" "l1 \<in> set (so_literals c)" unfolding l0_def l1_def by (rule nth_mem [OF ln(1)], rule nth_mem [OF ln(2)])
  have fresh: "wa_clause v \<noteq> a" if "lit_ok n z" "v \<in> set (wt z)" for z v
    using watch_mem [OF inv that] a by auto
  have old: "watch_ok (m(a \<mapsto> c)) z v" if "lit_ok n z" "v \<in> set (wt z)" for z v
    using inv that fresh [OF that] by (auto simp: watch_inv_def watches_ok_def watch_ok_def)
  have new: "watch_ok (m(a \<mapsto> c)) l0 w0" "watch_ok (m(a \<mapsto> c)) l1 w1"
    using w mem ne by (simp_all add: watch_ok_def l0_def l1_def)
  have "watches_ok (m(a \<mapsto> c)) z (?wt z)" if z: "lit_ok n z" for z
  proof -
    have d: "distinct (map wa_clause (wt z))" using inv z by (auto simp: watch_inv_def watches_ok_def)
    have na: "a \<notin> wa_clause ` set (wt z)" using fresh [OF z] by (metis imageE)
    consider "z = l0" | "z = l1" "z \<noteq> l0" | "z \<noteq> l0" "z \<noteq> l1" by blast
    then show ?thesis
      by cases (use d na old [OF z] new w ne in \<open>auto simp: watches_ok_def\<close>)
  qed
  moreover have "watched ?wt (so_literals d ! 0) b \<and> watched ?wt (so_literals d ! 1) b" if d: "(m(a \<mapsto> c)) b = Some d" "\<not> so_garbage d" for b d
  proof (cases "b = a")
    case True
    then have "so_literals d ! 0 = l0" "so_literals d ! 1 = l1" using d(1) by (simp_all add: l0_def l1_def)
    then show ?thesis using True w(1,4) ne by (simp add: watched_def)
  next
    case False
    then have "watched wt (so_literals d ! 0) b" "watched wt (so_literals d ! 1) b" using inv d by (auto simp: watch_inv_def)
    moreover have "watched wt z b \<Longrightarrow> watched ?wt z b" for z by (auto simp: watched_def)
    ultimately show ?thesis by blast
  qed
  ultimately show ?thesis by (simp add: watch_inv_def)
qed

lemma nt_wf_extend:
  assumes "nt_wf F s" "same_core s t" "\<And>b c. nt_mem s b = Some c \<Longrightarrow> nt_mem t b = Some c"
    "mem_inv F (nt_max_var s) (nt_mem t)" "watch_inv (nt_max_var s) (nt_mem t) (nt_wtab t)"
  shows "nt_wf F t"
proof -
  note c = same_core_cong [OF assms(2)]
  have f: "nt_level t = nt_level s" "nt_control t = nt_control s" using assms(2) by (simp_all add: same_core_def)
  have "reason_ok F t p" if "reason_ok F s p" for p
    using that assms(3) unfolding reason_ok_def c f Let_def
    by (cases "va_reason (nt_var s (nt_trail s ! p))"; cases "lit_level s (nt_trail s ! p) = 0") auto
  then show ?thesis using assms(1,4,5) unfolding nt_wf_def nt_reasons_inv_def c by blast
qed

text \<open>What learning the clause \<open>c\<close> at address \<open>a\<close> changes, apart from counters and the proof.\<close>

definition learned :: "nat \<Rightarrow> SClause \<Rightarrow> 'v Internal \<Rightarrow> 'v Internal \<Rightarrow> bool" where
  "learned a c s t \<longleftrightarrow> same_core s t \<and> nt_mem s a = None \<and> nt_mem t = (nt_mem s)(a \<mapsto> c)
     \<and> nt_conflict t = nt_conflict s \<and> nt_opts t = nt_opts s \<and> nt_as t = nt_as s \<and> nt_phases t = nt_phases s \<and> nt_ftab t = nt_ftab s
     \<and> nt_clauses t = nt_clauses s @ [a] \<and> nt_next_addr t = a + 1 \<and> a = nt_next_addr s
     \<and> (\<exists>ls. nt_an t = (nt_an s)\<lparr>an_clause := ls\<rparr>) \<and> nt_unsat t = nt_unsat s
     \<and> nt_score_inc t = nt_score_inc s
     \<and> (\<forall>l w. wa_clause w \<noteq> a \<longrightarrow> (w \<in> set (nt_wtab t l) \<longleftrightarrow> w \<in> set (nt_wtab s l)))"

lemma new_driving_clause_ok:
  assumes wf: "nt_wf F s" and ad: "addr_inv s" and r: "int_range s" and so: "sort_ok std_sort" "length stack = 256"
    and cl: "\<forall>l \<in> set (an_clause (nt_an s)). - l \<in> set (nt_trail s)" "distinct (map vidx (an_clause (nt_an s)))"
      "entails F (an_clause (nt_an s))" "2 \<le> length (an_clause (nt_an s))"
  obtains a t c where "new_driving_clause std_sort stack glue s = (Some a, lit_level s (so_literals c ! 1), t)" "nt_wf F t"
    "learned a c s t" "mset (so_literals c) = mset (an_clause (nt_an s))" "so_redundant c" "\<not> so_garbage c"
    "\<And>i j. i \<le> j \<Longrightarrow> j < length (so_literals c) \<Longrightarrow> lit_level s (so_literals c ! j) \<le> lit_level s (so_literals c ! i)"
proof -
  let ?rank = "analyze_trail_negative_rank s"
  define ls where "ls = msort (co_radixsortlim (nt_opts s)) (std_sort ?rank) ?rank 0 stack (an_clause (nt_an s))"
  have ms: "mset ls = mset (an_clause (nt_an s))" and srt: "sorted (map ?rank ls)" using msort_ok [OF so] by (simp_all add: ls_def)
  have st: "set ls = set (an_clause (nt_an s))" and len: "length ls = length (an_clause (nt_an s))"
    using mset_eq_setD [OF ms] mset_eq_length [OF ms] .
  have lvl: "lit_level s (ls ! j) \<le> lit_level s (ls ! i)" if "i \<le> j" "j < length ls" for i j
  proof (rule negative_rank_level [OF wf r])
    show "- (ls ! i) \<in> set (nt_trail s)" "- (ls ! j) \<in> set (nt_trail s)" using that st cl(1) nth_mem by (metis order_le_less_trans)+
    show "?rank (ls ! i) \<le> ?rank (ls ! j)" using sorted_nth_mono [OF srt that(1)] that by simp
  qed
  define a where "a = nt_next_addr s"
  have fresh: "nt_mem s a = None" using ad by (auto simp: addr_inv_def a_def)
  let ?size = "length (an_clause (nt_an s))"
  let ?glue = "if glue > int ?size then int ?size else glue"
  define c where "c = \<lparr>so_id = pf_clause_id (nt_proof s) + 1, so_garbage = False, so_hyper = False,
    so_keep = (?glue \<le> co_reducetier1glue (nt_opts s)), so_redundant = True, so_used = 1 + (if glue \<le> co_reducetier2glue (nt_opts s) then 1 else 0),
    so_glue = ?glue, so_pos = 2, so_literals = ls\<rparr>"
  define w0 where "w0 = \<lparr>wa_clause = a, wa_blit = ls ! 1, wa_size = length ls\<rparr>"
  define w1 where "w1 = \<lparr>wa_clause = a, wa_blit = ls ! 0, wa_size = length ls\<rparr>"
  have sz: "an_clause (nt_an s) \<noteq> []" "length (an_clause (nt_an s)) \<noteq> 0" "length (an_clause (nt_an s)) \<noteq> 1" using cl(4) by auto
  obtain t where run: "new_driving_clause std_sort stack glue s = (Some a, lit_level s (ls ! 1), t)" and
    t: "same_core s t" "nt_mem t = (nt_mem s)(a \<mapsto> c)" "nt_conflict t = nt_conflict s" "nt_opts t = nt_opts s" "nt_as t = nt_as s"
      "nt_phases t = nt_phases s" "nt_ftab t = nt_ftab s" "nt_clauses t = nt_clauses s @ [a]" "nt_next_addr t = a + 1"
      "nt_an t = (nt_an s)\<lparr>an_clause := ls\<rparr>" "nt_unsat t = nt_unsat s" "nt_score_inc t = nt_score_inc s"
      "nt_wtab t = (nt_wtab s)(ls ! 0 := nt_wtab s (ls ! 0) @ [w0], ls ! 1 := ((nt_wtab s)(ls ! 0 := nt_wtab s (ls ! 0) @ [w0])) (ls ! 1) @ [w1])"
    using sz len
    by (simp add: new_driving_clause_def Let_def ls_def [symmetric] new_learned_redundant_clause_def new_clause_def nt_log_def nt_analysis_def
        nt_store_def nt_deref_def nt_literals_def watch_clause_def watch_literal_def same_core_def c_def w0_def w1_def a_def lit_level_def nt_var_def)
  have ti: "nt_trail_inv s" using wf by (simp add: nt_wf_def)
  have "lit_ok (nt_max_var s) l" if "l \<in> set ls" for l
    using cl(1) that st ti by (metis lit_ok_uminus nt_trail_inv_def)
  moreover have "distinct ls"
  proof -
    have "distinct (map vidx ls)" using cl(2) ms by (metis mset_eq_imp_distinct_iff mset_map)
    then show ?thesis by (simp add: distinct_map)
  qed
  ultimately have ok: "sclause_ok (nt_max_var s) c" using cl(4) len by (simp add: sclause_ok_def c_def)
  have ent: "entails F (so_literals c)" using cl(3) entails_cong_set [OF st] by (simp add: c_def)
  have nth: "so_literals c = ls" by (simp add: c_def)
  have "0 < length ls" "1 < length ls" "distinct ls" using len cl(4) ok by (linarith, linarith, simp add: sclause_ok_def nth)
  then have ne: "ls ! 0 \<noteq> ls ! 1" using nth_eq_iff_index_eq [of ls 0 1] by linarith
  have wi: "watch_inv (nt_max_var s) (nt_mem s) (nt_wtab s)" using wf by (simp add: nt_wf_def)
  have w: "wa_clause w0 = a" "wa_blit w0 = so_literals c ! 1" "wa_size w0 = length (so_literals c)"
      "wa_clause w1 = a" "wa_blit w1 = so_literals c ! 0" "wa_size w1 = length (so_literals c)" by (simp_all add: w0_def w1_def nth)
  have wt: "nt_wtab t = (nt_wtab s)(ls ! 0 := nt_wtab s (ls ! 0) @ [w0], ls ! 1 := nt_wtab s (ls ! 1) @ [w1])" using t(13) ne by simp
  have "nt_wf F t"
  proof (rule nt_wf_extend [OF wf t(1)])
    show "nt_mem s b = Some d \<Longrightarrow> nt_mem t b = Some d" for b d using fresh by (auto simp: t(2))
    show "mem_inv F (nt_max_var s) (nt_mem t)" using wf ok ent by (auto simp: t(2) mem_inv_def nt_wf_def)
    show "watch_inv (nt_max_var s) (nt_mem t) (nt_wtab t)" using watch_inv_new [OF wi fresh ok w] by (simp add: t(2) wt nth)
  qed
  moreover have "v \<in> set (nt_wtab t l) \<longleftrightarrow> v \<in> set (nt_wtab s l)" if "wa_clause v \<noteq> a" for l v
    using that w(1,4) unfolding wt by auto
  then have "learned a c s t"
    unfolding learned_def using t(1-12) fresh by (intro conjI) (simp_all add: a_def, blast)
  ultimately show ?thesis
    using run ms lvl by (intro that [of a c t]) (simp_all add: nth, simp_all add: c_def)
qed


subsection \<open>Eager subsumption\<close>

definition thinner :: "SClause \<Rightarrow> SClause \<Rightarrow> bool" where
  "thinner c d \<longleftrightarrow> d = c\<lparr>so_garbage := so_garbage d, so_used := so_used d\<rparr> \<and> (so_garbage c \<longrightarrow> so_garbage d)
     \<and> (so_garbage d \<longrightarrow> so_garbage c \<or> so_redundant c)"

definition thinned :: "'v Internal \<Rightarrow> 'v Internal \<Rightarrow> bool" where
  "thinned s t \<longleftrightarrow> t = s\<lparr>nt_mem := nt_mem t, nt_stats := nt_stats t\<rparr> \<and> (\<forall>b. rel_option thinner (nt_mem s b) (nt_mem t b))"

lemma thinner_refl [simp]: "thinner c c"
  by (simp add: thinner_def)

lemma thinnerD:
  assumes "thinner c d"
  shows "so_literals d = so_literals c" "so_pos d = so_pos c" "so_redundant d = so_redundant c" "so_garbage c \<Longrightarrow> so_garbage d"
    "so_garbage d \<Longrightarrow> \<not> so_redundant c \<Longrightarrow> so_garbage c"
proof -
  have d: "d = c\<lparr>so_garbage := so_garbage d, so_used := so_used d\<rparr>" using assms by (simp add: thinner_def)
  show "so_literals d = so_literals c" "so_pos d = so_pos c" "so_redundant d = so_redundant c" by (subst d, simp)+
qed (use assms in \<open>auto simp: thinner_def\<close>)

lemma thinner_trans:
  assumes "thinner c d" "thinner d e"
  shows "thinner c e"
proof -
  have D: "d = c\<lparr>so_garbage := so_garbage d, so_used := so_used d\<rparr>" using assms(1) by (simp add: thinner_def)
  have "e = d\<lparr>so_garbage := so_garbage e, so_used := so_used e\<rparr>" using assms(2) by (simp add: thinner_def)
  also have "\<dots> = c\<lparr>so_garbage := so_garbage e, so_used := so_used e\<rparr>"
    by (subst D) simp
  finally show ?thesis using assms thinnerD [OF assms(1)] by (auto simp: thinner_def)
qed

lemma thinned_refl [simp]: "thinned s s"
  by (simp add: thinned_def option.rel_refl)

lemma thinned_trans:
  assumes "thinned s t" "thinned t u"
  shows "thinned s u"
proof -
  have T: "t = s\<lparr>nt_mem := nt_mem t, nt_stats := nt_stats t\<rparr>" using assms(1) by (simp add: thinned_def)
  have "u = t\<lparr>nt_mem := nt_mem u, nt_stats := nt_stats u\<rparr>" using assms(2) by (simp add: thinned_def)
  also have "\<dots> = s\<lparr>nt_mem := nt_mem u, nt_stats := nt_stats u\<rparr>" by (subst T) simp
  finally have "u = s\<lparr>nt_mem := nt_mem u, nt_stats := nt_stats u\<rparr>" .
  moreover have "rel_option thinner (nt_mem s b) (nt_mem u b)" for b
  proof -
    have "rel_option thinner (nt_mem s b) (nt_mem t b)" "rel_option thinner (nt_mem t b) (nt_mem u b)" using assms by (simp_all add: thinned_def)
    then show ?thesis by (cases "nt_mem s b"; cases "nt_mem t b"; cases "nt_mem u b") (auto intro: thinner_trans)
  qed
  ultimately show ?thesis by (simp add: thinned_def)
qed

lemma thinnedD:
  assumes "thinned s t"
  shows "same_core s t" "nt_conflict t = nt_conflict s" "nt_wtab t = nt_wtab s" "nt_clauses t = nt_clauses s"
    "nt_mem s b = Some c \<Longrightarrow> \<exists>d. nt_mem t b = Some d \<and> thinner c d" "nt_mem t b = Some d \<Longrightarrow> \<exists>c. nt_mem s b = Some c \<and> thinner c d"
proof -
  have t: "t = s\<lparr>nt_mem := nt_mem t, nt_stats := nt_stats t\<rparr>" using assms by (simp add: thinned_def)
  show "same_core s t" "nt_conflict t = nt_conflict s" "nt_wtab t = nt_wtab s" "nt_clauses t = nt_clauses s"
    unfolding same_core_def by (subst t, simp)+
  have "rel_option thinner (nt_mem s b) (nt_mem t b)" using assms by (simp add: thinned_def)
  then show "nt_mem s b = Some c \<Longrightarrow> \<exists>d. nt_mem t b = Some d \<and> thinner c d" "nt_mem t b = Some d \<Longrightarrow> \<exists>c. nt_mem s b = Some c \<and> thinner c d"
    by (auto simp: option_rel_Some1 option_rel_Some2)
qed

lemma thinned_ready:
  assumes "thinned s t" "nt_ready F s" "nt_conflict s = None"
  shows "nt_ready F t"
proof -
  note d = thinnedD [OF assms(1)]
  note c = same_core_cong [OF d(1)]
  have f: "nt_level t = nt_level s" "nt_control t = nt_control s" "nt_propagated t = nt_propagated s" "nt_decide t = nt_decide s"
    using d(1) by (simp_all add: same_core_def)
  have rd: "nt_wf F s" "nt_dc_inv s" "lv_trail (nt_control s ! nt_level s) \<le> nt_propagated s" "nt_done s (nt_propagated s)"
    using assms(2,3) by (simp_all add: nt_ready_def)
  have lits: "nt_mem s a = Some e \<Longrightarrow> \<exists>g. nt_mem t a = Some g \<and> so_literals g = so_literals e" for a e
    using d(5) thinnerD(1) by blast
  have "reason_ok F t p" if "reason_ok F s p" for p
    using that lits unfolding reason_ok_def c f Let_def
    by (cases "va_reason (nt_var s (nt_trail s ! p))"; cases "lit_level s (nt_trail s ! p) = 0") (auto, metis)
  moreover have "mem_inv F (nt_max_var s) (nt_mem t)"
    unfolding mem_inv_def
  proof (intro allI impI)
    fix a e assume "nt_mem t a = Some e"
    from d(6) [OF this] obtain g where g: "nt_mem s a = Some g" "thinner g e" by blast
    then have "sclause_ok (nt_max_var s) g \<and> entails F (so_literals g)" using rd(1) by (simp add: nt_wf_def mem_inv_def)
    then show "sclause_ok (nt_max_var s) e \<and> entails F (so_literals e)" using thinnerD(1,2) [OF g(2)] by (simp add: sclause_ok_def)
  qed
  moreover have "watch_inv (nt_max_var s) (nt_mem t) (nt_wtab t)"
  proof -
    have wi: "watch_inv (nt_max_var s) (nt_mem s) (nt_wtab s)" using rd(1) by (simp add: nt_wf_def)
    have "watch_ok (nt_mem t) l w" if "watch_ok (nt_mem s) l w" for l w
    proof -
      from that obtain e where e: "nt_mem s (wa_clause w) = Some e" "wa_size w = length (so_literals e)" "l \<in> set (so_literals e)"
        "wa_blit w \<in> set (so_literals e)" "wa_blit w \<noteq> l" "l = so_literals e ! 0 \<or> l = so_literals e ! 1" by (auto simp: watch_ok_def)
      from lits [OF e(1)] obtain g where "nt_mem t (wa_clause w) = Some g" "so_literals g = so_literals e" by blast
      then show ?thesis using e(2-6) unfolding watch_ok_def by (intro exI [of _ g]) simp
    qed
    then have "watches_ok (nt_mem t) l (nt_wtab s l)" if "lit_ok (nt_max_var s) l" for l
      using wi that by (auto simp: watch_inv_def watches_ok_def)
    moreover have "watched (nt_wtab s) (so_literals e ! 0) a \<and> watched (nt_wtab s) (so_literals e ! 1) a"
      if e: "nt_mem t a = Some e" "\<not> so_garbage e" for a e
    proof -
      from d(6) [OF e(1)] obtain g where g: "nt_mem s a = Some g" "thinner g e" by blast
      then have "\<not> so_garbage g" using thinnerD(4) e(2) by blast
      then show ?thesis using wi g(1) thinnerD(1) [OF g(2)] by (simp add: watch_inv_def)
    qed
    ultimately show ?thesis by (simp add: watch_inv_def d(3))
  qed
  ultimately have wf: "nt_wf F t" using rd(1) unfolding nt_wf_def nt_reasons_inv_def c by blast
  have "nt_done t (nt_propagated t)"
    unfolding nt_done_def
  proof (intro allI impI)
    fix l w p
    assume x: "lit_ok (nt_max_var t) l" "w \<in> set (nt_wtab t l)" "p < nt_propagated t" "p < length (nt_trail t)" "nt_trail t ! p = - l"
    then have sa: "sat_at s p (wa_clause w)" using rd(4) unfolding nt_done_def c d(3) f by blast
    have "nt_mem s (wa_clause w) \<noteq> None" using watch_mem [of "nt_max_var s" "nt_mem s" "nt_wtab s" l w] rd(1) x(1,2) by (simp add: nt_wf_def c d(3))
    then obtain e where e: "nt_mem s (wa_clause w) = Some e" by blast
    obtain g where g: "nt_mem t (wa_clause w) = Some g" "thinner e g" using d(5) [OF e] by blast
    show "sat_at t p (wa_clause w)"
      using sa e g thinnerD [OF g(2)] by (auto simp: sat_at_def nt_deref_def nt_literals_def c)
  qed
  then show ?thesis using wf rd assms(3) d(2) by (simp add: nt_ready_def f nt_dc_inv_def c)
qed

lemma eager_loop_ok:
  assumes "set ds \<subseteq> dom (nt_mem s)"
  shows "thinned s (eager_loop c lim ds s)"
  using assms
proof (induction c lim ds s rule: eager_loop.induct)
  case (1 c lim s)
  then show ?case by simp
next
  case (2 c lim d ds s)
  let ?u = "nt_count (\<lambda>n. n\<lparr>cn_eagertried := cn_eagertried (nt_stats s) + 1\<rparr>) s"
  let ?g = "mark_garbage d (nt_count (\<lambda>n. n\<lparr>cn_eagersub := cn_eagersub n + 1, cn_subsumed := cn_subsumed n + 1\<rparr>) ?u)"
  have u: "thinned s ?u" by (simp add: thinned_def nt_count_def option.rel_refl)
  have du: "set ds \<subseteq> dom (nt_mem ?u)" using "2.prems" by (simp add: nt_count_def)
  obtain e where e: "nt_mem s d = Some e" using "2.prems" by auto
  have g: "thinned s ?g" if "so_redundant (nt_deref ?u d)"
    using e that by (auto simp: thinned_def mark_garbage_def nt_store_def nt_count_def nt_deref_def option.rel_refl thinner_def)
  have dg: "set ds \<subseteq> dom (nt_mem ?g)" using "2.prems" by (auto simp: mark_garbage_def nt_store_def nt_count_def)
  show ?case
    using "2.IH"(1) [OF refl refl _ _ du] "2.IH"(2) [OF refl refl _ _ _ du] "2.IH"(3) [OF refl refl _ _ _ _ du] "2.IH"(4) [OF refl refl _ _ _ _ _ du]
      "2.IH"(5) [OF refl refl _ _ _ _ _ dg] thinned_trans [OF u] thinned_trans [OF g] u
    by (simp add: Let_def)
qed

end
