(* ===== verification/Cdcl_Bump.thy ===== *)
theory Cdcl_Bump
  imports Cdcl_Drive
begin

text \<open>
  Bumping the variables met during conflict analysis (\<^verbatim>\<open>analyze.cpp\<close>): in the score heap or in the
  queue, whichever decides.  Scores are doubles in the code; here they are elements of an ordered
  field, so that rounding and the underflow of very small scores are left out.
\<close>

subsection \<open>The code\<close>

definition evsids_limit_hit :: "'v :: linordered_field \<Rightarrow> bool" where
  "evsids_limit_hit score \<longleftrightarrow> score > 10 ^ 150"

definition nt_score :: "'v Internal \<Rightarrow> nat \<Rightarrow> 'v" where
  "nt_score s idx = dc_stab (nt_decide s) idx"

definition nt_set_stab :: "(nat \<Rightarrow> 'v) \<Rightarrow> 'v Internal \<Rightarrow> 'v Internal" where
  "nt_set_stab f s = s\<lparr>nt_decide := (nt_decide s)\<lparr>dc_stab := f\<rparr>\<rparr>"

definition rescale_variable_scores :: "('v :: linordered_field) Internal \<Rightarrow> 'v Internal" where
  "rescale_variable_scores s =
     (let s = nt_count (\<lambda>n. n\<lparr>cn_rescored := cn_rescored n + 1\<rparr>) s;
          divider = fold (\<lambda>idx d. let tmp = nt_score s idx in if tmp > d then tmp else d) [1..<nt_max_var s + 1] (nt_score_inc s);
          factor = 1 / divider;
          s = nt_set_stab (\<lambda>idx. if 1 \<le> idx \<and> idx \<le> nt_max_var s then nt_score s idx * factor else nt_score s idx) s
      in s\<lparr>nt_score_inc := nt_score_inc s * factor\<rparr>)"

definition bump_variable_score :: "int \<Rightarrow> ('v :: linordered_field) Internal \<Rightarrow> 'v Internal option" where
  "bump_variable_score lit s =
     (let idx = vidx lit;
          s = (if evsids_limit_hit (nt_score s idx + nt_score_inc s) then rescale_variable_scores s else s);
          s = nt_set_stab ((dc_stab (nt_decide s))(idx := nt_score s idx + nt_score_inc s)) s;
          d = nt_decide s
      in if heap_contains (dc_scores d) idx
         then map_option (\<lambda>h. s\<lparr>nt_decide := d\<lparr>dc_scores := h\<rparr>\<rparr>) (heap_update (score_smaller (dc_stab d)) idx (dc_scores d))
         else Some s)"

definition bump_variable :: "int \<Rightarrow> ('v :: linordered_field) Internal \<Rightarrow> 'v Internal option" where
  "bump_variable lit s =
     (if use_scores s then bump_variable_score lit s
      else Some (s\<lparr>nt_decide := (nt_decide s)\<lparr>dc_queue := bump_queue (vidx lit) (dc_queue (nt_decide s))\<rparr>\<rparr>))"

definition bump_variable_score_inc :: "('v :: linordered_field) Internal \<Rightarrow> 'v Internal" where
  "bump_variable_score_inc s =
     (let f = 1000 / of_int (co_scorefactor (nt_opts s));
          s = (if evsids_limit_hit (nt_score_inc s * f) then rescale_variable_scores s else s)
      in s\<lparr>nt_score_inc := nt_score_inc s * f\<rparr>)"

text \<open>The reasons of the learned literals, up to a depth.\<close>

definition bump_also_reason_literal :: "int \<Rightarrow> 'v Internal \<Rightarrow> bool \<times> 'v Internal" where
  "bump_also_reason_literal lit s =
     (if fg_seen (nt_flags s lit) then (False, s)
      else if va_level (nt_var s lit) = 0 then (False, s)
      else (True, nt_analysis (\<lambda>n. n\<lparr>an_analyzed := an_analyzed n @ [lit]\<rparr>) (nt_set_flags lit (\<lambda>f. f\<lparr>fg_seen := True\<rparr>) s)))"

fun bump_also_reason_literals :: "nat \<Rightarrow> int \<Rightarrow> 'v Internal \<Rightarrow> 'v Internal" where
  "bump_also_reason_literals 0 lit s = s"
| "bump_also_reason_literals (Suc n) lit s =
     (if va_level (nt_var s lit) = 0 then s
      else
        (case va_reason (nt_var s lit) of
           Clause_reason a \<Rightarrow>
             fold (\<lambda>other s.
                 if other = lit then s
                 else
                   (let (new, s) = bump_also_reason_literal other s in
                    if \<not> new then s else if Suc n < 2 then s else bump_also_reason_literals n (- other) s))
               (nt_literals s a) s
         | _ \<Rightarrow> s))"

definition bump_also_all_reason_literals :: "'v Internal \<Rightarrow> 'v Internal" where
  "bump_also_all_reason_literals s =
     fold (\<lambda>lit s. bump_also_reason_literals (co_bumpreasondepth (nt_opts s) + (if nt_stable s then 1 else 0)) (- lit) s)
       (an_clause (nt_an s)) s"

fun bump_all :: "int list \<Rightarrow> ('v :: linordered_field) Internal \<Rightarrow> 'v Internal option" where
  "bump_all [] s = Some s"
| "bump_all (lit # is) s = Option.bind (bump_variable lit s) (bump_all is)"

definition analyze_bumped_rank :: "'v Internal \<Rightarrow> int \<Rightarrow> 64 word" where
  "analyze_bumped_rank s lit = word_of_int (vq_btab (dc_queue (nt_decide s)) (vidx lit))"

definition bump_variables ::
    "((int \<Rightarrow> 64 word) \<Rightarrow> int list \<Rightarrow> int list) \<Rightarrow> nat list \<Rightarrow> ('v :: linordered_field) Internal \<Rightarrow> 'v Internal option" where
  "bump_variables std_sort stack s =
     (let s = (if co_bumpreason (nt_opts s) then bump_also_all_reason_literals s else s);
          rank = analyze_bumped_rank s;
          s = (if \<not> use_scores s then
                 nt_analysis (\<lambda>n. n\<lparr>an_analyzed := msort (co_radixsortlim (nt_opts s)) (std_sort rank) rank 0 stack (an_analyzed n)\<rparr>) s
               else s)
      in map_option (\<lambda>s. if use_scores s then bump_variable_score_inc s else s) (bump_all (an_analyzed (nt_an s)) s))"


subsection \<open>The heuristics stay consistent\<close>

lemma heap_inv_cong:
  assumes "heap_inv lt h" "\<And>x y. x \<in> set (heap_array h) \<Longrightarrow> y \<in> set (heap_array h) \<Longrightarrow> lt' x y = lt x y"
  shows "heap_inv lt' h"
proof -
  have "\<not> lt' (heap_array h ! heap_parent j) (heap_array h ! j)" if "0 < j" "j < length (heap_array h)" for j
    using that assms heap_parent_less [of j] by (simp add: heap_inv_def heap_ordered_def)
  then show ?thesis using assms(1) by (simp add: heap_inv_def heap_ordered_def)
qed

text \<open>What bumping changes.\<close>

definition bumped :: "('v :: linordered_field) Internal \<Rightarrow> 'v Internal \<Rightarrow> bool" where
  "bumped s t \<longleftrightarrow> t = s\<lparr>nt_decide := nt_decide t, nt_score_inc := nt_score_inc t, nt_stats := nt_stats t\<rparr>
     \<and> nt_vals t = nt_vals s \<and> (nt_dc_inv s \<longrightarrow> 0 < nt_score_inc s \<longrightarrow> nt_dc_inv t \<and> 0 < nt_score_inc t)"

lemma bumped_refl [simp]: "bumped s s"
  by (simp add: bumped_def)

lemma bumped_trans:
  assumes "bumped s t" "bumped t u"
  shows "bumped s u"
proof -
  have T: "t = s\<lparr>nt_decide := nt_decide t, nt_score_inc := nt_score_inc t, nt_stats := nt_stats t\<rparr>" using assms(1) by (simp add: bumped_def)
  have "u = t\<lparr>nt_decide := nt_decide u, nt_score_inc := nt_score_inc u, nt_stats := nt_stats u\<rparr>" using assms(2) by (simp add: bumped_def)
  also have "\<dots> = s\<lparr>nt_decide := nt_decide u, nt_score_inc := nt_score_inc u, nt_stats := nt_stats u\<rparr>" by (subst T) simp
  finally have "u = s\<lparr>nt_decide := nt_decide u, nt_score_inc := nt_score_inc u, nt_stats := nt_stats u\<rparr>" .
  then show ?thesis using assms by (simp add: bumped_def)
qed

lemma bumped_fields:
  assumes "bumped s t"
  shows "nt_max_var t = nt_max_var s" "nt_an t = nt_an s" "nt_opts t = nt_opts s" "nt_stable t = nt_stable s" "nt_ftab t = nt_ftab s"
proof -
  have t: "t = s\<lparr>nt_decide := nt_decide t, nt_score_inc := nt_score_inc t, nt_stats := nt_stats t\<rparr>" using assms by (simp add: bumped_def)
  show "nt_max_var t = nt_max_var s" "nt_an t = nt_an s" "nt_opts t = nt_opts s" "nt_stable t = nt_stable s" "nt_ftab t = nt_ftab s"
    by (subst t, simp)+
qed

lemma dc_inv_stab:
  assumes "dc_inv d xs" "\<And>x y. x \<in> set xs \<Longrightarrow> y \<in> set xs \<Longrightarrow> score_smaller f x y = score_smaller (dc_stab d) x y"
  shows "dc_inv (d\<lparr>dc_stab := f\<rparr>) xs"
proof -
  have "heap_inv (score_smaller f) (dc_scores d)"
  proof (rule heap_inv_cong)
    show "heap_inv (score_smaller (dc_stab d)) (dc_scores d)" using assms(1) by (simp add: dc_inv_def)
    show "x \<in> set (heap_array (dc_scores d)) \<Longrightarrow> y \<in> set (heap_array (dc_scores d)) \<Longrightarrow> score_smaller f x y = score_smaller (dc_stab d) x y"
      for x y using assms unfolding dc_inv_def by blast
  qed
  then show ?thesis using assms(1) by (simp add: dc_inv_def)
qed

lemma fold_divider:
  "(m :: 'a :: linorder) \<le> fold (\<lambda>i d. if g i > d then g i else d) is m"
proof (induction "is" arbitrary: m)
  case (Cons i "is")
  have "m \<le> (if g i > m then g i else m)" by auto
  also have "\<dots> \<le> fold (\<lambda>i d. if g i > d then g i else d) is (if g i > m then g i else m)" by (rule Cons)
  finally show ?case by simp
qed simp

lemma rescale_bumped: "bumped s (rescale_variable_scores s)"
proof -
  let ?s = "nt_count (\<lambda>n. n\<lparr>cn_rescored := cn_rescored n + 1\<rparr>) s"
  define k where "k = fold (\<lambda>idx d. if nt_score ?s idx > d then nt_score ?s idx else d) [1..<nt_max_var ?s + 1] (nt_score_inc ?s)"
  have k: "nt_score_inc s \<le> k" unfolding k_def using fold_divider [of "nt_score_inc ?s" "nt_score ?s"] by (simp add: nt_count_def)
  let ?f = "\<lambda>idx. if 1 \<le> idx \<and> idx \<le> nt_max_var ?s then nt_score ?s idx * (1 / k) else nt_score ?s idx"
  have t: "rescale_variable_scores s = (nt_set_stab ?f ?s)\<lparr>nt_score_inc := nt_score_inc (nt_set_stab ?f ?s) * (1 / k)\<rparr>"
    by (simp only: rescale_variable_scores_def Let_def k_def)
  have "nt_dc_inv (rescale_variable_scores s) \<and> 0 < nt_score_inc (rescale_variable_scores s)" if dc: "nt_dc_inv s" and pos: "0 < nt_score_inc s"
  proof -
    obtain xs where xs: "dc_inv (nt_decide s) xs" "set xs = {1..nt_max_var s}" using dc by (auto simp: nt_dc_inv_def)
    have kp: "0 < k" using k pos by (rule order_less_le_trans [rotated])
    have "dc_inv ((nt_decide s)\<lparr>dc_stab := ?f\<rparr>) xs"
      by (rule dc_inv_stab [OF xs(1)])
        (use xs(2) kp in \<open>auto simp: score_smaller_def nt_score_def nt_count_def divide_less_cancel\<close>)
    then show ?thesis using xs(2) dc kp pos by (auto simp: t nt_dc_inv_def nt_set_stab_def nt_count_def)
  qed
  then show ?thesis by (simp add: bumped_def t nt_set_stab_def nt_count_def nt_vals_def)
qed


text \<open>A variable outside the heap has no place in its order.\<close>

lemma bump_score_bumped:
  assumes v: "vidx lit \<in> {1..nt_max_var s}" and dc: "nt_dc_inv s" and pos: "0 < nt_score_inc s"
  obtains t where "bump_variable_score lit s = Some t" "bumped s t"
proof -
  define u where "u = (if evsids_limit_hit (nt_score s (vidx lit) + nt_score_inc s) then rescale_variable_scores s else s)"
  have bu: "bumped s u" by (simp add: u_def rescale_bumped)
  then have ok: "nt_dc_inv u" "0 < nt_score_inc u" "nt_max_var u = nt_max_var s"
    using dc pos bu bumped_fields(1) [OF bu] by (simp_all add: bumped_def)
  obtain xs where xs: "dc_inv (nt_decide u) xs" "set xs = {1..nt_max_var u}" using ok(1) by (auto simp: nt_dc_inv_def)
  let ?d = "nt_decide u" and ?i = "vidx lit"
  let ?f = "(dc_stab ?d)(?i := nt_score u ?i + nt_score_inc u)"
  have hi: "heap_inv (score_smaller (dc_stab ?d)) (dc_scores ?d)" using xs(1) by (simp add: dc_inv_def)
  have "\<exists>h. (if heap_contains (dc_scores ?d) ?i then heap_update (score_smaller ?f) ?i (dc_scores ?d) else Some (dc_scores ?d)) = Some h
    \<and> heap_inv (score_smaller ?f) h \<and> set (heap_array h) = set (heap_array (dc_scores ?d))"
  proof (cases "heap_contains (dc_scores ?d) ?i")
    case True
    then have i: "?i \<in> set (heap_array (dc_scores ?d))" using heap_contains_iff hi by (auto simp: heap_inv_def)
    have "\<And>x. x \<noteq> ?i \<Longrightarrow> ?f x = dc_stab ?d x" by simp
    from heap_score_changed [OF hi i this] obtain h where h: "heap_update (score_smaller ?f) ?i (dc_scores ?d) = Some h"
      "heap_inv (score_smaller ?f) h" "mset (heap_array h) = mset (heap_array (dc_scores ?d))" by blast
    show ?thesis using True h(1,2) mset_eq_setD [OF h(3)] by (intro exI [of _ h]) simp
  next
    case False
    then have "?i \<notin> set (heap_array (dc_scores ?d))" using heap_contains_iff hi by (auto simp: heap_inv_def)
    then have "heap_inv (score_smaller ?f) (dc_scores ?d)"
      by (intro heap_inv_cong [OF hi]) (auto simp: score_smaller_def)
    then show ?thesis using False by simp
  qed
  then obtain h where h: "(if heap_contains (dc_scores ?d) ?i then heap_update (score_smaller ?f) ?i (dc_scores ?d) else Some (dc_scores ?d)) = Some h"
    "heap_inv (score_smaller ?f) h" "set (heap_array h) = set (heap_array (dc_scores ?d))" by blast
  let ?t = "u\<lparr>nt_decide := ?d\<lparr>dc_stab := ?f, dc_scores := h\<rparr>\<rparr>"
  have "bump_variable_score lit s = Some ?t"
  proof -
    have "bump_variable_score lit s = (let w = nt_set_stab ?f u; d = nt_decide w in
        if heap_contains (dc_scores d) ?i then map_option (\<lambda>h. w\<lparr>nt_decide := d\<lparr>dc_scores := h\<rparr>\<rparr>) (heap_update (score_smaller (dc_stab d)) ?i (dc_scores d))
        else Some w)"
      by (simp only: bump_variable_score_def Let_def u_def)
    then show ?thesis using h(1) by (cases "heap_contains (dc_scores ?d) ?i") (simp_all add: Let_def nt_set_stab_def)
  qed
  moreover have "dc_inv (?d\<lparr>dc_stab := ?f, dc_scores := h\<rparr>) xs" using xs(1) h(2,3) by (auto simp: dc_inv_def)
  then have "bumped u ?t" using xs(2) ok by (auto simp: bumped_def nt_vals_def nt_dc_inv_def)
  ultimately show ?thesis using that bumped_trans [OF bu] by blast
qed

lemma bump_variable_bumped:
  assumes v: "vidx lit \<in> {1..nt_max_var s}" and dc: "nt_dc_inv s" and pos: "0 < nt_score_inc s"
  obtains t where "bump_variable lit s = Some t" "bumped s t"
proof (cases "use_scores s")
  case True
  then show ?thesis using bump_score_bumped [OF assms] that by (auto simp: bump_variable_def)
next
  case False
  obtain xs where xs: "dc_inv (nt_decide s) xs" "set xs = {1..nt_max_var s}" using dc by (auto simp: nt_dc_inv_def)
  let ?d = "(nt_decide s)\<lparr>dc_queue := bump_queue (vidx lit) (dc_queue (nt_decide s))\<rparr>"
  have vals: "vq_vals (bump_queue i q) = vq_vals q" for i q by (simp add: bump_queue_def Let_def update_queue_unassigned_def)
  have i: "vidx lit \<in> set xs" using v xs(2) by simp
  have S: "set (remove1 (vidx lit) xs @ [vidx lit]) = set xs"
  proof (rule set_eqI)
    show "x \<in> set (remove1 (vidx lit) xs @ [vidx lit]) \<longleftrightarrow> x \<in> set xs" for x using i by (cases "x = vidx lit") simp_all
  qed
  have len: "length (remove1 (vidx lit) xs @ [vidx lit]) = length xs" using i by (simp add: length_remove1) (cases xs, auto)
  have "vq_inv (bump_queue (vidx lit) (dc_queue (nt_decide s))) (remove1 (vidx lit) xs @ [vidx lit])"
    by (rule bump_queue_ok) (use xs(1) i in \<open>simp_all add: dc_inv_def\<close>)
  then have "dc_inv ?d (remove1 (vidx lit) xs @ [vidx lit])" "set (remove1 (vidx lit) xs @ [vidx lit]) = {1..nt_max_var s}"
    using xs unfolding dc_inv_def len S by (simp_all add: vals)
  then show ?thesis using False dc pos
    by (intro that [of "s\<lparr>nt_decide := ?d\<rparr>"]) (auto simp: bump_variable_def bumped_def nt_vals_def vals nt_dc_inv_def)
qed

lemma bump_inc_bumped:
  assumes "0 < co_scorefactor (nt_opts s)"
  shows "bumped s (bump_variable_score_inc s)"
proof -
  let ?f = "1000 / of_int (co_scorefactor (nt_opts s)) :: 'a"
  define u where "u = (if evsids_limit_hit (nt_score_inc s * ?f) then rescale_variable_scores s else s)"
  have bu: "bumped s u" by (simp add: u_def rescale_bumped)
  have t: "bump_variable_score_inc s = u\<lparr>nt_score_inc := nt_score_inc u * ?f\<rparr>"
    by (simp only: bump_variable_score_inc_def Let_def u_def)
  have "0 < ?f" using assms by simp
  then have "bumped u (u\<lparr>nt_score_inc := nt_score_inc u * ?f\<rparr>)"
    by (auto simp: bumped_def nt_vals_def nt_dc_inv_def)
  then show ?thesis unfolding t by (rule bumped_trans [OF bu])
qed

lemma bump_all_bumped:
  assumes "\<forall>l \<in> set ls. vidx l \<in> {1..nt_max_var s}" "nt_dc_inv s" "0 < nt_score_inc s"
  obtains t where "bump_all ls s = Some t" "bumped s t"
  using assms
proof (induction ls arbitrary: s thesis)
  case Nil
  then show ?case by simp
next
  case (Cons l ls)
  have v: "vidx l \<in> {1..nt_max_var s}" using Cons.prems(2) by simp
  from bump_variable_bumped [OF v Cons.prems(3,4)] obtain u where u: "bump_variable l s = Some u" "bumped s u" .
  have inv: "nt_dc_inv u" "0 < nt_score_inc u" using u(2) Cons.prems(3,4) by (simp_all add: bumped_def)
  have "\<forall>k \<in> set ls. vidx k \<in> {1..nt_max_var u}" using Cons.prems(2) bumped_fields(1) [OF u(2)] by simp
  from Cons.IH [OF _ this inv] obtain t where t: "bump_all ls u = Some t" "bumped u t" by blast
  then show ?case using Cons.prems(1) u bumped_trans by (metis bump_all.simps(2) bind.bind_lunit)
qed


subsection \<open>States with the same assignment and clauses\<close>

definition core_frame :: "'v Internal \<Rightarrow> 'v Internal \<Rightarrow> bool" where
  "core_frame s t \<longleftrightarrow> nt_max_var t = nt_max_var s \<and> nt_level t = nt_level s \<and> nt_vals t = nt_vals s \<and> nt_vtab t = nt_vtab s
     \<and> nt_wtab t = nt_wtab s \<and> nt_mem t = nt_mem s \<and> nt_propagated t = nt_propagated s \<and> nt_trail t = nt_trail s
     \<and> nt_control t = nt_control s"

lemma core_frame_cong:
  assumes "core_frame s t"
  shows "nt_val t = nt_val s" "nt_var t = nt_var s" "nt_deref t = nt_deref s" "nt_literals t = nt_literals s"
    "lit_level t = lit_level s" "level_at t = level_at s" "nt_wf F t = nt_wf F s" "sat_at t = sat_at s"
    "nt_done t = nt_done s" "nt_done_for P t = nt_done_for P s"
proof -
  have f: "nt_max_var t = nt_max_var s" "nt_level t = nt_level s" "nt_vals t = nt_vals s" "nt_vtab t = nt_vtab s" "nt_wtab t = nt_wtab s"
    "nt_mem t = nt_mem s" "nt_propagated t = nt_propagated s" "nt_trail t = nt_trail s" "nt_control t = nt_control s"
    using assms by (simp_all add: core_frame_def)
  show a: "nt_val t = nt_val s" "nt_var t = nt_var s" "nt_deref t = nt_deref s"
    by (simp_all add: nt_val_def nt_var_def nt_deref_def f fun_eq_iff)
  show b: "nt_literals t = nt_literals s" "lit_level t = lit_level s" "level_at t = level_at s"
    by (simp_all add: nt_literals_def lit_level_def level_at_def a f fun_eq_iff)
  have c: "reason_ok F t = reason_ok F s" unfolding reason_ok_def fun_eq_iff a b f by simp
  show d: "sat_at t = sat_at s" unfolding sat_at_def fun_eq_iff a b f by simp
  show "nt_wf F t = nt_wf F s" unfolding nt_wf_defs a b c f by simp
  show "nt_done t = nt_done s" "nt_done_for P t = nt_done_for P s"
    unfolding nt_done_def nt_done_for_def fun_eq_iff d f by simp_all
qed

subsection \<open>Marks on more variables\<close>

definition seen_inv :: "'v Internal \<Rightarrow> bool" where
  "seen_inv s \<longleftrightarrow> (\<forall>v. fg_seen (nt_ftab s v) \<longrightarrow> v \<in> vidx ` (set (an_analyzed (nt_an s)) \<union> set (an_unit_analyzed (nt_an s))))"

definition more_marked :: "'v Internal \<Rightarrow> 'v Internal \<Rightarrow> bool" where
  "more_marked s t \<longleftrightarrow> (\<exists>new ft. t = s\<lparr>nt_ftab := ft, nt_an := (nt_an s)\<lparr>an_analyzed := an_analyzed (nt_an s) @ new\<rparr>\<rparr>
     \<and> (\<forall>l \<in> set new. lit_ok (nt_max_var s) l)
     \<and> (\<forall>v. \<exists>b. ft v = (nt_ftab s v)\<lparr>fg_seen := b\<rparr> \<and> (b \<longrightarrow> fg_seen (nt_ftab s v) \<or> v \<in> vidx ` set new)))"

lemma more_marked_refl [simp]: "more_marked s s"
proof -
  have "\<exists>b. f = f\<lparr>fg_seen := b\<rparr> \<and> (b \<longrightarrow> fg_seen f)" for f :: Flags
    by (rule exI [of _ "fg_seen f"]) simp
  then show ?thesis unfolding more_marked_def by (intro exI [of _ "[]"] exI [of _ "nt_ftab s"]) simp
qed

lemma more_marked_trans:
  assumes "more_marked s t" "more_marked t u"
  shows "more_marked s u"
proof -
  obtain a f where a: "t = s\<lparr>nt_ftab := f, nt_an := (nt_an s)\<lparr>an_analyzed := an_analyzed (nt_an s) @ a\<rparr>\<rparr>"
    "\<forall>l \<in> set a. lit_ok (nt_max_var s) l"
    "\<forall>v. \<exists>b. f v = (nt_ftab s v)\<lparr>fg_seen := b\<rparr> \<and> (b \<longrightarrow> fg_seen (nt_ftab s v) \<or> v \<in> vidx ` set a)"
    using assms(1) unfolding more_marked_def by blast
  obtain c g where c: "u = t\<lparr>nt_ftab := g, nt_an := (nt_an t)\<lparr>an_analyzed := an_analyzed (nt_an t) @ c\<rparr>\<rparr>"
    "\<forall>l \<in> set c. lit_ok (nt_max_var t) l"
    "\<forall>v. \<exists>b. g v = (nt_ftab t v)\<lparr>fg_seen := b\<rparr> \<and> (b \<longrightarrow> fg_seen (nt_ftab t v) \<or> v \<in> vidx ` set c)"
    using assms(2) unfolding more_marked_def by blast
  have "\<exists>b. g v = (nt_ftab s v)\<lparr>fg_seen := b\<rparr> \<and> (b \<longrightarrow> fg_seen (nt_ftab s v) \<or> v \<in> vidx ` set (a @ c))" for v
  proof -
    obtain b where b: "f v = (nt_ftab s v)\<lparr>fg_seen := b\<rparr>" "b \<longrightarrow> fg_seen (nt_ftab s v) \<or> v \<in> vidx ` set a" using a(3) by blast
    obtain b' where b': "g v = (f v)\<lparr>fg_seen := b'\<rparr>" "b' \<longrightarrow> fg_seen (f v) \<or> v \<in> vidx ` set c" using c(3) a(1) by auto
    show ?thesis by (rule exI [of _ b']) (use b b' in \<open>auto simp: image_Un\<close>)
  qed
  then show ?thesis unfolding more_marked_def
    by (intro exI [of _ "a @ c"] exI [of _ g]) (use a(1,2) c(1,2) in auto)
qed

lemma more_markedD:
  assumes "more_marked s t"
  shows "an_frame s t" "seen_inv s \<Longrightarrow> seen_inv t" "clean (nt_ftab t v) = clean (nt_ftab s v)" "an_clause (nt_an t) = an_clause (nt_an s)"
    "\<forall>l \<in> set (an_analyzed (nt_an s)). lit_ok (nt_max_var s) l \<Longrightarrow> \<forall>l \<in> set (an_analyzed (nt_an t)). lit_ok (nt_max_var t) l"
    "core_frame s t" "nt_decide t = nt_decide s"
    "t = s\<lparr>nt_ftab := nt_ftab t, nt_an := (nt_an s)\<lparr>an_analyzed := an_analyzed (nt_an t)\<rparr>\<rparr>"
proof -
  obtain a f where a: "t = s\<lparr>nt_ftab := f, nt_an := (nt_an s)\<lparr>an_analyzed := an_analyzed (nt_an s) @ a\<rparr>\<rparr>"
    "\<forall>l \<in> set a. lit_ok (nt_max_var s) l"
    "\<forall>v. \<exists>b. f v = (nt_ftab s v)\<lparr>fg_seen := b\<rparr> \<and> (b \<longrightarrow> fg_seen (nt_ftab s v) \<or> v \<in> vidx ` set a)"
    using assms(1) unfolding more_marked_def by blast
  show "an_frame s t" by (simp add: a(1) an_frame_def)
  have seen: "fg_seen (f v) \<longrightarrow> fg_seen (nt_ftab s v) \<or> v \<in> vidx ` set a" for v using a(3) [rule_format, of v] by auto
  show "seen_inv t" if "seen_inv s"
    using that seen unfolding seen_inv_def by (auto simp: a(1) image_Un)
  show "clean (nt_ftab t v) = clean (nt_ftab s v)" using a(3) [rule_format, of v] by (auto simp: a(1) clean_def)
  show "an_clause (nt_an t) = an_clause (nt_an s)" "nt_decide t = nt_decide s" by (simp_all add: a(1))
  show "\<forall>l \<in> set (an_analyzed (nt_an s)). lit_ok (nt_max_var s) l \<Longrightarrow> \<forall>l \<in> set (an_analyzed (nt_an t)). lit_ok (nt_max_var t) l"
    using a(2) by (auto simp: a(1))
  show "core_frame s t" by (simp add: a(1) core_frame_def nt_vals_def)
  show "t = s\<lparr>nt_ftab := nt_ftab t, nt_an := (nt_an s)\<lparr>an_analyzed := an_analyzed (nt_an t)\<rparr>\<rparr>" by (simp add: a(1))
qed

lemma fold_more_marked:
  assumes "\<And>x u. x \<in> set xs \<Longrightarrow> more_marked s u \<Longrightarrow> more_marked u (f x u)" "more_marked s u"
  shows "more_marked s (fold f xs u)"
  using assms
proof (induction xs arbitrary: u)
  case (Cons x xs)
  have "more_marked u (f x u)" using Cons.prems by simp
  then have "more_marked s (f x u)" using Cons.prems(2) more_marked_trans by blast
  then show ?case using Cons.IH [of "f x u"] Cons.prems(1) by simp
qed simp

text \<open>The reasons of false literals have only false literals besides.\<close>

lemma bump_also_marked:
  assumes "lit_ok (nt_max_var s) lit"
  shows "more_marked s (snd (bump_also_reason_literal lit s))"
proof -
  have id: "\<exists>b. f = f\<lparr>fg_seen := b\<rparr> \<and> (b \<longrightarrow> fg_seen f)" for f :: Flags
    by (rule exI [of _ "fg_seen f"]) simp
  have "more_marked s (nt_analysis (\<lambda>n. n\<lparr>an_analyzed := an_analyzed n @ [lit]\<rparr>) (nt_set_flags lit (\<lambda>f. f\<lparr>fg_seen := True\<rparr>) s))"
    unfolding more_marked_def
    by (rule exI [of _ "[lit]"], rule exI [of _ "(nt_ftab s)(vidx lit := (nt_ftab s (vidx lit))\<lparr>fg_seen := True\<rparr>)"])
      (use assms id in \<open>auto simp: nt_analysis_def nt_set_flags_def\<close>)
  then show ?thesis by (simp add: bump_also_reason_literal_def)
qed

lemma bump_reasons_marked:
  assumes "nt_wf F s" "lit \<in> set (nt_trail s)"
  shows "more_marked s (bump_also_reason_literals n lit s)"
  using assms
proof (induction n arbitrary: lit s)
  case 0
  then show ?case by simp
next
  case (Suc n)
  show ?case
  proof (cases "0 < lit_level s lit \<and> (\<exists>a. va_reason (nt_var s lit) = Clause_reason a)")
    case False
    then have "bump_also_reason_literals (Suc n) lit s = s" by (auto simp: lit_level_def split: reason.split)
    then show ?thesis by simp
  next
    case True
    then obtain a where a: "va_reason (nt_var s lit) = Clause_reason a" and pos: "0 < lit_level s lit" by blast
    from reason_others [OF Suc.prems pos a] obtain c where c: "nt_mem s a = Some c" "nt_literals s a = so_literals c"
      "\<And>j. j \<in> set (so_literals c) \<Longrightarrow> j \<noteq> lit \<Longrightarrow> - j \<in> set (nt_trail s)" by blast
    let ?f = "\<lambda>other s. if other = lit then s
                 else
                   (let (new, s) = bump_also_reason_literal other s in
                    if \<not> new then s else if Suc n < 2 then s else bump_also_reason_literals n (- other) s)"
    have run: "bump_also_reason_literals (Suc n) lit s = fold ?f (so_literals c) s"
      using pos by (simp add: a c(2) lit_level_def)
    have "more_marked s (fold ?f (so_literals c) s)"
    proof (rule fold_more_marked)
      fix x u assume x: "x \<in> set (so_literals c)" and u: "more_marked s u"
      show "more_marked u (?f x u)"
      proof (cases "x = lit")
        case False
        note d = more_markedD(1) [OF u]
        have ok: "lit_ok (nt_max_var u) x"
          using Suc.prems(1) c(1) x an_frame_fields(6) [OF d] by (auto simp: nt_wf_def mem_inv_def sclause_ok_def)
        obtain b w where bw: "bump_also_reason_literal x u = (b, w)" by fastforce
        then have uw: "more_marked u w" using bump_also_marked [OF ok] by simp
        have wf: "nt_wf F w" by (rule an_frame_wf [OF an_frame_trans [OF d more_markedD(1) [OF uw]] Suc.prems(1)])
        have "- x \<in> set (nt_trail w)"
          using c(3) [OF x False] an_frame_fields(1) [OF d] an_frame_fields(1) [OF more_markedD(1) [OF uw]] by simp
        from Suc.IH [OF wf this] uw show ?thesis using False bw by (auto intro: more_marked_trans)
      qed simp
    qed simp
    then show ?thesis unfolding run .
  qed
qed

lemma bump_all_reasons_marked:
  assumes "nt_wf F s" "\<forall>l \<in> set (an_clause (nt_an s)). - l \<in> set (nt_trail s)"
  shows "more_marked s (bump_also_all_reason_literals s)"
  unfolding bump_also_all_reason_literals_def
proof (rule fold_more_marked)
  fix x u assume x: "x \<in> set (an_clause (nt_an s))" and u: "more_marked s u"
  note d = more_markedD(1) [OF u]
  have "nt_wf F u" by (rule an_frame_wf [OF d assms(1)])
  moreover have "- x \<in> set (nt_trail u)" using assms(2) x an_frame_fields(1) [OF d] by simp
  ultimately show "more_marked u (bump_also_reason_literals (co_bumpreasondepth (nt_opts u) + (if nt_stable u then 1 else 0)) (- x) u)"
    by (rule bump_reasons_marked)
qed simp


subsection \<open>Bumping all variables\<close>

definition bump_frame :: "'v Internal \<Rightarrow> 'v Internal \<Rightarrow> bool" where
  "bump_frame s t \<longleftrightarrow> core_frame s t
     \<and> t = s\<lparr>nt_decide := nt_decide t, nt_score_inc := nt_score_inc t, nt_stats := nt_stats t, nt_ftab := nt_ftab t,
         nt_an := (nt_an s)\<lparr>an_analyzed := an_analyzed (nt_an t)\<rparr>\<rparr>
     \<and> (seen_inv s \<longrightarrow> seen_inv t) \<and> (\<forall>v. clean (nt_ftab t v) = clean (nt_ftab s v))"

lemma bumped_frame: "bumped s t \<Longrightarrow> bump_frame s t"
proof -
  assume b: "bumped s t"
  then have t: "t = s\<lparr>nt_decide := nt_decide t, nt_score_inc := nt_score_inc t, nt_stats := nt_stats t\<rparr>" and v: "nt_vals t = nt_vals s"
    by (simp_all add: bumped_def)
  note f = bumped_fields [OF b]
  have "core_frame s t" unfolding core_frame_def v by (intro conjI; (rule refl)?) (subst t, simp)+
  moreover have "t = s\<lparr>nt_decide := nt_decide t, nt_score_inc := nt_score_inc t, nt_stats := nt_stats t, nt_ftab := nt_ftab t,
         nt_an := (nt_an s)\<lparr>an_analyzed := an_analyzed (nt_an t)\<rparr>\<rparr>"
    unfolding f(2,5) by (subst t) simp
  ultimately show ?thesis by (simp only: bump_frame_def seen_inv_def f(2,5)) simp
qed

lemma bump_frame_refl [simp]: "bump_frame s s"
  by (simp add: bump_frame_def core_frame_def)

lemma bump_frame_trans:
  assumes "bump_frame s t" "bump_frame t u"
  shows "bump_frame s u"
proof -
  have T: "t = s\<lparr>nt_decide := nt_decide t, nt_score_inc := nt_score_inc t, nt_stats := nt_stats t, nt_ftab := nt_ftab t,
         nt_an := (nt_an s)\<lparr>an_analyzed := an_analyzed (nt_an t)\<rparr>\<rparr>" using assms(1) by (simp add: bump_frame_def)
  have "u = t\<lparr>nt_decide := nt_decide u, nt_score_inc := nt_score_inc u, nt_stats := nt_stats u, nt_ftab := nt_ftab u,
         nt_an := (nt_an t)\<lparr>an_analyzed := an_analyzed (nt_an u)\<rparr>\<rparr>" using assms(2) by (simp add: bump_frame_def)
  also have "\<dots> = s\<lparr>nt_decide := nt_decide u, nt_score_inc := nt_score_inc u, nt_stats := nt_stats u, nt_ftab := nt_ftab u,
         nt_an := (nt_an s)\<lparr>an_analyzed := an_analyzed (nt_an u)\<rparr>\<rparr>"
    by (subst (1 2) T) simp
  finally have "u = s\<lparr>nt_decide := nt_decide u, nt_score_inc := nt_score_inc u, nt_stats := nt_stats u, nt_ftab := nt_ftab u,
         nt_an := (nt_an s)\<lparr>an_analyzed := an_analyzed (nt_an u)\<rparr>\<rparr>" .
  then show ?thesis using assms unfolding bump_frame_def core_frame_def by (intro conjI) simp_all
qed

lemma more_marked_frame: "more_marked s t \<Longrightarrow> bump_frame s t"
proof -
  assume m: "more_marked s t"
  note d = more_markedD [OF m]
  have "t = s\<lparr>nt_decide := nt_decide t, nt_score_inc := nt_score_inc t, nt_stats := nt_stats t, nt_ftab := nt_ftab t,
         nt_an := (nt_an s)\<lparr>an_analyzed := an_analyzed (nt_an t)\<rparr>\<rparr>" by (subst (1 2 3 4) d(8)) simp
  then show ?thesis unfolding bump_frame_def using d(2,3,6) by blast
qed

lemma bump_variables_ok:
  assumes wf: "nt_wf F s" and dc: "nt_dc_inv s" and pos: "0 < nt_score_inc s" "0 < co_scorefactor (nt_opts s)"
    and so: "sort_ok std_sort" "length stack = 256"
    and cl: "\<forall>l \<in> set (an_clause (nt_an s)). - l \<in> set (nt_trail s)" "\<forall>l \<in> set (an_analyzed (nt_an s)). lit_ok (nt_max_var s) l"
  obtains t where "bump_variables std_sort stack s = Some t" "bump_frame s t" "nt_dc_inv t" "0 < nt_score_inc t"
proof -
  define u where "u = (if co_bumpreason (nt_opts s) then bump_also_all_reason_literals s else s)"
  have mu: "more_marked s u" using bump_all_reasons_marked [OF wf cl(1)] by (simp add: u_def)
  note d = more_markedD [OF mu]
  have fr: "bump_frame s u" by (rule more_marked_frame [OF mu])
  have optu: "nt_opts u = nt_opts s" "nt_max_var u = nt_max_var s" "nt_trail u = nt_trail s" "nt_score_inc u = nt_score_inc s"
    by (subst d(8), simp)+
  have dcu: "nt_dc_inv u" using dc by (simp add: nt_dc_inv_def optu d(7))
  have anu: "\<forall>l \<in> set (an_analyzed (nt_an u)). lit_ok (nt_max_var u) l" using d(5) cl(2) by blast
  let ?rank = "analyze_bumped_rank u"
  define w where "w = (if \<not> use_scores u then
      nt_analysis (\<lambda>n. n\<lparr>an_analyzed := msort (co_radixsortlim (nt_opts u)) (std_sort ?rank) ?rank 0 stack (an_analyzed n)\<rparr>) u else u)"
  have ms: "mset (an_analyzed (nt_an w)) = mset (an_analyzed (nt_an u))"
    using msort_ok(1) [OF so] by (simp add: w_def nt_analysis_def)
  note st = mset_eq_setD [OF ms]
  have w: "w = u\<lparr>nt_an := (nt_an u)\<lparr>an_analyzed := an_analyzed (nt_an w)\<rparr>\<rparr>" by (simp add: w_def nt_analysis_def)
  have fw: "nt_opts w = nt_opts u" "nt_max_var w = nt_max_var u" "nt_score_inc w = nt_score_inc u" "nt_decide w = nt_decide u"
    "nt_trail w = nt_trail u" "nt_ftab w = nt_ftab u" "an_unit_analyzed (nt_an w) = an_unit_analyzed (nt_an u)" "core_frame u w"
    "nt_stats w = nt_stats u"
    unfolding core_frame_def nt_vals_def by (subst w, simp)+
  have "seen_inv w = seen_inv u" by (simp add: seen_inv_def fw st)
  then have frw: "bump_frame u w"
    unfolding bump_frame_def using fw(8) w by (simp add: fw)
  have anw: "\<forall>l \<in> set (an_analyzed (nt_an w)). vidx l \<in> {1..nt_max_var w}"
    using anu unfolding st fw lit_ok_def by (auto simp: vidx_def)
  have "nt_dc_inv w" "0 < nt_score_inc w" using dcu pos(1) by (simp_all add: nt_dc_inv_def fw optu)
  from bump_all_bumped [OF anw this] obtain x where x: "bump_all (an_analyzed (nt_an w)) w = Some x" "bumped w x" .
  have inv: "nt_dc_inv x" "0 < nt_score_inc x" using x(2) \<open>nt_dc_inv w\<close> \<open>0 < nt_score_inc w\<close> by (simp_all add: bumped_def)
  define t where "t = (if use_scores x then bump_variable_score_inc x else x)"
  have "0 < co_scorefactor (nt_opts x)" using pos(2) bumped_fields(3) [OF x(2)] by (simp add: fw optu)
  then have bt: "bumped x t" using bump_inc_bumped [of x] by (simp add: t_def)
  have run: "bump_variables std_sort stack s = Some t"
    unfolding bump_variables_def Let_def u_def [symmetric] w_def [symmetric] x(1) by (simp add: t_def)
  have "bump_frame s t"
    by (rule bump_frame_trans [OF bump_frame_trans [OF fr frw] bump_frame_trans [OF bumped_frame [OF x(2)] bumped_frame [OF bt]]])
  moreover have "nt_dc_inv t" "0 < nt_score_inc t" using bt inv by (simp_all add: bumped_def)
  ultimately show thesis using that run by blast
qed

end
