(* ===== verification/Cdcl_Side.thy ===== *)
theory Cdcl_Side
  imports Cdcl_Bump
begin

text \<open>
  The parts of the search state beside the assignment and the clauses: saved phases, assumptions,
  the list of clauses, the vectors and marks of conflict analysis.  Assigning, propagating and
  backtracking leave them in order.
\<close>

subsection \<open>What assigning, propagating and backtracking change there\<close>

definition side_step :: "'v Internal \<Rightarrow> 'v Internal \<Rightarrow> bool" where
  "side_step s t \<longleftrightarrow> nt_as t = nt_as s \<and> nt_next_addr t = nt_next_addr s \<and> nt_clauses t = nt_clauses s \<and> nt_unsat t = nt_unsat s
     \<and> nt_score_inc t = nt_score_inc s \<and> nt_an t = nt_an s \<and> nt_opts t = nt_opts s \<and> nt_max_var t = nt_max_var s
     \<and> (ph_inv s \<longrightarrow> ph_inv t) \<and> (\<forall>v. \<exists>st. nt_ftab t v = (nt_ftab s v)\<lparr>fg_status := st\<rparr>)"

lemma flags_id: "\<exists>st. f = f\<lparr>fg_status := st\<rparr>" for f :: Flags
  by (rule exI [of _ "fg_status f"]) simp

lemma side_step_refl [simp]: "side_step s s"
  using flags_id by (simp add: side_step_def)

lemma side_step_trans [trans]:
  assumes "side_step s t" "side_step t u"
  shows "side_step s u"
proof -
  have "\<exists>st. nt_ftab u v = (nt_ftab s v)\<lparr>fg_status := st\<rparr>" for v
  proof -
    obtain x y where "nt_ftab t v = (nt_ftab s v)\<lparr>fg_status := x\<rparr>" "nt_ftab u v = (nt_ftab t v)\<lparr>fg_status := y\<rparr>"
      using assms unfolding side_step_def by metis
    then show ?thesis by (intro exI [of _ y]) simp
  qed
  then show ?thesis using assms by (simp add: side_step_def)
qed

lemma side_step_simps [simp]:
  "side_step s (nt_count f s)" "side_step s (nt_log g s)" "side_step s (nt_store a c s)" "side_step s (watch_literal l b a s)"
  "side_step s (s\<lparr>nt_conflict := x\<rparr>)" "side_step s (s\<lparr>nt_propagated := n\<rparr>)" "side_step s (s\<lparr>nt_wtab := w\<rparr>)" "side_step s (s\<lparr>nt_no_conflict_until := n\<rparr>)"
  "side_step s (remove_watch l a s)" "side_step s (s\<lparr>nt_iterating := bo\<rparr>)" "side_step s (s\<lparr>nt_decide := d\<rparr>)" "side_step s (new_trail_level l s)"
  using flags_id
  by (simp_all add: side_step_def nt_count_def nt_log_def nt_store_def watch_literal_def remove_watch_def new_trail_level_def ph_inv_def)

lemma sign_range: "sign l \<in> {- 1, 0, 1}"
  by (simp add: sign_def)

lemma side_step_learn_unit [simp]: "side_step s (learn_unit_clause l s)"
  using flags_id by (auto simp: side_step_def learn_unit_clause_def mark_fixed_def nt_count_def nt_set_flags_def nt_log_def ph_inv_def Let_def)

lemma side_step_chain [simp]: "side_step s (build_chain_for_units l a b s)"
  by (simp add: build_chain_for_units_def)

lemma side_step_assign [simp]: "side_step s (search_assign l r s)"
proof -
  have 1: "side_step u (nt_set_val i v u)" "side_step u (u\<lparr>nt_trail := x\<rparr>)" "side_step u (u\<lparr>nt_vtab := y, nt_decide := d\<rparr>)"
    "side_step u (u\<lparr>nt_phases := (nt_phases u)\<lparr>ph_saved := (ph_saved (nt_phases u))(i := sign l)\<rparr>\<rparr>)" for i v x y d and u :: "'a Internal"
    using flags_id sign_range [of l] by (auto simp: side_step_def nt_set_val_def ph_inv_def)
  let ?n = "case r of No_reason \<Rightarrow> 0 | Decision_reason \<Rightarrow> nt_level s | _ \<Rightarrow> if co_chrono (nt_opts s) \<noteq> 0 then assignment_level l r s else nt_level s"
  define a where "a = s\<lparr>nt_vtab := (nt_vtab s)(vidx l := \<lparr>va_level = ?n, va_trail = length (nt_trail s),
      va_reason = (if r = Decision_reason \<or> ?n = 0 then No_reason else r)\<rparr>),
      nt_decide := (nt_decide s)\<lparr>dc_num_assigned := dc_num_assigned (nt_decide s) + 1\<rparr>\<rparr>"
  define b where "b = nt_set_val (vidx l) (sign l) (if ?n = 0 \<and> r \<noteq> External_reason then learn_unit_clause l a else a)"
  define c where "c = (if nt_searching_lucky_phases b then b else b\<lparr>nt_phases := (nt_phases b)\<lparr>ph_saved := (ph_saved (nt_phases b))(vidx l := sign l)\<rparr>\<rparr>)"
  have t: "search_assign l r s = nt_log (\<lambda>p. p\<lparr>pf_lrat_chain := []\<rparr>) (c\<lparr>nt_trail := nt_trail c @ [l]\<rparr>)"
    by (simp only: search_assign_def Let_def a_def b_def c_def)
  have "side_step s a" unfolding a_def by (rule 1(3))
  moreover have "side_step a b" unfolding b_def by (rule side_step_trans [OF _ 1(1)]) simp
  moreover have "side_step b c" by (simp add: c_def 1(4))
  ultimately show ?thesis unfolding t using side_step_trans 1(2) side_step_simps(2) by meson
qed

lemmas side_step_up [intro] = side_step_trans [OF _ side_step_simps(1)] side_step_trans [OF _ side_step_simps(2)]
  side_step_trans [OF _ side_step_simps(3)] side_step_trans [OF _ side_step_simps(4)] side_step_trans [OF _ side_step_simps(5)]
  side_step_trans [OF _ side_step_simps(6)] side_step_trans [OF _ side_step_simps(7)] side_step_trans [OF _ side_step_simps(8)]
  side_step_trans [OF _ side_step_assign] side_step_trans [OF _ side_step_chain]

lemma propagate_long_side:
  assumes "\<And>js' s'. side_step s s' \<Longrightarrow> side_step s (snd (f js' s'))"
  shows "side_step s (snd (propagate_long l w is js s f))"
proof -
  have up: "side_step s (watch_literal r l a (nt_store b c (nt_store d e s)))" "side_step s (search_assign o' r' (build_chain_for_units o' a b' (nt_store d e s)))"
    "side_step s (watch_literal t o' a (nt_store b c (search_assign o' r' (build_chain_for_units o' a b' (nt_store d e s)))))"
    "side_step s ((nt_store d e s)\<lparr>nt_conflict := x\<rparr>)" "side_step s (nt_store d e s)"
    for r l a b c d e o' r' b' t x
    by (intro side_step_up side_step_refl)+
  show ?thesis
    unfolding propagate_long_def Let_def by (auto split: prod.split intro!: assms up)
qed

lemma propagate_lit_side: "side_step s (snd (propagate_lit l is js s))"
proof (induction "is" arbitrary: js s)
  case Nil
  then show ?case by simp
next
  case (Cons w "is")
  have 1: "side_step s (snd (propagate_lit l is js' (s\<lparr>nt_conflict := x\<rparr>)))" for js' x
    by (rule side_step_trans [OF _ Cons.IH]) simp
  have 2: "side_step s (snd (propagate_lit l is js' (search_assign y r (build_chain_for_units y a b s))))" for js' y r a b
    by (rule side_step_trans [OF _ Cons.IH]) (intro side_step_up side_step_refl)
  have 3: "side_step s (snd (propagate_long l w is js s (propagate_lit l is)))"
    by (rule propagate_long_side) (rule side_step_trans [OF _ Cons.IH])
  show ?case unfolding propagate_lit_Cons Let_def using Cons.IH 1 2 3 by simp
qed

lemma propagate_loop_side:
  assumes run: "propagate_loop s = Some t"
  shows "side_step s t"
proof (rule propagate_loop.raw_induct [where P = side_step, OF _ run], goal_cases)
  case (1 loop s t)
  show ?case
  proof (cases "nt_conflict s = None \<and> nt_propagated s \<noteq> length (nt_trail s)")
    case True
    let ?l = "- (nt_trail s ! nt_propagated s)" and ?s = "s\<lparr>nt_propagated := nt_propagated s + 1\<rparr>"
    obtain ws u where u: "propagate_lit ?l (nt_wtab ?s ?l) [] ?s = (ws, u)" by fastforce
    then have "side_step ?s u" using propagate_lit_side [of ?s ?l "nt_wtab ?s ?l" "[]"] by simp
    then have "side_step s u" by (rule side_step_trans [OF side_step_simps(6)])
    then have "side_step s (u\<lparr>nt_wtab := (nt_wtab u)(?l := ws)\<rparr>)" by blast
    moreover have "side_step (u\<lparr>nt_wtab := (nt_wtab u)(?l := ws)\<rparr>) t" using 1(2) True u by (intro 1(1)) (simp add: Let_def)
    ultimately show ?thesis by (rule side_step_trans)
  qed (use 1(2) in auto)
qed

lemma propagate_side:
  assumes "propagate s = Some (b, t)"
  shows "side_step s t"
proof -
  from assms obtain u where u: "propagate_loop s = Some u" "side_step u t"
    using flags_id by (auto simp: propagate_def Let_def side_step_def nt_count_def ph_inv_def)
  then show ?thesis using propagate_loop_side side_step_trans by blast
qed

lemma update_target_side [simp]: "side_step s (update_target_and_best s)"
proof -
  have r: "side_step u (u\<lparr>nt_target_assigned := n\<rparr>)" "side_step u (u\<lparr>nt_best_assigned := n\<rparr>)" "side_step u (u\<lparr>nt_rephased := x\<rparr>)"
    "side_step u (u\<lparr>nt_phases := (nt_phases u)\<lparr>ph_target := copy_phases u (ph_target (nt_phases u))\<rparr>, nt_target_assigned := n\<rparr>)"
    "side_step u (u\<lparr>nt_phases := (nt_phases u)\<lparr>ph_best := copy_phases u (ph_best (nt_phases u))\<rparr>, nt_best_assigned := n\<rparr>)"
    for n x and u :: "'a Internal"
    using flags_id by (auto simp: side_step_def ph_inv_def copy_phases_def)
  define reset where "reset = (nt_rephased s \<noteq> None \<and> cn_conflicts (nt_stats s) > nt_rephase_conflicts s)"
  define a where "a = (if reset then (let s = s\<lparr>nt_target_assigned := 0\<rparr>
      in if nt_rephased s = Some CHR ''B'' then s\<lparr>nt_best_assigned := 0\<rparr> else s) else s)"
  define b where "b = (if nt_no_conflict_until a > nt_target_assigned a then
      a\<lparr>nt_phases := (nt_phases a)\<lparr>ph_target := copy_phases a (ph_target (nt_phases a))\<rparr>, nt_target_assigned := nt_no_conflict_until a\<rparr> else a)"
  define c where "c = (if nt_no_conflict_until b > nt_best_assigned b then
      b\<lparr>nt_phases := (nt_phases b)\<lparr>ph_best := copy_phases b (ph_best (nt_phases b))\<rparr>, nt_best_assigned := nt_no_conflict_until b\<rparr> else b)"
  have t: "update_target_and_best s = (if reset then c\<lparr>nt_rephased := None\<rparr> else c)"
    by (simp only: update_target_and_best_def Let_def reset_def a_def b_def c_def)
  have "side_step s a" unfolding a_def Let_def using r(1) side_step_trans [OF r(1) r(2)] by simp
  moreover have "side_step a b" "side_step b c" by (simp_all add: b_def c_def r(4,5))
  moreover have "side_step c (update_target_and_best s)" by (simp add: t r(3))
  ultimately show ?thesis using side_step_trans by blast
qed

lemma backtrack_loop_side: "backtrack_loop n is js s = Some (ls, t) \<Longrightarrow> side_step s t"
proof (induction n "is" js s rule: backtrack_loop.induct)
  case (1 n js s)
  then show ?case by simp
next
  case (2 n lit "is" js s)
  have v: "side_step s (s\<lparr>nt_vtab := x\<rparr>)" for x using flags_id by (simp add: side_step_def ph_inv_def)
  show ?case
  proof (cases "va_level (nt_var s lit) > n")
    case True
    then obtain d where "unassign lit (nt_decide s) = Some d" "backtrack_loop n is js (s\<lparr>nt_decide := d\<rparr>) = Some (ls, t)"
      using "2.prems" by (auto simp: bind_eq_Some_conv)
    then show ?thesis using "2.IH"(1) [OF True] side_step_trans [OF side_step_simps(11)] by blast
  next
    case False
    then show ?thesis using "2.prems" "2.IH"(2) [OF False] side_step_trans [OF v] by auto
  qed
qed

lemma backtrack_side:
  assumes "backtrack n s = Some t"
  shows "side_step s t"
proof (cases "n = nt_level s")
  case True
  then show ?thesis using assms by (simp add: backtrack_def)
next
  case False
  let ?u = "update_target_and_best (nt_count (\<lambda>n. n\<lparr>cn_backtracks := cn_backtracks n + 1\<rparr>) s)"
  obtain js u where u: "backtrack_loop n (drop (lv_trail (nt_control ?u ! (n + 1))) (nt_trail ?u)) (take (lv_trail (nt_control ?u ! (n + 1))) (nt_trail ?u)) ?u = Some (js, u)"
    "side_step u t"
    using assms False flags_id by (auto simp: backtrack_def Let_def bind_eq_Some_conv side_step_def ph_inv_def)
  have "side_step s ?u" using side_step_trans [OF side_step_simps(1) update_target_side] .
  then show ?thesis using backtrack_loop_side [OF u(1)] u(2) side_step_trans by blast
qed


subsection \<open>What is kept of the clauses and of the units\<close>

text \<open>Irredundant clauses stay, and so do the literals fixed at level zero.\<close>

definition keeps :: "'v Internal \<Rightarrow> 'v Internal \<Rightarrow> bool" where
  "keeps s t \<longleftrightarrow>
     (\<forall>a c. nt_mem s a = Some c \<longrightarrow> \<not> so_garbage c \<longrightarrow> \<not> so_redundant c \<longrightarrow>
        (\<exists>d. nt_mem t a = Some d \<and> \<not> so_garbage d \<and> \<not> so_redundant d \<and> set (so_literals d) = set (so_literals c)))
     \<and> (\<forall>l \<in> set (nt_trail s). lit_level s l = 0 \<longrightarrow> l \<in> set (nt_trail t) \<and> lit_level t l = 0)"

definition covers :: "clause set \<Rightarrow> 'v Internal \<Rightarrow> bool" where
  "covers F s \<longleftrightarrow> (\<forall>C \<in> F.
     (\<exists>a c. nt_mem s a = Some c \<and> \<not> so_garbage c \<and> \<not> so_redundant c \<and> set (so_literals c) \<subseteq> set C)
     \<or> (\<exists>l \<in> set C. l \<in> set (nt_trail s) \<and> lit_level s l = 0))"

lemma keeps_refl [simp]: "keeps s s"
  by (auto simp: keeps_def)

lemma keeps_trans [trans]:
  assumes "keeps s t" "keeps t u"
  shows "keeps s u"
  unfolding keeps_def
proof (intro conjI allI impI ballI)
  fix a c assume c: "nt_mem s a = Some c" "\<not> so_garbage c" "\<not> so_redundant c"
  then obtain d where d: "nt_mem t a = Some d" "\<not> so_garbage d" "\<not> so_redundant d" "set (so_literals d) = set (so_literals c)"
    using assms(1) unfolding keeps_def by blast
  obtain e where "nt_mem u a = Some e" "\<not> so_garbage e" "\<not> so_redundant e" "set (so_literals e) = set (so_literals d)"
    using assms(2) d(1-3) unfolding keeps_def by blast
  then show "\<exists>d. nt_mem u a = Some d \<and> \<not> so_garbage d \<and> \<not> so_redundant d \<and> set (so_literals d) = set (so_literals c)"
    using d(4) by (intro exI [of _ e]) simp
qed (use assms in \<open>simp_all add: keeps_def\<close>)

lemma covers_keeps:
  assumes "covers F s" "keeps s t"
  shows "covers F t"
  unfolding covers_def
proof
  fix C assume "C \<in> F"
  then consider a c where "nt_mem s a = Some c" "\<not> so_garbage c" "\<not> so_redundant c" "set (so_literals c) \<subseteq> set C"
    | l where "l \<in> set C" "l \<in> set (nt_trail s)" "lit_level s l = 0" using assms(1) unfolding covers_def by blast
  then show "(\<exists>a c. nt_mem t a = Some c \<and> \<not> so_garbage c \<and> \<not> so_redundant c \<and> set (so_literals c) \<subseteq> set C)
     \<or> (\<exists>l \<in> set C. l \<in> set (nt_trail t) \<and> lit_level t l = 0)"
  proof cases
    case 1
    then show ?thesis using assms(2) unfolding keeps_def by (metis (no_types, lifting))
  next
    case 2
    then show ?thesis using assms(2) unfolding keeps_def by blast
  qed
qed

lemma keeps_fields:
  assumes "nt_mem t = nt_mem s" "nt_trail t = nt_trail s" "nt_vtab t = nt_vtab s"
  shows "keeps s t"
  using assms by (auto simp: keeps_def lit_level_def nt_var_def)

lemma same_lits_keeps:
  assumes "same_lits (nt_mem s) (nt_mem t)" "set (nt_trail s) \<subseteq> set (nt_trail t)" "\<And>k. k \<in> set (nt_trail s) \<Longrightarrow> lit_level t k = lit_level s k"
  shows "keeps s t"
  unfolding keeps_def
proof (intro conjI allI impI ballI)
  fix a c assume c: "nt_mem s a = Some c" "\<not> so_garbage c" "\<not> so_redundant c"
  have "rel_option same_sclause (nt_mem s a) (nt_mem t a)" using assms(1) by (simp add: same_lits_def)
  then obtain d where d: "nt_mem t a = Some d" "same_sclause c d" unfolding c(1) by (auto simp: option_rel_Some1)
  then show "\<exists>d. nt_mem t a = Some d \<and> \<not> so_garbage d \<and> \<not> so_redundant d \<and> set (so_literals d) = set (so_literals c)"
    using c mset_eq_setD [of "so_literals c" "so_literals d"] by (auto simp: same_sclause_def)
qed (use assms(2,3) in auto)

lemma grown_keeps: "nt_grown s t \<Longrightarrow> keeps s t"
  by (rule same_lits_keeps) (auto simp: nt_grown_def lit_level_def)

lemma assign_keeps:
  assumes "nt_trail_inv s" "nt_val s l = 0" "lit_ok (nt_max_var s) l"
  shows "keeps s (search_assign l r s)"
  by (rule same_lits_keeps) (use assign_frame(1) [OF assms, where r = r] in \<open>auto simp: search_assign_fields\<close>)

lemma an_frame_keeps:
  assumes "an_frame s t"
  shows "keeps s t"
proof -
  have "\<exists>d. nt_mem t a = Some d \<and> \<not> so_garbage d \<and> \<not> so_redundant d \<and> set (so_literals d) = set (so_literals c)"
    if "nt_mem s a = Some c" "\<not> so_garbage c" "\<not> so_redundant c" for a c
    using an_frame_mem [OF assms that(1)] that by auto
  then show ?thesis using an_frame_fields(1) [OF assms] an_frame_cong(2) [OF assms] by (simp add: keeps_def)
qed

lemma thinned_keeps:
  assumes "thinned s t"
  shows "keeps s t"
proof -
  note d = thinnedD [OF assms]
  have "\<exists>d. nt_mem t a = Some d \<and> \<not> so_garbage d \<and> \<not> so_redundant d \<and> set (so_literals d) = set (so_literals c)"
    if "nt_mem s a = Some c" "\<not> so_garbage c" "\<not> so_redundant c" for a c
    using d(5) [OF that(1)] that(2,3) thinnerD by fastforce
  then show ?thesis using same_core_cong(3,8) [OF d(1)] by (simp add: keeps_def)
qed

lemma learned_keeps: "learned a c s t \<Longrightarrow> keeps s t"
proof -
  assume l: "learned a c s t"
  then have "same_core s t" "nt_mem s a = None" "nt_mem t = (nt_mem s)(a \<mapsto> c)" unfolding learned_def by blast+
  then show ?thesis using same_core_cong(3,8) [of s t] by (auto simp: keeps_def)
qed

lemma kept_keeps:
  assumes "nt_mem t = nt_mem s" "nt_trail t = kept_at n s (nt_trail s)" "\<And>l. lit_level t l = lit_level s l"
  shows "keeps s t"
  using assms by (auto simp: keeps_def kept_at_def)

subsection \<open>The decisions of the levels\<close>

definition holds_below :: "'v Internal \<Rightarrow> nat \<Rightarrow> int \<Rightarrow> bool" where
  "holds_below s k l \<longleftrightarrow> l \<in> set (nt_trail s) \<and> lit_level s l < k"

text \<open>
  What decision \<open>d\<close> the level \<open>k\<close> may have: first come the assumptions, then a literal of the
  constraint, where a decision 0 says that one holds already.
\<close>

definition decision_ok :: "'v Internal \<Rightarrow> nat \<Rightarrow> int \<Rightarrow> bool" where
  "decision_ok s k d \<longleftrightarrow>
     (let as = as_assumptions (nt_as s); cs = as_constraint (nt_as s) in
      if k \<le> length as then d = as ! (k - 1) \<or> d = 0 \<and> holds_below s k (as ! (k - 1))
      else if k = length as + 1 \<and> cs \<noteq> [] then d \<in> set cs \<or> d = 0 \<and> (\<exists>l \<in> set cs. holds_below s k l)
      else d \<noteq> 0)"

definition dec_at :: "'v Internal \<Rightarrow> nat \<Rightarrow> bool" where
  "dec_at s k \<longleftrightarrow>
     (let d = lv_decision (nt_control s ! k); p = lv_trail (nt_control s ! k) in
      (d \<noteq> 0 \<longrightarrow> p < length (nt_trail s) \<and> nt_trail s ! p = d \<and> (\<forall>j. k < j \<longrightarrow> j \<le> nt_level s \<longrightarrow> p < lv_trail (nt_control s ! j)))
      \<and> decision_ok s k d)"

definition dec_inv :: "'v Internal \<Rightarrow> bool" where
  "dec_inv s \<longleftrightarrow> (\<forall>k. 1 \<le> k \<longrightarrow> k \<le> nt_level s \<longrightarrow> dec_at s k)"

definition same_as :: "'v Internal \<Rightarrow> 'v Internal \<Rightarrow> bool" where
  "same_as s t \<longleftrightarrow> as_assumptions (nt_as t) = as_assumptions (nt_as s) \<and> set (as_constraint (nt_as t)) = set (as_constraint (nt_as s))"

lemma decision_ok_keep:
  assumes "same_as s t" "decision_ok s k d" "\<And>l. holds_below s k l \<Longrightarrow> holds_below t k l"
  shows "decision_ok t k d"
proof -
  have c: "set (as_constraint (nt_as t)) = set (as_constraint (nt_as s))" "as_assumptions (nt_as t) = as_assumptions (nt_as s)"
    using assms(1) by (simp_all add: same_as_def)
  then have "as_constraint (nt_as t) \<noteq> [] \<longleftrightarrow> as_constraint (nt_as s) \<noteq> []" by (metis set_empty)
  then show ?thesis using assms(2,3) unfolding decision_ok_def Let_def c by (auto split: if_splits)
qed

lemma dec_inv_ext:
  assumes inv: "dec_inv s" and as: "same_as s t" and lv: "nt_level t = nt_level s"
    and ctl: "\<And>k. 1 \<le> k \<Longrightarrow> k \<le> nt_level s \<Longrightarrow>
      lv_decision (nt_control t ! k) = lv_decision (nt_control s ! k) \<and> lv_trail (nt_control t ! k) = lv_trail (nt_control s ! k)"
    and tr: "nt_trail t = nt_trail s @ e" "\<And>l. l \<in> set (nt_trail s) \<Longrightarrow> lit_level t l = lit_level s l"
  shows "dec_inv t"
  unfolding dec_inv_def
proof (intro allI impI)
  fix k assume k: "1 \<le> k" "k \<le> nt_level t"
  then have k': "k \<le> nt_level s" by (simp add: lv)
  have at: "dec_at s k" using inv k k' by (simp add: dec_inv_def)
  then have d: "decision_ok s k (lv_decision (nt_control s ! k))" by (simp add: dec_at_def Let_def)
  have "decision_ok t k (lv_decision (nt_control s ! k))"
    by (rule decision_ok_keep [OF as d]) (use tr in \<open>auto simp: holds_below_def\<close>)
  then show "dec_at t k"
    using at ctl k k' tr(1) unfolding dec_at_def Let_def lv by (auto simp: nth_append)
qed

lemma dec_inv_push:
  assumes inv: "dec_inv s" and as: "same_as s t" and lv: "nt_level t = nt_level s + 1" and len: "length (nt_control s) = nt_level s + 1"
    and ctl: "nt_control t = nt_control s @ [new_level d (length (nt_trail s))]"
    and tr: "nt_trail t = nt_trail s @ (if d = 0 then [] else [d])" "\<And>l. l \<in> set (nt_trail s) \<Longrightarrow> lit_level t l = lit_level s l"
    and dec: "decision_ok s (nt_level s + 1) d"
  shows "dec_inv t"
  unfolding dec_inv_def
proof (intro allI impI)
  fix k assume k: "1 \<le> k" "k \<le> nt_level t"
  show "dec_at t k"
  proof (cases "k = nt_level t")
    case True
    have "nt_control t ! k = new_level d (length (nt_trail s))" using len by (simp add: ctl True lv nth_append)
    moreover have "decision_ok t k d" unfolding True lv
      by (rule decision_ok_keep [OF as dec]) (use tr in \<open>auto simp: holds_below_def\<close>)
    ultimately show ?thesis using True by (simp add: dec_at_def Let_def new_level_def tr(1))
  next
    case False
    then have k': "k \<le> nt_level s" using k lv by simp
    have at: "dec_at s k" using inv k k' by (simp add: dec_inv_def)
    have c: "nt_control t ! j = nt_control s ! j" if "j \<le> nt_level s" for j using len that by (simp add: ctl nth_append)
    have top: "lv_trail (nt_control t ! nt_level t) = length (nt_trail s)" using len by (simp add: ctl lv nth_append new_level_def)
    have "decision_ok t k (lv_decision (nt_control s ! k))"
      by (rule decision_ok_keep [OF as]) (use at tr in \<open>auto simp: holds_below_def dec_at_def Let_def\<close>)
    moreover have "lv_trail (nt_control s ! k) < lv_trail (nt_control t ! j)"
      if j: "k < j" "j \<le> nt_level t" and nz: "lv_decision (nt_control s ! k) \<noteq> 0" for j
    proof (cases "j = nt_level t")
      case True
      then show ?thesis using at nz top by (simp add: dec_at_def Let_def)
    next
      case False
      then have "j \<le> nt_level s" using j lv by simp
      then show ?thesis using at nz j c [of j] by (simp add: dec_at_def Let_def)
    qed
    ultimately show ?thesis using at c [OF k'] unfolding dec_at_def Let_def by (auto simp: nth_append tr(1))
  qed
qed

lemma dec_inv_back:
  assumes inv: "dec_inv s" and as: "same_as s t" and n: "n < nt_level s" and wf: "nt_wf F s"
    and t: "nt_trail t = kept_at n s (nt_trail s)" "nt_level t = n" "nt_control t = take (n + 1) (nt_control s)" "\<And>l. lit_level t l = lit_level s l"
  shows "dec_inv t"
  unfolding dec_inv_def
proof (intro allI impI)
  fix k assume k: "1 \<le> k" "k \<le> nt_level t"
  have at: "dec_at s k" using inv k n t(2) by (simp add: dec_inv_def)
  define a where "a = lv_trail (nt_control s ! (n + 1))"
  have c: "nt_control t ! j = nt_control s ! j" if "j \<le> n" for j using that by (simp add: t(3))
  have ri: "nt_reasons_inv F s" using wf by (simp add: nt_wf_def)
  have tr: "nt_trail t = take a (nt_trail s) @ kept_at n s (drop a (nt_trail s))"
    unfolding t(1) by (rule kept_prefix(2) [OF ri n a_def])
  have "decision_ok s k (lv_decision (nt_control s ! k))" using at by (simp add: dec_at_def Let_def)
  then have "decision_ok t k (lv_decision (nt_control s ! k))"
    by (rule decision_ok_keep [OF as]) (use k t in \<open>auto simp: holds_below_def kept_at_def\<close>)
  moreover have "lv_trail (nt_control s ! k) < length (nt_trail t) \<and> nt_trail t ! lv_trail (nt_control s ! k) = lv_decision (nt_control s ! k)"
    if nz: "lv_decision (nt_control s ! k) \<noteq> 0"
  proof -
    have p: "lv_trail (nt_control s ! k) < length (nt_trail s)" "nt_trail s ! lv_trail (nt_control s ! k) = lv_decision (nt_control s ! k)"
      "lv_trail (nt_control s ! k) < a" using at nz k n t(2) by (auto simp: dec_at_def Let_def a_def)
    then show ?thesis by (simp add: tr nth_append)
  qed
  moreover have "\<forall>j. k < j \<longrightarrow> j \<le> nt_level t \<longrightarrow> lv_trail (nt_control s ! k) < lv_trail (nt_control t ! j)" if "lv_decision (nt_control s ! k) \<noteq> 0"
    using at that c n t(2) by (auto simp: dec_at_def Let_def)
  ultimately show "dec_at t k" using c [of k] k t(2) unfolding dec_at_def Let_def by simp
qed

text \<open>The number of levels is bounded, so that it fits an \<^verbatim>\<open>int\<close>.\<close>

lemma level_bound:
  assumes "dec_inv s"
  shows "nt_level s \<le> length (nt_trail s) + length (as_assumptions (nt_as s)) + 1"
proof -
  let ?n = "length (as_assumptions (nt_as s)) + 1"
  let ?f = "\<lambda>k. lv_trail (nt_control s ! k)"
  have at: "?f k < length (nt_trail s) \<and> (\<forall>j. k < j \<longrightarrow> j \<le> nt_level s \<longrightarrow> ?f k < ?f j)" if "k \<in> {?n<..nt_level s}" for k
  proof -
    have "dec_at s k" using assms that by (simp add: dec_inv_def)
    then show ?thesis using that by (auto simp: dec_at_def Let_def decision_ok_def split: if_splits)
  qed
  have "inj_on ?f {?n<..nt_level s}"
  proof (rule inj_onI)
    fix x y assume "x \<in> {?n<..nt_level s}" "y \<in> {?n<..nt_level s}" "?f x = ?f y"
    then show "x = y" using at [of x] at [of y] by (metis greaterThanAtMost_iff less_irrefl linorder_neqE_nat)
  qed
  then have "card {?n<..nt_level s} = card (?f ` {?n<..nt_level s})" by (simp add: card_image)
  also have "\<dots> \<le> card {..<length (nt_trail s)}" by (rule card_mono) (use at in auto)
  finally show ?thesis by simp
qed


subsection \<open>The invariant of everything else\<close>

definition quiet :: "'v Internal \<Rightarrow> bool" where
  "quiet s \<longleftrightarrow> (\<forall>v. clean (nt_ftab s v) \<and> \<not> fg_seen (nt_ftab s v)) \<and> an_clause (nt_an s) = [] \<and> an_analyzed (nt_an s) = []
     \<and> an_unit_analyzed (nt_an s) = [] \<and> an_minimized (nt_an s) = []"

definition side_inv :: "('v :: linordered_field) Internal \<Rightarrow> bool" where
  "side_inv s \<longleftrightarrow> ph_inv s \<and> as_inv s \<and> dec_inv s \<and> addr_inv s \<and> 0 < nt_score_inc s \<and> 0 < co_scorefactor (nt_opts s)
     \<and> nt_max_var s + length (as_assumptions (nt_as s)) + 1 < 2 ^ 31 \<and> \<not> nt_unsat s \<and> \<not> as_unsat_constraint (nt_as s)"

lemma side_step_fields:
  assumes "side_step s t"
  shows "nt_as t = nt_as s" "nt_next_addr t = nt_next_addr s" "nt_clauses t = nt_clauses s" "nt_unsat t = nt_unsat s"
    "nt_score_inc t = nt_score_inc s" "nt_an t = nt_an s" "nt_opts t = nt_opts s" "nt_max_var t = nt_max_var s" "ph_inv s \<Longrightarrow> ph_inv t"
    "quiet t = quiet s"
proof -
  show "nt_as t = nt_as s" "nt_next_addr t = nt_next_addr s" "nt_clauses t = nt_clauses s" "nt_unsat t = nt_unsat s"
    "nt_score_inc t = nt_score_inc s" "nt_opts t = nt_opts s" "nt_max_var t = nt_max_var s" "ph_inv s \<Longrightarrow> ph_inv t"
    using assms by (simp_all add: side_step_def)
  show an: "nt_an t = nt_an s" using assms by (simp add: side_step_def)
  have "clean (nt_ftab t v) = clean (nt_ftab s v) \<and> fg_seen (nt_ftab t v) = fg_seen (nt_ftab s v)" for v
  proof -
    obtain st where "nt_ftab t v = (nt_ftab s v)\<lparr>fg_status := st\<rparr>" using assms unfolding side_step_def by blast
    then show ?thesis by (simp add: clean_def)
  qed
  then show "quiet t = quiet s" by (simp add: quiet_def an)
qed

text \<open>Any step that keeps these parts keeps the invariant, given that of the decisions.\<close>

lemma side_inv_step:
  assumes "side_inv s" "side_step s t" "dom (nt_mem t) = dom (nt_mem s)" "dec_inv t"
  shows "side_inv t"
proof -
  note f = side_step_fields [OF assms(2)]
  have "nt_mem t a \<noteq> None \<longleftrightarrow> nt_mem s a \<noteq> None" for a using assms(3) by (metis domIff)
  then show ?thesis using assms(1,4) by (simp add: side_inv_def f as_inv_def addr_inv_def assms(3))
qed

lemma side_inv_int_range:
  assumes "side_inv s" "nt_trail_inv s"
  shows "int_range s"
proof -
  have "dec_inv s" using assms(1) by (simp add: side_inv_def)
  from level_bound [OF this] trail_bound [OF assms(2)] assms(1) show ?thesis by (simp add: side_inv_def int_range_def)
qed

lemma same_lits_dom:
  assumes "same_lits m m'"
  shows "dom m' = dom m"
proof -
  have "m' a = None \<longleftrightarrow> m a = None" for a
  proof -
    have "rel_option same_sclause (m a) (m' a)" using assms by (simp add: same_lits_def)
    then show ?thesis by (cases "m a"; cases "m' a") simp_all
  qed
  then show ?thesis by (auto simp: dom_def)
qed

lemma same_as_refl [simp]: "same_as s s"
  by (simp add: same_as_def)

lemma same_as_eq: "nt_as t = nt_as s \<Longrightarrow> same_as s t"
  by (simp add: same_as_def)

lemma dec_inv_grown:
  assumes "dec_inv s" "nt_grown s t" "nt_as t = nt_as s"
  shows "dec_inv t"
proof -
  obtain e where "nt_trail t = nt_trail s @ e" "nt_level t = nt_level s" "nt_control t = nt_control s" "\<forall>k \<in> set (nt_trail s). nt_var t k = nt_var s k"
    using assms(2) by (auto simp: nt_grown_def)
  then show ?thesis by (intro dec_inv_ext [OF assms(1) same_as_eq [OF assms(3)], of e]) (simp_all add: lit_level_def)
qed

lemma dec_inv_assign:
  assumes "dec_inv s" "nt_trail_inv s" "nt_val s l = 0" "lit_ok (nt_max_var s) l"
  shows "dec_inv (search_assign l r s)"
  by (rule dec_inv_ext [OF assms(1) same_as_eq, of _ "[l]"])
    (use assign_frame(1) [OF assms(2-4), where r = r] side_step_fields(1) [OF side_step_assign] in \<open>simp_all add: search_assign_fields\<close>)

lemma dec_inv_frame:
  assumes "dec_inv s" "an_frame s t" "nt_level_inv s"
  shows "dec_inv t"
proof (rule dec_inv_ext [OF assms(1) same_as_eq, of _ "[]"])
  show "nt_as t = nt_as s" by (rule an_frame_extra(1) [OF assms(2)])
  show "nt_level t = nt_level s" "nt_trail t = nt_trail s @ []" using an_frame_fields(1,2) [OF assms(2)] by simp_all
  show "lit_level t l = lit_level s l" for l using an_frame_cong(2) [OF assms(2)] by simp
  show "lv_decision (nt_control t ! k) = lv_decision (nt_control s ! k) \<and> lv_trail (nt_control t ! k) = lv_trail (nt_control s ! k)"
    if "1 \<le> k" "k \<le> nt_level s" for k
    using an_frame_control_nth [OF assms(2), of k] that assms(3) by (simp add: nt_level_inv_def)
qed

lemma dec_inv_core:
  fixes s t :: "'v Internal"
  assumes "dec_inv s" "nt_as t = nt_as s" "nt_level t = nt_level s" "nt_control t = nt_control s" "nt_trail t = nt_trail s"
    "nt_vtab t = nt_vtab s"
  shows "dec_inv t"
  by (rule dec_inv_ext [OF assms(1) same_as_eq [OF assms(2)], of "[]"]) (simp_all add: assms(3-6) lit_level_def nt_var_def)

end
