(* ===== verification/Cdcl_Main.thy ===== *)
theory Cdcl_Main
  imports Cdcl_Demo Cdcl_Side
begin

text \<open>The properties of propagation, backtracking, deciding, conflict analysis and minimization.\<close>

subsection \<open>Deciding and propagating\<close>

definition demo_decided :: "rat Internal" where
  "demo_decided = search_assume_decision 1 demo_start"

lemma demo_decided_ready: "nt_ready demo_formula demo_decided" "nt_level demo_decided = 1"
  "nt_trail demo_decided = [1]" "nt_conflict demo_decided = None"
  using assume_decision_ok [OF demo_ready demo_fields(6), of 1]
  by (simp_all add: demo_decided_def demo_fields lit_ok_def vidx_def nt_val_def)

text \<open>
  C31: with everything propagated, no conflict and the formula not yet satisfied, deciding returns.
  Either one more decision level is open, with at most one new literal on the trail, one that had no
  value, and the invariant holds; or the status is 20 and an assumption or the whole constraint is
  false under the assignment.
\<close>

theorem decide_keeps_invariant:
  fixes s :: "('v :: linorder) Internal"
  assumes "nt_ready F s" and "nt_conflict s = None" and "nt_propagated s = length (nt_trail s)"
    and "as_inv s" and "ph_inv s" and "\<not> satisfied s"
  shows "\<exists>r t. decide s = Some (r, t) \<and> nt_ready F t \<and>
    (if r = 0
     then nt_level t = nt_level s + 1 \<and> nt_conflict t = None \<and>
       (nt_trail t = nt_trail s \<or> (\<exists>l. lit_ok (nt_max_var s) l \<and> nt_val s l = 0 \<and> nt_trail t = nt_trail s @ [l]))
     else r = 20 \<and> nt_trail t = nt_trail s \<and>
       ((\<exists>l \<in> set (as_assumptions (nt_as s)). nt_val s l < 0)
        \<or> as_constraint (nt_as s) \<noteq> [] \<and> (\<forall>l \<in> set (as_constraint (nt_as s)). nt_val s l < 0)))"
  (is "\<exists>r t. ?P r t")
proof (rule decide_ok [OF assms])
  fix t assume t: "decide s = Some (0, t)" "nt_ready F t" "nt_conflict t = None" "nt_level t = nt_level s + 1"
    "nt_trail t = nt_trail s \<or> (\<exists>l. lit_ok (nt_max_var s) l \<and> nt_val s l = 0 \<and> nt_trail t = nt_trail s @ [l])"
  then have "?P 0 t" by simp
  then show ?thesis by blast
next
  fix t assume t: "decide s = Some (20, t)" "nt_ready F t" "nt_trail t = nt_trail s"
    "(\<exists>l \<in> set (as_assumptions (nt_as s)). nt_val s l < 0)
       \<or> (as_constraint (nt_as s) \<noteq> [] \<and> (\<forall>l \<in> set (as_constraint (nt_as s)). nt_val s l < 0))"
  then have "?P 20 t" by simp
  then show ?thesis by blast
qed

theorem decide_keeps_invariant_witness:
  "\<exists>r t. decide demo_start = Some (r, t) \<and> nt_ready demo_formula t \<and> (if r = 0 then nt_level t = 1 else r = 20)"
proof -
  have "as_inv demo_start" "ph_inv demo_start" "\<not> satisfied demo_start"
    by (simp_all add: as_inv_def ph_inv_def satisfied_def demo_start_def)
  from decide_keeps_invariant [OF demo_ready demo_fields(6) _ this] show ?thesis
    by (auto simp: demo_fields split: if_splits)
qed

text \<open>
  C37: propagation returns from every state of the search and keeps the invariant, the open levels and
  the literals of all clauses; the trail only grows.  Without a conflict the whole trail is propagated
  and no clause is missed: each one in use has a true literal or two watches that are not false.  A
  reported conflict is a clause with all its literals false.
\<close>

theorem propagate_complete:
  fixes s :: "('v :: linorder) Internal"
  assumes "nt_ready F s"
  shows "\<exists>t. propagate s = Some (nt_conflict t = None, t) \<and> nt_ready F t \<and> nt_grown s t \<and>
    (case nt_conflict t of
       None \<Rightarrow> nt_propagated t = length (nt_trail t) \<and>
         (\<forall>a c. nt_mem t a = Some c \<longrightarrow> \<not> so_garbage c \<longrightarrow>
            (\<exists>k \<in> set (so_literals c). nt_val t k > 0)
            \<or> nt_val t (so_literals c ! 0) \<ge> 0 \<and> nt_val t (so_literals c ! 1) \<ge> 0)
     | Some a \<Rightarrow> falsified t a)"
proof -
  from propagate_ok [OF assms] obtain t where t: "propagate s = Some (nt_conflict t = None, t)" "nt_ready F t" "nt_grown s t"
    "nt_conflict t = None \<longrightarrow> nt_propagated t = length (nt_trail t)" .
  have "nt_done t (length (nt_trail t))" "nt_wf F t" if "nt_conflict t = None"
    using t(2,4) that by (simp_all add: nt_ready_def)
  then show ?thesis using t nt_done_complete [of F t]
    by (intro exI [of _ t] conjI) (auto simp: nt_ready_def split: option.split)
qed

theorem propagate_complete_witness:
  "\<exists>t. propagate demo_decided = Some (nt_conflict t = None, t) \<and> nt_level t = 1
     \<and> (case nt_conflict t of None \<Rightarrow> nt_propagated t = length (nt_trail t) | Some a \<Rightarrow> falsified t a)"
proof -
  from propagate_complete [OF demo_decided_ready(1)] obtain t where
    "propagate demo_decided = Some (nt_conflict t = None, t)" "nt_grown demo_decided t"
    "case nt_conflict t of None \<Rightarrow> nt_propagated t = length (nt_trail t) | Some a \<Rightarrow> falsified t a"
    by (auto split: option.splits)
  then show ?thesis using demo_decided_ready(2) by (intro exI [of _ t]) (simp add: nt_grown_def)
qed

subsection \<open>Backtracking\<close>

text \<open>
  C38: backtracking returns and leaves on the trail exactly the literals of the levels that stay, in
  their order, also those assigned out of order, each at its recorded position; the invariant, the
  watches, and the decision queue and heap are in order, and what counts as propagated is propagated.
\<close>

theorem backtrack_filters_trail:
  fixes s :: "('v :: linorder) Internal"
  assumes "nt_ready F s" and "n < nt_level s"
  shows "\<exists>t. backtrack n s = Some t \<and> nt_ready F (t\<lparr>nt_conflict := None\<rparr>)
    \<and> nt_trail t = filter (\<lambda>l. lit_level s l \<le> n) (nt_trail s) \<and> nt_level t = n
    \<and> nt_control t = take (n + 1) (nt_control s) \<and> nt_mem t = nt_mem s \<and> nt_wtab t = nt_wtab s
    \<and> (\<forall>l. lit_level t l = lit_level s l) \<and> (\<forall>i < length (nt_trail t). va_trail (nt_var t (nt_trail t ! i)) = i)"
proof -
  have rd: "nt_wf F s" "nt_dc_inv s" "lv_trail (nt_control s ! nt_level s) \<le> nt_propagated s"
    using assms(1) by (simp_all add: nt_ready_def)
  let ?a = "lv_trail (nt_control s ! (n + 1))"
  have len: "length (nt_control s) = nt_level s + 1" and srt: "sorted (map lv_trail (nt_control s))"
    using rd(1) by (simp_all add: nt_wf_def nt_level_inv_def)
  have "?a \<le> lv_trail (nt_control s ! nt_level s)"
    using sorted_nth_mono [OF srt, of "n + 1" "nt_level s"] assms(2) len by simp
  then have "nt_done s (min (nt_propagated s) ?a)"
    using assms(1) by (auto simp: nt_ready_def split: option.splits elim: nt_done_mono)
  from backtrack_ok [OF rd(1,2) assms(2) this rd(3)] obtain t where t: "backtrack n s = Some t" "nt_wf F t" "nt_dc_inv t"
    "nt_done t (nt_propagated t)" "lv_trail (nt_control t ! nt_level t) \<le> nt_propagated t" "nt_trail t = kept_at n s (nt_trail s)"
    "nt_level t = n" "nt_control t = take (n + 1) (nt_control s)" "nt_mem t = nt_mem s" "nt_wtab t = nt_wtab s"
    "\<And>l. lit_level t l = lit_level s l" by metis
  have "sat_at (t\<lparr>nt_conflict := None\<rparr>) = sat_at t"
    by (simp add: sat_at_def nt_deref_def nt_literals_def lit_level_def level_at_def nt_var_def fun_eq_iff)
  then have "nt_ready F (t\<lparr>nt_conflict := None\<rparr>)" using t(2-5) by (simp add: nt_ready_def nt_dc_inv_def nt_done_def)
  moreover have "va_trail (nt_var t (nt_trail t ! i)) = i" if "i < length (nt_trail t)" for i
    using t(2) that by (simp add: nt_wf_def nt_reasons_inv_def reason_ok_def Let_def)
  ultimately show ?thesis using t by (auto simp: kept_at_def)
qed

theorem backtrack_filters_trail_witness:
  "\<exists>t. backtrack 0 demo_decided = Some t \<and> nt_level t = 0 \<and> nt_ready demo_formula (t\<lparr>nt_conflict := None\<rparr>)"
  using backtrack_filters_trail [OF demo_decided_ready(1), of 0] demo_decided_ready(2) by auto

subsection \<open>Conflict analysis\<close>

text \<open>
  C39: analyzing a conflict with a literal of the current level never dereferences a null reason and
  returns with the trail untouched.  The first UIP clause follows from the formula; its literals are
  false, no variable is there twice, the last one is the only one of the current level.  When analysis
  stops at an antecedent for on-the-fly strengthening instead, the antecedent without the pivot and
  the literals fixed at level zero follows from the formula.
\<close>

theorem first_uip_clause_implied:
  fixes s :: "('v :: linorder) Internal"
  assumes "nt_wf F s" and "0 < nt_level s" and "nt_conflict s = Some a" and "falsified s a"
    and "\<exists>k \<in> set (nt_literals s a). lit_level s k = nt_level s"
    and "an_analyzed (nt_an s) = []" and "an_clause (nt_an s) = []" and "\<forall>v. \<not> fg_seen (nt_ftab s v)"
  shows "\<exists>r z t. analyze_conflict s = Some (r, z, t) \<and> nt_wf F t \<and> nt_trail t = nt_trail s \<and> nt_level t = nt_level s \<and>
    (case r of
       First_uip u \<Rightarrow> entails F (an_clause (nt_an t)) \<and> distinct (map vidx (an_clause (nt_an t)))
         \<and> (\<forall>k \<in> set (an_clause (nt_an t)). - k \<in> set (nt_trail t) \<and> 0 < lit_level t k)
         \<and> last (an_clause (nt_an t)) = - u \<and> lit_level t u = nt_level t
         \<and> (\<forall>k \<in> set (butlast (an_clause (nt_an t))). lit_level t k < nt_level t)
     | Otfs_candidate b u \<Rightarrow> \<exists>c. nt_mem t b = Some c \<and> u \<in> set (so_literals c)
         \<and> entails F (filter (\<lambda>k. k \<noteq> u \<and> 0 < lit_level t k) (so_literals c)))"
proof -
  obtain r y t where t: "analyze_conflict s = Some (r, y, t)" "an_frame s t" and
    c: "case r of
       First_uip u \<Rightarrow> entails F (an_clause (nt_an t)) \<and> distinct (map vidx (an_clause (nt_an t)))
         \<and> (\<forall>k \<in> set (an_clause (nt_an t)). - k \<in> set (nt_trail t) \<and> 0 < lit_level t k)
         \<and> last (an_clause (nt_an t)) = - u \<and> lit_level t u = nt_level t
         \<and> (\<forall>k \<in> set (butlast (an_clause (nt_an t))). lit_level t k < nt_level t)
     | Otfs_candidate b u \<Rightarrow> \<exists>c. nt_mem t b = Some c \<and> u \<in> set (so_literals c)
         \<and> entails F (filter (\<lambda>k. k \<noteq> u \<and> 0 < lit_level t k) (so_literals c))"
    by (rule analyze_conflict_ok [OF assms]) (rule that, assumption+, auto split: uip_outcome.splits)
  show ?thesis using t(1) an_frame_wf [OF t(2) assms(1)] an_frame_fields(1,2) [OF t(2)] c by blast
qed

definition demo_conflict :: "rat Internal" where
  "demo_conflict = (search_assign 3 (Clause_reason 1) (search_assign (- 2) (Clause_reason 0) demo_decided))\<lparr>nt_conflict := Some 2\<rparr>"


lemma demo_conflict_ok:
  "nt_wf demo_formula demo_conflict" "nt_level demo_conflict = 1" "nt_conflict demo_conflict = Some 2"
  "falsified demo_conflict 2" "\<exists>k \<in> set (nt_literals demo_conflict 2). lit_level demo_conflict k = nt_level demo_conflict"
  "an_analyzed (nt_an demo_conflict) = []" "an_clause (nt_an demo_conflict) = []" "\<forall>v. \<not> fg_seen (nt_ftab demo_conflict v)"
proof -
  let ?u = "search_assign (- 2) (Clause_reason 0) demo_decided"
  let ?t = "search_assign 3 (Clause_reason 1) ?u"
  have wf: "nt_wf demo_formula demo_decided" using demo_decided_ready(1) by (simp add: nt_ready_def)
  have m: "nt_mem demo_decided = nt_mem demo_start" "nt_max_var demo_decided = 3"
    by (simp_all add: demo_decided_def search_assume_decision_def new_trail_level_def search_assign_fields demo_fields(1))
  have ti: "nt_trail_inv demo_decided" using wf by (simp add: nt_wf_def)
  have a1: "assignable demo_formula (- 2) (Clause_reason 0) demo_decided"
    by (simp add: assignable_def nt_val_trail [OF ti] trail_val_def demo_decided_ready(3) m demo_fields(10) demo_clause_def lit_ok_def vidx_def)
  have wf1: "nt_wf demo_formula ?u" by (rule search_assign_wf [OF wf a1])
  have ti1: "nt_trail_inv ?u" using wf1 by (simp add: nt_wf_def)
  have a2: "assignable demo_formula 3 (Clause_reason 1) ?u"
    by (simp add: assignable_def nt_val_trail [OF ti1] trail_val_def search_assign_fields demo_decided_ready(3) m demo_fields(10)
        demo_clause_def lit_ok_def vidx_def)
  show "nt_wf demo_formula demo_conflict" using search_assign_wf [OF wf1 a2] by (simp add: demo_conflict_def)
  show l: "nt_level demo_conflict = 1" "nt_conflict demo_conflict = Some 2"
    by (simp_all add: demo_conflict_def search_assign_fields demo_decided_ready(2))
  show "falsified demo_conflict 2"
    by (simp add: falsified_def demo_conflict_def search_assign_fields demo_decided_ready(3) m demo_fields(10) demo_clause_def)
  have "nt_vtab demo_decided 1 = \<lparr>va_level = 1, va_trail = 0, va_reason = No_reason\<rparr>"
    by (simp add: demo_decided_def search_assume_decision_def new_trail_level_def search_assign_fields vidx_def
        assigned_level_def demo_fields(2,3))
  then have "lit_level demo_conflict (- 1) = 1"
    by (simp add: lit_level_def nt_var_def demo_conflict_def search_assign_fields vidx_def)
  moreover have "- 1 \<in> set (nt_literals demo_conflict 2)"
    by (simp add: demo_conflict_def nt_literals_def nt_deref_def search_assign_fields m demo_fields(10) demo_clause_def)
  ultimately show "\<exists>k \<in> set (nt_literals demo_conflict 2). lit_level demo_conflict k = nt_level demo_conflict" using l by (intro bexI [of _ "- 1"]) simp_all
  have an: "nt_an (search_assign x r y) = nt_an y" "fg_seen (nt_ftab (search_assign x r y) v) = fg_seen (nt_ftab y v)"
    for x r v and y :: "rat Internal"
    by (auto simp: search_assign_def Let_def nt_log_def nt_set_val_def learn_unit_clause_def mark_fixed_def nt_count_def nt_set_flags_def
        split: reason.split)
  show "an_analyzed (nt_an demo_conflict) = []" "an_clause (nt_an demo_conflict) = []" "\<forall>v. \<not> fg_seen (nt_ftab demo_conflict v)"
    by (simp_all add: demo_conflict_def an demo_decided_def search_assume_decision_def new_trail_level_def demo_fields demo_flags_def)
qed

theorem first_uip_clause_implied_witness:
  "\<exists>r z t. analyze_conflict demo_conflict = Some (r, z, t) \<and> nt_wf demo_formula t
     \<and> (case r of First_uip u \<Rightarrow> entails demo_formula (an_clause (nt_an t)) | Otfs_candidate b u \<Rightarrow> nt_mem t b \<noteq> None)"
proof -
  have "0 < nt_level demo_conflict" by (simp add: demo_conflict_ok(2))
  from first_uip_clause_implied [OF demo_conflict_ok(1) this demo_conflict_ok(3-8)] obtain r z t where
    t: "analyze_conflict demo_conflict = Some (r, z, t)" "nt_wf demo_formula t" and
    c: "case r of First_uip u \<Rightarrow> entails demo_formula (an_clause (nt_an t)) | Otfs_candidate b u \<Rightarrow> nt_mem t b \<noteq> None"
    by (elim exE conjE) (rule that, assumption+, auto split: uip_outcome.splits)
  then show ?thesis by blast
qed

subsection \<open>Minimization\<close>

text \<open>
  C40: minimizing an implied and falsified clause returns with the trail untouched.  What remains is
  part of the clause, follows from the formula, and keeps the literals of the current level; the
  walk over the reasons that collects the antecedents ends, and no mark is left on any variable.
\<close>

theorem minimize_clause_implied:
  assumes "nt_wf F s" and "0 < nt_level s" and "\<forall>xs. mset (std_sort xs) = mset xs" and "length stack = 256"
    and "\<forall>l \<in> set (an_clause (nt_an s)). - l \<in> set (nt_trail s)" and "distinct (map vidx (an_clause (nt_an s)))"
    and "entails F (an_clause (nt_an s))" and "\<forall>v. clean (nt_ftab s v)" and "an_minimized (nt_an s) = []"
  shows "\<exists>t. minimize_clause std_sort stack s = Some t \<and> nt_wf F t \<and> nt_trail t = nt_trail s
    \<and> set (an_clause (nt_an t)) \<subseteq> set (an_clause (nt_an s)) \<and> distinct (map vidx (an_clause (nt_an t)))
    \<and> entails F (an_clause (nt_an t))
    \<and> (\<forall>l \<in> set (an_clause (nt_an s)). lit_level s l = nt_level s \<longrightarrow> l \<in> set (an_clause (nt_an t)))
    \<and> (\<forall>v. clean (nt_ftab t v)) \<and> an_minimized (nt_an t) = []"
proof -
  have "\<And>v. clean (nt_ftab s v)" using assms(8) by blast
  from minimize_clause_ok [OF assms(1,3-7) this assms(9)] obtain t where t: "minimize_clause std_sort stack s = Some t" "an_frame s t"
    "set (an_clause (nt_an t)) \<subseteq> set (an_clause (nt_an s))" "distinct (map vidx (an_clause (nt_an t)))" "entails F (an_clause (nt_an t))"
    "\<And>l. l \<in> set (an_clause (nt_an s)) \<Longrightarrow> 0 < nt_level s \<Longrightarrow> lit_level s l = nt_level s \<Longrightarrow> l \<in> set (an_clause (nt_an t))"
    "\<And>v. clean (nt_ftab t v)" "an_minimized (nt_an t) = []" by metis
  show ?thesis using t assms(2) an_frame_wf [OF t(2) assms(1)] an_frame_fields(1) [OF t(2)] by blast
qed

lemma search_assign_clean: "clean (nt_ftab (search_assign x r y) v) = clean (nt_ftab y v)" for y :: "'v Internal"
  by (auto simp: search_assign_def Let_def nt_log_def nt_set_val_def learn_unit_clause_def mark_fixed_def nt_count_def
      nt_set_flags_def clean_def split: reason.split)

definition demo_learned :: "rat Internal" where
  "demo_learned = nt_analysis (\<lambda>n. n\<lparr>an_clause := [-1, 2]\<rparr>) demo_conflict"

lemma demo_learned_ok:
  "nt_wf demo_formula demo_learned" "nt_level demo_learned = 1" "nt_trail demo_learned = [1, -2, 3]"
  "an_clause (nt_an demo_learned) = [-1, 2]" "entails demo_formula [-1, 2]" "\<forall>v. clean (nt_ftab demo_learned v)"
  "an_minimized (nt_an demo_learned) = []"
proof -
  have fr: "an_frame demo_conflict demo_learned" by (simp add: demo_learned_def)
  show "nt_wf demo_formula demo_learned" by (rule an_frame_wf [OF fr demo_conflict_ok(1)])
  show "nt_level demo_learned = 1" using an_frame_fields(2) [OF fr] demo_conflict_ok(2) by simp
  have tr: "nt_trail (y\<lparr>nt_conflict := c\<rparr>) = nt_trail y" for y :: "rat Internal" and c by simp
  show "nt_trail demo_learned = [1, -2, 3]"
    using an_frame_fields(1) [OF fr] by (simp add: demo_conflict_def search_assign_fields demo_decided_ready(3))
  show "an_clause (nt_an demo_learned) = [-1, 2]" by (simp add: demo_learned_def nt_analysis_def)
  show "entails demo_formula [-1, 2]"
  proof
    fix \<alpha> assume "models \<alpha> demo_formula"
    then have "clause_true \<alpha> [-1, 2, 3]" "clause_true \<alpha> [-1, 2, -3]" by (auto simp: models_def demo_formula_def)
    then show "clause_true \<alpha> [-1, 2]" using lit_true_uminus [of 3 \<alpha>] by auto
  qed
  have an: "nt_an (search_assign x r y) = nt_an y" for x r and y :: "rat Internal"
    by (auto simp: search_assign_def Let_def nt_log_def nt_set_val_def learn_unit_clause_def mark_fixed_def nt_count_def nt_set_flags_def
        split: reason.split)
  show "an_minimized (nt_an demo_learned) = []"
    by (simp add: demo_learned_def nt_analysis_def demo_conflict_def an demo_decided_def search_assume_decision_def new_trail_level_def
        demo_fields)
  show "\<forall>v. clean (nt_ftab demo_learned v)"
    by (simp add: demo_learned_def nt_analysis_def demo_conflict_def search_assign_clean demo_decided_def search_assume_decision_def
        new_trail_level_def demo_fields) (simp add: clean_def demo_flags_def)
qed

theorem minimize_clause_implied_witness:
  "\<exists>t. minimize_clause id (replicate 256 0) demo_learned = Some t \<and> nt_wf demo_formula t
     \<and> set (an_clause (nt_an t)) \<subseteq> {-1, 2} \<and> entails demo_formula (an_clause (nt_an t))"
proof -
  have "\<exists>t. minimize_clause id (replicate 256 0) demo_learned = Some t \<and> nt_wf demo_formula t \<and> nt_trail t = nt_trail demo_learned
    \<and> set (an_clause (nt_an t)) \<subseteq> set (an_clause (nt_an demo_learned)) \<and> distinct (map vidx (an_clause (nt_an t)))
    \<and> entails demo_formula (an_clause (nt_an t))
    \<and> (\<forall>l \<in> set (an_clause (nt_an demo_learned)). lit_level demo_learned l = nt_level demo_learned \<longrightarrow> l \<in> set (an_clause (nt_an t)))
    \<and> (\<forall>v. clean (nt_ftab t v)) \<and> an_minimized (nt_an t) = []"
    by (rule minimize_clause_implied) (simp_all add: demo_learned_ok vidx_def)
  then show ?thesis by (auto simp: demo_learned_ok(4))
qed

end
