(* ===== verification/Cdcl_Conflict.thy ===== *)
theory Cdcl_Conflict
  imports Cdcl_Side
begin

text \<open>
  The whole of \<^verbatim>\<open>analyze\<close> (\<^verbatim>\<open>analyze.cpp\<close>): finding the level of the conflict, backtracking to it,
  either using the conflict itself as driving clause or learning the minimized first UIP clause,
  backtracking to the level chosen and assigning the driven literal.  The moving averages, the
  reluctant doubling and the learner, which only observe, are left out.  \<open>driven F a s t\<close> says what
  it achieves for the conflict \<open>a\<close>: one literal is driven, by the conflict or by a new watched clause.
\<close>

subsection \<open>The code\<close>

text \<open>
  How it ends: in a state to go on from, or at a call that is not part of the model, of
  \<^verbatim>\<open>on_the_fly_strengthen\<close> (with the option \<^verbatim>\<open>otfs\<close>) or of \<^verbatim>\<open>shrink_and_minimize_clause\<close> (with \<^verbatim>\<open>shrink\<close>).
\<close>

datatype 'v analyzed = Analyzed "'v Internal" | To_strengthen nat int Sizes "'v Internal" | To_shrink int "'v Internal"

definition clear_conflict :: "'v Internal \<Rightarrow> 'v Internal" where
  "clear_conflict s =
     (let s = clear_analyzed_literals s;
          s = clear_unit_analyzed_literals s;
          s = clear_analyzed_levels s;
          s = nt_analysis (\<lambda>n. n\<lparr>an_clause := []\<rparr>) s;
          s = s\<lparr>nt_conflict := None\<rparr>
      in nt_log (\<lambda>p. p\<lparr>pf_lrat_chain := []\<rparr>) s)"

text \<open>From the final clause on: learning it, backtracking and assigning.\<close>

definition analyze_learn ::
    "((int \<Rightarrow> 64 word) \<Rightarrow> int list \<Rightarrow> int list) \<Rightarrow> nat list \<Rightarrow> int \<Rightarrow> int \<Rightarrow> ('v :: linordered_field) Internal \<Rightarrow> 'v Internal option" where
  "analyze_learn std_sort stack glue uip s =
     (let s = (if pf_lrat (nt_proof s)
               then nt_log (\<lambda>p. p\<lparr>pf_lrat_chain := rev (pf_lrat_chain p @ pf_unit_chain p), pf_unit_chain := []\<rparr>) s else s);
          (driving_clause, jump, s) = new_driving_clause std_sort stack glue s;
          (new_level, s) = determine_actual_backtrack_level jump s
      in Option.bind (backtrack new_level s) (\<lambda>s.
           let s = (if uip \<noteq> 0 then search_assign_driving (- uip) driving_clause s else learn_empty_clause s);
               s = clear_conflict s
           in Some (case driving_clause of
                Some c \<Rightarrow> if co_eagersubsume (nt_opts s) then eagerly_subsume_recently_learned_clauses c s else s
              | None \<Rightarrow> s)))"

definition analyze_uip ::
    "((int \<Rightarrow> 64 word) \<Rightarrow> int list \<Rightarrow> int list) \<Rightarrow> nat list \<Rightarrow> ('v :: linordered_field) Internal \<Rightarrow> 'v analyzed option" where
  "analyze_uip std_sort stack s =
     Option.bind (analyze_conflict s) (\<lambda>(r, z, s). case r of
        Otfs_candidate reason uip \<Rightarrow> Some (To_strengthen reason uip z s)
      | First_uip uip \<Rightarrow>
          (let glue = int (length (an_levels (nt_an s))) - 1 in
           if length (an_clause (nt_an s)) > 1 then
             if co_shrink (nt_opts s) then Some (To_shrink uip s)
             else
               Option.bind (if co_minimize (nt_opts s)
                            then minimize_clause (std_sort (\<lambda>lit. word_of_nat (va_trail (nt_var s lit)))) stack s else Some s) (\<lambda>s.
               Option.bind (if co_bump (nt_opts s) then bump_variables std_sort stack s else Some s) (\<lambda>s.
                 map_option Analyzed (analyze_learn std_sort stack glue uip s)))
           else map_option Analyzed (analyze_learn std_sort stack glue uip s)))"

definition analyze_here ::
    "((int \<Rightarrow> 64 word) \<Rightarrow> int list \<Rightarrow> int list) \<Rightarrow> nat list \<Rightarrow> ('v :: linordered_field) Internal \<Rightarrow> 'v analyzed option" where
  "analyze_here std_sort stack s =
     (if nt_level s = 0 then Some (Analyzed (learn_empty_clause s)) else analyze_uip std_sort stack s)"

definition analyze ::
    "((int \<Rightarrow> 64 word) \<Rightarrow> int list \<Rightarrow> int list) \<Rightarrow> nat list \<Rightarrow> ('v :: linordered_field) Internal \<Rightarrow> 'v analyzed option" where
  "analyze std_sort stack s =
     Option.bind (nt_conflict s) (\<lambda>conflict.
       if co_chrono (nt_opts s) \<noteq> 0 then
         (let (conflict_level, forced, s) = find_conflict_level conflict s in
          if forced \<noteq> 0 then
            Option.bind (backtrack (conflict_level - 1) s) (\<lambda>s.
              let s = build_chain_for_units forced conflict False s;
                  s = search_assign_driving forced (Some conflict) s
              in Some (Analyzed (s\<lparr>nt_conflict := None\<rparr>)))
          else Option.bind (backtrack conflict_level s) (analyze_here std_sort stack))
       else analyze_here std_sort stack s)"

definition iterate :: "'v Internal \<Rightarrow> 'v Internal" where
  "iterate s = s\<lparr>nt_iterating := False\<rparr>"

subsection \<open>Marks during analysis\<close>

definition mark_step :: "'v Internal \<Rightarrow> 'v Internal \<Rightarrow> bool" where
  "mark_step s t \<longleftrightarrow> (seen_inv s \<longrightarrow> seen_inv t) \<and> (\<forall>v. clean (nt_ftab t v) = clean (nt_ftab s v))
     \<and> an_minimized (nt_an t) = an_minimized (nt_an s)"

lemma mark_step_refl [simp]: "mark_step s s"
  by (simp add: mark_step_def)

lemma mark_step_trans: "mark_step s t \<Longrightarrow> mark_step t u \<Longrightarrow> mark_step s u"
  by (simp add: mark_step_def)

lemma mark_step_fields:
  assumes "nt_ftab t = nt_ftab s" "an_analyzed (nt_an t) = an_analyzed (nt_an s)" "an_unit_analyzed (nt_an t) = an_unit_analyzed (nt_an s)"
    "an_minimized (nt_an t) = an_minimized (nt_an s)"
  shows "mark_step s t"
  using assms by (simp add: mark_step_def seen_inv_def)

lemma analyze_literal_mark: "mark_step s (snd (analyze_literal l (z, s)))"
proof -
  have c: "clean (f\<lparr>fg_seen := b\<rparr>) = clean f" for f b by (simp add: clean_def)
  have u: "mark_step s (nt_analysis (\<lambda>n. n\<lparr>an_unit_analyzed := an_unit_analyzed n @ [l]\<rparr>) (nt_set_flags l (\<lambda>f. f\<lparr>fg_seen := True\<rparr>) s))"
    "mark_step s (nt_analysis (\<lambda>n. n\<lparr>an_analyzed := an_analyzed n @ [l]\<rparr>) (nt_set_flags l (\<lambda>f. f\<lparr>fg_seen := True\<rparr>) s))"
    by (auto simp: mark_step_def seen_inv_def nt_analysis_def nt_set_flags_def c)
  have z: "mark_step s (snd (analyze_literal l (z, s)))" if "va_level (nt_var s l) = 0"
    using that mark_step_trans [OF u(1) mark_step_fields] by (simp add: analyze_literal_def Let_def nt_log_def)
  have n: "mark_step s (snd (analyze_literal l (z, s)))" if "va_level (nt_var s l) \<noteq> 0" "\<not> fg_seen (nt_flags s l)"
    by (rule mark_step_trans [OF u(2) mark_step_fields])
      (use that in \<open>simp_all add: analyze_literal_def Let_def nt_analysis_def nt_set_flags_def\<close>)
  show ?thesis
  proof (cases "va_level (nt_var s l) = 0")
    case False
    then show ?thesis using n by (cases "fg_seen (nt_flags s l)") (simp_all add: analyze_literal_def Let_def)
  qed (rule z)
qed

lemma fold_literal_mark:
  "mark_step s (snd (fold (\<lambda>k x. if k \<noteq> u then analyze_literal k x else x) ls (z, s)))"
proof (induction ls arbitrary: z s)
  case (Cons k ls)
  obtain y t where t: "(if k \<noteq> u then analyze_literal k (z, s) else (z, s)) = (y, t)" by fastforce
  then have "mark_step s t" using analyze_literal_mark [of s k z] by (auto split: if_splits)
  then show ?case using mark_step_trans [OF _ Cons.IH [of t y]] by (simp add: t)
qed simp

lemma analyze_reason_mark: "mark_step s (snd (analyze_reason u a (z, s)))"
proof -
  let ?b = "bump_clause a s"
  let ?l = "if pf_lrat (nt_proof ?b) then nt_log (\<lambda>p. p\<lparr>pf_lrat_chain := pf_lrat_chain p @ [so_id (nt_deref ?b a)]\<rparr>) ?b else ?b"
  have "mark_step s ?l"
    using bump_clause_marks [of a s] by (auto intro!: mark_step_fields simp: nt_log_def)
  then show ?thesis using mark_step_trans [OF _ fold_literal_mark] by (simp only: analyze_reason_def Let_def split)
qed

lemma analyze_loop_mark:
  assumes run: "analyze_loop u a i resolved z s = Some x"
  shows "mark_step s (snd (snd x))"
proof (rule analyze_loop.raw_induct [where P = "\<lambda>u a i resolved z s x. mark_step s (snd (snd x))", OF _ run], goal_cases)
  case (1 loop u a i resolved z s x)
  obtain y t where t: "analyze_reason u a (z\<lparr>sz_antecedent := 1\<rparr>, s) = (y, t)" by fastforce
  then have "mark_step s t" using analyze_reason_mark [of s u a "z\<lparr>sz_antecedent := 1\<rparr>"] by simp
  moreover have "mark_step t (snd (snd x))"
    using 1(2) by (auto simp: t Let_def bind_eq_Some_conv split: if_splits reason.splits prod.splits dest!: 1(1))
  ultimately show ?case by (rule mark_step_trans)
qed

lemma analyze_conflict_mark:
  assumes "analyze_conflict s = Some (r, z, t)"
  shows "mark_step s t"
proof -
  obtain a r' y u where u: "analyze_loop 0 a (length (nt_trail s)) 0 \<lparr>sz_open = 0, sz_resolvent = 0, sz_antecedent = 1\<rparr> s = Some (r', y, u)"
    "(case r' of First_uip k \<Rightarrow> (r', y, nt_analysis (\<lambda>n. n\<lparr>an_clause := an_clause n @ [- k]\<rparr>) u) | Otfs_candidate _ _ \<Rightarrow> (r', y, u)) = (r, z, t)"
    using assms by (auto simp: analyze_conflict_def bind_eq_Some_conv)
  then have "mark_step u t" by (auto intro: mark_step_fields simp: nt_analysis_def split: uip_outcome.splits)
  then show ?thesis using mark_step_trans [OF analyze_loop_mark [OF u(1)]] by simp
qed


subsection \<open>The state during analysis\<close>

text \<open>
  Everything but the conflict \<open>a\<close> and clauses in \<open>B\<close> has been propagated below the current level; the
  conflict is watched at two literals of the current level.
\<close>

definition conflict_ctx :: "clause set \<Rightarrow> nat \<Rightarrow> nat set \<Rightarrow> ('v :: linordered_field) Internal \<Rightarrow> bool" where
  "conflict_ctx F a B s \<longleftrightarrow> nt_wf F s \<and> nt_dc_inv s \<and> lv_trail (nt_control s ! nt_level s) \<le> nt_propagated s
     \<and> nt_done_for (\<lambda>b. b \<noteq> a \<and> b \<notin> B) s (lv_trail (nt_control s ! nt_level s))
     \<and> (\<exists>c. nt_mem s a = Some c \<and> lit_level s (so_literals c ! 0) = nt_level s \<and> lit_level s (so_literals c ! 1) = nt_level s)
     \<and> a \<notin> B \<and> side_inv s \<and> covers F s"

lemma an_frame_sat_at:
  assumes "an_frame s t" "nt_level_inv s" "nt_mem s a \<noteq> None"
  shows "sat_at t p a = sat_at s p a"
proof -
  obtain c where c: "nt_mem s a = Some c" using assms(3) by blast
  obtain d where d: "nt_mem t a = Some d" "so_literals d = so_literals c" "so_garbage d = so_garbage c"
    using an_frame_mem [OF assms(1) c] by blast
  show ?thesis
    using c d by (simp add: sat_at_def nt_deref_def nt_literals_def an_frame_fields(1) [OF assms(1)] an_frame_cong(2) [OF assms(1)]
        an_frame_level_at [OF assms(1,2)])
qed

lemma an_frame_done_for:
  assumes fr: "an_frame s t" and wf: "nt_wf F s" and don: "nt_done_for P s n"
  shows "nt_done_for P t n"
  unfolding nt_done_for_def
proof (intro allI impI)
  fix l w p
  assume x: "lit_ok (nt_max_var t) l" "w \<in> set (nt_wtab t l)" "P (wa_clause w)" "p < n" "p < length (nt_trail t)" "nt_trail t ! p = - l"
  note f = an_frame_fields [OF fr]
  have "sat_at s p (wa_clause w)" using don x unfolding nt_done_for_def f by blast
  moreover have "watch_inv (nt_max_var s) (nt_mem s) (nt_wtab s)" using wf by (simp add: nt_wf_def)
  from watch_mem [OF this x(1,2) [unfolded f]] have "nt_mem s (wa_clause w) \<noteq> None" .
  ultimately show "sat_at t p (wa_clause w)" using an_frame_sat_at [OF fr] wf by (simp add: nt_wf_def)
qed

lemma side_inv_an_frame:
  assumes "side_inv s" "an_frame s t" "nt_level_inv s"
  shows "side_inv t"
proof -
  note e = an_frame_extra [OF assms(2)] and f = an_frame_fields [OF assms(2)]
  have "dec_inv s" using assms(1) by (simp add: side_inv_def)
  then have "dec_inv t" by (rule dec_inv_frame [OF _ assms(2,3)])
  moreover have "dom (nt_mem t) = dom (nt_mem s)" using an_frame_None [OF assms(2)] by (auto simp: dom_def)
  ultimately show ?thesis
    using assms(1) an_frame_None [OF assms(2)] by (simp add: side_inv_def ph_inv_def as_inv_def addr_inv_def e f)
qed

lemma an_frame_ctl_top:
  assumes "an_frame s t" "nt_wf F s"
  shows "lv_trail (nt_control t ! nt_level t) = lv_trail (nt_control s ! nt_level s)"
  using an_frame_control_nth(1) [OF assms(1), of "nt_level s"] assms(2) an_frame_fields(2) [OF assms(1)]
  by (simp add: nt_wf_def nt_level_inv_def)

lemma ctx_an_frame:
  assumes c: "conflict_ctx F a B s" and fr: "an_frame s t"
  shows "conflict_ctx F a B t"
proof -
  have wf: "nt_wf F s" "nt_level_inv s" using c by (simp_all add: conflict_ctx_def nt_wf_def)
  note f = an_frame_fields [OF fr] and top = an_frame_ctl_top [OF fr wf(1)]
  obtain e where e: "nt_mem s a = Some e" "lit_level s (so_literals e ! 0) = nt_level s" "lit_level s (so_literals e ! 1) = nt_level s"
    using c by (auto simp: conflict_ctx_def)
  obtain d where "nt_mem t a = Some d" "so_literals d = so_literals e" using an_frame_mem [OF fr e(1)] by blast
  then have "\<exists>c. nt_mem t a = Some c \<and> lit_level t (so_literals c ! 0) = nt_level t \<and> lit_level t (so_literals c ! 1) = nt_level t"
    using e by (simp add: an_frame_cong(2) [OF fr] f(2))
  moreover have "nt_dc_inv t" using c by (simp add: conflict_ctx_def nt_dc_inv_def f)
  moreover have "nt_done_for (\<lambda>b. b \<noteq> a \<and> b \<notin> B) t (lv_trail (nt_control t ! nt_level t))"
    unfolding top by (rule an_frame_done_for [OF fr wf(1)]) (use c in \<open>simp add: conflict_ctx_def\<close>)
  moreover have "side_inv t" by (rule side_inv_an_frame [OF _ fr wf(2)]) (use c in \<open>simp add: conflict_ctx_def\<close>)
  moreover have "covers F t" by (rule covers_keeps [OF _ an_frame_keeps [OF fr]]) (use c in \<open>simp add: conflict_ctx_def\<close>)
  ultimately show ?thesis using c an_frame_wf [OF fr wf(1)] unfolding conflict_ctx_def f top [unfolded f(2)] by blast
qed

lemma bump_frame_fields:
  assumes "bump_frame s t"
  shows "nt_as t = nt_as s" "nt_phases t = nt_phases s" "nt_next_addr t = nt_next_addr s" "nt_clauses t = nt_clauses s"
    "nt_opts t = nt_opts s" "nt_unsat t = nt_unsat s" "an_clause (nt_an t) = an_clause (nt_an s)"
    "an_minimized (nt_an t) = an_minimized (nt_an s)" "nt_conflict t = nt_conflict s" "nt_proof t = nt_proof s"
proof -
  have t: "t = s\<lparr>nt_decide := nt_decide t, nt_score_inc := nt_score_inc t, nt_stats := nt_stats t, nt_ftab := nt_ftab t,
         nt_an := (nt_an s)\<lparr>an_analyzed := an_analyzed (nt_an t)\<rparr>\<rparr>" using assms by (simp add: bump_frame_def)
  show "nt_as t = nt_as s" "nt_phases t = nt_phases s" "nt_next_addr t = nt_next_addr s" "nt_clauses t = nt_clauses s"
    "nt_opts t = nt_opts s" "nt_unsat t = nt_unsat s" "an_clause (nt_an t) = an_clause (nt_an s)"
    "an_minimized (nt_an t) = an_minimized (nt_an s)" "nt_conflict t = nt_conflict s" "nt_proof t = nt_proof s"
    by (subst t, simp)+
qed

lemma ctx_bump:
  assumes c: "conflict_ctx F a B s" and fr: "bump_frame s t" and dc: "nt_dc_inv t" "0 < nt_score_inc t"
  shows "conflict_ctx F a B t"
proof -
  have core: "core_frame s t" using fr by (simp add: bump_frame_def)
  note f = bump_frame_fields [OF fr] and g = core_frame_cong [OF core]
  have h: "nt_max_var t = nt_max_var s" "nt_level t = nt_level s" "nt_vtab t = nt_vtab s" "nt_mem t = nt_mem s" "nt_trail t = nt_trail s"
    "nt_control t = nt_control s" "nt_propagated t = nt_propagated s" using core by (simp_all add: core_frame_def)
  have si: "side_inv s" using c by (simp add: conflict_ctx_def)
  have "dec_inv t" by (rule dec_inv_core [OF _ f(1)]) (use si h in \<open>simp_all add: side_inv_def\<close>)
  then have "side_inv t" using si dc(2) by (simp add: side_inv_def ph_inv_def as_inv_def addr_inv_def f h)
  moreover have "covers F t" by (rule covers_keeps [OF _ keeps_fields]) (use c h in \<open>simp_all add: conflict_ctx_def\<close>)
  ultimately show ?thesis using c dc(1) unfolding conflict_ctx_def g h by blast
qed


lemma ctx_backtrack:
  assumes c: "conflict_ctx F a B s" and n: "n < nt_level s"
  obtains t where "backtrack n s = Some t" "nt_wf F t" "nt_dc_inv t" "lv_trail (nt_control t ! nt_level t) \<le> nt_propagated t"
    "nt_done_for (\<lambda>b. b \<notin> B) t (nt_propagated t)" "nt_trail t = kept_at n s (nt_trail s)" "nt_level t = n"
    "nt_mem t = nt_mem s" "nt_opts t = nt_opts s" "nt_max_var t = nt_max_var s" "\<And>l. lit_level t l = lit_level s l"
    "side_step s t" "side_inv t" "covers F t"
proof -
  let ?P = "\<lambda>b. b \<noteq> a \<and> b \<notin> B"
  have d: "nt_wf F s" "nt_dc_inv s" "lv_trail (nt_control s ! nt_level s) \<le> nt_propagated s"
    "nt_done_for ?P s (lv_trail (nt_control s ! nt_level s))" "side_inv s" "covers F s" using c by (simp_all add: conflict_ctx_def)
  have li: "nt_level_inv s" using d(1) by (simp add: nt_wf_def)
  have "map lv_trail (nt_control s) ! (n + 1) \<le> map lv_trail (nt_control s) ! nt_level s"
    by (rule sorted_nth_mono) (use li n in \<open>simp_all add: nt_level_inv_def\<close>)
  then have "lv_trail (nt_control s ! (n + 1)) \<le> lv_trail (nt_control s ! nt_level s)" using li n by (simp add: nt_level_inv_def)
  then have "nt_done_for ?P s (min (nt_propagated s) (lv_trail (nt_control s ! (n + 1))))"
    using nt_done_for_mono [OF d(4)] by simp
  from backtrack_for_ok [OF d(1,2) n this d(3)] obtain t where t: "backtrack n s = Some t" "nt_wf F t" "nt_dc_inv t"
    "nt_done_for ?P t (nt_propagated t)" "lv_trail (nt_control t ! nt_level t) \<le> nt_propagated t"
    "nt_trail t = kept_at n s (nt_trail s)" "nt_level t = n" "nt_control t = take (n + 1) (nt_control s)"
    "nt_max_var t = nt_max_var s" "nt_mem t = nt_mem s" "nt_wtab t = nt_wtab s" "nt_opts t = nt_opts s" "\<And>l. lit_level t l = lit_level s l" by blast
  have ss: "side_step s t" by (rule backtrack_side [OF t(1)])
  obtain e where e: "nt_mem s a = Some e" "lit_level s (so_literals e ! 0) = nt_level s" "lit_level s (so_literals e ! 1) = nt_level s"
    using c by (auto simp: conflict_ctx_def)
  have "nt_done_for (\<lambda>b. b \<notin> B) t (nt_propagated t)"
    unfolding nt_done_for_def
  proof (intro allI impI)
    fix l w p
    assume x: "lit_ok (nt_max_var t) l" "w \<in> set (nt_wtab t l)" "wa_clause w \<notin> B" "p < nt_propagated t" "p < length (nt_trail t)" "nt_trail t ! p = - l"
    show "sat_at t p (wa_clause w)"
    proof (cases "wa_clause w = a")
      case False
      then show ?thesis using t(4) x unfolding nt_done_for_def by blast
    next
      case True
      have "watch_inv (nt_max_var t) (nt_mem t) (nt_wtab t)" using t(2) by (simp add: nt_wf_def)
      from watch_okD [OF this x(1,2)] have "l = so_literals e ! 0 \<or> l = so_literals e ! 1" using True e(1) t(10) by force
      then have "lit_level s l = nt_level s" using e by auto
      moreover have "- l \<in> set (nt_trail t)" using x(5,6) by (metis nth_mem)
      then have "lit_level s (- l) \<le> n" by (simp add: t(6) kept_at_def)
      ultimately show ?thesis using n by simp
    qed
  qed
  moreover have "side_inv t"
    by (rule side_inv_step [OF d(5) ss]) (use dec_inv_back [OF _ same_as_eq n d(1) t(6,7,8,13)] d(5) side_step_fields(1) [OF ss] t(10) in \<open>simp_all add: side_inv_def\<close>)
  moreover have "covers F t" by (rule covers_keeps [OF d(6) kept_keeps [OF t(10,6,13)]])
  ultimately show thesis using that [OF t(1-3,5) _ t(6,7,10,12,9,13) ss] by blast
qed

text \<open>Assigning after backtracking: a literal that was false above the level is unassigned.\<close>

lemma backtracked_free:
  assumes "nt_wf F s" "nt_wf F t" "nt_trail t = kept_at n s (nt_trail s)" "- l \<in> set (nt_trail s)" "n < lit_level s l"
  shows "nt_val t l = 0"
proof -
  have ti: "nt_trail_inv s" "nt_trail_inv t" using assms(1,2) by (simp_all add: nt_wf_def)
  have "l \<notin> set (nt_trail s)"
    using distinct_abs_trail [of "nt_trail s" "- l"] assms(4) ti(1) by (auto simp: nt_trail_inv_def lit_ok_def)
  then have "l \<notin> set (nt_trail t)" "- l \<notin> set (nt_trail t)" using assms(3,5) by (auto simp: kept_at_def)
  then show ?thesis by (simp add: nt_val_trail [OF ti(2)] trail_val_def)
qed

lemma ready_conflict_None:
  assumes "nt_wf F s" "nt_dc_inv s" "nt_done s (nt_propagated s)" "lv_trail (nt_control s ! nt_level s) \<le> nt_propagated s"
  shows "nt_ready F (s\<lparr>nt_conflict := None\<rparr>)"
  using assms unfolding ready_no_conflict by blast

lemma unit_ready:
  assumes wf: "nt_wf F s" and dc: "nt_dc_inv s" and don: "nt_done s (nt_propagated s)"
    and high: "lv_trail (nt_control s ! nt_level s) \<le> nt_propagated s" and asg: "assignable F l r s"
  shows "nt_ready F ((search_assign l r s)\<lparr>nt_conflict := None\<rparr>)"
proof (rule ready_conflict_None)
  have ti: "nt_trail_inv s" using wf by (simp add: nt_wf_def)
  have l: "nt_val s l = 0" "lit_ok (nt_max_var s) l" using asg by (simp_all add: assignable_def)
  note f = search_assign_fields [of l r s]
  show "nt_wf F (search_assign l r s)" by (rule search_assign_wf [OF wf asg])
  show "nt_dc_inv (search_assign l r s)" by (rule nt_dc_inv_assign [OF dc]) (use l(2) in \<open>simp add: lit_ok_def\<close>)
  show "nt_done (search_assign l r s) (nt_propagated (search_assign l r s))"
    unfolding f by (rule nt_done_assign [OF ti l don]) (use ti in \<open>simp add: nt_trail_inv_def\<close>)
  show "lv_trail (nt_control (search_assign l r s) ! nt_level (search_assign l r s)) \<le> nt_propagated (search_assign l r s)"
    unfolding f by (rule high)
qed

lemma side_inv_assign:
  assumes "side_inv s" "nt_trail_inv s" "nt_val s l = 0" "lit_ok (nt_max_var s) l"
  shows "side_inv (search_assign l r s)"
  by (rule side_inv_step [OF assms(1) side_step_assign])
    (use dec_inv_assign [OF _ assms(2-4)] assms(1) in \<open>simp_all add: search_assign_fields side_inv_def\<close>)

lemma covers_assign:
  assumes "covers F s" "nt_trail_inv s" "nt_val s l = 0" "lit_ok (nt_max_var s) l"
  shows "covers F (search_assign l r s)"
  by (rule covers_keeps [OF assms(1) assign_keeps [OF assms(2-4)]])


subsection \<open>From the conflict to its level\<close>

text \<open>The invariant of the search between two rounds, first without the marks.\<close>

definition busy_inv :: "clause set \<Rightarrow> ('v :: linordered_field) Internal \<Rightarrow> bool" where
  "busy_inv F s \<longleftrightarrow> nt_ready F s \<and> nt_conflict s = None \<and> side_inv s \<and> covers F s \<and> co_chrono (nt_opts s) \<noteq> 0"

definition search_inv :: "clause set \<Rightarrow> ('v :: linordered_field) Internal \<Rightarrow> bool" where
  "search_inv F s \<longleftrightarrow> busy_inv F s \<and> quiet s"

lemma busy_invI:
  assumes "nt_ready F (s\<lparr>nt_conflict := None\<rparr>)" "side_inv s" "covers F s" "co_chrono (nt_opts s) \<noteq> 0"
  shows "busy_inv F (s\<lparr>nt_conflict := None\<rparr>)"
proof -
  let ?t = "s\<lparr>nt_conflict := None\<rparr>"
  have "dec_inv ?t" by (rule dec_inv_core) (use assms(2) in \<open>simp_all add: side_inv_def\<close>)
  then have "side_inv ?t" by (intro side_inv_step [OF assms(2) side_step_simps(5)]) simp_all
  moreover have "covers F ?t" by (rule covers_keeps [OF assms(3) keeps_fields]) simp_all
  ultimately show ?thesis using assms(1,4) by (simp add: busy_inv_def)
qed

lemma search_invI:
  assumes "nt_ready F (s\<lparr>nt_conflict := None\<rparr>)" "side_inv s" "quiet s" "covers F s" "co_chrono (nt_opts s) \<noteq> 0"
  shows "search_inv F (s\<lparr>nt_conflict := None\<rparr>)"
  using busy_invI [OF assms(1,2,4,5)] side_step_fields(10) [OF side_step_simps(5) [of s None]] assms(3)
  by (simp add: search_inv_def)

lemma busy_inv_frame:
  assumes b: "busy_inv F s" and fr: "an_frame s t"
  shows "busy_inv F t"
proof -
  have d: "nt_wf F s" "nt_dc_inv s" "nt_done s (nt_propagated s)" "lv_trail (nt_control s ! nt_level s) \<le> nt_propagated s"
    "nt_conflict s = None" "side_inv s" "covers F s" "co_chrono (nt_opts s) \<noteq> 0"
    using b by (auto simp: busy_inv_def nt_ready_def)
  note f = an_frame_fields [OF fr] and top = an_frame_ctl_top [OF fr d(1)]
  have "nt_done t (nt_propagated t)"
    using an_frame_done_for [OF fr d(1), of "\<lambda>_. True"] d(3) unfolding f nt_done_for_all by blast
  moreover have "nt_dc_inv t" using d(2) by (simp add: nt_dc_inv_def f)
  moreover have "side_inv t" by (rule side_inv_an_frame [OF d(6) fr]) (use d(1) in \<open>simp add: nt_wf_def\<close>)
  moreover have "covers F t" by (rule covers_keeps [OF d(7) an_frame_keeps [OF fr]])
  moreover have "nt_wf F t" by (rule an_frame_wf [OF fr d(1)])
  ultimately show ?thesis using d(4,5,8) top by (simp add: busy_inv_def nt_ready_def f)
qed

lemma busy_inv_thinned:
  assumes b: "busy_inv F s" and th: "thinned s t"
  shows "busy_inv F t"
proof -
  have t: "t = s\<lparr>nt_mem := nt_mem t, nt_stats := nt_stats t\<rparr>" using th by (simp add: thinned_def)
  have d: "nt_ready F s" "nt_conflict s = None" "side_inv s" "covers F s" "co_chrono (nt_opts s) \<noteq> 0" using b by (simp_all add: busy_inv_def)
  have ss: "side_step s t" by (subst t) (use flags_id in \<open>simp add: side_step_def ph_inv_def\<close>)
  have "dec_inv t" by (rule dec_inv_core [OF _ side_step_fields(1) [OF ss]]) (use d(3) in \<open>simp add: side_inv_def\<close>, (subst t, simp)+)
  moreover have "dom (nt_mem t) = dom (nt_mem s)" using thinnedD(5,6) [OF th] by (fastforce simp: dom_def)
  ultimately have "side_inv t" by (intro side_inv_step [OF d(3) ss])
  moreover have "nt_conflict t = None" "nt_opts t = nt_opts s" using thinnedD(2) [OF th] d(2) side_step_fields(7) [OF ss] by simp_all
  ultimately show ?thesis using thinned_ready [OF th d(1,2)] covers_keeps [OF d(4) thinned_keeps [OF th]] d(5) by (simp add: busy_inv_def)
qed

lemma reordered_side: "reordered a s t \<Longrightarrow> side_step s t"
proof -
  assume "reordered a s t"
  then have t: "t = s\<lparr>nt_mem := nt_mem t, nt_wtab := nt_wtab t\<rparr>" by (simp add: reordered_def)
  show ?thesis by (subst t) (use flags_id in \<open>simp add: side_step_def ph_inv_def\<close>)
qed

lemma reordered_done:
  assumes r: "reordered a s t" and don: "nt_done s n"
  shows "nt_done_for (\<lambda>b. b \<noteq> a \<and> b \<notin> {}) t n"
  unfolding nt_done_for_def
proof (intro allI impI)
  fix l w p
  note d = reorderedD [OF r]
  note c = same_core_cong [OF d(1)]
  assume x: "lit_ok (nt_max_var t) l" "w \<in> set (nt_wtab t l)" "wa_clause w \<noteq> a \<and> wa_clause w \<notin> {}" "p < n" "p < length (nt_trail t)" "nt_trail t ! p = - l"
  then have "w \<in> set (nt_wtab s l)" using d(6) by blast
  then have "sat_at s p (wa_clause w)" using don x unfolding nt_done_def c by blast
  then show "sat_at t p (wa_clause w)" using d(5) [of "wa_clause w"] x(3) by (simp add: sat_at_def nt_deref_def nt_literals_def c)
qed

text \<open>A state before the conflict level was reached, whose levels above it are those that \<open>s'\<close> has lost.\<close>

definition starts_from :: "'v Internal \<Rightarrow> 'v Internal \<Rightarrow> bool" where
  "starts_from s s' \<longleftrightarrow> lit_level s' = lit_level s \<and> nt_clauses s' = nt_clauses s \<and> (\<forall>b. nt_mem s' b = None \<longrightarrow> nt_mem s b = None)
     \<and> (nt_trail s' = nt_trail s \<or> (\<exists>r. nt_trail s' = kept_at r s (nt_trail s)))"

lemma an_frame_starts: "an_frame s t \<Longrightarrow> starts_from s t"
  by (simp add: starts_from_def an_frame_fields(1) an_frame_cong(2) an_frame_extra(4) an_frame_None)

lemma bump_frame_starts:
  assumes "bump_frame s t"
  shows "starts_from s t"
proof -
  have c: "core_frame s t" using assms by (simp add: bump_frame_def)
  then have "nt_mem t = nt_mem s" "nt_trail t = nt_trail s" by (simp_all add: core_frame_def)
  then show ?thesis by (simp add: starts_from_def bump_frame_fields(4) [OF assms] core_frame_cong(5) [OF c])
qed

lemma conflict_found:
  assumes rd: "nt_ready F s" and cf: "nt_conflict s = Some a" and si: "side_inv s" and co: "covers F s"
  obtains r f t c where "find_conflict_level a s = (r, f, t)" "nt_wf F t" "falsified t a" "nt_mem t a = Some c" "nt_conflict t = Some a"
    "r \<le> nt_level t" "lit_level t (so_literals c ! 0) = r"
    "\<And>j. 1 \<le> j \<Longrightarrow> j < length (so_literals c) \<Longrightarrow> lit_level t (so_literals c ! j) \<le> lit_level t (so_literals c ! 1)"
    "f \<noteq> 0 \<Longrightarrow> f = so_literals c ! 0 \<and> 0 < r \<and> lit_level t (so_literals c ! 1) < r"
    "f = 0 \<Longrightarrow> lit_level t (so_literals c ! 1) = r"
    "nt_dc_inv t" "lv_trail (nt_control t ! nt_level t) \<le> nt_propagated t"
    "nt_done_for (\<lambda>b. b \<noteq> a \<and> b \<notin> {}) t (lv_trail (nt_control t ! nt_level t))" "side_inv t" "covers F t" "side_step s t" "nt_opts t = nt_opts s"
    "starts_from s t"
proof -
  have d: "nt_wf F s" "nt_dc_inv s" "lv_trail (nt_control s ! nt_level s) \<le> nt_propagated s" "falsified s a"
    "nt_done s (lv_trail (nt_control s ! nt_level s))" using rd cf by (simp_all add: nt_ready_def)
  show thesis
  proof (rule find_conflict_level_ok [OF d(1,4)], goal_cases)
    case (1 r f t c)
    note t = this
    note e = reorderedD [OF t(3)]
    note g = same_core_cong [OF e(1)]
    have h: "nt_level t = nt_level s" "nt_control t = nt_control s" "nt_propagated t = nt_propagated s" "nt_decide t = nt_decide s" "nt_vtab t = nt_vtab s"
      using e(1) by (simp_all add: same_core_def)
    have ss: "side_step s t" by (rule reordered_side [OF t(3)])
    have dc: "nt_dc_inv t" using d(2) by (simp add: nt_dc_inv_def h g)
    have don: "nt_done_for (\<lambda>b. b \<noteq> a \<and> b \<notin> {}) t (lv_trail (nt_control t ! nt_level t))" unfolding h by (rule reordered_done [OF t(3) d(5)])
    have "dec_inv t" by (rule dec_inv_core [OF _ e(10) h(1,2) g(8) h(5)]) (use si in \<open>simp add: side_inv_def\<close>)
    then have si': "side_inv t" by (rule side_inv_step [OF si ss same_lits_dom [OF e(2)]])
    have co': "covers F t" by (rule covers_keeps [OF co same_lits_keeps [OF e(2)]]) (simp_all add: g)
    have "nt_trail t = nt_trail s" using e(1) by (simp add: same_core_def)
    moreover have "nt_mem t b = None \<longleftrightarrow> nt_mem s b = None" for b using same_lits_dom [OF e(2)] by (metis domIff)
    ultimately have "starts_from s t" by (simp add: starts_from_def g side_step_fields(3) [OF ss])
    then show thesis
      by (intro that [OF t(1,2,4,5)]) (use t(6-10) e(3,4) cf g(3) h d(3) dc don si' co' ss in simp_all)
qed
qed

subsection \<open>The literal that is driven\<close>

text \<open>
  What analysis does to the conflict \<open>a\<close>, from \<open>s\<close> to \<open>t\<close>: the trail loses the levels above the new one
  and gets one literal \<open>l\<close> that was false above it.  Either \<open>l\<close> follows from the formula and is fixed at
  level zero, or its reason is a clause that follows from the formula, with \<open>l\<close> in front, whose other
  literals are false, the second one on the highest of their levels.  That clause is the conflict itself, or a new
  redundant clause, the last in the list, which is watched at its first two literals.
\<close>

definition driven :: "clause set \<Rightarrow> nat \<Rightarrow> 'v Internal \<Rightarrow> 'v Internal \<Rightarrow> bool" where
  "driven F a s t \<longleftrightarrow>
     (\<exists>l. - l \<in> set (nt_trail s) \<and> nt_level t < lit_level s l
        \<and> nt_trail t = filter (\<lambda>k. lit_level s k \<le> nt_level t) (nt_trail s) @ [l]
        \<and> (lit_level t l = 0 \<and> entails F [l] \<and> nt_clauses t = nt_clauses s
           \<or> (\<exists>b c. va_reason (nt_var t l) = Clause_reason b \<and> nt_mem t b = Some c \<and> entails F (so_literals c)
                \<and> so_literals c ! 0 = l \<and> lit_level t (so_literals c ! 1) = lit_level t l
                \<and> (\<forall>k \<in> set (so_literals c). k \<noteq> l \<longrightarrow> - k \<in> set (nt_trail t) \<and> lit_level t k \<le> lit_level t l)
                \<and> (b = a \<and> nt_clauses t = nt_clauses s
                   \<or> nt_mem s b = None \<and> nt_clauses t = nt_clauses s @ [b] \<and> so_redundant c \<and> \<not> so_garbage c
                     \<and> watched (nt_wtab t) (so_literals c ! 0) b \<and> watched (nt_wtab t) (so_literals c ! 1) b))))"

text \<open>What follows the assignment leaves the trail and the driving clause alone.\<close>

definition settled :: "nat \<Rightarrow> 'v Internal \<Rightarrow> 'v Internal \<Rightarrow> bool" where
  "settled b s t \<longleftrightarrow> nt_trail t = nt_trail s \<and> nt_level t = nt_level s \<and> nt_vtab t = nt_vtab s \<and> nt_clauses t = nt_clauses s
     \<and> (\<forall>c. nt_mem s b = Some c \<longrightarrow>
          (\<exists>d. nt_mem t b = Some d \<and> so_literals d = so_literals c \<and> so_redundant d = so_redundant c \<and> so_garbage d = so_garbage c))"

lemma settled_trans: "settled b s t \<Longrightarrow> settled b t u \<Longrightarrow> settled b s u"
  by (fastforce simp: settled_def)

lemma settled_frame:
  assumes "an_frame s t"
  shows "settled b s t"
proof -
  have "\<exists>d. nt_mem t b = Some d \<and> so_literals d = so_literals c \<and> so_redundant d = so_redundant c \<and> so_garbage d = so_garbage c"
    if "nt_mem s b = Some c" for c
    using an_frame_mem [OF assms that] by auto
  then show ?thesis using assms by (simp add: settled_def an_frame_def)
qed

lemma settled_conflict: "settled b s (s\<lparr>nt_conflict := x\<rparr>)"
  by (simp add: settled_def)

text \<open>Where the driven literal comes from, before it is assigned in \<open>t\<close>.\<close>

lemma drive_driven:
  assumes inv: "search_inv F u" and st: "settled b (search_assign l r t) u" and tiv: "nt_trail_inv t" "nt_val t l = 0" "lit_ok (nt_max_var t) l"
    and l: "- l \<in> set (nt_trail s)" "nt_level t < lit_level s l" "nt_trail t = kept_at (nt_level t) s (nt_trail s)"
    and r: "r = No_reason \<and> nt_clauses t = nt_clauses s
      \<or> r = Clause_reason b \<and> nt_mem t b = Some c \<and> so_literals c ! 0 = l
        \<and> - (so_literals c ! 1) \<in> set (nt_trail t) \<and> assigned_level l r t \<le> lit_level t (so_literals c ! 1)
        \<and> (b = a \<and> nt_clauses t = nt_clauses s
           \<or> nt_mem s b = None \<and> nt_clauses t = nt_clauses s @ [b] \<and> so_redundant c \<and> \<not> so_garbage c \<and> 0 < assigned_level l r t)"
  shows "driven F a s u"
proof -
  let ?v = "search_assign l r t"
  have wf: "nt_wf F u" using inv by (simp add: search_inv_def busy_inv_def nt_ready_def)
  have ri: "nt_reasons_inv F u" and mi: "mem_inv F (nt_max_var u) (nt_mem u)" and wi: "watch_inv (nt_max_var u) (nt_mem u) (nt_wtab u)"
    using wf by (simp_all add: nt_wf_def)
  have cl: "nt_clauses ?v = nt_clauses t" by (rule side_step_fields(3) [OF side_step_assign])
  have tr: "nt_trail u = nt_trail t @ [l]" "nt_level u = nt_level t" "nt_clauses u = nt_clauses t"
    using st by (simp_all add: settled_def search_assign_fields cl)
  have vt: "nt_vtab u = nt_vtab ?v" using st by (simp add: settled_def)
  have lev: "lit_level u l = assigned_level l r t" using assign_frame(3) [OF tiv, where r = r] by (simp add: lit_level_def nt_var_def vt)
  have old: "lit_level u k = lit_level t k" if "- k \<in> set (nt_trail t)" for k
    using assign_frame(1) [OF tiv, of k r] that by (simp add: lit_level_def nt_var_def vt)
  have "reason_ok F u (length (nt_trail t))" using ri by (simp add: nt_reasons_inv_def tr(1))
  then have ok: "if lit_level u l = 0 then entails F [l]
    else case va_reason (nt_var u l) of
        No_reason \<Rightarrow> True
      | Clause_reason a \<Rightarrow> \<exists>c. nt_mem u a = Some c \<and> l \<in> set (so_literals c)
         \<and> (\<forall>k \<in> set (so_literals c). k \<noteq> l \<longrightarrow> - k \<in> set (nt_trail t) \<and> lit_level u k \<le> lit_level u l)
      | _ \<Rightarrow> False"
    by (auto simp: reason_ok_def Let_def tr(1) split: if_splits reason.splits)
  have rs: "va_reason (nt_var u l) = (if r = Decision_reason \<or> assigned_level l r t = 0 then No_reason else r)"
    by (simp add: nt_var_def vt search_assign_fields)
  have base: "- l \<in> set (nt_trail s) \<and> nt_level u < lit_level s l
      \<and> nt_trail u = filter (\<lambda>k. lit_level s k \<le> nt_level u) (nt_trail s) @ [l]"
    using l tr(1,2) by (simp add: kept_at_def)
  show ?thesis
  proof (cases "lit_level u l = 0")
    case True
    then have "nt_clauses u = nt_clauses s" using r lev tr(3) by auto
    then show ?thesis using True ok base by (auto simp: driven_def)
  next
    case False
    then have n: "assigned_level l r t \<noteq> 0" using lev by simp
    then have rc: "r = Clause_reason b" "nt_mem t b = Some c" "so_literals c ! 0 = l" "- (so_literals c ! 1) \<in> set (nt_trail t)"
      "assigned_level l r t \<le> lit_level t (so_literals c ! 1)"
      "b = a \<and> nt_clauses t = nt_clauses s \<or> nt_mem s b = None \<and> nt_clauses t = nt_clauses s @ [b] \<and> so_redundant c \<and> \<not> so_garbage c"
      using r by (auto simp: assigned_level_def)
    have "nt_mem ?v b = Some c" using rc(2) by (simp add: search_assign_fields)
    then obtain d where d: "nt_mem u b = Some d" "so_literals d = so_literals c" "so_redundant d = so_redundant c" "so_garbage d = so_garbage c"
      using st unfolding settled_def by blast
    have re: "va_reason (nt_var u l) = Clause_reason b" using rs n rc(1) by simp
    then have ks: "\<forall>k \<in> set (so_literals d). k \<noteq> l \<longrightarrow> - k \<in> set (nt_trail t) \<and> lit_level u k \<le> lit_level u l"
      using ok False d(1) by simp
    have sc: "sclause_ok (nt_max_var u) d" "entails F (so_literals d)" using mi d(1) by (auto simp: mem_inv_def)
    have ln: "0 < length (so_literals d)" "1 < length (so_literals d)" "distinct (so_literals d)" using sc(1) by (auto simp: sclause_ok_def)
    then have "so_literals d ! 1 \<noteq> l" using nth_eq_iff_index_eq [OF ln(3,1,2)] rc(3) d(2) by simp
    then have "lit_level u (so_literals d ! 1) \<le> lit_level u l" using ks nth_mem [OF ln(2)] by blast
    moreover have "lit_level u l \<le> lit_level u (so_literals d ! 1)" using rc(5) old [OF rc(4)] lev d(2) by simp
    ultimately have l1: "lit_level u (so_literals d ! 1) = lit_level u l" by simp
    have w: "\<not> so_garbage d \<Longrightarrow> watched (nt_wtab u) (so_literals d ! 0) b \<and> watched (nt_wtab u) (so_literals d ! 1) b"
      using wi d(1) by (simp add: watch_inv_def)
    have "\<exists>b c. va_reason (nt_var u l) = Clause_reason b \<and> nt_mem u b = Some c \<and> entails F (so_literals c)
                \<and> so_literals c ! 0 = l \<and> lit_level u (so_literals c ! 1) = lit_level u l
                \<and> (\<forall>k \<in> set (so_literals c). k \<noteq> l \<longrightarrow> - k \<in> set (nt_trail u) \<and> lit_level u k \<le> lit_level u l)
                \<and> (b = a \<and> nt_clauses u = nt_clauses s
                   \<or> nt_mem s b = None \<and> nt_clauses u = nt_clauses s @ [b] \<and> so_redundant c \<and> \<not> so_garbage c
                     \<and> watched (nt_wtab u) (so_literals c ! 0) b \<and> watched (nt_wtab u) (so_literals c ! 1) b)"
      by (intro exI [of _ b] exI [of _ d] conjI) (use re d sc(2) rc(3,6) l1 ks w in \<open>auto simp: tr\<close>)
    then show ?thesis using base unfolding driven_def by blast
  qed
qed

text \<open>The same, seen from an earlier state with more levels.\<close>

lemma driven_from:
  assumes d: "driven F a s' t" and f: "starts_from s s'"
  shows "driven F a s t"
proof -
  have lv: "lit_level s' l = lit_level s l" and cl: "nt_clauses s' = nt_clauses s" and mem: "nt_mem s' b = None \<Longrightarrow> nt_mem s b = None" for l b
    using f by (simp_all add: starts_from_def)
  obtain r where tr: "nt_trail s' = nt_trail s \<or> nt_trail s' = kept_at r s (nt_trail s)" using f unfolding starts_from_def by blast
  then have sub: "set (nt_trail s') \<subseteq> set (nt_trail s)" by (auto simp: kept_at_def)
  have cut: "filter (\<lambda>k. lit_level s' k \<le> nt_level t) (nt_trail s') = filter (\<lambda>k. lit_level s k \<le> nt_level t) (nt_trail s)"
    if l: "- l \<in> set (nt_trail s')" "nt_level t < lit_level s' l" for l
    using tr
  proof
    assume k: "nt_trail s' = kept_at r s (nt_trail s)"
    then have "nt_level t < r" using l lv by (simp add: kept_at_def)
    then show ?thesis by (simp add: k kept_at_def lv) (rule filter_cong, auto)
  qed (simp add: lv)
  show ?thesis using d cut sub mem unfolding driven_def cl lv by (elim exE conjE) (rule exI, intro conjI, blast, assumption, metis lv, blast)
qed

text \<open>A conflict with a single literal of its level drives that literal.\<close>

lemma forced_ok:
  assumes wf: "nt_wf F t" and dc: "nt_dc_inv t" and high: "lv_trail (nt_control t ! nt_level t) \<le> nt_propagated t"
    and don: "nt_done_for (\<lambda>b. b \<noteq> a \<and> b \<notin> {}) t (lv_trail (nt_control t ! nt_level t))" and si: "side_inv t" and co: "covers F t"
    and qu: "quiet t" and ch: "co_chrono (nt_opts t) \<noteq> 0" and fa: "falsified t a" and c: "nt_mem t a = Some c"
    and r: "r \<le> nt_level t" "lit_level t f = r" "f = so_literals c ! 0" "0 < r" "lit_level t (so_literals c ! 1) < r"
    and sec: "\<And>j. 1 \<le> j \<Longrightarrow> j < length (so_literals c) \<Longrightarrow> lit_level t (so_literals c ! j) \<le> lit_level t (so_literals c ! 1)"
  obtains u where "backtrack (r - 1) t = Some u"
    "search_inv F ((search_assign_driving f (Some a) (build_chain_for_units f a False u))\<lparr>nt_conflict := None\<rparr>)"
    "nt_as (search_assign_driving f (Some a) (build_chain_for_units f a False u)) = nt_as t"
    "driven F a t ((search_assign_driving f (Some a) (build_chain_for_units f a False u))\<lparr>nt_conflict := None\<rparr>)"
proof -
  let ?P = "\<lambda>b. b \<noteq> a \<and> b \<notin> {}"
  have n: "r - 1 < nt_level t" "r - 1 + 1 = r" using r by simp_all
  have li: "nt_level_inv t" using wf by (simp add: nt_wf_def)
  have "map lv_trail (nt_control t) ! r \<le> map lv_trail (nt_control t) ! nt_level t"
    by (rule sorted_nth_mono) (use li r in \<open>simp_all add: nt_level_inv_def\<close>)
  then have "lv_trail (nt_control t ! r) \<le> lv_trail (nt_control t ! nt_level t)" using li r by (simp add: nt_level_inv_def)
  then have dn: "nt_done_for ?P t (min (nt_propagated t) (lv_trail (nt_control t ! (r - 1 + 1))))"
    using nt_done_for_mono [OF don] unfolding n by simp
  obtain u where u: "backtrack (r - 1) t = Some u" "nt_wf F u" "nt_dc_inv u"
    "nt_done_for ?P u (nt_propagated u)" "lv_trail (nt_control u ! nt_level u) \<le> nt_propagated u"
    "nt_trail u = kept_at (r - 1) t (nt_trail t)" "nt_level u = r - 1" "nt_control u = take (r - 1 + 1) (nt_control t)"
    "nt_max_var u = nt_max_var t" "nt_mem u = nt_mem t" "nt_opts u = nt_opts t" "\<And>l. lit_level u l = lit_level t l"
    by (rule backtrack_for_ok [OF wf dc n(1) dn high]) (rule that; assumption)
  have ss: "side_step t u" by (rule backtrack_side [OF u(1)])
  have "dec_inv u" by (rule dec_inv_back [OF _ same_as_eq n(1) wf u(6,7,8,12)]) (use si side_step_fields(1) [OF ss] in \<open>simp_all add: side_inv_def\<close>)
  then have siu: "side_inv u" by (intro side_inv_step [OF si ss]) (simp_all add: u(10))
  have cou: "covers F u" by (rule covers_keeps [OF co kept_keeps [OF u(10,6,12)]])
  let ?v = "build_chain_for_units f a False u"
  have sv: "nt_same u ?v" by simp
  note v = nt_same_cong [OF sv]
  have vf: "nt_max_var ?v = nt_max_var u" "nt_level ?v = nt_level u" "nt_mem ?v = nt_mem u" "nt_trail ?v = nt_trail u" "nt_opts ?v = nt_opts u"
    "nt_control ?v = nt_control u" "nt_propagated ?v = nt_propagated u" "nt_wtab ?v = nt_wtab u" "nt_decide ?v = nt_decide u" "nt_vtab ?v = nt_vtab u"
    using sv by (simp_all add: nt_same_def)
  have cl: "sclause_ok (nt_max_var t) c" using wf c by (auto simp: nt_wf_def mem_inv_def)
  then have len: "2 \<le> length (so_literals c)" "\<forall>l \<in> set (so_literals c). lit_ok (nt_max_var t) l" by (simp_all add: sclause_ok_def)
  have "0 < length (so_literals c)" using len(1) by linarith
  then have f: "f \<in> set (so_literals c)" using r(3) by simp
  have fls: "\<forall>l \<in> set (so_literals c). - l \<in> set (nt_trail t)" using fa c by (auto simp: falsified_def)
  have f0: "nt_val u f = 0" by (rule backtracked_free [OF wf u(2,6)]) (use fls f r in auto)
  have others: "- k \<in> set (nt_trail u)" if k: "k \<in> set (so_literals c)" "k \<noteq> f" for k
  proof -
    obtain j where j: "j < length (so_literals c)" "so_literals c ! j = k" using k(1) by (auto simp: in_set_conv_nth)
    then have "1 \<le> j" using k(2) r(3) by (cases j) auto
    then have "lit_level t k < r" using sec [of j] j r(5) by auto
    then show ?thesis using fls k(1) by (auto simp: u(6) kept_at_def)
  qed
  have asg: "assignable F f (Clause_reason a) ?v"
    using f others len(2) f0 c by (auto simp: assignable_def v vf u(9,10))
  have wfv: "nt_wf F ?v" using u(2) v(9) by simp
  have mem: "nt_mem ?v a = Some c" using c by (simp add: vf u(10))
  have lev: "assigned_level f (Clause_reason a) ?v \<le> lit_level ?v (so_literals c ! 1)"
  proof (rule drive_level [OF mem r(3) [symmetric]])
    show "co_chrono (nt_opts ?v) \<noteq> 0 \<or> nt_level ?v = lit_level ?v (so_literals c ! 1)" using ch by (simp add: vf u(11))
    show "lit_level ?v (so_literals c ! j) \<le> lit_level ?v (so_literals c ! 1)" if "1 \<le> j" "j < length (so_literals c)" for j
      using sec [OF that] by (simp add: v u(12))
  qed
  have donv: "nt_done_for (\<lambda>b. b \<noteq> a) ?v (nt_propagated ?v)"
    using u(4) by (simp add: nt_done_for_def v vf)
  have "nt_ready F ((search_assign f (Clause_reason a) ?v)\<lparr>nt_conflict := None\<rparr>)"
    by (rule drive_ok [OF wfv _ _ donv asg mem r(3) [symmetric] lev]) (use u(3,5) in \<open>simp_all add: nt_dc_inv_def vf\<close>)
  moreover have tiv: "nt_trail_inv ?v" using wfv by (simp add: nt_wf_def)
  have fv: "nt_val ?v f = 0" "lit_ok (nt_max_var ?v) f" using asg by (simp_all add: assignable_def)
  have ssv: "side_step u ?v" by simp
  have "dec_inv ?v" by (rule dec_inv_core [OF _ side_step_fields(1) [OF ssv] vf(2,6,4,10)]) (use siu in \<open>simp add: side_inv_def\<close>)
  then have "side_inv ?v" by (intro side_inv_step [OF siu ssv]) (simp_all add: vf)
  then have "side_inv (search_assign f (Clause_reason a) ?v)" by (rule side_inv_assign [OF _ tiv fv])
  moreover have "covers F (search_assign f (Clause_reason a) ?v)"
    by (rule covers_assign [OF _ tiv fv], rule covers_keeps [OF cou keeps_fields]) (simp_all add: vf)
  moreover have "quiet (search_assign f (Clause_reason a) ?v)"
    using qu side_step_fields(10) [OF ss] side_step_fields(10) [OF ssv] side_step_fields(10) [OF side_step_assign] by blast
  moreover have "co_chrono (nt_opts (search_assign f (Clause_reason a) ?v)) \<noteq> 0" using ch by (simp add: search_assign_fields vf u(11))
  ultimately have inv: "search_inv F ((search_assign f (Clause_reason a) ?v)\<lparr>nt_conflict := None\<rparr>)" by (intro search_invI)
  have "driven F a t ((search_assign f (Clause_reason a) ?v)\<lparr>nt_conflict := None\<rparr>)"
  proof (rule drive_driven [OF inv settled_conflict tiv fv, where b = a and c = c])
    show "- f \<in> set (nt_trail t)" using fls f by blast
    show "nt_level ?v < lit_level t f" using r(2,4) by (simp add: vf u(7))
    show "nt_trail ?v = kept_at (nt_level ?v) t (nt_trail t)" by (simp add: vf u(6,7))
    have "so_literals c ! 1 \<in> set (so_literals c)" using len(1) by (intro nth_mem) linarith
    moreover have "so_literals c ! 1 \<noteq> f" using r(2,5) by auto
    ultimately have "- (so_literals c ! 1) \<in> set (nt_trail ?v)" using others by (simp add: vf)
    moreover have "nt_clauses ?v = nt_clauses t" using side_step_fields(3) [OF ss] side_step_fields(3) [OF ssv] by simp
    ultimately show "Clause_reason a = No_reason \<and> nt_clauses ?v = nt_clauses t
      \<or> Clause_reason a = Clause_reason a \<and> nt_mem ?v a = Some c \<and> so_literals c ! 0 = f
        \<and> - (so_literals c ! 1) \<in> set (nt_trail ?v) \<and> assigned_level f (Clause_reason a) ?v \<le> lit_level ?v (so_literals c ! 1)
        \<and> (a = a \<and> nt_clauses ?v = nt_clauses t
           \<or> nt_mem t a = None \<and> nt_clauses ?v = nt_clauses t @ [a] \<and> so_redundant c \<and> \<not> so_garbage c
             \<and> 0 < assigned_level f (Clause_reason a) ?v)"
      using mem r(3) lev by simp
  qed
  moreover note inv
  moreover have "nt_as (search_assign f (Clause_reason a) ?v) = nt_as t"
    using side_step_fields(1) [OF ss] side_step_fields(1) [OF ssv] side_step_fields(1) [OF side_step_assign] by metis
  ultimately show thesis using that u(1) by (simp add: search_assign_driving_def)
qed


subsection \<open>Clearing what analysis used\<close>

definition unseen :: "int list \<Rightarrow> 'v Internal \<Rightarrow> 'v Internal" where
  "unseen ls s = fold (\<lambda>lit. nt_set_flags lit (\<lambda>f. f\<lparr>fg_seen := False\<rparr>)) ls s"

lemma unseen_ok:
  fixes s :: "'v Internal"
  shows "nt_ftab (unseen ls s) v = (if v \<in> vidx ` set ls then (nt_ftab s v)\<lparr>fg_seen := False\<rparr> else nt_ftab s v)"
  "nt_an (unseen ls s) = nt_an s" "an_frame s (unseen ls s)"
  unfolding unseen_def
proof (induction ls arbitrary: s)
  case (Cons l ls)
  define g where "g = (\<lambda>lit. nt_set_flags lit (\<lambda>f. f\<lparr>fg_seen := False\<rparr>) :: 'v Internal \<Rightarrow> 'v Internal)"
  note C = Cons [folded g_def]
  have u: "nt_ftab (g l s) w = (if w = vidx l then (nt_ftab s w)\<lparr>fg_seen := False\<rparr> else nt_ftab s w)" "nt_an (g l s) = nt_an s" for w s
    by (simp_all add: g_def nt_set_flags_def)
  have fr: "an_frame s (g l s)" for s by (simp add: g_def)
  {
    case 1
    show ?case unfolding g_def [symmetric] using C(1) [of "g l s"] by (auto simp: u(1))
  next
    case 2
    show ?case unfolding g_def [symmetric] using C(2) [of "g l s"] by (simp add: u(2))
  next
    case 3
    show ?case unfolding g_def [symmetric] using an_frame_trans [OF fr C(3)] by simp
  }
qed simp_all

definition level_cleared :: "nat \<Rightarrow> 'v Internal \<Rightarrow> 'v Internal" where
  "level_cleared l s = (if l < length (nt_control s) then s\<lparr>nt_control := (nt_control s)[l := level_reset (nt_control s ! l)]\<rparr> else s)"

lemma level_cleared: "an_frame s (level_cleared l s)" "nt_an (level_cleared l s) = nt_an s" "nt_ftab (level_cleared l s) = nt_ftab s"
  by (auto simp: level_cleared_def level_reset_def intro: an_frame_control)

lemma levels_cleared:
  "an_frame s (fold level_cleared ls s)" "nt_an (fold level_cleared ls s) = nt_an s" "nt_ftab (fold level_cleared ls s) = nt_ftab s"
proof (induction ls arbitrary: s)
  case (Cons l ls)
  {
    case 1
    show ?case using an_frame_trans [OF level_cleared(1) Cons(1)] by simp
  next
    case 2
    show ?case by (simp add: Cons(2) level_cleared)
  next
    case 3
    show ?case by (simp add: Cons(3) level_cleared)
  }
qed simp_all

lemma clear_folds:
  "clear_analyzed_literals s = nt_analysis (\<lambda>n. n\<lparr>an_analyzed := []\<rparr>) (unseen (an_analyzed (nt_an s)) s)"
  "clear_unit_analyzed_literals s = nt_analysis (\<lambda>n. n\<lparr>an_unit_analyzed := []\<rparr>) (unseen (an_unit_analyzed (nt_an s)) s)"
  "clear_analyzed_levels s = nt_analysis (\<lambda>n. n\<lparr>an_levels := []\<rparr>) (fold level_cleared (an_levels (nt_an s)) s)"
  by (simp_all add: clear_analyzed_literals_def clear_unit_analyzed_literals_def clear_analyzed_levels_def unseen_def level_cleared_def [abs_def])

lemma clear_conflict_ok:
  assumes "\<forall>v. clean (nt_ftab s v)" "seen_inv s" "an_minimized (nt_an s) = []"
  shows "an_frame (s\<lparr>nt_conflict := None\<rparr>) (clear_conflict s)" "quiet (clear_conflict s)" "nt_conflict (clear_conflict s) = None"
proof -
  define a where "a = clear_analyzed_literals s"
  define b where "b = clear_unit_analyzed_literals a"
  define c where "c = clear_analyzed_levels b"
  define d where "d = nt_analysis (\<lambda>n. n\<lparr>an_clause := []\<rparr>) c"
  have t: "clear_conflict s = nt_log (\<lambda>p. p\<lparr>pf_lrat_chain := []\<rparr>) (d\<lparr>nt_conflict := None\<rparr>)"
    by (simp only: clear_conflict_def Let_def a_def b_def c_def d_def)
  have fa: "an_frame s a" unfolding a_def clear_folds by (rule an_frame_up [OF unseen_ok(3)])
  have fb: "an_frame a b" unfolding b_def clear_folds by (rule an_frame_up [OF unseen_ok(3)])
  have fc: "an_frame b c" unfolding c_def clear_folds by (rule an_frame_up [OF levels_cleared(1)])
  have "an_frame s d" unfolding d_def by (rule an_frame_up [OF an_frame_trans [OF an_frame_trans [OF fa fb] fc]])
  then have "an_frame (s\<lparr>nt_conflict := None\<rparr>) (d\<lparr>nt_conflict := None\<rparr>)" by (simp add: an_frame_def)
  then show "an_frame (s\<lparr>nt_conflict := None\<rparr>) (clear_conflict s)" unfolding t by (rule an_frame_trans) simp
  show "nt_conflict (clear_conflict s) = None" by (simp add: t nt_log_def)
  have an: "an_clause (nt_an d) = []" "an_analyzed (nt_an d) = []" "an_unit_analyzed (nt_an d) = []" "an_minimized (nt_an d) = []"
    using assms(3)
    by (simp_all add: unseen_ok levels_cleared d_def c_def b_def a_def clear_folds nt_analysis_def)
  have cl: "clean (f\<lparr>fg_seen := x\<rparr>) = clean f" for f x by (simp add: clean_def)
  have ga: "nt_ftab a v = (if v \<in> vidx ` set (an_analyzed (nt_an s)) then (nt_ftab s v)\<lparr>fg_seen := False\<rparr> else nt_ftab s v)"
    "an_unit_analyzed (nt_an a) = an_unit_analyzed (nt_an s)" for v
    by (simp_all add: unseen_ok a_def clear_folds nt_analysis_def)
  have gb: "nt_ftab b v = (if v \<in> vidx ` set (an_unit_analyzed (nt_an s)) then (nt_ftab a v)\<lparr>fg_seen := False\<rparr> else nt_ftab a v)" for v
    by (simp add: unseen_ok b_def clear_folds nt_analysis_def ga(2))
  have gd: "nt_ftab d = nt_ftab b" by (simp add: levels_cleared d_def c_def clear_folds nt_analysis_def)
  have "clean (nt_ftab d v) \<and> \<not> fg_seen (nt_ftab d v)" for v
    using assms(1,2) unfolding gd gb ga(1) seen_inv_def by (auto simp: cl image_Un)
  then show "quiet (clear_conflict s)" by (simp add: quiet_def t nt_log_def an)
qed

lemma clear_conflict_as:
  assumes "\<forall>v. clean (nt_ftab s v)" "seen_inv s" "an_minimized (nt_an s) = []"
  shows "nt_as (clear_conflict s) = nt_as s"
  using an_frame_extra(1) [OF clear_conflict_ok(1) [OF assms]] by simp

lemma clear_conflict_settled:
  assumes "\<forall>v. clean (nt_ftab s v)" "seen_inv s" "an_minimized (nt_an s) = []"
  shows "settled b s (clear_conflict s)"
  by (rule settled_trans [OF settled_conflict settled_frame [OF clear_conflict_ok(1) [OF assms]]])

lemma cleared_search:
  assumes "nt_ready F (s\<lparr>nt_conflict := None\<rparr>)" "side_inv s" "covers F s" "co_chrono (nt_opts s) \<noteq> 0"
    and "\<forall>v. clean (nt_ftab s v)" "seen_inv s" "an_minimized (nt_an s) = []"
  shows "search_inv F (clear_conflict s)"
  using clear_conflict_ok [OF assms(5-7)] busy_inv_frame [OF busy_invI [OF assms(1-4)]] by (simp add: search_inv_def)

lemma eager_loop_self: "nt_mem (eager_loop c lim ds s) c = nt_mem s c"
proof (induction c lim ds s rule: eager_loop.induct)
  case (2 c lim d ds s)
  have m: "nt_mem (nt_count f s) = nt_mem s" "d \<noteq> c \<Longrightarrow> nt_mem (mark_garbage d s) c = nt_mem s c" for f d and s :: "'a Internal"
    by (simp_all add: nt_count_def mark_garbage_def nt_store_def)
  show ?case using "2.IH" by (simp add: Let_def m)
qed simp

lemma eager_settled:
  assumes "search_inv F s"
  shows "settled b s (eagerly_subsume_recently_learned_clauses b s)"
proof -
  let ?t = "eagerly_subsume_recently_learned_clauses b s"
  have "set (rev (nt_clauses s)) \<subseteq> dom (nt_mem s)" using assms by (simp add: search_inv_def busy_inv_def side_inv_def addr_inv_def)
  from eager_loop_ok [OF this] have "thinned s ?t" by (simp add: eagerly_subsume_recently_learned_clauses_def)
  then have t: "?t = s\<lparr>nt_mem := nt_mem ?t, nt_stats := nt_stats ?t\<rparr>" by (simp add: thinned_def)
  have "nt_trail ?t = nt_trail s" "nt_level ?t = nt_level s" "nt_vtab ?t = nt_vtab s" "nt_clauses ?t = nt_clauses s" by (subst t, simp)+
  moreover have "nt_mem ?t b = nt_mem s b" by (simp add: eagerly_subsume_recently_learned_clauses_def eager_loop_self)
  ultimately show ?thesis by (simp add: settled_def)
qed

lemma eager_search:
  assumes "search_inv F s"
  shows "search_inv F (eagerly_subsume_recently_learned_clauses c s)" "nt_as (eagerly_subsume_recently_learned_clauses c s) = nt_as s"
proof -
  have b: "busy_inv F s" "quiet s" using assms by (simp_all add: search_inv_def)
  have "set (rev (nt_clauses s)) \<subseteq> dom (nt_mem s)" using b(1) by (simp add: busy_inv_def side_inv_def addr_inv_def)
  from eager_loop_ok [OF this] have th: "thinned s (eagerly_subsume_recently_learned_clauses c s)"
    by (simp add: eagerly_subsume_recently_learned_clauses_def)
  let ?t = "eagerly_subsume_recently_learned_clauses c s"
  have t: "?t = s\<lparr>nt_mem := nt_mem ?t, nt_stats := nt_stats ?t\<rparr>" using th by (simp add: thinned_def)
  have "quiet ?t" by (subst t) (use b(2) in \<open>simp add: quiet_def\<close>)
  then show "search_inv F ?t" using busy_inv_thinned [OF b(1) th] by (simp add: search_inv_def)
  show "nt_as ?t = nt_as s" by (subst t) simp
qed

subsection \<open>Learning the clause\<close>

definition marks_inv :: "'v Internal \<Rightarrow> bool" where
  "marks_inv s \<longleftrightarrow> (\<forall>v. clean (nt_ftab s v)) \<and> seen_inv s \<and> an_minimized (nt_an s) = []"

lemma marks_inv_step:
  assumes "side_step s t" "marks_inv s"
  shows "marks_inv t"
proof -
  have an: "nt_an t = nt_an s" using assms(1) by (simp add: side_step_def)
  have "clean (nt_ftab t v) = clean (nt_ftab s v) \<and> fg_seen (nt_ftab t v) = fg_seen (nt_ftab s v)" for v
  proof -
    obtain st where "nt_ftab t v = (nt_ftab s v)\<lparr>fg_status := st\<rparr>" using assms(1) unfolding side_step_def by blast
    then show ?thesis by (simp add: clean_def)
  qed
  then show ?thesis using assms(2) by (simp add: marks_inv_def seen_inv_def an)
qed

lemma driven_search:
  assumes rd: "nt_ready F ((search_assign l r t)\<lparr>nt_conflict := None\<rparr>)" and si: "side_inv t" and co: "covers F t"
    and l: "nt_wf F t" "nt_val t l = 0" "lit_ok (nt_max_var t) l" and ch: "co_chrono (nt_opts t) \<noteq> 0" and m: "marks_inv t"
  shows "search_inv F (clear_conflict (search_assign l r t)) \<and> nt_as (clear_conflict (search_assign l r t)) = nt_as t
    \<and> settled b (search_assign l r t) (clear_conflict (search_assign l r t))"
proof -
  have ti: "nt_trail_inv t" using l(1) by (simp add: nt_wf_def)
  have "marks_inv (search_assign l r t)" by (rule marks_inv_step [OF side_step_assign m])
  then have k: "\<forall>v. clean (nt_ftab (search_assign l r t) v)" "seen_inv (search_assign l r t)" "an_minimized (nt_an (search_assign l r t)) = []"
    by (simp_all add: marks_inv_def)
  have "search_inv F (clear_conflict (search_assign l r t))"
    by (rule cleared_search [OF rd side_inv_assign [OF si ti l(2,3)] covers_assign [OF co ti l(2,3)] _ k])
      (use ch in \<open>simp add: search_assign_fields\<close>)
  moreover have "nt_as (clear_conflict (search_assign l r t)) = nt_as t"
    using clear_conflict_as [OF k] side_step_fields(1) [OF side_step_assign] by metis
  ultimately show ?thesis using clear_conflict_settled [OF k] by blast
qed

lemma ctx_learned:
  assumes c: "conflict_ctx F a {} s" and t: "learned b c s t" and wf: "nt_wf F t"
  shows "conflict_ctx F a {b} t"
proof -
  have d: "same_core s t" "nt_mem s b = None" "nt_mem t = (nt_mem s)(b \<mapsto> c)" "nt_opts t = nt_opts s" "nt_as t = nt_as s" "nt_phases t = nt_phases s"
    "nt_clauses t = nt_clauses s @ [b]" "nt_next_addr t = b + 1" "b = nt_next_addr s" "nt_score_inc t = nt_score_inc s"
    "nt_unsat t = nt_unsat s" "\<And>l w. wa_clause w \<noteq> b \<Longrightarrow> w \<in> set (nt_wtab t l) \<longleftrightarrow> w \<in> set (nt_wtab s l)"
    using t unfolding learned_def by blast+
  note g = same_core_cong [OF d(1)]
  have f: "nt_level t = nt_level s" "nt_control t = nt_control s" "nt_propagated t = nt_propagated s" "nt_decide t = nt_decide s" "nt_vtab t = nt_vtab s"
    using d(1) by (simp_all add: same_core_def)
  obtain e where e: "nt_mem s a = Some e" "lit_level s (so_literals e ! 0) = nt_level s" "lit_level s (so_literals e ! 1) = nt_level s"
    using c by (auto simp: conflict_ctx_def)
  have ab: "a \<noteq> b" using e(1) d(2) by auto
  have si: "side_inv s" and don: "nt_done_for (\<lambda>b. b \<noteq> a \<and> b \<notin> {}) s (lv_trail (nt_control s ! nt_level s))" using c by (simp_all add: conflict_ctx_def)
  have "nt_done_for (\<lambda>x. x \<noteq> a \<and> x \<notin> {b}) t (lv_trail (nt_control t ! nt_level t))"
    unfolding nt_done_for_def
  proof (intro allI impI)
    fix l w p
    assume x: "lit_ok (nt_max_var t) l" "w \<in> set (nt_wtab t l)" "wa_clause w \<noteq> a \<and> wa_clause w \<notin> {b}"
      "p < lv_trail (nt_control t ! nt_level t)" "p < length (nt_trail t)" "nt_trail t ! p = - l"
    then have "w \<in> set (nt_wtab s l)" using d(12) by simp
    then have "sat_at s p (wa_clause w)" using don x unfolding nt_done_for_def f g by blast
    then show "sat_at t p (wa_clause w)" using x(3) by (simp add: sat_at_def nt_deref_def nt_literals_def g d(3))
  qed
  moreover have "dec_inv t" by (rule dec_inv_core [OF _ d(5) f(1,2) g(8) f(5)]) (use si in \<open>simp add: side_inv_def\<close>)
  then have "side_inv t"
    using si unfolding side_inv_def ph_inv_def as_inv_def addr_inv_def d(4-8,10,11) g d(3)
    by (auto simp: d(9) less_Suc_eq)
  moreover have "covers F t" by (rule covers_keeps [OF _ learned_keeps [OF t]]) (use c in \<open>simp add: conflict_ctx_def\<close>)
  moreover have "nt_dc_inv t" "lv_trail (nt_control t ! nt_level t) \<le> nt_propagated t" using c by (simp_all add: conflict_ctx_def nt_dc_inv_def f g)
  ultimately show ?thesis using wf e ab by (simp add: conflict_ctx_def d(3) g f)
qed

lemma analyze_learn_ok:
  assumes ctx: "conflict_ctx F a {} s" and L: "0 < nt_level s" and ch: "co_chrono (nt_opts s) \<noteq> 0" and so: "sort_ok std_sort" "length stack = 256"
    and cl: "\<forall>l \<in> set (an_clause (nt_an s)). - l \<in> set (nt_trail s)" "distinct (map vidx (an_clause (nt_an s)))" "entails F (an_clause (nt_an s))"
    and uip: "- uip \<in> set (an_clause (nt_an s))" "lit_level s uip = nt_level s"
      "\<And>k. k \<in> set (an_clause (nt_an s)) \<Longrightarrow> k \<noteq> - uip \<Longrightarrow> 0 < lit_level s k \<and> lit_level s k < nt_level s"
    and m: "marks_inv s"
  obtains t where "analyze_learn std_sort stack glue uip s = Some t" "search_inv F t" "nt_as t = nt_as s" "driven F a s t"
proof -
  let ?C = "an_clause (nt_an s)"
  define s1 where "s1 = (if pf_lrat (nt_proof s)
     then nt_log (\<lambda>p. p\<lparr>pf_lrat_chain := rev (pf_lrat_chain p @ pf_unit_chain p), pf_unit_chain := []\<rparr>) s else s)"
  have fr: "an_frame s s1" by (simp add: s1_def)
  have f: "nt_an s1 = nt_an s" "nt_ftab s1 = nt_ftab s" "nt_opts s1 = nt_opts s" by (simp_all add: s1_def nt_log_def)
  note v = an_frame_fields [OF fr] and lv = an_frame_cong(2) [OF fr]
  have m1: "marks_inv s1" using m by (simp add: marks_inv_def seen_inv_def f)
  have c1: "conflict_ctx F a {} s1" by (rule ctx_an_frame [OF ctx fr])
  have wf1: "nt_wf F s1" and si1: "side_inv s1" using c1 by (simp_all add: conflict_ctx_def)
  have ti: "nt_trail_inv s1" using wf1 by (simp add: nt_wf_def)
  have up: "uip \<in> set (nt_trail s1)" using uip(1) cl(1) v(1) by force
  then have ok: "lit_ok (nt_max_var s1) uip" "uip \<noteq> 0" using ti by (auto simp: nt_trail_inv_def lit_ok_def)
  show thesis
  proof (cases "length ?C = 1")
    case True
    then have C: "?C = [- uip]" using uip(1) by (cases ?C) auto
    define s2 where "s2 = s1\<lparr>nt_iterating := True\<rparr>"
    have fr2: "an_frame s1 s2" by (simp add: s2_def an_frame_def)
    have nd: "new_driving_clause std_sort stack glue s1 = (None, 0, s2)" using C by (simp add: new_driving_clause_def f s2_def)
    have L2: "0 < nt_level s2" using L v(2) by (simp add: s2_def)
    obtain n g where n: "determine_actual_backtrack_level 0 s2 = (n, nt_count g s2)" "n < nt_level s2"
      by (rule determine_level_ok [OF L2])
    define s3 where "s3 = nt_count g s2"
    have c3: "conflict_ctx F a {} s3" unfolding s3_def by (rule ctx_an_frame [OF ctx_an_frame [OF c1 fr2]]) simp
    have w3: "nt_level s3 = nt_level s" "nt_trail s3 = nt_trail s1" "nt_opts s3 = nt_opts s" "\<And>l. lit_level s3 l = lit_level s l" "nt_max_var s3 = nt_max_var s1"
    proof -
      show "lit_level s3 l = lit_level s l" for l
        using fun_cong [OF lv, of l] by (simp add: s3_def s2_def nt_count_def lit_level_def nt_var_def)
    qed (use v(2) in \<open>simp_all add: s3_def s2_def nt_count_def f\<close>)
    have n3: "n < nt_level s3" using n(2) by (simp add: s3_def nt_count_def)
    have m3: "marks_inv s3" using m1 by (simp add: marks_inv_def seen_inv_def s3_def s2_def nt_count_def)
    have wf3: "nt_wf F s3" using c3 by (simp add: conflict_ctx_def)
    obtain t where t: "backtrack n s3 = Some t" "nt_wf F t" "nt_dc_inv t" "lv_trail (nt_control t ! nt_level t) \<le> nt_propagated t"
      "nt_done_for (\<lambda>b. b \<notin> {}) t (nt_propagated t)" "nt_trail t = kept_at n s3 (nt_trail s3)" "nt_level t = n"
      "nt_opts t = nt_opts s3" "nt_max_var t = nt_max_var s3" "side_step s3 t" "side_inv t" "covers F t"
      by (rule ctx_backtrack [OF c3 n3]) (rule that; assumption)
    have v0: "nt_val t (- uip) = 0"
      by (rule backtracked_free [OF wf3 t(2,6)]) (use up n3 uip(2) w3 in simp_all)
    have ok': "lit_ok (nt_max_var t) (- uip)" using ok(1) t(9) w3(5) by simp
    have don: "nt_done t (nt_propagated t)" using t(5) by (simp add: nt_done_for_def nt_done_def)
    have "nt_ready F ((search_assign (- uip) No_reason t)\<lparr>nt_conflict := None\<rparr>)"
      by (rule unit_ready [OF t(2,3) don t(4)]) (use v0 ok' cl(3) C in \<open>simp add: assignable_def\<close>)
    from driven_search [OF this t(11,12,2) v0 ok' _ marks_inv_step [OF t(10) m3]]
    have inv: "search_inv F (clear_conflict (search_assign (- uip) No_reason t))"
      "settled b (search_assign (- uip) No_reason t) (clear_conflict (search_assign (- uip) No_reason t))"
      "nt_as (clear_conflict (search_assign (- uip) No_reason t)) = nt_as t" for b
      using ch by (simp_all add: t(8) w3)
    have tit: "nt_trail_inv t" using t(2) by (simp add: nt_wf_def)
    have cs: "nt_clauses t = nt_clauses s"
      using side_step_fields(3) [OF t(10)] an_frame_extra(4) [OF fr] by (simp add: s3_def s2_def nt_count_def)
    have "driven F a s (clear_conflict (search_assign (- uip) No_reason t))"
    proof (rule drive_driven [OF inv(1,2) tit v0 ok'])
      show "- (- uip) \<in> set (nt_trail s)" using up v(1) by simp
      show "nt_level t < lit_level s (- uip)" using n3 uip(2) w3(1) by (simp add: t(7))
      show "nt_trail t = kept_at (nt_level t) s (nt_trail s)" using v(1) by (simp add: t(6,7) kept_at_def w3)
    qed (use cs in simp)
    moreover note inv(1,3)
    moreover have "nt_as t = nt_as s"
      using side_step_fields(1) [OF t(10)] an_frame_extra(1) [OF fr] by (simp add: s3_def s2_def nt_count_def)
    moreover have "analyze_learn std_sort stack glue uip s = Some (clear_conflict (search_assign (- uip) No_reason t))"
      using ok(2) by (simp add: analyze_learn_def s1_def [symmetric] nd n(1) s3_def [symmetric] t(1) search_assign_driving_def)
    ultimately show thesis using that by simp
  next
    case False
    moreover have "length ?C \<noteq> 0" using uip(1) by auto
    ultimately have two: "2 \<le> length ?C" by linarith
    have ad: "addr_inv s1" using si1 by (simp add: side_inv_def)
    have ir: "int_range s1" by (rule side_inv_int_range [OF si1 ti])
    have cl1: "\<forall>l \<in> set (an_clause (nt_an s1)). - l \<in> set (nt_trail s1)" "distinct (map vidx (an_clause (nt_an s1)))" "entails F (an_clause (nt_an s1))"
      "2 \<le> length (an_clause (nt_an s1))" using cl two v(1) f(1) by simp_all
    obtain b s2 c where b: "new_driving_clause std_sort stack glue s1 = (Some b, lit_level s1 (so_literals c ! 1), s2)" "nt_wf F s2"
      "learned b c s1 s2" "mset (so_literals c) = mset (an_clause (nt_an s1))" "so_redundant c" "\<not> so_garbage c"
      "\<And>i j. i \<le> j \<Longrightarrow> j < length (so_literals c) \<Longrightarrow> lit_level s1 (so_literals c ! j) \<le> lit_level s1 (so_literals c ! i)"
      by (rule new_driving_clause_ok [OF wf1 ad ir so cl1]) (rule that; assumption)
    have st: "set (so_literals c) = set ?C" and len: "length (so_literals c) = length ?C" using mset_eq_setD [OF b(4)] mset_eq_length [OF b(4)] f(1) by simp_all
    have di: "distinct (so_literals c)" using mset_eq_imp_distinct_iff [OF b(4)] cl(2) f(1) by (simp add: distinct_map)
    have ln: "0 < length (so_literals c)" "1 < length (so_literals c)" using two len by linarith+
    have lit0: "so_literals c ! 0 = - uip"
    proof (rule ccontr)
      assume no: "so_literals c ! 0 \<noteq> - uip"
      have "so_literals c ! 0 \<in> set ?C" using ln(1) st nth_mem by blast
      then have "lit_level s (so_literals c ! 0) < nt_level s" using uip(3) [OF _ no] by blast
      moreover obtain j where j: "j < length (so_literals c)" "so_literals c ! j = - uip" using uip(1) st by (metis in_set_conv_nth)
      ultimately show False using b(7) [of 0 j] uip(2) by (simp add: lv)
    qed
    have ne: "so_literals c ! 1 \<noteq> - uip" using nth_eq_iff_index_eq [OF di ln] lit0 by linarith
    have j1: "lit_level s1 (so_literals c ! 1) < nt_level s" using uip(3) [OF _ ne] st nth_mem [OF ln(2)] by (simp add: lv)
    have l: "same_core s1 s2" "nt_mem s2 = (nt_mem s1)(b \<mapsto> c)" "nt_opts s2 = nt_opts s1" "nt_ftab s2 = nt_ftab s1" "\<exists>ls. nt_an s2 = (nt_an s1)\<lparr>an_clause := ls\<rparr>"
      using b(3) unfolding learned_def by blast+
    note g = same_core_cong [OF l(1)]
    have L2: "lit_level s1 (so_literals c ! 1) < nt_level s2" using j1 v(2) l(1) by (simp add: same_core_def)
    obtain n h where n: "determine_actual_backtrack_level (lit_level s1 (so_literals c ! 1)) s2 = (n, nt_count h s2)"
      "lit_level s1 (so_literals c ! 1) \<le> n" "n < nt_level s2" by (rule determine_level_ok [OF L2])
    define s3 where "s3 = nt_count h s2"
    have c3: "conflict_ctx F a {b} s3" unfolding s3_def by (rule ctx_an_frame [OF ctx_learned [OF c1 b(3,2)]]) simp
    have w3: "nt_level s3 = nt_level s" "nt_trail s3 = nt_trail s1" "nt_opts s3 = nt_opts s" "\<And>l. lit_level s3 l = lit_level s1 l"
      "nt_max_var s3 = nt_max_var s1" "nt_mem s3 = nt_mem s2"
      using v(2) l(1) l(3) g(3,7,8) f(3) by (simp_all add: s3_def nt_count_def same_core_def lit_level_def nt_var_def)
    have n3: "n < nt_level s3" using n(3) by (simp add: s3_def nt_count_def)
    have m3: "marks_inv s3" using m1 l(4,5) by (auto simp: marks_inv_def seen_inv_def s3_def nt_count_def)
    have wf3: "nt_wf F s3" using c3 by (simp add: conflict_ctx_def)
    obtain t where t: "backtrack n s3 = Some t" "nt_wf F t" "nt_dc_inv t" "lv_trail (nt_control t ! nt_level t) \<le> nt_propagated t"
      "nt_done_for (\<lambda>x. x \<notin> {b}) t (nt_propagated t)" "nt_trail t = kept_at n s3 (nt_trail s3)" "nt_mem t = nt_mem s3"
      "nt_opts t = nt_opts s3" "nt_max_var t = nt_max_var s3" "\<And>l. lit_level t l = lit_level s3 l" "side_step s3 t" "side_inv t" "covers F t" "nt_level t = n"
      by (rule ctx_backtrack [OF c3 n3]) (rule that; assumption)
    have v0: "nt_val t (- uip) = 0"
      by (rule backtracked_free [OF wf3 t(2,6)]) (use up n3 uip(2) w3 lv in simp_all)
    have ok': "lit_ok (nt_max_var t) (- uip)" using ok(1) t(9) w3(5) by simp
    have mem: "nt_mem t b = Some c" by (simp add: t(7) w3(6) l(2))
    have others: "- k \<in> set (nt_trail t)" if k: "k \<in> set (so_literals c)" "k \<noteq> - uip" for k
    proof -
      obtain j where j: "j < length (so_literals c)" "so_literals c ! j = k" using k(1) by (auto simp: in_set_conv_nth)
      then have "1 \<le> j" using k(2) lit0 by (cases j) auto
      then have "lit_level s1 k \<le> n" using b(7) [of 1 j] j n(2) by auto
      moreover have "- k \<in> set (nt_trail s1)" using cl1(1) k(1) st f(1) by simp
      ultimately show ?thesis by (simp add: t(6) kept_at_def w3)
    qed
    have "- uip \<in> set (so_literals c)" using uip(1) st by simp
    then have asg: "assignable F (- uip) (Clause_reason b) t" using v0 ok' mem others by (auto simp: assignable_def)
    have don: "nt_done_for (\<lambda>x. x \<noteq> b) t (nt_propagated t)" using t(5) by simp
    have lev: "assigned_level (- uip) (Clause_reason b) t \<le> lit_level t (so_literals c ! 1)"
    proof (rule drive_level [OF mem lit0])
      show "co_chrono (nt_opts t) \<noteq> 0 \<or> nt_level t = lit_level t (so_literals c ! 1)" using ch by (simp add: t(8) w3)
      show "lit_level t (so_literals c ! j) \<le> lit_level t (so_literals c ! 1)" if "1 \<le> j" "j < length (so_literals c)" for j
        using b(7) [OF that] by (simp add: t(10) w3)
    qed
    have "nt_ready F ((search_assign (- uip) (Clause_reason b) t)\<lparr>nt_conflict := None\<rparr>)"
      by (rule drive_ok [OF t(2,3,4) don asg mem lit0 lev])
    from driven_search [OF this t(12,13,2) v0 ok' _ marks_inv_step [OF t(11) m3]]
    have inv: "search_inv F (clear_conflict (search_assign (- uip) (Clause_reason b) t))"
      "nt_as (clear_conflict (search_assign (- uip) (Clause_reason b) t)) = nt_as t"
      "settled b (search_assign (- uip) (Clause_reason b) t) (clear_conflict (search_assign (- uip) (Clause_reason b) t))"
      using ch by (simp_all add: t(8) w3)
    have "nt_as s2 = nt_as s1" using b(3) unfolding learned_def by blast
    then have as: "nt_as t = nt_as s" using side_step_fields(1) [OF t(11)] an_frame_extra(1) [OF fr] by (simp add: s3_def nt_count_def)
    let ?u = "clear_conflict (search_assign (- uip) (Clause_reason b) t)"
    have "analyze_learn std_sort stack glue uip s =
        Some (if co_eagersubsume (nt_opts ?u) then eagerly_subsume_recently_learned_clauses b ?u else ?u)"
      using ok(2) by (simp add: analyze_learn_def s1_def [symmetric] b(1) n(1) [unfolded One_nat_def] s3_def [symmetric] t(1) search_assign_driving_def Let_def)
    moreover have "search_inv F (if co_eagersubsume (nt_opts ?u) then eagerly_subsume_recently_learned_clauses b ?u else ?u)"
      "nt_as (if co_eagersubsume (nt_opts ?u) then eagerly_subsume_recently_learned_clauses b ?u else ?u) = nt_as s"
      "settled b (search_assign (- uip) (Clause_reason b) t) (if co_eagersubsume (nt_opts ?u) then eagerly_subsume_recently_learned_clauses b ?u else ?u)"
      using inv eager_search [OF inv(1)] as settled_trans [OF inv(3) eager_settled [OF inv(1)]] by simp_all
    moreover have "driven F a s w" if w: "search_inv F w" "settled b (search_assign (- uip) (Clause_reason b) t) w" for w
    proof (rule drive_driven [OF w _ v0 ok', where c = c])
      show "nt_trail_inv t" using t(2) by (simp add: nt_wf_def)
      show "- (- uip) \<in> set (nt_trail s)" using up v(1) by simp
      show "nt_level t < lit_level s (- uip)" using n3 uip(2) w3(1) by (simp add: t(14))
      show "nt_trail t = kept_at (nt_level t) s (nt_trail s)" using v(1) by (simp add: t(6,14) kept_at_def w3 lv)
      have one: "so_literals c ! 1 \<in> set (so_literals c)" by (rule nth_mem [OF ln(2)])
      have "0 < lit_level t (so_literals c ! 1)" using uip(3) [OF _ ne] one st by (simp add: t(10) w3 lv)
      also have "\<dots> \<le> assignment_level (- uip) (Clause_reason b) t"
        by (rule assignment_level_ge) (use one ne mem in \<open>simp_all add: nt_literals_def nt_deref_def\<close>)
      finally have "0 < assigned_level (- uip) (Clause_reason b) t" using ch by (simp add: assigned_level_def t(8) w3)
      moreover have "nt_mem s1 b = None" using b(3) unfolding learned_def by (elim conjE)
      then have "nt_mem s b = None" by (simp add: an_frame_None [OF fr])
      moreover have "nt_clauses s2 = nt_clauses s1 @ [b]" using b(3) unfolding learned_def by blast
      then have "nt_clauses t = nt_clauses s @ [b]"
        using side_step_fields(3) [OF t(11)] an_frame_extra(4) [OF fr] by (simp add: s3_def nt_count_def)
      ultimately show "Clause_reason b = No_reason \<and> nt_clauses t = nt_clauses s
        \<or> Clause_reason b = Clause_reason b \<and> nt_mem t b = Some c \<and> so_literals c ! 0 = - uip
          \<and> - (so_literals c ! 1) \<in> set (nt_trail t) \<and> assigned_level (- uip) (Clause_reason b) t \<le> lit_level t (so_literals c ! 1)
          \<and> (b = a \<and> nt_clauses t = nt_clauses s
             \<or> nt_mem s b = None \<and> nt_clauses t = nt_clauses s @ [b] \<and> so_redundant c \<and> \<not> so_garbage c
               \<and> 0 < assigned_level (- uip) (Clause_reason b) t)"
        using mem lit0 lev others [OF one ne] b(5,6) by simp
    qed
    ultimately show thesis using that by blast
  qed
qed

subsection \<open>From the conflict to the learned clause\<close>

text \<open>An implied and falsified clause with one literal of the current level.\<close>

definition uip_clause :: "clause set \<Rightarrow> int \<Rightarrow> 'v Internal \<Rightarrow> bool" where
  "uip_clause F uip s \<longleftrightarrow>
     (let C = an_clause (nt_an s) in
      (\<forall>l \<in> set C. - l \<in> set (nt_trail s)) \<and> distinct (map vidx C) \<and> entails F C \<and> - uip \<in> set C
      \<and> lit_level s uip = nt_level s \<and> (\<forall>k \<in> set C. k \<noteq> - uip \<longrightarrow> 0 < lit_level s k \<and> lit_level s k < nt_level s))"

text \<open>A clause that can drop one literal, and its literals of level zero.\<close>

definition otfs_clause :: "clause set \<Rightarrow> nat \<Rightarrow> int \<Rightarrow> 'v Internal \<Rightarrow> bool" where
  "otfs_clause F b u s \<longleftrightarrow> (\<exists>c. nt_mem s b = Some c \<and> u \<in> set (so_literals c)
     \<and> entails F (filter (\<lambda>k. k \<noteq> u \<and> 0 < lit_level s k) (so_literals c)))"

lemma learn_uip_ok:
  assumes "conflict_ctx F a {} s" "0 < nt_level s" "co_chrono (nt_opts s) \<noteq> 0" "sort_ok std_sort" "length stack = 256"
    and "uip_clause F uip s" "marks_inv s"
  obtains t where "analyze_learn std_sort stack glue uip s = Some t" "search_inv F t" "nt_as t = nt_as s" "driven F a s t"
  by (rule analyze_learn_ok [OF assms(1-5) _ _ _ _ _ _ assms(7)]) (use assms(6) that in \<open>auto simp: uip_clause_def Let_def\<close>)

definition analyzed_lits_ok :: "'v Internal \<Rightarrow> bool" where
  "analyzed_lits_ok s \<longleftrightarrow> (\<forall>l \<in> set (an_analyzed (nt_an s)). lit_ok (nt_max_var s) l)"

lemma first_uip_found:
  assumes wf: "nt_wf F s" and L: "0 < nt_level s" and cf: "nt_conflict s = Some a" "falsified s a"
    and top: "\<exists>k \<in> set (nt_literals s a). lit_level s k = nt_level s" and qu: "quiet s"
  obtains r z t where "analyze_conflict s = Some (r, z, t)" "an_frame s t" "marks_inv t"
    "\<And>u. r = First_uip u \<Longrightarrow> uip_clause F u t \<and> analyzed_lits_ok t" "\<And>b u. r = Otfs_candidate b u \<Longrightarrow> co_otfs (nt_opts s) \<and> otfs_clause F b u t"
proof -
  have q: "an_analyzed (nt_an s) = []" "an_clause (nt_an s) = []" "\<forall>v. \<not> fg_seen (nt_ftab s v)" "an_minimized (nt_an s) = []" "\<forall>v. clean (nt_ftab s v)"
    using qu by (simp_all add: quiet_def)
  obtain r z t where t: "analyze_conflict s = Some (r, z, t)" "an_frame s t" and
    c: "case r of
       First_uip u \<Rightarrow> entails F (an_clause (nt_an t)) \<and> distinct (map vidx (an_clause (nt_an t)))
         \<and> (\<forall>k \<in> set (an_clause (nt_an t)). - k \<in> set (nt_trail t) \<and> 0 < lit_level t k)
         \<and> last (an_clause (nt_an t)) = - u \<and> lit_level t u = nt_level t
         \<and> (\<forall>k \<in> set (butlast (an_clause (nt_an t))). lit_level t k < nt_level t)
         \<and> (\<forall>k \<in> set (an_analyzed (nt_an t)). - k \<in> set (nt_trail t)) \<and> an_clause (nt_an t) \<noteq> []
     | Otfs_candidate b u \<Rightarrow> co_otfs (nt_opts t) \<and> (\<exists>c. nt_mem t b = Some c \<and> u \<in> set (so_literals c)
         \<and> entails F (filter (\<lambda>k. k \<noteq> u \<and> 0 < lit_level t k) (so_literals c)))"
    by (rule analyze_conflict_ok [OF wf L cf top q(1-3)])
  have "seen_inv s" using q(3) by (simp add: seen_inv_def)
  then have m: "marks_inv t" using analyze_conflict_mark [OF t(1)] q(4,5) by (simp add: mark_step_def marks_inv_def)
  have ti: "nt_trail_inv t" using an_frame_wf [OF t(2) wf] by (simp add: nt_wf_def)
  have u: "uip_clause F u t \<and> analyzed_lits_ok t" if "r = First_uip u" for u
  proof -
    let ?C = "an_clause (nt_an t)"
    have d: "entails F ?C" "distinct (map vidx ?C)" "\<forall>k \<in> set ?C. - k \<in> set (nt_trail t) \<and> 0 < lit_level t k" "last ?C = - u" "lit_level t u = nt_level t"
      "\<forall>k \<in> set (butlast ?C). lit_level t k < nt_level t" "\<forall>k \<in> set (an_analyzed (nt_an t)). - k \<in> set (nt_trail t)" "?C \<noteq> []"
      using c that by simp_all
    have "?C = butlast ?C @ [- u]" using append_butlast_last_id [OF d(8)] d(4) by simp
    then have st: "set ?C = insert (- u) (set (butlast ?C))" by (metis Un_insert_right list.simps(15) empty_set set_append sup_bot.right_neutral)
    have "lit_ok (nt_max_var t) k" if "k \<in> set (an_analyzed (nt_an t))" for k
      using d(7) that ti by (metis lit_ok_uminus nt_trail_inv_def)
    then show ?thesis using d(1-6) st by (simp add: uip_clause_def Let_def analyzed_lits_ok_def)
  qed
  have o: "co_otfs (nt_opts s) \<and> otfs_clause F b u t" if "r = Otfs_candidate b u" for b u
    using c that by (simp add: an_frame_fields [OF t(2)] otfs_clause_def)
  show thesis by (rule that [OF t m u o])
qed

lemma minimized_uip:
  assumes wf: "nt_wf F s" and L: "0 < nt_level s" and so: "sort_ok std_sort" "length stack = 256" and cl: "uip_clause F uip s" and m: "marks_inv s"
    and ok: "analyzed_lits_ok s"
  obtains t where "minimize_clause (std_sort rank) stack s = Some t" "an_frame s t" "uip_clause F uip t" "marks_inv t" "analyzed_lits_ok t"
proof -
  have so': "\<forall>xs. mset (std_sort rank xs) = mset xs" using so(1) by (simp add: sort_ok_def)
  have c: "\<forall>l \<in> set (an_clause (nt_an s)). - l \<in> set (nt_trail s)" "distinct (map vidx (an_clause (nt_an s)))" "entails F (an_clause (nt_an s))"
    "- uip \<in> set (an_clause (nt_an s))" "lit_level s uip = nt_level s"
    "\<forall>k \<in> set (an_clause (nt_an s)). k \<noteq> - uip \<longrightarrow> 0 < lit_level s k \<and> lit_level s k < nt_level s" using cl by (simp_all add: uip_clause_def Let_def)
  have mk: "clean (nt_ftab s v)" "an_minimized (nt_an s) = []" "seen_inv s" for v using m by (simp_all add: marks_inv_def)
  obtain t where t: "minimize_clause (std_sort rank) stack s = Some t" "an_frame s t"
    "set (an_clause (nt_an t)) \<subseteq> set (an_clause (nt_an s))" "distinct (map vidx (an_clause (nt_an t)))" "entails F (an_clause (nt_an t))"
    "\<And>l. l \<in> set (an_clause (nt_an s)) \<Longrightarrow> 0 < nt_level s \<Longrightarrow> lit_level s l = nt_level s \<Longrightarrow> l \<in> set (an_clause (nt_an t))"
    "\<And>v. clean (nt_ftab t v)" "an_minimized (nt_an t) = []"
    "\<exists>new. an_analyzed (nt_an t) = an_analyzed (nt_an s) @ new \<and> vidx ` set new \<subseteq> vidx ` set (nt_trail s)
       \<and> (\<forall>v. fg_seen (nt_ftab t v) \<longrightarrow> fg_seen (nt_ftab s v) \<or> v \<in> vidx ` set new)"
    "an_unit_analyzed (nt_an t) = an_unit_analyzed (nt_an s)"
    by (rule minimize_clause_ok [OF wf so' so(2) c(1-3) mk(1,2)]) (rule that; assumption)
  obtain new where new: "an_analyzed (nt_an t) = an_analyzed (nt_an s) @ new" "vidx ` set new \<subseteq> vidx ` set (nt_trail s)"
    "\<And>v. fg_seen (nt_ftab t v) \<Longrightarrow> fg_seen (nt_ftab s v) \<or> v \<in> vidx ` set new" using t(9) by blast
  note f = an_frame_fields [OF t(2)] and lv = an_frame_cong(2) [OF t(2)]
  have "- uip \<in> set (an_clause (nt_an t))" by (rule t(6) [OF c(4) L]) (simp add: c(5))
  then have "uip_clause F uip t" using c(1,5,6) t(3-5) by (auto simp: uip_clause_def Let_def f lv)
  moreover have "seen_inv t" using mk(3) new(1,3) unfolding seen_inv_def t(10) by (auto simp: image_Un)
  then have "marks_inv t" using t(7,8) by (simp add: marks_inv_def)
  moreover have "lit_ok (nt_max_var s) k" if "k \<in> set new" for k
  proof -
    have "vidx k \<in> vidx ` set (nt_trail s)" by (rule subsetD [OF new(2) imageI [OF that]])
    then obtain y where "y \<in> set (nt_trail s)" "vidx k = vidx y" by (rule imageE)
    moreover from this(1) have "lit_ok (nt_max_var s) y" using wf by (simp add: nt_wf_def nt_trail_inv_def)
    ultimately show ?thesis by (auto simp: lit_ok_def vidx_def)
  qed
  then have "analyzed_lits_ok t" using ok unfolding analyzed_lits_ok_def f new(1) by auto
  ultimately show thesis using that t(1,2) by blast
qed

lemma bumped_uip:
  assumes ctx: "conflict_ctx F a {} s" and so: "sort_ok std_sort" "length stack = 256" and cl: "uip_clause F uip s" and m: "marks_inv s"
    and ok: "analyzed_lits_ok s"
  obtains t where "bump_variables std_sort stack s = Some t" "conflict_ctx F a {} t" "uip_clause F uip t" "marks_inv t" "nt_level t = nt_level s"
    "nt_opts t = nt_opts s" "nt_as t = nt_as s" "starts_from s t"
proof -
  have d: "nt_wf F s" "nt_dc_inv s" "0 < nt_score_inc s" "0 < co_scorefactor (nt_opts s)" using ctx by (simp_all add: conflict_ctx_def side_inv_def)
  have c: "\<forall>l \<in> set (an_clause (nt_an s)). - l \<in> set (nt_trail s)" "\<forall>l \<in> set (an_analyzed (nt_an s)). lit_ok (nt_max_var s) l"
    using cl ok by (simp_all add: uip_clause_def Let_def analyzed_lits_ok_def)
  obtain t where t: "bump_variables std_sort stack s = Some t" "bump_frame s t" "nt_dc_inv t" "0 < nt_score_inc t"
    by (rule bump_variables_ok [OF d so c])
  note f = bump_frame_fields [OF t(2)]
  have h: "nt_level t = nt_level s" "nt_trail t = nt_trail s" "nt_vtab t = nt_vtab s" and s: "seen_inv s \<longrightarrow> seen_inv t" "\<forall>v. clean (nt_ftab t v) = clean (nt_ftab s v)"
    using t(2) by (simp_all add: bump_frame_def core_frame_def)
  have "uip_clause F uip t" using cl by (simp add: uip_clause_def Let_def f h lit_level_def nt_var_def)
  moreover have "marks_inv t" using m s by (simp add: marks_inv_def f)
  ultimately show thesis using that [OF t(1) ctx_bump [OF ctx t(2-4)]] h f(1,5) bump_frame_starts [OF t(2)] by blast
qed


text \<open>How analysis may end: at the empty clause, in a state to go on from, or at a call that is not modelled.\<close>

definition analyzed_ok :: "clause set \<Rightarrow> nat \<Rightarrow> ('v :: linordered_field) Internal \<Rightarrow> 'v analyzed \<Rightarrow> bool" where
  "analyzed_ok F a s r \<longleftrightarrow>
     (case r of Analyzed t \<Rightarrow> search_inv F t \<and> nt_as t = nt_as s \<and> driven F a s t \<or> nt_unsat t \<and> unsat F
      | To_strengthen b u _ t \<Rightarrow> co_otfs (nt_opts s) \<and> otfs_clause F b u t
      | To_shrink u t \<Rightarrow> co_shrink (nt_opts s) \<and> uip_clause F u t)"

lemma analyzed_from:
  "analyzed_ok F a s' r \<Longrightarrow> starts_from s s' \<Longrightarrow> nt_as s' = nt_as s \<Longrightarrow> nt_opts s' = nt_opts s \<Longrightarrow> analyzed_ok F a s r"
  by (auto simp: analyzed_ok_def driven_from split: analyzed.splits)

lemma analyze_uip_ok:
  assumes ctx: "conflict_ctx F a {} s" and L: "0 < nt_level s" and ch: "co_chrono (nt_opts s) \<noteq> 0" and so: "sort_ok std_sort" "length stack = 256"
    and cf: "nt_conflict s = Some a" "falsified s a" and qu: "quiet s"
  obtains r where "analyze_uip std_sort stack s = Some r" "analyzed_ok F a s r"
proof -
  have wf: "nt_wf F s" using ctx by (simp add: conflict_ctx_def)
  obtain c where c: "nt_mem s a = Some c" "lit_level s (so_literals c ! 0) = nt_level s" using ctx by (auto simp: conflict_ctx_def)
  then have "2 \<le> length (so_literals c)" using wf by (auto simp: nt_wf_def mem_inv_def sclause_ok_def)
  then have "so_literals c ! 0 \<in> set (nt_literals s a)" using c(1) by (simp add: nt_literals_def nt_deref_def) (rule nth_mem, linarith)
  then have top: "\<exists>k \<in> set (nt_literals s a). lit_level s k = nt_level s" using c(2) by blast
  obtain r z t where t: "analyze_conflict s = Some (r, z, t)" "an_frame s t" "marks_inv t"
    "\<And>u. r = First_uip u \<Longrightarrow> uip_clause F u t \<and> analyzed_lits_ok t" "\<And>b u. r = Otfs_candidate b u \<Longrightarrow> co_otfs (nt_opts s) \<and> otfs_clause F b u t"
    by (rule first_uip_found [OF wf L cf top qu]) (rule that; assumption)
  have ct: "conflict_ctx F a {} t" by (rule ctx_an_frame [OF ctx t(2)])
  note f = an_frame_fields [OF t(2)]
  have Lt: "0 < nt_level t" and cht: "co_chrono (nt_opts t) \<noteq> 0" using L ch by (simp_all add: f)
  show thesis
  proof (cases r)
    case (Otfs_candidate b u)
    then show thesis using that [of "To_strengthen b u z t"] t(1) t(5) by (simp add: analyze_uip_def analyzed_ok_def)
  next
    case (First_uip u)
    have cl: "uip_clause F u t" "analyzed_lits_ok t" using t(4) [OF First_uip] by simp_all
    let ?glue = "int (length (an_levels (nt_an t))) - 1"
    show thesis
    proof (cases "length (an_clause (nt_an t)) > 1")
      case False
      obtain x where "analyze_learn std_sort stack ?glue u t = Some x" "search_inv F x" "nt_as x = nt_as t" "driven F a t x"
        by (rule learn_uip_ok [OF ct Lt cht so cl(1) t(3)])
      then show thesis using that [of "Analyzed x"] False t(1) First_uip an_frame_extra(1) [OF t(2)] driven_from [OF _ an_frame_starts [OF t(2)]]
        by (simp add: analyze_uip_def analyzed_ok_def)
    next
      case True
      show thesis
      proof (cases "co_shrink (nt_opts t)")
        case sh: True
        then show thesis using that [of "To_shrink u t"] True t(1) First_uip cl(1) by (simp add: analyze_uip_def analyzed_ok_def f)
      next
        case sh: False
        let ?m = "if co_minimize (nt_opts t) then minimize_clause (std_sort (\<lambda>lit. word_of_nat (va_trail (nt_var t lit)))) stack t else Some t"
        have wft: "nt_wf F t" using ct by (simp add: conflict_ctx_def)
        obtain w where w: "?m = Some w" "an_frame t w" "uip_clause F u w" "marks_inv w" "analyzed_lits_ok w"
        proof (cases "co_minimize (nt_opts t)")
          case mi: True
          show ?thesis by (rule minimized_uip [OF wft Lt so cl(1) t(3) cl(2)]) (rule that, use mi in simp_all)
        qed (use that [of t] cl t(3) in simp)
        have cw: "conflict_ctx F a {} w" by (rule ctx_an_frame [OF ct w(2)])
        note g = an_frame_fields [OF w(2)]
        obtain x where x: "(if co_bump (nt_opts w) then bump_variables std_sort stack w else Some w) = Some x" "conflict_ctx F a {} x"
          "uip_clause F u x" "marks_inv x" "nt_level x = nt_level w" "nt_opts x = nt_opts w" "nt_as x = nt_as w" "starts_from w x"
        proof (cases "co_bump (nt_opts w)")
          case bu: True
          obtain y where y: "bump_variables std_sort stack w = Some y" "conflict_ctx F a {} y" "uip_clause F u y" "marks_inv y"
            "nt_level y = nt_level w" "nt_opts y = nt_opts w" "nt_as y = nt_as w" "starts_from w y" by (rule bumped_uip [OF cw so w(3-5)])
          show ?thesis by (rule that [OF _ y(2-8)]) (use bu y(1) in simp)
        qed (use that [of w] cw w an_frame_starts [OF an_frame_refl [of w]] in simp)
        have Lx: "0 < nt_level x" and chx: "co_chrono (nt_opts x) \<noteq> 0" using Lt cht by (simp_all add: x g)
        obtain y where y: "analyze_learn std_sort stack ?glue u x = Some y" "search_inv F y" "nt_as y = nt_as x" "driven F a x y"
          by (rule learn_uip_ok [OF x(2) Lx chx so x(3,4)])
        have "driven F a s y" by (rule driven_from [OF driven_from [OF driven_from [OF y(4) x(8)] an_frame_starts [OF w(2)]] an_frame_starts [OF t(2)]])
        then show thesis using that [of "Analyzed y"] True sh t(1) First_uip w(1) x(1,7) y(1-3) an_frame_extra(1) [OF t(2)] an_frame_extra(1) [OF w(2)]
          by (simp add: analyze_uip_def analyzed_ok_def Let_def)
      qed
    qed
  qed
qed

lemma analyze_here_ok:
  assumes ctx: "conflict_ctx F a {} s" and ch: "co_chrono (nt_opts s) \<noteq> 0" and so: "sort_ok std_sort" "length stack = 256"
    and cf: "nt_conflict s = Some a" "falsified s a" and qu: "quiet s"
  obtains r where "analyze_here std_sort stack s = Some r" "analyzed_ok F a s r"
proof (cases "nt_level s = 0")
  case False
  show thesis
    by (rule analyze_uip_ok [OF ctx _ ch so cf qu]) (use False that in \<open>simp_all add: analyze_here_def\<close>)
next
  case True
  have wf: "nt_wf F s" "nt_reasons_inv F s" using ctx by (simp_all add: conflict_ctx_def nt_wf_def)
  obtain c where c: "nt_mem s a = Some c" "\<forall>l \<in> set (so_literals c). - l \<in> set (nt_trail s)" using cf(2) by (auto simp: falsified_def)
  then have ok: "sclause_ok (nt_max_var s) c" "entails F (so_literals c)" using wf(1) by (auto simp: nt_wf_def mem_inv_def)
  have "entails F [- l]" if l: "l \<in> set (so_literals c)" for l
  proof (rule level_zero_entailed [OF wf(2)])
    show "- l \<in> set (nt_trail s)" using c(2) l by blast
    have "lit_level s l \<le> nt_level s" by (rule falsified_sound_levels(1) [OF wf(1) cf(2)]) (use l c(1) in \<open>simp add: nt_literals_def nt_deref_def\<close>)
    then show "lit_level s (- l) = 0" using True by simp
  qed
  moreover have "0 \<notin> set (so_literals c)" using ok(1) by (auto simp: sclause_ok_def lit_ok_def)
  ultimately have "entails F []" using entails_drop_false [OF ok(2), of "[]"] by simp
  then have "unsat F" by (auto simp: entails_def unsat_def)
  then show thesis using that [of "Analyzed (learn_empty_clause s)"] True by (simp add: analyze_here_def analyzed_ok_def learn_empty_clause_def Let_def)
qed

lemma analyze_ok:
  assumes rd: "nt_ready F s" and cf: "nt_conflict s = Some a" and si: "side_inv s" and co: "covers F s" and qu: "quiet s"
    and ch: "co_chrono (nt_opts s) \<noteq> 0" and so: "sort_ok std_sort" "length stack = 256"
  obtains r where "analyze std_sort stack s = Some r" "analyzed_ok F a s r"
proof -
  obtain r f t c where t: "find_conflict_level a s = (r, f, t)" "nt_wf F t" "falsified t a" "nt_mem t a = Some c" "nt_conflict t = Some a"
    "r \<le> nt_level t" "lit_level t (so_literals c ! 0) = r"
    "\<And>j. 1 \<le> j \<Longrightarrow> j < length (so_literals c) \<Longrightarrow> lit_level t (so_literals c ! j) \<le> lit_level t (so_literals c ! 1)"
    "f \<noteq> 0 \<Longrightarrow> f = so_literals c ! 0 \<and> 0 < r \<and> lit_level t (so_literals c ! 1) < r"
    "f = 0 \<Longrightarrow> lit_level t (so_literals c ! 1) = r"
    "nt_dc_inv t" "lv_trail (nt_control t ! nt_level t) \<le> nt_propagated t"
    "nt_done_for (\<lambda>b. b \<noteq> a \<and> b \<notin> {}) t (lv_trail (nt_control t ! nt_level t))" "side_inv t" "covers F t" "side_step s t" "nt_opts t = nt_opts s"
    "starts_from s t"
    by (rule conflict_found [OF rd cf si co]) (rule that; assumption)
  have qt: "quiet t" using qu side_step_fields(10) [OF t(16)] by simp
  have cht: "co_chrono (nt_opts t) \<noteq> 0" using ch by (simp add: t(17))
  show thesis
  proof (cases "f = 0")
    case False
    then have d: "f = so_literals c ! 0" "0 < r" "lit_level t (so_literals c ! 1) < r" using t(9) by simp_all
    have lf: "lit_level t f = r" using t(7) d(1) by simp
    obtain u where u: "backtrack (r - 1) t = Some u"
      "search_inv F ((search_assign_driving f (Some a) (build_chain_for_units f a False u))\<lparr>nt_conflict := None\<rparr>)"
      "nt_as (search_assign_driving f (Some a) (build_chain_for_units f a False u)) = nt_as t"
      "driven F a t ((search_assign_driving f (Some a) (build_chain_for_units f a False u))\<lparr>nt_conflict := None\<rparr>)"
      by (rule forced_ok [OF t(2,11,12,13,14,15) qt cht t(3,4,6) lf d t(8)])
    have "driven F a s ((search_assign_driving f (Some a) (build_chain_for_units f a False u))\<lparr>nt_conflict := None\<rparr>)"
      by (rule driven_from [OF u(4) t(18)])
    then show thesis
      using u(1-3) that [of "Analyzed ((search_assign_driving f (Some a) (build_chain_for_units f a False u))\<lparr>nt_conflict := None\<rparr>)"] False cf ch t(1) side_step_fields(1) [OF t(16)]
      by (simp add: analyze_def analyzed_ok_def)
  next
    case True
    have l1: "lit_level t (so_literals c ! 1) = r" by (rule t(10) [OF True])
    obtain u where u: "backtrack r t = Some u" "conflict_ctx F a {} u" "nt_conflict u = Some a" "falsified u a" "quiet u" "nt_opts u = nt_opts s" "nt_as u = nt_as t" "starts_from t u"
    proof (cases "r = nt_level t")
      case eq: True
      have "conflict_ctx F a {} t" using t(2,4,7,11-15) l1 eq by (auto simp: conflict_ctx_def)
      then show ?thesis using that [of t] t(3,5,17) qt eq an_frame_starts [OF an_frame_refl [of t]] by (simp add: backtrack_def)
    next
      case False
      then have n: "r < nt_level t" using t(6) by simp
      have li: "nt_level_inv t" using t(2) by (simp add: nt_wf_def)
      have "map lv_trail (nt_control t) ! (r + 1) \<le> map lv_trail (nt_control t) ! nt_level t"
        by (rule sorted_nth_mono) (use li n in \<open>simp_all add: nt_level_inv_def\<close>)
      then have "lv_trail (nt_control t ! (r + 1)) \<le> lv_trail (nt_control t ! nt_level t)" using li n by (simp add: nt_level_inv_def)
      then have dn: "nt_done_for (\<lambda>b. b \<noteq> a \<and> b \<notin> {}) t (min (nt_propagated t) (lv_trail (nt_control t ! (r + 1))))"
        using nt_done_for_mono [OF t(13)] by simp
      obtain u where u: "backtrack r t = Some u" "nt_wf F u" "nt_dc_inv u" "nt_done_for (\<lambda>b. b \<noteq> a \<and> b \<notin> {}) u (nt_propagated u)"
        "lv_trail (nt_control u ! nt_level u) \<le> nt_propagated u" "nt_trail u = kept_at r t (nt_trail t)" "nt_level u = r"
        "nt_control u = take (r + 1) (nt_control t)" "nt_mem u = nt_mem t" "nt_conflict u = nt_conflict t" "nt_opts u = nt_opts t"
        "\<And>l. lit_level u l = lit_level t l"
        by (rule backtrack_for_ok [OF t(2,11) n dn t(12)]) (rule that; assumption)
      have ss: "side_step t u" by (rule backtrack_side [OF u(1)])
      have "dec_inv u" by (rule dec_inv_back [OF _ same_as_eq n t(2) u(6,7,8,12)]) (use t(14) side_step_fields(1) [OF ss] in \<open>simp_all add: side_inv_def\<close>)
      then have siu: "side_inv u" by (intro side_inv_step [OF t(14) ss]) (simp_all add: u(9))
      have cou: "covers F u" by (rule covers_keeps [OF t(15) kept_keeps [OF u(9,6,12)]])
      have "lit_level t k \<le> r" if k: "k \<in> set (so_literals c)" for k
      proof -
        obtain j where j: "j < length (so_literals c)" "so_literals c ! j = k" using k by (auto simp: in_set_conv_nth)
        show ?thesis using t(7) t(8) [of j] j l1 by (cases j) auto
      qed
      then have "falsified u a" using t(3,4) by (auto simp: falsified_def u(6,9) kept_at_def)
      moreover have "conflict_ctx F a {} u"
        using u(2,3,5) siu cou t(4,7) l1 nt_done_for_mono [OF u(4,5)] by (auto simp: conflict_ctx_def u(7,9,12))
      moreover have "quiet u" using qt side_step_fields(10) [OF ss] by simp
      moreover have "starts_from t u" using u(6,9,12) side_step_fields(3) [OF ss] by (auto simp: starts_from_def)
      ultimately show ?thesis using that [of u] u(1,10,11) t(5,17) side_step_fields(1) [OF ss] by simp
    qed
    have chu: "co_chrono (nt_opts u) \<noteq> 0" using ch u(6) by simp
    obtain x where x: "analyze_here std_sort stack u = Some x" "analyzed_ok F a u x"
      by (rule analyze_here_ok [OF u(2) chu so u(3-5)])
    have "analyzed_ok F a t x" by (rule analyzed_from [OF x(2) u(8,7)]) (simp add: u(6) t(17))
    then have "analyzed_ok F a s x" by (rule analyzed_from [OF _ t(18)]) (simp_all add: t(17) side_step_fields(1) [OF t(16)])
    then show thesis using that [of x] True cf ch t(1) u(1) x(1) by (simp add: analyze_def)
  qed
qed

end
