(* ===== verification/Cdcl_Search.thy ===== *)
theory Cdcl_Search
  imports Cdcl_Conflict
begin

text \<open>
  Restarting (\<^verbatim>\<open>restart.cpp\<close>) and the loop of \<^verbatim>\<open>cdcl_loop_with_inprocessing\<close> (\<^verbatim>\<open>internal.cpp\<close>), one round
  at a time, without the inprocessing that it interleaves and without an external propagator.  What the
  moving averages and the limits answer, which are not part of the state, are two arguments of a round.
\<close>

subsection \<open>Restarting\<close>

fun reuse_loop :: "(int \<Rightarrow> bool) \<Rightarrow> Level list \<Rightarrow> nat \<Rightarrow> nat \<Rightarrow> nat" where
  "reuse_loop stops control 0 res = res"
| "reuse_loop stops control (Suc n) res =
     (let decision = lv_decision (control ! (res + 1)) in
      if decision \<noteq> 0 \<and> stops decision then res else reuse_loop stops control n (res + 1))"

definition reuse_trail :: "('v :: linorder) Internal \<Rightarrow> (nat \<times> 'v Internal) option" where
  "reuse_trail s =
     (let size = length (as_assumptions (nt_as s));
          trivial_decisions = size + (if lv_decision (nt_control s ! (size + 1)) = 0 then 1 else 0) in
      if \<not> co_restartreusetrail (nt_opts s) then Some (trivial_decisions, s)
      else
        Option.bind (next_decision_variable (use_scores s) (nt_decide s)) (\<lambda>(next_decision, d).
          let s = s\<lparr>nt_decide := d\<rparr>;
              stops = (if use_scores s then (\<lambda>decision. score_smaller (dc_stab d) (vidx decision) next_decision)
                       else (\<lambda>decision. vq_btab (dc_queue d) (vidx decision) < vq_btab (dc_queue d) next_decision))
          in Some (reuse_loop stops (nt_control s) (nt_level s - trivial_decisions) trivial_decisions, s)))"

definition restart :: "('v :: linorder) Internal \<Rightarrow> 'v Internal option" where
  "restart s =
     (let s = nt_count (\<lambda>n. n\<lparr>cn_restarts := cn_restarts n + 1\<rparr>) s
      in Option.bind (reuse_trail s) (\<lambda>(new_level, s). backtrack new_level s))"

text \<open>
  \<open>mode\<close> and \<open>due\<close> are what \<^verbatim>\<open>stabilizing\<close>, which may switch the mode, and the averages answer once there are enough levels.
\<close>

definition restarting :: "bool \<Rightarrow> bool \<Rightarrow> 'v Internal \<Rightarrow> bool \<times> 'v Internal" where
  "restarting mode due s =
     (if nt_level s < length (as_assumptions (nt_as s)) + 2 then (False, s) else (due, s\<lparr>nt_stable := mode\<rparr>))"

subsection \<open>One round of the search\<close>

datatype 'v round = Round nat "'v Internal" | Away "'v analyzed"

definition cdcl_round ::
    "((int \<Rightarrow> 64 word) \<Rightarrow> int list \<Rightarrow> int list) \<Rightarrow> nat list \<Rightarrow> bool \<Rightarrow> bool \<Rightarrow> ('v :: linordered_field) Internal \<Rightarrow> 'v round option" where
  "cdcl_round std_sort stack mode due s =
     (if nt_unsat s then Some (Round 20 s)
      else if as_unsat_constraint (nt_as s) then Some (Round 20 s)
      else
        Option.bind (propagate s) (\<lambda>(ok, s).
          if \<not> ok then
            map_option (\<lambda>r. case r of Analyzed s \<Rightarrow> Round 0 s | _ \<Rightarrow> Away r) (analyze std_sort stack s)
          else if nt_iterating s then Some (Round 0 (iterate s))
          else if satisfied s then Some (Round 10 s)
          else
            (let (again, s) = restarting mode due s in
             if again then map_option (Round 0) (restart s)
             else map_option (\<lambda>(res, s). Round res s) (decide s))))"

text \<open>The states after any number of rounds that leave the search going.\<close>

inductive cdcl_run ::
    "((int \<Rightarrow> 64 word) \<Rightarrow> int list \<Rightarrow> int list) \<Rightarrow> nat list \<Rightarrow> ('v :: linordered_field) Internal \<Rightarrow> 'v Internal \<Rightarrow> bool"
  for std_sort stack s where
  start: "cdcl_run std_sort stack s s"
| round: "cdcl_run std_sort stack s t \<Longrightarrow> cdcl_round std_sort stack mode due t = Some (Round 0 u) \<Longrightarrow> cdcl_run std_sort stack s u"

subsection \<open>What is asked\<close>

text \<open>The formula with the assumptions as units and the constraint as one more clause.\<close>

definition query :: "clause set \<Rightarrow> 'v Internal \<Rightarrow> clause set" where
  "query F s = F \<union> units (as_assumptions (nt_as s))
     \<union> (if as_constraint (nt_as s) = [] then {} else {as_constraint (nt_as s)})"

definition trail_assignment :: "'v Internal \<Rightarrow> assignment" where
  "trail_assignment s = (\<lambda>v. 0 < nt_val s v)"

lemma query_same:
  assumes "same_as s t"
  shows "models \<alpha> (query F t) = models \<alpha> (query F s)"
proof -
  have c: "set (as_constraint (nt_as t)) = set (as_constraint (nt_as s))" "as_assumptions (nt_as t) = as_assumptions (nt_as s)"
    using assms by (simp_all add: same_as_def)
  then have "as_constraint (nt_as t) = [] \<longleftrightarrow> as_constraint (nt_as s) = []" by (metis set_empty)
  then show ?thesis by (simp add: query_def c(2)) (simp add: clause_true_def c(1))
qed

lemma query_unsat: "unsat F \<Longrightarrow> unsat (query F s)"
  by (auto simp: unsat_def query_def split: if_splits)

lemma lit_true_trail: "0 < nt_val s l \<Longrightarrow> l \<noteq> 0 \<Longrightarrow> lit_true (trail_assignment s) l"
  by (auto simp: lit_true_def trail_assignment_def nt_val_def vidx_def split: if_splits)

text \<open>A full assignment without a conflict satisfies everything.\<close>

lemma full_trail:
  assumes ti: "nt_trail_inv s" and n: "length (nt_trail s) = nt_max_var s" and k: "lit_ok (nt_max_var s) k"
  shows "nt_val s k \<noteq> 0"
proof -
  have d: "distinct (map abs (nt_trail s))" "\<forall>l \<in> set (nt_trail s). lit_ok (nt_max_var s) l" using ti by (simp_all add: nt_trail_inv_def)
  have "inj_on vidx (set (nt_trail s))" using d(1) by (auto simp: distinct_map inj_on_def vidx_def)
  then have "card (vidx ` set (nt_trail s)) = nt_max_var s" using d(1) n by (simp add: card_image distinct_card distinct_map)
  moreover have "vidx ` set (nt_trail s) \<subseteq> {1..nt_max_var s}" using d(2) by (auto simp: lit_ok_def vidx_def)
  ultimately have "vidx ` set (nt_trail s) = {1..nt_max_var s}" by (intro card_subset_eq) simp_all
  moreover have "vidx k \<in> {1..nt_max_var s}" using k by (auto simp: lit_ok_def vidx_def)
  ultimately have "vidx k \<in> vidx ` set (nt_trail s)" by simp
  then obtain l where "l \<in> set (nt_trail s)" "vidx l = vidx k" by auto
  moreover from this(2) have "l = k \<or> l = - k" unfolding vidx_def by linarith
  ultimately have "k \<in> set (nt_trail s) \<or> - k \<in> set (nt_trail s)" by auto
  then show ?thesis using k by (auto simp: nt_val_trail [OF ti] trail_val_def lit_ok_def)
qed

lemma satisfied_model:
  assumes b: "busy_inv F s" and full: "nt_propagated s = length (nt_trail s)" and sat: "satisfied s"
  shows "models (trail_assignment s) (query F s)"
proof -
  let ?as = "as_assumptions (nt_as s)" and ?cs = "as_constraint (nt_as s)" and ?\<alpha> = "trail_assignment s"
  have d: "nt_wf F s" "nt_dc_inv s" "nt_done s (length (nt_trail s))" "side_inv s" "covers F s"
    using b full by (auto simp: busy_inv_def nt_ready_def)
  have ti: "nt_trail_inv s" and mem: "mem_inv F (nt_max_var s) (nt_mem s)" using d(1) by (simp_all add: nt_wf_def)
  have lv: "length ?as + (if ?cs \<noteq> [] then 1 else 0) \<le> nt_level s" and num: "dc_num_assigned (nt_decide s) = nt_max_var s"
    using sat by (auto simp: satisfied_def split: if_splits)
  have n: "length (nt_trail s) = nt_max_var s" using d(2) num by (simp add: nt_dc_inv_def)
  have true: "lit_true ?\<alpha> l" if "l \<in> set (nt_trail s)" for l
  proof (rule lit_true_trail)
    have "lit_ok (nt_max_var s) l" using that ti by (simp add: nt_trail_inv_def)
    then show nz: "l \<noteq> 0" by (simp add: lit_ok_def)
    show "0 < nt_val s l" using that nz by (simp add: nt_val_trail [OF ti] trail_val_def)
  qed
  have at: "dec_at s k" if "1 \<le> k" "k \<le> nt_level s" for k using d(4) that by (simp add: side_inv_def dec_inv_def)
  have dec: "lv_decision (nt_control s ! k) \<in> set (nt_trail s)" if k: "1 \<le> k" "k \<le> nt_level s" and nz: "lv_decision (nt_control s ! k) \<noteq> 0" for k
    using at [OF k] nz by (auto simp: dec_at_def Let_def) (metis nth_mem)
  have "clause_true ?\<alpha> C" if C: "C \<in> F" for C
  proof -
    consider a c where "nt_mem s a = Some c" "\<not> so_garbage c" "set (so_literals c) \<subseteq> set C"
      | l where "l \<in> set C" "l \<in> set (nt_trail s)" using d(5) C unfolding covers_def by blast
    then show ?thesis
    proof cases
      case 1
      have ok: "sclause_ok (nt_max_var s) c" using mem 1(1) by (auto simp: mem_inv_def)
      then have "so_literals c ! 0 \<in> set (so_literals c)" by (intro nth_mem) (auto simp: sclause_ok_def)
      moreover from this have "nt_val s (so_literals c ! 0) \<noteq> 0" by (intro full_trail [OF ti n]) (use ok in \<open>simp add: sclause_ok_def\<close>)
      ultimately obtain k where "k \<in> set (so_literals c)" "0 < nt_val s k" using nt_done_complete [OF d(1,3) 1(1,2)] by fastforce
      then show ?thesis using lit_true_trail 1(3) ok by (fastforce simp: clause_true_def sclause_ok_def lit_ok_def)
    next
      case 2
      then show ?thesis using true 2 by (auto simp: clause_true_def)
    qed
  qed
  moreover have "lit_true ?\<alpha> l" if l: "l \<in> set ?as" for l
  proof -
    obtain i where i: "i < length ?as" "?as ! i = l" using l by (auto simp: in_set_conv_nth)
    then have k: "1 \<le> i + 1" "i + 1 \<le> nt_level s" using lv by (auto split: if_splits)
    have "decision_ok s (i + 1) (lv_decision (nt_control s ! (i + 1)))" using at [OF k] by (simp add: dec_at_def Let_def)
    moreover have "l \<noteq> 0" using l d(4) by (auto simp: side_inv_def as_inv_def lit_ok_def)
    ultimately have "l \<in> set (nt_trail s)" using i dec [OF k] by (auto simp: decision_ok_def holds_below_def)
    then show ?thesis by (rule true)
  qed
  moreover have "clause_true ?\<alpha> ?cs" if c: "?cs \<noteq> []"
  proof -
    have k: "1 \<le> length ?as + 1" "length ?as + 1 \<le> nt_level s" using lv c by simp_all
    have "0 \<notin> set ?cs" using d(4) by (auto simp: side_inv_def as_inv_def lit_ok_def)
    moreover have "decision_ok s (length ?as + 1) (lv_decision (nt_control s ! (length ?as + 1)))" using at [OF k] by (simp add: dec_at_def Let_def)
    ultimately have "lv_decision (nt_control s ! (length ?as + 1)) \<in> set ?cs - {0} \<or> (\<exists>l \<in> set ?cs. l \<in> set (nt_trail s))"
      using c by (auto simp: decision_ok_def holds_below_def Let_def)
    then have "\<exists>l \<in> set ?cs. l \<in> set (nt_trail s)" using dec [OF k] by blast
    then show ?thesis using true by (auto simp: clause_true_def)
  qed
  ultimately show ?thesis by (auto simp: query_def models_def units_def clause_true_def)
qed

text \<open>While only assumptions have been decided, they force the whole trail.\<close>

lemma trail_forced:
  assumes wf: "nt_wf F s" and dec: "dec_inv s" and lv: "nt_level s \<le> length (as_assumptions (nt_as s))"
    and m: "models \<alpha> F" "\<forall>l \<in> set (as_assumptions (nt_as s)). lit_true \<alpha> l" and l: "l \<in> set (nt_trail s)"
  shows "lit_true \<alpha> l"
proof -
  have ri: "nt_reasons_inv F s" and ti: "nt_trail_inv s" and mem: "mem_inv F (nt_max_var s) (nt_mem s)" using wf by (simp_all add: nt_wf_def)
  have "lit_true \<alpha> (nt_trail s ! p)" if "p < length (nt_trail s)" for p
    using that
  proof (induction p rule: less_induct)
    case (less p)
    let ?l = "nt_trail s ! p"
    have ok: "reason_ok F s p" using ri less.prems by (simp add: nt_reasons_inv_def)
    have "lit_ok (nt_max_var s) ?l" using ti less.prems by (simp add: nt_trail_inv_def)
    then have nz: "?l \<noteq> 0" by (simp add: lit_ok_def)
    consider (unit) "entails F [?l]"
      | (decision) "1 \<le> lit_level s ?l" "lit_level s ?l \<le> nt_level s" "lv_decision (nt_control s ! lit_level s ?l) = ?l"
      | (clause) a c where "nt_mem s a = Some c" "\<forall>k \<in> set (so_literals c). k \<noteq> ?l \<longrightarrow> - k \<in> set (take p (nt_trail s))"
      using ok unfolding reason_ok_def Let_def by (auto split: if_splits reason.splits)
    then show ?case
    proof cases
      case unit
      then show ?thesis using m(1) by (rule entails_unitD)
    next
      case decision
      have "decision_ok s (lit_level s ?l) ?l" using dec decision unfolding dec_inv_def dec_at_def Let_def by metis
      then have "?l = as_assumptions (nt_as s) ! (lit_level s ?l - 1)" using lv decision nz by (simp add: decision_ok_def Let_def)
      moreover have "lit_level s ?l - 1 < length (as_assumptions (nt_as s))" using lv decision by linarith
      ultimately show ?thesis using m(2) by (metis nth_mem)
    next
      case clause
      have ent: "entails F (so_literals c)" "sclause_ok (nt_max_var s) c" using mem clause(1) by (auto simp: mem_inv_def)
      then obtain k where k: "k \<in> set (so_literals c)" "lit_true \<alpha> k" using m(1) by (auto simp: entails_def clause_true_def)
      have "k = ?l"
      proof (rule ccontr)
        assume "k \<noteq> ?l"
        then have "- k \<in> set (take p (nt_trail s))" using clause(2) k(1) by blast
        then obtain q where q: "q < p" "nt_trail s ! q = - k" using less.prems by (auto simp: in_set_conv_nth)
        then have "lit_true \<alpha> (- k)" using less.IH [of q] less.prems by simp
        moreover have "k \<noteq> 0" using ent(2) k(1) by (auto simp: sclause_ok_def lit_ok_def)
        ultimately show False using k(2) by simp
      qed
      then show ?thesis using k(2) by simp
    qed
  qed
  then show ?thesis using l by (auto simp: in_set_conv_nth)
qed

lemma falsified_literal:
  assumes "nt_wf F s" "dec_inv s" "nt_level s \<le> length (as_assumptions (nt_as s))" "models \<alpha> F" "\<forall>l \<in> set (as_assumptions (nt_as s)). lit_true \<alpha> l"
    and "nt_val s l < 0"
  shows "\<not> lit_true \<alpha> l"
proof -
  have ti: "nt_trail_inv s" using assms(1) by (simp add: nt_wf_def)
  have "- l \<in> set (nt_trail s)" using assms(6) by (auto simp: nt_val_trail [OF ti] trail_val_def split: if_splits)
  moreover from this have "l \<noteq> 0" using ti by (auto simp: nt_trail_inv_def lit_ok_def)
  ultimately show ?thesis using trail_forced [OF assms(1-5)] by fastforce
qed

lemma decide_failed:
  assumes wf: "nt_wf F s" and dec: "dec_inv s" and lv: "nt_level s \<le> length (as_assumptions (nt_as s))"
    and f: "(\<exists>l \<in> set (as_assumptions (nt_as s)). nt_val s l < 0)
       \<or> as_constraint (nt_as s) \<noteq> [] \<and> (\<forall>l \<in> set (as_constraint (nt_as s)). nt_val s l < 0)"
  shows "unsat (query F s)"
proof -
  have "\<not> models \<alpha> (query F s)" for \<alpha>
  proof
    assume m: "models \<alpha> (query F s)"
    then have "models \<alpha> F" "\<forall>l \<in> set (as_assumptions (nt_as s)). lit_true \<alpha> l"
      and c: "as_constraint (nt_as s) \<noteq> [] \<longrightarrow> clause_true \<alpha> (as_constraint (nt_as s))" by (auto simp: query_def split: if_splits)
    note no = falsified_literal [OF wf dec lv this(1,2)]
    show False using f no c \<open>\<forall>l \<in> set (as_assumptions (nt_as s)). lit_true \<alpha> l\<close> by (auto simp: clause_true_def)
  qed
  then show ?thesis by (simp add: unsat_def)
qed


subsection \<open>Deciding keeps the invariant of the search\<close>

text \<open>The loop over the constraint only moves its literals: it puts 0 in front, or stops at a true one.\<close>

lemma constraint_shift:
  assumes "constraint_loop s n i ls prev un = (ms, p, u, sat)" "i + n = length ks" "length ls = length ks"
    "take i ls = take i (0 # ks)" "prev = (0 # ks) ! i" "drop i ls = drop i ks" "0 \<notin> set ks"
  shows "(sat = 0 \<longrightarrow> ms @ [p] = 0 # ks) \<and> (sat \<noteq> 0 \<longrightarrow> set (ms[0 := sat]) = set ks)"
  using assms
proof (induction s n i ls prev un arbitrary: ms p u sat rule: constraint_loop.induct)
  case (1 s i ls prev un)
  then show ?case using take_Suc_conv_app_nth [of "length ks" "0 # ks"] by auto
next
  case (2 s n i ls prev un)
  let ?k = "ks ! i"
  have i: "i < length ks" "i < length ls" using "2.prems" by auto
  have k: "ls ! i = ?k" using "2.prems"(3,6) i by (metis nth_via_drop Cons_nth_drop_Suc)
  have nz: "?k \<noteq> 0" using i "2.prems"(7) by (auto simp: in_set_conv_nth)
  have tk: "take (i + 1) (ls[i := prev]) = take (i + 1) (0 # ks)"
    using i "2.prems"(4,5) by (simp add: take_Suc_conv_app_nth del: take_Suc_Cons)
  have dr: "drop (i + 1) (ls[i := prev]) = drop (i + 1) ks"
    using "2.prems"(6) i by (simp add: drop_update_swap) (metis drop_drop add.commute plus_1_eq_Suc)
  have nx: "i + 1 + n = length ks" "length (ls[i := prev]) = length ks" "take (i + 1) (ls[i := prev]) = take (i + 1) (0 # ks)"
    "?k = (0 # ks) ! (i + 1)" "drop (i + 1) (ls[i := prev]) = drop (i + 1) ks" using "2.prems" tk dr by simp_all
  consider "nt_val s ?k < 0" | "nt_val s ?k > 0" | "nt_val s ?k = 0" by linarith
  then show ?case
  proof cases
    case 1
    have run: "constraint_loop s n (i + 1) (ls[i := prev]) ?k un = (ms, p, u, sat)" using "2.prems"(1) 1 by (simp add: k Let_def)
    show ?thesis by (rule "2.IH"(1) [OF refl refl refl, unfolded k, OF 1 run nx "2.prems"(7)])
  next
    case 2
    then have r: "ms = ls[i := prev]" "sat = ?k" using "2.prems"(1) by (simp_all add: k Let_def)
    have "ms = take (i + 1) (0 # ks) @ drop (i + 1) ks" using tk dr append_take_drop_id [of "i + 1" ms] r(1) by metis
    then have "ms[0 := sat] = ?k # take i ks @ drop (i + 1) ks" using r(2) by simp
    moreover have "ks = take i ks @ ?k # drop (i + 1) ks" using i(1) by (simp add: id_take_nth_drop)
    then have "set ks = set (take i ks) \<union> {?k} \<union> set (drop (i + 1) ks)"
      by (metis Un_insert_right append_assoc list.simps(15) set_append sup_bot.right_neutral insert_is_Un sup_assoc)
    ultimately show ?thesis using nz r(2) by auto
  next
    case 3
    have run: "constraint_loop s n (i + 1) (ls[i := prev]) ?k (if un = 0 \<or> better_decision ?k un s then ?k else un) = (ms, p, u, sat)"
      using "2.prems"(1) 3 by (simp add: k Let_def)
    have "\<not> nt_val s ?k < 0" "\<not> nt_val s ?k > 0" using 3 by simp_all
    from "2.IH"(2) [OF refl refl refl, unfolded k, OF this run nx "2.prems"(7)] show ?thesis .
  qed
qed

lemma constraint_kept:
  assumes "constraint_loop s (length ks) 0 ks 0 0 = (ms, p, u, sat)" "0 \<notin> set ks" "ks \<noteq> []"
  shows "sat = 0 \<Longrightarrow> map (\<lambda>i. ms ! (i + 1)) [0..<length ks - 1] @ [p] = ks" "sat \<noteq> 0 \<Longrightarrow> set (ms[0 := sat]) = set ks"
proof -
  have c: "(sat = 0 \<longrightarrow> ms @ [p] = 0 # ks) \<and> (sat \<noteq> 0 \<longrightarrow> set (ms[0 := sat]) = set ks)"
    by (rule constraint_shift [OF assms(1)]) (use assms(2) in simp_all)
  show "sat \<noteq> 0 \<Longrightarrow> set (ms[0 := sat]) = set ks" using c by blast
  assume "sat = 0"
  then have m: "ms @ [p] = 0 # ks" using c by blast
  then have "length ms = length ks" by (metis length_append_singleton length_Cons nat.inject)
  then have "map (\<lambda>i. ms ! (i + 1)) [0..<length ks - 1] = tl ms" by (intro nth_equalityI) (simp_all add: nth_tl)
  moreover have "tl ms @ [p] = ks" using m assms(3) by (cases ms) auto
  ultimately show "map (\<lambda>i. ms ! (i + 1)) [0..<length ks - 1] @ [p] = ks" by simp
qed

text \<open>Opening a level.\<close>

lemma pushed_search:
  assumes inv: "search_inv F s" and rd: "nt_ready F t" and nc: "nt_conflict t = None"
    and u: "u = s\<lparr>nt_as := (nt_as s)\<lparr>as_constraint := ks\<rparr>, nt_stats := st, nt_decide := de\<rparr>" "set ks = set (as_constraint (nt_as s))"
    and vals: "nt_vals u = nt_vals s" and t: "t = (if d = 0 then new_trail_level 0 u else search_assume_decision d u)"
    and d: "d \<noteq> 0 \<Longrightarrow> nt_val s d = 0 \<and> lit_ok (nt_max_var s) d" "decision_ok s (nt_level s + 1) d"
  shows "search_inv F t \<and> same_as s t"
proof -
  define v where "v = new_trail_level d u"
  have wf: "nt_wf F s" and si: "side_inv s" and co: "covers F s" and ch: "co_chrono (nt_opts s) \<noteq> 0" and qu: "quiet s"
    using inv by (simp_all add: search_inv_def busy_inv_def nt_ready_def)
  have ti: "nt_trail_inv s" and li: "nt_level_inv s" using wf by (simp_all add: nt_wf_def)
  have tv: "t = (if d = 0 then v else search_assign d Decision_reason v)" by (simp add: t v_def search_assume_decision_def)
  have f: "nt_trail v = nt_trail s" "nt_level v = nt_level s + 1" "nt_control v = nt_control s @ [new_level d (length (nt_trail s))]"
    "nt_mem v = nt_mem s" "nt_vtab v = nt_vtab s" "nt_max_var v = nt_max_var s" "nt_opts v = nt_opts s" "nt_propagated v = nt_propagated s"
    "nt_as v = (nt_as s)\<lparr>as_constraint := ks\<rparr>" "nt_phases v = nt_phases s" "nt_clauses v = nt_clauses s" "nt_next_addr v = nt_next_addr s"
    "nt_score_inc v = nt_score_inc s" "nt_unsat v = nt_unsat s" "nt_ftab v = nt_ftab s" "nt_an v = nt_an s"
    by (simp_all add: v_def u(1) new_trail_level_def)
  have nv: "nt_vals v = nt_vals s" using vals by (simp add: v_def nt_vals_def new_trail_level_def)
  have tiv: "nt_trail_inv v" using ti by (simp add: nt_trail_inv_def f nv)
  have val: "nt_val v d = 0" "lit_ok (nt_max_var v) d" if "d \<noteq> 0" using d(1) [OF that] by (simp_all only: f(6) nt_val_def nv)
  have ss: "side_step v t" by (simp add: tv)
  have dom: "nt_mem t = nt_mem s" by (simp add: tv f search_assign_fields)
  have same: "same_as s t" using side_step_fields(1) [OF ss] u(2) by (simp add: same_as_def f)
  have kv: "keeps v t" using assign_keeps [OF tiv val] by (simp add: tv)
  have "keeps s v" by (rule keeps_fields) (simp_all add: f)
  then have cot: "covers F t" using covers_keeps [OF co keeps_trans [OF _ kv]] by blast
  have lev: "lit_level t l = lit_level s l" if "l \<in> set (nt_trail s)" for l
  proof -
    have "lit_level v l = lit_level s l" by (simp add: lit_level_def nt_var_def f)
    moreover have "lit_level t l = lit_level v l"
      using assign_frame(1) [OF tiv val, where r = Decision_reason] that by (cases "d = 0") (simp_all add: tv f)
    ultimately show ?thesis by simp
  qed
  have "dec_inv t"
    by (rule dec_inv_push [OF _ same _ _ _ _ lev d(2)]) (use si li in \<open>simp_all add: side_inv_def nt_level_inv_def tv f search_assign_fields\<close>)
  moreover have "ph_inv v" using si by (simp add: side_inv_def ph_inv_def f)
  then have "ph_inv t" by (rule side_step_fields(9) [OF ss])
  ultimately have "side_inv t"
    using si side_step_fields(1-8) [OF ss] u(2) by (simp add: side_inv_def as_inv_def addr_inv_def f dom)
  moreover have "quiet t" using side_step_fields(10) [OF ss] qu by (simp add: quiet_def f)
  ultimately show ?thesis using rd nc cot ch same side_step_fields(7) [OF ss] by (simp add: search_inv_def busy_inv_def f)
qed

text \<open>While the search goes on after the assumptions, a variable is left to decide.\<close>

lemma next_decision_found:
  assumes rd: "nt_ready F s" and full: "nt_propagated s = length (nt_trail s)" and ns: "\<not> satisfied s"
    and lv: "length (as_assumptions (nt_as s)) + (if as_constraint (nt_as s) \<noteq> [] then 1 else 0) \<le> nt_level s"
  obtains y d xs where "next_decision_variable b (nt_decide s) = Some (y, d)" "dc_inv d xs" "set xs = {1..nt_max_var s}"
    "y \<in> {1..nt_max_var s}" "vq_vals (dc_queue (nt_decide s)) y = 0"
proof -
  have dc: "nt_dc_inv s" and ti: "nt_trail_inv s" using rd by (simp_all add: nt_ready_def nt_wf_def)
  have "length (nt_trail s) < nt_max_var s"
    using ns lv dc full trail_bound [OF ti] by (auto simp: satisfied_def nt_dc_inv_def split: if_splits)
  from unassigned_exists [OF ti this] obtain xs where xs: "dc_inv (nt_decide s) xs" "set xs = {1..nt_max_var s}"
    "\<exists>z \<in> set xs. vq_vals (dc_queue (nt_decide s)) z = 0"
    using dc by (auto simp: nt_dc_inv_def nt_vals_def)
  obtain y d where "next_decision_variable b (nt_decide s) = Some (y, d)" "dc_inv d xs" "y \<in> set xs" "vq_vals (dc_queue (nt_decide s)) y = 0"
    using next_decision_variable_ok [OF xs(1,3)] by blast
  then show thesis using that xs(2) by simp
qed

lemma decide_search:
  assumes inv: "search_inv F s" and full: "nt_propagated s = length (nt_trail s)" and ns: "\<not> satisfied s"
  obtains t where "decide s = Some (0, t)" "search_inv F t" "same_as s t"
  | t where "decide s = Some (20, t)" "unsat (query F s)"
proof -
  let ?a = "as_assumptions (nt_as s)" and ?c = "as_constraint (nt_as s)"
  have rd: "nt_ready F s" and nc: "nt_conflict s = None" and si: "side_inv s" using inv by (simp_all add: search_inv_def busy_inv_def)
  have wf: "nt_wf F s" and ti: "nt_trail_inv s" using rd by (simp_all add: nt_ready_def nt_wf_def)
  have as: "as_inv s" and ph: "ph_inv s" and dec: "dec_inv s" using si by (simp_all add: side_inv_def)
  have nz: "0 \<notin> set ?c" using as by (auto simp: as_inv_def lit_ok_def)
  have below: "holds_below s (nt_level s + 1) l" if "nt_val s l > 0" for l
  proof -
    have l: "l \<in> set (nt_trail s)" using that by (auto simp: nt_val_trail [OF ti] trail_val_def split: if_splits)
    then obtain p where "p < length (nt_trail s)" "nt_trail s ! p = l" by (auto simp: in_set_conv_nth)
    then have "lit_level s l \<le> nt_level s" using wf by (auto simp: nt_wf_def nt_reasons_inv_def reason_ok_def Let_def)
    then show ?thesis using l by (simp add: holds_below_def)
  qed
  have same: "\<exists>ks st de. s = s\<lparr>nt_as := (nt_as s)\<lparr>as_constraint := ks\<rparr>, nt_stats := st, nt_decide := de\<rparr> \<and> set ks = set ?c"
    by (rule exI [of _ ?c], rule exI [of _ "nt_stats s"], rule exI [of _ "nt_decide s"]) simp
  consider (ok) t where "decide s = Some (0, t)" "nt_ready F t" "nt_conflict t = None"
    | (fail) t where "decide s = Some (20, t)" "(\<exists>l \<in> set ?a. nt_val s l < 0) \<or> (?c \<noteq> [] \<and> (\<forall>l \<in> set ?c. nt_val s l < 0))"
    by (rule decide_ok [OF rd nc full as ph ns])
  then show thesis
  proof cases
    case fail
    have "nt_level s \<le> length ?a"
    proof (rule ccontr)
      assume "\<not> ?thesis"
      then have "fst (the (decide s)) \<noteq> 20" using fail(1) by (auto simp: decide_def Let_def Option.bind_eq_Some_conv split: prod.splits)
      then show False using fail(1) by simp
    qed
    then show thesis using that(2) [OF fail(1)] decide_failed [OF wf dec _ fail(2)] by blast
  next
    case ok
    have push: "search_inv F t \<and> same_as s t"
      if "t = (if d = 0 then new_trail_level 0 u else search_assume_decision d u)"
        "u = s\<lparr>nt_as := (nt_as s)\<lparr>as_constraint := ks\<rparr>, nt_stats := st, nt_decide := de\<rparr>" "set ks = set ?c" "nt_vals u = nt_vals s"
        "d \<noteq> 0 \<Longrightarrow> nt_val s d = 0 \<and> lit_ok (nt_max_var s) d" "decision_ok s (nt_level s + 1) d" for d u ks st de
      by (rule pushed_search [OF inv ok(2,3) that(2,3,4,1,5,6)])
    have "search_inv F t \<and> same_as s t"
    proof (cases "nt_level s < length ?a")
      case True
      let ?l = "?a ! nt_level s"
      have l: "lit_ok (nt_max_var s) ?l" using True as by (auto simp: as_inv_def)
      have nn: "\<not> nt_val s ?l < 0" using ok(1) True by (auto simp: decide_def Let_def)
      show ?thesis
      proof (cases "nt_val s ?l = 0")
        case z: True
        have t: "t = search_assume_decision ?l s" using ok(1) True z by (simp add: decide_def Let_def)
        show ?thesis
          by (rule push [where d = ?l and u = s and ks = ?c and st = "nt_stats s" and de = "nt_decide s"]) (use t z l True in \<open>auto simp: lit_ok_def decision_ok_def\<close>)
      next
        case False
        then have p: "nt_val s ?l > 0" using nn by simp
        then have t: "t = new_trail_level 0 s" using ok(1) True by (simp add: decide_def Let_def)
        show ?thesis
          by (rule push [where d = "0" and u = s and ks = ?c and st = "nt_stats s" and de = "nt_decide s"]) (use t below [OF p] True in \<open>auto simp: decision_ok_def\<close>)
      qed
    next
      case na: False
      show ?thesis
      proof (cases "nt_level s = length ?a \<and> ?c \<noteq> []")
        case True
        obtain ms p u sat where run: "constraint_loop s (length ?c) 0 ?c 0 0 = (ms, p, u, sat)" by (metis prod_cases4)
        note sp = constraint_loop_spec [OF run _ refl refl nz refl, simplified]
        note kept = constraint_kept [OF run nz conjunct2 [OF True]]
        show ?thesis
        proof (cases "sat = 0")
          case False
          let ?u = "s\<lparr>nt_as := (nt_as s)\<lparr>as_constraint := ms[0 := sat]\<rparr>\<rparr>"
          have t: "t = new_trail_level 0 ?u" using ok(1) na True run False by (simp add: decide_def Let_def)
          have ex: "\<exists>l \<in> set ?c. holds_below s (nt_level s + 1) l" using sp(2) [OF False] below by blast
          show ?thesis
            by (rule push [where d = "0" and u = ?u and ks = "ms[0 := sat]" and st = "nt_stats s" and de = "nt_decide s"])
              (use t kept(2) [OF False] ex True in \<open>simp_all add: nt_vals_def decision_ok_def\<close>)
        next
          case z: True
          let ?u = "s\<lparr>nt_as := (nt_as s)\<lparr>as_constraint := ?c\<rparr>\<rparr>"
          have un: "u \<noteq> 0" using ok(1) na True run z by (auto simp: decide_def Let_def)
          have t: "t = search_assume_decision u ?u" using ok(1) na True run z un kept(1) [OF z] by (simp add: decide_def Let_def)
          have u: "u \<in> set ?c" "nt_val s u = 0" using sp(4) un by simp_all
          have "lit_ok (nt_max_var s) u" using as u(1) by (simp add: as_inv_def)
          then show ?thesis
            by (intro push [where d = "u" and u = ?u and ks = ?c and st = "nt_stats s" and de = "nt_decide s"]) (use t un u True in \<open>simp_all add: decision_ok_def\<close>)
        qed
      next
        case False
        let ?k = "nt_count (\<lambda>n. n\<lparr>cn_decisions := cn_decisions n + 1\<rparr>) s"
        obtain y d where y: "next_decision_variable (use_scores ?k) (nt_decide s) = Some (y, d)"
          and t: "t = search_assume_decision (decide_phase y (co_target (nt_opts s) > 1 \<or> nt_stable s \<and> co_target (nt_opts s) \<noteq> 0) (?k\<lparr>nt_decide := d\<rparr>)) (?k\<lparr>nt_decide := d\<rparr>)"
          using ok(1) na False by (auto simp: decide_def Let_def Option.bind_eq_Some_conv nt_count_def)
        let ?u = "?k\<lparr>nt_decide := d\<rparr>"
        define l where "l = decide_phase y (co_target (nt_opts s) > 1 \<or> nt_stable s \<and> co_target (nt_opts s) \<noteq> 0) ?u"
        have lv: "length ?a + (if ?c \<noteq> [] then 1 else 0) \<le> nt_level s" using na False by auto
        have yo: "y \<in> {1..nt_max_var s}" "vq_vals (dc_queue (nt_decide s)) y = 0"
          by (rule next_decision_found [OF rd full ns lv, of "use_scores ?k"], use y in simp)+
        have ly: "l = int y \<or> l = - int y"
          unfolding l_def by (rule decide_phase_lit) (use ph in \<open>simp add: ph_inv_def nt_count_def\<close>)
        then have lo: "lit_ok (nt_max_var s) l" "l \<noteq> 0" "nt_val s l = 0"
          using yo by (auto simp: lit_ok_def vidx_def nt_val_def nt_vals_def)
        have "decision_ok s (nt_level s + 1) l" using na False lo(2) by (auto simp: decision_ok_def Let_def)
        moreover have "nt_vals ?u = nt_vals s" using next_decision_frame [OF y] by (simp add: nt_vals_def)
        ultimately show ?thesis
          by (intro push [where d = "l" and u = ?u and ks = ?c and st = "nt_stats ?u" and de = d]) (use t lo in \<open>simp_all add: l_def nt_count_def\<close>)
      qed
    qed
    then show thesis using that(1) [OF ok(1)] by blast
  qed
qed

subsection \<open>Restarting keeps the invariant of the search\<close>

lemma reuse_loop_range: "res \<le> reuse_loop stops c n res \<and> reuse_loop stops c n res \<le> res + n"
proof (induction stops c n res rule: reuse_loop.induct)
  case (2 stops c n res)
  then show ?case by (cases "lv_decision (c ! (res + 1)) \<noteq> 0 \<and> stops (lv_decision (c ! (res + 1)))") (auto simp: Let_def)
qed simp

lemma backtrack_search:
  assumes inv: "search_inv F s" and n: "n \<le> nt_level s"
  obtains t where "backtrack n s = Some t" "search_inv F t" "nt_as t = nt_as s"
proof (cases "n = nt_level s")
  case True
  then show thesis using that [of s] inv by (simp add: backtrack_def)
next
  case False
  then have nl: "n < nt_level s" using n by simp
  have d: "nt_wf F s" "nt_dc_inv s" "nt_done s (nt_propagated s)" "lv_trail (nt_control s ! nt_level s) \<le> nt_propagated s"
    "nt_conflict s = None" "side_inv s" "covers F s" "co_chrono (nt_opts s) \<noteq> 0" "quiet s"
    using inv by (auto simp: search_inv_def busy_inv_def nt_ready_def split: option.splits)
  have "nt_done_for (\<lambda>_. True) s (nt_propagated s)" using d(3) by (simp add: nt_done_for_all)
  from nt_done_for_mono [OF this] have don: "nt_done_for (\<lambda>_. True) s (min (nt_propagated s) (lv_trail (nt_control s ! (n + 1))))" by simp
  obtain t where t: "backtrack n s = Some t" "nt_wf F t" "nt_dc_inv t" "nt_done_for (\<lambda>_. True) t (nt_propagated t)"
    "lv_trail (nt_control t ! nt_level t) \<le> nt_propagated t" "nt_trail t = kept_at n s (nt_trail s)" "nt_level t = n"
    "nt_control t = take (n + 1) (nt_control s)" "nt_mem t = nt_mem s" "nt_conflict t = nt_conflict s" "nt_opts t = nt_opts s"
    "\<And>l. lit_level t l = lit_level s l"
    by (rule backtrack_for_ok [OF d(1,2) nl don d(4)]) (rule that; assumption)
  have ss: "side_step s t" by (rule backtrack_side [OF t(1)])
  have "dec_inv t" by (rule dec_inv_back [OF _ same_as_eq nl d(1) t(6,7,8,12)]) (use d(6) side_step_fields(1) [OF ss] in \<open>simp_all add: side_inv_def\<close>)
  then have si: "side_inv t" by (intro side_inv_step [OF d(6) ss]) (simp_all add: t(9))
  have co: "covers F t" by (rule covers_keeps [OF d(7) kept_keeps [OF t(9,6,12)]])
  have "nt_ready F t" using t(2-5,10) d(5) by (simp add: nt_ready_def nt_done_for_all)
  then have "search_inv F t"
    using si co d(5,8,9) t(10,11) side_step_fields(10) [OF ss] by (simp add: search_inv_def busy_inv_def)
  then show thesis using that t(1) side_step_fields(1) [OF ss] by blast
qed

lemma ready_same_core:
  assumes "core_frame s t" "nt_conflict t = nt_conflict s" "nt_conflict s = None" "nt_dc_inv t" "nt_ready F s"
  shows "nt_ready F t"
proof -
  have f: "nt_level t = nt_level s" "nt_propagated t = nt_propagated s" "nt_control t = nt_control s"
    using assms(1) by (simp_all add: core_frame_def)
  show ?thesis using assms unfolding nt_ready_def by (simp add: core_frame_cong [OF assms(1)] f)
qed

text \<open>Changing only the decision queue, the heap, the mode and the counters.\<close>

lemma search_inv_decide:
  assumes inv: "search_inv F s" and t: "t = s\<lparr>nt_decide := d, nt_stable := b, nt_stats := st\<rparr>"
    and d: "nt_vals t = nt_vals s" "nt_dc_inv t"
  shows "search_inv F t"
proof -
  have core: "core_frame s t" using d(1) by (simp add: core_frame_def t)
  have b: "nt_ready F s" "nt_conflict s = None" "side_inv s" "covers F s" "co_chrono (nt_opts s) \<noteq> 0" "quiet s"
    using inv by (simp_all add: search_inv_def busy_inv_def)
  have ss: "side_step s t" using flags_id by (simp add: side_step_def t ph_inv_def)
  have "dec_inv t" by (rule dec_inv_core [of s]) (use b(3) in \<open>simp_all add: side_inv_def t\<close>)
  then have "side_inv t" by (intro side_inv_step [OF b(3) ss]) (simp_all add: t)
  moreover have "covers F t" by (rule covers_keeps [OF b(4) keeps_fields]) (simp_all add: t)
  moreover have "nt_ready F t" by (rule ready_same_core [OF core _ b(2) d(2) b(1)]) (simp add: t)
  ultimately show ?thesis using b(2,5,6) side_step_fields(10) [OF ss] by (simp add: search_inv_def busy_inv_def t)
qed

lemma restart_search:
  assumes inv: "search_inv F s" and full: "nt_propagated s = length (nt_trail s)" and ns: "\<not> satisfied s"
    and lv: "length (as_assumptions (nt_as s)) + 2 \<le> nt_level s"
  obtains t where "restart s = Some t" "search_inv F t" "nt_as t = nt_as s"
proof -
  define u where "u = nt_count (\<lambda>n. n\<lparr>cn_restarts := cn_restarts n + 1\<rparr>) s"
  have f: "nt_as u = nt_as s" "nt_level u = nt_level s" "nt_control u = nt_control s" "nt_opts u = nt_opts s" "nt_decide u = nt_decide s"
    "use_scores u = use_scores s" by (simp_all add: u_def nt_count_def use_scores_def)
  have rd: "nt_ready F s" using inv by (simp add: search_inv_def busy_inv_def)
  then have dc: "nt_dc_inv s" by (simp add: nt_ready_def)
  have iu: "search_inv F u"
    by (rule search_inv_decide [OF inv, where d = "nt_decide s" and b = "nt_stable s" and st = "(\<lambda>n. n\<lparr>cn_restarts := cn_restarts n + 1\<rparr>) (nt_stats s)"])
      (use dc in \<open>simp_all add: u_def nt_count_def nt_vals_def nt_dc_inv_def\<close>)
  let ?size = "length (as_assumptions (nt_as s))"
  define triv where "triv = ?size + (if lv_decision (nt_control s ! (?size + 1)) = 0 then 1 else 0)"
  have tl: "triv \<le> nt_level s" using lv by (simp add: triv_def)
  obtain n v where v: "reuse_trail u = Some (n, v)" "n \<le> nt_level v" "search_inv F v" "nt_as v = nt_as s"
  proof (cases "co_restartreusetrail (nt_opts s)")
    case False
    then show ?thesis using that [of triv u] tl iu by (simp add: reuse_trail_def f triv_def)
  next
    case True
    have "length (as_assumptions (nt_as s)) + (if as_constraint (nt_as s) \<noteq> [] then 1 else 0) \<le> nt_level s" using lv by simp
    then obtain y d xs where y: "next_decision_variable (use_scores s) (nt_decide s) = Some (y, d)" "dc_inv d xs" "set xs = {1..nt_max_var s}"
      by (rule next_decision_found [OF rd full ns])
    have num: "dc_num_assigned (nt_decide s) = length (nt_trail s)" using dc by (simp add: nt_dc_inv_def)
    define w where "w = u\<lparr>nt_decide := d\<rparr>"
    have iw: "search_inv F w"
      by (rule search_inv_decide [OF iu, where d = d and b = "nt_stable u" and st = "nt_stats u"])
        (use next_decision_frame [OF y(1)] y(2,3) num in \<open>auto simp: w_def u_def nt_count_def nt_vals_def nt_dc_inv_def\<close>)
    define stops where "stops = (if use_scores s then (\<lambda>decision. score_smaller (dc_stab d) (vidx decision) y)
                       else (\<lambda>decision. vq_btab (dc_queue d) (vidx decision) < vq_btab (dc_queue d) y))"
    let ?n = "reuse_loop stops (nt_control s) (nt_level s - triv) triv"
    have "use_scores w = use_scores s" using f(6) by (simp add: w_def use_scores_def)
    then have "reuse_trail u = Some (?n, w)"
      using True y(1) by (simp add: reuse_trail_def f triv_def stops_def w_def [symmetric] Let_def)
    moreover have "?n \<le> nt_level w" using reuse_loop_range [of triv stops "nt_control s" "nt_level s - triv"] tl by (simp add: w_def f)
    ultimately show ?thesis using that iw by (simp add: w_def f)
  qed
  obtain t where "backtrack n v = Some t" "search_inv F t" "nt_as t = nt_as v" by (rule backtrack_search [OF v(3,2)])
  then show thesis using that v(1,4) by (simp add: restart_def u_def [symmetric])
qed


subsection \<open>One round, and all of them\<close>

text \<open>What a round may end with, for a query that the search started with.\<close>

definition round_ok :: "clause set \<Rightarrow> ('v :: linordered_field) Internal \<Rightarrow> 'v round \<Rightarrow> bool" where
  "round_ok F s r \<longleftrightarrow>
     (case r of
        Round res t \<Rightarrow>
          res = 0 \<and> (search_inv F t \<and> same_as s t \<or> nt_unsat t \<and> unsat F)
          \<or> res = 10 \<and> models (trail_assignment t) (query F s)
          \<or> res = 20 \<and> unsat (query F s)
      | Away _ \<Rightarrow> co_otfs (nt_opts s) \<or> co_shrink (nt_opts s))"

lemma same_as_trans: "same_as s t \<Longrightarrow> same_as t u \<Longrightarrow> same_as s u"
  by (simp add: same_as_def)

lemma search_inv_propagate:
  assumes inv: "search_inv F s"
  obtains t where "propagate s = Some (nt_conflict t = None, t)" "nt_ready F t" "side_inv t" "covers F t" "quiet t" "co_chrono (nt_opts t) \<noteq> 0"
    "nt_as t = nt_as s" "nt_opts t = nt_opts s" "nt_conflict t = None \<Longrightarrow> search_inv F t \<and> nt_propagated t = length (nt_trail t)"
proof -
  have b: "nt_ready F s" "side_inv s" "covers F s" "co_chrono (nt_opts s) \<noteq> 0" "quiet s" using inv by (simp_all add: search_inv_def busy_inv_def)
  obtain t where t: "propagate s = Some (nt_conflict t = None, t)" "nt_ready F t" "nt_grown s t"
    "nt_conflict t = None \<longrightarrow> nt_propagated t = length (nt_trail t)" by (rule propagate_ok [OF b(1)])
  have ss: "side_step s t" by (rule propagate_side [OF t(1)])
  note f = side_step_fields [OF ss]
  have "dec_inv t" by (rule dec_inv_grown [OF _ t(3) f(1)]) (use b(2) in \<open>simp add: side_inv_def\<close>)
  moreover have "same_lits (nt_mem s) (nt_mem t)" using t(3) by (simp add: nt_grown_def)
  ultimately have si: "side_inv t" by (intro side_inv_step [OF b(2) ss same_lits_dom])
  have co: "covers F t" by (rule covers_keeps [OF b(3) grown_keeps [OF t(3)]])
  have q: "quiet t" "co_chrono (nt_opts t) \<noteq> 0" using b(4,5) by (simp_all add: f(7,10))
  show thesis
    by (rule that [OF t(1,2) si co q f(1,7)]) (use t(2,4) si co q in \<open>simp add: search_inv_def busy_inv_def\<close>)
qed

lemma cdcl_round_search:
  assumes inv: "search_inv F s" and so: "sort_ok std_sort" "length stack = 256"
  obtains r where "cdcl_round std_sort stack mode due s = Some r" "round_ok F s r"
proof -
  have un: "\<not> nt_unsat s" "\<not> as_unsat_constraint (nt_as s)" using inv by (simp_all add: search_inv_def busy_inv_def side_inv_def)
  obtain t where t: "propagate s = Some (nt_conflict t = None, t)" "nt_ready F t" "side_inv t" "covers F t" "quiet t" "co_chrono (nt_opts t) \<noteq> 0"
    "nt_as t = nt_as s" "nt_opts t = nt_opts s" "nt_conflict t = None \<Longrightarrow> search_inv F t \<and> nt_propagated t = length (nt_trail t)"
    by (rule search_inv_propagate [OF inv]) (rule that; assumption)
  have st: "same_as s t" by (simp add: same_as_def t(7))
  have qt: "query F t = query F s" by (simp add: query_def t(7))
  show thesis
  proof (cases "nt_conflict t")
    case (Some a)
    obtain r where r: "analyze std_sort stack t = Some r" "analyzed_ok F a t r" by (rule analyze_ok [OF t(2) Some t(3-6) so])
    have "cdcl_round std_sort stack mode due s = Some (case r of Analyzed s \<Rightarrow> Round 0 s | _ \<Rightarrow> Away r)"
      using un t(1) Some r(1) by (simp add: cdcl_round_def)
    moreover have "round_ok F s (case r of Analyzed s \<Rightarrow> Round 0 s | _ \<Rightarrow> Away r)"
      using r(2) t(7,8) by (cases r) (auto simp: analyzed_ok_def round_ok_def same_as_def)
    ultimately show thesis by (rule that)
  next
    case None
    then have it: "search_inv F t" and full: "nt_propagated t = length (nt_trail t)" using t(9) by simp_all
    have bt: "busy_inv F t" using it by (simp add: search_inv_def)
    have go: "cdcl_round std_sort stack mode due s =
      (if nt_iterating t then Some (Round 0 (iterate t)) else if satisfied t then Some (Round 10 t)
       else (let (again, s) = restarting mode due t in
             if again then map_option (Round 0) (restart s) else map_option (\<lambda>(res, s). Round res s) (decide s)))"
      using un t(1) None by (simp add: cdcl_round_def)
    consider (it) "nt_iterating t" | (sat) "\<not> nt_iterating t" "satisfied t" | (on) "\<not> nt_iterating t" "\<not> satisfied t" by blast
    then show thesis
    proof cases
      case it
      have "an_frame t (iterate t)" by (simp add: iterate_def an_frame_def)
      then have "busy_inv F (iterate t)" by (rule busy_inv_frame [OF bt])
      moreover have "quiet (iterate t)" using t(5) by (simp add: quiet_def iterate_def)
      ultimately have "round_ok F s (Round 0 (iterate t))" using t(7) by (simp add: round_ok_def search_inv_def same_as_def iterate_def)
      then show thesis using that go it by simp
    next
      case sat
      then have "round_ok F s (Round 10 t)" using satisfied_model [OF bt full] by (simp add: round_ok_def qt)
      then show thesis using that go sat by simp
    next
      case on
      obtain again v where v: "restarting mode due t = (again, v)" by fastforce
      have iv: "search_inv F v" "nt_as v = nt_as t" "nt_propagated v = length (nt_trail v)" "\<not> satisfied v" "nt_level v = nt_level t"
      proof -
        have s: "search_inv F (t\<lparr>nt_stable := mode\<rparr>)"
          by (rule search_inv_decide [OF it, where d = "nt_decide t" and b = mode and st = "nt_stats t"])
            (use t(2) in \<open>simp_all add: nt_vals_def nt_dc_inv_def nt_ready_def\<close>)
        show "search_inv F v" using v s it by (auto simp: restarting_def split: if_splits)
        show "nt_as v = nt_as t" "nt_propagated v = length (nt_trail v)" "\<not> satisfied v" "nt_level v = nt_level t"
          using v full on(2) by (auto simp: restarting_def satisfied_def split: if_splits)
      qed
      have sv: "same_as s v" "query F v = query F s" using iv(2) t(7) by (simp_all add: same_as_def query_def)
      show thesis
      proof (cases again)
        case True
        then have "length (as_assumptions (nt_as v)) + 2 \<le> nt_level v" using v iv(2,5) by (auto simp: restarting_def split: if_splits)
        then obtain w where w: "restart v = Some w" "search_inv F w" "nt_as w = nt_as v" by (rule restart_search [OF iv(1,3,4)])
        have "round_ok F s (Round 0 w)" using w sv by (simp add: round_ok_def same_as_def)
        then show thesis using that go on v True w(1) by simp
      next
        case False
        then have g: "cdcl_round std_sort stack mode due s = map_option (\<lambda>(res, s). Round res s) (decide v)" using go on v by simp
        show thesis
        proof (rule decide_search [OF iv(1,3,4)])
          fix w assume w: "decide v = Some (0, w)" "search_inv F w" "same_as v w"
          have "round_ok F s (Round 0 w)" using w same_as_trans [OF sv(1)] by (simp add: round_ok_def)
          then show thesis using that g w(1) by simp
        next
          fix w assume w: "decide v = Some (20, w)" "unsat (query F v)"
          then have "round_ok F s (Round 20 w)" by (simp add: round_ok_def sv(2))
          then show thesis using that g w(1) by simp
        qed
      qed
    qed
  qed
qed

lemma cdcl_run_search:
  assumes "cdcl_run std_sort stack s t" "search_inv F s" "sort_ok std_sort" "length stack = 256"
  shows "search_inv F t \<and> same_as s t \<or> nt_unsat t \<and> unsat F"
  using assms
proof (induction rule: cdcl_run.induct)
  case start
  then show ?case by simp
next
  case (round t mode due u)
  then consider "search_inv F t" "same_as s t" | "nt_unsat t" "unsat F" by blast
  then show ?case
  proof cases
    case 1
    obtain r where "cdcl_round std_sort stack mode due t = Some r" "round_ok F t r"
      by (rule cdcl_round_search [OF 1(1) round.prems(2,3)])
    then show ?thesis using round.hyps(2) same_as_trans [OF 1(2)] by (auto simp: round_ok_def)
  next
    case 2
    then show ?thesis using round.hyps(2) by (simp add: cdcl_round_def)
  qed
qed

end
