(* ===== verification/Cdcl_Answers.thy ===== *)
theory Cdcl_Answers
  imports Cdcl_Main Cdcl_Search
begin

text \<open>The properties of conflict analysis as a whole and of the search: it resumes, and its answers are right.\<close>

subsection \<open>A state to start from\<close>

definition demo_sort :: "(int \<Rightarrow> 64 word) \<Rightarrow> int list \<Rightarrow> int list" where
  "demo_sort rank xs = sort_key rank xs"

lemma demo_sort_ok: "sort_ok demo_sort"
  by (simp add: sort_ok_def demo_sort_def)

lemma demo_search: "search_inv demo_formula demo_start"
proof -
  have ph: "ph_inv demo_start" "as_inv demo_start" by (simp_all add: ph_inv_def as_inv_def demo_start_def)
  have "addr_inv demo_start" by (simp add: addr_inv_def demo_start_def)
  moreover have "dec_inv demo_start" by (simp add: dec_inv_def demo_fields(2))
  ultimately have "side_inv demo_start" using ph by (simp add: side_inv_def demo_start_def)
  moreover have "covers demo_formula demo_start"
    unfolding covers_def demo_formula_def demo_fields(10)
    by (intro ballI disjI1) (elim insertE emptyE; force simp: demo_clause_def)
  moreover have "quiet demo_start" by (simp add: quiet_def demo_fields(8,9) clean_def demo_flags_def)
  ultimately show ?thesis using demo_ready by (simp add: search_inv_def busy_inv_def demo_fields(6)) (simp add: demo_start_def)
qed

lemma demo_conflict_side:
  "nt_ready demo_formula demo_conflict" "side_inv demo_conflict" "covers demo_formula demo_conflict" "quiet demo_conflict"
  "nt_opts demo_conflict = nt_opts demo_start"
proof -
  let ?u = "search_assign (- 2) (Clause_reason 0) demo_decided"
  let ?t = "search_assign 3 (Clause_reason 1) ?u"
  have "search_inv demo_formula demo_decided \<and> same_as demo_start demo_decided"
    by (rule pushed_search [OF demo_search demo_decided_ready(1,4), where d = 1 and u = demo_start and ks = "as_constraint (nt_as demo_start)" and st = "nt_stats demo_start" and de = "nt_decide demo_start"])
      (simp, simp_all add: demo_fields demo_decided_def decision_ok_def lit_ok_def vidx_def nt_val_def)
  then have s: "side_inv demo_decided" "covers demo_formula demo_decided" "quiet demo_decided" by (simp_all add: search_inv_def busy_inv_def)
  have wf: "nt_wf demo_formula demo_conflict" by (rule demo_conflict_ok(1))
  have ti: "nt_trail_inv demo_decided" using demo_decided_ready(1) by (simp add: nt_ready_def nt_wf_def)
  have mv: "nt_max_var demo_decided = 3"
    by (simp add: demo_decided_def search_assume_decision_def new_trail_level_def search_assign_fields demo_fields(1))
  have v1: "nt_val demo_decided (- 2) = 0" "lit_ok (nt_max_var demo_decided) (- 2)"
    by (simp_all add: nt_val_trail [OF ti] trail_val_def demo_decided_ready(3) mv lit_ok_def vidx_def)
  have "nt_wf demo_formula demo_decided" using demo_decided_ready(1) by (simp add: nt_ready_def)
  moreover have "nt_mem demo_decided = nt_mem demo_start"
    by (simp add: demo_decided_def search_assume_decision_def new_trail_level_def search_assign_fields)
  then have "assignable demo_formula (- 2) (Clause_reason 0) demo_decided"
    using v1 by (simp add: assignable_def demo_decided_ready(3) demo_fields(10) demo_clause_def)
  ultimately have t1: "nt_trail_inv ?u" using search_assign_wf by (auto simp: nt_wf_def)
  have v2: "nt_val ?u 3 = 0" "lit_ok (nt_max_var ?u) 3"
    by (simp_all add: nt_val_trail [OF t1] trail_val_def search_assign_fields demo_decided_ready(3) mv lit_ok_def vidx_def)
  have si: "side_inv ?t" by (rule side_inv_assign [OF side_inv_assign [OF s(1) ti v1] t1 v2])
  have co: "covers demo_formula ?t" by (rule covers_assign [OF covers_assign [OF s(2) ti v1] t1 v2])
  have ss: "side_step demo_decided demo_conflict" unfolding demo_conflict_def by (intro side_step_up side_step_refl)
  show "quiet demo_conflict" using side_step_fields(10) [OF ss] s(3) by simp
  have "dec_inv demo_conflict" by (rule dec_inv_core [of ?t]) (use si in \<open>simp_all add: side_inv_def demo_conflict_def\<close>)
  then show "side_inv demo_conflict" by (intro side_inv_step [OF si]) (simp_all add: demo_conflict_def)
  show "covers demo_formula demo_conflict" by (rule covers_keeps [OF co keeps_fields]) (simp_all add: demo_conflict_def)
  have "nt_opts demo_conflict = nt_opts demo_decided" using side_step_fields(7) [OF ss] by simp
  also have "\<dots> = nt_opts demo_start" by (simp add: demo_decided_def search_assume_decision_def new_trail_level_def search_assign_fields)
  finally show "nt_opts demo_conflict = nt_opts demo_start" .
  have f: "lv_trail (nt_control demo_conflict ! nt_level demo_conflict) = 0" "nt_dc_inv demo_conflict"
  proof -
    show "lv_trail (nt_control demo_conflict ! nt_level demo_conflict) = 0"
      by (simp add: demo_conflict_def demo_decided_def search_assume_decision_def new_trail_level_def search_assign_fields demo_fields new_level_def)
    have "nt_dc_inv demo_decided" using demo_decided_ready(1) by (simp add: nt_ready_def)
    from nt_dc_inv_assign [OF this] have "nt_dc_inv ?u" using v1(2) by (simp add: lit_ok_def)
    from nt_dc_inv_assign [OF this] have "nt_dc_inv ?t" using v2(2) by (simp add: lit_ok_def)
    then show "nt_dc_inv demo_conflict" by (simp add: demo_conflict_def nt_dc_inv_def)
  qed
  show "nt_ready demo_formula demo_conflict"
    using wf f demo_conflict_ok(3,4) by (simp add: nt_ready_def nt_done_def)
qed

lemma demo_satisfiable: "\<not> unsat demo_formula"
proof -
  have "models (\<lambda>v. v = 2) demo_formula"
    by (auto simp: models_def clause_true_def lit_true_def demo_formula_def demo_clause_def)
  then show ?thesis by (auto simp: unsat_def)
qed

subsection \<open>The search\<close>

text \<open>
  C2: the search never gets stuck and its answers are right.  From any state that rounds of the loop lead
  to, whatever restarts are due, the next round returns (chronological backtracking is on, as the
  invariant says).  It goes on, or stops at on-the-fly strengthening or shrinking where these options are
  on, as they are by default; or it answers 10, and the assignment satisfies
  the formula, all assumptions and the constraint; or it answers 20, and together they are unsatisfiable.
\<close>

theorem cdcl_answers_sound:
  fixes s :: "('v :: linordered_field) Internal"
  assumes "search_inv F s" and "sort_ok std_sort" and "length stack = 256" and "cdcl_run std_sort stack s t"
  shows "\<exists>r. cdcl_round std_sort stack mode due t = Some r \<and>
    (case r of
       Round res u \<Rightarrow> res = 0
         \<or> res = 10 \<and> models (trail_assignment u) (query F s)
         \<or> res = 20 \<and> unsat (query F s)
     | Away _ \<Rightarrow> co_otfs (nt_opts t) \<or> co_shrink (nt_opts t))"
proof -
  consider "search_inv F t" "same_as s t" | "nt_unsat t" "unsat F" using cdcl_run_search [OF assms(4,1-3)] by blast
  then show ?thesis
  proof cases
    case 1
    obtain r where "cdcl_round std_sort stack mode due t = Some r" "round_ok F t r" by (rule cdcl_round_search [OF 1(1) assms(2,3)])
    then show ?thesis using query_same [OF 1(2)] by (intro exI [of _ r]) (auto simp: round_ok_def unsat_def split: round.splits)
  next
    case 2
    then show ?thesis using query_unsat by (intro exI [of _ "Round 20 t"]) (simp add: cdcl_round_def)
  qed
qed

theorem cdcl_answers_sound_witness:
  "\<exists>res u. cdcl_round demo_sort (replicate 256 0) False False demo_start = Some (Round res u) \<and>
     (res = 0 \<or> res = 10 \<and> models (trail_assignment u) (query demo_formula demo_start) \<or> res = 20 \<and> unsat (query demo_formula demo_start))"
proof -
  have "length (replicate 256 (0 :: nat)) = 256" by simp
  from cdcl_answers_sound [OF demo_search demo_sort_ok this cdcl_run.start, of False False] obtain r where
    r: "cdcl_round demo_sort (replicate 256 0) False False demo_start = Some r" "case r of
       Round res u \<Rightarrow> res = 0 \<or> res = 10 \<and> models (trail_assignment u) (query demo_formula demo_start)
         \<or> res = 20 \<and> unsat (query demo_formula demo_start)
     | Away _ \<Rightarrow> co_otfs (nt_opts demo_start) \<or> co_shrink (nt_opts demo_start)" by blast
  have "\<not> co_otfs (nt_opts demo_start)" "\<not> co_shrink (nt_opts demo_start)" by (simp_all add: demo_start_def)
  then show ?thesis using r by (cases r) auto
qed

text \<open>
  C3: from every conflict \<open>a\<close> that propagation leaves, with the marks cleared and chronological backtracking
  on, the whole of conflict analysis returns, whatever level the conflict is on.  When it runs to its end,
  either the formula is unsatisfiable and the empty clause is learned, or exactly one literal \<open>l\<close> is driven:
  the trail loses the levels above the new one, \<open>l\<close>, which was false above it, is appended, and either \<open>l\<close>
  follows from the formula and is fixed at level zero, or its reason is a clause that follows from the
  formula, with \<open>l\<close> in front, all other literals false and the second one on the highest of their levels, the
  level of \<open>l\<close>.  That clause is the conflict itself, or a new redundant one, last in the list and
  watched at its first two literals.  The search then goes on from a state that keeps its whole invariant:
  no conflict is left, all that counts as propagated is propagated, no irredundant clause is lost and no mark
  is left.  Analysis stops before only where on-the-fly strengthening or shrinking is on (as it is by
  default): with a reason that can drop a literal, or with the first UIP clause, implied and falsified.
\<close>

theorem analyze_resumes_search:
  fixes s :: "('v :: linordered_field) Internal"
  assumes "nt_ready F s" and "nt_conflict s = Some a" and "side_inv s" and "covers F s" and "quiet s"
    and "co_chrono (nt_opts s) \<noteq> 0" and "sort_ok std_sort" and "length stack = 256"
  shows "\<exists>r. analyze std_sort stack s = Some r \<and>
    (case r of
       Analyzed t \<Rightarrow> nt_unsat t \<and> unsat F
         \<or> search_inv F t \<and> nt_as t = nt_as s
           \<and> (\<exists>l. - l \<in> set (nt_trail s) \<and> nt_level t < lit_level s l
                \<and> nt_trail t = filter (\<lambda>k. lit_level s k \<le> nt_level t) (nt_trail s) @ [l]
                \<and> (lit_level t l = 0 \<and> entails F [l] \<and> nt_clauses t = nt_clauses s
                   \<or> (\<exists>b c. va_reason (nt_var t l) = Clause_reason b \<and> nt_mem t b = Some c \<and> entails F (so_literals c)
                        \<and> so_literals c ! 0 = l \<and> lit_level t (so_literals c ! 1) = lit_level t l
                        \<and> (\<forall>k \<in> set (so_literals c). k \<noteq> l \<longrightarrow> - k \<in> set (nt_trail t) \<and> lit_level t k \<le> lit_level t l)
                        \<and> (b = a \<and> nt_clauses t = nt_clauses s
                           \<or> nt_mem s b = None \<and> nt_clauses t = nt_clauses s @ [b] \<and> so_redundant c \<and> \<not> so_garbage c
                             \<and> watched (nt_wtab t) (so_literals c ! 0) b \<and> watched (nt_wtab t) (so_literals c ! 1) b))))
     | To_strengthen b u _ t \<Rightarrow> co_otfs (nt_opts s) \<and> otfs_clause F b u t
     | To_shrink u t \<Rightarrow> co_shrink (nt_opts s) \<and> uip_clause F u t)"
  unfolding driven_def [symmetric] by (rule analyze_ok [OF assms]) (auto simp: analyzed_ok_def split: analyzed.splits)

theorem analyze_resumes_search_witness:
  "\<exists>t l. analyze demo_sort (replicate 256 0) demo_conflict = Some (Analyzed t) \<and> search_inv demo_formula t
     \<and> - l \<in> set (nt_trail demo_conflict) \<and> l \<in> set (nt_trail t) \<and> nt_level t < lit_level demo_conflict l"
proof -
  have o: "co_chrono (nt_opts demo_conflict) \<noteq> 0" "\<not> co_otfs (nt_opts demo_conflict)" "\<not> co_shrink (nt_opts demo_conflict)"
    by (simp_all add: demo_conflict_side(5)) (simp_all add: demo_start_def)
  have sat: "\<not> unsat demo_formula" by (simp add: demo_satisfiable)
  have "length (replicate 256 (0 :: nat)) = 256" by simp
  from analyze_resumes_search [OF demo_conflict_side(1) demo_conflict_ok(3) demo_conflict_side(2-4) o(1) demo_sort_ok this,
      unfolded driven_def [symmetric]] obtain r where
    r: "analyze demo_sort (replicate 256 0) demo_conflict = Some r" "case r of
       Analyzed t \<Rightarrow> nt_unsat t \<and> unsat demo_formula
         \<or> search_inv demo_formula t \<and> nt_as t = nt_as demo_conflict \<and> driven demo_formula 2 demo_conflict t
     | To_strengthen b u _ t \<Rightarrow> co_otfs (nt_opts demo_conflict) \<and> otfs_clause demo_formula b u t
     | To_shrink u t \<Rightarrow> co_shrink (nt_opts demo_conflict) \<and> uip_clause demo_formula u t" by blast
  then obtain t where t: "r = Analyzed t" "search_inv demo_formula t" "driven demo_formula 2 demo_conflict t"
    using o sat by (cases r) auto
  then obtain l where "- l \<in> set (nt_trail demo_conflict)" "l \<in> set (nt_trail t)" "nt_level t < lit_level demo_conflict l"
    unfolding driven_def by (metis in_set_conv_decomp)
  then show ?thesis using r(1) t(1,2) by blast
qed

end
