(* ===== verification/Spec2Isabelle.thy ===== *)
theory Spec2Isabelle
  imports Checker_Main Lrat_Main Decide_Main Tracer_Main Extension_Main Cdcl_Answers
begin

text \<open>
  Verification of the SAT solver CaDiCaL under \<^verbatim>\<open>src/cadical/src\<close>, the C++ part of the
  repository: the core of its search, its decision heuristics, the stack that extends assignments to
  eliminated variables, its online proof checkers and its proof tracers.

  \<^bold>\<open>The program.\<close>  The solver logs every clause it learns or deletes through a proof object to any
  number of tracers.  Two of them are checkers that run inside the process (\<^verbatim>\<open>checker.cpp\<close> by unit
  propagation, \<^verbatim>\<open>lratchecker.cpp\<close> along antecedent chains); six write proof files
  (\<^verbatim>\<open>drattracer.cpp\<close>, \<^verbatim>\<open>lrattracer.cpp\<close>, \<^verbatim>\<open>frattracer.cpp\<close>, \<^verbatim>\<open>veripbtracer.cpp\<close>,
  \<^verbatim>\<open>idruptracer.cpp\<close>, \<^verbatim>\<open>lidruptracer.cpp\<close>) through \<^verbatim>\<open>file.hpp\<close>.  The search picks decision
  variables from a queue or a score heap (\<^verbatim>\<open>queue.cpp\<close>, \<^verbatim>\<open>heap.hpp\<close>, \<^verbatim>\<open>decide.cpp\<close>), with helpers
  for random numbers and radix sorting, propagates assignments over watched clauses
  (\<^verbatim>\<open>propagate.cpp\<close>), analyzes conflicts into learned clauses (\<^verbatim>\<open>analyze.cpp\<close>, \<^verbatim>\<open>minimize.cpp\<close>) and
  backtracks (\<^verbatim>\<open>backtrack.cpp\<close>).  Clauses removed by simplification go to the extension stack
  (\<^verbatim>\<open>extend.cpp\<close>), from which a model is extended, or the clauses restored when their variables come
  back (\<^verbatim>\<open>restore.cpp\<close>).

  \<^bold>\<open>Theories.\<close>
  \<^item> \<open>Prelude\<close>: CNF semantics (\<open>models\<close>, \<open>entails\<close>, \<open>unsat\<close>), C vectors, the outcome type (\<open>Ok\<close>,
    \<open>Fatal\<close> for an abort with a message, \<open>Diverge\<close> for a loop that never ends).
  \<^item> \<open>Random_Gen\<close> (\<^verbatim>\<open>random.hpp\<close>): the 64-bit generator and its integer choices, double rounding
    included.
  \<^item> \<open>Hash_Table\<close>: what the checkers share: literal indices, nonces, bucket reduction, rehashing.
  \<^item> \<open>Checker\<close>, \<open>Checker_Inv\<close>, \<open>Checker_Sound\<close>, \<open>Checker_Delete\<close>, \<open>Checker_Main\<close> (class
    \<^verbatim>\<open>Checker\<close>): the state is the record \<open>Checker\<close>, each member function one definition \<open>ck_...\<close>;
    the invariant \<open>ck_inv F s\<close> relates the state to the formula \<open>F\<close> it was given; the properties are
    soundness of accepted proofs, termination of propagation, exact deletion, memory.
  \<^item> \<open>Lrat_Checker\<close>, \<open>Lrat_Sound\<close>, \<open>Lrat_Proof\<close>, \<open>Lrat_Main\<close> (class \<^verbatim>\<open>LratChecker\<close>): definitions
    \<open>lr_...\<close>; \<open>lr_session\<close> is the step relation of accepted calls, with its invariant by rule
    induction; soundness of derived clauses, of the conclusions, weakening and restoring.
  \<^item> \<open>Proof_Check\<close>: the interface of a checker as the locale \<open>proof_checker\<close>, interpreted for the
    checker; proofs as lists of steps.
  \<^item> \<open>Heap\<close>, \<open>Scores\<close>, \<open>Vmtf\<close>, \<open>Decide\<close>, \<open>Radix\<close>, \<open>Decide_Main\<close>: the binary heap over an order
    given by the locale \<open>heap_order\<close>, the decision queue as a doubly linked list with time stamps,
    the next decision variable, unassigning, shuffling, radix sort.
  \<^item> \<open>Proof_File\<close> (\<^verbatim>\<open>file.hpp\<close>): what tracers write, and readers for numbers.
  \<^item> \<open>Clause_Tracers\<close>, \<open>Tracer_Codes\<close>: DRAT, LRAT and FRAT with decoders for both formats; the
    locales \<open>number_code\<close> and \<open>step_code\<close> carry the round trips.
  \<^item> \<open>Id_Table\<close>: the hash table of identifiers of the other three tracers, with the locale
    \<open>id_store\<close> as its contract (a multiset, and a map when identifiers are distinct);
    \<open>Veripb_Tracer\<close>, \<open>Idrup_Tracer\<close>, \<open>Lidrup_Tracer\<close>, \<open>Tracer_Main\<close>: the tracers refine
    specifications that have the map in place of the table and lines in place of bytes.

  \<^item> \<open>Extension\<close>, \<open>Extension_Sound\<close>, \<open>Restore\<close>, \<open>Extension_Main\<close> (\<^verbatim>\<open>extend.cpp\<close>, \<^verbatim>\<open>restore.cpp\<close> and
    the variable maps of \<^verbatim>\<open>external.cpp\<close>): the stack is a list of integers as in the code, with a
    view of it as a list of clauses, witnesses and identifiers; extending an assignment satisfies
    every clause that was redundant when it was pushed, and restoring keeps that so.
  \<^item> \<open>Cdcl\<close>: the search state \<open>Internal\<close> (its queue and heap are the record of \<open>Decide\<close>), assigning
    and propagating; \<open>Cdcl_Inv\<close>: the invariant \<open>nt_wf F s\<close> of trail, levels, reasons, clauses and
    watches, for levels out of order as chronological backtracking makes them, and \<open>nt_done\<close>, what
    propagation has achieved; \<open>Cdcl_Propagate\<close>, \<open>Cdcl_Bcp\<close>: the inner and the outer loop of
    propagation; \<open>Cdcl_Back\<close>: backtracking, phases and deciding; \<open>Cdcl_Analyze\<close>, \<open>Cdcl_Uip\<close>: the
    first UIP clause and why it is implied; \<open>Cdcl_Minimize\<close>: recursive minimization and the walk
    that collects its antecedents; \<open>Cdcl_Learn\<close>: the level of a conflict, the level to backtrack to,
    the driving clause and eager subsumption; \<open>Cdcl_Drive\<close>: assigning with the driving clause;
    \<open>Cdcl_Bump\<close>: scores and time stamps after a conflict; \<open>Cdcl_Side\<close>: what every step keeps of
    phases, assumptions, decisions, clause list and marks; \<open>Cdcl_Conflict\<close>: all of \<^verbatim>\<open>analyze\<close>,
    with \<open>driven\<close>, the literal it drives and the clause that drives it;
    \<open>Cdcl_Search\<close>: restarts (\<^verbatim>\<open>restart.cpp\<close>) and one round of the loop in \<^verbatim>\<open>internal.cpp\<close>, with the
    relation \<open>cdcl_run\<close> of the states that rounds lead to; \<open>Cdcl_Demo\<close>: a small state for the
    witnesses; \<open>Cdcl_Main\<close>, \<open>Cdcl_Answers\<close>: the properties.  \<open>nt_ready F s\<close> is the invariant between the
    operations: \<open>nt_wf\<close>, the decision heuristics in order, and what is marked as propagated
    propagated.  \<open>search_inv F s\<close> is that of the search between two rounds: \<open>nt_ready\<close>, no conflict,
    decisions that follow the assumptions and the constraint (\<open>dec_inv\<close>), every clause of \<open>F\<close> still
    covered by an irredundant one or by a unit (\<open>covers\<close>), no marks left (\<open>quiet\<close>).

  \<^bold>\<open>Bounds.\<close>  Machine integers are words or integers with their range as a hypothesis: literals are
  C integers other than 0 and \<^verbatim>\<open>INT_MIN\<close> (\<open>valid_clause\<close>).  Table sizes double; the theorems ask
  for fewer than \<open>2 ^ 62\<close> insertions or for a table below \<open>2 ^ 63\<close>, so that the doubling cannot wrap.
  Loops whose end depends on the data are \<open>partial_function (option)\<close> and proved to return; the fuel
  of the readers is the length of the input, enough because every item takes a character.  The search
  asks that the variables and assumptions together stay below \<open>2 ^ 31\<close>, which bounds the levels, and
  that chronological backtracking is on, as it is by default.  Scores are elements of any ordered
  field, so that the rounding of doubles is left out.  That the search ends is not claimed, only that
  every round returns and that its answers are right.

  \<^bold>\<open>Not modelled.\<close>  Of the search: shrinking and on-the-fly strengthening beyond the choice of the
  clause to strengthen, where the modelled analysis stops with \<open>To_shrink\<close> and \<open>To_strengthen\<close> (both
  are on by default and can be switched off); the moving averages and limits that say when to restart,
  whose answers are arguments of a round; reduction of the clause database, rephasing, an external
  propagator; the proof lines and statistics of clauses marked as garbage.  Inprocessing, the public interface, printing, statistics that
  nothing reads, signals and option handling; opening files and pipes; the Python front end, which
  only prepares input for the solver.  Writing to a file is taken to succeed.
\<close>

end
